(* ===== verification/CPrelude.thy ===== *)
theory CPrelude
  imports Main "HOL-Library.Word"
begin

text \<open>
  What every component of the model shares: the machine integers of the C code, the way a
  C function can end, and the list and counter lemmas the proofs of several components use.
\<close>

section \<open>Machine integers\<close>

type_synonym u8 = "8 word"
type_synonym u32 = "32 word"
type_synonym u64 = "64 word"

section \<open>How a C function ends\<close>

text \<open>
  A function of the kernel returns, or it stops the machine: \<open>system_error\<close> and
  \<open>hal_sysdie\<close> print a message and never return (\<open>Panic\<close>, with the message), and an
  access through a pointer that points at no object of the model is undefined behaviour
  in C (\<open>Fault\<close>).
\<close>

datatype stop = Panic string | Fault

type_synonym 'a run = "stop + 'a"

definition andthen :: "'a run \<Rightarrow> ('a \<Rightarrow> 'b run) \<Rightarrow> 'b run" where
  "andthen m f = (case m of Inl e \<Rightarrow> Inl e | Inr x \<Rightarrow> f x)"

definition require :: "bool \<Rightarrow> string \<Rightarrow> unit run" where
  "require ok msg = (if ok then Inr () else Inl (Panic msg))"

definition returns :: "'a run \<Rightarrow> bool" where
  "returns m \<longleftrightarrow> (\<exists>x. m = Inr x)"

named_theorems run_simps \<open>evaluation of sequenced runs\<close>

lemma andthen_simps [simp, run_simps]:
  "andthen (Inl e) f = Inl e"
  "andthen (Inr x) f = f x"
  by (simp_all add: andthen_def)

lemma andthen_eq_Inr [run_simps]:
  "andthen m f = Inr y \<longleftrightarrow> (\<exists>x. m = Inr x \<and> f x = Inr y)"
  by (cases m) simp_all

lemma andthenE:
  assumes "andthen m f = Inr y"
  obtains x where "m = Inr x" and "f x = Inr y"
  using assms by (auto simp: andthen_eq_Inr)

lemma require_simps [simp, run_simps]:
  "require True msg = Inr ()"
  "require False msg = Inl (Panic msg)"
  by (simp_all add: require_def)

lemma require_Inr [run_simps]: "require ok msg = Inr u \<longleftrightarrow> ok"
  by (cases u) (simp add: require_def)

lemma returns_simps [simp]: "returns (Inr x)" "\<not> returns (Inl e)"
  by (simp_all add: returns_def)

section \<open>Counters held in machine words\<close>

text \<open>
  The code keeps the length of a list in a \<open>uint_t\<close> beside the list. The word equals
  \<open>of_nat\<close> of the length; the increment and decrement then need no range condition, and
  a test against zero needs that the length is below \<open>2 ^ 64\<close>.
\<close>

lemma u64_of_nat [simp]: "n < 2 ^ 64 \<Longrightarrow> unat (of_nat n :: u64) = n"
  by (simp add: unat_of_nat)

lemma cnt_zero_iff:
  assumes "n < 2 ^ 64"
  shows "(of_nat n :: u64) = 0 \<longleftrightarrow> n = 0"
proof
  assume "(of_nat n :: u64) = 0"
  then have "unat (of_nat n :: u64) = 0"
    by simp
  with assms show "n = 0"
    by (simp only: u64_of_nat)
qed simp

lemma cnt_less_1:
  assumes "n < 2 ^ 64"
  shows "(of_nat n :: u64) < 1 \<longleftrightarrow> n = 0"
  using cnt_zero_iff [OF assms] by simp

lemma cnt_max:
  assumes "n < 2 ^ 64 - 1"
  shows "\<not> (- 1 :: u64) \<le> of_nat n"
proof -
  have "unat (of_nat n :: u64) < unat (- 1 :: u64)"
    using assms by (simp add: unsigned_minus_1_eq_mask mask_eq_exp_minus_1)
  then show ?thesis
    by (simp add: word_le_nat_alt)
qed

lemma of_nat_remove1:
  assumes "x \<in> set xs"
  shows "(of_nat (length (remove1 x xs)) :: u64) = of_nat (length xs) - 1"
proof -
  from assms obtain n where "length xs = Suc n"
    by (cases xs) auto
  with assms show ?thesis
    by (simp add: length_remove1)
qed

section \<open>Masks\<close>

lemma and_not_minus: "and x (not m) = x - and x m" for x m :: u64
proof -
  have "x - (and x m) = and x (not (and x m))"
    by (rule disjunctive_diff) (simp add: bit_and_iff)
  also have "\<dots> = and x (not m)"
    by (rule bit_eqI) (auto simp: bit_and_iff bit_not_iff bit_or_iff)
  finally show ?thesis by simp
qed

end
