(* ===== verification/MemTypes.thy ===== *)
theory MemTypes
  imports CPrelude
begin

text \<open>
  The data of the physical memory manager (\<open>msadsc_t.h\<close>, \<open>memarea_t.h\<close>,
  \<open>memmgrinit_t.h\<close>): one descriptor per physical page in the array
  \<open>mo_msadscstat\<close>, one \<open>memarea\<close> per zone, and per zone 52 lists of free blocks of
  \<open>2 ^ k\<close> pages plus one list of single pages.

  A \<open>msadsc_t*\<close> is an index into the descriptor array, a \<open>bafhlst_t*\<close> is the index of
  its area with the list it is, and \<open>md_odlink\<close>, a \<open>void*\<close> of the code that holds one
  or the other, is a sum of the two. The intrusive lists are HOL lists of the indices
  they link, in the order of the links. Locks are left out: every
  operation runs with its lock held and interrupts off. Fields that no code outside the
  initialisers reads are left out of the records.
\<close>

section \<open>Page descriptors\<close>

datatype olkty = MF_OLKTY_INIT | MF_OLKTY_ODER | MF_OLKTY_BAFH | MF_OLKTY_TOBJ

datatype bafsel = Lie nat | Onem

type_synonym bafref = "nat \<times> bafsel"

datatype odlink = OdNull | OdMsa nat | OdBafh bafref

record msadsc =
  mf_olkty :: olkty
  mf_mocty :: "2 word"
  mf_marty :: "3 word"
  mf_uindx :: "24 word"
  paf_alloc :: bool
  paf_padrs :: "52 word"
  md_odlink :: odlink

definition MF_MOCTY_FREE :: "2 word" where "MF_MOCTY_FREE = 0"
definition MF_MOCTY_KRNL :: "2 word" where "MF_MOCTY_KRNL = 1"
definition MF_MOCTY_USER :: "2 word" where "MF_MOCTY_USER = 2"

definition MF_MARTY_INIT :: "3 word" where "MF_MARTY_INIT = 0"
definition MF_MARTY_HWD :: "3 word" where "MF_MARTY_HWD = 1"
definition MF_MARTY_KRL :: "3 word" where "MF_MARTY_KRL = 2"
definition MF_MARTY_PRC :: "3 word" where "MF_MARTY_PRC = 3"
definition MF_MARTY_SHD :: "3 word" where "MF_MARTY_SHD = 4"

definition MF_UINDX_MAX :: "24 word" where "MF_UINDX_MAX = 0xffffff"

definition PSHRSIZE :: nat where "PSHRSIZE = 12"
definition PAGESIZE :: u64 where "PAGESIZE = push_bit PSHRSIZE 1"

definition msadsc_t_init :: msadsc where
  "msadsc_t_init =
     \<lparr>mf_olkty = MF_OLKTY_INIT, mf_mocty = MF_MOCTY_FREE, mf_marty = MF_MARTY_INIT,
      mf_uindx = 0, paf_alloc = False, paf_padrs = 0, md_odlink = OdNull\<rparr>"

text \<open>\<open>md_phyadrs.paf_padrs << PSHRSIZE\<close>, the physical address of a page.\<close>

definition msa_phyadr :: "msadsc \<Rightarrow> u64" where
  "msa_phyadr m = push_bit PSHRSIZE (ucast (paf_padrs m))"

definition write_one_msadsc :: "u64 \<Rightarrow> msadsc" where
  "write_one_msadsc phyadr =
     msadsc_t_init\<lparr>paf_padrs := ucast (drop_bit PSHRSIZE phyadr)\<rparr>"

section \<open>Free lists, areas, the memory manager\<close>

record bafhlst =
  af_stus :: u32
  af_oder :: u64
  af_oderpnr :: u64
  af_fobjnr :: u64
  af_mobjnr :: u64
  af_alcindx :: u64
  af_freindx :: u64
  af_frelst :: "nat list"

definition BAFH_STUS_INIT :: u32 where "BAFH_STUS_INIT = 0"
definition BAFH_STUS_ONEM :: u32 where "BAFH_STUS_ONEM = 1"
definition BAFH_STUS_DIVP :: u32 where "BAFH_STUS_DIVP = 2"
definition BAFH_STUS_DIVM :: u32 where "BAFH_STUS_DIVM = 3"

definition bafhlst_t_init :: "u32 \<Rightarrow> u64 \<Rightarrow> u64 \<Rightarrow> bafhlst" where
  "bafhlst_t_init stus oder oderpnr =
     \<lparr>af_stus = stus, af_oder = oder, af_oderpnr = oderpnr, af_fobjnr = 0,
      af_mobjnr = 0, af_alcindx = 0, af_freindx = 0, af_frelst = []\<rparr>"

definition MDIVMER_ARR_LMAX :: nat where "MDIVMER_ARR_LMAX = 52"

record memdivmer =
  dm_mdmlielst :: "bafhlst list"
  dm_onemsalst :: bafhlst

definition memdivmer_t_init :: memdivmer where
  "memdivmer_t_init =
     \<lparr>dm_mdmlielst =
        map (\<lambda>li. bafhlst_t_init BAFH_STUS_DIVM (of_nat li) (push_bit li 1))
          [0..<MDIVMER_ARR_LMAX],
      dm_onemsalst = bafhlst_t_init BAFH_STUS_ONEM 0 1\<rparr>"

record memarea =
  ma_type :: u64
  ma_maxpages :: u64
  ma_allocpages :: u64
  ma_freepages :: u64
  ma_logicstart :: u64
  ma_logicend :: u64
  ma_logicsz :: u64
  ma_allmsadscnr :: u64
  ma_mdmdata :: memdivmer

definition MA_TYPE_INIT :: u64 where "MA_TYPE_INIT = 0"
definition MA_TYPE_HWAD :: u64 where "MA_TYPE_HWAD = 1"
definition MA_TYPE_KRNL :: u64 where "MA_TYPE_KRNL = 2"
definition MA_TYPE_PROC :: u64 where "MA_TYPE_PROC = 3"
definition MA_TYPE_SHAR :: u64 where "MA_TYPE_SHAR = 4"

definition memarea_t_init :: memarea where
  "memarea_t_init =
     \<lparr>ma_type = MA_TYPE_INIT, ma_maxpages = 0, ma_allocpages = 0, ma_freepages = 0,
      ma_logicstart = 0, ma_logicend = 0, ma_logicsz = 0, ma_allmsadscnr = 0,
      ma_mdmdata = memdivmer_t_init\<rparr>"

record memmgrob =
  mo_maxpages :: u64
  mo_freepages :: u64
  mo_alocpages :: u64
  mo_msadscs :: "msadsc list"
  mo_mareas :: "memarea list"

section \<open>Access through pointers\<close>

definition getm :: "memmgrob \<Rightarrow> nat \<Rightarrow> msadsc run" where
  "getm s i = (if i < length (mo_msadscs s) then Inr (mo_msadscs s ! i) else Inl Fault)"

definition put_msa :: "memmgrob \<Rightarrow> nat \<Rightarrow> msadsc \<Rightarrow> memmgrob" where
  "put_msa s i m = s\<lparr>mo_msadscs := (mo_msadscs s)[i := m]\<rparr>"

definition updm :: "memmgrob \<Rightarrow> nat \<Rightarrow> (msadsc \<Rightarrow> msadsc) \<Rightarrow> memmgrob run" where
  "updm s i f = andthen (getm s i) (\<lambda>m. Inr (put_msa s i (f m)))"

definition geta :: "memmgrob \<Rightarrow> nat \<Rightarrow> memarea run" where
  "geta s a = (if a < length (mo_mareas s) then Inr (mo_mareas s ! a) else Inl Fault)"

definition put_area :: "memmgrob \<Rightarrow> nat \<Rightarrow> memarea \<Rightarrow> memmgrob" where
  "put_area s a m = s\<lparr>mo_mareas := (mo_mareas s)[a := m]\<rparr>"

definition upda :: "memmgrob \<Rightarrow> nat \<Rightarrow> (memarea \<Rightarrow> memarea) \<Rightarrow> memmgrob run" where
  "upda s a f = andthen (geta s a) (\<lambda>m. Inr (put_area s a (f m)))"

fun area_bafh :: "memarea \<Rightarrow> bafsel \<Rightarrow> bafhlst run" where
  "area_bafh m (Lie k) =
     (if k < length (dm_mdmlielst (ma_mdmdata m))
      then Inr (dm_mdmlielst (ma_mdmdata m) ! k) else Inl Fault)"
| "area_bafh m Onem = Inr (dm_onemsalst (ma_mdmdata m))"

fun area_put_bafh :: "memarea \<Rightarrow> bafsel \<Rightarrow> bafhlst \<Rightarrow> memarea" where
  "area_put_bafh m (Lie k) b =
     m\<lparr>ma_mdmdata := (ma_mdmdata m)\<lparr>dm_mdmlielst := (dm_mdmlielst (ma_mdmdata m))[k := b]\<rparr>\<rparr>"
| "area_put_bafh m Onem b = m\<lparr>ma_mdmdata := (ma_mdmdata m)\<lparr>dm_onemsalst := b\<rparr>\<rparr>"

definition getb :: "memmgrob \<Rightarrow> bafref \<Rightarrow> bafhlst run" where
  "getb s r = andthen (geta s (fst r)) (\<lambda>m. area_bafh m (snd r))"

definition put_bafh :: "memmgrob \<Rightarrow> bafref \<Rightarrow> bafhlst \<Rightarrow> memmgrob" where
  "put_bafh s r b = put_area s (fst r) (area_put_bafh (mo_mareas s ! fst r) (snd r) b)"

definition updb :: "memmgrob \<Rightarrow> bafref \<Rightarrow> (bafhlst \<Rightarrow> bafhlst) \<Rightarrow> memmgrob run" where
  "updb s r f = andthen (getb s r) (\<lambda>b. Inr (put_bafh s r (f b)))"

text \<open>The cast \<open>(msadsc_t*)md_odlink\<close> of a link that is used as a descriptor afterwards.\<close>

fun od_msa :: "odlink \<Rightarrow> nat run" where
  "od_msa (OdMsa i) = Inr i"
| "od_msa _ = Inl Fault"

text \<open>\<open>(uint_t)(mend - mstat) + 1\<close>: the pages between two descriptors, as a machine word.\<close>

definition page_span :: "nat \<Rightarrow> nat \<Rightarrow> u64" where
  "page_span ms me = word_of_int (int me - int ms) + 1"

lemma page_span_le: "ms \<le> me \<Longrightarrow> page_span ms me = of_nat (me - ms + 1)"
proof -
  assume "ms \<le> me"
  then have "int me - int ms = int (me - ms)"
    by simp
  then show ?thesis
    by (simp only: page_span_def of_int_of_nat_eq of_nat_add of_nat_1)
qed

end
