(* ===== verification/MemDivMer.thy ===== *)
theory MemDivMer
  imports MemTypes
begin

text \<open>
  The page allocator, \<open>hal/x86/memdivmer.c\<close>: dividing a free block until it has the order
  a request needs, and merging a freed block with its free neighbours. Each definition is
  one C function; \<open>memmgrob\<close>, the kernel's one memory manager, is the state every
  function takes and returns. A function that returns a pointer and writes the number of
  pages through another returns the pair of both. A parameter of pointer type that the
  callers can only fill with the address of an object (an array element, an area, a list)
  is a plain index, and its test against \<open>NULL\<close> has no counterpart here.
\<close>

section \<open>Accounting\<close>

definition mm_update_memmgrob :: "memmgrob \<Rightarrow> u64 \<Rightarrow> u64 \<Rightarrow> memmgrob" where
  "mm_update_memmgrob s realpnr flgs =
     (if flgs = 0 then
        s\<lparr>mo_alocpages := mo_alocpages s + realpnr, mo_freepages := mo_freepages s - realpnr\<rparr>
      else if flgs = 1 then
        s\<lparr>mo_alocpages := mo_alocpages s - realpnr, mo_freepages := mo_freepages s + realpnr\<rparr>
      else s)"

definition mm_update_memarea :: "memmgrob \<Rightarrow> nat \<Rightarrow> u64 \<Rightarrow> u64 \<Rightarrow> memmgrob run" where
  "mm_update_memarea s a pgnr flgs =
     upda s a (\<lambda>m.
       if flgs = 0 then
         m\<lparr>ma_freepages := ma_freepages m - pgnr, ma_allocpages := ma_allocpages m + pgnr\<rparr>
       else if flgs = 1 then
         m\<lparr>ma_freepages := ma_freepages m + pgnr, ma_allocpages := ma_allocpages m - pgnr\<rparr>
       else m)"

section \<open>Which list, which area\<close>

text \<open>\<open>bsrq\<close>: the index of the highest set bit; \<open>search_64rlbits\<close> adds one and is 0 for 0.\<close>

fun bsr :: "nat \<Rightarrow> nat" where
  "bsr n = (if n < 2 then 0 else Suc (bsr (n div 2)))"

declare bsr.simps [simp del]

definition search_64rlbits :: "u64 \<Rightarrow> int" where
  "search_64rlbits val = (if val = 0 then 0 else int (bsr (unat val)) + 1)"

definition retn_divoder :: "u64 \<Rightarrow> int" where
  "retn_divoder pages =
     (let pbits = search_64rlbits pages - 1
      in if and pages (pages - 1) \<noteq> 0 then pbits + 1 else pbits)"

definition onfrmsa_retn_fpagenr :: "memmgrob \<Rightarrow> nat option \<Rightarrow> u64 run" where
  "onfrmsa_retn_fpagenr s freemsa =
     (case freemsa of None \<Rightarrow> Inr 0
      | Some fm \<Rightarrow>
        andthen (getm s fm) (\<lambda>m.
        if md_odlink m = OdNull then Inr 0
        else andthen (od_msa (md_odlink m)) (\<lambda>fmend.
          if fmend < fm then Inr 0 else Inr (page_span fm fmend))))"

definition find_area :: "memmgrob \<Rightarrow> u64 \<Rightarrow> nat option" where
  "find_area s mrtype =
     find (\<lambda>mi. mrtype = ma_type (mo_mareas s ! mi)) [0..<length (mo_mareas s)]"

definition onfrmsa_retn_marea :: "memmgrob \<Rightarrow> nat \<Rightarrow> u64 \<Rightarrow> nat option run" where
  "onfrmsa_retn_marea s freemsa freepgs =
     andthen (getm s freemsa) (\<lambda>m.
     if mf_olkty m \<noteq> MF_OLKTY_ODER \<or> md_odlink m = OdNull then Inr None
     else andthen (od_msa (md_odlink m)) (\<lambda>fmend.
     if page_span freemsa fmend \<noteq> freepgs then Inr None
     else andthen (getm s fmend) (\<lambda>e.
     if mf_marty m \<noteq> mf_marty e then Inr None
     else Inr (find_area s (ucast (mf_marty m))))))"

definition onmrtype_retn_marea :: "memmgrob \<Rightarrow> u64 \<Rightarrow> nat option" where
  "onmrtype_retn_marea s mrtype = find_area s mrtype"

definition retn_procmarea :: "memmgrob \<Rightarrow> nat option" where
  "retn_procmarea s = find_area s MA_TYPE_PROC"

definition lie :: "memarea \<Rightarrow> nat \<Rightarrow> bafhlst" where
  "lie m k = dm_mdmlielst (ma_mdmdata m) ! k"

definition onma_retn_maxbafhlst :: "memarea \<Rightarrow> nat option" where
  "onma_retn_maxbafhlst m = find (\<lambda>li. 0 < af_fobjnr (lie m li)) (rev [0..<MDIVMER_ARR_LMAX])"

definition onmpgs_retn_bafhlst :: "memarea \<Rightarrow> u64 \<Rightarrow> (nat \<times> nat) option" where
  "onmpgs_retn_bafhlst m pages =
     (if pages < 1 then None
      else let dividx = retn_divoder pages
        in if dividx < 0 \<or> int MDIVMER_ARR_LMAX \<le> dividx then None
           else if af_oderpnr (lie m (nat dividx)) < pages then None
           else map_option (\<lambda>idx. (nat dividx, idx))
                  (find (\<lambda>idx. pages \<le> af_oderpnr (lie m idx) \<and> 0 < af_fobjnr (lie m idx))
                    [nat dividx..<MDIVMER_ARR_LMAX]))"

definition onfpgs_retn_bafhlst :: "memarea \<Rightarrow> u64 \<Rightarrow> (nat \<times> nat) option run" where
  "onfpgs_retn_bafhlst m freepgs =
     (if freepgs < 1 then Inr None
      else let dividx = retn_divoder freepgs
        in if dividx < 0 \<or> int MDIVMER_ARR_LMAX \<le> dividx then Inr None
           else let b = lie m (nat dividx)
             in andthen (require (\<not> - 1 \<le> af_mobjnr b) ''onfpgs_retn_bafhlst af_mobjnr max'') (\<lambda>_.
                andthen (require (\<not> - 1 \<le> af_fobjnr b) ''onfpgs_retn_bafhlst af_fobjnr max'') (\<lambda>_.
                if freepgs \<noteq> af_oderpnr b then Inr None
                else Inr (Some (nat dividx, MDIVMER_ARR_LMAX - 1)))))"

definition scan_mapgsalloc_ok :: "memarea \<Rightarrow> u64 \<Rightarrow> bool" where
  "scan_mapgsalloc_ok m pages \<longleftrightarrow>
     \<not> pages < 1 \<and> pages \<le> ma_freepages m \<and> pages \<le> ma_maxpages m"

section \<open>Taking a block from a list\<close>

text \<open>
  The block is the head of the list; the end is the descriptor its link names, or the
  block itself when it is a single page (its link then names the list).
\<close>

definition mm_retnmsaob_onbafhlst ::
  "memmgrob \<Rightarrow> bafref \<Rightarrow> ((nat \<times> nat option) option \<times> memmgrob) run" where
  "mm_retnmsaob_onbafhlst s r =
     andthen (getb s r) (\<lambda>b.
     if af_mobjnr b < 1 \<or> af_fobjnr b < 1 then Inr (None, s)
     else case af_frelst b of
       [] \<Rightarrow> Inr (None, s)
     | tmp # rest \<Rightarrow>
         andthen (updb s r (\<lambda>b. b\<lparr>af_frelst := rest, af_mobjnr := af_mobjnr b - 1,
           af_fobjnr := af_fobjnr b - 1, af_freindx := af_freindx b + 1\<rparr>)) (\<lambda>s.
         andthen (getm s tmp) (\<lambda>m.
         if mf_olkty m = MF_OLKTY_BAFH then Inr (Some (tmp, Some tmp), s)
         else if md_odlink m = OdNull then Inr (Some (tmp, None), s)
         else andthen (od_msa (md_odlink m)) (\<lambda>e. Inr (Some (tmp, Some e), s)))))"

definition mm_divpages_opmsadsc ::
  "memmgrob \<Rightarrow> nat \<Rightarrow> u64 \<Rightarrow> (nat option \<times> memmgrob) run" where
  "mm_divpages_opmsadsc s msastat mnr =
     (if mnr = 0 then Inr (None, s)
      else andthen (getm s msastat) (\<lambda>ms.
      andthen (require (\<not> ((mf_olkty ms \<noteq> MF_OLKTY_ODER \<and> mf_olkty ms \<noteq> MF_OLKTY_BAFH) \<or>
          md_odlink ms = OdNull \<or> paf_alloc ms)) ''mm_divpages_opmsadsc err1'') (\<lambda>_.
      andthen (if mf_olkty ms = MF_OLKTY_BAFH then Inr msastat else od_msa (md_odlink ms)) (\<lambda>mend.
      andthen (require (\<not> mend < msastat) ''mm_divpages_opmsadsc err2'') (\<lambda>_.
      andthen (require (page_span msastat mend = mnr) ''mm_divpages_opmsadsc err3'') (\<lambda>_.
      andthen (getm s mend) (\<lambda>me.
      andthen (require (\<not> (MF_UINDX_MAX - 1 < mf_uindx ms \<or> MF_UINDX_MAX - 1 < mf_uindx me \<or>
          mf_uindx ms \<noteq> mf_uindx me)) ''mm_divpages_opmsadsc err4'') (\<lambda>_.
      if mend = msastat then
        andthen (updm s msastat (\<lambda>m. m\<lparr>mf_uindx := mf_uindx m + 1, paf_alloc := True,
          mf_olkty := MF_OLKTY_ODER, md_odlink := OdMsa mend\<rparr>)) (\<lambda>s. Inr (Some msastat, s))
      else
        andthen (updm s msastat (\<lambda>m. m\<lparr>mf_uindx := mf_uindx m + 1, paf_alloc := True\<rparr>)) (\<lambda>s.
        andthen (updm s mend (\<lambda>m. m\<lparr>mf_uindx := mf_uindx m + 1, paf_alloc := True\<rparr>)) (\<lambda>s.
        andthen (updm s msastat (\<lambda>m. m\<lparr>mf_olkty := MF_OLKTY_ODER, md_odlink := OdMsa mend\<rparr>)) (\<lambda>s.
        Inr (Some msastat, s))))))))))))"

definition mrdmb_add_msa_bafh ::
  "memmgrob \<Rightarrow> bafref \<Rightarrow> nat \<Rightarrow> nat \<Rightarrow> (bool \<times> memmgrob) run" where
  "mrdmb_add_msa_bafh s r msastat msaend =
     andthen (getb s r) (\<lambda>b.
     if page_span msastat msaend \<noteq> af_oderpnr b then Inr (False, s)
     else andthen (getm s msastat) (\<lambda>ms.
     andthen (getm s msaend) (\<lambda>me.
     if 0 < mf_uindx ms \<or> 0 < mf_uindx me then Inr (False, s)
     else if paf_alloc ms \<or> paf_alloc me then Inr (False, s)
     else if msastat = msaend \<and> page_span msastat msaend \<noteq> 1 \<and> af_oderpnr b \<noteq> 1
     then Inr (False, s)
     else
       andthen (updm s msastat (\<lambda>m. m\<lparr>mf_olkty := MF_OLKTY_ODER, md_odlink := OdMsa msaend\<rparr>)) (\<lambda>s.
       andthen (updm s msaend (\<lambda>m. m\<lparr>mf_olkty := MF_OLKTY_BAFH, md_odlink := OdBafh r\<rparr>)) (\<lambda>s.
       andthen (updb s r (\<lambda>b. b\<lparr>af_frelst := msastat # af_frelst b,
         af_mobjnr := af_mobjnr b + 1, af_fobjnr := af_fobjnr b + 1\<rparr>)) (\<lambda>s.
       Inr (True, s)))))))"

section \<open>Allocation\<close>

definition mm_maxdivpages_onmarea ::
  "memmgrob \<Rightarrow> nat \<Rightarrow> ((nat option \<times> u64) \<times> memmgrob) run" where
  "mm_maxdivpages_onmarea s a =
     andthen (geta s a) (\<lambda>m.
     case onma_retn_maxbafhlst m of
       None \<Rightarrow> Inr ((None, 0), s)
     | Some k \<Rightarrow>
         andthen (mm_retnmsaob_onbafhlst s (a, Lie k)) (\<lambda>(rets, s).
         case rets of
           Some (stat, Some e) \<Rightarrow>
             andthen (mm_divpages_opmsadsc s stat (af_oderpnr (lie m k))) (\<lambda>(retmsa, s).
             case retmsa of None \<Rightarrow> Inr ((None, 0), s)
             | Some i \<Rightarrow> Inr ((Some i, af_oderpnr (lie m k)), s))
         | _ \<Rightarrow> Inr ((None, 0), s)))"

text \<open>
  The loop \<open>for (tmpbfl = divbfl - 1; tmpbfl >= relbfl; tmpbfl--)\<close>: the upper half of the
  block goes to each list on the way down; the last argument is the indices it visits.
\<close>

fun mm_reldpgs_loop ::
  "memmgrob \<Rightarrow> nat \<Rightarrow> nat \<Rightarrow> u64 \<Rightarrow> nat list \<Rightarrow> (u64 \<times> memmgrob) run" where
  "mm_reldpgs_loop s a retmstat divnr [] = Inr (divnr, s)"
| "mm_reldpgs_loop s a retmstat divnr (k # ks) =
     andthen (getb s (a, Lie k)) (\<lambda>b.
     andthen (getm s retmstat) (\<lambda>ms.
     andthen (require (md_odlink ms \<noteq> OdNull) ''mrdmb_add_msa_bafh fail'') (\<lambda>_.
     andthen (od_msa (md_odlink ms)) (\<lambda>mend.
     andthen (mrdmb_add_msa_bafh s (a, Lie k) (retmstat + unat (af_oderpnr b)) mend) (\<lambda>(ok, s).
     andthen (require ok ''mrdmb_add_msa_bafh fail'') (\<lambda>_.
     andthen (updm s retmstat
       (\<lambda>m. m\<lparr>md_odlink := OdMsa (retmstat + unat (af_oderpnr b - 1))\<rparr>)) (\<lambda>s.
     mm_reldpgs_loop s a retmstat (divnr - af_oderpnr b) ks)))))))"

definition mm_reldpgsdivmsa_bafhl ::
  "memmgrob \<Rightarrow> nat \<Rightarrow> u64 \<Rightarrow> nat \<Rightarrow> nat \<Rightarrow> ((nat option \<times> u64) \<times> memmgrob) run" where
  "mm_reldpgsdivmsa_bafhl s a pages rel dv =
     (if pages < 1 then Inr ((None, 0), s)
      else if dv < rel then Inr ((None, 0), s)
      else
        andthen (getb s (a, Lie rel)) (\<lambda>relb.
        andthen (getb s (a, Lie dv)) (\<lambda>divb.
        andthen (mm_retnmsaob_onbafhlst s (a, Lie dv)) (\<lambda>(rets, s).
        case rets of
          Some (retmstat, Some retmend) \<Rightarrow>
            if page_span retmstat retmend \<noteq> af_oderpnr divb then Inr ((None, 0), s)
            else
              andthen
                (if rel = dv then Inr (af_oderpnr relb, s)
                 else mm_reldpgs_loop s a retmstat (af_oderpnr divb) (rev [rel..<dv]))
                (\<lambda>(divnr, s).
              andthen (mm_divpages_opmsadsc s retmstat divnr) (\<lambda>(retmsa, s).
              case retmsa of None \<Rightarrow> Inr ((None, 0), s)
              | Some i \<Rightarrow> Inr ((Some i, af_oderpnr relb), s)))
        | _ \<Rightarrow> Inr ((None, 0), s)))))"

definition mm_reldivpages_onmarea ::
  "memmgrob \<Rightarrow> nat \<Rightarrow> u64 \<Rightarrow> ((nat option \<times> u64) \<times> memmgrob) run" where
  "mm_reldivpages_onmarea s a pages =
     (if pages < 1 then Inr ((None, 0), s)
      else andthen (geta s a) (\<lambda>m.
        if \<not> scan_mapgsalloc_ok m pages then Inr ((None, 0), s)
        else case onmpgs_retn_bafhlst m pages of
          None \<Rightarrow> Inr ((None, 0), s)
        | Some (rel, dv) \<Rightarrow> mm_reldpgsdivmsa_bafhl s a pages rel dv))"

definition mm_prcdivpages_onmarea ::
  "memmgrob \<Rightarrow> nat \<Rightarrow> u64 \<Rightarrow> ((nat option \<times> u64) \<times> memmgrob) run" where
  "mm_prcdivpages_onmarea s a pages =
     (if pages \<noteq> 1 then Inr ((None, 0), s)
      else andthen (geta s a) (\<lambda>m.
        if ma_type m \<noteq> MA_TYPE_PROC then Inr ((None, 0), s)
        else if \<not> scan_mapgsalloc_ok m pages then Inr ((None, 0), s)
        else
          let prcbfh = dm_onemsalst (ma_mdmdata m) in
          andthen (mm_retnmsaob_onbafhlst s (a, Onem)) (\<lambda>(rets, s).
          case rets of
            Some (retmstat, Some retmend) \<Rightarrow>
              if page_span retmstat retmend \<noteq> af_oderpnr prcbfh then Inr ((None, 0), s)
              else
                andthen (mm_divpages_opmsadsc s retmstat (af_oderpnr prcbfh)) (\<lambda>(retmsa, s).
                case retmsa of None \<Rightarrow> Inr ((None, 0), s)
                | Some i \<Rightarrow> Inr ((Some i, af_oderpnr prcbfh), s))
          | _ \<Rightarrow> Inr ((None, 0), s))))"

definition DMF_RELDIV :: u64 where "DMF_RELDIV = 0"
definition DMF_MAXDIV :: u64 where "DMF_MAXDIV = 1"

definition mm_divpages_core ::
  "memmgrob \<Rightarrow> nat \<Rightarrow> u64 \<Rightarrow> u64 \<Rightarrow> ((nat option \<times> u64) \<times> memmgrob) run" where
  "mm_divpages_core s a pages flgs =
     (if flgs \<noteq> DMF_RELDIV \<and> flgs \<noteq> DMF_MAXDIV then Inr ((None, 0), s)
      else andthen (geta s a) (\<lambda>m.
        if ma_type m \<noteq> MA_TYPE_KRNL \<and> ma_type m \<noteq> MA_TYPE_HWAD then Inr ((None, 0), s)
        else
          andthen (if flgs = DMF_MAXDIV then mm_maxdivpages_onmarea s a
                   else mm_reldivpages_onmarea s a pages) (\<lambda>((retmsa, retpnr), s).
          if retmsa \<noteq> None \<and> retpnr \<noteq> 0 then
            andthen (mm_update_memarea s a retpnr 0) (\<lambda>s.
            Inr ((retmsa, retpnr), mm_update_memmgrob s retpnr 0))
          else Inr ((retmsa, retpnr), s))))"

definition mm_divpages_fmwk ::
  "memmgrob \<Rightarrow> u64 \<Rightarrow> u64 \<Rightarrow> u64 \<Rightarrow> ((nat option \<times> u64) \<times> memmgrob) run" where
  "mm_divpages_fmwk s pages mrtype flgs =
     (case onmrtype_retn_marea s mrtype of
        None \<Rightarrow> Inr ((None, 0), s)
      | Some a \<Rightarrow>
          andthen (mm_divpages_core s a pages flgs) (\<lambda>((retmsa, retpnr), s).
          if retmsa = None then Inr ((None, 0), s) else Inr ((retmsa, retpnr), s)))"

definition mm_division_pages ::
  "memmgrob \<Rightarrow> u64 \<Rightarrow> u64 \<Rightarrow> u64 \<Rightarrow> ((nat option \<times> u64) \<times> memmgrob) run" where
  "mm_division_pages s pages mrtype flgs =
     (if mrtype = 0 then Inr ((None, 0), s)
      else andthen (mm_divpages_fmwk s pages mrtype flgs) (\<lambda>((retmsa, retpnr), s).
        if retmsa = None then Inr ((None, 0), s) else Inr ((retmsa, retpnr), s)))"

definition divpages_procmarea_core ::
  "memmgrob \<Rightarrow> u64 \<Rightarrow> ((nat option \<times> u64) \<times> memmgrob) run" where
  "divpages_procmarea_core s pages =
     (if pages \<noteq> 1 then Inr ((None, 0), s)
      else case retn_procmarea s of
        None \<Rightarrow> Inr ((None, 0), s)
      | Some a \<Rightarrow>
          andthen (geta s a) (\<lambda>m.
          if \<not> scan_mapgsalloc_ok m pages then Inr ((None, 0), s)
          else
            andthen (mm_prcdivpages_onmarea s a pages) (\<lambda>((retmsa, retpnr), s).
            if retmsa \<noteq> None \<and> retpnr \<noteq> 0 then
              andthen (mm_update_memarea s a retpnr 0) (\<lambda>s.
              Inr ((retmsa, retpnr), mm_update_memmgrob s retpnr 0))
            else Inr ((None, 0), s))))"

definition mm_divpages_procmarea ::
  "memmgrob \<Rightarrow> u64 \<Rightarrow> ((nat option \<times> u64) \<times> memmgrob) run" where
  "mm_divpages_procmarea s pages =
     (if pages \<noteq> 1 then Inr ((None, 0), s)
      else
        andthen (divpages_procmarea_core s pages) (\<lambda>((retmsa, retpnr), s).
        if retmsa \<noteq> None then Inr ((retmsa, retpnr), s)
        else
          andthen (mm_division_pages s pages MA_TYPE_KRNL DMF_RELDIV) (\<lambda>((retmsa, retpnr), s).
          if retmsa = None then Inr ((None, 0), s) else Inr ((retmsa, retpnr), s))))"

section \<open>Freeing and merging\<close>

definition scan_freemsa_isok :: "memmgrob \<Rightarrow> nat \<Rightarrow> u64 \<Rightarrow> bool run" where
  "scan_freemsa_isok s freemsa freepgs =
     (if freepgs < 1 then Inr False
      else andthen (getm s freemsa) (\<lambda>m.
        if mf_olkty m \<noteq> MF_OLKTY_ODER \<or> md_odlink m = OdNull \<or> mf_uindx m < 1 then Inr False
        else andthen (od_msa (md_odlink m)) (\<lambda>fend.
          andthen (getm s fend) (\<lambda>e.
          if \<not> paf_alloc m \<or> \<not> paf_alloc e \<or> mf_uindx e < 1 then Inr False
          else Inr (page_span freemsa fend = freepgs)))))"

definition mm_merpages_opmsadsc ::
  "memmgrob \<Rightarrow> bafref \<Rightarrow> nat \<Rightarrow> u64 \<Rightarrow> (int \<times> memmgrob) run" where
  "mm_merpages_opmsadsc s r freemsa freepgs =
     (if freepgs < 1 then Inr (0, s)
      else andthen (getm s freemsa) (\<lambda>m.
      andthen (require (mf_olkty m = MF_OLKTY_ODER \<and> md_odlink m \<noteq> OdNull)
        ''mm_merpages_opmsadsc err1'') (\<lambda>_.
      andthen (od_msa (md_odlink m)) (\<lambda>fmend.
      andthen (require (\<not> fmend < freemsa) ''mm_merpages_opmsadsc err2'') (\<lambda>_.
      andthen (getb s r) (\<lambda>b.
      andthen (require (af_oderpnr b = freepgs \<and> page_span freemsa fmend = freepgs)
        ''mm_merpages_opmsadsc err3'') (\<lambda>_.
      andthen (require (paf_alloc m \<and> \<not> mf_uindx m < 1) ''mm_merpages_opmsadsc err4'') (\<lambda>_.
      andthen (getm s fmend) (\<lambda>e.
      andthen (require (paf_alloc e \<and> \<not> mf_uindx e < 1) ''mm_merpages_opmsadsc err5'') (\<lambda>_.
      andthen (require (mf_uindx m = mf_uindx e) ''mm_merpages_opmsadsc err6'') (\<lambda>_.
      if freemsa = fmend then
        andthen (updm s freemsa (\<lambda>m. m\<lparr>mf_uindx := mf_uindx m - 1\<rparr>)) (\<lambda>s.
        andthen (getm s freemsa) (\<lambda>m.
        if 0 < mf_uindx m then Inr (1, s)
        else andthen (updm s freemsa (\<lambda>m. m\<lparr>paf_alloc := False,
               mf_olkty := MF_OLKTY_BAFH, md_odlink := OdBafh r\<rparr>)) (\<lambda>s. Inr (2, s))))
      else
        andthen (updm s freemsa (\<lambda>m. m\<lparr>mf_uindx := mf_uindx m - 1\<rparr>)) (\<lambda>s.
        andthen (updm s fmend (\<lambda>m. m\<lparr>mf_uindx := mf_uindx m - 1\<rparr>)) (\<lambda>s.
        andthen (getm s freemsa) (\<lambda>m.
        if 0 < mf_uindx m then Inr (1, s)
        else
          andthen (updm s freemsa (\<lambda>m. m\<lparr>paf_alloc := False,
            mf_olkty := MF_OLKTY_ODER, md_odlink := OdMsa fmend\<rparr>)) (\<lambda>s.
          andthen (updm s fmend (\<lambda>m. m\<lparr>paf_alloc := False,
            mf_olkty := MF_OLKTY_BAFH, md_odlink := OdBafh r\<rparr>)) (\<lambda>s.
          Inr (2, s)))))))))))))))))"

text \<open>0: not a free block of this list; 2: it is.\<close>

definition mm_cmsa1blk_isok :: "memmgrob \<Rightarrow> bafref \<Rightarrow> nat \<Rightarrow> nat \<Rightarrow> int run" where
  "mm_cmsa1blk_isok s r ms1 me1 =
     (if me1 < ms1 then Inr 0
      else andthen (getm s ms1) (\<lambda>ms.
      andthen (getm s me1) (\<lambda>me.
      let frames_ok = ((ucast (paf_padrs me) :: u64) - ucast (paf_padrs ms) = of_nat (me1 - ms1))
      in if ms1 = me1 then
           (if mf_olkty me \<noteq> MF_OLKTY_BAFH then Inr 0
            else if md_odlink me \<noteq> OdBafh r then Inr 0
            else if paf_alloc me then Inr 0
            else if mf_uindx me \<noteq> 0 then Inr 0
            else if \<not> frames_ok then Inr 0
            else Inr 2)
         else if mf_olkty ms \<noteq> MF_OLKTY_ODER then Inr 0
         else if md_odlink ms \<noteq> OdMsa me1 then Inr 0
         else if paf_alloc ms then Inr 0
         else if mf_uindx ms \<noteq> 0 then Inr 0
         else if mf_olkty me \<noteq> MF_OLKTY_BAFH then Inr 0
         else if md_odlink me \<noteq> OdBafh r then Inr 0
         else if paf_alloc me then Inr 0
         else if mf_uindx me \<noteq> 0 then Inr 0
         else if \<not> frames_ok then Inr 0
         else Inr 2)))"

text \<open>2: the second block follows the first; 4: it precedes it; 1: they are not adjacent.\<close>

definition mm_cmsa2blk_isok ::
  "memmgrob \<Rightarrow> bafref \<Rightarrow> nat \<Rightarrow> nat \<Rightarrow> nat \<Rightarrow> nat \<Rightarrow> int run" where
  "mm_cmsa2blk_isok s r ms1 me1 ms2 me2 =
     (if ms1 = ms2 \<or> me1 = me2 then Inr 0
      else
        andthen (mm_cmsa1blk_isok s r ms1 me1) (\<lambda>ret1s.
        andthen (require (ret1s \<noteq> 0) ''mm_cmsa1blk_isok ret1s == 0'') (\<lambda>_.
        andthen (mm_cmsa1blk_isok s r ms2 me2) (\<lambda>ret2s.
        andthen (require (ret2s \<noteq> 0) ''mm_cmsa1blk_isok ret2s == 0'') (\<lambda>_.
        andthen (getm s ms1) (\<lambda>s1. andthen (getm s me1) (\<lambda>e1.
        andthen (getm s ms2) (\<lambda>s2. andthen (getm s me2) (\<lambda>e2.
        if ms1 < ms2 \<and> me1 < me2 then
          (if me1 + 1 \<noteq> ms2 then Inr 1
           else if (ucast (paf_padrs e1) :: u64) + 1 \<noteq> ucast (paf_padrs s2) then Inr 1
           else Inr 2)
        else if ms2 < ms1 \<and> me2 < me1 then
          (if me2 + 1 \<noteq> ms1 then Inr 1
           else if (ucast (paf_padrs e2) :: u64) + 1 \<noteq> ucast (paf_padrs s1) then Inr 1
           else Inr 4)
        else Inr 0)))))))))"

definition mm_clear_2msaolflg ::
  "memmgrob \<Rightarrow> bafref \<Rightarrow> nat \<Rightarrow> nat \<Rightarrow> nat \<Rightarrow> nat \<Rightarrow> (bool \<times> memmgrob) run" where
  "mm_clear_2msaolflg s r ms1 me1 ms2 me2 =
     (if ms1 = ms2 \<or> me1 = me2 then Inr (False, s)
      else
        andthen (updm s me1 (\<lambda>m. m\<lparr>mf_olkty := MF_OLKTY_INIT, md_odlink := OdNull\<rparr>)) (\<lambda>s.
        andthen (updm s ms2 (\<lambda>m. m\<lparr>mf_olkty := MF_OLKTY_INIT, md_odlink := OdNull\<rparr>)) (\<lambda>s.
        andthen (updm s ms1 (\<lambda>m. m\<lparr>mf_olkty := MF_OLKTY_ODER, md_odlink := OdMsa me2\<rparr>)) (\<lambda>s.
        andthen (updm s me2 (\<lambda>m. m\<lparr>mf_olkty := MF_OLKTY_BAFH, md_odlink := OdBafh r\<rparr>)) (\<lambda>s.
        Inr (True, s))))))"

definition chek_cl2molkflg ::
  "memmgrob \<Rightarrow> bafref \<Rightarrow> nat \<Rightarrow> nat \<Rightarrow> nat \<Rightarrow> nat \<Rightarrow> bool run" where
  "chek_cl2molkflg s r ms1 me1 ms2 me2 =
     (if ms1 = ms2 \<or> me1 = me2 then Inr False
      else andthen (getb s r) (\<lambda>b.
        if page_span ms1 me2 \<noteq> af_oderpnr b then Inr False
        else
          andthen (getm s ms1) (\<lambda>s1. andthen (getm s me1) (\<lambda>e1.
          andthen (getm s ms2) (\<lambda>s2. andthen (getm s me2) (\<lambda>e2.
          let head_ok = (mf_olkty s1 = MF_OLKTY_ODER \<and> md_odlink s1 = OdMsa me2);
              tail_ok = (mf_olkty e2 = MF_OLKTY_BAFH \<and> md_odlink e2 = OdBafh r)
          in if ms1 = me1 \<and> ms2 = me2 then Inr (head_ok \<and> tail_ok)
             else Inr (head_ok \<and>
               (mf_olkty e1 = MF_OLKTY_INIT \<and> md_odlink e1 = OdNull) \<and>
               (mf_olkty s2 = MF_OLKTY_INIT \<and> md_odlink s2 = OdNull) \<and> tail_ok)))))))"

text \<open>The walk over the free list: the last return code, and the block it stopped at.\<close>

fun find_cmsa2blk_loop ::
  "memmgrob \<Rightarrow> bafref \<Rightarrow> u64 \<Rightarrow> nat \<Rightarrow> nat \<Rightarrow> int \<Rightarrow> nat list \<Rightarrow> (int \<times> nat option) run" where
  "find_cmsa2blk_loop s r pnr ms me rets [] = Inr (rets, None)"
| "find_cmsa2blk_loop s r pnr ms me rets (t # ts) =
     andthen (mm_cmsa2blk_isok s r ms me t (t + unat (pnr - 1))) (\<lambda>rets.
     if rets = 2 \<or> rets = 4 then Inr (rets, Some t)
     else find_cmsa2blk_loop s r pnr ms me rets ts)"

text \<open>
  1: no free neighbour in list \<open>k\<close>; 2: the block and its neighbour are now one block of
  the next order, whose first and last descriptor are returned; 0: an inconsistency.
\<close>

definition mm_find_cmsa2blk ::
  "memmgrob \<Rightarrow> nat \<Rightarrow> nat \<Rightarrow> nat \<Rightarrow> nat \<Rightarrow> ((int \<times> nat \<times> nat) \<times> memmgrob) run" where
  "mm_find_cmsa2blk s a k ms me =
     andthen (getb s (a, Lie k)) (\<lambda>b.
     if af_fobjnr b < 1 then Inr ((1, ms, me), s)
     else
       andthen (find_cmsa2blk_loop s (a, Lie k) (af_oderpnr b) ms me 0 (af_frelst b)) (\<lambda>(rets, blk).
       case blk of
         None \<Rightarrow> if rets = 0 \<or> rets = 1 then Inr ((1, ms, me), s) else Inr ((0, ms, me), s)
       | Some t \<Rightarrow>
           let te = t + unat (af_oderpnr b - 1) in
           andthen (updb s (a, Lie k) (\<lambda>b. b\<lparr>af_frelst := remove1 t (af_frelst b),
             af_fobjnr := af_fobjnr b - 1, af_mobjnr := af_mobjnr b - 1\<rparr>)) (\<lambda>s.
           if rets = 2 then
             andthen (mm_clear_2msaolflg s (a, Lie (Suc k)) ms me t te) (\<lambda>(ok, s).
             if ok then
               andthen (chek_cl2molkflg s (a, Lie (Suc k)) ms me t te) (\<lambda>chk.
               andthen (require chk ''chek_cl2molkflg err1'') (\<lambda>_. Inr ((2, ms, te), s)))
             else Inr ((0, ms, me), s))
           else
             andthen (mm_clear_2msaolflg s (a, Lie (Suc k)) t te ms me) (\<lambda>(ok, s).
             if ok then
               andthen (chek_cl2molkflg s (a, Lie (Suc k)) t te ms me) (\<lambda>chk.
               andthen (require chk ''chek_cl2molkflg err2'') (\<lambda>_. Inr ((2, t, me), s)))
             else Inr ((0, ms, me), s)))))"

definition mpobf_add_msadsc ::
  "memmgrob \<Rightarrow> bafref \<Rightarrow> nat \<Rightarrow> nat \<Rightarrow> (bool \<times> memmgrob) run" where
  "mpobf_add_msadsc s r freemstat freemend =
     (if freemend < freemstat then Inr (False, s)
      else andthen (getb s r) (\<lambda>b.
        if af_oderpnr b \<noteq> page_span freemstat freemend then Inr (False, s)
        else
          andthen (require (\<not> (- 1 \<le> af_fobjnr b \<or> - 1 \<le> af_mobjnr b))
            ''(~0UL)<=bafhp->af_fobjnr'') (\<lambda>_.
          andthen (updm s freemstat
            (\<lambda>m. m\<lparr>mf_olkty := MF_OLKTY_ODER, md_odlink := OdMsa freemend\<rparr>)) (\<lambda>s.
          andthen (updm s freemend (\<lambda>m. m\<lparr>mf_olkty := MF_OLKTY_BAFH, md_odlink := OdBafh r\<rparr>)) (\<lambda>s.
          andthen (updb s r (\<lambda>b. b\<lparr>af_frelst := freemstat # af_frelst b,
            af_fobjnr := af_fobjnr b + 1, af_mobjnr := af_mobjnr b + 1\<rparr>)) (\<lambda>s.
          Inr (True, s)))))))"

text \<open>The loop \<open>for (; tmpbf < merbf; tmpbf++)\<close>; the last argument is the lists still ahead.\<close>

fun mm_merpages_loop ::
  "memmgrob \<Rightarrow> nat \<Rightarrow> nat \<Rightarrow> nat \<Rightarrow> nat \<Rightarrow> nat list \<Rightarrow> ((nat \<times> nat \<times> nat) \<times> memmgrob) run" where
  "mm_merpages_loop s a ms me mer [] = Inr ((mer, ms, me), s)"
| "mm_merpages_loop s a ms me mer (k # ks) =
     andthen (mm_find_cmsa2blk s a k ms me) (\<lambda>((rets, ms, me), s).
     if rets = 1 then Inr ((k, ms, me), s)
     else
       andthen (require (rets \<noteq> 0) ''mm_find_cmsa2blk retn 0'') (\<lambda>_.
       mm_merpages_loop s a ms me mer ks))"

definition mm_merpages_onbafhlst ::
  "memmgrob \<Rightarrow> nat \<Rightarrow> nat \<Rightarrow> u64 \<Rightarrow> nat \<Rightarrow> nat \<Rightarrow> (bool \<times> memmgrob) run" where
  "mm_merpages_onbafhlst s a freemsa freepgs rel mer =
     andthen (mm_merpages_loop s a freemsa (freemsa + unat (freepgs - 1)) mer [rel..<mer])
       (\<lambda>((k, ms, me), s). mpobf_add_msadsc s (a, Lie k) ms me)"

definition mm_merpages_onmarea ::
  "memmgrob \<Rightarrow> nat \<Rightarrow> nat \<Rightarrow> u64 \<Rightarrow> (bool \<times> memmgrob) run" where
  "mm_merpages_onmarea s a freemsa freepgs =
     (if freepgs < 1 then Inr (False, s)
      else andthen (geta s a) (\<lambda>m.
        if ma_type m = MA_TYPE_PROC then
          andthen (mm_merpages_opmsadsc s (a, Onem) freemsa freepgs) (\<lambda>(pocs, s).
          if pocs = 2 then
            andthen (mpobf_add_msadsc s (a, Onem) freemsa (freemsa + unat (freepgs - 1))) (\<lambda>(ok, s).
            andthen (require ok ''mm_merpages_onmarea proc memarea merge fail'') (\<lambda>_.
            andthen (mm_update_memarea s a freepgs 1) (\<lambda>s.
            Inr (True, mm_update_memmgrob s freepgs 1))))
          else Inr (pocs = 1, s))
        else
          andthen (onfpgs_retn_bafhlst m freepgs) (\<lambda>found.
          case found of
            None \<Rightarrow> Inr (False, s)
          | Some (rel, mer) \<Rightarrow>
              andthen (mm_merpages_opmsadsc s (a, Lie rel) freemsa freepgs) (\<lambda>(mopms, s).
              if mopms = 2 then
                andthen (mm_merpages_onbafhlst s a freemsa freepgs rel mer) (\<lambda>(ok, s).
                if ok then
                  andthen (mm_update_memarea s a freepgs 1) (\<lambda>s.
                  Inr (True, mm_update_memmgrob s freepgs 1))
                else Inr (False, s))
              else Inr (mopms = 1, s)))))"

definition mm_merpages_core ::
  "memmgrob \<Rightarrow> nat \<Rightarrow> nat \<Rightarrow> u64 \<Rightarrow> (bool \<times> memmgrob) run" where
  "mm_merpages_core s a freemsa freepgs =
     (if freepgs < 1 then Inr (False, s)
      else andthen (scan_freemsa_isok s freemsa freepgs) (\<lambda>ok.
        if ok then mm_merpages_onmarea s a freemsa freepgs else Inr (False, s)))"

definition mm_merpages_fmwk ::
  "memmgrob \<Rightarrow> nat \<Rightarrow> u64 \<Rightarrow> (bool \<times> memmgrob) run" where
  "mm_merpages_fmwk s freemsa freepgs =
     andthen (onfrmsa_retn_marea s freemsa freepgs) (\<lambda>marea.
     case marea of None \<Rightarrow> Inr (False, s) | Some a \<Rightarrow> mm_merpages_core s a freemsa freepgs)"

definition mm_merge_pages ::
  "memmgrob \<Rightarrow> nat option \<Rightarrow> u64 \<Rightarrow> (bool \<times> memmgrob) run" where
  "mm_merge_pages s freemsa freepgs =
     (case freemsa of
        None \<Rightarrow> Inr (False, s)
      | Some fm \<Rightarrow>
          if freepgs < 1 then Inr (False, s) else mm_merpages_fmwk s fm freepgs)"

end
