(* ===== verification/MemInv.thy ===== *)
theory MemInv
  imports MemDivMer
begin

text \<open>
  The invariant of the page allocator. \<open>core_inv s R\<close> says that every block on a free list
  is well formed, that no two of them overlap, and that none overlaps a reserved interval
  of \<open>R\<close> (the blocks handed out, and while an operation runs the block it holds). The
  lemmas move a block between a free list and \<open>R\<close>, split and join reserved intervals, and
  write descriptors inside one; the allocator's proofs are sequences of these moves.
\<close>

named_theorems mem_simps \<open>reading one part of the memory manager after writing another\<close>

section \<open>Reading the state\<close>

definition msa :: "memmgrob \<Rightarrow> nat \<Rightarrow> msadsc" where "msa s i = mo_msadscs s ! i"

definition area :: "memmgrob \<Rightarrow> nat \<Rightarrow> memarea" where "area s a = mo_mareas s ! a"

definition npages :: "memmgrob \<Rightarrow> nat" where "npages s = length (mo_msadscs s)"

definition nareas :: "memmgrob \<Rightarrow> nat" where "nareas s = length (mo_mareas s)"

fun selok :: "bafsel \<Rightarrow> bool" where
  "selok (Lie k) \<longleftrightarrow> k < MDIVMER_ARR_LMAX"
| "selok Onem \<longleftrightarrow> True"

fun selsz :: "bafsel \<Rightarrow> nat" where
  "selsz (Lie k) = 2 ^ k"
| "selsz Onem = 1"

fun area_baf :: "memarea \<Rightarrow> bafsel \<Rightarrow> bafhlst" where
  "area_baf m (Lie k) = lie m k"
| "area_baf m Onem = dm_onemsalst (ma_mdmdata m)"

definition baf :: "memmgrob \<Rightarrow> nat \<Rightarrow> bafsel \<Rightarrow> bafhlst" where
  "baf s a sel = area_baf (area s a) sel"

abbreviation frelst :: "memmgrob \<Rightarrow> nat \<Rightarrow> bafsel \<Rightarrow> nat list" where
  "frelst s a sel \<equiv> af_frelst (baf s a sel)"

definition areas_wf :: "memmgrob \<Rightarrow> bool" where
  "areas_wf s \<longleftrightarrow>
     (\<forall>a < nareas s. length (dm_mdmlielst (ma_mdmdata (area s a))) = MDIVMER_ARR_LMAX \<and>
        ma_type (area s a) < 8) \<and>
     distinct (map ma_type (mo_mareas s))"

lemma selsz_pos [simp]: "0 < selsz sel"
  by (cases sel) simp_all

lemma selsz_nonzero [simp]: "selsz sel \<noteq> 0"
  by (cases sel) simp_all

lemma selsz_bound: "selok sel \<Longrightarrow> selsz sel \<le> 2 ^ 51"
proof (cases sel)
  case (Lie k)
  moreover assume "selok sel"
  ultimately have "k \<le> 51"
    by (simp add: MDIVMER_ARR_LMAX_def)
  then have "(2::nat) ^ k \<le> 2 ^ 51"
    by (rule power_increasing) simp
  with Lie show ?thesis
    by (simp only: selsz.simps)
qed simp

lemma getm_msa [mem_simps]: "i < npages s \<Longrightarrow> getm s i = Inr (msa s i)"
  by (simp add: getm_def msa_def npages_def)

lemma geta_area [mem_simps]: "a < nareas s \<Longrightarrow> geta s a = Inr (area s a)"
  by (simp add: geta_def area_def nareas_def)

lemma getb_baf [mem_simps]:
  assumes "areas_wf s" "a < nareas s" "selok sel"
  shows "getb s (a, sel) = Inr (baf s a sel)"
  using assms
  by (cases sel) (auto simp: getb_def geta_area areas_wf_def baf_def area_def lie_def)

lemma updm_put [mem_simps]: "i < npages s \<Longrightarrow> updm s i f = Inr (put_msa s i (f (msa s i)))"
  by (simp add: updm_def getm_msa)

lemma updb_put [mem_simps]:
  assumes "areas_wf s" "a < nareas s" "selok sel"
  shows "updb s (a, sel) f = Inr (put_bafh s (a, sel) (f (baf s a sel)))"
  using assms by (simp add: updb_def getb_baf)

lemma upda_put [mem_simps]: "a < nareas s \<Longrightarrow> upda s a f = Inr (put_area s a (f (area s a)))"
  by (simp add: upda_def geta_area)

section \<open>Writes and what they leave alone\<close>

lemma put_msa_other [simp]:
  "npages (put_msa s i m) = npages s" "nareas (put_msa s i m) = nareas s"
  "area (put_msa s i m) = area s" "baf (put_msa s i m) = baf s"
  "mo_mareas (put_msa s i m) = mo_mareas s"
  "areas_wf (put_msa s i m) = areas_wf s"
  by (simp_all add: put_msa_def npages_def nareas_def area_def baf_def fun_eq_iff areas_wf_def)

lemma msa_put_msa [simp]:
  "i < npages s \<Longrightarrow> msa (put_msa s i m) j = (if j = i then m else msa s j)"
  by (simp add: put_msa_def msa_def npages_def)

lemma put_bafh_other [simp]:
  "npages (put_bafh s r b) = npages s" "nareas (put_bafh s r b) = nareas s"
  "msa (put_bafh s r b) = msa s"
  by (simp_all add: put_bafh_def put_area_def npages_def nareas_def msa_def fun_eq_iff)

lemma area_put_bafh_fields [simp]:
  "ma_type (area_put_bafh m sel b) = ma_type m"
  "ma_maxpages (area_put_bafh m sel b) = ma_maxpages m"
  "ma_allocpages (area_put_bafh m sel b) = ma_allocpages m"
  "ma_freepages (area_put_bafh m sel b) = ma_freepages m"
  "ma_logicstart (area_put_bafh m sel b) = ma_logicstart m"
  "ma_logicend (area_put_bafh m sel b) = ma_logicend m"
  "length (dm_mdmlielst (ma_mdmdata (area_put_bafh m sel b))) =
     length (dm_mdmlielst (ma_mdmdata m))"
  by (cases sel; simp)+

lemma area_put_bafh [simp]:
  "a < nareas s \<Longrightarrow>
     area (put_bafh s (a, sel) b) a' =
       (if a' = a then area_put_bafh (area s a) sel b else area s a')"
  by (simp add: put_bafh_def put_area_def area_def nareas_def)

lemma baf_put_bafh [simp]:
  assumes "areas_wf s" "a < nareas s" "selok sel"
  shows "baf (put_bafh s (a, sel) b) a' sel' =
           (if a' = a \<and> sel' = sel then b else baf s a' sel')"
  using assms
  by (cases sel; cases sel') (auto simp: baf_def areas_wf_def lie_def nth_list_update)

lemma types_put_area:
  "a < nareas s \<Longrightarrow> ma_type m = ma_type (area s a) \<Longrightarrow>
     map ma_type (mo_mareas (put_area s a m)) = map ma_type (mo_mareas s)"
  by (simp add: put_area_def map_update area_def nareas_def list_update_same_conv)

lemma areas_wf_put_bafh [simp]:
  assumes "a < nareas s"
  shows "areas_wf (put_bafh s (a, sel) b) = areas_wf s"
proof -
  have "map ma_type (mo_mareas (put_bafh s (a, sel) b)) = map ma_type (mo_mareas s)"
    using assms by (simp add: put_bafh_def types_put_area area_def)
  moreover have "length (dm_mdmlielst (ma_mdmdata (area (put_bafh s (a, sel) b) a'))) =
      length (dm_mdmlielst (ma_mdmdata (area s a'))) \<and>
      ma_type (area (put_bafh s (a, sel) b) a') = ma_type (area s a')" for a'
    using assms by simp
  ultimately show ?thesis
    by (simp add: areas_wf_def)
qed

lemma put_area_other [simp]:
  "npages (put_area s a m) = npages s" "nareas (put_area s a m) = nareas s"
  "msa (put_area s a m) = msa s"
  by (simp_all add: put_area_def npages_def nareas_def msa_def fun_eq_iff)

lemma area_put_area [simp]:
  "a < nareas s \<Longrightarrow> area (put_area s a m) a' = (if a' = a then m else area s a')"
  by (simp add: put_area_def area_def nareas_def)

section \<open>The invariant\<close>

definition disj :: "nat \<times> nat \<Rightarrow> nat \<times> nat \<Rightarrow> bool" where
  "disj x y \<longleftrightarrow> fst x + snd x \<le> fst y \<or> fst y + snd y \<le> fst x"

lemma disj_sym: "disj x y \<Longrightarrow> disj y x"
  by (auto simp: disj_def)

definition pages_ty :: "memmgrob \<Rightarrow> nat \<Rightarrow> nat \<Rightarrow> nat \<Rightarrow> bool" where
  "pages_ty s a i n \<longleftrightarrow>
     (\<forall>j < n. mf_marty (msa s (i + j)) = ucast (ma_type (area s a)) \<and>
        unat (paf_padrs (msa s (i + j))) = unat (paf_padrs (msa s i)) + j)"

definition pages_idle :: "memmgrob \<Rightarrow> nat \<Rightarrow> nat \<Rightarrow> bool" where
  "pages_idle s i n \<longleftrightarrow>
     (\<forall>j. i \<le> j \<and> j < i + n \<longrightarrow> mf_uindx (msa s j) = 0 \<and> \<not> paf_alloc (msa s j) \<and>
        (i < j \<and> j + 1 < i + n \<longrightarrow> mf_olkty (msa s j) = MF_OLKTY_INIT))"

definition links_ok :: "memmgrob \<Rightarrow> bafref \<Rightarrow> nat \<Rightarrow> nat \<Rightarrow> bool" where
  "links_ok s r i n \<longleftrightarrow>
     (n \<noteq> 1 \<longrightarrow> mf_olkty (msa s i) = MF_OLKTY_ODER \<and> md_odlink (msa s i) = OdMsa (i + n - 1)) \<and>
     mf_olkty (msa s (i + n - 1)) = MF_OLKTY_BAFH \<and>
     md_odlink (msa s (i + n - 1)) = OdBafh r"

definition free_ok :: "memmgrob \<Rightarrow> nat \<Rightarrow> bafsel \<Rightarrow> nat \<Rightarrow> bool" where
  "free_ok s a sel i \<longleftrightarrow>
     i + selsz sel \<le> npages s \<and> pages_ty s a i (selsz sel) \<and>
     pages_idle s i (selsz sel) \<and> links_ok s (a, sel) i (selsz sel)"

definition freeset :: "memmgrob \<Rightarrow> (nat \<times> bafsel \<times> nat) set" where
  "freeset s = {(a, sel, i). a < nareas s \<and> selok sel \<and> i \<in> set (frelst s a sel)}"

fun span :: "nat \<times> bafsel \<times> nat \<Rightarrow> nat \<times> nat" where
  "span (a, sel, i) = (i, selsz sel)"

definition list_wf :: "bafhlst \<Rightarrow> bafsel \<Rightarrow> bool" where
  "list_wf b sel \<longleftrightarrow>
     distinct (af_frelst b) \<and> af_oderpnr b = of_nat (selsz sel) \<and>
     af_fobjnr b = of_nat (length (af_frelst b)) \<and>
     af_mobjnr b = of_nat (length (af_frelst b))"

definition core_inv :: "memmgrob \<Rightarrow> (nat \<times> nat) set \<Rightarrow> bool" where
  "core_inv s R \<longleftrightarrow>
     areas_wf s \<and>
     (\<forall>a sel. a < nareas s \<and> selok sel \<longrightarrow> list_wf (baf s a sel) sel) \<and>
     (\<forall>(a, sel, i) \<in> freeset s. free_ok s a sel i) \<and>
     (\<forall>x \<in> freeset s. \<forall>y \<in> freeset s. x \<noteq> y \<longrightarrow> disj (span x) (span y)) \<and>
     (\<forall>r \<in> R. 0 < snd r \<and> fst r + snd r \<le> npages s) \<and>
     (\<forall>r \<in> R. \<forall>r' \<in> R. r \<noteq> r' \<longrightarrow> disj r r') \<and>
     (\<forall>r \<in> R. \<forall>x \<in> freeset s. disj r (span x))"

lemma core_invD:
  assumes "core_inv s R"
  shows "areas_wf s"
    and "a < nareas s \<Longrightarrow> selok sel \<Longrightarrow> list_wf (baf s a sel) sel"
    and "(a, sel, i) \<in> freeset s \<Longrightarrow> free_ok s a sel i"
    and "x \<in> freeset s \<Longrightarrow> y \<in> freeset s \<Longrightarrow> x \<noteq> y \<Longrightarrow> disj (span x) (span y)"
    and "r \<in> R \<Longrightarrow> 0 < snd r \<and> fst r + snd r \<le> npages s"
    and "r \<in> R \<Longrightarrow> r' \<in> R \<Longrightarrow> r \<noteq> r' \<Longrightarrow> disj r r'"
    and "r \<in> R \<Longrightarrow> x \<in> freeset s \<Longrightarrow> disj r (span x)"
  using assms by (auto simp: core_inv_def)

lemma freeset_iff [simp]:
  "(a, sel, i) \<in> freeset s \<longleftrightarrow> a < nareas s \<and> selok sel \<and> i \<in> set (frelst s a sel)"
  by (simp add: freeset_def)

lemma free_ok_cong:
  assumes "npages s' = npages s"
    and "\<And>j. i \<le> j \<Longrightarrow> j < i + selsz sel \<Longrightarrow> msa s' j = msa s j"
    and "ma_type (area s' a) = ma_type (area s a)"
  shows "free_ok s' a sel i = free_ok s a sel i"
proof -
  have "i \<le> i + selsz sel - 1" "i + selsz sel - 1 < i + selsz sel"
    using selsz_pos [of sel] by linarith+
  then have "msa s' (i + selsz sel - 1) = msa s (i + selsz sel - 1)"
    by (rule assms(2))
  moreover have "msa s' i = msa s i"
    using assms(2) [of i] by simp
  ultimately show ?thesis
    using assms by (auto simp: free_ok_def pages_ty_def pages_idle_def links_ok_def)
qed

lemma freeset_take:
  assumes "areas_wf s" "a < nareas s" "selok sel"
    and "distinct (frelst s a sel)" "af_frelst b = remove1 i (frelst s a sel)"
  shows "freeset (put_bafh s (a, sel) b) = freeset s - {(a, sel, i)}"
  using assms by (auto simp: freeset_def split: if_splits)

lemma freeset_add:
  assumes "areas_wf s" "a < nareas s" "selok sel"
    and "af_frelst b = i # frelst s a sel"
  shows "freeset (put_bafh s (a, sel) b) = insert (a, sel, i) (freeset s)"
  using assms by (auto simp: freeset_def split: if_splits)

section \<open>The moves\<close>

lemma take_free:
  assumes inv: "core_inv s R" and fr: "(a, sel, i) \<in> freeset s"
    and b: "af_frelst b = remove1 i (frelst s a sel)"
      "af_oderpnr b = af_oderpnr (baf s a sel)"
      "af_fobjnr b = af_fobjnr (baf s a sel) - 1" "af_mobjnr b = af_mobjnr (baf s a sel) - 1"
  shows "core_inv (put_bafh s (a, sel) b) (insert (i, selsz sel) R)"
    and "(i, selsz sel) \<notin> R"
proof -
  note D = core_invD [OF inv]
  from fr have a: "a < nareas s" and sel: "selok sel" and i: "i \<in> set (frelst s a sel)"
    by simp_all
  from D(2) [OF a sel] have lw: "list_wf (baf s a sel) sel" .
  then have fs: "freeset (put_bafh s (a, sel) b) = freeset s - {(a, sel, i)}"
    using D(1) a sel b(1) by (intro freeset_take) (simp_all add: list_wf_def)
  have ok: "free_ok (put_bafh s (a, sel) b) a' sel' i' = free_ok s a' sel' i'" for a' sel' i'
    using a by (intro free_ok_cong) simp_all
  have bw: "list_wf b sel"
    using lw b of_nat_remove1 [OF i] by (simp add: list_wf_def)
  have sz: "0 < selsz sel \<and> i + selsz sel \<le> npages s"
    using D(3) [OF fr] by (simp add: free_ok_def)
  have res: "r \<noteq> (i, selsz sel) \<and> disj r (i, selsz sel)" if "r \<in> R" for r
    using D(5) [OF that] D(7) [OF that fr] sz by (auto simp: disj_def)
  have frd: "disj (i, selsz sel) (span x)" if "x \<in> freeset s" "x \<noteq> (a, sel, i)" for x
    using D(4) [OF fr that(1)] that(2) by auto
  show "core_inv (put_bafh s (a, sel) b) (insert (i, selsz sel) R)"
    unfolding core_inv_def fs
    using a sel D(1-3) bw ok sz by (intro conjI) (use D(4-7) res frd in \<open>auto simp: disj_sym\<close>)
  show "(i, selsz sel) \<notin> R"
    using res by blast
qed

lemma add_free:
  assumes inv: "core_inv s (insert (i, selsz sel) R)" and nin: "(i, selsz sel) \<notin> R"
    and a: "a < nareas s" and sel: "selok sel"
    and ok: "free_ok s a sel i"
    and b: "af_frelst b = i # frelst s a sel"
      "af_oderpnr b = af_oderpnr (baf s a sel)"
      "af_fobjnr b = af_fobjnr (baf s a sel) + 1" "af_mobjnr b = af_mobjnr (baf s a sel) + 1"
  shows "core_inv (put_bafh s (a, sel) b) R"
proof -
  note D = core_invD [OF inv]
  let ?r = "(i, selsz sel)"
  have r: "?r \<in> insert ?r R"
    by simp
  from D(2) [OF a sel] have lw: "list_wf (baf s a sel) sel" .
  have fs: "freeset (put_bafh s (a, sel) b) = insert (a, sel, i) (freeset s)"
    using D(1) a sel b(1) by (intro freeset_add) simp_all
  have ok': "free_ok (put_bafh s (a, sel) b) a' sel' i' = free_ok s a' sel' i'" for a' sel' i'
    using a by (intro free_ok_cong) simp_all
  have "i \<notin> set (frelst s a sel)"
  proof
    assume "i \<in> set (frelst s a sel)"
    with a sel have "(a, sel, i) \<in> freeset s"
      by simp
    from D(7) [OF r this] show False
      by (simp add: disj_def)
  qed
  then have bw: "list_wf b sel"
    using lw b by (simp add: list_wf_def)
  have res: "disj x ?r" if "x \<in> R" for x
    using D(6) [of x ?r] nin that by auto
  show ?thesis
    unfolding core_inv_def fs
    using a sel D(1-5) D(6,7) bw ok ok' res D(7) [OF r]
    by (auto simp: disj_sym)
qed

lemma upd_res:
  assumes inv: "core_inv s R" and r: "(i, n) \<in> R" and j: "i \<le> j" "j < i + n"
  shows "core_inv (put_msa s j m) R"
proof -
  note D = core_invD [OF inv]
  have jn: "j < npages s"
    using D(5) [OF r] j by simp
  have fs: "freeset (put_msa s j m) = freeset s"
    by (simp add: freeset_def)
  have ok: "free_ok (put_msa s j m) a sel k = free_ok s a sel k" if "(a, sel, k) \<in> freeset s" for a sel k
  proof (rule free_ok_cong)
    fix l assume "k \<le> l" "l < k + selsz sel"
    with D(7) [OF r that] j have "l \<noteq> j"
      by (auto simp: disj_def)
    with jn show "msa (put_msa s j m) l = msa s l"
      by simp
  qed simp_all
  show ?thesis
    unfolding core_inv_def fs
    using D ok by (auto split: prod.splits)
qed

lemma split_res:
  assumes inv: "core_inv s (insert (i, n + m) R)" and nin: "(i, n + m) \<notin> R"
    and "0 < n" "0 < m"
  shows "core_inv s (insert (i, n) (insert (i + n, m) R))"
    and "(i, n) \<notin> R" "(i + n, m) \<notin> R"
proof -
  note D = core_invD [OF inv]
  let ?r = "(i, n + m)"
  have r: "?r \<in> insert ?r R"
    by simp
  have res: "disj x ?r" if "x \<in> R" for x
    using D(6) [of x ?r] nin that by auto
  then have sub: "disj x (i, n) \<and> disj x (i + n, m)" if "x \<in> R" for x
    using that by (fastforce simp: disj_def)
  have fr: "disj (i, n) (span x) \<and> disj (i + n, m) (span x)" if "x \<in> freeset s" for x
    using D(7) [OF r that] by (auto simp: disj_def)
  have "x \<noteq> (i, n) \<and> x \<noteq> (i + n, m)" if "x \<in> R" for x
    using sub [OF that] assms(3,4) D(5) [of x] that by (auto simp: disj_def)
  then show "(i, n) \<notin> R" "(i + n, m) \<notin> R"
    by blast+
  have dd: "disj (i, n) (i + n, m)"
    by (simp add: disj_def)
  have bd: "i + n + m \<le> npages s"
    using D(5) [OF r] by simp
  show "core_inv s (insert (i, n) (insert (i + n, m) R))"
    unfolding core_inv_def
    using D(1-5) D(6,7) sub fr dd bd assms(3,4)
    by (auto simp: disj_sym)
qed

lemma merge_res:
  assumes inv: "core_inv s (insert (i, n) (insert (i + n, m) R))"
    and nin: "(i, n) \<notin> R" "(i + n, m) \<notin> R" and "0 < n" "0 < m"
  shows "core_inv s (insert (i, n + m) R)" and "(i, n + m) \<notin> R"
proof -
  note D = core_invD [OF inv]
  have res: "disj x (i, n) \<and> disj x (i + n, m)" if "x \<in> R" for x
    using D(6) [of x "(i, n)"] D(6) [of x "(i + n, m)"] nin that by auto
  have sub: "disj x (i, n + m)" if "0 < snd x" "disj x (i, n)" "disj x (i + n, m)" for x
    using that assms(4,5) by (auto simp: disj_def)
  have fr: "disj (i, n + m) (span x)" if "x \<in> freeset s" for x
  proof -
    have "disj (i, n) (span x)" "disj (i + n, m) (span x)"
      using D(7) that by blast+
    moreover have "0 < snd (span x)"
      by (cases x) simp
    ultimately show ?thesis
      by (metis disj_sym sub)
  qed
  have rsub: "disj x (i, n + m)" if "x \<in> R" for x
    using that res D(5) [of x] by (intro sub) auto
  have "x \<noteq> (i, n + m)" if "x \<in> R" for x
    using rsub [OF that] assms(4,5) by (auto simp: disj_def)
  then show "(i, n + m) \<notin> R"
    by blast
  have bd: "i + n + m \<le> npages s"
    using D(5) [of "(i + n, m)"] by simp
  show "core_inv s (insert (i, n + m) R)"
    unfolding core_inv_def
    using D(1-5) D(6,7) fr rsub bd assms(4,5)
    by (auto simp: disj_sym)
qed

end
