(* ===== verification/MemOrder.thy ===== *)
theory MemOrder
  imports MemDivMer
begin

text \<open>
  The order of a request: \<open>retn_divoder\<close> of \<open>memdivmer.c\<close>, computed there with a bit scan
  and a test of \<open>pages & (pages - 1)\<close>, is the least \<open>k\<close> with \<open>pages \<le> 2 ^ k\<close>.
\<close>

lemma bsr_bounds: "0 < n \<Longrightarrow> 2 ^ bsr n \<le> n \<and> n < 2 ^ Suc (bsr n)"
proof (induction n rule: bsr.induct)
  case (1 n)
  show ?case
  proof (cases "n < 2")
    case True
    with 1 have "n = 1" by simp
    then show ?thesis by (simp add: bsr.simps)
  next
    case False
    then have IH: "2 ^ bsr (n div 2) \<le> n div 2 \<and> n div 2 < 2 ^ Suc (bsr (n div 2))"
      using 1 by simp
    from False have "bsr n = Suc (bsr (n div 2))"
      by (subst bsr.simps) simp
    with IH show ?thesis
      by auto
  qed
qed

lemma and_pred_zero: "0 < n \<Longrightarrow> and n (n - 1) = 0 \<longleftrightarrow> (\<exists>k. n = 2 ^ k)" for n :: nat
proof (induction n rule: less_induct)
  case (less n)
  show ?case
  proof (cases "even n")
    case True
    then obtain m where m: "n = 2 * m" by blast
    with less.prems have "0 < m" by simp
    then have "n - 1 = Suc (2 * (m - 1))" using m by simp
    then have "and n (n - 1) = 2 * and m (m - 1)"
      using m by (subst and_rec) simp
    moreover have "and m (m - 1) = 0 \<longleftrightarrow> (\<exists>k. m = 2 ^ k)"
      using less.IH [of m] m \<open>0 < m\<close> by simp
    moreover have "(\<exists>k. m = 2 ^ k) \<longleftrightarrow> (\<exists>k. n = 2 ^ k)"
    proof
      assume "\<exists>k. n = 2 ^ k"
      then obtain k where "n = 2 ^ k" by blast
      with m \<open>0 < m\<close> show "\<exists>k. m = 2 ^ k"
        by (cases k) (auto simp: m)
    next
      assume "\<exists>k. m = 2 ^ k"
      then obtain k where "m = 2 ^ k" by blast
      then have "n = 2 ^ Suc k" using m by simp
      then show "\<exists>k. n = 2 ^ k" by blast
    qed
    ultimately show ?thesis by simp
  next
    case False
    then obtain m where m: "n = Suc (2 * m)" by (auto elim: oddE)
    have "and n (n - 1) = 2 * m"
      using m by (subst and_rec) simp
    moreover have "(\<exists>k. n = 2 ^ k) \<longleftrightarrow> m = 0"
    proof
      assume "\<exists>k. n = 2 ^ k"
      then obtain k where "n = 2 ^ k" by blast
      with False have "k = 0" by (cases k) simp_all
      with \<open>n = 2 ^ k\<close> m show "m = 0" by simp
    next
      assume "m = 0"
      then have "n = 2 ^ 0" using m by simp
      then show "\<exists>k. n = 2 ^ k" by blast
    qed
    ultimately show ?thesis by simp
  qed
qed

text \<open>The order a request of \<open>n\<close> pages needs.\<close>

definition order_for :: "nat \<Rightarrow> nat" where
  "order_for n = (if n = 2 ^ bsr n then bsr n else Suc (bsr n))"

lemma order_for_bounds:
  assumes "0 < n"
  shows "n \<le> 2 ^ order_for n" and "order_for n = 0 \<or> 2 ^ (order_for n - 1) < n"
proof -
  note b = bsr_bounds [OF assms]
  show "n \<le> 2 ^ order_for n"
    using b by (simp add: order_for_def)
  show "order_for n = 0 \<or> 2 ^ (order_for n - 1) < n"
  proof (cases "n = 2 ^ bsr n")
    case True
    then have o: "order_for n = bsr n"
      by (simp add: order_for_def)
    show ?thesis
    proof (cases "bsr n")
      case (Suc b)
      then have "2 ^ (order_for n - 1) < (2::nat) ^ bsr n"
        using o by simp
      with True show ?thesis
        by simp
    qed (simp add: o)
  next
    case False
    with b show ?thesis
      by (simp add: order_for_def)
  qed
qed

lemma bsr_pow2 [simp]: "bsr (2 ^ k) = k"
proof -
  have b: "2 ^ bsr (2 ^ k) \<le> (2::nat) ^ k \<and> (2::nat) ^ k < 2 ^ Suc (bsr (2 ^ k))"
    by (rule bsr_bounds) simp
  then have "bsr (2 ^ k) \<le> k"
    using power_le_imp_le_exp [of "2::nat" "bsr (2 ^ k)" k] by simp
  moreover have "k < Suc (bsr (2 ^ k))"
    by (rule power_less_imp_less_exp [of "2::nat"]) (use b in simp_all)
  ultimately show ?thesis
    by simp
qed

lemma order_for_pow2 [simp]: "order_for (2 ^ k) = k"
  by (simp add: order_for_def)

lemma retn_divoder_eq:
  assumes "pages \<noteq> 0"
  shows "retn_divoder pages = int (order_for (unat pages))"
proof -
  have pos: "0 < unat pages"
    using assms unat_gt_0 by blast
  have "unat (and pages (pages - 1)) = and (unat pages) (unat pages - 1)"
    by (simp only: unsigned_and_eq unat_minus_one [OF assms])
  then have "unat (and pages (pages - 1)) = 0 \<longleftrightarrow> and (unat pages) (unat pages - 1) = 0"
    by (rule arg_cong [where f = "\<lambda>x. x = 0"])
  then have "and pages (pages - 1) = 0 \<longleftrightarrow> (\<exists>k. unat pages = 2 ^ k)"
    unfolding and_pred_zero [OF pos] unat_eq_0 .
  also have "\<dots> \<longleftrightarrow> unat pages = 2 ^ bsr (unat pages)"
    by (metis bsr_pow2)
  finally show ?thesis
    using assms by (simp add: retn_divoder_def search_64rlbits_def order_for_def)
qed

lemma order_for_le:
  assumes "0 < n" shows "order_for n \<le> k \<longleftrightarrow> n \<le> 2 ^ k"
proof
  assume "order_for n \<le> k"
  then have "(2::nat) ^ order_for n \<le> 2 ^ k" by simp
  with order_for_bounds(1) [OF assms] show "n \<le> 2 ^ k" by linarith
next
  assume "n \<le> 2 ^ k"
  show "order_for n \<le> k"
  proof (rule ccontr)
    assume "\<not> order_for n \<le> k"
    then have "k \<le> order_for n - 1" "order_for n \<noteq> 0" by simp_all
    then have "(2::nat) ^ k \<le> 2 ^ (order_for n - 1)" by (intro power_increasing) simp_all
    with order_for_bounds(2) [OF assms] \<open>order_for n \<noteq> 0\<close> \<open>n \<le> 2 ^ k\<close> show False by linarith
  qed
qed
end
