(* ===== verification/MemSpec.thy ===== *)
theory MemSpec
  imports MemInv MemOrder
begin

text \<open>
  What the allocator promises, read off its state: the set of free pages of an area, the
  parts of the state an operation leaves alone, the block an operation holds while it runs,
  and the invariant with the set of blocks handed out.
\<close>

section \<open>The abstract state\<close>

definition free_pages :: "memmgrob \<Rightarrow> nat \<Rightarrow> nat set" where
  "free_pages s a = {p. \<exists>sel i. (a, sel, i) \<in> freeset s \<and> i \<le> p \<and> p < i + selsz sel}"

lemma free_pagesI: "(a, sel, i) \<in> freeset s \<Longrightarrow> i \<le> p \<Longrightarrow> p < i + selsz sel \<Longrightarrow> p \<in> free_pages s a"
  unfolding free_pages_def by blast

lemma free_pagesE:
  assumes "p \<in> free_pages s a"
  obtains sel i where "(a, sel, i) \<in> freeset s" "i \<le> p" "p < i + selsz sel"
  using assms unfolding free_pages_def by blast

lemma free_pages_block:
  "(a, sel, i) \<in> freeset s \<Longrightarrow> {i..<i + selsz sel} \<subseteq> free_pages s a"
  by (rule subsetI, erule free_pagesI) simp_all

lemma free_pages_bound:
  assumes "core_inv s R"
  shows "free_pages s a \<subseteq> {..<npages s}"
proof
  fix p assume "p \<in> free_pages s a"
  then obtain sel i where "(a, sel, i) \<in> freeset s" "p < i + selsz sel"
    by (rule free_pagesE)
  with core_invD(3) [OF assms this(1)] show "p \<in> {..<npages s}"
    by (simp add: free_ok_def)
qed

lemma finite_free_pages: "core_inv s R \<Longrightarrow> finite (free_pages s a)"
  by (rule finite_subset [OF free_pages_bound]) simp_all

lemma free_pages_reserved:
  assumes "core_inv s R" "(i, n) \<in> R"
  shows "free_pages s a \<inter> {i..<i + n} = {}"
proof -
  have "p \<notin> {i..<i + n}" if "p \<in> free_pages s a" for p
    using that
  proof (rule free_pagesE)
    fix sel j assume "(a, sel, j) \<in> freeset s" "j \<le> p" "p < j + selsz sel"
    with core_invD(7) [OF assms this(1)] show "p \<notin> {i..<i + n}"
      by (auto simp: disj_def)
  qed
  then show ?thesis
    by blast
qed

lemma free_pages_put_msa [simp]: "free_pages (put_msa s j m) = free_pages s"
  by (simp add: free_pages_def fun_eq_iff)

lemma free_pages_take:
  assumes inv: "core_inv s R" and fr: "(a, sel, i) \<in> freeset s"
    and b: "af_frelst b = remove1 i (frelst s a sel)"
  shows "free_pages (put_bafh s (a, sel) b) a' =
           (if a' = a then free_pages s a - {i..<i + selsz sel} else free_pages s a')"
proof -
  note D = core_invD [OF inv]
  have "list_wf (baf s a sel) sel"
    using D(2) fr by simp
  then have fs: "freeset (put_bafh s (a, sel) b) = freeset s - {(a, sel, i)}"
    using D(1) fr b by (intro freeset_take) (simp_all add: list_wf_def)
  have dj: "disj (i, selsz sel) (span x)" if "x \<in> freeset s" "x \<noteq> (a, sel, i)" for x
    using D(4) [OF fr that(1)] that(2) by auto
  have "p \<in> free_pages (put_bafh s (a, sel) b) a' \<longleftrightarrow>
      p \<in> (if a' = a then free_pages s a - {i..<i + selsz sel} else free_pages s a')" for p
  proof
    assume "p \<in> free_pages (put_bafh s (a, sel) b) a'"
    then obtain sel' i' where x: "(a', sel', i') \<in> freeset s" "(a', sel', i') \<noteq> (a, sel, i)"
      "i' \<le> p" "p < i' + selsz sel'"
      unfolding free_pages_def fs by blast
    from dj [OF x(1,2)] x(3,4) have "p \<notin> {i..<i + selsz sel}"
      by (auto simp: disj_def)
    with x show "p \<in> (if a' = a then free_pages s a - {i..<i + selsz sel} else free_pages s a')"
      unfolding free_pages_def by auto
  next
    assume p: "p \<in> (if a' = a then free_pages s a - {i..<i + selsz sel} else free_pages s a')"
    then obtain sel' i' where "(a', sel', i') \<in> freeset s" "i' \<le> p" "p < i' + selsz sel'"
      unfolding free_pages_def by (auto split: if_splits)
    with p show "p \<in> free_pages (put_bafh s (a, sel) b) a'"
      unfolding free_pages_def fs by (auto split: if_splits)
  qed
  then show ?thesis
    by blast
qed

lemma free_pages_add:
  assumes "areas_wf s" "a < nareas s" "selok sel" "af_frelst b = i # frelst s a sel"
  shows "free_pages (put_bafh s (a, sel) b) a' =
           (if a' = a then free_pages s a \<union> {i..<i + selsz sel} else free_pages s a')"
proof -
  have mem: "p \<in> free_pages (put_bafh s (a, sel) b) a' \<longleftrightarrow>
      p \<in> free_pages s a' \<or> (a' = a \<and> i \<le> p \<and> p < i + selsz sel)" for p
  proof
    assume "p \<in> free_pages (put_bafh s (a, sel) b) a'"
    then show "p \<in> free_pages s a' \<or> (a' = a \<and> i \<le> p \<and> p < i + selsz sel)"
    proof (rule free_pagesE)
      fix sel' j assume x: "(a', sel', j) \<in> freeset (put_bafh s (a, sel) b)" "j \<le> p" "p < j + selsz sel'"
      then consider "(a', sel', j) = (a, sel, i)" | "(a', sel', j) \<in> freeset s"
        unfolding freeset_add [OF assms] by blast
      then show ?thesis
        using x(2,3) by cases (simp, blast intro: free_pagesI)
    qed
  next
    have "p \<in> free_pages (put_bafh s (a, sel) b) a'" if "p \<in> free_pages s a'"
      using that
    proof (rule free_pagesE)
      fix sel' j assume "(a', sel', j) \<in> freeset s" "j \<le> p" "p < j + selsz sel'"
      then show ?thesis
        by (intro free_pagesI [of _ sel' j]) (simp_all only: freeset_add [OF assms] insertI2)
    qed
    moreover have "p \<in> free_pages (put_bafh s (a, sel) b) a" if "i \<le> p" "p < i + selsz sel"
      using that by (intro free_pagesI [of _ sel i]) (simp_all only: freeset_add [OF assms] insertI1)
    moreover assume "p \<in> free_pages s a' \<or> (a' = a \<and> i \<le> p \<and> p < i + selsz sel)"
    ultimately show "p \<in> free_pages (put_bafh s (a, sel) b) a'"
      by (elim disjE conjE) simp_all
  qed
  show ?thesis
    by (rule set_eqI) (simp add: mem)
qed

section \<open>What an operation leaves alone\<close>

definition frame :: "nat set \<Rightarrow> memmgrob \<Rightarrow> memmgrob \<Rightarrow> bool" where
  "frame P s s' \<longleftrightarrow>
     npages s' = npages s \<and> nareas s' = nareas s \<and>
     (\<forall>j. j \<notin> P \<longrightarrow> msa s' j = msa s j) \<and>
     (\<forall>j. mf_marty (msa s' j) = mf_marty (msa s j) \<and> paf_padrs (msa s' j) = paf_padrs (msa s j)) \<and>
     (\<forall>a. ma_type (area s' a) = ma_type (area s a) \<and>
        ma_maxpages (area s' a) = ma_maxpages (area s a) \<and>
        ma_freepages (area s' a) = ma_freepages (area s a) \<and>
        ma_allocpages (area s' a) = ma_allocpages (area s a)) \<and>
     mo_maxpages s' = mo_maxpages s \<and> mo_freepages s' = mo_freepages s \<and>
     mo_alocpages s' = mo_alocpages s"

lemma frame_refl [simp]: "frame P s s"
  by (simp add: frame_def)

lemma frame_trans: "frame P s s' \<Longrightarrow> frame P s' s'' \<Longrightarrow> frame P s s''"
  by (simp add: frame_def)

lemma frame_mono: "frame P s s' \<Longrightarrow> P \<subseteq> Q \<Longrightarrow> frame Q s s'"
  by (auto simp: frame_def)

lemma frame_put_msa:
  assumes "j \<in> P" "j < npages s" "mf_marty m = mf_marty (msa s j)"
    "paf_padrs m = paf_padrs (msa s j)"
  shows "frame P s (put_msa s j m)"
  using assms by (auto simp: frame_def) (simp_all add: put_msa_def)

lemma frame_put_bafh:
  assumes "a < nareas s"
  shows "frame P s (put_bafh s (a, sel) b)"
  using assms by (auto simp: frame_def) (simp_all add: put_bafh_def put_area_def)

lemma frame_pages_ty: "frame P s s' \<Longrightarrow> pages_ty s' a i n = pages_ty s a i n"
  by (simp add: frame_def pages_ty_def)

section \<open>The block an operation holds\<close>

definition held :: "memmgrob \<Rightarrow> (nat \<times> nat) set \<Rightarrow> nat \<Rightarrow> nat \<Rightarrow> nat \<Rightarrow> bool" where
  "held s R a i n \<longleftrightarrow>
     core_inv s (insert (i, n) R) \<and> (i, n) \<notin> R \<and> a < nareas s \<and>
     pages_ty s a i n \<and> pages_idle s i n"

definition head_link :: "memmgrob \<Rightarrow> nat \<Rightarrow> nat \<Rightarrow> bool" where
  "head_link s i n \<longleftrightarrow>
     ((mf_olkty (msa s i) = MF_OLKTY_ODER \<and> md_odlink (msa s i) = OdMsa (i + n - 1)) \<or>
      (n = 1 \<and> mf_olkty (msa s i) = MF_OLKTY_BAFH \<and> md_odlink (msa s i) \<noteq> OdNull)) \<and>
     (n \<noteq> 1 \<longrightarrow> mf_olkty (msa s (i + n - 1)) \<noteq> MF_OLKTY_ODER)"

lemma heldD:
  assumes "held s R a i n"
  shows "core_inv s (insert (i, n) R)" "(i, n) \<notin> R" "a < nareas s" "areas_wf s"
    "pages_ty s a i n" "pages_idle s i n" "0 < n" "i + n \<le> npages s"
proof -
  show c: "core_inv s (insert (i, n) R)" and "(i, n) \<notin> R" "a < nareas s" "pages_ty s a i n"
    "pages_idle s i n"
    using assms by (simp_all add: held_def)
  show "areas_wf s"
    by (rule core_invD(1) [OF c])
  show "0 < n" "i + n \<le> npages s"
    using core_invD(5) [OF c, of "(i, n)"] by simp_all
qed

lemma frelst_length:
  assumes "core_inv s R" "a < nareas s" "selok sel"
  shows "length (frelst s a sel) \<le> npages s"
proof -
  have "distinct (frelst s a sel)"
    using core_invD(2) [OF assms] by (simp add: list_wf_def)
  moreover have "set (frelst s a sel) \<subseteq> {..<npages s}"
  proof
    fix i assume "i \<in> set (frelst s a sel)"
    with assms(2,3) have "(a, sel, i) \<in> freeset s" by simp
    from core_invD(3) [OF assms(1) this] show "i \<in> {..<npages s}"
      using selsz_pos [of sel] by (simp add: free_ok_def del: selsz_pos)
  qed
  ultimately show ?thesis
    using card_mono [of "{..<npages s}" "set (frelst s a sel)"] by (simp add: distinct_card)
qed

lemma counter_facts:
  assumes "core_inv s R" "a < nareas s" "selok sel" "npages s \<le> 2 ^ 52"
  shows "af_fobjnr (baf s a sel) < 1 \<longleftrightarrow> frelst s a sel = []"
    and "af_mobjnr (baf s a sel) < 1 \<longleftrightarrow> frelst s a sel = []"
    and "0 < af_fobjnr (baf s a sel) \<longleftrightarrow> frelst s a sel \<noteq> []"
    and "\<not> - 1 \<le> af_fobjnr (baf s a sel)" and "\<not> - 1 \<le> af_mobjnr (baf s a sel)"
proof -
  let ?n = "length (frelst s a sel)"
  have n: "?n < 2 ^ 64 - 1"
    using frelst_length [OF assms(1-3)] assms(4) by simp
  then have n': "?n < 2 ^ 64"
    by simp
  have c: "af_fobjnr (baf s a sel) = of_nat ?n" "af_mobjnr (baf s a sel) = of_nat ?n"
    using core_invD(2) [OF assms(1-3)] by (simp_all add: list_wf_def)
  show "af_fobjnr (baf s a sel) < 1 \<longleftrightarrow> frelst s a sel = []"
    "af_mobjnr (baf s a sel) < 1 \<longleftrightarrow> frelst s a sel = []"
    unfolding c cnt_less_1 [OF n'] by simp_all
  show "0 < af_fobjnr (baf s a sel) \<longleftrightarrow> frelst s a sel \<noteq> []"
    unfolding c word_greater_zero_iff cnt_zero_iff [OF n'] by simp
  show "\<not> - 1 \<le> af_fobjnr (baf s a sel)" "\<not> - 1 \<le> af_mobjnr (baf s a sel)"
    unfolding c using cnt_max [OF n] by simp_all
qed

end
