(* ===== verification/MemAlloc.thy ===== *)
theory MemAlloc
  imports MemSpec
begin

text \<open>
  Allocation. A request takes the first block of the first non-empty list of at least its
  order and gives the upper halves back until the block has that order.
\<close>

lemma frame_msa [intro]:
  "frame P s t \<Longrightarrow> j \<in> P \<Longrightarrow> j < npages t \<Longrightarrow> mf_marty m = mf_marty (msa t j) \<Longrightarrow>
    paf_padrs m = paf_padrs (msa t j) \<Longrightarrow> frame P s (put_msa t j m)"
  by (rule frame_trans [OF _ frame_put_msa])

lemma frame_bafh [intro]:
  "frame P s t \<Longrightarrow> a < nareas t \<Longrightarrow> frame P s (put_bafh t (a, sel) b)"
  by (rule frame_trans [OF _ frame_put_bafh])

lemma retn_block:
  assumes inv: "core_inv s R" and a: "a < nareas s" and sel: "selok sel"
    and sz: "npages s \<le> 2 ^ 52" and l: "frelst s a sel = i # rest"
  shows "\<exists>s'. mm_retnmsaob_onbafhlst s (a, sel) =
             Inr (Some (i, Some (i + selsz sel - 1)), s') \<and>
           held s' R a i (selsz sel) \<and> head_link s' i (selsz sel) \<and>
           frame {} s s' \<and> free_pages s' = (free_pages s)(a := free_pages s a - {i..<i + selsz sel}) \<and>
           (\<forall>a' sel'. frelst s' a' sel' = (if a' = a \<and> sel' = sel then rest else frelst s a' sel'))"
proof -
  let ?b = "(baf s a sel)\<lparr>af_frelst := rest, af_mobjnr := af_mobjnr (baf s a sel) - 1,
    af_fobjnr := af_fobjnr (baf s a sel) - 1, af_freindx := af_freindx (baf s a sel) + 1\<rparr>"
  let ?s = "put_bafh s (a, sel) ?b"
  have fr: "(a, sel, i) \<in> freeset s"
    using a sel l by simp
  note D = core_invD [OF inv]
  from D(3) [OF fr] have ok: "i + selsz sel \<le> npages s" "pages_ty s a i (selsz sel)"
    "pages_idle s i (selsz sel)" "links_ok s (a, sel) i (selsz sel)"
    by (simp_all add: free_ok_def)
  have i: "i < npages s"
    using ok(1) selsz_pos [of sel] by linarith
  have rem: "af_frelst ?b = remove1 i (frelst s a sel)"
    using l by simp
  have inv': "core_inv ?s (insert (i, selsz sel) R)" "(i, selsz sel) \<notin> R"
    by (rule take_free [OF inv fr rem]; simp)+
  have fp: "free_pages ?s = (free_pages s)(a := free_pages s a - {i..<i + selsz sel})"
    by (rule ext) (simp add: free_pages_take [OF inv fr rem])
  have f: "frame {} s ?s"
    by (rule frame_put_bafh [OF a])
  have h: "held ?s R a i (selsz sel)"
    using inv' a ok(2,3) by (simp add: held_def pages_idle_def pages_ty_def)
  have hl: "head_link ?s i (selsz sel)"
    using ok(4) by (cases "selsz sel = 1") (auto simp: head_link_def links_ok_def)
  have "mm_retnmsaob_onbafhlst s (a, sel) = Inr (Some (i, Some (i + selsz sel - 1)), ?s)"
    using l i ok(4) D(1) a sel counter_facts(1,2) [OF inv a sel sz]
    by (cases "selsz sel = 1")
      (simp_all add: mm_retnmsaob_onbafhlst_def mem_simps links_ok_def)
  moreover have "\<forall>a' sel'. frelst ?s a' sel' = (if a' = a \<and> sel' = sel then rest else frelst s a' sel')"
    using D(1) a sel by simp
  ultimately show ?thesis
    using h hl f fp by blast
qed

lemma retn_block_empty:
  assumes "core_inv s R" "a < nareas s" "selok sel" "npages s \<le> 2 ^ 52" "frelst s a sel = []"
  shows "mm_retnmsaob_onbafhlst s (a, sel) = Inr (None, s)"
  using assms counter_facts(1) [OF assms(1-4)] core_invD(1) [OF assms(1)]
  by (simp add: mm_retnmsaob_onbafhlst_def mem_simps)

text \<open>A block of the model's spans as the code counts it.\<close>

lemma span_block: "0 < n \<Longrightarrow> page_span i (i + n - 1) = of_nat n"
  by (subst page_span_le) simp_all

definition alloc_ok :: "memmgrob \<Rightarrow> nat \<Rightarrow> nat \<Rightarrow> nat \<Rightarrow> bool" where
  "alloc_ok s a i n \<longleftrightarrow>
     i + n \<le> npages s \<and> pages_ty s a i n \<and>
     mf_olkty (msa s i) = MF_OLKTY_ODER \<and> md_odlink (msa s i) = OdMsa (i + n - 1) \<and>
     mf_uindx (msa s i) = 1 \<and> paf_alloc (msa s i) \<and>
     mf_uindx (msa s (i + n - 1)) = 1 \<and> paf_alloc (msa s (i + n - 1)) \<and>
     (n \<noteq> 1 \<longrightarrow> mf_olkty (msa s (i + n - 1)) \<noteq> MF_OLKTY_ODER) \<and>
     (\<forall>j. i < j \<and> j + 1 < i + n \<longrightarrow>
        mf_uindx (msa s j) = 0 \<and> \<not> paf_alloc (msa s j) \<and> mf_olkty (msa s j) = MF_OLKTY_INIT)"

lemma divpages_opmsadsc_block:
  assumes h: "held s R a i n" and hl: "head_link s i n" and sz: "n < 2 ^ 64"
  shows "\<exists>s'. mm_divpages_opmsadsc s i (of_nat n) = Inr (Some i, s') \<and>
           core_inv s' (insert (i, n) R) \<and> alloc_ok s' a i n \<and> frame {i..<i + n} s s' \<and>
           free_pages s' = free_pages s \<and> (\<forall>a sel. frelst s' a sel = frelst s a sel)"
proof -
  note H = heldD [OF h]
  let ?e = "i + n - 1"
  have bnd: "i < npages s" "?e < npages s" "i \<le> ?e" "?e < i + n" "i < i + n"
    using H(7,8) by simp_all
  have nz: "(of_nat n :: u64) \<noteq> 0"
    using cnt_zero_iff [OF sz] H(7) by simp
  have idle: "mf_uindx (msa s i) = 0" "\<not> paf_alloc (msa s i)" "mf_uindx (msa s ?e) = 0"
    "\<not> paf_alloc (msa s ?e)"
    using H(6) bnd(3-5) by (simp_all add: pages_idle_def)
  have max: "\<not> MF_UINDX_MAX - 1 < 0"
    by (simp add: MF_UINDX_MAX_def)
  have end_of: "(if mf_olkty (msa s i) = MF_OLKTY_BAFH then Inr i else od_msa (md_odlink (msa s i))) = Inr ?e"
    using hl by (auto simp: head_link_def)
  have lnk: "mf_olkty (msa s i) = MF_OLKTY_ODER \<or> mf_olkty (msa s i) = MF_OLKTY_BAFH"
    "md_odlink (msa s i) \<noteq> OdNull"
    using hl by (auto simp: head_link_def)
  have upd: "core_inv (put_msa t j m) (insert (i, n) R)"
    if "core_inv t (insert (i, n) R)" "j = i \<or> j = ?e" for t j m
    using upd_res [OF that(1), of i n j m] that(2) bnd by auto
  show ?thesis
  proof (cases "n = 1")
    case True
    let ?s = "put_msa s i ((msa s i)\<lparr>mf_uindx := 1, paf_alloc := True,
      mf_olkty := MF_OLKTY_ODER, md_odlink := OdMsa i\<rparr>)"
    have "mm_divpages_opmsadsc s i (of_nat n) = Inr (Some i, ?s)"
      using True bnd idle max nz end_of lnk span_block [OF H(7), of i]
      by (simp add: mm_divpages_opmsadsc_def mem_simps)
    moreover have "frame {i..<i + n} s ?s"
      using bnd by (intro frame_put_msa) simp_all
    moreover have "alloc_ok ?s a i n"
      using True bnd H(5) by (simp add: alloc_ok_def pages_ty_def)
    ultimately show ?thesis
      using upd [OF H(1)] by (intro exI [of _ ?s]) simp
  next
    case False
    then have ne: "?e \<noteq> i"
      using H(7) by simp
    let ?s1 = "put_msa s i ((msa s i)\<lparr>mf_uindx := 1, paf_alloc := True\<rparr>)"
    let ?s2 = "put_msa ?s1 ?e ((msa ?s1 ?e)\<lparr>mf_uindx := 1, paf_alloc := True\<rparr>)"
    let ?s3 = "put_msa ?s2 i ((msa ?s2 i)\<lparr>mf_olkty := MF_OLKTY_ODER, md_odlink := OdMsa ?e\<rparr>)"
    have "mm_divpages_opmsadsc s i (of_nat n) = Inr (Some i, ?s3)"
      using False ne bnd idle max nz end_of lnk span_block [OF H(7), of i]
      by (simp add: mm_divpages_opmsadsc_def mem_simps)
    moreover have "frame {i..<i + n} s ?s3"
      using bnd ne by (intro frame_msa frame_refl) simp_all
    moreover have "alloc_ok ?s3 a i n"
      using bnd H(5,6,8) ne hl by (auto simp: alloc_ok_def pages_ty_def pages_idle_def head_link_def)
    moreover have "core_inv ?s3 (insert (i, n) R)"
      by (intro upd H(1)) simp_all
    moreover have "free_pages ?s3 = free_pages s" "\<forall>a sel. frelst ?s3 a sel = frelst s a sel"
      by simp_all
    ultimately show ?thesis
      by blast
  qed
qed

lemma half_pages_ty:
  "pages_ty s a i (n + m) \<Longrightarrow> pages_ty s a i n \<and> pages_ty s a (i + n) m"
proof -
  assume ty: "pages_ty s a i (n + m)"
  have "mf_marty (msa s (i + n + j)) = ucast (ma_type (area s a)) \<and>
      unat (paf_padrs (msa s (i + n + j))) = unat (paf_padrs (msa s (i + n))) + j" if "j < m" for j
  proof -
    have "n + j < n + m" "n < n + m"
      using that by simp_all
    from ty [unfolded pages_ty_def, rule_format, OF this(1)]
      ty [unfolded pages_ty_def, rule_format, OF this(2)]
    show ?thesis
      by (simp add: add.assoc)
  qed
  with ty show ?thesis
    by (simp add: pages_ty_def)
qed

text \<open>The upper half of a held block goes to the list of its order.\<close>

lemma add_half:
  assumes h: "held s R a i (2 * 2 ^ k)" and k: "k < MDIVMER_ARR_LMAX"
  shows "\<exists>s'. mrdmb_add_msa_bafh s (a, Lie k) (i + 2 ^ k) (i + 2 ^ k + 2 ^ k - 1) = Inr (True, s') \<and>
           held s' R a i (2 ^ k) \<and> frame {i + 2 ^ k..<i + 2 * 2 ^ k} s s' \<and>
           free_pages s' = (free_pages s)(a := free_pages s a \<union> {i + 2 ^ k..<i + 2 * 2 ^ k}) \<and>
           (\<forall>a' sel. frelst s' a' sel =
             (if a' = a \<and> sel = Lie k then (i + 2 ^ k) # frelst s a sel else frelst s a' sel))"
proof -
  note H = heldD [OF h]
  let ?n = "2 ^ k :: nat"
  have n: "0 < ?n" by simp
  have sel: "selok (Lie k)" using k by simp
  let ?m = "i + ?n" and ?e = "i + ?n + ?n - 1"
  have bnd: "?m < npages s" "?e < npages s" "?m \<le> ?e" "?e < ?m + ?n"
    using H(8) n by linarith+
  have two: "2 * 2 ^ k = ?n + ?n" by simp
  have ty: "pages_ty s a i ?n" "pages_ty s a ?m ?n"
    using half_pages_ty [of s a i ?n ?n] H(5) unfolding two by simp_all
  have idle: "pages_idle s i ?n" "pages_idle s ?m ?n"
    using H(6) by (auto simp: pages_idle_def)
  then have ends: "mf_uindx (msa s ?m) = 0" "\<not> paf_alloc (msa s ?m)" "mf_uindx (msa s ?e) = 0"
    "\<not> paf_alloc (msa s ?e)"
    using bnd by (simp_all add: pages_idle_def)
  have inv: "core_inv s (insert (?m, ?n) (insert (i, ?n) R))" and
    nin: "(i, ?n) \<notin> R" "(?m, ?n) \<notin> R"
    using split_res [OF H(1,2) [unfolded two] n n] by (simp_all add: insert_commute)
  let ?s1 = "put_msa s ?m ((msa s ?m)\<lparr>mf_olkty := MF_OLKTY_ODER, md_odlink := OdMsa ?e\<rparr>)"
  let ?s2 = "put_msa ?s1 ?e ((msa ?s1 ?e)\<lparr>mf_olkty := MF_OLKTY_BAFH, md_odlink := OdBafh (a, Lie k)\<rparr>)"
  let ?b = "(baf s a (Lie k))\<lparr>af_frelst := ?m # frelst s a (Lie k),
    af_mobjnr := af_mobjnr (baf s a (Lie k)) + 1, af_fobjnr := af_fobjnr (baf s a (Lie k)) + 1\<rparr>"
  let ?s3 = "put_bafh ?s2 (a, Lie k) ?b"
  have inv1: "core_inv ?s1 (insert (?m, ?n) (insert (i, ?n) R))"
    using n by (intro upd_res [OF inv, of ?m ?n]) simp_all
  have inv2: "core_inv ?s2 (insert (?m, selsz (Lie k)) (insert (i, ?n) R))"
    using bnd upd_res [OF inv1, of ?m ?n ?e] by simp
  have f2: "frame {?m..<i + 2 * ?n} s ?s2"
    unfolding two add.assoc [symmetric] using bnd by (intro frame_msa frame_refl) simp_all
  have same: "?e = ?m \<Longrightarrow> ?n = 1"
    using n by linarith
  have fok: "free_ok ?s2 a (Lie k) ?m"
    unfolding free_ok_def selsz.simps frame_pages_ty [OF f2]
  proof (intro conjI)
    show "?m + ?n \<le> npages ?s2"
      using H(8) two by simp
    show "pages_idle ?s2 ?m ?n"
      using bnd(1,2) idle(2) by (auto simp: pages_idle_def)
    show "links_ok ?s2 (a, Lie k) ?m ?n"
      unfolding links_ok_def using bnd(1,2) same by simp
  qed (rule ty(2))
  have nin': "(?m, selsz (Lie k)) \<notin> insert (i, ?n) R"
    using nin by simp
  have inv3: "core_inv ?s3 (insert (i, ?n) R)"
    by (rule add_free [OF inv2 nin']) (use H(3) sel fok in simp_all)
  have "list_wf (baf s a (Lie k)) (Lie k)"
    by (rule core_invD(2) [OF H(1,3) sel])
  then have op: "af_oderpnr (baf s a (Lie k)) = of_nat ?n"
    by (simp add: list_wf_def)
  have single: "?m = ?e \<longrightarrow> (2::u64) ^ k = 1"
  proof
    assume "?m = ?e"
    then have "?n = 1"
      by (intro same) simp
    then show "(2::u64) ^ k = 1"
      by simp
  qed
  have run: "mrdmb_add_msa_bafh s (a, Lie k) ?m ?e = Inr (True, ?s3)"
    using bnd ends H(3,4) sel op span_block [OF n, of ?m] single
    by (simp add: mrdmb_add_msa_bafh_def mem_simps)
  have f3: "frame {?m..<i + 2 * ?n} s ?s3"
    using f2 by (rule frame_bafh) (simp add: H(3))
  moreover have "held ?s3 R a i ?n"
    unfolding held_def frame_pages_ty [OF f3]
  proof (intro conjI)
    show "pages_idle ?s3 i ?n"
      using bnd(1,2) idle(1) by (auto simp: pages_idle_def)
  qed (use inv3 nin(1) H(3) ty(1) in simp_all)
  moreover have "free_pages ?s3 = (free_pages s)(a := free_pages s a \<union> {?m..<i + 2 * ?n})"
    by (rule ext) (use H(3,4) sel in \<open>simp add: free_pages_add two add.assoc\<close>)
  moreover have "\<forall>a' sel. frelst ?s3 a' sel =
      (if a' = a \<and> sel = Lie k then ?m # frelst s a sel else frelst s a' sel)"
    using H(3,4) sel by simp
  ultimately show ?thesis
    using run by blast
qed

lemma frelst_oderpnr:
  assumes "core_inv s R" "a < nareas s" "k < MDIVMER_ARR_LMAX"
  shows "af_oderpnr (baf s a (Lie k)) = of_nat (2 ^ k)" and "unat (of_nat (2 ^ k) :: u64) = 2 ^ k"
proof -
  have "list_wf (baf s a (Lie k)) (Lie k)"
    by (rule core_invD(2) [OF assms(1,2)]) (simp add: assms(3))
  then show "af_oderpnr (baf s a (Lie k)) = of_nat (2 ^ k)"
    by (simp add: list_wf_def)
  have "(2::nat) ^ k < 2 ^ 64"
    using assms(3) by (intro power_strict_increasing) (simp_all add: MDIVMER_ARR_LMAX_def)
  then show "unat (of_nat (2 ^ k) :: u64) = 2 ^ k"
    by (rule u64_of_nat)
qed

lemma reldpgs_step:
  assumes h: "held s R a i (2 * 2 ^ k)" and k: "k < MDIVMER_ARR_LMAX"
    and hd: "mf_olkty (msa s i) = MF_OLKTY_ODER" "md_odlink (msa s i) = OdMsa (i + 2 * 2 ^ k - 1)"
  shows "\<exists>s'. (\<forall>ks. mm_reldpgs_loop s a i (2 * of_nat (2 ^ k)) (k # ks) =
                 mm_reldpgs_loop s' a i (of_nat (2 ^ k)) ks) \<and>
           held s' R a i (2 ^ k) \<and> mf_olkty (msa s' i) = MF_OLKTY_ODER \<and>
           md_odlink (msa s' i) = OdMsa (i + 2 ^ k - 1) \<and>
           ((2::nat) ^ k \<noteq> 1 \<longrightarrow> mf_olkty (msa s' (i + 2 ^ k - 1)) \<noteq> MF_OLKTY_ODER) \<and>
           frame {i..<i + 2 * 2 ^ k} s s' \<and>
           free_pages s' = (free_pages s)(a := free_pages s a \<union> {i + 2 ^ k..<i + 2 * 2 ^ k}) \<and>
           (\<forall>a' sel. frelst s' a' sel =
             (if a' = a \<and> sel = Lie k then (i + 2 ^ k) # frelst s a sel else frelst s a' sel))"
proof -
  note H = heldD [OF h]
  have sel: "selok (Lie k)" using k by simp
  have two: "i + 2 * 2 ^ k - 1 = i + 2 ^ k + 2 ^ k - (1::nat)" by simp
  have pos: "(0::nat) < 2 ^ k" by simp
  have i: "i < npages s" using H(7,8) by linarith
  note op = frelst_oderpnr [OF H(1,3) k]
  obtain s1 where s1: "mrdmb_add_msa_bafh s (a, Lie k) (i + 2 ^ k) (i + 2 ^ k + 2 ^ k - 1) = Inr (True, s1)"
    "held s1 R a i (2 ^ k)" "frame {i + 2 ^ k..<i + 2 * 2 ^ k} s s1"
    "free_pages s1 = (free_pages s)(a := free_pages s a \<union> {i + 2 ^ k..<i + 2 * 2 ^ k})"
    "\<forall>a' sel. frelst s1 a' sel =
      (if a' = a \<and> sel = Lie k then (i + 2 ^ k) # frelst s a sel else frelst s a' sel)"
    using add_half [OF h k] by blast
  have i1: "i < npages s1" and m1: "msa s1 i = msa s i"
    using s1(3) i by (simp_all add: frame_def)
  have dec: "unat (of_nat (2 ^ k) - 1 :: u64) = 2 ^ k - 1"
    using op(2) by (subst unat_minus_one) (auto simp del: of_nat_power)
  let ?s2 = "put_msa s1 i ((msa s1 i)\<lparr>md_odlink := OdMsa (i + (2 ^ k - 1))\<rparr>)"
  have step: "mm_reldpgs_loop s a i (2 * of_nat (2 ^ k)) (k # ks) =
      mm_reldpgs_loop ?s2 a i (of_nat (2 ^ k)) ks" for ks
    using hd(2) i i1 s1(1) [folded two] H(3,4) sel op dec
    by (simp add: mem_simps del: of_nat_power)
  have inv2: "core_inv ?s2 (insert (i, 2 ^ k) R)"
    by (rule upd_res [OF heldD(1) [OF s1(2)], of i "2 ^ k"]) simp_all
  have f2: "frame {i..<i + 2 * 2 ^ k} s ?s2"
    using pos i1 by (intro frame_msa frame_mono [OF s1(3)]) (auto simp del: pos)
  have "held ?s2 R a i (2 ^ k)"
    unfolding held_def frame_pages_ty [OF f2] frame_pages_ty [OF s1(3), symmetric]
    using inv2 heldD(2,3,5,6) [OF s1(2)] i1 by (auto simp: pages_idle_def)
  moreover have shift: "i + (2 ^ k - 1) = i + 2 ^ k - 1"
    using pos by linarith
  moreover have "(2::nat) ^ k \<noteq> 1 \<longrightarrow> mf_olkty (msa ?s2 (i + 2 ^ k - 1)) \<noteq> MF_OLKTY_ODER"
  proof
    assume k1: "(2::nat) ^ k \<noteq> 1"
    then have j: "i < i + 2 ^ k - 1" "i + 2 ^ k - 1 < i + 2 ^ k" "i + 2 ^ k - 1 + 1 < i + 2 * 2 ^ k"
      using pos by linarith+
    then have "msa s1 (i + 2 ^ k - 1) = msa s (i + 2 ^ k - 1)"
      using s1(3) by (simp add: frame_def)
    moreover have "mf_olkty (msa s (i + 2 ^ k - 1)) = MF_OLKTY_INIT"
      using H(6) j unfolding pages_idle_def by simp
    ultimately show "mf_olkty (msa ?s2 (i + 2 ^ k - 1)) \<noteq> MF_OLKTY_ODER"
      using j(1) i1 by (simp only: msa_put_msa if_False less_not_refl2) simp
  qed
  ultimately show ?thesis
    using step f2 hd(1) m1 i1 s1(4,5)
    by (intro exI [of _ ?s2]) (simp del: mm_reldpgs_loop.simps)
qed

text \<open>
  Dividing a held block of order \<open>d\<close> down to order \<open>r\<close>: the block that remains starts where
  the block started, and each list in between receives the half cut off at its order.
\<close>

lemma reldpgs_loop:
  assumes "held s R a i (2 ^ d)" "mf_olkty (msa s i) = MF_OLKTY_ODER"
    "md_odlink (msa s i) = OdMsa (i + 2 ^ d - 1)"
    "(2::nat) ^ d \<noteq> 1 \<longrightarrow> mf_olkty (msa s (i + 2 ^ d - 1)) \<noteq> MF_OLKTY_ODER"
    "r \<le> d" "d < MDIVMER_ARR_LMAX"
  shows "\<exists>s'. mm_reldpgs_loop s a i (of_nat (2 ^ d)) (rev [r..<d]) = Inr (of_nat (2 ^ r), s') \<and>
           held s' R a i (2 ^ r) \<and> mf_olkty (msa s' i) = MF_OLKTY_ODER \<and>
           md_odlink (msa s' i) = OdMsa (i + 2 ^ r - 1) \<and>
           ((2::nat) ^ r \<noteq> 1 \<longrightarrow> mf_olkty (msa s' (i + 2 ^ r - 1)) \<noteq> MF_OLKTY_ODER) \<and>
           frame {i..<i + 2 ^ d} s s' \<and>
           free_pages s' = (free_pages s)(a := free_pages s a \<union> {i + 2 ^ r..<i + 2 ^ d}) \<and>
           (\<forall>a' sel. frelst s' a' sel =
             (case sel of Lie k \<Rightarrow>
                if a' = a \<and> r \<le> k \<and> k < d then (i + 2 ^ k) # frelst s a sel else frelst s a' sel
              | Onem \<Rightarrow> frelst s a' sel))"
  using assms
proof (induction d arbitrary: s)
  case 0
  then show ?case
    by (auto split: bafsel.splits)
next
  case (Suc d)
  show ?case
  proof (cases "r = Suc d")
    case True
    with Suc.prems show ?thesis
      by (auto split: bafsel.splits simp del: of_nat_power)
  next
    case False
    with Suc.prems(5) have r: "r \<le> d" by simp
    from Suc.prems(6) have d: "d < MDIVMER_ARR_LMAX" by simp
    obtain s1 where s1: "\<And>ks. mm_reldpgs_loop s a i (2 * of_nat (2 ^ d)) (d # ks) =
        mm_reldpgs_loop s1 a i (of_nat (2 ^ d)) ks"
      "held s1 R a i (2 ^ d)" "mf_olkty (msa s1 i) = MF_OLKTY_ODER"
      "md_odlink (msa s1 i) = OdMsa (i + 2 ^ d - 1)"
      "(2::nat) ^ d \<noteq> 1 \<longrightarrow> mf_olkty (msa s1 (i + 2 ^ d - 1)) \<noteq> MF_OLKTY_ODER"
      "frame {i..<i + 2 * 2 ^ d} s s1"
      "free_pages s1 = (free_pages s)(a := free_pages s a \<union> {i + 2 ^ d..<i + 2 * 2 ^ d})"
      "\<forall>a' sel. frelst s1 a' sel =
        (if a' = a \<and> sel = Lie d then (i + 2 ^ d) # frelst s a sel else frelst s a' sel)"
      using reldpgs_step [of s R a i d] Suc.prems(1-3) d by (auto simp del: of_nat_power)
    obtain s2 where s2: "mm_reldpgs_loop s1 a i (of_nat (2 ^ d)) (rev [r..<d]) = Inr (of_nat (2 ^ r), s2)"
      "held s2 R a i (2 ^ r)" "mf_olkty (msa s2 i) = MF_OLKTY_ODER"
      "md_odlink (msa s2 i) = OdMsa (i + 2 ^ r - 1)"
      "(2::nat) ^ r \<noteq> 1 \<longrightarrow> mf_olkty (msa s2 (i + 2 ^ r - 1)) \<noteq> MF_OLKTY_ODER"
      "frame {i..<i + 2 ^ d} s1 s2"
      "free_pages s2 = (free_pages s1)(a := free_pages s1 a \<union> {i + 2 ^ r..<i + 2 ^ d})"
      "\<forall>a' sel. frelst s2 a' sel =
             (case sel of Lie k \<Rightarrow>
                if a' = a \<and> r \<le> k \<and> k < d then (i + 2 ^ k) # frelst s1 a sel else frelst s1 a' sel
              | Onem \<Rightarrow> frelst s1 a' sel)"
      using Suc.IH [OF s1(2-5) r d] by blast
    have le: "(2::nat) ^ r \<le> 2 ^ d"
      using r by (rule power_increasing) simp
    have up: "rev [r..<Suc d] = d # rev [r..<d]"
      using r by simp
    have run: "mm_reldpgs_loop s a i (of_nat (2 ^ Suc d)) (rev [r..<Suc d]) = Inr (of_nat (2 ^ r), s2)"
      using s1(1) [of "rev [r..<d]"] s2(1) 
      by (simp only: up power_Suc of_nat_mult of_nat_numeral)
    have f: "frame {i..<i + 2 ^ Suc d} s s2"
      unfolding power_Suc by (rule frame_trans [OF s1(6) frame_mono [OF s2(6)]]) auto
    have "{i + 2 ^ d..<i + 2 * 2 ^ d} \<union> {i + 2 ^ r..<i + 2 ^ d} = {i + 2 ^ r..<i + 2 * (2::nat) ^ d}"
      using le by (subst Un_commute) (rule ivl_disj_un_two, linarith+)
    then have fp: "free_pages s2 = (free_pages s)(a := free_pages s a \<union> {i + 2 ^ r..<i + 2 ^ Suc d})"
      using s2(7) s1(7) by (simp add: Un_assoc)
    have "\<forall>a' sel. frelst s2 a' sel =
             (case sel of Lie k \<Rightarrow>
                if a' = a \<and> r \<le> k \<and> k < Suc d then (i + 2 ^ k) # frelst s a sel else frelst s a' sel
              | Onem \<Rightarrow> frelst s a' sel)"
      using s2(8) s1(8) r by (auto split: bafsel.splits)
    with run s2(2-5) f fp show ?thesis
      by blast
  qed
qed

lemma reldpgsdivmsa_block:
  assumes inv: "core_inv s R" and a: "a < nareas s" and sz: "npages s \<le> 2 ^ 52"
    and pg: "0 < pages" and rd: "r \<le> d" "d < MDIVMER_ARR_LMAX"
    and l: "frelst s a (Lie d) = i # rest"
  shows "\<exists>s'. mm_reldpgsdivmsa_bafhl s a pages r d = Inr ((Some i, of_nat (2 ^ r)), s') \<and>
           core_inv s' (insert (i, 2 ^ r) R) \<and> (i, 2 ^ r) \<notin> R \<and> alloc_ok s' a i (2 ^ r) \<and>
           frame {i..<i + 2 ^ d} s s' \<and>
           free_pages s' = (free_pages s)(a := free_pages s a - {i..<i + 2 ^ r}) \<and>
           (\<forall>a' sel. frelst s' a' sel =
             (case sel of Lie k \<Rightarrow>
                if a' \<noteq> a then frelst s a' sel else if k = d then rest
                else if r \<le> k \<and> k < d then (i + 2 ^ k) # frelst s a sel else frelst s a' sel
              | Onem \<Rightarrow> frelst s a' sel))"
proof -
  have sel: "selok (Lie d)" "selok (Lie r)" and r: "r < MDIVMER_ARR_LMAX"
    using rd by simp_all
  note wf = core_invD(1) [OF inv]
  have fr: "(a, Lie d, i) \<in> freeset s"
    using a sel l by simp
  obtain s1 where s1: "mm_retnmsaob_onbafhlst s (a, Lie d) = Inr (Some (i, Some (i + 2 ^ d - 1)), s1)"
    "held s1 R a i (2 ^ d)" "head_link s1 i (2 ^ d)" "frame {} s s1"
    "free_pages s1 = (free_pages s)(a := free_pages s a - {i..<i + 2 ^ d})"
    "\<forall>a' sel'. frelst s1 a' sel' = (if a' = a \<and> sel' = Lie d then rest else frelst s a' sel')"
    using retn_block [OF inv a sel(1) sz l] by auto
  have hd1: "mf_olkty (msa s1 i) = MF_OLKTY_ODER \<and> md_odlink (msa s1 i) = OdMsa (i + 2 ^ d - 1) \<and>
      ((2::nat) ^ d \<noteq> 1 \<longrightarrow> mf_olkty (msa s1 (i + 2 ^ d - 1)) \<noteq> MF_OLKTY_ODER)"
    if "r < d"
    using s1(3) that by (auto simp: head_link_def)
  have blk: "page_span i (i + 2 ^ d - 1) = of_nat (2 ^ d)"
    by (rule span_block) simp
  let ?loop = "if r = d then Inr (of_nat (2 ^ r), s1)
    else mm_reldpgs_loop s1 a i (of_nat (2 ^ d)) (rev [r..<d])"
  have "\<exists>s2. ?loop = Inr (of_nat (2 ^ r), s2) \<and> held s2 R a i (2 ^ r) \<and> head_link s2 i (2 ^ r) \<and>
      frame {i..<i + 2 ^ d} s s2 \<and>
      free_pages s2 = (free_pages s1)(a := free_pages s1 a \<union> {i + 2 ^ r..<i + 2 ^ d}) \<and>
      (\<forall>a' sel. frelst s2 a' sel =
        (case sel of Lie k \<Rightarrow>
           if a' = a \<and> r \<le> k \<and> k < d then (i + 2 ^ k) # frelst s1 a sel else frelst s1 a' sel
         | Onem \<Rightarrow> frelst s1 a' sel))"
  proof (cases "r = d")
    case True
    then show ?thesis
      using s1(2,3) frame_mono [OF s1(4)] by (auto split: bafsel.splits simp del: of_nat_power)
  next
    case False
    then have "r < d" using rd(1) by simp
    from reldpgs_loop [OF s1(2) _ _ _ rd] hd1 [OF this]
    obtain s2 where s2: "mm_reldpgs_loop s1 a i (of_nat (2 ^ d)) (rev [r..<d]) = Inr (of_nat (2 ^ r), s2)"
      "held s2 R a i (2 ^ r)" "mf_olkty (msa s2 i) = MF_OLKTY_ODER"
      "md_odlink (msa s2 i) = OdMsa (i + 2 ^ r - 1)"
      "(2::nat) ^ r \<noteq> 1 \<longrightarrow> mf_olkty (msa s2 (i + 2 ^ r - 1)) \<noteq> MF_OLKTY_ODER"
      "frame {i..<i + 2 ^ d} s1 s2"
      "free_pages s2 = (free_pages s1)(a := free_pages s1 a \<union> {i + 2 ^ r..<i + 2 ^ d})"
      "\<forall>a' sel. frelst s2 a' sel =
        (case sel of Lie k \<Rightarrow>
           if a' = a \<and> r \<le> k \<and> k < d then (i + 2 ^ k) # frelst s1 a sel else frelst s1 a' sel
         | Onem \<Rightarrow> frelst s1 a' sel)"
      by blast
    have "frame {i..<i + 2 ^ d} s s2"
      by (rule frame_trans [OF frame_mono [OF s1(4)] s2(6)]) simp
    with s2 False show ?thesis
      by (intro exI [of _ s2]) (simp add: head_link_def del: of_nat_power)
  qed
  then obtain s2 where s2: "?loop = Inr (of_nat (2 ^ r), s2)" "held s2 R a i (2 ^ r)"
    "head_link s2 i (2 ^ r)" "frame {i..<i + 2 ^ d} s s2"
    "free_pages s2 = (free_pages s1)(a := free_pages s1 a \<union> {i + 2 ^ r..<i + 2 ^ d})"
    "\<forall>a' sel. frelst s2 a' sel =
        (case sel of Lie k \<Rightarrow>
           if a' = a \<and> r \<le> k \<and> k < d then (i + 2 ^ k) # frelst s1 a sel else frelst s1 a' sel
         | Onem \<Rightarrow> frelst s1 a' sel)"
    by blast
  have small: "(2::nat) ^ r < 2 ^ 64"
    using r by (intro power_strict_increasing) (simp_all add: MDIVMER_ARR_LMAX_def)
  obtain s3 where s3: "mm_divpages_opmsadsc s2 i (of_nat (2 ^ r)) = Inr (Some i, s3)"
    "core_inv s3 (insert (i, 2 ^ r) R)" "alloc_ok s3 a i (2 ^ r)" "frame {i..<i + 2 ^ r} s2 s3"
    "free_pages s3 = free_pages s2" "\<forall>a sel. frelst s3 a sel = frelst s2 a sel"
    using divpages_opmsadsc_block [OF s2(2,3) small] by blast
  have le: "(2::nat) ^ r \<le> 2 ^ d"
    using rd(1) by (rule power_increasing) simp
  have sub: "x < i + 2 ^ r \<Longrightarrow> x < i + 2 ^ d" for x
    using le by linarith
  then have "{i..<i + 2 ^ r} \<subseteq> {i..<i + 2 ^ d}"
    by (intro subsetI) (simp only: atLeastLessThan_iff simp_thms)
  then have f3: "frame {i..<i + 2 ^ d} s s3"
    by (intro frame_trans [OF s2(4) frame_mono [OF s3(4)]])
  have run: "mm_reldpgsdivmsa_bafhl s a pages r d = Inr ((Some i, of_nat (2 ^ r)), s3)"
    using pg rd(1) s1(1) s2(1) s3(1) blk frelst_oderpnr(1) [OF inv a rd(2)]
      frelst_oderpnr(1) [OF inv a r] getb_baf [OF wf a sel(1)] getb_baf [OF wf a sel(2)]
    by (cases "r = d") (simp_all add: mm_reldpgsdivmsa_bafhl_def word_greater_zero_iff del: of_nat_power)
  have blkfree: "{i..<i + 2 ^ d} \<subseteq> free_pages s a"
    using free_pages_block [OF fr] by simp
  have "(free_pages s a - {i..<i + 2 ^ d}) \<union> {i + 2 ^ r..<i + 2 ^ d} = free_pages s a - {i..<i + 2 ^ r}"
    using blkfree sub by (auto simp: not_le)
  then have fp: "free_pages s3 = (free_pages s)(a := free_pages s a - {i..<i + 2 ^ r})"
    using s3(5) s2(5) s1(5) by simp
  have fl: "\<forall>a' sel. frelst s3 a' sel =
             (case sel of Lie k \<Rightarrow>
                if a' \<noteq> a then frelst s a' sel else if k = d then rest
                else if r \<le> k \<and> k < d then (i + 2 ^ k) # frelst s a sel else frelst s a' sel
              | Onem \<Rightarrow> frelst s a' sel)"
    using s3(6) s2(6) s1(6) by (auto split: bafsel.splits)
  from run s3(2,3) heldD(2) [OF s2(2)] f3 fp fl show ?thesis
    by blast
qed

section \<open>Which list serves a request\<close>

definition best_fit :: "memmgrob \<Rightarrow> nat \<Rightarrow> nat \<Rightarrow> nat option" where
  "best_fit s a r = find (\<lambda>k. frelst s a (Lie k) \<noteq> []) [r..<MDIVMER_ARR_LMAX]"

lemma best_fit_Some:
  assumes "best_fit s a r = Some d"
  shows "r \<le> d" "d < MDIVMER_ARR_LMAX" "frelst s a (Lie d) \<noteq> []"
    "\<And>k. r \<le> k \<Longrightarrow> k < d \<Longrightarrow> frelst s a (Lie k) = []"
proof -
  from assms obtain j where j: "j < length [r..<MDIVMER_ARR_LMAX]" "[r..<MDIVMER_ARR_LMAX] ! j = d"
    "frelst s a (Lie d) \<noteq> []" "\<forall>j' < j. \<not> frelst s a (Lie ([r..<MDIVMER_ARR_LMAX] ! j')) \<noteq> []"
    unfolding best_fit_def find_Some_iff by blast
  then show "r \<le> d" "d < MDIVMER_ARR_LMAX" "frelst s a (Lie d) \<noteq> []"
    by auto
  fix k assume k: "r \<le> k" "k < d"
  with j(1,2) have "k - r < j" "r + (k - r) < MDIVMER_ARR_LMAX"
    by auto
  with j(4) have "frelst s a (Lie ([r..<MDIVMER_ARR_LMAX] ! (k - r))) = []"
    by blast
  with k \<open>r + (k - r) < MDIVMER_ARR_LMAX\<close> show "frelst s a (Lie k) = []"
    by simp
qed

lemma best_fit_None:
  "best_fit s a r = None \<longleftrightarrow> (\<forall>k. r \<le> k \<and> k < MDIVMER_ARR_LMAX \<longrightarrow> frelst s a (Lie k) = [])"
  by (auto simp: best_fit_def find_None_iff)

lemma lie_baf: "lie (area s a) k = baf s a (Lie k)"
  by (simp add: baf_def)

lemma onmpgs_retn_bafhlst_eq:
  assumes inv: "core_inv s R" and a: "a < nareas s" and sz: "npages s \<le> 2 ^ 52" and pg: "pages \<noteq> 0"
  shows "onmpgs_retn_bafhlst (area s a) pages =
           map_option (Pair (order_for (unat pages))) (best_fit s a (order_for (unat pages)))"
proof -
  let ?r = "order_for (unat pages)"
  have pos: "0 < unat pages"
    using pg unat_gt_0 by blast
  have fits: "pages \<le> af_oderpnr (baf s a (Lie k))" if "?r \<le> k" "k < MDIVMER_ARR_LMAX" for k
    using that frelst_oderpnr [OF inv a that(2)] order_for_le [OF pos]
    by (simp add: word_le_nat_alt del: of_nat_power)
  have "find (\<lambda>idx. pages \<le> af_oderpnr (lie (area s a) idx) \<and> 0 < af_fobjnr (lie (area s a) idx))
      [?r..<MDIVMER_ARR_LMAX] = best_fit s a ?r"
    unfolding best_fit_def lie_baf
    using fits counter_facts(3) [OF inv a _ sz] by (intro find_cong) auto
  moreover have "best_fit s a ?r = None" if "\<not> ?r < MDIVMER_ARR_LMAX"
    using that by (simp add: best_fit_def)
  ultimately show ?thesis
    using pg fits [of ?r] lie_baf [of s a]
    by (auto simp: onmpgs_retn_bafhlst_def retn_divoder_eq Let_def not_less [symmetric])
qed

section \<open>The invariant with the blocks handed out\<close>

definition alloc_pages :: "(nat \<times> bafsel \<times> nat) set \<Rightarrow> nat \<Rightarrow> nat set" where
  "alloc_pages A a = {p. \<exists>sel i. (a, sel, i) \<in> A \<and> i \<le> p \<and> p < i + selsz sel}"

definition sel_area :: "memmgrob \<Rightarrow> (nat \<times> bafsel \<times> nat) set \<Rightarrow> bool" where
  "sel_area s B \<longleftrightarrow> (\<forall>(a, sel, i) \<in> B. sel = Onem \<longleftrightarrow> ma_type (area s a) = MA_TYPE_PROC)"

definition accounts :: "memmgrob \<Rightarrow> (nat \<times> bafsel \<times> nat) set \<Rightarrow> bool" where
  "accounts s A \<longleftrightarrow>
     (\<forall>a < nareas s.
        unat (ma_freepages (area s a)) = card (free_pages s a) \<and>
        unat (ma_allocpages (area s a)) = card (alloc_pages A a) \<and>
        unat (ma_maxpages (area s a)) = card (free_pages s a) + card (alloc_pages A a))"

definition mem_inv :: "memmgrob \<Rightarrow> (nat \<times> bafsel \<times> nat) set \<Rightarrow> bool" where
  "mem_inv s A \<longleftrightarrow>
     core_inv s (span ` A) \<and> inj_on span A \<and> npages s \<le> 2 ^ 52 \<and>
     (\<forall>(a, sel, i) \<in> A. a < nareas s \<and> selok sel \<and> alloc_ok s a i (selsz sel)) \<and>
     sel_area s (freeset s \<union> A) \<and> accounts s A"

lemma mem_invD:
  assumes "mem_inv s A"
  shows "core_inv s (span ` A)" "inj_on span A" "npages s \<le> 2 ^ 52" "areas_wf s"
    "(a, sel, i) \<in> A \<Longrightarrow> a < nareas s \<and> selok sel \<and> alloc_ok s a i (selsz sel)"
    "sel_area s (freeset s \<union> A)" "accounts s A"
  using assms core_invD(1) by (auto simp: mem_inv_def)

lemma alloc_ok_frame:
  assumes "frame P s s'" "{i..<i + n} \<inter> P = {}" "0 < n"
  shows "alloc_ok s' a i n = alloc_ok s a i n"
proof -
  have same: "msa s' j = msa s j" if "i \<le> j" "j < i + n" for j
    using assms(1,2) that by (auto simp: frame_def)
  have np: "npages s' = npages s"
    using assms(1) by (simp add: frame_def)
  have "msa s' i = msa s i" "msa s' (i + n - 1) = msa s (i + n - 1)"
    using same assms(3) by simp_all
  moreover have "mf_uindx (msa s' j) = mf_uindx (msa s j) \<and> paf_alloc (msa s' j) = paf_alloc (msa s j) \<and>
      mf_olkty (msa s' j) = mf_olkty (msa s j)" if "i < j" "j + 1 < i + n" for j
    using same that by simp
  ultimately show ?thesis
    unfolding alloc_ok_def frame_pages_ty [OF assms(1)] np by auto
qed

text \<open>Counters move without touching pages or lists.\<close>

definition acct :: "memmgrob \<Rightarrow> nat \<Rightarrow> u64 \<Rightarrow> u64 \<Rightarrow> memmgrob" where
  "acct s a n flgs = mm_update_memmgrob (put_area s a
     (if flgs = 0 then (area s a)\<lparr>ma_freepages := ma_freepages (area s a) - n, ma_allocpages := ma_allocpages (area s a) + n\<rparr>
      else (area s a)\<lparr>ma_freepages := ma_freepages (area s a) + n, ma_allocpages := ma_allocpages (area s a) - n\<rparr>)) n flgs"

lemma update_acct:
  assumes "a < nareas s" "flgs = 0 \<or> flgs = 1"
  shows "andthen (mm_update_memarea s a n flgs) (\<lambda>s. Inr (r, mm_update_memmgrob s n flgs)) =
           Inr (r, acct s a n flgs)"
  using assms by (auto simp: mm_update_memarea_def acct_def mem_simps)

lemma mm_update_memmgrob_other [simp]:
  "npages (mm_update_memmgrob s n f) = npages s" "nareas (mm_update_memmgrob s n f) = nareas s"
  "msa (mm_update_memmgrob s n f) = msa s" "area (mm_update_memmgrob s n f) = area s"
  "baf (mm_update_memmgrob s n f) = baf s" "mo_mareas (mm_update_memmgrob s n f) = mo_mareas s"
  by (simp_all add: mm_update_memmgrob_def npages_def nareas_def msa_def area_def baf_def fun_eq_iff)

lemma acct_other:
  assumes "a < nareas s"
  shows "npages (acct s a n f) = npages s" "nareas (acct s a n f) = nareas s"
    "msa (acct s a n f) = msa s" "baf (acct s a n f) = baf s"
    "ma_type (area (acct s a n f) a') = ma_type (area s a')"
    "ma_maxpages (area (acct s a n f) a') = ma_maxpages (area s a')"
    "dm_mdmlielst (ma_mdmdata (area (acct s a n f) a')) = dm_mdmlielst (ma_mdmdata (area s a'))"
    "map ma_type (mo_mareas (acct s a n f)) = map ma_type (mo_mareas s)"
proof -
  show "baf (acct s a n f) = baf s"
  proof (intro ext)
    fix a' sel show "baf (acct s a n f) a' sel = baf s a' sel"
      using assms by (cases sel) (auto simp: acct_def baf_def lie_def)
  qed
qed (use assms in \<open>auto simp: acct_def types_put_area fun_eq_iff\<close>)

lemma acct_views:
  assumes "a < nareas s"
  shows "core_inv (acct s a n f) R = core_inv s R" "freeset (acct s a n f) = freeset s"
    "free_pages (acct s a n f) = free_pages s" "alloc_ok (acct s a n f) = alloc_ok s"
    "sel_area (acct s a n f) B = sel_area s B"
proof -
  note o = acct_other [OF assms]
  show fs: "freeset (acct s a n f) = freeset s"
    by (simp add: freeset_def o)
  show "free_pages (acct s a n f) = free_pages s"
    unfolding free_pages_def fs ..
  have ty: "pages_ty (acct s a n f) = pages_ty s"
    by (simp add: fun_eq_iff pages_ty_def o)
  show "alloc_ok (acct s a n f) = alloc_ok s"
    by (simp add: fun_eq_iff alloc_ok_def o ty)
  have "free_ok (acct s a n f) = free_ok s"
    by (simp add: fun_eq_iff free_ok_def pages_idle_def links_ok_def o ty)
  moreover have "areas_wf (acct s a n f) = areas_wf s"
    by (simp add: areas_wf_def o)
  ultimately show "core_inv (acct s a n f) R = core_inv s R"
    unfolding core_inv_def fs o by simp
  show "sel_area (acct s a n f) B = sel_area s B"
    by (simp add: sel_area_def o)
qed

lemma u64_bound: "unat (x :: u64) < 2 ^ 64"
  using unsigned_less [of x] by simp

lemma unat_minus_nat:
  fixes x :: u64
  assumes "n \<le> unat x"
  shows "unat (x - of_nat n) = unat x - n"
proof -
  have n: "n < 2 ^ 64"
    using assms u64_bound [of x] by simp
  then have "of_nat n \<le> x"
    using assms by (simp add: word_le_nat_alt del: of_nat_le_iff)
  then show ?thesis
    using n by (simp add: unat_sub)
qed

lemma unat_plus_nat:
  fixes x :: u64
  assumes "unat x + n < 2 ^ 64"
  shows "unat (x + of_nat n) = unat x + n"
  using assms by (simp add: unat_word_ariths)

lemma alloc_pages_insert:
  "alloc_pages (insert (a, sel, i) A) a' =
     (if a' = a then alloc_pages A a \<union> {i..<i + selsz sel} else alloc_pages A a')"
proof -
  have mem: "p \<in> alloc_pages (insert (a, sel, i) A) a' \<longleftrightarrow>
      p \<in> alloc_pages A a' \<or> (a' = a \<and> i \<le> p \<and> p < i + selsz sel)" for p
    unfolding alloc_pages_def by blast
  show ?thesis
    by (rule set_eqI) (simp add: mem)
qed

lemma alloc_pagesE:
  assumes "p \<in> alloc_pages A a"
  obtains sel i where "(a, sel, i) \<in> A" "i \<le> p" "p < i + selsz sel"
  using assms unfolding alloc_pages_def by blast

lemma alloc_free_disjoint:
  assumes "core_inv s (span ` A)"
  shows "alloc_pages A a \<inter> free_pages s a' = {}"
proof -
  have "p \<notin> free_pages s a'" if "p \<in> alloc_pages A a" for p
    using that
  proof (rule alloc_pagesE)
    fix sel i assume x: "(a, sel, i) \<in> A" "i \<le> p" "p < i + selsz sel"
    have "(i, selsz sel) \<in> span ` A"
      using x(1) by force
    from free_pages_reserved [OF assms this, of a'] x(2,3) show ?thesis
      by auto
  qed
  then show ?thesis
    by blast
qed

lemma alloc_pages_bound:
  assumes "core_inv s (span ` A)"
  shows "alloc_pages A a \<subseteq> {..<npages s}"
proof
  fix p assume "p \<in> alloc_pages A a"
  then obtain sel i where x: "(a, sel, i) \<in> A" "i \<le> p" "p < i + selsz sel"
    by (rule alloc_pagesE)
  then have "(i, selsz sel) \<in> span ` A"
    by force
  from core_invD(5) [OF assms this] x show "p \<in> {..<npages s}"
    by simp
qed

lemma finite_alloc_pages: "core_inv s (span ` A) \<Longrightarrow> finite (alloc_pages A a)"
  by (rule finite_subset [OF alloc_pages_bound]) simp_all

lemma sel_area_simps [simp]:
  "sel_area s (B \<union> C) \<longleftrightarrow> sel_area s B \<and> sel_area s C"
  "sel_area s (insert (a, sel, i) B) \<longleftrightarrow>
     (sel = Onem \<longleftrightarrow> ma_type (area s a) = MA_TYPE_PROC) \<and> sel_area s B"
  by (auto simp only: sel_area_def ball_Un ball_simps prod.case)

lemma sel_area_frame: "frame P s s' \<Longrightarrow> sel_area s' B = sel_area s B"
  by (simp add: frame_def sel_area_def)

text \<open>A free block becomes an allocated one.\<close>

lemma mem_inv_take:
  assumes inv: "mem_inv s A" and a: "a < nareas s" and sel: "selok sel"
    and core: "core_inv s' (insert (i, selsz sel) (span ` A))" "(i, selsz sel) \<notin> span ` A"
    and ok: "alloc_ok s' a i (selsz sel)"
    and f: "frame P s s'" "P \<subseteq> free_pages s a"
    and blk: "{i..<i + selsz sel} \<subseteq> free_pages s a"
    and fp: "free_pages s' = (free_pages s)(a := free_pages s a - {i..<i + selsz sel})"
    and sa: "sel_area s' (freeset s')" "sel = Onem \<longleftrightarrow> ma_type (area s a) = MA_TYPE_PROC"
  shows "mem_inv (acct s' a (of_nat (selsz sel)) 0) (insert (a, sel, i) A)"
proof -
  note D = mem_invD [OF inv]
  let ?B = "insert (a, sel, i) A" and ?n = "selsz sel" and ?blk = "{i..<i + selsz sel}"
  have f': "npages s' = npages s" "nareas s' = nareas s"
    "\<And>a. ma_type (area s' a) = ma_type (area s a)" "\<And>a. ma_maxpages (area s' a) = ma_maxpages (area s a)"
    "\<And>a. ma_freepages (area s' a) = ma_freepages (area s a)"
    "\<And>a. ma_allocpages (area s' a) = ma_allocpages (area s a)"
    using f(1) by (simp_all add: frame_def)
  have a': "a < nareas s'"
    using a f' by simp
  note V = acct_views [OF a'] and O = acct_other [OF a']
  have others: "alloc_ok s' b j (selsz sl)" if "(b, sl, j) \<in> A" for b sl j
  proof -
    have "(j, selsz sl) \<in> span ` A"
      using that by force
    from free_pages_reserved [OF D(1) this, of a] have "{j..<j + selsz sl} \<inter> P = {}"
      using f(2) by blast
    then show ?thesis
      using D(5) [OF that] alloc_ok_frame [OF f(1)] by simp
  qed
  have dj: "alloc_pages A a \<inter> ?blk = {}"
    using alloc_free_disjoint [OF D(1), of a a] blk by blast
  note fin = finite_free_pages [OF D(1)] finite_alloc_pages [OF D(1)]
  have acc: "accounts (acct s' a (of_nat ?n) 0) ?B"
    unfolding accounts_def V O
  proof (intro allI impI)
    fix b assume b: "b < nareas s'"
    have acb: "unat (ma_freepages (area s b)) = card (free_pages s b)"
      "unat (ma_allocpages (area s b)) = card (alloc_pages A b)"
      "unat (ma_maxpages (area s b)) = card (free_pages s b) + card (alloc_pages A b)"
      using D(7) b f' by (simp_all add: accounts_def)
    have le: "?n \<le> card (free_pages s a)"
      using card_mono [OF fin(1) blk] by simp
    have c1: "card (free_pages s a - ?blk) = card (free_pages s a) - ?n"
      using card_Diff_subset [OF _ blk] by simp
    have c2: "card (alloc_pages A a \<union> ?blk) = card (alloc_pages A a) + ?n"
      using card_Un_disjoint [OF fin(2) _ dj] by simp
    show "unat (ma_freepages (area (acct s' a (of_nat ?n) 0) b)) = card (free_pages s' b) \<and>
        unat (ma_allocpages (area (acct s' a (of_nat ?n) 0) b)) = card (alloc_pages ?B b) \<and>
        unat (ma_maxpages (area s' b)) = card (free_pages s' b) + card (alloc_pages ?B b)"
    proof (cases "b = a")
      case True
      have "unat (ma_allocpages (area s a)) + ?n < 2 ^ 64"
        using acb le u64_bound [of "ma_maxpages (area s a)"] True by simp
      moreover have "?n \<le> unat (ma_freepages (area s a))"
        using acb le True by simp
      ultimately show ?thesis
        using True a' acb le c1 c2 f'
        by (simp add: acct_def fp alloc_pages_insert unat_minus_nat unat_plus_nat)
    next
      case False
      then show ?thesis
        using acb a' f' by (simp add: acct_def fp alloc_pages_insert)
    qed
  qed
  have sp: "span ` ?B = insert (i, ?n) (span ` A)"
    by simp
  have inj: "inj_on span ?B"
    using D(2) core(2) by (auto simp: inj_on_insert)
  have saA: "sel_area s' (freeset s' \<union> ?B)"
    using D(6) sa f'(3) sel_area_frame [OF f(1), of A]
    by (simp only: Un_insert_right sel_area_simps)
  show ?thesis
    unfolding mem_inv_def V O sp
    using core(1) inj D(3) f' acc saA others ok a sel D(5) by auto
qed

section \<open>The requests\<close>

lemma sel_areaD:
  assumes "sel_area s B" "(a, sel, i) \<in> B"
  shows "sel = Onem \<longleftrightarrow> ma_type (area s a) = MA_TYPE_PROC"
  using bspec [OF assms [unfolded sel_area_def]] by simp

lemma scan_mapgsalloc_block:
  assumes inv: "mem_inv s A" and a: "a < nareas s" and fr: "(a, sel, i) \<in> freeset s"
    and pg: "pages \<noteq> 0" "unat pages \<le> selsz sel"
  shows "scan_mapgsalloc_ok (area s a) pages"
proof -
  note D = mem_invD [OF inv]
  have "selsz sel \<le> card (free_pages s a)"
    using card_mono [OF finite_free_pages [OF D(1)] free_pages_block [OF fr]] by simp
  then have "unat pages \<le> unat (ma_freepages (area s a))"
    "unat pages \<le> unat (ma_maxpages (area s a))"
    using D(7) a pg(2) by (simp_all add: accounts_def)
  with pg(1) show ?thesis
    by (simp add: scan_mapgsalloc_ok_def word_le_nat_alt)
qed

lemma find_area_eq:
  assumes "areas_wf s" "a < nareas s"
  shows "find_area s (ma_type (area s a)) = Some a"
proof -
  have d: "distinct (map ma_type (mo_mareas s))"
    using assms(1) by (simp add: areas_wf_def)
  have "ma_type (mo_mareas s ! a) \<noteq> ma_type (mo_mareas s ! j)" if "j < a" for j
    using d that assms(2) by (auto simp: distinct_conv_nth nareas_def)
  then show ?thesis
    using assms(2) unfolding find_area_def find_Some_iff
    by (intro exI [of _ a]) (simp add: area_def nareas_def)
qed

lemma reldivpages_Some:
  assumes inv: "mem_inv s A" and a: "a < nareas s" and pg: "pages \<noteq> 0"
    and ty: "ma_type (area s a) \<noteq> MA_TYPE_PROC"
    and r: "r = order_for (unat pages)" and bf: "best_fit s a r = Some d"
  shows "\<exists>s'. mm_reldivpages_onmarea s a pages = Inr ((Some (hd (frelst s a (Lie d))), of_nat (2 ^ r)), s') \<and>
           nareas s' = nareas s \<and>
           mem_inv (acct s' a (of_nat (2 ^ r)) 0) (insert (a, Lie r, hd (frelst s a (Lie d))) A) \<and>
           free_pages s' = (free_pages s)
             (a := free_pages s a - {hd (frelst s a (Lie d))..<hd (frelst s a (Lie d)) + 2 ^ r})"
proof -
  note D = mem_invD [OF inv] and B = best_fit_Some [OF bf]
  let ?i = "hd (frelst s a (Lie d))"
  have l: "frelst s a (Lie d) = ?i # tl (frelst s a (Lie d))"
    using B(3) by simp
  have fr: "(a, Lie d, ?i) \<in> freeset s"
    using a B(2,3) by simp
  have pos: "0 < unat pages"
    using pg unat_gt_0 by blast
  have le: "unat pages \<le> 2 ^ d"
    using order_for_le [OF pos, of d] B(1) r by simp
  have scan: "scan_mapgsalloc_ok (area s a) pages"
    by (rule scan_mapgsalloc_block [OF inv a fr pg]) (use le in simp)
  have r': "r < MDIVMER_ARR_LMAX"
    using B(1,2) by simp
  have "0 < pages"
    using pg by (simp add: word_greater_zero_iff)
  from reldpgsdivmsa_block [OF D(1) a D(3) this B(1,2) l]
  obtain s' where s': "mm_reldpgsdivmsa_bafhl s a pages r d = Inr ((Some ?i, of_nat (2 ^ r)), s')"
    "core_inv s' (insert (?i, 2 ^ r) (span ` A))" "(?i, 2 ^ r) \<notin> span ` A" "alloc_ok s' a ?i (2 ^ r)"
    "frame {?i..<?i + 2 ^ d} s s'"
    "free_pages s' = (free_pages s)(a := free_pages s a - {?i..<?i + 2 ^ r})"
    "\<forall>a' sel. frelst s' a' sel =
       (case sel of Lie k \<Rightarrow>
          if a' \<noteq> a then frelst s a' sel else if k = d then tl (frelst s a (Lie d))
          else if r \<le> k \<and> k < d then (?i + 2 ^ k) # frelst s a sel else frelst s a' sel
        | Onem \<Rightarrow> frelst s a' sel)"
    by blast
  have run: "mm_reldivpages_onmarea s a pages = Inr ((Some ?i, of_nat (2 ^ r)), s')"
    using s'(1) scan pg a onmpgs_retn_bafhlst_eq [OF D(1) a D(3) pg] bf r
    by (simp add: mm_reldivpages_onmarea_def geta_area del: of_nat_power)
  have blkd: "{?i..<?i + 2 ^ d} \<subseteq> free_pages s a"
    using free_pages_block [OF fr] by simp
  have "x < ?i + 2 ^ d" if "x < ?i + 2 ^ r" for x
  proof -
    have "(2::nat) ^ r \<le> 2 ^ d"
      using B(1) by (rule power_increasing) simp
    with that show ?thesis by linarith
  qed
  with blkd have blk: "{?i..<?i + 2 ^ r} \<subseteq> free_pages s a"
    by (auto simp: subset_eq)
  have na: "nareas s' = nareas s" and tys: "ma_type (area s' b) = ma_type (area s b)" for b
    using s'(5) by (simp_all add: frame_def)
  have sa: "sel_area s' (freeset s')"
  proof -
    have "sel = Onem \<longleftrightarrow> ma_type (area s b) = MA_TYPE_PROC" if "(b, sel, j) \<in> freeset s'" for b sel j
    proof (cases "b = a")
      case True
      have "sel \<noteq> Onem"
      proof
        assume "sel = Onem"
        with that na s'(7) have "(b, sel, j) \<in> freeset s" by simp
        with sel_areaD [OF D(6), of b sel j] \<open>sel = Onem\<close> True ty show False
          by simp
      qed
      with True ty show ?thesis by simp
    next
      case False
      with that na s'(7) have "(b, sel, j) \<in> freeset s"
        by (cases sel) simp_all
      with sel_areaD [OF D(6), of b sel j] show ?thesis
        by simp
    qed
    then show ?thesis
      unfolding sel_area_def tys by blast
  qed
  have "mem_inv (acct s' a (of_nat (selsz (Lie r))) 0) (insert (a, Lie r, ?i) A)"
    by (rule mem_inv_take [OF inv a _ _ _ _ s'(5) blkd])
      (use s'(2-4,6) r' blk sa ty in simp_all)
  with run s'(6) na show ?thesis
    by (intro exI [of _ s']) simp
qed

lemma reldivpages_None:
  assumes inv: "mem_inv s A" and a: "a < nareas s"
    and bf: "best_fit s a (order_for (unat pages)) = None"
  shows "mm_reldivpages_onmarea s a pages = Inr ((None, 0), s)"
  using a bf onmpgs_retn_bafhlst_eq [OF mem_invD(1) [OF inv] a mem_invD(3) [OF inv]]
  by (auto simp: mm_reldivpages_onmarea_def geta_area)

text \<open>A request of \<open>pages\<close> pages in the kernel or the hardware area.\<close>

lemma division_pages_area:
  assumes inv: "mem_inv s A" and a: "a < nareas s"
    and ty: "ma_type (area s a) = MA_TYPE_KRNL \<or> ma_type (area s a) = MA_TYPE_HWAD"
    and fl: "flgs = DMF_RELDIV \<or> flgs = DMF_MAXDIV"
  shows "mm_division_pages s pages (ma_type (area s a)) flgs =
    andthen (if flgs = DMF_MAXDIV then mm_maxdivpages_onmarea s a
             else mm_reldivpages_onmarea s a pages) (\<lambda>((retmsa, retpnr), s).
      if retmsa \<noteq> None then
        (if retpnr \<noteq> 0 then andthen (mm_update_memarea s a retpnr 0) (\<lambda>s.
            Inr ((retmsa, retpnr), mm_update_memmgrob s retpnr 0))
         else Inr ((retmsa, retpnr), s))
      else Inr ((None, 0), s))"
proof -
  have "find_area s (ma_type (area s a)) = Some a"
    by (rule find_area_eq [OF mem_invD(4) [OF inv] a])
  moreover have "ma_type (area s a) \<noteq> 0"
    using ty by (auto simp: MA_TYPE_KRNL_def MA_TYPE_HWAD_def)
  moreover have "\<not> (ma_type (area s a) \<noteq> MA_TYPE_KRNL \<and> ma_type (area s a) \<noteq> MA_TYPE_HWAD)"
    "\<not> (flgs \<noteq> DMF_RELDIV \<and> flgs \<noteq> DMF_MAXDIV)"
    using ty fl by blast+
  moreover define inner where "inner = (if flgs = DMF_MAXDIV then mm_maxdivpages_onmarea s a
             else mm_reldivpages_onmarea s a pages)"
  ultimately have step: "mm_division_pages s pages (ma_type (area s a)) flgs =
    andthen (andthen (andthen inner (\<lambda>((retmsa, retpnr), s).
          if retmsa \<noteq> None \<and> retpnr \<noteq> 0 then
            andthen (mm_update_memarea s a retpnr 0) (\<lambda>s.
            Inr ((retmsa, retpnr), mm_update_memmgrob s retpnr 0))
          else Inr ((retmsa, retpnr), s))) (\<lambda>((retmsa, retpnr), s).
          if retmsa = None then Inr ((None, 0), s) else Inr ((retmsa, retpnr), s)))
        (\<lambda>((retmsa, retpnr), s). if retmsa = None then Inr ((None, 0), s) else Inr ((retmsa, retpnr), s))"
    unfolding mm_division_pages_def mm_divpages_fmwk_def onmrtype_retn_marea_def
      mm_divpages_core_def geta_area [OF a] inner_def
    by (simp only: option.case geta_area [OF a] andthen_simps if_False)
  show ?thesis
    unfolding step inner_def [symmetric]
  proof (cases inner)
    case (Inr r)
    obtain m n t where r: "r = ((m, n), t)" by (cases r) auto
    show "andthen (andthen (andthen inner (\<lambda>((retmsa, retpnr), s).
          if retmsa \<noteq> None \<and> retpnr \<noteq> 0 then
            andthen (mm_update_memarea s a retpnr 0) (\<lambda>s.
            Inr ((retmsa, retpnr), mm_update_memmgrob s retpnr 0))
          else Inr ((retmsa, retpnr), s))) (\<lambda>((retmsa, retpnr), s).
          if retmsa = None then Inr ((None, 0), s) else Inr ((retmsa, retpnr), s)))
        (\<lambda>((retmsa, retpnr), s). if retmsa = None then Inr ((None, 0), s) else Inr ((retmsa, retpnr), s)) =
      andthen inner (\<lambda>((retmsa, retpnr), s).
      if retmsa \<noteq> None then
        (if retpnr \<noteq> 0 then andthen (mm_update_memarea s a retpnr 0) (\<lambda>s.
            Inr ((retmsa, retpnr), mm_update_memmgrob s retpnr 0))
         else Inr ((retmsa, retpnr), s))
      else Inr ((None, 0), s))"
      unfolding Inr r by (cases "mm_update_memarea t a n 0"; cases m) simp_all
  qed simp
qed

text \<open>The whole request, best fit first.\<close>

lemma division_pages_Some:
  assumes inv: "mem_inv s A" and a: "a < nareas s" and pg: "pages \<noteq> 0"
    and ty: "ma_type (area s a) = MA_TYPE_KRNL \<or> ma_type (area s a) = MA_TYPE_HWAD"
    and r: "r = order_for (unat pages)" and bf: "best_fit s a r = Some d"
    and i: "i = hd (frelst s a (Lie d))"
  shows "\<exists>s'. mm_division_pages s pages (ma_type (area s a)) DMF_RELDIV = Inr ((Some i, of_nat (2 ^ r)), s') \<and>
           mem_inv s' (insert (a, Lie r, i) A) \<and>
           free_pages s' = (free_pages s)(a := free_pages s a - {i..<i + 2 ^ r})"
proof -
  have np: "ma_type (area s a) \<noteq> MA_TYPE_PROC"
    using ty by (auto simp: MA_TYPE_KRNL_def MA_TYPE_HWAD_def MA_TYPE_PROC_def)
  from reldivpages_Some [OF inv a pg np r bf] i
  obtain s' where s': "mm_reldivpages_onmarea s a pages = Inr ((Some i, of_nat (2 ^ r)), s')"
    "nareas s' = nareas s" "mem_inv (acct s' a (of_nat (2 ^ r)) 0) (insert (a, Lie r, i) A)"
    "free_pages s' = (free_pages s)(a := free_pages s a - {i..<i + 2 ^ r})"
    by blast
  have r52: "r < MDIVMER_ARR_LMAX"
    using best_fit_Some(1,2) [OF bf] by simp
  have "unat (of_nat (2 ^ r) :: u64) \<noteq> 0"
    using frelst_oderpnr(2) [OF mem_invD(1) [OF inv] a r52] by simp
  then have nz: "(of_nat (2 ^ r) :: u64) \<noteq> 0"
    by (metis unat_0)
  have a': "a < nareas s'"
    using a s'(2) by simp
  have "mm_division_pages s pages (ma_type (area s a)) DMF_RELDIV =
      Inr ((Some i, of_nat (2 ^ r)), acct s' a (of_nat (2 ^ r)) 0)"
    using s'(1) nz update_acct [OF a', of 0]
    by (subst division_pages_area [OF inv a ty]) (simp_all add: DMF_RELDIV_def DMF_MAXDIV_def del: of_nat_power)
  with s'(3,4) acct_views(3) [OF a'] show ?thesis
    by (intro exI [of _ "acct s' a (of_nat (2 ^ r)) 0"]) simp
qed

lemma division_pages_None:
  assumes inv: "mem_inv s A" and a: "a < nareas s"
    and ty: "ma_type (area s a) = MA_TYPE_KRNL \<or> ma_type (area s a) = MA_TYPE_HWAD"
    and bf: "best_fit s a (order_for (unat pages)) = None"
  shows "mm_division_pages s pages (ma_type (area s a)) DMF_RELDIV = Inr ((None, 0), s)"
  by (subst division_pages_area [OF inv a ty])
    (use reldivpages_None [OF inv a bf] in \<open>simp_all add: DMF_RELDIV_def DMF_MAXDIV_def\<close>)

section \<open>Requests for a whole block\<close>

lemma tl_mem: "x \<in> set (tl xs) \<Longrightarrow> x \<in> set xs"
  by (cases xs) simp_all

lemma sel_area_take:
  assumes "sel_area s (freeset s)" "frame P s s'"
    and "\<forall>a' sel'. frelst s' a' sel' = (if a' = a \<and> sel' = sel then tl (frelst s a sel) else frelst s a' sel')"
  shows "sel_area s' (freeset s')"
proof -
  have na: "nareas s' = nareas s"
    using assms(2) by (simp add: frame_def)
  have "freeset s' \<subseteq> freeset s"
    using assms(3) na by (auto simp: freeset_def split: if_splits dest: tl_mem)
  then show ?thesis
    unfolding sel_area_frame [OF assms(2)] using assms(1) by (auto simp: sel_area_def)
qed

lemma whole_block:
  assumes inv: "mem_inv s A" and a: "a < nareas s" and sel: "selok sel"
    and l: "frelst s a sel = i # rest"
  shows "\<exists>s1 s2. mm_retnmsaob_onbafhlst s (a, sel) = Inr (Some (i, Some (i + selsz sel - 1)), s1) \<and>
           mm_divpages_opmsadsc s1 i (of_nat (selsz sel)) = Inr (Some i, s2) \<and>
           nareas s2 = nareas s \<and>
           mem_inv (acct s2 a (of_nat (selsz sel)) 0) (insert (a, sel, i) A) \<and>
           free_pages s2 = (free_pages s)(a := free_pages s a - {i..<i + selsz sel})"
proof -
  note D = mem_invD [OF inv]
  have fr: "(a, sel, i) \<in> freeset s"
    using a sel l by simp
  have nin: "(i, selsz sel) \<notin> span ` A"
  proof
    assume "(i, selsz sel) \<in> span ` A"
    from core_invD(7) [OF D(1) this fr] show False
      by (simp add: disj_def)
  qed
  obtain s1 where s1: "mm_retnmsaob_onbafhlst s (a, sel) = Inr (Some (i, Some (i + selsz sel - 1)), s1)"
    "held s1 (span ` A) a i (selsz sel)" "head_link s1 i (selsz sel)" "frame {} s s1"
    "free_pages s1 = (free_pages s)(a := free_pages s a - {i..<i + selsz sel})"
    "\<forall>a' sel'. frelst s1 a' sel' = (if a' = a \<and> sel' = sel then rest else frelst s a' sel')"
    using retn_block [OF D(1) a sel D(3) l] by blast
  have small: "selsz sel < 2 ^ 64"
    using selsz_bound [OF sel] by simp
  obtain s2 where s2: "mm_divpages_opmsadsc s1 i (of_nat (selsz sel)) = Inr (Some i, s2)"
    "core_inv s2 (insert (i, selsz sel) (span ` A))" "alloc_ok s2 a i (selsz sel)"
    "frame {i..<i + selsz sel} s1 s2"
    "free_pages s2 = free_pages s1" "\<forall>a sel. frelst s2 a sel = frelst s1 a sel"
    using divpages_opmsadsc_block [OF s1(2,3) small] by blast
  have f: "frame {i..<i + selsz sel} s s2"
    by (rule frame_trans [OF frame_mono [OF s1(4)] s2(4)]) simp
  have sa: "sel_area s2 (freeset s2)"
    by (rule sel_area_take [OF _ f, of a sel]) (use D(6) s2(6) s1(6) l in simp_all)
  have "mem_inv (acct s2 a (of_nat (selsz sel)) 0) (insert (a, sel, i) A)"
    by (rule mem_inv_take [OF inv a sel s2(2) nin s2(3) f])
      (use free_pages_block [OF fr] s2(5) s1(5) sa sel_areaD [OF D(6), of a sel i] fr in simp_all)
  moreover have "nareas s2 = nareas s"
    using f by (simp add: frame_def)
  ultimately show ?thesis
    using s1(1,5) s2(1,5) by auto
qed

definition max_fit :: "memmgrob \<Rightarrow> nat \<Rightarrow> nat option" where
  "max_fit s a = find (\<lambda>k. frelst s a (Lie k) \<noteq> []) (rev [0..<MDIVMER_ARR_LMAX])"

lemma onma_retn_maxbafhlst_eq:
  assumes "core_inv s R" "a < nareas s" "npages s \<le> 2 ^ 52"
  shows "onma_retn_maxbafhlst (area s a) = max_fit s a"
  unfolding onma_retn_maxbafhlst_def max_fit_def lie_baf
  using counter_facts(3) [OF assms(1,2) _ assms(3)] by (intro find_cong) auto

lemma max_fit_Some:
  assumes "max_fit s a = Some d"
  shows "d < MDIVMER_ARR_LMAX" "frelst s a (Lie d) \<noteq> []"
  using assms unfolding max_fit_def find_Some_iff by (auto simp: rev_nth)

lemma max_fit_max:
  assumes "max_fit s a = Some d" "d < k" "k < MDIVMER_ARR_LMAX"
  shows "frelst s a (Lie k) = []"
proof -
  let ?l = "rev [0..<MDIVMER_ARR_LMAX]"
  from assms(1) obtain j where j: "j < length ?l" "?l ! j = d"
    "\<forall>j' < j. \<not> frelst s a (Lie (?l ! j')) \<noteq> []"
    unfolding max_fit_def find_Some_iff by blast
  have at: "?l ! m = MDIVMER_ARR_LMAX - Suc m" if "m < MDIVMER_ARR_LMAX" for m
    using that by (simp add: rev_nth)
  have "MDIVMER_ARR_LMAX - Suc k < j" "?l ! (MDIVMER_ARR_LMAX - Suc k) = k"
    using j(1,2) assms(2,3) at by auto
  with j(3) show ?thesis
    by force
qed

lemma division_pages_max:
  assumes inv: "mem_inv s A" and a: "a < nareas s"
    and ty: "ma_type (area s a) = MA_TYPE_KRNL \<or> ma_type (area s a) = MA_TYPE_HWAD"
    and mf: "max_fit s a = Some d" and i: "i = hd (frelst s a (Lie d))"
  shows "\<exists>s'. mm_division_pages s pages (ma_type (area s a)) DMF_MAXDIV = Inr ((Some i, of_nat (2 ^ d)), s') \<and>
           mem_inv s' (insert (a, Lie d, i) A) \<and>
           free_pages s' = (free_pages s)(a := free_pages s a - {i..<i + 2 ^ d})"
proof -
  note D = mem_invD [OF inv] and M = max_fit_Some [OF mf]
  have sel: "selok (Lie d)" using M(1) by simp
  have l: "frelst s a (Lie d) = i # tl (frelst s a (Lie d))"
    using M(2) i by simp
  from whole_block [OF inv a sel l] obtain s1 s2 where
    s: "mm_retnmsaob_onbafhlst s (a, Lie d) = Inr (Some (i, Some (i + 2 ^ d - 1)), s1)"
      "mm_divpages_opmsadsc s1 i (of_nat (2 ^ d)) = Inr (Some i, s2)" "nareas s2 = nareas s"
      "mem_inv (acct s2 a (of_nat (2 ^ d)) 0) (insert (a, Lie d, i) A)"
      "free_pages s2 = (free_pages s)(a := free_pages s a - {i..<i + 2 ^ d})"
    unfolding selsz.simps by blast
  note op = frelst_oderpnr [OF D(1) a M(1)]
  have "unat (of_nat (2 ^ d) :: u64) \<noteq> 0"
    using op(2) by simp
  then have nz: "(of_nat (2 ^ d) :: u64) \<noteq> 0"
    by (metis unat_0)
  have a': "a < nareas s2"
    using a s(3) by simp
  have "mm_maxdivpages_onmarea s a = Inr ((Some i, of_nat (2 ^ d)), s2)"
    using mf s(1,2) a op(1) lie_baf [of s a d] onma_retn_maxbafhlst_eq [OF D(1) a D(3)]
    by (simp add: mm_maxdivpages_onmarea_def geta_area del: of_nat_power)
  then have "mm_division_pages s pages (ma_type (area s a)) DMF_MAXDIV =
      Inr ((Some i, of_nat (2 ^ d)), acct s2 a (of_nat (2 ^ d)) 0)"
    using nz update_acct [OF a', of 0]
    by (subst division_pages_area [OF inv a ty]) (simp_all add: DMF_RELDIV_def DMF_MAXDIV_def del: of_nat_power)
  with s(4,5) acct_views(3) [OF a'] show ?thesis
    by (intro exI [of _ "acct s2 a (of_nat (2 ^ d)) 0"]) simp
qed

text \<open>A page for a process comes from the process area; \<open>divpages_procmarea_core\<close>.\<close>

lemma procmarea_page:
  assumes inv: "mem_inv s A" and a: "a < nareas s" and ty: "ma_type (area s a) = MA_TYPE_PROC"
    and l: "frelst s a Onem = i # rest"
  shows "\<exists>s'. divpages_procmarea_core s 1 = Inr ((Some i, 1), s') \<and>
           mem_inv s' (insert (a, Onem, i) A) \<and>
           free_pages s' = (free_pages s)(a := free_pages s a - {i})"
proof -
  note D = mem_invD [OF inv]
  have one: "{i..<i + 1} = {i}" by auto
  from whole_block [OF inv a _ l] obtain s1 s2 where
    s: "mm_retnmsaob_onbafhlst s (a, Onem) = Inr (Some (i, Some i), s1)"
      "mm_divpages_opmsadsc s1 i 1 = Inr (Some i, s2)" "nareas s2 = nareas s"
      "mem_inv (acct s2 a 1 0) (insert (a, Onem, i) A)"
      "free_pages s2 = (free_pages s)(a := free_pages s a - {i})"
    by (auto simp: one)
  have "list_wf (baf s a Onem) Onem"
    by (rule core_invD(2) [OF D(1) a]) simp
  then have op: "af_oderpnr (dm_onemsalst (ma_mdmdata (area s a))) = 1"
    by (simp add: list_wf_def baf_def)
  have a': "a < nareas s2"
    using a s(3) by simp
  have fr: "(a, Onem, i) \<in> freeset s"
    using a l by simp
  have scan: "scan_mapgsalloc_ok (area s a) 1"
    by (rule scan_mapgsalloc_block [OF inv a fr]) simp_all
  have fa: "retn_procmarea s = Some a"
    using find_area_eq [OF D(4) a] ty by (simp add: retn_procmarea_def)
  have sp: "page_span i i = 1"
    by (simp add: page_span_def)
  have "mm_prcdivpages_onmarea s a 1 = Inr ((Some i, 1), s2)"
    using a ty scan s(1,2) op sp by (simp add: mm_prcdivpages_onmarea_def geta_area Let_def)
  then have "divpages_procmarea_core s 1 = Inr ((Some i, 1), acct s2 a 1 0)"
    using a scan fa update_acct [OF a', of 0]
    by (simp add: divpages_procmarea_core_def geta_area)
  with s(4,5) acct_views(3) [OF a'] show ?thesis
    by (intro exI [of _ "acct s2 a 1 0"]) simp
qed

lemma procmarea_none:
  assumes inv: "mem_inv s A" and a: "a < nareas s" and ty: "ma_type (area s a) = MA_TYPE_PROC"
    and l: "frelst s a Onem = []"
  shows "divpages_procmarea_core s 1 = Inr ((None, 0), s)"
proof -
  note D = mem_invD [OF inv]
  have "retn_procmarea s = Some a"
    using find_area_eq [OF D(4) a] ty by (simp add: retn_procmarea_def)
  then show ?thesis
    using a ty retn_block_empty [OF D(1) a _ D(3) l]
    by (simp add: divpages_procmarea_core_def geta_area mm_prcdivpages_onmarea_def Let_def)
qed

end
