(* ===== verification/MemFree.thy ===== *)
theory MemFree
  imports MemAlloc
begin

text \<open>
  Freeing. A block that comes back is joined with a free block of the same order that
  follows or precedes it, again at the next order, until it has no free neighbour of its
  order; then it goes to the list of the order it has reached.
\<close>

section \<open>The block is given up\<close>

lemma merpages_opmsadsc_block:
  assumes inv: "core_inv s (insert (i, selsz sel) R)" "(i, selsz sel) \<notin> R"
    and a: "a < nareas s" and sel: "selok sel" and ok: "alloc_ok s a i (selsz sel)"
  shows "\<exists>s'. mm_merpages_opmsadsc s (a, sel) i (of_nat (selsz sel)) = Inr (2, s') \<and>
           held s' R a i (selsz sel) \<and> links_ok s' (a, sel) i (selsz sel) \<and>
           frame {i..<i + selsz sel} s s' \<and> free_pages s' = free_pages s \<and>
           (\<forall>a sel. frelst s' a sel = frelst s a sel)"
proof -
  let ?n = "selsz sel" and ?e = "i + selsz sel - 1"
  note O = ok [unfolded alloc_ok_def]
  have bnd: "i < npages s" "?e < npages s" "i \<le> ?e" "?e < i + ?n" "i < i + ?n"
    using O selsz_pos [of sel] by linarith+
  have small: "?n < 2 ^ 64"
    using selsz_bound [OF sel] by simp
  have nz: "(of_nat ?n :: u64) \<noteq> 0"
    using cnt_zero_iff [OF small] by simp
  have "list_wf (baf s a sel) sel"
    by (rule core_invD(2) [OF inv(1) a sel])
  then have b: "getb s (a, sel) = Inr (baf s a sel)" "af_oderpnr (baf s a sel) = of_nat ?n"
    using getb_baf [OF core_invD(1) [OF inv(1)] a sel] by (simp_all add: list_wf_def)
  have sp: "page_span i ?e = of_nat ?n"
    by (rule span_block) simp
  have upd: "core_inv (put_msa t j m) (insert (i, ?n) R)"
    if "core_inv t (insert (i, ?n) R)" "j = i \<or> j = ?e" for t j m
    using upd_res [OF that(1), of i ?n j m] that(2) bnd by auto
  show ?thesis
  proof (cases "?n = 1")
    case True
    let ?s1 = "put_msa s i ((msa s i)\<lparr>mf_uindx := mf_uindx (msa s i) - 1\<rparr>)"
    let ?s = "put_msa ?s1 i ((msa ?s1 i)\<lparr>paf_alloc := False, mf_olkty := MF_OLKTY_BAFH, md_odlink := OdBafh (a, sel)\<rparr>)"
    have "mm_merpages_opmsadsc s (a, sel) i (of_nat ?n) = Inr (2, ?s)"
      using True bnd O nz b sp by (simp add: mm_merpages_opmsadsc_def mem_simps)
    moreover have f: "frame {i..<i + ?n} s ?s"
      using bnd by (intro frame_msa frame_refl) simp_all
    moreover have "held ?s R a i ?n"
      unfolding held_def frame_pages_ty [OF f]
    proof (intro conjI)
      show "core_inv ?s (insert (i, ?n) R)"
        by (intro upd inv(1)) simp_all
      show "pages_idle ?s i ?n"
        using True bnd O by (simp add: pages_idle_def)
    qed (use inv(2) a O in simp_all)
    moreover have "links_ok ?s (a, sel) i ?n"
      using True bnd by (simp add: links_ok_def)
    moreover have "free_pages ?s = free_pages s" "\<forall>a sel. frelst ?s a sel = frelst s a sel"
      by simp_all
    ultimately show ?thesis by blast
  next
    case False
    then have ne: "?e \<noteq> i"
      using selsz_pos [of sel] by linarith
    let ?s1 = "put_msa s i ((msa s i)\<lparr>mf_uindx := mf_uindx (msa s i) - 1\<rparr>)"
    let ?s2 = "put_msa ?s1 ?e ((msa ?s1 ?e)\<lparr>mf_uindx := mf_uindx (msa ?s1 ?e) - 1\<rparr>)"
    let ?s3 = "put_msa ?s2 i ((msa ?s2 i)\<lparr>paf_alloc := False, mf_olkty := MF_OLKTY_ODER, md_odlink := OdMsa ?e\<rparr>)"
    let ?s4 = "put_msa ?s3 ?e ((msa ?s3 ?e)\<lparr>paf_alloc := False, mf_olkty := MF_OLKTY_BAFH, md_odlink := OdBafh (a, sel)\<rparr>)"
    have "mm_merpages_opmsadsc s (a, sel) i (of_nat ?n) = Inr (2, ?s4)"
      using False ne bnd O nz b sp by (simp add: mm_merpages_opmsadsc_def mem_simps)
    moreover have f: "frame {i..<i + ?n} s ?s4"
      using bnd by (intro frame_msa frame_refl) simp_all
    moreover have "held ?s4 R a i ?n"
      unfolding held_def frame_pages_ty [OF f]
    proof (intro conjI)
      show "core_inv ?s4 (insert (i, ?n) R)"
        by (intro upd inv(1)) simp_all
      show "pages_idle ?s4 i ?n"
        using bnd O ne by (auto simp: pages_idle_def)
    qed (use inv(2) a O in simp_all)
    moreover have "links_ok ?s4 (a, sel) i ?n"
      using bnd ne by (simp add: links_ok_def)
    moreover have "free_pages ?s4 = free_pages s" "\<forall>a sel. frelst ?s4 a sel = frelst s a sel"
      by simp_all
    ultimately show ?thesis by blast
  qed
qed

text \<open>A held block goes to the list of its size.\<close>

lemma mpobf_add_block:
  assumes h: "held s R a i (selsz sel)" and sel: "selok sel" and sz: "npages s \<le> 2 ^ 52"
  shows "\<exists>s'. mpobf_add_msadsc s (a, sel) i (i + selsz sel - 1) = Inr (True, s') \<and>
           core_inv s' R \<and> frame {i..<i + selsz sel} s s' \<and>
           free_pages s' = (free_pages s)(a := free_pages s a \<union> {i..<i + selsz sel}) \<and>
           (\<forall>a' sel'. frelst s' a' sel' =
             (if a' = a \<and> sel' = sel then i # frelst s a sel else frelst s a' sel'))"
proof -
  note H = heldD [OF h]
  let ?n = "selsz sel" and ?e = "i + selsz sel - 1"
  have bnd: "i < npages s" "?e < npages s" "i \<le> ?e" "?e < i + ?n" "i < i + ?n"
    using H(8) selsz_pos [of sel] by linarith+
  have same: "?e = i \<Longrightarrow> ?n = 1"
    using selsz_pos [of sel] by linarith
  let ?s1 = "put_msa s i ((msa s i)\<lparr>mf_olkty := MF_OLKTY_ODER, md_odlink := OdMsa ?e\<rparr>)"
  let ?s2 = "put_msa ?s1 ?e ((msa ?s1 ?e)\<lparr>mf_olkty := MF_OLKTY_BAFH, md_odlink := OdBafh (a, sel)\<rparr>)"
  let ?b = "(baf s a sel)\<lparr>af_frelst := i # frelst s a sel,
    af_fobjnr := af_fobjnr (baf s a sel) + 1, af_mobjnr := af_mobjnr (baf s a sel) + 1\<rparr>"
  let ?s3 = "put_bafh ?s2 (a, sel) ?b"
  have inv1: "core_inv ?s1 (insert (i, ?n) R)"
    by (rule upd_res [OF H(1), of i ?n]) (use bnd in simp_all)
  have inv2: "core_inv ?s2 (insert (i, ?n) R)"
    by (rule upd_res [OF inv1, of i ?n]) (use bnd in simp_all)
  have f2: "frame {i..<i + ?n} s ?s2"
    using bnd by (intro frame_msa frame_refl) simp_all
  have fok: "free_ok ?s2 a sel i"
    unfolding free_ok_def frame_pages_ty [OF f2]
  proof (intro conjI)
    show "i + ?n \<le> npages ?s2"
      using H(8) by simp
    show "pages_idle ?s2 i ?n"
      using bnd H(6) by (auto simp: pages_idle_def)
    show "links_ok ?s2 (a, sel) i ?n"
      unfolding links_ok_def using bnd same by simp
  qed (rule H(5))
  have inv3: "core_inv ?s3 R"
    by (rule add_free [OF inv2 H(2)]) (use H(3) sel fok in simp_all)
  have op: "af_oderpnr (baf s a sel) = of_nat ?n"
    using core_invD(2) [OF H(1,3) sel] by (simp add: list_wf_def)
  have run: "mpobf_add_msadsc s (a, sel) i ?e = Inr (True, ?s3)"
    using bnd H(3,4) sel op span_block [of ?n i] counter_facts(4,5) [OF H(1,3) sel sz]
    by (simp add: mpobf_add_msadsc_def mem_simps)
  have "frame {i..<i + ?n} s ?s3"
    using f2 by (rule frame_bafh) (simp add: H(3))
  moreover have "free_pages ?s3 = (free_pages s)(a := free_pages s a \<union> {i..<i + ?n})"
    by (rule ext) (use H(3,4) sel in \<open>simp add: free_pages_add\<close>)
  moreover have "\<forall>a' sel'. frelst ?s3 a' sel' =
      (if a' = a \<and> sel' = sel then i # frelst s a sel else frelst s a' sel')"
    using H(3,4) sel by simp
  ultimately show ?thesis
    using run inv3 by blast
qed

section \<open>Neighbours\<close>

definition blk_ok :: "memmgrob \<Rightarrow> bafref \<Rightarrow> nat \<Rightarrow> nat \<Rightarrow> bool" where
  "blk_ok s r i n \<longleftrightarrow>
     0 < n \<and> i + n \<le> npages s \<and> pages_ty s (fst r) i n \<and> pages_idle s i n \<and> links_ok s r i n"

text \<open>The block at \<open>y\<close> starts where the block of \<open>n\<close> pages at \<open>x\<close> ends, frames included.\<close>

definition follows :: "memmgrob \<Rightarrow> nat \<Rightarrow> nat \<Rightarrow> nat \<Rightarrow> bool" where
  "follows s n x y \<longleftrightarrow>
     x + n = y \<and> unat (paf_padrs (msa s y)) = unat (paf_padrs (msa s x)) + n"

definition neighbour :: "memmgrob \<Rightarrow> nat \<Rightarrow> nat \<Rightarrow> nat \<Rightarrow> bool" where
  "neighbour s n x y \<longleftrightarrow> follows s n x y \<or> follows s n y x"

lemma ucast_padrs: "(ucast (w :: 52 word) :: u64) = of_nat (unat w)"
  by simp

lemma padrs_bound: "unat (w :: 52 word) < 2 ^ 52"
  using unsigned_less [of w] by simp

lemma pages_ty_end:
  assumes "pages_ty s a i n" "0 < n"
  shows "unat (paf_padrs (msa s (i + n - 1))) = unat (paf_padrs (msa s i)) + (n - 1)"
proof -
  have "n - 1 < n" "i + (n - 1) = i + n - 1"
    using assms(2) by simp_all
  with assms(1) show ?thesis
    unfolding pages_ty_def by metis
qed

lemma cmsa1blk_ok:
  assumes "blk_ok s r i n"
  shows "mm_cmsa1blk_isok s r i (i + n - 1) = Inr 2"
proof -
  let ?e = "i + n - 1"
  have B: "0 < n" "i + n \<le> npages s" "pages_ty s (fst r) i n" "pages_idle s i n" "links_ok s r i n"
    using assms by (simp_all add: blk_ok_def)
  have bnd: "i < npages s" "?e < npages s" "\<not> ?e < i" "?e < i + n" "?e - i = n - 1" "i \<le> ?e"
    using B(1,2) by linarith+
  have "(ucast (paf_padrs (msa s ?e)) :: u64) = of_nat (unat (paf_padrs (msa s i)) + (n - 1))"
    unfolding ucast_padrs pages_ty_end [OF B(3,1)] ..
  then have fr: "(ucast (paf_padrs (msa s ?e)) :: u64) - ucast (paf_padrs (msa s i)) = of_nat (?e - i)"
    by (simp only: ucast_padrs of_nat_add bnd(5)) simp
  have idle: "mf_uindx (msa s i) = 0" "\<not> paf_alloc (msa s i)" "mf_uindx (msa s ?e) = 0"
    "\<not> paf_alloc (msa s ?e)"
    using B(1,4) by (simp_all add: pages_idle_def)
  have one: "i = ?e \<longleftrightarrow> n = 1"
    using B(1) by linarith
  show ?thesis
    unfolding mm_cmsa1blk_isok_def getm_msa [OF bnd(1)] getm_msa [OF bnd(2)] andthen_simps Let_def fr
    using bnd(3) B(5) idle one by (cases "n = 1") (simp_all add: links_ok_def)
qed

lemma next_frame:
  assumes "pages_ty s a x n" "0 < n"
  shows "(ucast (paf_padrs (msa s (x + n - 1))) :: u64) + 1 = ucast (paf_padrs (msa s y)) \<longleftrightarrow>
           unat (paf_padrs (msa s y)) = unat (paf_padrs (msa s x)) + n"
proof -
  let ?p = "unat (paf_padrs (msa s (x + n - 1)))" and ?q = "unat (paf_padrs (msa s y))"
  have "?p + 1 < 2 ^ 64" "?q < 2 ^ 64"
    using padrs_bound [of "paf_padrs (msa s (x + n - 1))"] padrs_bound [of "paf_padrs (msa s y)"]
    by simp_all
  then have "(of_nat (?p + 1) :: u64) = of_nat ?q \<longleftrightarrow> ?p + 1 = ?q"
    by (metis u64_of_nat)
  then have "(ucast (paf_padrs (msa s (x + n - 1))) :: u64) + 1 = ucast (paf_padrs (msa s y)) \<longleftrightarrow> ?q = ?p + 1"
    by (simp only: ucast_padrs of_nat_add of_nat_1) auto
  then show ?thesis
    unfolding pages_ty_end [OF assms] using assms(2) by simp
qed

lemma cmsa2blk_eq:
  assumes x: "blk_ok s r x n" and y: "blk_ok s r y n" and ne: "x \<noteq> y"
  shows "mm_cmsa2blk_isok s r x (x + n - 1) y (y + n - 1) =
           Inr (if follows s n x y then 2 else if follows s n y x then 4 else 1)"
proof -
  have B: "0 < n" "x + n \<le> npages s" "y + n \<le> npages s" "pages_ty s (fst r) x n" "pages_ty s (fst r) y n"
    using x y by (simp_all add: blk_ok_def)
  have bnd: "x < npages s" "x + n - 1 < npages s" "y < npages s" "y + n - 1 < npages s"
    using B(1-3) by linarith+
  have ne2: "x + n - 1 \<noteq> y + n - 1" and adj: "x + n - 1 + 1 = x + n" "y + n - 1 + 1 = y + n"
    using ne B(1) by linarith+
  have start: "mm_cmsa2blk_isok s r x (x + n - 1) y (y + n - 1) =
      (if x < y \<and> x + n - 1 < y + n - 1 then
         (if x + n \<noteq> y then Inr 1
          else if (ucast (paf_padrs (msa s (x + n - 1))) :: u64) + 1 \<noteq> ucast (paf_padrs (msa s y)) then Inr 1
          else Inr 2)
       else if y < x \<and> y + n - 1 < x + n - 1 then
         (if y + n \<noteq> x then Inr 1
          else if (ucast (paf_padrs (msa s (y + n - 1))) :: u64) + 1 \<noteq> ucast (paf_padrs (msa s x)) then Inr 1
          else Inr 4)
       else Inr 0)"
    using ne ne2
    by (simp only: mm_cmsa2blk_isok_def cmsa1blk_ok [OF x] cmsa1blk_ok [OF y] bnd getm_msa
        andthen_simps adj if_False simp_thms) (simp add: require_def)
  have ord: "x < y \<Longrightarrow> x + n - 1 < y + n - 1" "y < x \<Longrightarrow> y + n - 1 < x + n - 1"
    using B(1) by linarith+
  have nf: "x < y \<Longrightarrow> \<not> follows s n y x" "y < x \<Longrightarrow> \<not> follows s n x y"
    by (simp_all add: follows_def)
  show ?thesis
    unfolding start next_frame [OF B(4,1)] next_frame [OF B(5,1)]
    using ne ord nf by (cases "x < y") (simp_all add: follows_def)
qed

lemma find_cmsa2blk_eq:
  assumes "blk_ok s r x n" "\<And>t. t \<in> set ts \<Longrightarrow> t \<noteq> x \<and> blk_ok s r t n" "n < 2 ^ 64"
  shows "find_cmsa2blk_loop s r (of_nat n) x (x + n - 1) r0 ts =
           Inr (case find (neighbour s n x) ts of
                  Some t \<Rightarrow> (if follows s n x t then 2 else 4, Some t)
                | None \<Rightarrow> (if ts = [] then r0 else 1, None))"
  using assms(2)
proof (induction ts arbitrary: r0)
  case (Cons t ts)
  have n: "0 < n"
    using assms(1) by (simp add: blk_ok_def)
  then have "unat (of_nat n - 1 :: u64) = n - 1"
    using unat_minus_nat [of 1 "of_nat n"] assms(3) by simp
  then have te: "t + unat (of_nat n - 1 :: u64) = t + n - 1"
    using n by simp
  have t: "t \<noteq> x" "blk_ok s r t n"
    using Cons.prems by simp_all
  note step = cmsa2blk_eq [OF assms(1) t(2) t(1) [symmetric]]
  have IH: "find_cmsa2blk_loop s r (of_nat n) x (x + n - 1) 1 ts =
      Inr (case find (neighbour s n x) ts of
                  Some t \<Rightarrow> (if follows s n x t then 2 else 4, Some t)
                | None \<Rightarrow> (1, None))"
    using Cons.IH [of 1] Cons.prems by (auto split: option.splits)
  have nb: "neighbour s n x t \<longleftrightarrow> follows s n x t \<or> follows s n t x"
    by (simp add: neighbour_def)
  show ?case
    unfolding find_cmsa2blk_loop.simps te step andthen_simps find.simps nb
    using IH by simp
qed simp

section \<open>Joining two blocks\<close>

lemma pages_ty_join:
  assumes "pages_ty s a i n" "pages_ty s a (i + n) m" "follows s n i (i + n)"
  shows "pages_ty s a i (n + m)"
  unfolding pages_ty_def
proof (intro allI impI)
  fix j assume j: "j < n + m"
  show "mf_marty (msa s (i + j)) = ucast (ma_type (area s a)) \<and>
      unat (paf_padrs (msa s (i + j))) = unat (paf_padrs (msa s i)) + j"
  proof (cases "j < n")
    case True
    with assms(1) show ?thesis by (simp add: pages_ty_def)
  next
    case False
    then obtain l where l: "j = n + l" "l < m"
      using j by (metis add_diff_inverse_nat nat_add_left_cancel_less)
    with assms(2,3) show ?thesis
      by (simp add: pages_ty_def follows_def add.assoc)
  qed
qed

lemma chek_cl2molkflg_ok:
  assumes "i \<noteq> s2" "e1 \<noteq> e2" "i < npages s" "e1 < npages s" "s2 < npages s" "e2 < npages s"
    and "getb s r = Inr b" "page_span i e2 = af_oderpnr b"
    and "mf_olkty (msa s i) = MF_OLKTY_ODER" "md_odlink (msa s i) = OdMsa e2"
    and "mf_olkty (msa s e2) = MF_OLKTY_BAFH" "md_odlink (msa s e2) = OdBafh r"
    and "i \<noteq> e1 \<or> s2 \<noteq> e2 \<Longrightarrow> mf_olkty (msa s e1) = MF_OLKTY_INIT \<and> md_odlink (msa s e1) = OdNull \<and>
      mf_olkty (msa s s2) = MF_OLKTY_INIT \<and> md_odlink (msa s s2) = OdNull"
  shows "chek_cl2molkflg s r i e1 s2 e2 = Inr True"
  using assms by (cases "i = e1"; cases "s2 = e2") (simp_all add: chek_cl2molkflg_def getm_msa Let_def)

lemma join_pair:
  assumes inv: "core_inv s (insert (i, n) (insert (i + n, n) R))"
    and nin: "(i, n) \<notin> R" "(i + n, n) \<notin> R" and n: "n = 2 ^ k"
    and a: "a < nareas s" and k: "Suc k < MDIVMER_ARR_LMAX"
    and ty: "pages_ty s a i n" "pages_ty s a (i + n) n"
    and idle: "pages_idle s i n" "pages_idle s (i + n) n"
    and fo: "follows s n i (i + n)"
  shows "\<exists>s'. mm_clear_2msaolflg s (a, Lie (Suc k)) i (i + n - 1) (i + n) (i + n + n - 1) = Inr (True, s') \<and>
           chek_cl2molkflg s' (a, Lie (Suc k)) i (i + n - 1) (i + n) (i + n + n - 1) = Inr True \<and>
           held s' R a i (n + n) \<and> links_ok s' (a, Lie (Suc k)) i (n + n) \<and>
           frame {i..<i + (n + n)} s s' \<and> free_pages s' = free_pages s \<and>
           (\<forall>a sel. frelst s' a sel = frelst s a sel)"
proof -
  let ?r = "(a, Lie (Suc k))"
  have n0: "0 < n" using n by simp
  have big: "core_inv s (insert (i, n + n) R)" "(i, n + n) \<notin> R"
    using merge_res [OF inv nin n0 n0] by simp_all
  let ?e1 = "i + n - 1" and ?s2 = "i + n" and ?e2 = "i + n + n - 1"
  have top: "i + (n + n) \<le> npages s"
    using core_invD(5) [OF big(1), of "(i, n + n)"] by simp
  have bnd: "i < npages s" "?e1 < npages s" "?s2 < npages s" "?e2 < npages s"
    "i \<le> ?e1" "?e1 < i + (n + n)" "i \<le> ?s2" "?s2 < i + (n + n)" "i \<le> ?e2" "?e2 < i + (n + n)"
    "i < i + (n + n)"
    using top n0 by linarith+
  have neq: "i \<noteq> ?s2" "?e1 \<noteq> ?e2" "?e1 \<noteq> ?s2" "i \<noteq> ?e2"
    using n0 by linarith+
  define t1 where "t1 = put_msa s ?e1 ((msa s ?e1)\<lparr>mf_olkty := MF_OLKTY_INIT, md_odlink := OdNull\<rparr>)"
  define t2 where "t2 = put_msa t1 ?s2 ((msa t1 ?s2)\<lparr>mf_olkty := MF_OLKTY_INIT, md_odlink := OdNull\<rparr>)"
  define t3 where "t3 = put_msa t2 i ((msa t2 i)\<lparr>mf_olkty := MF_OLKTY_ODER, md_odlink := OdMsa ?e2\<rparr>)"
  define t4 where "t4 = put_msa t3 ?e2 ((msa t3 ?e2)\<lparr>mf_olkty := MF_OLKTY_BAFH, md_odlink := OdBafh ?r\<rparr>)"
  note td = t1_def t2_def t3_def t4_def
  have np: "npages t1 = npages s" "npages t2 = npages s" "npages t3 = npages s" "npages t4 = npages s"
    by (simp_all add: td)
  have c1: "core_inv t1 (insert (i, n + n) R)"
    unfolding t1_def by (rule upd_res [OF big(1), of i "n + n"]) (use bnd in simp_all)
  have c2: "core_inv t2 (insert (i, n + n) R)"
    unfolding t2_def by (rule upd_res [OF c1, of i "n + n"]) (use bnd in simp_all)
  have c3: "core_inv t3 (insert (i, n + n) R)"
    unfolding t3_def by (rule upd_res [OF c2, of i "n + n"]) (use bnd in simp_all)
  have c4: "core_inv t4 (insert (i, n + n) R)"
    unfolding t4_def by (rule upd_res [OF c3, of i "n + n"]) (use bnd in simp_all)
  have run: "mm_clear_2msaolflg s ?r i ?e1 ?s2 ?e2 = Inr (True, t4)"
  proof -
    have u: "updm s ?e1 (\<lambda>m. m\<lparr>mf_olkty := MF_OLKTY_INIT, md_odlink := OdNull\<rparr>) = Inr t1"
      "updm t1 ?s2 (\<lambda>m. m\<lparr>mf_olkty := MF_OLKTY_INIT, md_odlink := OdNull\<rparr>) = Inr t2"
      "updm t2 i (\<lambda>m. m\<lparr>mf_olkty := MF_OLKTY_ODER, md_odlink := OdMsa ?e2\<rparr>) = Inr t3"
      "updm t3 ?e2 (\<lambda>m. m\<lparr>mf_olkty := MF_OLKTY_BAFH, md_odlink := OdBafh ?r\<rparr>) = Inr t4"
      by (simp_all only: updm_put np bnd t1_def [symmetric] t2_def [symmetric] t3_def [symmetric] t4_def [symmetric])
    show ?thesis
      using neq(1,2) by (simp only: mm_clear_2msaolflg_def u andthen_simps if_False simp_thms)
  qed
  have f: "frame {i..<i + (n + n)} s t4"
    unfolding td by (intro frame_msa frame_refl) (use bnd in simp_all)
  have e2: "i + (n + n) - 1 = ?e2" by simp
  have one: "i = ?e1 \<longleftrightarrow> ?s2 = ?e2"
    using n0 by linarith
  have vals: "mf_olkty (msa t4 i) = MF_OLKTY_ODER" "md_odlink (msa t4 i) = OdMsa ?e2"
    "mf_olkty (msa t4 ?e2) = MF_OLKTY_BAFH" "md_odlink (msa t4 ?e2) = OdBafh ?r"
    "i \<noteq> ?e1 \<Longrightarrow> mf_olkty (msa t4 ?e1) = MF_OLKTY_INIT \<and> md_odlink (msa t4 ?e1) = OdNull"
    "?s2 \<noteq> ?e2 \<Longrightarrow> mf_olkty (msa t4 ?s2) = MF_OLKTY_INIT \<and> md_odlink (msa t4 ?s2) = OdNull"
    using bnd neq by (simp_all add: td)
  have links: "links_ok t4 ?r i (n + n)"
    unfolding links_ok_def e2 using vals by simp
  have lw: "list_wf (baf s a (Lie (Suc k))) (Lie (Suc k))"
    by (rule core_invD(2) [OF big(1) a]) (simp add: k)
  have gb: "getb t4 ?r = Inr (baf s a (Lie (Suc k)))"
    using core_invD(1) [OF big(1)] a k by (simp add: getb_baf td)
  have "page_span i ?e2 = of_nat (n + n)"
    using span_block [of "n + n" i] n0 unfolding e2 by simp
  then have sp: "page_span i ?e2 = af_oderpnr (baf s a (Lie (Suc k)))"
    using lw n by (simp add: list_wf_def)
  have chk: "chek_cl2molkflg t4 ?r i ?e1 ?s2 ?e2 = Inr True"
  proof (rule chek_cl2molkflg_ok [OF neq(1,2) _ _ _ _ gb sp vals(1-4)])
    assume "i \<noteq> ?e1 \<or> ?s2 \<noteq> ?e2"
    with one have "i \<noteq> ?e1" "?s2 \<noteq> ?e2"
      by blast+
    then show "mf_olkty (msa t4 ?e1) = MF_OLKTY_INIT \<and> md_odlink (msa t4 ?e1) = OdNull \<and>
      mf_olkty (msa t4 ?s2) = MF_OLKTY_INIT \<and> md_odlink (msa t4 ?s2) = OdNull"
      using vals(5,6) by blast
  qed (simp_all only: np bnd)
  have same: "mf_uindx (msa t4 j) = mf_uindx (msa s j)" "paf_alloc (msa t4 j) = paf_alloc (msa s j)" for j
  proof -
    have "mf_uindx (msa t1 j) = mf_uindx (msa s j)" "paf_alloc (msa t1 j) = paf_alloc (msa s j)"
      "mf_uindx (msa t2 j) = mf_uindx (msa t1 j)" "paf_alloc (msa t2 j) = paf_alloc (msa t1 j)"
      "mf_uindx (msa t3 j) = mf_uindx (msa t2 j)" "paf_alloc (msa t3 j) = paf_alloc (msa t2 j)"
      "mf_uindx (msa t4 j) = mf_uindx (msa t3 j)" "paf_alloc (msa t4 j) = paf_alloc (msa t3 j)"
      using bnd np by (simp add: t1_def, simp add: t1_def, simp add: t2_def, simp add: t2_def,
        simp add: t3_def, simp add: t3_def, simp add: t4_def, simp add: t4_def)
    then show "mf_uindx (msa t4 j) = mf_uindx (msa s j)" "paf_alloc (msa t4 j) = paf_alloc (msa s j)"
      by simp_all
  qed
  have inner: "mf_olkty (msa t4 j) = MF_OLKTY_INIT" if j: "i < j" "j + 1 < i + (n + n)" for j
  proof -
    consider "j = ?e1" | "j = ?s2" | "j \<noteq> ?e1" "j \<noteq> ?s2"
      by blast
    then show ?thesis
    proof cases
      case 1
      with j(1) have "i \<noteq> ?e1" by simp
      from vals(5) [OF this] 1 show ?thesis by simp
    next
      case 2
      with j(2) have "?s2 \<noteq> ?e2" by simp
      from vals(6) [OF this] 2 show ?thesis by simp
    next
      case 3
      have "j \<noteq> i" "j \<noteq> ?e2"
        using j by linarith+
      with 3 have same': "msa t4 j = msa s j"
        unfolding t4_def by (simp only: msa_put_msa np bnd if_False)
          (simp only: t3_def t2_def t1_def msa_put_msa put_msa_other bnd if_False)
      have "(i < j \<and> j + 1 < i + n) \<or> (i + n < j \<and> j + 1 < i + n + n)"
        using 3 j by linarith
      then have "mf_olkty (msa s j) = MF_OLKTY_INIT"
        using idle unfolding pages_idle_def by auto
      then show ?thesis
        unfolding same' .
    qed
  qed
  have "pages_idle t4 i (n + n)"
    unfolding pages_idle_def same
  proof (intro allI impI conjI)
    fix j assume "i \<le> j \<and> j < i + (n + n)"
    then have "(i \<le> j \<and> j < i + n) \<or> (i + n \<le> j \<and> j < i + n + n)"
      by linarith
    with idle show "mf_uindx (msa s j) = 0" "\<not> paf_alloc (msa s j)"
      unfolding pages_idle_def by blast+
  next
    fix j assume "i < j \<and> j + 1 < i + (n + n)"
    then show "mf_olkty (msa t4 j) = MF_OLKTY_INIT"
      using inner by blast
  qed
  then have "held t4 R a i (n + n)"
    unfolding held_def frame_pages_ty [OF f]
    using c4 big(2) a pages_ty_join [OF ty fo] by (simp add: td)
  moreover have "free_pages t4 = free_pages s" "\<forall>a sel. frelst t4 a sel = frelst s a sel"
    by (simp_all add: td)
  ultimately show ?thesis
    using run chk links f by blast
qed

lemma find_cmsa2blk_none:
  assumes h: "held s R a x (2 ^ k)" and l: "links_ok s (a, Lie k) x (2 ^ k)"
    and k: "k < MDIVMER_ARR_LMAX" and sz: "npages s \<le> 2 ^ 52"
    and no: "find (neighbour s (2 ^ k) x) (frelst s a (Lie k)) = None"
  shows "mm_find_cmsa2blk s a k x (x + 2 ^ k - 1) = Inr ((1, x, x + 2 ^ k - 1), s)"
proof -
  note H = heldD [OF h]
  have sel: "selok (Lie k)" using k by simp
  have bx: "blk_ok s (a, Lie k) x (2 ^ k)"
    using H l by (simp add: blk_ok_def)
  have bt: "t \<noteq> x \<and> blk_ok s (a, Lie k) t (2 ^ k)" if "t \<in> set (frelst s a (Lie k))" for t
  proof -
    have fr: "(a, Lie k, t) \<in> freeset s" using that H(3) sel by simp
    have "disj (x, 2 ^ k) (span (a, Lie k, t))"
      by (rule core_invD(7) [OF H(1) _ fr]) simp
    then have "t \<noteq> x" by (auto simp: disj_def)
    moreover have "free_ok s a (Lie k) t"
      by (rule core_invD(3) [OF H(1) fr])
    ultimately show ?thesis
      by (simp add: free_ok_def blk_ok_def)
  qed
  have small: "(2::nat) ^ k < 2 ^ 64"
    using k by (intro power_strict_increasing) (simp_all add: MDIVMER_ARR_LMAX_def)
  note run = find_cmsa2blk_eq [OF bx bt small, of "frelst s a (Lie k)" 0]
  show ?thesis
    using run no getb_baf [OF H(4,3) sel] frelst_oderpnr(1) [OF H(1,3) k]
      counter_facts(1) [OF H(1,3) sel sz]
    by (simp add: mm_find_cmsa2blk_def del: of_nat_power)
qed

lemma find_cmsa2blk_some:
  assumes h: "held s R a x (2 ^ k)" and l: "links_ok s (a, Lie k) x (2 ^ k)"
    and k: "Suc k < MDIVMER_ARR_LMAX" and sz: "npages s \<le> 2 ^ 52"
    and some: "find (neighbour s (2 ^ k) x) (frelst s a (Lie k)) = Some t"
  shows "\<exists>lo s'. mm_find_cmsa2blk s a k x (x + 2 ^ k - 1) = Inr ((2, lo, lo + 2 ^ Suc k - 1), s') \<and>
           lo = min x t \<and> {lo..<lo + 2 ^ Suc k} = {x..<x + 2 ^ k} \<union> {t..<t + 2 ^ k} \<and>
           {t..<t + 2 ^ k} \<subseteq> free_pages s a \<and>
           held s' R a lo (2 ^ Suc k) \<and> links_ok s' (a, Lie (Suc k)) lo (2 ^ Suc k) \<and>
           frame {lo..<lo + 2 ^ Suc k} s s' \<and>
           free_pages s' = (free_pages s)(a := free_pages s a - {t..<t + 2 ^ k}) \<and>
           (\<forall>a' sel. frelst s' a' sel =
             (if a' = a \<and> sel = Lie k then remove1 t (frelst s a sel) else frelst s a' sel))"
proof -
  note H = heldD [OF h]
  let ?n = "2 ^ k :: nat" and ?L = "frelst s a (Lie k)"
  have k': "k < MDIVMER_ARR_LMAX" using k by simp
  have sel: "selok (Lie k)" using k by simp
  have nb: "t \<in> set ?L" "neighbour s ?n x t"
    using some unfolding find_Some_iff by auto
  have n0: "0 < ?n" by simp
  have bx: "blk_ok s (a, Lie k) x ?n"
    using H l by (simp add: blk_ok_def)
  have frt: "(a, Lie k, t') \<in> freeset s" if "t' \<in> set ?L" for t'
    using that H(3) sel by simp
  have bt: "t' \<noteq> x \<and> blk_ok s (a, Lie k) t' ?n" if "t' \<in> set ?L" for t'
  proof -
    have "disj (x, ?n) (span (a, Lie k, t'))"
      by (rule core_invD(7) [OF H(1) _ frt [OF that]]) simp
    then have "t' \<noteq> x" by (auto simp: disj_def)
    moreover have "free_ok s a (Lie k) t'"
      by (rule core_invD(3) [OF H(1) frt [OF that]])
    ultimately show ?thesis
      by (simp add: free_ok_def blk_ok_def)
  qed
  have small: "?n < 2 ^ 64"
    using k by (intro power_strict_increasing) (simp_all add: MDIVMER_ARR_LMAX_def)
  have run: "find_cmsa2blk_loop s (a, Lie k) (of_nat ?n) x (x + ?n - 1) 0 ?L =
      Inr (case find (neighbour s ?n x) ?L of
                  Some t \<Rightarrow> (if follows s ?n x t then 2 else 4, Some t)
                | None \<Rightarrow> (if ?L = [] then 0 else 1, None))"
    by (rule find_cmsa2blk_eq [OF bx bt small])
  have T: "t \<noteq> x" "pages_ty s a t ?n" "pages_idle s t ?n"
    using bt [OF nb(1)] by (simp_all add: blk_ok_def)
  let ?b = "(baf s a (Lie k))\<lparr>af_frelst := remove1 t ?L,
    af_fobjnr := af_fobjnr (baf s a (Lie k)) - 1, af_mobjnr := af_mobjnr (baf s a (Lie k)) - 1\<rparr>"
  let ?s1 = "put_bafh s (a, Lie k) ?b"
  have take: "core_inv ?s1 (insert (t, ?n) (insert (x, ?n) R))" "(t, ?n) \<notin> insert (x, ?n) R"
    using take_free [OF H(1) frt [OF nb(1)], of ?b] by simp_all
  have fp1: "free_pages ?s1 = (free_pages s)(a := free_pages s a - {t..<t + ?n})"
    by (rule ext) (simp add: free_pages_take [OF H(1) frt [OF nb(1)]])
  have fl1: "\<forall>a' sel'. frelst ?s1 a' sel' =
      (if a' = a \<and> sel' = Lie k then remove1 t ?L else frelst s a' sel')"
    using H(3,4) sel by simp
  have upd: "updb s (a, Lie k) (\<lambda>b. b\<lparr>af_frelst := remove1 t (af_frelst b),
      af_fobjnr := af_fobjnr b - 1, af_mobjnr := af_mobjnr b - 1\<rparr>) = Inr ?s1"
    using H(3,4) sel by (simp add: updb_put)
  have f1: "frame {} s ?s1"
    by (rule frame_put_bafh [OF H(3)])
  have same: "pages_ty ?s1 a i m = pages_ty s a i m" "pages_idle ?s1 i m = pages_idle s i m"
    "follows ?s1 m i j = follows s m i j" for i j m
    using frame_pages_ty [OF f1] by (simp_all add: pages_idle_def follows_def)
  have te: "t + unat (of_nat ?n - 1 :: u64) = t + ?n - 1"
  proof -
    have "unat (of_nat ?n - 1 :: u64) = ?n - 1"
      using unat_minus_nat [of 1 "of_nat ?n"] u64_of_nat [OF small] by (simp del: of_nat_power)
    then show ?thesis
      using n0 by linarith
  qed
  have b: "getb s (a, Lie k) = Inr (baf s a (Lie k))" "af_oderpnr (baf s a (Lie k)) = of_nat ?n"
    using getb_baf [OF H(4,3) sel] frelst_oderpnr(1) [OF H(1,3) k'] by simp_all
  have ne: "\<not> af_fobjnr (baf s a (Lie k)) < 1"
    using counter_facts(1) [OF H(1,3) sel sz] nb(1) by auto
  have dbl: "2 ^ Suc k = ?n + ?n" by simp
  have pair: "\<exists>s2. mm_clear_2msaolflg ?s1 (a, Lie (Suc k)) lo (lo + ?n - 1) (lo + ?n) (lo + ?n + ?n - 1) = Inr (True, s2) \<and>
      chek_cl2molkflg s2 (a, Lie (Suc k)) lo (lo + ?n - 1) (lo + ?n) (lo + ?n + ?n - 1) = Inr True \<and>
      held s2 R a lo (2 ^ Suc k) \<and> links_ok s2 (a, Lie (Suc k)) lo (2 ^ Suc k) \<and>
      frame {lo..<lo + 2 ^ Suc k} s s2 \<and>
      free_pages s2 = (free_pages s)(a := free_pages s a - {t..<t + ?n}) \<and>
      (\<forall>a' sel. frelst s2 a' sel =
        (if a' = a \<and> sel = Lie k then remove1 t (frelst s a sel) else frelst s a' sel))"
    if fo: "follows s ?n lo (lo + ?n)" and lt: "lo = x \<and> lo + ?n = t \<or> lo = t \<and> lo + ?n = x" for lo
  proof -
    have c: "core_inv ?s1 (insert (lo, ?n) (insert (lo + ?n, ?n) R))"
      "(lo, ?n) \<notin> R" "(lo + ?n, ?n) \<notin> R"
      using take lt H(2) by (auto simp: insert_commute)
    have v: "a < nareas ?s1" "pages_ty ?s1 a lo ?n" "pages_ty ?s1 a (lo + ?n) ?n"
      "pages_idle ?s1 lo ?n" "pages_idle ?s1 (lo + ?n) ?n" "follows ?s1 ?n lo (lo + ?n)"
      unfolding same using lt H(3,5,6) T fo by auto
    from join_pair [OF c refl v(1) k v(2-6)] obtain s2 where s2:
      "mm_clear_2msaolflg ?s1 (a, Lie (Suc k)) lo (lo + ?n - 1) (lo + ?n) (lo + ?n + ?n - 1) = Inr (True, s2)"
      "chek_cl2molkflg s2 (a, Lie (Suc k)) lo (lo + ?n - 1) (lo + ?n) (lo + ?n + ?n - 1) = Inr True"
      "held s2 R a lo (?n + ?n)" "links_ok s2 (a, Lie (Suc k)) lo (?n + ?n)"
      "frame {lo..<lo + (?n + ?n)} ?s1 s2" "free_pages s2 = free_pages ?s1"
      "\<forall>a sel. frelst s2 a sel = frelst ?s1 a sel"
      by blast
    have "frame {lo..<lo + (?n + ?n)} s s2"
      by (rule frame_trans [OF frame_mono [OF f1] s2(5)]) simp
    with s2 fp1 fl1 show ?thesis
      unfolding dbl by auto
  qed
  have sub: "{t..<t + ?n} \<subseteq> free_pages s a"
    using free_pages_block [OF frt [OF nb(1)]] by simp
  show ?thesis
  proof (cases "follows s ?n x t")
    case True
    then have t: "t = x + ?n" by (simp add: follows_def)
    obtain s2 where s2: "mm_clear_2msaolflg ?s1 (a, Lie (Suc k)) x (x + ?n - 1) t (t + ?n - 1) = Inr (True, s2)"
      "chek_cl2molkflg s2 (a, Lie (Suc k)) x (x + ?n - 1) t (t + ?n - 1) = Inr True"
      and r: "held s2 R a x (2 ^ Suc k)" "links_ok s2 (a, Lie (Suc k)) x (2 ^ Suc k)"
      "frame {x..<x + 2 ^ Suc k} s s2"
      "free_pages s2 = (free_pages s)(a := free_pages s a - {t..<t + ?n})"
      "\<forall>a' sel. frelst s2 a' sel =
        (if a' = a \<and> sel = Lie k then remove1 t (frelst s a sel) else frelst s a' sel)"
      using pair [of x] True t by blast
    have e: "t + ?n - 1 = x + 2 ^ Suc k - 1"
      unfolding dbl t by simp
    have "mm_find_cmsa2blk s a k x (x + ?n - 1) = Inr ((2, x, x + 2 ^ Suc k - 1), s2)"
      unfolding mm_find_cmsa2blk_def b(1) andthen_simps b(2) run some option.case prod.case e [symmetric]
      using ne True s2 upd te by (simp add: Let_def del: of_nat_power)
    moreover have "{x..<x + 2 ^ Suc k} = {x..<x + ?n} \<union> {t..<t + ?n}"
      unfolding dbl t by auto
    moreover have "x = min x t" using t by simp
    ultimately show ?thesis
      using r sub by blast
  next
    case False
    with nb(2) have fo: "follows s ?n t x" by (simp add: neighbour_def)
    then have x: "x = t + ?n" by (simp add: follows_def)
    obtain s2 where s2: "mm_clear_2msaolflg ?s1 (a, Lie (Suc k)) t (t + ?n - 1) x (x + ?n - 1) = Inr (True, s2)"
      "chek_cl2molkflg s2 (a, Lie (Suc k)) t (t + ?n - 1) x (x + ?n - 1) = Inr True"
      and r: "held s2 R a t (2 ^ Suc k)" "links_ok s2 (a, Lie (Suc k)) t (2 ^ Suc k)"
      "frame {t..<t + 2 ^ Suc k} s s2"
      "free_pages s2 = (free_pages s)(a := free_pages s a - {t..<t + ?n})"
      "\<forall>a' sel. frelst s2 a' sel =
        (if a' = a \<and> sel = Lie k then remove1 t (frelst s a sel) else frelst s a' sel)"
      using pair [of t] fo x by blast
    have e: "x + ?n - 1 = t + 2 ^ Suc k - 1"
      unfolding dbl x by simp
    have "mm_find_cmsa2blk s a k x (x + ?n - 1) = Inr ((2, t, t + 2 ^ Suc k - 1), s2)"
      unfolding mm_find_cmsa2blk_def b(1) andthen_simps b(2) run some option.case prod.case e [symmetric]
      using ne False s2 upd te by (simp add: Let_def del: of_nat_power)
    moreover have "{t..<t + 2 ^ Suc k} = {x..<x + ?n} \<union> {t..<t + ?n}"
      unfolding dbl x by auto
    moreover have "t = min x t" using x by simp
    ultimately show ?thesis
      using r sub by blast
  qed
qed

text \<open>
  Merging from order \<open>k\<close> up to at most order \<open>m\<close>: the held block grows over free blocks
  only, and it stops below \<open>m\<close> when no block of its order is its neighbour.
\<close>

lemma merpages_loop:
  assumes "held s R a x (2 ^ k)" "links_ok s (a, Lie k) x (2 ^ k)" "k \<le> m" "m < MDIVMER_ARR_LMAX"
    "npages s \<le> 2 ^ 52"
  shows "\<exists>j lo s'. mm_merpages_loop s a x (x + 2 ^ k - 1) m [k..<m] = Inr ((j, lo, lo + 2 ^ j - 1), s') \<and>
           k \<le> j \<and> j \<le> m \<and> held s' R a lo (2 ^ j) \<and>
           {x..<x + 2 ^ k} \<subseteq> {lo..<lo + 2 ^ j} \<and>
           {lo..<lo + 2 ^ j} \<subseteq> {x..<x + 2 ^ k} \<union> free_pages s a \<and>
           frame {lo..<lo + 2 ^ j} s s' \<and>
           free_pages s' = (free_pages s)(a := free_pages s a - {lo..<lo + 2 ^ j}) \<and>
           (\<forall>a' sel. set (frelst s' a' sel) \<subseteq> set (frelst s a' sel)) \<and>
           (j < m \<longrightarrow> find (neighbour s' (2 ^ j) lo) (frelst s' a (Lie j)) = None)"
  using assms
proof (induction "m - k" arbitrary: s x k)
  case 0
  then have km: "k = m" by simp
  have "free_pages s a - {x..<x + 2 ^ k} = free_pages s a"
    using free_pages_reserved [OF heldD(1) [OF 0(2)], of x "2 ^ k" a] by auto
  then have "free_pages s = (free_pages s)(a := free_pages s a - {x..<x + 2 ^ k})"
    by simp
  then show ?case
    using 0(2) km by (intro exI [of _ k] exI [of _ x] exI [of _ s]) simp
next
  case (Suc d)
  note h = Suc.prems(1) and l = Suc.prems(2)
  have km: "k < m" using Suc(2) by simp
  then have k: "k < MDIVMER_ARR_LMAX" and k1: "Suc k < MDIVMER_ARR_LMAX" and up: "[k..<m] = k # [Suc k..<m]"
    using Suc.prems(4) by (simp_all add: upt_conv_Cons)
  have out: "free_pages s a \<inter> {x..<x + 2 ^ k} = {}"
    using free_pages_reserved [OF heldD(1) [OF h], of x "2 ^ k" a] by simp
  show ?case
  proof (cases "find (neighbour s (2 ^ k) x) (frelst s a (Lie k))")
    case None
    have "mm_merpages_loop s a x (x + 2 ^ k - 1) m [k..<m] = Inr ((k, x, x + 2 ^ k - 1), s)"
      unfolding up mm_merpages_loop.simps find_cmsa2blk_none [OF h l k Suc.prems(5) None] by simp
    moreover have "free_pages s = (free_pages s)(a := free_pages s a - {x..<x + 2 ^ k})"
      using out by (simp add: Diff_triv)
    ultimately show ?thesis
      using h km None by (intro exI [of _ k] exI [of _ x] exI [of _ s]) simp
  next
    case (Some t)
    from find_cmsa2blk_some [OF h l k1 Suc.prems(5) Some] obtain y s1 where s1:
      "mm_find_cmsa2blk s a k x (x + 2 ^ k - 1) = Inr ((2, y, y + 2 ^ Suc k - 1), s1)"
      "{y..<y + 2 ^ Suc k} = {x..<x + 2 ^ k} \<union> {t..<t + 2 ^ k}" "{t..<t + 2 ^ k} \<subseteq> free_pages s a"
      "held s1 R a y (2 ^ Suc k)" "links_ok s1 (a, Lie (Suc k)) y (2 ^ Suc k)"
      "frame {y..<y + 2 ^ Suc k} s s1"
      "free_pages s1 = (free_pages s)(a := free_pages s a - {t..<t + 2 ^ k})"
      "\<forall>a' sel. frelst s1 a' sel =
             (if a' = a \<and> sel = Lie k then remove1 t (frelst s a sel) else frelst s a' sel)"
      by blast
    have np: "npages s1 \<le> 2 ^ 52"
      using s1(6) Suc.prems(5) by (simp add: frame_def)
    have d: "d = m - Suc k" "Suc k \<le> m"
      using Suc(2) km by simp_all
    from Suc(1) [OF d(1) s1(4,5) d(2) Suc.prems(4) np] obtain j lo s2 where s2:
      "mm_merpages_loop s1 a y (y + 2 ^ Suc k - 1) m [Suc k..<m] = Inr ((j, lo, lo + 2 ^ j - 1), s2)"
      "Suc k \<le> j" "j \<le> m" "held s2 R a lo (2 ^ j)"
      "{y..<y + 2 ^ Suc k} \<subseteq> {lo..<lo + 2 ^ j}"
      "{lo..<lo + 2 ^ j} \<subseteq> {y..<y + 2 ^ Suc k} \<union> free_pages s1 a"
      "frame {lo..<lo + 2 ^ j} s1 s2"
      "free_pages s2 = (free_pages s1)(a := free_pages s1 a - {lo..<lo + 2 ^ j})"
      "\<forall>a' sel. set (frelst s2 a' sel) \<subseteq> set (frelst s1 a' sel)"
      "j < m \<longrightarrow> find (neighbour s2 (2 ^ j) lo) (frelst s2 a (Lie j)) = None"
      by blast
    have "mm_merpages_loop s a x (x + 2 ^ k - 1) m [k..<m] = Inr ((j, lo, lo + 2 ^ j - 1), s2)"
      unfolding up mm_merpages_loop.simps s1(1) using s2(1) by simp
    moreover have "{x..<x + 2 ^ k} \<subseteq> {lo..<lo + 2 ^ j}"
      using s1(2) s2(5) by blast
    moreover have "free_pages s1 a \<subseteq> free_pages s a"
      using s1(7) by auto
    then have "{lo..<lo + 2 ^ j} \<subseteq> {x..<x + 2 ^ k} \<union> free_pages s a"
      using s2(6) s1(2,3) by blast
    moreover have "frame {lo..<lo + 2 ^ j} s s2"
      by (rule frame_trans [OF frame_mono [OF s1(6) s2(5)] s2(7)])
    moreover have "{t..<t + 2 ^ k} \<subseteq> {lo..<lo + 2 ^ j}"
      using s1(2) s2(5) by blast
    then have "(free_pages s a - {t..<t + 2 ^ k}) - {lo..<lo + 2 ^ j} = free_pages s a - {lo..<lo + 2 ^ j}"
      by blast
    then have "free_pages s2 = (free_pages s)(a := free_pages s a - {lo..<lo + 2 ^ j})"
      using s2(8) s1(7) by simp
    moreover have "set (frelst s2 a' sel) \<subseteq> set (frelst s a' sel)" for a' sel
    proof -
      have "set (frelst s1 a' sel) \<subseteq> set (frelst s a' sel)"
        using s1(8) by (auto split: if_splits dest: subsetD [OF set_remove1_subset])
      with s2(9) show ?thesis by blast
    qed
    ultimately show ?thesis
      using s2(2-4,10) by (intro exI [of _ j] exI [of _ lo] exI [of _ s2]) simp
  qed
qed

text \<open>An allocated block becomes free.\<close>

lemma alloc_pages_remove:
  assumes "core_inv s (span ` A)" "inj_on span A" "(a, sel, i) \<in> A"
  shows "alloc_pages (A - {(a, sel, i)}) a' =
           (if a' = a then alloc_pages A a - {i..<i + selsz sel} else alloc_pages A a')"
proof -
  have ins: "A = insert (a, sel, i) (A - {(a, sel, i)})"
    using assms(3) by blast
  have "alloc_pages (A - {(a, sel, i)}) a \<inter> {i..<i + selsz sel} = {}"
  proof -
    have "p \<notin> {i..<i + selsz sel}" if "p \<in> alloc_pages (A - {(a, sel, i)}) a" for p
      using that
    proof (rule alloc_pagesE)
      fix sel' j assume x: "(a, sel', j) \<in> A - {(a, sel, i)}" "j \<le> p" "p < j + selsz sel'"
      have "(j, selsz sel') \<in> span ` A" "(i, selsz sel) \<in> span ` A"
        using x(1) assms(3) by force+
      moreover have "span (a, sel', j) \<noteq> span (a, sel, i)"
        using inj_onD [OF assms(2)] x(1) assms(3) by blast
      ultimately have "disj (j, selsz sel') (i, selsz sel)"
        using core_invD(6) [OF assms(1)] by simp
      with x(2,3) show ?thesis
        by (auto simp: disj_def)
    qed
    then show ?thesis by blast
  qed
  then show ?thesis
    using alloc_pages_insert [of a sel i "A - {(a, sel, i)}" a'] ins by auto
qed

lemma sel_area_mono: "sel_area s B \<Longrightarrow> C \<subseteq> B \<Longrightarrow> sel_area s C"
  unfolding sel_area_def by blast

lemma mem_inv_give:
  assumes inv: "mem_inv s A" and mem: "(a, sel, i) \<in> A"
    and core: "core_inv s' (span ` (A - {(a, sel, i)}))"
    and f: "frame P s s'" "P \<subseteq> {i..<i + selsz sel} \<union> free_pages s a"
    and fp: "free_pages s' = (free_pages s)(a := free_pages s a \<union> {i..<i + selsz sel})"
    and sa: "sel_area s' (freeset s')"
  shows "mem_inv (acct s' a (of_nat (selsz sel)) 1) (A - {(a, sel, i)})"
proof -
  note D = mem_invD [OF inv]
  let ?B = "A - {(a, sel, i)}" and ?n = "selsz sel" and ?blk = "{i..<i + selsz sel}"
  have f': "npages s' = npages s" "nareas s' = nareas s"
    "\<And>a. ma_type (area s' a) = ma_type (area s a)" "\<And>a. ma_maxpages (area s' a) = ma_maxpages (area s a)"
    "\<And>a. ma_freepages (area s' a) = ma_freepages (area s a)"
    "\<And>a. ma_allocpages (area s' a) = ma_allocpages (area s a)"
    using f(1) by (simp_all add: frame_def)
  have a: "a < nareas s" and a': "a < nareas s'"
    using D(5) [OF mem] f' by simp_all
  note V = acct_views [OF a'] and O = acct_other [OF a']
  have others: "alloc_ok s' b j (selsz sl)" if "(b, sl, j) \<in> ?B" for b sl j
  proof -
    have r: "(j, selsz sl) \<in> span ` A" "(i, ?n) \<in> span ` A"
      using that mem by force+
    have "span (b, sl, j) \<noteq> span (a, sel, i)"
      using inj_onD [OF D(2)] that mem by blast
    then have "disj (j, selsz sl) (i, ?n)"
      using core_invD(6) [OF D(1) r] by simp
    then have "{j..<j + selsz sl} \<inter> ?blk = {}"
      by (auto simp: disj_def)
    then have "{j..<j + selsz sl} \<inter> P = {}"
      using free_pages_reserved [OF D(1) r(1), of a] f(2) by blast
    then show ?thesis
      using D(5) [of b sl j] that alloc_ok_frame [OF f(1)] by simp
  qed
  have sub: "?blk \<subseteq> alloc_pages A a"
    using alloc_pages_insert [of a sel i A a] insert_absorb [OF mem] by auto
  have dj: "free_pages s a \<inter> ?blk = {}"
    using alloc_free_disjoint [OF D(1), of a a] sub by blast
  note fin = finite_free_pages [OF D(1)] finite_alloc_pages [OF D(1)]
  have acc: "accounts (acct s' a (of_nat ?n) 1) ?B"
    unfolding accounts_def V O
  proof (intro allI impI)
    fix b assume b: "b < nareas s'"
    have acb: "unat (ma_freepages (area s b)) = card (free_pages s b)"
      "unat (ma_allocpages (area s b)) = card (alloc_pages A b)"
      "unat (ma_maxpages (area s b)) = card (free_pages s b) + card (alloc_pages A b)"
      using D(7) b f' by (simp_all add: accounts_def)
    have le: "?n \<le> card (alloc_pages A a)"
      using card_mono [OF fin(2) sub] by simp
    have c1: "card (alloc_pages A a - ?blk) = card (alloc_pages A a) - ?n"
      using card_Diff_subset [OF _ sub] by simp
    have c2: "card (free_pages s a \<union> ?blk) = card (free_pages s a) + ?n"
      using card_Un_disjoint [OF fin(1) _ dj] by simp
    note rm = alloc_pages_remove [OF D(1,2) mem]
    show "unat (ma_freepages (area (acct s' a (of_nat ?n) 1) b)) = card (free_pages s' b) \<and>
        unat (ma_allocpages (area (acct s' a (of_nat ?n) 1) b)) = card (alloc_pages ?B b) \<and>
        unat (ma_maxpages (area s' b)) = card (free_pages s' b) + card (alloc_pages ?B b)"
    proof (cases "b = a")
      case True
      have "unat (ma_freepages (area s a)) + ?n < 2 ^ 64"
        using acb le u64_bound [of "ma_maxpages (area s a)"] True by simp
      moreover have "?n \<le> unat (ma_allocpages (area s a))"
        using acb le True by simp
      ultimately show ?thesis
        using True a' acb le c1 c2 f'
        by (simp add: acct_def fp rm unat_minus_nat unat_plus_nat)
    next
      case False
      then show ?thesis
        using acb a' f' by (simp add: acct_def fp rm)
    qed
  qed
  have inj: "inj_on span ?B"
    by (rule inj_on_subset [OF D(2)]) blast
  have saA: "sel_area s' (freeset s' \<union> ?B)"
    unfolding sel_area_simps
    using sel_area_mono [OF D(6), of ?B] sa sel_area_frame [OF f(1), of ?B] by blast
  have "\<forall>(b, sl, j) \<in> ?B. b < nareas s' \<and> selok sl \<and> alloc_ok s' b j (selsz sl)"
    using others D(5) f'(2) by auto
  then show ?thesis
    unfolding mem_inv_def V O
    using core inj D(3) f'(1) acc saA by simp
qed

section \<open>A block is returned\<close>

lemma ucast_marty:
  assumes "(x :: u64) < 8"
  shows "(ucast (ucast x :: 3 word) :: u64) = x"
proof -
  have x: "unat x < 2 ^ 3"
    using assms by (simp add: word_less_nat_alt)
  have "unat (ucast (ucast x :: 3 word) :: u64) = unat x"
    unfolding unsigned_ucast_eq
    using x by (simp add: unsigned_take_bit_eq take_bit_nat_eq_self)
  then show ?thesis
    by (simp only: word_unat_eq_iff)
qed

lemma free_lookup:
  assumes inv: "mem_inv s A" and mem: "(a, sel, i) \<in> A"
  shows "mm_merge_pages s (Some i) (of_nat (selsz sel)) = mm_merpages_onmarea s a i (of_nat (selsz sel))"
proof -
  note D = mem_invD [OF inv]
  let ?n = "selsz sel" and ?e = "i + selsz sel - 1"
  have a: "a < nareas s" and sel: "selok sel" and ok: "alloc_ok s a i ?n"
    using D(5) [OF mem] by simp_all
  note O = ok [unfolded alloc_ok_def]
  have bnd: "i < npages s" "?e < npages s"
    using O selsz_pos [of sel] by linarith+
  have nz: "\<not> (of_nat ?n :: u64) < 1"
    using cnt_less_1 [of ?n] selsz_bound [OF sel] by simp
  have sp: "page_span i ?e = of_nat ?n"
    by (rule span_block) simp
  have ty8: "ma_type (area s a) < 8"
    using D(4) a by (simp add: areas_wf_def)
  have j: "0 < ?n" "?n - 1 < ?n" "i + (?n - 1) = ?e" "i + 0 = i"
    using selsz_pos [of sel] by linarith+
  have pt: "\<forall>j < ?n. mf_marty (msa s (i + j)) = ucast (ma_type (area s a))"
    using O by (simp add: pages_ty_def)
  have marty: "mf_marty (msa s i) = ucast (ma_type (area s a))"
    "mf_marty (msa s ?e) = ucast (ma_type (area s a))"
    using pt [rule_format, OF j(1)] pt [rule_format, OF j(2)] unfolding j(3,4) by blast+
  have fa: "find_area s (ucast (mf_marty (msa s i))) = Some a"
    unfolding marty ucast_marty [OF ty8] by (rule find_area_eq [OF D(4) a])
  have "onfrmsa_retn_marea s i (of_nat ?n) = Inr (Some a)"
    using O bnd sp fa marty by (simp add: onfrmsa_retn_marea_def getm_msa)
  moreover have "scan_freemsa_isok s i (of_nat ?n) = Inr True"
    using O bnd sp nz by (simp add: scan_freemsa_isok_def getm_msa)
  ultimately show ?thesis
    using nz by (simp add: mm_merge_pages_def mm_merpages_fmwk_def mm_merpages_core_def)
qed

lemma sel_area_give:
  assumes old: "sel_area s (freeset s)" and f: "frame P s s'"
    and sub: "\<forall>a' sel'. set (frelst s' a' sel') \<subseteq>
      set (frelst s a' sel') \<union> (if a' = a \<and> sel' = sel then {i} else {})"
    and ty: "sel = Onem \<longleftrightarrow> ma_type (area s a) = MA_TYPE_PROC"
  shows "sel_area s' (freeset s')"
proof -
  have "freeset s' \<subseteq> insert (a, sel, i) (freeset s)"
    using sub f by (auto simp: freeset_def frame_def split: if_splits)
  moreover have "sel_area s (insert (a, sel, i) (freeset s))"
    using old ty by simp
  ultimately show ?thesis
    unfolding sel_area_frame [OF f] by (rule sel_area_mono [rotated])
qed

lemma span_remove:
  assumes "inj_on span A" "(a, sel, i) \<in> A"
  shows "span ` A = insert (i, selsz sel) (span ` (A - {(a, sel, i)}))"
    and "(i, selsz sel) \<notin> span ` (A - {(a, sel, i)})"
proof -
  show "span ` A = insert (i, selsz sel) (span ` (A - {(a, sel, i)}))"
    using image_insert [of span "(a, sel, i)" "A - {(a, sel, i)}"] insert_Diff [OF assms(2)]
    by (simp only: span.simps)
  show "(i, selsz sel) \<notin> span ` (A - {(a, sel, i)})"
  proof
    assume "(i, selsz sel) \<in> span ` (A - {(a, sel, i)})"
    then obtain x where x: "x \<in> A" "x \<noteq> (a, sel, i)" "span (a, sel, i) = span x"
      by auto
    from inj_onD [OF assms(1) x(3) assms(2) x(1)] x(2) show False by simp
  qed
qed

lemma merge_pages_proc:
  assumes inv: "mem_inv s A" and mem: "(a, Onem, i) \<in> A"
  shows "\<exists>s'. mm_merge_pages s (Some i) 1 = Inr (True, s') \<and>
           mem_inv s' (A - {(a, Onem, i)}) \<and>
           free_pages s' = (free_pages s)(a := insert i (free_pages s a))"
proof -
  note D = mem_invD [OF inv]
  have a: "a < nareas s" and ok: "alloc_ok s a i (selsz Onem)"
    using D(5) [OF mem] by simp_all
  have ty: "ma_type (area s a) = MA_TYPE_PROC"
    using sel_areaD [OF D(6), of a Onem i] mem by simp
  let ?R = "span ` (A - {(a, Onem, i)})"
  note R = span_remove [OF D(2) mem]
  obtain s1 where s1: "mm_merpages_opmsadsc s (a, Onem) i 1 = Inr (2, s1)"
    "held s1 ?R a i (selsz Onem)" "frame {i..<i + selsz Onem} s s1" "free_pages s1 = free_pages s"
    "\<forall>a sel. frelst s1 a sel = frelst s a sel"
    using merpages_opmsadsc_block [OF D(1) [unfolded R(1)] R(2) a _ ok] by auto
  have np: "npages s1 \<le> 2 ^ 52"
    using s1(3) D(3) by (simp add: frame_def)
  obtain s2 where s2: "mpobf_add_msadsc s1 (a, Onem) i i = Inr (True, s2)"
    "core_inv s2 ?R" "frame {i..<i + selsz Onem} s1 s2"
    "free_pages s2 = (free_pages s1)(a := free_pages s1 a \<union> {i..<i + selsz Onem})"
    "\<forall>a' sel'. frelst s2 a' sel' =
       (if a' = a \<and> sel' = Onem then i # frelst s1 a Onem else frelst s1 a' sel')"
    using mpobf_add_block [OF s1(2) _ np] by auto
  have f: "frame {i..<i + selsz Onem} s s2"
    by (rule frame_trans [OF s1(3) s2(3)])
  have a2: "a < nareas s2"
    using f a by (simp add: frame_def)
  have sa: "sel_area s2 (freeset s2)"
    by (rule sel_area_give [OF _ f, of a Onem i]) (use D(6) ty s2(5) s1(5) in simp_all)
  have "mem_inv (acct s2 a (of_nat (selsz Onem)) 1) (A - {(a, Onem, i)})"
    by (rule mem_inv_give [OF inv mem s2(2) f _ _ sa]) (use s2(4) s1(4) in auto)
  moreover have "mm_merge_pages s (Some i) 1 = Inr (True, acct s2 a 1 1)"
    using free_lookup [OF inv mem] s1(1) s2(1) a ty update_acct [OF a2, of 1 1 True]
    by (simp add: mm_merpages_onmarea_def geta_area)
  moreover have "free_pages (acct s2 a 1 1) = (free_pages s)(a := insert i (free_pages s a))"
    unfolding acct_views(3) [OF a2] using s2(4) s1(4) by auto
  ultimately show ?thesis by simp
qed

lemma onfpgs_block:
  assumes "core_inv s R" "a < nareas s" "npages s \<le> 2 ^ 52" "k < MDIVMER_ARR_LMAX"
  shows "onfpgs_retn_bafhlst (area s a) (of_nat (2 ^ k)) = Inr (Some (k, MDIVMER_ARR_LMAX - 1))"
proof -
  have sel: "selok (Lie k)" using assms(4) by simp
  have u: "unat (of_nat (2 ^ k) :: u64) = 2 ^ k"
    by (rule frelst_oderpnr(2) [OF assms(1,2,4)])
  then have nz: "(of_nat (2 ^ k) :: u64) \<noteq> 0"
    by (metis unat_0 power_not_zero zero_neq_numeral)
  have "retn_divoder (of_nat (2 ^ k)) = int k"
    unfolding retn_divoder_eq [OF nz] u by simp
  moreover have "af_oderpnr (lie (area s a) k) = of_nat (2 ^ k)"
    unfolding lie_baf by (rule frelst_oderpnr(1) [OF assms(1,2,4)])
  ultimately show ?thesis
    using nz assms(4) counter_facts(4,5) [OF assms(1,2) sel assms(3)]
    by (simp add: onfpgs_retn_bafhlst_def Let_def lie_baf del: of_nat_power)
qed

lemma neighbour_paf:
  assumes "frame P s s'"
  shows "neighbour s' n = neighbour s n"
  using assms by (simp add: fun_eq_iff neighbour_def follows_def frame_def)

lemma merge_pages_lie:
  assumes inv: "mem_inv s A" and mem: "(a, Lie k, i) \<in> A"
  shows "\<exists>j lo s'. mm_merge_pages s (Some i) (of_nat (2 ^ k)) = Inr (True, s') \<and>
           mem_inv s' (A - {(a, Lie k, i)}) \<and>
           free_pages s' = (free_pages s)(a := free_pages s a \<union> {i..<i + 2 ^ k}) \<and>
           k \<le> j \<and> j < MDIVMER_ARR_LMAX \<and> lo \<in> set (frelst s' a (Lie j)) \<and>
           {i..<i + 2 ^ k} \<subseteq> {lo..<lo + 2 ^ j} \<and>
           (j < MDIVMER_ARR_LMAX - 1 \<longrightarrow>
             (\<forall>t \<in> set (frelst s' a (Lie j)). \<not> neighbour s' (2 ^ j) lo t))"
proof -
  note D = mem_invD [OF inv]
  have a: "a < nareas s" and ok: "alloc_ok s a i (selsz (Lie k))" and sel: "selok (Lie k)"
    using D(5) [OF mem] by simp_all
  then have k: "k < MDIVMER_ARR_LMAX" by simp
  have ty: "ma_type (area s a) \<noteq> MA_TYPE_PROC"
    using sel_areaD [OF D(6), of a "Lie k" i] mem by simp
  let ?m = "MDIVMER_ARR_LMAX - 1" and ?A = "A - {(a, Lie k, i)}"
  let ?R = "span ` ?A"
  have m: "k \<le> ?m" "?m < MDIVMER_ARR_LMAX"
    using k by simp_all
  note R = span_remove [OF D(2) mem]
  obtain s1 where s1: "mm_merpages_opmsadsc s (a, Lie k) i (of_nat (2 ^ k)) = Inr (2, s1)"
    "held s1 ?R a i (2 ^ k)" "links_ok s1 (a, Lie k) i (2 ^ k)" "frame {i..<i + 2 ^ k} s s1"
    "free_pages s1 = free_pages s" "\<forall>a sel. frelst s1 a sel = frelst s a sel"
    using merpages_opmsadsc_block [OF D(1) [unfolded R(1)] R(2) a sel ok] by auto
  have np1: "npages s1 \<le> 2 ^ 52"
    using s1(4) D(3) by (simp add: frame_def)
  obtain j lo s2 where s2:
    "mm_merpages_loop s1 a i (i + 2 ^ k - 1) ?m [k..<?m] = Inr ((j, lo, lo + 2 ^ j - 1), s2)"
    "k \<le> j" "j \<le> ?m" "held s2 ?R a lo (2 ^ j)" "{i..<i + 2 ^ k} \<subseteq> {lo..<lo + 2 ^ j}"
    "{lo..<lo + 2 ^ j} \<subseteq> {i..<i + 2 ^ k} \<union> free_pages s1 a"
    "frame {lo..<lo + 2 ^ j} s1 s2"
    "free_pages s2 = (free_pages s1)(a := free_pages s1 a - {lo..<lo + 2 ^ j})"
    "\<forall>a' sel. set (frelst s2 a' sel) \<subseteq> set (frelst s1 a' sel)"
    "j < ?m \<longrightarrow> find (neighbour s2 (2 ^ j) lo) (frelst s2 a (Lie j)) = None"
    using merpages_loop [OF s1(2,3) m np1] by blast
  have j: "j < MDIVMER_ARR_LMAX" and selj: "selok (Lie j)"
    using s2(3) m(2) by simp_all
  have np2: "npages s2 \<le> 2 ^ 52"
    using s2(7) np1 by (simp add: frame_def)
  obtain s3 where s3: "mpobf_add_msadsc s2 (a, Lie j) lo (lo + 2 ^ j - 1) = Inr (True, s3)"
    "core_inv s3 ?R" "frame {lo..<lo + 2 ^ j} s2 s3"
    "free_pages s3 = (free_pages s2)(a := free_pages s2 a \<union> {lo..<lo + 2 ^ j})"
    "\<forall>a' sel'. frelst s3 a' sel' =
       (if a' = a \<and> sel' = Lie j then lo # frelst s2 a (Lie j) else frelst s2 a' sel')"
    using mpobf_add_block [of s2 ?R a lo "Lie j"] s2(4) selj np2 by auto
  have f: "frame {lo..<lo + 2 ^ j} s s3"
    by (rule frame_trans [OF frame_mono [OF s1(4) s2(5)] frame_trans [OF s2(7) s3(3)]])
  have fp: "free_pages s3 = (free_pages s)(a := free_pages s a \<union> {i..<i + 2 ^ k})"
    using s3(4) s2(5,6,8) s1(5) by (auto simp: fun_eq_iff)
  have a3: "a < nareas s3"
    using f a by (simp add: frame_def)
  have sa: "sel_area s3 (freeset s3)"
  proof (rule sel_area_give [OF _ f, of a "Lie j" lo])
    show "\<forall>a' sel'. set (frelst s3 a' sel') \<subseteq>
        set (frelst s a' sel') \<union> (if a' = a \<and> sel' = Lie j then {lo} else {})"
    proof (intro allI)
      fix b sl
      have "set (frelst s2 b sl) \<subseteq> set (frelst s b sl)"
        using s2(9) s1(6) by simp
      then show "set (frelst s3 b sl) \<subseteq>
          set (frelst s b sl) \<union> (if b = a \<and> sl = Lie j then {lo} else {})"
        using s3(5) by auto
    qed
  qed (use D(6) ty in simp_all)
  have "mem_inv (acct s3 a (of_nat (selsz (Lie k))) 1) ?A"
    by (rule mem_inv_give [OF inv mem s3(2) f _ _ sa]) (use fp s2(6) s1(5) in simp_all)
  then have minv: "mem_inv (acct s3 a (of_nat (2 ^ k)) 1) ?A"
    by simp
  have dec: "i + unat (of_nat (2 ^ k) - 1 :: u64) = i + 2 ^ k - 1"
  proof -
    have "unat (of_nat (2 ^ k) :: u64) = 2 ^ k"
      by (rule frelst_oderpnr(2) [OF D(1) a k])
    then have "unat (of_nat (2 ^ k) - 1 :: u64) = 2 ^ k - 1"
      using unat_minus_nat [of 1 "of_nat (2 ^ k)"] by (simp del: of_nat_power)
    then show ?thesis
      by (simp add: add_diff_assoc)
  qed
  have onb: "mm_merpages_onbafhlst s1 a i (of_nat (2 ^ k)) k ?m = Inr (True, s3)"
    unfolding mm_merpages_onbafhlst_def dec s2(1) using s3(1) by simp
  have run: "mm_merge_pages s (Some i) (of_nat (2 ^ k)) = Inr (True, acct s3 a (of_nat (2 ^ k)) 1)"
  proof -
    have nz: "\<not> (of_nat (2 ^ k) :: u64) < 1"
      using cnt_less_1 [of "2 ^ k"] selsz_bound [OF sel] by simp
    show ?thesis
      using free_lookup [OF inv mem] nz s1(1) ty onb update_acct [OF a3, of 1 "of_nat (2 ^ k)" True]
        onfpgs_block [OF D(1) a D(3) k]
      by (simp add: mm_merpages_onmarea_def geta_area [OF a] del: of_nat_power)
  qed
  note V = acct_views [OF a3] and O = acct_other [OF a3]
  have nbr: "neighbour (acct s3 a (of_nat (2 ^ k)) 1) = neighbour s2"
    using neighbour_paf [OF s3(3)] by (simp add: fun_eq_iff neighbour_def follows_def O)
  have fl: "frelst s3 a (Lie j) = lo # frelst s2 a (Lie j)"
    using s3(5) by simp
  have "\<forall>t \<in> set (frelst s3 a (Lie j)). \<not> neighbour s2 (2 ^ j) lo t" if "j < ?m"
  proof -
    have "\<not> neighbour s2 (2 ^ j) lo lo"
      by (simp add: neighbour_def follows_def)
    with s2(10) that show ?thesis
      unfolding fl find_None_iff by auto
  qed
  then show ?thesis
    using run minv fp s2(2,5) j
    by - (rule exI [of _ j], rule exI [of _ lo], rule exI [of _ "acct s3 a (of_nat (2 ^ k)) 1"],
      simp add: V O nbr fl del: of_nat_power)
qed

lemma merge_pages_reject:
  assumes inv: "mem_inv s A" and p: "i \<in> free_pages s a \<union> alloc_pages A a"
    and no: "\<And>sel. (a, sel, i) \<in> A \<Longrightarrow> pg \<noteq> of_nat (selsz sel)"
  shows "mm_merge_pages s (Some i) pg = Inr (False, s)"
proof -
  note D = mem_invD [OF inv]
  have no_head: ?thesis if "mf_olkty (msa s i) \<noteq> MF_OLKTY_ODER" "i < npages s"
    using that by (simp add: mm_merge_pages_def mm_merpages_fmwk_def onfrmsa_retn_marea_def getm_msa)
  from p consider "i \<in> free_pages s a" | "i \<in> alloc_pages A a" by blast
  then show ?thesis
  proof cases
    case 1
    then obtain sel b where b: "(a, sel, b) \<in> freeset s" "b \<le> i" "i < b + selsz sel"
      by (rule free_pagesE)
    have ok: "free_ok s a sel b"
      by (rule core_invD(3) [OF D(1) b(1)])
    then have bnd: "b + selsz sel \<le> npages s" and idle: "pages_idle s b (selsz sel)"
      and l: "links_ok s (a, sel) b (selsz sel)"
      by (simp_all add: free_ok_def)
    have i: "i < npages s" using b(3) bnd by linarith
    have ui: "mf_uindx (msa s i) = 0"
      using idle b(2,3) by (simp add: pages_idle_def)
    show ?thesis
    proof (cases "mf_olkty (msa s i) = MF_OLKTY_ODER")
      case False
      then show ?thesis using i by (rule no_head)
    next
      case True
      have "i = b"
      proof (rule ccontr)
        assume "i \<noteq> b"
        moreover have "i \<noteq> b + selsz sel - 1"
          using True l by (auto simp: links_ok_def)
        ultimately have "b < i" "i + 1 < b + selsz sel"
          using b(2,3) by linarith+
        with idle True show False
          by (simp add: pages_idle_def)
      qed
      moreover have "selsz sel \<noteq> 1"
        using True l \<open>i = b\<close> by (auto simp: links_ok_def)
      ultimately have lk: "md_odlink (msa s i) = OdMsa (b + selsz sel - 1)"
        using l by (simp add: links_ok_def)
      have e: "b + selsz sel - 1 < npages s"
        using bnd selsz_pos [of sel] by linarith
      have "\<not> pg < 1 \<Longrightarrow> scan_freemsa_isok s i pg = Inr False"
        using ui i by (simp add: scan_freemsa_isok_def getm_msa)
      then show ?thesis
        using True lk i e
        by (simp add: mm_merge_pages_def mm_merpages_fmwk_def onfrmsa_retn_marea_def getm_msa
            mm_merpages_core_def split: option.split)
    qed
  next
    case 2
    then obtain sel b where b: "(a, sel, b) \<in> A" "b \<le> i" "i < b + selsz sel"
      by (rule alloc_pagesE)
    have ok: "alloc_ok s a b (selsz sel)"
      using D(5) [OF b(1)] by simp
    note O = ok [unfolded alloc_ok_def]
    have i: "i < npages s" using b(3) O by linarith
    show ?thesis
    proof (cases "i = b")
      case True
      have "page_span i (i + selsz sel - 1) = of_nat (selsz sel)"
        by (rule span_block) simp
      with no [of sel] b(1) O True i show ?thesis
        by (simp add: mm_merge_pages_def mm_merpages_fmwk_def onfrmsa_retn_marea_def getm_msa)
    next
      case False
      have "mf_olkty (msa s i) \<noteq> MF_OLKTY_ODER"
      proof (cases "i = b + selsz sel - 1")
        case True
        with False have "selsz sel \<noteq> 1" by auto
        with O True show ?thesis by simp
      next
        case F: False
        then have "b < i" "i + 1 < b + selsz sel"
          using False b(2,3) by linarith+
        with O show ?thesis by simp
      qed
      then show ?thesis using i by (rule no_head)
    qed
  qed
qed

end
