(* ===== verification/MemSystem.thy ===== *)
theory MemSystem
  imports MemFree
begin

text \<open>
  The allocator as a system: every request and every return of a block ends, in every
  state the kernel can reach, and never with a panic; the blocks handed out never overlap.
  The locale \<open>page_service\<close> is what a client of the allocator relies on.
\<close>

section \<open>Every request returns\<close>

lemma max_fit_None: "max_fit s a = None \<Longrightarrow> k < MDIVMER_ARR_LMAX \<Longrightarrow> frelst s a (Lie k) = []"
  by (auto simp: max_fit_def find_None_iff)

lemma division_pages_max_None:
  assumes inv: "mem_inv s A" and a: "a < nareas s"
    and ty: "ma_type (area s a) = MA_TYPE_KRNL \<or> ma_type (area s a) = MA_TYPE_HWAD"
    and mf: "max_fit s a = None"
  shows "mm_division_pages s pages (ma_type (area s a)) DMF_MAXDIV = Inr ((None, 0), s)"
  using mf onma_retn_maxbafhlst_eq [OF mem_invD(1) [OF inv] a mem_invD(3) [OF inv]] a
  by (subst division_pages_area [OF inv a ty])
    (simp_all add: DMF_RELDIV_def DMF_MAXDIV_def mm_maxdivpages_onmarea_def geta_area)

lemma find_area_Some:
  assumes "find_area s t = Some a"
  shows "a < nareas s" "ma_type (area s a) = t"
  using assms by (auto simp: find_area_def find_Some_iff nareas_def area_def)

lemma division_pages_refused:
  assumes "t = 0 \<or> find_area s t = None \<or> (t \<noteq> MA_TYPE_KRNL \<and> t \<noteq> MA_TYPE_HWAD) \<or>
    (flgs \<noteq> DMF_RELDIV \<and> flgs \<noteq> DMF_MAXDIV)"
  shows "mm_division_pages s pages t flgs = Inr ((None, 0), s)"
proof (cases "find_area s t")
  case None
  then show ?thesis
    by (simp add: mm_division_pages_def mm_divpages_fmwk_def onmrtype_retn_marea_def)
next
  case (Some a)
  with assms find_area_Some [OF Some] show ?thesis
    by (auto simp: mm_division_pages_def mm_divpages_fmwk_def onmrtype_retn_marea_def
        mm_divpages_core_def geta_area)
qed

text \<open>The blocks a request can hand out.\<close>

definition handed :: "memmgrob \<Rightarrow> (nat \<times> bafsel \<times> nat) set \<Rightarrow> nat option \<times> u64 \<Rightarrow> memmgrob \<Rightarrow>
    (nat \<times> bafsel \<times> nat) set \<Rightarrow> bool" where
  "handed s A r s' A' \<longleftrightarrow>
     (case fst r of None \<Rightarrow> snd r = 0 \<and> s' = s \<and> A' = A
      | Some i \<Rightarrow> \<exists>a sel. a < nareas s \<and> selok sel \<and> snd r = of_nat (selsz sel) \<and>
          (sel = Onem \<longleftrightarrow> ma_type (area s a) = MA_TYPE_PROC) \<and>
          (a, sel, i) \<notin> A \<and> A' = insert (a, sel, i) A \<and>
          {i..<i + selsz sel} \<subseteq> free_pages s a \<and>
          free_pages s' = (free_pages s)(a := free_pages s a - {i..<i + selsz sel}))"

lemma free_block_fresh:
  assumes inv: "mem_inv s A" and fr: "(a, sel', i) \<in> freeset s"
  shows "(b, sel, i) \<notin> A"
proof
  assume "(b, sel, i) \<in> A"
  then have "(i, selsz sel) \<in> span ` A" by force
  from core_invD(7) [OF mem_invD(1) [OF inv] this fr] show False
    by (simp add: disj_def)
qed

lemma free_block_prefix:
  assumes "(a, Lie d, i) \<in> freeset s" "r \<le> d"
  shows "{i..<i + 2 ^ r} \<subseteq> free_pages s a"
proof -
  have "(2::nat) ^ r \<le> 2 ^ d"
    using assms(2) by (rule power_increasing) simp
  then have "{i..<i + 2 ^ r} \<subseteq> {i..<i + 2 ^ d}"
    by (intro ivl_subset [THEN iffD2]) linarith
  moreover have "{i..<i + 2 ^ d} \<subseteq> free_pages s a"
    using free_pages_block [OF assms(1)] by simp
  ultimately show ?thesis
    by (rule subset_trans)
qed

lemma division_pages_returns:
  assumes inv: "mem_inv s A"
  shows "\<exists>r s' A'. mm_division_pages s pages t flgs = Inr (r, s') \<and> mem_inv s' A' \<and> handed s A r s' A'"
proof (cases "t = 0 \<or> find_area s t = None \<or> (t \<noteq> MA_TYPE_KRNL \<and> t \<noteq> MA_TYPE_HWAD) \<or>
    (flgs \<noteq> DMF_RELDIV \<and> flgs \<noteq> DMF_MAXDIV)")
  case True
  have "handed s A (None, 0) s A"
    by (simp add: handed_def)
  with division_pages_refused [OF True] inv show ?thesis
    by blast
next
  case False
  then obtain a where "find_area s t = Some a" by blast
  note a = find_area_Some [OF this]
  from False a(2) have ty: "ma_type (area s a) = MA_TYPE_KRNL \<or> ma_type (area s a) = MA_TYPE_HWAD"
    and fl: "flgs = DMF_RELDIV \<or> flgs = DMF_MAXDIV"
    by blast+
  have none: ?thesis if "mm_division_pages s pages t flgs = Inr ((None, 0), s)"
  proof -
    have "handed s A (None, 0) s A"
      by (simp add: handed_def)
    with that inv show ?thesis by blast
  qed
  have some: ?thesis if "mm_division_pages s pages t flgs = Inr ((Some i, of_nat (2 ^ r)), s')"
    "mem_inv s' (insert (a, Lie r, i) A)"
    "free_pages s' = (free_pages s)(a := free_pages s a - {i..<i + 2 ^ r})"
    "(a, Lie d, i) \<in> freeset s" "r \<le> d" for i r d s'
  proof -
    have "r < MDIVMER_ARR_LMAX"
      using that(4,5) by simp
    moreover have "(a, Lie r, i) \<notin> A"
      by (rule free_block_fresh [OF inv that(4)])
    moreover have "{i..<i + 2 ^ r} \<subseteq> free_pages s a"
      by (rule free_block_prefix [OF that(4,5)])
    ultimately have "handed s A (Some i, of_nat (2 ^ r)) s' (insert (a, Lie r, i) A)"
      unfolding handed_def fst_conv snd_conv option.case
      using a(1) that(3) ty
      by (intro exI [of _ a] exI [of _ "Lie r"])
        (auto simp: MA_TYPE_KRNL_def MA_TYPE_HWAD_def MA_TYPE_PROC_def)
    with that(1,2) show ?thesis by blast
  qed
  show ?thesis
  proof (cases "flgs = DMF_MAXDIV")
    case True
    show ?thesis
    proof (cases "max_fit s a")
      case None
      from division_pages_max_None [OF inv a(1) ty None] True a(2) show ?thesis
        by (intro none) simp
    next
      case (Some d)
      from division_pages_max [OF inv a(1) ty Some refl, of pages] obtain s' where
        "mm_division_pages s pages t flgs = Inr ((Some (hd (frelst s a (Lie d))), of_nat (2 ^ d)), s')"
        "mem_inv s' (insert (a, Lie d, hd (frelst s a (Lie d))) A)"
        "free_pages s' = (free_pages s)
           (a := free_pages s a - {hd (frelst s a (Lie d))..<hd (frelst s a (Lie d)) + 2 ^ d})"
        unfolding True a(2) by blast
      moreover have "(a, Lie d, hd (frelst s a (Lie d))) \<in> freeset s"
        using max_fit_Some [OF Some] a(1) by simp
      ultimately show ?thesis
        by (rule some) simp
    qed
  next
    case False
    with fl have fl': "flgs = DMF_RELDIV" by blast
    let ?r = "order_for (unat pages)"
    show ?thesis
    proof (cases "best_fit s a ?r = None \<or> pages = 0")
      case True
      have "mm_division_pages s pages t flgs = Inr ((None, 0), s)"
      proof (cases "pages = 0")
        case True
        then show ?thesis
          unfolding fl' a(2) [symmetric]
          by (subst division_pages_area [OF inv a(1) ty])
            (simp_all add: DMF_RELDIV_def DMF_MAXDIV_def mm_reldivpages_onmarea_def)
      next
        case False
        with True division_pages_None [OF inv a(1) ty] show ?thesis
          unfolding fl' a(2) by simp
      qed
      then show ?thesis by (rule none)
    next
      case False
      then obtain d where bf: "best_fit s a ?r = Some d" and pg: "pages \<noteq> 0" by auto
      from division_pages_Some [OF inv a(1) pg ty refl bf refl] obtain s' where
        "mm_division_pages s pages t flgs = Inr ((Some (hd (frelst s a (Lie d))), of_nat (2 ^ ?r)), s')"
        "mem_inv s' (insert (a, Lie ?r, hd (frelst s a (Lie d))) A)"
        "free_pages s' = (free_pages s)
           (a := free_pages s a - {hd (frelst s a (Lie d))..<hd (frelst s a (Lie d)) + 2 ^ ?r})"
        unfolding fl' a(2) by blast
      moreover have "(a, Lie d, hd (frelst s a (Lie d))) \<in> freeset s" "?r \<le> d"
        using best_fit_Some(1-3) [OF bf] a(1) by simp_all
      ultimately show ?thesis
        by (rule some)
    qed
  qed
qed

text \<open>A page for a process: the process area, and the kernel area when that has none.\<close>

lemma procmarea_core_returns:
  assumes inv: "mem_inv s A"
  shows "\<exists>r s' A'. divpages_procmarea_core s pages = Inr (r, s') \<and> mem_inv s' A' \<and> handed s A r s' A'"
proof -
  have none: ?thesis if "divpages_procmarea_core s pages = Inr ((None, 0), s)"
  proof -
    have "handed s A (None, 0) s A"
      by (simp add: handed_def)
    with that inv show ?thesis by blast
  qed
  show ?thesis
  proof (cases "pages = 1 \<and> retn_procmarea s \<noteq> None")
    case False
    then show ?thesis
      by (intro none) (auto simp: divpages_procmarea_core_def)
  next
    case True
    then obtain a where pg: "pages = 1" and "find_area s MA_TYPE_PROC = Some a"
      by (auto simp: retn_procmarea_def)
    note a = find_area_Some [OF this(2)]
    show ?thesis
    proof (cases "frelst s a Onem")
      case Nil
      from procmarea_none [OF inv a Nil] pg show ?thesis
        by (intro none) simp
    next
      case (Cons i rest)
      from procmarea_page [OF inv a Cons] obtain s' where s':
        "divpages_procmarea_core s 1 = Inr ((Some i, 1), s')"
        "mem_inv s' (insert (a, Onem, i) A)" "free_pages s' = (free_pages s)(a := free_pages s a - {i})"
        by blast
      have fr: "(a, Onem, i) \<in> freeset s"
        using Cons a(1) by simp
      have one: "{i..<i + 1} = {i}" by auto
      have "i \<in> free_pages s a"
        using free_pages_block [OF fr] by (simp add: one)
      then have "handed s A (Some i, 1) s' (insert (a, Onem, i) A)"
        unfolding handed_def fst_conv snd_conv option.case
        using a s'(3) free_block_fresh [OF inv fr]
        by (intro exI [of _ a] exI [of _ Onem]) (simp add: one)
      with s'(1,2) pg show ?thesis by blast
    qed
  qed
qed

lemma divpages_procmarea_returns:
  assumes inv: "mem_inv s A"
  shows "\<exists>r s' A'. mm_divpages_procmarea s pages = Inr (r, s') \<and> mem_inv s' A' \<and> handed s A r s' A'"
proof (cases "pages = 1")
  case False
  have "handed s A (None, 0) s A"
    by (simp add: handed_def)
  with False inv show ?thesis
    by (intro exI [of _ "(None, 0)"] exI [of _ s] exI [of _ A]) (simp add: mm_divpages_procmarea_def)
next
  case True
  from procmarea_core_returns [OF inv, of pages] obtain m n s1 A1 where c:
    "divpages_procmarea_core s pages = Inr ((m, n), s1)" "mem_inv s1 A1" "handed s A (m, n) s1 A1"
    by auto
  show ?thesis
  proof (cases m)
    case (Some i)
    with True c show ?thesis
      by (intro exI [of _ "(m, n)"] exI [of _ s1] exI [of _ A1]) (simp add: mm_divpages_procmarea_def)
  next
    case None
    with c(3) have "s1 = s" by (simp add: handed_def)
    from division_pages_returns [OF inv, of pages MA_TYPE_KRNL DMF_RELDIV] obtain m' n' s2 A2 where d:
      "mm_division_pages s pages MA_TYPE_KRNL DMF_RELDIV = Inr ((m', n'), s2)" "mem_inv s2 A2"
      "handed s A (m', n') s2 A2"
      by auto
    have "mm_divpages_procmarea s pages = Inr ((m', n'), s2)"
      using True None c(1) \<open>s1 = s\<close> d(1,3)
      by (cases m') (simp_all add: mm_divpages_procmarea_def handed_def)
    with d(2,3) show ?thesis by blast
  qed
qed

text \<open>
  Returning a block: the caller names a page that is free or handed out. Pages the manager
  does not own (the kernel's own, holes) carry no mark that would tell them apart.
\<close>

definition given_back :: "memmgrob \<Rightarrow> (nat \<times> bafsel \<times> nat) set \<Rightarrow> nat option \<Rightarrow> u64 \<Rightarrow> bool \<Rightarrow> memmgrob \<Rightarrow>
    (nat \<times> bafsel \<times> nat) set \<Rightarrow> bool" where
  "given_back s A p n ok s' A' \<longleftrightarrow>
     (if ok then \<exists>a sel i. p = Some i \<and> (a, sel, i) \<in> A \<and> n = of_nat (selsz sel) \<and>
          A' = A - {(a, sel, i)} \<and>
          free_pages s' = (free_pages s)(a := free_pages s a \<union> {i..<i + selsz sel})
      else s' = s \<and> A' = A)"

definition owned :: "memmgrob \<Rightarrow> (nat \<times> bafsel \<times> nat) set \<Rightarrow> nat set" where
  "owned s A = {i. \<exists>a. i \<in> free_pages s a \<union> alloc_pages A a}"

lemma merge_pages_block:
  assumes inv: "mem_inv s A" and mem: "(a, sel, i) \<in> A"
  shows "\<exists>s'. mm_merge_pages s (Some i) (of_nat (selsz sel)) = Inr (True, s') \<and>
           mem_inv s' (A - {(a, sel, i)}) \<and>
           free_pages s' = (free_pages s)(a := free_pages s a \<union> {i..<i + selsz sel})"
proof (cases sel)
  case (Lie k)
  from merge_pages_lie [OF inv mem [unfolded Lie]] show ?thesis
    unfolding Lie selsz.simps by blast
next
  case Onem
  have one: "{i..<i + 1} = {i}" by auto
  from merge_pages_proc [OF inv mem [unfolded Onem]] show ?thesis
    unfolding Onem selsz.simps one by simp
qed

lemma merge_pages_returns:
  assumes inv: "mem_inv s A" and own: "\<And>i. p = Some i \<Longrightarrow> i \<in> owned s A"
  shows "\<exists>ok s' A'. mm_merge_pages s p n = Inr (ok, s') \<and> mem_inv s' A' \<and> given_back s A p n ok s' A'"
proof -
  have no: ?thesis if "mm_merge_pages s p n = Inr (False, s)"
  proof -
    have "given_back s A p n False s A"
      by (simp add: given_back_def)
    with that inv show ?thesis by blast
  qed
  show ?thesis
  proof (cases p)
    case None
    then show ?thesis by (intro no) (simp add: mm_merge_pages_def)
  next
    case (Some i)
    from own [OF Some] obtain a where a: "i \<in> free_pages s a \<union> alloc_pages A a"
      by (auto simp: owned_def)
    show ?thesis
    proof (cases "\<exists>sel. (a, sel, i) \<in> A \<and> n = of_nat (selsz sel)")
      case False
      then have "mm_merge_pages s (Some i) n = Inr (False, s)"
        by (intro merge_pages_reject [OF inv a]) blast
      with Some show ?thesis by (intro no) simp
    next
      case True
      then obtain sel where sel: "(a, sel, i) \<in> A" "n = of_nat (selsz sel)" by blast
      from merge_pages_block [OF inv sel(1)] obtain s' where s':
        "mm_merge_pages s p n = Inr (True, s')" "mem_inv s' (A - {(a, sel, i)})"
        "free_pages s' = (free_pages s)(a := free_pages s a \<union> {i..<i + selsz sel})"
        unfolding Some sel(2) by blast
      then have "given_back s A p n True s' (A - {(a, sel, i)})"
        using sel Some unfolding given_back_def by auto
      with s'(1,2) show ?thesis by blast
    qed
  qed
qed

section \<open>Blocks\<close>

type_synonym blocks = "(nat \<times> bafsel \<times> nat) set"

text \<open>Blocks handed out share no page.\<close>

lemma mem_blocks_apart:
  assumes inv: "mem_inv s A" and xy: "(a, sel, i) \<in> A" "(b, sl, j) \<in> A" "(a, sel, i) \<noteq> (b, sl, j)"
  shows "{i..<i + selsz sel} \<inter> {j..<j + selsz sl} = {}"
proof -
  note D = mem_invD [OF inv]
  have "(i, selsz sel) \<in> span ` A" "(j, selsz sl) \<in> span ` A"
    using xy by force+
  moreover have "span (a, sel, i) \<noteq> span (b, sl, j)"
    using inj_onD [OF D(2) _ xy(1,2)] xy(3) by blast
  ultimately have "disj (i, selsz sel) (j, selsz sl)"
    using core_invD(6) [OF D(1)] by simp
  then show ?thesis
    by (auto simp: disj_def)
qed

section \<open>What a client of the allocator relies on\<close>

text \<open>
  A client (the object pools of \<open>kmsob.c\<close>, the page tables of \<open>halmmu.c\<close>) asks for blocks
  and returns them. \<open>fetch\<close> returns the block when there is one, \<open>extent\<close> is the pages of a
  block, \<open>vacant\<close> the pages nobody holds, \<open>sound\<close> the invariant with the blocks held.
\<close>

locale page_service =
  fixes sound :: "'s \<Rightarrow> 'b set \<Rightarrow> bool"
    and extent :: "'b \<Rightarrow> 'e set"
    and vacant :: "'s \<Rightarrow> 'e set"
    and fetch :: "'s \<Rightarrow> 'q \<Rightarrow> ('b option \<times> 's) option"
    and restore :: "'s \<Rightarrow> 'b \<Rightarrow> (bool \<times> 's) option"
  assumes fetch_returns: "sound s B \<Longrightarrow> fetch s q \<noteq> None"
    and fetch_none: "sound s B \<Longrightarrow> fetch s q = Some (None, s') \<Longrightarrow> s' = s"
    and fetch_some: "sound s B \<Longrightarrow> fetch s q = Some (Some b, s') \<Longrightarrow>
      sound s' (insert b B) \<and> b \<notin> B \<and> extent b \<subseteq> vacant s \<and> vacant s' = vacant s - extent b"
    and restore_ok: "sound s B \<Longrightarrow> b \<in> B \<Longrightarrow>
      \<exists>s'. restore s b = Some (True, s') \<and> sound s' (B - {b}) \<and> vacant s' = vacant s \<union> extent b"
    and held_not_vacant: "sound s B \<Longrightarrow> b \<in> B \<Longrightarrow> extent b \<inter> vacant s = {}"
begin

lemma fetch_restore:
  assumes "sound s B" "fetch s q = Some (Some b, s')"
  shows "\<exists>s''. restore s' b = Some (True, s'') \<and> sound s'' B \<and> vacant s'' = vacant s"
proof -
  note f = fetch_some [OF assms]
  then obtain s'' where s'': "restore s' b = Some (True, s'')" "sound s'' (insert b B - {b})"
    "vacant s'' = vacant s' \<union> extent b"
    using restore_ok [of s' "insert b B" b] by auto
  moreover have "insert b B - {b} = B" "vacant s' \<union> extent b = vacant s"
    using f by auto
  ultimately show ?thesis by auto
qed

fun fetch_all :: "'s \<Rightarrow> 'q list \<Rightarrow> ('b list \<times> 's) option" where
  "fetch_all s [] = Some ([], s)"
| "fetch_all s (q # qs) =
     (case fetch s q of None \<Rightarrow> None
      | Some (None, s) \<Rightarrow> fetch_all s qs
      | Some (Some b, s) \<Rightarrow>
          (case fetch_all s qs of None \<Rightarrow> None | Some (bs, s) \<Rightarrow> Some (b # bs, s)))"

fun restore_all :: "'s \<Rightarrow> 'b list \<Rightarrow> (bool \<times> 's) option" where
  "restore_all s [] = Some (True, s)"
| "restore_all s (b # bs) =
     (case restore s b of None \<Rightarrow> None
      | Some (ok, s) \<Rightarrow>
          (case restore_all s bs of None \<Rightarrow> None | Some (oks, s) \<Rightarrow> Some (ok \<and> oks, s)))"

lemma fetch_all_ok:
  assumes "sound s B"
  shows "\<exists>bs s'. fetch_all s qs = Some (bs, s') \<and> sound s' (set bs \<union> B) \<and> distinct bs \<and>
           set bs \<inter> B = {} \<and> vacant s' = vacant s - (\<Union>b \<in> set bs. extent b) \<and>
           (\<Union>b \<in> set bs. extent b) \<subseteq> vacant s"
  using assms
proof (induction qs arbitrary: s B)
  case (Cons q qs)
  from fetch_returns [OF Cons.prems] obtain o1 s1 where f: "fetch s q = Some (o1, s1)"
    by (metis not_None_eq surj_pair)
  show ?case
  proof (cases o1)
    case None
    with fetch_none [OF Cons.prems] f have "s1 = s" by simp
    with Cons.IH [OF Cons.prems] f None show ?thesis by simp
  next
    case (Some b)
    with f have f': "fetch s q = Some (Some b, s1)" by simp
    note g = fetch_some [OF Cons.prems f']
    from g have "sound s1 (insert b B)" by simp
    from Cons.IH [OF this] obtain bs s2 where bs:
      "fetch_all s1 qs = Some (bs, s2)" "sound s2 (set bs \<union> insert b B)" "distinct bs"
      "set bs \<inter> insert b B = {}" "vacant s2 = vacant s1 - (\<Union>b \<in> set bs. extent b)"
      "(\<Union>b \<in> set bs. extent b) \<subseteq> vacant s1"
      by (elim exE conjE) (rule that)
    have "fetch_all s (q # qs) = Some (b # bs, s2)"
      using f' bs(1) by simp
    moreover have "sound s2 (set (b # bs) \<union> B)"
      using bs(2) by simp
    moreover have "distinct (b # bs)" "set (b # bs) \<inter> B = {}"
      using bs(3,4) g by auto
    moreover have "vacant s2 = vacant s - (\<Union>b \<in> set (b # bs). extent b)"
      "(\<Union>b \<in> set (b # bs). extent b) \<subseteq> vacant s"
      using bs(5,6) g by auto
    ultimately show ?thesis by blast
  qed
qed simp

lemma restore_all_ok:
  assumes "sound s B" "distinct bs" "set bs \<subseteq> B"
  shows "\<exists>s'. restore_all s bs = Some (True, s') \<and> sound s' (B - set bs) \<and>
           vacant s' = vacant s \<union> (\<Union>b \<in> set bs. extent b)"
  using assms
proof (induction bs arbitrary: s B)
  case (Cons b bs)
  from restore_ok [OF Cons.prems(1), of b] Cons.prems(3) obtain s1 where r:
    "restore s b = Some (True, s1)" "sound s1 (B - {b})" "vacant s1 = vacant s \<union> extent b"
    by auto
  from Cons.IH [OF r(2)] Cons.prems(2,3) obtain s2 where
    "restore_all s1 bs = Some (True, s2)" "sound s2 (B - {b} - set bs)"
    "vacant s2 = vacant s1 \<union> (\<Union>b \<in> set bs. extent b)"
    by auto
  moreover have "B - {b} - set bs = B - set (b # bs)" by auto
  ultimately show ?case
    using r(1,3) by (auto simp: Un_assoc)
qed simp

text \<open>Whatever a client takes and returns, in any order of return, nothing is lost.\<close>

lemma fetch_all_restore_all:
  assumes "sound s B" "fetch_all s qs = Some (bs, s')" "distinct cs" "set cs = set bs"
  shows "\<exists>s''. restore_all s' cs = Some (True, s'') \<and> sound s'' B \<and> vacant s'' = vacant s"
proof -
  from fetch_all_ok [OF assms(1), of qs] assms(2) have b: "sound s' (set bs \<union> B)"
    "set bs \<inter> B = {}" "vacant s' = vacant s - (\<Union>b \<in> set bs. extent b)"
    "(\<Union>b \<in> set bs. extent b) \<subseteq> vacant s"
    by auto
  from restore_all_ok [OF b(1) assms(3)] assms(4) obtain s'' where
    "restore_all s' cs = Some (True, s'')" "sound s'' (set bs \<union> B - set bs)"
    "vacant s'' = vacant s' \<union> (\<Union>b \<in> set bs. extent b)"
    by auto
  moreover have "set bs \<union> B - set bs = B"
    using b(2) by auto
  moreover have "vacant s' \<union> (\<Union>b \<in> set bs. extent b) = vacant s"
    using b(3,4) by auto
  ultimately show ?thesis by simp
qed

end

section \<open>The allocator provides the service\<close>

text \<open>A block is named by its first page and its size, as the code's callers name it.\<close>

definition page_blocks :: "blocks \<Rightarrow> (nat \<times> nat) set" where
  "page_blocks A = span ` A"

definition page_sound :: "memmgrob \<Rightarrow> (nat \<times> nat) set \<Rightarrow> bool" where
  "page_sound s B \<longleftrightarrow> (\<exists>A. mem_inv s A \<and> B = span ` A)"

definition page_extent :: "nat \<times> nat \<Rightarrow> nat set" where
  "page_extent b = {fst b..<fst b + snd b}"

definition page_vacant :: "memmgrob \<Rightarrow> nat set" where
  "page_vacant s = (\<Union>a. free_pages s a)"

text \<open>A request with its page count, its area type and its flag.\<close>

definition page_fetch :: "memmgrob \<Rightarrow> u64 \<times> u64 \<times> u64 \<Rightarrow> ((nat \<times> nat) option \<times> memmgrob) option" where
  "page_fetch s q =
     (case mm_division_pages s (fst q) (fst (snd q)) (snd (snd q)) of
        Inl e \<Rightarrow> None
      | Inr ((None, n), s') \<Rightarrow> Some (None, s')
      | Inr ((Some i, n), s') \<Rightarrow> Some (Some (i, unat n), s'))"

definition page_restore :: "memmgrob \<Rightarrow> nat \<times> nat \<Rightarrow> (bool \<times> memmgrob) option" where
  "page_restore s b =
     (case mm_merge_pages s (Some (fst b)) (of_nat (snd b)) of Inl e \<Rightarrow> None | Inr r \<Rightarrow> Some r)"

lemma free_pages_apart:
  assumes inv: "core_inv s R" and ne: "b \<noteq> a"
  shows "free_pages s b \<inter> free_pages s a = {}"
proof -
  have "p \<notin> free_pages s a" if p: "p \<in> free_pages s b" for p
  proof
    assume "p \<in> free_pages s a"
    then obtain s1 i where f1: "(a, s1, i) \<in> freeset s" "i \<le> p" "p < i + selsz s1"
      by (rule free_pagesE)
    from p obtain s2 j where f2: "(b, s2, j) \<in> freeset s" "j \<le> p" "p < j + selsz s2"
      by (rule free_pagesE)
    have "(a, s1, i) \<noteq> (b, s2, j)" using ne by simp
    from core_invD(4) [OF inv f1(1) f2(1) this] f1 f2 show False
      by (auto simp: disj_def)
  qed
  then show ?thesis by blast
qed

lemma page_vacant_upd:
  assumes inv: "mem_inv s A" and sub: "B \<subseteq> free_pages s a"
    and fp: "free_pages s' = (free_pages s)(a := free_pages s a - B)"
  shows "page_vacant s' = page_vacant s - B"
proof -
  have dj: "free_pages s b \<inter> B = {}" if "b \<noteq> a" for b
    using free_pages_apart [OF mem_invD(1) [OF inv] that] sub by blast
  have "p \<in> page_vacant s' \<longleftrightarrow> p \<in> page_vacant s - B" for p
  proof
    assume "p \<in> page_vacant s'"
    then obtain b where "p \<in> free_pages s' b"
      unfolding page_vacant_def by blast
    then have "p \<in> (if b = a then free_pages s a - B else free_pages s b)"
      by (simp only: fp fun_upd_apply)
    then show "p \<in> page_vacant s - B"
      using dj by (auto simp: page_vacant_def split: if_splits)
  next
    assume "p \<in> page_vacant s - B"
    then obtain b where "p \<in> free_pages s b" "p \<notin> B"
      by (auto simp: page_vacant_def)
    then have "p \<in> free_pages s' b"
      by (cases "b = a") (simp_all add: fp)
    then show "p \<in> page_vacant s'"
      by (auto simp: page_vacant_def)
  qed
  then show ?thesis by blast
qed

interpretation pg: page_service page_sound page_extent page_vacant page_fetch page_restore
proof
  fix s B q assume "page_sound s B"
  then obtain A where A: "mem_inv s A" "B = span ` A"
    by (auto simp: page_sound_def)
  from division_pages_returns [OF A(1), of "fst q" "fst (snd q)" "snd (snd q)"]
  obtain r s1 A1 where d: "mm_division_pages s (fst q) (fst (snd q)) (snd (snd q)) = Inr (r, s1)"
    "mem_inv s1 A1" "handed s A r s1 A1"
    by blast
  obtain m n where r: "r = (m, n)" by (cases r)
  show "page_fetch s q \<noteq> None"
    unfolding page_fetch_def d r by (cases m) simp_all
  show "s' = s" if "page_fetch s q = Some (None, s')" for s'
    using that d(3) unfolding page_fetch_def d r by (cases m) (simp_all add: handed_def)
  show "page_sound s' (insert b B) \<and> b \<notin> B \<and> page_extent b \<subseteq> page_vacant s \<and>
      page_vacant s' = page_vacant s - page_extent b" if f: "page_fetch s q = Some (Some b, s')" for b s'
  proof -
    from f obtain i where m: "m = Some i" "b = (i, unat n)" "s' = s1"
      unfolding page_fetch_def d r by (cases m) auto
    from d(3) obtain a sel where h: "a < nareas s" "selok sel" "n = of_nat (selsz sel)"
      "A1 = insert (a, sel, i) A" "{i..<i + selsz sel} \<subseteq> free_pages s a"
      "free_pages s1 = (free_pages s)(a := free_pages s a - {i..<i + selsz sel})"
      unfolding r m(1) handed_def by auto
    have "selsz sel < 2 ^ 64"
      by (rule le_less_trans [OF selsz_bound [OF h(2)]]) simp
    then have b: "b = span (a, sel, i)"
      using m(2) h(3) by simp
    have ext: "page_extent b = {i..<i + selsz sel}"
      by (simp add: b page_extent_def)
    have "insert b B = span ` A1"
      by (simp add: A(2) h(4) b)
    then have "page_sound s1 (insert b B)"
      using d(2) by (auto simp: page_sound_def)
    moreover have "b \<notin> B"
    proof
      assume "b \<in> B"
      then have "(i, selsz sel) \<in> span ` A" by (simp add: A(2) b)
      from free_pages_reserved [OF mem_invD(1) [OF A(1)] this, of a] h(5)
      have "{i..<i + selsz sel} = {}" by blast
      then show False by simp
    qed
    moreover have "page_extent b \<subseteq> page_vacant s"
      using h(5) ext by (auto simp: page_vacant_def)
    moreover have "page_vacant s1 = page_vacant s - page_extent b"
      unfolding ext by (rule page_vacant_upd [OF A(1) h(5,6)])
    ultimately show ?thesis
      unfolding m(3) by blast
  qed
next
  fix s B b assume "page_sound s B" "b \<in> B"
  then obtain A x where A: "mem_inv s A" "B = span ` A" "x \<in> A" "b = span x"
    by (auto simp: page_sound_def)
  obtain a sel i where x: "x = (a, sel, i)" by (cases x)
  have b: "b = (i, selsz sel)" using A(4) x by simp
  have ext: "page_extent b = {i..<i + selsz sel}"
    by (simp add: b page_extent_def)
  have mem: "(a, sel, i) \<in> A" using A(3) x by simp
  from merge_pages_block [OF A(1) mem] obtain s' where s':
    "mm_merge_pages s (Some i) (of_nat (selsz sel)) = Inr (True, s')" "mem_inv s' (A - {(a, sel, i)})"
    "free_pages s' = (free_pages s)(a := free_pages s a \<union> {i..<i + selsz sel})"
    by blast
  note R = span_remove [OF mem_invD(2) [OF A(1)] mem]
  have "B - {b} = span ` (A - {(a, sel, i)})"
    unfolding A(2) b R(1) using R(2) by simp
  then have "page_sound s' (B - {b})"
    using s'(2) by (auto simp: page_sound_def)
  moreover have "page_restore s b = Some (True, s')"
    by (simp add: page_restore_def b s'(1))
  moreover have "page_vacant s' = page_vacant s \<union> page_extent b"
    unfolding ext page_vacant_def s'(3) by (auto split: if_splits)
  ultimately show "\<exists>s'. page_restore s b = Some (True, s') \<and> page_sound s' (B - {b}) \<and>
      page_vacant s' = page_vacant s \<union> page_extent b"
    by blast
  have "(i, selsz sel) \<in> span ` A"
    using A(3,4) b by force
  then show "page_extent b \<inter> page_vacant s = {}"
    unfolding ext page_vacant_def
    using free_pages_reserved [OF mem_invD(1) [OF A(1)]] by blast
qed

text \<open>What an area owns does not change.\<close>

lemma handed_pages:
  assumes "mem_inv s A" "handed s A r s' A'"
  shows "free_pages s' a \<union> alloc_pages A' a = free_pages s a \<union> alloc_pages A a"
proof (cases "fst r")
  case (Some i)
  with assms(2) obtain b sel where h: "A' = insert (b, sel, i) A"
    "{i..<i + selsz sel} \<subseteq> free_pages s b"
    "free_pages s' = (free_pages s)(b := free_pages s b - {i..<i + selsz sel})"
    by (auto simp: handed_def)
  then show ?thesis
    by (auto simp: alloc_pages_insert split: if_splits)
qed (use assms in \<open>simp add: handed_def\<close>)

lemma given_back_pages:
  assumes "mem_inv s A" "given_back s A p n ok s' A'"
  shows "free_pages s' a \<union> alloc_pages A' a = free_pages s a \<union> alloc_pages A a"
proof (cases ok)
  case True
  with assms(2) obtain b sel i where h: "(b, sel, i) \<in> A" "A' = A - {(b, sel, i)}"
    "free_pages s' = (free_pages s)(b := free_pages s b \<union> {i..<i + selsz sel})"
    by (auto simp: given_back_def)
  note rm = alloc_pages_remove [OF mem_invD(1,2) [OF assms(1)] h(1), of a]
  have "{i..<i + selsz sel} \<subseteq> alloc_pages A b"
    using alloc_pages_insert [of b sel i A b] insert_absorb [OF h(1)] by auto
  then show ?thesis
    unfolding h(2,3) rm by auto
qed (use assms in \<open>simp add: given_back_def\<close>)

section \<open>Sequences of operations\<close>

datatype mem_op =
    DivOp u64 u64 u64     \<comment> \<open>\<open>mm_division_pages pages mrtype flgs\<close>\<close>
  | ProcOp u64            \<comment> \<open>\<open>mm_divpages_procmarea pages\<close>\<close>
  | MerOp "nat option" u64 \<comment> \<open>\<open>mm_merge_pages freemsa freepgs\<close>\<close>

text \<open>
  What the callers hold, as they know it: the blocks they were given, each with the page number and the page count
  that came back, and that they have not given back. The list is computed from the answers alone.
\<close>

fun took :: "nat option \<Rightarrow> u64 \<Rightarrow> (nat \<times> nat) list \<Rightarrow> (nat \<times> nat) list" where
  "took None n bs = bs"
| "took (Some i) n bs = (i, unat n) # bs"

fun gave :: "nat option \<Rightarrow> u64 \<Rightarrow> (nat \<times> nat) list \<Rightarrow> (nat \<times> nat) list" where
  "gave None n bs = bs"
| "gave (Some i) n bs = remove1 (i, unat n) bs"

fun mem_step :: "mem_op \<Rightarrow> memmgrob \<times> (nat \<times> nat) list \<Rightarrow> (memmgrob \<times> (nat \<times> nat) list) run" where
  "mem_step (DivOp pages mrtype flgs) (s, bs) =
     andthen (mm_division_pages s pages mrtype flgs) (\<lambda>((p, n), s'). Inr (s', took p n bs))"
| "mem_step (ProcOp pages) (s, bs) =
     andthen (mm_divpages_procmarea s pages) (\<lambda>((p, n), s'). Inr (s', took p n bs))"
| "mem_step (MerOp p n) (s, bs) =
     andthen (mm_merge_pages s p n) (\<lambda>(ok, s'). Inr (s', if ok then gave p n bs else bs))"

fun mem_run :: "mem_op list \<Rightarrow> memmgrob \<times> (nat \<times> nat) list \<Rightarrow> (memmgrob \<times> (nat \<times> nat) list) run" where
  "mem_run [] x = Inr x"
| "mem_run (p # ps) x = andthen (mem_step p x) (mem_run ps)"

text \<open>
  The invariant of a run from \<open>s0\<close>: the list names exactly the blocks of the allocator's invariant, each once, and
  every area still has the pages it had.
\<close>

definition run_inv :: "memmgrob \<Rightarrow> memmgrob \<times> (nat \<times> nat) list \<Rightarrow> bool" where
  "run_inv s0 x \<longleftrightarrow> (\<exists>A. mem_inv (fst x) A \<and> set (snd x) = span ` A \<and> distinct (snd x) \<and>
     (\<forall>a. free_pages (fst x) a \<union> alloc_pages A a = free_pages s0 a))"

lemma unat_selsz: "selok sel \<Longrightarrow> unat (of_nat (selsz sel) :: u64) = selsz sel"
  by (rule u64_of_nat, rule le_less_trans [OF selsz_bound]) simp_all

lemma handed_took:
  assumes inv: "mem_inv s A" "mem_inv s' A'" and h: "handed s A (p, n) s' A'"
    and bs: "set bs = span ` A" "distinct bs" and fp: "\<forall>a. free_pages s a \<union> alloc_pages A a = free_pages s0 a"
  shows "run_inv s0 (s', took p n bs)"
proof -
  have "set (took p n bs) = span ` A' \<and> distinct (took p n bs)"
  proof (cases p)
    case None
    with h bs show ?thesis by (simp add: handed_def)
  next
    case (Some i)
    with h obtain a sel where x: "selok sel" "n = of_nat (selsz sel)" "A' = insert (a, sel, i) A"
      "{i..<i + selsz sel} \<subseteq> free_pages s a"
      by (auto simp: handed_def)
    have "(i, selsz sel) \<notin> span ` A"
      using free_pages_reserved [OF mem_invD(1) [OF inv(1)], of i "selsz sel" a] x(4) by fastforce
    then show ?thesis
      using bs Some x(1-3) by (simp add: unat_selsz)
  qed
  with inv(2) fp handed_pages [OF inv(1) h] show ?thesis
    unfolding run_inv_def by auto
qed

lemma given_back_gave:
  assumes inv: "mem_inv s A" "mem_inv s' A'" and g: "given_back s A p n ok s' A'"
    and bs: "set bs = span ` A" "distinct bs" and fp: "\<forall>a. free_pages s a \<union> alloc_pages A a = free_pages s0 a"
  shows "run_inv s0 (s', if ok then gave p n bs else bs)"
proof -
  have "set (if ok then gave p n bs else bs) = span ` A' \<and> distinct (if ok then gave p n bs else bs)"
  proof (cases ok)
    case False
    with g bs show ?thesis by (simp add: given_back_def)
  next
    case True
    with g obtain a sel i where x: "p = Some i" "(a, sel, i) \<in> A" "n = of_nat (selsz sel)" "A' = A - {(a, sel, i)}"
      by (auto simp: given_back_def)
    have "selok sel"
      using mem_invD(5) [OF inv(1) x(2)] by blast
    with span_remove [OF mem_invD(2) [OF inv(1)] x(2)] bs x True show ?thesis
      by (simp add: unat_selsz)
  qed
  with inv(2) fp given_back_pages [OF inv(1) g] show ?thesis
    unfolding run_inv_def by auto
qed

lemma mem_step_ok:
  assumes inv: "run_inv s0 x" and own: "\<forall>i n. op = MerOp (Some i) n \<longrightarrow> i \<in> page_vacant s0"
  shows "\<exists>y. mem_step op x = Inr y \<and> run_inv s0 y"
proof -
  obtain s bs where x: "x = (s, bs)" by (cases x)
  from inv obtain A where A: "mem_inv s A" "set bs = span ` A" "distinct bs"
    "\<forall>a. free_pages s a \<union> alloc_pages A a = free_pages s0 a"
    by (auto simp: run_inv_def x)
  show ?thesis
  proof (cases op)
    case (DivOp pages t flgs)
    from division_pages_returns [OF A(1), of pages t flgs] obtain p n s' A' where
      r: "mm_division_pages s pages t flgs = Inr ((p, n), s')" "mem_inv s' A'" "handed s A (p, n) s' A'"
      by auto
    with handed_took [OF A(1) r(2,3) A(2-4)] show ?thesis by (simp add: x DivOp)
  next
    case (ProcOp pages)
    from divpages_procmarea_returns [OF A(1), of pages] obtain p n s' A' where
      r: "mm_divpages_procmarea s pages = Inr ((p, n), s')" "mem_inv s' A'" "handed s A (p, n) s' A'"
      by auto
    with handed_took [OF A(1) r(2,3) A(2-4)] show ?thesis by (simp add: x ProcOp)
  next
    case (MerOp p n)
    have "i \<in> owned s A" if "p = Some i" for i
      using own that A(4) MerOp by (auto simp: owned_def page_vacant_def)
    from merge_pages_returns [OF A(1) this] obtain ok s' A' where
      r: "mm_merge_pages s p n = Inr (ok, s')" "mem_inv s' A'" "given_back s A p n ok s' A'"
      by blast
    with given_back_gave [OF A(1) r(2,3) A(2-4)] show ?thesis by (simp add: x MerOp)
  qed
qed

lemma mem_run_ok:
  assumes "run_inv s0 x" "\<forall>i n. MerOp (Some i) n \<in> set ops \<longrightarrow> i \<in> page_vacant s0"
  shows "\<exists>y. mem_run ops x = Inr y \<and> run_inv s0 y"
  using assms
proof (induction ops arbitrary: x)
  case (Cons p ps)
  from mem_step_ok [of s0 x p] Cons.prems obtain y where y: "mem_step p x = Inr y" "run_inv s0 y" by auto
  from Cons.prems(2) have "\<forall>i n. MerOp (Some i) n \<in> set ps \<longrightarrow> i \<in> page_vacant s0" by simp
  from Cons.IH [OF y(2) this] y(1) show ?case by simp
qed simp

lemma run_inv_start: "mem_inv s0 {} \<Longrightarrow> run_inv s0 (s0, [])"
  unfolding run_inv_def by (intro exI [of _ "{}"]) (simp add: alloc_pages_def)

text \<open>What the invariant says of the blocks in the list.\<close>

definition held_pages :: "(nat \<times> nat) list \<Rightarrow> nat set" where
  "held_pages bs = (\<Union>b \<in> set bs. page_extent b)"

lemma run_inv_apart:
  assumes "run_inv s0 (s, bs)"
  shows "sorted_wrt (\<lambda>x y. page_extent x \<inter> page_extent y = {}) bs" "held_pages bs \<inter> page_vacant s = {}"
proof -
  from assms obtain A where A: "mem_inv s A" "set bs = span ` A" "distinct bs"
    by (auto simp: run_inv_def)
  have two: "page_extent x \<inter> page_extent y = {}" if "x \<in> set bs" "y \<in> set bs" "x \<noteq> y" for x y
    using that mem_blocks_apart [OF A(1)] unfolding A(2) by (force simp: page_extent_def)
  show "sorted_wrt (\<lambda>x y. page_extent x \<inter> page_extent y = {}) bs"
    unfolding sorted_wrt_iff_nth_less using two A(3)
    by (metis nth_mem nth_eq_iff_index_eq order_less_trans order_less_imp_not_eq)
  show "held_pages bs \<inter> page_vacant s = {}"
    using pg.held_not_vacant [of s "set bs"] A unfolding page_sound_def held_pages_def by blast
qed

lemma run_inv_return:
  assumes "run_inv s0 (s, bs)" "(i, n) \<in> set bs"
  shows "\<exists>s'. mm_merge_pages s (Some i) (of_nat n) = Inr (True, s')"
proof -
  from assms obtain A a sel where "mem_inv s A" "(a, sel, i) \<in> A" "n = selsz sel"
    by (fastforce simp: run_inv_def)
  with merge_pages_block show ?thesis by blast
qed

lemma run_inv_pages:
  assumes start: "mem_inv s0 {}" and inv: "run_inv s0 (s, bs)"
  shows "free_pages s a = free_pages s0 a - held_pages bs" "held_pages bs \<subseteq> page_vacant s0"
    "a < nareas s \<longrightarrow> unat (ma_freepages (area s a)) = card (free_pages s a) \<and>
       unat (ma_allocpages (area s a)) = card (free_pages s0 a \<inter> held_pages bs) \<and>
       unat (ma_maxpages (area s a)) = card (free_pages s0 a)"
proof -
  from inv obtain A where A: "mem_inv s A" "set bs = span ` A" "\<And>a. free_pages s a \<union> alloc_pages A a = free_pages s0 a"
    by (auto simp: run_inv_def)
  note D = mem_invD [OF A(1)]
  have held: "held_pages bs = (\<Union>b. alloc_pages A b)"
    unfolding held_pages_def A(2) by (force simp: alloc_pages_def page_extent_def)
  then show "held_pages bs \<subseteq> page_vacant s0"
    using A(3) by (auto simp: page_vacant_def)
  have other: "alloc_pages A b \<inter> free_pages s0 a = {}" if "b \<noteq> a" for b
    using free_pages_apart [OF mem_invD(1) [OF start] that] A(3) [of b] by blast
  have al: "free_pages s0 a \<inter> held_pages bs = alloc_pages A a"
  proof (intro equalityI subsetI)
    fix p assume "p \<in> free_pages s0 a \<inter> held_pages bs"
    then obtain b where "p \<in> alloc_pages A b" "p \<in> free_pages s0 a"
      unfolding held by blast
    then show "p \<in> alloc_pages A a"
      using other [of b] by (cases "b = a") auto
  next
    fix p assume "p \<in> alloc_pages A a"
    then show "p \<in> free_pages s0 a \<inter> held_pages bs"
      unfolding held using A(3) [of a] by blast
  qed
  have dj: "free_pages s a \<inter> alloc_pages A a = {}"
    using alloc_free_disjoint [OF D(1), of a a] by blast
  then show "free_pages s a = free_pages s0 a - held_pages bs"
    using A(3) [of a] al by blast
  have "card (free_pages s a) + card (alloc_pages A a) = card (free_pages s0 a)"
    using card_Un_disjoint [OF finite_free_pages [OF D(1)] finite_alloc_pages [OF D(1)] dj] A(3) [of a] by simp
  with D(7) show "a < nareas s \<longrightarrow> unat (ma_freepages (area s a)) = card (free_pages s a) \<and>
       unat (ma_allocpages (area s a)) = card (free_pages s0 a \<inter> held_pages bs) \<and>
       unat (ma_maxpages (area s a)) = card (free_pages s0 a)"
    unfolding al accounts_def by simp
qed

end
