(* ===== verification/MemDemo.thy ===== *)
theory MemDemo
  imports MemSystem
begin

text \<open>
  A memory manager small enough to evaluate by hand, which satisfies the invariant; the
  properties of the allocator are applied to it.
\<close>

section \<open>A small machine\<close>

text \<open>
  Six pages: one free block of four pages in the kernel area and two free pages in the
  process area.
\<close>

definition demo_page :: "nat \<Rightarrow> 3 word \<Rightarrow> olkty \<Rightarrow> odlink \<Rightarrow> msadsc" where
  "demo_page p t k l =
     msadsc_t_init\<lparr>mf_olkty := k, mf_marty := t, paf_padrs := of_nat p, md_odlink := l\<rparr>"

definition demo_krnl :: memarea where
  "demo_krnl = area_put_bafh
     (memarea_t_init\<lparr>ma_type := MA_TYPE_KRNL, ma_maxpages := 4, ma_freepages := 4\<rparr>) (Lie 2)
     ((bafhlst_t_init BAFH_STUS_DIVM 2 4)\<lparr>af_frelst := [0], af_fobjnr := 1, af_mobjnr := 1\<rparr>)"

definition demo_proc :: memarea where
  "demo_proc = area_put_bafh
     (memarea_t_init\<lparr>ma_type := MA_TYPE_PROC, ma_maxpages := 2, ma_freepages := 2\<rparr>) Onem
     ((bafhlst_t_init BAFH_STUS_ONEM 0 1)\<lparr>af_frelst := [5, 4], af_fobjnr := 2, af_mobjnr := 2\<rparr>)"

definition demo :: memmgrob where
  "demo = \<lparr>mo_maxpages = 6, mo_freepages = 6, mo_alocpages = 0,
     mo_msadscs =
       [demo_page 1 MF_MARTY_KRL MF_OLKTY_ODER (OdMsa 3),
        demo_page 2 MF_MARTY_KRL MF_OLKTY_INIT OdNull,
        demo_page 3 MF_MARTY_KRL MF_OLKTY_INIT OdNull,
        demo_page 4 MF_MARTY_KRL MF_OLKTY_BAFH (OdBafh (0, Lie 2)),
        demo_page 5 MF_MARTY_PRC MF_OLKTY_BAFH (OdBafh (1, Onem)),
        demo_page 6 MF_MARTY_PRC MF_OLKTY_BAFH (OdBafh (1, Onem))],
     mo_mareas = [demo_krnl, demo_proc]\<rparr>"

lemma demo_sizes: "npages demo = 6" "nareas demo = 2" "area demo 0 = demo_krnl" "area demo (Suc 0) = demo_proc"
  by (simp_all add: demo_def npages_def nareas_def area_def)

lemma demo_types: "ma_type demo_krnl = MA_TYPE_KRNL" "ma_type demo_proc = MA_TYPE_PROC"
  by (simp_all add: demo_krnl_def demo_proc_def del: area_put_bafh.simps)

lemma memarea_init_baf: 
  "selok sel \<Longrightarrow> area_baf (memarea_t_init\<lparr>ma_type := t, ma_maxpages := m, ma_freepages := f\<rparr>) sel =
     (case sel of Lie k \<Rightarrow> bafhlst_t_init BAFH_STUS_DIVM (of_nat k) (push_bit k 1)
      | Onem \<Rightarrow> bafhlst_t_init BAFH_STUS_ONEM 0 1)"
  by (cases sel) (simp_all add: memarea_t_init_def memdivmer_t_init_def lie_def)

lemma memarea_init_length:
  "length (dm_mdmlielst (ma_mdmdata (memarea_t_init\<lparr>ma_type := t, ma_maxpages := m, ma_freepages := f\<rparr>))) =
     MDIVMER_ARR_LMAX"
  by (simp add: memarea_t_init_def memdivmer_t_init_def)

lemma area_baf_put:
  assumes "length (dm_mdmlielst (ma_mdmdata m)) = MDIVMER_ARR_LMAX" "selok sel"
  shows "area_baf (area_put_bafh m sel b) sel' = (if sel' = sel then b else area_baf m sel')"
  using assms by (cases sel; cases sel') (auto simp: lie_def nth_list_update)

lemma push_bit_one: "(push_bit k 1 :: u64) = of_nat (2 ^ k)"
  by (simp add: push_bit_eq_mult)

lemma demo_area_baf:
  "area_baf demo_krnl sel = (if sel = Lie 2
     then (bafhlst_t_init BAFH_STUS_DIVM 2 4)\<lparr>af_frelst := [0], af_fobjnr := 1, af_mobjnr := 1\<rparr>
     else area_baf (memarea_t_init\<lparr>ma_type := MA_TYPE_KRNL, ma_maxpages := 4, ma_freepages := 4\<rparr>) sel)"
  "area_baf demo_proc sel = (if sel = Onem
     then (bafhlst_t_init BAFH_STUS_ONEM 0 1)\<lparr>af_frelst := [5, 4], af_fobjnr := 2, af_mobjnr := 2\<rparr>
     else area_baf (memarea_t_init\<lparr>ma_type := MA_TYPE_PROC, ma_maxpages := 2, ma_freepages := 2\<rparr>) sel)"
  unfolding demo_krnl_def demo_proc_def
  by (rule area_baf_put [OF memarea_init_length]; simp add: MDIVMER_ARR_LMAX_def)+

lemma demo_baf:
  assumes "selok sel"
  shows "baf demo 0 sel = (if sel = Lie 2
      then (bafhlst_t_init BAFH_STUS_DIVM 2 4)\<lparr>af_frelst := [0], af_fobjnr := 1, af_mobjnr := 1\<rparr>
      else (case sel of Lie k \<Rightarrow> bafhlst_t_init BAFH_STUS_DIVM (of_nat k) (of_nat (2 ^ k))
        | Onem \<Rightarrow> bafhlst_t_init BAFH_STUS_ONEM 0 1))"
   "baf demo (Suc 0) sel = (if sel = Onem
      then (bafhlst_t_init BAFH_STUS_ONEM 0 1)\<lparr>af_frelst := [5, 4], af_fobjnr := 2, af_mobjnr := 2\<rparr>
      else (case sel of Lie k \<Rightarrow> bafhlst_t_init BAFH_STUS_DIVM (of_nat k) (of_nat (2 ^ k))
        | Onem \<Rightarrow> bafhlst_t_init BAFH_STUS_ONEM 0 1))"
  unfolding baf_def demo_sizes demo_area_baf memarea_init_baf [OF assms] push_bit_one
  by (rule refl)+

lemma demo_frelst:
  assumes "selok sel"
  shows "frelst demo 0 sel = (if sel = Lie 2 then [0] else [])"
    "frelst demo (Suc 0) sel = (if sel = Onem then [5, 4] else [])"
  using assms by (cases sel; simp add: demo_baf bafhlst_t_init_def)+

lemma less_2: "a < (2::nat) \<longleftrightarrow> a = 0 \<or> a = Suc 0"
  by auto

lemma demo_freeset: "freeset demo = {(0, Lie 2, 0), (1, Onem, 5), (1, Onem, 4)}"
  unfolding freeset_def demo_sizes less_2
  by (auto simp: demo_frelst MDIVMER_ARR_LMAX_def split: if_splits)

lemma less_4: "j < (4::nat) \<longleftrightarrow> j = 0 \<or> j = 1 \<or> j = 2 \<or> j = 3"
  by auto

lemma demo_msa:
  "msa demo 0 = demo_page 1 MF_MARTY_KRL MF_OLKTY_ODER (OdMsa 3)"
  "msa demo (Suc 0) = demo_page 2 MF_MARTY_KRL MF_OLKTY_INIT OdNull"
  "msa demo 2 = demo_page 3 MF_MARTY_KRL MF_OLKTY_INIT OdNull"
  "msa demo 3 = demo_page 4 MF_MARTY_KRL MF_OLKTY_BAFH (OdBafh (0, Lie 2))"
  "msa demo 4 = demo_page 5 MF_MARTY_PRC MF_OLKTY_BAFH (OdBafh (1, Onem))"
  "msa demo 5 = demo_page 6 MF_MARTY_PRC MF_OLKTY_BAFH (OdBafh (1, Onem))"
  by (simp_all add: demo_def msa_def)

lemma single_page: "(5::nat) \<le> j \<and> j < 6 \<longleftrightarrow> j = 5" "(4::nat) \<le> j \<and> j < 5 \<longleftrightarrow> j = 4"
  by auto

lemma demo_free_ok: "free_ok demo 0 (Lie 2) 0" "free_ok demo (Suc 0) Onem 5" "free_ok demo (Suc 0) Onem 4"
  unfolding free_ok_def pages_ty_def pages_idle_def links_ok_def
  by (simp_all add: demo_sizes demo_types demo_msa demo_page_def msadsc_t_init_def less_4
      MF_MARTY_KRL_def MF_MARTY_PRC_def MA_TYPE_KRNL_def MA_TYPE_PROC_def single_page)

lemma demo_lists: "selok sel \<Longrightarrow> a < 2 \<Longrightarrow> list_wf (baf demo a sel) sel"
  unfolding less_2 by (cases sel) (auto simp: demo_baf list_wf_def bafhlst_t_init_def)

lemma demo_wf: "areas_wf demo"
proof -
  have "length (dm_mdmlielst (ma_mdmdata demo_krnl)) = MDIVMER_ARR_LMAX"
    "length (dm_mdmlielst (ma_mdmdata demo_proc)) = MDIVMER_ARR_LMAX"
    unfolding demo_krnl_def demo_proc_def area_put_bafh_fields memarea_init_length by (rule refl)+
  moreover have "map ma_type (mo_mareas demo) = [MA_TYPE_KRNL, MA_TYPE_PROC]"
    by (simp add: demo_def demo_types)
  ultimately show ?thesis
    unfolding areas_wf_def demo_sizes less_2
    by (auto simp: demo_sizes demo_types MA_TYPE_KRNL_def MA_TYPE_PROC_def)
qed

lemma demo_core: "core_inv demo {}"
  unfolding core_inv_def
  using demo_wf demo_lists demo_free_ok by (auto simp: demo_freeset demo_sizes disj_def)

lemma demo_free_pages: "free_pages demo 0 = {0..<4}" "free_pages demo (Suc 0) = {4, 5}"
proof -
  have mem: "p \<in> free_pages demo a \<longleftrightarrow> (\<exists>sel i. (a, sel, i) \<in> {(0, Lie 2, 0), (1, Onem, 5), (1, Onem, 4)} \<and>
      i \<le> p \<and> p < i + selsz sel)" for a p
    unfolding free_pages_def demo_freeset by simp
  show "free_pages demo 0 = {0..<4}" "free_pages demo (Suc 0) = {4, 5}"
    unfolding set_eq_iff mem by (auto simp: conj_disj_distribR ex_disj_distrib)
qed

lemma demo_inv: "mem_inv demo {}"
proof -
  have "sel_area demo (freeset demo)"
    by (simp add: demo_freeset sel_area_def demo_sizes demo_types MA_TYPE_KRNL_def MA_TYPE_PROC_def)
  moreover have "accounts demo {}"
    unfolding accounts_def demo_sizes less_2
    by (auto simp: demo_sizes demo_free_pages alloc_pages_def demo_krnl_def demo_proc_def
        memarea_t_init_def simp del: area_put_bafh.simps)
  ultimately show ?thesis
    unfolding mem_inv_def using demo_core by (simp add: demo_sizes)
qed

end
