(* ===== verification/MemProps.thy ===== *)
theory MemProps
  imports MemDemo
begin

text \<open>
  The properties of the page allocator, each applied to the small machine of MemDemo.
\<close>

section \<open>Requests\<close>

text \<open>C1: A request of \<open>pages\<close> pages in the kernel or hardware area takes the first block of
  the least non-empty list that is large enough, hands out the first \<open>2 ^ r\<close> pages of it for
  the least \<open>r\<close> with \<open>pages \<le> 2 ^ r\<close>, keeps the invariant, and makes exactly those pages
  unavailable; it returns NULL, with nothing changed, only when no list from \<open>r\<close> on has a block.\<close>

theorem request_best_fit:
  assumes "mem_inv s A" "find_area s t = Some a" "t = MA_TYPE_KRNL \<or> t = MA_TYPE_HWAD"
    and "pages \<noteq> 0" "r = order_for (unat pages)"
  shows "case best_fit s a r of
      None \<Rightarrow> mm_division_pages s pages t DMF_RELDIV = Inr ((None, 0), s)
    | Some d \<Rightarrow> (\<exists>i s'. i = hd (frelst s a (Lie d)) \<and>
        mm_division_pages s pages t DMF_RELDIV = Inr ((Some i, of_nat (2 ^ r)), s') \<and>
        mem_inv s' (insert (a, Lie r, i) A) \<and>
        free_pages s' = (free_pages s)(a := free_pages s a - {i..<i + 2 ^ r}))"
proof -
  note a = find_area_Some [OF assms(2)]
  have ty: "ma_type (area s a) = MA_TYPE_KRNL \<or> ma_type (area s a) = MA_TYPE_HWAD"
    using assms(3) a(2) by simp
  show ?thesis
  proof (cases "best_fit s a r")
    case None
    with division_pages_None [OF assms(1) a(1) ty] assms(5) a(2) show ?thesis by simp
  next
    case (Some d)
    with division_pages_Some [OF assms(1) a(1) assms(4) ty assms(5) Some refl] a(2) show ?thesis
      by simp
  qed
qed

lemma demo_find: "find_area demo MA_TYPE_KRNL = Some 0" "find_area demo MA_TYPE_PROC = Some (Suc 0)"
  using find_area_eq [OF demo_wf, of 0] find_area_eq [OF demo_wf, of "Suc 0"]
  by (simp_all add: demo_sizes demo_types)

lemma demo_best_fit: "best_fit demo 0 0 = Some 2" "best_fit demo 0 (Suc 0) = Some 2" "best_fit demo 0 3 = None"
proof -
  have "[0..<MDIVMER_ARR_LMAX] = 0 # 1 # 2 # [3..<52]" "[Suc 0..<MDIVMER_ARR_LMAX] = 1 # 2 # [3..<52]"
    by (simp_all add: MDIVMER_ARR_LMAX_def upt_conv_Cons)
  then show "best_fit demo 0 0 = Some 2" "best_fit demo 0 (Suc 0) = Some 2"
    unfolding best_fit_def by (simp_all add: demo_frelst MDIVMER_ARR_LMAX_def)
  show "best_fit demo 0 3 = None"
    unfolding best_fit_None by (simp add: demo_frelst)
qed

theorem request_best_fit_witness:
  "(\<exists>s'. mm_division_pages demo 2 MA_TYPE_KRNL DMF_RELDIV = Inr ((Some 0, 2), s') \<and>
     mem_inv s' {(0, Lie 1, 0)} \<and> free_pages s' 0 = {2..<4}) \<and>
   mm_division_pages demo 8 MA_TYPE_KRNL DMF_RELDIV = Inr ((None, 0), demo)"
proof
  have o: "order_for 2 = 1" "order_for 8 = 3"
    using order_for_pow2 [of 1] order_for_pow2 [of 3] by simp_all
  have "{0..<4} - {0..<2} = {2..<4::nat}" by auto
  with request_best_fit [OF demo_inv demo_find(1), of 2 1] o demo_best_fit
  show "\<exists>s'. mm_division_pages demo 2 MA_TYPE_KRNL DMF_RELDIV = Inr ((Some 0, 2), s') \<and>
     mem_inv s' {(0, Lie 1, 0)} \<and> free_pages s' 0 = {2..<4}"
    by (auto simp: demo_frelst MDIVMER_ARR_LMAX_def demo_free_pages)
  from request_best_fit [OF demo_inv demo_find(1), of 8 3] o demo_best_fit
  show "mm_division_pages demo 8 MA_TYPE_KRNL DMF_RELDIV = Inr ((None, 0), demo)"
    by simp
qed

text \<open>C2: Returning a block of \<open>2 ^ k\<close> pages succeeds, keeps the invariant, makes exactly its
  pages available again, and leaves them in a free block that has no neighbour of its own
  order on its list (or is of the largest order): freed memory is merged as far as it can be.\<close>

theorem return_merges:
  assumes "mem_inv s A" "(a, Lie k, i) \<in> A"
  shows "\<exists>j lo s'. mm_merge_pages s (Some i) (of_nat (2 ^ k)) = Inr (True, s') \<and>
           mem_inv s' (A - {(a, Lie k, i)}) \<and>
           free_pages s' = (free_pages s)(a := free_pages s a \<union> {i..<i + 2 ^ k}) \<and>
           k \<le> j \<and> j < MDIVMER_ARR_LMAX \<and> lo \<in> set (frelst s' a (Lie j)) \<and>
           {i..<i + 2 ^ k} \<subseteq> {lo..<lo + 2 ^ j} \<and>
           (j < MDIVMER_ARR_LMAX - 1 \<longrightarrow>
             (\<forall>t \<in> set (frelst s' a (Lie j)). \<not> neighbour s' (2 ^ j) lo t))"
  by (rule merge_pages_lie [OF assms])

lemma demo_taken:
  "\<exists>s'. mm_division_pages demo 1 MA_TYPE_KRNL DMF_RELDIV = Inr ((Some 0, 1), s') \<and>
     mem_inv s' {(0, Lie 0, 0)} \<and> free_pages s' 0 = {1..<4}"
proof -
  have o: "order_for (unat (1 :: u64)) = 0"
    using order_for_pow2 [of 0] by simp
  have "ma_type (area demo 0) = MA_TYPE_KRNL \<or> ma_type (area demo 0) = MA_TYPE_HWAD" "0 < nareas demo"
    by (simp_all add: demo_sizes demo_types)
  moreover have "{0..<4} - {0..<1} = {1..<4::nat}" by auto
  ultimately show ?thesis
    using division_pages_Some [OF demo_inv _ _ _ o [symmetric] demo_best_fit(1) refl]
    by (auto simp: demo_frelst MDIVMER_ARR_LMAX_def demo_free_pages demo_sizes demo_types)
qed

theorem return_merges_witness:
  "\<exists>s s'. mm_division_pages demo 1 MA_TYPE_KRNL DMF_RELDIV = Inr ((Some 0, 1), s) \<and>
     mm_merge_pages s (Some 0) 1 = Inr (True, s') \<and> free_pages s' 0 = {0..<4}"
proof -
  obtain s where s: "mm_division_pages demo 1 MA_TYPE_KRNL DMF_RELDIV = Inr ((Some 0, 1), s)"
    "mem_inv s {(0, Lie 0, 0)}" "free_pages s 0 = {1..<4}"
    using demo_taken by blast
  have "{1..<4} \<union> {0..<1} = {0..<4::nat}" by auto
  with s return_merges [OF s(2), of 0 0 0] show ?thesis
    by auto
qed

text \<open>C3: Returning anything but a block as it was handed out changes nothing and fails: a page
  that is free (a block returned twice), a page inside a block, or a wrong page count.\<close>

theorem return_refused:
  assumes "mem_inv s A" "i \<in> free_pages s a \<union> alloc_pages A a"
    and "\<And>sel. (a, sel, i) \<in> A \<Longrightarrow> pg \<noteq> of_nat (selsz sel)"
  shows "mm_merge_pages s (Some i) pg = Inr (False, s)"
  by (rule merge_pages_reject [OF assms])

theorem return_refused_witness:
  "mm_merge_pages demo (Some 0) 4 = Inr (False, demo) \<and> mm_merge_pages demo (Some 2) 1 = Inr (False, demo)"
  using return_refused [OF demo_inv, of 0 0 4] return_refused [OF demo_inv, of 2 0 1]
  by (simp add: demo_free_pages)

text \<open>C4: From a manager whose free lists are in order, no sequence of requests, of any size, area type and flag, and of
  returns stops the kernel, as long as a returned page is one of those the manager had at the start: it need not be the
  first of a block, nor be handed out, and the count can be any. At the end no two of the blocks that were handed out and
  not returned share a page, none has a page that is still free, and each can be returned.\<close>

theorem reachable_safe:
  assumes "mem_inv s0 {}" "\<forall>i n. MerOp (Some i) n \<in> set ops \<longrightarrow> i \<in> page_vacant s0"
  shows "\<exists>s bs. mem_run ops (s0, []) = Inr (s, bs) \<and>
    sorted_wrt (\<lambda>x y. page_extent x \<inter> page_extent y = {}) bs \<and> held_pages bs \<inter> page_vacant s = {} \<and>
    (\<forall>(i, n) \<in> set bs. \<exists>s'. mm_merge_pages s (Some i) (of_nat n) = Inr (True, s'))"
proof -
  from mem_run_ok [OF run_inv_start [OF assms(1)] assms(2)] obtain s bs where
    "mem_run ops (s0, []) = Inr (s, bs)" "run_inv s0 (s, bs)" by auto
  with run_inv_apart [OF this(2)] run_inv_return [OF this(2)] show ?thesis by blast
qed

theorem reachable_safe_witness:
  "\<exists>s bs. mem_run [DivOp 1 MA_TYPE_KRNL DMF_RELDIV, ProcOp 1, DivOp 2 MA_TYPE_KRNL DMF_RELDIV, MerOp (Some 0) 1, MerOp (Some 0) 1,
       DivOp 7 MA_TYPE_KRNL DMF_MAXDIV] (demo, []) = Inr (s, bs) \<and>
     sorted_wrt (\<lambda>x y. page_extent x \<inter> page_extent y = {}) bs \<and> held_pages bs \<inter> page_vacant s = {}"
proof -
  let ?ops = "[DivOp 1 MA_TYPE_KRNL DMF_RELDIV, ProcOp 1, DivOp 2 MA_TYPE_KRNL DMF_RELDIV, MerOp (Some 0) 1, MerOp (Some 0) 1,
       DivOp 7 MA_TYPE_KRNL DMF_MAXDIV]"
  have "0 \<in> page_vacant demo"
    unfolding page_vacant_def by (intro UN_I [of 0]) (simp_all add: demo_free_pages)
  then have "\<forall>i n. MerOp (Some i) n \<in> set ?ops \<longrightarrow> i \<in> page_vacant demo"
    by simp
  from reachable_safe [OF demo_inv this] show ?thesis by blast
qed

text \<open>C5: No page is lost or made up: after every such sequence the free pages of each area are the pages that were free
  at the start less those of the blocks handed out and not returned, and the counters of the area are the sizes of these
  sets.\<close>

theorem pages_conserved:
  assumes "mem_inv s0 {}" "\<forall>i n. MerOp (Some i) n \<in> set ops \<longrightarrow> i \<in> page_vacant s0"
  shows "\<exists>s bs. mem_run ops (s0, []) = Inr (s, bs) \<and> held_pages bs \<subseteq> page_vacant s0 \<and>
    (\<forall>a. free_pages s a = free_pages s0 a - held_pages bs) \<and>
    (\<forall>a < nareas s.
       unat (ma_freepages (area s a)) = card (free_pages s a) \<and>
       unat (ma_allocpages (area s a)) = card (free_pages s0 a \<inter> held_pages bs) \<and>
       unat (ma_maxpages (area s a)) = card (free_pages s0 a))"
proof -
  from mem_run_ok [OF run_inv_start [OF assms(1)] assms(2)] obtain s bs where
    "mem_run ops (s0, []) = Inr (s, bs)" "run_inv s0 (s, bs)" by auto
  with run_inv_pages [OF assms(1) this(2)] show ?thesis by auto
qed

theorem pages_conserved_witness:
  "(\<exists>s. mem_run [DivOp 1 MA_TYPE_KRNL DMF_RELDIV] (demo, []) = Inr (s, [(0, 1)]) \<and> free_pages s 0 = {0..<4} - {0} \<and>
     free_pages s (Suc 0) = {4, 5}) \<and>
   (\<exists>s. mem_run [DivOp 1 MA_TYPE_KRNL DMF_RELDIV, MerOp (Some 0) 1] (demo, []) = Inr (s, []) \<and> free_pages s 0 = {0..<4})"
proof
  obtain s where s: "mm_division_pages demo 1 MA_TYPE_KRNL DMF_RELDIV = Inr ((Some 0, 1), s)" "mem_inv s {(0, Lie 0, 0)}"
    using demo_taken by blast
  obtain s' where s': "mm_merge_pages s (Some 0) 1 = Inr (True, s')"
    using merge_pages_block [OF s(2), of 0 "Lie 0" 0] by auto
  have "0 \<in> page_vacant demo"
    unfolding page_vacant_def by (intro UN_I [of 0]) (simp_all add: demo_free_pages)
  then have own: "\<forall>i n. MerOp (Some i) n \<in> set [DivOp 1 MA_TYPE_KRNL DMF_RELDIV, MerOp (Some 0) 1] \<longrightarrow> i \<in> page_vacant demo"
    "\<forall>i n. MerOp (Some i) n \<in> set [DivOp 1 MA_TYPE_KRNL DMF_RELDIV] \<longrightarrow> i \<in> page_vacant demo"
    by simp_all
  have h: "held_pages [(0, Suc 0)] = {0}" "held_pages [] = {}"
    by (auto simp: held_pages_def page_extent_def)
  have run: "mem_run [DivOp 1 MA_TYPE_KRNL DMF_RELDIV] (demo, []) = Inr (s, [(0, 1)])"
    "mem_run [DivOp 1 MA_TYPE_KRNL DMF_RELDIV, MerOp (Some 0) 1] (demo, []) = Inr (s', [])"
    using s(1) s' by simp_all
  have f: "\<forall>a. free_pages s a = free_pages demo a - {0}" "\<forall>a. free_pages s' a = free_pages demo a"
    using pages_conserved [OF demo_inv own(2)] pages_conserved [OF demo_inv own(1)] unfolding run by (auto simp: h)
  show "\<exists>s. mem_run [DivOp 1 MA_TYPE_KRNL DMF_RELDIV] (demo, []) = Inr (s, [(0, 1)]) \<and> free_pages s 0 = {0..<4} - {0} \<and>
     free_pages s (Suc 0) = {4, 5}"
    using run(1) f(1) by (auto simp: demo_free_pages)
  show "\<exists>s. mem_run [DivOp 1 MA_TYPE_KRNL DMF_RELDIV, MerOp (Some 0) 1] (demo, []) = Inr (s, []) \<and> free_pages s 0 = {0..<4}"
    using run(2) f(2) by (auto simp: demo_free_pages)
qed

text \<open>A request for a page of a process takes the head of the process area's list of
  single pages; when the list is empty it is served by the kernel area.\<close>

theorem proc_page:
  assumes "mem_inv s A" "find_area s MA_TYPE_PROC = Some a"
  shows "case frelst s a Onem of
      i # rest \<Rightarrow> (\<exists>s'. mm_divpages_procmarea s 1 = Inr ((Some i, 1), s') \<and>
        mem_inv s' (insert (a, Onem, i) A) \<and> free_pages s' = (free_pages s)(a := free_pages s a - {i}))
    | [] \<Rightarrow> mm_divpages_procmarea s 1 = mm_division_pages s 1 MA_TYPE_KRNL DMF_RELDIV"
proof -
  note a = find_area_Some [OF assms(2)]
  show ?thesis
  proof (cases "frelst s a Onem")
    case Nil
    from division_pages_returns [OF assms(1), of 1 MA_TYPE_KRNL DMF_RELDIV] obtain m n s' A' where
      d: "mm_division_pages s 1 MA_TYPE_KRNL DMF_RELDIV = Inr ((m, n), s')" "handed s A (m, n) s' A'"
      by auto
    then show ?thesis
      using procmarea_none [OF assms(1) a Nil] Nil
      by (cases m) (simp_all add: mm_divpages_procmarea_def handed_def)
  next
    case (Cons i rest)
    from procmarea_page [OF assms(1) a Cons] Cons show ?thesis
      by (auto simp: mm_divpages_procmarea_def)
  qed
qed

theorem proc_page_witness:
  "\<exists>s'. mm_divpages_procmarea demo 1 = Inr ((Some 5, 1), s') \<and> free_pages s' (Suc 0) = {4}"
proof -
  have "{4, 5} - {5} = {4::nat}" by auto
  with proc_page [OF demo_inv demo_find(2)] show ?thesis
    by (auto simp: demo_frelst demo_free_pages)
qed

text \<open>A request with the flag for the largest block takes the first block of the last
  non-empty list, whatever number of pages it names, and no list beyond has a block.\<close>

theorem request_largest:
  assumes "mem_inv s A" "find_area s t = Some a" "t = MA_TYPE_KRNL \<or> t = MA_TYPE_HWAD"
  shows "case max_fit s a of
      None \<Rightarrow> mm_division_pages s pages t DMF_MAXDIV = Inr ((None, 0), s)
    | Some d \<Rightarrow> (\<exists>i s'. i \<in> set (frelst s a (Lie d)) \<and>
        mm_division_pages s pages t DMF_MAXDIV = Inr ((Some i, of_nat (2 ^ d)), s') \<and>
        mem_inv s' (insert (a, Lie d, i) A) \<and>
        free_pages s' = (free_pages s)(a := free_pages s a - {i..<i + 2 ^ d})) \<and>
        (\<forall>k. d < k \<and> k < MDIVMER_ARR_LMAX \<longrightarrow> frelst s a (Lie k) = [])"
proof -
  note a = find_area_Some [OF assms(2)]
  have ty: "ma_type (area s a) = MA_TYPE_KRNL \<or> ma_type (area s a) = MA_TYPE_HWAD"
    using assms(3) a(2) by simp
  show ?thesis
  proof (cases "max_fit s a")
    case None
    with division_pages_max_None [OF assms(1) a(1) ty None, of pages] a(2) show ?thesis by simp
  next
    case (Some d)
    have "hd (frelst s a (Lie d)) \<in> set (frelst s a (Lie d))"
      using max_fit_Some(2) [OF Some] by simp
    with division_pages_max [OF assms(1) a(1) ty Some refl, of pages] Some a(2) max_fit_max [OF Some]
    show ?thesis by auto
  qed
qed

lemma demo_max_fit: "max_fit demo 0 = Some 2"
proof -
  have "rev [0..<MDIVMER_ARR_LMAX] = rev [3..<52] @ [2, 1, 0]"
  proof -
    have "[0..<MDIVMER_ARR_LMAX] = [0, 1, 2] @ [3..<52]"
      by (simp add: MDIVMER_ARR_LMAX_def upt_conv_Cons)
    then show ?thesis by simp
  qed
  moreover have "find P (xs @ ys) = (case find P xs of None \<Rightarrow> find P ys | Some x \<Rightarrow> Some x)"
    for P :: "nat \<Rightarrow> bool" and xs ys by (induction xs) simp_all
  moreover have "find (\<lambda>k. frelst demo 0 (Lie k) \<noteq> []) (rev [3..<52]) = None"
    unfolding find_None_iff by (auto simp: demo_frelst MDIVMER_ARR_LMAX_def)
  ultimately show ?thesis
    unfolding max_fit_def by (simp add: demo_frelst MDIVMER_ARR_LMAX_def)
qed

theorem request_largest_witness:
  "\<exists>s'. mm_division_pages demo 1 MA_TYPE_KRNL DMF_MAXDIV = Inr ((Some 0, 4), s') \<and> free_pages s' 0 = {}"
proof -
  have "{0..<4} - {0..<4} = {}" by simp
  with request_largest [OF demo_inv demo_find(1), of 1] demo_max_fit show ?thesis
    by (auto simp: demo_frelst MDIVMER_ARR_LMAX_def demo_free_pages)
qed

text \<open>C6: The order the code computes for a request with a bit scan is the least \<open>k\<close> with
  \<open>pages \<le> 2 ^ k\<close>.\<close>

theorem divoder_least:
  assumes "pages \<noteq> 0"
  shows "0 \<le> retn_divoder pages \<and> (\<forall>k. retn_divoder pages \<le> int k \<longleftrightarrow> unat pages \<le> 2 ^ k)"
proof -
  have "0 < unat pages"
    using assms unat_gt_0 by blast
  then show ?thesis
    using order_for_le by (simp add: retn_divoder_eq [OF assms])
qed

theorem divoder_least_witness: "retn_divoder 5 \<le> 3 \<and> \<not> retn_divoder 5 \<le> 2"
  using divoder_least [of 5] spec [OF conjunct2 [OF divoder_least [of 5]], of 3]
    spec [OF conjunct2 [OF divoder_least [of 5]], of 2] by simp

text \<open>C7: A client that takes any number of blocks and returns each of them once, in whatever
  order, leaves the available pages as they were.\<close>

theorem take_and_return:
  assumes "page_sound s B" "pg.fetch_all s qs = Some (bs, s')" "distinct cs" "set cs = set bs"
  shows "\<exists>s''. pg.restore_all s' cs = Some (True, s'') \<and> page_sound s'' B \<and>
    page_vacant s'' = page_vacant s"
  by (rule pg.fetch_all_restore_all [OF assms])

theorem take_and_return_witness:
  "\<exists>bs s' s''. pg.fetch_all demo [(1, MA_TYPE_KRNL, DMF_RELDIV), (2, MA_TYPE_KRNL, DMF_RELDIV)] = Some (bs, s') \<and>
     pg.restore_all s' (rev bs) = Some (True, s'') \<and> page_vacant s'' = page_vacant demo"
proof -
  have so: "page_sound demo {}"
    using demo_inv by (auto simp: page_sound_def)
  obtain bs s' where f: "pg.fetch_all demo [(1, MA_TYPE_KRNL, DMF_RELDIV), (2, MA_TYPE_KRNL, DMF_RELDIV)] =
      Some (bs, s')" "distinct bs"
    using pg.fetch_all_ok [OF so, of "[(1, MA_TYPE_KRNL, DMF_RELDIV), (2, MA_TYPE_KRNL, DMF_RELDIV)]"]
    by (elim exE conjE) (rule that)
  with take_and_return [OF so f(1), of "rev bs"] show ?thesis
    by auto
qed

end
