(* ===== verification/MemFrames.thy ===== *)
theory MemFrames
  imports MemSystem
begin

text \<open>
  What the allocator leaves alone: the frame each descriptor stands for, and the types of the areas. Every allocator
  function is followed through its runs, and the pages an area owns (free or handed out) turn out to be the same after
  every operation, so that what the memory layout guarantees for them holds for ever. At the end, the request for one page and its return.
\<close>

section \<open>The frames the descriptors stand for\<close>

text \<open>\<open>kp P m\<close>: whatever state \<open>m\<close> returns has the frames and types \<open>P\<close>.\<close>

definition frame_nrs :: "memmgrob \<Rightarrow> 52 word list" where
  "frame_nrs s = map paf_padrs (mo_msadscs s)"

definition statics :: "memmgrob \<Rightarrow> 52 word list \<times> u64 list" where
  "statics s = (frame_nrs s, map ma_type (mo_mareas s))"

definition kp :: "52 word list \<times> u64 list \<Rightarrow> ('a \<times> memmgrob) run \<Rightarrow> bool" where
  "kp P m \<longleftrightarrow> (\<forall>x s. m = Inr (x, s) \<longrightarrow> statics s = P)"

definition kq :: "52 word list \<times> u64 list \<Rightarrow> memmgrob run \<Rightarrow> bool" where
  "kq P m \<longleftrightarrow> (\<forall>s. m = Inr s \<longrightarrow> statics s = P)"

named_theorems kp_intros \<open>following the frames through a run\<close>

lemma kp_any:
  fixes m :: "'m run"
  shows "(\<And>x. kp P (f x)) \<Longrightarrow> kp P (andthen m f)"
  by (auto simp: kp_def andthen_eq_Inr)

lemmas kp_reads [kp_intros] = kp_any [where ?'m = nat] kp_any [where ?'m = msadsc] kp_any [where ?'m = bafhlst]
  kp_any [where ?'m = memarea] kp_any [where ?'m = unit] kp_any [where ?'m = bool] kp_any [where ?'m = int]
  kp_any [where ?'m = "nat option"] kp_any [where ?'m = "(nat \<times> nat) option"] kp_any [where ?'m = "int \<times> nat option"]

lemma kp_bind [kp_intros]:
  "kp P m \<Longrightarrow> (\<And>x s. statics s = P \<Longrightarrow> kp P (f (x, s))) \<Longrightarrow> kp P (andthen m f)"
  "kq P n \<Longrightarrow> (\<And>s. statics s = P \<Longrightarrow> kp P (g s)) \<Longrightarrow> kp P (andthen n g)"
  by (auto simp: kp_def kq_def andthen_eq_Inr)

lemma kp_cases [kp_intros]:
  "statics s = P \<Longrightarrow> kp P (Inr (x, s))" "kp P (Inl e)"
  "kp P a \<Longrightarrow> kp P b \<Longrightarrow> kp P (if c then a else b)"
  "kp P a \<Longrightarrow> (\<And>y. kp P (h y)) \<Longrightarrow> kp P (case v of None \<Rightarrow> a | Some y \<Rightarrow> h y)"
  "kp P a \<Longrightarrow> (\<And>y ys. kp P (k y ys)) \<Longrightarrow> kp P (case w of [] \<Rightarrow> a | y # ys \<Rightarrow> k y ys)"
  "(\<And>y z. pr = (y, z) \<Longrightarrow> kp P (l y z)) \<Longrightarrow> kp P (case pr of (y, z) \<Rightarrow> l y z)"
  "(\<And>y z. q = (y, z) \<Longrightarrow> kp P (g y z s)) \<Longrightarrow> kp P ((case q of (y, z) \<Rightarrow> g y z) s)"
  "(\<And>x. kp P (f x)) \<Longrightarrow> kp P (Let y f)"
  by (auto simp: kp_def Let_def split: option.splits list.splits prod.splits)

lemma statics_put [simp]: "statics (mm_update_memmgrob s n f) = statics s"
  by (simp add: statics_def frame_nrs_def mm_update_memmgrob_def)

lemma statics_put_area:
  assumes "ma_type m = ma_type (mo_mareas s ! a)"
  shows "statics (put_area s a m) = statics s"
proof -
  have "map ma_type ((mo_mareas s)[a := m]) = map ma_type (mo_mareas s)"
    using assms by (cases "a < length (mo_mareas s)") (simp_all add: map_update list_update_same_conv list_update_beyond)
  then show ?thesis
    by (simp add: statics_def frame_nrs_def put_area_def)
qed

lemma kq_updm [kp_intros]:
  assumes "statics s = P" "\<And>m. paf_padrs (f m) = paf_padrs m"
  shows "kq P (updm s i f)"
  unfolding kq_def
proof (intro allI impI)
  fix s' assume u: "updm s i f = Inr s'"
  have i: "i < length (mo_msadscs s)" and s': "s' = s\<lparr>mo_msadscs := (mo_msadscs s)[i := f (mo_msadscs s ! i)]\<rparr>"
    using u by (auto simp: updm_def getm_def put_msa_def split: if_splits)
  then have "frame_nrs s' = (frame_nrs s)[i := frame_nrs s ! i]"
    by (simp add: frame_nrs_def map_update assms(2))
  then show "statics s' = P"
    using assms(1) s' by (simp add: statics_def)
qed

lemma kq_updb [kp_intros]: "statics s = P \<Longrightarrow> kq P (updb s r g)"
  by (cases r) (auto simp: kq_def updb_def andthen_eq_Inr put_bafh_def intro!: statics_put_area)

lemma kq_memarea [kp_intros]: "statics s = P \<Longrightarrow> kq P (mm_update_memarea s a n fl)"
  by (auto simp: kq_def mm_update_memarea_def upda_def andthen_eq_Inr geta_def intro!: statics_put_area split: if_splits)

lemma kp_retnmsaob [kp_intros]: "statics s = P \<Longrightarrow> kp P (mm_retnmsaob_onbafhlst s r)"
  unfolding mm_retnmsaob_onbafhlst_def by (intro kp_intros; simp)

lemma kp_divpages_op [kp_intros]: "statics s = P \<Longrightarrow> kp P (mm_divpages_opmsadsc s i n)"
  unfolding mm_divpages_opmsadsc_def by (intro kp_intros; simp)

lemma kp_mrdmb [kp_intros]: "statics s = P \<Longrightarrow> kp P (mrdmb_add_msa_bafh s r i e)"
  unfolding mrdmb_add_msa_bafh_def by (intro kp_intros; simp)

lemma kp_maxdiv [kp_intros]: "statics s = P \<Longrightarrow> kp P (mm_maxdivpages_onmarea s a)"
  unfolding mm_maxdivpages_onmarea_def by (intro kp_intros; simp)

lemma kp_reldpgs [kp_intros]: "statics s = P \<Longrightarrow> kp P (mm_reldpgs_loop s a i n ks)"
  by (induction ks arbitrary: s n) (simp_all, intro kp_intros; simp)+

lemma kp_reldpgsdiv [kp_intros]: "statics s = P \<Longrightarrow> kp P (mm_reldpgsdivmsa_bafhl s a p r d)"
  unfolding mm_reldpgsdivmsa_bafhl_def by (intro kp_intros; simp)

lemma kp_reldiv [kp_intros]: "statics s = P \<Longrightarrow> kp P (mm_reldivpages_onmarea s a p)"
  unfolding mm_reldivpages_onmarea_def by (intro kp_intros; simp)

lemma kp_prcdiv [kp_intros]: "statics s = P \<Longrightarrow> kp P (mm_prcdivpages_onmarea s a p)"
  unfolding mm_prcdivpages_onmarea_def by (intro kp_intros; simp)

lemma kp_div_core [kp_intros]: "statics s = P \<Longrightarrow> kp P (mm_divpages_core s a p fl)"
  unfolding mm_divpages_core_def by (intro kp_intros; simp)

lemma kp_division [kp_intros]: "statics s = P \<Longrightarrow> kp P (mm_division_pages s p t fl)"
  unfolding mm_division_pages_def mm_divpages_fmwk_def by (intro kp_intros; simp)

lemma kp_proc_core [kp_intros]: "statics s = P \<Longrightarrow> kp P (divpages_procmarea_core s p)"
  unfolding divpages_procmarea_core_def by (intro kp_intros; simp)

lemma kp_procmarea [kp_intros]: "statics s = P \<Longrightarrow> kp P (mm_divpages_procmarea s p)"
  unfolding mm_divpages_procmarea_def by (intro kp_intros; simp)

lemma kp_merop [kp_intros]: "statics s = P \<Longrightarrow> kp P (mm_merpages_opmsadsc s r i n)"
  unfolding mm_merpages_opmsadsc_def by (intro kp_intros; simp)

lemma kp_clear2 [kp_intros]: "statics s = P \<Longrightarrow> kp P (mm_clear_2msaolflg s r a b c d)"
  unfolding mm_clear_2msaolflg_def by (intro kp_intros; simp)

lemma kp_find2 [kp_intros]: "statics s = P \<Longrightarrow> kp P (mm_find_cmsa2blk s a k m e)"
  unfolding mm_find_cmsa2blk_def by (intro kp_intros; simp)

lemma kp_mpobf [kp_intros]: "statics s = P \<Longrightarrow> kp P (mpobf_add_msadsc s r m e)"
  unfolding mpobf_add_msadsc_def by (intro kp_intros; simp)

lemma kp_mer_loop [kp_intros]: "statics s = P \<Longrightarrow> kp P (mm_merpages_loop s a m e mer ks)"
  by (induction ks arbitrary: s m e) (simp_all, intro kp_intros; simp)+

lemma kp_mer_onbafh [kp_intros]: "statics s = P \<Longrightarrow> kp P (mm_merpages_onbafhlst s a m n r mer)"
  unfolding mm_merpages_onbafhlst_def by (intro kp_intros; simp)

lemma kp_mer_onarea [kp_intros]: "statics s = P \<Longrightarrow> kp P (mm_merpages_onmarea s a m n)"
  unfolding mm_merpages_onmarea_def by (intro kp_intros; simp)

lemma kp_merge [kp_intros]: "statics s = P \<Longrightarrow> kp P (mm_merge_pages s m n)"
  unfolding mm_merge_pages_def mm_merpages_fmwk_def mm_merpages_core_def by (intro kp_intros; simp)


lemma statics_after:
  "mm_division_pages s p t fl = Inr (x, s') \<Longrightarrow> statics s' = statics s"
  "mm_divpages_procmarea s p = Inr (x, s') \<Longrightarrow> statics s' = statics s"
  "mm_merge_pages s m n = Inr (ok, s') \<Longrightarrow> statics s' = statics s"
  using kp_division [OF refl, of s p t fl] kp_procmarea [OF refl, of s p] kp_merge [OF refl, of s m n]
  by (auto simp: kp_def)


section \<open>Single pages\<close>

text \<open>
  The machine the allocator runs on: the descriptors stand for different pages, every page it owns has an address that
  fits a page table entry and is not 0, and the kernel area lies in the memory that is mapped for the kernel.
\<close>

definition adr_ok :: "52 word \<Rightarrow> bool" where
  "adr_ok p \<longleftrightarrow> 0 < unat p \<and> unat p < 2 ^ 28"

definition area_own :: "memmgrob \<Rightarrow> blocks \<Rightarrow> nat \<Rightarrow> nat set" where
  "area_own s A a = free_pages s a \<union> alloc_pages A a"

definition phys_ok :: "memmgrob \<Rightarrow> blocks \<Rightarrow> bool" where
  "phys_ok s A \<longleftrightarrow> distinct (frame_nrs s) \<and> (\<forall>a. \<forall>i \<in> area_own s A a. adr_ok (paf_padrs (msa s i)) \<and>
     (ma_type (area s a) = MA_TYPE_KRNL \<longrightarrow> unat (paf_padrs (msa s i)) < 2 ^ 22))"

lemma staticsD:
  assumes "statics s' = statics s"
  shows "npages s' = npages s" "nareas s' = nareas s" "i < npages s \<Longrightarrow> paf_padrs (msa s' i) = paf_padrs (msa s i)"
    "a < nareas s \<Longrightarrow> ma_type (area s' a) = ma_type (area s a)"
proof -
  have p: "map paf_padrs (mo_msadscs s') = map paf_padrs (mo_msadscs s)"
    and t: "map ma_type (mo_mareas s') = map ma_type (mo_mareas s)"
    using assms by (simp_all add: statics_def frame_nrs_def)
  show "npages s' = npages s" "nareas s' = nareas s"
    using arg_cong [OF p, of length] arg_cong [OF t, of length] by (simp_all add: npages_def nareas_def)
  then show "i < npages s \<Longrightarrow> paf_padrs (msa s' i) = paf_padrs (msa s i)"
    "a < nareas s \<Longrightarrow> ma_type (area s' a) = ma_type (area s a)"
    using arg_cong [OF p, of "\<lambda>l. l ! i"] arg_cong [OF t, of "\<lambda>l. l ! a"]
    by (simp_all add: npages_def nareas_def msa_def area_def)
qed


lemma pages_in_range:
  assumes "mem_inv s A" "i \<in> free_pages s a \<union> alloc_pages A a"
  shows "i < npages s \<and> a < nareas s"
proof -
  note D = mem_invD [OF assms(1)]
  from assms(2) consider "i \<in> free_pages s a" | sel j where "(a, sel, j) \<in> A" "j \<le> i" "i < j + selsz sel"
    by (auto simp: alloc_pages_def)
  then show ?thesis
  proof cases
    case 1
    with free_pages_bound [OF D(1), of a] show ?thesis
      by (auto elim: free_pagesE)
  next
    case 2
    with D(5) [OF 2(1)] show ?thesis
      by (auto simp: alloc_ok_def)
  qed
qed

lemma phys_ok_same:
  assumes inv: "mem_inv s A" and st: "statics s' = statics s" and u: "\<And>a. area_own s' A' a = area_own s A a" and ok: "phys_ok s A"
  shows "phys_ok s' A'"
proof -
  note S = staticsD [OF st]
  have "adr_ok (paf_padrs (msa s' i)) \<and> (ma_type (area s' a) = MA_TYPE_KRNL \<longrightarrow> unat (paf_padrs (msa s' i)) < 2 ^ 22)"
    if "i \<in> area_own s' A' a" for i a
  proof -
    have i: "i \<in> area_own s A a"
      using that u by simp
    with pages_in_range [OF inv] have "i < npages s" "a < nareas s"
      by (simp_all add: area_own_def)
    with S ok i show ?thesis
      by (auto simp: phys_ok_def)
  qed
  then show ?thesis
    using ok st by (simp add: phys_ok_def statics_def)
qed

lemma free_is_rest:
  assumes "mem_inv s A"
  shows "free_pages s a = area_own s A a - alloc_pages A a"
  using alloc_free_disjoint [OF mem_invD(1) [OF assms], of a a] by (auto simp: area_own_def)

section \<open>A page from the kernel area, and back\<close>

text \<open>A single page handed out from area \<open>a\<close>.\<close>

definition page_held :: "memmgrob \<Rightarrow> blocks \<Rightarrow> nat \<Rightarrow> bool" where
  "page_held s A i \<longleftrightarrow> (\<exists>a sel. (a, sel, i) \<in> A \<and> selsz sel = 1)"

definition page_of :: "memmgrob \<Rightarrow> nat \<Rightarrow> nat \<Rightarrow> nat \<times> bafsel \<times> nat" where
  "page_of s a i = (a, if ma_type (area s a) = MA_TYPE_PROC then Onem else Lie 0, i)"

lemma one_page_sel:
  assumes "selok sel" "selsz sel = 1" "sel = Onem \<longleftrightarrow> ma_type (area s a) = MA_TYPE_PROC"
  shows "(a, sel, i) = page_of s a i"
  using assms by (cases sel) (auto simp: page_of_def)

lemma held_sel:
  assumes "mem_inv s A" "(a, sel, i) \<in> A" "selsz sel = 1"
  shows "(a, sel, i) = page_of s a i"
proof -
  note D = mem_invD [OF assms(1)]
  have "sel = Onem \<longleftrightarrow> ma_type (area s a) = MA_TYPE_PROC"
    using D(6) assms(2) unfolding sel_area_def by fastforce
  with D(5) [OF assms(2)] assms(3) show ?thesis
    by (intro one_page_sel) auto
qed

text \<open>A block starts at one place only.\<close>

lemma block_unique:
  assumes "mem_inv s A" "(a, sel, i) \<in> A" "(b, sel', i) \<in> A"
  shows "(a, sel, i) = (b, sel', i)"
proof (rule ccontr)
  assume "\<not> ?thesis"
  then have "page_extent (span (a, sel, i)) \<inter> page_extent (span (b, sel', i)) = {}"
    using mem_blocks_apart [OF assms] by (auto simp: page_extent_def)
  moreover have "i \<in> page_extent (span (a, sel, i)) \<inter> page_extent (span (b, sel', i))"
    by (simp add: page_extent_def)
  ultimately show False by blast
qed

lemma given_page:
  assumes inv: "mem_inv s A" and i: "(a, sel, i) \<in> A" "selsz sel = 1"
  shows "onfrmsa_retn_fpagenr s (Some i) = Inr 1"
    "\<exists>s'. mm_merge_pages s (Some i) 1 = Inr (True, s') \<and> mem_inv s' (A - {(a, sel, i)}) \<and> statics s' = statics s \<and>
       (\<forall>b. area_own s' (A - {(a, sel, i)}) b = area_own s A b)"
proof -
  have ok: "alloc_ok s a i 1"
    using mem_invD(5) [OF inv i(1)] i(2) by simp
  then show "onfrmsa_retn_fpagenr s (Some i) = Inr 1"
    using page_span_le [of i i] by (simp add: onfrmsa_retn_fpagenr_def alloc_ok_def getm_msa)
  have "of_nat (selsz sel) = (1 :: u64)"
    using i(2) by simp
  with merge_pages_block [OF inv i(1)] obtain s' where s': "mm_merge_pages s (Some i) 1 = Inr (True, s')"
    "mem_inv s' (A - {(a, sel, i)})" "free_pages s' = (free_pages s)(a := free_pages s a \<union> {i..<i + selsz sel})"
    by auto
  then have "given_back s A (Some i) 1 True s' (A - {(a, sel, i)})"
    unfolding given_back_def using i by (simp; intro exI [of _ a] exI [of _ sel]) simp
  from given_back_pages [OF inv this] statics_after(3) [OF s'(1)] s' show
    "\<exists>s'. mm_merge_pages s (Some i) 1 = Inr (True, s') \<and> mem_inv s' (A - {(a, sel, i)}) \<and> statics s' = statics s \<and>
       (\<forall>b. area_own s' (A - {(a, sel, i)}) b = area_own s A b)"
    by (auto simp: area_own_def)
qed

lemma one_page_sz:
  assumes "selok sel" "(1 :: u64) = of_nat (selsz sel)"
  shows "selsz sel = 1"
proof -
  have "selsz sel < 2 ^ 64"
    using selsz_bound [OF assms(1)] by (rule order_le_less_trans) simp
  then show ?thesis
    using assms(2) u64_of_nat [of "selsz sel"] by (metis unat_1)
qed

text \<open>A request for one page: nothing, or a page that was free.\<close>

lemma taken_page:
  assumes inv: "mem_inv s A" and h: "handed s A r s' A'" "fst r = Some i" "snd r = 1" and inv': "mem_inv s' A'"
  obtains a sel where "A' = insert (a, sel, i) A" "(a, sel, i) \<notin> A" "selsz sel = 1" "i \<in> free_pages s a"
    "sel = Onem \<longleftrightarrow> ma_type (area s a) = MA_TYPE_PROC"
proof -
  from h obtain a sel where x: "selok sel" "(1 :: u64) = of_nat (selsz sel)"
    "sel = Onem \<longleftrightarrow> ma_type (area s a) = MA_TYPE_PROC"
    "(a, sel, i) \<notin> A" "A' = insert (a, sel, i) A" "{i..<i + selsz sel} \<subseteq> free_pages s a"
    by (auto simp: handed_def)
  moreover have "i \<in> {i..<i + selsz sel}"
    by simp
  ultimately show ?thesis
    using that one_page_sz by blast
qed

end
