(* ===== verification/Mmu.thy ===== *)
theory Mmu
  imports MemFrames
begin

text \<open>
  The page tables of an address space (hal/x86/halmmu.c, include/halinc/halmmu.h and halmmu_t.h), with the kernel's
  mapping of physical memory (halplatform.c, msadsc.h). The four table types and the functions of the four levels are
  written out in the code; here each level is an instance of one body. A descriptor is an object inside its owner
  (\<open>msd_mmu\<close>), so its pointer is never NULL and those tests are left out; tables are reached by their kernel address,
  0 for NULL. The descriptor's spin lock and the printing of \<open>dump_mmu\<close> are not part of the model.
\<close>

section \<open>The kernel's view of physical memory\<close>

definition KRNL_MAP_VIRTADDRESS_START :: u64 where "KRNL_MAP_VIRTADDRESS_START = 0xffff800000000000"
definition KRNL_MAP_VIRTADDRESS_SIZE :: u64 where "KRNL_MAP_VIRTADDRESS_SIZE = 0x400000000"
definition KRNL_MAP_VIRTADDRESS_END :: u64 where
  "KRNL_MAP_VIRTADDRESS_END = KRNL_MAP_VIRTADDRESS_START + KRNL_MAP_VIRTADDRESS_SIZE"
definition KRNL_MAP_PHYADDRESS_END :: u64 where "KRNL_MAP_PHYADDRESS_END = 0x400000000"

definition viradr_to_phyadr :: "u64 \<Rightarrow> u64 run" where
  "viradr_to_phyadr kviradr =
     (if kviradr < KRNL_MAP_VIRTADDRESS_START \<or> kviradr > KRNL_MAP_VIRTADDRESS_END
      then Inl (Panic ''viradr_to_phyadr err'') else Inr (kviradr - KRNL_MAP_VIRTADDRESS_START))"

definition phyadr_to_viradr :: "u64 \<Rightarrow> u64 run" where
  "phyadr_to_viradr kphyadr =
     (if kphyadr \<ge> KRNL_MAP_PHYADDRESS_END then Inl (Panic ''phyadr_to_viradr err'')
      else Inr (kphyadr + KRNL_MAP_VIRTADDRESS_START))"

definition msadsc_ret_addr :: "memmgrob \<Rightarrow> nat option \<Rightarrow> u64 run" where
  "msadsc_ret_addr g ma =
     (case ma of None \<Rightarrow> Inr 0 | Some i \<Rightarrow> andthen (getm g i) (\<lambda>m. Inr (msa_phyadr m)))"

definition msadsc_ret_vaddr :: "memmgrob \<Rightarrow> nat option \<Rightarrow> u64 run" where
  "msadsc_ret_vaddr g ma =
     (case ma of None \<Rightarrow> Inr 0 | Some i \<Rightarrow> andthen (msadsc_ret_addr g (Some i)) phyadr_to_viradr)"

section \<open>The descriptor of an address space\<close>

text \<open>
  The four levels of tables, from \<open>tdirearr_t\<close> (the root) to \<open>mdirearr_t\<close> (whose entries hold the pages).
\<close>

datatype dire = Tdir | Sdir | Idir | Mdir

record mmudsc =
  mud_stus :: u64
  mud_flag :: u64
  mud_tdirearr :: u64
  mud_cr3 :: u64
  mud_tdirhead :: "nat list"
  mud_sdirhead :: "nat list"
  mud_idirhead :: "nat list"
  mud_mdirhead :: "nat list"
  mud_tdirmsanr :: u64
  mud_sdirmsanr :: u64
  mud_idirmsanr :: u64
  mud_mdirmsanr :: u64

definition mmudsc_t_init :: mmudsc where
  "mmudsc_t_init = \<lparr>mud_stus = 0, mud_flag = 0, mud_tdirearr = 0, mud_cr3 = 0, mud_tdirhead = [], mud_sdirhead = [],
     mud_idirhead = [], mud_mdirhead = [], mud_tdirmsanr = 0, mud_sdirmsanr = 0, mud_idirmsanr = 0, mud_mdirmsanr = 0\<rparr>"

fun dir_head :: "dire \<Rightarrow> mmudsc \<Rightarrow> nat list" where
  "dir_head Tdir m = mud_tdirhead m"
| "dir_head Sdir m = mud_sdirhead m"
| "dir_head Idir m = mud_idirhead m"
| "dir_head Mdir m = mud_mdirhead m"

fun dir_msanr :: "dire \<Rightarrow> mmudsc \<Rightarrow> u64" where
  "dir_msanr Tdir m = mud_tdirmsanr m"
| "dir_msanr Sdir m = mud_sdirmsanr m"
| "dir_msanr Idir m = mud_idirmsanr m"
| "dir_msanr Mdir m = mud_mdirmsanr m"

fun dir_upd :: "dire \<Rightarrow> nat list \<Rightarrow> u64 \<Rightarrow> mmudsc \<Rightarrow> mmudsc" where
  "dir_upd Tdir l n m = m\<lparr>mud_tdirhead := l, mud_tdirmsanr := n\<rparr>"
| "dir_upd Sdir l n m = m\<lparr>mud_sdirhead := l, mud_sdirmsanr := n\<rparr>"
| "dir_upd Idir l n m = m\<lparr>mud_idirhead := l, mud_idirmsanr := n\<rparr>"
| "dir_upd Mdir l n m = m\<lparr>mud_mdirhead := l, mud_mdirmsanr := n\<rparr>"

fun below :: "dire \<Rightarrow> dire" where
  "below Tdir = Sdir" | "below Sdir = Idir" | "below Idir = Mdir" | "below Mdir = Mdir"

text \<open>
  The machine: the page manager, the memory as pages of 512 words at their kernel addresses, the register \<open>cr3\<close>,
  the physical address of the kernel's own root table (\<open>kmachbsp.mb_pml4padr\<close>), and the address space at work.
\<close>

type_synonym pagemem = "u64 \<Rightarrow> nat \<Rightarrow> u64"

record mmust =
  ms_grob :: memmgrob
  ms_mem :: pagemem
  ms_cr3 :: u64
  ms_pml4 :: u64
  ms_mmu :: mmudsc

section \<open>Table entries\<close>

fun dire_shift :: "dire \<Rightarrow> nat" where
  "dire_shift Tdir = 39" | "dire_shift Sdir = 30" | "dire_shift Idir = 21" | "dire_shift Mdir = 12"

definition dire_index :: "dire \<Rightarrow> u64 \<Rightarrow> nat" where
  "dire_index lv vadrs = unat (and (drop_bit (dire_shift lv) vadrs) 0x1ff)"

definition mmu_tdire_index :: "u64 \<Rightarrow> nat" where "mmu_tdire_index = dire_index Tdir"
definition mmu_sdire_index :: "u64 \<Rightarrow> nat" where "mmu_sdire_index = dire_index Sdir"
definition mmu_idire_index :: "u64 \<Rightarrow> nat" where "mmu_idire_index = dire_index Idir"
definition mmu_mdire_index :: "u64 \<Rightarrow> nat" where "mmu_mdire_index = dire_index Mdir"

text \<open>
  The address field of an entry: 40 bits from bit 12. The compiler shifts the bit-field in its own width, so what
  comes out has 40 bits too.
\<close>

definition dire_fld :: "u64 \<Rightarrow> 40 word" where
  "dire_fld e = ucast (drop_bit 12 e)"

definition dire_is_have :: "u64 \<Rightarrow> bool" where
  "dire_is_have e \<longleftrightarrow> 0 < dire_fld e"

definition dire_ret_padr :: "u64 \<Rightarrow> u64" where
  "dire_ret_padr e = ucast (push_bit 12 (dire_fld e))"

definition dire_ret_vadr :: "u64 \<Rightarrow> u64 run" where
  "dire_ret_vadr e = phyadr_to_viradr (dire_ret_padr e)"

definition direarr_is_allzero :: "mmust \<Rightarrow> u64 \<Rightarrow> bool" where
  "direarr_is_allzero st a \<longleftrightarrow> list_all (\<lambda>i. ms_mem st a i = 0) [0..<512]"

definition set_page :: "mmust \<Rightarrow> u64 \<Rightarrow> (nat \<Rightarrow> u64) \<Rightarrow> mmust" where
  "set_page st a p = st\<lparr>ms_mem := (ms_mem st)(a := p)\<rparr>"

definition set_ent :: "mmust \<Rightarrow> u64 \<Rightarrow> nat \<Rightarrow> u64 \<Rightarrow> mmust" where
  "set_ent st a k e = set_page st a ((ms_mem st a)(k := e))"

definition direarr_t_init :: "mmust \<Rightarrow> u64 \<Rightarrow> mmust" where
  "direarr_t_init st a = (if a = 0 then st else set_page st a (\<lambda>i. 0))"

section \<open>Table pages, taken and given back\<close>

definition mmu_new_arr :: "dire \<Rightarrow> mmust \<Rightarrow> (nat option \<times> mmust) run" where
  "mmu_new_arr lv st =
     andthen (mm_division_pages (ms_grob st) 1 MA_TYPE_KRNL DMF_RELDIV) (\<lambda>((ma, retpnr), g).
     let st = st\<lparr>ms_grob := g\<rparr>
     in case ma of None \<Rightarrow> Inr (None, st)
        | Some i \<Rightarrow> andthen (msadsc_ret_vaddr g (Some i)) (\<lambda>arr.
            let st = direarr_t_init st arr; m = ms_mmu st;
                m = dir_upd lv (i # dir_head lv m) (dir_msanr lv m + 1) m
            in Inr (Some i, st\<lparr>ms_mmu := m\<rparr>)))"

definition mmu_new_tdirearr :: "mmust \<Rightarrow> (nat option \<times> mmust) run" where
  "mmu_new_tdirearr st =
     andthen (mmu_new_arr Tdir st) (\<lambda>(ma, st).
     case ma of None \<Rightarrow> Inr (None, st)
     | Some i \<Rightarrow> andthen (msadsc_ret_vaddr (ms_grob st) (Some i)) (\<lambda>tdirearr.
         Inr (Some i, st\<lparr>ms_mmu := (ms_mmu st)\<lparr>mud_tdirearr := tdirearr\<rparr>\<rparr>)))"

definition mmu_new_sdirearr :: "mmust \<Rightarrow> (nat option \<times> mmust) run" where "mmu_new_sdirearr = mmu_new_arr Sdir"
definition mmu_new_idirearr :: "mmust \<Rightarrow> (nat option \<times> mmust) run" where "mmu_new_idirearr = mmu_new_arr Idir"
definition mmu_new_mdirearr :: "mmust \<Rightarrow> (nat option \<times> mmust) run" where "mmu_new_mdirearr = mmu_new_arr Mdir"

text \<open>The page of a list whose address is \<open>tbl\<close>.\<close>

fun find_tbl :: "memmgrob \<Rightarrow> u64 \<Rightarrow> nat list \<Rightarrow> nat option run" where
  "find_tbl g tbl [] = Inr None"
| "find_tbl g tbl (i # l) =
     andthen (msadsc_ret_addr g (Some i)) (\<lambda>p. if p = tbl then Inr (Some i) else find_tbl g tbl l)"

text \<open>\<open>list_del\<close>, the page back to the manager, one page less.\<close>

definition mmu_free_msa :: "dire \<Rightarrow> mmust \<Rightarrow> nat \<Rightarrow> string \<Rightarrow> mmust run" where
  "mmu_free_msa lv st i msg =
     (let m = ms_mmu st; st = st\<lparr>ms_mmu := dir_upd lv (remove1 i (dir_head lv m)) (dir_msanr lv m) m\<rparr>
      in andthen (onfrmsa_retn_fpagenr (ms_grob st) (Some i)) (\<lambda>n.
         andthen (mm_merge_pages (ms_grob st) (Some i) n) (\<lambda>(ok, g).
         if \<not> ok then Inl (Panic msg)
         else let m = ms_mmu st
              in Inr (st\<lparr>ms_grob := g, ms_mmu := dir_upd lv (dir_head lv m) (dir_msanr lv m - 1) m\<rparr>))))"

definition mmu_del_arr :: "dire \<Rightarrow> mmust \<Rightarrow> u64 \<Rightarrow> nat option \<Rightarrow> (bool \<times> mmust) run" where
  "mmu_del_arr lv st arr ma =
     (if arr = 0 then Inr (False, st)
      else andthen (viradr_to_phyadr arr) (\<lambda>tbl.
        andthen (msadsc_ret_addr (ms_grob st) ma) (\<lambda>maadr.
        andthen (if ma \<noteq> None \<and> maadr = tbl then Inr ma
                 else find_tbl (ms_grob st) tbl (dir_head lv (ms_mmu st))) (\<lambda>victim.
        case victim of None \<Rightarrow> Inr (False, st)
        | Some i \<Rightarrow> andthen (mmu_free_msa lv st i ''mmu_del_tdirearr err'') (\<lambda>st. Inr (True, st))))))"

definition mmu_del_tdirearr :: "mmust \<Rightarrow> u64 \<Rightarrow> nat option \<Rightarrow> (bool \<times> mmust) run" where
  "mmu_del_tdirearr = mmu_del_arr Tdir"
definition mmu_del_sdirearr :: "mmust \<Rightarrow> u64 \<Rightarrow> nat option \<Rightarrow> (bool \<times> mmust) run" where
  "mmu_del_sdirearr = mmu_del_arr Sdir"
definition mmu_del_idirearr :: "mmust \<Rightarrow> u64 \<Rightarrow> nat option \<Rightarrow> (bool \<times> mmust) run" where
  "mmu_del_idirearr = mmu_del_arr Idir"
definition mmu_del_mdirearr :: "mmust \<Rightarrow> u64 \<Rightarrow> nat option \<Rightarrow> (bool \<times> mmust) run" where
  "mmu_del_mdirearr = mmu_del_arr Mdir"

section \<open>One level of a translation\<close>

definition mmu_untransform_msa :: "mmust \<Rightarrow> u64 \<Rightarrow> u64 \<Rightarrow> u64 \<times> mmust" where
  "mmu_untransform_msa st mdirearr vadrs =
     (if mdirearr = 0 then (0, st)
      else let mindex = mmu_mdire_index vadrs; mdire = ms_mem st mdirearr mindex
           in if \<not> dire_is_have mdire then (0, st) else (dire_ret_padr mdire, set_ent st mdirearr mindex 0))"

definition mmu_transform_msa :: "mmust \<Rightarrow> u64 \<Rightarrow> u64 \<Rightarrow> u64 \<Rightarrow> u64 \<Rightarrow> bool \<times> mmust" where
  "mmu_transform_msa st mdirearr vadrs padrs flags =
     (if mdirearr = 0 then (False, st) else (True, set_ent st mdirearr (mmu_mdire_index vadrs) (or padrs flags)))"

text \<open>
  The three functions that give the table an entry of level \<open>lv\<close> points at differ in the names of the levels only;
  so do the three that drop such a table when it has become empty, and the three that look it up.
\<close>

definition mmu_transform_dire :: "dire \<Rightarrow> mmust \<Rightarrow> u64 \<Rightarrow> u64 \<Rightarrow> u64 \<Rightarrow> ((u64 \<times> nat option) \<times> mmust) run" where
  "mmu_transform_dire lv st arr vadrs flags =
     (if arr = 0 then Inr ((0, None), st)
      else let index = dire_index lv vadrs; dire = ms_mem st arr index
           in if dire_is_have dire then andthen (dire_ret_vadr dire) (\<lambda>v. Inr ((v, None), st))
              else andthen (mmu_new_arr (below lv) st) (\<lambda>(ma, st).
                case ma of None \<Rightarrow> Inr ((0, None), st)
                | Some i \<Rightarrow>
                  andthen (msadsc_ret_addr (ms_grob st) (Some i)) (\<lambda>padr.
                  andthen (phyadr_to_viradr padr) (\<lambda>v.
                  Inr ((v, Some i), set_ent st arr index (or padr flags))))))"

definition mmu_transform_sdire :: "mmust \<Rightarrow> u64 \<Rightarrow> u64 \<Rightarrow> u64 \<Rightarrow> ((u64 \<times> nat option) \<times> mmust) run" where
  "mmu_transform_sdire = mmu_transform_dire Tdir"
definition mmu_transform_idire :: "mmust \<Rightarrow> u64 \<Rightarrow> u64 \<Rightarrow> u64 \<Rightarrow> ((u64 \<times> nat option) \<times> mmust) run" where
  "mmu_transform_idire = mmu_transform_dire Sdir"
definition mmu_transform_mdire :: "mmust \<Rightarrow> u64 \<Rightarrow> u64 \<Rightarrow> u64 \<Rightarrow> ((u64 \<times> nat option) \<times> mmust) run" where
  "mmu_transform_mdire = mmu_transform_dire Idir"

definition mmu_untransform_dire :: "dire \<Rightarrow> mmust \<Rightarrow> u64 \<Rightarrow> nat option \<Rightarrow> u64 \<Rightarrow> (bool \<times> mmust) run" where
  "mmu_untransform_dire lv st arr ma vadrs =
     (if arr = 0 then Inr (False, st)
      else let index = dire_index lv vadrs; dire = ms_mem st arr index
           in if \<not> dire_is_have dire then Inr (True, st)
              else andthen (dire_ret_vadr dire) (\<lambda>sub.
                if \<not> direarr_is_allzero st sub then Inr (True, st)
                else andthen (mmu_del_arr (below lv) st sub ma) (\<lambda>(ok, st).
                  if \<not> ok then Inr (False, st) else Inr (True, set_ent st arr index 0))))"

definition mmu_untransform_sdire :: "mmust \<Rightarrow> u64 \<Rightarrow> nat option \<Rightarrow> u64 \<Rightarrow> (bool \<times> mmust) run" where
  "mmu_untransform_sdire = mmu_untransform_dire Tdir"
definition mmu_untransform_idire :: "mmust \<Rightarrow> u64 \<Rightarrow> nat option \<Rightarrow> u64 \<Rightarrow> (bool \<times> mmust) run" where
  "mmu_untransform_idire = mmu_untransform_dire Sdir"
definition mmu_untransform_mdire :: "mmust \<Rightarrow> u64 \<Rightarrow> nat option \<Rightarrow> u64 \<Rightarrow> (bool \<times> mmust) run" where
  "mmu_untransform_mdire = mmu_untransform_dire Idir"

definition mmu_find_direarr :: "dire \<Rightarrow> mmust \<Rightarrow> u64 \<Rightarrow> u64 \<Rightarrow> u64 run" where
  "mmu_find_direarr lv st arr vadrs =
     (if arr = 0 then Inr 0
      else let dire = ms_mem st arr (dire_index lv vadrs)
           in if \<not> dire_is_have dire then Inr 0 else dire_ret_vadr dire)"

definition mmu_find_sdirearr :: "mmust \<Rightarrow> u64 \<Rightarrow> u64 \<Rightarrow> u64 run" where "mmu_find_sdirearr = mmu_find_direarr Tdir"
definition mmu_find_idirearr :: "mmust \<Rightarrow> u64 \<Rightarrow> u64 \<Rightarrow> u64 run" where "mmu_find_idirearr = mmu_find_direarr Sdir"
definition mmu_find_mdirearr :: "mmust \<Rightarrow> u64 \<Rightarrow> u64 \<Rightarrow> u64 run" where "mmu_find_mdirearr = mmu_find_direarr Idir"

definition mmu_find_msaadr :: "mmust \<Rightarrow> u64 \<Rightarrow> u64 \<Rightarrow> u64" where
  "mmu_find_msaadr st mdirearr vadrs =
     (if mdirearr = 0 then 0
      else let dire = ms_mem st mdirearr (mmu_mdire_index vadrs)
           in if \<not> dire_is_have dire then 0 else dire_ret_padr dire)"

section \<open>Translations entered and removed\<close>

definition hal_mmu_refresh :: "mmust \<Rightarrow> mmust" where
  "hal_mmu_refresh st = (let cr3 = ms_cr3 st in st\<lparr>ms_cr3 := cr3\<rparr>)"

text \<open>The labels of the code, each followed by those below it.\<close>

definition untf_sdire :: "u64 \<Rightarrow> nat option \<Rightarrow> u64 \<Rightarrow> bool \<Rightarrow> mmust \<Rightarrow> (bool \<times> mmust) run" where
  "untf_sdire tdirearr smsa vadrs rets st =
     andthen (mmu_untransform_sdire st tdirearr smsa vadrs) (\<lambda>(ok, st). Inr (rets, st))"

definition untf_idire :: "u64 \<Rightarrow> nat option \<Rightarrow> u64 \<Rightarrow> nat option \<Rightarrow> u64 \<Rightarrow> bool \<Rightarrow> mmust \<Rightarrow> (bool \<times> mmust) run" where
  "untf_idire sdirearr imsa tdirearr smsa vadrs rets st =
     andthen (mmu_untransform_idire st sdirearr imsa vadrs) (\<lambda>(ok, st). untf_sdire tdirearr smsa vadrs rets st)"

definition untf_mdire :: "u64 \<Rightarrow> nat option \<Rightarrow> u64 \<Rightarrow> nat option \<Rightarrow> u64 \<Rightarrow> nat option \<Rightarrow> u64 \<Rightarrow> bool \<Rightarrow> mmust \<Rightarrow>
    (bool \<times> mmust) run" where
  "untf_mdire idirearr mmsa sdirearr imsa tdirearr smsa vadrs rets st =
     andthen (mmu_untransform_mdire st idirearr mmsa vadrs)
       (\<lambda>(ok, st). untf_idire sdirearr imsa tdirearr smsa vadrs rets st)"

definition hal_mmu_transform_core :: "mmust \<Rightarrow> u64 \<Rightarrow> u64 \<Rightarrow> u64 \<Rightarrow> (bool \<times> mmust) run" where
  "hal_mmu_transform_core st vadrs padrs flags =
     (let tdirearr = mud_tdirearr (ms_mmu st)
      in if tdirearr = 0 then Inr (False, st)
         else andthen (mmu_transform_sdire st tdirearr vadrs flags) (\<lambda>((sdirearr, smsa), st).
         if sdirearr = 0 then untf_sdire tdirearr smsa vadrs False st
         else andthen (mmu_transform_idire st sdirearr vadrs flags) (\<lambda>((idirearr, imsa), st).
         if idirearr = 0 then untf_idire sdirearr imsa tdirearr smsa vadrs False st
         else andthen (mmu_transform_mdire st idirearr vadrs flags) (\<lambda>((mdirearr, mmsa), st).
         if mdirearr = 0 then untf_mdire idirearr mmsa sdirearr imsa tdirearr smsa vadrs False st
         else let (rets, st) = mmu_transform_msa st mdirearr vadrs padrs flags
              in if rets then Inr (True, hal_mmu_refresh st)
                 else let (adr, st) = mmu_untransform_msa st mdirearr vadrs
                      in untf_mdire idirearr mmsa sdirearr imsa tdirearr smsa vadrs False st))))"

definition hal_mmu_transform :: "mmust \<Rightarrow> u64 \<Rightarrow> u64 \<Rightarrow> u64 \<Rightarrow> (bool \<times> mmust) run" where
  "hal_mmu_transform st vadrs padrs flags = hal_mmu_transform_core st vadrs padrs flags"

definition untf_sdirearr :: "u64 \<Rightarrow> u64 \<Rightarrow> mmust \<Rightarrow> (u64 \<times> mmust) run" where
  "untf_sdirearr vadrs retadr st =
     andthen (mmu_untransform_sdire st (mud_tdirearr (ms_mmu st)) None vadrs) (\<lambda>(ok, st).
     Inr (retadr, hal_mmu_refresh st))"

definition untf_idirearr :: "u64 \<Rightarrow> u64 \<Rightarrow> u64 \<Rightarrow> mmust \<Rightarrow> (u64 \<times> mmust) run" where
  "untf_idirearr sdirearr vadrs retadr st =
     andthen (mmu_untransform_idire st sdirearr None vadrs) (\<lambda>(ok, st). untf_sdirearr vadrs retadr st)"

definition hal_mmu_untransform_core :: "mmust \<Rightarrow> u64 \<Rightarrow> (u64 \<times> mmust) run" where
  "hal_mmu_untransform_core st vadrs =
     andthen (mmu_find_sdirearr st (mud_tdirearr (ms_mmu st)) vadrs) (\<lambda>sdirearr.
     if sdirearr = 0 then Inr (0, hal_mmu_refresh st)
     else andthen (mmu_find_idirearr st sdirearr vadrs) (\<lambda>idirearr.
     if idirearr = 0 then untf_sdirearr vadrs 0 st
     else andthen (mmu_find_mdirearr st idirearr vadrs) (\<lambda>mdirearr.
     if mdirearr = 0 then untf_idirearr sdirearr vadrs 0 st
     else let (retadr, st) = mmu_untransform_msa st mdirearr vadrs
          in andthen (mmu_untransform_mdire st idirearr None vadrs) (\<lambda>(ok, st).
             untf_idirearr sdirearr vadrs retadr st))))"

definition hal_mmu_untransform :: "mmust \<Rightarrow> u64 \<Rightarrow> (u64 \<times> mmust) run" where
  "hal_mmu_untransform st vadrs = hal_mmu_untransform_core st vadrs"

section \<open>An address space set up, loaded and taken down\<close>

definition hal_mmu_load :: "mmust \<Rightarrow> mmust run" where
  "hal_mmu_load st =
     (let m = ms_mmu st
      in if mud_tdirearr m = 0 \<or> and (mud_tdirearr m) 0xfff \<noteq> 0 then Inr st
         else andthen (viradr_to_phyadr (mud_tdirearr m)) (\<lambda>cr3.
           Inr (st\<lparr>ms_mmu := m\<lparr>mud_cr3 := cr3\<rparr>, ms_cr3 := cr3\<rparr>)))"

definition hal_mmu_init :: "mmust \<Rightarrow> (bool \<times> mmust) run" where
  "hal_mmu_init st =
     andthen (mmu_new_tdirearr st) (\<lambda>(ma, st).
     if ma = None then Inr (False, st)
     else andthen (phyadr_to_viradr (ms_pml4 st)) (\<lambda>vcr3.
       let td = mud_tdirearr (ms_mmu st); st = set_page st td (ms_mem st vcr3)
       in andthen (viradr_to_phyadr td) (\<lambda>cr3.
          let st = st\<lparr>ms_mmu := (ms_mmu st)\<lparr>mud_cr3 := cr3\<rparr>\<rparr>
          in Inr (True, set_ent st td 0 0))))"

text \<open>\<open>list_for_each_head_dell\<close>: as long as the list has a first page, that page goes.\<close>

fun mmu_clean_list :: "dire \<Rightarrow> string \<Rightarrow> nat list \<Rightarrow> mmust \<Rightarrow> mmust run" where
  "mmu_clean_list lv msg [] st = Inr st"
| "mmu_clean_list lv msg (i # l) st = andthen (mmu_free_msa lv st i msg) (mmu_clean_list lv msg l)"

definition mmu_clean_arrmsas :: "dire \<Rightarrow> string \<Rightarrow> mmust \<Rightarrow> (bool \<times> mmust) run" where
  "mmu_clean_arrmsas lv msg st =
     andthen (mmu_clean_list lv msg (dir_head lv (ms_mmu st)) st) (\<lambda>st. Inr (True, st))"

definition mmu_clean_mdirearrmsas :: "mmust \<Rightarrow> (bool \<times> mmust) run" where
  "mmu_clean_mdirearrmsas = mmu_clean_arrmsas Mdir ''mmu_clean_mdirearrmsas''"
definition mmu_clean_idirearrmsas :: "mmust \<Rightarrow> (bool \<times> mmust) run" where
  "mmu_clean_idirearrmsas = mmu_clean_arrmsas Idir ''mmu_clean_idirearrmsas''"
definition mmu_clean_sdirearrmsas :: "mmust \<Rightarrow> (bool \<times> mmust) run" where
  "mmu_clean_sdirearrmsas = mmu_clean_arrmsas Sdir ''mmu_clean_sdirearrmsas''"
definition mmu_clean_tdirearrmsas :: "mmust \<Rightarrow> (bool \<times> mmust) run" where
  "mmu_clean_tdirearrmsas = mmu_clean_arrmsas Tdir ''mmu_clean_tdirearrmsas''"

definition hal_mmu_clean :: "mmust \<Rightarrow> (bool \<times> mmust) run" where
  "hal_mmu_clean st =
     andthen (phyadr_to_viradr (dire_ret_padr (ms_cr3 st))) (\<lambda>vcr3.
     if vcr3 = mud_tdirearr (ms_mmu st) then Inr (False, st)
     else andthen (mmu_clean_mdirearrmsas st) (\<lambda>(ok, st). if \<not> ok then Inr (False, st)
     else andthen (mmu_clean_idirearrmsas st) (\<lambda>(ok, st). if \<not> ok then Inr (False, st)
     else andthen (mmu_clean_sdirearrmsas st) (\<lambda>(ok, st). if \<not> ok then Inr (False, st)
     else andthen (mmu_clean_tdirearrmsas st) (\<lambda>(ok, st). if \<not> ok then Inr (False, st)
     else Inr (True, st))))))"

end
