(* ===== verification/MmuTree.thy ===== *)
theory MmuTree
  imports Mmu
begin

text \<open>
  Addresses, table entries and indices as arithmetic on words, and the tables as a tree: what a write to one entry does
  to the tree.
\<close>

section \<open>Addresses and entries\<close>

definition kva :: "u64 \<Rightarrow> u64" where
  "kva p = p + KRNL_MAP_VIRTADDRESS_START"

lemma kva_inj [simp]: "kva p = kva q \<longleftrightarrow> p = q"
  by (simp add: kva_def)

text \<open>The frames the kernel's mapping covers.\<close>

definition mapped :: "u64 \<Rightarrow> bool" where
  "mapped p \<longleftrightarrow> p < KRNL_MAP_PHYADDRESS_END"

lemma mapped_kva:
  assumes "mapped p"
  shows "phyadr_to_viradr p = Inr (kva p)" "viradr_to_phyadr (kva p) = Inr p" "kva p \<noteq> 0"
proof -
  have p: "unat p < 0x400000000"
    using assms by (simp add: mapped_def KRNL_MAP_PHYADDRESS_END_def word_less_nat_alt)
  then have k: "unat (kva p) = unat p + 0xffff800000000000"
    by (simp add: kva_def KRNL_MAP_VIRTADDRESS_START_def unat_word_ariths)
  show "phyadr_to_viradr p = Inr (kva p)"
    using assms by (simp add: phyadr_to_viradr_def mapped_def kva_def not_le)
  show "kva p \<noteq> 0"
    using k by (metis add_is_0 unat_0 zero_neq_numeral)
  have "\<not> kva p < KRNL_MAP_VIRTADDRESS_START" "\<not> kva p > KRNL_MAP_VIRTADDRESS_END"
    using k p by (simp_all add: word_less_nat_alt KRNL_MAP_VIRTADDRESS_START_def
        KRNL_MAP_VIRTADDRESS_END_def KRNL_MAP_VIRTADDRESS_SIZE_def)
  then show "viradr_to_phyadr (kva p) = Inr p"
    by (simp add: viradr_to_phyadr_def kva_def)
qed

text \<open>The physical address of a page, and an entry that points at it.\<close>

lemma msa_phyadr_bit: "bit (msa_phyadr m) n \<longleftrightarrow> n < 64 \<and> 12 \<le> n \<and> bit (paf_padrs m) (n - 12)"
  by (auto simp: msa_phyadr_def PSHRSIZE_def bit_push_bit_iff bit_ucast_iff bit_simps)

lemma msa_phyadr_inj: "msa_phyadr m = msa_phyadr m' \<Longrightarrow> paf_padrs m = paf_padrs m'"
proof (rule bit_eqI)
  fix n assume e: "msa_phyadr m = msa_phyadr m'"
  show "bit (paf_padrs m) n \<longleftrightarrow> bit (paf_padrs m') n"
  proof (cases "n < 52")
    case True
    then show ?thesis
      using arg_cong [OF e, of "\<lambda>x. bit x (n + 12)"] by (simp add: msa_phyadr_bit)
  qed (simp add: impossible_bit)
qed

definition page_adr :: "u64 \<Rightarrow> bool" where
  "page_adr p \<longleftrightarrow> 0 < p \<and> p < 2 ^ 40 \<and> take_bit 12 p = 0"

lemma small_bit:
  assumes "unat (w :: 'a :: len word) < 2 ^ n" "bit w k"
  shows "k < n"
proof (rule ccontr)
  assume "\<not> k < n"
  moreover have "bit (unat w) k"
    using assms(2) by (simp add: bit_unsigned_iff)
  moreover have "unat w div 2 ^ k = 0"
    using assms(1) \<open>\<not> k < n\<close> by (metis div_less leI order_less_le_trans one_le_numeral power_increasing)
  ultimately show False
    by (simp add: bit_iff_odd)
qed

lemma msa_phyadr_adr:
  assumes "adr_ok (paf_padrs m)"
  shows "page_adr (msa_phyadr m)" "unat (msa_phyadr m) = 4096 * unat (paf_padrs m)"
proof -
  have n: "0 < unat (paf_padrs m)" "unat (paf_padrs m) < 2 ^ 28"
    using assms by (simp_all add: adr_ok_def)
  have "unat (ucast (paf_padrs m) :: u64) = unat (paf_padrs m)"
    using n(2) by (simp add: unsigned_ucast_eq take_bit_eq_mod)
  then show u: "unat (msa_phyadr m) = 4096 * unat (paf_padrs m)"
    using n by (simp add: msa_phyadr_def PSHRSIZE_def push_bit_eq_mult unat_word_ariths)
  have "take_bit 12 (msa_phyadr m) = 0"
    by (rule bit_eqI) (simp add: bit_take_bit_iff msa_phyadr_bit)
  moreover have "0 < msa_phyadr m \<and> msa_phyadr m < 2 ^ 40"
    using n u by (simp add: word_less_nat_alt)
  ultimately show "page_adr (msa_phyadr m)"
    by (simp add: page_adr_def)
qed

lemma dire_ret_padr_bit: "bit (dire_ret_padr e) n \<longleftrightarrow> 12 \<le> n \<and> n < 40 \<and> bit e n"
  by (auto simp: dire_ret_padr_def dire_fld_def bit_simps)

lemma page_adr_bit:
  assumes "page_adr p" "bit p n"
  shows "12 \<le> n" "n < 40"
proof -
  show "12 \<le> n"
  proof (rule ccontr)
    assume "\<not> 12 \<le> n"
    then have "bit (take_bit 12 p) n"
      using assms(2) by (simp add: bit_take_bit_iff)
    then show False
      using assms(1) by (simp add: page_adr_def)
  qed
  have "unat p < 2 ^ 40"
    using assms(1) by (simp add: page_adr_def word_less_nat_alt)
  with assms(2) show "n < 40"
    by (rule small_bit [rotated])
qed

text \<open>The flags a caller may set: the bits below the address, among them the bit that says the entry is there.\<close>

definition entry_flags :: "u64 \<Rightarrow> bool" where
  "entry_flags f \<longleftrightarrow> f < 2 ^ 12 \<and> bit f 0"

lemma entry_flags_bit: "entry_flags f \<Longrightarrow> bit f n \<Longrightarrow> n < 12"
  using small_bit [of f 12 n] by (simp add: entry_flags_def word_less_nat_alt)

lemma entry_points:
  assumes "page_adr p" "entry_flags f"
  shows "dire_ret_padr (or p f) = p" "dire_is_have (or p f)" "bit (or p f) 0" "or p f \<noteq> 0"
    "push_bit 12 (drop_bit 12 (or p f)) = p"
proof -
  note b = page_adr_bit [OF assms(1)] entry_flags_bit [OF assms(2)]
  have nf: "\<not> bit f n" if "12 \<le> n" for n
    using b(3) [of n] that by auto
  show d: "dire_ret_padr (or p f) = p"
    by (rule bit_eqI) (use b(1,2) nf in \<open>auto simp: dire_ret_padr_bit bit_or_iff\<close>)
  have "dire_fld (or p f) \<noteq> 0"
  proof
    assume "dire_fld (or p f) = 0"
    then have "dire_ret_padr (or p f) = 0"
      by (simp add: dire_ret_padr_def)
    then show False
      using d assms(1) by (simp add: page_adr_def)
  qed
  then show "dire_is_have (or p f)"
    by (simp add: dire_is_have_def word_greater_zero_iff)
  show "bit (or p f) 0"
    using assms(2) by (simp add: bit_or_iff entry_flags_def)
  then show "or p f \<noteq> 0"
    by (metis bit_0_eq bot_fun_def bot_bool_def)
  show "push_bit 12 (drop_bit 12 (or p f)) = p"
    by (rule bit_eqI) (use b(1) nf in \<open>auto simp: bit_simps\<close>)
qed

lemma have_0 [simp]: "\<not> dire_is_have 0" "dire_ret_padr 0 = 0"
  by (simp_all add: dire_is_have_def dire_fld_def dire_ret_padr_def)

section \<open>Indices\<close>

lemma dire_index_bound [simp]: "dire_index lv va < 512"
proof -
  have "and (drop_bit (dire_shift lv) va) (0x1ff :: u64) = take_bit 9 (drop_bit (dire_shift lv) va)"
    by (simp add: take_bit_eq_mask mask_eq_exp_minus_1)
  then show ?thesis
    using take_bit_nat_less_exp [of 9 "unat (drop_bit (dire_shift lv) va)"]
    by (simp add: dire_index_def unsigned_take_bit_eq)
qed

lemma dire_index_eq: "dire_index lv va = take_bit 9 (unat va div 2 ^ dire_shift lv)"
proof -
  have "and (drop_bit (dire_shift lv) va) (0x1ff :: u64) = take_bit 9 (drop_bit (dire_shift lv) va)"
    by (simp add: take_bit_eq_mask mask_eq_exp_minus_1)
  then have "dire_index lv va = take_bit 9 (unat (drop_bit (dire_shift lv) va))"
    by (simp only: dire_index_def unsigned_take_bit_eq)
  also have "unat (drop_bit (dire_shift lv) va) = unat va div 2 ^ dire_shift lv"
    unfolding unat_drop_bit_eq by (rule drop_bit_eq_div)
  finally show ?thesis .
qed

text \<open>An address of the user part, and its four indices, the last one first.\<close>

definition user_adr :: "u64 \<Rightarrow> bool" where
  "user_adr va \<longleftrightarrow> va < 0x800000000000"

definition va_path :: "u64 \<Rightarrow> nat list" where
  "va_path va = map (\<lambda>lv. dire_index lv va) [Mdir, Idir, Sdir, Tdir]"

lemma user_index: "user_adr va \<Longrightarrow> dire_index Tdir va < 256"
  by (simp add: user_adr_def dire_index_eq word_less_nat_alt take_bit_eq_mod)

lemma digit_eq:
  fixes a b :: nat
  assumes "a mod 512 = b mod 512" "a div 512 = b div 512"
  shows "a = b"
proof -
  have "a = a div 512 * 512 + a mod 512"
    by (rule div_mult_mod_eq [symmetric])
  also have "\<dots> = b"
    unfolding assms by (rule div_mult_mod_eq)
  finally show ?thesis .
qed

definition digits :: "nat \<Rightarrow> nat list" where
  "digits a = [a mod 512, a div 512 mod 512, a div 512 div 512 mod 512, a div 512 div 512 div 512]"

lemma digits_eq: "digits a = digits b \<longleftrightarrow> a = b"
  unfolding digits_def list.inject using digit_eq by blast

lemma va_path_digits:
  assumes "user_adr va"
  shows "va_path va = digits (unat va div 4096)"
proof -
  have u: "unat va < 2 ^ 47"
    using assms by (simp add: user_adr_def word_less_nat_alt)
  have "unat va div 2 ^ 39 < 512"
    by (rule less_mult_imp_div_less) (use u in simp)
  then have top: "unat va div 2 ^ 39 mod 512 = unat va div 2 ^ 39"
    by (rule mod_less)
  have d: "unat va div 4096 div 512 = unat va div 2 ^ 21" "unat va div 2 ^ 21 div 512 = unat va div 2 ^ 30"
    "unat va div 2 ^ 30 div 512 = unat va div 2 ^ 39"
    by (simp_all only: div_mult2_eq [symmetric]) simp_all
  show ?thesis
    unfolding digits_def d va_path_def by (simp add: dire_index_eq take_bit_eq_mod top [simplified])
qed

lemma va_path_eq:
  assumes "user_adr va" "user_adr vb"
  shows "va_path va = va_path vb \<longleftrightarrow> drop_bit 12 va = drop_bit 12 vb"
proof -
  have u: "unat (drop_bit 12 v) = unat v div 4096" for v :: u64
    by (simp add: unat_drop_bit_eq drop_bit_eq_div [where ?'a = nat])
  show ?thesis
    unfolding va_path_digits [OF assms(1)] va_path_digits [OF assms(2)] digits_eq u [symmetric] by (rule word_unat_eq_iff [symmetric])
qed

section \<open>The tree of tables\<close>

text \<open>
  A place in the tree is the list of the indices that lead to it, the last one first: the root is \<open>[]\<close>, a table has a
  place of length at most 3, an entry one of length at most 4. Only the user half of the root is looked at: the other half
  is copied from the kernel's root table and is the same in every address space.
\<close>

definition upath :: "nat \<Rightarrow> nat list \<Rightarrow> bool" where
  "upath n p \<longleftrightarrow> length p \<le> n \<and> (\<forall>k \<in> set p. k < 512) \<and> (p \<noteq> [] \<longrightarrow> last p < 256)"

lemma upath_Nil [simp]: "upath n []"
  by (simp add: upath_def)

lemma upath_ConsD: "upath (Suc n) (k # p) \<Longrightarrow> upath n p" "upath n (k # p) \<Longrightarrow> k < 512"
  "upath n (k # p) \<Longrightarrow> upath n p"
  by (auto simp: upath_def split: if_splits)

lemma upath_ConsI: "upath n p \<Longrightarrow> k < 512 \<Longrightarrow> (p = [] \<Longrightarrow> k < 256) \<Longrightarrow> upath (Suc n) (k # p)"
  by (auto simp: upath_def)

lemma upath_place: "upath 3 p \<Longrightarrow> k < 512 \<Longrightarrow> (p = [] \<Longrightarrow> k < 256) \<Longrightarrow> upath 4 (k # p)" "upath 4 (k # p) \<Longrightarrow> upath 3 p"
  by (auto simp: upath_def split: if_splits)

lemma upath_up: "upath n p \<Longrightarrow> n \<le> k \<Longrightarrow> upath k p"
  by (simp add: upath_def)

definition nxt :: "u64 \<Rightarrow> u64" where
  "nxt e = (if dire_is_have e then kva (dire_ret_padr e) else 0)"

fun tab :: "pagemem \<Rightarrow> u64 \<Rightarrow> nat list \<Rightarrow> u64" where
  "tab m r [] = r"
| "tab m r (k # p) = (if tab m r p = 0 then 0 else nxt (m (tab m r p) k))"

fun ent :: "pagemem \<Rightarrow> u64 \<Rightarrow> nat list \<Rightarrow> u64" where
  "ent m r [] = 0"
| "ent m r (k # p) = (if tab m r p = 0 then 0 else m (tab m r p) k)"

lemma nxt_0 [simp]: "nxt 0 = 0"
  by (simp add: nxt_def)

lemma tab_Cons_ent: "tab m r (k # p) = nxt (ent m r (k # p))"
  by simp

definition no_shared :: "pagemem \<Rightarrow> u64 \<Rightarrow> bool" where
  "no_shared m r \<longleftrightarrow> (\<forall>p q. upath 3 p \<longrightarrow> upath 3 q \<longrightarrow> tab m r p \<noteq> 0 \<longrightarrow> tab m r p = tab m r q \<longrightarrow> p = q)"

lemma no_sharedD: "no_shared m r \<Longrightarrow> upath 3 p \<Longrightarrow> upath 3 q \<Longrightarrow> tab m r p \<noteq> 0 \<Longrightarrow> tab m r p = tab m r q \<Longrightarrow> p = q"
  by (simp add: no_shared_def)

text \<open>Nothing hangs below entry \<open>e\<close>.\<close>

definition barren :: "pagemem \<Rightarrow> u64 \<Rightarrow> bool" where
  "barren m e \<longleftrightarrow> nxt e = 0 \<or> (\<forall>j < 512. m (nxt e) j = 0)"

lemma barren_0 [simp]: "barren m 0"
  by (simp add: barren_def)

text \<open>One entry rewritten, with nothing below it before and after: the tree changes at that one place.\<close>

definition put :: "pagemem \<Rightarrow> u64 \<Rightarrow> nat \<Rightarrow> u64 \<Rightarrow> pagemem" where
  "put m a k e = m(a := (m a)(k := e))"

lemma put_apply: "put m a k e b j = (if b = a \<and> j = k then e else m b j)"
  by (simp add: put_def)

definition one_write :: "pagemem \<Rightarrow> u64 \<Rightarrow> nat list \<Rightarrow> nat \<Rightarrow> u64 \<Rightarrow> bool" where
  "one_write m r p k e \<longleftrightarrow> no_shared m r \<and> upath 3 p \<and> tab m r p \<noteq> 0 \<and>
     (length p < 3 \<longrightarrow> nxt e \<noteq> tab m r p \<and> barren m (m (tab m r p) k) \<and> barren m e)"

abbreviation after_write :: "pagemem \<Rightarrow> u64 \<Rightarrow> nat list \<Rightarrow> nat \<Rightarrow> u64 \<Rightarrow> pagemem" where
  "after_write m r p k e \<equiv> put m (tab m r p) k e"

lemma one_writeD:
  assumes "one_write m r p k e"
  shows "no_shared m r" "upath 3 p" "tab m r p \<noteq> 0" "length p < 3 \<Longrightarrow> nxt e \<noteq> tab m r p"
    "length p < 3 \<Longrightarrow> barren m (m (tab m r p) k)" "length p < 3 \<Longrightarrow> barren m e"
  using assms by (simp_all add: one_write_def)

lemma tab_put:
  assumes w: "one_write m r p k e"
  shows "upath 3 q \<Longrightarrow> tab (after_write m r p k e) r q = (if q = k # p then nxt e else tab m r q)"
proof (induction q)
  case (Cons j q)
  note ns = one_writeD(1) [OF w] and p = one_writeD(2) [OF w] and there = one_writeD(3) [OF w] and apart = one_writeD(4) [OF w]
    and old = one_writeD(5) [OF w] and new = one_writeD(6) [OF w]
  have q: "upath 3 q" and j: "j < 512"
    using upath_ConsD(2,3) [OF Cons.prems] by simp_all
  show ?case
  proof (cases "q = k # p")
    case True
    then have "length p < 3"
      using Cons.prems by (simp add: upath_def)
    then have b: "barren m (m (tab m r p) k)" "barren m e" "nxt e \<noteq> tab m r p"
      using old new apart by simp_all
    have "tab m r (j # q) = 0"
      using b(1) True there j by (auto simp: barren_def)
    moreover have "tab (after_write m r p k e) r q = nxt e"
      using Cons.IH [OF q] True by simp
    then have "tab (after_write m r p k e) r (j # q) = 0"
      using b(2,3) j using put_apply [of m "tab m r p" k e "nxt e" j] by (auto simp: barren_def)
    ultimately show ?thesis
      using True by simp
  next
    case False
    have t: "tab (after_write m r p k e) r q = tab m r q"
      using Cons.IH [OF q] False by simp
    have "q = p" if "tab m r q = tab m r p" "tab m r q \<noteq> 0"
      using no_sharedD [OF ns q p that(2,1)] .
    with t show ?thesis
      using there put_apply [of m "tab m r p" k e "tab m r q" j]
      by (cases "tab m r q = tab m r p"; cases "j = k") auto
  qed
qed simp

lemma ent_put:
  assumes w: "one_write m r p k e" and "upath 4 q" "q \<noteq> []"
  shows "ent (after_write m r p k e) r q = (if q = k # p then e else ent m r q)"
proof (cases q)
  case (Cons j q')
  note ns = one_writeD(1) [OF w] and p = one_writeD(2) [OF w] and there = one_writeD(3) [OF w] and apart = one_writeD(4) [OF w]
    and old = one_writeD(5) [OF w] and new = one_writeD(6) [OF w]
  have q: "upath 3 q'" and j: "j < 512"
    using upath_place(2) [of j q'] upath_ConsD(2) [of 4 j q'] Cons assms(2) by simp_all
  show ?thesis
  proof (cases "q' = k # p")
    case True
    then have "length p < 3"
      using q by (simp add: upath_def)
    then have b: "barren m (m (tab m r p) k)" "barren m e" "nxt e \<noteq> tab m r p"
      using old new apart by simp_all
    have "ent m r q = 0"
      using b(1) Cons True there j by (auto simp: barren_def)
    moreover have "ent (after_write m r p k e) r q = 0"
      using b(2) Cons True tab_put [OF w q] b(3) j using put_apply [of m "tab m r p" k e "nxt e" j] by (auto simp: barren_def)
    ultimately show ?thesis
      using True Cons by simp
  next
    case False
    have t: "tab (after_write m r p k e) r q' = tab m r q'"
      using tab_put [OF w q] False by simp
    have "q' = p" if "tab m r q' = tab m r p" "tab m r q' \<noteq> 0"
      using no_sharedD [OF ns q p that(2,1)] .
    with t show ?thesis
      using there Cons put_apply [of m "tab m r p" k e "tab m r q'" j]
      by (cases "tab m r q' = tab m r p"; cases "j = k") auto
  qed
qed (use assms in simp)

lemma no_shared_put:
  assumes w: "one_write m r p k e" and "length p < 3 \<Longrightarrow> nxt e = 0 \<or> (\<forall>q. upath 3 q \<longrightarrow> tab m r q \<noteq> nxt e)"
  shows "no_shared (after_write m r p k e) r"
  unfolding no_shared_def
proof (intro allI impI)
  fix q1 q2
  assume q: "upath 3 q1" "upath 3 q2" "tab (after_write m r p k e) r q1 \<noteq> 0"
    "tab (after_write m r p k e) r q1 = tab (after_write m r p k e) r q2"
  have "length p < 3" if "q1 = k # p \<or> q2 = k # p"
    using that q(1,2) by (auto simp: upath_def)
  then show "q1 = q2"
    using q(3,4) assms(2) no_sharedD [OF one_writeD(1) [OF w] q(1,2)] q(1,2)
    unfolding tab_put [OF w q(1)] tab_put [OF w q(2)] by (metis (full_types))
qed

text \<open>What is in the tree depends on the pages of the tree only.\<close>

lemma tab_cong:
  assumes "upath 3 q" "\<And>q. upath 3 q \<Longrightarrow> tab m r q \<noteq> 0 \<Longrightarrow> m' (tab m r q) = m (tab m r q)"
  shows "tab m' r q = tab m r q"
  using assms(1)
proof (induction q)
  case (Cons k q)
  have q: "upath 3 q"
    using upath_ConsD(3) [OF Cons.prems] .
  show ?case
    using Cons.IH [OF q] assms(2) [OF q] by simp
qed simp

lemma ent_cong:
  assumes "\<And>q. upath 3 q \<Longrightarrow> tab m r q \<noteq> 0 \<Longrightarrow> m' (tab m r q) = m (tab m r q)" "upath 4 q"
  shows "ent m' r q = ent m r q"
proof (cases q)
  case (Cons k q')
  have "upath 3 q'"
    using assms(2) upath_place(2) [of k q'] Cons by simp
  then show ?thesis
    using Cons tab_cong [of q' m r m'] assms(1) by simp
qed simp

end
