(* ===== verification/MmuInv.thy ===== *)
theory MmuInv
  imports MmuTree
begin

text \<open>
  The invariant of an address space: its lists of pages and the tree of its tables agree, level by level. Adding a table,
  removing an empty one and writing an entry of the last level each keep it, and touch nothing else.
\<close>

section \<open>One page of the kernel area\<close>

lemma find_area_statics:
  assumes "statics s' = statics s"
  shows "find_area s' t = find_area s t"
proof -
  have m: "map ma_type (mo_mareas s') = map ma_type (mo_mareas s)"
    using assms by (simp add: statics_def)
  then have l: "length (mo_mareas s') = length (mo_mareas s)"
    by (metis length_map)
  have "ma_type (mo_mareas s' ! i) = ma_type (mo_mareas s ! i)" if "i < length (mo_mareas s)" for i
    using arg_cong [OF m, of "\<lambda>l. l ! i"] that l by simp
  then show ?thesis
    unfolding find_area_def l by (intro find_cong) auto
qed

definition kblk :: "memmgrob \<Rightarrow> nat \<Rightarrow> nat \<times> bafsel \<times> nat" where
  "kblk g i = (the (find_area g MA_TYPE_KRNL), Lie 0, i)"

lemma kblk_inj [simp]: "kblk g i = kblk g j \<longleftrightarrow> i = j"
  by (simp add: kblk_def)

lemma kblk_statics: "statics g' = statics g \<Longrightarrow> kblk g' = kblk g"
  using find_area_statics [of g' g] by (simp add: kblk_def fun_eq_iff)

text \<open>The address of a page, as the tables name it and as the kernel reaches it.\<close>

definition pg_adr :: "memmgrob \<Rightarrow> nat \<Rightarrow> u64" where
  "pg_adr g i = push_bit PSHRSIZE (ucast (frame_nrs g ! i))"

definition pg_vadr :: "memmgrob \<Rightarrow> nat \<Rightarrow> u64" where
  "pg_vadr g i = kva (pg_adr g i)"

lemma pg_adr_msa: "i < npages g \<Longrightarrow> pg_adr g i = msa_phyadr (msa g i)"
  by (simp add: pg_adr_def msa_phyadr_def frame_nrs_def npages_def msa_def)

lemma pg_statics: "statics g' = statics g \<Longrightarrow> pg_adr g' = pg_adr g \<and> pg_vadr g' = pg_vadr g"
  by (simp add: fun_eq_iff pg_adr_def pg_vadr_def statics_def)

lemma pg_adr_inj:
  assumes "distinct (frame_nrs g)" "i < npages g" "j < npages g" "pg_adr g i = pg_adr g j"
  shows "i = j"
proof -
  have "frame_nrs g ! i = frame_nrs g ! j"
    using assms(2-4) msa_phyadr_inj [of "msa g i" "msa g j"] pg_adr_msa [of i g] pg_adr_msa [of j g]
    by (simp add: frame_nrs_def npages_def msa_def)
  then show ?thesis
    using assms(1-3) nth_eq_iff_index_eq [of "frame_nrs g" i j] by (simp add: frame_nrs_def npages_def)
qed

definition sound :: "memmgrob \<Rightarrow> blocks \<Rightarrow> bool" where
  "sound g A \<longleftrightarrow> mem_inv g A \<and> phys_ok g A"

lemma soundD: "sound g A \<Longrightarrow> mem_inv g A" "sound g A \<Longrightarrow> phys_ok g A" "sound g A \<Longrightarrow> distinct (frame_nrs g)"
  by (simp_all add: sound_def phys_ok_def)

lemma alloc_page_in: "(a, Lie 0, i) \<in> A \<Longrightarrow> i \<in> alloc_pages A a"
  by (force simp: alloc_pages_def)

lemma held_page:
  assumes "sound g A" "i \<in> area_own g A a"
  shows "i < npages g" "a < nareas g" "page_adr (pg_adr g i)" "msadsc_ret_addr g (Some i) = Inr (pg_adr g i)"
    "ma_type (area g a) = MA_TYPE_KRNL \<Longrightarrow> mapped (pg_adr g i)"
proof -
  have r: "i < npages g \<and> a < nareas g"
    using pages_in_range [OF soundD(1) [OF assms(1)]] assms(2) by (simp add: area_own_def)
  have ok: "adr_ok (paf_padrs (msa g i))"
    using soundD(2) [OF assms(1)] assms(2) by (auto simp: phys_ok_def)
  show "i < npages g" "a < nareas g"
    using r by simp_all
  show "page_adr (pg_adr g i)"
    using r pg_adr_msa msa_phyadr_adr(1) [OF ok] by simp
  show "msadsc_ret_addr g (Some i) = Inr (pg_adr g i)"
    using r by (simp add: msadsc_ret_addr_def pg_adr_msa getm_msa)
  show "mapped (pg_adr g i)" if "ma_type (area g a) = MA_TYPE_KRNL"
  proof -
    have "unat (paf_padrs (msa g i)) < 2 ^ 22"
      using soundD(2) [OF assms(1)] assms(2) that by (auto simp: phys_ok_def)
    then show ?thesis
      using msa_phyadr_adr(2) [OF ok]
      by (simp add: mapped_def KRNL_MAP_PHYADDRESS_END_def r pg_adr_msa word_less_nat_alt)
  qed
qed

lemma krnl_area:
  assumes "find_area g MA_TYPE_KRNL = Some a"
  shows "a < nareas g" "ma_type (area g a) = MA_TYPE_KRNL" "kblk g i = (a, Lie 0, i)"
  using find_area_Some [OF assms] assms by (simp_all add: kblk_def)

lemma kblk_page:
  assumes s: "sound g A" and k: "find_area g MA_TYPE_KRNL = Some a" and i: "kblk g i \<in> A"
  shows "i < npages g" "page_adr (pg_adr g i)" "msadsc_ret_addr g (Some i) = Inr (pg_adr g i)" "mapped (pg_adr g i)"
proof -
  have "i \<in> area_own g A a"
    using i alloc_page_in [of a i A] krnl_area(3) [OF k, of i] by (simp add: area_own_def)
  from held_page [OF s this] krnl_area(2) [OF k] show
    "i < npages g" "page_adr (pg_adr g i)" "msadsc_ret_addr g (Some i) = Inr (pg_adr g i)" "mapped (pg_adr g i)"
    by simp_all
qed

lemma sound_same:
  assumes "sound g A" "mem_inv g' A'" "statics g' = statics g" "\<And>a. area_own g' A' a = area_own g A a"
  shows "sound g' A'"
  using phys_ok_same [OF soundD(1) [OF assms(1)] assms(3,4) soundD(2) [OF assms(1)]] assms(2) by (simp add: sound_def)

lemma order_for_1: "order_for (unat (1 :: u64)) = 0"
  using order_for_bounds(2) [of 1] by simp

text \<open>No list of the kernel area has a block: the area has no free page.\<close>

lemma no_fit_empty:
  assumes inv: "mem_inv g A" and a: "a < nareas g" "ma_type (area g a) = MA_TYPE_KRNL" and n: "best_fit g a 0 = None"
  shows "free_pages g a = {}"
proof -
  have "sel = Lie k \<Longrightarrow> (a, sel, i) \<notin> freeset g" for sel k i
    using n a(1) by (auto simp: best_fit_def find_None_iff freeset_def)
  moreover have "(a, Onem, i) \<notin> freeset g" for i
  proof
    assume "(a, Onem, i) \<in> freeset g"
    then have "ma_type (area g a) = MA_TYPE_PROC"
      using mem_invD(6) [OF inv] unfolding sel_area_def by fastforce
    then show False
      using a(2) by (simp add: MA_TYPE_KRNL_def MA_TYPE_PROC_def)
  qed
  ultimately have "(a, sel, i) \<notin> freeset g" for sel i
    by (cases sel) auto
  then show ?thesis
    by (auto simp: free_pages_def)
qed

text \<open>A request for one page: refused, or a page that was vacant.\<close>

lemma krnl_page_new:
  assumes s: "sound g A" and k: "find_area g MA_TYPE_KRNL = Some a"
  obtains "mm_division_pages g 1 MA_TYPE_KRNL DMF_RELDIV = Inr ((None, 0), g)" "free_pages g a = {}"
  | i g' where "mm_division_pages g 1 MA_TYPE_KRNL DMF_RELDIV = Inr ((Some i, 1), g')" "sound g' (insert (kblk g i) A)"
    "statics g' = statics g" "kblk g i \<notin> A" "i \<in> page_vacant g" "page_vacant g' = page_vacant g - {i}"
    "\<And>b sel j. (b, sel, j) \<in> A \<Longrightarrow> i \<noteq> j" "free_pages g' a = free_pages g a - {i}" "i \<in> free_pages g a"
proof -
  note inv = soundD(1) [OF s] and A = krnl_area [OF k]
  have ty: "ma_type (area g a) = MA_TYPE_KRNL \<or> ma_type (area g a) = MA_TYPE_HWAD"
    using A(2) by simp
  show ?thesis
  proof (cases "best_fit g a 0")
    case None
    then show ?thesis
      using division_pages_None [OF inv A(1) ty, of 1] that(1) [OF _ no_fit_empty [OF inv A(1,2) None]]
      unfolding order_for_1 A(2) by simp
  next
    case (Some d)
    define i where "i = hd (frelst g a (Lie d))"
    have "best_fit g a (order_for (unat (1 :: u64))) = Some d"
      using Some unfolding order_for_1 .
    from division_pages_Some [OF inv A(1) _ ty refl this i_def] obtain g' where
      g': "mm_division_pages g 1 MA_TYPE_KRNL DMF_RELDIV = Inr ((Some i, 1), g')" "mem_inv g' (insert (kblk g i) A)"
      "free_pages g' = (free_pages g)(a := free_pages g a - {i..<i + 1})"
      unfolding order_for_1 A(2,3) by auto
    note B = best_fit_Some [OF Some]
    have fr: "(a, Lie d, i) \<in> freeset g"
      using A(1) B(2,3) by (simp add: i_def)
    have i: "i \<in> free_pages g a"
      using free_block_prefix [OF fr, of 0] by simp
    have fp: "free_pages g' = (free_pages g)(a := free_pages g a - {i})"
      using g'(3) by simp
    have own: "area_own g' (insert (kblk g i) A) b = area_own g A b" for b
      using i by (auto simp: area_own_def fp A(3) alloc_pages_insert)
    have st: "statics g' = statics g"
      using statics_after(1) [OF g'(1)] .
    have v: "page_vacant g' = page_vacant g - {i}"
      by (rule page_vacant_upd [OF inv _ fp]) (use i in simp)
    have n: "i \<noteq> j" if "(b, sel, j) \<in> A" for b sel j
      using free_block_fresh [OF inv fr, of b sel] that by blast
    show ?thesis
      by (rule that(2) [OF g'(1) sound_same [OF s g'(2) st own] st _ _ v])
        (use i n A(3) fp in \<open>auto simp: page_vacant_def\<close>)
  qed
qed

text \<open>A page of the kernel area given back.\<close>

lemma krnl_page_del:
  assumes s: "sound g A" and k: "find_area g MA_TYPE_KRNL = Some a" and i: "kblk g i \<in> A"
  shows "onfrmsa_retn_fpagenr g (Some i) = Inr 1"
    "\<exists>g'. mm_merge_pages g (Some i) 1 = Inr (True, g') \<and> sound g' (A - {kblk g i}) \<and> statics g' = statics g \<and>
       page_vacant g' = insert i (page_vacant g)"
proof -
  note inv = soundD(1) [OF s] and A = krnl_area [OF k]
  have mem: "(a, Lie 0, i) \<in> A" and sz: "selsz (Lie 0) = 1"
    using i by (simp_all add: A(3))
  from given_page [OF inv mem sz] obtain g' where
    g': "onfrmsa_retn_fpagenr g (Some i) = Inr 1" "mm_merge_pages g (Some i) 1 = Inr (True, g')"
    "mem_inv g' (A - {kblk g i})" "statics g' = statics g" "\<And>b. area_own g' (A - {kblk g i}) b = area_own g A b"
    unfolding A(3) by blast
  from merge_pages_block [OF inv mem] g'(2) have fp: "free_pages g' = (free_pages g)(a := insert i (free_pages g a))"
    by auto
  show "onfrmsa_retn_fpagenr g (Some i) = Inr 1"
    by (rule g'(1))
  have "page_vacant g' = insert i (page_vacant g)"
    by (auto simp: page_vacant_def fp)
  then show "\<exists>g'. mm_merge_pages g (Some i) 1 = Inr (True, g') \<and> sound g' (A - {kblk g i}) \<and> statics g' = statics g \<and>
       page_vacant g' = insert i (page_vacant g)"
    using g'(2,4) sound_same [OF s g'(3,4,5)] by blast
qed

section \<open>An address space in order\<close>

fun depth :: "dire \<Rightarrow> nat" where
  "depth Tdir = 0" | "depth Sdir = 1" | "depth Idir = 2" | "depth Mdir = 3"

lemma depth_inj: "depth lv = depth lv' \<longleftrightarrow> lv = lv'"
  by (cases lv; cases lv') simp_all

lemma depth_below: "lv \<noteq> Mdir \<Longrightarrow> depth (below lv) = Suc (depth lv)"
  by (cases lv) simp_all

lemma depth_le: "depth lv \<le> 3" "lv \<noteq> Mdir \<Longrightarrow> depth lv < 3" "n \<le> 3 \<Longrightarrow> \<exists>lv. depth lv = n"
proof -
  show "n \<le> 3 \<Longrightarrow> \<exists>lv. depth lv = n"
    using depth.simps by (metis One_nat_def less_Suc_eq_0_disj linorder_le_less_linear not_less_eq_eq
      numeral_2_eq_2 numeral_3_eq_3 le_Suc_eq le_0_eq)
qed (cases lv; simp)+

lemma dir_upd_simps [simp]:
  "dir_head lv' (dir_upd lv l n m) = (if lv' = lv then l else dir_head lv' m)"
  "dir_msanr lv' (dir_upd lv l n m) = (if lv' = lv then n else dir_msanr lv' m)"
  "mud_tdirearr (dir_upd lv l n m) = mud_tdirearr m" "mud_cr3 (dir_upd lv l n m) = mud_cr3 m"
  "mud_stus (dir_upd lv l n m) = mud_stus m" "mud_flag (dir_upd lv l n m) = mud_flag m"
  "dir_upd lv l' n' (dir_upd lv l n m) = dir_upd lv l' n' m"
  by (cases lv; cases lv'; simp)+

definition tpages :: "mmudsc \<Rightarrow> nat set" where
  "tpages m = (\<Union>lv. set (dir_head lv m))"

definition tabs_at :: "pagemem \<Rightarrow> u64 \<Rightarrow> nat \<Rightarrow> u64 set" where
  "tabs_at mem r n = {tab mem r p |p. upath 3 p \<and> length p = n \<and> tab mem r p \<noteq> 0}"

lemma tabs_atE:
  assumes "x \<in> tabs_at mem r n"
  obtains p where "upath 3 p" "length p = n" "x = tab mem r p" "x \<noteq> 0"
  using assms by (auto simp: tabs_at_def)

lemma tabs_atI: "upath 3 p \<Longrightarrow> tab mem r p \<noteq> 0 \<Longrightarrow> tab mem r p \<in> tabs_at mem r (length p)"
  by (auto simp: tabs_at_def)

lemma tabs_at_add:
  assumes t: "\<And>q. upath 3 q \<Longrightarrow> tab mem' r q = (if q = c then v else tab mem r q)" and c: "upath 3 c" "tab mem r c = 0" "v \<noteq> 0"
  shows "tabs_at mem' r n = (if n = length c then insert v (tabs_at mem r n) else tabs_at mem r n)"
proof -
  have "tabs_at mem r n \<subseteq> tabs_at mem' r n"
  proof
    fix x assume "x \<in> tabs_at mem r n"
    then obtain p where "upath 3 p" "length p = n" "x = tab mem r p" "x \<noteq> 0"
      by (rule tabs_atE)
    then show "x \<in> tabs_at mem' r n"
      using tabs_atI [of p mem' r] t [of p] c(2) by (auto split: if_splits)
  qed
  moreover have "v \<in> tabs_at mem' r (length c)"
    using tabs_atI [of c mem' r] t [of c] c by simp
  moreover have "x = v \<and> n = length c \<or> x \<in> tabs_at mem r n" if "x \<in> tabs_at mem' r n" for x
  proof -
    from that obtain p where p: "upath 3 p" "length p = n" "x = tab mem' r p" "x \<noteq> 0"
      by (rule tabs_atE)
    then show ?thesis
      using t [OF p(1)] tabs_atI [of p mem r] by (cases "p = c") auto
  qed
  ultimately show ?thesis
    by auto
qed

lemma tabs_at_del:
  assumes t: "\<And>q. upath 3 q \<Longrightarrow> tab mem' r q = (if q = c then 0 else tab mem r q)" and c: "upath 3 c"
    and ns: "no_shared mem r"
  shows "tabs_at mem' r n = (if n = length c then tabs_at mem r n - {tab mem r c} else tabs_at mem r n)"
proof -
  have "x \<in> tabs_at mem r n \<and> (n = length c \<longrightarrow> x \<noteq> tab mem r c)" if "x \<in> tabs_at mem' r n" for x
  proof -
    from that obtain p where p: "upath 3 p" "length p = n" "x = tab mem' r p" "x \<noteq> 0"
      by (rule tabs_atE)
    then have "p \<noteq> c" "x = tab mem r p"
      using t [OF p(1)] by auto
    then show ?thesis
      using no_sharedD [OF ns p(1) c] p tabs_atI [of p mem r] by auto
  qed
  moreover have "x \<in> tabs_at mem' r n" if x: "x \<in> tabs_at mem r n" "n = length c \<longrightarrow> x \<noteq> tab mem r c" for x
  proof -
    from x(1) obtain p where p: "upath 3 p" "length p = n" "x = tab mem r p" "x \<noteq> 0"
      by (rule tabs_atE)
    then show ?thesis
      using x(2) t [OF p(1)] tabs_atI [of p mem' r] by (cases "p = c") auto
  qed
  ultimately show ?thesis
    by auto
qed

definition entry_ok :: "u64 \<Rightarrow> bool" where
  "entry_ok e \<longleftrightarrow> (\<exists>p f. page_adr p \<and> entry_flags f \<and> e = or p f)"

lemma entry_ok_have: "entry_ok e \<Longrightarrow> dire_is_have e"
  using entry_points(2) by (auto simp: entry_ok_def)

text \<open>
  The lists hold the pages of the tables, level by level, and nothing else; no table is pointed at twice; every entry of
  the user half is 0 or points at a page; and no table below the root is empty, but for those at the places \<open>X\<close> an
  operation is at work on. \<open>B\<close> are the blocks that others hold.
\<close>

definition mmu_ok :: "mmust \<Rightarrow> blocks \<Rightarrow> nat list set \<Rightarrow> bool" where
  "mmu_ok st B X \<longleftrightarrow>
     (let g = ms_grob st; m = ms_mmu st; mem = ms_mem st; r = mud_tdirearr m in
      find_area g MA_TYPE_KRNL \<noteq> None \<and>
      sound g (B \<union> kblk g ` tpages m) \<and> B \<inter> kblk g ` tpages m = {} \<and> r \<noteq> 0 \<and>
      (\<forall>lv. distinct (dir_head lv m) \<and> dir_msanr lv m = of_nat (length (dir_head lv m)) \<and>
         pg_vadr g ` set (dir_head lv m) = tabs_at mem r (depth lv)) \<and>
      no_shared mem r \<and>
      (\<forall>q. upath 4 q \<longrightarrow> q \<noteq> [] \<longrightarrow> ent mem r q = 0 \<or> entry_ok (ent mem r q)) \<and>
      (\<forall>q. upath 3 q \<longrightarrow> q \<noteq> [] \<longrightarrow> q \<notin> X \<longrightarrow> tab mem r q \<noteq> 0 \<longrightarrow> (\<exists>k < 512. ent mem r (k # q) \<noteq> 0)))"

abbreviation root :: "mmust \<Rightarrow> u64" where "root st \<equiv> mud_tdirearr (ms_mmu st)"
abbreviation table :: "mmust \<Rightarrow> nat list \<Rightarrow> u64" where "table st \<equiv> tab (ms_mem st) (root st)"
abbreviation slot :: "mmust \<Rightarrow> nat list \<Rightarrow> u64" where "slot st \<equiv> ent (ms_mem st) (root st)"

lemma mmu_okD:
  assumes "mmu_ok st B X"
  shows "find_area (ms_grob st) MA_TYPE_KRNL \<noteq> None"
    "sound (ms_grob st) (B \<union> kblk (ms_grob st) ` tpages (ms_mmu st))"
    "B \<inter> kblk (ms_grob st) ` tpages (ms_mmu st) = {}" "root st \<noteq> 0"
    "distinct (dir_head lv (ms_mmu st))" "dir_msanr lv (ms_mmu st) = of_nat (length (dir_head lv (ms_mmu st)))"
    "pg_vadr (ms_grob st) ` set (dir_head lv (ms_mmu st)) = tabs_at (ms_mem st) (root st) (depth lv)"
    "no_shared (ms_mem st) (root st)"
    "upath 4 q \<Longrightarrow> q \<noteq> [] \<Longrightarrow> slot st q = 0 \<or> entry_ok (slot st q)"
    "upath 3 q \<Longrightarrow> q \<noteq> [] \<Longrightarrow> q \<notin> X \<Longrightarrow> table st q \<noteq> 0 \<Longrightarrow> \<exists>k < 512. slot st (k # q) \<noteq> 0"
  using assms by (simp_all add: mmu_ok_def Let_def)

lemma mmu_okI:
  assumes "find_area (ms_grob st) MA_TYPE_KRNL \<noteq> None"
    "sound (ms_grob st) (B \<union> kblk (ms_grob st) ` tpages (ms_mmu st))"
    "B \<inter> kblk (ms_grob st) ` tpages (ms_mmu st) = {}" "root st \<noteq> 0"
    "\<And>lv. distinct (dir_head lv (ms_mmu st))" "\<And>lv. dir_msanr lv (ms_mmu st) = of_nat (length (dir_head lv (ms_mmu st)))"
    "\<And>lv. pg_vadr (ms_grob st) ` set (dir_head lv (ms_mmu st)) = tabs_at (ms_mem st) (root st) (depth lv)"
    "no_shared (ms_mem st) (root st)"
    "\<And>q. upath 4 q \<Longrightarrow> q \<noteq> [] \<Longrightarrow> slot st q = 0 \<or> entry_ok (slot st q)"
    "\<And>q. upath 3 q \<Longrightarrow> q \<noteq> [] \<Longrightarrow> q \<notin> X \<Longrightarrow> table st q \<noteq> 0 \<Longrightarrow> \<exists>k < 512. slot st (k # q) \<noteq> 0"
  shows "mmu_ok st B X"
  unfolding mmu_ok_def Let_def by (intro conjI allI impI; rule assms)

lemma table_page:
  assumes ok: "mmu_ok st B X" and q: "upath 3 q" "table st q \<noteq> 0" "length q = depth lv"
  obtains i where "i \<in> set (dir_head lv (ms_mmu st))" "table st q = pg_vadr (ms_grob st) i"
proof -
  have "table st q \<in> tabs_at (ms_mem st) (root st) (depth lv)"
    using q by (auto simp: tabs_at_def)
  then show ?thesis
    unfolding mmu_okD(7) [OF ok, symmetric] using that by blast
qed

lemma tpage_facts:
  assumes ok: "mmu_ok st B X" and i: "i \<in> tpages (ms_mmu st)"
  shows "i < npages (ms_grob st)" "page_adr (pg_adr (ms_grob st) i)" "mapped (pg_adr (ms_grob st) i)"
    "msadsc_ret_addr (ms_grob st) (Some i) = Inr (pg_adr (ms_grob st) i)"
proof -
  obtain a where a: "find_area (ms_grob st) MA_TYPE_KRNL = Some a"
    using mmu_okD(1) [OF ok] by blast
  have "kblk (ms_grob st) i \<in> B \<union> kblk (ms_grob st) ` tpages (ms_mmu st)"
    using i by blast
  from kblk_page [OF mmu_okD(2) [OF ok] a this] show
    "i < npages (ms_grob st)" "page_adr (pg_adr (ms_grob st) i)" "mapped (pg_adr (ms_grob st) i)"
    "msadsc_ret_addr (ms_grob st) (Some i) = Inr (pg_adr (ms_grob st) i)"
    by blast+
qed

lemma head_tpages: "i \<in> set (dir_head lv m) \<Longrightarrow> i \<in> tpages m"
  by (auto simp: tpages_def)

lemma entry_of_page:
  assumes "page_adr (pg_adr g i)" "entry_flags f"
  shows "nxt (or (pg_adr g i) f) = pg_vadr g i" "entry_ok (or (pg_adr g i) f)"
  using entry_points [OF assms] assms by (auto simp: nxt_def pg_vadr_def entry_ok_def)

lemma entry_ok_nxt: "entry_ok e \<Longrightarrow> nxt e \<noteq> 0 \<and> nxt e = kva (dire_ret_padr e)"
proof -
  assume "entry_ok e"
  then obtain p f where e: "page_adr p" "entry_flags f" "e = or p f"
    by (auto simp: entry_ok_def)
  note pt = entry_points [OF e(1,2), folded e(3)]
  have p: "unat p < 2 ^ 40"
    using e(1) by (simp add: page_adr_def word_less_nat_alt)
  then have "unat (kva p) = unat p + 0xffff800000000000"
    by (simp add: kva_def KRNL_MAP_VIRTADDRESS_START_def unat_word_ariths)
  then have "kva p \<noteq> 0"
    by (metis add_is_0 unat_0 zero_neq_numeral)
  then show ?thesis
    using pt by (simp add: nxt_def)
qed

declare tab.simps(2) [simp del] ent.simps(2) [simp del]

lemma slot_table: "table st p \<noteq> 0 \<Longrightarrow> ms_mem st (table st p) k = slot st (k # p)"
  by (simp add: ent.simps)

text \<open>An entry that has something, above the last level: the table it points at.\<close>

lemma have_table:
  assumes ok: "mmu_ok st B X" and q: "upath 3 (k # p)" and h: "slot st (k # p) \<noteq> 0"
  shows "table st (k # p) \<noteq> 0" "dire_ret_vadr (slot st (k # p)) = Inr (table st (k # p))"
    "dire_is_have (slot st (k # p))"
proof -
  let ?e = "slot st (k # p)"
  have e: "entry_ok ?e"
    using mmu_okD(9) [OF ok upath_up [OF q]] h by simp
  have t: "table st (k # p) = kva (dire_ret_padr ?e)"
    unfolding tab_Cons_ent using entry_ok_nxt [OF e] by simp
  show nz: "table st (k # p) \<noteq> 0"
    using conjunct1 [OF entry_ok_nxt [OF e]] unfolding tab_Cons_ent .
  show "dire_is_have ?e"
    by (rule entry_ok_have [OF e])
  obtain lv where lv: "depth lv = length (k # p)"
    using depth_le(3) [of "length (k # p)"] q by (auto simp: upath_def)
  from table_page [OF ok q nz lv [symmetric]] obtain i where
    i: "i \<in> set (dir_head lv (ms_mmu st))" "table st (k # p) = pg_vadr (ms_grob st) i" .
  have "dire_ret_padr ?e = pg_adr (ms_grob st) i"
    using i(2) unfolding t pg_vadr_def kva_inj .
  then have "mapped (dire_ret_padr ?e)"
    using tpage_facts(3) [OF ok head_tpages [OF i(1)]] by simp
  then show "dire_ret_vadr ?e = Inr (table st (k # p))"
    using mapped_kva(1) t by (simp add: dire_ret_vadr_def)
qed

lemma vadr_inj:
  assumes ok: "mmu_ok st B X" and ij: "i < npages (ms_grob st)" "j < npages (ms_grob st)"
  shows "pg_vadr (ms_grob st) i = pg_vadr (ms_grob st) j \<longleftrightarrow> i = j"
  using pg_adr_inj [OF soundD(3) [OF mmu_okD(2) [OF ok]] ij] by (auto simp: pg_vadr_def)

text \<open>What one step of a translation may touch.\<close>

definition kernel_free :: "mmust \<Rightarrow> nat set" where
  "kernel_free st = free_pages (ms_grob st) (the (find_area (ms_grob st) MA_TYPE_KRNL))"

lemma finite_kernel_free: "mmu_ok st B X \<Longrightarrow> finite (kernel_free st)"
  unfolding kernel_free_def using finite_free_pages mem_invD(1) soundD(1) mmu_okD(2) by blast

lemma card_less_one: "finite S \<Longrightarrow> card S \<le> Suc (card (S - {i}))"
  using card_mono [of "insert i (S - {i})" S] card_insert_if [of "S - {i}" i] by fastforce

definition mmu_pages :: "mmust \<Rightarrow> nat set" where
  "mmu_pages st = tpages (ms_mmu st) \<union> page_vacant (ms_grob st)"

definition mmu_frame :: "mmust \<Rightarrow> mmust \<Rightarrow> bool" where
  "mmu_frame st st' \<longleftrightarrow>
     statics (ms_grob st') = statics (ms_grob st) \<and> root st' = root st \<and> ms_cr3 st' = ms_cr3 st \<and>
     ms_pml4 st' = ms_pml4 st \<and> mud_cr3 (ms_mmu st') = mud_cr3 (ms_mmu st) \<and> mmu_pages st' = mmu_pages st \<and>
     (\<forall>a. a \<notin> pg_vadr (ms_grob st) ` mmu_pages st \<longrightarrow> ms_mem st' a = ms_mem st a) \<and>
     (\<forall>k \<ge> 256. ms_mem st' (root st) k = ms_mem st (root st) k)"

lemma mmu_frame_refl [simp]: "mmu_frame st st"
  by (simp add: mmu_frame_def)

lemma mmu_frame_trans: "mmu_frame s1 s2 \<Longrightarrow> mmu_frame s2 s3 \<Longrightarrow> mmu_frame s1 s3"
  using pg_statics [of "ms_grob s2" "ms_grob s1"] by (simp add: mmu_frame_def)

section \<open>A table added\<close>

lemma direarr_t_init_other [simp]:
  "ms_mmu (direarr_t_init st a) = ms_mmu st" "ms_grob (direarr_t_init st a) = ms_grob st"
  by (simp_all add: direarr_t_init_def set_page_def)

lemma mmu_new_table:
  fixes st B X i g' lv p k f
  defines "g \<equiv> ms_grob st" and "m \<equiv> ms_mmu st"
  defines "st1 \<equiv> (direarr_t_init (st\<lparr>ms_grob := g'\<rparr>) (pg_vadr g i))
    \<lparr>ms_mmu := dir_upd (below lv) (i # dir_head (below lv) m) (dir_msanr (below lv) m + 1) m\<rparr>"
  defines "st2 \<equiv> set_ent st1 (table st p) k (or (pg_adr g i) f)"
  assumes ok: "mmu_ok st B X" and p: "upath 3 (k # p)" "length p = depth lv" "lv \<noteq> Mdir" "table st p \<noteq> 0"
    and empty: "slot st (k # p) = 0" and f: "entry_flags f"
    and g': "sound g' (insert (kblk g i) (B \<union> kblk g ` tpages m))" "statics g' = statics g" "kblk g i \<notin> B"
      "i \<notin> tpages m" "i \<in> page_vacant g" "page_vacant g' = page_vacant g - {i}"
  shows "mmu_ok st2 B (insert (k # p) X)" "mmu_frame st st2" "table st2 (k # p) = pg_vadr g i"
    "upath 4 q \<Longrightarrow> q \<noteq> [] \<Longrightarrow> q \<noteq> k # p \<Longrightarrow> slot st2 q = slot st q" "pg_vadr g i \<noteq> 0"
    "upath 3 q \<Longrightarrow> q \<noteq> k # p \<Longrightarrow> table st2 q = table st q"
    "phyadr_to_viradr (pg_adr g i) = Inr (pg_vadr g i)" "i < npages g"
    "msadsc_ret_addr g' (Some i) = Inr (pg_adr g i)"
proof -
  obtain a where a: "find_area g MA_TYPE_KRNL = Some a"
    using mmu_okD(1) [OF ok] by (auto simp: g_def)
  have a': "find_area g' MA_TYPE_KRNL = Some a"
    using a find_area_statics [OF g'(2)] by simp
  have kb: "kblk g' = kblk g" and pv: "pg_vadr g' = pg_vadr g" "pg_adr g' = pg_adr g" and np: "npages g' = npages g"
    using kblk_statics [OF g'(2)] pg_statics [OF g'(2)] staticsD(1) [OF g'(2)] by simp_all
  have "kblk g' i \<in> insert (kblk g i) (B \<union> kblk g ` tpages m)"
    by (simp add: kb)
  note I = kblk_page [OF g'(1) a' this, unfolded pv np]
  note M = mapped_kva [OF I(4), folded pg_vadr_def]
  show v0: "pg_vadr g i \<noteq> 0" and "phyadr_to_viradr (pg_adr g i) = Inr (pg_vadr g i)" "i < npages g"
    "msadsc_ret_addr g' (Some i) = Inr (pg_adr g i)"
    using M I(1,3) by simp_all
  let ?v = "pg_vadr g i"
  have fresh: "table st q \<noteq> ?v" if q: "upath 3 q" for q
  proof
    assume t: "table st q = ?v"
    obtain lw where lw: "depth lw = length q"
      using depth_le(3) [of "length q"] q by (auto simp: upath_def)
    from table_page [OF ok q _ lw [symmetric]] t v0 obtain j where
      j: "j \<in> set (dir_head lw m)" "pg_vadr g i = pg_vadr g j"
      by (auto simp: m_def g_def)
    have "j \<in> tpages m"
      by (rule head_tpages [OF j(1)])
    moreover from this have "i = j"
      using vadr_inj [OF ok, of i j] tpage_facts(1) [OF ok, of j] j(2) I(1) by (simp add: g_def m_def)
    ultimately show False
      using g'(4) by simp
  qed
  have mem1: "ms_mem st1 = (ms_mem st)(?v := (\<lambda>i. 0))" and r1: "root st1 = root st" and grob1: "ms_grob st1 = g'"
    using v0 by (simp_all add: st1_def direarr_t_init_def set_page_def m_def)
  have t1: "table st1 q = table st q" if "upath 3 q" for q
    unfolding r1 by (rule tab_cong [OF that]) (simp add: mem1 fresh)
  have e1: "slot st1 q = slot st q" if "upath 4 q" for q
    unfolding r1 by (rule ent_cong [OF _ that]) (simp add: mem1 fresh)
  define e where "e = or (pg_adr g i) f"
  have e: "nxt e = ?v" "entry_ok e" "e \<noteq> 0"
    using entry_of_page [OF I(2) f] entry_points(4) [OF I(2) f] by (simp_all add: e_def)
  have p3: "upath 3 p" and p4: "upath 4 (k # p)" and lp: "length p < 3"
    using upath_ConsD(3) [OF p(1)] upath_up [OF p(1)] p(1) by (simp_all add: upath_def)
  have nz1: "table st1 p \<noteq> 0"
    using t1 [OF p3] p(4) by simp
  have "ms_mem st1 (table st1 p) k = slot st1 (k # p)"
    by (rule slot_table [OF nz1])
  then have old: "ms_mem st1 (table st1 p) k = 0"
    using e1 [OF p4] empty by simp
  have ns1: "no_shared (ms_mem st1) (root st1)"
    unfolding no_shared_def using t1 no_sharedD [OF mmu_okD(8) [OF ok]] by simp
  have w: "one_write (ms_mem st1) (root st1) p k e"
    unfolding one_write_def old e(1) using ns1 p3 nz1 fresh [OF p3] t1 [OF p3]
    by (auto simp: barren_def e(1) mem1)
  have m2: "ms_mem st2 = put (ms_mem st1) (table st1 p) k e" and r2: "root st2 = root st1" and g2: "ms_grob st2 = g'"
    and mm2: "ms_mmu st2 = ms_mmu st1"
    using t1 [OF p3] grob1 by (simp_all add: st2_def set_ent_def set_page_def put_def e_def)
  have t2: "table st2 q = (if q = k # p then ?v else table st q)" if "upath 3 q" for q
    unfolding r2 m2 using tab_put [OF w that] e(1) t1 [OF that] by simp
  have e2: "slot st2 q = (if q = k # p then e else slot st q)" if "upath 4 q" "q \<noteq> []" for q
    unfolding r2 m2 using ent_put [OF w that] e1 [OF that(1)] by simp
  show "table st2 (k # p) = ?v"
    using t2 [OF p(1)] by simp
  show "slot st2 q = slot st q" if "upath 4 q" "q \<noteq> []" "q \<noteq> k # p"
    using e2 that by simp
  show "table st2 q = table st q" if "upath 3 q" "q \<noteq> k # p"
    using t2 that by simp
  have tp: "tpages (ms_mmu st2) = insert i (tpages m)"
    unfolding mm2 by (auto simp: tpages_def st1_def split: if_splits)
  have z: "table st (k # p) = 0"
    using empty by (simp only: tab_Cons_ent nxt_0)
  show "mmu_ok st2 B (insert (k # p) X)"
  proof (rule mmu_okI)
    show "find_area (ms_grob st2) MA_TYPE_KRNL \<noteq> None"
      using a' g2 by simp
    show "sound (ms_grob st2) (B \<union> kblk (ms_grob st2) ` tpages (ms_mmu st2))"
      using g'(1) by (simp add: g2 kb tp)
    show "B \<inter> kblk (ms_grob st2) ` tpages (ms_mmu st2) = {}"
      using mmu_okD(3) [OF ok] g'(3) by (simp add: g2 kb tp g_def m_def)
    show "root st2 \<noteq> 0"
      using mmu_okD(4) [OF ok] r1 r2 by simp
    show "distinct (dir_head lv' (ms_mmu st2))" for lv'
      using mmu_okD(5) [OF ok, of lv'] g'(4) by (auto simp: mm2 st1_def m_def tpages_def)
    show "dir_msanr lv' (ms_mmu st2) = of_nat (length (dir_head lv' (ms_mmu st2)))" for lv'
      using mmu_okD(6) [OF ok, of lv'] by (auto simp: mm2 st1_def m_def)
    show "pg_vadr (ms_grob st2) ` set (dir_head lv' (ms_mmu st2)) = tabs_at (ms_mem st2) (root st2) (depth lv')" for lv'
    proof -
      have "tabs_at (ms_mem st2) (root st2) (depth lv') =
          (if depth lv' = length (k # p) then insert ?v (tabs_at (ms_mem st) (root st) (depth lv'))
           else tabs_at (ms_mem st) (root st) (depth lv'))"
        using tabs_at_add [OF _ p(1) z v0, of "ms_mem st2" "depth lv'"] t2 r1 r2 by simp
      moreover have "depth lv' = length (k # p) \<longleftrightarrow> lv' = below lv"
        using p(2) depth_below [OF p(3)] depth_inj [of lv' "below lv"] by simp
      ultimately show ?thesis
        using mmu_okD(7) [OF ok, of lv'] by (cases "lv' = below lv") (simp_all add: mm2 g2 pv st1_def m_def g_def)
    qed
    show "no_shared (ms_mem st2) (root st2)"
      unfolding m2 r2 by (rule no_shared_put [OF w]) (use e(1) fresh t1 in simp)
    show "slot st2 q = 0 \<or> entry_ok (slot st2 q)" if "upath 4 q" "q \<noteq> []" for q
      using e2 [OF that] e(2) mmu_okD(9) [OF ok that] by simp
    show "\<exists>j < 512. slot st2 (j # q) \<noteq> 0" if q: "upath 3 q" "q \<noteq> []" "q \<notin> insert (k # p) X" "table st2 q \<noteq> 0" for q
    proof -
      have "table st q \<noteq> 0"
        using q t2 [OF q(1)] by simp
      with mmu_okD(10) [OF ok q(1,2)] q(3) obtain j where j: "j < 512" "slot st (j # q) \<noteq> 0"
        by auto
      have "upath 4 (j # q)"
        using upath_place(1) [OF q(1) j(1)] q(2) by simp
      then have "slot st2 (j # q) \<noteq> 0"
        using e2 [of "j # q"] j(2) e(3) by simp
      then show ?thesis
        using j(1) by blast
    qed
  qed
  show "mmu_frame st st2"
    unfolding mmu_frame_def
  proof (intro conjI allI impI)
    show "statics (ms_grob st2) = statics (ms_grob st)" "root st2 = root st" "ms_cr3 st2 = ms_cr3 st" "ms_pml4 st2 = ms_pml4 st"
      "mud_cr3 (ms_mmu st2) = mud_cr3 (ms_mmu st)"
      using g'(2) r1 r2 by (simp_all add: g2 g_def mm2 st1_def m_def st2_def set_ent_def set_page_def direarr_t_init_def)
    show "mmu_pages st2 = mmu_pages st"
      using g'(5,6) by (auto simp: mmu_pages_def tp g2 m_def g_def)
    show "ms_mem st2 b = ms_mem st b" if b: "b \<notin> pg_vadr (ms_grob st) ` mmu_pages st" for b
    proof -
      obtain j where j: "j \<in> set (dir_head lv m)" "table st p = pg_vadr g j"
        using table_page [OF ok p3 p(4,2)] by (auto simp: m_def g_def)
      have "j \<in> mmu_pages st" "i \<in> mmu_pages st"
        using head_tpages [OF j(1)] g'(5) by (simp_all add: mmu_pages_def m_def g_def)
      then have "b \<noteq> table st p" "b \<noteq> ?v"
        using b j(2) by (auto simp: g_def)
      then show ?thesis
        using t1 [OF p3] by (simp add: m2 mem1 put_def)
    qed
    show "ms_mem st2 (root st) j = ms_mem st (root st) j" if "256 \<le> j" for j
    proof -
      have "root st \<noteq> ?v"
        using fresh [of "[]"] by simp
      moreover have "k < 256" if "table st p = root st"
        using no_sharedD [OF mmu_okD(8) [OF ok] p3, of "[]"] p(1,4) that by (simp add: upath_def)
      ultimately show ?thesis
        using t1 [OF p3] \<open>256 \<le> j\<close> by (auto simp: m2 mem1 put_def)
    qed
  qed
qed

section \<open>A table removed\<close>

lemma find_tbl:
  assumes "\<And>x. x \<in> set l \<Longrightarrow> msadsc_ret_addr g (Some x) = Inr (pg_adr g x)" "i \<in> set l"
    "\<And>x. x \<in> set l \<Longrightarrow> pg_adr g x = pg_adr g i \<Longrightarrow> x = i"
  shows "find_tbl g (pg_adr g i) l = Inr (Some i)"
  using assms by (induction l) auto

lemma level_of_page:
  assumes ok: "mmu_ok st B X" and i: "i \<in> set (dir_head lv (ms_mmu st))" "i \<in> set (dir_head lv' (ms_mmu st))"
  shows "lv = lv'"
proof -
  have "pg_vadr (ms_grob st) i \<in> tabs_at (ms_mem st) (root st) (depth lv)"
    "pg_vadr (ms_grob st) i \<in> tabs_at (ms_mem st) (root st) (depth lv')"
    using i unfolding mmu_okD(7) [OF ok, symmetric] by blast+
  then obtain p q where pq: "upath 3 p" "length p = depth lv" "upath 3 q" "length q = depth lv'"
    "table st p = table st q" "table st p \<noteq> 0"
    by (metis tabs_atE)
  then have "p = q"
    using no_sharedD [OF mmu_okD(8) [OF ok]] by blast
  then show ?thesis
    using pq depth_inj by simp
qed

lemma image_remove1:
  assumes "distinct l" "i \<in> set l" "inj_on f (set l)"
  shows "f ` set (remove1 i l) = f ` set l - {f i}"
  using assms by (auto simp: inj_on_def)

lemma mmu_drop_table:
  fixes st B X i lv p k
  defines "g \<equiv> ms_grob st" and "m \<equiv> ms_mmu st"
  assumes ok: "mmu_ok st B X" and p: "upath 3 (k # p)" "length p = depth lv" "lv \<noteq> Mdir" "table st p \<noteq> 0"
    and t: "table st (k # p) = pg_vadr g i" and i: "i \<in> set (dir_head (below lv) m)"
    and zero: "\<And>j. j < 512 \<Longrightarrow> slot st (j # k # p) = 0"
  obtains st1 st2 where "mmu_free_msa (below lv) st i msg = Inr st1" "st2 = set_ent st1 (table st p) k 0"
    "mmu_ok st2 B (insert p (X - {k # p}))" "mmu_frame st st2" "slot st2 (k # p) = 0"
    "\<And>q. upath 4 q \<Longrightarrow> q \<noteq> [] \<Longrightarrow> q \<noteq> k # p \<Longrightarrow> slot st2 q = slot st q"
proof -
  let ?lw = "below lv"
  obtain a where a: "find_area g MA_TYPE_KRNL = Some a"
    using mmu_okD(1) [OF ok] by (auto simp: g_def)
  have it: "i \<in> tpages m"
    by (rule head_tpages [OF i])
  then have "kblk g i \<in> B \<union> kblk g ` tpages m"
    by simp
  from krnl_page_del [OF mmu_okD(2) [OF ok, folded g_def m_def] a this] obtain g' where
    g': "onfrmsa_retn_fpagenr g (Some i) = Inr 1" "mm_merge_pages g (Some i) 1 = Inr (True, g')"
    "sound g' (B \<union> kblk g ` tpages m - {kblk g i})" "statics g' = statics g" "page_vacant g' = insert i (page_vacant g)"
    by blast
  have a': "find_area g' MA_TYPE_KRNL = Some a"
    using a find_area_statics [OF g'(4)] by simp
  have kb: "kblk g' = kblk g" and pv: "pg_vadr g' = pg_vadr g"
    using kblk_statics [OF g'(4)] pg_statics [OF g'(4)] by simp_all
  define m1 where "m1 = dir_upd ?lw (remove1 i (dir_head ?lw m)) (dir_msanr ?lw m - 1) m"
  define st1 where "st1 = st\<lparr>ms_grob := g', ms_mmu := m1\<rparr>"
  define st2 where "st2 = set_ent st1 (table st p) k 0"
  have free: "mmu_free_msa ?lw st i msg = Inr st1"
    using g'(1,2) by (simp add: mmu_free_msa_def Let_def st1_def m1_def m_def g_def)
  have p3: "upath 3 p" and lp: "length p < 3"
    using upath_ConsD(3) [OF p(1)] p(1) by (simp_all add: upath_def)
  have m2: "ms_mem st2 = put (ms_mem st) (table st p) k 0" and r2: "root st2 = root st" and g2: "ms_grob st2 = g'"
    and mm2: "ms_mmu st2 = m1"
    by (simp_all add: st2_def st1_def set_ent_def set_page_def put_def m1_def m_def)
  have "nxt (ms_mem st (table st p) k) = table st (k # p)"
    using p(4) by (simp add: tab.simps)
  moreover have "barren (ms_mem st) (ms_mem st (table st p) k)"
    unfolding barren_def calculation using zero slot_table [of st "k # p"] by auto
  ultimately have w: "one_write (ms_mem st) (root st) p k 0"
    using mmu_okD(8) [OF ok] p3 p(4) by (simp add: one_write_def)
  have t2: "table st2 q = (if q = k # p then 0 else table st q)" if "upath 3 q" for q
    unfolding r2 m2 using tab_put [OF w that] by simp
  have e2: "slot st2 q = (if q = k # p then 0 else slot st q)" if "upath 4 q" "q \<noteq> []" for q
    unfolding r2 m2 using ent_put [OF w that] by simp
  have only: "i \<notin> set (dir_head lv' m)" if "lv' \<noteq> ?lw" for lv'
    using level_of_page [OF ok] i that by (auto simp: m_def)
  have heads: "dir_head lv' m1 = (if lv' = ?lw then remove1 i (dir_head ?lw m) else dir_head lv' m)" for lv'
    by (simp add: m1_def)
  have d: "distinct (dir_head lv' m)" for lv'
    using mmu_okD(5) [OF ok] by (simp add: m_def)
  have hs: "set (dir_head lv' m1) = set (dir_head lv' m) - {i}" for lv'
    using only [of lv'] d [of ?lw] by (simp add: heads)
  have tp: "tpages m1 = tpages m - {i}"
    by (auto simp: tpages_def hs)
  have kA: "B \<union> kblk g ` tpages m - {kblk g i} = B \<union> kblk g ` tpages m1"
    using mmu_okD(3) [OF ok] it by (auto simp: tp g_def m_def)
  have inj: "inj_on (pg_vadr g) (set (dir_head lv' m))" for lv'
    using vadr_inj [OF ok] tpage_facts(1) [OF ok] head_tpages [of _ lv' m] by (auto simp: inj_on_def m_def g_def)
  have "mmu_ok st2 B (insert p (X - {k # p}))"
  proof (rule mmu_okI)
    show "find_area (ms_grob st2) MA_TYPE_KRNL \<noteq> None"
      using a' g2 by simp
    show "sound (ms_grob st2) (B \<union> kblk (ms_grob st2) ` tpages (ms_mmu st2))"
      using g'(3) by (simp add: g2 kb mm2 kA)
    show "B \<inter> kblk (ms_grob st2) ` tpages (ms_mmu st2) = {}"
      using mmu_okD(3) [OF ok] by (auto simp: g2 kb mm2 tp g_def m_def)
    show "root st2 \<noteq> 0"
      using mmu_okD(4) [OF ok] r2 by simp
    show "distinct (dir_head lv' (ms_mmu st2))" for lv'
      using d by (simp add: mm2 heads)
    show "dir_msanr lv' (ms_mmu st2) = of_nat (length (dir_head lv' (ms_mmu st2)))" for lv'
      using mmu_okD(6) [OF ok, of lv'] of_nat_remove1 [OF i] by (auto simp: mm2 m1_def m_def)
    show "pg_vadr (ms_grob st2) ` set (dir_head lv' (ms_mmu st2)) = tabs_at (ms_mem st2) (root st2) (depth lv')" for lv'
    proof -
      have "tabs_at (ms_mem st2) (root st2) (depth lv') =
          (if depth lv' = length (k # p) then tabs_at (ms_mem st) (root st) (depth lv') - {pg_vadr g i}
           else tabs_at (ms_mem st) (root st) (depth lv'))"
        using tabs_at_del [OF _ p(1) mmu_okD(8) [OF ok], of "ms_mem st2" "depth lv'"] t2 r2 t by simp
      moreover have "depth lv' = length (k # p) \<longleftrightarrow> lv' = ?lw"
        using p(2) depth_below [OF p(3)] depth_inj [of lv' ?lw] by simp
      moreover have "pg_vadr g ` set (dir_head lv' m1) =
          (if lv' = ?lw then pg_vadr g ` set (dir_head lv' m) - {pg_vadr g i} else pg_vadr g ` set (dir_head lv' m))"
        using image_remove1 [OF d [of ?lw] i inj] by (simp add: heads)
      ultimately show ?thesis
        using mmu_okD(7) [OF ok, of lv'] by (cases "lv' = ?lw") (simp_all add: mm2 g2 pv m_def g_def)
    qed
    show "no_shared (ms_mem st2) (root st2)"
      unfolding m2 r2 by (rule no_shared_put [OF w]) simp
    show "slot st2 q = 0 \<or> entry_ok (slot st2 q)" if "upath 4 q" "q \<noteq> []" for q
      using e2 [OF that] mmu_okD(9) [OF ok that] by simp
    show "\<exists>j < 512. slot st2 (j # q) \<noteq> 0" if q: "upath 3 q" "q \<noteq> []" "q \<notin> insert p (X - {k # p})" "table st2 q \<noteq> 0" for q
    proof -
      have "table st q \<noteq> 0" "q \<noteq> k # p" "q \<notin> X" "q \<noteq> p"
        using q(3,4) unfolding t2 [OF q(1)] by (simp_all split: if_splits)
      with mmu_okD(10) [OF ok q(1,2)] obtain j where j: "j < 512" "slot st (j # q) \<noteq> 0"
        by auto
      have "upath 4 (j # q)"
        using upath_place(1) [OF q(1) j(1)] q(2) by simp
      then have "slot st2 (j # q) \<noteq> 0"
        using e2 [of "j # q"] j(2) \<open>q \<noteq> p\<close> by simp
      then show ?thesis
        using j(1) by blast
    qed
  qed
  moreover have "mmu_frame st st2"
    unfolding mmu_frame_def
  proof (intro conjI allI impI)
    show "statics (ms_grob st2) = statics (ms_grob st)" "root st2 = root st" "ms_cr3 st2 = ms_cr3 st" "ms_pml4 st2 = ms_pml4 st"
      "mud_cr3 (ms_mmu st2) = mud_cr3 (ms_mmu st)"
      using g'(4) r2 by (simp_all add: g2 g_def mm2 m1_def m_def st2_def st1_def set_ent_def set_page_def)
    show "mmu_pages st2 = mmu_pages st"
      using g'(5) it by (auto simp: mmu_pages_def mm2 tp g2 m_def g_def)
    show "ms_mem st2 b = ms_mem st b" if b: "b \<notin> pg_vadr (ms_grob st) ` mmu_pages st" for b
    proof -
      obtain j where j: "j \<in> set (dir_head lv m)" "table st p = pg_vadr g j"
        using table_page [OF ok p3 p(4,2)] by (auto simp: m_def g_def)
      have "j \<in> mmu_pages st"
        using head_tpages [OF j(1)] by (simp add: mmu_pages_def m_def)
      then have "b \<noteq> table st p"
        using b j(2) by (auto simp: g_def)
      then show ?thesis
        by (simp add: m2 put_def)
    qed
    show "ms_mem st2 (root st) j = ms_mem st (root st) j" if "256 \<le> j" for j
    proof -
      have "k < 256" if "table st p = root st"
        using no_sharedD [OF mmu_okD(8) [OF ok] p3, of "[]"] p(1,4) that by (simp add: upath_def)
      then show ?thesis
        using \<open>256 \<le> j\<close> by (auto simp: m2 put_def)
    qed
  qed
  moreover have "slot st2 (k # p) = 0"
    using e2 [of "k # p"] upath_up [OF p(1)] by simp
  ultimately show ?thesis
    using that [OF free st2_def] e2 by simp
qed


section \<open>The functions of one level\<close>

text \<open>Entries only appear, or only vanish.\<close>

definition grown :: "mmust \<Rightarrow> mmust \<Rightarrow> bool" where
  "grown st st' \<longleftrightarrow> (\<forall>q. upath 4 q \<longrightarrow> q \<noteq> [] \<longrightarrow> slot st q \<noteq> 0 \<longrightarrow> slot st' q = slot st q)"

definition same_leaves :: "mmust \<Rightarrow> mmust \<Rightarrow> bool" where
  "same_leaves st st' \<longleftrightarrow> (\<forall>q. upath 4 q \<longrightarrow> length q = 4 \<longrightarrow> slot st' q = slot st q)"

lemma grown_refl [simp]: "grown st st" "same_leaves st st"
  by (simp_all add: grown_def same_leaves_def)

lemma grown_trans: "grown s1 s2 \<Longrightarrow> grown s2 s3 \<Longrightarrow> grown s1 s3" "same_leaves s1 s2 \<Longrightarrow> same_leaves s2 s3 \<Longrightarrow> same_leaves s1 s3"
  by (simp_all add: grown_def same_leaves_def)

lemma mmu_ok_mono: "mmu_ok st B X \<Longrightarrow> X \<subseteq> Y \<Longrightarrow> mmu_ok st B Y"
  unfolding mmu_ok_def Let_def by blast

lemma entry_place:
  assumes "upath 3 p" "length p = depth lv" "user_adr va"
  shows "upath 4 (dire_index lv va # p)" "lv \<noteq> Mdir \<Longrightarrow> upath 3 (dire_index lv va # p)"
proof -
  have "dire_index lv va < 256" if "p = []"
    using assms(2,3) that depth_inj [of lv Tdir] user_index by simp
  then show "upath 4 (dire_index lv va # p)"
    using upath_place(1) [OF assms(1), of "dire_index lv va"] by simp
  then show "lv \<noteq> Mdir \<Longrightarrow> upath 3 (dire_index lv va # p)"
    using depth_le(2) [of lv] assms(2) by (simp add: upath_def)
qed

lemma transform_dire:
  assumes ok: "mmu_ok st B X" and p: "upath 3 p" "length p = depth lv" "lv \<noteq> Mdir" "table st p \<noteq> 0"
    and f: "entry_flags f" and va: "user_adr va"
  defines "c \<equiv> dire_index lv va # p"
  obtains (refused) "mmu_transform_dire lv st (table st p) va f = Inr ((0, None), st)" "slot st c = 0" "kernel_free st = {}"
  | (entered) msa st' where "mmu_transform_dire lv st (table st p) va f = Inr ((table st' c, msa), st')"
    "mmu_ok st' B (insert c X)" "mmu_frame st st'" "grown st st'" "same_leaves st st'" "table st' c \<noteq> 0"
    "\<And>q. upath 3 q \<Longrightarrow> length q \<le> length p \<Longrightarrow> table st' q = table st q"
    "\<And>j. msa = Some j \<Longrightarrow> j < npages (ms_grob st')" "card (kernel_free st) \<le> Suc (card (kernel_free st'))"
proof -
  have c: "upath 4 c" "upath 3 c"
    using entry_place [OF p(1,2) va] p(3) by (simp_all add: c_def)
  have e: "ms_mem st (table st p) (dire_index lv va) = slot st c"
    unfolding c_def by (rule slot_table [OF p(4)])
  show ?thesis
  proof (cases "slot st c = 0")
    case False
    note h = have_table [OF ok, of "dire_index lv va" p, folded c_def, OF c(2) False]
    have "mmu_transform_dire lv st (table st p) va f = Inr ((table st c, None), st)"
      using p(4) h(2,3) by (simp add: mmu_transform_dire_def Let_def e)
    then show ?thesis
      by (rule entered) (use mmu_ok_mono [OF ok] h(1) in auto)
  next
    case True
    define g where "g = ms_grob st"
    obtain a where a: "find_area g MA_TYPE_KRNL = Some a"
      using mmu_okD(1) [OF ok] by (auto simp: g_def)
    note s = mmu_okD(2) [OF ok, folded g_def]
    show ?thesis
      using krnl_page_new [OF s a]
    proof cases
      case 1
      then have "mmu_new_arr (below lv) st = Inr (None, st)"
        by (simp add: mmu_new_arr_def Let_def g_def)
      then have "mmu_transform_dire lv st (table st p) va f = Inr ((0, None), st)"
        using p(4) True by (simp add: mmu_transform_dire_def Let_def e)
      moreover have "kernel_free st = {}"
        using 1(2) a by (simp add: kernel_free_def g_def)
      ultimately show ?thesis
        using True by (intro refused)
    next
      case (2 i g')
      have i: "i \<notin> tpages (ms_mmu st)" "kblk g i \<notin> B"
        using 2(4) by auto
      let ?k = "dire_index lv va"
      define st1 where "st1 = (direarr_t_init (st\<lparr>ms_grob := g'\<rparr>) (pg_vadr g i))
        \<lparr>ms_mmu := dir_upd (below lv) (i # dir_head (below lv) (ms_mmu st)) (dir_msanr (below lv) (ms_mmu st) + 1) (ms_mmu st)\<rparr>"
      define st2 where "st2 = set_ent st1 (table st p) ?k (or (pg_adr g i) f)"
      note N = mmu_new_table [OF ok c(2) [unfolded c_def] p(2-4) True [unfolded c_def] f, folded g_def,
          OF 2(2,3) i(2,1) 2(5,6), folded st1_def, folded st2_def, folded c_def]
      have "mmu_new_arr (below lv) st = Inr (Some i, st1)"
        using 2(1) N(7,9) by (simp add: mmu_new_arr_def Let_def msadsc_ret_vaddr_def st1_def g_def)
      moreover have "ms_grob st1 = g'"
        by (simp add: st1_def)
      ultimately have r: "mmu_transform_dire lv st (table st p) va f = Inr ((pg_vadr g i, Some i), st2)"
        using p(4) True N(7,9) by (simp add: mmu_transform_dire_def Let_def e st2_def)
      show ?thesis
      proof (rule entered)
        show "mmu_transform_dire lv st (table st p) va f = Inr ((table st2 c, Some i), st2)"
          using r N(3) by simp
        show "mmu_ok st2 B (insert c X)" "mmu_frame st st2" "table st2 c \<noteq> 0"
          using N(1-3,5) by simp_all
        show "grown st st2"
          using True N(4) by (auto simp: grown_def)
        have "length c \<noteq> 4"
          using c(2) by (simp add: upath_def)
        then show "same_leaves st st2"
          unfolding same_leaves_def using N(4) by (metis length_0_conv zero_neq_numeral)
        show "table st2 q = table st q" if "upath 3 q" "length q \<le> length p" for q
        proof -
          have "q \<noteq> c"
            using that(2) by (auto simp: c_def)
          then show ?thesis
            by (rule N(6) [OF that(1)])
        qed
        have "npages (ms_grob st2) = npages g"
          using staticsD(1) [of "ms_grob st2" g] N(2) by (simp add: mmu_frame_def g_def)
        then show "j < npages (ms_grob st2)" if "Some i = Some j" for j
          using N(8) that by simp
        have "ms_grob st2 = g'"
          by (simp add: st2_def st1_def set_ent_def set_page_def)
        then have "kernel_free st2 = kernel_free st - {i}"
          using 2(8) a find_area_statics [OF 2(3)] by (simp add: kernel_free_def g_def)
        then show "card (kernel_free st) \<le> Suc (card (kernel_free st2))"
          by (simp only: card_less_one [OF finite_kernel_free [OF ok]])
      qed
    qed
  qed
qed

lemma untransform_dire:
  assumes ok: "mmu_ok st B X" and p: "upath 3 p" "length p = depth lv" "lv \<noteq> Mdir" "table st p \<noteq> 0"
    and ma: "\<And>j. ma = Some j \<Longrightarrow> j < npages (ms_grob st)" and va: "user_adr va"
  defines "c \<equiv> dire_index lv va # p"
  obtains st' where "mmu_untransform_dire lv st (table st p) ma va = Inr (True, st')"
    "mmu_ok st' B (insert p (X - {c}))" "mmu_frame st st'" "grown st' st" "same_leaves st st'"
    "\<And>q. upath 3 q \<Longrightarrow> length q \<le> length p \<Longrightarrow> table st' q = table st q"
proof -
  have c: "upath 4 c" "upath 3 c"
    using entry_place [OF p(1,2) va] p(3) by (simp_all add: c_def)
  have e: "ms_mem st (table st p) (dire_index lv va) = slot st c"
    unfolding c_def by (rule slot_table [OF p(4)])
  note fin = that
  have stay: thesis if r: "mmu_untransform_dire lv st (table st p) ma va = Inr (True, st)"
    and n: "table st c \<noteq> 0 \<Longrightarrow> \<exists>j < 512. slot st (j # c) \<noteq> 0"
  proof (rule fin [OF r])
    show "mmu_ok st B (insert p (X - {c}))"
    proof (rule mmu_okI)
      show "\<exists>k < 512. slot st (k # q) \<noteq> 0"
        if q: "upath 3 q" "q \<noteq> []" "q \<notin> insert p (X - {c})" "table st q \<noteq> 0" for q
        using mmu_okD(10) [OF ok q(1,2) _ q(4)] n q(3,4) by (cases "q = c") auto
    qed (use mmu_okD [OF ok] in simp_all)
  qed simp_all
  show ?thesis
  proof (cases "slot st c = 0")
    case True
    then have "table st c = 0"
      unfolding c_def tab_Cons_ent by simp
    moreover have "mmu_untransform_dire lv st (table st p) ma va = Inr (True, st)"
      using p(4) True by (simp add: mmu_untransform_dire_def Let_def e)
    ultimately show ?thesis
      using stay by simp
  next
    case False
    note h = have_table [OF ok, of "dire_index lv va" p, folded c_def, OF c(2) False]
    have z: "direarr_is_allzero st (table st c) \<longleftrightarrow> (\<forall>j < 512. slot st (j # c) = 0)"
      using slot_table [OF h(1)] by (auto simp: direarr_is_allzero_def list_all_iff)
    show ?thesis
    proof (cases "direarr_is_allzero st (table st c)")
      case False
      then have "mmu_untransform_dire lv st (table st p) ma va = Inr (True, st)"
        using p(4) h by (simp add: mmu_untransform_dire_def Let_def e)
      then show ?thesis
        using stay False z by blast
    next
      case True
      have d: "length c = depth (below lv)"
        using p(2) depth_below [OF p(3)] by (simp add: c_def)
      from table_page [OF ok c(2) h(1) d] obtain i where
        i: "i \<in> set (dir_head (below lv) (ms_mmu st))" "table st c = pg_vadr (ms_grob st) i" .
      note I = tpage_facts [OF ok head_tpages [OF i(1)]]
      have zero: "slot st (j # dire_index lv va # p) = 0" if "j < 512" for j
        using True z that by (simp add: c_def)
      from mmu_drop_table [OF ok c(2) [unfolded c_def] p(2-4) i(2) [unfolded c_def] i(1) zero, of "''mmu_del_tdirearr err''"]
      obtain st1 st2 where s: "mmu_free_msa (below lv) st i ''mmu_del_tdirearr err'' = Inr st1"
        "st2 = set_ent st1 (table st p) (dire_index lv va) 0"
        "mmu_ok st2 B (insert p (X - {c}))" "mmu_frame st st2" "slot st2 c = 0"
        "\<And>q. upath 4 q \<Longrightarrow> q \<noteq> [] \<Longrightarrow> q \<noteq> c \<Longrightarrow> slot st2 q = slot st q"
        by (auto simp: c_def)
      have all: "msadsc_ret_addr (ms_grob st) (Some x) = Inr (pg_adr (ms_grob st) x)"
        if "x \<in> set (dir_head (below lv) (ms_mmu st))" for x
        using tpage_facts(4) [OF ok head_tpages [OF that]] .
      have uniq: "x = i" if "x < npages (ms_grob st)" "pg_adr (ms_grob st) x = pg_adr (ms_grob st) i" for x
        using pg_adr_inj [OF soundD(3) [OF mmu_okD(2) [OF ok]] that(1) I(1) that(2)] .
      have "find_tbl (ms_grob st) (pg_adr (ms_grob st) i) (dir_head (below lv) (ms_mmu st)) = Inr (Some i)"
        by (rule find_tbl [OF all i(1)]) (use uniq tpage_facts(1) [OF ok head_tpages] in blast)+
      moreover have "msadsc_ret_addr (ms_grob st) (Some x) = Inr (pg_adr (ms_grob st) x)" if "x < npages (ms_grob st)" for x
        using that by (simp add: msadsc_ret_addr_def pg_adr_msa getm_msa)
      moreover have "viradr_to_phyadr (table st c) = Inr (pg_adr (ms_grob st) i)"
        unfolding i(2) pg_vadr_def by (rule mapped_kva(2) [OF I(3)])
      ultimately have "mmu_del_arr (below lv) st (table st c) ma = Inr (True, st1)"
        using h(1) s(1) ma uniq
        by (cases ma; cases "ma = Some i") (simp_all add: mmu_del_arr_def msadsc_ret_addr_def, metis)
      then have "mmu_untransform_dire lv st (table st p) ma va = Inr (True, st2)"
        using p(4) h True by (simp add: mmu_untransform_dire_def Let_def e s(2))
      then show ?thesis
      proof (rule fin)
        show "mmu_ok st2 B (insert p (X - {c}))" "mmu_frame st st2"
          by (rule s)+
        show "grown st2 st"
          unfolding grown_def using s(5,6) by metis
        have "length c \<noteq> 4"
          using c(2) by (simp add: upath_def)
        then show "same_leaves st st2"
          unfolding same_leaves_def using s(6) by (metis length_0_conv zero_neq_numeral)
        show "table st2 q = table st q" if q: "upath 3 q" "length q \<le> length p" for q
        proof (cases q)
          case (Cons j q')
          have "q \<noteq> c"
            using q(2) by (auto simp: c_def)
          then have "slot st2 q = slot st q"
            using s(6) [OF upath_up [OF q(1)]] Cons by simp
          then show ?thesis
            unfolding Cons tab_Cons_ent by simp
        next
          case Nil
          then show ?thesis
            using s(4) by (simp add: mmu_frame_def)
        qed
      qed
    qed
  qed
qed

text \<open>The last level.\<close>

lemma write_leaf:
  fixes st p k e
  defines "st' \<equiv> set_ent st (table st p) k e"
  assumes ok: "mmu_ok st B X" and p: "upath 4 (k # p)" "length p = 3" "table st p \<noteq> 0" and e: "e = 0 \<or> entry_ok e"
  shows "mmu_ok st' B (insert p X)" "mmu_frame st st'" "\<And>q. upath 3 q \<Longrightarrow> table st' q = table st q"
    "\<And>q. upath 4 q \<Longrightarrow> q \<noteq> [] \<Longrightarrow> slot st' q = (if q = k # p then e else slot st q)"
proof -
  have p3: "upath 3 p"
    using upath_place(2) [OF p(1)] .
  have m2: "ms_mem st' = put (ms_mem st) (table st p) k e" and r2: "root st' = root st"
    and o2: "ms_grob st' = ms_grob st" "ms_mmu st' = ms_mmu st"
    by (simp_all add: st'_def set_ent_def set_page_def put_def)
  have w: "one_write (ms_mem st) (root st) p k e"
    using mmu_okD(8) [OF ok] p3 p(2,3) by (simp add: one_write_def)
  show t2: "table st' q = table st q" if "upath 3 q" for q
  proof -
    have "q \<noteq> k # p"
      using that p(2) by (auto simp: upath_def)
    then show ?thesis
      unfolding r2 m2 using tab_put [OF w that] by simp
  qed
  show e2: "slot st' q = (if q = k # p then e else slot st q)" if "upath 4 q" "q \<noteq> []" for q
    unfolding r2 m2 using ent_put [OF w that] by simp
  have ta: "tabs_at (ms_mem st') (root st') n = tabs_at (ms_mem st) (root st) n" for n
    unfolding tabs_at_def using t2 by metis
  show "mmu_ok st' B (insert p X)"
  proof (rule mmu_okI)
    show "no_shared (ms_mem st') (root st')"
      unfolding m2 r2 by (rule no_shared_put [OF w]) (use p(2) in simp)
    show "slot st' q = 0 \<or> entry_ok (slot st' q)" if "upath 4 q" "q \<noteq> []" for q
      using e2 [OF that] e mmu_okD(9) [OF ok that] by simp
    show "\<exists>j < 512. slot st' (j # q) \<noteq> 0" if q: "upath 3 q" "q \<noteq> []" "q \<notin> insert p X" "table st' q \<noteq> 0" for q
    proof -
      obtain j where j: "j < 512" "slot st (j # q) \<noteq> 0"
        using mmu_okD(10) [OF ok q(1,2)] q(3,4) t2 [OF q(1)] by auto
      then have "slot st' (j # q) \<noteq> 0"
        using e2 [OF upath_place(1) [OF q(1) j(1)]] q(2,3) by simp
      then show ?thesis
        using j(1) by blast
    qed
  qed (use mmu_okD [OF ok] ta in \<open>simp_all add: o2\<close>)
  show "mmu_frame st st'"
    unfolding mmu_frame_def
  proof (intro conjI allI impI)
    show "mmu_pages st' = mmu_pages st"
      by (simp add: mmu_pages_def o2)
    show "ms_mem st' b = ms_mem st b" if b: "b \<notin> pg_vadr (ms_grob st) ` mmu_pages st" for b
    proof -
      obtain j where j: "j \<in> set (dir_head Mdir (ms_mmu st))" "table st p = pg_vadr (ms_grob st) j"
        using table_page [OF ok p3 p(3), of Mdir] p(2) by auto
      have "j \<in> mmu_pages st"
        using head_tpages [OF j(1)] by (simp add: mmu_pages_def)
      then have "b \<noteq> table st p"
        using b j(2) by auto
      then show ?thesis
        by (simp add: m2 put_def)
    qed
    show "ms_mem st' (root st) j = ms_mem st (root st) j" if "256 \<le> j" for j
    proof -
      have "table st p \<noteq> root st"
        using no_sharedD [OF mmu_okD(8) [OF ok] p3, of "[]"] p(2,3) by auto
      then show ?thesis
        by (simp add: m2 put_def)
    qed
  qed (use r2 in \<open>simp_all add: st'_def set_ent_def set_page_def\<close>)
qed

text \<open>A table with an entry needs no exemption.\<close>

lemma mmu_ok_filled:
  assumes ok: "mmu_ok st B X" and j: "j < 512" "slot st (j # q) \<noteq> 0"
  shows "mmu_ok st B (X - {q})"
proof (rule mmu_okI)
  show "\<exists>k < 512. slot st (k # q') \<noteq> 0" if q: "upath 3 q'" "q' \<noteq> []" "q' \<notin> X - {q}" "table st q' \<noteq> 0" for q'
    using mmu_okD(10) [OF ok q(1,2) _ q(4)] j q(3) by (cases "q' = q") auto
qed (use mmu_okD [OF ok] in simp_all)

lemma mmu_ok_root:
  assumes "mmu_ok st B X"
  shows "mmu_ok st B (X - {[]})"
proof (rule mmu_okI)
  show "\<exists>k < 512. slot st (k # q) \<noteq> 0" if q: "upath 3 q" "q \<noteq> []" "q \<notin> X - {[]}" "table st q \<noteq> 0" for q
    using mmu_okD(10) [OF assms q(1,2) _ q(4)] q(2,3) by auto
qed (use mmu_okD [OF assms] in simp_all)

end
