(* ===== verification/MmuOps.thy ===== *)
theory MmuOps
  imports MmuInv
begin

text \<open>
  The operations of halmmu.c keep the invariant: a translation is entered with the tables it needs or not at all, a
  removed one takes the tables that became empty with it, an address space is set up from the kernel's root table, loaded
  and taken down. What the processor reads in the tables is what was entered.
\<close>

section \<open>The way down to a page\<close>

definition s_place :: "u64 \<Rightarrow> nat list" where "s_place va = [dire_index Tdir va]"
definition i_place :: "u64 \<Rightarrow> nat list" where "i_place va = dire_index Sdir va # s_place va"
definition m_place :: "u64 \<Rightarrow> nat list" where "m_place va = dire_index Idir va # i_place va"

lemma va_path_places: "va_path va = dire_index Mdir va # m_place va"
  by (simp add: va_path_def m_place_def i_place_def s_place_def)

lemma place_length [simp]:
  "length (s_place va) = 1" "length (i_place va) = 2" "length (m_place va) = 3" "length (va_path va) = 4"
  by (simp_all add: va_path_def m_place_def i_place_def s_place_def)

lemma place_neq [simp]:
  "s_place va \<noteq> []" "i_place va \<noteq> []" "m_place va \<noteq> []" "va_path va \<noteq> []"
  "s_place va \<noteq> i_place va" "s_place va \<noteq> m_place va" "i_place va \<noteq> m_place va"
  "i_place va \<noteq> s_place va" "m_place va \<noteq> s_place va" "m_place va \<noteq> i_place va"
  by (simp_all add: va_path_def m_place_def i_place_def s_place_def)

lemma place_upath:
  assumes "user_adr va"
  shows "upath 3 (s_place va)" "upath 3 (i_place va)" "upath 3 (m_place va)" "upath 4 (va_path va)"
  using user_index [OF assms] by (simp_all add: va_path_def m_place_def i_place_def s_place_def upath_def)

section \<open>Empty tables dropped on the way up\<close>

definition cut :: "blocks \<Rightarrow> nat list set \<Rightarrow> mmust \<Rightarrow> mmust \<Rightarrow> bool" where
  "cut B X st st' \<longleftrightarrow> mmu_ok st' B X \<and> mmu_frame st st' \<and> grown st' st \<and> same_leaves st st'"

lemma cut_trans: "cut B X s1 s2 \<Longrightarrow> cut B Y s2 s3 \<Longrightarrow> cut B Y s1 s3"
  unfolding cut_def using mmu_frame_trans grown_trans by blast

lemma cut_facts:
  assumes "cut B X st st'"
  shows "mmu_ok st' B X" "root st' = root st" "npages (ms_grob st') = npages (ms_grob st)"
  using assms staticsD(1) [of "ms_grob st'" "ms_grob st"] by (simp_all add: cut_def mmu_frame_def)

definition msa_ok :: "mmust \<Rightarrow> nat option \<Rightarrow> bool" where
  "msa_ok st m \<longleftrightarrow> (\<forall>j. m = Some j \<longrightarrow> j < npages (ms_grob st))"

lemma msa_ok_None [simp]: "msa_ok st None"
  by (simp add: msa_ok_def)

lemma cut_msa: "cut B X st st' \<Longrightarrow> msa_ok st m \<Longrightarrow> msa_ok st' m"
  by (simp add: msa_ok_def cut_facts)

lemma untransform_cut:
  assumes "mmu_ok st B X" "upath 3 p" "length p = depth lv" "lv \<noteq> Mdir" "table st p \<noteq> 0" "msa_ok st m" "user_adr va"
  shows "\<exists>st'. mmu_untransform_dire lv st (table st p) m va = Inr (True, st') \<and>
     cut B (insert p (X - {dire_index lv va # p})) st st' \<and>
     (\<forall>q. upath 3 q \<longrightarrow> length q \<le> length p \<longrightarrow> table st' q = table st q)"
proof -
  from assms(6) have m: "\<And>j. m = Some j \<Longrightarrow> j < npages (ms_grob st)"
    by (simp add: msa_ok_def)
  show ?thesis
    using untransform_dire [OF assms(1-5) m assms(7), where thesis = ?thesis] unfolding cut_def by blast
qed

lemma untf_sdire_cut:
  assumes ok: "mmu_ok st B X" "X \<subseteq> {[], s_place va}" and va: "user_adr va" and m: "msa_ok st m"
  shows "\<exists>st'. mmu_untransform_sdire st (root st) m va = Inr (True, st') \<and> cut B {} st st'"
proof -
  have t: "table st [] \<noteq> 0"
    using mmu_okD(4) [OF ok(1)] by simp
  have "\<exists>st'. mmu_untransform_dire Tdir st (table st []) m va = Inr (True, st') \<and>
     cut B (insert [] (X - {[dire_index Tdir va]})) st st'"
    using untransform_cut [OF ok(1) upath_Nil _ _ t m va, of Tdir] by auto
  then obtain st' where s: "mmu_untransform_sdire st (root st) m va = Inr (True, st')"
    "cut B (insert [] (X - {s_place va})) st st'"
    by (auto simp: mmu_untransform_sdire_def s_place_def)
  have "insert [] (X - {s_place va}) - {[]} = {}"
    using ok(2) by blast
  with mmu_ok_root [OF cut_facts(1) [OF s(2)]] have "mmu_ok st' B {}"
    by simp
  with s show ?thesis
    by (auto simp: cut_def)
qed

lemma untf_sdire_ok:
  assumes ok: "mmu_ok st B X" "X \<subseteq> {[], s_place va}" and va: "user_adr va" and m: "msa_ok st m" and r: "tdir = root st"
  shows "\<exists>st'. untf_sdire tdir m va rets st = Inr (rets, st') \<and> cut B {} st st'"
  using untf_sdire_cut [OF ok va m] by (auto simp: untf_sdire_def r)

lemma untf_idire_cut:
  assumes ok: "mmu_ok st B X" "X \<subseteq> {[], s_place va, i_place va}" and va: "user_adr va" and m: "msa_ok st m"
    and t: "table st (s_place va) \<noteq> 0"
  shows "\<exists>st'. mmu_untransform_idire st (table st (s_place va)) m va = Inr (True, st') \<and> cut B {[], s_place va} st st'"
proof -
  have "insert (s_place va) (X - {i_place va}) \<subseteq> {[], s_place va}"
    using ok(2) by auto
  then show ?thesis
    using untransform_cut [OF ok(1) place_upath(1) [OF va] _ _ t m va, of Sdir] mmu_ok_mono
    by (auto simp: mmu_untransform_idire_def cut_def i_place_def [symmetric])
qed

lemma untf_idire_ok:
  assumes ok: "mmu_ok st B X" "X \<subseteq> {[], s_place va, i_place va}" and va: "user_adr va"
    and m: "msa_ok st ms" "msa_ok st mi" and r: "tdir = root st" "sdir = table st (s_place va)" "sdir \<noteq> 0"
  shows "\<exists>st'. untf_idire sdir mi tdir ms va rets st = Inr (rets, st') \<and> cut B {} st st'"
proof -
  from untf_idire_cut [OF ok va m(2)] r(2,3) obtain s1 where
    s1: "mmu_untransform_idire st sdir mi va = Inr (True, s1)" "cut B {[], s_place va} st s1"
    by auto
  obtain st' where "untf_sdire tdir ms va rets s1 = Inr (rets, st')" "cut B {} s1 st'"
    using untf_sdire_ok [OF cut_facts(1) [OF s1(2)] subset_refl va cut_msa [OF s1(2) m(1)], of tdir]
      cut_facts(2) [OF s1(2)] r(1) by auto
  with s1 cut_trans [OF s1(2)] show ?thesis
    by (auto simp: untf_idire_def)
qed

lemma untf_mdire_cut:
  assumes ok: "mmu_ok st B X" "X \<subseteq> {[], s_place va, i_place va, m_place va}" and va: "user_adr va" and m: "msa_ok st m"
    and t: "table st (i_place va) \<noteq> 0"
  shows "\<exists>st'. mmu_untransform_mdire st (table st (i_place va)) m va = Inr (True, st') \<and>
     cut B {[], s_place va, i_place va} st st' \<and> table st' (s_place va) = table st (s_place va)"
proof -
  have "insert (i_place va) (X - {m_place va}) \<subseteq> {[], s_place va, i_place va}"
    using ok(2) by auto
  moreover obtain st' where "mmu_untransform_dire Idir st (table st (i_place va)) m va = Inr (True, st')"
    "cut B (insert (i_place va) (X - {m_place va})) st st'"
    "\<And>q. upath 3 q \<Longrightarrow> length q \<le> length (i_place va) \<Longrightarrow> table st' q = table st q"
    using untransform_cut [OF ok(1) place_upath(2) [OF va] _ _ t m va, of Idir] by (auto simp: m_place_def [symmetric])
  ultimately show ?thesis
    using place_upath(1) [OF va] mmu_ok_mono by (auto simp: mmu_untransform_mdire_def cut_def)
qed

lemma untf_mdire_ok:
  assumes ok: "mmu_ok st B X" "X \<subseteq> {[], s_place va, i_place va, m_place va}" and va: "user_adr va"
    and m: "msa_ok st ms" "msa_ok st mi" "msa_ok st mm"
    and r: "tdir = root st" "sdir = table st (s_place va)" "sdir \<noteq> 0" "idir = table st (i_place va)" "idir \<noteq> 0"
  shows "\<exists>st'. untf_mdire idir mm sdir mi tdir ms va rets st = Inr (rets, st') \<and> cut B {} st st'"
proof -
  from untf_mdire_cut [OF ok va m(3)] r(4,5) obtain s1 where
    s1: "mmu_untransform_mdire st idir mm va = Inr (True, s1)" "cut B {[], s_place va, i_place va} st s1"
    "table s1 (s_place va) = table st (s_place va)"
    by auto
  obtain st' where "untf_idire sdir mi tdir ms va rets s1 = Inr (rets, st')" "cut B {} s1 st'"
    using untf_idire_ok [OF cut_facts(1) [OF s1(2)] subset_refl va cut_msa [OF s1(2) m(1)] cut_msa [OF s1(2) m(2)], of tdir sdir]
      cut_facts(2) [OF s1(2)] s1(3) r(1-3) by auto
  with s1 cut_trans [OF s1(2)] show ?thesis
    by (auto simp: untf_mdire_def)
qed

lemma frame_npages: "mmu_frame st st' \<Longrightarrow> npages (ms_grob st') = npages (ms_grob st)"
  using staticsD(1) [of "ms_grob st'" "ms_grob st"] by (simp add: mmu_frame_def)

lemma frame_root: "mmu_frame st st' \<Longrightarrow> root st' = root st"
  by (simp add: mmu_frame_def)

section \<open>Tables added on the way down\<close>

definition grow :: "blocks \<Rightarrow> nat list set \<Rightarrow> mmust \<Rightarrow> mmust \<Rightarrow> bool" where
  "grow B X st st' \<longleftrightarrow> mmu_ok st' B X \<and> mmu_frame st st' \<and> grown st st' \<and> same_leaves st st'"

lemma grow_trans: "grow B X s1 s2 \<Longrightarrow> grow B Y s2 s3 \<Longrightarrow> grow B Y s1 s3"
  unfolding grow_def using mmu_frame_trans grown_trans by blast

lemma grow_refl: "mmu_ok st B X \<Longrightarrow> grow B X st st"
  by (simp add: grow_def)

lemma grow_facts:
  assumes "grow B X st st'"
  shows "mmu_ok st' B X" "root st' = root st" "npages (ms_grob st') = npages (ms_grob st)"
  using assms staticsD(1) [of "ms_grob st'" "ms_grob st"] by (simp_all add: grow_def mmu_frame_def)

lemma grow_msa: "grow B X st st' \<Longrightarrow> msa_ok st m \<Longrightarrow> msa_ok st' m"
  by (simp add: msa_ok_def grow_facts)

lemma transform_grow:
  assumes "mmu_ok st B X" "upath 3 p" "length p = depth lv" "lv \<noteq> Mdir" "table st p \<noteq> 0" "entry_flags f" "user_adr va"
  shows "mmu_transform_dire lv st (table st p) va f = Inr ((0, None), st) \<and> kernel_free st = {} \<or>
    (\<exists>m st'. mmu_transform_dire lv st (table st p) va f = Inr ((table st' (dire_index lv va # p), m), st') \<and>
       grow B (insert (dire_index lv va # p) X) st st' \<and> table st' (dire_index lv va # p) \<noteq> 0 \<and> msa_ok st' m \<and>
       card (kernel_free st) \<le> Suc (card (kernel_free st')) \<and>
       (\<forall>q. upath 3 q \<longrightarrow> length q \<le> length p \<longrightarrow> table st' q = table st q))"
proof (rule transform_dire [OF assms])
  fix m st'
  assume a: "mmu_transform_dire lv st (table st p) va f = Inr ((table st' (dire_index lv va # p), m), st')"
    "mmu_ok st' B (insert (dire_index lv va # p) X)" "mmu_frame st st'" "grown st st'" "same_leaves st st'"
    "table st' (dire_index lv va # p) \<noteq> 0" "\<And>q. upath 3 q \<Longrightarrow> length q \<le> length p \<Longrightarrow> table st' q = table st q"
    "\<And>j. m = Some j \<Longrightarrow> j < npages (ms_grob st')" "card (kernel_free st) \<le> Suc (card (kernel_free st'))"
  then have "grow B (insert (dire_index lv va # p) X) st st' \<and> msa_ok st' m"
    by (simp add: grow_def msa_ok_def)
  with a(1,6,7,9) show ?thesis
    by blast
qed simp

text \<open>All three tables, or what was there before.\<close>

lemma same_slots:
  assumes ok: "mmu_ok st B {}" "mmu_ok st' B {}" and r: "root st' = root st" and l: "same_leaves st st'"
    and both: "\<And>q. upath 4 q \<Longrightarrow> q \<noteq> [] \<Longrightarrow> slot st q \<noteq> 0 \<Longrightarrow> slot st' q \<noteq> 0 \<Longrightarrow> slot st' q = slot st q"
    and q: "upath 4 q" "q \<noteq> []"
  shows "slot st' q = slot st q"
proof -
  have up: "slot s' q \<noteq> 0" if ok: "mmu_ok s B {}" and l: "same_leaves s s'"
    and q: "upath 4 q" "q \<noteq> []" "slot s q \<noteq> 0" for s s' q
    using q
  proof (induction "4 - length q" arbitrary: q)
    case 0
    then have "length q = 4"
      by (simp add: upath_def)
    with 0 l show ?case
      by (simp add: same_leaves_def)
  next
    case (Suc n)
    have q3: "upath 3 q"
      using Suc.hyps(2) Suc.prems(1) by (auto simp: upath_def)
    obtain k p where q: "q = k # p"
      using Suc.prems(2) by (cases q) simp_all
    have "table s q \<noteq> 0"
      using have_table(1) [OF ok q3 [unfolded q]] Suc.prems(3) by (simp add: q)
    from mmu_okD(10) [OF ok q3 Suc.prems(2) _ this] obtain j where j: "j < 512" "slot s (j # q) \<noteq> 0"
      by auto
    have "slot s' (j # q) \<noteq> 0"
      by (rule Suc.hyps(1)) (use Suc.hyps(2) j Suc.prems(2) upath_place(1) [OF q3 j(1)] in simp_all)
    then have "table s' q \<noteq> 0"
      by (auto simp: ent.simps)
    then show ?case
      unfolding q tab_Cons_ent by auto
  qed
  have "same_leaves st' st"
    using l by (simp add: same_leaves_def)
  then show ?thesis
    using up [OF ok(1) l q] up [OF ok(2) _ q, of st] both [OF q] by (cases "slot st q = 0") auto
qed

lemma slot_table_eq:
  assumes "root st' = root st" "\<And>q. upath 4 q \<Longrightarrow> q \<noteq> [] \<Longrightarrow> slot st' q = slot st q" "upath 3 q"
  shows "table st' q = table st q"
proof (cases q)
  case (Cons k p)
  then show ?thesis
    using assms(2) [OF upath_up [OF assms(3)]] unfolding Cons tab_Cons_ent by simp
qed (use assms(1) in simp)

lemma tpages_disj:
  assumes "mmu_ok st B X"
  shows "tpages (ms_mmu st) \<inter> page_vacant (ms_grob st) = {}"
proof -
  let ?g = "ms_grob st"
  have "i \<notin> free_pages ?g a" if "i \<in> tpages (ms_mmu st)" for i a
  proof -
    have "kblk ?g i \<in> B \<union> kblk ?g ` tpages (ms_mmu st)"
      using that by simp
    then have "span (kblk ?g i) \<in> span ` (B \<union> kblk ?g ` tpages (ms_mmu st))"
      by (rule imageI)
    then have "(i, 1) \<in> span ` (B \<union> kblk ?g ` tpages (ms_mmu st))"
      by (simp add: kblk_def)
    from free_pages_reserved [OF mem_invD(1) [OF soundD(1) [OF mmu_okD(2) [OF assms]]] this, of a]
    show ?thesis
      by auto
  qed
  then show ?thesis
    by (auto simp: page_vacant_def)
qed

lemma same_vacant:
  assumes ok: "mmu_ok st B {}" "mmu_ok st' B {}" and f: "mmu_frame st st'"
    and s: "\<And>q. upath 4 q \<Longrightarrow> q \<noteq> [] \<Longrightarrow> slot st' q = slot st q"
  shows "page_vacant (ms_grob st') = page_vacant (ms_grob st)"
proof -
  note t = slot_table_eq [OF frame_root [OF f] s]
  have pv: "pg_vadr (ms_grob st') = pg_vadr (ms_grob st)"
    using pg_statics [of "ms_grob st'" "ms_grob st"] f by (simp add: mmu_frame_def)
  have ta: "tabs_at (ms_mem st') (root st') n = tabs_at (ms_mem st) (root st) n" for n
    unfolding tabs_at_def using t by metis
  have im: "pg_vadr (ms_grob st) ` set (dir_head lv (ms_mmu st')) = pg_vadr (ms_grob st) ` set (dir_head lv (ms_mmu st))" for lv
    using mmu_okD(7) [OF ok(1), of lv] mmu_okD(7) [OF ok(2), of lv] ta by (simp add: pv)
  have "inj_on (pg_vadr (ms_grob st)) {..<npages (ms_grob st)}"
    using vadr_inj [OF ok(1)] by (auto simp: inj_on_def)
  moreover have "set (dir_head lv (ms_mmu s)) \<subseteq> {..<npages (ms_grob st)}" if "s = st \<or> s = st'" for lv s
    using that tpage_facts(1) [OF ok(1) head_tpages] tpage_facts(1) [OF ok(2) head_tpages] frame_npages [OF f] by auto
  ultimately have "set (dir_head lv (ms_mmu st')) = set (dir_head lv (ms_mmu st))" for lv
    using im [of lv] by (simp add: inj_on_image_eq_iff)
  then have "tpages (ms_mmu st') = tpages (ms_mmu st)"
    by (simp add: tpages_def)
  then show ?thesis
    using tpages_disj [OF ok(1)] tpages_disj [OF ok(2)] f by (auto simp: mmu_frame_def mmu_pages_def)
qed

section \<open>A translation entered\<close>

lemma entry_ok_page: "page_adr pa \<Longrightarrow> entry_flags f \<Longrightarrow> entry_ok (or pa f)"
  by (auto simp: entry_ok_def)

text \<open>The last table is there: the page is entered, and every table on the way has an entry.\<close>

lemma enter_page:
  assumes ok: "mmu_ok st B {s_place va, i_place va, m_place va}" and va: "user_adr va" and e: "page_adr pa" "entry_flags f"
    and t: "table st (m_place va) \<noteq> 0" "table st (i_place va) \<noteq> 0" "table st (s_place va) \<noteq> 0"
  defines "st' \<equiv> set_ent st (table st (m_place va)) (dire_index Mdir va) (or pa f)"
  shows "mmu_ok st' B {}" "mmu_frame st st'"
    "\<And>q. upath 4 q \<Longrightarrow> q \<noteq> [] \<Longrightarrow> slot st' q = (if q = va_path va then or pa f else slot st q)"
proof -
  note P = place_upath [OF va]
  have en: "entry_ok (or pa f)" "or pa f \<noteq> 0"
    using entry_ok_page [OF e] entry_points(4) [OF e] by simp_all
  note W = write_leaf [OF ok P(4) [unfolded va_path_places] _ t(1) disjI2 [OF en(1)], folded st'_def va_path_places]
  show "mmu_frame st st'"
    by (rule W(2)) simp
  show sl: "\<And>q. upath 4 q \<Longrightarrow> q \<noteq> [] \<Longrightarrow> slot st' q = (if q = va_path va then or pa f else slot st q)"
    by (rule W(4)) simp_all
  have ok': "mmu_ok st' B {s_place va, i_place va, m_place va}"
    using W(1) by (simp add: insert_absorb)
  have s4: "slot st' (va_path va) \<noteq> 0"
    using sl [OF P(4)] en(2) by simp
  have t4: "table st' q = table st q" if "upath 3 q" for q
    by (rule W(3) [OF _ that]) simp
  have nz: "slot st' q \<noteq> 0" if "upath 3 q" "table st q \<noteq> 0" "q \<noteq> []" for q
    using t4 [OF that(1)] that(2,3) by (cases q) (auto simp: tab_Cons_ent simp del: tab.simps)
  have "slot st' (m_place va) \<noteq> 0" "slot st' (i_place va) \<noteq> 0"
    using nz P(1-3) t by simp_all
  then show "mmu_ok st' B {}"
    using mmu_ok_filled [OF mmu_ok_filled [OF mmu_ok_filled [OF ok' dire_index_bound s4 [unfolded va_path_places]]
        dire_index_bound, of Idir va "i_place va"] dire_index_bound, of Sdir va "s_place va"]
    by (simp add: m_place_def [symmetric] i_place_def [symmetric] insert_Diff_if)
qed

text \<open>What entering a translation does.\<close>

definition mapped_in :: "blocks \<Rightarrow> u64 \<Rightarrow> u64 \<Rightarrow> u64 \<Rightarrow> bool \<Rightarrow> mmust \<Rightarrow> mmust \<Rightarrow> bool" where
  "mapped_in B va pa f ok st st' \<longleftrightarrow> mmu_ok st' B {} \<and> mmu_frame st st' \<and>
     (if ok then
        (\<forall>q. upath 4 q \<longrightarrow> length q = 4 \<longrightarrow> slot st' q = (if q = va_path va then or pa f else slot st q)) \<and>
        (\<forall>q. upath 4 q \<longrightarrow> q \<noteq> [] \<longrightarrow> q \<noteq> va_path va \<longrightarrow> slot st q \<noteq> 0 \<longrightarrow> slot st' q = slot st q)
      else \<forall>q. upath 4 q \<longrightarrow> q \<noteq> [] \<longrightarrow> slot st' q = slot st q)"

lemma rolled_back:
  assumes ok: "mmu_ok st B {}" and g: "grow B X st s1" and c: "cut B {} s1 st'"
  shows "mapped_in B va pa f False st st'"
proof -
  have fr: "mmu_frame st st'"
    using g c mmu_frame_trans by (auto simp: grow_def cut_def)
  have l: "same_leaves st st'"
    using g c grown_trans(2) by (auto simp: grow_def cut_def)
  have ok': "mmu_ok st' B {}"
    using c by (simp add: cut_def)
  have "slot st' q = slot st q" if "upath 4 q" "q \<noteq> []" "slot st q \<noteq> 0" "slot st' q \<noteq> 0" for q
  proof -
    have "slot s1 q = slot st q" "slot s1 q = slot st' q"
      using g c that unfolding grow_def cut_def grown_def by blast+
    then show ?thesis
      by simp
  qed
  from same_slots [OF ok ok' frame_root [OF fr] l this] show ?thesis
    using ok' fr by (simp add: mapped_in_def)
qed

lemma hal_mmu_transform_ok:
  assumes ok: "mmu_ok st B {}" and va: "user_adr va" and e: "page_adr pa" "entry_flags f"
  shows "\<exists>done st'. hal_mmu_transform st va pa f = Inr (done, st') \<and> mapped_in B va pa f done st st' \<and>
    (\<not> done \<longrightarrow> card (kernel_free st) < 3)"
proof -
  note P = place_upath [OF va]
  define td where "td = root st"
  have t0: "table st [] \<noteq> 0" "td \<noteq> 0" "td = table st []"
    using mmu_okD(4) [OF ok] by (simp_all add: td_def)
  let ?goal = "\<exists>done st'. hal_mmu_transform st va pa f = Inr (done, st') \<and> mapped_in B va pa f done st st' \<and>
    (\<not> done \<longrightarrow> card (kernel_free st) < 3)"
  consider (no) "mmu_transform_sdire st td va f = Inr ((0, None), st)" "kernel_free st = {}"
    | (yes) ms s1 where "mmu_transform_sdire st td va f = Inr ((table s1 (s_place va), ms), s1)"
      "grow B {s_place va} st s1" "table s1 (s_place va) \<noteq> 0" "msa_ok s1 ms"
      "card (kernel_free st) \<le> Suc (card (kernel_free s1))"
    using transform_grow [OF ok upath_Nil _ _ t0(1) e(2) va, of Tdir]
    by (auto simp: mmu_transform_sdire_def t0(3) s_place_def [symmetric])
  then show ?goal
  proof cases
    case no
    obtain st' where "untf_sdire td None va False st = Inr (False, st')" "cut B {} st st'"
      using untf_sdire_ok [OF ok _ va msa_ok_None, of td] td_def by auto
    then show ?goal
      using no rolled_back [OF ok grow_refl [OF ok]] t0(2)
      by (auto simp: hal_mmu_transform_def hal_mmu_transform_core_def td_def [symmetric])
  next
    case yes
    note ok1 = grow_facts [OF yes(2)] and y1 = yes
    have td1: "td = root s1"
      using ok1(2) td_def by simp
    consider (no) "mmu_transform_idire s1 (table s1 (s_place va)) va f = Inr ((0, None), s1)" "kernel_free s1 = {}"
      | (yes) mi s2 where "mmu_transform_idire s1 (table s1 (s_place va)) va f = Inr ((table s2 (i_place va), mi), s2)"
        "grow B {s_place va, i_place va} s1 s2" "table s2 (i_place va) \<noteq> 0" "msa_ok s2 mi"
        "table s2 (s_place va) = table s1 (s_place va)" "card (kernel_free s1) \<le> Suc (card (kernel_free s2))"
      using transform_grow [OF ok1(1) P(1) _ _ y1(3) e(2) va, of Sdir] P(1)
      by (auto simp: mmu_transform_idire_def i_place_def [symmetric] insert_commute)
    then show ?goal
    proof cases
      case no
      obtain st' where "untf_idire (table s1 (s_place va)) None td ms va False s1 = Inr (False, st')" "cut B {} s1 st'"
        using untf_idire_ok [OF ok1(1) _ va y1(4) msa_ok_None td1 refl y1(3)] by auto
      then show ?goal
        using no y1(1,3,5) rolled_back [OF ok y1(2)] t0(2)
        by (auto simp: hal_mmu_transform_def hal_mmu_transform_core_def td_def [symmetric])
    next
      case yes
      note ok2 = grow_facts [OF yes(2)] and y2 = yes and g2 = grow_trans [OF y1(2) yes(2)]
      have td2: "td = root s2"
        using ok2(2) td1 by simp
      consider (no) "mmu_transform_mdire s2 (table s2 (i_place va)) va f = Inr ((0, None), s2)" "kernel_free s2 = {}"
        | (yes) mm s3 where "mmu_transform_mdire s2 (table s2 (i_place va)) va f = Inr ((table s3 (m_place va), mm), s3)"
          "grow B {s_place va, i_place va, m_place va} s2 s3" "table s3 (m_place va) \<noteq> 0" "msa_ok s3 mm"
          "table s3 (s_place va) = table s2 (s_place va)" "table s3 (i_place va) = table s2 (i_place va)"
        using transform_grow [OF ok2(1) P(2) _ _ y2(3) e(2) va, of Idir] P(1,2)
        by (auto simp: mmu_transform_mdire_def m_place_def [symmetric] insert_commute)
      then show ?goal
      proof cases
        case no
        obtain st' where "untf_mdire (table s2 (i_place va)) None (table s1 (s_place va)) mi td ms va False s2 = Inr (False, st')"
          "cut B {} s2 st'"
          using untf_mdire_ok [OF ok2(1) _ va grow_msa [OF y2(2) y1(4)] y2(4) msa_ok_None td2 y2(5) [symmetric] y1(3) refl y2(3)]
          by auto
        then show ?goal
          using no y1(1,3,5) y2(1,3,6) rolled_back [OF ok g2] t0(2)
          by (auto simp: hal_mmu_transform_def hal_mmu_transform_core_def td_def [symmetric])
      next
        case yes
        note g3 = grow_trans [OF g2 yes(2)]
        note E = enter_page [OF grow_facts(1) [OF g3] va e yes(3)]
        define st' where "st' = set_ent s3 (table s3 (m_place va)) (dire_index Mdir va) (or pa f)"
        have nz: "table s3 (i_place va) \<noteq> 0" "table s3 (s_place va) \<noteq> 0"
          using yes(5,6) y1(3) y2(3,5) by simp_all
        note E = E [OF nz, folded st'_def]
        have "mmu_frame st st'"
          using g3 E(2) mmu_frame_trans by (auto simp: grow_def)
        moreover have "slot st' q = (if q = va_path va then or pa f else slot st q)" if "upath 4 q" "length q = 4" for q
        proof -
          have "q \<noteq> []"
            using that(2) by auto
          then show ?thesis
            using E(3) [OF that(1)] g3 that by (simp add: grow_def same_leaves_def)
        qed
        moreover have "slot st' q = slot st q" if "upath 4 q" "q \<noteq> []" "q \<noteq> va_path va" "slot st q \<noteq> 0" for q
          using E(3) [OF that(1,2)] g3 that by (simp add: grow_def grown_def)
        ultimately have "mapped_in B va pa f True st st'"
          using E(1) by (simp add: mapped_in_def)
        moreover have "hal_mmu_transform st va pa f = Inr (True, hal_mmu_refresh st')"
          using y1(1,3) y2(1,3) yes(1,3) t0(2)
          by (simp add: hal_mmu_transform_def hal_mmu_transform_core_def td_def [symmetric] mmu_transform_msa_def
              mmu_mdire_index_def st'_def)
        moreover have "hal_mmu_refresh st' = st'"
          by (simp add: hal_mmu_refresh_def Let_def)
        ultimately show ?goal
          by auto
      qed
    qed
  qed
qed

section \<open>A translation removed\<close>

lemma find_direarr:
  assumes ok: "mmu_ok st B X" and p: "upath 3 p" "length p = depth lv" "lv \<noteq> Mdir" "table st p \<noteq> 0" and va: "user_adr va"
  shows "mmu_find_direarr lv st (table st p) va = Inr (table st (dire_index lv va # p))"
proof (cases "slot st (dire_index lv va # p) = 0")
  case True
  then have "table st (dire_index lv va # p) = 0"
    unfolding tab_Cons_ent by simp
  with True p(4) slot_table [OF p(4), of "dire_index lv va"] show ?thesis
    by (simp add: mmu_find_direarr_def)
next
  case False
  note h = have_table [OF ok entry_place(2) [OF p(1,2) va p(3)] False]
  then show ?thesis
    using p(4) slot_table [OF p(4), of "dire_index lv va"] by (simp add: mmu_find_direarr_def)
qed

definition mapped_out :: "blocks \<Rightarrow> u64 \<Rightarrow> u64 \<Rightarrow> mmust \<Rightarrow> mmust \<Rightarrow> bool" where
  "mapped_out B va ret st st' \<longleftrightarrow> mmu_ok st' B {} \<and> mmu_frame st st' \<and> ret = dire_ret_padr (slot st (va_path va)) \<and>
     (\<forall>q. upath 4 q \<longrightarrow> length q = 4 \<longrightarrow> slot st' q = (if q = va_path va then 0 else slot st q)) \<and>
     grown st' st"

lemma slot_below: "table st p = 0 \<Longrightarrow> slot st (k # p) = 0" "table st p = 0 \<Longrightarrow> table st (k # p) = 0"
  by (simp_all add: ent.simps tab.simps)

lemma nothing_mapped:
  assumes c: "cut B {} st st'" and n: "slot st (va_path va) = 0"
  shows "mapped_out B va 0 st st'"
  using c n by (auto simp: mapped_out_def cut_def same_leaves_def)

lemma untf_sdirearr_ok:
  assumes ok: "mmu_ok st B X" "X \<subseteq> {[], s_place va}" and va: "user_adr va"
  shows "\<exists>st'. untf_sdirearr va ret st = Inr (ret, st') \<and> cut B {} st st'"
  using untf_sdire_cut [OF ok va msa_ok_None] by (auto simp: untf_sdirearr_def hal_mmu_refresh_def Let_def)

lemma untf_idirearr_ok:
  assumes ok: "mmu_ok st B X" "X \<subseteq> {[], s_place va, i_place va}" and va: "user_adr va"
    and t: "sdir = table st (s_place va)" "sdir \<noteq> 0"
  shows "\<exists>st'. untf_idirearr sdir va ret st = Inr (ret, st') \<and> cut B {} st st'"
proof -
  from untf_idire_cut [OF ok va msa_ok_None] t obtain s1 where
    s1: "mmu_untransform_idire st sdir None va = Inr (True, s1)" "cut B {[], s_place va} st s1"
    by auto
  obtain st' where "untf_sdirearr va ret s1 = Inr (ret, st')" "cut B {} s1 st'"
    using untf_sdirearr_ok [OF cut_facts(1) [OF s1(2)] subset_refl va] by auto
  with s1 cut_trans [OF s1(2)] show ?thesis
    by (auto simp: untf_idirearr_def)
qed

lemma hal_mmu_untransform_ok:
  assumes ok: "mmu_ok st B {}" and va: "user_adr va"
  shows "\<exists>ret st'. hal_mmu_untransform st va = Inr (ret, st') \<and> mapped_out B va ret st st'"
proof -
  note P = place_upath [OF va]
  let ?goal = "\<exists>ret st'. hal_mmu_untransform st va = Inr (ret, st') \<and> mapped_out B va ret st st'"
  have t0: "table st [] \<noteq> 0"
    using mmu_okD(4) [OF ok] by simp
  have f1: "mmu_find_sdirearr st (root st) va = Inr (table st (s_place va))"
    using find_direarr [OF ok upath_Nil _ _ t0 va, of Tdir] by (simp add: mmu_find_sdirearr_def s_place_def)
  have same: "cut B {} st st"
    using ok by (simp add: cut_def)
  show ?goal
  proof (cases "table st (s_place va) = 0")
    case True
    then have "slot st (va_path va) = 0"
      unfolding va_path_places m_place_def i_place_def by (simp add: slot_below)
    moreover have "hal_mmu_untransform st va = Inr (0, st)"
      using f1 True by (simp add: hal_mmu_untransform_def hal_mmu_untransform_core_def hal_mmu_refresh_def Let_def)
    ultimately show ?goal
      using nothing_mapped [OF same] by blast
  next
    case s: False
    have f2: "mmu_find_idirearr st (table st (s_place va)) va = Inr (table st (i_place va))"
      using find_direarr [OF ok P(1) _ _ s va, of Sdir] by (simp add: mmu_find_idirearr_def i_place_def)
    show ?goal
    proof (cases "table st (i_place va) = 0")
      case True
      then have n: "slot st (va_path va) = 0"
        unfolding va_path_places m_place_def by (simp add: slot_below)
      obtain st' where "untf_sdirearr va 0 st = Inr (0, st')" "cut B {} st st'"
        using untf_sdirearr_ok [OF ok _ va] by auto
      then show ?goal
        using f1 f2 s True nothing_mapped [OF _ n] by (auto simp: hal_mmu_untransform_def hal_mmu_untransform_core_def)
    next
      case i: False
      have f3: "mmu_find_mdirearr st (table st (i_place va)) va = Inr (table st (m_place va))"
        using find_direarr [OF ok P(2) _ _ i va, of Idir] by (simp add: mmu_find_mdirearr_def m_place_def)
      show ?goal
      proof (cases "table st (m_place va) = 0")
        case True
        then have n: "slot st (va_path va) = 0"
          unfolding va_path_places by (simp add: slot_below)
        obtain st' where "untf_idirearr (table st (s_place va)) va 0 st = Inr (0, st')" "cut B {} st st'"
          using untf_idirearr_ok [OF ok _ va refl s] by auto
        then show ?goal
          using f1 f2 f3 s i True nothing_mapped [OF _ n]
          by (auto simp: hal_mmu_untransform_def hal_mmu_untransform_core_def)
      next
        case m: False
        let ?e = "slot st (va_path va)"
        have e: "ms_mem st (table st (m_place va)) (dire_index Mdir va) = ?e"
          unfolding va_path_places by (rule slot_table [OF m])
        define s1 where "s1 = set_ent st (table st (m_place va)) (dire_index Mdir va) 0"
        note W = write_leaf [OF ok P(4) [unfolded va_path_places] _ m disjI1 [OF refl], folded s1_def va_path_places]
        have l1: "slot s1 q = (if q = va_path va then 0 else slot st q)" if "upath 4 q" "q \<noteq> []" for q
          by (rule W(4) [OF _ that]) simp
        have t1: "table s1 q = table st q" if "upath 3 q" for q
          by (rule W(3) [OF _ that]) simp
        have ok1: "mmu_ok s1 B {m_place va}"
          using W(1) by simp
        have un: "mmu_untransform_msa st (table st (m_place va)) va = (dire_ret_padr ?e, if ?e = 0 then st else s1)"
        proof (cases "?e = 0")
          case False
          then have "dire_is_have ?e"
            using mmu_okD(9) [OF ok P(4)] entry_ok_have by auto
          then show ?thesis
            using m False by (simp add: mmu_untransform_msa_def mmu_mdire_index_def Let_def e s1_def)
        qed (use m in \<open>simp add: mmu_untransform_msa_def mmu_mdire_index_def Let_def e\<close>)
        define s2 where "s2 = (if ?e = 0 then st else s1)"
        have ok2: "mmu_ok s2 B {m_place va}"
          using ok1 mmu_ok_mono [OF ok] by (simp add: s2_def)
        have fr2: "mmu_frame st s2"
          using W(2) by (simp add: s2_def)
        have t2: "table s2 q = table st q" if "upath 3 q" for q
          using t1 [OF that] by (simp add: s2_def)
        have l2: "slot s2 q = (if q = va_path va then 0 else slot st q)" if "upath 4 q" "q \<noteq> []" for q
          using l1 [OF that] by (auto simp: s2_def)
        obtain s3 where s3: "mmu_untransform_mdire s2 (table s2 (i_place va)) None va = Inr (True, s3)"
          "cut B {[], s_place va, i_place va} s2 s3" "table s3 (s_place va) = table s2 (s_place va)"
          using untf_mdire_cut [OF ok2 _ va msa_ok_None] i t2 [OF P(2)] by auto
        have sd: "table st (s_place va) = table s3 (s_place va)"
          using s3(3) t2 [OF P(1)] by simp
        obtain st' where st': "untf_idirearr (table st (s_place va)) va (dire_ret_padr ?e) s3 = Inr (dire_ret_padr ?e, st')"
          "cut B {} s3 st'"
          using untf_idirearr_ok [OF cut_facts(1) [OF s3(2)] subset_refl va sd s] by auto
        have "hal_mmu_untransform st va = Inr (dire_ret_padr ?e, st')"
          using f1 f2 f3 s i m un s3(1) st'(1) t2 [OF P(2)]
          by (simp add: hal_mmu_untransform_def hal_mmu_untransform_core_def s2_def [symmetric])
        moreover have c: "cut B {} s2 st'"
          using cut_trans [OF s3(2) st'(2)] .
        moreover have "slot st' q = (if q = va_path va then 0 else slot st q)" if "upath 4 q" "length q = 4" for q
        proof -
          have "q \<noteq> []"
            using that(2) by auto
          then show ?thesis
            using c l2 [OF that(1)] that by (simp add: cut_def same_leaves_def)
        qed
        moreover have "grown st' st"
          using c l2 unfolding cut_def grown_def by metis
        ultimately have "hal_mmu_untransform st va = Inr (dire_ret_padr ?e, st')"
          "mapped_out B va (dire_ret_padr ?e) st st'"
          using fr2 mmu_frame_trans by (auto simp: mapped_out_def cut_def)
        then show ?goal
          by blast
      qed
    qed
  qed
qed

section \<open>What the processor sees\<close>

text \<open>
  The processor reads the entry of each level at its physical address; an entry without bit 0 faults, and the address is
  in the bits 12 to 51.
\<close>

definition page_field :: "u64 \<Rightarrow> u64" where
  "page_field e = and e 0xffffffffff000"

fun x86_walk :: "pagemem \<Rightarrow> dire list \<Rightarrow> u64 \<Rightarrow> u64 \<Rightarrow> u64 option" where
  "x86_walk mem [] pa va = Some pa"
| "x86_walk mem (lv # lvs) pa va =
     (let e = mem (kva pa) (dire_index lv va)
      in if bit e 0 then x86_walk mem lvs (page_field e) va else None)"

definition x86_translate :: "pagemem \<Rightarrow> u64 \<Rightarrow> u64 \<Rightarrow> u64 option" where
  "x86_translate mem cr3 va = x86_walk mem [Tdir, Sdir, Idir, Mdir] (page_field cr3) va"

lemma page_field_bit: "bit (page_field e) n \<longleftrightarrow> 12 \<le> n \<and> n < 52 \<and> bit e n"
proof -
  have "(0xffffffffff000 :: u64) = push_bit 12 (mask 40)"
    by (simp add: mask_eq_exp_minus_1 push_bit_eq_mult)
  then have "page_field e = and e (push_bit 12 (mask 40))"
    by (simp only: page_field_def)
  then show ?thesis
    by (auto simp: bit_simps simp del: push_bit_numeral)
qed

lemma page_field_entry:
  assumes "page_adr p" "entry_flags f"
  shows "page_field (or p f) = p" "page_field p = p"
proof -
  note b = page_adr_bit [OF assms(1)]
  have nf: "\<not> bit f n" if "12 \<le> n" for n
    using entry_flags_bit [OF assms(2), of n] that by auto
  have "bit p n \<Longrightarrow> n < 52" for n
    using b(2) [of n] by simp
  then show "page_field (or p f) = p" "page_field p = p"
    using b(1) nf by (auto intro!: bit_eqI simp: page_field_bit bit_or_iff)
qed

lemma entry_ok_walk:
  assumes "entry_ok e"
  shows "bit e 0" "page_field e = dire_ret_padr e"
  using assms entry_points page_field_entry by (auto simp: entry_ok_def)

definition phys_root :: "mmust \<Rightarrow> u64" where
  "phys_root st = root st - KRNL_MAP_VIRTADDRESS_START"

lemma x86_walk_tree:
  assumes ok: "mmu_ok st B X" and va: "user_adr va"
  shows "x86_translate (ms_mem st) (phys_root st) va =
    (if slot st (va_path va) = 0 then None else Some (dire_ret_padr (slot st (va_path va))))"
proof -
  note P = place_upath [OF va]
  have step: "x86_walk (ms_mem st) (lv # lvs) pa va =
      (if slot st (dire_index lv va # p) = 0 then None
       else x86_walk (ms_mem st) lvs (dire_ret_padr (slot st (dire_index lv va # p))) va)"
    if "upath 4 (dire_index lv va # p)" "table st p = kva pa" "table st p \<noteq> 0" for lv lvs pa p
  proof -
    have "ms_mem st (kva pa) (dire_index lv va) = slot st (dire_index lv va # p)"
      using slot_table [OF that(3), of "dire_index lv va"] that(2) by simp
    then show ?thesis
      using mmu_okD(9) [OF ok that(1)] entry_ok_walk by (auto simp: Let_def)
  qed
  have sub: "table st (k # p) = kva (dire_ret_padr (slot st (k # p))) \<and> table st (k # p) \<noteq> 0"
    if "slot st (k # p) \<noteq> 0" "upath 3 (k # p)" for k p
    using entry_ok_nxt [of "slot st (k # p)"] mmu_okD(9) [OF ok upath_up [OF that(2)]] that(1)
    unfolding tab_Cons_ent by auto
  obtain i where "i \<in> set (dir_head Tdir (ms_mmu st))" "table st [] = pg_vadr (ms_grob st) i"
    using table_page [OF ok upath_Nil, of Tdir] mmu_okD(4) [OF ok] by (auto simp del: dir_head.simps)
  then have i: "i \<in> tpages (ms_mmu st)" "root st = pg_vadr (ms_grob st) i"
    using head_tpages [of i Tdir] by simp_all
  have r: "phys_root st = pg_adr (ms_grob st) i" "root st = kva (phys_root st)"
    by (simp_all add: phys_root_def i(2) pg_vadr_def kva_def)
  have f: "entry_flags 1"
    by (simp add: entry_flags_def)
  have "page_field (phys_root st) = phys_root st"
    unfolding r(1) by (rule page_field_entry(2) [OF tpage_facts(2) [OF ok i(1)] f])
  then have tr: "x86_translate (ms_mem st) (phys_root st) va = x86_walk (ms_mem st) [Tdir, Sdir, Idir, Mdir] (phys_root st) va"
    by (simp add: x86_translate_def)
  have t0: "table st [] = kva (phys_root st)" "table st [] \<noteq> 0"
    using r(2) mmu_okD(4) [OF ok] by simp_all
  have down: "table st (k # p) = 0" if "slot st (k # p) = 0" for k p
    using that unfolding tab_Cons_ent by simp
  let ?s = "dire_ret_padr (slot st (s_place va))" and ?i = "dire_ret_padr (slot st (i_place va))"
    and ?m = "dire_ret_padr (slot st (m_place va))"
  have w1: "x86_translate (ms_mem st) (phys_root st) va =
      (if slot st (s_place va) = 0 then None else x86_walk (ms_mem st) [Sdir, Idir, Mdir] ?s va)"
    unfolding tr s_place_def by (rule step [OF _ t0]) (use upath_up [OF P(1), of 4] in \<open>simp add: s_place_def\<close>)
  show ?thesis
  proof (cases "slot st (s_place va) = 0")
    case True
    then have "slot st (va_path va) = 0"
      using down slot_below unfolding va_path_places m_place_def i_place_def s_place_def by metis
    with True w1 show ?thesis
      by simp
  next
    case False
    note t1 = sub [of "dire_index Tdir va" "[]", folded s_place_def, OF False P(1)]
    have w2: "x86_walk (ms_mem st) [Sdir, Idir, Mdir] ?s va =
        (if slot st (i_place va) = 0 then None else x86_walk (ms_mem st) [Idir, Mdir] ?i va)"
      unfolding i_place_def by (rule step [OF _ conjunct1 [OF t1] conjunct2 [OF t1]])
        (use upath_up [OF P(2), of 4] in \<open>simp add: i_place_def\<close>)
    show ?thesis
    proof (cases "slot st (i_place va) = 0")
      case True
      then have "slot st (va_path va) = 0"
        using down slot_below unfolding va_path_places m_place_def i_place_def by metis
      with True False w1 w2 show ?thesis
        by simp
    next
      case i: False
      note t2 = sub [of "dire_index Sdir va" "s_place va", folded i_place_def, OF i P(2)]
      have w3: "x86_walk (ms_mem st) [Idir, Mdir] ?i va =
          (if slot st (m_place va) = 0 then None else x86_walk (ms_mem st) [Mdir] ?m va)"
        unfolding m_place_def by (rule step [OF _ conjunct1 [OF t2] conjunct2 [OF t2]])
          (use upath_up [OF P(3), of 4] in \<open>simp add: m_place_def\<close>)
      show ?thesis
      proof (cases "slot st (m_place va) = 0")
        case True
        then have "slot st (va_path va) = 0"
          using down slot_below unfolding va_path_places m_place_def by metis
        with True False i w1 w2 w3 show ?thesis
          by simp
      next
        case m: False
        note t3 = sub [of "dire_index Idir va" "i_place va", folded m_place_def, OF m P(3)]
        have "x86_walk (ms_mem st) [Mdir] ?m va =
            (if slot st (va_path va) = 0 then None else x86_walk (ms_mem st) [] (dire_ret_padr (slot st (va_path va))) va)"
          unfolding va_path_places by (rule step [OF _ conjunct1 [OF t3] conjunct2 [OF t3]])
            (use P(4) in \<open>simp add: va_path_places\<close>)
        then show ?thesis
          using False i m w1 w2 w3 by simp
      qed
    qed
  qed
qed

section \<open>Taking an address space down\<close>

text \<open>The lists alone: what is left of the invariant while the tables go away.\<close>

definition lists_ok :: "mmust \<Rightarrow> blocks \<Rightarrow> bool" where
  "lists_ok st B \<longleftrightarrow>
     (let g = ms_grob st; m = ms_mmu st in
      find_area g MA_TYPE_KRNL \<noteq> None \<and> sound g (B \<union> kblk g ` tpages m) \<and> B \<inter> kblk g ` tpages m = {} \<and>
      (\<forall>lv. distinct (dir_head lv m) \<and> dir_msanr lv m = of_nat (length (dir_head lv m))) \<and>
      (\<forall>lv lv'. lv \<noteq> lv' \<longrightarrow> set (dir_head lv m) \<inter> set (dir_head lv' m) = {}))"

lemma mmu_ok_lists:
  assumes ok: "mmu_ok st B X"
  shows "lists_ok st B"
proof -
  have "set (dir_head lv (ms_mmu st)) \<inter> set (dir_head lv' (ms_mmu st)) = {}" if "lv \<noteq> lv'" for lv lv'
    using level_of_page [OF ok, of _ lv lv'] that by blast
  then show ?thesis
    using mmu_okD(1-3,5,6) [OF ok] by (simp add: lists_ok_def Let_def)
qed

lemma free_msa_lists:
  assumes ok: "lists_ok st B" and l: "dir_head lv (ms_mmu st) = i # l"
  shows "\<exists>st'. mmu_free_msa lv st i msg = Inr st' \<and> lists_ok st' B \<and> statics (ms_grob st') = statics (ms_grob st) \<and>
    page_vacant (ms_grob st') = insert i (page_vacant (ms_grob st)) \<and> ms_mem st' = ms_mem st \<and> root st' = root st \<and>
    ms_cr3 st' = ms_cr3 st \<and> ms_pml4 st' = ms_pml4 st \<and>
    (\<forall>lv'. dir_head lv' (ms_mmu st') = (if lv' = lv then l else dir_head lv' (ms_mmu st)))"
proof -
  define g where "g = ms_grob st"
  define m where "m = ms_mmu st"
  have O: "find_area g MA_TYPE_KRNL \<noteq> None" "sound g (B \<union> kblk g ` tpages m)" "B \<inter> kblk g ` tpages m = {}"
    "\<And>lv. distinct (dir_head lv m)" "\<And>lv. dir_msanr lv m = of_nat (length (dir_head lv m))"
    "\<And>lv lv'. lv \<noteq> lv' \<Longrightarrow> set (dir_head lv m) \<inter> set (dir_head lv' m) = {}"
    using ok by (simp_all add: lists_ok_def Let_def g_def m_def)
  obtain a where a: "find_area g MA_TYPE_KRNL = Some a"
    using O(1) by blast
  have it: "i \<in> tpages m"
    using l head_tpages [of i lv m] by (simp add: m_def)
  then have "kblk g i \<in> B \<union> kblk g ` tpages m"
    by simp
  from krnl_page_del [OF O(2) a this] obtain g' where
    g': "onfrmsa_retn_fpagenr g (Some i) = Inr 1" "mm_merge_pages g (Some i) 1 = Inr (True, g')"
    "sound g' (B \<union> kblk g ` tpages m - {kblk g i})" "statics g' = statics g" "page_vacant g' = insert i (page_vacant g)"
    by blast
  define m1 where "m1 = dir_upd lv l (dir_msanr lv m - 1) m"
  define st' where "st' = st\<lparr>ms_grob := g', ms_mmu := m1\<rparr>"
  have "remove1 i (dir_head lv m) = l"
    using l by (simp add: m_def)
  then have free: "mmu_free_msa lv st i msg = Inr st'"
    using g'(1,2) by (simp add: mmu_free_msa_def Let_def st'_def m1_def m_def g_def)
  have heads: "dir_head lv' m1 = (if lv' = lv then l else dir_head lv' m)" for lv'
    by (simp add: m1_def)
  have hs: "set (dir_head lv' m1) = set (dir_head lv' m) - {i}" for lv'
    using O(4) [of lv] O(6) [of lv' lv] l by (auto simp: heads m_def)
  have tp: "tpages m1 = tpages m - {i}"
    by (auto simp: tpages_def hs)
  have kA: "B \<union> kblk g ` tpages m - {kblk g i} = B \<union> kblk g ` tpages m1"
    using O(3) it by (auto simp: tp)
  have kb: "kblk g' = kblk g"
    using kblk_statics [OF g'(4)] .
  have "lists_ok st' B"
    unfolding lists_ok_def Let_def
  proof (intro conjI allI impI)
    show "find_area (ms_grob st') MA_TYPE_KRNL \<noteq> None"
      using a find_area_statics [OF g'(4)] by (simp add: st'_def)
    show "sound (ms_grob st') (B \<union> kblk (ms_grob st') ` tpages (ms_mmu st'))"
      using g'(3) by (simp add: st'_def kb kA)
    show "B \<inter> kblk (ms_grob st') ` tpages (ms_mmu st') = {}"
      using O(3) by (auto simp: st'_def kb tp)
    show "distinct (dir_head lv' (ms_mmu st'))" for lv'
      using O(4) [of lv'] l by (auto simp: st'_def heads m_def)
    show "dir_msanr lv' (ms_mmu st') = of_nat (length (dir_head lv' (ms_mmu st')))" for lv'
      using O(5) [of lv'] l by (auto simp: st'_def m1_def m_def)
    show "set (dir_head lv1 (ms_mmu st')) \<inter> set (dir_head lv2 (ms_mmu st')) = {}" if "lv1 \<noteq> lv2" for lv1 lv2
      using O(6) [OF that] by (auto simp: st'_def hs)
  qed
  moreover have "statics (ms_grob st') = statics (ms_grob st)" "root st' = root st" "ms_mem st' = ms_mem st"
    "ms_cr3 st' = ms_cr3 st" "ms_pml4 st' = ms_pml4 st" "page_vacant (ms_grob st') = insert i (page_vacant (ms_grob st))"
    "\<forall>lv'. dir_head lv' (ms_mmu st') = (if lv' = lv then l else dir_head lv' (ms_mmu st))"
    using g'(4,5) heads by (simp_all add: st'_def m1_def m_def g_def)
  ultimately show ?thesis
    using free by blast
qed

text \<open>One level emptied.\<close>

definition emptied :: "dire \<Rightarrow> blocks \<Rightarrow> mmust \<Rightarrow> mmust \<Rightarrow> bool" where
  "emptied lv B st st' \<longleftrightarrow> lists_ok st' B \<and> statics (ms_grob st') = statics (ms_grob st) \<and> ms_mem st' = ms_mem st \<and>
     root st' = root st \<and> ms_cr3 st' = ms_cr3 st \<and> ms_pml4 st' = ms_pml4 st \<and>
     page_vacant (ms_grob st') = page_vacant (ms_grob st) \<union> set (dir_head lv (ms_mmu st)) \<and>
     (\<forall>lv'. dir_head lv' (ms_mmu st') = (if lv' = lv then [] else dir_head lv' (ms_mmu st)))"

lemma ex_dire: "(\<exists>lv. P lv) \<longleftrightarrow> P Tdir \<or> P Sdir \<or> P Idir \<or> P Mdir"
  by (metis dire.exhaust)

lemma tpages_eq: "tpages m = set (dir_head Tdir m) \<union> set (dir_head Sdir m) \<union> set (dir_head Idir m) \<union> set (dir_head Mdir m)"
  unfolding tpages_def set_eq_iff UN_iff bex_UNIV ex_dire by blast

lemma emptied_lists: "emptied lv B st st' \<Longrightarrow> lists_ok st' B"
  by (simp add: emptied_def)

lemma clean_list:
  assumes "lists_ok st B" "dir_head lv (ms_mmu st) = l"
  shows "\<exists>st'. mmu_clean_list lv msg l st = Inr st' \<and> emptied lv B st st'"
  using assms
proof (induction l arbitrary: st)
  case Nil
  then show ?case
    by (auto simp: emptied_def)
next
  case (Cons i l)
  from free_msa_lists [OF Cons.prems, of msg] obtain s1 where s1: "mmu_free_msa lv st i msg = Inr s1" "lists_ok s1 B"
    "statics (ms_grob s1) = statics (ms_grob st)" "page_vacant (ms_grob s1) = insert i (page_vacant (ms_grob st))"
    "ms_mem s1 = ms_mem st" "root s1 = root st" "ms_cr3 s1 = ms_cr3 st" "ms_pml4 s1 = ms_pml4 st"
    "\<forall>lv'. dir_head lv' (ms_mmu s1) = (if lv' = lv then l else dir_head lv' (ms_mmu st))"
    by blast
  from Cons.IH [OF s1(2)] s1(9) obtain st' where st': "mmu_clean_list lv msg l s1 = Inr st'" "emptied lv B s1 st'"
    by auto
  have "emptied lv B st st'"
    using st'(2) s1(3-9) Cons.prems(2) unfolding emptied_def by simp
  then show ?case
    using s1(1) st'(1) by auto
qed

lemma clean_arrmsas:
  assumes "lists_ok st B"
  shows "\<exists>st'. mmu_clean_arrmsas lv msg st = Inr (True, st') \<and> emptied lv B st st'"
  using clean_list [OF assms refl, of lv msg] by (auto simp: mmu_clean_arrmsas_def)

lemma hal_mmu_clean_ok:
  assumes ok: "mmu_ok st B X" and c: "mapped (dire_ret_padr (ms_cr3 st))"
    and away: "kva (dire_ret_padr (ms_cr3 st)) \<noteq> root st"
  shows "\<exists>st'. hal_mmu_clean st = Inr (True, st') \<and> sound (ms_grob st') B \<and> tpages (ms_mmu st') = {} \<and>
     statics (ms_grob st') = statics (ms_grob st) \<and> ms_mem st' = ms_mem st \<and>
     page_vacant (ms_grob st') = page_vacant (ms_grob st) \<union> tpages (ms_mmu st)"
proof -
  obtain s1 where s1: "mmu_clean_mdirearrmsas st = Inr (True, s1)" "emptied Mdir B st s1"
    using clean_arrmsas [OF mmu_ok_lists [OF ok]] unfolding mmu_clean_mdirearrmsas_def by blast
  obtain s2 where s2: "mmu_clean_idirearrmsas s1 = Inr (True, s2)" "emptied Idir B s1 s2"
    using clean_arrmsas [OF emptied_lists [OF s1(2)]] unfolding mmu_clean_idirearrmsas_def by blast
  obtain s3 where s3: "mmu_clean_sdirearrmsas s2 = Inr (True, s3)" "emptied Sdir B s2 s3"
    using clean_arrmsas [OF emptied_lists [OF s2(2)]] unfolding mmu_clean_sdirearrmsas_def by blast
  obtain s4 where s4: "mmu_clean_tdirearrmsas s3 = Inr (True, s4)" "emptied Tdir B s3 s4"
    using clean_arrmsas [OF emptied_lists [OF s3(2)]] unfolding mmu_clean_tdirearrmsas_def by blast
  have r: "hal_mmu_clean st = Inr (True, s4)"
    using s1(1) s2(1) s3(1) s4(1) mapped_kva(1) [OF c] away by (simp add: hal_mmu_clean_def)
  have "tpages (ms_mmu s4) = {}"
    using s1(2) s2(2) s3(2) s4(2) unfolding tpages_eq emptied_def by (simp del: dir_head.simps)
  moreover have "page_vacant (ms_grob s4) = page_vacant (ms_grob st) \<union> tpages (ms_mmu st)"
    using s1(2) s2(2) s3(2) s4(2) unfolding tpages_eq emptied_def by (auto simp del: dir_head.simps)
  moreover have "statics (ms_grob s4) = statics (ms_grob st)" "ms_mem s4 = ms_mem st" "lists_ok s4 B"
    using s1(2) s2(2) s3(2) s4(2) by (simp_all add: emptied_def)
  ultimately show ?thesis
    using r by (auto simp: lists_ok_def Let_def)
qed

section \<open>Setting one up\<close>

definition kernel_root :: "mmust \<Rightarrow> bool" where
  "kernel_root st \<longleftrightarrow> mapped (ms_pml4 st) \<and> (\<forall>k. 0 < k \<longrightarrow> k < 256 \<longrightarrow> ms_mem st (kva (ms_pml4 st)) k = 0) \<and>
     (\<forall>i \<in> page_vacant (ms_grob st). pg_adr (ms_grob st) i \<noteq> ms_pml4 st)"

lemma hal_mmu_init_ok:
  assumes s: "sound (ms_grob st) B" and k: "find_area (ms_grob st) MA_TYPE_KRNL = Some a"
    and m: "ms_mmu st = mmudsc_t_init" and kr: "kernel_root st"
  shows "hal_mmu_init st = Inr (False, st) \<and>
      mm_division_pages (ms_grob st) 1 MA_TYPE_KRNL DMF_RELDIV = Inr ((None, 0), ms_grob st) \<or>
    (\<exists>st'. hal_mmu_init st = Inr (True, st') \<and> mmu_ok st' B {} \<and> (\<forall>q. upath 4 q \<longrightarrow> slot st' q = 0) \<and>
       (\<forall>k \<ge> 256. ms_mem st' (root st') k = ms_mem st (kva (ms_pml4 st)) k) \<and> mud_cr3 (ms_mmu st') = phys_root st' \<and>
       statics (ms_grob st') = statics (ms_grob st) \<and> mmu_pages st' = page_vacant (ms_grob st) \<and> ms_cr3 st' = ms_cr3 st \<and> ms_pml4 st' = ms_pml4 st \<and>
       (\<forall>b. b \<notin> pg_vadr (ms_grob st) ` page_vacant (ms_grob st) \<longrightarrow> ms_mem st' b = ms_mem st b) \<and>
       card (kernel_free st) \<le> Suc (card (kernel_free st')) \<and>
       kernel_free st' \<union> tpages (ms_mmu st') \<subseteq> kernel_free st)"
proof -
  define g where "g = ms_grob st"
  show ?thesis
    using krnl_page_new [OF s k]
  proof cases
    case 1
    then have "hal_mmu_init st = Inr (False, st)"
      by (simp add: hal_mmu_init_def mmu_new_tdirearr_def mmu_new_arr_def Let_def)
    then show ?thesis
      using 1 by simp
  next
    case (2 i g')
    have k': "find_area g' MA_TYPE_KRNL = Some a"
      using k find_area_statics [OF 2(3)] by simp
    have kb: "kblk g' = kblk g" and pv: "pg_vadr g' = pg_vadr g" "pg_adr g' = pg_adr g"
      using kblk_statics [OF 2(3)] pg_statics [OF 2(3)] by (simp_all add: g_def)
    have "kblk g' i \<in> insert (kblk g i) B"
      by (simp add: kb)
    note I = kblk_page [OF 2(2) k' this [unfolded g_def], unfolded pv]
    note M = mapped_kva [OF I(4), folded pg_vadr_def]
    let ?v = "pg_vadr g i"
    let ?k = "kva (ms_pml4 st)"
    have kp: "mapped (ms_pml4 st)" "?k \<noteq> ?v" "\<And>j. 0 < j \<Longrightarrow> j < 256 \<Longrightarrow> ms_mem st ?k j = 0"
      using kr 2(5) by (auto simp: kernel_root_def pg_vadr_def g_def)
    define st' where "st' = st\<lparr>ms_grob := g', ms_mem := (ms_mem st)(?v := (ms_mem st ?k)(0 := 0)),
      ms_mmu := mmudsc_t_init\<lparr>mud_tdirhead := [i], mud_tdirmsanr := 1, mud_tdirearr := ?v, mud_cr3 := pg_adr g i\<rparr>\<rparr>"
    have "hal_mmu_init st = Inr (True, st')"
      using 2(1) M I(3) mapped_kva(1) [OF kp(1)] kp(2)
      by (simp add: hal_mmu_init_def mmu_new_tdirearr_def mmu_new_arr_def Let_def msadsc_ret_vaddr_def m
          direarr_t_init_def set_page_def set_ent_def st'_def mmudsc_t_init_def)
    have r: "root st' = ?v" "ms_grob st' = g'" "tpages (ms_mmu st') = {i}"
      by (simp_all add: st'_def tpages_eq mmudsc_t_init_def)
    have row: "ms_mem st' ?v j = 0" if "j < 256" for j
      using kp(3) that by (simp add: st'_def)
    have t: "table st' q = (if q = [] then ?v else 0)" if "upath 3 q" for q
      using that
    proof (induction q)
      case (Cons j q)
      then show ?case
        using Cons.IH [OF upath_ConsD(3) [OF Cons.prems]] row [of j] Cons.prems
        by (cases q) (auto simp: tab.simps upath_def)
    qed (simp add: r)
    have e: "slot st' q = 0" if "upath 4 q" for q
    proof (cases q)
      case (Cons j p)
      then show ?thesis
        using t [OF upath_place(2) [OF that [unfolded Cons]]] row [of j] that by (cases p) (auto simp: ent.simps upath_def)
    qed simp
    have "mmu_ok st' B {}"
    proof (rule mmu_okI)
      show "find_area (ms_grob st') MA_TYPE_KRNL \<noteq> None"
        using k' by (simp add: r)
      show "sound (ms_grob st') (B \<union> kblk (ms_grob st') ` tpages (ms_mmu st'))"
        using 2(2) by (simp add: r kb g_def)
      show "B \<inter> kblk (ms_grob st') ` tpages (ms_mmu st') = {}"
        using 2(4) by (simp add: r kb g_def)
      show "root st' \<noteq> 0"
        using M(3) by (simp add: r)
      show "distinct (dir_head lv (ms_mmu st'))" "dir_msanr lv (ms_mmu st') = of_nat (length (dir_head lv (ms_mmu st')))" for lv
        by (cases lv; simp add: st'_def mmudsc_t_init_def)+
      show "pg_vadr (ms_grob st') ` set (dir_head lv (ms_mmu st')) = tabs_at (ms_mem st') (root st') (depth lv)" for lv
      proof -
        have "tabs_at (ms_mem st') (root st') n = (if n = 0 then {?v} else {})" for n
          unfolding tabs_at_def using t M(3) by (auto simp: r(1) split: if_splits)
        then show ?thesis
          using pv by (cases lv) (simp_all add: st'_def mmudsc_t_init_def g_def)
      qed
      show "no_shared (ms_mem st') (root st')"
        unfolding no_shared_def using t by (auto split: if_splits)
      show "slot st' q = 0 \<or> entry_ok (slot st' q)" if "upath 4 q" "q \<noteq> []" for q
        using e [OF that(1)] by simp
      show "\<exists>j < 512. slot st' (j # q) \<noteq> 0" if "upath 3 q" "q \<noteq> []" "q \<notin> {}" "table st' q \<noteq> 0" for q
        using t [OF that(1)] that by simp
    qed
    moreover have "mud_cr3 (ms_mmu st') = phys_root st'"
      by (simp add: phys_root_def r(1) pg_vadr_def kva_def) (simp add: st'_def)
    moreover have "mmu_pages st' = page_vacant (ms_grob st)"
      using 2(5,6) by (auto simp: mmu_pages_def r)
    moreover have "ms_mem st' b = ms_mem st b" if "b \<notin> pg_vadr (ms_grob st) ` page_vacant (ms_grob st)" for b
      using that 2(5) by (auto simp: st'_def g_def)
    moreover have "ms_mem st' (root st') j = ms_mem st ?k j" if "256 \<le> j" for j
      using that by (simp add: r(1)) (simp add: st'_def)
    moreover have kf: "finite (kernel_free st)" "kernel_free st' = kernel_free st - {i}" "i \<in> kernel_free st"
      using finite_free_pages [OF mem_invD(1) [OF soundD(1) [OF s]]] 2(8,9) k k' by (simp_all add: kernel_free_def r)
    then have "card (kernel_free st) \<le> Suc (card (kernel_free st'))"
      by (simp only: card_less_one)
    moreover have "kernel_free st' \<union> tpages (ms_mmu st') \<subseteq> kernel_free st"
      using kf by (auto simp: r(3))
    moreover have "ms_cr3 st' = ms_cr3 st" "ms_pml4 st' = ms_pml4 st"
      by (simp_all add: st'_def)
    ultimately show ?thesis
      using \<open>hal_mmu_init st = Inr (True, st')\<close> e 2(3)
      by (intro disjI2 exI [of _ st'] conjI allI impI) (simp_all add: r(2))
  qed
qed

section \<open>Loading one\<close>

lemma aligned_iff: "take_bit 12 (w :: u64) = 0 \<longleftrightarrow> unat w mod 4096 = 0"
proof -
  have "take_bit 12 w = 0 \<longleftrightarrow> unat (take_bit 12 w) = unat (0 :: u64)"
    by (rule word_unat_eq_iff)
  also have "unat (take_bit 12 w) = take_bit 12 (unat w)"
    by (rule unsigned_take_bit_eq)
  finally show ?thesis
    by (simp add: take_bit_eq_mod)
qed

lemma and_fff: "and x (0xfff :: u64) = take_bit 12 x"
  by (simp add: take_bit_eq_mask mask_eq_exp_minus_1)

lemma hal_mmu_load_ok:
  assumes ok: "mmu_ok st B X"
  shows "\<exists>st'. hal_mmu_load st = Inr st' \<and> ms_cr3 st' = phys_root st \<and> ms_mem st' = ms_mem st \<and>
     phys_root st' = phys_root st \<and> mmu_ok st' B X"
proof -
  obtain i where "i \<in> set (dir_head Tdir (ms_mmu st))" "table st [] = pg_vadr (ms_grob st) i"
    using table_page [OF ok upath_Nil, of Tdir] mmu_okD(4) [OF ok] by (auto simp del: dir_head.simps)
  then have i: "i \<in> tpages (ms_mmu st)" "root st = kva (pg_adr (ms_grob st) i)"
    using head_tpages [of i Tdir] by (simp_all add: pg_vadr_def)
  have pr: "phys_root st = pg_adr (ms_grob st) i"
    by (simp add: phys_root_def i(2) kva_def)
  define st' where "st' = st\<lparr>ms_mmu := (ms_mmu st)\<lparr>mud_cr3 := phys_root st\<rparr>, ms_cr3 := phys_root st\<rparr>"
  have p: "unat (pg_adr (ms_grob st) i) < 2 ^ 40" "take_bit 12 (pg_adr (ms_grob st) i) = 0"
    using tpage_facts(2) [OF ok i(1)] by (simp_all add: page_adr_def word_less_nat_alt)
  have "unat (kva (pg_adr (ms_grob st) i)) = unat (pg_adr (ms_grob st) i) + 0xffff800000000000"
    using p(1) by (simp add: kva_def KRNL_MAP_VIRTADDRESS_START_def unat_word_ariths)
  moreover have "(n + 0xffff800000000000) mod 4096 = 0" if "n mod 4096 = 0" for n :: nat
    unfolding mod_add_left_eq [of n 4096, symmetric] that by simp
  ultimately have "take_bit 12 (kva (pg_adr (ms_grob st) i)) = 0"
    using p(2) unfolding aligned_iff by simp
  then have "and (root st) 0xfff = 0"
    unfolding and_fff i(2) .
  then have "hal_mmu_load st = Inr st'"
    using mmu_okD(4) [OF ok] mapped_kva(2) [OF tpage_facts(3) [OF ok i(1)], folded i(2)]
    unfolding hal_mmu_load_def Let_def st'_def pr by simp
  moreover have h: "dir_head lv (ms_mmu st') = dir_head lv (ms_mmu st)" "dir_msanr lv (ms_mmu st') = dir_msanr lv (ms_mmu st)" for lv
    by (cases lv; simp add: st'_def)+
  have o: "ms_grob st' = ms_grob st" "ms_mem st' = ms_mem st" "root st' = root st"
    by (simp_all add: st'_def)
  have "tpages (ms_mmu st') = tpages (ms_mmu st)"
    by (simp add: tpages_def h)
  then have "mmu_ok st' B X"
    using ok unfolding mmu_ok_def Let_def h o by simp
  ultimately show ?thesis
    using o by (auto simp: phys_root_def) (simp_all add: st'_def phys_root_def)
qed

end
