(* ===== verification/MmuSpace.thy ===== *)
theory MmuSpace
  imports MmuOps
begin

text \<open>
  The address space as its owner uses it: the view a user program has of its memory, and the locale \<open>address_space\<close> of the
  laws the owner relies on, with the page tables as the provider.
\<close>

section \<open>A user address and what it stands for\<close>

text \<open>What the processor finds for a user address in the tables of the address space.\<close>

definition user_view :: "mmust \<Rightarrow> u64 \<Rightarrow> u64 option" where
  "user_view st va = x86_translate (ms_mem st) (phys_root st) va"

lemma user_view_slot:
  assumes "mmu_ok st B X" "user_adr va"
  shows "user_view st va = (if slot st (va_path va) = 0 then None else Some (dire_ret_padr (slot st (va_path va))))"
  unfolding user_view_def by (rule x86_walk_tree [OF assms])

lemma view_ret:
  assumes "mmu_ok st B X" "user_adr va"
  shows "dire_ret_padr (slot st (va_path va)) = (case user_view st va of None \<Rightarrow> 0 | Some p \<Rightarrow> p)"
  using user_view_slot [OF assms] by auto

lemma mapped_in_view:
  assumes ok: "mmu_ok st B {}" and va: "user_adr va" "user_adr v" and e: "page_adr pa" "entry_flags f"
    and m: "mapped_in B va pa f done st st'"
  shows "user_view st' v = (if done \<and> drop_bit 12 v = drop_bit 12 va then Some pa else user_view st v)"
proof -
  have ok': "mmu_ok st' B {}"
    using m by (simp add: mapped_in_def)
  have s: "slot st' (va_path v) = (if done \<and> va_path v = va_path va then or pa f else slot st (va_path v))"
    using m place_upath(4) [OF va(2)] by (cases "done") (simp_all add: mapped_in_def)
  show ?thesis
    using entry_points [OF e] va_path_eq [OF va(2,1)]
    by (auto simp: user_view_slot [OF ok' va(2)] user_view_slot [OF ok va(2)] s)
qed

lemma mapped_out_view:
  assumes ok: "mmu_ok st B {}" and va: "user_adr va" "user_adr v" and m: "mapped_out B va ret st st'"
  shows "user_view st' v = (if drop_bit 12 v = drop_bit 12 va then None else user_view st v)"
proof -
  have ok': "mmu_ok st' B {}"
    using m by (simp add: mapped_out_def)
  have s: "slot st' (va_path v) = (if va_path v = va_path va then 0 else slot st (va_path v))"
    using m place_upath(4) [OF va(2)] by (simp add: mapped_out_def)
  show ?thesis
    using va_path_eq [OF va(2,1)] by (auto simp: user_view_slot [OF ok' va(2)] user_view_slot [OF ok va(2)] s)
qed

section \<open>The address space as a service\<close>

text \<open>
  What the owner of an address space relies on. A state is in order for the blocks \<open>B\<close> others hold; \<open>look\<close> gives the
  frame behind an address, 0 for none; \<open>like\<close> says that two addresses lie in one page; \<open>spare\<close> are the free pages.
\<close>

locale address_space =
  fixes ok :: "'s \<Rightarrow> bool" and look :: "'s \<Rightarrow> 'v \<Rightarrow> 'p option" and usable :: "'v \<Rightarrow> bool" and like :: "'v \<Rightarrow> 'v \<Rightarrow> bool"
    and enter :: "'s \<Rightarrow> 'v \<Rightarrow> 'p \<Rightarrow> (bool \<times> 's) run" and remove :: "'s \<Rightarrow> 'v \<Rightarrow> ('p option \<times> 's) run"
    and frame :: "'p \<Rightarrow> bool" and spare :: "'s \<Rightarrow> nat set"
  assumes like_refl: "like v v"
    and enter_law: "ok s \<Longrightarrow> usable v \<Longrightarrow> frame p \<Longrightarrow> \<exists>done s'. enter s v p = Inr (done, s') \<and> ok s' \<and>
      (\<forall>w. usable w \<longrightarrow> look s' w = (if done \<and> like w v then Some p else look s w)) \<and> (\<not> done \<longrightarrow> spare s' = spare s)"
    and remove_law: "ok s \<Longrightarrow> usable v \<Longrightarrow> \<exists>s'. remove s v = Inr (look s v, s') \<and> ok s' \<and>
      (\<forall>w. usable w \<longrightarrow> look s' w = (if like w v then None else look s w))"
    and undo_law: "ok s \<Longrightarrow> usable v \<Longrightarrow> frame p \<Longrightarrow> look s v = None \<Longrightarrow> enter s v p = Inr (True, s1) \<Longrightarrow>
      remove s1 v = Inr (r, s2) \<Longrightarrow> spare s2 = spare s"
begin

text \<open>A list of addresses removed one after the other.\<close>

fun remove_all :: "'s \<Rightarrow> 'v list \<Rightarrow> ('p option list \<times> 's) run" where
  "remove_all s [] = Inr ([], s)"
| "remove_all s (v # vs) =
     andthen (remove s v) (\<lambda>(r, s). andthen (remove_all s vs) (\<lambda>(rs, s). Inr (r # rs, s)))"

lemma remove_all_law:
  assumes "ok s" "\<forall>v \<in> set vs. usable v"
  shows "\<exists>rs s'. remove_all s vs = Inr (rs, s') \<and> ok s' \<and> length rs = length vs \<and>
     (\<forall>w. usable w \<longrightarrow> look s' w = (if \<exists>v \<in> set vs. like w v then None else look s w))"
  using assms
proof (induction vs arbitrary: s)
  case (Cons v vs)
  from remove_law [OF Cons.prems(1), of v] Cons.prems(2) obtain s1 where s1: "remove s v = Inr (look s v, s1)" "ok s1"
    "\<And>w. usable w \<Longrightarrow> look s1 w = (if like w v then None else look s w)"
    by auto
  from Cons.IH [OF s1(2)] Cons.prems(2) obtain rs s' where s': "remove_all s1 vs = Inr (rs, s')" "ok s'"
    "length rs = length vs" "\<And>w. usable w \<Longrightarrow> look s' w = (if \<exists>v \<in> set vs. like w v then None else look s1 w)"
    by auto
  show ?case
    using s1 s' by (intro exI [of _ "look s v # rs"] exI [of _ s']) auto
qed simp

lemma enter_remove:
  assumes "ok s" "usable v" "frame p" "look s v = None" "enter s v p = Inr (True, s1)"
  shows "\<exists>s2. remove s1 v = Inr (Some p, s2) \<and> ok s2 \<and> spare s2 = spare s \<and> (\<forall>w. usable w \<longrightarrow> look s2 w = look s w \<or> like w v)"
proof -
  from enter_law [OF assms(1-3)] assms(5) have s1: "ok s1"
    "\<And>w. usable w \<Longrightarrow> look s1 w = (if like w v then Some p else look s w)"
    by auto
  then have "look s1 v = Some p"
    using assms(2) like_refl by simp
  with remove_law [OF s1(1) assms(2)] obtain s2 where s2: "remove s1 v = Inr (Some p, s2)" "ok s2"
    "\<And>w. usable w \<Longrightarrow> look s2 w = (if like w v then None else look s1 w)"
    by auto
  with undo_law [OF assms s2(1)] s1(2) show ?thesis
    by auto
qed

end

section \<open>The page tables provide it\<close>

definition space_enter :: "u64 \<Rightarrow> mmust \<Rightarrow> u64 \<Rightarrow> u64 \<Rightarrow> (bool \<times> mmust) run" where
  "space_enter f st va pa = hal_mmu_transform st va pa f"

definition space_remove :: "mmust \<Rightarrow> u64 \<Rightarrow> (u64 option \<times> mmust) run" where
  "space_remove st va =
     andthen (hal_mmu_untransform st va) (\<lambda>(pa, st). Inr (if pa = 0 then None else Some pa, st))"

definition same_page :: "u64 \<Rightarrow> u64 \<Rightarrow> bool" where
  "same_page v w \<longleftrightarrow> drop_bit 12 v = drop_bit 12 w"

lemma view_nonzero:
  assumes "mmu_ok st B X" "user_adr va"
  shows "user_view st va \<noteq> Some 0"
proof
  assume a: "user_view st va = Some 0"
  then have "slot st (va_path va) \<noteq> 0" "dire_ret_padr (slot st (va_path va)) = 0"
    using user_view_slot [OF assms] by (auto split: if_splits)
  moreover have "va_path va \<noteq> []"
    by simp
  ultimately obtain p f where e: "page_adr p" "entry_flags f" "slot st (va_path va) = or p f"
    using mmu_okD(9) [OF assms(1) place_upath(4) [OF assms(2)]] by (auto simp: entry_ok_def)
  then show False
    using entry_points(1) [OF e(1,2)] \<open>dire_ret_padr (slot st (va_path va)) = 0\<close> by (simp add: page_adr_def)
qed

lemma space_remove_eq:
  assumes ok: "mmu_ok st B {}" and va: "user_adr va" and r: "hal_mmu_untransform st va = Inr (ret, st')"
    "mapped_out B va ret st st'"
  shows "space_remove st va = Inr (user_view st va, st')"
  using r view_ret [OF ok va] view_nonzero [OF ok va]
  by (cases "user_view st va") (auto simp: space_remove_def mapped_out_def)

lemma transform_undo:
  assumes ok: "mmu_ok st B {}" and va: "user_adr va" and n: "user_view st va = None"
    and m: "mapped_in B va pa f True st st1" and o: "mapped_out B va ret st1 st2"
  shows "page_vacant (ms_grob st2) = page_vacant (ms_grob st)" "slot st2 q = slot st q \<or> \<not> upath 4 q \<or> q = []"
proof -
  have ok2: "mmu_ok st2 B {}" and fr: "mmu_frame st st2"
    using m o mmu_frame_trans by (auto simp: mapped_in_def mapped_out_def)
  have z: "slot st (va_path va) = 0"
    using n user_view_slot [OF ok va] by (auto split: if_splits)
  have l: "same_leaves st st2"
    using m o z by (auto simp: same_leaves_def mapped_in_def mapped_out_def)
  have "slot st2 q = slot st q" if "upath 4 q" "q \<noteq> []" "slot st q \<noteq> 0" "slot st2 q \<noteq> 0" for q
  proof -
    have "q \<noteq> va_path va"
      using that(3) z by auto
    then have a: "slot st1 q = slot st q"
      using m that by (simp add: mapped_in_def)
    have "slot st1 q = slot st2 q"
      using o that by (simp add: mapped_out_def grown_def)
    with a show ?thesis
      by simp
  qed
  note s = same_slots [OF ok ok2 frame_root [OF fr] l this]
  show "page_vacant (ms_grob st2) = page_vacant (ms_grob st)"
    by (rule same_vacant [OF ok ok2 fr s])
  show "slot st2 q = slot st q \<or> \<not> upath 4 q \<or> q = []"
    using s by blast
qed

interpretation sp: address_space "\<lambda>st. mmu_ok st B {}" user_view user_adr same_page
    "space_enter (or 4 (or 2 1))" space_remove page_adr "\<lambda>st. page_vacant (ms_grob st)" for B
proof
  have f: "entry_flags (or 4 (or 2 1))"
    by (simp add: entry_flags_def bit_or_iff)
  fix st v p
  assume ok: "mmu_ok st B {}" and v: "user_adr v"
  show "\<exists>s'. space_remove st v = Inr (user_view st v, s') \<and> mmu_ok s' B {} \<and>
      (\<forall>w. user_adr w \<longrightarrow> user_view s' w = (if same_page w v then None else user_view st w))"
  proof -
    obtain ret st' where r: "hal_mmu_untransform st v = Inr (ret, st')" "mapped_out B v ret st st'"
      using hal_mmu_untransform_ok [OF ok v] by blast
    then show ?thesis
      using space_remove_eq [OF ok v r] mapped_out_view [OF ok v _ r(2)]
      by (intro exI [of _ st']) (simp add: mapped_out_def same_page_def)
  qed
  assume p: "page_adr p"
  show "\<exists>done s'. space_enter (or 4 (or 2 1)) st v p = Inr (done, s') \<and> mmu_ok s' B {} \<and>
      (\<forall>w. user_adr w \<longrightarrow> user_view s' w = (if done \<and> same_page w v then Some p else user_view st w)) \<and>
      (\<not> done \<longrightarrow> page_vacant (ms_grob s') = page_vacant (ms_grob st))"
  proof -
    obtain done' st' where r: "hal_mmu_transform st v p (or 4 (or 2 1)) = Inr (done', st')"
      "mapped_in B v p (or 4 (or 2 1)) done' st st'"
      using hal_mmu_transform_ok [OF ok v p f] by blast
    have "page_vacant (ms_grob st') = page_vacant (ms_grob st)" if "\<not> done'"
      using r(2) that same_vacant [OF ok, of st'] by (auto simp: mapped_in_def)
    then show ?thesis
      using r mapped_in_view [OF ok v _ p f r(2)]
      by (intro exI [of _ done'] exI [of _ st']) (simp add: mapped_in_def same_page_def space_enter_def)
  qed
  fix s1 r s2
  assume n: "user_view st v = None" and e: "space_enter (or 4 (or 2 1)) st v p = Inr (True, s1)"
    and m: "space_remove s1 v = Inr (r, s2)"
  show "page_vacant (ms_grob s2) = page_vacant (ms_grob st)"
  proof -
    have i: "mapped_in B v p (or 4 (or 2 1)) True st s1"
      using hal_mmu_transform_ok [OF ok v p f] e by (auto simp: space_enter_def)
    then have ok1: "mmu_ok s1 B {}"
      by (simp add: mapped_in_def)
    obtain ret st' where o: "hal_mmu_untransform s1 v = Inr (ret, st')" "mapped_out B v ret s1 st'"
      using hal_mmu_untransform_ok [OF ok1 v] by blast
    then have "s2 = st'"
      using m by (simp add: space_remove_def)
    then show ?thesis
      using transform_undo(1) [OF ok v n i o(2)] by simp
  qed
qed (simp add: same_page_def)

lemma krnl_page_some:
  assumes "sound g A" "find_area g MA_TYPE_KRNL = Some a" "free_pages g a \<noteq> {}"
  shows "mm_division_pages g 1 MA_TYPE_KRNL DMF_RELDIV \<noteq> Inr ((None, 0), g)"
  using krnl_page_new [OF assms(1,2)]
proof cases
  case 1
  with assms(3) show ?thesis
    by blast
qed simp

section \<open>Another address space on the same machine\<close>

definition with_space :: "mmust \<Rightarrow> mmudsc \<Rightarrow> mmust" where
  "with_space st m = st\<lparr>ms_mmu := m\<rparr>"

text \<open>The pages of the tables of an address space, as blocks of the page manager.\<close>

definition space_blocks :: "mmust \<Rightarrow> mmudsc \<Rightarrow> blocks" where
  "space_blocks st m = kblk (ms_grob st) ` tpages m"

lemma with_space_simps [simp]:
  "ms_grob (with_space st m) = ms_grob st" "ms_mem (with_space st m) = ms_mem st" "ms_mmu (with_space st m) = m"
  by (simp_all add: with_space_def)

text \<open>An address space stays as it is while its tables do.\<close>

lemma space_kept:
  assumes other: "mmu_ok (with_space st m) B {}" and st: "statics (ms_grob st') = statics (ms_grob st)"
    and out: "\<And>i. i \<in> tpages m \<Longrightarrow> ms_mem st' (pg_vadr (ms_grob st) i) = ms_mem st (pg_vadr (ms_grob st) i)"
    and s: "sound (ms_grob st') (B' \<union> kblk (ms_grob st) ` tpages m)" "B' \<inter> kblk (ms_grob st) ` tpages m = {}"
  shows "mmu_ok (with_space st' m) B' {} \<and>
    (\<forall>v. user_adr v \<longrightarrow> user_view (with_space st' m) v = user_view (with_space st m) v)"
proof -
  let ?s = "with_space st m" and ?s' = "with_space st' m"
  have kb: "kblk (ms_grob st') = kblk (ms_grob st)" and pv: "pg_vadr (ms_grob st') = pg_vadr (ms_grob st)"
    using kblk_statics [OF st] pg_statics [OF st] by simp_all
  have same: "ms_mem st' (table ?s q) = ms_mem st (table ?s q)" if q: "upath 3 q" "table ?s q \<noteq> 0" for q
  proof -
    obtain lv where lv: "depth lv = length q"
      using depth_le(3) [of "length q"] q by (auto simp: upath_def)
    from table_page [OF other q lv [symmetric]] obtain i where
      "i \<in> set (dir_head lv m)" "table ?s q = pg_vadr (ms_grob st) i"
      by auto
    then show ?thesis
      using out [OF head_tpages] by simp
  qed
  have t: "table ?s' q = table ?s q" if "upath 3 q" for q
    using tab_cong [of q "ms_mem ?s" "root ?s" "ms_mem ?s'", OF that] same by simp
  have e: "slot ?s' q = slot ?s q" if "upath 4 q" for q
    using ent_cong [of "ms_mem ?s" "root ?s" "ms_mem ?s'", OF _ that] same by simp
  have ta: "tabs_at (ms_mem ?s') (root ?s') n = tabs_at (ms_mem ?s) (root ?s) n" for n
    unfolding tabs_at_def using t by metis
  have new: "mmu_ok ?s' B' {}"
  proof (rule mmu_okI)
    show "find_area (ms_grob ?s') MA_TYPE_KRNL \<noteq> None"
      using mmu_okD(1) [OF other] find_area_statics [OF st] by simp
    show "sound (ms_grob ?s') (B' \<union> kblk (ms_grob ?s') ` tpages (ms_mmu ?s'))"
      using s(1) by (simp add: kb)
    show "B' \<inter> kblk (ms_grob ?s') ` tpages (ms_mmu ?s') = {}"
      using s(2) by (simp add: kb)
    show "no_shared (ms_mem ?s') (root ?s')"
      unfolding no_shared_def using t no_sharedD [OF mmu_okD(8) [OF other]] by simp
    show "slot ?s' q = 0 \<or> entry_ok (slot ?s' q)" if "upath 4 q" "q \<noteq> []" for q
      using mmu_okD(9) [OF other that] e [OF that(1)] by simp
    show "\<exists>k < 512. slot ?s' (k # q) \<noteq> 0" if q: "upath 3 q" "q \<noteq> []" "q \<notin> {}" "table ?s' q \<noteq> 0" for q
    proof -
      obtain k where k: "k < 512" "slot ?s (k # q) \<noteq> 0"
        using mmu_okD(10) [OF other q(1-3)] q(4) t [OF q(1)] by auto
      then show ?thesis
        using e [OF upath_place(1) [OF q(1) k(1)]] q(2) by auto
    qed
  qed (use mmu_okD(4-7) [OF other] ta pv in \<open>simp_all\<close>)
  have "user_view ?s' v = user_view ?s v" if "user_adr v" for v
    using user_view_slot [OF new that] user_view_slot [OF other that] e [OF place_upath(4) [OF that]] by simp
  with new show ?thesis
    by blast
qed

lemma pages_away:
  assumes other: "mmu_ok (with_space st m) B {}" and i: "i \<in> tpages m"
    and P: "P \<inter> tpages m = {}" "\<And>j. j \<in> P \<Longrightarrow> j < npages (ms_grob st)"
  shows "pg_vadr (ms_grob st) i \<notin> pg_vadr (ms_grob st) ` P"
proof
  assume "pg_vadr (ms_grob st) i \<in> pg_vadr (ms_grob st) ` P"
  then obtain j where "j \<in> P" "pg_vadr (ms_grob st) i = pg_vadr (ms_grob st) j"
    by blast
  moreover from this have "i = j"
    using vadr_inj [OF other, of i j] tpage_facts(1) [OF other] i P(2) by simp
  ultimately show False
    using P(1) i by blast
qed

lemma vacant_range: "sound g A \<Longrightarrow> j \<in> page_vacant g \<Longrightarrow> j < npages g"
  using pages_in_range [OF soundD(1)] by (auto simp: page_vacant_def)

lemma other_space_kept:
  assumes ok: "mmu_ok st (B \<union> space_blocks st m) {}" and other: "mmu_ok (with_space st m) (B \<union> space_blocks st (ms_mmu st)) {}"
    and fr: "mmu_frame st st'" and ok': "mmu_ok st' (B \<union> space_blocks st m) {}"
  shows "mmu_ok (with_space st' m) (B \<union> space_blocks st' (ms_mmu st')) {} \<and>
    (\<forall>v. user_adr v \<longrightarrow> user_view (with_space st' m) v = user_view (with_space st m) v)"
proof (rule space_kept [OF other])
  show st: "statics (ms_grob st') = statics (ms_grob st)"
    using fr by (simp add: mmu_frame_def)
  have kb: "kblk (ms_grob st') = kblk (ms_grob st)"
    using kblk_statics [OF st] .
  have dj: "mmu_pages st \<inter> tpages m = {}"
    using tpages_disj [OF other] mmu_okD(3) [OF ok] by (auto simp: mmu_pages_def space_blocks_def)
  have "j < npages (ms_grob st)" if "j \<in> mmu_pages st" for j
    using that tpage_facts(1) [OF ok] vacant_range [OF mmu_okD(2) [OF ok]] by (auto simp: mmu_pages_def)
  then show "ms_mem st' (pg_vadr (ms_grob st) i) = ms_mem st (pg_vadr (ms_grob st) i)" if i: "i \<in> tpages m" for i
    using fr pages_away [OF other i dj] by (simp add: mmu_frame_def)
  have "B \<union> space_blocks st m \<union> kblk (ms_grob st') ` tpages (ms_mmu st') =
      B \<union> space_blocks st' (ms_mmu st') \<union> kblk (ms_grob st) ` tpages m"
    by (simp add: space_blocks_def kb Un_ac)
  then show "sound (ms_grob st') (B \<union> space_blocks st' (ms_mmu st') \<union> kblk (ms_grob st) ` tpages m)"
    using mmu_okD(2) [OF ok'] by simp
  show "(B \<union> space_blocks st' (ms_mmu st')) \<inter> kblk (ms_grob st) ` tpages m = {}"
    using mmu_okD(3) [OF ok'] mmu_okD(3) [OF other] by (auto simp: space_blocks_def kb)
qed

end
