(* ===== verification/MmuDemo.thy ===== *)
theory MmuDemo
  imports MmuSpace MemDemo
begin

text \<open>
  A small machine with an address space, which satisfies the invariants; the properties of the tables are applied to it.
\<close>

section \<open>A machine with an address space\<close>

definition demo_machine :: mmust where
  "demo_machine = \<lparr>ms_grob = demo, ms_mem = (\<lambda>a k. 0), ms_cr3 = 0x10000, ms_pml4 = 0x10000, ms_mmu = mmudsc_t_init\<rparr>"

definition the_state :: "(bool \<times> mmust) run \<Rightarrow> mmust" where
  "the_state r = (case r of Inr (ok, st) \<Rightarrow> st | Inl e \<Rightarrow> demo_machine)"

definition demo_space :: mmust where
  "demo_space = the_state (hal_mmu_init demo_machine)"

lemma demo_area_own: "area_own demo {} a = (if a = 0 then {0..<4} else if a = 1 then {4, 5} else {})"
proof (cases "a < 2")
  case False
  have "free_pages demo a = {}"
  proof (rule ccontr)
    assume "free_pages demo a \<noteq> {}"
    then obtain p where "p \<in> free_pages demo a"
      by blast
    then show False
      using pages_in_range [OF demo_inv, of p a] False by (simp add: demo_sizes)
  qed
  with False show ?thesis
    by (auto simp: area_own_def alloc_pages_def)
qed (auto simp: less_2 area_own_def alloc_pages_def demo_free_pages)

lemma demo_sound: "sound demo {}"
proof -
  have "distinct (frame_nrs demo)"
    by (simp add: frame_nrs_def demo_def demo_page_def)
  moreover have "adr_ok (paf_padrs (msa demo i)) \<and> unat (paf_padrs (msa demo i)) < 2 ^ 22" if "i < 6" for i
  proof -
    have "i = 0 \<or> i = Suc 0 \<or> i = 2 \<or> i = 3 \<or> i = 4 \<or> i = 5"
      using that by auto
    then show ?thesis
      by (auto simp: demo_msa demo_page_def adr_ok_def)
  qed
  ultimately have "phys_ok demo {}"
    unfolding phys_ok_def demo_area_own by auto
  then show ?thesis
    using demo_inv by (simp add: sound_def)
qed

lemma demo_krnl_area: "find_area demo MA_TYPE_KRNL = Some 0"
  using find_area_eq [OF demo_wf, of 0] by (simp add: demo_sizes demo_types)

lemma demo_pages: "pg_adr demo i = push_bit 12 (of_nat (i + 1))" if "i < 6"
proof -
  have "i = 0 \<or> i = Suc 0 \<or> i = 2 \<or> i = 3 \<or> i = 4 \<or> i = 5"
    using that by auto
  then show ?thesis
    by (auto simp: pg_adr_msa demo_sizes demo_msa msa_phyadr_def demo_page_def PSHRSIZE_def push_bit_eq_mult)
qed

lemma demo_vacant: "page_vacant demo = {0..<6}"
proof -
  have f: "free_pages demo a = (if a = 0 then {0..<4} else if a = 1 then {4, 5} else {})" for a
    using demo_area_own [of a] by (simp add: area_own_def alloc_pages_def)
  show ?thesis
    unfolding page_vacant_def f by (auto split: if_splits)
qed

lemma demo_kernel_root: "kernel_root demo_machine"
proof -
  have "pg_adr demo i \<noteq> 0x10000" if "i < 6" for i
  proof -
    have "i = 0 \<or> i = Suc 0 \<or> i = 2 \<or> i = 3 \<or> i = 4 \<or> i = 5"
      using that by auto
    then show ?thesis
      using demo_pages [OF that] by (auto simp: push_bit_eq_mult)
  qed
  then show ?thesis
    by (auto simp: kernel_root_def demo_machine_def demo_vacant mapped_def KRNL_MAP_PHYADDRESS_END_def)
qed

text \<open>The kernel area has a page.\<close>

lemma krnl_page_there:
  assumes s: "mem_inv g A" and k: "find_area g MA_TYPE_KRNL = Some a" and b: "best_fit g a 0 \<noteq> None"
  shows "mm_division_pages g 1 MA_TYPE_KRNL DMF_RELDIV \<noteq> Inr ((None, 0), g)"
proof -
  note A = krnl_area [OF k]
  obtain d where d: "best_fit g a (order_for (unat (1 :: u64))) = Some d"
    using b unfolding order_for_1 by blast
  have ty: "ma_type (area g a) = MA_TYPE_KRNL \<or> ma_type (area g a) = MA_TYPE_HWAD"
    using A(2) by simp
  from division_pages_Some [OF s A(1) _ ty refl d refl] show ?thesis
    unfolding A(2) by auto
qed

lemma demo_kernel_fit: "best_fit demo 0 0 = Some 2"
proof -
  have "best_fit demo 0 0 \<noteq> None"
    unfolding best_fit_def find_None_iff using demo_frelst(1) [of "Lie 2"] by (auto simp: MDIVMER_ARR_LMAX_def intro!: exI [of _ 2])
  then obtain d where d: "best_fit demo 0 0 = Some d"
    by blast
  have "frelst demo 0 (Lie d) \<noteq> []"
    by (rule best_fit_Some(3) [OF d])
  then have "d = 2"
    using demo_frelst(1) [of "Lie d"] best_fit_Some(2) [OF d] by (auto split: if_splits)
  then show ?thesis
    using d by simp
qed

lemma demo_init:
  "hal_mmu_init demo_machine = Inr (True, demo_space)" "mmu_ok demo_space {} {}"
  "user_adr va \<Longrightarrow> user_view demo_space va = None" "3 \<le> card (kernel_free demo_space)" "kernel_root demo_space"
proof -
  have fields: "ms_grob demo_machine = demo" "ms_mmu demo_machine = mmudsc_t_init"
    by (simp_all add: demo_machine_def)
  have "mm_division_pages demo 1 MA_TYPE_KRNL DMF_RELDIV \<noteq> Inr ((None, 0), demo)"
    by (rule krnl_page_there [OF demo_inv demo_krnl_area]) (simp add: demo_kernel_fit)
  with hal_mmu_init_ok [of demo_machine "{}" 0] demo_sound demo_krnl_area fields demo_kernel_root
  obtain st where st: "hal_mmu_init demo_machine = Inr (True, st)" "mmu_ok st {} {}" "\<forall>q. upath 4 q \<longrightarrow> slot st q = 0"
    "card (kernel_free demo_machine) \<le> Suc (card (kernel_free st))" "ms_pml4 st = ms_pml4 demo_machine"
    "statics (ms_grob st) = statics demo" "mmu_pages st = page_vacant demo"
    "\<forall>b. b \<notin> pg_vadr demo ` page_vacant demo \<longrightarrow> ms_mem st b = ms_mem demo_machine b"
    by auto
  have "card (kernel_free demo_machine) = 4"
    by (simp add: kernel_free_def fields demo_krnl_area demo_free_pages)
  have d: "demo_space = st"
    by (simp add: demo_space_def the_state_def st(1))
  show "hal_mmu_init demo_machine = Inr (True, demo_space)" "mmu_ok demo_space {} {}"
    using st by (simp_all add: d)
  show "3 \<le> card (kernel_free demo_space)"
    using st(4) \<open>card (kernel_free demo_machine) = 4\<close> by (simp add: d)
  show "user_view demo_space va = None" if "user_adr va"
    using st(3) place_upath(4) [OF that] by (simp add: d user_view_slot [OF st(2) that])
  have "kva (ms_pml4 demo_machine) \<notin> pg_vadr demo ` page_vacant demo"
    using demo_kernel_root by (auto simp: kernel_root_def pg_vadr_def fields)
  then have "ms_mem st (kva (ms_pml4 demo_machine)) = ms_mem demo_machine (kva (ms_pml4 demo_machine))"
    using st(8) by blast
  moreover have "page_vacant (ms_grob st) \<subseteq> page_vacant demo"
    using st(7) by (auto simp: mmu_pages_def)
  ultimately show "kernel_root demo_space"
    using demo_kernel_root pg_statics [OF st(6)] st(5) unfolding d kernel_root_def fields by auto
qed

end
