(* ===== verification/MmuProps.thy ===== *)
theory MmuProps
  imports MmuDemo
begin

text \<open>
  The properties of the page tables.
\<close>

section \<open>Translations\<close>

text \<open>C22: \<open>hal_mmu_transform\<close> returns for every user address, page and flags. Either it says TRUE; then the processor
  finds the page behind the address (and every address of its page), and what it finds behind all other user addresses is
  what it found before. Or it says FALSE, for want of a page for a table, which cannot happen while the kernel area has three free pages; then no translation has changed and every page
  taken for a table on the way has been given back. In both cases the tables are in order again, the kernel half of the
  root table is untouched, and so is every page that is neither a table of this address space nor free.\<close>

theorem hal_mmu_transform_maps:
  assumes "mmu_ok st B {}" "user_adr va" "page_adr pa" "entry_flags flags"
  shows "\<exists>done st'. hal_mmu_transform st va pa flags = Inr (done, st') \<and> mmu_ok st' B {} \<and> mmu_frame st st' \<and>
     (\<forall>v. user_adr v \<longrightarrow> user_view st' v = (if done \<and> same_page v va then Some pa else user_view st v)) \<and>
     (\<not> done \<longrightarrow> page_vacant (ms_grob st') = page_vacant (ms_grob st) \<and> card (kernel_free st) < 3)"
proof -
  obtain done' st' where r: "hal_mmu_transform st va pa flags = Inr (done', st')" "mapped_in B va pa flags done' st st'"
    "\<not> done' \<longrightarrow> card (kernel_free st) < 3"
    using hal_mmu_transform_ok [OF assms] by blast
  have "page_vacant (ms_grob st') = page_vacant (ms_grob st)" if "\<not> done'"
    using r(2) that same_vacant [OF assms(1), of st'] by (auto simp: mapped_in_def)
  then show ?thesis
    using r mapped_in_view [OF assms(1,2) _ assms(3,4) r(2)]
    by (intro exI [of _ done'] exI [of _ st']) (simp add: mapped_in_def same_page_def)
qed

lemma demo_user: "user_adr 0x5000" "user_adr 0x5008" "page_adr 0x6000" "entry_flags 7"
proof -
  show "page_adr 0x6000"
    by (simp add: page_adr_def take_bit_eq_mod)
  have "bit (7 :: u64) 0"
    by simp
  then show "entry_flags 7"
    by (simp add: entry_flags_def)
qed (simp_all add: user_adr_def)

theorem hal_mmu_transform_maps_witness:
  "\<exists>st'. hal_mmu_transform demo_space 0x5000 0x6000 7 = Inr (True, st') \<and> mmu_ok st' {} {} \<and>
     user_view st' 0x5008 = Some 0x6000"
proof -
  have "same_page 0x5008 0x5000"
    by (simp add: same_page_def drop_bit_eq_div)
  then show ?thesis
    using hal_mmu_transform_maps [OF demo_init(2) demo_user(1,3,4)] demo_init(4) demo_user(2) by force
qed

text \<open>C23: \<open>hal_mmu_untransform\<close> returns the page the processor found behind the address, 0 when there was none;
  afterwards there is none, and what is behind every other page of the user half is unchanged. Tables that became empty are
  given back; no other page, and nothing in the kernel half, changes.\<close>

theorem hal_mmu_untransform_unmaps:
  assumes "mmu_ok st B {}" "user_adr va"
  shows "\<exists>st'. hal_mmu_untransform st va = Inr ((case user_view st va of None \<Rightarrow> 0 | Some p \<Rightarrow> p), st') \<and>
     mmu_ok st' B {} \<and> mmu_frame st st' \<and>
     (\<forall>v. user_adr v \<longrightarrow> user_view st' v = (if same_page v va then None else user_view st v))"
proof -
  obtain ret st' where r: "hal_mmu_untransform st va = Inr (ret, st')" "mapped_out B va ret st st'"
    using hal_mmu_untransform_ok [OF assms] by blast
  then show ?thesis
    using view_ret [OF assms] mapped_out_view [OF assms _ r(2)]
    by (intro exI [of _ st']) (simp add: mapped_out_def same_page_def)
qed

theorem hal_mmu_untransform_unmaps_witness:
  "\<exists>st'. hal_mmu_untransform demo_space 0x5000 = Inr (0, st') \<and> mmu_ok st' {} {} \<and> user_view st' 0x5000 = None"
  using hal_mmu_untransform_unmaps [OF demo_init(2) demo_user(1)] demo_init(3) [OF demo_user(1)] demo_user(1)
  by (fastforce simp: same_page_def)

text \<open>C24: A page entered where there was none and removed again is returned by the removal, and the page manager has
  exactly the free pages it had before: the tables taken for the translation have all gone back.\<close>

theorem map_unmap_roundtrip:
  assumes "mmu_ok st B {}" "user_adr va" "page_adr pa" "user_view st va = None"
    "hal_mmu_transform st va pa 7 = Inr (True, st1)"
  shows "\<exists>st2. hal_mmu_untransform st1 va = Inr (pa, st2) \<and> mmu_ok st2 B {} \<and>
     page_vacant (ms_grob st2) = page_vacant (ms_grob st) \<and> (\<forall>v. user_adr v \<longrightarrow> user_view st2 v = user_view st v)"
proof -
  have seven: "(7 :: u64) = or 4 (or 2 1)"
    by simp
  have "space_enter (or 4 (or 2 1)) st va pa = Inr (True, st1)"
    using assms(5) by (simp only: space_enter_def seven)
  from sp.enter_remove [OF assms(1-4) this] obtain st2 where s2: "space_remove st1 va = Inr (Some pa, st2)"
    "mmu_ok st2 B {}" "page_vacant (ms_grob st2) = page_vacant (ms_grob st)"
    "\<And>w. user_adr w \<Longrightarrow> user_view st2 w = user_view st w \<or> same_page w va"
    by blast
  have ok1: "mmu_ok st1 B {}" 
    using hal_mmu_transform_ok [OF assms(1-3) demo_user(4)] assms(5) by (auto simp: mapped_in_def)
  obtain ret st' where r: "hal_mmu_untransform st1 va = Inr (ret, st')" "mapped_out B va ret st1 st'"
    using hal_mmu_untransform_ok [OF ok1 assms(2)] by blast
  then have e: "st' = st2" "ret = pa"
    using s2(1) by (auto simp: space_remove_def split: if_splits)
  have "user_view st2 v = user_view st v" if v: "user_adr v" for v
  proof (cases "same_page v va")
    case True
    then have "user_view st2 v = None" "user_view st v = user_view st va"
      using mapped_out_view [OF ok1 assms(2) v r(2)] va_path_eq [OF v assms(2)] e
        user_view_slot [OF assms(1) v] user_view_slot [OF assms(1,2)] by (simp_all add: same_page_def)
    then show ?thesis
      using assms(4) by simp
  qed (use s2(4) [OF v] in blast)
  then show ?thesis
    using r(1) e s2 by blast
qed


lemma demo_mapped:
  obtains st1 where "hal_mmu_transform demo_space 0x5000 0x6000 7 = Inr (True, st1)" "mmu_ok st1 {} {}"
  using hal_mmu_transform_ok [OF demo_init(2) demo_user(1,3,4)] demo_init(4) by (fastforce simp: mapped_in_def)

theorem map_unmap_roundtrip_witness:
  "\<exists>st1 st2. hal_mmu_transform demo_space 0x5000 0x6000 7 = Inr (True, st1) \<and>
     hal_mmu_untransform st1 0x5000 = Inr (0x6000, st2) \<and>
     page_vacant (ms_grob st2) = page_vacant (ms_grob demo_space)"
proof -
  obtain st1 where "hal_mmu_transform demo_space 0x5000 0x6000 7 = Inr (True, st1)"
    by (rule demo_mapped)
  then show ?thesis
    using map_unmap_roundtrip [OF demo_init(2) demo_user(1,3) demo_init(3) [OF demo_user(1)]] by blast
qed

text \<open>C25: Two address spaces on one machine, each with its own tables: whatever translation is entered in one of them or
  removed from it, the other one stays in order, and the processor finds behind every user address of the other what it
  found before.\<close>

theorem address_spaces_apart:
  assumes "mmu_ok st (B \<union> space_blocks st m) {}" "mmu_ok (with_space st m) (B \<union> space_blocks st (ms_mmu st)) {}"
    "user_adr va" "page_adr pa" "entry_flags flags"
    "hal_mmu_transform st va pa flags = Inr (done, st') \<or> hal_mmu_untransform st va = Inr (ret, st')"
  shows "mmu_ok st' (B \<union> space_blocks st m) {} \<and> mmu_ok (with_space st' m) (B \<union> space_blocks st' (ms_mmu st')) {} \<and>
    (\<forall>v. user_adr v \<longrightarrow> user_view (with_space st' m) v = user_view (with_space st m) v)"
proof -
  have "mmu_ok st' (B \<union> space_blocks st m) {} \<and> mmu_frame st st'"
    using hal_mmu_transform_ok [OF assms(1,3-5)] hal_mmu_untransform_ok [OF assms(1,3)] assms(6)
    by (auto simp: mapped_in_def mapped_out_def)
  with other_space_kept [OF assms(1,2)] show ?thesis
    by blast
qed


text \<open>A second address space on the small machine.\<close>

definition demo_second :: mmust where
  "demo_second = the_state (hal_mmu_init (with_space demo_space mmudsc_t_init))"

lemma demo_two:
  "mmu_ok demo_second ({} \<union> space_blocks demo_second (ms_mmu demo_space)) {}"
  "mmu_ok (with_space demo_second (ms_mmu demo_space)) ({} \<union> space_blocks demo_second (ms_mmu demo_second)) {}"
  "user_adr v \<Longrightarrow> user_view (with_space demo_second (ms_mmu demo_space)) v = None"
proof -
  let ?m = "ms_mmu demo_space" and ?g = "ms_grob demo_space"
  define s0 where "s0 = with_space demo_space mmudsc_t_init"
  define B where "B = space_blocks demo_space ?m"
  have f: "ms_grob s0 = ?g" "ms_mem s0 = ms_mem demo_space" "ms_mmu s0 = mmudsc_t_init" "kernel_free s0 = kernel_free demo_space"
    by (simp_all add: s0_def kernel_free_def)
  have orig: "with_space s0 ?m = demo_space"
    by (simp add: s0_def with_space_def)
  have snd: "sound ?g B"
    using mmu_okD(2) [OF demo_init(2)] by (simp add: B_def space_blocks_def)
  obtain a where a: "find_area ?g MA_TYPE_KRNL = Some a"
    using mmu_okD(1) [OF demo_init(2)] by blast
  have kr: "kernel_root s0"
    using demo_init(5) by (simp add: kernel_root_def f) (simp add: s0_def with_space_def)
  have "free_pages ?g a \<noteq> {}"
    using demo_init(4) a by (auto simp: kernel_free_def)
  then have "mm_division_pages ?g 1 MA_TYPE_KRNL DMF_RELDIV \<noteq> Inr ((None, 0), ?g)"
    using krnl_page_some [OF snd a] by blast
  with hal_mmu_init_ok [of s0 B a] snd a kr f obtain st where st: "hal_mmu_init s0 = Inr (True, st)" "mmu_ok st B {}"
    "statics (ms_grob st) = statics ?g"
    "\<forall>b. b \<notin> pg_vadr ?g ` page_vacant ?g \<longrightarrow> ms_mem st b = ms_mem demo_space b"
    by auto
  have d: "demo_second = st"
    using st(1) by (simp add: demo_second_def the_state_def s0_def [symmetric])
  have kb: "kblk (ms_grob st) = kblk ?g"
    using kblk_statics [OF st(3)] .
  have B: "B = space_blocks st ?m"
    by (simp add: B_def space_blocks_def kb)
  show "mmu_ok demo_second ({} \<union> space_blocks demo_second ?m) {}"
    using st(2) unfolding d B by simp
  have other: "mmu_ok (with_space s0 ?m) {} {}"
    using demo_init(2) by (simp add: orig)
  have "B \<union> kblk (ms_grob st) ` tpages (ms_mmu st) = space_blocks st (ms_mmu st) \<union> kblk (ms_grob s0) ` tpages ?m"
    by (simp add: B_def space_blocks_def kb f Un_commute)
  then have s2: "sound (ms_grob st) (space_blocks st (ms_mmu st) \<union> kblk (ms_grob s0) ` tpages ?m)"
    using mmu_okD(2) [OF st(2)] by simp
  have "space_blocks st (ms_mmu st) \<inter> kblk (ms_grob s0) ` tpages ?m = {}"
    using mmu_okD(3) [OF st(2)] by (auto simp: B space_blocks_def kb f)
  moreover have "ms_mem st (pg_vadr (ms_grob s0) i) = ms_mem s0 (pg_vadr (ms_grob s0) i)" if i: "i \<in> tpages ?m" for i
    using st(4) pages_away [OF other i, of "page_vacant ?g"] tpages_disj [OF demo_init(2)]
      vacant_range [OF snd] by (auto simp: f)
  ultimately have "mmu_ok (with_space st ?m) (space_blocks st (ms_mmu st)) {} \<and>
      (\<forall>v. user_adr v \<longrightarrow> user_view (with_space st ?m) v = user_view (with_space s0 ?m) v)"
    using st(3) s2 by (intro space_kept [OF other]) (simp_all add: f)
  then show "mmu_ok (with_space demo_second ?m) ({} \<union> space_blocks demo_second (ms_mmu demo_second)) {}"
    "user_adr v \<Longrightarrow> user_view (with_space demo_second ?m) v = None"
    using demo_init(3) by (simp_all add: d orig)
qed

theorem address_spaces_apart_witness:
  "\<exists>ret st'. hal_mmu_untransform demo_second 0x5000 = Inr (ret, st') \<and>
     mmu_ok (with_space st' (ms_mmu demo_space)) ({} \<union> space_blocks st' (ms_mmu st')) {} \<and>
     user_view (with_space st' (ms_mmu demo_space)) 0x5008 = None"
proof -
  obtain ret st' where r: "hal_mmu_untransform demo_second 0x5000 = Inr (ret, st')"
    using hal_mmu_untransform_ok [OF demo_two(1) demo_user(1)] by blast
  from address_spaces_apart [OF demo_two(1,2) demo_user(1,3,4) disjI2 [OF r]] show ?thesis
    using r demo_user(2) demo_two(3) by auto
qed

end
