(* ===== verification/Vma.thy ===== *)
theory Vma
  imports MmuOps
begin

text \<open>
  The regions of user memory (\<open>kernel/krlvadrsmem.c\<close>), the memory services (\<open>krlsvemm.c\<close>) and the page fault branch of
  \<open>hal/x86/halintupt.c\<close>: the descriptors, the boxes that hold the pages of regions, and every operation on them. A list of
  descriptors is the list of their addresses and contents, since the code compares and keeps the addresses; boxes live in a map
  from addresses. What \<open>kmsob_new\<close> and \<open>kmsob_delete\<close> answer and the program file of a thread are arguments.
\<close>

section \<open>Data\<close>

definition EOK :: int where "EOK = 0"
definition ENOMEM :: int where "ENOMEM = 12"
definition EACCES :: int where "EACCES = 13"
definition EFAULT :: int where "EFAULT = 14"
definition ENOOBJ :: int where "ENOOBJ = 36"
definition EPARAM :: int where "EPARAM = 39"

definition USER_VIRTUAL_ADDRESS_START :: u64 where "USER_VIRTUAL_ADDRESS_START = 0"
definition USER_END :: u64 where "USER_END = 0x7fffffffffff"
definition KRNL_VIRTUAL_ADDRESS_START :: u64 where "KRNL_VIRTUAL_ADDRESS_START = 0xffff800000000000"
definition KRNL_VIRTUAL_ADDRESS_END :: u64 where "KRNL_VIRTUAL_ADDRESS_END = 0xffffffffffffffff"
definition THREAD_HEAPADR_START :: u64 where "THREAD_HEAPADR_START = 0x100000000"
definition KMV_HEAP_TYPE :: u32 where "KMV_HEAP_TYPE = 8"
definition KMV_STACK_TYPE :: u32 where "KMV_STACK_TYPE = 16"
definition KMV_BIN_TYPE :: u32 where "KMV_BIN_TYPE = 64"
definition VMAP_MIN_SIZE :: u64 where "VMAP_MIN_SIZE = 0x1000"
definition KMBOX_CACHE_MAX :: u64 where "KMBOX_CACHE_MAX = 0x1000"
definition KMBOX_CACHE_MIN :: u64 where "KMBOX_CACHE_MIN = 0x40"

definition VADSZ_ALIGN :: "u64 \<Rightarrow> u64" where
  "VADSZ_ALIGN x = and (x + 0x1000 - 1) (not (0x1000 - 1))"

text \<open>A region of user addresses.\<close>

record kmvarsdsc =
  kva_maptype :: u32
  kva_limits :: u64
  kva_start :: u64
  kva_end :: u64
  kva_kvmbox :: u64

text \<open>The pages behind one or more regions.\<close>

record kvmemcbox =
  kmb_cont :: u32
  kmb_msanr :: u64
  kmb_msalist :: "nat list"

record kvmemcboxmgr =
  kbm_kmbnr :: u64
  kbm_kmbhead :: "u64 list"
  kbm_cachenr :: u64
  kbm_cachemax :: u64
  kbm_cachemin :: u64
  kbm_cachehead :: "u64 list"

record virmemadrs =
  vs_list :: "(u64 \<times> kmvarsdsc) list"
  vs_kmvdscnr :: u64
  vs_startkmvdsc :: u64
  vs_endkmvdsc :: u64
  vs_currkmvdsc :: u64
  vs_heapkmvdsc :: u64
  vs_stackkmvdsc :: u64
  vs_isalcstart :: u64
  vs_isalcend :: u64

record kvirmemadrs =
  kvs_kmvdscnr :: u64
  kvs_startkmvdsc :: u64
  kvs_endkmvdsc :: u64
  kvs_krlmapdsc :: u64
  kvs_krlmap :: "kmvarsdsc option"
  kvs_isalcstart :: u64
  kvs_isalcend :: u64
  kvs_kvmemcboxmgr :: kvmemcboxmgr

record vmst =
  vm_mmu :: mmust
  vm_vs :: virmemadrs
  vm_kvs :: kvirmemadrs
  vm_box :: "u64 \<rightharpoonup> kvmemcbox"

abbreviation regions :: "vmst \<Rightarrow> (u64 \<times> kmvarsdsc) list" where
  "regions st \<equiv> vs_list (vm_vs st)"

abbreviation boxmgr :: "vmst \<Rightarrow> kvmemcboxmgr" where
  "boxmgr st \<equiv> kvs_kvmemcboxmgr (vm_kvs st)"

definition upd_vs :: "(virmemadrs \<Rightarrow> virmemadrs) \<Rightarrow> vmst \<Rightarrow> vmst" where
  "upd_vs f st = st\<lparr>vm_vs := f (vm_vs st)\<rparr>"

definition upd_mgr :: "(kvmemcboxmgr \<Rightarrow> kvmemcboxmgr) \<Rightarrow> vmst \<Rightarrow> vmst" where
  "upd_mgr f st = st\<lparr>vm_kvs := (vm_kvs st)\<lparr>kvs_kvmemcboxmgr := f (boxmgr st)\<rparr>\<rparr>"

text \<open>The accesses through pointers to descriptors and boxes.\<close>

definition getk :: "vmst \<Rightarrow> u64 \<Rightarrow> kmvarsdsc run" where
  "getk st p = (case map_of (regions st) p of None \<Rightarrow> Inl Fault | Some k \<Rightarrow> Inr k)"

definition setk :: "u64 \<Rightarrow> (kmvarsdsc \<Rightarrow> kmvarsdsc) \<Rightarrow> vmst \<Rightarrow> vmst" where
  "setk p f = upd_vs (\<lambda>v. v\<lparr>vs_list := map (\<lambda>(q, k). (q, if q = p then f k else k)) (vs_list v)\<rparr>)"

definition getbox :: "vmst \<Rightarrow> u64 \<Rightarrow> kvmemcbox run" where
  "getbox st b = (case vm_box st b of None \<Rightarrow> Inl Fault | Some x \<Rightarrow> Inr x)"

definition setbox :: "u64 \<Rightarrow> kvmemcbox \<Rightarrow> vmst \<Rightarrow> vmst" where
  "setbox b x st = st\<lparr>vm_box := (vm_box st)(b \<mapsto> x)\<rparr>"

text \<open>The neighbours of a descriptor in the list, \<open>None\<close> where the list ends.\<close>

fun next_kmvd :: "u64 \<Rightarrow> (u64 \<times> kmvarsdsc) list \<Rightarrow> (u64 \<times> kmvarsdsc) option run" where
  "next_kmvd p [] = Inl Fault"
| "next_kmvd p ((q, k) # l) =
     (if q = p then Inr (case l of [] \<Rightarrow> None | x # l' \<Rightarrow> Some x) else next_kmvd p l)"

definition prev_kmvd :: "u64 \<Rightarrow> (u64 \<times> kmvarsdsc) list \<Rightarrow> (u64 \<times> kmvarsdsc) option run" where
  "prev_kmvd p l = next_kmvd p (rev l)"

fun add_after :: "u64 \<Rightarrow> u64 \<times> kmvarsdsc \<Rightarrow> (u64 \<times> kmvarsdsc) list \<Rightarrow> (u64 \<times> kmvarsdsc) list" where
  "add_after p x [] = []"
| "add_after p x ((q, k) # l) = (if q = p then (q, k) # x # l else (q, k) # add_after p x l)"

section \<open>Initialisers\<close>

definition virmemadrs_t_init :: virmemadrs where
  "virmemadrs_t_init = \<lparr>vs_list = [], vs_kmvdscnr = 0, vs_startkmvdsc = 0, vs_endkmvdsc = 0, vs_currkmvdsc = 0,
     vs_heapkmvdsc = 0, vs_stackkmvdsc = 0, vs_isalcstart = 0, vs_isalcend = 0\<rparr>"

definition kmvarsdsc_t_init :: kmvarsdsc where
  "kmvarsdsc_t_init = \<lparr>kva_maptype = 0, kva_limits = 0, kva_start = 0, kva_end = 0, kva_kvmbox = 0\<rparr>"

definition kvmemcbox_t_init :: kvmemcbox where
  "kvmemcbox_t_init = \<lparr>kmb_cont = 0, kmb_msanr = 0, kmb_msalist = []\<rparr>"

definition kvmemcboxmgr_t_init :: kvmemcboxmgr where
  "kvmemcboxmgr_t_init = \<lparr>kbm_kmbnr = 0, kbm_kmbhead = [], kbm_cachenr = 0, kbm_cachemax = KMBOX_CACHE_MAX,
     kbm_cachemin = KMBOX_CACHE_MIN, kbm_cachehead = []\<rparr>"

definition kvirmemadrs_t_init :: kvirmemadrs where
  "kvirmemadrs_t_init = \<lparr>kvs_kmvdscnr = 0, kvs_startkmvdsc = 0, kvs_endkmvdsc = 0, kvs_krlmapdsc = 0, kvs_krlmap = None,
     kvs_isalcstart = 0, kvs_isalcend = 0, kvs_kvmemcboxmgr = kvmemcboxmgr_t_init\<rparr>"

definition kvma_seting_kvirmemadrs :: "u64 \<Rightarrow> vmst \<Rightarrow> vmst run" where
  "kvma_seting_kvirmemadrs obj st =
     (if obj = 0 then Inl (Panic ''kvma_seting_kvirmemadrs nomem err'')
      else let kmvdc = kmvarsdsc_t_init\<lparr>kva_start := KRNL_VIRTUAL_ADDRESS_START,
                 kva_end := KRNL_VIRTUAL_ADDRESS_START + KRNL_MAP_VIRTADDRESS_SIZE\<rparr>;
               kvma = vm_kvs st
           in Inr (st\<lparr>vm_kvs := kvma\<lparr>kvs_isalcstart := KRNL_VIRTUAL_ADDRESS_START + KRNL_MAP_VIRTADDRESS_SIZE,
                kvs_isalcend := KRNL_VIRTUAL_ADDRESS_END, kvs_startkmvdsc := obj, kvs_endkmvdsc := obj,
                kvs_krlmapdsc := obj, kvs_krlmap := Some kmvdc, kvs_kmvdscnr := kvs_kmvdscnr kvma + 1\<rparr>\<rparr>))"

text \<open>The three regions of a new address space; \<open>o1\<close>, \<open>o2\<close>, \<open>o3\<close> are what \<open>kmsob_new\<close> returns.\<close>

definition kvma_inituserspace_virmemadrs :: "u64 \<Rightarrow> u64 \<Rightarrow> u64 \<Rightarrow> vmst \<Rightarrow> bool \<times> vmst" where
  "kvma_inituserspace_virmemadrs o1 o2 o3 st =
     (if o1 = 0 \<or> o2 = 0 \<or> o3 = 0 then (False, st)
      else let kmvdc = kmvarsdsc_t_init\<lparr>kva_start := USER_VIRTUAL_ADDRESS_START + 0x1000,
                 kva_end := USER_VIRTUAL_ADDRESS_START + 0x1000 + 0x4000\<rparr>;
               heapkmvdc = kmvarsdsc_t_init\<lparr>kva_start := THREAD_HEAPADR_START,
                 kva_end := THREAD_HEAPADR_START + 0x1000, kva_maptype := KMV_HEAP_TYPE\<rparr>;
               stackkmvdc = kmvarsdsc_t_init\<lparr>kva_start := VADSZ_ALIGN (USER_END - 0x40000000),
                 kva_end := USER_END, kva_maptype := KMV_STACK_TYPE\<rparr>
           in (True, upd_vs (\<lambda>v. v\<lparr>vs_isalcstart := USER_VIRTUAL_ADDRESS_START, vs_isalcend := USER_END,
                vs_startkmvdsc := o1, vs_endkmvdsc := o3, vs_heapkmvdsc := o2, vs_stackkmvdsc := o3,
                vs_list := vs_list v @ [(o1, kmvdc), (o2, heapkmvdc), (o3, stackkmvdc)],
                vs_kmvdscnr := vs_kmvdscnr v + 3\<rparr>) st))"

section \<open>New regions\<close>

definition vma_find_kmvarsdsc_is_ok :: "vmst \<Rightarrow> u64 \<Rightarrow> u64 \<Rightarrow> u64 \<Rightarrow> u64 run" where
  "vma_find_kmvarsdsc_is_ok st cur start vassize =
     (let newend = start + vassize
      in andthen (getk st cur) (\<lambda>c. andthen (next_kmvd cur (regions st)) (\<lambda>next.
         case next of
           Some (p, nx) \<Rightarrow>
             if start = 0 then Inr (if kva_end c + vassize \<le> kva_start nx then cur else 0)
             else Inr (if kva_end c \<le> start \<and> newend \<le> kva_start nx then cur else 0)
         | None \<Rightarrow>
             if start = 0 then Inr (if kva_end c + vassize < vs_isalcend (vm_vs st) then cur else 0)
             else Inr (if kva_end c \<le> start \<and> newend < vs_isalcend (vm_vs st) then cur else 0))))"

text \<open>The two passes over the list: over the regions of the same kind, over all of them.\<close>

fun find_kmvd :: "vmst \<Rightarrow> (kmvarsdsc \<Rightarrow> bool) \<Rightarrow> u64 \<Rightarrow> u64 \<Rightarrow> (u64 \<times> kmvarsdsc) list \<Rightarrow> u64 run" where
  "find_kmvd st kind start vassize [] = Inr 0"
| "find_kmvd st kind start vassize ((cur, k) # l) =
     (if kind k
      then andthen (vma_find_kmvarsdsc_is_ok st cur start vassize) (\<lambda>kmvd.
        if kmvd \<noteq> 0 then Inr kmvd else find_kmvd st kind start vassize l)
      else find_kmvd st kind start vassize l)"

definition same_kind :: "u64 \<Rightarrow> u32 \<Rightarrow> kmvarsdsc \<Rightarrow> bool" where
  "same_kind vaslimits vastype k \<longleftrightarrow> vaslimits = kva_limits k \<and> vastype = kva_maptype k"

definition vma_find_kmvarsdsc :: "vmst \<Rightarrow> u64 \<Rightarrow> u64 \<Rightarrow> u64 \<Rightarrow> u32 \<Rightarrow> u64 run" where
  "vma_find_kmvarsdsc st start vassize vaslimits vastype =
     (let cur = vs_currkmvdsc (vm_vs st); newend = start + vassize;
          lists = andthen (find_kmvd st (same_kind vaslimits vastype) start vassize (regions st)) (\<lambda>kmvd.
            if kmvd \<noteq> 0 then Inr kmvd else find_kmvd st (\<lambda>k. True) start vassize (regions st))
      in if vassize < 0x1000 then Inr 0
         else if newend > vs_isalcend (vm_vs st) then Inr 0
         else if cur \<noteq> 0
         then andthen (vma_find_kmvarsdsc_is_ok st cur start vassize) (\<lambda>kmvd.
           if kmvd \<noteq> 0
           then andthen (getk st kmvd) (\<lambda>k. if same_kind vaslimits vastype k then Inr kmvd else lists)
           else lists)
         else lists)"

definition vma_new_vadrs_core :: "vmst \<Rightarrow> u64 \<Rightarrow> u64 \<Rightarrow> u64 \<Rightarrow> u32 \<Rightarrow> u64 \<Rightarrow> (u64 \<times> vmst) run" where
  "vma_new_vadrs_core st start vassize vaslimits vastype obj =
     andthen (vma_find_kmvarsdsc st start vassize vaslimits vastype) (\<lambda>currkmvd.
     if currkmvd = 0 then Inr (0, st)
     else andthen (getk st currkmvd) (\<lambda>c.
       if (start = 0 \<or> start = kva_end c) \<and> same_kind vaslimits vastype c
       then Inr (kva_end c, upd_vs (\<lambda>v. v\<lparr>vs_currkmvdsc := currkmvd\<rparr>)
              (setk currkmvd (\<lambda>k. k\<lparr>kva_end := kva_end k + vassize\<rparr>) st))
       else if obj = 0 then Inr (0, st)
       else let first = (if start = 0 then kva_end c else start);
                newkmvd = kmvarsdsc_t_init\<lparr>kva_start := first, kva_end := first + vassize,
                  kva_limits := vaslimits, kva_maptype := vastype\<rparr>;
                st = upd_vs (\<lambda>v. v\<lparr>vs_currkmvdsc := obj,
                  vs_list := add_after currkmvd (obj, newkmvd) (vs_list v)\<rparr>) st
            in andthen (next_kmvd obj (regions st)) (\<lambda>next.
               Inr (first, if next = None then upd_vs (\<lambda>v. v\<lparr>vs_endkmvdsc := obj\<rparr>) st else st))))"

definition vma_new_vadrs :: "vmst \<Rightarrow> u64 \<Rightarrow> u64 \<Rightarrow> u64 \<Rightarrow> u32 \<Rightarrow> u64 \<Rightarrow> (u64 \<times> vmst) run" where
  "vma_new_vadrs st start vassize vaslimits vastype obj =
     (if vassize < 1 then Inr (0, st)
      else if start \<noteq> 0 \<and> (and start 0xfff \<noteq> 0 \<or> 0x1000 > start \<or> USER_END < start + vassize)
      then Inr (0, st)
      else vma_new_vadrs_core st start (VADSZ_ALIGN vassize) vaslimits vastype obj)"

definition kvma_initdefault_virmemadrs :: "vmst \<Rightarrow> u64 \<Rightarrow> u64 \<Rightarrow> u32 \<Rightarrow> u64 \<Rightarrow> (u64 \<times> vmst) run" where
  "kvma_initdefault_virmemadrs st start size_t type obj =
     (if 0x1000 \<ge> start \<or> 0 \<ge> size_t then Inr (0, st) else vma_new_vadrs st start size_t 0 type obj)"

section \<open>The boxes of pages\<close>

definition new_kvmemcbox :: "u64 \<Rightarrow> vmst \<Rightarrow> u64 \<times> vmst" where
  "new_kvmemcbox obj st = (if obj = 0 then (0, st) else (obj, setbox obj kvmemcbox_t_init st))"

definition refcount_inc :: "kvmemcbox \<Rightarrow> kvmemcbox" where
  "refcount_inc x = x\<lparr>kmb_cont := kmb_cont x + 1\<rparr>"

definition refcount_dec :: "kvmemcbox \<Rightarrow> kvmemcbox" where
  "refcount_dec x = x\<lparr>kmb_cont := kmb_cont x - 1\<rparr>"

definition knl_count_kvmemcbox :: "u64 \<Rightarrow> vmst \<Rightarrow> vmst run" where
  "knl_count_kvmemcbox b st =
     (if b = 0 then Inr st else andthen (getbox st b) (\<lambda>x. Inr (setbox b (refcount_inc x) st)))"

definition knl_decount_kvmemcbox :: "u64 \<Rightarrow> vmst \<Rightarrow> vmst run" where
  "knl_decount_kvmemcbox b st =
     (if b = 0 then Inr st else andthen (getbox st b) (\<lambda>x. Inr (setbox b (refcount_dec x) st)))"

definition knl_get_kvmemcbox :: "u64 \<Rightarrow> vmst \<Rightarrow> (u64 \<times> vmst) run" where
  "knl_get_kvmemcbox obj st =
     (let enter = (\<lambda>kmb st. andthen (getbox st kmb) (\<lambda>x.
            Inr (kmb, setbox kmb (refcount_inc x) (upd_mgr (\<lambda>g. g\<lparr>kbm_kmbhead := kmb # kbm_kmbhead g,
              kbm_kmbnr := kbm_kmbnr g + 1\<rparr>) st))))
      in if 0 < kbm_cachenr (boxmgr st) \<and> kbm_cachehead (boxmgr st) \<noteq> []
         then let kmb = hd (kbm_cachehead (boxmgr st));
                  st = upd_mgr (\<lambda>g. g\<lparr>kbm_cachehead := tl (kbm_cachehead g), kbm_cachenr := kbm_cachenr g - 1\<rparr>) st
              in enter kmb (setbox kmb kvmemcbox_t_init st)
         else let (kmb, st) = new_kvmemcbox obj st
              in if kmb = 0 then Inl (Panic ''mem: knl_get_kvmemcbox() null'') else enter kmb st)"

text \<open>\<open>freed\<close> is the answer of \<open>kmsob_delete\<close>, should it be called.\<close>

definition knl_put_kvmemcbox :: "u64 \<Rightarrow> bool \<Rightarrow> vmst \<Rightarrow> (bool \<times> vmst) run" where
  "knl_put_kvmemcbox b freed st =
     (if b = 0 then Inr (False, st)
      else andthen (getbox st b) (\<lambda>x.
        let x = refcount_dec x; st = setbox b x st; g = boxmgr st
        in if 1 \<le> sint (kmb_cont x) then Inr (True, st)
           else if b \<notin> set (kbm_kmbhead g) then Inl Fault
           else if kbm_cachemax g \<le> kbm_cachenr g
           then let st = upd_mgr (\<lambda>g. g\<lparr>kbm_kmbhead := remove1 b (kbm_kmbhead g)\<rparr>) st
                in if \<not> freed then Inr (False, st)
                   else Inr (True, upd_mgr (\<lambda>g. g\<lparr>kbm_kmbnr := kbm_kmbnr g - 1\<rparr>) (st\<lparr>vm_box := (vm_box st)(b := None)\<rparr>))
           else Inr (True, upd_mgr (\<lambda>g. g\<lparr>kbm_kmbhead := remove1 b (kbm_kmbhead g), kbm_cachehead := b # kbm_cachehead g,
                  kbm_cachenr := kbm_cachenr g + 1, kbm_kmbnr := kbm_kmbnr g - 1\<rparr>) st)))"

section \<open>User pages\<close>

definition upd_mmu :: "(mmust \<Rightarrow> mmust) \<Rightarrow> vmst \<Rightarrow> vmst" where
  "upd_mmu f st = st\<lparr>vm_mmu := f (vm_mmu st)\<rparr>"

abbreviation grob :: "vmst \<Rightarrow> memmgrob" where
  "grob st \<equiv> ms_grob (vm_mmu st)"

definition vma_new_usermsa :: "u64 \<Rightarrow> vmst \<Rightarrow> (nat option \<times> vmst) run" where
  "vma_new_usermsa kmbox st =
     (if kmbox = 0 then Inr (None, st)
      else andthen (mm_divpages_procmarea (grob st) 1) (\<lambda>((ma, retpnr), g).
        let st = upd_mmu (\<lambda>m. m\<lparr>ms_grob := g\<rparr>) st
        in case ma of None \<Rightarrow> Inr (None, st)
           | Some i \<Rightarrow> andthen (getbox st kmbox) (\<lambda>x.
               Inr (Some i, setbox kmbox (x\<lparr>kmb_msalist := i # kmb_msalist x, kmb_msanr := kmb_msanr x + 1\<rparr>) st))))"

definition vma_del_usermsa :: "u64 \<Rightarrow> nat option \<Rightarrow> u64 \<Rightarrow> vmst \<Rightarrow> (bool \<times> vmst) run" where
  "vma_del_usermsa kmbox ma phyadr st =
     (if kmbox = 0 \<or> phyadr = 0 then Inr (False, st)
      else andthen (getbox st kmbox) (\<lambda>x.
        andthen (msadsc_ret_addr (grob st) ma) (\<lambda>maadr.
        andthen (if ma \<noteq> None \<and> maadr = phyadr then Inr ma else find_tbl (grob st) phyadr (kmb_msalist x)) (\<lambda>delmsa.
        case delmsa of None \<Rightarrow> Inr (False, st)
        | Some i \<Rightarrow>
            if i \<notin> set (kmb_msalist x) then Inl Fault
            else let st = setbox kmbox (x\<lparr>kmb_msalist := remove1 i (kmb_msalist x), kmb_msanr := kmb_msanr x - 1\<rparr>) st
                 in andthen (onfrmsa_retn_fpagenr (grob st) (Some i)) (\<lambda>n.
                    andthen (mm_merge_pages (grob st) (Some i) n) (\<lambda>(ok, g).
                    if \<not> ok then Inl (Panic ''vma_del_usermsa err'')
                    else Inr (True, upd_mmu (\<lambda>m. m\<lparr>ms_grob := g\<rparr>) st)))))))"

definition vma_map_msa_fault :: "u64 \<Rightarrow> u64 \<Rightarrow> u64 \<Rightarrow> vmst \<Rightarrow> (u64 \<times> vmst) run" where
  "vma_map_msa_fault kmbox vadrs flags st =
     (if kmbox = 0 \<or> vadrs = 0 then Inr (0, st)
      else andthen (vma_new_usermsa kmbox st) (\<lambda>(usermsa, st).
        if usermsa = None then Inr (0, st)
        else andthen (msadsc_ret_addr (grob st) usermsa) (\<lambda>phyadrs.
          andthen (hal_mmu_transform (vm_mmu st) vadrs phyadrs flags) (\<lambda>(ok, m).
          let st = upd_mmu (\<lambda>_. m) st
          in if ok then Inr (phyadrs, st)
             else andthen (vma_del_usermsa kmbox usermsa phyadrs st) (\<lambda>(ok, st). Inr (0, st))))))"

section \<open>Regions given up\<close>

definition covers :: "u64 \<Rightarrow> u64 \<Rightarrow> kmvarsdsc \<Rightarrow> bool" where
  "covers start newend k \<longleftrightarrow> kva_start k \<le> start \<and> newend \<le> kva_end k"

fun first_kmvd :: "(kmvarsdsc \<Rightarrow> bool) \<Rightarrow> (u64 \<times> kmvarsdsc) list \<Rightarrow> u64" where
  "first_kmvd P [] = 0"
| "first_kmvd P ((p, k) # l) = (if P k then p else first_kmvd P l)"

definition vma_del_find_kmvarsdsc :: "vmst \<Rightarrow> u64 \<Rightarrow> u64 \<Rightarrow> u64 run" where
  "vma_del_find_kmvarsdsc st start vassize =
     (let cur = vs_currkmvdsc (vm_vs st); newend = start + vassize
      in if vassize < 0x1000 then Inr 0
         else if cur \<noteq> 0
         then andthen (getk st cur) (\<lambda>c.
           Inr (if covers start newend c then cur else first_kmvd (covers start newend) (regions st)))
         else Inr (first_kmvd (covers start newend) (regions st)))"

definition vma_del_set_endcurrkmvd :: "vmst \<Rightarrow> u64 \<Rightarrow> vmst run" where
  "vma_del_set_endcurrkmvd st del =
     andthen (next_kmvd del (regions st)) (\<lambda>next.
     case next of
       None \<Rightarrow> andthen (prev_kmvd del (regions st)) (\<lambda>prev.
         let p = (case prev of None \<Rightarrow> 0 | Some (q, k) \<Rightarrow> q)
         in Inr (upd_vs (\<lambda>v. v\<lparr>vs_endkmvdsc := p, vs_currkmvdsc := p\<rparr>) st))
     | Some (q, k) \<Rightarrow> Inr (upd_vs (\<lambda>v. v\<lparr>vs_currkmvdsc := q\<rparr>) st))"

text \<open>
  The loop over the pages of \<open>[vadrs, end)\<close>. The last argument bounds the number of rounds; it runs out only where
  \<open>vadrs\<close> wraps around below \<open>end\<close>, and then the loop of the code does not end.
\<close>

fun unmap_loop :: "nat \<Rightarrow> u64 \<Rightarrow> u64 \<Rightarrow> u64 \<Rightarrow> bool \<Rightarrow> vmst \<Rightarrow> (bool \<times> vmst) run" where
  "unmap_loop 0 kmbox vadrs end_adr rets st = (if vadrs < end_adr then Inl Fault else Inr (rets, st))"
| "unmap_loop (Suc n) kmbox vadrs end_adr rets st =
     (if vadrs < end_adr
      then andthen (hal_mmu_untransform (vm_mmu st) vadrs) (\<lambda>(phyadrs, m).
        let st = upd_mmu (\<lambda>_. m) st
        in if phyadrs \<noteq> 0 \<and> kmbox \<noteq> 0
           then andthen (vma_del_usermsa kmbox None phyadrs st) (\<lambda>(ok, st).
             unmap_loop n kmbox (vadrs + VMAP_MIN_SIZE) end_adr (if ok then rets else False) st)
           else unmap_loop n kmbox (vadrs + VMAP_MIN_SIZE) end_adr rets st)
      else Inr (rets, st))"

definition vma_del_unmapping_phyadrs :: "vmst \<Rightarrow> u64 \<Rightarrow> u64 \<Rightarrow> u64 \<Rightarrow> (bool \<times> vmst) run" where
  "vma_del_unmapping_phyadrs st kmvd start end_adr =
     andthen (getk st kmvd) (\<lambda>k.
     unmap_loop (unat (end_adr - start) div 0x1000 + 1) (kva_kvmbox k) start end_adr True st)"

definition vma_del_unmapping :: "vmst \<Rightarrow> u64 \<Rightarrow> u64 \<Rightarrow> u64 \<Rightarrow> (bool \<times> vmst) run" where
  "vma_del_unmapping st kmvd start vassize =
     (if kmvd = 0 then Inr (False, st) else vma_del_unmapping_phyadrs st kmvd start (start + vassize))"

definition vma_del_vadrs_core :: "vmst \<Rightarrow> u64 \<Rightarrow> u64 \<Rightarrow> u64 \<Rightarrow> bool \<Rightarrow> (bool \<times> vmst) run" where
  "vma_del_vadrs_core st start vassize obj freed =
     andthen (vma_del_find_kmvarsdsc st start vassize) (\<lambda>delkmvd.
     if delkmvd = 0 then Inr (False, st)
     else andthen (getk st delkmvd) (\<lambda>k.
       let newend = start + vassize
       in if kva_start k = start \<and> kva_end k = newend
          then andthen (vma_del_unmapping st delkmvd start vassize) (\<lambda>(ok, st).
               andthen (vma_del_set_endcurrkmvd st delkmvd) (\<lambda>st.
               andthen (getk st delkmvd) (\<lambda>k.
               andthen (knl_put_kvmemcbox (kva_kvmbox k) freed st) (\<lambda>(ok, st).
               Inr (True, upd_vs (\<lambda>v. v\<lparr>vs_list := filter (\<lambda>(q, k). q \<noteq> delkmvd) (vs_list v),
                 vs_kmvdscnr := vs_kmvdscnr v - 1\<rparr>) st)))))
          else if kva_start k = start \<and> kva_end k > newend
          then andthen (vma_del_unmapping (setk delkmvd (\<lambda>k. k\<lparr>kva_start := newend\<rparr>) st) delkmvd start vassize)
                 (\<lambda>(ok, st). Inr (True, st))
          else if kva_start k < start \<and> kva_end k = newend
          then andthen (vma_del_unmapping (setk delkmvd (\<lambda>k. k\<lparr>kva_end := start\<rparr>) st) delkmvd start vassize)
                 (\<lambda>(ok, st). Inr (True, st))
          else if kva_start k < start \<and> kva_end k > newend
          then (if obj = 0 then Inr (False, st)
            else let newkmvd = kmvarsdsc_t_init\<lparr>kva_end := kva_end k, kva_start := newend, kva_limits := kva_limits k,
                       kva_maptype := kva_maptype k, kva_kvmbox := kva_kvmbox k\<rparr>;
                     st = setk delkmvd (\<lambda>k. k\<lparr>kva_end := start\<rparr>) st
                 in andthen (knl_count_kvmemcbox (kva_kvmbox k) st) (\<lambda>st.
                    andthen (vma_del_unmapping st delkmvd start vassize) (\<lambda>(ok, st).
                    let st = upd_vs (\<lambda>v. v\<lparr>vs_list := add_after delkmvd (obj, newkmvd) (vs_list v),
                          vs_kmvdscnr := vs_kmvdscnr v + 1\<rparr>) st
                    in andthen (next_kmvd obj (regions st)) (\<lambda>next.
                       Inr (True, upd_vs (\<lambda>v. if next = None then v\<lparr>vs_endkmvdsc := obj, vs_currkmvdsc := obj\<rparr>
                         else v\<lparr>vs_currkmvdsc := obj\<rparr>) st)))))
          else Inr (False, st)))"

definition vma_del_vadrs :: "vmst \<Rightarrow> u64 \<Rightarrow> u64 \<Rightarrow> u64 \<Rightarrow> bool \<Rightarrow> (bool \<times> vmst) run" where
  "vma_del_vadrs st start vassize obj freed =
     (if vassize < 1 \<or> start = 0 then Inr (False, st)
      else vma_del_vadrs_core st start (VADSZ_ALIGN vassize) obj freed)"

section \<open>Page faults\<close>

definition holds_adr :: "u64 \<Rightarrow> kmvarsdsc \<Rightarrow> bool" where
  "holds_adr vadrs k \<longleftrightarrow> kva_start k \<le> vadrs \<and> vadrs < kva_end k"

definition vma_map_find_kmvarsdsc :: "vmst \<Rightarrow> u64 \<Rightarrow> u64 run" where
  "vma_map_find_kmvarsdsc st vadrs =
     (let cur = vs_currkmvdsc (vm_vs st)
      in if cur \<noteq> 0
         then andthen (getk st cur) (\<lambda>c. Inr (if holds_adr vadrs c then cur else first_kmvd (holds_adr vadrs) (regions st)))
         else Inr (first_kmvd (holds_adr vadrs) (regions st)))"

definition vma_map_retn_kvmemcbox :: "u64 \<Rightarrow> u64 \<Rightarrow> vmst \<Rightarrow> (u64 \<times> vmst) run" where
  "vma_map_retn_kvmemcbox kmvd obj st =
     (if kmvd = 0 then Inr (0, st)
      else andthen (getk st kmvd) (\<lambda>k.
        if kva_kvmbox k \<noteq> 0 then Inr (kva_kvmbox k, st)
        else andthen (knl_get_kvmemcbox obj st) (\<lambda>(kmbox, st).
          if kmbox = 0 then Inr (0, st) else Inr (kmbox, setk kmvd (\<lambda>k. k\<lparr>kva_kvmbox := kmbox\<rparr>) st))))"

definition vma_map_phyadrs :: "u64 \<Rightarrow> u64 \<Rightarrow> u64 \<Rightarrow> vmst \<Rightarrow> (u64 \<times> vmst) run" where
  "vma_map_phyadrs kmvd vadrs flags st =
     andthen (getk st kmvd) (\<lambda>k.
     if kva_kvmbox k = 0 then Inr (0, st) else vma_map_msa_fault (kva_kvmbox k) vadrs flags st)"

text \<open>
  The program file of the thread of an address space: what \<open>get_file_rvadrandsz\<close> says of it (address and size, 0 when it
  is not there) and the words behind an address of it.
\<close>

record appfile =
  app_rvadr :: u64
  app_size :: u64
  app_words :: "u64 \<Rightarrow> nat \<Rightarrow> u64"

definition vma_full_textbin :: "u64 \<Rightarrow> u64 \<Rightarrow> appfile option \<Rightarrow> vmst \<Rightarrow> vmst run" where
  "vma_full_textbin kmvd vadr app st =
     andthen (getk st kmvd) (\<lambda>k.
     let vnr = drop_bit 12 (vadr - kva_start k)
     in if kva_maptype k \<noteq> KMV_BIN_TYPE then Inr st
        else case app of None \<Rightarrow> Inl (Panic ''vma_full_textbin td is null'')
        | Some f \<Rightarrow>
            if app_rvadr f = 0 \<or> app_size f = 0 then Inl (Panic ''vma_full_textbin file is null'')
            else case x86_translate (ms_mem (vm_mmu st)) (ms_cr3 (vm_mmu st)) (and vadr (not 0xfff)) of None \<Rightarrow> Inl Fault
              | Some p \<Rightarrow> Inr (upd_mmu (\<lambda>m. set_page m (p + KRNL_MAP_VIRTADDRESS_START)
                  (app_words f (app_rvadr f + push_bit 12 vnr))) st))"

definition vma_map_fairvadrs_core :: "vmst \<Rightarrow> u64 \<Rightarrow> u64 \<Rightarrow> appfile option \<Rightarrow> (int \<times> vmst) run" where
  "vma_map_fairvadrs_core st vadrs obj app =
     andthen (vma_map_find_kmvarsdsc st vadrs) (\<lambda>kmvd.
     if kmvd = 0 then Inr (- EFAULT, st)
     else andthen (vma_map_retn_kvmemcbox kmvd obj st) (\<lambda>(kmbox, st).
       if kmbox = 0 then Inr (- ENOOBJ, st)
       else andthen (vma_map_phyadrs kmvd vadrs 7 st) (\<lambda>(phyadrs, st).
         if phyadrs = 0 then Inr (- ENOMEM, st)
         else andthen (vma_full_textbin kmvd vadrs app st) (\<lambda>st. Inr (EOK, st)))))"

definition vma_map_fairvadrs :: "vmst \<Rightarrow> u64 \<Rightarrow> u64 \<Rightarrow> appfile option \<Rightarrow> (int \<times> vmst) run" where
  "vma_map_fairvadrs st vadrs obj app =
     (if 0x1000 > vadrs \<or> USER_END < vadrs then Inr (- EPARAM, st) else vma_map_fairvadrs_core st vadrs obj app)"

definition krluserspace_accessfailed :: "vmst \<Rightarrow> u64 \<Rightarrow> u64 \<Rightarrow> appfile option \<Rightarrow> (int \<times> vmst) run" where
  "krluserspace_accessfailed st fairvadrs obj app =
     (if USER_END < fairvadrs then Inr (- EACCES, st)
      else andthen (vma_map_fairvadrs st fairvadrs obj app) (\<lambda>(ret, st).
        if ret = - EPARAM then Inl (Panic ''vma_map_fairvadrs EPARM'')
        else if ret = - ENOOBJ then Inl (Panic ''vma_map_fairvadrs ENOOBJ'')
        else if ret = - ENOMEM then Inl (Panic ''vma_map_fairvadrs ENOMEM'')
        else Inr (ret, st)))"

text \<open>The page fault handler; the message of the code is Chinese for the one here.\<close>

definition hal_fault_page :: "vmst \<Rightarrow> u64 \<Rightarrow> u64 \<Rightarrow> appfile option \<Rightarrow> vmst run" where
  "hal_fault_page st fairvadrs obj app =
     andthen (krluserspace_accessfailed st fairvadrs obj app) (\<lambda>(ret, st).
     if ret \<noteq> 0 then Inl (Panic ''page fault handling failed'') else Inr st)"

section \<open>The memory services\<close>

definition INR_MM_ALLOC :: u64 where "INR_MM_ALLOC = 1"
definition INR_MM_FREE :: u64 where "INR_MM_FREE = 2"
definition SYSSTUSERR :: u64 where "SYSSTUSERR = - 1"
definition SYSSTUSOK :: u64 where "SYSSTUSOK = 0"

definition krlsve_core_mallocblk :: "vmst \<Rightarrow> u64 \<Rightarrow> u64 \<Rightarrow> (u64 \<times> vmst) run" where
  "krlsve_core_mallocblk st blksz obj = vma_new_vadrs st 0 blksz 0 KMV_HEAP_TYPE obj"

definition krlsve_core_mfreeblk :: "vmst \<Rightarrow> u64 \<Rightarrow> u64 \<Rightarrow> u64 \<Rightarrow> bool \<Rightarrow> (u64 \<times> vmst) run" where
  "krlsve_core_mfreeblk st fradr blksz obj freed =
     andthen (vma_del_vadrs st fradr blksz obj freed) (\<lambda>(ok, st). Inr (if ok then SYSSTUSOK else SYSSTUSERR, st))"

definition krlsve_mallocblk :: "vmst \<Rightarrow> u64 \<Rightarrow> u64 \<Rightarrow> (u64 \<times> vmst) run" where
  "krlsve_mallocblk st blksz obj = krlsve_core_mallocblk st blksz obj"

definition krlsve_mfreeblk :: "vmst \<Rightarrow> u64 \<Rightarrow> u64 \<Rightarrow> u64 \<Rightarrow> bool \<Rightarrow> (u64 \<times> vmst) run" where
  "krlsve_mfreeblk st fradr blksz obj freed =
     (if fradr = 0 then Inr (SYSSTUSERR, st) else krlsve_core_mfreeblk st fradr blksz obj freed)"

definition krlsvetabl_mallocblk :: "vmst \<Rightarrow> u64 \<Rightarrow> u64 \<Rightarrow> u64 \<Rightarrow> (u64 \<times> vmst) run" where
  "krlsvetabl_mallocblk st inr parmv1 obj =
     (if inr \<noteq> INR_MM_ALLOC then Inr (SYSSTUSERR, st) else krlsve_mallocblk st parmv1 obj)"

definition krlsvetabl_mfreeblk :: "vmst \<Rightarrow> u64 \<Rightarrow> u64 \<Rightarrow> u64 \<Rightarrow> u64 \<Rightarrow> bool \<Rightarrow> (u64 \<times> vmst) run" where
  "krlsvetabl_mfreeblk st inr parmv1 parmv2 obj freed =
     (if inr \<noteq> INR_MM_FREE then Inr (SYSSTUSERR, st) else krlsve_mfreeblk st parmv1 parmv2 obj freed)"

section \<open>Whole address spaces\<close>

text \<open>A new address space becomes the one at work in the model; \<open>obj\<close> and \<open>o1\<close> to \<open>o3\<close> come from \<open>kmsob_new\<close>.\<close>

definition mmadrsdsc_t_init :: "vmst \<Rightarrow> vmst" where
  "mmadrsdsc_t_init st = st\<lparr>vm_vs := virmemadrs_t_init, vm_mmu := (vm_mmu st)\<lparr>ms_mmu := mmudsc_t_init\<rparr>\<rparr>"

definition new_mmadrsdsc :: "u64 \<Rightarrow> u64 \<Rightarrow> u64 \<Rightarrow> u64 \<Rightarrow> vmst \<Rightarrow> (u64 \<times> vmst) run" where
  "new_mmadrsdsc obj o1 o2 o3 st =
     (if obj = 0 then Inr (0, st)
      else let (ok, st) = kvma_inituserspace_virmemadrs o1 o2 o3 (mmadrsdsc_t_init st)
           in andthen (hal_mmu_init (vm_mmu st)) (\<lambda>(ok, m). Inr (obj, upd_mmu (\<lambda>_. m) st)))"

definition del_mmadrsdsc :: "vmst \<Rightarrow> bool \<Rightarrow> (bool \<times> vmst) run" where
  "del_mmadrsdsc st freed =
     andthen (hal_mmu_clean (vm_mmu st)) (\<lambda>(ok, m).
     let st = upd_mmu (\<lambda>_. m) st in if \<not> ok then Inr (False, st) else Inr (freed, st))"

definition init_kvirmemadrs :: "u64 \<Rightarrow> u64 \<Rightarrow> u64 \<Rightarrow> u64 \<Rightarrow> vmst \<Rightarrow> vmst run" where
  "init_kvirmemadrs o0 o1 o2 o3 st =
     andthen (kvma_seting_kvirmemadrs o0 ((mmadrsdsc_t_init st)\<lparr>vm_kvs := kvirmemadrs_t_init\<rparr>)) (\<lambda>st.
     let (ok, st) = kvma_inituserspace_virmemadrs o1 o2 o3 st
     in andthen (hal_mmu_init (vm_mmu st)) (\<lambda>(ok, m).
        andthen (hal_mmu_load m) (\<lambda>m. Inr (upd_mmu (\<lambda>_. m) st))))"

section \<open>The code's own check of the regions\<close>

fun vma_chk_one_kmva :: "u64 \<Rightarrow> kmvarsdsc \<Rightarrow> (u64 \<times> kmvarsdsc) list \<Rightarrow> unit run" where
  "vma_chk_one_kmva p chk [] = Inr ()"
| "vma_chk_one_kmva p chk ((q, head) # l) =
     (if q \<noteq> p \<and>
         ((kva_start chk > kva_start head \<and> kva_end chk < kva_end head) \<or>
          (kva_start chk < kva_start head \<and> kva_end chk > kva_end head) \<or>
          (kva_start chk > kva_start head \<and> kva_start chk < kva_end head) \<or>
          (kva_start chk < kva_start head \<and> kva_end chk > kva_start head))
      then Inl (Panic ''vma_chk_one_kmva err'') else vma_chk_one_kmva p chk l)"

fun check_kmva_loop :: "(u64 \<times> kmvarsdsc) list \<Rightarrow> (u64 \<times> kmvarsdsc) list \<Rightarrow> unit run" where
  "check_kmva_loop all_regions [] = Inr ()"
| "check_kmva_loop all_regions ((p, head) # l) =
     andthen (vma_chk_one_kmva p head all_regions) (\<lambda>_. check_kmva_loop all_regions l)"

definition vma_check_kmva :: "vmst \<Rightarrow> unit run" where
  "vma_check_kmva st = check_kmva_loop (regions st) (regions st)"

end
