(* ===== verification/VmaRegions.thy ===== *)
theory VmaRegions
  imports Vma
begin

text \<open>
  Addresses and sizes in pages, what it means for the regions of an address space to be in order (each inside the user
  half, sorted, apart), and that a request is answered with a range of addresses no region has.
\<close>

section \<open>Addresses and sizes\<close>

definition page_aligned :: "u64 \<Rightarrow> bool" where
  "page_aligned a \<longleftrightarrow> unat a mod 0x1000 = 0"

lemma unat_and_fff: "unat (and x (0xfff :: u64)) = unat x mod 0x1000"
proof -
  have "(0xfff :: u64) = mask 12"
    by (simp add: mask_eq_exp_minus_1)
  then have "unat (and x (0xfff :: u64)) = unat (take_bit 12 x)"
    by (simp add: take_bit_eq_mask)
  also have "\<dots> = take_bit 12 (unat x)"
    by (rule unsigned_take_bit_eq)
  finally show ?thesis
    by (simp add: take_bit_eq_mod)
qed

lemma unat_page_floor: "unat (and x (not (0xfff :: u64))) = unat x - unat x mod 0x1000"
proof -
  have "and x 0xfff \<le> x"
    by (simp add: word_le_nat_alt unat_and_fff)
  then show ?thesis
    unfolding and_not_minus by (simp add: unat_sub unat_and_fff)
qed

lemma aligned_and: "and a 0xfff = 0 \<longleftrightarrow> page_aligned a" for a :: u64
proof -
  have "and a 0xfff = 0 \<longleftrightarrow> unat (and a 0xfff) = 0"
    by (simp add: unsigned_eq_0_iff)
  then show ?thesis
    unfolding unat_and_fff page_aligned_def .
qed

definition round_up :: "nat \<Rightarrow> nat" where
  "round_up n = (n + 0xfff) div 0x1000 * 0x1000"

lemma round_up_bounds: "n \<le> round_up n" "round_up n \<le> n + 0xfff" "round_up n mod 0x1000 = 0" "0 < n \<Longrightarrow> 0x1000 \<le> round_up n"
proof -
  have d: "(n + 0xfff) div 0x1000 * 0x1000 + (n + 0xfff) mod 0x1000 = n + 0xfff" "(n + 0xfff) mod 0x1000 < 0x1000"
    by (rule div_mult_mod_eq) simp
  then show "n \<le> round_up n" "round_up n \<le> n + 0xfff"
    unfolding round_up_def by linarith+
  show "round_up n mod 0x1000 = 0"
    by (simp add: round_up_def)
  show "0x1000 \<le> round_up n" if "0 < n"
  proof -
    have "1 \<le> (n + 0xfff) div 0x1000"
      using that by (simp add: less_eq_div_iff_mult_less_eq)
    then show ?thesis
      by (simp add: round_up_def)
  qed
qed

lemma VADSZ_ALIGN_round:
  assumes "unat x + 0xfff < 2 ^ 64"
  shows "unat (VADSZ_ALIGN x) = round_up (unat x)"
proof -
  have s: "unat (x + 0xfff) = unat x + 0xfff"
    using assms by (simp add: unat_word_ariths)
  have e: "x + 0x1000 - 1 = x + 0xfff" "(0x1000 - 1 :: u64) = 0xfff"
    by simp_all
  have "unat (VADSZ_ALIGN x) = unat (x + 0xfff) - unat (x + 0xfff) mod 0x1000"
    unfolding VADSZ_ALIGN_def e by (rule unat_page_floor)
  then show ?thesis
    unfolding s round_up_def by (simp add: minus_mod_eq_div_mult)
qed

lemma VADSZ_ALIGN_aligned: "page_aligned (VADSZ_ALIGN x)"
proof -
  have e: "(0x1000 - 1 :: u64) = 0xfff"
    by simp
  have "unat (VADSZ_ALIGN x) = unat (x + 0x1000 - 1) - unat (x + 0x1000 - 1) mod 0x1000"
    unfolding VADSZ_ALIGN_def e by (rule unat_page_floor)
  then show ?thesis
    by (simp add: page_aligned_def minus_mod_eq_div_mult)
qed

lemma VADSZ_ALIGN_wrap:
  assumes "2 ^ 64 \<le> unat x + 0xfff"
  shows "VADSZ_ALIGN x = 0"
proof -
  have e: "x + 0x1000 - 1 = x + 0xfff" "(0x1000 - 1 :: u64) = 0xfff"
    by simp_all
  have u: "unat x < 2 ^ 64"
    using unsigned_less [of x] by simp
  have "(unat x + 0xfff) mod 2 ^ 64 = unat x + 0xfff - 2 ^ 64"
    using assms u by (simp add: le_mod_geq)
  then have "unat (x + 0xfff) = unat x + 0xfff - 2 ^ 64"
    by (simp add: unat_word_ariths)
  then have "unat (x + 0xfff) < 0x1000"
    using u by simp
  then have "unat (VADSZ_ALIGN x) = 0"
    unfolding VADSZ_ALIGN_def e unat_page_floor by simp
  then show ?thesis
    by (simp add: unsigned_eq_0_iff)
qed

section \<open>The regions of an address space\<close>

type_synonym kmvds = "(u64 \<times> kmvarsdsc) list"

definition before :: "u64 \<times> kmvarsdsc \<Rightarrow> u64 \<times> kmvarsdsc \<Rightarrow> bool" where
  "before x y \<longleftrightarrow> kva_end (snd x) \<le> kva_start (snd y)"

definition region_ok :: "kmvarsdsc \<Rightarrow> bool" where
  "region_ok k \<longleftrightarrow> 0x1000 \<le> kva_start k \<and> kva_start k < kva_end k \<and> kva_end k \<le> USER_END \<and>
     page_aligned (kva_start k) \<and> (page_aligned (kva_end k) \<or> kva_end k = USER_END)"

definition regs_ok :: "virmemadrs \<Rightarrow> bool" where
  "regs_ok v \<longleftrightarrow> distinct (map fst (vs_list v)) \<and> 0 \<notin> fst ` set (vs_list v) \<and>
     (\<forall>x \<in> set (vs_list v). region_ok (snd x)) \<and> sorted_wrt before (vs_list v) \<and>
     vs_isalcend v = USER_END \<and> (vs_currkmvdsc v = 0 \<or> vs_currkmvdsc v \<in> fst ` set (vs_list v))"

lemma regs_okD:
  assumes "regs_ok v"
  shows "distinct (map fst (vs_list v))" "0 \<notin> fst ` set (vs_list v)" "x \<in> set (vs_list v) \<Longrightarrow> region_ok (snd x)"
    "sorted_wrt before (vs_list v)" "vs_isalcend v = USER_END"
    "vs_currkmvdsc v \<noteq> 0 \<Longrightarrow> vs_currkmvdsc v \<in> fst ` set (vs_list v)"
  using assms by (auto simp: regs_ok_def)

text \<open>The addresses of the regions.\<close>

definition region_adrs :: "kmvds \<Rightarrow> u64 set" where
  "region_adrs l = {a. \<exists>x \<in> set l. holds_adr a (snd x)}"

lemma region_adrs_simps [simp]:
  "region_adrs [] = {}" "region_adrs (x # l) = {kva_start (snd x)..<kva_end (snd x)} \<union> region_adrs l"
  "region_adrs (l @ l') = region_adrs l \<union> region_adrs l'"
  by (auto simp: region_adrs_def holds_adr_def)

text \<open>A place in the list.\<close>

lemma at_place:
  assumes "p \<in> fst ` set l"
  obtains xs k ys where "l = xs @ (p, k) # ys"
  using assms by (auto dest: split_list)

lemma map_of_place: "distinct (map fst (xs @ (p, k) # ys)) \<Longrightarrow> map_of (xs @ (p, k) # ys) p = Some k"
  by (intro map_of_is_SomeI) auto

lemma next_place:
  "p \<notin> fst ` set xs \<Longrightarrow> next_kmvd p (xs @ (p, k) # ys) = Inr (case ys of [] \<Rightarrow> None | y # ys' \<Rightarrow> Some y)"
  by (induction xs) (auto split: list.splits)

lemma add_after_place: "p \<notin> fst ` set xs \<Longrightarrow> add_after p x (xs @ (p, k) # ys) = xs @ (p, k) # x # ys"
  by (induction xs) auto

lemma in_fst: "(p, b) \<in> set l \<Longrightarrow> p \<in> fst ` set l"
  by force

lemma set_place:
  "distinct (map fst (xs @ (p, k) # ys)) \<Longrightarrow>
   map (\<lambda>(q, k). (q, if q = p then f k else k)) (xs @ (p, k) # ys) = xs @ (p, f k) # ys"
  by (auto intro!: map_idI dest: in_fst)

lemma drop_place: "distinct (map fst (xs @ (p, k) # ys)) \<Longrightarrow> filter (\<lambda>(q, k). q \<noteq> p) (xs @ (p, k) # ys) = xs @ ys"
proof -
  assume d: "distinct (map fst (xs @ (p, k) # ys))"
  have "filter (\<lambda>(q, k). q \<noteq> p) xs = xs" "filter (\<lambda>(q, k). q \<noteq> p) ys = ys"
    using d by (auto simp: filter_id_conv dest: in_fst)
  then show ?thesis
    by simp
qed

lemma place_fresh: "distinct (map fst (xs @ (p, k) # ys)) \<Longrightarrow> p \<notin> fst ` set xs"
  by auto

lemma getk_place: "regs_ok (vm_vs st) \<Longrightarrow> regions st = xs @ (p, k) # ys \<Longrightarrow> getk st p = Inr k"
  using map_of_place [of xs p k ys] regs_okD(1) [of "vm_vs st"] by (simp add: getk_def)

text \<open>A region and a gap behind it.\<close>

definition gap_after :: "kmvarsdsc \<Rightarrow> kmvds \<Rightarrow> u64 \<Rightarrow> u64 \<Rightarrow> bool" where
  "gap_after k ys start n \<longleftrightarrow>
     (let at = if start = 0 then kva_end k else start
      in kva_end k \<le> at \<and> (case ys of [] \<Rightarrow> at + n < USER_END | y # ys' \<Rightarrow> at + n \<le> kva_start (snd y)))"

lemma is_ok_place:
  assumes r: "regs_ok (vm_vs st)" and l: "regions st = xs @ (p, k) # ys"
  shows "vma_find_kmvarsdsc_is_ok st p start n = Inr (if gap_after k ys start n then p else 0)"
proof -
  have nx: "next_kmvd p (regions st) = Inr (case ys of [] \<Rightarrow> None | y # ys' \<Rightarrow> Some y)"
    using next_place [OF place_fresh] regs_okD(1) [OF r] unfolding l by blast
  show ?thesis
    using getk_place [OF r l] regs_okD(5) [OF r] unfolding vma_find_kmvarsdsc_is_ok_def Let_def nx
    by (cases ys) (auto simp: gap_after_def split: prod.splits)
qed

lemma find_kmvd_place:
  assumes r: "regs_ok (vm_vs st)" and l: "regions st = pre @ l"
  shows "(\<exists>xs p k ys. find_kmvd st kind start n l = Inr p \<and> regions st = xs @ (p, k) # ys \<and> kind k \<and> gap_after k ys start n) \<or>
    (find_kmvd st kind start n l = Inr 0 \<and> (\<forall>xs p k ys. l = xs @ (p, k) # ys \<longrightarrow> kind k \<longrightarrow> \<not> gap_after k ys start n))"
  using l
proof (induction l arbitrary: pre)
  case (Cons x l)
  obtain p k where x: "x = (p, k)"
    by (cases x)
  have l: "regions st = pre @ (p, k) # l"
    using Cons.prems x by simp
  then have l': "regions st = (pre @ [x]) @ l"
    by (simp add: x)
  have p: "p \<noteq> 0"
    using regs_okD(2) [OF r] l by force
  show ?case
  proof (cases "kind k \<and> gap_after k l start n")
    case True
    then have "find_kmvd st kind start n (x # l) = Inr p"
      using is_ok_place [OF r l] p by (simp add: x)
    then show ?thesis
      using l True by blast
  next
    case False
    then have e: "find_kmvd st kind start n (x # l) = find_kmvd st kind start n l"
      using is_ok_place [OF r l] by (auto simp: x)
    have "\<not> gap_after k' ys start n" if "\<forall>xs p k ys. l = xs @ (p, k) # ys \<longrightarrow> kind k \<longrightarrow> \<not> gap_after k ys start n"
      "x # l = xs @ (p', k') # ys" "kind k'" for xs p' k' ys
      using that False x by (cases xs) auto
    with Cons.IH [OF l'] show ?thesis
      unfolding e by blast
  qed
qed simp

lemma vma_find_kmvarsdsc_ok:
  assumes r: "regs_ok (vm_vs st)" and n: "0x1000 \<le> n" "start + n \<le> USER_END"
  shows "(\<exists>xs p k ys. vma_find_kmvarsdsc st start n lim ty = Inr p \<and> p \<noteq> 0 \<and> regions st = xs @ (p, k) # ys \<and>
      gap_after k ys start n) \<or>
    (vma_find_kmvarsdsc st start n lim ty = Inr 0 \<and>
      (\<forall>xs p k ys. regions st = xs @ (p, k) # ys \<longrightarrow> \<not> gap_after k ys start n))"
proof -
  let ?lists = "andthen (find_kmvd st (same_kind lim ty) start n (regions st)) (\<lambda>kmvd.
            if kmvd \<noteq> 0 then Inr kmvd else find_kmvd st (\<lambda>k. True) start n (regions st))"
  have nz: "p \<noteq> 0" if "regions st = xs @ (p, k) # ys" for xs p k ys
    using regs_okD(2) [OF r] that by force
  have lists: "(\<exists>xs p k ys. ?lists = Inr p \<and> p \<noteq> 0 \<and> regions st = xs @ (p, k) # ys \<and> gap_after k ys start n) \<or>
    (?lists = Inr 0 \<and> (\<forall>xs p k ys. regions st = xs @ (p, k) # ys \<longrightarrow> \<not> gap_after k ys start n))"
    using find_kmvd_place [OF r append_Nil [symmetric], of "same_kind lim ty" start n]
  proof (elim disjE exE conjE)
    fix xs p k ys
    assume "find_kmvd st (same_kind lim ty) start n (regions st) = Inr p" "regions st = xs @ (p, k) # ys"
      "gap_after k ys start n"
    then show ?thesis
      using nz by (intro disjI1 exI [of _ xs] exI [of _ p] exI [of _ k] exI [of _ ys]) simp
  next
    assume z: "find_kmvd st (same_kind lim ty) start n (regions st) = Inr 0"
    from find_kmvd_place [OF r append_Nil [symmetric], of "\<lambda>k. True" start n] show ?thesis
    proof (elim disjE exE conjE)
      fix xs p k ys
      assume "find_kmvd st (\<lambda>k. True) start n (regions st) = Inr p" "regions st = xs @ (p, k) # ys"
        "gap_after k ys start n"
      then show ?thesis
        using nz z by (intro disjI1 exI [of _ xs] exI [of _ p] exI [of _ k] exI [of _ ys]) simp
    qed (use z in \<open>auto\<close>)
  qed
  have e: "vma_find_kmvarsdsc st start n lim ty =
     (if vs_currkmvdsc (vm_vs st) \<noteq> 0
      then andthen (vma_find_kmvarsdsc_is_ok st (vs_currkmvdsc (vm_vs st)) start n) (\<lambda>kmvd.
           if kmvd \<noteq> 0
           then andthen (getk st kmvd) (\<lambda>k. if same_kind lim ty k then Inr kmvd else ?lists)
           else ?lists) else ?lists)"
    using n regs_okD(5) [OF r] by (simp add: vma_find_kmvarsdsc_def Let_def not_less [symmetric])
  show ?thesis
  proof (cases "vs_currkmvdsc (vm_vs st) = 0")
    case True
    then show ?thesis
      using lists unfolding e by simp
  next
    case False
    from at_place [OF regs_okD(6) [OF r False]] obtain xs k ys where l: "regions st = xs @ (vs_currkmvdsc (vm_vs st), k) # ys" .
    note o = is_ok_place [OF r l, of start n] and g = getk_place [OF r l]
    show ?thesis
    proof (cases "gap_after k ys start n \<and> same_kind lim ty k")
      case True
      then have "vma_find_kmvarsdsc st start n lim ty = Inr (vs_currkmvdsc (vm_vs st))"
        using o g False unfolding e by simp
      then show ?thesis
        using l False True by blast
    next
      case no: False
      then have "vma_find_kmvarsdsc st start n lim ty = ?lists"
        using o g False unfolding e by auto
      then show ?thesis
        using lists by simp
    qed
  qed
qed

section \<open>A region more, or a larger one\<close>

definition new_adr :: "kmvarsdsc \<Rightarrow> u64 \<Rightarrow> u64" where
  "new_adr k start = (if start = 0 then kva_end k else start)"

definition size_ok :: "u64 \<Rightarrow> u64 \<Rightarrow> bool" where
  "size_ok start n \<longleftrightarrow> page_aligned n \<and> 0x1000 \<le> n \<and> unat start + unat n < 2 ^ 64 \<and> start + n \<le> USER_END \<and>
     (start = 0 \<or> page_aligned start \<and> 0x1000 \<le> start)"

lemma region_in:
  assumes "sorted_wrt before (xs @ (p, k) # ys)" "\<forall>x \<in> set (xs @ (p, k) # ys). region_ok (snd x)"
  shows "x \<in> set xs \<Longrightarrow> kva_end (snd x) \<le> kva_start k" "x \<in> set ys \<Longrightarrow> kva_end k \<le> kva_start (snd x)"
  using assms by (auto simp: sorted_wrt_append before_def)

lemma gap_facts:
  assumes r: "regs_ok v" and l: "vs_list v = xs @ (p, k) # ys" and g: "gap_after k ys start n" and s: "size_ok start n"
  defines "at \<equiv> new_adr k start"
  shows "kva_end k \<le> at" "unat (at + n) = unat at + unat n" "at < at + n" "at + n \<le> USER_END" "page_aligned at"
    "0x1000 \<le> at" "page_aligned (at + n)" "y \<in> set ys \<Longrightarrow> at + n \<le> kva_start (snd y)"
proof -
  have k: "region_ok k" "kva_end k \<le> USER_END"
    using regs_okD(3) [OF r, of "(p, k)"] l by (auto simp: region_ok_def)
  show e: "kva_end k \<le> at"
    using g by (simp add: gap_after_def Let_def at_def new_adr_def split: if_splits)
  have b: "unat a < 2 ^ 47" if "a \<le> USER_END" for a
    using that by (simp add: word_le_nat_alt USER_END_def)
  have w: "unat at + unat n < 2 ^ 64"
  proof (cases "start = 0")
    case True
    then have "n \<le> USER_END"
      using s by (simp add: size_ok_def)
    then show ?thesis
      using True b [OF k(2)] b [of n] by (simp add: at_def new_adr_def)
  qed (use s in \<open>simp add: size_ok_def at_def new_adr_def\<close>)
  then show u: "unat (at + n) = unat at + unat n"
    by (simp add: unat_word_ariths)
  have n: "0x1000 \<le> unat n"
    using s by (simp add: size_ok_def word_le_nat_alt)
  then show "at < at + n"
    unfolding word_less_nat_alt u by simp
  have gap: "case ys of [] \<Rightarrow> at + n < USER_END | y # ys' \<Rightarrow> at + n \<le> kva_start (snd y)"
    using g unfolding gap_after_def Let_def at_def new_adr_def by simp
  have ok: "region_ok (snd y)" if "y \<in> set ys" for y
    using regs_okD(3) [OF r, of y] l that by simp
  show lt: "y \<in> set ys \<Longrightarrow> at + n \<le> kva_start (snd y)" for y
  proof (cases ys)
    case (Cons z zs)
    assume y: "y \<in> set ys"
    have "sorted_wrt before ys"
      using regs_okD(4) [OF r] unfolding l by (simp add: sorted_wrt_append)
    then have "y = z \<or> kva_end (snd z) \<le> kva_start (snd y)"
      using y by (auto simp: Cons before_def)
    moreover have "at + n \<le> kva_start (snd z)" "kva_start (snd z) < kva_end (snd z)"
      using gap ok [of z] by (simp_all add: Cons region_ok_def)
    moreover have "at + n \<le> kva_end (snd z)"
      using calculation(2,3) by order
    ultimately show ?thesis
      by auto
  qed simp
  have lt2: "at + n \<le> USER_END \<and> at + n \<noteq> USER_END"
  proof (cases ys)
    case (Cons z zs)
    then have "at + n \<le> kva_start (snd z)" "kva_start (snd z) < kva_end (snd z)" "kva_end (snd z) \<le> USER_END"
      using lt [of z] ok [of z] by (auto simp: region_ok_def)
    then show ?thesis
      by auto
  qed (use gap in auto)
  then show "at + n \<le> USER_END"
    by simp
  show al: "page_aligned at"
  proof (cases "start = 0")
    case True
    then have "at = kva_end k"
      by (simp add: at_def new_adr_def)
    moreover have "kva_end k \<noteq> USER_END"
    proof
      assume "kva_end k = USER_END"
      then show False
        using \<open>at = kva_end k\<close> lt2 \<open>at < at + n\<close> by auto
    qed
    ultimately show ?thesis
      using k(1) by (simp add: region_ok_def)
  qed (use s in \<open>simp add: size_ok_def at_def new_adr_def\<close>)
  have "0x1000 \<le> kva_end k"
    using k(1) by (auto simp: region_ok_def)
  then show "0x1000 \<le> at"
    using e by simp
  show "page_aligned (at + n)"
    using al s unfolding page_aligned_def u by (simp add: size_ok_def page_aligned_def mod_add_eq [symmetric])
qed

text \<open>The two ways the list changes.\<close>

lemma grown_region:
  assumes r: "regs_ok v" and l: "vs_list v = xs @ (p, k) # ys" and g: "gap_after k ys start n" and s: "size_ok start n"
    and at: "new_adr k start = kva_end k" and v': "vs_list v' = xs @ (p, k\<lparr>kva_end := kva_end k + n\<rparr>) # ys"
    "vs_isalcend v' = vs_isalcend v" "vs_currkmvdsc v' = p"
  shows "regs_ok v'" "region_adrs (vs_list v') = region_adrs (vs_list v) \<union> {kva_end k..<kva_end k + n}"
proof -
  note G = gap_facts [OF r l g s, unfolded at]
  have k: "region_ok k"
    using regs_okD(3) [OF r, of "(p, k)"] l by simp
  have "kva_start k < kva_end k + n"
    using k G(3) by (auto simp: region_ok_def)
  then have "region_ok (k\<lparr>kva_end := kva_end k + n\<rparr>)"
    using k G(4,7) by (simp add: region_ok_def)
  moreover have "sorted_wrt before (vs_list v')"
    using regs_okD(4) [OF r] G(8) unfolding l v' by (auto simp: sorted_wrt_append before_def)
  ultimately show "regs_ok v'"
    using r l v' by (auto simp: regs_ok_def)
  have "{kva_start k..<kva_end k + n} = {kva_start k..<kva_end k} \<union> {kva_end k..<kva_end k + n}"
    using k G(3) by (intro ivl_disj_un [symmetric]) (auto simp: region_ok_def)
  then show "region_adrs (vs_list v') = region_adrs (vs_list v) \<union> {kva_end k..<kva_end k + n}"
    by (auto simp: l v')
qed

lemma added_region:
  assumes r: "regs_ok v" and l: "vs_list v = xs @ (p, k) # ys" and g: "gap_after k ys start n" and s: "size_ok start n"
    and nw: "kva_start nw = new_adr k start" "kva_end nw = new_adr k start + n" and obj: "obj \<noteq> 0" "obj \<notin> fst ` set (vs_list v)"
    and v': "vs_list v' = xs @ (p, k) # (obj, nw) # ys" "vs_isalcend v' = vs_isalcend v" "vs_currkmvdsc v' = obj"
  shows "regs_ok v'" "region_adrs (vs_list v') = region_adrs (vs_list v) \<union> {new_adr k start..<new_adr k start + n}"
proof -
  note G = gap_facts [OF r l g s]
  have k: "region_ok k"
    using regs_okD(3) [OF r, of "(p, k)"] l by simp
  have "region_ok nw"
    using G by (simp add: region_ok_def nw)
  moreover have "kva_end (snd x) \<le> new_adr k start" if x: "x \<in> set xs" for x
  proof -
    have "kva_end (snd x) \<le> kva_start k"
      using regs_okD(4) [OF r] x unfolding l by (auto simp: sorted_wrt_append before_def)
    then show ?thesis
      using k G(1) by (auto simp: region_ok_def)
  qed
  then have "sorted_wrt before (vs_list v')"
    using regs_okD(4) [OF r] G(1,8) unfolding l v' by (auto simp: sorted_wrt_append before_def nw)
  ultimately show "regs_ok v'"
    using r l v' obj by (auto simp: regs_ok_def)
  show "region_adrs (vs_list v') = region_adrs (vs_list v) \<union> {new_adr k start..<new_adr k start + n}"
    by (auto simp: l v' nw)
qed

lemma gap_fresh:
  assumes r: "regs_ok v" and l: "vs_list v = xs @ (p, k) # ys" and g: "gap_after k ys start n" and s: "size_ok start n"
  shows "{new_adr k start..<new_adr k start + n} \<inter> region_adrs (vs_list v) = {}"
proof -
  note G = gap_facts [OF r l g s]
  have k: "region_ok k"
    using regs_okD(3) [OF r, of "(p, k)"] l by simp
  have "\<not> holds_adr a (snd x)" if a: "new_adr k start \<le> a" "a < new_adr k start + n" and x: "x \<in> set (vs_list v)" for a x
  proof -
    have "x = (p, k) \<or> x \<in> set xs \<or> x \<in> set ys"
      using x l by auto
    moreover have "kva_end (snd x) \<le> kva_start k" if "x \<in> set xs"
      using regs_okD(4) [OF r] that unfolding l by (auto simp: sorted_wrt_append before_def)
    ultimately have "kva_end (snd x) \<le> a \<or> a < kva_start (snd x)"
    proof (elim disjE)
      assume "x \<in> set xs" and "x \<in> set xs \<Longrightarrow> kva_end (snd x) \<le> kva_start k"
      then show ?thesis
        using k G(1) a(1) by (auto simp: region_ok_def)
    next
      assume "x \<in> set ys"
      then show ?thesis
        using G(8) [of x] a(2) by auto
    qed (use G(1) a(1) in auto)
    then show ?thesis
      by (auto simp: holds_adr_def)
  qed
  then show ?thesis
    by (auto simp: region_adrs_def)
qed

section \<open>A new region\<close>

text \<open>What the list, the current region and the limits are after a request.\<close>

definition region_added :: "kmvds \<Rightarrow> kmvds \<Rightarrow> u64 \<Rightarrow> u64 \<Rightarrow> kmvarsdsc \<Rightarrow> u64 \<Rightarrow> bool" where
  "region_added l l' at n nw obj \<longleftrightarrow>
     (\<exists>xs p k ys. l = xs @ (p, k) # ys \<and>
        (l' = xs @ (p, k\<lparr>kva_end := kva_end k + n\<rparr>) # ys \<and> at = kva_end k \<or>
         l' = xs @ (p, k) # (obj, nw) # ys \<and> obj \<noteq> 0))"

definition new_region :: "u64 \<Rightarrow> u64 \<Rightarrow> u64 \<Rightarrow> u32 \<Rightarrow> kmvarsdsc" where
  "new_region first n lim ty = kmvarsdsc_t_init\<lparr>kva_start := first, kva_end := first + n, kva_limits := lim, kva_maptype := ty\<rparr>"

lemma vma_new_vadrs_core_ok:
  assumes r: "regs_ok (vm_vs st)" and s: "size_ok start n" and obj: "obj = 0 \<or> obj \<notin> fst ` set (regions st)"
  shows "\<exists>at st'. vma_new_vadrs_core st start n lim ty obj = Inr (at, st') \<and>
    (if at = 0 then st' = st \<and>
       ((\<forall>xs p k ys. regions st = xs @ (p, k) # ys \<longrightarrow> \<not> gap_after k ys start n) \<or> obj = 0)
     else \<exists>v'. st' = st\<lparr>vm_vs := v'\<rparr> \<and> regs_ok v' \<and> (start \<noteq> 0 \<longrightarrow> at = start) \<and> page_aligned at \<and>
       at < at + n \<and> 0x1000 \<le> at \<and> at + n \<le> USER_END \<and> {at..<at + n} \<inter> region_adrs (regions st) = {} \<and>
       region_adrs (vs_list v') = region_adrs (regions st) \<union> {at..<at + n} \<and>
       region_added (regions st) (vs_list v') at n (new_region at n lim ty) obj)"
proof -
  have n: "0x1000 \<le> n" "start + n \<le> USER_END"
    using s by (simp_all add: size_ok_def)
  from vma_find_kmvarsdsc_ok [OF r n, of lim ty] show ?thesis
  proof (elim disjE exE conjE)
    fix xs p k ys
    assume f: "vma_find_kmvarsdsc st start n lim ty = Inr p" "p \<noteq> 0" and l: "regions st = xs @ (p, k) # ys"
      and g: "gap_after k ys start n"
    note G = gap_facts [OF r l g s] and F = gap_fresh [OF r l g s] and K = getk_place [OF r l]
    note d = regs_okD(1) [OF r, unfolded l]
    show ?thesis
    proof (cases "(start = 0 \<or> start = kva_end k) \<and> same_kind lim ty k")
      case True
      then have at: "new_adr k start = kva_end k"
        by (auto simp: new_adr_def)
      define v' where "v' = (vm_vs st)\<lparr>vs_list := xs @ (p, k\<lparr>kva_end := kva_end k + n\<rparr>) # ys, vs_currkmvdsc := p\<rparr>"
      have o: "vs_list v' = xs @ (p, k\<lparr>kva_end := kva_end k + n\<rparr>) # ys" "vs_isalcend v' = vs_isalcend (vm_vs st)"
        "vs_currkmvdsc v' = p"
        by (simp_all add: v'_def)
      have "vma_new_vadrs_core st start n lim ty obj = Inr (kva_end k, st\<lparr>vm_vs := v'\<rparr>)"
        using f K True set_place [OF d, of "\<lambda>k. k\<lparr>kva_end := kva_end k + n\<rparr>"] unfolding vma_new_vadrs_core_def
        by (simp add: upd_vs_def setk_def l v'_def)
      moreover have "region_added (regions st) (vs_list v') (kva_end k) n (new_region (kva_end k) n lim ty) obj"
        unfolding region_added_def by (intro exI [of _ xs] exI [of _ p] exI [of _ k] exI [of _ ys]) (simp add: l o)
      moreover have "kva_end k \<noteq> 0"
        using G(6) unfolding at by auto
      ultimately show ?thesis
        using grown_region [OF r l g s at o] G(3-6) F True
        by (intro exI [of _ "kva_end k"] exI [of _ "st\<lparr>vm_vs := v'\<rparr>"]) (auto simp: at)
    next
      case no: False
      show ?thesis
      proof (cases "obj = 0")
        case True
        then have "vma_new_vadrs_core st start n lim ty obj = Inr (0, st)"
          using f K no unfolding vma_new_vadrs_core_def by auto
        then show ?thesis
          using True by simp
      next
        case False
        let ?at = "new_adr k start"
        have ob: "obj \<notin> fst ` set (vs_list (vm_vs st))"
          using obj False by simp
        have po: "p \<noteq> obj" "obj \<notin> fst ` set (xs @ [(p, k)])"
          using ob l by auto
        define v' where "v' = (vm_vs st)\<lparr>vs_list := xs @ (p, k) # (obj, new_region ?at n lim ty) # ys, vs_currkmvdsc := obj\<rparr>"
        define v2 where "v2 = (if ys = [] then v'\<lparr>vs_endkmvdsc := obj\<rparr> else v')"
        have o: "vs_list v2 = xs @ (p, k) # (obj, new_region ?at n lim ty) # ys" "vs_isalcend v2 = vs_isalcend (vm_vs st)"
          "vs_currkmvdsc v2 = obj"
          by (simp_all add: v2_def v'_def)
        have nw: "kva_start (new_region ?at n lim ty) = ?at" "kva_end (new_region ?at n lim ty) = ?at + n"
          by (simp_all add: new_region_def)
        have nx: "next_kmvd obj (xs @ (p, k) # (obj, new_region ?at n lim ty) # ys) =
            Inr (case ys of [] \<Rightarrow> None | y # ys' \<Rightarrow> Some y)"
          using next_place [OF po(2), of "new_region ?at n lim ty" ys] by simp
        have step: "upd_vs (\<lambda>v. v\<lparr>vs_currkmvdsc := obj, vs_list := add_after p (obj, new_region ?at n lim ty) (vs_list v)\<rparr>) st =
            st\<lparr>vm_vs := v'\<rparr>"
          using add_after_place [OF place_fresh [OF d]] by (simp add: upd_vs_def l v'_def)
        have reg: "regions (st\<lparr>vm_vs := v'\<rparr>) = xs @ (p, k) # (obj, new_region ?at n lim ty) # ys"
          by (simp add: v'_def)
        have "vma_new_vadrs_core st start n lim ty obj =
            andthen (next_kmvd obj (regions (st\<lparr>vm_vs := v'\<rparr>))) (\<lambda>next.
              Inr (?at, if next = None then upd_vs (\<lambda>v. v\<lparr>vs_endkmvdsc := obj\<rparr>) (st\<lparr>vm_vs := v'\<rparr>) else st\<lparr>vm_vs := v'\<rparr>))"
          using f K no False unfolding step [symmetric] vma_new_vadrs_core_def new_region_def new_adr_def
          by (simp only: andthen_simps Let_def if_False)
        also have "\<dots> = Inr (?at, st\<lparr>vm_vs := v2\<rparr>)"
          unfolding reg nx by (cases ys) (simp_all add: v2_def upd_vs_def)
        finally have e: "vma_new_vadrs_core st start n lim ty obj = Inr (?at, st\<lparr>vm_vs := v2\<rparr>)" .
        moreover have "region_added (regions st) (vs_list v2) ?at n (new_region ?at n lim ty) obj"
          unfolding region_added_def o using False
          by (intro exI [of _ xs] exI [of _ p] exI [of _ k] exI [of _ ys]) (simp add: l)
        moreover have "?at \<noteq> 0"
          using G(6) by auto
        ultimately show ?thesis
          using added_region [OF r l g s nw False ob o] G(3-6) F
          by (intro exI [of _ ?at] exI [of _ "st\<lparr>vm_vs := v2\<rparr>"]) (auto simp: new_adr_def)
      qed
    qed
  qed (simp add: vma_new_vadrs_core_def)
qed

end
