(* ===== verification/VmaPages.thy ===== *)
theory VmaPages
  imports VmaRegions MmuSpace
begin

text \<open>
  The pages behind user addresses. \<open>pages_ok\<close> relates the page tables, the boxes and the page allocator; a page is taken
  for an address, taken away from one, and the loop over a range takes away exactly the pages of the range.
\<close>

section \<open>Pages handed to users\<close>

abbreviation pno :: "nat \<times> bafsel \<times> nat \<Rightarrow> nat" where
  "pno x \<equiv> snd (snd x)"

definition one_page :: "nat \<times> bafsel \<times> nat \<Rightarrow> bool" where
  "one_page x \<longleftrightarrow> selsz (fst (snd x)) = 1"

lemma one_page_facts:
  assumes s: "sound g A" and x: "x \<in> A" "one_page x"
  shows "pno x < npages g" "page_adr (pg_adr g (pno x))" "msadsc_ret_addr g (Some (pno x)) = Inr (pg_adr g (pno x))"
    "pno x \<notin> page_vacant g" "pg_adr g (pno x) \<noteq> 0"
proof -
  obtain a sel i where e: "x = (a, sel, i)"
    by (cases x)
  then have sz: "selsz sel = 1"
    using x(2) by (simp add: one_page_def)
  have i: "i \<in> alloc_pages A a"
    using x(1) sz unfolding e alloc_pages_def by fastforce
  then have o: "i \<in> area_own g A a"
    by (simp add: area_own_def)
  from held_page [OF s o] show "pno x < npages g" "page_adr (pg_adr g (pno x))"
    "msadsc_ret_addr g (Some (pno x)) = Inr (pg_adr g (pno x))"
    by (simp_all add: e)
  then show "pg_adr g (pno x) \<noteq> 0"
    by (auto simp: page_adr_def)
  show "pno x \<notin> page_vacant g"
    using alloc_free_disjoint [OF mem_invD(1) [OF soundD(1) [OF s]], of a] i by (auto simp: page_vacant_def e)
qed

text \<open>A page for a user comes from the process area while that has one.\<close>

definition proc_empty :: "memmgrob \<Rightarrow> bool" where
  "proc_empty g \<longleftrightarrow> (case retn_procmarea g of None \<Rightarrow> True | Some a \<Rightarrow> frelst g a Onem = [])"

lemma user_page_new:
  assumes s: "sound g A" and k: "find_area g MA_TYPE_KRNL = Some a0"
  obtains "mm_divpages_procmarea g 1 = Inr ((None, 0), g)" "free_pages g a0 = {}"
  | x g' where "mm_divpages_procmarea g 1 = Inr ((Some (pno x), 1), g')" "one_page x" "x \<notin> A" "sound g' (insert x A)"
    "statics g' = statics g" "pno x \<in> page_vacant g" "page_vacant g' = page_vacant g - {pno x}" "\<And>y. y \<in> A \<Longrightarrow> pno y \<noteq> pno x"
    "free_pages g' a0 = free_pages g a0 \<or> free_pages g' a0 = free_pages g a0 - {pno x} \<and> proc_empty g"
proof -
  note inv = soundD(1) [OF s] and none = that(1) and some = that(2)
  have kernel: thesis if core: "divpages_procmarea_core g 1 = Inr ((None, 0), g)" and pe: "proc_empty g"
  proof (rule krnl_page_new [OF s k])
    assume "mm_division_pages g 1 MA_TYPE_KRNL DMF_RELDIV = Inr ((None, 0), g)" "free_pages g a0 = {}"
    then show thesis
      using core by (intro none) (simp_all add: mm_divpages_procmarea_def)
  next
    fix i g'
    assume *: "mm_division_pages g 1 MA_TYPE_KRNL DMF_RELDIV = Inr ((Some i, 1), g')" "sound g' (insert (kblk g i) A)"
      "statics g' = statics g" "kblk g i \<notin> A" "i \<in> page_vacant g" "page_vacant g' = page_vacant g - {i}"
      "\<And>b sel j. (b, sel, j) \<in> A \<Longrightarrow> i \<noteq> j" "free_pages g' a0 = free_pages g a0 - {i}" "i \<in> free_pages g a0"
    have n: "pno y \<noteq> i" if "y \<in> A" for y
      using *(7) [of "fst y" "fst (snd y)" "pno y"] that by auto
    have p: "pno (kblk g i) = i" "one_page (kblk g i)"
      using krnl_area(3) [OF k, of i] by (simp_all add: one_page_def)
    show thesis
      by (rule some [of "kblk g i" g']) (use *(1-6,8) core pe p n in \<open>auto simp: mm_divpages_procmarea_def\<close>)
  qed
  show thesis
  proof (cases "retn_procmarea g")
    case None
    then show ?thesis
      by (intro kernel) (simp_all add: divpages_procmarea_core_def proc_empty_def)
  next
    case (Some a)
    then have "find_area g MA_TYPE_PROC = Some a"
      by (simp add: retn_procmarea_def)
    note a = find_area_Some [OF this]
    show ?thesis
    proof (cases "frelst g a Onem")
      case Nil
      then show ?thesis
        using procmarea_none [OF inv a] kernel Some by (simp add: proc_empty_def)
    next
      case (Cons i rest)
      from procmarea_page [OF inv a Cons] obtain g' where g': "divpages_procmarea_core g 1 = Inr ((Some i, 1), g')"
        "mem_inv g' (insert (a, Onem, i) A)" "free_pages g' = (free_pages g)(a := free_pages g a - {i})"
        by blast
      have r: "mm_divpages_procmarea g 1 = Inr ((Some i, 1), g')"
        by (simp add: mm_divpages_procmarea_def g'(1))
      have fr: "(a, Onem, i) \<in> freeset g"
        using a(1) Cons by simp
      have i: "i \<in> free_pages g a"
        using free_pagesI [OF fr, of i] by simp
      have own: "area_own g' (insert (a, Onem, i) A) b = area_own g A b" for b
        using i by (auto simp: area_own_def g'(3) alloc_pages_insert)
      have st: "statics g' = statics g"
        using statics_after(2) [OF r] .
      have v: "page_vacant g' = page_vacant g - {i}"
        by (rule page_vacant_upd [OF inv _ g'(3)]) (use i in simp)
      have n: "pno y \<noteq> i" if "y \<in> A" for y
        using free_block_fresh [OF inv fr] that by (metis prod.collapse)
      have fresh: "(a, Onem, i) \<notin> A"
        using n [of "(a, Onem, i)"] by auto
      have "a \<noteq> a0"
        using a(2) krnl_area(2) [OF k] by (auto simp: MA_TYPE_KRNL_def MA_TYPE_PROC_def)
      then have keep: "free_pages g' a0 = free_pages g a0"
        by (simp add: g'(3))
      show ?thesis
        by (rule some [of "(a, Onem, i)" g'])
          (use fresh r g'(2) i st v n keep sound_same [OF s g'(2) st own] in \<open>auto simp: one_page_def page_vacant_def\<close>)
    qed
  qed
qed

lemma user_page_del:
  assumes s: "sound g A" and x: "x \<in> A" "one_page x"
  shows "onfrmsa_retn_fpagenr g (Some (pno x)) = Inr 1"
    "\<exists>g'. mm_merge_pages g (Some (pno x)) 1 = Inr (True, g') \<and> sound g' (A - {x}) \<and> statics g' = statics g \<and>
       page_vacant g' = insert (pno x) (page_vacant g)"
proof -
  obtain a sel i where e: "x = (a, sel, i)"
    by (cases x)
  then have mem: "(a, sel, i) \<in> A" and sz: "selsz sel = 1"
    using x by (simp_all add: one_page_def)
  note inv = soundD(1) [OF s]
  from given_page [OF inv mem sz] obtain g' where
    g': "onfrmsa_retn_fpagenr g (Some i) = Inr 1" "mm_merge_pages g (Some i) 1 = Inr (True, g')"
    "mem_inv g' (A - {x})" "statics g' = statics g" "\<And>b. area_own g' (A - {x}) b = area_own g A b"
    unfolding e by blast
  from merge_pages_block [OF inv mem] g'(2) sz have fp: "free_pages g' = (free_pages g)(a := insert i (free_pages g a))"
    by auto
  show "onfrmsa_retn_fpagenr g (Some (pno x)) = Inr 1"
    by (simp add: e g'(1))
  have "page_vacant g' = insert i (page_vacant g)"
    by (auto simp: page_vacant_def fp)
  then show "\<exists>g'. mm_merge_pages g (Some (pno x)) 1 = Inr (True, g') \<and> sound g' (A - {x}) \<and> statics g' = statics g \<and>
       page_vacant g' = insert (pno x) (page_vacant g)"
    using g'(2,4) sound_same [OF s g'(3,4,5)] by (auto simp: e)
qed

text \<open>The page manager changes, the tables do not.\<close>

lemma mmu_ok_grob:
  assumes ok: "mmu_ok m A {}" and st: "statics g' = statics (ms_grob m)"
    and s: "sound g' (A' \<union> kblk (ms_grob m) ` tpages (ms_mmu m))" "A' \<inter> kblk (ms_grob m) ` tpages (ms_mmu m) = {}"
  shows "mmu_ok (m\<lparr>ms_grob := g'\<rparr>) A' {}" "user_view (m\<lparr>ms_grob := g'\<rparr>) = user_view m"
proof -
  have kb: "kblk g' = kblk (ms_grob m)" and pv: "pg_vadr g' = pg_vadr (ms_grob m)"
    using kblk_statics [OF st] pg_statics [OF st] by simp_all
  show "mmu_ok (m\<lparr>ms_grob := g'\<rparr>) A' {}"
  proof (rule mmu_okI)
    show "find_area (ms_grob (m\<lparr>ms_grob := g'\<rparr>)) MA_TYPE_KRNL \<noteq> None"
      using mmu_okD(1) [OF ok] find_area_statics [OF st] by simp
    show "\<exists>k<512. slot (m\<lparr>ms_grob := g'\<rparr>) (k # q) \<noteq> 0"
      if "upath 3 q" "q \<noteq> []" "q \<notin> {}" "table (m\<lparr>ms_grob := g'\<rparr>) q \<noteq> 0" for q
      using mmu_okD(10) [OF ok that(1-3)] that(4) by simp
    show "slot (m\<lparr>ms_grob := g'\<rparr>) q = 0 \<or> entry_ok (slot (m\<lparr>ms_grob := g'\<rparr>) q)" if "upath 4 q" "q \<noteq> []" for q
      using mmu_okD(9) [OF ok that] by simp
  qed (use mmu_okD(4-8) [OF ok] s in \<open>simp_all add: kb pv\<close>)
  show "user_view (m\<lparr>ms_grob := g'\<rparr>) = user_view m"
    by (simp add: fun_eq_iff user_view_def phys_root_def)
qed

section \<open>The pages behind the addresses\<close>

definition pages_of :: "(u64 \<rightharpoonup> kvmemcbox) \<Rightarrow> u64 \<Rightarrow> nat set" where
  "pages_of box b = set (kmb_msalist (the (box b)))"

text \<open>
  \<open>bx\<close> is the box behind an address, \<open>K\<close> the boxes of the address space, \<open>U\<close> the blocks of the page manager its pages are.
  Every page found behind an address is a page of the address's box, every page of a box is behind an address, and no page is
  behind two pages of addresses.
\<close>

definition pages_ok :: "mmust \<Rightarrow> (u64 \<rightharpoonup> kvmemcbox) \<Rightarrow> blocks \<Rightarrow> (u64 \<Rightarrow> u64) \<Rightarrow> u64 set \<Rightarrow> blocks \<Rightarrow> bool" where
  "pages_ok m box B bx K U \<longleftrightarrow>
     mmu_ok m (B \<union> U) {} \<and> B \<inter> U = {} \<and> 0 \<notin> K \<and> (\<forall>x \<in> U. one_page x) \<and> pno ` U = (\<Union>b \<in> K. pages_of box b) \<and>
     (\<forall>b \<in> K. \<exists>x. box b = Some x \<and> distinct (kmb_msalist x) \<and> kmb_msanr x = of_nat (length (kmb_msalist x))) \<and>
     (\<forall>b \<in> K. \<forall>c \<in> K. b \<noteq> c \<longrightarrow> pages_of box b \<inter> pages_of box c = {}) \<and>
     (\<forall>v p. user_adr v \<longrightarrow> user_view m v = Some p \<longrightarrow> bx v \<in> K \<and> p \<in> pg_adr (ms_grob m) ` pages_of box (bx v)) \<and>
     (\<forall>b \<in> K. \<forall>i \<in> pages_of box b. \<exists>v. user_adr v \<and> bx v = b \<and> user_view m v = Some (pg_adr (ms_grob m) i)) \<and>
     (\<forall>v w. user_adr v \<longrightarrow> user_adr w \<longrightarrow> user_view m v \<noteq> None \<longrightarrow> user_view m w = user_view m v \<longrightarrow> same_page w v)"

lemma pages_okD:
  assumes "pages_ok m box B bx K U"
  shows "mmu_ok m (B \<union> U) {}" "B \<inter> U = {}" "0 \<notin> K" "x \<in> U \<Longrightarrow> one_page x" "pno ` U = (\<Union>b \<in> K. pages_of box b)"
    "b \<in> K \<Longrightarrow> \<exists>x. box b = Some x \<and> distinct (kmb_msalist x) \<and> kmb_msanr x = of_nat (length (kmb_msalist x))"
    "b \<in> K \<Longrightarrow> c \<in> K \<Longrightarrow> b \<noteq> c \<Longrightarrow> pages_of box b \<inter> pages_of box c = {}"
    "user_adr v \<Longrightarrow> user_view m v = Some p \<Longrightarrow> bx v \<in> K \<and> p \<in> pg_adr (ms_grob m) ` pages_of box (bx v)"
    "b \<in> K \<Longrightarrow> i \<in> pages_of box b \<Longrightarrow> \<exists>v. user_adr v \<and> bx v = b \<and> user_view m v = Some (pg_adr (ms_grob m) i)"
    "user_adr v \<Longrightarrow> user_adr w \<Longrightarrow> user_view m v \<noteq> None \<Longrightarrow> user_view m w = user_view m v \<Longrightarrow> same_page w v"
  using assms by (auto simp: pages_ok_def)

lemma user_page_facts:
  assumes ok: "pages_ok m box B bx K U" and i: "b \<in> K" "i \<in> pages_of box b"
  obtains x where "x \<in> U" "pno x = i" "one_page x" "i < npages (ms_grob m)" "page_adr (pg_adr (ms_grob m) i)"
    "msadsc_ret_addr (ms_grob m) (Some i) = Inr (pg_adr (ms_grob m) i)" "i \<notin> mmu_pages m" "pg_adr (ms_grob m) i \<noteq> 0"
proof -
  note D = pages_okD [OF ok] and S = mmu_okD(2) [OF pages_okD(1) [OF ok]]
  have "i \<in> pno ` U"
    using D(5) i by blast
  then obtain x where x: "x \<in> U" "pno x = i"
    by blast
  have xa: "x \<in> B \<union> U \<union> kblk (ms_grob m) ` tpages (ms_mmu m)"
    using x by blast
  note F = one_page_facts [OF S xa D(4) [OF x(1)]]
  have "i \<notin> tpages (ms_mmu m)"
  proof
    assume t: "i \<in> tpages (ms_mmu m)"
    obtain a0 where a0: "find_area (ms_grob m) MA_TYPE_KRNL = Some a0"
      using mmu_okD(1) [OF D(1)] by blast
    obtain a sel where e: "x = (a, sel, i)"
      using x(2) by (cases x) simp
    have "(a0, Lie 0, i) \<in> B \<union> U \<union> kblk (ms_grob m) ` tpages (ms_mmu m)"
      using imageI [OF t, of "kblk (ms_grob m)"] unfolding krnl_area(3) [OF a0, of i] by blast
    then have "x = kblk (ms_grob m) i"
      using block_unique [OF soundD(1) [OF S] xa [unfolded e]] krnl_area(3) [OF a0, of i] by (simp add: e)
    then show False
      using mmu_okD(3) [OF D(1)] x(1) t by blast
  qed
  then have "i \<notin> mmu_pages m"
    using F(4) by (simp add: mmu_pages_def x(2))
  then show ?thesis
    using that [OF x D(4) [OF x(1)]] F by (simp add: x(2))
qed

text \<open>The memory a change may touch, as the tables and the free pages become more or fewer.\<close>

definition space_frame :: "mmust \<Rightarrow> mmust \<Rightarrow> bool" where
  "space_frame m m' \<longleftrightarrow> statics (ms_grob m') = statics (ms_grob m) \<and> root m' = root m \<and> ms_cr3 m' = ms_cr3 m \<and>
     ms_pml4 m' = ms_pml4 m \<and> mud_cr3 (ms_mmu m') = mud_cr3 (ms_mmu m) \<and>
     (\<forall>k \<ge> 256. ms_mem m' (root m) k = ms_mem m (root m) k)"

definition more_room :: "mmust \<Rightarrow> mmust \<Rightarrow> bool" where
  "more_room m m' \<longleftrightarrow> space_frame m m' \<and> mmu_pages m \<subseteq> mmu_pages m' \<and>
     (\<forall>a. a \<notin> pg_vadr (ms_grob m) ` mmu_pages m' \<longrightarrow> ms_mem m' a = ms_mem m a)"

lemma more_room_refl [simp]: "more_room m m"
  by (simp add: more_room_def space_frame_def)

lemma more_room_trans: "more_room m1 m2 \<Longrightarrow> more_room m2 m3 \<Longrightarrow> more_room m1 m3"
proof -
  assume a: "more_room m1 m2" "more_room m2 m3"
  have p: "pg_vadr (ms_grob m2) = pg_vadr (ms_grob m1)"
    using a(1) pg_statics [of "ms_grob m2" "ms_grob m1"] by (simp add: more_room_def space_frame_def)
  have "ms_mem m3 b = ms_mem m1 b" if b: "b \<notin> pg_vadr (ms_grob m1) ` mmu_pages m3" for b
  proof -
    have "ms_mem m3 b = ms_mem m2 b"
      using a(2) b unfolding more_room_def p by blast
    moreover have "b \<notin> pg_vadr (ms_grob m1) ` mmu_pages m2"
      using a(2) b by (auto simp: more_room_def)
    ultimately show ?thesis
      using a(1) by (simp add: more_room_def)
  qed
  then show ?thesis
    using a by (auto simp: more_room_def space_frame_def)
qed

lemma frame_more_room: "mmu_frame m m' \<Longrightarrow> more_room m m'"
  by (simp add: mmu_frame_def more_room_def space_frame_def)

text \<open>Two addresses of one page.\<close>

lemma view_same_page:
  assumes "mmu_ok m A {}" "user_adr v" "user_adr w" "same_page v w"
  shows "user_view m v = user_view m w"
  using va_path_eq [OF assms(2,3)] user_view_slot [OF assms(1,2)] user_view_slot [OF assms(1,3)] assms(4)
  by (simp add: same_page_def)

lemma pno_unique:
  assumes ok: "pages_ok m box B bx K U" and x: "x \<in> U" "z \<in> U" "pno x = pno z"
  shows "x = z"
proof -
  have "x \<in> B \<union> U \<union> kblk (ms_grob m) ` tpages (ms_mmu m)" "z \<in> B \<union> U \<union> kblk (ms_grob m) ` tpages (ms_mmu m)"
    using x by blast+
  with block_unique [OF soundD(1) [OF mmu_okD(2) [OF pages_okD(1) [OF ok]]]] x(3) show ?thesis
    by (metis prod.collapse)
qed

lemma user_adr_inj:
  assumes ok: "pages_ok m box B bx K U" and i: "b \<in> K" "i \<in> pages_of box b" "c \<in> K" "j \<in> pages_of box c"
  shows "pg_adr (ms_grob m) i = pg_adr (ms_grob m) j \<longleftrightarrow> i = j"
proof -
  obtain x where x: "i < npages (ms_grob m)"
    by (rule user_page_facts [OF ok i(1,2)])
  obtain y where y: "j < npages (ms_grob m)"
    by (rule user_page_facts [OF ok i(3,4)])
  show ?thesis
    using pg_adr_inj [OF soundD(3) [OF mmu_okD(2) [OF pages_okD(1) [OF ok]]] x y] by blast
qed

section \<open>A page taken away\<close>

definition box_less :: "nat \<Rightarrow> kvmemcbox \<Rightarrow> kvmemcbox" where
  "box_less i y = y\<lparr>kmb_msalist := remove1 i (kmb_msalist y), kmb_msanr := kmb_msanr y - 1\<rparr>"

text \<open>The page tables and the page manager have done their part; the box has one page less.\<close>

lemma pages_removed:
  assumes ok: "pages_ok m box B bx K U" and va: "user_adr va" and p: "user_view m va = Some (pg_adr (ms_grob m) i)"
    and i: "i \<in> pages_of box (bx va)" and x: "x \<in> U" "pno x = i" and y: "box (bx va) = Some y"
    and ok': "mmu_ok m' (B \<union> (U - {x})) {}" and st: "statics (ms_grob m') = statics (ms_grob m)"
    and view: "\<And>v. user_adr v \<Longrightarrow> user_view m' v = (if same_page v va then None else user_view m v)"
  shows "pages_ok m' (box(bx va \<mapsto> box_less i y)) B bx K (U - {x})"
proof -
  note D = pages_okD [OF ok]
  let ?b = "bx va" and ?box = "box(bx va \<mapsto> box_less i y)"
  have b: "?b \<in> K"
    using D(8) [OF va p] by blast
  have pa: "pg_adr (ms_grob m') = pg_adr (ms_grob m)"
    using pg_statics [OF st] by simp
  have pb: "pages_of box ?b = set (kmb_msalist y)" "distinct (kmb_msalist y)"
    using D(6) [OF b] y by (simp_all add: pages_of_def)
  then have po: "pages_of ?box c = pages_of box c - (if c = ?b then {i} else {})" for c
    by (simp add: pages_of_def box_less_def y)
  have other: "i \<notin> pages_of box c" if "c \<in> K" "c \<noteq> ?b" for c
    using D(7) [OF that(1) b that(2)] i by blast
  have away: "\<not> same_page v va \<longleftrightarrow> j \<noteq> i"
    if v: "user_adr v" "user_view m v = Some (pg_adr (ms_grob m) j)" "c \<in> K" "j \<in> pages_of box c" for v j c
    using D(10) [OF va v(1)] view_same_page [OF D(1) v(1) va] user_adr_inj [OF ok v(3,4) b i] v(2) p by auto
  have pnos: "pno ` (U - {x}) = pno ` U - {i}"
    using pno_unique [OF ok _ x(1)] x(2) by auto
  show ?thesis
    unfolding pages_ok_def
  proof (intro conjI)
    show "pno ` (U - {x}) = (\<Union>b\<in>K. pages_of ?box b)"
      unfolding pnos D(5) po using other by (auto split: if_splits)
    show "\<forall>b\<in>K. \<exists>x. ?box b = Some x \<and> distinct (kmb_msalist x) \<and> kmb_msanr x = of_nat (length (kmb_msalist x))"
      using D(6) D(6) [OF b] y i pb of_nat_remove1 [of i "kmb_msalist y"] by (auto simp: box_less_def)
    show "\<forall>v q. user_adr v \<longrightarrow> user_view m' v = Some q \<longrightarrow> bx v \<in> K \<and> q \<in> pg_adr (ms_grob m') ` pages_of ?box (bx v)"
    proof (intro allI impI)
      fix v q
      assume v: "user_adr v" "user_view m' v = Some q"
      then have n: "\<not> same_page v va" "user_view m v = Some q"
        using view [OF v(1)] by (simp_all split: if_splits)
      obtain j where j: "bx v \<in> K" "j \<in> pages_of box (bx v)" "q = pg_adr (ms_grob m) j"
        using D(8) [OF v(1) n(2)] by blast
      then have "j \<noteq> i"
        using away [OF v(1), of j "bx v"] n by blast
      then show "bx v \<in> K \<and> q \<in> pg_adr (ms_grob m') ` pages_of ?box (bx v)"
        using j po by (simp add: pa)
    qed
    show "\<forall>b\<in>K. \<forall>j\<in>pages_of ?box b. \<exists>v. user_adr v \<and> bx v = b \<and> user_view m' v = Some (pg_adr (ms_grob m') j)"
    proof (intro ballI)
      fix c j
      assume c: "c \<in> K" "j \<in> pages_of ?box c"
      then have j: "j \<in> pages_of box c" "j \<noteq> i"
        using po [of c] other [OF c(1)] by (auto split: if_splits)
      obtain v where v: "user_adr v" "bx v = c" "user_view m v = Some (pg_adr (ms_grob m) j)"
        using D(9) [OF c(1) j(1)] by blast
      then show "\<exists>v. user_adr v \<and> bx v = c \<and> user_view m' v = Some (pg_adr (ms_grob m') j)"
        using away [OF v(1,3) c(1) j(1)] view [OF v(1)] j(2) by (intro exI [of _ v]) (simp add: pa)
    qed
    show "\<forall>v w. user_adr v \<longrightarrow> user_adr w \<longrightarrow> user_view m' v \<noteq> None \<longrightarrow> user_view m' w = user_view m' v \<longrightarrow> same_page w v"
      using D(10) view by (auto split: if_splits)
    show "\<forall>b\<in>K. \<forall>c\<in>K. b \<noteq> c \<longrightarrow> pages_of ?box b \<inter> pages_of ?box c = {}"
      unfolding po using D(7) by blast
  qed (use D(2-4) ok' in \<open>auto\<close>)
qed

lemma pages_ok_unmoved:
  assumes ok: "pages_ok m box B bx K U" and ok': "mmu_ok m' (B \<union> U) {}" and st: "statics (ms_grob m') = statics (ms_grob m)"
    and view: "\<And>v. user_adr v \<Longrightarrow> user_view m' v = user_view m v"
  shows "pages_ok m' box B bx K U"
proof -
  note D = pages_okD [OF ok]
  have pa: "pg_adr (ms_grob m') = pg_adr (ms_grob m)"
    using pg_statics [OF st] by simp
  show ?thesis
    unfolding pages_ok_def
  proof (intro conjI)
    show "\<forall>b\<in>K. \<forall>i\<in>pages_of box b. \<exists>v. user_adr v \<and> bx v = b \<and> user_view m' v = Some (pg_adr (ms_grob m') i)"
      using D(9) view unfolding pa by metis
  qed (use D ok' view in \<open>simp_all add: pa\<close>)
qed

text \<open>A page given back to the page manager.\<close>

lemma vma_del_usermsa_ok:
  assumes ok: "mmu_ok (vm_mmu st) (B \<union> U) {}" and U: "B \<inter> U = {}" "\<And>z. z \<in> U \<Longrightarrow> one_page z"
    and y: "vm_box st b = Some y" "b \<noteq> 0" "set (kmb_msalist y) \<subseteq> pno ` U" and x: "x \<in> U" "pno x \<in> set (kmb_msalist y)"
  shows "\<exists>g'. (\<forall>ma \<in> {None, Some (pno x)}. vma_del_usermsa b ma (pg_adr (grob st) (pno x)) st =
      Inr (True, st\<lparr>vm_mmu := (vm_mmu st)\<lparr>ms_grob := g'\<rparr>, vm_box := (vm_box st)(b \<mapsto> box_less (pno x) y)\<rparr>)) \<and>
    mmu_ok ((vm_mmu st)\<lparr>ms_grob := g'\<rparr>) (B \<union> (U - {x})) {} \<and> user_view ((vm_mmu st)\<lparr>ms_grob := g'\<rparr>) = user_view (vm_mmu st) \<and>
    statics g' = statics (grob st) \<and> page_vacant g' = insert (pno x) (page_vacant (grob st))"
proof -
  let ?m = "vm_mmu st" and ?t = "kblk (grob st) ` tpages (ms_mmu (vm_mmu st))"
  note S = mmu_okD(2) [OF ok]
  have page: "msadsc_ret_addr (grob st) (Some j) = Inr (pg_adr (grob st) j)" "j < npages (grob st)" "pg_adr (grob st) j \<noteq> 0"
    if j: "j \<in> pno ` U" for j
  proof -
    obtain z where z: "z \<in> U" "pno z = j"
      using j by blast
    then have "z \<in> B \<union> U \<union> ?t"
      by blast
    from one_page_facts [OF S this U(2) [OF z(1)]] show "msadsc_ret_addr (grob st) (Some j) = Inr (pg_adr (grob st) j)"
      "j < npages (grob st)" "pg_adr (grob st) j \<noteq> 0"
      by (simp_all add: z(2))
  qed
  have xU: "pno x \<in> pno ` U"
    using x(1) by blast
  have find: "find_tbl (grob st) (pg_adr (grob st) (pno x)) (kmb_msalist y) = Inr (Some (pno x))"
  proof (rule find_tbl [OF _ x(2)])
    fix j assume "j \<in> set (kmb_msalist y)"
    then have j: "j \<in> pno ` U"
      using y(3) by blast
    show "msadsc_ret_addr (grob st) (Some j) = Inr (pg_adr (grob st) j)"
      by (rule page(1) [OF j])
    show "pg_adr (grob st) j = pg_adr (grob st) (pno x) \<Longrightarrow> j = pno x"
      using pg_adr_inj [OF soundD(3) [OF S] page(2) [OF j] page(2) [OF xU]] by blast
  qed
  have "x \<in> B \<union> U \<union> ?t"
    using x(1) by blast
  from user_page_del [OF S this U(2) [OF x(1)]] obtain g' where g': "onfrmsa_retn_fpagenr (grob st) (Some (pno x)) = Inr 1"
    "mm_merge_pages (grob st) (Some (pno x)) 1 = Inr (True, g')" "sound g' (B \<union> U \<union> ?t - {x})"
    "statics g' = statics (grob st)" "page_vacant g' = insert (pno x) (page_vacant (grob st))"
    by blast
  have "B \<union> U \<union> ?t - {x} = B \<union> (U - {x}) \<union> ?t"
    using U(1) x(1) mmu_okD(3) [OF ok] by blast
  then have "sound g' (B \<union> (U - {x}) \<union> ?t)"
    using g'(3) by simp
  moreover have "(B \<union> (U - {x})) \<inter> ?t = {}"
    using mmu_okD(3) [OF ok] by blast
  ultimately show ?thesis
    using mmu_ok_grob [OF ok g'(4)] find page(1,3) [OF xU] g' y(1,2) x(2)
    by (intro exI [of _ g']) (simp add: vma_del_usermsa_def getbox_def setbox_def upd_mmu_def box_less_def msadsc_ret_addr_def)
qed

text \<open>One round of the loop that takes a range of addresses away.\<close>

lemma unmap_page:
  assumes ok: "pages_ok (vm_mmu st) (vm_box st) B bx K U" and va: "user_adr va"
  obtains m where "hal_mmu_untransform (vm_mmu st) va = Inr (0, m)" "user_view (vm_mmu st) va = None"
    "pages_ok m (vm_box st) B bx K U" "\<And>v. user_adr v \<Longrightarrow> user_view m v = user_view (vm_mmu st) v"
    "more_room (vm_mmu st) m"
  | m x y g' where "hal_mmu_untransform (vm_mmu st) va = Inr (pg_adr (grob st) (pno x), m)"
    "pg_adr (grob st) (pno x) \<noteq> 0" "bx va \<noteq> 0" "x \<in> U" "vm_box st (bx va) = Some y" "pno x \<in> pages_of (vm_box st) (bx va)"
    "vma_del_usermsa (bx va) None (pg_adr (grob st) (pno x)) (upd_mmu (\<lambda>_. m) st) =
      Inr (True, st\<lparr>vm_mmu := m\<lparr>ms_grob := g'\<rparr>, vm_box := (vm_box st)(bx va \<mapsto> box_less (pno x) y)\<rparr>)"
    "pages_ok (m\<lparr>ms_grob := g'\<rparr>) ((vm_box st)(bx va \<mapsto> box_less (pno x) y)) B bx K (U - {x})"
    "\<And>v. user_adr v \<Longrightarrow> user_view (m\<lparr>ms_grob := g'\<rparr>) v = (if same_page v va then None else user_view (vm_mmu st) v)"
    "more_room (vm_mmu st) (m\<lparr>ms_grob := g'\<rparr>)"
proof -
  note D = pages_okD [OF ok]
  let ?m = "vm_mmu st" and ?box = "vm_box st"
  obtain ret m where m: "hal_mmu_untransform ?m va = Inr (ret, m)" "mapped_out (B \<union> U) va ret ?m m"
    using hal_mmu_untransform_ok [OF D(1) va] by blast
  have okm: "mmu_ok m (B \<union> U) {}" and fr: "mmu_frame ?m m" and st: "statics (ms_grob m) = statics (grob st)"
    using m(2) by (simp_all add: mapped_out_def mmu_frame_def)
  have view: "user_view m v = (if same_page v va then None else user_view ?m v)" if "user_adr v" for v
    using mapped_out_view [OF D(1) va that m(2)] by (simp add: same_page_def)
  have ret: "ret = (case user_view ?m va of None \<Rightarrow> 0 | Some p \<Rightarrow> p)"
    using view_ret [OF D(1) va] m(2) by (simp add: mapped_out_def)
  have pa: "pg_adr (ms_grob m) = pg_adr (grob st)"
    using pg_statics [OF st] by simp
  show thesis
  proof (cases "user_view ?m va")
    case None
    have v: "user_view m v = user_view ?m v" if "user_adr v" for v
      using view [OF that] view_same_page [OF D(1) that va] None by simp
    show ?thesis
      by (rule that(1) [OF _ None pages_ok_unmoved [OF ok okm st v] v frame_more_room [OF fr]])
        (use m(1) ret None in simp_all)
  next
    case (Some p)
    obtain i where b: "bx va \<in> K" and i: "i \<in> pages_of ?box (bx va)" "p = pg_adr (grob st) i"
      using D(8) [OF va Some] by blast
    obtain y where y: "?box (bx va) = Some y"
      using D(6) [OF b] by blast
    from user_page_facts [OF ok b i(1)] obtain x where x: "x \<in> U" "pno x = i" "pg_adr (grob st) i \<noteq> 0"
      by metis
    have b0: "bx va \<noteq> 0"
      using b D(3) by auto
    have ys: "pages_of ?box (bx va) = set (kmb_msalist y)"
      by (simp add: pages_of_def y)
    have sub: "set (kmb_msalist y) \<subseteq> pno ` U" and xy: "pno x \<in> set (kmb_msalist y)"
      using D(5) b i(1) x(2) ys by auto
    from vma_del_usermsa_ok [of "upd_mmu (\<lambda>_. m) st" B U "bx va" y x] okm D(2,4) y b0 sub x(1) xy obtain g' where
      g': "vma_del_usermsa (bx va) None (pg_adr (ms_grob m) (pno x)) (upd_mmu (\<lambda>_. m) st) =
        Inr (True, st\<lparr>vm_mmu := m\<lparr>ms_grob := g'\<rparr>, vm_box := ?box(bx va \<mapsto> box_less (pno x) y)\<rparr>)"
      "mmu_ok (m\<lparr>ms_grob := g'\<rparr>) (B \<union> (U - {x})) {}" "user_view (m\<lparr>ms_grob := g'\<rparr>) = user_view m"
      "statics g' = statics (ms_grob m)" "page_vacant g' = insert (pno x) (page_vacant (ms_grob m))"
      by (auto simp: upd_mmu_def)
    have p: "user_view ?m va = Some (pg_adr (grob st) (pno x))" and ix: "pno x \<in> pages_of ?box (bx va)"
      using Some i x(2) by simp_all
    have v: "user_view (m\<lparr>ms_grob := g'\<rparr>) v = (if same_page v va then None else user_view ?m v)" if "user_adr v" for v
      using g'(3) view [OF that] by simp
    have new: "pages_ok (m\<lparr>ms_grob := g'\<rparr>) (?box(bx va \<mapsto> box_less (pno x) y)) B bx K (U - {x})"
      by (rule pages_removed [OF ok va p ix x(1) refl y g'(2) _ v]) (simp add: g'(4) st)
    have "mmu_pages (m\<lparr>ms_grob := g'\<rparr>) = insert (pno x) (mmu_pages m)"
      by (auto simp: mmu_pages_def g'(5))
    then have room: "more_room ?m (m\<lparr>ms_grob := g'\<rparr>)"
      using frame_more_room [OF fr] g'(4) by (auto simp: more_room_def space_frame_def)
    show ?thesis
      by (rule that(2) [OF _ _ b0 x(1) y ix _ new v room]) (use m(1) ret Some i(2) x g'(1) pa in \<open>simp_all add: upd_mmu_def\<close>)
  qed
qed

section \<open>A range of addresses taken away\<close>

text \<open>The addresses whose page the loop from \<open>va\<close> to \<open>e\<close> visits.\<close>

definition touched :: "u64 \<Rightarrow> u64 \<Rightarrow> u64 \<Rightarrow> bool" where
  "touched va e v \<longleftrightarrow> (\<exists>w. same_page v w \<and> va \<le> w \<and> w < e \<and> (unat w - unat va) mod 0x1000 = 0)"

lemma next_page:
  assumes "va < e" "e \<le> USER_END"
  shows "unat (va + VMAP_MIN_SIZE) = unat va + 0x1000" "va \<le> va + VMAP_MIN_SIZE" "user_adr va"
proof -
  have "unat va < 2 ^ 47"
    using assms by (simp add: word_le_nat_alt word_less_nat_alt USER_END_def)
  then show "unat (va + VMAP_MIN_SIZE) = unat va + 0x1000"
    by (simp add: unat_word_ariths VMAP_MIN_SIZE_def)
  then show "va \<le> va + VMAP_MIN_SIZE"
    by (simp add: word_le_nat_alt)
  show "user_adr va"
    using \<open>unat va < 2 ^ 47\<close> by (simp add: user_adr_def word_less_nat_alt)
qed

lemma touched_step:
  assumes "va < e" "e \<le> USER_END"
  shows "touched va e v \<longleftrightarrow> same_page v va \<or> touched (va + VMAP_MIN_SIZE) e v"
proof
  note N = next_page [OF assms]
  show "touched va e v" if "same_page v va \<or> touched (va + VMAP_MIN_SIZE) e v"
    using that
  proof
    assume "touched (va + VMAP_MIN_SIZE) e v"
    then obtain w where w: "same_page v w" "va + VMAP_MIN_SIZE \<le> w" "w < e" "(unat w - (unat va + 0x1000)) mod 0x1000 = 0"
      by (auto simp: touched_def N(1))
    then have "unat va + 0x1000 \<le> unat w"
      using N(1) by (simp add: word_le_nat_alt)
    then have "unat w - unat va = unat w - (unat va + 0x1000) + 0x1000"
      by simp
    then have "(unat w - unat va) mod 0x1000 = 0"
      using w(4) by (simp only: mod_add_self2)
    then show ?thesis
      using w N(2) by (auto simp: touched_def)
  qed (use assms in \<open>auto simp: touched_def\<close>)
  assume "touched va e v"
  then obtain w where w: "same_page v w" "va \<le> w" "w < e" "(unat w - unat va) mod 0x1000 = 0"
    by (auto simp: touched_def)
  show "same_page v va \<or> touched (va + VMAP_MIN_SIZE) e v"
  proof (cases "unat w = unat va")
    case False
    then have "unat va < unat w"
      using w(2) by (simp add: word_le_nat_alt)
    then have "0x1000 \<le> unat w - unat va"
      using w(4) by (intro dvd_imp_le) (auto simp: mod_eq_0_iff_dvd)
    then have "va + VMAP_MIN_SIZE \<le> w" "unat w - unat (va + VMAP_MIN_SIZE) = unat w - unat va - 0x1000"
      by (simp_all add: word_le_nat_alt N(1))
    moreover have "(unat w - unat va - 0x1000) mod 0x1000 = 0"
      using w(4) \<open>0x1000 \<le> unat w - unat va\<close> by (simp add: mod_if)
    ultimately show ?thesis
      using w by (auto simp: touched_def)
  next
    case True
    then have "w = va"
      by (simp add: word_unat_eq_iff)
    then show ?thesis
      using w(1) by simp
  qed
qed

lemma same_page_iff: "same_page v w \<longleftrightarrow> unat v div 0x1000 = unat w div 0x1000"
proof -
  have "unat (drop_bit 12 u) = unat u div 0x1000" for u :: u64
    by (simp add: drop_bit_eq_div unat_div_distrib)
  then show ?thesis
    by (simp add: same_page_def word_unat_eq_iff)
qed

lemma touched_range:
  assumes "page_aligned va" "page_aligned e"
  shows "touched va e v \<longleftrightarrow> va \<le> v \<and> v < e"
proof
  obtain a b where a: "unat va = 0x1000 * a" "unat e = 0x1000 * b"
    using assms by (auto simp: page_aligned_def mod_eq_0_iff_dvd elim!: dvdE)
  show "touched va e v" if v: "va \<le> v \<and> v < e"
  proof -
    define w where "w = and v (not (0xfff :: u64))"
    have w: "unat w = unat v - unat v mod 0x1000"
      unfolding w_def by (rule unat_page_floor)
    then have d: "unat w = 0x1000 * (unat v div 0x1000)"
      by (simp add: minus_mod_eq_mult_div)
    have "0x1000 * a \<le> unat v" "unat v < 0x1000 * b"
      using v a by (simp_all add: word_le_nat_alt word_less_nat_alt)
    then have "a \<le> unat v div 0x1000" "unat v div 0x1000 < b"
      by (simp_all add: less_eq_div_iff_mult_less_eq div_less_iff_less_mult mult.commute)
    then have "va \<le> w" "w < e" "(unat w - unat va) mod 0x1000 = 0"
      by (simp_all add: word_le_nat_alt word_less_nat_alt d a diff_mult_distrib2 [symmetric])
    moreover have "same_page v w"
      by (simp add: same_page_iff d)
    ultimately show ?thesis
      by (auto simp: touched_def)
  qed
  assume "touched va e v"
  then obtain w where "same_page v w" "va \<le> w" "w < e"
    by (auto simp: touched_def)
  then have w: "unat v div 0x1000 = unat w div 0x1000" "unat va \<le> unat w" "unat w < unat e"
    by (simp_all add: same_page_iff word_le_nat_alt word_less_nat_alt)
  define d where "d = unat w div 0x1000"
  obtain r where r: "unat w = 0x1000 * d + r" "r < 0x1000"
    using that [of "unat w mod 0x1000"] by (simp add: d_def)
  obtain s where s: "unat v = 0x1000 * d + s" "s < 0x1000"
  proof (rule that [of "unat v mod 0x1000"])
    show "unat v = 0x1000 * d + unat v mod 0x1000"
      unfolding d_def w(1) [symmetric] by simp
  qed simp
  have "a < d + 1"
    using w(2) r unfolding a by simp
  moreover have "d < b"
    using w(3) r unfolding a by simp
  ultimately have "0x1000 * a \<le> unat v" "unat v < 0x1000 * b"
    using s by simp_all
  then show "va \<le> v \<and> v < e"
    by (simp add: word_le_nat_alt word_less_nat_alt a)
qed

lemma touched_none: "e \<le> va \<Longrightarrow> \<not> touched va e v"
  by (auto simp: touched_def)

text \<open>What the loop leaves.\<close>

definition unmapped :: "blocks \<Rightarrow> (u64 \<Rightarrow> u64) \<Rightarrow> u64 set \<Rightarrow> (u64 \<Rightarrow> bool) \<Rightarrow> u64 \<Rightarrow> vmst \<Rightarrow> vmst \<Rightarrow> blocks \<Rightarrow> bool" where
  "unmapped B bx K gone kmbox st st' U' \<longleftrightarrow> pages_ok (vm_mmu st') (vm_box st') B bx K U' \<and>
     vm_vs st' = vm_vs st \<and> vm_kvs st' = vm_kvs st \<and> more_room (vm_mmu st) (vm_mmu st') \<and>
     (\<forall>v. user_adr v \<longrightarrow> user_view (vm_mmu st') v = (if gone v then None else user_view (vm_mmu st) v)) \<and>
     (\<forall>c. c \<noteq> kmbox \<longrightarrow> vm_box st' c = vm_box st c) \<and>
     map_option kmb_cont (vm_box st' kmbox) = map_option kmb_cont (vm_box st kmbox)"

lemma unmap_loop_ok:
  assumes "pages_ok (vm_mmu st) (vm_box st) B bx K U" "e \<le> USER_END" "unat e \<le> unat va + n * 0x1000"
    "\<And>v. va \<le> v \<Longrightarrow> v < e \<Longrightarrow> bx v = kmbox"
  shows "\<exists>ok st' U'. unmap_loop n kmbox va e rets st = Inr (ok, st') \<and> U' \<subseteq> U \<and> unmapped B bx K (touched va e) kmbox st st' U'"
  using assms
proof (induction n arbitrary: va rets st U)
  case 0
  then have "\<not> va < e"
    by (simp add: word_less_nat_alt)
  moreover have "unmapped B bx K (touched va e) kmbox st st U"
    using 0 touched_none [of e va] \<open>\<not> va < e\<close> by (simp add: unmapped_def)
  ultimately show ?case
    by auto
next
  case (Suc n)
  show ?case
  proof (cases "va < e")
    case False
    then have "unmapped B bx K (touched va e) kmbox st st U"
      using Suc.prems(1) touched_none [of e va] by (simp add: unmapped_def)
    then show ?thesis
      using False by auto
  next
    case True
    note N = next_page [OF True Suc.prems(2)] and T = touched_step [OF True Suc.prems(2)]
    have bxv: "bx va = kmbox"
      using Suc.prems(4) True by simp
    have more: "unat e \<le> unat (va + VMAP_MIN_SIZE) + n * 0x1000"
      using Suc.prems(3) unfolding N(1) by simp
    have rest: "bx v = kmbox" if "va + VMAP_MIN_SIZE \<le> v" "v < e" for v
      using Suc.prems(4) N(2) that by (meson order_trans)
    from Suc.prems(1) N(3) show ?thesis
    proof (cases rule: unmap_page)
      case (1 m)
      have "pages_ok (vm_mmu (upd_mmu (\<lambda>_. m) st)) (vm_box (upd_mmu (\<lambda>_. m) st)) B bx K U"
        using 1 by (simp add: upd_mmu_def)
      from Suc.IH [OF this Suc.prems(2) more rest] obtain ok st' U' where i:
        "unmap_loop n kmbox (va + VMAP_MIN_SIZE) e rets (upd_mmu (\<lambda>_. m) st) = Inr (ok, st')" "U' \<subseteq> U"
        "unmapped B bx K (touched (va + VMAP_MIN_SIZE) e) kmbox (upd_mmu (\<lambda>_. m) st) st' U'"
        by blast
      have nv: "user_view (vm_mmu st) v = None" if "user_adr v" "same_page v va" for v
        using view_same_page [OF pages_okD(1) [OF Suc.prems(1)] that(1) N(3) that(2)] 1(2) by simp
      have "unmapped B bx K (touched va e) kmbox st st' U'"
        using i(3) 1(4) nv more_room_trans [OF 1(5)] by (simp add: unmapped_def upd_mmu_def T)
      then show ?thesis
        using True 1(1) i(1,2) by auto
    next
      case (2 m x y g')
      define st2 where "st2 = st\<lparr>vm_mmu := m\<lparr>ms_grob := g'\<rparr>, vm_box := (vm_box st)(bx va \<mapsto> box_less (pno x) y)\<rparr>"
      have "pages_ok (vm_mmu st2) (vm_box st2) B bx K (U - {x})"
        using 2 by (simp add: st2_def)
      from Suc.IH [OF this Suc.prems(2) more rest, of rets] obtain ok st' U' where i:
        "unmap_loop n kmbox (va + VMAP_MIN_SIZE) e rets st2 = Inr (ok, st')" "U' \<subseteq> U - {x}"
        "unmapped B bx K (touched (va + VMAP_MIN_SIZE) e) kmbox st2 st' U'"
        by blast
      have "unmapped B bx K (touched va e) kmbox st st' U'"
        using i(3) 2(9) more_room_trans [OF 2(10)] 2(5)
        by (simp add: unmapped_def st2_def T box_less_def bxv)
      moreover have "unmap_loop (Suc n) kmbox va e rets st = Inr (ok, st')"
        using True 2(1-3,7) i(1) bxv by (simp add: st2_def)
      ultimately show ?thesis
        using i(2) by blast
    qed
  qed
qed

lemma vma_del_unmapping_ok:
  assumes ok: "pages_ok (vm_mmu st) (vm_box st) B bx K U" and k: "getk st p = Inr k" "p \<noteq> 0"
    and e: "start + n \<le> USER_END" and b: "\<And>v. start \<le> v \<Longrightarrow> v < start + n \<Longrightarrow> bx v = kva_kvmbox k"
  shows "\<exists>ok st' U'. vma_del_unmapping st p start n = Inr (ok, st') \<and> U' \<subseteq> U \<and>
     unmapped B bx K (touched start (start + n)) (kva_kvmbox k) st st' U'"
proof -
  let ?e = "start + n"
  have "unat ?e \<le> unat start + (unat (?e - start) div 0x1000 + 1) * 0x1000"
  proof (cases "start \<le> ?e")
    case True
    note d = unat_sub [OF True]
    have "unat ?e - unat start < ((unat ?e - unat start) div 0x1000 + 1) * 0x1000"
      using div_mult_mod_eq [of "unat ?e - unat start" "0x1000"] mod_less_divisor [of "0x1000" "unat ?e - unat start"]
      by (simp add: algebra_simps)
    then show ?thesis
      unfolding d using True by (simp add: word_le_nat_alt)
  qed (simp add: word_le_nat_alt)
  from unmap_loop_ok [OF ok e this, of "kva_kvmbox k" True] b k show ?thesis
    by (simp add: vma_del_unmapping_def vma_del_unmapping_phyadrs_def)
qed

section \<open>A page for an address\<close>

text \<open>Nothing but tables and pages nobody has is written.\<close>

definition mem_kept :: "mmust \<Rightarrow> mmust \<Rightarrow> bool" where
  "mem_kept m m' \<longleftrightarrow> space_frame m m' \<and> mmu_pages m' \<subseteq> mmu_pages m \<and>
     (\<forall>a. a \<notin> pg_vadr (ms_grob m) ` mmu_pages m \<longrightarrow> ms_mem m' a = ms_mem m a)"

lemma mem_kept_refl [simp]: "mem_kept m m"
  by (simp add: mem_kept_def space_frame_def)

lemma mem_kept_trans: "mem_kept m1 m2 \<Longrightarrow> mem_kept m2 m3 \<Longrightarrow> mem_kept m1 m3"
  using pg_statics [of "ms_grob m2" "ms_grob m1"] by (auto simp: mem_kept_def space_frame_def image_iff subset_iff)

lemma frame_mem_kept: "mmu_frame m m' \<Longrightarrow> mem_kept m m'"
  by (simp add: mmu_frame_def mem_kept_def space_frame_def)

lemma mem_kept_grob:
  assumes "statics g = statics (ms_grob m)" "page_vacant g \<subseteq> mmu_pages m"
  shows "mem_kept m (m\<lparr>ms_grob := g\<rparr>)"
  using assms by (simp add: mem_kept_def space_frame_def mmu_pages_def)

lemma pages_added:
  assumes ok: "pages_ok m box B bx K U" and va: "user_adr va" and n: "user_view m va = None"
    and x: "one_page x" "x \<notin> B" "\<And>z. z \<in> U \<Longrightarrow> pno z \<noteq> pno x" "pno x < npages (ms_grob m)" and b: "bx va \<in> K" and y: "box (bx va) = Some y"
    and ok': "mmu_ok m' (B \<union> insert x U) {}" and st: "statics (ms_grob m') = statics (ms_grob m)"
    and view: "\<And>v. user_adr v \<Longrightarrow> user_view m' v = (if same_page v va then Some (pg_adr (ms_grob m) (pno x)) else user_view m v)"
    and bx: "\<And>v. user_adr v \<Longrightarrow> same_page v va \<Longrightarrow> bx v = bx va"
  shows "pages_ok m' (box(bx va \<mapsto> y\<lparr>kmb_msalist := pno x # kmb_msalist y, kmb_msanr := kmb_msanr y + 1\<rparr>)) B bx K (insert x U)"
proof -
  note D = pages_okD [OF ok]
  let ?b = "bx va" and ?box = "box(bx va \<mapsto> y\<lparr>kmb_msalist := pno x # kmb_msalist y, kmb_msanr := kmb_msanr y + 1\<rparr>)" and ?i = "pno x"
  have pa: "pg_adr (ms_grob m') = pg_adr (ms_grob m)"
    using pg_statics [OF st] by simp
  have po: "pages_of ?box c = (if c = ?b then insert ?i (pages_of box c) else pages_of box c)" for c
    by (simp add: pages_of_def y)
  have out: "?i \<notin> pages_of box c" if "c \<in> K" for c
  proof
    assume "?i \<in> pages_of box c"
    then have "?i \<in> pno ` U"
      using D(5) that by blast
    then obtain z where z: "pno x = pno z" "z \<in> U"
      by (elim imageE)
    then show False
      using x(3) [OF z(2)] by simp
  qed
  have own: "same_page va va"
    by (simp add: same_page_def)
  have away: "q \<noteq> pg_adr (ms_grob m) ?i" if v: "user_adr v" "user_view m v = Some q" for v q
  proof
    assume q: "q = pg_adr (ms_grob m) ?i"
    obtain j where j: "bx v \<in> K" "j \<in> pages_of box (bx v)" "q = pg_adr (ms_grob m) j"
      using D(8) [OF v] by blast
    obtain z where "j < npages (ms_grob m)"
      by (rule user_page_facts [OF ok j(1,2)])
    then have "j = ?i"
      using pg_adr_inj [OF soundD(3) [OF mmu_okD(2) [OF D(1)]] _ x(4)] j(3) q by simp
    then show False
      using out [OF j(1)] j(2) by simp
  qed
  have none: "user_view m v = None" if "user_adr v" "same_page v va" for v
    using view_same_page [OF D(1) that(1) va that(2)] n by simp
  show ?thesis
    unfolding pages_ok_def
  proof (intro conjI)
    show "pno ` insert x U = (\<Union>b\<in>K. pages_of ?box b)"
      using D(5) b unfolding po by auto
    show "\<forall>b\<in>K. \<exists>x. ?box b = Some x \<and> distinct (kmb_msalist x) \<and> kmb_msanr x = of_nat (length (kmb_msalist x))"
      using D(6) D(6) [OF b] y out [OF b] by (auto simp: pages_of_def)
    show "\<forall>b\<in>K. \<forall>c\<in>K. b \<noteq> c \<longrightarrow> pages_of ?box b \<inter> pages_of ?box c = {}"
      unfolding po using D(7) out by auto
    show "\<forall>v q. user_adr v \<longrightarrow> user_view m' v = Some q \<longrightarrow> bx v \<in> K \<and> q \<in> pg_adr (ms_grob m') ` pages_of ?box (bx v)"
    proof (intro allI impI)
      fix v q assume v: "user_adr v" "user_view m' v = Some q"
      show "bx v \<in> K \<and> q \<in> pg_adr (ms_grob m') ` pages_of ?box (bx v)"
      proof (cases "same_page v va")
        case True
        then show ?thesis
          using view [OF v(1)] v bx b by (simp add: pa po)
      next
        case False
        then have "user_view m v = Some q"
          using view [OF v(1)] v(2) by simp
        then show ?thesis
          using D(8) [OF v(1)] unfolding pa po by auto
      qed
    qed
    show "\<forall>b\<in>K. \<forall>j\<in>pages_of ?box b. \<exists>v. user_adr v \<and> bx v = b \<and> user_view m' v = Some (pg_adr (ms_grob m') j)"
    proof (intro ballI)
      fix c j assume c: "c \<in> K" "j \<in> pages_of ?box c"
      show "\<exists>v. user_adr v \<and> bx v = c \<and> user_view m' v = Some (pg_adr (ms_grob m') j)"
      proof (cases "c = ?b \<and> j = ?i")
        case True
        then show ?thesis
          using va view [OF va] own by (intro exI [of _ va]) (simp add: pa)
      next
        case False
        then have "j \<in> pages_of box c"
          using c(2) po by (auto split: if_splits)
        from D(9) [OF c(1) this] obtain v where v: "user_adr v" "bx v = c" "user_view m v = Some (pg_adr (ms_grob m) j)"
          by blast
        then have "\<not> same_page v va"
          using none [of v] by auto
        then show ?thesis
          using v view [OF v(1)] by (intro exI [of _ v]) (simp add: pa)
      qed
    qed
    show "\<forall>v w. user_adr v \<longrightarrow> user_adr w \<longrightarrow> user_view m' v \<noteq> None \<longrightarrow> user_view m' w = user_view m' v \<longrightarrow> same_page w v"
    proof (intro allI impI)
      fix v w assume v: "user_adr v" "user_adr w" "user_view m' v \<noteq> None" "user_view m' w = user_view m' v"
      show "same_page w v"
      proof (cases "same_page v va \<or> same_page w va")
        case True
        then have "same_page v va \<and> same_page w va"
          using v view [OF v(1)] view [OF v(2)] away [OF v(1)] away [OF v(2)] by (auto split: if_splits)
        then show ?thesis
          by (simp add: same_page_def)
      next
        case False
        then show ?thesis
          using v view [OF v(1)] view [OF v(2)] D(10) [OF v(1,2)] by simp
      qed
    qed
    show "B \<inter> insert x U = {}"
      using D(2) x(2) by blast
  qed (use D(3,4) ok' x(1) in \<open>auto\<close>)
qed

text \<open>Pages enough for an address: one for the user and three for tables.\<close>

definition room_left :: "mmust \<Rightarrow> bool" where
  "room_left m \<longleftrightarrow> 4 \<le> card (kernel_free m) \<or> 3 \<le> card (kernel_free m) \<and> \<not> proc_empty (ms_grob m)"

text \<open>A page is found for the address and its translation entered, or everything is as before.\<close>

lemma vma_map_msa_fault_ok:
  assumes ok: "pages_ok (vm_mmu st) (vm_box st) B bx K U" and va: "user_adr va" "0x1000 \<le> va" "user_view (vm_mmu st) va = None"
    and b: "bx va \<in> K" "\<And>v. user_adr v \<Longrightarrow> same_page v va \<Longrightarrow> bx v = bx va" and y: "vm_box st (bx va) = Some y"
  obtains (no) m where "vma_map_msa_fault (bx va) va 7 st = Inr (0, st\<lparr>vm_mmu := m\<rparr>)" "pages_ok m (vm_box st) B bx K U"
    "\<And>v. user_adr v \<Longrightarrow> user_view m v = user_view (vm_mmu st) v" "mem_kept (vm_mmu st) m" "\<not> room_left (vm_mmu st)"
  | (yes) x m box where "vma_map_msa_fault (bx va) va 7 st = Inr (pg_adr (grob st) (pno x), st\<lparr>vm_mmu := m, vm_box := box\<rparr>)"
    "pg_adr (grob st) (pno x) \<noteq> 0" "pages_ok m box B bx K (insert x U)" "pno x \<in> page_vacant (grob st)"
    "\<And>v. user_adr v \<Longrightarrow> user_view m v = (if same_page v va then Some (pg_adr (grob st) (pno x)) else user_view (vm_mmu st) v)"
    "mem_kept (vm_mmu st) m" "map_option kmb_cont \<circ> box = map_option kmb_cont \<circ> vm_box st"
proof -
  note D = pages_okD [OF ok]
  let ?m = "vm_mmu st" and ?t = "kblk (grob st) ` tpages (ms_mmu (vm_mmu st))" and ?b = "bx va"
  note S = mmu_okD(2) [OF D(1)]
  have b0: "?b \<noteq> 0" and va0: "va \<noteq> 0"
    using b D(3) va(2) by auto
  obtain a0 where a0: "find_area (grob st) MA_TYPE_KRNL = Some a0"
    using mmu_okD(1) [OF D(1)] by blast
  from S a0 show thesis
  proof (cases rule: user_page_new)
    case 1
    then have "vma_map_msa_fault ?b va 7 st = Inr (0, st\<lparr>vm_mmu := ?m\<rparr>)"
      using b0 va0 by (simp add: vma_map_msa_fault_def vma_new_usermsa_def upd_mmu_def)
    moreover have "\<not> room_left ?m"
      using 1(2) a0 by (simp add: room_left_def kernel_free_def)
    ultimately show ?thesis
      using no ok mem_kept_refl by blast
  next
    case (2 x g')
    note st = 2(5)
    define m1 where "m1 = ?m\<lparr>ms_grob := g'\<rparr>"
    define y1 where "y1 = y\<lparr>kmb_msalist := pno x # kmb_msalist y, kmb_msanr := kmb_msanr y + 1\<rparr>"
    let ?box1 = "(vm_box st)(?b \<mapsto> y1)"
    have s1: "sound g' (B \<union> insert x U \<union> ?t)"
      using 2(4) by (simp add: Un_insert_right)
    have "x \<notin> ?t"
      using 2(3) by blast
    then have dj: "(B \<union> insert x U) \<inter> ?t = {}"
      using mmu_okD(3) [OF D(1)] by blast
    note M = mmu_ok_grob [OF D(1) st s1 dj, folded m1_def]
    have "x \<in> B \<union> insert x U \<union> ?t"
      by blast
    note F = one_page_facts [OF s1 this 2(2)]
    have pa: "pg_adr g' = pg_adr (grob st)"
      using pg_statics [OF st] by simp
    have k1: "mem_kept ?m m1"
      unfolding m1_def by (rule mem_kept_grob [OF st]) (auto simp: 2(7) mmu_pages_def)
    have get: "vma_new_usermsa ?b st = Inr (Some (pno x), st\<lparr>vm_mmu := m1, vm_box := ?box1\<rparr>)"
      using b0 2(1) y by (simp add: vma_new_usermsa_def upd_mmu_def getbox_def setbox_def m1_def y1_def)
    have f7: "entry_flags 7"
      by (simp add: entry_flags_def)
    from hal_mmu_transform_ok [OF M(1) va(1) F(2) f7] obtain ok' m2 where
      t: "hal_mmu_transform m1 va (pg_adr g' (pno x)) 7 = Inr (ok', m2)" "mapped_in (B \<union> insert x U) va (pg_adr g' (pno x)) 7 ok' m1 m2"
      "\<not> ok' \<longrightarrow> card (kernel_free m1) < 3"
      by blast
    have ok2: "mmu_ok m2 (B \<union> insert x U) {}" and fr: "mmu_frame m1 m2"
      using t(2) by (simp_all add: mapped_in_def)
    then have st2: "statics (ms_grob m2) = statics (grob st)"
      by (simp add: mmu_frame_def m1_def st)
    have view: "user_view m2 v = (if ok' \<and> same_page v va then Some (pg_adr (grob st) (pno x)) else user_view ?m v)" if "user_adr v" for v
      using mapped_in_view [OF M(1) va(1) that F(2) f7 t(2)] M(2) by (simp add: same_page_def pa)
    have k2: "mem_kept ?m m2"
      by (rule mem_kept_trans [OF k1 frame_mem_kept [OF fr]])
    have sw: "st\<lparr>vm_box := c, vm_mmu := m\<rparr> = st\<lparr>vm_mmu := m, vm_box := c\<rparr>" for m c
      by simp
    have run: "vma_map_msa_fault ?b va 7 st =
        (if ok' then Inr (pg_adr (grob st) (pno x), st\<lparr>vm_mmu := m2, vm_box := ?box1\<rparr>)
         else andthen (vma_del_usermsa ?b (Some (pno x)) (pg_adr (grob st) (pno x)) (st\<lparr>vm_mmu := m2, vm_box := ?box1\<rparr>)) (\<lambda>(ok, st). Inr (0, st)))"
      using b0 va0 get t(1) F(3) by (simp add: vma_map_msa_fault_def upd_mmu_def m1_def pa sw)
    show ?thesis
    proof (cases ok')
      case True
      have "pno z \<noteq> pno x" if "z \<in> U" for z
        using 2(8) that by blast
      moreover have "x \<notin> B"
        using 2(3) by blast
      moreover have "pno x < npages (grob st)"
        using F(1) st staticsD(1) [of g' "grob st"] by simp
      ultimately have "pages_ok m2 ?box1 B bx K (insert x U)"
        unfolding y1_def using view True
        by (intro pages_added [OF ok va(1,3) 2(2) _ _ _ b(1) y ok2 st2 _ b(2)]) simp_all
      moreover have "map_option kmb_cont \<circ> ?box1 = map_option kmb_cont \<circ> vm_box st"
        using y by (auto simp: fun_eq_iff y1_def)
      ultimately show ?thesis
        using yes [of x ?box1 m2] run True F(5) 2(6) view k2 by (simp add: pa)
    next
      case False
      have U1: "B \<inter> insert x U = {}" "\<And>z. z \<in> insert x U \<Longrightarrow> one_page z"
        using D(2,4) 2(2,3) by blast+
      have y1': "set (kmb_msalist y1) \<subseteq> pno ` insert x U" "pno x \<in> set (kmb_msalist y1)"
        using D(5) b(1) y by (auto simp: y1_def pages_of_def)
      have less: "box_less (pno x) y1 = y"
        by (simp add: box_less_def y1_def)
      have U2: "insert x U - {x} = U"
        using 2(8) by blast
      let ?st2 = "st\<lparr>vm_mmu := m2, vm_box := ?box1\<rparr>"
      have pa2: "pg_adr (ms_grob m2) = pg_adr (grob st)"
        using pg_statics [OF st2] by simp
      from vma_del_usermsa_ok [of ?st2 B "insert x U" ?b y1 x] ok2 U1 y1' b0 less U2 y obtain g'' where
        d: "vma_del_usermsa ?b (Some (pno x)) (pg_adr (grob st) (pno x)) ?st2 = Inr (True, st\<lparr>vm_mmu := m2\<lparr>ms_grob := g''\<rparr>\<rparr>)"
        "mmu_ok (m2\<lparr>ms_grob := g''\<rparr>) (B \<union> U) {}" "user_view (m2\<lparr>ms_grob := g''\<rparr>) = user_view m2"
        "statics g'' = statics (ms_grob m2)" "page_vacant g'' = insert (pno x) (page_vacant (ms_grob m2))"
        by (auto simp: pa2 fun_upd_idem)
      define m3 where "m3 = m2\<lparr>ms_grob := g''\<rparr>"
      have v3: "user_view m3 v = user_view ?m v" if "user_adr v" for v
        using view [OF that] False by (simp add: m3_def d(3))
      have "pages_ok m3 (vm_box st) B bx K U"
        by (rule pages_ok_unmoved [OF ok]) (use d(2,4) st2 v3 in \<open>simp_all add: m3_def\<close>)
      moreover have "mem_kept ?m m3"
        using k2 d(4,5) 2(6) by (auto simp: mem_kept_def space_frame_def m3_def mmu_pages_def)
      moreover have "vma_map_msa_fault ?b va 7 st = Inr (0, st\<lparr>vm_mmu := m3\<rparr>)"
        using run False d(1) by (simp add: m3_def)
      moreover have "\<not> room_left ?m"
      proof -
        have "kernel_free m1 = free_pages g' a0" "kernel_free ?m = free_pages (grob st) a0"
          using a0 find_area_statics [OF st] by (simp_all add: kernel_free_def m1_def)
        moreover have "card (kernel_free ?m) \<le> Suc (card (kernel_free ?m - {pno x}))"
          by (rule card_less_one [OF finite_kernel_free [OF D(1)]])
        ultimately show ?thesis
          using 2(9) t(3) False by (auto simp: room_left_def)
      qed
      ultimately show ?thesis
        using no v3 by blast
    qed
  qed
qed

end
