(* ===== verification/VmaInv.thy ===== *)
theory VmaInv
  imports VmaPages
begin

text \<open>
  The invariant \<open>vma_ok\<close> of an address space: regions in order, every box in use counted by as many regions as name it,
  the pages of \<open>pages_ok\<close>. A new region keeps it; what is left of a region when a range is cut out of it; how a box is given
  up; how the operations find a region.
\<close>

section \<open>An address space and its boxes in order\<close>

text \<open>The address of the page of an address.\<close>

definition page_base :: "u64 \<Rightarrow> u64" where
  "page_base a = and a (not 0xfff)"

definition box_at :: "kmvds \<Rightarrow> u64 \<Rightarrow> u64" where
  "box_at l a = (case find (\<lambda>x. holds_adr (page_base a) (snd x)) l of None \<Rightarrow> 0 | Some x \<Rightarrow> kva_kvmbox (snd x))"

lemma page_base_div: "unat (page_base a) = 0x1000 * (unat a div 0x1000)"
  unfolding page_base_def unat_page_floor by (simp add: minus_mod_eq_mult_div)

lemma page_base_eq: "page_base a = page_base b \<longleftrightarrow> same_page a b"
  by (simp add: word_unat_eq_iff page_base_div same_page_iff)

lemma page_base_le: "page_base a \<le> a"
  by (simp only: word_le_nat_alt page_base_def unat_page_floor diff_le_self)

lemma page_base_ge:
  assumes "page_aligned s"
  shows "s \<le> page_base a \<longleftrightarrow> s \<le> a"
proof -
  obtain c where c: "unat s = 0x1000 * c"
    using assms by (auto simp: page_aligned_def mod_eq_0_iff_dvd elim!: dvdE)
  have "0x1000 * c \<le> unat a \<longleftrightarrow> c \<le> unat a div 0x1000"
    by (simp add: less_eq_div_iff_mult_less_eq mult.commute)
  then show ?thesis
    by (simp add: word_le_nat_alt page_base_div c)
qed

lemma holds_page: "region_ok k \<Longrightarrow> holds_adr a k \<Longrightarrow> holds_adr (page_base a) k"
  using page_base_ge [of "kva_start k" a] page_base_le [of a] by (auto simp: holds_adr_def region_ok_def)

definition boxes_of :: "kmvds \<Rightarrow> u64 set" where
  "boxes_of l = kva_kvmbox ` snd ` set l - {0}"

definition box_uses :: "kmvds \<Rightarrow> u64 \<Rightarrow> nat" where
  "box_uses l b = length (filter (\<lambda>x. kva_kvmbox (snd x) = b) l)"

lemma boxes_of_simps [simp]:
  "boxes_of [] = {}" "boxes_of (x # l) = ({kva_kvmbox (snd x)} - {0}) \<union> boxes_of l" "boxes_of (l @ l') = boxes_of l \<union> boxes_of l'"
  unfolding boxes_of_def by (simp_all add: image_Un Un_Diff insert_Diff_if)

lemma box_uses_simps [simp]:
  "box_uses [] b = 0" "box_uses (x # l) b = (if kva_kvmbox (snd x) = b then 1 else 0) + box_uses l b"
  "box_uses (l @ l') b = box_uses l b + box_uses l' b"
  by (simp_all add: box_uses_def)

definition boxes_ok :: "vmst \<Rightarrow> bool" where
  "boxes_ok st \<longleftrightarrow> (let g = boxmgr st; l = regions st in
     distinct (kbm_kmbhead g @ kbm_cachehead g) \<and> 0 \<notin> set (kbm_kmbhead g @ kbm_cachehead g) \<and>
     set (kbm_kmbhead g @ kbm_cachehead g) \<subseteq> dom (vm_box st) \<and> boxes_of l \<subseteq> set (kbm_kmbhead g) \<and>
     kbm_cachenr g = of_nat (length (kbm_cachehead g)) \<and> length (kbm_cachehead g) \<le> unat (kbm_cachemax g) \<and>
     length l < 2 ^ 31 \<and> (\<forall>b \<in> boxes_of l. \<exists>x. vm_box st b = Some x \<and> kmb_cont x = of_nat (box_uses l b)))"

lemma boxes_okD:
  assumes "boxes_ok st"
  shows "distinct (kbm_kmbhead (boxmgr st) @ kbm_cachehead (boxmgr st))"
    "0 \<notin> set (kbm_kmbhead (boxmgr st) @ kbm_cachehead (boxmgr st))"
    "set (kbm_kmbhead (boxmgr st) @ kbm_cachehead (boxmgr st)) \<subseteq> dom (vm_box st)"
    "boxes_of (regions st) \<subseteq> set (kbm_kmbhead (boxmgr st))"
    "kbm_cachenr (boxmgr st) = of_nat (length (kbm_cachehead (boxmgr st)))"
    "length (kbm_cachehead (boxmgr st)) \<le> unat (kbm_cachemax (boxmgr st))" "length (regions st) < 2 ^ 31"
    "b \<in> boxes_of (regions st) \<Longrightarrow> \<exists>x. vm_box st b = Some x \<and> kmb_cont x = of_nat (box_uses (regions st) b)"
  using assms unfolding boxes_ok_def Let_def by blast+

definition vma_ok :: "vmst \<Rightarrow> blocks \<Rightarrow> blocks \<Rightarrow> bool" where
  "vma_ok st B U \<longleftrightarrow> regs_ok (vm_vs st) \<and> boxes_ok st \<and> ms_cr3 (vm_mmu st) = phys_root (vm_mmu st) \<and>
     pages_ok (vm_mmu st) (vm_box st) B (box_at (regions st)) (boxes_of (regions st)) U"

text \<open>
  What \<open>kmsob_new\<close> promises: NULL, or the address of an object nobody has. A descriptor takes more than eight bytes of the
  16 GB that are mapped for the kernel, so there are fewer than \<open>2 ^ 31\<close> of them.
\<close>

definition obj_ok :: "vmst \<Rightarrow> u64 \<Rightarrow> bool" where
  "obj_ok st p \<longleftrightarrow> p = 0 \<or> p \<notin> fst ` set (regions st) \<and> p \<notin> dom (vm_box st) \<and> length (regions st) < 2 ^ 31 - 1"

lemma region_unique:
  assumes "sorted_wrt before l" "\<forall>x \<in> set l. region_ok (snd x)" "x \<in> set l" "y \<in> set l" "holds_adr a (snd x)" "holds_adr a (snd y)"
  shows "x = y"
  using assms
proof (induction l)
  case (Cons z l)
  have ord: False if "w \<in> set l" "holds_adr a (snd w)" "holds_adr a (snd z)" for w
  proof -
    have "kva_end (snd z) \<le> kva_start (snd w)"
      using Cons.prems(1) that(1) by (simp add: before_def)
    then show ?thesis
      using that(2,3) by (auto simp: holds_adr_def)
  qed
  show ?case
  proof (cases "x = z \<or> y = z")
    case True
    then show ?thesis
      using ord [of x] ord [of y] Cons.prems(3-6) by (metis set_ConsD)
  next
    case False
    then show ?thesis
      using Cons.IH Cons.prems by simp
  qed
qed simp

lemma box_at_page:
  assumes r: "regs_ok v" and x: "x \<in> set (vs_list v)" "holds_adr (page_base a) (snd x)"
  shows "box_at (vs_list v) a = kva_kvmbox (snd x)"
proof -
  let ?P = "\<lambda>x. holds_adr (page_base a) (snd x)"
  have "find ?P (vs_list v) \<noteq> None"
    using x unfolding find_None_iff by blast
  then obtain y where y: "find ?P (vs_list v) = Some y"
    by blast
  then have "y \<in> set (vs_list v)" "?P y"
    by (auto simp: find_Some_iff)
  then have "y = x"
    using region_unique [OF regs_okD(4) [OF r], of y x "page_base a"] regs_okD(3) [OF r] x by blast
  then show ?thesis
    by (simp add: box_at_def y)
qed

lemma box_at_region: "regs_ok v \<Longrightarrow> x \<in> set (vs_list v) \<Longrightarrow> holds_adr a (snd x) \<Longrightarrow> box_at (vs_list v) a = kva_kvmbox (snd x)"
  using box_at_page holds_page regs_okD(3) by blast

lemma box_at_none: "(\<And>x. x \<in> set l \<Longrightarrow> \<not> holds_adr (page_base a) (snd x)) \<Longrightarrow> box_at l a = 0"
proof -
  assume "\<And>x. x \<in> set l \<Longrightarrow> \<not> holds_adr (page_base a) (snd x)"
  then have "find (\<lambda>x. holds_adr (page_base a) (snd x)) l = None"
    unfolding find_None_iff by blast
  then show ?thesis
    by (simp add: box_at_def)
qed

lemma box_at_some: "box_at l a \<noteq> 0 \<Longrightarrow> \<exists>x \<in> set l. holds_adr (page_base a) (snd x)"
  using box_at_none by blast

lemma pages_ok_bx:
  assumes ok: "pages_ok m box B bx K U" and e: "\<And>v. user_adr v \<Longrightarrow> user_view m v \<noteq> None \<Longrightarrow> bx' v = bx v"
  shows "pages_ok m box B bx' K U"
proof -
  note D = pages_okD [OF ok]
  show ?thesis
    unfolding pages_ok_def
  proof (intro conjI)
    show "\<forall>b\<in>K. \<forall>i\<in>pages_of box b. \<exists>v. user_adr v \<and> bx' v = b \<and> user_view m v = Some (pg_adr (ms_grob m) i)"
      using D(9) e by fastforce
    show "\<forall>v p. user_adr v \<longrightarrow> user_view m v = Some p \<longrightarrow> bx' v \<in> K \<and> p \<in> pg_adr (ms_grob m) ` pages_of box (bx' v)"
      using D(8) e by simp
  qed (use D in \<open>simp_all\<close>)
qed

lemma pages_ok_box:
  assumes ok: "pages_ok m box B bx K U"
    and e: "\<And>b. b \<in> K \<Longrightarrow> \<exists>x x'. box b = Some x \<and> box' b = Some x' \<and> kmb_msalist x' = kmb_msalist x \<and> kmb_msanr x' = kmb_msanr x"
  shows "pages_ok m box' B bx K U"
proof -
  note D = pages_okD [OF ok]
  have p: "pages_of box' b = pages_of box b" if "b \<in> K" for b
    using e [OF that] by (auto simp: pages_of_def)
  show ?thesis
    unfolding pages_ok_def
  proof (intro conjI)
    show "\<forall>b\<in>K. \<exists>x. box' b = Some x \<and> distinct (kmb_msalist x) \<and> kmb_msanr x = of_nat (length (kmb_msalist x))"
      using D(6) e by force
    show "\<forall>v q. user_adr v \<longrightarrow> user_view m v = Some q \<longrightarrow> bx v \<in> K \<and> q \<in> pg_adr (ms_grob m) ` pages_of box' (bx v)"
      using D(8) p by metis
  qed (use D p in \<open>simp_all\<close>)
qed

lemma pages_ok_drop:
  assumes ok: "pages_ok m box B bx K U" and b: "pages_of box b = {}"
  shows "pages_ok m box B bx (K - {b}) U"
proof -
  note D = pages_okD [OF ok]
  have "bx v \<noteq> b" if "user_adr v" "user_view m v = Some q" for v q
    using D(8) [OF that] b by auto
  then show ?thesis
    using D b unfolding pages_ok_def by (intro conjI) auto
qed

lemma pages_ok_add:
  assumes ok: "pages_ok m box B bx K U" and b: "b \<noteq> 0" "box b = Some x" "kmb_msalist x = []" "kmb_msanr x = 0"
  shows "pages_ok m box B bx (insert b K) U"
proof -
  note D = pages_okD [OF ok]
  have e: "pages_of box b = {}"
    using b by (simp add: pages_of_def)
  show ?thesis
    unfolding pages_ok_def
  proof (intro conjI)
    show "\<forall>v q. user_adr v \<longrightarrow> user_view m v = Some q \<longrightarrow>
        bx v \<in> insert b K \<and> q \<in> pg_adr (ms_grob m) ` pages_of box (bx v)"
      using D(8) by blast
    show "\<forall>c\<in>insert b K. \<exists>x. box c = Some x \<and> distinct (kmb_msalist x) \<and> kmb_msanr x = of_nat (length (kmb_msalist x))"
      using D(6) b by auto
  qed (use D b e in \<open>auto\<close>)
qed

section \<open>A new region keeps the order\<close>

lemma new_boxes:
  assumes "region_added l l' at n nw obj" "kva_kvmbox nw = 0"
  shows "boxes_of l' = boxes_of l" "b \<noteq> 0 \<Longrightarrow> box_uses l' b = box_uses l b" "length l' \<le> Suc (length l)"
    "obj = 0 \<Longrightarrow> length l' = length l"
  using assms by (auto simp: region_added_def)

lemma new_holds:
  assumes a: "region_added l l' at n nw obj" and x: "x \<in> set l" "holds_adr a (snd x)" and n: "at \<le> at + n"
  shows "\<exists>y \<in> set l'. holds_adr a (snd y) \<and> kva_kvmbox (snd y) = kva_kvmbox (snd x)"
  using a unfolding region_added_def
proof (elim exE conjE disjE)
  fix xs p k ys
  assume l: "l = xs @ (p, k) # ys" "l' = xs @ (p, k\<lparr>kva_end := kva_end k + n\<rparr>) # ys" "at = kva_end k"
  show ?thesis
  proof (cases "x = (p, k)")
    case True
    then have "holds_adr a (k\<lparr>kva_end := kva_end k + n\<rparr>)"
      using x(2) n l(3) by (auto simp: holds_adr_def)
    then show ?thesis
      using True l by force
  qed (use x l in auto)
qed (use x in auto)

lemma vma_okD:
  assumes "vma_ok st B U"
  shows "regs_ok (vm_vs st)" "boxes_ok st" "ms_cr3 (vm_mmu st) = phys_root (vm_mmu st)"
    "pages_ok (vm_mmu st) (vm_box st) B (box_at (regions st)) (boxes_of (regions st)) U"
  using assms by (simp_all add: vma_ok_def)

lemma mapped_in_region:
  assumes ok: "vma_ok st B U" and v: "user_adr v" "user_view (vm_mmu st) v \<noteq> None"
  obtains x where "x \<in> set (regions st)" "holds_adr (page_base v) (snd x)" "kva_kvmbox (snd x) \<in> boxes_of (regions st)"
    "box_at (regions st) v = kva_kvmbox (snd x)"
proof -
  obtain p where "user_view (vm_mmu st) v = Some p"
    using v(2) by blast
  then have b: "box_at (regions st) v \<in> boxes_of (regions st)"
    using pages_okD(8) [OF vma_okD(4) [OF ok] v(1)] by blast
  then have "box_at (regions st) v \<noteq> 0"
    by (auto simp: boxes_of_def)
  then obtain x where x: "x \<in> set (regions st)" "holds_adr (page_base v) (snd x)"
    using box_at_some by blast
  then show ?thesis
    using that box_at_page [OF vma_okD(1) [OF ok] x] b by simp
qed

lemma new_region_ok:
  assumes ok: "vma_ok st B U" and obj: "obj_ok st obj" and r: "regs_ok v'"
    and a: "region_added (regions st) (vs_list v') at n nw obj" "kva_kvmbox nw = 0" "at \<le> at + n"
  shows "vma_ok (st\<lparr>vm_vs := v'\<rparr>) B U"
proof -
  note N = new_boxes [OF a(1,2)]
  have "length (vs_list v') < 2 ^ 31"
    using N(3,4) obj boxes_okD(7) [OF vma_okD(2) [OF ok]] by (cases "obj = 0") (simp_all add: obj_ok_def)
  moreover have "box_uses (vs_list v') b = box_uses (regions st) b" if "b \<in> boxes_of (regions st)" for b
    using N(2) that by (simp add: boxes_of_def)
  ultimately have "boxes_ok (st\<lparr>vm_vs := v'\<rparr>)"
    using vma_okD(2) [OF ok] unfolding boxes_ok_def Let_def by (simp add: N(1))
  moreover have "pages_ok (vm_mmu st) (vm_box st) B (box_at (vs_list v')) (boxes_of (regions st)) U"
  proof (rule pages_ok_bx [OF vma_okD(4) [OF ok]])
    fix v assume "user_adr v" "user_view (vm_mmu st) v \<noteq> None"
    then obtain x where x: "x \<in> set (regions st)" "holds_adr (page_base v) (snd x)" "box_at (regions st) v = kva_kvmbox (snd x)"
      by (rule mapped_in_region [OF ok])
    from new_holds [OF a(1) x(1,2) a(3)] obtain y where y: "y \<in> set (vs_list v')" "holds_adr (page_base v) (snd y)"
      "kva_kvmbox (snd y) = kva_kvmbox (snd x)"
      by blast
    show "box_at (vs_list v') v = box_at (regions st) v"
      using box_at_page [OF r y(1,2)] y(3) x(3) by simp
  qed
  ultimately show ?thesis
    using vma_okD(3) [OF ok] r by (simp add: vma_ok_def N(1))
qed

text \<open>The new addresses lie in one region.\<close>

lemma new_covered:
  assumes a: "region_added l l' at n nw obj" and r: "\<forall>x \<in> set l. region_ok (snd x)" and lt: "at < at + n"
    and e: "kva_start nw = at" "kva_end nw = at + n"
  shows "\<exists>x \<in> set l'. kva_start (snd x) \<le> at \<and> at + n \<le> kva_end (snd x)"
  using a unfolding region_added_def
proof (elim exE conjE disjE)
  fix xs p k ys
  assume l: "l = xs @ (p, k) # ys" "l' = xs @ (p, k\<lparr>kva_end := kva_end k + n\<rparr>) # ys" "at = kva_end k"
  have "kva_start k < kva_end k"
    using r by (simp add: l region_ok_def)
  then have "kva_start k \<le> at"
    by (simp add: l(3))
  then show ?thesis
    by (simp add: l)
qed (use e in auto)

definition request_ok :: "u64 \<Rightarrow> u64 \<Rightarrow> bool" where
  "request_ok start size_t \<longleftrightarrow> 0 < size_t \<and> (start = 0 \<or> page_aligned start \<and> 0x1000 \<le> start) \<and>
     unat start + round_up (unat size_t) \<le> unat USER_END"

definition no_gap :: "vmst \<Rightarrow> u64 \<Rightarrow> u64 \<Rightarrow> bool" where
  "no_gap st start n \<longleftrightarrow> (\<forall>xs p k ys. regions st = xs @ (p, k) # ys \<longrightarrow> \<not> gap_after k ys start n)"

lemma request_size:
  assumes "request_ok start size_t"
  shows "size_ok start (VADSZ_ALIGN size_t)" "unat (VADSZ_ALIGN size_t) = round_up (unat size_t)"
    "start + size_t \<le> USER_END"
proof -
  have b: "unat start + round_up (unat size_t) < 2 ^ 47" "0 < unat size_t"
    using assms by (simp_all add: request_ok_def USER_END_def word_less_nat_alt unat_gt_0)
  then show u: "unat (VADSZ_ALIGN size_t) = round_up (unat size_t)"
    using round_up_bounds(1) [of "unat size_t"] by (intro VADSZ_ALIGN_round) simp
  have n: "0x1000 \<le> unat (VADSZ_ALIGN size_t)"
    unfolding u by (rule round_up_bounds(4)) (use b(2) in simp)
  have s: "unat (start + VADSZ_ALIGN size_t) = unat start + round_up (unat size_t)"
    "unat (start + size_t) = unat start + unat size_t"
    using b(1) round_up_bounds(1) [of "unat size_t"] by (simp_all add: unat_word_ariths u)
  show "size_ok start (VADSZ_ALIGN size_t)"
    using assms b(1) n VADSZ_ALIGN_aligned [of size_t]
    by (simp add: size_ok_def request_ok_def word_le_nat_alt s(1) u)
  show "start + size_t \<le> USER_END"
    using assms round_up_bounds(1) [of "unat size_t"] by (simp add: request_ok_def word_le_nat_alt s(2))
qed

lemma vma_new_refused:
  assumes ok: "regs_ok (vm_vs st)" and r: "\<not> request_ok start size_t" and w: "start \<noteq> 0 \<Longrightarrow> unat start + unat size_t + 0xfff < 2 ^ 64"
  shows "vma_new_vadrs st start size_t lim ty obj = Inr (0, st)"
proof -
  let ?n = "VADSZ_ALIGN size_t"
  have core: "vma_new_vadrs_core st start ?n lim ty obj = Inr (0, st)" if "?n < 0x1000 \<or> USER_END < start + ?n"
    using that regs_okD(5) [OF ok] by (auto simp: vma_new_vadrs_core_def vma_find_kmvarsdsc_def Let_def)
  show ?thesis
  proof (cases "size_t = 0 \<or> start \<noteq> 0 \<and> \<not> (page_aligned start \<and> 0x1000 \<le> start)")
    case True
    then show ?thesis
      by (auto simp: vma_new_vadrs_def aligned_and)
  next
    case False
    then have big: "unat USER_END < unat start + round_up (unat size_t)"
      using r by (auto simp: request_ok_def word_greater_zero_iff)
    have "?n < 0x1000 \<or> USER_END < start + ?n"
    proof (cases "unat size_t + 0xfff < 2 ^ 64")
      case nowrap: True
      have u: "unat ?n = round_up (unat size_t)"
        by (rule VADSZ_ALIGN_round [OF nowrap])
      have "unat start + round_up (unat size_t) < 2 ^ 64"
        using w round_up_bounds(2) [of "unat size_t"] nowrap by (cases "start = 0") simp_all
      then have "unat (start + ?n) = unat start + round_up (unat size_t)"
        by (simp add: unat_word_ariths u)
      then show ?thesis
        using big by (simp add: word_less_nat_alt)
    next
      case False
      then show ?thesis
        using VADSZ_ALIGN_wrap [of size_t] by simp
    qed
    then show ?thesis
      using core by (simp add: vma_new_vadrs_def)
  qed
qed

lemma vma_new_vadrs_ok:
  assumes ok: "vma_ok st B U" and obj: "obj_ok st obj" and r: "request_ok start size_t"
  defines "n \<equiv> VADSZ_ALIGN size_t"
  obtains (no) "vma_new_vadrs st start size_t lim ty obj = Inr (0, st)" "no_gap st start n \<or> obj = 0"
  | (yes) at v' where "vma_new_vadrs st start size_t lim ty obj = Inr (at, st\<lparr>vm_vs := v'\<rparr>)" "at \<noteq> 0"
    "vma_ok (st\<lparr>vm_vs := v'\<rparr>) B U" "start \<noteq> 0 \<longrightarrow> at = start" "page_aligned at" "at < at + n" "0x1000 \<le> at" "at + n \<le> USER_END"
    "{at..<at + n} \<inter> region_adrs (regions st) = {}" "region_adrs (vs_list v') = region_adrs (regions st) \<union> {at..<at + n}"
    "\<exists>x \<in> set (vs_list v'). kva_start (snd x) \<le> at \<and> at + n \<le> kva_end (snd x)"
proof -
  note R = request_size [OF r, folded n_def] and ro = vma_okD(1) [OF ok]
  have "obj = 0 \<or> obj \<notin> fst ` set (regions st)"
    using obj by (auto simp: obj_ok_def)
  from vma_new_vadrs_core_ok [OF ro R(1) this, of lim ty] obtain at st' where
    c: "vma_new_vadrs_core st start n lim ty obj = Inr (at, st')" and
    C: "if at = 0 then st' = st \<and> (no_gap st start n \<or> obj = 0)
     else \<exists>v'. st' = st\<lparr>vm_vs := v'\<rparr> \<and> regs_ok v' \<and> (start \<noteq> 0 \<longrightarrow> at = start) \<and> page_aligned at \<and>
       at < at + n \<and> 0x1000 \<le> at \<and> at + n \<le> USER_END \<and> {at..<at + n} \<inter> region_adrs (regions st) = {} \<and>
       region_adrs (vs_list v') = region_adrs (regions st) \<union> {at..<at + n} \<and>
       region_added (regions st) (vs_list v') at n (new_region at n lim ty) obj"
    unfolding no_gap_def by blast
  have e: "vma_new_vadrs st start size_t lim ty obj = Inr (at, st')"
    using r c R(3) by (auto simp: vma_new_vadrs_def request_ok_def aligned_and n_def word_greater_zero_iff)
  show thesis
  proof (cases "at = 0")
    case True
    then show ?thesis
      using no e C by simp
  next
    case False
    then obtain v' where v': "st' = st\<lparr>vm_vs := v'\<rparr>" "regs_ok v'" "start \<noteq> 0 \<longrightarrow> at = start" "page_aligned at"
       "at < at + n" "0x1000 \<le> at" "at + n \<le> USER_END" "{at..<at + n} \<inter> region_adrs (regions st) = {}"
       "region_adrs (vs_list v') = region_adrs (regions st) \<union> {at..<at + n}"
       "region_added (regions st) (vs_list v') at n (new_region at n lim ty) obj"
      using C by auto
    have "vma_ok (st\<lparr>vm_vs := v'\<rparr>) B U"
      by (rule new_region_ok [OF ok obj v'(2,10)]) (use v'(5) in \<open>simp_all add: new_region_def kmvarsdsc_t_init_def\<close>)
    moreover have "\<forall>x \<in> set (regions st). region_ok (snd x)"
      using regs_okD(3) [OF ro] by blast
    note cover = new_covered [OF v'(10) this v'(5)]
    ultimately show ?thesis
      using yes [OF e [unfolded v'(1)] False] v'(3-9) cover by (simp add: new_region_def)
  qed
qed

section \<open>What is left of a region\<close>

definition remains :: "u64 \<Rightarrow> kmvarsdsc \<Rightarrow> u64 \<Rightarrow> u64 \<Rightarrow> u64 \<Rightarrow> kmvds" where
  "remains p k start e obj =
     (if kva_start k < start then [(p, k\<lparr>kva_end := start\<rparr>)] else []) @
     (if e < kva_end k then [(if kva_start k < start then obj else p, k\<lparr>kva_start := e\<rparr>)] else [])"

lemma remains_same [simp]:
  "y \<in> set (remains p k start e obj) \<Longrightarrow> kva_kvmbox (snd y) = kva_kvmbox k"
  "boxes_of (remains p k start e obj) = (if remains p k start e obj = [] then {} else {kva_kvmbox k} - {0})"
  "box_uses (remains p k start e obj) b = (if kva_kvmbox k = b then length (remains p k start e obj) else 0)"
  by (auto simp: remains_def split: if_splits)

lemma remains_holds:
  assumes "kva_start k \<le> start" "start \<le> e" "e \<le> kva_end k"
  shows "(\<exists>y \<in> set (remains p k start e obj). holds_adr a (snd y)) \<longleftrightarrow> holds_adr a k \<and> \<not> (start \<le> a \<and> a < e)"
  using assms by (auto simp: remains_def holds_adr_def)

lemma remains_regs:
  assumes r: "regs_ok v" and l: "vs_list v = xs @ (p, k) # ys" and c: "kva_start k \<le> start" "start < e" "e \<le> kva_end k"
    and al: "page_aligned start" "page_aligned e" and obj: "kva_start k < start \<and> e < kva_end k \<Longrightarrow> obj \<noteq> 0 \<and> obj \<notin> fst ` set (vs_list v)"
    and v': "vs_list v' = xs @ remains p k start e obj @ ys" "vs_isalcend v' = vs_isalcend v"
    "vs_currkmvdsc v' = 0 \<or> vs_currkmvdsc v' \<in> fst ` set (vs_list v')"
  shows "regs_ok v'" "region_adrs (vs_list v') = region_adrs (vs_list v) - {start..<e}"
proof -
  let ?re = "remains p k start e obj"
  have k: "region_ok k"
    using regs_okD(3) [OF r, of "(p, k)"] l by simp
  have D: "distinct (map fst (xs @ (p, k) # ys))" "0 \<notin> fst ` set (xs @ (p, k) # ys)"
    "\<forall>x \<in> set (xs @ (p, k) # ys). region_ok (snd x)" "sorted_wrt before (xs @ (p, k) # ys)"
    using regs_okD(1,2,4) [OF r] regs_okD(3) [OF r] unfolding l by blast+
  have inside: "kva_start k \<le> kva_start (snd y)" "kva_end (snd y) \<le> kva_end k" "region_ok (snd y)" if "y \<in> set ?re" for y
    using that k c al by (auto simp: remains_def region_ok_def split: if_splits)
  have srt: "sorted_wrt before ?re"
    using c by (auto simp: remains_def before_def)
  have "sorted_wrt before (vs_list v')"
  proof -
    have "before x y" if "x \<in> set xs" "y \<in> set ?re" for x y
      using D(4) that(1) inside(1) [OF that(2)] by (auto simp: sorted_wrt_append before_def)
    moreover have "before y z" if "y \<in> set ?re" "z \<in> set ys" for y z
      using D(4) that(2) inside(2) [OF that(1)] by (auto simp: sorted_wrt_append before_def)
    ultimately show ?thesis
      unfolding v' using D(4) srt by (simp add: sorted_wrt_append ball_Un)
  qed
  moreover have "distinct (map fst (vs_list v'))" "0 \<notin> fst ` set (vs_list v')"
    using D(1,2) obj unfolding v' l remains_def by auto
  moreover have "\<forall>x \<in> set (vs_list v'). region_ok (snd x)"
    using D(3) inside(3) unfolding v' by auto
  ultimately show "regs_ok v'"
    using v'(2,3) regs_okD(5) [OF r] by (simp add: regs_ok_def)
  have "a \<in> region_adrs (vs_list v') \<longleftrightarrow> a \<in> region_adrs (vs_list v) - {start..<e}" for a
  proof -
    have away: "\<not> holds_adr a (snd x)" if "x \<in> set xs \<union> set ys" "start \<le> a" "a < e" for x
    proof
      assume h: "holds_adr a (snd x)"
      have "holds_adr a k"
        using that(2,3) c by (auto simp: holds_adr_def)
      moreover have "kva_end (snd x) \<le> kva_start k \<or> kva_end k \<le> kva_start (snd x)"
        using that(1) D(4) by (auto simp: sorted_wrt_append before_def)
      ultimately show False
        using h by (auto simp: holds_adr_def)
    qed
    have "a \<in> region_adrs (vs_list v') \<longleftrightarrow> (\<exists>x \<in> set xs \<union> set ys. holds_adr a (snd x)) \<or> (\<exists>y \<in> set ?re. holds_adr a (snd y))"
      unfolding region_adrs_def v' by auto
    also have "\<dots> \<longleftrightarrow> ((\<exists>x \<in> set xs \<union> set ys. holds_adr a (snd x)) \<or> holds_adr a k) \<and> \<not> (start \<le> a \<and> a < e)"
      unfolding remains_holds [OF c(1) less_imp_le [OF c(2)] c(3)] using away by blast
    also have "\<dots> \<longleftrightarrow> a \<in> region_adrs (vs_list v) - {start..<e}"
      unfolding region_adrs_def l by auto
    finally show ?thesis .
  qed
  then show "region_adrs (vs_list v') = region_adrs (vs_list v) - {start..<e}"
    by blast
qed

section \<open>Giving up a box\<close>

lemma boxes_of_uses: "b \<in> boxes_of l \<longleftrightarrow> b \<noteq> 0 \<and> 0 < box_uses l b"
  by (induction l) auto

lemma box_uses_le: "box_uses l b \<le> length l"
  by (simp add: box_uses_def)

definition with_regions :: "kmvds \<Rightarrow> vmst \<Rightarrow> vmst" where
  "with_regions l = upd_vs (\<lambda>v. v\<lparr>vs_list := l\<rparr>)"

lemma with_regions_simps [simp]:
  "vm_mmu (with_regions l st) = vm_mmu st" "vm_box (with_regions l st) = vm_box st" "vm_kvs (with_regions l st) = vm_kvs st"
  "regions (with_regions l st) = l"
  by (simp_all add: with_regions_def upd_vs_def)

lemma boxes_ok_regions:
  assumes ok: "boxes_ok st" and l: "boxes_of (regions st') \<subseteq> boxes_of (regions st)" "length (regions st') < 2 ^ 31"
    "\<And>b. b \<in> boxes_of (regions st') \<Longrightarrow> \<exists>x x'. vm_box st b = Some x \<and> vm_box st' b = Some x' \<and>
       kmb_cont x' - of_nat (box_uses (regions st') b) = kmb_cont x - of_nat (box_uses (regions st) b)"
    and m: "vm_kvs st' = vm_kvs st" "dom (vm_box st) \<subseteq> dom (vm_box st')"
  shows "boxes_ok st'"
proof -
  have "\<exists>x. vm_box st' b = Some x \<and> kmb_cont x = of_nat (box_uses (regions st') b)" if b: "b \<in> boxes_of (regions st')" for b
  proof -
    obtain x x' where x: "vm_box st b = Some x" "vm_box st' b = Some x'"
      "kmb_cont x' - of_nat (box_uses (regions st') b) = kmb_cont x - of_nat (box_uses (regions st) b)"
      using l(3) [OF b] by blast
    moreover have "kmb_cont x = of_nat (box_uses (regions st) b)"
      using boxes_okD(8) [OF ok, of b] b l(1) x(1) by auto
    ultimately show ?thesis
      by simp
  qed
  then show ?thesis
    using ok l m unfolding boxes_ok_def Let_def by (simp, blast)
qed

lemma sint_small: "n < 2 ^ 31 \<Longrightarrow> sint (of_nat n :: u32) = int n"
  by (simp add: signed_of_nat signed_take_bit_int_eq_self)

definition box_pages :: "kvmemcbox \<Rightarrow> nat list \<times> u64" where
  "box_pages x = (kmb_msalist x, kmb_msanr x)"

lemma box_pages_upd [simp]: "box_pages (x\<lparr>kmb_cont := n\<rparr>) = box_pages x"
  by (simp add: box_pages_def)

definition pages_kept :: "vmst \<Rightarrow> vmst \<Rightarrow> kmvds \<Rightarrow> bool" where
  "pages_kept st st' l \<longleftrightarrow> (\<forall>c \<in> boxes_of l. map_option box_pages (vm_box st' c) = map_option box_pages (vm_box st c))"

lemma knl_put_kvmemcbox_ok:
  assumes ok: "boxes_ok st" and l: "regions st = xs @ (p, k) # ys"
  shows "\<exists>r st'. knl_put_kvmemcbox (kva_kvmbox k) freed st = Inr (r, st') \<and> vm_mmu st' = vm_mmu st \<and> vm_vs st' = vm_vs st \<and>
     boxes_ok (with_regions (xs @ ys) st') \<and> pages_kept st st' (xs @ ys)"
proof -
  note D = boxes_okD [OF ok]
  let ?b = "kva_kvmbox k" and ?l = "xs @ ys"
  have kept: "\<exists>x. vm_box st c = Some x" if "c \<in> boxes_of ?l" for c
    using D(8) [of c] that by (auto simp: l)
  have len: "length ?l < 2 ^ 31"
    using D(7) by (simp add: l)
  have sub: "boxes_of ?l \<subseteq> boxes_of (regions st)"
    by (auto simp: l)
  have uses: "box_uses (regions st) c = (if c = ?b then Suc (box_uses ?l c) else box_uses ?l c)" for c
    by (simp add: l)
  show ?thesis
  proof (cases "?b = 0")
    case True
    have "boxes_ok (with_regions ?l st)"
    proof (rule boxes_ok_regions [OF ok])
      fix c assume c: "c \<in> boxes_of (regions (with_regions ?l st))"
      then have "c \<noteq> 0"
        unfolding boxes_of_uses by blast
      then show "\<exists>y y'. vm_box st c = Some y \<and> vm_box (with_regions ?l st) c = Some y' \<and>
          kmb_cont y' - of_nat (box_uses (regions (with_regions ?l st)) c) = kmb_cont y - of_nat (box_uses (regions st) c)"
        using kept [of c] c uses [of c] True by auto
    qed (use sub len in auto)
    moreover have "pages_kept st st ?l"
      using kept by (fastforce simp: pages_kept_def)
    ultimately show ?thesis
      using True by (intro exI [of _ False] exI [of _ st]) (simp add: knl_put_kvmemcbox_def)
  next
    case False
    then have b: "?b \<in> boxes_of (regions st)"
      by (simp add: l)
    then obtain x where x: "vm_box st ?b = Some x" "kmb_cont x = of_nat (box_uses (regions st) ?b)"
      using D(8) by blast
    define st1 where "st1 = setbox ?b (refcount_dec x) st"
    have s1: "vm_kvs st1 = vm_kvs st" "vm_mmu st1 = vm_mmu st" "vm_vs st1 = vm_vs st" "vm_box st1 = (vm_box st)(?b \<mapsto> refcount_dec x)"
      by (simp_all add: st1_def setbox_def)
    have cont: "kmb_cont (refcount_dec x) = of_nat (box_uses ?l ?b)"
      by (simp add: refcount_dec_def x(2) uses)
    have pk: "pages_kept st st1 ?l"
      using kept x(1) by (auto simp: pages_kept_def s1(4) refcount_dec_def)
    have signed: "sint (kmb_cont (refcount_dec x)) = int (box_uses ?l ?b)"
      unfolding cont using box_uses_le [of ?l ?b] len by (intro sint_small) simp
    show ?thesis
    proof (cases "0 < box_uses ?l ?b")
      case True
      have "boxes_ok (with_regions ?l st1)"
      proof (rule boxes_ok_regions [OF ok])
        show "\<exists>y y'. vm_box st c = Some y \<and> vm_box (with_regions ?l st1) c = Some y' \<and>
            kmb_cont y' - of_nat (box_uses (regions (with_regions ?l st1)) c) = kmb_cont y - of_nat (box_uses (regions st) c)"
          if "c \<in> boxes_of (regions (with_regions ?l st1))" for c
          using kept [of c] that x uses by (cases "c = ?b") (auto simp: s1(4) cont)
      qed (use sub len x(1) s1 in auto)
      moreover have "1 \<le> sint (kmb_cont (refcount_dec x))"
        using True unfolding signed by linarith
      then have "knl_put_kvmemcbox ?b freed st = Inr (True, st1)"
        using False x(1) unfolding knl_put_kvmemcbox_def Let_def st1_def by (simp add: getbox_def)
      ultimately show ?thesis
        using pk s1 by blast
    next
      case none: False
      then have gone: "?b \<notin> boxes_of ?l"
        by (simp add: boxes_of_uses)
      let ?g = "boxmgr st"
      have hd: "?b \<in> set (kbm_kmbhead ?g)" "?b \<notin> set (kbm_cachehead ?g)"
        using b D(1,4) by auto
      have rest: "boxes_of ?l \<subseteq> set (remove1 ?b (kbm_kmbhead ?g))"
      proof -
        have "distinct (kbm_kmbhead ?g)"
          using D(1) by simp
        from set_remove1_eq [OF this] show ?thesis
          using D(4) sub gone by blast
      qed
      have others: "\<exists>y. vm_box st c = Some y \<and> kmb_cont y = of_nat (box_uses ?l c)" if "c \<in> boxes_of ?l" for c
        using D(8) [of c] that sub uses [of c] gone by (auto split: if_splits)
      have len64: "length (kbm_cachehead ?g) < 2 ^ 64"
        using D(6) unsigned_less [where 'a = nat, of "kbm_cachemax ?g"] by simp
      have g1: "boxmgr st1 = ?g"
        by (simp add: s1)
      have put: "knl_put_kvmemcbox ?b freed st =
          (if kbm_cachemax ?g \<le> kbm_cachenr ?g
           then let st = upd_mgr (\<lambda>g. g\<lparr>kbm_kmbhead := remove1 ?b (kbm_kmbhead g)\<rparr>) st1
                in if \<not> freed then Inr (False, st)
                   else Inr (True, upd_mgr (\<lambda>g. g\<lparr>kbm_kmbnr := kbm_kmbnr g - 1\<rparr>) (st\<lparr>vm_box := (vm_box st)(?b := None)\<rparr>))
           else Inr (True, upd_mgr (\<lambda>g. g\<lparr>kbm_kmbhead := remove1 ?b (kbm_kmbhead g), kbm_cachehead := ?b # kbm_cachehead g,
                  kbm_cachenr := kbm_cachenr g + 1, kbm_kmbnr := kbm_kmbnr g - 1\<rparr>) st1))"
        using False x(1) none signed hd(1) g1 unfolding knl_put_kvmemcbox_def Let_def st1_def by (simp add: getbox_def)
      show ?thesis
      proof (cases "kbm_cachemax ?g \<le> kbm_cachenr ?g")
        case True
        define st2 where "st2 = upd_mgr (\<lambda>g. g\<lparr>kbm_kmbhead := remove1 ?b (kbm_kmbhead g)\<rparr>) st1"
        define st3 where "st3 = upd_mgr (\<lambda>g. g\<lparr>kbm_kmbnr := kbm_kmbnr g - 1\<rparr>) (st2\<lparr>vm_box := (vm_box st2)(?b := None)\<rparr>)"
        have "boxes_ok (with_regions ?l st2)" "boxes_ok (with_regions ?l st3)"
          using D(1-3,5,6) len rest others gone hd unfolding boxes_ok_def Let_def
          by (auto simp: st2_def st3_def upd_mgr_def s1 with_regions_def upd_vs_def set_remove1_eq)
        moreover have "pages_kept st st2 ?l" "pages_kept st st3 ?l"
          using kept gone by (auto simp: pages_kept_def st2_def st3_def upd_mgr_def s1)
        moreover have "knl_put_kvmemcbox ?b freed st = (if \<not> freed then Inr (False, st2) else Inr (True, st3))"
          using True unfolding put by (simp add: st2_def st3_def Let_def)
        ultimately show ?thesis
          by (cases freed) (auto simp: st2_def st3_def upd_mgr_def s1)
      next
        case False
        define st2 where "st2 = upd_mgr (\<lambda>g. g\<lparr>kbm_kmbhead := remove1 ?b (kbm_kmbhead g), kbm_cachehead := ?b # kbm_cachehead g,
                  kbm_cachenr := kbm_cachenr g + 1, kbm_kmbnr := kbm_kmbnr g - 1\<rparr>) st1"
        have "length (kbm_cachehead ?g) < unat (kbm_cachemax ?g)"
          using False D(5) u64_of_nat [OF len64] by (simp add: word_le_nat_alt)
        then have "boxes_ok (with_regions ?l st2)"
          using D(1-3,5,6) len rest others gone hd \<open>?b \<noteq> 0\<close> unfolding boxes_ok_def Let_def
          by (auto simp: st2_def upd_mgr_def s1 with_regions_def upd_vs_def set_remove1_eq)
        moreover have "pages_kept st st2 ?l"
          using kept gone by (auto simp: pages_kept_def st2_def upd_mgr_def s1)
        moreover have "knl_put_kvmemcbox ?b freed st = Inr (True, st2)"
          using False unfolding put by (simp add: st2_def)
        ultimately show ?thesis
          by (auto simp: st2_def upd_mgr_def s1)
      qed
    qed
  qed
qed

section \<open>Finding a region\<close>

lemma first_kmvd_cases:
  assumes "0 \<notin> fst ` set l"
  shows "(\<exists>xs p k ys. first_kmvd P l = p \<and> p \<noteq> 0 \<and> l = xs @ (p, k) # ys \<and> P k) \<or>
    (first_kmvd P l = 0 \<and> (\<forall>x \<in> set l. \<not> P (snd x)))"
  using assms
proof (induction l)
  case (Cons x l)
  obtain q j where x: "x = (q, j)"
    by (cases x)
  show ?case
  proof (cases "P j")
    case True
    have "first_kmvd P (x # l) = q \<and> q \<noteq> 0 \<and> x # l = [] @ (q, j) # l \<and> P j"
      using True Cons.prems by (simp add: x)
    then show ?thesis
      by blast
  next
    case False
    then have e: "first_kmvd P (x # l) = first_kmvd P l"
      by (simp add: x)
    from Cons have "(\<exists>xs p k ys. first_kmvd P l = p \<and> p \<noteq> 0 \<and> l = xs @ (p, k) # ys \<and> P k) \<or>
      (first_kmvd P l = 0 \<and> (\<forall>x \<in> set l. \<not> P (snd x)))"
      by simp
    then show ?thesis
    proof (elim disjE exE conjE)
      fix xs p k ys
      assume "first_kmvd P l = p" "p \<noteq> 0" "l = xs @ (p, k) # ys" "P k"
      then show ?thesis
        unfolding e by (intro disjI1 exI [of _ "x # xs"] exI [of _ p] exI [of _ k] exI [of _ ys]) simp
    qed (use False e x in auto)
  qed
qed simp

text \<open>The current region first, then the list: the same question of every region.\<close>

definition pick :: "vmst \<Rightarrow> (kmvarsdsc \<Rightarrow> bool) \<Rightarrow> u64 run" where
  "pick st P = (let cur = vs_currkmvdsc (vm_vs st) in
     if cur \<noteq> 0 then andthen (getk st cur) (\<lambda>c. Inr (if P c then cur else first_kmvd P (regions st)))
     else Inr (first_kmvd P (regions st)))"

lemma pick_ok:
  assumes r: "regs_ok (vm_vs st)"
  obtains (found) xs p k ys where "pick st P = Inr p" "p \<noteq> 0" "regions st = xs @ (p, k) # ys" "P k"
  | (none) "pick st P = Inr 0" "\<forall>x \<in> set (regions st). \<not> P (snd x)"
proof -
  let ?c = "vs_currkmvdsc (vm_vs st)"
  note D = regs_okD [OF r]
  have list: thesis if "pick st P = Inr (first_kmvd P (regions st))"
    using first_kmvd_cases [OF D(2), of P] that found none by metis
  show thesis
  proof (cases "?c = 0")
    case True
    then show ?thesis
      by (intro list) (simp add: pick_def)
  next
    case False
    from at_place [OF D(6) [OF False]] obtain xs k ys where l: "regions st = xs @ (?c, k) # ys" .
    note g = getk_place [OF r l]
    show ?thesis
    proof (cases "P k")
      case True
      then show ?thesis
        using found [OF _ False l] g False by (simp add: pick_def)
    next
      case no: False
      then show ?thesis
        using g False by (intro list) (simp add: pick_def)
    qed
  qed
qed

lemma vma_del_find_pick:
  "0x1000 \<le> n \<Longrightarrow> vma_del_find_kmvarsdsc st start n = pick st (covers start (start + n))"
  by (simp add: vma_del_find_kmvarsdsc_def pick_def Let_def not_less [symmetric])

lemma vma_map_find_pick: "vma_map_find_kmvarsdsc st v = pick st (holds_adr v)"
  by (simp add: vma_map_find_kmvarsdsc_def pick_def)

lemma getk_at: "distinct (map fst l) \<Longrightarrow> regions st = l \<Longrightarrow> l = xs @ (p, k) # ys \<Longrightarrow> getk st p = Inr k"
  using map_of_place [of xs p k ys] by (simp add: getk_def)

lemma setk_at:
  assumes "distinct (map fst (xs @ (p, k) # ys))" "regions st = xs @ (p, k) # ys"
  shows "setk p f st = with_regions (xs @ (p, f k) # ys) st"
  using set_place [OF assms(1), of f] assms(2) by (simp add: setk_def with_regions_def upd_vs_def)

end
