(* ===== verification/VmaDel.thy ===== *)
theory VmaDel
  imports VmaInv
begin

text \<open>
  Ranges of addresses given back: a whole region, one end of it, a hole in it. In each case the invariant is kept and exactly
  the range is gone.
\<close>

section \<open>A range of a region given up\<close>

lemma vma_del_set_endcurrkmvd_ok:
  assumes d: "distinct (map fst (xs @ (p, k) # ys))" and l: "regions st = xs @ (p, k) # ys"
  shows "\<exists>v. vma_del_set_endcurrkmvd st p = Inr (st\<lparr>vm_vs := v\<rparr>) \<and> vs_list v = xs @ (p, k) # ys \<and>
     vs_isalcend v = vs_isalcend (vm_vs st) \<and> (vs_currkmvdsc v = 0 \<or> vs_currkmvdsc v \<in> fst ` set (xs @ ys))"
proof (cases ys)
  case Nil
  have "next_kmvd p (rev (regions st)) = Inr (case rev xs of [] \<Rightarrow> None | y # zs \<Rightarrow> Some y)"
    using next_place [of p "rev ys" k "rev xs"] d by (simp add: l)
  moreover have "next_kmvd p (regions st) = Inr None"
    using next_place [OF place_fresh [OF d], of k ys] by (simp add: l Nil)
  moreover have "hd (rev xs) \<in> set xs" if "xs \<noteq> []"
    using that by (metis hd_in_set rev_is_Nil_conv set_rev)
  ultimately show ?thesis
    by (cases "rev xs") (auto simp: vma_del_set_endcurrkmvd_def prev_kmvd_def upd_vs_def l)
next
  case (Cons y zs)
  then have "next_kmvd p (regions st) = Inr (Some y)"
    using next_place [OF place_fresh [OF d], of k ys] by (simp add: l)
  then show ?thesis
    by (cases y) (auto simp: vma_del_set_endcurrkmvd_def upd_vs_def l Cons)
qed

definition deleted :: "blocks \<Rightarrow> blocks \<Rightarrow> u64 \<Rightarrow> u64 \<Rightarrow> u64 \<Rightarrow> vmst \<Rightarrow> vmst \<Rightarrow> bool" where
  "deleted B U start e obj st st' \<longleftrightarrow> (\<exists>xs p k ys U'. regions st = xs @ (p, k) # ys \<and> covers start e k \<and> U' \<subseteq> U \<and>
     regions st' = xs @ remains p k start e obj @ ys \<and> (kva_start k < start \<and> e < kva_end k \<longrightarrow> obj \<noteq> 0) \<and>
     boxes_ok st' \<and> pages_ok (vm_mmu st') (vm_box st') B (box_at (regions st)) (boxes_of (regions st')) U' \<and>
     more_room (vm_mmu st) (vm_mmu st') \<and>
     (\<forall>v. user_adr v \<longrightarrow> user_view (vm_mmu st') v = (if touched start e v then None else user_view (vm_mmu st) v)) \<and>
     vs_isalcend (vm_vs st') = vs_isalcend (vm_vs st) \<and>
     (vs_currkmvdsc (vm_vs st') = 0 \<or> vs_currkmvdsc (vm_vs st') \<in> fst ` set (regions st')))"

text \<open>The unmapping, done on a state that differs in its list and a counter of the region's box.\<close>

lemma del_unmapping:
  assumes ok: "vma_ok st B U" and l: "regions st = xs @ (p, k) # ys" and c: "covers start (start + n) k"
    and st2: "vm_mmu st2 = vm_mmu st" "map_option box_pages \<circ> vm_box st2 = map_option box_pages \<circ> vm_box st"
    and k': "getk st2 p = Inr k'" "kva_kvmbox k' = kva_kvmbox k"
  shows "\<exists>r st' U'. vma_del_unmapping st2 p start n = Inr (r, st') \<and> U' \<subseteq> U \<and>
     unmapped B (box_at (regions st)) (boxes_of (regions st)) (touched start (start + n)) (kva_kvmbox k) st2 st' U'"
proof -
  note D = regs_okD [OF vma_okD(1) [OF ok]] and P = vma_okD(4) [OF ok]
  have x: "(p, k) \<in> set (regions st)"
    by (simp add: l)
  have "p \<noteq> 0"
    using D(2) x by force
  moreover have e: "start + n \<le> USER_END"
    using D(3) [OF x] c by (auto simp: covers_def region_ok_def)
  moreover have "box_at (regions st) v = kva_kvmbox k'" if "start \<le> v" "v < start + n" for v
  proof -
    have "kva_start k \<le> v" "v < kva_end k"
      using that c by (auto simp: covers_def)
    then show ?thesis
      using box_at_region [OF vma_okD(1) [OF ok] x, of v] by (simp add: holds_adr_def k'(2))
  qed
  moreover have "pages_ok (vm_mmu st2) (vm_box st2) B (box_at (regions st)) (boxes_of (regions st)) U"
    unfolding st2(1)
  proof (rule pages_ok_box [OF P])
    fix b assume "b \<in> boxes_of (regions st)"
    then obtain y where "vm_box st b = Some y"
      using pages_okD(6) [OF P] by blast
    then show "\<exists>x x'. vm_box st b = Some x \<and> vm_box st2 b = Some x' \<and> kmb_msalist x' = kmb_msalist x \<and> kmb_msanr x' = kmb_msanr x"
      using fun_cong [OF st2(2), of b] by (auto simp: box_pages_def)
  qed
  ultimately show ?thesis
    using vma_del_unmapping_ok [of st2 B _ _ U p k' start n] k' by metis
qed

lemma unmappedD:
  assumes "unmapped B bx K gone b st st' U'"
  shows "pages_ok (vm_mmu st') (vm_box st') B bx K U'" "vm_vs st' = vm_vs st" "vm_kvs st' = vm_kvs st"
    "more_room (vm_mmu st) (vm_mmu st')"
    "user_adr v \<Longrightarrow> user_view (vm_mmu st') v = (if gone v then None else user_view (vm_mmu st) v)"
    "c \<noteq> b \<Longrightarrow> vm_box st' c = vm_box st c" "map_option kmb_cont (vm_box st' b) = map_option kmb_cont (vm_box st b)"
  using assms by (simp_all add: unmapped_def)

lemma unmapped_boxes:
  assumes ok: "boxes_ok st" and u: "unmapped B bx K gone b st st' U'"
  shows "boxes_ok st'"
proof -
  note U = unmappedD [OF u]
  have same: "map_option kmb_cont (vm_box st' c) = map_option kmb_cont (vm_box st c)" for c
    using U(6,7) by (cases "c = b") simp_all
  show ?thesis
  proof (rule boxes_ok_regions [OF ok])
    fix c assume "c \<in> boxes_of (regions st')"
    then have "\<exists>x. vm_box st c = Some x"
      using boxes_okD(8) [OF ok, of c] U(2) by auto
    then show "\<exists>x x'. vm_box st c = Some x \<and> vm_box st' c = Some x' \<and>
        kmb_cont x' - of_nat (box_uses (regions st') c) = kmb_cont x - of_nat (box_uses (regions st) c)"
      using same [of c] by (auto simp: U(2))
  next
    show "dom (vm_box st) \<subseteq> dom (vm_box st')"
    proof
      fix a assume "a \<in> dom (vm_box st)"
      then show "a \<in> dom (vm_box st')"
        using same [of a] by (cases "vm_box st' a") auto
    qed
  qed (use U boxes_okD(7) [OF ok] in simp_all)
qed

lemma pages_ok_kept:
  assumes "pages_ok m (vm_box st) B bx K U" "pages_kept st st' l" "K = boxes_of l"
  shows "pages_ok m (vm_box st') B bx K U"
proof (rule pages_ok_box [OF assms(1)])
  fix b assume b: "b \<in> K"
  then obtain x where "vm_box st b = Some x"
    using pages_okD(6) [OF assms(1)] by blast
  then show "\<exists>x x'. vm_box st b = Some x \<and> vm_box st' b = Some x' \<and> kmb_msalist x' = kmb_msalist x \<and> kmb_msanr x' = kmb_msanr x"
    using assms(2,3) b by (auto simp: pages_kept_def box_pages_def)
qed

text \<open>An end of a region given up.\<close>

lemma del_edge:
  assumes ok: "vma_ok st B U" and l: "regions st = xs @ (p, k) # ys" and c: "covers start (start + n) k"
    and re: "remains p k start (start + n) obj = [(p, k')]" and e: "kva_start k = start \<or> kva_end k = start + n"
  shows "\<exists>r st'. vma_del_unmapping (with_regions (xs @ (p, k') # ys) st) p start n = Inr (r, st') \<and>
     deleted B U start (start + n) obj st st'"
proof -
  let ?st2 = "with_regions (xs @ (p, k') # ys) st"
  note D = regs_okD [OF vma_okD(1) [OF ok], unfolded l]
  have kb: "kva_kvmbox k' = kva_kvmbox k"
    using remains_same(1) [of "(p, k')" p k start "start + n" obj] re by simp
  have d2: "distinct (map fst (xs @ (p, k') # ys))"
    using D(1) by simp
  have g: "getk ?st2 p = Inr k'"
    by (rule getk_at [OF d2]) simp_all
  have "map_option box_pages \<circ> vm_box ?st2 = map_option box_pages \<circ> vm_box st"
    by simp
  from del_unmapping [OF ok l c _ this g kb] obtain r st' U' where r: "vma_del_unmapping ?st2 p start n = Inr (r, st')" "U' \<subseteq> U"
    "unmapped B (box_at (regions st)) (boxes_of (regions st)) (touched start (start + n)) (kva_kvmbox k) ?st2 st' U'"
    by auto
  note M = unmappedD [OF r(3)]
  have b2: "boxes_ok ?st2"
  proof (rule boxes_ok_regions [OF vma_okD(2) [OF ok]])
    fix c assume c: "c \<in> boxes_of (regions ?st2)"
    then have "c \<in> boxes_of (regions st)"
      by (simp add: l kb)
    then show "\<exists>x x'. vm_box st c = Some x \<and> vm_box ?st2 c = Some x' \<and>
        kmb_cont x' - of_nat (box_uses (regions ?st2) c) = kmb_cont x - of_nat (box_uses (regions st) c)"
      using boxes_okD(8) [OF vma_okD(2) [OF ok], of c] by (auto simp: l kb)
  qed (use boxes_okD(7) [OF vma_okD(2) [OF ok]] in \<open>simp_all add: l kb\<close>)
  have "deleted B U start (start + n) obj st st'"
    unfolding deleted_def
  proof (intro exI conjI)
    show "regions st = xs @ (p, k) # ys" "covers start (start + n) k" "U' \<subseteq> U"
      by (fact l c r(2))+
    show "regions st' = xs @ remains p k start (start + n) obj @ ys"
      unfolding re M(2) by simp
    show "boxes_ok st'"
      by (rule unmapped_boxes [OF b2 r(3)])
    have "boxes_of (regions st') = boxes_of (regions st)"
      using M(2) by (simp add: l kb)
    then show "pages_ok (vm_mmu st') (vm_box st') B (box_at (regions st)) (boxes_of (regions st')) U'"
      using M(1) by simp
    show "vs_currkmvdsc (vm_vs st') = 0 \<or> vs_currkmvdsc (vm_vs st') \<in> fst ` set (regions st')"
      using D(6) M(2) by (auto simp: with_regions_def upd_vs_def)
  qed (use e M in \<open>auto simp: with_regions_def upd_vs_def\<close>)
  then show ?thesis
    using r(1) by blast
qed

text \<open>A whole region given up.\<close>

lemma last_use_empty:
  assumes ok: "vma_ok st B U" and l: "regions st = xs @ (p, k) # ys" and b: "kva_kvmbox k \<notin> boxes_of (xs @ ys)"
    and P: "pages_ok m box B (box_at (regions st)) (boxes_of (regions st)) U'"
    and gone: "\<And>v. user_adr v \<Longrightarrow> holds_adr (page_base v) k \<Longrightarrow> user_view m v = None" and nz: "kva_kvmbox k \<noteq> 0"
  shows "pages_of box (kva_kvmbox k) = {}"
proof (rule ccontr)
  let ?b = "kva_kvmbox k"
  assume "pages_of box ?b \<noteq> {}"
  moreover have "?b \<in> boxes_of (regions st)"
    using nz by (simp add: l)
  ultimately obtain i v where v: "user_adr v" "box_at (regions st) v = ?b" "user_view m v = Some (pg_adr (ms_grob m) i)"
    using pages_okD(9) [OF P] by blast
  then obtain x where x: "x \<in> set (regions st)" "holds_adr (page_base v) (snd x)"
    using box_at_some nz by force
  then have "kva_kvmbox (snd x) = ?b"
    using box_at_page [OF vma_okD(1) [OF ok] x] v(2) by simp
  moreover have "x \<noteq> (p, k)"
    using gone [OF v(1)] v(3) x(2) by auto
  then have "x \<in> set (xs @ ys)"
    using x(1) by (auto simp: l)
  then have "kva_kvmbox (snd x) \<in> kva_kvmbox ` snd ` set (xs @ ys)"
    by (intro imageI)
  ultimately have "?b \<in> boxes_of (xs @ ys)"
    using nz by (simp add: boxes_of_def)
  then show False
    using b by blast
qed

lemma del_whole:
  assumes ok: "vma_ok st B U" and l: "regions st = xs @ (p, k) # ys" and c: "kva_start k = start" "kva_end k = start + n"
    and al: "page_aligned n" "p \<noteq> 0"
  shows "\<exists>st'. andthen (vma_del_unmapping st p start n) (\<lambda>(ok, st).
               andthen (vma_del_set_endcurrkmvd st p) (\<lambda>st.
               andthen (getk st p) (\<lambda>k.
               andthen (knl_put_kvmemcbox (kva_kvmbox k) freed st) (\<lambda>(ok, st).
               Inr (True, upd_vs (\<lambda>v. v\<lparr>vs_list := filter (\<lambda>(q, k). q \<noteq> p) (vs_list v),
                 vs_kmvdscnr := vs_kmvdscnr v - 1\<rparr>) st))))) = Inr (True, st') \<and> deleted B U start (start + n) obj st st'"
proof -
  note D = regs_okD [OF vma_okD(1) [OF ok]]
  note d = D(1) [unfolded l]
  have k: "region_ok k"
    using D(3) [of "(p, k)"] by (simp add: l)
  then have cov: "covers start (start + n) k" and lt: "start < start + n"
    using c by (auto simp: covers_def region_ok_def)
  have re: "remains p k start (start + n) obj = []"
    by (simp add: remains_def c)
  from del_unmapping [OF ok l cov refl refl getk_at [OF d l refl] refl] obtain r st1 U' where
    r: "vma_del_unmapping st p start n = Inr (r, st1)" "U' \<subseteq> U"
    "unmapped B (box_at (regions st)) (boxes_of (regions st)) (touched start (start + n)) (kva_kvmbox k) st st1 U'"
    by auto
  note M = unmappedD [OF r(3)]
  have l1: "regions st1 = xs @ (p, k) # ys"
    using M(2) l by simp
  from vma_del_set_endcurrkmvd_ok [OF d l1] obtain v where v: "vma_del_set_endcurrkmvd st1 p = Inr (st1\<lparr>vm_vs := v\<rparr>)"
    "vs_list v = xs @ (p, k) # ys" "vs_isalcend v = vs_isalcend (vm_vs st1)" "vs_currkmvdsc v = 0 \<or> vs_currkmvdsc v \<in> fst ` set (xs @ ys)"
    by blast
  let ?st2 = "st1\<lparr>vm_vs := v\<rparr>"
  have l2: "regions ?st2 = xs @ (p, k) # ys"
    by (simp add: v(2))
  have "boxes_ok ?st2"
    using unmapped_boxes [OF vma_okD(2) [OF ok] r(3)] l1 v(2) by (simp add: boxes_ok_def)
  from knl_put_kvmemcbox_ok [OF this l2, of freed] obtain r2 st3 where
    s3: "knl_put_kvmemcbox (kva_kvmbox k) freed ?st2 = Inr (r2, st3)" "vm_mmu st3 = vm_mmu st1" "vm_vs st3 = v"
    "boxes_ok (with_regions (xs @ ys) st3)" "pages_kept ?st2 st3 (xs @ ys)"
    by auto
  define st' where "st' = upd_vs (\<lambda>v. v\<lparr>vs_list := filter (\<lambda>(q, k). q \<noteq> p) (vs_list v), vs_kmvdscnr := vs_kmvdscnr v - 1\<rparr>) st3"
  have r': "regions st' = xs @ ys" and o: "vm_mmu st' = vm_mmu st1" "vm_box st' = vm_box st3" "vm_kvs st' = vm_kvs st3"
    "vs_isalcend (vm_vs st') = vs_isalcend v" "vs_currkmvdsc (vm_vs st') = vs_currkmvdsc v"
    using drop_place [OF d] s3(2,3) v(2) by (simp_all add: st'_def upd_vs_def)
  have run: "andthen (vma_del_unmapping st p start n) (\<lambda>(ok, st).
               andthen (vma_del_set_endcurrkmvd st p) (\<lambda>st.
               andthen (getk st p) (\<lambda>k.
               andthen (knl_put_kvmemcbox (kva_kvmbox k) freed st) (\<lambda>(ok, st).
               Inr (True, upd_vs (\<lambda>v. v\<lparr>vs_list := filter (\<lambda>(q, k). q \<noteq> p) (vs_list v),
                 vs_kmvdscnr := vs_kmvdscnr v - 1\<rparr>) st))))) = Inr (True, st')"
    using r(1) v(1) getk_at [OF d l2 refl] s3(1) by (simp add: st'_def)
  have al2: "page_aligned start" "page_aligned (start + n)"
  proof -
    have u: "unat start + unat n < 2 ^ 64"
    proof (rule ccontr)
      assume "\<not> ?thesis"
      then have "unat (start + n) = unat start + unat n - 2 ^ 64"
        using unsigned_less [where 'a = nat, of start] unsigned_less [where 'a = nat, of n] by (simp add: unat_word_ariths le_mod_geq)
      then show False
        using lt unsigned_less [where 'a = nat, of n] by (simp add: word_less_nat_alt)
    qed
    show "page_aligned start"
      using k c by (simp add: region_ok_def)
    then show "page_aligned (start + n)"
      using al(1) u by (auto simp: page_aligned_def unat_word_ariths)
  qed
  have gone: "user_view (vm_mmu st1) a = None" if "user_adr a" "holds_adr (page_base a) k" for a
  proof -
    have "start \<le> a" "a < start + n"
      using that(2) page_base_ge [OF al2(1), of a] page_base_ge [OF al2(2), of a] by (simp_all add: holds_adr_def c not_le [symmetric])
    then show ?thesis
      using M(5) [OF that(1)] touched_range [OF al2] by simp
  qed
  have pages: "pages_ok (vm_mmu st1) (vm_box st1) B (box_at (regions st)) (boxes_of (xs @ ys)) U'"
  proof (cases "kva_kvmbox k \<in> boxes_of (xs @ ys) \<or> kva_kvmbox k = 0")
    case True
    then have "boxes_of (xs @ ys) = boxes_of (regions st)"
      by (auto simp: l)
    then show ?thesis
      using M(1) by simp
  next
    case False
    then have e: "boxes_of (xs @ ys) = boxes_of (regions st) - {kva_kvmbox k}"
      by (auto simp: l)
    show ?thesis
      unfolding e using last_use_empty [OF ok l _ M(1) gone] False by (intro pages_ok_drop [OF M(1)]) simp
  qed
  have "pages_ok (vm_mmu st1) (vm_box st3) B (box_at (regions st)) (boxes_of (xs @ ys)) U'"
    by (rule pages_ok_kept [OF _ s3(5) refl]) (use pages in simp)
  then have "deleted B U start (start + n) obj st st'"
    unfolding deleted_def
    using l cov r(2) re c M(4,5) s3(4) v(3,4) M(2) r' o
    by (intro exI [of _ xs] exI [of _ p] exI [of _ k] exI [of _ ys] exI [of _ U'])
      (simp add: boxes_ok_def with_regions_def upd_vs_def)
  then show ?thesis
    using run by blast
qed

text \<open>A hole in a region.\<close>

lemma knl_count_ok:
  assumes ok: "boxes_ok st" and b: "b = 0 \<or> b \<in> boxes_of (regions st)" and e: "vm_box st2 = vm_box st"
  shows "\<exists>st'. knl_count_kvmemcbox b st2 = Inr st' \<and> vm_mmu st' = vm_mmu st2 \<and> vm_vs st' = vm_vs st2 \<and> vm_kvs st' = vm_kvs st2 \<and>
     map_option box_pages \<circ> vm_box st' = map_option box_pages \<circ> vm_box st \<and>
     (\<forall>c. map_option kmb_cont (vm_box st' c) =
       (if c = b \<and> b \<noteq> 0 then map_option (\<lambda>x. kmb_cont x + 1) (vm_box st c) else map_option kmb_cont (vm_box st c)))"
proof (cases "b = 0")
  case False
  then obtain x where x: "vm_box st b = Some x"
    using b boxes_okD(8) [OF ok] by blast
  have "map_option box_pages \<circ> vm_box (setbox b (refcount_inc x) st2) = map_option box_pages \<circ> vm_box st"
    using x e by (auto simp: fun_eq_iff setbox_def refcount_inc_def)
  then show ?thesis
    using False x by (simp add: knl_count_kvmemcbox_def getbox_def e setbox_def refcount_inc_def)
qed (use e in \<open>simp add: knl_count_kvmemcbox_def\<close>)

lemma hole_boxes:
  assumes ok: "boxes_ok st" and l: "regions st = xs @ (p, k) # ys" and len: "length (regions st) < 2 ^ 31 - 1"
    and l': "regions st' = xs @ (p, k1) # (q, k2) # ys" and kb: "kva_kvmbox k1 = kva_kvmbox k" "kva_kvmbox k2 = kva_kvmbox k"
    and kv: "vm_kvs st' = vm_kvs st" and cont: "\<And>c. map_option kmb_cont (vm_box st' c) =
       (if c = kva_kvmbox k \<and> kva_kvmbox k \<noteq> 0 then map_option (\<lambda>x. kmb_cont x + 1) (vm_box st c)
        else map_option kmb_cont (vm_box st c))"
  shows "boxes_ok st'"
proof (rule boxes_ok_regions [OF ok])
  fix c assume c: "c \<in> boxes_of (regions st')"
  then have c0: "c \<noteq> 0" and c2: "c \<in> boxes_of (regions st)"
    by (auto simp: boxes_of_def l l' kb)
  obtain x where x: "vm_box st c = Some x"
    using boxes_okD(8) [OF ok c2] by blast
  then obtain x' where x': "vm_box st' c = Some x'"
    using cont [of c] by (cases "vm_box st' c") (auto split: if_splits)
  have "kmb_cont x' - of_nat (box_uses (regions st') c) = kmb_cont x - of_nat (box_uses (regions st) c)"
    using cont [of c] x x' c0 by (cases "c = kva_kvmbox k") (simp_all add: l l' kb)
  then show "\<exists>x x'. vm_box st c = Some x \<and> vm_box st' c = Some x' \<and>
        kmb_cont x' - of_nat (box_uses (regions st') c) = kmb_cont x - of_nat (box_uses (regions st) c)"
    using x x' by blast
next
  show "dom (vm_box st) \<subseteq> dom (vm_box st')"
  proof
    fix a assume "a \<in> dom (vm_box st)"
    then show "a \<in> dom (vm_box st')"
      using cont [of a] by (cases "vm_box st' a") (auto split: if_splits)
  qed
qed (use len kv in \<open>auto simp: l l' kb\<close>)

lemma del_hole:
  assumes ok: "vma_ok st B U" and l: "regions st = xs @ (p, k) # ys" and c: "kva_start k < start" "start + n < kva_end k"
    and obj: "obj_ok st obj" "obj \<noteq> 0" and cov: "covers start (start + n) k"
  defines "nw \<equiv> kmvarsdsc_t_init\<lparr>kva_end := kva_end k, kva_start := start + n, kva_limits := kva_limits k,
                       kva_maptype := kva_maptype k, kva_kvmbox := kva_kvmbox k\<rparr>"
  shows "\<exists>st'. andthen (knl_count_kvmemcbox (kva_kvmbox k) (setk p (\<lambda>k. k\<lparr>kva_end := start\<rparr>) st)) (\<lambda>st.
      andthen (vma_del_unmapping st p start n) (\<lambda>(ok, st).
        let st = upd_vs (\<lambda>v. v\<lparr>vs_list := add_after p (obj, nw) (vs_list v), vs_kmvdscnr := vs_kmvdscnr v + 1\<rparr>) st
        in andthen (next_kmvd obj (regions st)) (\<lambda>next.
           Inr (True, upd_vs (\<lambda>v. if next = None then v\<lparr>vs_endkmvdsc := obj, vs_currkmvdsc := obj\<rparr>
             else v\<lparr>vs_currkmvdsc := obj\<rparr>) st)))) = Inr (True, st') \<and> deleted B U start (start + n) obj st st' \<and>
      regions st' = xs @ (p, k\<lparr>kva_end := start\<rparr>) # (obj, k\<lparr>kva_start := start + n\<rparr>) # ys"
proof -
  let ?k1 = "k\<lparr>kva_end := start\<rparr>" and ?k2 = "k\<lparr>kva_start := start + n\<rparr>"
  have nw: "nw = ?k2"
    by (simp add: nw_def kmvarsdsc_t_init_def)
  note D = regs_okD [OF vma_okD(1) [OF ok]]
  note d = D(1) [unfolded l]
  define st2 where "st2 = with_regions (xs @ (p, ?k1) # ys) st"
  have s2: "setk p (\<lambda>k. k\<lparr>kva_end := start\<rparr>) st = st2"
    unfolding st2_def by (rule setk_at [OF d l])
  have "kva_kvmbox k = 0 \<or> kva_kvmbox k \<in> boxes_of (regions st)"
    by (simp add: l)
  moreover have "vm_box st2 = vm_box st"
    by (simp add: st2_def)
  ultimately obtain st3 where s3: "knl_count_kvmemcbox (kva_kvmbox k) st2 = Inr st3" "vm_mmu st3 = vm_mmu st2"
    "vm_vs st3 = vm_vs st2" "vm_kvs st3 = vm_kvs st2" "map_option box_pages \<circ> vm_box st3 = map_option box_pages \<circ> vm_box st"
    "\<And>c. map_option kmb_cont (vm_box st3 c) =
       (if c = kva_kvmbox k \<and> kva_kvmbox k \<noteq> 0 then map_option (\<lambda>x. kmb_cont x + 1) (vm_box st c)
        else map_option kmb_cont (vm_box st c))"
    using knl_count_ok [OF vma_okD(2) [OF ok], of "kva_kvmbox k" st2] by blast
  have l3: "regions st3 = xs @ (p, ?k1) # ys"
    by (simp add: s3(3) st2_def)
  have d3: "distinct (map fst (xs @ (p, ?k1) # ys))"
    using d by simp
  have "vm_mmu st3 = vm_mmu st"
    by (simp add: s3(2) st2_def)
  from del_unmapping [OF ok l cov this s3(5) getk_at [OF d3 l3 refl]] obtain r st4 U' where
    r: "vma_del_unmapping st3 p start n = Inr (r, st4)" "U' \<subseteq> U"
    "unmapped B (box_at (regions st)) (boxes_of (regions st)) (touched start (start + n)) (kva_kvmbox k) st3 st4 U'"
    by auto
  note M = unmappedD [OF r(3)]
  have l4: "regions st4 = xs @ (p, ?k1) # ys"
    by (simp add: M(2) l3)
  define st5 where "st5 = upd_vs (\<lambda>v. v\<lparr>vs_list := add_after p (obj, nw) (vs_list v), vs_kmvdscnr := vs_kmvdscnr v + 1\<rparr>) st4"
  have l5: "regions st5 = xs @ (p, ?k1) # (obj, ?k2) # ys"
    using add_after_place [OF place_fresh [OF d3]] l4 by (simp add: st5_def upd_vs_def nw)
  have ob: "obj \<notin> fst ` set (xs @ [(p, ?k1)])"
    using obj by (auto simp: obj_ok_def l)
  have nx: "next_kmvd obj (regions st5) = Inr (case ys of [] \<Rightarrow> None | y # zs \<Rightarrow> Some y)"
    using next_place [OF ob, of ?k2 ys] by (simp add: l5)
  define st' where "st' = upd_vs (\<lambda>v. if ys = [] then v\<lparr>vs_endkmvdsc := obj, vs_currkmvdsc := obj\<rparr>
      else v\<lparr>vs_currkmvdsc := obj\<rparr>) st5"
  have o: "regions st' = xs @ (p, ?k1) # (obj, ?k2) # ys" "vm_mmu st' = vm_mmu st4" "vm_box st' = vm_box st4"
    "vm_kvs st' = vm_kvs st4" "vs_currkmvdsc (vm_vs st') = obj" "vs_isalcend (vm_vs st') = vs_isalcend (vm_vs st4)"
    using l5 by (simp_all add: st'_def upd_vs_def st5_def)
  have cont: "map_option kmb_cont (vm_box st' c) =
       (if c = kva_kvmbox k \<and> kva_kvmbox k \<noteq> 0 then map_option (\<lambda>x. kmb_cont x + 1) (vm_box st c)
        else map_option kmb_cont (vm_box st c))" for c
    using s3(6) [of c] M(6) [of c] M(7) o(3) by (cases "c = kva_kvmbox k") simp_all
  have len: "length (regions st) < 2 ^ 31 - 1"
    using obj by (simp add: obj_ok_def)
  have kv: "vm_kvs st' = vm_kvs st"
    by (simp add: o(4) M(3) s3(4) st2_def)
  have bo: "boxes_ok st'"
    by (rule hole_boxes [OF vma_okD(2) [OF ok] l len o(1) _ _ kv cont]) simp_all
  have bs: "boxes_of (regions st') = boxes_of (regions st)"
    by (auto simp: o(1) l)
  have "remains p k start (start + n) obj = [(p, ?k1), (obj, ?k2)]"
    using c by (simp add: remains_def)
  then have "deleted B U start (start + n) obj st st'"
    unfolding deleted_def
    using l cov r(2) obj(2) bo M(1,2,4,5) o s3(2,3)
    by (intro exI [of _ xs] exI [of _ p] exI [of _ k] exI [of _ ys] exI [of _ U'])
      (simp add: bs st2_def with_regions_def upd_vs_def)
  moreover have "andthen (next_kmvd obj (regions st5)) (\<lambda>next.
           Inr (True, upd_vs (\<lambda>v. if next = None then v\<lparr>vs_endkmvdsc := obj, vs_currkmvdsc := obj\<rparr>
             else v\<lparr>vs_currkmvdsc := obj\<rparr>) st5)) = Inr (True, st')"
    unfolding nx st'_def by (cases ys) simp_all
  ultimately show ?thesis
    unfolding s2 using s3(1) r(1) o(1) by (intro exI [of _ st']) (simp add: Let_def st5_def)
qed

lemma vma_del_vadrs_core_ok:
  assumes ok: "vma_ok st B U" and obj: "obj_ok st obj" and al: "page_aligned n"
  obtains (no) "vma_del_vadrs_core st start n obj freed = Inr (False, st)"
    "n = 0 \<or> (\<forall>x \<in> set (regions st). \<not> covers start (start + n) (snd x)) \<or> obj = 0"
  | (yes) st' where "vma_del_vadrs_core st start n obj freed = Inr (True, st')" "deleted B U start (start + n) obj st st'"
proof (cases "n < 0x1000")
  case True
  then have "unat n < 0x1000"
    by (simp add: word_less_nat_alt)
  then have "unat n = 0"
    using al by (simp add: page_aligned_def)
  then have "n = 0"
    by (simp add: unsigned_eq_0_iff)
  then show ?thesis
    using no True by (simp add: vma_del_vadrs_core_def vma_del_find_kmvarsdsc_def Let_def)
next
  case False
  then have n: "0x1000 \<le> n"
    by simp
  let ?e = "start + n"
  note r = vma_okD(1) [OF ok] and find = vma_del_find_pick [OF n, of st start]
  from r show thesis
  proof (cases rule: pick_ok [where P = "covers start ?e"])
    case none
    then show ?thesis
      using no find by (simp add: vma_del_vadrs_core_def)
  next
    case (found xs p k ys)
    note l = found(3) and cov = found(4)
    note d = regs_okD(1) [OF r, unfolded l]
    have g: "getk st p = Inr k"
      by (rule getk_place [OF r l])
    have core: "vma_del_vadrs_core st start n obj freed = x" if
      "(if kva_start k = start \<and> kva_end k = ?e
          then andthen (vma_del_unmapping st p start n) (\<lambda>(ok, st).
               andthen (vma_del_set_endcurrkmvd st p) (\<lambda>st.
               andthen (getk st p) (\<lambda>k.
               andthen (knl_put_kvmemcbox (kva_kvmbox k) freed st) (\<lambda>(ok, st).
               Inr (True, upd_vs (\<lambda>v. v\<lparr>vs_list := filter (\<lambda>(q, k). q \<noteq> p) (vs_list v),
                 vs_kmvdscnr := vs_kmvdscnr v - 1\<rparr>) st)))))
          else if kva_start k = start \<and> kva_end k > ?e
          then andthen (vma_del_unmapping (with_regions (xs @ (p, k\<lparr>kva_start := ?e\<rparr>) # ys) st) p start n)
                 (\<lambda>(ok, st). Inr (True, st))
          else if kva_start k < start \<and> kva_end k = ?e
          then andthen (vma_del_unmapping (with_regions (xs @ (p, k\<lparr>kva_end := start\<rparr>) # ys) st) p start n)
                 (\<lambda>(ok, st). Inr (True, st))
          else if kva_start k < start \<and> kva_end k > ?e
          then (if obj = 0 then Inr (False, st)
            else let newkmvd = kmvarsdsc_t_init\<lparr>kva_end := kva_end k, kva_start := ?e, kva_limits := kva_limits k,
                       kva_maptype := kva_maptype k, kva_kvmbox := kva_kvmbox k\<rparr>;
                     st = setk p (\<lambda>k. k\<lparr>kva_end := start\<rparr>) st
                 in andthen (knl_count_kvmemcbox (kva_kvmbox k) st) (\<lambda>st.
                    andthen (vma_del_unmapping st p start n) (\<lambda>(ok, st).
                    let st = upd_vs (\<lambda>v. v\<lparr>vs_list := add_after p (obj, newkmvd) (vs_list v),
                          vs_kmvdscnr := vs_kmvdscnr v + 1\<rparr>) st
                    in andthen (next_kmvd obj (regions st)) (\<lambda>next.
                       Inr (True, upd_vs (\<lambda>v. if next = None then v\<lparr>vs_endkmvdsc := obj, vs_currkmvdsc := obj\<rparr>
                         else v\<lparr>vs_currkmvdsc := obj\<rparr>) st)))))
          else Inr (False, st)) = x" for x
      using that found(1,2) g setk_at [OF d l, of "\<lambda>k. k\<lparr>kva_start := ?e\<rparr>"] setk_at [OF d l, of "\<lambda>k. k\<lparr>kva_end := start\<rparr>"]
      unfolding vma_del_vadrs_core_def find by (simp only: andthen_simps Let_def if_False)
    have le: "kva_start k \<le> start" "?e \<le> kva_end k"
      using cov by (simp_all add: covers_def)
    consider (whole) "kva_start k = start" "kva_end k = ?e" | (front) "kva_start k = start" "?e < kva_end k"
      | (rear) "kva_start k < start" "kva_end k = ?e" | (hole) "kva_start k < start" "?e < kva_end k"
      using le by fastforce
    then show ?thesis
    proof cases
      case whole
      from del_whole [OF ok l whole al found(2), of freed obj] obtain st' where
        s: "andthen (vma_del_unmapping st p start n) (\<lambda>(ok, st).
               andthen (vma_del_set_endcurrkmvd st p) (\<lambda>st.
               andthen (getk st p) (\<lambda>k.
               andthen (knl_put_kvmemcbox (kva_kvmbox k) freed st) (\<lambda>(ok, st).
               Inr (True, upd_vs (\<lambda>v. v\<lparr>vs_list := filter (\<lambda>(q, k). q \<noteq> p) (vs_list v),
                 vs_kmvdscnr := vs_kmvdscnr v - 1\<rparr>) st))))) = Inr (True, st')" "deleted B U start ?e obj st st'"
        by (elim exE conjE) (rule that)
      show ?thesis
        by (rule yes [OF core s(2)]) (simp only: whole HOL.simp_thms if_True s(1))
    next
      case front
      then have "remains p k start ?e obj = [(p, k\<lparr>kva_start := ?e\<rparr>)]"
        by (simp add: remains_def)
      from del_edge [OF ok l cov this disjI1 [OF front(1)]] obtain b st' where
        s: "vma_del_unmapping (with_regions (xs @ (p, k\<lparr>kva_start := ?e\<rparr>) # ys) st) p start n = Inr (b, st')"
        "deleted B U start ?e obj st st'"
        by (elim exE conjE) (rule that)
      show ?thesis
        by (rule yes [OF core s(2)]) (simp only: front less_imp_neq [OF front(2), symmetric] HOL.simp_thms if_True if_False s(1) andthen_simps case_prod_conv)
    next
      case rear
      then have "remains p k start ?e obj = [(p, k\<lparr>kva_end := start\<rparr>)]"
        by (simp add: remains_def)
      from del_edge [OF ok l cov this disjI2 [OF rear(2)]] obtain b st' where
        s: "vma_del_unmapping (with_regions (xs @ (p, k\<lparr>kva_end := start\<rparr>) # ys) st) p start n = Inr (b, st')"
        "deleted B U start ?e obj st st'"
        by (elim exE conjE) (rule that)
      show ?thesis
        by (rule yes [OF core s(2)]) (simp only: rear less_imp_neq [OF rear(1)] less_irrefl HOL.simp_thms if_True if_False s(1) andthen_simps case_prod_conv)
    next
      case hole
      show ?thesis
      proof (cases "obj = 0")
        case True
        show ?thesis
          by (rule no [OF core]) (simp_all only: hole True less_imp_neq [OF hole(1)] less_imp_neq [OF hole(2), symmetric] HOL.simp_thms if_True if_False)
      next
        case False
        from del_hole [OF ok l hole obj False cov] obtain st' where s: "deleted B U start ?e obj st st'" and run:
          "andthen (knl_count_kvmemcbox (kva_kvmbox k) (setk p (\<lambda>k. k\<lparr>kva_end := start\<rparr>) st)) (\<lambda>st.
            andthen (vma_del_unmapping st p start n) (\<lambda>(ok, st).
              let st = upd_vs (\<lambda>v. v\<lparr>vs_list := add_after p (obj, kmvarsdsc_t_init\<lparr>kva_end := kva_end k,
                       kva_start := ?e, kva_limits := kva_limits k,
                       kva_maptype := kva_maptype k, kva_kvmbox := kva_kvmbox k\<rparr>) (vs_list v), vs_kmvdscnr := vs_kmvdscnr v + 1\<rparr>) st
              in andthen (next_kmvd obj (regions st)) (\<lambda>next.
                 Inr (True, upd_vs (\<lambda>v. if next = None then v\<lparr>vs_endkmvdsc := obj, vs_currkmvdsc := obj\<rparr>
                   else v\<lparr>vs_currkmvdsc := obj\<rparr>) st)))) = Inr (True, st')"
          by (elim exE conjE) (rule that)
        show ?thesis
          by (rule yes [OF core s]) (simp only: hole False less_imp_neq [OF hole(1)] less_imp_neq [OF hole(2), symmetric] HOL.simp_thms if_True if_False Let_def run [unfolded Let_def])
      qed
    qed
  qed
qed

section \<open>What a deletion does\<close>

lemma more_room_root: "more_room m m' \<Longrightarrow> phys_root m' = phys_root m \<and> ms_cr3 m' = ms_cr3 m"
  by (simp add: more_room_def space_frame_def phys_root_def)

lemma deleted_ok:
  assumes ok: "vma_ok st B U" and obj: "obj_ok st obj" and d: "deleted B U start e obj st st'"
    and al: "page_aligned start" "page_aligned e" and lt: "start < e"
  obtains U' where "U' \<subseteq> U" "vma_ok st' B U'" "region_adrs (regions st') = region_adrs (regions st) - {start..<e}"
    "{start..<e} \<subseteq> region_adrs (regions st)" "more_room (vm_mmu st) (vm_mmu st')"
    "\<And>v. user_adr v \<Longrightarrow> user_view (vm_mmu st') v = (if start \<le> v \<and> v < e then None else user_view (vm_mmu st) v)"
proof -
  from d obtain xs p k ys U' where l: "regions st = xs @ (p, k) # ys" "covers start e k" "U' \<subseteq> U"
     "regions st' = xs @ remains p k start e obj @ ys" "kva_start k < start \<and> e < kva_end k \<longrightarrow> obj \<noteq> 0"
     "boxes_ok st'" "pages_ok (vm_mmu st') (vm_box st') B (box_at (regions st)) (boxes_of (regions st')) U'"
     "more_room (vm_mmu st) (vm_mmu st')"
     "\<forall>v. user_adr v \<longrightarrow> user_view (vm_mmu st') v = (if touched start e v then None else user_view (vm_mmu st) v)"
     "vs_isalcend (vm_vs st') = vs_isalcend (vm_vs st)"
     "vs_currkmvdsc (vm_vs st') = 0 \<or> vs_currkmvdsc (vm_vs st') \<in> fst ` set (regions st')"
    unfolding deleted_def by blast
  have view: "user_view (vm_mmu st') v = (if start \<le> v \<and> v < e then None else user_view (vm_mmu st) v)" if "user_adr v" for v
    using l(9) that touched_range [OF al] by simp
  have c: "kva_start k \<le> start" "e \<le> kva_end k"
    using l(2) by (simp_all add: covers_def)
  have new: "obj \<noteq> 0 \<and> obj \<notin> fst ` set (regions st)" if "kva_start k < start \<and> e < kva_end k"
    using that l(5) obj by (simp add: obj_ok_def)
  note R = remains_regs [OF vma_okD(1) [OF ok] l(1) c(1) lt c(2) al new l(4,10,11)]
  have "pages_ok (vm_mmu st') (vm_box st') B (box_at (regions st')) (boxes_of (regions st')) U'"
  proof (rule pages_ok_bx [OF l(7)])
    fix v assume v: "user_adr v" "user_view (vm_mmu st') v \<noteq> None"
    then have o: "\<not> (start \<le> v \<and> v < e)" "user_view (vm_mmu st) v \<noteq> None"
      using view [OF v(1)] by (simp_all split: if_splits)
    have op: "\<not> (start \<le> page_base v \<and> page_base v < e)"
      using o(1) page_base_ge [OF al(1), of v] page_base_ge [OF al(2), of v] by (simp add: not_le [symmetric])
    obtain x where x: "x \<in> set (regions st)" "holds_adr (page_base v) (snd x)" "box_at (regions st) v = kva_kvmbox (snd x)"
      by (rule mapped_in_region [OF ok v(1) o(2)])
    obtain y where y: "y \<in> set (regions st')" "holds_adr (page_base v) (snd y)" "kva_kvmbox (snd y) = kva_kvmbox (snd x)"
    proof (cases "x = (p, k)")
      case True
      then have "\<exists>y \<in> set (remains p k start e obj). holds_adr (page_base v) (snd y)"
        using x(2) op remains_holds [OF c(1) less_imp_le [OF lt] c(2)] by simp
      then obtain y where "y \<in> set (remains p k start e obj)" "holds_adr (page_base v) (snd y)"
        by blast
      then show ?thesis
        using that [of y] remains_same(1) [of y] True l(4) by simp
    next
      case False
      then show ?thesis
        using x l(1) by (intro that [of x]) (auto simp: l(4))
    qed
    then show "box_at (regions st') v = box_at (regions st) v"
      using box_at_page [OF R(1) y(1,2)] x(3) by simp
  qed
  then have "vma_ok st' B U'"
    using R(1) l(6) vma_okD(3) [OF ok] more_room_root [OF l(8)] by (simp add: vma_ok_def)
  moreover have "{start..<e} \<subseteq> region_adrs (regions st)"
    using c by (force simp: l(1) region_adrs_def holds_adr_def)
  ultimately show ?thesis
    using that [OF l(3) _ R(2) _ l(8) view] by blast
qed

lemma vma_del_vadrs_returns:
  assumes "vma_ok st B U" "obj_ok st obj"
  shows "\<exists>ok st'. vma_del_vadrs st start size_t obj freed = Inr (ok, st')"
proof -
  have "\<exists>ok st'. vma_del_vadrs_core st start (VADSZ_ALIGN size_t) obj freed = Inr (ok, st')"
    by (rule vma_del_vadrs_core_ok [OF assms VADSZ_ALIGN_aligned]) blast+
  then show ?thesis
    unfolding vma_del_vadrs_def by (cases "size_t < 1 \<or> start = 0") (simp only: if_True, blast, simp only: if_False)
qed

text \<open>What may be given back: whole pages, in one region.\<close>

definition release_ok :: "vmst \<Rightarrow> u64 \<Rightarrow> u64 \<Rightarrow> bool" where
  "release_ok st start size_t \<longleftrightarrow> start \<noteq> 0 \<and> 0 < size_t \<and> unat start + round_up (unat size_t) < 2 ^ 64 \<and>
     (\<exists>x \<in> set (regions st). kva_start (snd x) \<le> start \<and> unat start + round_up (unat size_t) \<le> unat (kva_end (snd x)))"

lemma vma_del_vadrs_ok:
  assumes ok: "vma_ok st B U" and obj: "obj_ok st obj" and al: "page_aligned start"
    and w: "unat start + unat size_t + 0xfff < 2 ^ 64"
  defines "e \<equiv> start + VADSZ_ALIGN size_t"
  obtains (no) "vma_del_vadrs st start size_t obj freed = Inr (False, st)" "release_ok st start size_t \<longrightarrow> obj = 0"
  | (yes) st' U' where "vma_del_vadrs st start size_t obj freed = Inr (True, st')" "U' \<subseteq> U" "vma_ok st' B U'"
    "region_adrs (regions st') = region_adrs (regions st) - {start..<e}" "{start..<e} \<subseteq> region_adrs (regions st)"
    "more_room (vm_mmu st) (vm_mmu st')"
    "\<And>v. user_adr v \<Longrightarrow> user_view (vm_mmu st') v = (if start \<le> v \<and> v < e then None else user_view (vm_mmu st) v)"
proof (cases "start = 0 \<or> size_t = 0")
  case True
  then show ?thesis
    using no by (auto simp: vma_del_vadrs_def release_ok_def)
next
  case False
  let ?n = "VADSZ_ALIGN size_t"
  have core: "vma_del_vadrs st start size_t obj freed = vma_del_vadrs_core st start ?n obj freed"
    using False by (auto simp: vma_del_vadrs_def word_less_1)
  have u: "unat ?n = round_up (unat size_t)"
    using w by (intro VADSZ_ALIGN_round) simp
  then have ue: "unat e = unat start + round_up (unat size_t)"
    unfolding e_def using w round_up_bounds(2) [of "unat size_t"] by (simp add: unat_word_ariths)
  have pos: "0x1000 \<le> round_up (unat size_t)"
    by (rule round_up_bounds(4)) (use False in \<open>simp add: unat_gt_0\<close>)
  have al': "page_aligned e"
    using al round_up_bounds(3) [of "unat size_t"] unfolding page_aligned_def ue by (simp add: mod_add_eq [symmetric])
  have lt: "start < e"
    using pos by (simp add: word_less_nat_alt ue)
  show thesis
  proof (rule vma_del_vadrs_core_ok [OF ok obj VADSZ_ALIGN_aligned [of size_t], of start freed])
    assume n: "vma_del_vadrs_core st start ?n obj freed = Inr (False, st)"
      "?n = 0 \<or> (\<forall>x \<in> set (regions st). \<not> covers start (start + ?n) (snd x)) \<or> obj = 0"
    have "?n \<noteq> 0"
      using u pos by auto
    then have "release_ok st start size_t \<longrightarrow> obj = 0"
      using n(2) ue by (auto simp: release_ok_def covers_def word_le_nat_alt e_def)
    then show ?thesis
      using no core n(1) by simp
  next
    fix st' assume y: "vma_del_vadrs_core st start ?n obj freed = Inr (True, st')" "deleted B U start (start + ?n) obj st st'"
    then show ?thesis
      using deleted_ok [OF ok obj y(2) [folded e_def] al al' lt] yes core by metis
  qed
qed

end
