(* ===== verification/VmaFault.thy ===== *)
theory VmaFault
  imports VmaInv
begin

text \<open>
  Page faults: a region gets a box when it has none, a page is found for the address and its translation entered, text of a
  program is copied in from its file; when no page is left everything is as before.
\<close>

section \<open>A box for a region\<close>

lemma box_entered:
  assumes ok: "vma_ok st B U" and l: "regions st = xs @ (p, k) # ys" and k0: "kva_kvmbox k = 0"
    and b: "b \<noteq> 0" "b \<notin> boxes_of (regions st)" "b \<notin> set (kbm_kmbhead (boxmgr st))"
    and x: "kmb_cont x = 1" "kmb_msalist x = []" "kmb_msanr x = 0"
    and g: "kbm_kmbhead g = b # kbm_kmbhead (boxmgr st)" "distinct (kbm_cachehead g)" "b \<notin> set (kbm_cachehead g)"
      "set (kbm_cachehead g) \<subseteq> set (kbm_cachehead (boxmgr st))" "kbm_cachenr g = of_nat (length (kbm_cachehead g))"
      "length (kbm_cachehead g) \<le> unat (kbm_cachemax g)"
    and m: "vm_mmu st' = vm_mmu st" "boxmgr st' = g" "vm_box st' = (vm_box st)(b \<mapsto> x)"
      "vm_vs st' = (vm_vs st)\<lparr>vs_list := xs @ (p, k\<lparr>kva_kvmbox := b\<rparr>) # ys\<rparr>"
  shows "vma_ok st' B U"
proof -
  note R = regs_okD [OF vma_okD(1) [OF ok]] and D = boxes_okD [OF vma_okD(2) [OF ok]] and P = vma_okD(4) [OF ok]
  let ?k' = "k\<lparr>kva_kvmbox := b\<rparr>"
  have l': "regions st' = xs @ (p, ?k') # ys"
    by (simp add: m(4))
  have bs: "boxes_of (regions st') = insert b (boxes_of (regions st))"
    using b(1) by (auto simp: l' l k0)
  have uses: "box_uses (regions st') c = (if c = b then 1 else box_uses (regions st) c)" if "c \<noteq> 0" for c
    using b that by (auto simp: l' l k0 boxes_of_uses)
  have srt: "sorted_wrt before (regions st')"
    using R(4) unfolding l' l by (simp add: sorted_wrt_append before_def)
  have "region_ok ?k'"
    using R(3) [of "(p, k)"] by (simp add: l region_ok_def)
  then have rk: "\<forall>x \<in> set (regions st'). region_ok (snd x)"
    using R(3) by (auto simp: l l')
  have r': "regs_ok (vm_vs st')"
    unfolding regs_ok_def using R(1,2,5) R(6) srt rk by (cases "vs_currkmvdsc (vm_vs st) = 0") (simp_all add: m(4) l)
  have "boxes_ok st'"
    unfolding boxes_ok_def Let_def m(2) bs
  proof (intro conjI ballI)
    show "distinct (kbm_kmbhead g @ kbm_cachehead g)" "0 \<notin> set (kbm_kmbhead g @ kbm_cachehead g)"
      using D(1,2) g b by auto
    show "set (kbm_kmbhead g @ kbm_cachehead g) \<subseteq> dom (vm_box st')" "insert b (boxes_of (regions st)) \<subseteq> set (kbm_kmbhead g)"
      using D(3,4) g by (auto simp: m(3))
    show "length (regions st') < 2 ^ 31"
      using D(7) by (simp add: l' l)
    show "\<exists>y. vm_box st' c = Some y \<and> kmb_cont y = of_nat (box_uses (regions st') c)" if "c \<in> insert b (boxes_of (regions st))" for c
    proof (cases "c = b")
      case True
      then show ?thesis
        using uses [OF b(1)] x(1) by (simp add: m(3))
    next
      case False
      then have c: "c \<in> boxes_of (regions st)"
        using that by simp
      then have "c \<noteq> 0"
        by (simp add: boxes_of_def)
      then show ?thesis
        using D(8) [OF c] uses False by (simp add: m(3))
    qed
  qed (use g in simp_all)
  moreover have "pages_ok (vm_mmu st) (vm_box st') B (box_at (regions st)) (boxes_of (regions st)) U"
  proof (rule pages_ok_box [OF P])
    fix c assume c: "c \<in> boxes_of (regions st)"
    then show "\<exists>x x'. vm_box st c = Some x \<and> vm_box st' c = Some x' \<and> kmb_msalist x' = kmb_msalist x \<and> kmb_msanr x' = kmb_msanr x"
      using D(8) [OF c] b(2) m(3) by auto
  qed
  then have "pages_ok (vm_mmu st) (vm_box st') B (box_at (regions st')) (boxes_of (regions st)) U"
  proof (rule pages_ok_bx)
    fix v assume v: "user_adr v" "user_view (vm_mmu st) v \<noteq> None"
    then obtain y where y: "y \<in> set (regions st)" "holds_adr (page_base v) (snd y)" "kva_kvmbox (snd y) \<in> boxes_of (regions st)"
      "box_at (regions st) v = kva_kvmbox (snd y)"
      by (rule mapped_in_region [OF ok])
    then have "y \<noteq> (p, k)"
      using k0 by (auto simp: boxes_of_def)
    then have "y \<in> set (regions st')"
      using y(1) by (auto simp: l l')
    then show "box_at (regions st') v = box_at (regions st) v"
      using box_at_page [OF r' _ y(2)] y(4) by simp
  qed
  then have "pages_ok (vm_mmu st) (vm_box st') B (box_at (regions st')) (boxes_of (regions st')) U"
    unfolding bs by (rule pages_ok_add [OF _ b(1) _ x(2,3)]) (simp_all add: m(3))
  ultimately show ?thesis
    using r' vma_okD(3) [OF ok] by (simp add: vma_ok_def m(1))
qed

text \<open>A region has a box, or gets one; the object cache is asked only where no box is kept.\<close>

definition box_left :: "vmst \<Rightarrow> u64 \<Rightarrow> bool" where
  "box_left st obj \<longleftrightarrow> obj \<noteq> 0 \<or> kbm_cachehead (boxmgr st) \<noteq> []"

lemma vma_map_retn_kvmemcbox_ok:
  assumes ok: "vma_ok st B U" and l: "regions st = xs @ (p, k) # ys" and obj: "obj_ok st obj" "kva_kvmbox k \<noteq> 0 \<or> box_left st obj"
  obtains b st' where "vma_map_retn_kvmemcbox p obj st = Inr (b, st')" "b \<noteq> 0" "vm_mmu st' = vm_mmu st" "vma_ok st' B U"
    "regions st' = xs @ (p, k\<lparr>kva_kvmbox := b\<rparr>) # ys"
proof -
  note R = regs_okD [OF vma_okD(1) [OF ok]] and D = boxes_okD [OF vma_okD(2) [OF ok]]
  note d = R(1) [unfolded l] and result = that
  have g: "getk st p = Inr k" and p0: "p \<noteq> 0"
    using getk_at [OF R(1) refl l] R(2) by (auto simp: l)
  show ?thesis
  proof (cases "kva_kvmbox k = 0")
    case False
    then show ?thesis
      using that [of "kva_kvmbox k" st] ok l g p0 by (simp add: vma_map_retn_kvmemcbox_def)
  next
    case True
    have final: thesis
      if e: "knl_get_kvmemcbox obj st = Inr (b, st1)" "st1 = st\<lparr>vm_kvs := (vm_kvs st)\<lparr>kvs_kvmemcboxmgr := mgr\<rparr>,
          vm_box := (vm_box st)(b \<mapsto> refcount_inc kvmemcbox_t_init)\<rparr>"
        and b: "b \<noteq> 0" "b \<notin> boxes_of (regions st)" "b \<notin> set (kbm_kmbhead (boxmgr st))"
        and mgr: "kbm_kmbhead mgr = b # kbm_kmbhead (boxmgr st)" "distinct (kbm_cachehead mgr)" "b \<notin> set (kbm_cachehead mgr)"
      "set (kbm_cachehead mgr) \<subseteq> set (kbm_cachehead (boxmgr st))" "kbm_cachenr mgr = of_nat (length (kbm_cachehead mgr))"
      "length (kbm_cachehead mgr) \<le> unat (kbm_cachemax mgr)" for b st1 mgr
    proof -
      have "regions st1 = xs @ (p, k) # ys"
        by (simp add: e(2) l)
      note s = setk_at [OF d this, of "\<lambda>k. k\<lparr>kva_kvmbox := b\<rparr>"]
      have "vma_ok (setk p (\<lambda>k. k\<lparr>kva_kvmbox := b\<rparr>) st1) B U" unfolding s
        by (rule box_entered [OF ok l True b _ _ _ mgr])
          (simp_all add: e(2) refcount_inc_def kvmemcbox_t_init_def with_regions_def upd_vs_def)
      moreover have "vma_map_retn_kvmemcbox p obj st = Inr (b, setk p (\<lambda>k. k\<lparr>kva_kvmbox := b\<rparr>) st1)"
        using p0 g True e(1) b(1) by (simp add: vma_map_retn_kvmemcbox_def)
      ultimately show thesis
        using result [of b "setk p (\<lambda>k. k\<lparr>kva_kvmbox := b\<rparr>) st1"] b(1) s by (simp add: e(2))
    qed
    have len: "length (kbm_cachehead (boxmgr st)) < 2 ^ 64"
      using D(6) unsigned_less [where 'a = nat, of "kbm_cachemax (boxmgr st)"] by simp
    show ?thesis
    proof (cases "kbm_cachehead (boxmgr st)")
      case (Cons b rest)
      have "b \<in> set (kbm_cachehead (boxmgr st))"
        by (simp add: Cons)
      then have b: "b \<noteq> 0" "b \<notin> boxes_of (regions st)" "b \<notin> set (kbm_kmbhead (boxmgr st))"
        using D(1,2,4) by auto
      have pos: "0 < kbm_cachenr (boxmgr st)"
        using D(5) u64_of_nat [OF len] by (simp add: word_less_nat_alt Cons)
      define mgr where "mgr = (boxmgr st)\<lparr>kbm_cachehead := rest, kbm_cachenr := kbm_cachenr (boxmgr st) - 1,
         kbm_kmbhead := b # kbm_kmbhead (boxmgr st), kbm_kmbnr := kbm_kmbnr (boxmgr st) + 1\<rparr>"
      have e: "knl_get_kvmemcbox obj st = Inr (b, st\<lparr>vm_kvs := (vm_kvs st)\<lparr>kvs_kvmemcboxmgr := mgr\<rparr>,
          vm_box := (vm_box st)(b \<mapsto> refcount_inc kvmemcbox_t_init)\<rparr>)"
        using pos by (simp add: knl_get_kvmemcbox_def Let_def Cons getbox_def setbox_def upd_mgr_def mgr_def)
      show ?thesis
        by (rule final [OF e refl b]) (use D(1,5,6) in \<open>auto simp: mgr_def Cons\<close>)
    next
      case Nil
      then have o: "obj \<noteq> 0" "obj \<notin> dom (vm_box st)"
        using obj True by (auto simp: box_left_def obj_ok_def)
      then have b: "obj \<notin> boxes_of (regions st)" "obj \<notin> set (kbm_kmbhead (boxmgr st))"
        using D(3,4) by auto
      define mgr where "mgr = (boxmgr st)\<lparr>kbm_kmbhead := obj # kbm_kmbhead (boxmgr st), kbm_kmbnr := kbm_kmbnr (boxmgr st) + 1\<rparr>"
      have e: "knl_get_kvmemcbox obj st = Inr (obj, st\<lparr>vm_kvs := (vm_kvs st)\<lparr>kvs_kvmemcboxmgr := mgr\<rparr>,
          vm_box := (vm_box st)(obj \<mapsto> refcount_inc kvmemcbox_t_init)\<rparr>)"
        using o(1) Nil by (simp add: knl_get_kvmemcbox_def new_kvmemcbox_def Let_def getbox_def setbox_def upd_mgr_def mgr_def)
      show ?thesis
        by (rule final [OF e refl o(1) b]) (use D(5,6) Nil in \<open>auto simp: mgr_def\<close>)
    qed
  qed
qed

section \<open>Page faults\<close>

text \<open>The words of a user's page are nobody else's.\<close>

lemma user_page_write:
  fixes f :: "nat \<Rightarrow> u64"
  assumes ok: "pages_ok m box B bx K U" and i: "b \<in> K" "i \<in> pages_of box b"
  defines "m' \<equiv> set_page m (pg_vadr (ms_grob m) i) f"
  shows "pages_ok m' box B bx K U" "user_adr v \<Longrightarrow> user_view m' v = user_view m v" "space_frame m m'"
proof -
  note D = pages_okD [OF ok] and ok1 = pages_okD(1) [OF ok]
  from user_page_facts [OF ok i] have i': "i < npages (ms_grob m)" "i \<notin> tpages (ms_mmu m)"
    unfolding mmu_pages_def by blast+
  have w: "with_space m (ms_mmu m) = m" "with_space m' (ms_mmu m) = m'"
    by (simp_all add: with_space_def m'_def set_page_def)
  have g: "ms_grob m' = ms_grob m"
    by (simp add: m'_def set_page_def)
  have other: "pg_vadr (ms_grob m) j \<noteq> pg_vadr (ms_grob m) i" if "j \<in> tpages (ms_mmu m)" for j
    using vadr_inj [OF ok1, of j i] tpage_facts(1) [OF ok1 that] i' that by auto
  then have mem: "ms_mem m' (pg_vadr (ms_grob m) j) = ms_mem m (pg_vadr (ms_grob m) j)" if "j \<in> tpages (ms_mmu m)" for j
    using that by (simp add: m'_def set_page_def)
  have k: "mmu_ok m' (B \<union> U) {} \<and> (\<forall>v. user_adr v \<longrightarrow> user_view m' v = user_view m v)"
    using space_kept [of m "ms_mmu m" "B \<union> U" m' "B \<union> U"] mem mmu_okD(2,3) [OF ok1] ok1 unfolding w g by blast
  then show "user_adr v \<Longrightarrow> user_view m' v = user_view m v"
    by blast
  have st: "statics (ms_grob m') = statics (ms_grob m)"
    by (simp add: g)
  show "pages_ok m' box B bx K U"
    using pages_ok_unmoved [OF ok _ st] k by blast
  have "table m [] \<noteq> 0" "depth Tdir = length ([] :: nat list)"
    using mmu_okD(4) [OF ok1] by simp_all
  then obtain j where "j \<in> set (dir_head Tdir (ms_mmu m))" "root m = pg_vadr (ms_grob m) j"
    using table_page [OF ok1 upath_Nil, of Tdir] by auto
  then have "root m \<noteq> pg_vadr (ms_grob m) i"
    using other [OF head_tpages] by metis
  then show "space_frame m m'"
    by (simp add: space_frame_def m'_def set_page_def)
qed

text \<open>What a fault in a region of a program needs: the program's file.\<close>

definition app_ready :: "vmst \<Rightarrow> u64 \<Rightarrow> appfile option \<Rightarrow> bool" where
  "app_ready st va app \<longleftrightarrow> (\<forall>x \<in> set (regions st). holds_adr va (snd x) \<and> kva_maptype (snd x) = KMV_BIN_TYPE \<longrightarrow>
     (case app of None \<Rightarrow> False | Some f \<Rightarrow> app_rvadr f \<noteq> 0 \<and> app_size f \<noteq> 0))"

text \<open>The words of the file that belong at an address of the region \<open>k\<close>.\<close>

definition bin_words :: "appfile \<Rightarrow> kmvarsdsc \<Rightarrow> u64 \<Rightarrow> nat \<Rightarrow> u64" where
  "bin_words f k va = app_words f (app_rvadr f + push_bit 12 (drop_bit 12 (va - kva_start k)))"

lemma vma_full_textbin_ok:
  assumes ok: "pages_ok (vm_mmu st) (vm_box st) B bx K U" and c: "ms_cr3 (vm_mmu st) = phys_root (vm_mmu st)"
    and g: "getk st p = Inr k" and va: "user_adr va" "user_view (vm_mmu st) va = Some (pg_adr (grob st) i)"
    and i: "b \<in> K" "i \<in> pages_of (vm_box st) b"
    and app: "kva_maptype k = KMV_BIN_TYPE \<Longrightarrow> case app of None \<Rightarrow> False | Some f \<Rightarrow> app_rvadr f \<noteq> 0 \<and> app_size f \<noteq> 0"
  shows "vma_full_textbin p va app st = Inr (if kva_maptype k = KMV_BIN_TYPE
     then upd_mmu (\<lambda>m. set_page m (pg_vadr (grob st) i) (bin_words (the app) k va)) st else st)"
proof (cases "kva_maptype k = KMV_BIN_TYPE")
  case True
  then obtain f where f: "app = Some f" "app_rvadr f \<noteq> 0" "app_size f \<noteq> 0"
    using app by (cases app) auto
  have "page_base va \<le> va"
    by (rule page_base_le)
  then have u: "user_adr (page_base va)"
    using va(1) by (simp add: user_adr_def)
  have "same_page (page_base va) va"
    by (simp add: same_page_iff page_base_div)
  then have "user_view (vm_mmu st) (page_base va) = Some (pg_adr (grob st) i)"
    using view_same_page [OF pages_okD(1) [OF ok] u va(1)] va(2) by simp
  then have "x86_translate (ms_mem (vm_mmu st)) (ms_cr3 (vm_mmu st)) (and va (not 0xfff)) = Some (pg_adr (grob st) i)"
    unfolding user_view_def c page_base_def .
  then show ?thesis
    using True f g by (simp add: vma_full_textbin_def pg_vadr_def kva_def bin_words_def)
qed (use g in \<open>simp add: vma_full_textbin_def\<close>)

definition fault_done :: "blocks \<Rightarrow> blocks \<Rightarrow> u64 \<Rightarrow> appfile option \<Rightarrow> vmst \<Rightarrow> vmst \<Rightarrow> bool" where
  "fault_done B U va app st st' \<longleftrightarrow> (\<exists>x. vma_ok st' B (insert x U) \<and> x \<notin> U \<and> pno x \<in> page_vacant (grob st) \<and>
     (\<forall>v. user_adr v \<longrightarrow> user_view (vm_mmu st') v = (if same_page v va then Some (pg_adr (grob st) (pno x)) else user_view (vm_mmu st) v)) \<and>
     (\<forall>y \<in> set (regions st). holds_adr va (snd y) \<and> kva_maptype (snd y) = KMV_BIN_TYPE \<longrightarrow>
        ms_mem (vm_mmu st') (pg_vadr (grob st) (pno x)) = bin_words (the app) (snd y) va))"

lemma vma_map_fairvadrs_ok:
  assumes ok: "vma_ok st B U" and obj: "obj_ok st obj" "box_left st obj" and n: "user_view (vm_mmu st) va = None"
    and app: "app_ready st va app"
  obtains (outside) "vma_map_fairvadrs st va obj app = Inr (- EPARAM, st)" "va < 0x1000 \<or> USER_END < va"
  | (nowhere) "vma_map_fairvadrs st va obj app = Inr (- EFAULT, st)" "va \<notin> region_adrs (regions st)" "0x1000 \<le> va" "va \<le> USER_END"
  | (nomem) st' where "vma_map_fairvadrs st va obj app = Inr (- ENOMEM, st')" "va \<in> region_adrs (regions st)" "vma_ok st' B U"
    "region_adrs (regions st') = region_adrs (regions st)" "\<And>v. user_adr v \<Longrightarrow> user_view (vm_mmu st') v = user_view (vm_mmu st) v"
    "mem_kept (vm_mmu st) (vm_mmu st')" "\<not> room_left (vm_mmu st)"
  | (mapped) st' where "vma_map_fairvadrs st va obj app = Inr (EOK, st')" "va \<in> region_adrs (regions st)"
    "region_adrs (regions st') = region_adrs (regions st)" "mem_kept (vm_mmu st) (vm_mmu st')" "fault_done B U va app st st'"
proof (cases "va < 0x1000 \<or> USER_END < va")
  case True
  then show ?thesis
    using outside by (simp add: vma_map_fairvadrs_def)
next
  case False
  then have va: "user_adr va" "0x1000 \<le> va" "va \<le> USER_END"
    by (simp_all add: user_adr_def USER_END_def word_le_nat_alt word_less_nat_alt)
  have start: "vma_map_fairvadrs st va obj app = vma_map_fairvadrs_core st va obj app"
    using False by (auto simp: vma_map_fairvadrs_def)
  note r = vma_okD(1) [OF ok]
  from r show thesis
  proof (cases rule: pick_ok [where P = "holds_adr va"])
    case none
    then show ?thesis
      using nowhere start va by (simp add: vma_map_fairvadrs_core_def vma_map_find_pick region_adrs_def)
  next
    case (found xs p k ys)
    note l = found(3)
    have mem: "va \<in> region_adrs (regions st)"
      using l found(4) by (auto simp: region_adrs_def)
    have same_k: "snd y = k" if "y \<in> set (regions st)" "holds_adr va (snd y)" for y
      using region_unique [OF regs_okD(4) [OF r], of y "(p, k)" va] regs_okD(3) [OF r] that l found(4) by force
    have "kva_kvmbox k \<noteq> 0 \<or> box_left st obj"
      using obj by blast
    from vma_map_retn_kvmemcbox_ok [OF ok l obj(1) this] obtain b st1 where
      b: "vma_map_retn_kvmemcbox p obj st = Inr (b, st1)" "b \<noteq> 0" "vm_mmu st1 = vm_mmu st" "vma_ok st1 B U"
      "regions st1 = xs @ (p, k\<lparr>kva_kvmbox := b\<rparr>) # ys"
      by blast
    let ?k = "k\<lparr>kva_kvmbox := b\<rparr>" and ?bx = "box_at (regions st1)" and ?K = "boxes_of (regions st1)"
    have adrs: "region_adrs (regions st1) = region_adrs (regions st)"
      by (simp add: b(5) l)
    have x1: "(p, ?k) \<in> set (regions st1)" "holds_adr va (snd (p, ?k))"
      using found(4) by (simp_all add: b(5) holds_adr_def)
    have bx: "?bx va = b"
      using box_at_region [OF vma_okD(1) [OF b(4)] x1] by simp
    have bK: "?bx va \<in> ?K"
      unfolding bx using b(2) by (simp add: b(5))
    have bxs: "?bx v = ?bx va" if "user_adr v" "same_page v va" for v
      using that(2) by (simp add: box_at_def page_base_eq [symmetric])
    note P = vma_okD(4) [OF b(4)]
    obtain y where y: "vm_box st1 (?bx va) = Some y"
      using pages_okD(6) [OF P bK] by blast
    have g1: "getk st1 p = Inr ?k"
      by (rule getk_at [OF regs_okD(1) [OF vma_okD(1) [OF b(4)]] refl b(5)])
    have core: "vma_map_fairvadrs_core st va obj app = andthen (vma_map_msa_fault (?bx va) va 7 st1) (\<lambda>(phyadrs, st).
         if phyadrs = 0 then Inr (- ENOMEM, st) else andthen (vma_full_textbin p va app st) (\<lambda>st. Inr (EOK, st)))"
      using found(1,2) b(1,2) g1 by (simp add: vma_map_fairvadrs_core_def vma_map_find_pick vma_map_phyadrs_def bx)
    have n1: "user_view (vm_mmu st1) va = None"
      using n by (simp add: b(3))
    show ?thesis
    proof (rule vma_map_msa_fault_ok [OF P va(1,2) n1 bK bxs y])
      fix m assume no: "vma_map_msa_fault (?bx va) va 7 st1 = Inr (0, st1\<lparr>vm_mmu := m\<rparr>)" "pages_ok m (vm_box st1) B ?bx ?K U"
        "\<And>v. user_adr v \<Longrightarrow> user_view m v = user_view (vm_mmu st1) v" "mem_kept (vm_mmu st1) m" "\<not> room_left (vm_mmu st1)"
      let ?st = "st1\<lparr>vm_mmu := m\<rparr>"
      have "vma_ok ?st B U"
        using b(4) no(2,4) by (simp add: vma_ok_def boxes_ok_def mem_kept_def space_frame_def phys_root_def)
      then show ?thesis
        using nomem [of ?st] mem no(1,3-5) core adrs by (simp add: start b(3))
    next
      fix x m box
      assume yes: "vma_map_msa_fault (?bx va) va 7 st1 = Inr (pg_adr (grob st1) (pno x), st1\<lparr>vm_mmu := m, vm_box := box\<rparr>)"
        "pg_adr (grob st1) (pno x) \<noteq> 0" "pages_ok m box B ?bx ?K (insert x U)" "pno x \<in> page_vacant (grob st1)"
        "\<And>v. user_adr v \<Longrightarrow> user_view m v = (if same_page v va then Some (pg_adr (grob st1) (pno x)) else user_view (vm_mmu st1) v)"
        "mem_kept (vm_mmu st1) m" "map_option kmb_cont \<circ> box = map_option kmb_cont \<circ> vm_box st1"
      define st2 where "st2 = st1\<lparr>vm_mmu := m, vm_box := box\<rparr>"
      have cont: "map_option kmb_cont (box c) = map_option kmb_cont (vm_box st1 c)" for c
        using fun_cong [OF yes(7), of c] by simp
      have dom: "dom (vm_box st1) \<subseteq> dom box"
        using cont by (metis (no_types, lifting) domIff option.map_disc_iff subsetI)
      have P2: "pages_ok (vm_mmu st2) (vm_box st2) B ?bx ?K (insert x U)"
        using yes(3) by (simp add: st2_def)
      have st2: "statics (grob st2) = statics (grob st)"
        using yes(6) by (simp add: st2_def mem_kept_def space_frame_def b(3))
      then have pa: "pg_adr (grob st2) = pg_adr (grob st)" "pg_vadr (grob st2) = pg_vadr (grob st)"
        using pg_statics by blast+
      have v2: "user_view (vm_mmu st2) va = Some (pg_adr (grob st2) (pno x))"
        unfolding pa using yes(5) [OF va(1)] by (simp add: st2_def b(3) same_page_def)
      have i2: "pno x \<in> pages_of (vm_box st2) (?bx va)"
      proof -
        obtain j where j: "j \<in> pages_of (vm_box st2) (?bx va)" "pg_adr (grob st2) (pno x) = pg_adr (grob st2) j"
          using pages_okD(8) [OF P2 va(1) v2] by blast
        have "pno x \<in> pno ` insert x U"
          by simp
        then obtain c where c: "c \<in> ?K" "pno x \<in> pages_of (vm_box st2) c"
          unfolding pages_okD(5) [OF P2] by blast
        then have "j = pno x"
          using user_adr_inj [OF P2 c bK j(1)] j(2) by simp
        then show ?thesis
          using j(1) by simp
      qed
      have cr: "ms_cr3 (vm_mmu st2) = phys_root (vm_mmu st2)"
        using yes(6) vma_okD(3) [OF b(4)] by (simp add: st2_def mem_kept_def space_frame_def phys_root_def)
      have g2: "getk st2 p = Inr ?k"
        using g1 by (simp add: getk_def st2_def)
      have "case app of None \<Rightarrow> False | Some f \<Rightarrow> app_rvadr f \<noteq> 0 \<and> app_size f \<noteq> 0" if "kva_maptype ?k = KMV_BIN_TYPE"
        using app that found(4) by (simp add: app_ready_def l)
      note T = vma_full_textbin_ok [OF P2 cr g2 va(1) v2 bK i2 this]
      define st3 where "st3 = (if kva_maptype ?k = KMV_BIN_TYPE
         then upd_mmu (\<lambda>m. set_page m (pg_vadr (grob st2) (pno x)) (bin_words (the app) ?k va)) st2 else st2)"
      have run: "vma_map_fairvadrs st va obj app = Inr (EOK, st3)"
        unfolding start core using yes(1,2) T by (simp add: st2_def st3_def b(3))
      note W = user_page_write [OF P2 bK i2]
      have s3: "vm_vs st3 = vm_vs st1" "vm_kvs st3 = vm_kvs st1" "vm_box st3 = box"
        by (simp_all add: st3_def upd_mmu_def st2_def)
      have P3: "pages_ok (vm_mmu st3) (vm_box st3) B ?bx ?K (insert x U)"
        using P2 W(1) by (simp add: st3_def upd_mmu_def)
      have f3: "space_frame (vm_mmu st2) (vm_mmu st3)"
        using W(3) by (simp add: st3_def upd_mmu_def space_frame_def)
      have "boxes_ok st3"
      proof (rule boxes_ok_regions [OF vma_okD(2) [OF b(4)]])
        fix c assume c: "c \<in> boxes_of (regions st3)"
        then obtain z where "vm_box st1 c = Some z"
          using boxes_okD(8) [OF vma_okD(2) [OF b(4)], of c] s3(1) by auto
        then show "\<exists>x x'. vm_box st1 c = Some x \<and> vm_box st3 c = Some x' \<and>
            kmb_cont x' - of_nat (box_uses (regions st3) c) = kmb_cont x - of_nat (box_uses (regions st1) c)"
          using cont [of c] s3 by auto
      qed (use s3 dom boxes_okD(7) [OF vma_okD(2) [OF b(4)]] in simp_all)
      then have ok3: "vma_ok st3 B (insert x U)"
        using P3 f3 cr vma_okD(1) [OF b(4)] by (simp add: vma_ok_def s3(1) space_frame_def phys_root_def)
      have k2: "mem_kept (vm_mmu st) (vm_mmu st2)"
        using yes(6) by (simp add: st2_def b(3))
      have vac: "pno x \<in> mmu_pages (vm_mmu st)"
        using yes(4) by (simp add: mmu_pages_def b(3))
      have k3: "mem_kept (vm_mmu st) (vm_mmu st3)"
      proof -
        have "mmu_pages (vm_mmu st3) = mmu_pages (vm_mmu st2)"
          by (simp add: st3_def upd_mmu_def set_page_def mmu_pages_def)
        moreover have "ms_mem (vm_mmu st3) a = ms_mem (vm_mmu st) a" if a: "a \<notin> pg_vadr (grob st) ` mmu_pages (vm_mmu st)" for a
        proof -
          have "a \<noteq> pg_vadr (grob st) (pno x)"
            using a vac by blast
          then have "ms_mem (vm_mmu st3) a = ms_mem (vm_mmu st2) a"
            by (simp add: st3_def upd_mmu_def set_page_def pa)
          then show ?thesis
            using k2 a by (simp add: mem_kept_def)
        qed
        ultimately show ?thesis
          using k2 f3 by (simp add: mem_kept_def space_frame_def)
      qed
      have v3: "user_view (vm_mmu st3) v = (if same_page v va then Some (pg_adr (grob st) (pno x)) else user_view (vm_mmu st) v)"
        if "user_adr v" for v
        using W(2) [OF that] yes(5) [OF that] by (simp add: st3_def upd_mmu_def st2_def b(3))
      have words: "ms_mem (vm_mmu st3) (pg_vadr (grob st) (pno x)) = bin_words (the app) (snd y) va"
        if "y \<in> set (regions st)" "holds_adr va (snd y)" "kva_maptype (snd y) = KMV_BIN_TYPE" for y
        using same_k [OF that(1,2)] that(3) by (simp add: st3_def upd_mmu_def set_page_def pa bin_words_def)
      have fresh: "x \<notin> U"
      proof
        assume "x \<in> U"
        then have "pno x \<in> pno ` U"
          by blast
        then obtain c where c: "c \<in> ?K" "pno x \<in> pages_of (vm_box st1) c"
          unfolding pages_okD(5) [OF P] by blast
        show False
          by (rule user_page_facts [OF P c]) (use vac in \<open>simp add: b(3)\<close>)
      qed
      have "fault_done B U va app st st3"
        unfolding fault_done_def using ok3 fresh yes(4) v3 words by (intro exI [of _ x]) (simp add: b(3))
      then show ?thesis
        using mapped [of st3] run mem adrs k3 s3(1) by simp
    qed
  qed
qed

end
