(* ===== verification/VmaSystem.thy ===== *)
theory VmaSystem
  imports VmaDel VmaFault
begin

text \<open>
  The first address space, the steps an address space can take and the states they reach, the kernel's own check of the
  regions, and the locale \<open>user_memory\<close>: the contract between the kernel and a program that asks for memory and gives it back,
  interpreted on the two services.
\<close>

section \<open>The regions at the start\<close>

definition start_regions :: "u64 \<Rightarrow> u64 \<Rightarrow> u64 \<Rightarrow> kmvds" where
  "start_regions o1 o2 o3 =
     [(o1, kmvarsdsc_t_init\<lparr>kva_start := 0x1000, kva_end := 0x5000\<rparr>),
      (o2, kmvarsdsc_t_init\<lparr>kva_start := 0x100000000, kva_end := 0x100001000, kva_maptype := KMV_HEAP_TYPE\<rparr>),
      (o3, kmvarsdsc_t_init\<lparr>kva_start := 0x7fffc0000000, kva_end := USER_END, kva_maptype := KMV_STACK_TYPE\<rparr>)]"

definition objs_ok :: "u64 \<Rightarrow> u64 \<Rightarrow> u64 \<Rightarrow> bool" where
  "objs_ok o1 o2 o3 \<longleftrightarrow> distinct [o1, o2, o3] \<and> 0 \<notin> {o1, o2, o3}"

lemma stack_start: "VADSZ_ALIGN (USER_END - 0x40000000) = 0x7fffc0000000"
  by (simp add: VADSZ_ALIGN_def USER_END_def)

lemma inituserspace_ok:
  assumes o: "objs_ok o1 o2 o3" and v: "vm_vs st = virmemadrs_t_init"
  shows "\<exists>vs. kvma_inituserspace_virmemadrs o1 o2 o3 st = (True, st\<lparr>vm_vs := vs\<rparr>) \<and> regs_ok vs \<and> vs_list vs = start_regions o1 o2 o3 \<and>
     vs_currkmvdsc vs = 0"
proof -
  define vs where "vs = virmemadrs_t_init\<lparr>vs_isalcstart := 0, vs_isalcend := USER_END, vs_startkmvdsc := o1, vs_endkmvdsc := o3,
     vs_heapkmvdsc := o2, vs_stackkmvdsc := o3, vs_list := start_regions o1 o2 o3, vs_kmvdscnr := 3\<rparr>"
  have "kvma_inituserspace_virmemadrs o1 o2 o3 st = (True, st\<lparr>vm_vs := vs\<rparr>)"
    using o v by (simp add: kvma_inituserspace_virmemadrs_def objs_ok_def Let_def upd_vs_def vs_def stack_start start_regions_def
      virmemadrs_t_init_def USER_VIRTUAL_ADDRESS_START_def THREAD_HEAPADR_START_def)
  moreover have "regs_ok vs"
    using o by (auto simp: regs_ok_def vs_def start_regions_def objs_ok_def region_ok_def before_def kmvarsdsc_t_init_def USER_END_def
      page_aligned_def virmemadrs_t_init_def)
  ultimately show ?thesis
    by (auto simp: vs_def virmemadrs_t_init_def)
qed

lemma init_kvirmemadrs_ok:
  assumes s: "sound (grob st) B" and k: "find_area (grob st) MA_TYPE_KRNL = Some a" "free_pages (grob st) a \<noteq> {}"
    and kr: "kernel_root (vm_mmu st)" and o: "o0 \<noteq> 0" "objs_ok o1 o2 o3"
  obtains st' where "init_kvirmemadrs o0 o1 o2 o3 st = Inr st'" "vma_ok st' B {}" "regions st' = start_regions o1 o2 o3"
    "\<And>v. user_adr v \<Longrightarrow> user_view (vm_mmu st') v = None" "vm_box st' = vm_box st" "boxmgr st' = kvmemcboxmgr_t_init"
    "statics (grob st') = statics (grob st)" "card (kernel_free (vm_mmu st)) \<le> Suc (card (kernel_free (vm_mmu st')))"
    "kernel_free (vm_mmu st') \<subseteq> kernel_free (vm_mmu st)" "page_vacant (grob st) - kernel_free (vm_mmu st) \<subseteq> page_vacant (grob st')"
    "vs_currkmvdsc (vm_vs st') = 0"
proof -
  define st0 where "st0 = (mmadrsdsc_t_init st)\<lparr>vm_kvs := kvirmemadrs_t_init\<rparr>"
  define m0 where "m0 = (vm_mmu st)\<lparr>ms_mmu := mmudsc_t_init\<rparr>"
  obtain kvs where kv: "kvma_seting_kvirmemadrs o0 st0 = Inr (st0\<lparr>vm_kvs := kvs\<rparr>)" "kvs_kvmemcboxmgr kvs = kvmemcboxmgr_t_init"
    using o(1) by (simp add: kvma_seting_kvirmemadrs_def Let_def st0_def kvirmemadrs_t_init_def)
  have "vm_vs (st0\<lparr>vm_kvs := kvs\<rparr>) = virmemadrs_t_init"
    by (simp add: st0_def mmadrsdsc_t_init_def)
  from inituserspace_ok [OF o(2) this] obtain vs where vs:
    "kvma_inituserspace_virmemadrs o1 o2 o3 (st0\<lparr>vm_kvs := kvs\<rparr>) = (True, st0\<lparr>vm_kvs := kvs, vm_vs := vs\<rparr>)"
    "regs_ok vs" "vs_list vs = start_regions o1 o2 o3" "vs_currkmvdsc vs = 0"
    by blast
  have m: "vm_mmu st0 = m0" "ms_grob m0 = grob st" "ms_mmu m0 = mmudsc_t_init" "kernel_root m0"
    using kr by (simp_all add: st0_def mmadrsdsc_t_init_def m0_def kernel_root_def)
  have "mm_division_pages (grob st) 1 MA_TYPE_KRNL DMF_RELDIV \<noteq> Inr ((None, 0), grob st)"
    by (rule krnl_page_some [OF s k])
  with hal_mmu_init_ok [of m0 B a] s k(1) m obtain m1 where m1: "hal_mmu_init m0 = Inr (True, m1)" "mmu_ok m1 B {}"
    "\<forall>q. upath 4 q \<longrightarrow> slot m1 q = 0" "statics (ms_grob m1) = statics (grob st)" "card (kernel_free m0) \<le> Suc (card (kernel_free m1))"
    "kernel_free m1 \<union> tpages (ms_mmu m1) \<subseteq> kernel_free m0" "mmu_pages m1 = page_vacant (grob st)"
    by auto
  from hal_mmu_load_ok [OF m1(2)] obtain m2 where m2: "hal_mmu_load m1 = Inr m2" "ms_cr3 m2 = phys_root m1" "ms_mem m2 = ms_mem m1"
    "phys_root m2 = phys_root m1" "mmu_ok m2 B {}"
    by blast
  have g2: "ms_grob m2 = ms_grob m1"
    using m2(1) by (cases "viradr_to_phyadr (root m1)") (auto simp: hal_mmu_load_def Let_def split: if_splits)
  have view: "user_view m2 v = None" if v: "user_adr v" for v
  proof -
    have "user_view m2 v = user_view m1 v"
      by (simp add: user_view_def m2(3,4))
    also have "\<dots> = None"
      using m1(3) place_upath(4) [OF v] by (simp add: user_view_slot [OF m1(2) v])
    finally show ?thesis .
  qed
  define st' where "st' = st0\<lparr>vm_kvs := kvs, vm_vs := vs, vm_mmu := m2\<rparr>"
  have f: "vm_mmu st' = m2" "vm_vs st' = vs" "vm_box st' = vm_box st" "boxmgr st' = kvmemcboxmgr_t_init" "regions st' = start_regions o1 o2 o3"
    by (simp_all add: st'_def kv(2) vs(3)) (simp add: st0_def mmadrsdsc_t_init_def)
  have run: "init_kvirmemadrs o0 o1 o2 o3 st = Inr st'"
    unfolding init_kvirmemadrs_def st0_def [symmetric] using kv(1) vs(1) m1(1) m2(1) m(1)
    by (simp add: upd_mmu_def st'_def)
  have bs: "boxes_of (regions st') = {}"
    unfolding f(5) by (simp add: start_regions_def kmvarsdsc_t_init_def)
  have "boxes_ok st'"
    unfolding boxes_ok_def Let_def bs unfolding f(3,4,5) by (simp add: kvmemcboxmgr_t_init_def KMBOX_CACHE_MAX_def start_regions_def)
  moreover have "pages_ok m2 (vm_box st') B (box_at (regions st')) (boxes_of (regions st')) {}"
    unfolding bs pages_ok_def using m2(5) view by simp
  ultimately have "vma_ok st' B {}"
    using vs(2) m2(2,4) by (simp add: vma_ok_def f(1,2))
  moreover have "card (kernel_free (vm_mmu st)) \<le> Suc (card (kernel_free m2))"
    using m1(5) by (simp add: kernel_free_def m0_def g2)
  moreover have kf: "kernel_free m2 = kernel_free m1" "kernel_free m0 = kernel_free (vm_mmu st)"
    by (simp_all add: kernel_free_def m0_def g2)
  then have "kernel_free m2 \<subseteq> kernel_free (vm_mmu st)"
    using m1(6) by simp
  moreover have "page_vacant (grob st) - kernel_free (vm_mmu st) \<subseteq> page_vacant (ms_grob m2)"
    using m1(6,7) kf by (auto simp: mmu_pages_def g2)
  ultimately show ?thesis
    using that [OF run] f view m1(4) g2 vs(4) by simp
qed

section \<open>The regions over time\<close>

text \<open>
  What can happen to an address space: a request for a region, a range of pages given back, a fault at an address behind
  which the processor found no page. \<open>obj\<close> is what \<open>kmsob_new\<close> answers, should it be asked, \<open>freed\<close> what
  \<open>kmsob_delete\<close> answers, \<open>app\<close> the program file. A step is the operation with all its arguments, whatever they are.
\<close>

definition no_wrap :: "u64 \<Rightarrow> u64 \<Rightarrow> bool" where
  "no_wrap start size_t \<longleftrightarrow> unat start + unat size_t + 0xfff < 2 ^ 64"

datatype vma_op =
    VmaNew u64 u64 u64 u32 u64        \<comment> \<open>\<open>vma_new_vadrs\<close> with start, size, limits, type and \<open>obj\<close>\<close>
  | VmaDel u64 u64 u64 bool           \<comment> \<open>\<open>vma_del_vadrs\<close> with start, size, \<open>obj\<close> and \<open>freed\<close>\<close>
  | VmaFault u64 u64 "appfile option" \<comment> \<open>\<open>vma_map_fairvadrs\<close> with the address, \<open>obj\<close> and \<open>app\<close>\<close>

fun vma_step :: "vma_op \<Rightarrow> vmst \<Rightarrow> vmst run" where
  "vma_step (VmaNew start size_t lim ty obj) st = andthen (vma_new_vadrs st start size_t lim ty obj) (\<lambda>(at, st). Inr st)"
| "vma_step (VmaDel start size_t obj freed) st = andthen (vma_del_vadrs st start size_t obj freed) (\<lambda>(ok, st). Inr st)"
| "vma_step (VmaFault va obj app) st = andthen (vma_map_fairvadrs st va obj app) (\<lambda>(ret, st). Inr st)"

fun vma_run :: "vma_op list \<Rightarrow> vmst \<Rightarrow> vmst run" where
  "vma_run [] st = Inr st"
| "vma_run (p # ps) st = andthen (vma_step p st) (vma_run ps)"

text \<open>
  What the steps need from outside: \<open>kmsob_new\<close> answers 0 or an object that is not in use, and a fault is one, at an
  address without a page, with the file of the program there and a box to be had.
\<close>

fun env_ok :: "vma_op list \<Rightarrow> vmst \<Rightarrow> bool" where
  "env_ok [] st \<longleftrightarrow> True"
| "env_ok (p # ps) st \<longleftrightarrow>
     (case p of
        VmaNew start size_t lim ty obj \<Rightarrow> obj_ok st obj
      | VmaDel start size_t obj freed \<Rightarrow> obj_ok st obj
      | VmaFault va obj app \<Rightarrow> obj_ok st obj \<and> box_left st obj \<and> app_ready st va app \<and> user_view (vm_mmu st) va = None) \<and>
     (case vma_step p st of Inl e \<Rightarrow> True | Inr st' \<Rightarrow> env_ok ps st')"

text \<open>What the steps need of their arguments.\<close>

fun arg_ok :: "vma_op \<Rightarrow> bool" where
  "arg_ok (VmaNew start size_t lim ty obj) \<longleftrightarrow> start = 0 \<or> no_wrap start size_t"
| "arg_ok (VmaDel start size_t obj freed) \<longleftrightarrow> page_aligned start \<and> no_wrap start size_t"
| "arg_ok (VmaFault va obj app) \<longleftrightarrow> True"

lemma vma_new_vadrs_cases:
  assumes ok: "vma_ok st B U" and obj: "obj_ok st obj" and w: "start = 0 \<or> no_wrap start size_t"
  obtains (no) "vma_new_vadrs st start size_t lim ty obj = Inr (0, st)"
     "\<not> request_ok start size_t \<or> no_gap st start (VADSZ_ALIGN size_t) \<or> obj = 0"
  | (yes) at v' where "request_ok start size_t" "vma_new_vadrs st start size_t lim ty obj = Inr (at, st\<lparr>vm_vs := v'\<rparr>)" "at \<noteq> 0"
    "vma_ok (st\<lparr>vm_vs := v'\<rparr>) B U" "start \<noteq> 0 \<longrightarrow> at = start" "page_aligned at" "at < at + VADSZ_ALIGN size_t" "0x1000 \<le> at"
    "at + VADSZ_ALIGN size_t \<le> USER_END" "{at..<at + VADSZ_ALIGN size_t} \<inter> region_adrs (regions st) = {}"
    "region_adrs (vs_list v') = region_adrs (regions st) \<union> {at..<at + VADSZ_ALIGN size_t}"
    "\<exists>x \<in> set (vs_list v'). kva_start (snd x) \<le> at \<and> at + VADSZ_ALIGN size_t \<le> kva_end (snd x)"
proof (cases "request_ok start size_t")
  case False
  then show ?thesis
    using no vma_new_refused [OF vma_okD(1) [OF ok] False] w by (auto simp: no_wrap_def)
next
  case True
  note r = True
  from ok obj True show thesis
  proof (cases rule: vma_new_vadrs_ok [of _ _ _ _ _ _ lim ty])
    case no
    then show ?thesis
      using that(1) by blast
  next
    case (yes at v')
    then show ?thesis
      using that(2) [OF r] by blast
  qed
qed

lemma vma_step_ok:
  assumes "vma_ok st B U" "env_ok (p # ps) st" "arg_ok p"
  shows "\<exists>st' U'. vma_step p st = Inr st' \<and> vma_ok st' B U' \<and> env_ok ps st'"
proof -
  have "\<exists>st' U'. vma_step p st = Inr st' \<and> vma_ok st' B U'"
  proof (cases p)
    case (VmaNew start size_t lim ty obj)
    with assms(2,3) have "obj_ok st obj" "start = 0 \<or> no_wrap start size_t" by simp_all
    then show ?thesis
      by (rule vma_new_vadrs_cases [OF assms(1), of _ _ _ lim ty]) (use VmaNew assms(1) in auto)
  next
    case (VmaDel start size_t obj freed)
    with assms(2,3) have o: "obj_ok st obj" "page_aligned start" "no_wrap start size_t" by simp_all
    show ?thesis
      by (rule vma_del_vadrs_ok [OF assms(1) o(1,2) o(3) [unfolded no_wrap_def], of freed]) (use VmaDel assms(1) in auto)
  next
    case (VmaFault va obj app)
    with assms(2) have o: "obj_ok st obj" "box_left st obj" "user_view (vm_mmu st) va = None" "app_ready st va app"
      by simp_all
    show ?thesis
      by (rule vma_map_fairvadrs_ok [OF assms(1) o]) (use VmaFault assms(1) in \<open>auto simp: fault_done_def\<close>)
  qed
  with assms(2) show ?thesis by auto
qed

lemma vma_run_ok:
  assumes "vma_ok st B U" "env_ok ops st" "\<forall>p \<in> set ops. arg_ok p"
  shows "\<exists>st' U'. vma_run ops st = Inr st' \<and> vma_ok st' B U'"
  using assms
proof (induction ops arbitrary: st U)
  case (Cons p ps)
  from vma_step_ok [OF Cons.prems(1,2)] Cons.prems(3) obtain st1 U1 where
    "vma_step p st = Inr st1" "vma_ok st1 B U1" "env_ok ps st1" by auto
  with Cons.IH [of st1 U1] Cons.prems(3) show ?case by auto
qed auto

text \<open>The check the kernel itself has for its regions does not complain.\<close>

lemma chk_one_ok:
  assumes "\<And>y. y \<in> set l \<Longrightarrow> fst y = p \<or> kva_end chk \<le> kva_start (snd y) \<or> kva_end (snd y) \<le> kva_start chk"
    "kva_start chk < kva_end chk" "\<And>y. y \<in> set l \<Longrightarrow> kva_start (snd y) < kva_end (snd y)"
  shows "vma_chk_one_kmva p chk l = Inr ()"
  using assms
proof (induction l)
  case (Cons y l)
  obtain q h where y: "y = (q, h)"
    by (cases y)
  have "q = p \<or> kva_end chk \<le> kva_start h \<or> kva_end h \<le> kva_start chk" "kva_start h < kva_end h"
    using Cons.prems(1) [of y] Cons.prems(3) [of y] by (simp_all add: y)
  then have "\<not> (q \<noteq> p \<and>
         ((kva_start chk > kva_start h \<and> kva_end chk < kva_end h) \<or>
          (kva_start chk < kva_start h \<and> kva_end chk > kva_end h) \<or>
          (kva_start chk > kva_start h \<and> kva_start chk < kva_end h) \<or>
          (kva_start chk < kva_start h \<and> kva_end chk > kva_start h)))"
    using Cons.prems(2) by auto
  then show ?case
    using Cons by (simp add: y)
qed simp

lemma vma_check_kmva_ok:
  assumes r: "regs_ok (vm_vs st)"
  shows "vma_check_kmva st = Inr ()"
proof -
  note R = regs_okD [OF r]
  have apart: "fst y = fst x \<or> kva_end (snd x) \<le> kva_start (snd y) \<or> kva_end (snd y) \<le> kva_start (snd x)"
    if x: "x \<in> set (regions st)" and y: "y \<in> set (regions st)" for x y
  proof -
    obtain i j where i: "i < length (regions st)" "x = regions st ! i" and j: "j < length (regions st)" "y = regions st ! j"
      using x y by (auto simp: in_set_conv_nth)
    consider "i = j" | "i < j" | "j < i"
      by linarith
    then show ?thesis
      using sorted_wrt_nth_less [OF R(4)] i j by cases (auto simp: before_def)
  qed
  have "check_kmva_loop (regions st) l = Inr ()" if "set l \<subseteq> set (regions st)" for l
    using that
  proof (induction l)
    case (Cons x l)
    obtain p k where x: "x = (p, k)"
      by (cases x)
    have m: "x \<in> set (regions st)"
      using Cons.prems by simp
    have "vma_chk_one_kmva p k (regions st) = Inr ()"
    proof (rule chk_one_ok)
      show "fst y = p \<or> kva_end k \<le> kva_start (snd y) \<or> kva_end (snd y) \<le> kva_start k" if "y \<in> set (regions st)" for y
        using apart [OF m that] by (simp add: x)
      show "kva_start k < kva_end k"
        using R(3) [OF m] by (simp add: x region_ok_def)
      show "kva_start (snd y) < kva_end (snd y)" if "y \<in> set (regions st)" for y
        using R(3) [OF that] by (simp add: region_ok_def)
    qed
    then show ?case
      using Cons by (simp add: x)
  qed simp
  then show ?thesis
    by (simp add: vma_check_kmva_def)
qed

section \<open>The user memory as a service\<close>

text \<open>
  What a program relies on: \<open>grant s R s'\<close> says that a request was answered with the addresses \<open>R\<close>, \<open>release s R s'\<close> that
  \<open>R\<close> was given back; \<open>adrs\<close> are the addresses of the space that are in use.
\<close>

locale user_memory =
  fixes ok :: "'s \<Rightarrow> bool" and adrs :: "'s \<Rightarrow> 'a set" and grant :: "'s \<Rightarrow> 'a set \<Rightarrow> 's \<Rightarrow> bool" and release :: "'s \<Rightarrow> 'a set \<Rightarrow> 's \<Rightarrow> bool"
  assumes grant_law: "ok s \<Longrightarrow> grant s R s' \<Longrightarrow> ok s' \<and> R \<inter> adrs s = {} \<and> adrs s' = adrs s \<union> R"
    and release_law: "ok s \<Longrightarrow> release s R s' \<Longrightarrow> ok s' \<and> adrs s' = adrs s - R"

text \<open>A program at work; the list holds what it has been granted and not given back.\<close>

inductive session :: "('s \<Rightarrow> 'a set \<Rightarrow> 's \<Rightarrow> bool) \<Rightarrow> ('s \<Rightarrow> 'a set \<Rightarrow> 's \<Rightarrow> bool) \<Rightarrow> 's \<Rightarrow> 'a set list \<Rightarrow> 's \<Rightarrow> bool"
  for grant release s where
  session_start: "session grant release s [] s"
| session_grant: "session grant release s live s1 \<Longrightarrow> grant s1 R s2 \<Longrightarrow> session grant release s (R # live) s2"
| session_release: "session grant release s live s1 \<Longrightarrow> R \<in> set live \<Longrightarrow> release s1 R s2 \<Longrightarrow> session grant release s (remove1 R live) s2"

abbreviation apart :: "'a set list \<Rightarrow> bool" where
  "apart live \<equiv> sorted_wrt (\<lambda>R S. R \<inter> S = {}) live"

lemma apart_remove:
  assumes "apart live" "R \<in> set live"
  shows "apart (remove1 R live)" "\<Union> (set (remove1 R live)) = \<Union> (set live) - R"
proof -
  obtain xs ys where l: "live = xs @ R # ys" "R \<notin> set xs"
    using split_list_first [OF assms(2)] by blast
  then have r: "remove1 R (xs @ R # ys) = xs @ ys"
    by (simp add: remove1_append)
  show "apart (remove1 R live)"
    using assms(1) unfolding l(1) r by (simp add: sorted_wrt_append)
  have "S \<inter> R = {}" if "S \<in> set xs \<union> set ys" for S
    using assms(1) that unfolding l(1) by (auto simp: sorted_wrt_append)
  then show "\<Union> (set (remove1 R live)) = \<Union> (set live) - R"
    unfolding l(1) r by auto
qed

context user_memory
begin

lemma session_law:
  assumes "session grant release s live s'" "ok s"
  shows "ok s' \<and> apart live \<and> \<Union> (set live) \<inter> adrs s = {} \<and> adrs s' = adrs s \<union> \<Union> (set live)"
  using assms
proof (induction rule: session.induct)
  case (session_grant live s1 R s2)
  then have i: "ok s1" "apart live" "\<Union> (set live) \<inter> adrs s = {}" "adrs s1 = adrs s \<union> \<Union> (set live)"
    by simp_all
  from grant_law [OF i(1) session_grant(2)] have g: "ok s2" "R \<inter> adrs s1 = {}" "adrs s2 = adrs s1 \<union> R"
    by simp_all
  then have "R \<inter> S = {}" if "S \<in> set live" for S
    using i(4) that by blast
  then show ?case
    using g i by auto
next
  case (session_release live s1 R s2)
  then have i: "ok s1" "apart live" "\<Union> (set live) \<inter> adrs s = {}" "adrs s1 = adrs s \<union> \<Union> (set live)"
    by simp_all
  from release_law [OF i(1) session_release(3)] have b: "ok s2" "adrs s2 = adrs s1 - R"
    by simp_all
  note A = apart_remove [OF i(2) session_release(2)]
  have "R \<inter> adrs s = {}"
    using i(3) session_release(2) by blast
  then show ?case
    unfolding A(2) b(2) using A(1) b(1) i(3,4) by blast
qed simp

lemma all_released: "session grant release s [] s' \<Longrightarrow> ok s \<Longrightarrow> adrs s' = adrs s"
  using session_law by fastforce

end

text \<open>The provider: the two services of the kernel, a range being what \<open>VADSZ_ALIGN\<close> makes of the size.\<close>

definition adr_range :: "u64 \<Rightarrow> u64 \<Rightarrow> u64 set" where
  "adr_range at size_t = {at..<at + VADSZ_ALIGN size_t}"

definition vma_grant :: "vmst \<Rightarrow> u64 set \<Rightarrow> vmst \<Rightarrow> bool" where
  "vma_grant st R st' \<longleftrightarrow> (\<exists>size_t obj at. obj_ok st obj \<and> krlsvetabl_mallocblk st INR_MM_ALLOC size_t obj = Inr (at, st') \<and>
     at \<noteq> 0 \<and> R = adr_range at size_t)"

definition vma_release :: "vmst \<Rightarrow> u64 set \<Rightarrow> vmst \<Rightarrow> bool" where
  "vma_release st R st' \<longleftrightarrow> (\<exists>at size_t obj freed. obj_ok st obj \<and> page_aligned at \<and> no_wrap at size_t \<and>
     krlsvetabl_mfreeblk st INR_MM_FREE at size_t obj freed = Inr (SYSSTUSOK, st') \<and> R = adr_range at size_t)"

lemma mallocblk_eq: "krlsvetabl_mallocblk st INR_MM_ALLOC size_t obj = vma_new_vadrs st 0 size_t 0 KMV_HEAP_TYPE obj"
  by (simp add: krlsvetabl_mallocblk_def krlsve_mallocblk_def krlsve_core_mallocblk_def)

lemma mfreeblk_eq: "krlsvetabl_mfreeblk st INR_MM_FREE start size_t obj freed =
    andthen (vma_del_vadrs st start size_t obj freed) (\<lambda>(ok, st). Inr (if ok then SYSSTUSOK else SYSSTUSERR, st))"
  by (simp add: krlsvetabl_mfreeblk_def krlsve_mfreeblk_def krlsve_core_mfreeblk_def vma_del_vadrs_def)

lemma SYSSTUS_neq: "SYSSTUSERR \<noteq> SYSSTUSOK"
  by (simp add: SYSSTUSERR_def SYSSTUSOK_def)

interpretation um: user_memory "\<lambda>st. \<exists>U. vma_ok st B U" "\<lambda>st. region_adrs (regions st)" vma_grant vma_release
proof
  fix st R st'
  assume "\<exists>U. vma_ok st B U" and g: "vma_grant st R st'"
  then obtain U where ok: "vma_ok st B U"
    by blast
  from g obtain size_t obj at where r: "obj_ok st obj" "vma_new_vadrs st 0 size_t 0 KMV_HEAP_TYPE obj = Inr (at, st')" "at \<noteq> 0"
    "R = adr_range at size_t"
    by (auto simp: vma_grant_def mallocblk_eq)
  show "(\<exists>U. vma_ok st' B U) \<and> R \<inter> region_adrs (regions st) = {} \<and> region_adrs (regions st') = region_adrs (regions st) \<union> R"
    by (rule vma_new_vadrs_cases [OF ok r(1), of 0 size_t 0 KMV_HEAP_TYPE]) (use r in \<open>auto simp: adr_range_def\<close>)
next
  fix st R st'
  assume "\<exists>U. vma_ok st B U" and b: "vma_release st R st'"
  then obtain U where ok: "vma_ok st B U"
    by blast
  from b obtain at size_t obj freed where r: "obj_ok st obj" "page_aligned at" "no_wrap at size_t" "R = adr_range at size_t"
    "krlsvetabl_mfreeblk st INR_MM_FREE at size_t obj freed = Inr (SYSSTUSOK, st')"
    unfolding vma_release_def by blast
  show "(\<exists>U. vma_ok st' B U) \<and> region_adrs (regions st') = region_adrs (regions st) - R"
    by (rule vma_del_vadrs_ok [OF ok r(1,2) r(3) [unfolded no_wrap_def], of freed])
      (use r(4,5) SYSSTUS_neq in \<open>auto simp: adr_range_def mfreeblk_eq\<close>)
qed

lemma region_adrs_range:
  assumes "regs_ok v" "a \<in> region_adrs (vs_list v)"
  shows "0x1000 \<le> a" "a < USER_END"
proof -
  obtain x where x: "x \<in> set (vs_list v)" "holds_adr a (snd x)"
    using assms(2) by (auto simp: region_adrs_def)
  with regs_okD(3) [OF assms(1) x(1)] show "0x1000 \<le> a" "a < USER_END"
    by (auto simp: holds_adr_def region_ok_def)
qed

section \<open>Two regions that share addresses\<close>

lemma check_overlap:
  assumes "check_kmva_loop l l' = Inr ()" "(p, h) \<in> set l'" "(q, h') \<in> set l" "q \<noteq> p"
  shows "\<not> (kva_start h < kva_start h' \<and> kva_start h' < kva_end h)"
proof -
  have one: "vma_chk_one_kmva p h l = Inr ()"
    using assms(1,2)
  proof (induction l')
    case (Cons x l')
    then show ?case
      by (cases x) (auto simp: andthen_eq_Inr)
  qed simp
  have "\<not> (kva_start h < kva_start k \<and> kva_end h > kva_start k)" if "(r, k) \<in> set l" "r \<noteq> p" "vma_chk_one_kmva p h l = Inr ()" for l r k
    using that
  proof (induction l)
    case (Cons x l)
    then show ?case
      by (cases x) (auto split: if_splits)
  qed simp
  from this [OF assms(3,4) one] show ?thesis
    by simp
qed

section \<open>A range that was granted\<close>

lemma nothing_outside:
  assumes ok: "vma_ok st B U" and al: "page_aligned a" "page_aligned e" and out: "{a..<e} \<inter> region_adrs (regions st) = {}"
    and v: "user_adr v" "a \<le> v" "v < e"
  shows "user_view (vm_mmu st) v = None"
proof (rule ccontr)
  assume "user_view (vm_mmu st) v \<noteq> None"
  then obtain x where x: "x \<in> set (regions st)" "holds_adr (page_base v) (snd x)"
    by (rule mapped_in_region [OF ok v(1)])
  have "page_base v \<in> {a..<e}"
    using v(2,3) page_base_ge [OF al(1), of v] page_base_ge [OF al(2), of v] by (simp add: not_le [symmetric])
  then show False
    using out x by (auto simp: region_adrs_def)
qed

lemma granted:
  assumes ok: "vma_ok st B U" "obj_ok st obj" and r: "krlsvetabl_mallocblk st INR_MM_ALLOC size_t obj = Inr (at, st1)" "at \<noteq> 0"
  defines "e \<equiv> at + VADSZ_ALIGN size_t"
  shows "\<exists>v'. st1 = st\<lparr>vm_vs := v'\<rparr> \<and> vma_ok st1 B U \<and> page_aligned at \<and> page_aligned e \<and> no_wrap at size_t \<and>
     release_ok st1 at size_t \<and> {at..<e} \<inter> region_adrs (regions st) = {} \<and>
     region_adrs (regions st1) = region_adrs (regions st) \<union> {at..<e}"
proof -
  let ?n = "VADSZ_ALIGN size_t"
  obtain v' where n: "request_ok 0 size_t" "st1 = st\<lparr>vm_vs := v'\<rparr>" "vma_ok st1 B U" "page_aligned at" "at < at + ?n"
    "0x1000 \<le> at" "at + ?n \<le> USER_END" "{at..<at + ?n} \<inter> region_adrs (regions st) = {}"
    "region_adrs (regions st1) = region_adrs (regions st) \<union> {at..<at + ?n}"
    "\<exists>x \<in> set (regions st1). kva_start (snd x) \<le> at \<and> at + ?n \<le> kva_end (snd x)"
    by (rule vma_new_vadrs_cases [OF ok, of 0 size_t 0 KMV_HEAP_TYPE]) (use r in \<open>auto simp: mallocblk_eq\<close>)
  note u = request_size(2) [OF n(1)]
  have pos: "0 < unat size_t" "round_up (unat size_t) \<le> unat USER_END"
    using n(1) by (simp_all add: request_ok_def unat_gt_0 word_greater_zero_iff)
  have small: "unat at + round_up (unat size_t) < 2 ^ 64" "unat at < 2 ^ 47" "round_up (unat size_t) < 2 ^ 48"
    using n(5,7) pos(2) by (auto simp: USER_END_def word_le_nat_alt word_less_nat_alt unat_word_ariths u split: if_splits)
  then have ue: "unat (at + ?n) = unat at + round_up (unat size_t)"
    by (simp add: unat_word_ariths u)
  have "no_wrap at size_t"
    using small(2,3) round_up_bounds(1) [of "unat size_t"] by (simp add: no_wrap_def)
  moreover have "release_ok st1 at size_t"
    using n(6,10) pos(1) small(1) ue unfolding release_ok_def
    by (auto simp: word_le_nat_alt word_less_nat_alt)
  moreover have "page_aligned (at + ?n)"
    using n(4) round_up_bounds(3) [of "unat size_t"] unfolding page_aligned_def ue by (simp add: mod_add_eq [symmetric])
  ultimately show ?thesis
    unfolding e_def using n(2-4,8,9) by blast
qed

end
