(* ===== verification/VmaDemo.thy ===== *)
theory VmaDemo
  imports VmaSystem MmuDemo
begin

text \<open>
  The small machine of the page tables with its first address space; the properties of the regions are applied to it.
\<close>

section \<open>A machine with regions\<close>

definition demo_vm_start :: vmst where
  "demo_vm_start = \<lparr>vm_mmu = demo_machine, vm_vs = virmemadrs_t_init, vm_kvs = kvirmemadrs_t_init, vm_box = Map.empty\<rparr>"

definition demo_vm :: vmst where
  "demo_vm = (case init_kvirmemadrs 0xa00 0xb00 0xc00 0xd00 demo_vm_start of Inl e \<Rightarrow> demo_vm_start | Inr st \<Rightarrow> st)"

lemma demo_objs: "objs_ok 0xb00 0xc00 0xd00"
  by (simp add: objs_ok_def)

lemma demo_vm_kernel: "sound (grob demo_vm_start) {}" "find_area (grob demo_vm_start) MA_TYPE_KRNL = Some 0"
  "free_pages (grob demo_vm_start) 0 \<noteq> {}" "kernel_root (vm_mmu demo_vm_start)"
  using demo_sound demo_krnl_area demo_free_pages(1) demo_kernel_root
  by (simp_all add: demo_vm_start_def demo_machine_def)

lemma demo_vm_facts:
  "init_kvirmemadrs 0xa00 0xb00 0xc00 0xd00 demo_vm_start = Inr demo_vm" "vma_ok demo_vm {} {}"
  "regions demo_vm = start_regions 0xb00 0xc00 0xd00" "user_adr v \<Longrightarrow> user_view (vm_mmu demo_vm) v = None"
  "vm_box demo_vm = Map.empty" "boxmgr demo_vm = kvmemcboxmgr_t_init" "vs_currkmvdsc (vm_vs demo_vm) = 0"
  "room_left (vm_mmu demo_vm)"
proof -
  obtain st where st: "init_kvirmemadrs 0xa00 0xb00 0xc00 0xd00 demo_vm_start = Inr st" "vma_ok st {} {}"
    "regions st = start_regions 0xb00 0xc00 0xd00" "\<And>v. user_adr v \<Longrightarrow> user_view (vm_mmu st) v = None"
    "vm_box st = vm_box demo_vm_start" "boxmgr st = kvmemcboxmgr_t_init" "statics (grob st) = statics (grob demo_vm_start)"
    "card (kernel_free (vm_mmu demo_vm_start)) \<le> Suc (card (kernel_free (vm_mmu st)))"
    "kernel_free (vm_mmu st) \<subseteq> kernel_free (vm_mmu demo_vm_start)"
    "page_vacant (grob demo_vm_start) - kernel_free (vm_mmu demo_vm_start) \<subseteq> page_vacant (grob st)" "vs_currkmvdsc (vm_vs st) = 0"
    by (rule init_kvirmemadrs_ok [OF demo_vm_kernel _ demo_objs, of "0xa00"]) simp_all
  have d: "demo_vm = st"
    by (simp add: demo_vm_def st(1))
  have g: "grob demo_vm_start = demo" "kernel_free (vm_mmu demo_vm_start) = {0..<4}"
    by (simp_all add: demo_vm_start_def demo_machine_def kernel_free_def demo_krnl_area demo_free_pages)
  note S = mmu_okD(2) [OF pages_okD(1) [OF vma_okD(4) [OF st(2)]]]
  have fa: "find_area (grob st) MA_TYPE_KRNL = Some 0" "retn_procmarea (grob st) = Some 1"
    using find_area_statics [OF st(7)] find_area_eq [OF demo_wf, of 0] find_area_eq [OF demo_wf, of 1]
    by (simp_all add: g demo_krnl_area retn_procmarea_def demo_sizes demo_types)
  have "4 \<in> page_vacant (grob st)"
    using st(10) by (auto simp: g demo_vacant)
  then obtain a where a: "4 \<in> free_pages (grob st) a"
    by (auto simp: page_vacant_def)
  have "kernel_free (vm_mmu st) = free_pages (grob st) 0"
    by (simp add: kernel_free_def fa(1))
  then have "4 \<notin> free_pages (grob st) 0"
    using st(9) unfolding g(2) by auto
  then have "a \<noteq> 0"
    using a by metis
  moreover have "nareas (grob st) = 2"
    using staticsD(2) [OF st(7)] by (simp add: g demo_sizes)
  then have "a < 2"
    using pages_in_range [OF soundD(1) [OF S] UnI1 [OF a]] by simp
  ultimately have "a = 1"
    by simp
  then obtain sel i where fr: "(1, sel, i) \<in> freeset (grob st)"
    using a by (auto simp: free_pages_def)
  have ty: "ma_type (area (grob st) 1) = MA_TYPE_PROC"
    using find_area_Some(2) [of "grob st" MA_TYPE_PROC 1] fa(2) by (simp add: retn_procmarea_def)
  have "sel_area (grob st) (freeset (grob st))"
    using soundD(1) [OF S] by (simp add: mem_inv_def)
  then have "sel = Onem"
    using bspec [OF _ fr, of "\<lambda>(a, sel, i). sel = Onem \<longleftrightarrow> ma_type (area (grob st) a) = MA_TYPE_PROC"] ty
    by (simp add: sel_area_def)
  then have "frelst (grob st) 1 Onem \<noteq> []"
    using fr by (auto simp: freeset_def)
  then have "\<not> proc_empty (grob st)"
    by (simp add: proc_empty_def fa(2))
  moreover have "3 \<le> card (kernel_free (vm_mmu st))"
    using st(8) by (simp add: g)
  ultimately show "room_left (vm_mmu demo_vm)"
    by (simp add: room_left_def d)
  show "init_kvirmemadrs 0xa00 0xb00 0xc00 0xd00 demo_vm_start = Inr demo_vm" "vma_ok demo_vm {} {}"
    "regions demo_vm = start_regions 0xb00 0xc00 0xd00" "vm_box demo_vm = Map.empty" "boxmgr demo_vm = kvmemcboxmgr_t_init"
    "vs_currkmvdsc (vm_vs demo_vm) = 0"
    using st(1-3,5,6,11) by (simp_all add: d demo_vm_start_def)
  show "user_adr v \<Longrightarrow> user_view (vm_mmu demo_vm) v = None"
    using st(4) by (simp add: d)
qed

lemma demo_obj: "obj_ok demo_vm 0xe00" "box_left demo_vm 0xe00"
  by (simp_all add: obj_ok_def box_left_def demo_vm_facts start_regions_def)

lemma demo_app: "app_ready demo_vm va None"
  by (simp add: app_ready_def demo_vm_facts start_regions_def kmvarsdsc_t_init_def KMV_BIN_TYPE_def KMV_HEAP_TYPE_def KMV_STACK_TYPE_def)

lemma demo_region_adrs: "region_adrs (regions demo_vm) = {0x1000..<0x5000} \<union> {0x100000000..<0x100001000} \<union> {0x7fffc0000000..<USER_END}"
  by (auto simp: demo_vm_facts start_regions_def kmvarsdsc_t_init_def)

lemma demo_free: "page_aligned 0x2000" "no_wrap 0x2000 0x1000"
  by (simp_all add: page_aligned_def no_wrap_def)

lemma demo_malloc:
  obtains st1 where "krlsvetabl_mallocblk demo_vm INR_MM_ALLOC 0x1234 0xe00 = Inr (0x100001000, st1)" "obj_ok st1 0xf00"
proof -
  have n: "VADSZ_ALIGN 0x1234 = 0x2000"
    by (simp add: VADSZ_ALIGN_def)
  have f: "vs_isalcend (vm_vs demo_vm) = USER_END" "vs_currkmvdsc (vm_vs demo_vm) = 0"
    "regions demo_vm = start_regions 0xb00 0xc00 0xd00" "vm_box demo_vm = Map.empty"
    using regs_okD(5) [OF vma_okD(1) [OF demo_vm_facts(2)]] demo_vm_facts by simp_all
  have find: "vma_find_kmvarsdsc demo_vm 0 0x2000 0 KMV_HEAP_TYPE = Inr 0xc00"
    unfolding vma_find_kmvarsdsc_def Let_def f(1,2,3)
    by (simp add: start_regions_def vma_find_kmvarsdsc_is_ok_def getk_def f same_kind_def kmvarsdsc_t_init_def
        KMV_HEAP_TYPE_def USER_END_def)
  define st1 where "st1 = upd_vs (\<lambda>v. v\<lparr>vs_currkmvdsc := 0xc00\<rparr>) (setk 0xc00 (\<lambda>k. k\<lparr>kva_end := kva_end k + 0x2000\<rparr>) demo_vm)"
  have "krlsvetabl_mallocblk demo_vm INR_MM_ALLOC 0x1234 0xe00 = Inr (0x100001000, st1)"
    by (simp add: krlsvetabl_mallocblk_def krlsve_mallocblk_def krlsve_core_mallocblk_def vma_new_vadrs_def n vma_new_vadrs_core_def find
        getk_def f start_regions_def same_kind_def kmvarsdsc_t_init_def st1_def)
  moreover have "obj_ok st1 0xf00"
    by (simp add: obj_ok_def st1_def setk_def upd_vs_def f start_regions_def)
  ultimately show ?thesis
    using that by blast
qed

end
