(* ===== verification/VmaProps.thy ===== *)
theory VmaProps
  imports VmaDemo
begin

text \<open>
  The properties of the regions of user memory.
\<close>

section \<open>Requests and returns of memory\<close>

text \<open>C27: A request for memory (\<open>krlsvetabl_mallocblk\<close>) returns. Either it returns the start of a fresh range: aligned to pages,
  in the user half above the first page, as long as the size rounded up, with no address of a region in it; the regions
  then cover exactly these addresses more. Or it returns 0 and nothing has changed; then the size was 0 or more than the user
  half, no region has a gap of that length behind it, or the object cache had no descriptor. No page is touched in either case.\<close>

theorem mallocblk_fresh:
  assumes "vma_ok st B U" "obj_ok st obj"
  shows "\<exists>ret st'. krlsvetabl_mallocblk st INR_MM_ALLOC size_t obj = Inr (ret, st') \<and> vma_ok st' B U \<and> vm_mmu st' = vm_mmu st \<and>
     (if ret = 0
      then st' = st \<and> (size_t = 0 \<or> unat USER_END < round_up (unat size_t) \<or> no_gap st 0 (VADSZ_ALIGN size_t) \<or> obj = 0)
      else page_aligned ret \<and> 0x1000 \<le> ret \<and> unat (VADSZ_ALIGN size_t) = round_up (unat size_t) \<and>
        ret < ret + VADSZ_ALIGN size_t \<and> ret + VADSZ_ALIGN size_t \<le> USER_END \<and>
        {ret..<ret + VADSZ_ALIGN size_t} \<inter> region_adrs (regions st) = {} \<and>
        region_adrs (regions st') = region_adrs (regions st) \<union> {ret..<ret + VADSZ_ALIGN size_t})"
proof -
  note e = mallocblk_eq
  show ?thesis
  proof (rule vma_new_vadrs_cases [OF assms, of 0 size_t 0 KMV_HEAP_TYPE])
    assume "vma_new_vadrs st 0 size_t 0 KMV_HEAP_TYPE obj = Inr (0, st)"
      "\<not> request_ok 0 size_t \<or> no_gap st 0 (VADSZ_ALIGN size_t) \<or> obj = 0"
    then show ?thesis
      using assms(1) by (intro exI [of _ 0] exI [of _ st]) (auto simp: e request_ok_def word_greater_zero_iff)
  next
    fix at v'
    assume *: "request_ok 0 size_t" "vma_new_vadrs st 0 size_t 0 KMV_HEAP_TYPE obj = Inr (at, st\<lparr>vm_vs := v'\<rparr>)" "at \<noteq> 0"
      "vma_ok (st\<lparr>vm_vs := v'\<rparr>) B U" "page_aligned at" "at < at + VADSZ_ALIGN size_t" "0x1000 \<le> at"
      "at + VADSZ_ALIGN size_t \<le> USER_END" "{at..<at + VADSZ_ALIGN size_t} \<inter> region_adrs (regions st) = {}"
      "region_adrs (vs_list v') = region_adrs (regions st) \<union> {at..<at + VADSZ_ALIGN size_t}"
    show ?thesis
      using * request_size(2) [OF *(1)] by (intro exI [of _ at] exI [of _ "st\<lparr>vm_vs := v'\<rparr>"]) (simp add: e)
  qed simp
qed

theorem mallocblk_fresh_witness:
  "\<exists>st'. krlsvetabl_mallocblk demo_vm INR_MM_ALLOC 0x1234 0xe00 = Inr (0x100001000, st') \<and> vma_ok st' {} {} \<and>
     region_adrs (regions st') = region_adrs (regions demo_vm) \<union> {0x100001000..<0x100003000}"
proof -
  have n: "VADSZ_ALIGN 0x1234 = 0x2000"
    by (simp add: VADSZ_ALIGN_def)
  obtain st1 where "krlsvetabl_mallocblk demo_vm INR_MM_ALLOC 0x1234 0xe00 = Inr (0x100001000, st1)"
    by (rule demo_malloc)
  then show ?thesis
    using mallocblk_fresh [OF demo_vm_facts(2) demo_obj(1), of "0x1234"] unfolding n by auto
qed

text \<open>C28: Memory given back (\<open>krlsvetabl_mfreeblk\<close>), from a page boundary on and with a size that does not wrap around: the
  service returns. Either it reports success; then the range lay inside the regions, exactly its addresses have left
  them, the processor finds no page behind any of them and what it found before behind all others, and the pages are free
  again. Or it reports an error and nothing has changed; a range that lies in one region is refused only where no
  descriptor for its second half could be had.\<close>

theorem mfreeblk_exact:
  assumes "vma_ok st B U" "obj_ok st obj" "page_aligned start" "no_wrap start size_t"
  shows "\<exists>ret st'. krlsvetabl_mfreeblk st INR_MM_FREE start size_t obj freed = Inr (ret, st') \<and>
     (if ret = SYSSTUSOK
      then (\<exists>U'. U' \<subseteq> U \<and> vma_ok st' B U') \<and> {start..<start + VADSZ_ALIGN size_t} \<subseteq> region_adrs (regions st) \<and>
        region_adrs (regions st') = region_adrs (regions st) - {start..<start + VADSZ_ALIGN size_t} \<and>
        more_room (vm_mmu st) (vm_mmu st') \<and>
        (\<forall>v. user_adr v \<longrightarrow> user_view (vm_mmu st') v =
           (if start \<le> v \<and> v < start + VADSZ_ALIGN size_t then None else user_view (vm_mmu st) v))
      else ret = SYSSTUSERR \<and> st' = st \<and> (release_ok st start size_t \<longrightarrow> obj = 0))"
proof -
  note e = mfreeblk_eq and ne = SYSSTUS_neq
  show ?thesis
  proof (rule vma_del_vadrs_ok [OF assms(1-3) assms(4) [unfolded no_wrap_def], of freed])
    fix st' U'
    assume *: "vma_del_vadrs st start size_t obj freed = Inr (True, st')" "U' \<subseteq> U" "vma_ok st' B U'"
      "region_adrs (regions st') = region_adrs (regions st) - {start..<start + VADSZ_ALIGN size_t}"
      "{start..<start + VADSZ_ALIGN size_t} \<subseteq> region_adrs (regions st)" "more_room (vm_mmu st) (vm_mmu st')"
      "\<And>v. user_adr v \<Longrightarrow> user_view (vm_mmu st') v =
         (if start \<le> v \<and> v < start + VADSZ_ALIGN size_t then None else user_view (vm_mmu st) v)"
    show ?thesis
      using *(1,4-6) *(2,3) *(7) by (intro exI [of _ SYSSTUSOK] exI [of _ st']) (auto simp: e)
  next
    assume "vma_del_vadrs st start size_t obj freed = Inr (False, st)" "release_ok st start size_t \<longrightarrow> obj = 0"
    then show ?thesis
      using ne by (intro exI [of _ SYSSTUSERR] exI [of _ st]) (simp add: e)
  qed
qed

theorem mfreeblk_exact_witness:
  "\<exists>ret st'. krlsvetabl_mfreeblk demo_vm INR_MM_FREE 0x2000 0x1000 0xe00 True = Inr (ret, st') \<and> ret = SYSSTUSOK"
proof -
  have "round_up 0x1000 = 0x1000"
    by (simp add: round_up_def)
  then have r: "release_ok demo_vm 0x2000 0x1000"
    by (simp add: release_ok_def demo_vm_facts start_regions_def kmvarsdsc_t_init_def)
  from mfreeblk_exact [OF demo_vm_facts(2) demo_obj(1) demo_free, of True] obtain ret st' where
    f: "krlsvetabl_mfreeblk demo_vm INR_MM_FREE 0x2000 0x1000 0xe00 True = Inr (ret, st')"
    "ret \<noteq> SYSSTUSOK \<Longrightarrow> release_ok demo_vm 0x2000 0x1000 \<longrightarrow> (0xe00 :: u64) = 0"
    by (auto split: if_splits)
  have "ret = SYSSTUSOK"
    by (rule ccontr) (use f(2) r in simp)
  with f(1) show ?thesis
    by blast
qed

text \<open>C32: Memory that was asked for and is given back with the same size is accepted, the regions cover the addresses they
  covered before, and behind every user address is what was behind it.\<close>

theorem malloc_free_roundtrip:
  assumes "vma_ok st B U" "obj_ok st obj" "krlsvetabl_mallocblk st INR_MM_ALLOC size_t obj = Inr (at, st1)" "at \<noteq> 0"
    "obj_ok st1 obj2" "obj2 \<noteq> 0"
  shows "\<exists>st2. krlsvetabl_mfreeblk st1 INR_MM_FREE at size_t obj2 freed = Inr (SYSSTUSOK, st2) \<and>
     region_adrs (regions st2) = region_adrs (regions st) \<and>
     (\<forall>v. user_adr v \<longrightarrow> user_view (vm_mmu st2) v = user_view (vm_mmu st) v)"
proof -
  let ?e = "at + VADSZ_ALIGN size_t"
  from granted [OF assms(1-4)] obtain v' where n: "st1 = st\<lparr>vm_vs := v'\<rparr>" "vma_ok st1 B U" "page_aligned at" "page_aligned ?e"
    "no_wrap at size_t" "release_ok st1 at size_t" "{at..<?e} \<inter> region_adrs (regions st) = {}"
    "region_adrs (regions st1) = region_adrs (regions st) \<union> {at..<?e}"
    by blast
  show ?thesis
  proof (rule vma_del_vadrs_ok [OF n(2) assms(5) n(3) n(5) [unfolded no_wrap_def], of freed])
    fix st2 U2
    assume d: "vma_del_vadrs st1 at size_t obj2 freed = Inr (True, st2)"
      "region_adrs (regions st2) = region_adrs (regions st1) - {at..<?e}"
      "\<And>v. user_adr v \<Longrightarrow> user_view (vm_mmu st2) v = (if at \<le> v \<and> v < ?e then None else user_view (vm_mmu st1) v)"
    have "region_adrs (regions st2) = region_adrs (regions st)"
      using d(2) n(7,8) by blast
    moreover have "user_view (vm_mmu st2) v = user_view (vm_mmu st) v" if "user_adr v" for v
      using d(3) [OF that] nothing_outside [OF assms(1) n(3,4,7) that] by (simp add: n(1))
    ultimately show ?thesis
      using d(1) unfolding mfreeblk_eq by simp
  qed (use n(6) assms(6) in blast)
qed

theorem malloc_free_roundtrip_witness:
  "\<exists>st1 st2. krlsvetabl_mallocblk demo_vm INR_MM_ALLOC 0x1234 0xe00 = Inr (0x100001000, st1) \<and>
     krlsvetabl_mfreeblk st1 INR_MM_FREE 0x100001000 0x1234 0xf00 True = Inr (SYSSTUSOK, st2) \<and>
     region_adrs (regions st2) = region_adrs (regions demo_vm)"
proof -
  obtain st1 where "krlsvetabl_mallocblk demo_vm INR_MM_ALLOC 0x1234 0xe00 = Inr (0x100001000, st1)" "obj_ok st1 0xf00"
    by (rule demo_malloc)
  then show ?thesis
    using malloc_free_roundtrip [OF demo_vm_facts(2) demo_obj(1) _ _ _ _, of "0x1234" "0x100001000" st1 "0xf00" True] by auto
qed

section \<open>Programs at work\<close>

text \<open>C31: Whatever a program asks for and gives back, in any order: the ranges it holds are apart from each other and from
  what was in use at its start, and the regions cover exactly the two together. When everything has been given back, they
  cover what they covered at the start.\<close>

theorem sessions_apart:
  assumes "vma_ok st B U" "session vma_grant vma_release st live st'"
  shows "(\<exists>U'. vma_ok st' B U') \<and> apart live \<and> \<Union> (set live) \<inter> region_adrs (regions st) = {} \<and>
    region_adrs (regions st') = region_adrs (regions st) \<union> \<Union> (set live)"
  by (rule um.session_law [OF assms(2)]) (use assms(1) in blast)

theorem sessions_apart_witness:
  "\<exists>st'. session vma_grant vma_release demo_vm [adr_range 0x100001000 0x1234] st' \<and>
     region_adrs (regions st') = region_adrs (regions demo_vm) \<union> adr_range 0x100001000 0x1234"
proof -
  obtain st' where "krlsvetabl_mallocblk demo_vm INR_MM_ALLOC 0x1234 0xe00 = Inr (0x100001000, st')"
    by (rule demo_malloc)
  then have "vma_grant demo_vm (adr_range 0x100001000 0x1234) st'"
    unfolding vma_grant_def using demo_obj(1) by (intro exI [of _ "0x1234"] exI [of _ "0xe00"] exI [of _ "0x100001000"]) simp
  then have "session vma_grant vma_release demo_vm [adr_range 0x100001000 0x1234] st'"
    by (rule session_grant [OF session_start])
  then show ?thesis
    using sessions_apart [OF demo_vm_facts(2)] by fastforce
qed

section \<open>Page faults\<close>

text \<open>C29: A fault at an address behind which there is no page: in a region, and with pages enough for the user and for
  tables, the handler returns, a page that was free is now behind the page of the address, filled from the program file
  in a region of program text, the regions cover what they did, the view of every other page and all memory but tables and free
  pages are unchanged. Outside the regions the handler stops the machine.\<close>

theorem page_fault_served:
  assumes "vma_ok st B U" "obj_ok st obj" "box_left st obj" "app_ready st va app" "user_view (vm_mmu st) va = None"
  shows "(if va \<in> region_adrs (regions st)
     then room_left (vm_mmu st) \<longrightarrow>
       (\<exists>st'. hal_fault_page st va obj app = Inr st' \<and> fault_done B U va app st st' \<and>
          region_adrs (regions st') = region_adrs (regions st) \<and> mem_kept (vm_mmu st) (vm_mmu st'))
     else \<exists>msg. hal_fault_page st va obj app = Inl (Panic msg))"
proof -
  note errs = EOK_def EFAULT_def EPARAM_def ENOMEM_def ENOOBJ_def EACCES_def
  have high: "hal_fault_page st va obj app = Inl (Panic ''page fault handling failed'')" if "USER_END < va"
    using that by (simp add: hal_fault_page_def krluserspace_accessfailed_def errs)
  have range: "\<not> USER_END < va" if "va \<in> region_adrs (regions st)"
    using region_adrs_range(2) [OF vma_okD(1) [OF assms(1)] that] by auto
  show ?thesis
  proof (cases "USER_END < va")
    case True
    then show ?thesis
      using high range by auto
  next
    case False
    then have run: "hal_fault_page st va obj app = andthen (andthen (vma_map_fairvadrs st va obj app) (\<lambda>(ret, st).
        if ret = - EPARAM then Inl (Panic ''vma_map_fairvadrs EPARM'')
        else if ret = - ENOOBJ then Inl (Panic ''vma_map_fairvadrs ENOOBJ'')
        else if ret = - ENOMEM then Inl (Panic ''vma_map_fairvadrs ENOMEM'')
        else Inr (ret, st))) (\<lambda>(ret, st). if ret \<noteq> 0 then Inl (Panic ''page fault handling failed'') else Inr st)"
      by (simp add: hal_fault_page_def krluserspace_accessfailed_def)
    show ?thesis
    proof (rule vma_map_fairvadrs_ok [OF assms(1-3,5,4)])
      assume r: "vma_map_fairvadrs st va obj app = Inr (- EPARAM, st)" "va < 0x1000 \<or> USER_END < va"
      then have "va \<notin> region_adrs (regions st)"
        using region_adrs_range [OF vma_okD(1) [OF assms(1)], of va] by auto
      then show ?thesis
        using run r(1) by simp
    next
      assume "vma_map_fairvadrs st va obj app = Inr (- EFAULT, st)" "va \<notin> region_adrs (regions st)"
      then show ?thesis
        using run by (simp add: errs)
    next
      fix st' assume "vma_map_fairvadrs st va obj app = Inr (EOK, st')" "va \<in> region_adrs (regions st)"
        "region_adrs (regions st') = region_adrs (regions st)" "mem_kept (vm_mmu st) (vm_mmu st')" "fault_done B U va app st st'"
      then show ?thesis
        using run by (simp add: errs)
    qed simp
  qed
qed

theorem page_fault_served_witness:
  "\<exists>st'. hal_fault_page demo_vm 0x1008 0xe00 None = Inr st' \<and> user_view (vm_mmu st') 0x1000 \<noteq> None"
proof -
  have u: "user_adr 0x1008" "user_adr 0x1000" "same_page 0x1000 0x1008"
    by (simp_all add: user_adr_def same_page_def drop_bit_eq_div)
  have "0x1008 \<in> region_adrs (regions demo_vm)"
    by (simp add: demo_region_adrs)
  with page_fault_served [OF demo_vm_facts(2) demo_obj demo_app demo_vm_facts(4) [OF u(1)]] demo_vm_facts(8)
  obtain st' where "hal_fault_page demo_vm 0x1008 0xe00 None = Inr st'" "fault_done {} {} 0x1008 None demo_vm st'"
    by (auto split: if_splits)
  then show ?thesis
    using u by (auto simp: fault_done_def)
qed

section \<open>Everything returns\<close>

text \<open>C30: The two services of user memory return for every argument a program can pass: whatever the number of the service, the
  address, its alignment and the size, wrap-around included, no loop runs forever and no access goes wrong.\<close>

theorem memory_services_return:
  assumes "vma_ok st B U" "obj_ok st obj"
  shows "(\<exists>ret st'. krlsvetabl_mallocblk st inr size_t obj = Inr (ret, st')) \<and>
    (\<exists>ret st'. krlsvetabl_mfreeblk st inr start size_t obj freed = Inr (ret, st'))"
proof
  show "\<exists>ret st'. krlsvetabl_mallocblk st inr size_t obj = Inr (ret, st')"
    unfolding krlsvetabl_mallocblk_def krlsve_mallocblk_def krlsve_core_mallocblk_def
    by (rule vma_new_vadrs_cases [OF assms, of 0 size_t 0 KMV_HEAP_TYPE]) auto
  obtain ok st' where "vma_del_vadrs st start size_t obj freed = Inr (ok, st')"
    using vma_del_vadrs_returns [OF assms] by blast
  then show "\<exists>ret st'. krlsvetabl_mfreeblk st inr start size_t obj freed = Inr (ret, st')"
    by (simp add: krlsvetabl_mfreeblk_def krlsve_mfreeblk_def krlsve_core_mfreeblk_def)
qed

theorem memory_services_return_witness:
  "\<exists>ret st'. krlsvetabl_mfreeblk demo_vm INR_MM_FREE 0x3001 (- 0x1000) 0xe00 True = Inr (ret, st')"
  using memory_services_return [OF demo_vm_facts(2) demo_obj(1)] by blast

section \<open>The regions over time\<close>

text \<open>C26: From the first address space on, in every order of requests, returns of memory and page faults in which each
  memory returned starts at a page boundary and has a size that does not wrap around (a program can pass others to the service,
  and C33 shows what a wrapping size does), and each request at a start of its own has a size that does not wrap around:
  each operation returns. At the end the regions are ordered and apart, boxes and page tables agree with the
  page allocator, the check the kernel has for its regions (\<open>vma_check_kmva\<close>) does not complain, and the processor finds a
  page only behind addresses of a region. \<open>env_ok\<close> says that the object cache answers with unused objects or none, that
  faults happen where there is no page, and that for them the program file is there and the cache has a box.\<close>

theorem regions_stay_sound:
  assumes "sound (grob st) B" "find_area (grob st) MA_TYPE_KRNL = Some a" "free_pages (grob st) a \<noteq> {}" "kernel_root (vm_mmu st)"
    "o0 \<noteq> 0" "objs_ok o1 o2 o3" "init_kvirmemadrs o0 o1 o2 o3 st = Inr st0"
    and "\<forall>start size_t obj freed. VmaDel start size_t obj freed \<in> set ops \<longrightarrow> page_aligned start \<and> no_wrap start size_t"
    and "\<forall>start size_t lim ty obj. VmaNew start size_t lim ty obj \<in> set ops \<longrightarrow> start = 0 \<or> no_wrap start size_t"
    and "env_ok ops st0"
  shows "\<exists>st1 U. vma_run ops st0 = Inr st1 \<and> vma_ok st1 B U \<and> vma_check_kmva st1 = Inr () \<and>
    (\<forall>v. user_adr v \<longrightarrow> user_view (vm_mmu st1) v \<noteq> None \<longrightarrow> page_base v \<in> region_adrs (regions st1))"
proof -
  have ok0: "vma_ok st0 B {}"
    by (rule init_kvirmemadrs_ok [OF assms(1-6)]) (use assms(7) in simp)
  have "arg_ok p" if "p \<in> set ops" for p
  proof (cases p)
    case (VmaNew start size_t lim ty obj)
    with that assms(9) show ?thesis by fastforce
  next
    case (VmaDel start size_t obj freed)
    with that assms(8) show ?thesis by fastforce
  qed simp
  with vma_run_ok [OF ok0 assms(10)] obtain st1 U where run: "vma_run ops st0 = Inr st1" and ok: "vma_ok st1 B U"
    by blast
  have "page_base v \<in> region_adrs (regions st1)" if v: "user_adr v" "user_view (vm_mmu st1) v \<noteq> None" for v
    by (rule mapped_in_region [OF ok v]) (auto simp: region_adrs_def)
  then show ?thesis
    using run ok vma_check_kmva_ok [OF vma_okD(1) [OF ok]] by blast
qed

theorem regions_stay_sound_witness:
  "\<exists>st1 U. vma_run [VmaFault 0x1008 0xe00 None, VmaNew 0 0x1000 0 KMV_HEAP_TYPE 0, VmaDel 0x1000 0x1000 0 True] demo_vm = Inr st1 \<and>
     vma_ok st1 {} U \<and> vma_check_kmva st1 = Inr ()"
proof -
  let ?ops = "[VmaFault 0x1008 0xe00 None, VmaNew 0 0x1000 0 KMV_HEAP_TYPE 0, VmaDel 0x1000 0x1000 0 True]"
  have "user_adr 0x1008"
    by (simp add: user_adr_def)
  then have "env_ok ?ops demo_vm"
    using demo_obj demo_app demo_vm_facts(4) by (auto simp: obj_ok_def split: sum.split)
  moreover have "page_aligned 0x1000" "no_wrap 0x1000 0x1000"
    by (simp_all add: page_aligned_def no_wrap_def)
  ultimately show ?thesis
    using regions_stay_sound [OF demo_vm_kernel _ demo_objs demo_vm_facts(1), of ?ops] by auto
qed

section \<open>A length that wraps around\<close>

text \<open>C33: A size that wraps around breaks the regions: when a range is given back whose end, computed in 64 bits, lies below
  its start and above the start of the region found, the service reports success and leaves two regions that share
  addresses, on which the check of the kernel panics.\<close>

theorem mfreeblk_wrap_overlaps:
  assumes "vma_ok st B U" "obj_ok st obj" "obj \<noteq> 0" "vma_del_find_kmvarsdsc st start (VADSZ_ALIGN size_t) = Inr p" "getk st p = Inr k"
    "kva_start k < start + VADSZ_ALIGN size_t" "start + VADSZ_ALIGN size_t < start" "start < kva_end k"
  shows "\<exists>st'. krlsvetabl_mfreeblk st INR_MM_FREE start size_t obj freed = Inr (SYSSTUSOK, st') \<and>
    (\<exists>k1 k2. (p, k1) \<in> set (regions st') \<and> (obj, k2) \<in> set (regions st') \<and> p \<noteq> obj \<and>
       holds_adr (start + VADSZ_ALIGN size_t) k1 \<and> holds_adr (start + VADSZ_ALIGN size_t) k2) \<and>
    vma_check_kmva st' \<noteq> Inr ()"
proof -
  let ?n = "VADSZ_ALIGN size_t" and ?e = "start + VADSZ_ALIGN size_t"
  have "(p, k) \<in> set (regions st)"
    using assms(5) by (auto simp: getk_def split: option.splits dest: map_of_SomeD)
  then obtain xs ys where l: "regions st = xs @ (p, k) # ys"
    by (meson split_list)
  have c: "kva_start k < start" "?e < kva_end k" "covers start ?e k"
    using assms(6-8) by (auto simp: covers_def)
  note d = regs_okD(1) [OF vma_okD(1) [OF assms(1)], unfolded l]
  have p0: "p \<noteq> 0" "p \<noteq> obj"
    using regs_okD(2) [OF vma_okD(1) [OF assms(1)]] assms(2,3) by (auto simp: l obj_ok_def)
  obtain st' where run: "andthen (knl_count_kvmemcbox (kva_kvmbox k) (setk p (\<lambda>k. k\<lparr>kva_end := start\<rparr>) st)) (\<lambda>st.
            andthen (vma_del_unmapping st p start ?n) (\<lambda>(ok, st).
              let st = upd_vs (\<lambda>v. v\<lparr>vs_list := add_after p (obj, kmvarsdsc_t_init\<lparr>kva_end := kva_end k,
                       kva_start := ?e, kva_limits := kva_limits k,
                       kva_maptype := kva_maptype k, kva_kvmbox := kva_kvmbox k\<rparr>) (vs_list v), vs_kmvdscnr := vs_kmvdscnr v + 1\<rparr>) st
              in andthen (next_kmvd obj (regions st)) (\<lambda>next.
                 Inr (True, upd_vs (\<lambda>v. if next = None then v\<lparr>vs_endkmvdsc := obj, vs_currkmvdsc := obj\<rparr>
                   else v\<lparr>vs_currkmvdsc := obj\<rparr>) st)))) = Inr (True, st')"
    and l': "regions st' = xs @ (p, k\<lparr>kva_end := start\<rparr>) # (obj, k\<lparr>kva_start := ?e\<rparr>) # ys"
    using del_hole [OF assms(1) l c(1,2) assms(2,3) c(3)] by (elim exE conjE) (rule that)
  have ne: "kva_start k \<noteq> start" "?e \<noteq> kva_end k" "kva_end k \<noteq> ?e"
    using c by auto
  have core: "vma_del_vadrs_core st start ?n obj freed = Inr (True, st')"
    unfolding vma_del_vadrs_core_def assms(4) using assms(5) c(1,2) ne p0(1) assms(3) run
    by (simp only: andthen_simps Let_def if_False if_True HOL.simp_thms)
  have "size_t \<noteq> 0" "start \<noteq> 0"
    using assms(7) by (auto simp: VADSZ_ALIGN_def)
  then have "krlsvetabl_mfreeblk st INR_MM_FREE start size_t obj freed = Inr (SYSSTUSOK, st')"
    using core by (simp add: krlsvetabl_mfreeblk_def krlsve_mfreeblk_def krlsve_core_mfreeblk_def vma_del_vadrs_def word_less_1)
  moreover have "(p, k\<lparr>kva_end := start\<rparr>) \<in> set (regions st')" "(obj, k\<lparr>kva_start := ?e\<rparr>) \<in> set (regions st')"
    by (simp_all add: l')
  moreover from this have "vma_check_kmva st' \<noteq> Inr ()"
    using check_overlap [of "regions st'" "regions st'" p _ obj] p0(2) assms(6,7) unfolding vma_check_kmva_def by fastforce
  moreover have "holds_adr ?e (k\<lparr>kva_end := start\<rparr>)" "holds_adr ?e (k\<lparr>kva_start := ?e\<rparr>)"
    using assms(6,7) c(2) by (auto simp: holds_adr_def)
  ultimately show ?thesis
    using p0(2) by blast
qed

theorem mfreeblk_wrap_overlaps_witness:
  "\<exists>st'. krlsvetabl_mfreeblk demo_vm INR_MM_FREE 0x3000 (- 0x1000) 0xe00 True = Inr (SYSSTUSOK, st') \<and> vma_check_kmva st' \<noteq> Inr ()"
proof -
  have n: "VADSZ_ALIGN (- 0x1000) = - 0x1000"
    by (simp add: VADSZ_ALIGN_def)
  let ?k = "kmvarsdsc_t_init\<lparr>kva_start := 0x1000, kva_end := 0x5000\<rparr>"
  have "vma_del_find_kmvarsdsc demo_vm 0x3000 (VADSZ_ALIGN (- 0x1000)) = Inr 0xb00" "getk demo_vm 0xb00 = Inr ?k"
    unfolding n by (simp_all add: vma_del_find_kmvarsdsc_def getk_def demo_vm_facts start_regions_def covers_def)
  then show ?thesis
    using mfreeblk_wrap_overlaps [OF demo_vm_facts(2) demo_obj(1), of "0x3000" "- 0x1000" "0xb00" ?k True] unfolding n by auto
qed

end
