(* ===== verification/RfsBlk.thy ===== *)
theory RfsBlk
  imports CPrelude
begin

text \<open>
  What the RAM file system (\<open>drivers/drvrfs.c\<close>) works on: blocks of bytes with 64-bit fields at
  byte offsets, and NUL-terminated strings inside such memory. \<open>rfs_strcmp\<close>,
  \<open>rfs_strlen\<close> and \<open>rfs_strcpy\<close> are the C loops; the lemmas give their results on memory that
  holds a string.
\<close>

section \<open>Bytes and fields\<close>

type_synonym block = "nat \<Rightarrow> u8"

text \<open>A \<open>uint_t\<close> in memory: eight bytes, the least significant first.\<close>

definition ld64 :: "block \<Rightarrow> nat \<Rightarrow> u64" where
  "ld64 b off = of_nat (sum_list (map (\<lambda>j. unat (b (off + j)) * 256 ^ j) [0..<8]))"

definition st64 :: "block \<Rightarrow> nat \<Rightarrow> u64 \<Rightarrow> block" where
  "st64 b off v = (\<lambda>i. if off \<le> i \<and> i < off + 8 then of_nat (unat v div 256 ^ (i - off)) else b i)"

lemma bytes_sum:
  "sum_list (map (\<lambda>j. (x div 256 ^ j) mod 256 * 256 ^ j) [0..<m]) = x mod (256 ^ m :: nat)"
proof (induction m)
  case (Suc m)
  have "x mod 256 ^ Suc m = 256 ^ m * (x div 256 ^ m mod 256) + x mod 256 ^ m"
    by (simp only: power_Suc2 mod_mult2_eq)
  with Suc show ?case by simp
qed simp

lemma ld64_st64_same [simp]: "ld64 (st64 b off v) off = v"
proof -
  have "map (\<lambda>j. unat (st64 b off v (off + j)) * 256 ^ j) [0..<8] =
      map (\<lambda>j. (unat v div 256 ^ j) mod 256 * 256 ^ j) [0..<8]"
    by (rule map_cong) (simp_all add: st64_def unat_of_nat)
  moreover have "unat v < 256 ^ 8"
    using unsigned_less [of v] by simp
  ultimately show ?thesis
    by (simp only: ld64_def bytes_sum mod_less) simp
qed

lemma st64_other: "i < off \<or> off + 8 \<le> i \<Longrightarrow> st64 b off v i = b i"
  by (auto simp: st64_def)

lemma ld64_cong: "(\<And>i. off \<le> i \<Longrightarrow> i < off + 8 \<Longrightarrow> b' i = b i) \<Longrightarrow> ld64 b' off = ld64 b off"
  unfolding ld64_def by (rule arg_cong [where f = "\<lambda>xs. of_nat (sum_list xs)"]) (rule map_cong, simp_all)

lemma ld64_st64_other [simp]:
  "off' + 8 \<le> off \<or> off + 8 \<le> off' \<Longrightarrow> ld64 (st64 b off v) off' = ld64 b off'"
  by (rule ld64_cong) (rule st64_other, auto)


section \<open>Strings\<close>

text \<open>
  A \<open>char_t*\<close> is the memory it points into, the size of that memory and an index. Reading
  or writing past the size is undefined behaviour.
\<close>

function rfs_strcmp :: "block \<Rightarrow> nat \<Rightarrow> nat \<Rightarrow> block \<Rightarrow> nat \<Rightarrow> nat \<Rightarrow> int run" where
  "rfs_strcmp a na i b nb j =
     (if na \<le> i \<or> nb \<le> j then Inl Fault
      else if a i \<noteq> b j then Inr 0
      else if a i = 0 then Inr 1
      else rfs_strcmp a na (Suc i) b nb (Suc j))"
  by auto
termination by (relation "measure (\<lambda>(a, na, i, b, nb, j). na - i)") auto

function rfs_strlen :: "block \<Rightarrow> nat \<Rightarrow> nat \<Rightarrow> int run" where
  "rfs_strlen a na i =
     (if na \<le> i then Inl Fault
      else if a i = 0 then Inr 0
      else andthen (rfs_strlen a na (Suc i)) (\<lambda>n. Inr (n + 1)))"
  by auto
termination by (relation "measure (\<lambda>(a, na, i). na - i)") auto

text \<open>Copies to the memory \<open>b\<close> and returns it; the C function's count has no use in the code.\<close>

function rfs_strcpy :: "block \<Rightarrow> nat \<Rightarrow> nat \<Rightarrow> block \<Rightarrow> nat \<Rightarrow> nat \<Rightarrow> block run" where
  "rfs_strcpy a na i b nb j =
     (if na \<le> i \<or> nb \<le> j then Inl Fault
      else if a i = 0 then Inr (b(j := 0))
      else rfs_strcpy a na (Suc i) (b(j := a i)) nb (Suc j))"
  by auto
termination by (relation "measure (\<lambda>(a, na, i, b, nb, j). na - i)") auto

declare rfs_strcmp.simps [simp del] rfs_strlen.simps [simp del] rfs_strcpy.simps [simp del]

text \<open>The memory holds the string \<open>xs\<close> at \<open>i\<close>, with its terminator.\<close>

definition cstr :: "block \<Rightarrow> nat \<Rightarrow> nat \<Rightarrow> u8 list \<Rightarrow> bool" where
  "cstr a n i xs \<longleftrightarrow> i + length xs < n \<and> 0 \<notin> set xs \<and>
     (\<forall>k < length xs. a (i + k) = xs ! k) \<and> a (i + length xs) = 0"

lemma cstr_Nil: "cstr a n i [] \<longleftrightarrow> i < n \<and> a i = 0"
  by (simp add: cstr_def)

lemma cstr_Cons: "cstr a n i (x # xs) \<longleftrightarrow> i < n \<and> a i = x \<and> x \<noteq> 0 \<and> cstr a n (Suc i) xs"
  by (auto simp: cstr_def All_less_Suc2)

lemma rfs_strcmp_cstr:
  "cstr a na i xs \<Longrightarrow> cstr b nb j ys \<Longrightarrow> rfs_strcmp a na i b nb j = Inr (if xs = ys then 1 else 0)"
proof (induction xs arbitrary: i j ys)
  case Nil
  then show ?case
    by (cases ys) (auto simp: cstr_Nil cstr_Cons rfs_strcmp.simps [of a na i])
next
  case (Cons x xs)
  then show ?case
    by (cases ys) (auto simp: cstr_Nil cstr_Cons rfs_strcmp.simps [of a na i])
qed

lemma rfs_strlen_cstr: "cstr a n i xs \<Longrightarrow> rfs_strlen a n i = Inr (int (length xs))"
  by (induction xs arbitrary: i) (auto simp: cstr_Nil cstr_Cons rfs_strlen.simps [of a n])

definition put_str :: "block \<Rightarrow> nat \<Rightarrow> u8 list \<Rightarrow> block" where
  "put_str b j xs = (\<lambda>k. if j \<le> k \<and> k < j + length xs then xs ! (k - j)
     else if k = j + length xs then 0 else b k)"

lemma put_str_simps:
  "put_str b j [] = b(j := 0)"
  "put_str b j (x # xs) = put_str (b(j := x)) (Suc j) xs"
proof -
  show "put_str b j (x # xs) = put_str (b(j := x)) (Suc j) xs"
  proof (rule ext)
    fix k show "put_str b j (x # xs) k = put_str (b(j := x)) (Suc j) xs k"
      by (cases "k - j") (auto simp: put_str_def nth_Cons Suc_diff_le diff_Suc split: nat.splits)
  qed
qed (auto simp: put_str_def fun_eq_iff)

lemma rfs_strcpy_cstr:
  "cstr a na i xs \<Longrightarrow> j + length xs < nb \<Longrightarrow> rfs_strcpy a na i b nb j = Inr (put_str b j xs)"
proof (induction xs arbitrary: i j b)
  case Nil
  then show ?case
    by (simp add: cstr_Nil rfs_strcpy.simps [of a na i] put_str_simps fun_upd_def)
next
  case (Cons x xs)
  then show ?case
    by (simp add: cstr_Cons rfs_strcpy.simps [of a na i] put_str_simps fun_upd_def)
qed

lemma cstr_put_str: "0 \<notin> set xs \<Longrightarrow> j + length xs < n \<Longrightarrow> cstr (put_str b j xs) n j xs"
  by (simp add: cstr_def put_str_def)

lemma cstr_unique: "cstr a n i xs \<Longrightarrow> cstr a n i ys \<Longrightarrow> xs = ys"
  by (induction xs arbitrary: i ys; case_tac ys) (auto simp: cstr_Nil cstr_Cons)

lemma cstr_cong: "(\<And>k. i \<le> k \<Longrightarrow> k \<le> i + length xs \<Longrightarrow> b k = a k) \<Longrightarrow> cstr b n i xs = cstr a n i xs"
  by (auto simp: cstr_def)

lemma put_str_other: "k < j \<or> j + length xs < k \<Longrightarrow> put_str b j xs k = b k"
  by (auto simp: put_str_def)

end
