(* ===== verification/Rfs.thy ===== *)
theory Rfs
  imports RfsBlk
begin

text \<open>
  The RAM file system, \<open>drivers/drvrfs.c\<close>: its device (a range of memory cut into blocks of 4096
  bytes), the superblock (block 0), the bitmap (block 1, a byte per block), the root
  directory block with 28 entries of 128 bytes, and files of one block. Each definition is the C
  function of the same name. Buffers are values; what \<open>krlnew\<close> answers is an input of the model, so every
  out-of-memory path is there, and every path returns its buffers or does not, as the code does.
\<close>

section \<open>Constants and layouts\<close>

definition DR_NM_MAX :: nat where [simp]: "DR_NM_MAX = 104"
definition FBLKS_MAX :: nat where [simp]: "FBLKS_MAX = 32"
definition RDR_NUL_TYPE :: u64 where [simp]: "RDR_NUL_TYPE = 0"
definition RDR_DIR_TYPE :: u64 where [simp]: "RDR_DIR_TYPE = 1"
definition RDR_FIL_TYPE :: u64 where [simp]: "RDR_FIL_TYPE = 2"
definition RDR_DEL_TYPE :: u64 where [simp]: "RDR_DEL_TYPE = 5"
definition FMD_NUL_TYPE :: u64 where [simp]: "FMD_NUL_TYPE = 0"
definition FMD_DIR_TYPE :: u64 where [simp]: "FMD_DIR_TYPE = 1"
definition FMD_FIL_TYPE :: u64 where [simp]: "FMD_FIL_TYPE = 2"
definition FSMM_BLK :: u64 where "FSMM_BLK = 0x400000"
definition FSYS_ALCBLKSZ :: nat where [simp]: "FSYS_ALCBLKSZ = 0x1000"
definition FSDEV_IOCTRCD_DELFILE :: u64 where [simp]: "FSDEV_IOCTRCD_DELFILE = 5"
definition FSDEV_OPENFLG_NEWFILE :: u64 where [simp]: "FSDEV_OPENFLG_NEWFILE = 1"
definition FSDEV_OPENFLG_OPEFILE :: u64 where [simp]: "FSDEV_OPENFLG_OPEFILE = 2"
definition DFCERRSTUS :: int where "DFCERRSTUS = - 1"
definition DFCOKSTUS :: int where "DFCOKSTUS = 0"

text \<open>
  The offset of each field in its structure: \<open>rfsdir_t\<close> (128 bytes), \<open>filblks_t\<close> (16),
  \<open>rfssublk_t\<close> (216) and \<open>fimgrhd_t\<close> (632), laid out for the x86-64 ABI.
\<close>

definition rdr_stus :: nat where [simp]: "rdr_stus = 0"
definition rdr_type :: nat where [simp]: "rdr_type = 8"
definition rdr_blknr :: nat where [simp]: "rdr_blknr = 16"
definition rdr_name :: nat where [simp]: "rdr_name = 24"
definition fb_blkstart :: nat where [simp]: "fb_blkstart = 0"
definition fb_blknr :: nat where [simp]: "fb_blknr = 8"
definition rsb_lock :: nat where [simp]: "rsb_lock = 0"
definition rsb_mgic :: nat where [simp]: "rsb_mgic = 8"
definition rsb_vec :: nat where [simp]: "rsb_vec = 16"
definition rsb_flg :: nat where [simp]: "rsb_flg = 24"
definition rsb_stus :: nat where [simp]: "rsb_stus = 32"
definition rsb_sz :: nat where [simp]: "rsb_sz = 40"
definition rsb_sblksz :: nat where [simp]: "rsb_sblksz = 48"
definition rsb_dblksz :: nat where [simp]: "rsb_dblksz = 56"
definition rsb_bmpbks :: nat where [simp]: "rsb_bmpbks = 64"
definition rsb_bmpbknr :: nat where [simp]: "rsb_bmpbknr = 72"
definition rsb_fsysallblk :: nat where [simp]: "rsb_fsysallblk = 80"
definition rsb_rootdir :: nat where [simp]: "rsb_rootdir = 88"
definition fmd_stus :: nat where [simp]: "fmd_stus = 0"
definition fmd_type :: nat where [simp]: "fmd_type = 8"
definition fmd_flg :: nat where [simp]: "fmd_flg = 16"
definition fmd_sfblk :: nat where [simp]: "fmd_sfblk = 24"
definition fmd_acss :: nat where [simp]: "fmd_acss = 32"
definition fmd_newtime :: nat where [simp]: "fmd_newtime = 40"
definition fmd_acstime :: nat where [simp]: "fmd_acstime = 48"
definition fmd_fileallbk :: nat where [simp]: "fmd_fileallbk = 56"
definition fmd_filesz :: nat where [simp]: "fmd_filesz = 64"
definition fmd_fileifstbkoff :: nat where [simp]: "fmd_fileifstbkoff = 72"
definition fmd_fileiendbkoff :: nat where [simp]: "fmd_fileiendbkoff = 80"
definition fmd_curfwritebk :: nat where [simp]: "fmd_curfwritebk = 88"
definition fmd_curfinwbkoff :: nat where [simp]: "fmd_curfinwbkoff = 96"
definition fmd_fleblk :: nat where [simp]: "fmd_fleblk = 104"
definition fmd_linkpblk :: nat where [simp]: "fmd_linkpblk = 616"
definition fmd_linknblk :: nat where [simp]: "fmd_linknblk = 624"

lemma status_simps [simp]:
  "DFCERRSTUS = DFCOKSTUS \<longleftrightarrow> False" "DFCOKSTUS = DFCERRSTUS \<longleftrightarrow> False"
  by (simp_all add: DFCERRSTUS_def DFCOKSTUS_def)

section \<open>The device\<close>

text \<open>
  \<open>rfsdevext_t\<close>: where the memory of the device starts, its size and its blocks, by block number.
  The two \<open>krl_\<close> fields are the kernel memory service as far as the driver sees it: the answers
  \<open>krlnew\<close> gives to the next requests (after the last it always grants), and how many buffers the driver
  holds.
\<close>

record rfs =
  rde_mstart :: u64
  rde_msize :: u64
  rde_mem :: "nat \<Rightarrow> block"
  krl_grants :: "bool list"
  krl_live :: nat

definition new_buf :: "rfs \<Rightarrow> bool \<times> rfs" where
  "new_buf s = (case krl_grants s of
       [] \<Rightarrow> (True, s\<lparr>krl_live := Suc (krl_live s)\<rparr>)
     | True # gs \<Rightarrow> (True, s\<lparr>krl_grants := gs, krl_live := Suc (krl_live s)\<rparr>)
     | False # gs \<Rightarrow> (False, s\<lparr>krl_grants := gs\<rparr>))"

definition del_buf :: "rfs \<Rightarrow> rfs run" where
  "del_buf s = (case krl_live s of
       0 \<Rightarrow> Inl (Panic ''del buf err'')
     | Suc n \<Rightarrow> Inr (s\<lparr>krl_live := n\<rparr>))"

text \<open>
  The first two arguments are what the two calls of \<open>krlnew\<close> return; 0 is \<open>NULL\<close>. \<open>mem\<close> is what the memory holds, \<open>gs\<close> the
  answers to later calls.
\<close>

definition new_rfsdevext_mmblk :: "u64 \<Rightarrow> u64 \<Rightarrow> u64 \<Rightarrow> (nat \<Rightarrow> block) \<Rightarrow> bool list \<Rightarrow> rfs option" where
  "new_rfsdevext_mmblk blkp rfsexp blksz mem gs =
     (if blkp = 0 \<or> rfsexp = 0 then None
      else Some \<lparr>rde_mstart = blkp, rde_msize = blksz, rde_mem = mem, krl_grants = gs, krl_live = 0\<rparr>)"

definition ret_rfsdevblk :: "rfs \<Rightarrow> u64 \<Rightarrow> u64 option" where
  "ret_rfsdevblk s blknr =
     (let blkp = rde_mstart s + blknr * of_nat FSYS_ALCBLKSZ
      in if rde_mstart s + rde_msize s \<le> blkp then None else Some blkp)"

definition ret_rfsdevmaxblknr :: "rfs \<Rightarrow> u64" where
  "ret_rfsdevmaxblknr s = rde_msize s div of_nat FSYS_ALCBLKSZ"

text \<open>The whole block at address \<open>p\<close> lies in the memory of the device.\<close>

definition dev_has :: "rfs \<Rightarrow> u64 \<Rightarrow> bool" where
  "dev_has s p \<longleftrightarrow> unat (p - rde_mstart s) + FSYS_ALCBLKSZ \<le> unat (rde_msize s)"

definition dev_idx :: "rfs \<Rightarrow> u64 \<Rightarrow> nat" where
  "dev_idx s p = unat (p - rde_mstart s) div FSYS_ALCBLKSZ"

text \<open>The block read, or \<open>None\<close> for the error status.\<close>

definition read_rfsdevblk :: "rfs \<Rightarrow> u64 \<Rightarrow> block option run" where
  "read_rfsdevblk s blknr = (case ret_rfsdevblk s blknr of
       None \<Rightarrow> Inr None
     | Some p \<Rightarrow> if dev_has s p then Inr (Some (rde_mem s (dev_idx s p))) else Inl Fault)"

definition write_rfsdevblk :: "rfs \<Rightarrow> block \<Rightarrow> u64 \<Rightarrow> (int \<times> rfs) run" where
  "write_rfsdevblk s weadr blknr = (case ret_rfsdevblk s blknr of
       None \<Rightarrow> Inr (DFCERRSTUS, s)
     | Some p \<Rightarrow> if dev_has s p
         then Inr (DFCOKSTUS, s\<lparr>rde_mem := (rde_mem s)(dev_idx s p := weadr)\<rparr>)
         else Inl Fault)"

section \<open>Initial values\<close>

definition hal_memset :: "u8 \<Rightarrow> block" where
  "hal_memset v = (\<lambda>_. v)"

text \<open>\<open>rfsdir_t_init\<close> on the entry at offset \<open>d\<close>.\<close>

primrec clear_name :: "nat \<Rightarrow> nat \<Rightarrow> block \<Rightarrow> block" where
  "clear_name d 0 b = b"
| "clear_name d (Suc i) b = (clear_name d i b)(d + rdr_name + i := 0)"

definition rfsdir_t_init :: "nat \<Rightarrow> block \<Rightarrow> block" where
  "rfsdir_t_init d b =
     (let b = st64 b (d + rdr_stus) 0;
          b = st64 b (d + rdr_type) RDR_NUL_TYPE;
          b = st64 b (d + rdr_blknr) 0
      in clear_name d DR_NM_MAX b)"

definition filblks_t_init :: "nat \<Rightarrow> block \<Rightarrow> block" where
  "filblks_t_init d b = st64 (st64 b (d + fb_blkstart) 0) (d + fb_blknr) 0"

definition krlspinlock_init :: "nat \<Rightarrow> block \<Rightarrow> block" where
  "krlspinlock_init d b = b(d := 0, d + 1 := 0, d + 2 := 0, d + 3 := 0)"

definition rfssublk_t_init :: "block \<Rightarrow> block" where
  "rfssublk_t_init b =
     (let b = krlspinlock_init rsb_lock b;
          b = st64 b rsb_mgic 0x142422;
          b = st64 b rsb_vec 1;
          b = st64 b rsb_flg 0;
          b = st64 b rsb_stus 0;
          b = st64 b rsb_sz 216;
          b = st64 b rsb_sblksz 1;
          b = st64 b rsb_dblksz (of_nat FSYS_ALCBLKSZ);
          b = st64 b rsb_bmpbks 1;
          b = st64 b rsb_bmpbknr 0;
          b = st64 b rsb_fsysallblk 0
      in rfsdir_t_init rsb_rootdir b)"

primrec init_fleblk :: "nat \<Rightarrow> block \<Rightarrow> block" where
  "init_fleblk 0 b = b"
| "init_fleblk (Suc i) b = filblks_t_init (fmd_fleblk + 16 * i) (init_fleblk i b)"

definition fimgrhd_t_init :: "block \<Rightarrow> block" where
  "fimgrhd_t_init b =
     (let b = st64 b fmd_stus 0;
          b = st64 b fmd_type FMD_NUL_TYPE;
          b = st64 b fmd_flg 0;
          b = st64 b fmd_sfblk 0;
          b = st64 b fmd_acss 0;
          b = st64 b fmd_newtime 0;
          b = st64 b fmd_acstime 0;
          b = st64 b fmd_fileallbk 0;
          b = st64 b fmd_filesz 0;
          b = st64 b fmd_fileifstbkoff 0x200;
          b = st64 b fmd_fileiendbkoff 0;
          b = st64 b fmd_curfwritebk 0;
          b = st64 b fmd_curfinwbkoff 0;
          b = init_fleblk FBLKS_MAX b;
          b = st64 b fmd_linkpblk 0;
          b = st64 b fmd_linknblk 0
      in b)"


section \<open>Superblock, bitmap and root directory\<close>

text \<open>The \<open>get_\<close> functions return \<open>None\<close> for \<open>NULL\<close>.\<close>

definition get_superblk :: "rfs \<Rightarrow> (block option \<times> rfs) run" where
  "get_superblk s = (case new_buf s of
       (False, s) \<Rightarrow> Inr (None, s)
     | (True, s) \<Rightarrow> andthen (read_rfsdevblk s 0) (\<lambda>r. case r of
           None \<Rightarrow> andthen (del_buf s) (\<lambda>s. Inr (None, s))
         | Some buf \<Rightarrow> Inr (Some buf, s)))"

definition del_superblk :: "rfs \<Rightarrow> block \<Rightarrow> rfs run" where
  "del_superblk s sbp = andthen (write_rfsdevblk s sbp 0) (\<lambda>(st, s).
     if st = DFCERRSTUS then Inl (Panic ''del superblk err'') else del_buf s)"

definition get_bitmapblk :: "rfs \<Rightarrow> (block option \<times> rfs) run" where
  "get_bitmapblk s = andthen (get_superblk s) (\<lambda>(r, s). case r of
       None \<Rightarrow> Inr (None, s)
     | Some sbp \<Rightarrow> (case new_buf s of
           (False, s) \<Rightarrow> Inr (None, s)
         | (True, s) \<Rightarrow> andthen (read_rfsdevblk s (ld64 sbp rsb_bmpbks)) (\<lambda>r. case r of
               None \<Rightarrow> andthen (del_buf s) (\<lambda>s. andthen (del_superblk s sbp) (\<lambda>s. Inr (None, s)))
             | Some buf \<Rightarrow> andthen (del_superblk s sbp) (\<lambda>s. Inr (Some buf, s)))))"

definition del_bitmapblk :: "rfs \<Rightarrow> block \<Rightarrow> rfs run" where
  "del_bitmapblk s bitmap = andthen (get_superblk s) (\<lambda>(r, s). case r of
       None \<Rightarrow> Inl (Panic ''del superblk err'')
     | Some sbp \<Rightarrow> andthen (write_rfsdevblk s bitmap (ld64 sbp rsb_bmpbks)) (\<lambda>(st, s).
         if st = DFCERRSTUS
         then andthen (del_superblk s sbp) (\<lambda>s. Inl (Panic ''del superblk err1''))
         else andthen (del_superblk s sbp) (\<lambda>s. del_buf s)))"

text \<open>The loop of \<open>rfs_new_blk\<close> from \<open>blknr\<close> on: the bitmap and the number found, 0 when there is none.\<close>

function new_blk_loop :: "block \<Rightarrow> nat \<Rightarrow> block \<times> nat" where
  "new_blk_loop bitmap blknr =
     (if blknr < FSYS_ALCBLKSZ then
        if bitmap blknr = 0 then (bitmap(blknr := 1), blknr) else new_blk_loop bitmap (blknr + 1)
      else (bitmap, 0))"
  by auto
termination by (relation "measure (\<lambda>(bitmap, blknr). FSYS_ALCBLKSZ - blknr)") auto

declare new_blk_loop.simps [simp del]

definition rfs_new_blk :: "rfs \<Rightarrow> (u64 \<times> rfs) run" where
  "rfs_new_blk s = andthen (get_bitmapblk s) (\<lambda>(r, s). case r of
       None \<Rightarrow> Inr (0, s)
     | Some bitmap \<Rightarrow> (case new_blk_loop bitmap 2 of (bitmap, retblk) \<Rightarrow>
         andthen (del_bitmapblk s bitmap) (\<lambda>s. Inr (of_nat retblk, s))))"

definition rfs_del_blk :: "rfs \<Rightarrow> u64 \<Rightarrow> rfs run" where
  "rfs_del_blk s blknr =
     (if of_nat FSYS_ALCBLKSZ < blknr then Inl (Panic ''rfs del blk err'')
      else andthen (get_bitmapblk s) (\<lambda>(r, s). case r of
          None \<Rightarrow> Inl (Panic ''rfs del blk err1'')
        | Some bitmap \<Rightarrow>
            if unat blknr < FSYS_ALCBLKSZ then del_bitmapblk s (bitmap(unat blknr := 0)) else Inl Fault))"

text \<open>The root directory entry is copied to a buffer of its own: the block returned has it at offset 0.\<close>

definition get_rootdir :: "rfs \<Rightarrow> (block option \<times> rfs) run" where
  "get_rootdir s = andthen (get_superblk s) (\<lambda>(r, s). case r of
       None \<Rightarrow> Inr (None, s)
     | Some sbp \<Rightarrow> (case new_buf s of
           (False, s) \<Rightarrow> andthen (del_superblk s sbp) (\<lambda>s. Inr (None, s))
         | (True, s) \<Rightarrow> andthen (del_superblk s sbp) (\<lambda>s. Inr (Some (\<lambda>i. sbp (rsb_rootdir + i)), s))))"

definition del_rootdir :: "rfs \<Rightarrow> rfs run" where
  "del_rootdir s = del_buf s"

definition get_rootdirfile_blk :: "rfs \<Rightarrow> (block option \<times> rfs) run" where
  "get_rootdirfile_blk s = andthen (get_rootdir s) (\<lambda>(r, s). case r of
       None \<Rightarrow> Inr (None, s)
     | Some rtdir \<Rightarrow> (case new_buf s of
           (False, s) \<Rightarrow> andthen (del_rootdir s) (\<lambda>s. Inr (None, s))
         | (True, s) \<Rightarrow> andthen (read_rfsdevblk s (ld64 rtdir rdr_blknr)) (\<lambda>r. case r of
               None \<Rightarrow> andthen (del_buf s) (\<lambda>s. andthen (del_rootdir s) (\<lambda>s. Inr (None, s)))
             | Some buf \<Rightarrow> andthen (del_rootdir s) (\<lambda>s. Inr (Some buf, s)))))"

definition del_rootdirfile_blk :: "rfs \<Rightarrow> block \<Rightarrow> rfs run" where
  "del_rootdirfile_blk s blkp = andthen (write_rfsdevblk s blkp (ld64 blkp fmd_sfblk)) (\<lambda>(st, s).
     if st = DFCERRSTUS then Inl (Panic ''del_rootfile_blk err'') else del_buf s)"

section \<open>Formatting\<close>

definition create_superblk :: "rfs \<Rightarrow> (bool \<times> rfs) run" where
  "create_superblk s = (case new_buf s of
       (False, s) \<Rightarrow> Inr (False, s)
     | (True, s) \<Rightarrow>
         (let sbp = rfssublk_t_init (hal_memset 0);
              sbp = st64 sbp rsb_fsysallblk (ret_rfsdevmaxblknr s)
          in andthen (write_rfsdevblk s sbp 0) (\<lambda>(st, s).
            if st = DFCERRSTUS then Inr (False, s)
            else andthen (del_buf s) (\<lambda>s. Inr (True, s)))))"

function clear_bits :: "block \<Rightarrow> u64 \<Rightarrow> u64 \<Rightarrow> block" where
  "clear_bits bitmap bi devmaxblk =
     (if bi < devmaxblk then clear_bits (bitmap(unat bi := 0)) (bi + 1) devmaxblk else bitmap)"
  by auto
termination
proof (relation "measure (\<lambda>(bitmap, bi, m). unat m - unat bi)", goal_cases)
  case (2 bitmap bi m)
  then have "unat (bi + 1) = Suc (unat bi)"
    using unsigned_less [of m, where 'a = nat] by (simp add: unat_word_ariths word_less_nat_alt)
  with 2 show ?case
    by (simp add: word_less_nat_alt)
qed simp

declare clear_bits.simps [simp del]

definition create_bitmap :: "rfs \<Rightarrow> (bool \<times> rfs) run" where
  "create_bitmap s = andthen (get_superblk s) (\<lambda>(r, s). case r of
       None \<Rightarrow> Inr (False, s)
     | Some sbp \<Rightarrow> (case new_buf s of
           (False, s) \<Rightarrow> Inr (False, s)
         | (True, s) \<Rightarrow>
             (let bitmapblk = ld64 sbp rsb_bmpbks; devmaxblk = ld64 sbp rsb_fsysallblk in
              if of_nat FSYS_ALCBLKSZ < devmaxblk
              then andthen (del_superblk s sbp) (\<lambda>s. andthen (del_buf s) (\<lambda>s. Inr (False, s)))
              else
                let bitmap = clear_bits (hal_memset 1) 2 devmaxblk in
                andthen (write_rfsdevblk s bitmap bitmapblk) (\<lambda>(st, s).
                andthen (del_superblk s sbp) (\<lambda>s. andthen (del_buf s) (\<lambda>s.
                  Inr (st \<noteq> DFCERRSTUS, s)))))))"

definition create_rootdir :: "rfs \<Rightarrow> (bool \<times> rfs) run" where
  "create_rootdir s = andthen (get_superblk s) (\<lambda>(r, s). case r of
       None \<Rightarrow> Inr (False, s)
     | Some sbp \<Rightarrow> (case new_buf s of
           (False, s) \<Rightarrow> andthen (del_superblk s sbp) (\<lambda>s. Inr (False, s))
         | (True, s) \<Rightarrow> andthen (rfs_new_blk s) (\<lambda>(blk, s).
             if blk = 0
             then andthen (del_buf s) (\<lambda>s. andthen (del_superblk s sbp) (\<lambda>s. Inr (False, s)))
             else
               let sbp = sbp(rsb_rootdir + rdr_name := 47);
                   sbp = st64 sbp (rsb_rootdir + rdr_type) RDR_DIR_TYPE;
                   sbp = st64 sbp (rsb_rootdir + rdr_blknr) blk;
                   fmp = fimgrhd_t_init (hal_memset 0);
                   fmp = st64 fmp fmd_type FMD_DIR_TYPE;
                   fmp = st64 fmp fmd_sfblk blk;
                   fmp = st64 fmp fmd_curfwritebk blk;
                   fmp = st64 fmp fmd_curfinwbkoff 0x200;
                   fmp = st64 fmp (fmd_fleblk + fb_blkstart) blk;
                   fmp = st64 fmp (fmd_fleblk + fb_blknr) 1
               in andthen (write_rfsdevblk s fmp blk) (\<lambda>(st, s).
                  andthen (del_buf s) (\<lambda>s. andthen (del_superblk s sbp) (\<lambda>s.
                    Inr (st \<noteq> DFCERRSTUS, s)))))))"

definition rfs_fmat :: "rfs \<Rightarrow> rfs run" where
  "rfs_fmat s =
     andthen (create_superblk s) (\<lambda>(ok, s). if \<not> ok then Inl (Panic ''create superblk err'') else
     andthen (create_bitmap s) (\<lambda>(ok, s). if \<not> ok then Inl (Panic ''create bitmap err'') else
     andthen (create_rootdir s) (\<lambda>(ok, s). if \<not> ok then Inl (Panic ''create rootdir err'') else
     Inr s)))"

definition init_rfs :: "rfs \<Rightarrow> rfs run" where
  "init_rfs s = rfs_fmat s"

section \<open>Paths and the search of the directory\<close>

text \<open>A \<open>char_t*\<close> argument: \<open>None\<close> for \<open>NULL\<close>, or the memory it points at and its size.\<close>

type_synonym path = "(block \<times> nat) option"

function chkfilepath_loop :: "block \<Rightarrow> nat \<Rightarrow> nat \<Rightarrow> int run" where
  "chkfilepath_loop chp n i =
     (if n \<le> i then Inl Fault
      else if chp i = 47 then Inr 3
      else if DR_NM_MAX \<le> i then Inr 4
      else if chp i = 0 \<and> 1 < i then Inr 0
      else chkfilepath_loop chp n (i + 1))"
  by auto
termination by (relation "measure (\<lambda>(chp, n, i). n - i)") auto

declare chkfilepath_loop.simps [simp del]

definition rfs_chkfilepath :: "block \<Rightarrow> nat \<Rightarrow> int run" where
  "rfs_chkfilepath chp n =
     (if n \<le> 0 then Inl Fault else if chp 0 \<noteq> 47 then Inr 2 else chkfilepath_loop chp n 1)"

definition rfs_ret_fname :: "block \<Rightarrow> path \<Rightarrow> (int \<times> block) run" where
  "rfs_ret_fname buf fpath = (case fpath of
       None \<Rightarrow> Inr (6, buf)
     | Some (chp, n) \<Rightarrow> andthen (rfs_chkfilepath chp n) (\<lambda>stus.
         if stus \<noteq> 0 then Inr (stus, buf)
         else andthen (rfs_strcpy chp n 1 buf DR_NM_MAX 0) (\<lambda>buf. Inr (0, buf))))"

text \<open>
  The loop of \<open>rfs_chkfileisindev\<close>, \<open>rfs_openfileblk\<close> and \<open>del_dirfileblk_core\<close> over the
  entries from offset \<open>d\<close> of the directory block: the offset of the first file entry with the name.
  The code compares addresses inside the buffer; the model compares offsets in it, and a pointer past the
  end of the buffer is a fault.
\<close>

function dir_search :: "block \<Rightarrow> nat \<Rightarrow> block \<Rightarrow> nat option run" where
  "dir_search blk d fname =
     (if d < FSYS_ALCBLKSZ - 1 then
        if FSYS_ALCBLKSZ < d + rdr_blknr then Inl Fault
        else if ld64 blk (d + rdr_type) = RDR_FIL_TYPE then
          andthen (rfs_strcmp blk FSYS_ALCBLKSZ (d + rdr_name) fname DR_NM_MAX 0) (\<lambda>c.
            if c = 1 then Inr (Some d) else dir_search blk (d + 128) fname)
        else dir_search blk (d + 128) fname
      else Inr None)"
  by auto
termination by (relation "measure (\<lambda>(blk, d, fname). FSYS_ALCBLKSZ - d)") auto

declare dir_search.simps [simp del]

text \<open>The tests before the loop, the same in the three functions.\<close>

definition dir_empty :: "block \<Rightarrow> bool" where
  "dir_empty fmp \<longleftrightarrow> ld64 fmp fmd_curfwritebk = ld64 fmp (fmd_fleblk + fb_blkstart) \<and>
     ld64 fmp fmd_curfinwbkoff = ld64 fmp fmd_fileifstbkoff"

definition dir_find :: "block \<Rightarrow> block \<Rightarrow> nat option run" where
  "dir_find fmp fname =
     (if FSYS_ALCBLKSZ < unat (ld64 fmp fmd_fileifstbkoff) then Inl Fault
      else dir_search fmp (unat (ld64 fmp fmd_fileifstbkoff)) fname)"

definition rfs_chkfileisindev :: "rfs \<Rightarrow> block \<Rightarrow> (int \<times> rfs) run" where
  "rfs_chkfileisindev s fname = andthen (rfs_strlen fname DR_NM_MAX 0) (\<lambda>ch.
     if ch < 1 \<or> int DR_NM_MAX \<le> ch then Inr (4, s)
     else andthen (get_rootdirfile_blk s) (\<lambda>(r, s). case r of
         None \<Rightarrow> Inr (2, s)
       | Some rdblkp \<Rightarrow>
           andthen
             (if ld64 rdblkp fmd_type \<noteq> FMD_DIR_TYPE then Inr 3
              else if dir_empty rdblkp then Inr 0
              else andthen (dir_find rdblkp fname) (\<lambda>f. Inr (if f = None then 0 else 1)))
             (\<lambda>rets. andthen (del_rootdirfile_blk s rdblkp) (\<lambda>s. Inr (rets, s)))))"

section \<open>Files: create, delete, open, close, read, write\<close>

definition rfs_new_dirfileblk :: "rfs \<Rightarrow> block \<Rightarrow> u64 \<Rightarrow> (int \<times> rfs) run" where
  "rfs_new_dirfileblk s fname flgtype =
     (if flgtype \<noteq> RDR_FIL_TYPE then Inr (DFCERRSTUS, s)
      else case new_buf s of
          (False, s) \<Rightarrow> Inr (DFCERRSTUS, s)
        | (True, s) \<Rightarrow> andthen (rfs_new_blk s) (\<lambda>(fblk, s).
            if fblk = 0 then andthen (del_buf s) (\<lambda>s. Inr (DFCERRSTUS, s))
            else andthen (get_rootdirfile_blk s) (\<lambda>(r, s). case r of
                None \<Rightarrow> andthen (del_buf s) (\<lambda>s. Inr (DFCERRSTUS, s))
              | Some fmp \<Rightarrow>
                  let w = unat (ld64 fmp fmd_curfinwbkoff) in
                  if FSYS_ALCBLKSZ \<le> w
                  then andthen (del_rootdirfile_blk s fmp) (\<lambda>s.
                    andthen (del_buf s) (\<lambda>s. Inr (DFCERRSTUS, s)))
                  else if FSYS_ALCBLKSZ < w + rdr_name then Inl Fault
                  else
                    let fmp = st64 fmp (w + rdr_stus) 0;
                        fmp = st64 fmp (w + rdr_type) flgtype;
                        fmp = st64 fmp (w + rdr_blknr) fblk
                    in andthen (rfs_strcpy fname DR_NM_MAX 0 fmp FSYS_ALCBLKSZ (w + rdr_name)) (\<lambda>fmp.
                    let fmp = st64 fmp fmd_filesz (ld64 fmp fmd_filesz + 128);
                        fmp = st64 fmp fmd_curfinwbkoff (ld64 fmp fmd_curfinwbkoff + 128);
                        ffmp = fimgrhd_t_init (hal_memset 0);
                        ffmp = st64 ffmp fmd_type FMD_FIL_TYPE;
                        ffmp = st64 ffmp fmd_sfblk fblk;
                        ffmp = st64 ffmp fmd_curfwritebk fblk;
                        ffmp = st64 ffmp fmd_curfinwbkoff 0x200;
                        ffmp = st64 ffmp (fmd_fleblk + fb_blkstart) fblk;
                        ffmp = st64 ffmp (fmd_fleblk + fb_blknr) 1
                    in andthen (write_rfsdevblk s ffmp fblk) (\<lambda>(st, s).
                       andthen (del_rootdirfile_blk s fmp) (\<lambda>s. andthen (del_buf s) (\<lambda>s.
                         Inr (st, s))))))))"

definition rfs_new_file :: "rfs \<Rightarrow> path \<Rightarrow> (int \<times> rfs) run" where
  "rfs_new_file s fname = andthen (rfs_ret_fname (hal_memset 0) fname) (\<lambda>(stus, fne).
     if stus \<noteq> 0 then Inr (DFCERRSTUS, s)
     else andthen (rfs_chkfileisindev s fne) (\<lambda>(rets, s).
       if rets \<noteq> 0 then Inr (DFCERRSTUS, s)
       else rfs_new_dirfileblk s fne RDR_FIL_TYPE))"

definition del_dirfileblk_core :: "rfs \<Rightarrow> block \<Rightarrow> (int \<times> rfs) run" where
  "del_dirfileblk_core s fname = andthen (get_rootdirfile_blk s) (\<lambda>(r, s). case r of
       None \<Rightarrow> Inr (5, s)
     | Some fmp \<Rightarrow>
         if ld64 fmp fmd_type \<noteq> FMD_DIR_TYPE
         then andthen (del_rootdirfile_blk s fmp) (\<lambda>s. Inr (4, s))
         else if dir_empty fmp
         then andthen (del_rootdirfile_blk s fmp) (\<lambda>s. Inr (3, s))
         else andthen (dir_find fmp fname) (\<lambda>f. case f of
             None \<Rightarrow> andthen (del_rootdirfile_blk s fmp) (\<lambda>s. Inr (1, s))
           | Some d \<Rightarrow> andthen (rfs_del_blk s (ld64 fmp (d + rdr_blknr))) (\<lambda>s.
               if FSYS_ALCBLKSZ < d + 128 then Inl Fault
               else
                 let fmp = rfsdir_t_init d fmp;
                     fmp = st64 fmp (d + rdr_type) RDR_DEL_TYPE
                 in andthen (del_rootdirfile_blk s fmp) (\<lambda>s. Inr (0, s)))))"

definition rfs_del_dirfileblk :: "rfs \<Rightarrow> path \<Rightarrow> u64 \<Rightarrow> u64 \<Rightarrow> (int \<times> rfs) run" where
  "rfs_del_dirfileblk s fname flgtype val =
     (if flgtype \<noteq> RDR_FIL_TYPE \<or> val \<noteq> 0 then Inr (DFCERRSTUS, s)
      else andthen (rfs_ret_fname (hal_memset 0) fname) (\<lambda>(stus, fne).
        if stus \<noteq> 0 then Inr (DFCERRSTUS, s)
        else andthen (del_dirfileblk_core s fne) (\<lambda>(rets, s).
          Inr (if rets \<noteq> 0 then DFCERRSTUS else DFCOKSTUS, s))))"

definition rfs_del_file :: "rfs \<Rightarrow> path \<Rightarrow> u64 \<Rightarrow> (int \<times> rfs) run" where
  "rfs_del_file s fname flg =
     (if flg \<noteq> 0 then Inr (DFCERRSTUS, s) else rfs_del_dirfileblk s fname RDR_FIL_TYPE 0)"

text \<open>Returns the buffer with the file's block, which the caller owns from then on.\<close>

definition rfs_openfileblk :: "rfs \<Rightarrow> path \<Rightarrow> (block option \<times> rfs) run" where
  "rfs_openfileblk s fname = andthen (rfs_ret_fname (hal_memset 0) fname) (\<lambda>(stus, fne).
     if stus \<noteq> 0 then Inr (None, s)
     else andthen (get_rootdirfile_blk s) (\<lambda>(r, s). case r of
         None \<Rightarrow> Inr (None, s)
       | Some fmp \<Rightarrow>
           if ld64 fmp fmd_type \<noteq> FMD_DIR_TYPE
           then andthen (del_rootdirfile_blk s fmp) (\<lambda>s. Inr (None, s))
           else if dir_empty fmp
           then andthen (del_rootdirfile_blk s fmp) (\<lambda>s. Inr (None, s))
           else andthen (dir_find fmp fne) (\<lambda>f. case f of
               None \<Rightarrow> andthen (del_rootdirfile_blk s fmp) (\<lambda>s. Inr (None, s))
             | Some d \<Rightarrow> (case new_buf s of
                   (False, s) \<Rightarrow> andthen (del_rootdirfile_blk s fmp) (\<lambda>s. Inr (None, s))
                 | (True, s) \<Rightarrow>
                     if FSYS_ALCBLKSZ < d + rdr_name then Inl Fault
                     else andthen (read_rfsdevblk s (ld64 fmp (d + rdr_blknr))) (\<lambda>r. case r of
                         None \<Rightarrow> andthen (del_buf s) (\<lambda>s.
                           andthen (del_rootdirfile_blk s fmp) (\<lambda>s. Inr (None, s)))
                       | Some buf \<Rightarrow>
                           if ld64 buf fmd_type = FMD_NUL_TYPE \<or> ld64 buf fmd_fileifstbkoff \<noteq> 0x200
                           then andthen (del_buf s) (\<lambda>s.
                             andthen (del_rootdirfile_blk s fmp) (\<lambda>s. Inr (None, s)))
                           else andthen (del_rootdirfile_blk s fmp) (\<lambda>s. Inr (Some buf, s)))))))"

text \<open>\<open>hal_memcpy\<close> of \<open>n\<close> bytes between two memories of 4096 bytes.\<close>

definition copy_bytes :: "block \<Rightarrow> nat \<Rightarrow> block \<Rightarrow> nat \<Rightarrow> nat \<Rightarrow> block run" where
  "copy_bytes src i dst j n =
     (if n \<noteq> 0 \<and> (FSYS_ALCBLKSZ < i + n \<or> FSYS_ALCBLKSZ < j + n) then Inl Fault
      else Inr (\<lambda>k. if j \<le> k \<and> k < j + n then src (i + (k - j)) else dst k))"

definition one_block :: "block \<Rightarrow> bool" where
  "one_block fmp \<longleftrightarrow> ld64 fmp fmd_sfblk = ld64 fmp fmd_curfwritebk \<and>
     ld64 fmp fmd_curfwritebk = ld64 fmp (fmd_fleblk + fb_blkstart)"

definition rfs_writefileblk :: "rfs \<Rightarrow> block \<Rightarrow> block \<Rightarrow> u64 \<Rightarrow> (int \<times> block \<times> rfs) run" where
  "rfs_writefileblk s fmp buf len =
     (if \<not> one_block fmp then Inr (DFCERRSTUS, fmp, s)
      else if of_nat FSYS_ALCBLKSZ \<le> ld64 fmp fmd_curfinwbkoff + len then Inr (DFCERRSTUS, fmp, s)
      else andthen (copy_bytes buf 0 fmp (unat (ld64 fmp fmd_curfinwbkoff)) (unat len)) (\<lambda>fmp.
        let fmp = st64 fmp fmd_filesz (ld64 fmp fmd_filesz + len);
            fmp = st64 fmp fmd_curfinwbkoff (ld64 fmp fmd_curfinwbkoff + len)
        in andthen (write_rfsdevblk s fmp (ld64 fmp fmd_curfwritebk)) (\<lambda>(st, s).
           Inr (DFCOKSTUS, fmp, s))))"

definition rfs_readfileblk :: "block \<Rightarrow> block \<Rightarrow> u64 \<Rightarrow> (int \<times> block) run" where
  "rfs_readfileblk fmp buf len =
     (if \<not> one_block fmp then Inr (DFCERRSTUS, buf)
      else if of_nat FSYS_ALCBLKSZ - ld64 fmp fmd_fileifstbkoff < len then Inr (DFCERRSTUS, buf)
      else andthen (copy_bytes fmp (unat (ld64 fmp fmd_fileifstbkoff)) buf 0 (unat len)) (\<lambda>buf.
        Inr (DFCOKSTUS, buf)))"

definition rfs_closefileblk :: "rfs \<Rightarrow> block \<Rightarrow> (int \<times> rfs) run" where
  "rfs_closefileblk s fblkp =
     andthen (write_rfsdevblk s fblkp (ld64 fblkp fmd_sfblk)) (\<lambda>(st, s).
     andthen (del_buf s) (\<lambda>s. Inr (DFCOKSTUS, s)))"

section \<open>The entry points of the driver\<close>

text \<open>
  The fields of the I/O packet (\<open>objnode_t\<close>) the driver uses. \<open>on_finode\<close> is \<open>NULL\<close>, points at the buffer
  of an open file, or dangles once that buffer is freed; \<open>on_buf\<close> points at 4096 bytes.
\<close>

datatype fnode = NoNode | Node block | Freed

record objnode =
  on_acsflgs :: u64
  on_len :: u64
  on_ioctrd :: u64
  on_buf :: "block option"
  on_bufsz :: u64
  on_fname :: path
  on_finode :: fnode

definition rfs_open_file :: "rfs \<Rightarrow> objnode \<Rightarrow> (int \<times> objnode \<times> rfs) run" where
  "rfs_open_file s obp =
     (if on_fname obp = None then Inr (DFCERRSTUS, obp, s)
      else andthen (rfs_openfileblk s (on_fname obp)) (\<lambda>(fmdp, s). case fmdp of
          None \<Rightarrow> Inr (DFCERRSTUS, obp, s)
        | Some b \<Rightarrow> Inr (DFCOKSTUS, obp\<lparr>on_finode := Node b\<rparr>, s)))"

definition rfs_close_file :: "rfs \<Rightarrow> objnode \<Rightarrow> (int \<times> objnode \<times> rfs) run" where
  "rfs_close_file s obp = (case on_finode obp of
       NoNode \<Rightarrow> Inr (DFCERRSTUS, obp, s)
     | Node b \<Rightarrow> andthen (rfs_closefileblk s b) (\<lambda>(st, s). Inr (st, obp\<lparr>on_finode := Freed\<rparr>, s))
     | Freed \<Rightarrow> Inl Fault)"

definition rfs_read_file :: "rfs \<Rightarrow> objnode \<Rightarrow> (int \<times> objnode \<times> rfs) run" where
  "rfs_read_file s obp = (case (on_finode obp, on_buf obp) of
       (NoNode, _) \<Rightarrow> Inr (DFCERRSTUS, obp, s)
     | (_, None) \<Rightarrow> Inr (DFCERRSTUS, obp, s)
     | (f, Some buf) \<Rightarrow>
         if on_bufsz obp \<noteq> of_nat FSYS_ALCBLKSZ then Inr (DFCERRSTUS, obp, s)
         else case f of
             Node b \<Rightarrow> andthen (rfs_readfileblk b buf (on_len obp)) (\<lambda>(st, buf).
               Inr (st, obp\<lparr>on_buf := Some buf\<rparr>, s))
           | _ \<Rightarrow> Inl Fault)"

definition rfs_write_file :: "rfs \<Rightarrow> objnode \<Rightarrow> (int \<times> objnode \<times> rfs) run" where
  "rfs_write_file s obp = (case (on_finode obp, on_buf obp) of
       (NoNode, _) \<Rightarrow> Inr (DFCERRSTUS, obp, s)
     | (_, None) \<Rightarrow> Inr (DFCERRSTUS, obp, s)
     | (f, Some buf) \<Rightarrow>
         if on_bufsz obp \<noteq> of_nat FSYS_ALCBLKSZ then Inr (DFCERRSTUS, obp, s)
         else case f of
             Node b \<Rightarrow> andthen (rfs_writefileblk s b buf (on_len obp)) (\<lambda>(st, b, s).
               Inr (st, obp\<lparr>on_finode := Node b\<rparr>, s))
           | _ \<Rightarrow> Inl Fault)"

definition rfs_open :: "rfs \<Rightarrow> objnode \<Rightarrow> (int \<times> objnode \<times> rfs) run" where
  "rfs_open s obp =
     (if on_acsflgs obp = FSDEV_OPENFLG_OPEFILE then rfs_open_file s obp
      else if on_acsflgs obp = FSDEV_OPENFLG_NEWFILE
      then andthen (rfs_new_file s (on_fname obp)) (\<lambda>(st, s). Inr (st, obp, s))
      else Inr (DFCERRSTUS, obp, s))"

definition rfs_close :: "rfs \<Rightarrow> objnode \<Rightarrow> (int \<times> objnode \<times> rfs) run" where
  "rfs_close s obp = rfs_close_file s obp"

definition rfs_read :: "rfs \<Rightarrow> objnode \<Rightarrow> (int \<times> objnode \<times> rfs) run" where
  "rfs_read s obp = rfs_read_file s obp"

definition rfs_write :: "rfs \<Rightarrow> objnode \<Rightarrow> (int \<times> objnode \<times> rfs) run" where
  "rfs_write s obp = rfs_write_file s obp"

definition rfs_ioctrl :: "rfs \<Rightarrow> objnode \<Rightarrow> (int \<times> objnode \<times> rfs) run" where
  "rfs_ioctrl s obp =
     (if on_ioctrd obp = FSDEV_IOCTRCD_DELFILE
      then andthen (rfs_del_file s (on_fname obp) 0) (\<lambda>(st, s). Inr (st, obp, s))
      else Inr (DFCERRSTUS, obp, s))"

text \<open>The functions of the driver that only report the error status.\<close>

definition rfs_lseek :: int where "rfs_lseek = DFCERRSTUS"
definition rfs_dev_start :: int where "rfs_dev_start = DFCERRSTUS"
definition rfs_dev_stop :: int where "rfs_dev_stop = DFCERRSTUS"
definition rfs_set_powerstus :: int where "rfs_set_powerstus = DFCERRSTUS"
definition rfs_enum_dev :: int where "rfs_enum_dev = DFCERRSTUS"
definition rfs_flush :: int where "rfs_flush = DFCERRSTUS"
definition rfs_shutdown :: int where "rfs_shutdown = DFCERRSTUS"

end
