(* ===== verification/RfsInv.thy ===== *)
theory RfsInv
  imports Rfs
begin

text \<open>
  The RAM file system at rest: what a block access, the two loops over the bitmap, the path check and the
  search of the directory return; the directory as a list of slots; the effect of a new and of a deleted
  entry on it; and the invariant \<open>fs_inv\<close> with the abstract file map \<open>fs_files\<close>.
\<close>

section \<open>Reading and writing a block of the device\<close>

text \<open>The memory of the device is \<open>n\<close> whole blocks and does not wrap around.\<close>

definition dev_ok :: "nat \<Rightarrow> rfs \<Rightarrow> bool" where
  "dev_ok n s \<longleftrightarrow> unat (rde_msize s) = 4096 * n \<and> 3 \<le> n \<and> n \<le> 4096 \<and>
     unat (rde_mstart s) + 4096 * n < 2 ^ 64"

lemma dev_blk:
  assumes "dev_ok n s" "unat b < n"
  shows "\<exists>p. ret_rfsdevblk s b = Some p \<and> dev_has s p \<and> dev_idx s p = unat b"
proof -
  let ?o = "b * (4096 :: u64)"
  have o: "unat ?o = unat b * 4096"
    using assms by (simp add: dev_ok_def unat_word_ariths)
  have e: "unat (rde_mstart s + rde_msize s) = unat (rde_mstart s) + 4096 * n"
    using assms(1) by (simp add: dev_ok_def unat_word_ariths)
  have p: "unat (rde_mstart s + ?o) = unat (rde_mstart s) + unat b * 4096"
    using assms o by (simp add: dev_ok_def unat_word_ariths)
  have "\<not> rde_mstart s + rde_msize s \<le> rde_mstart s + ?o"
    unfolding word_le_nat_alt e p using assms(2) by simp
  with o assms show ?thesis
    by (auto simp: ret_rfsdevblk_def Let_def dev_has_def dev_idx_def dev_ok_def)
qed

lemma read_blk:
  "dev_ok n s \<Longrightarrow> unat b < n \<Longrightarrow> read_rfsdevblk s b = Inr (Some (rde_mem s (unat b)))"
  by (drule (1) dev_blk) (auto simp: read_rfsdevblk_def)

lemma write_blk:
  "dev_ok n s \<Longrightarrow> unat b < n \<Longrightarrow>
   write_rfsdevblk s x b = Inr (DFCOKSTUS, s\<lparr>rde_mem := (rde_mem s)(unat b := x)\<rparr>)"
  by (drule (1) dev_blk) (auto simp: write_rfsdevblk_def)

lemma dev_ok_cong [simp]:
  "dev_ok n (s\<lparr>rde_mem := m\<rparr>) = dev_ok n s"
  "dev_ok n (s\<lparr>krl_live := l\<rparr>) = dev_ok n s"
  "dev_ok n (s\<lparr>krl_grants := g\<rparr>) = dev_ok n s"
  by (simp_all add: dev_ok_def)

lemma rfs_collapse: "rde_mem s = m \<Longrightarrow> s\<lparr>rde_mem := m\<rparr> = (s :: rfs)"
  "krl_live s = l \<Longrightarrow> s\<lparr>krl_live := l\<rparr> = (s :: rfs)"
  by auto

lemma new_buf_grant [simp]:
  "krl_grants s = [] \<Longrightarrow> new_buf s = (True, s\<lparr>krl_live := Suc (krl_live s)\<rparr>)"
  by (simp add: new_buf_def)

lemma del_buf_live [simp]: "krl_live s = Suc l \<Longrightarrow> del_buf s = Inr (s\<lparr>krl_live := l\<rparr>)"
  by (simp add: del_buf_def)

section \<open>Superblock, bitmap and root directory block when memory is granted\<close>

text \<open>The superblock names the bitmap block and the root directory block \<open>R\<close>.\<close>

definition sb_ok :: "nat \<Rightarrow> nat \<Rightarrow> rfs \<Rightarrow> bool" where
  "sb_ok n R s \<longleftrightarrow> dev_ok n s \<and> krl_grants s = [] \<and>
     ld64 (rde_mem s 0) 64 = 1 \<and> ld64 (rde_mem s 0) 104 = of_nat R \<and> 2 \<le> R \<and> R < n"

text \<open>The state while the driver holds one more buffer.\<close>

abbreviation bump :: "rfs \<Rightarrow> rfs" where
  "bump s \<equiv> s\<lparr>krl_live := Suc (krl_live s)\<rparr>"

lemma dev_bounds: "dev_ok n s \<Longrightarrow> 3 \<le> n \<and> n \<le> 4096 \<and> 0 < n \<and> Suc 0 < n"
  by (simp add: dev_ok_def)

lemma get_superblk_ok:
  "dev_ok n s \<Longrightarrow> krl_grants s = [] \<Longrightarrow> get_superblk s = Inr (Some (rde_mem s 0), bump s)"
  by (frule dev_bounds) (simp add: get_superblk_def read_blk [of n])

lemma del_superblk_ok:
  "dev_ok n s \<Longrightarrow> krl_live s = Suc l \<Longrightarrow>
   del_superblk s b = Inr (s\<lparr>rde_mem := (rde_mem s)(0 := b), krl_live := l\<rparr>)"
  by (frule dev_bounds) (simp add: del_superblk_def write_blk [of n])

lemma get_bitmapblk_ok:
  assumes "dev_ok n s" "krl_grants s = []" "ld64 (rde_mem s 0) 64 = 1"
  shows "get_bitmapblk s = Inr (Some (rde_mem s 1), bump s)"
  using assms dev_bounds [OF assms(1)]
  by (simp add: get_bitmapblk_def get_superblk_ok [of n] read_blk [of n] del_superblk_ok [of n]
      rfs_collapse)

lemma del_bitmapblk_ok:
  assumes "dev_ok n s" "krl_grants s = []" "ld64 (rde_mem s 0) 64 = 1" "krl_live s = Suc l"
  shows "del_bitmapblk s bm = Inr (s\<lparr>rde_mem := (rde_mem s)(1 := bm), krl_live := l\<rparr>)"
  using assms dev_bounds [OF assms(1)]
  by (simp add: del_bitmapblk_def get_superblk_ok [of n] write_blk [of n] del_superblk_ok [of n]
      fun_upd_twist [of 1 0] rfs_collapse fun_upd_idem)

lemma rfs_new_blk_ok:
  assumes "dev_ok n s" "krl_grants s = []" "ld64 (rde_mem s 0) 64 = 1"
    and "new_blk_loop (rde_mem s 1) 2 = (bm, r)"
  shows "rfs_new_blk s = Inr (of_nat r, s\<lparr>rde_mem := (rde_mem s)(1 := bm)\<rparr>)"
  using assms by (simp add: rfs_new_blk_def get_bitmapblk_ok [of n] del_bitmapblk_ok [of n])

lemma rfs_del_blk_ok:
  assumes "dev_ok n s" "krl_grants s = []" "ld64 (rde_mem s 0) 64 = 1" "unat b < 4096"
  shows "rfs_del_blk s b = Inr (s\<lparr>rde_mem := (rde_mem s)(1 := (rde_mem s 1)(unat b := 0))\<rparr>)"
proof -
  have "\<not> (4096 :: u64) < b"
    using assms(4) by (simp add: word_less_nat_alt)
  with assms show ?thesis
    by (simp add: rfs_del_blk_def get_bitmapblk_ok [of n] del_bitmapblk_ok [of n])
qed

lemma ld64_shift: "ld64 (\<lambda>i. b (d + i)) off = ld64 b (d + off)"
  by (simp add: ld64_def add.assoc)

lemma get_rootdirfile_blk_ok:
  assumes "sb_ok n R s"
  shows "get_rootdirfile_blk s = Inr (Some (rde_mem s R), bump s)"
proof -
  have "unat (of_nat R :: u64) = R"
    using assms by (simp add: sb_ok_def dev_ok_def)
  with assms show ?thesis
    by (simp add: get_rootdirfile_blk_def get_rootdir_def sb_ok_def get_superblk_ok [of n]
        del_superblk_ok [of n] rfs_collapse ld64_shift read_blk [of n] del_rootdir_def)
qed

lemma del_rootdirfile_blk_ok:
  assumes "dev_ok n s" "krl_live s = Suc l" "ld64 b 24 = of_nat R" "R < n"
  shows "del_rootdirfile_blk s b = Inr (s\<lparr>rde_mem := (rde_mem s)(R := b), krl_live := l\<rparr>)"
proof -
  have "unat (of_nat R :: u64) = R"
    using assms by (simp add: dev_ok_def)
  with assms show ?thesis
    by (simp add: del_rootdirfile_blk_def write_blk [of n])
qed

section \<open>The loops\<close>

lemma new_blk_loop_found:
  "i \<le> r \<Longrightarrow> r < 4096 \<Longrightarrow> bm r = 0 \<Longrightarrow> (\<And>j. i \<le> j \<Longrightarrow> j < r \<Longrightarrow> bm j \<noteq> 0) \<Longrightarrow>
   new_blk_loop bm i = (bm(r := 1), r)"
proof (induction "r - i" arbitrary: i)
  case 0
  then show ?case by (simp add: new_blk_loop.simps [of bm] fun_upd_def)
next
  case (Suc d)
  then have "new_blk_loop bm (Suc i) = (bm(r := 1), r)" by simp
  with Suc show ?case
    by (simp add: new_blk_loop.simps [of bm i])
qed

lemma new_blk_loop_none:
  "(\<And>j. i \<le> j \<Longrightarrow> j < 4096 \<Longrightarrow> bm j \<noteq> 0) \<Longrightarrow> new_blk_loop bm i = (bm, 0)"
proof (induction "4096 - i" arbitrary: i)
  case 0
  then show ?case by (simp add: new_blk_loop.simps [of bm])
next
  case (Suc d)
  then show ?case
    by (simp add: new_blk_loop.simps [of bm i])
qed

lemma clear_bits_eq:
  "clear_bits bm i m = (\<lambda>k. if unat i \<le> k \<and> k < unat m then 0 else bm k)"
proof (induction bm i m rule: clear_bits.induct)
  case (1 bm i m)
  show ?case
  proof (cases "i < m")
    case True
    then have "unat (i + 1) = Suc (unat i)"
      using unsigned_less [of m, where 'a = nat]
      by (simp add: unat_word_ariths word_less_nat_alt)
    moreover have "clear_bits (bm(unat i := 0)) (i + 1) m =
        (\<lambda>k. if unat (i + 1) \<le> k \<and> k < unat m then 0 else (bm(unat i := 0)) k)"
      using 1 [OF True] by (simp add: fun_upd_def)
    ultimately show ?thesis
      using True by (subst clear_bits.simps) (auto simp: word_less_nat_alt fun_eq_iff)
  qed (auto simp: clear_bits.simps [of bm i m] word_less_nat_alt fun_eq_iff)
qed

section \<open>Headers and directory entries\<close>

lemma ld64_upd_other: "k < off \<or> off + 8 \<le> k \<Longrightarrow> ld64 (b(k := v)) off = ld64 b off"
  by (rule ld64_cong) auto

lemma ld64_init_fleblk: "off + 8 \<le> 104 \<Longrightarrow> ld64 (init_fleblk m b) off = ld64 b off"
  by (induction m) (simp_all add: filblks_t_init_def)

text \<open>The block with header \<open>fimgrhd_t\<close> is block \<open>b\<close> and of type \<open>ty\<close>.\<close>

definition hdr :: "block \<Rightarrow> u64 \<Rightarrow> nat \<Rightarrow> bool" where
  "hdr blk ty b \<longleftrightarrow> ld64 blk 8 = ty \<and> ld64 blk 24 = of_nat b \<and> ld64 blk 72 = 0x200 \<and>
     ld64 blk 88 = of_nat b \<and> ld64 blk 104 = of_nat b"

text \<open>The bytes of a block from \<open>lo\<close> to \<open>hi\<close> agree.\<close>

definition same_from :: "nat \<Rightarrow> nat \<Rightarrow> block \<Rightarrow> block \<Rightarrow> bool" where
  "same_from lo hi b b' \<longleftrightarrow> (\<forall>i. lo \<le> i \<and> i < hi \<longrightarrow> b' i = b i)"

lemma same_ld64: "same_from lo hi b b' \<Longrightarrow> lo \<le> off \<Longrightarrow> off + 8 \<le> hi \<Longrightarrow> ld64 b' off = ld64 b off"
  by (rule ld64_cong) (auto simp: same_from_def)

lemma same_cstr:
  "same_from lo hi b b' \<Longrightarrow> lo \<le> i \<Longrightarrow> i + length xs < hi \<Longrightarrow> cstr b' n i xs = cstr b n i xs"
  by (rule cstr_cong) (auto simp: same_from_def)

definition blank_file :: "nat \<Rightarrow> u64 \<Rightarrow> block" where
  "blank_file b ty =
     (let f = fimgrhd_t_init (hal_memset 0);
          f = st64 f fmd_type ty;
          f = st64 f fmd_sfblk (of_nat b);
          f = st64 f fmd_curfwritebk (of_nat b);
          f = st64 f fmd_curfinwbkoff 0x200;
          f = st64 f (fmd_fleblk + fb_blkstart) (of_nat b);
          f = st64 f (fmd_fleblk + fb_blknr) 1
      in f)"

lemma hdr_blank_file: "hdr (blank_file b ty) ty b"
  by (simp add: hdr_def blank_file_def Let_def fimgrhd_t_init_def ld64_init_fleblk)

lemma blank_file_fields:
  "ld64 (blank_file b ty) 64 = 0" "ld64 (blank_file b ty) 96 = 0x200"
  by (simp_all add: blank_file_def Let_def fimgrhd_t_init_def ld64_init_fleblk)

lemma st64_0: "b i = 0 \<Longrightarrow> st64 b off 0 i = 0"
  by (simp add: st64_def)

lemma init_fleblk_0: "b i = 0 \<Longrightarrow> init_fleblk m b i = 0"
  by (induction m) (simp_all add: filblks_t_init_def st64_0)

lemma blank_file_zero: "120 \<le> i \<Longrightarrow> blank_file b ty i = 0"
  by (simp add: blank_file_def Let_def fimgrhd_t_init_def st64_other st64_0 init_fleblk_0 hal_memset_def)

section \<open>Names\<close>

definition nm_ok :: "u8 list \<Rightarrow> bool" where
  "nm_ok nm \<longleftrightarrow> 1 \<le> length nm \<and> length nm \<le> 102 \<and> 0 \<notin> set nm \<and> 47 \<notin> set nm"

text \<open>\<open>p\<close> points at the path \<open>/nm\<close>.\<close>

definition path_to :: "u8 list \<Rightarrow> path \<Rightarrow> bool" where
  "path_to nm p \<longleftrightarrow> (\<exists>m n. p = Some (m, n) \<and> cstr m n 0 (47 # nm))"

lemma chkfilepath_loop_eq:
  "cstr m n i xs \<Longrightarrow> 1 \<le> i \<Longrightarrow> i \<le> 104 \<Longrightarrow> 1 < i \<or> xs \<noteq> [] \<Longrightarrow>
   chkfilepath_loop m n i = Inr (if 47 \<in> set (take (105 - i) xs) then 3
     else if 104 \<le> i + length xs then 4 else 0)"
proof (induction xs arbitrary: i)
  case Nil
  then show ?case
    by (subst chkfilepath_loop.simps) (auto simp: cstr_Nil)
next
  case (Cons x xs)
  then have x: "i < n" "m i = x" "x \<noteq> 0" and xs: "cstr m n (Suc i) xs"
    by (auto simp: cstr_Cons)
  show ?case
  proof (cases "104 \<le> i")
    case True
    with x Cons.prems(3) show ?thesis
      by (subst chkfilepath_loop.simps) (auto simp: take_Cons')
  next
    case False
    then have "105 - i = Suc (105 - Suc i)" by simp
    with x Cons.IH [OF xs] Cons.prems(2) False show ?thesis
      by (subst chkfilepath_loop.simps) auto
  qed
qed

lemma rfs_chkfilepath_eq:
  assumes "cstr m n 0 (c # nm)" "nm \<noteq> []"
  shows "rfs_chkfilepath m n = Inr (if c \<noteq> 47 then 2
    else if 47 \<in> set (take 104 nm) then 3 else if 103 \<le> length nm then 4 else 0)"
  using assms chkfilepath_loop_eq [of m n 1 nm] by (auto simp: rfs_chkfilepath_def cstr_Cons)

lemma rfs_ret_fname_ok:
  assumes "path_to nm p" "nm_ok nm"
  shows "\<exists>fne. rfs_ret_fname buf p = Inr (0, fne) \<and> cstr fne 104 0 nm"
proof -
  from assms obtain m n where p: "p = Some (m, n)" "cstr m n 0 (47 # nm)"
    by (auto simp: path_to_def)
  have nm: "nm \<noteq> []" "47 \<notin> set (take 104 nm)" "length nm < 103" "0 \<notin> set nm"
    using assms(2) by (auto simp: nm_ok_def dest: in_set_takeD)
  have "rfs_chkfilepath m n = Inr 0"
    using rfs_chkfilepath_eq [OF p(2) nm(1)] nm by simp
  moreover have "cstr m n 1 nm"
    using p(2) by (simp add: cstr_Cons)
  then have "rfs_strcpy m n 1 buf 104 0 = Inr (put_str buf 0 nm)"
    using nm by (intro rfs_strcpy_cstr) auto
  ultimately show ?thesis
    using nm p(1) by (simp add: rfs_ret_fname_def cstr_put_str)
qed

section \<open>The directory\<close>

text \<open>
  The directory as a list of slots: \<open>Some (nm, b)\<close> is a file \<open>nm\<close> whose block is \<open>b\<close>, \<open>None\<close> a deleted
  entry. Entry \<open>k\<close> is at offset \<open>512 + 128 * k\<close>.
\<close>

type_synonym slots = "(u8 list \<times> nat) option list"

definition slot_ok :: "block \<Rightarrow> nat \<Rightarrow> (u8 list \<times> nat) option \<Rightarrow> bool" where
  "slot_ok rb d e = (case e of
       None \<Rightarrow> ld64 rb (d + 8) = 5
     | Some (nm, b) \<Rightarrow> ld64 rb (d + 8) = 2 \<and> ld64 rb (d + 16) = of_nat b \<and> length nm \<le> 102 \<and>
         cstr rb 4096 (d + 24) nm)"

definition dir_ok :: "block \<Rightarrow> nat \<Rightarrow> slots \<Rightarrow> bool" where
  "dir_ok rb R ents \<longleftrightarrow> hdr rb 1 R \<and> length ents \<le> 28 \<and>
     ld64 rb 96 = of_nat (512 + 128 * length ents) \<and>
     (\<forall>k < length ents. slot_ok rb (512 + 128 * k) (ents ! k)) \<and>
     (\<forall>k < 28. length ents \<le> k \<longrightarrow> ld64 rb (512 + 128 * k + 8) = 0)"

definition entries :: "slots \<Rightarrow> (u8 list \<times> nat) list" where
  "entries ents = List.map_filter (\<lambda>x. x) ents"

lemma entries_simps [simp]:
  "entries [] = []" "entries (xs @ ys) = entries xs @ entries ys"
  "entries (None # xs) = entries xs" "entries (Some p # xs) = p # entries xs"
  by (simp_all add: entries_def map_filter_def)

lemma set_entries: "set (entries ents) = {p. Some p \<in> set ents}"
proof (induction ents)
  case (Cons e ents)
  then show ?case by (cases e) auto
qed simp

lemma entries_del:
  assumes "k < length ents" "ents ! k = Some p"
  shows "\<exists>xs ys. entries ents = xs @ p # ys \<and> entries (ents[k := None]) = xs @ ys"
proof (intro exI conjI)
  have "ents = take k ents @ Some p # drop (Suc k) ents"
    using assms id_take_nth_drop by metis
  then show "entries ents = entries (take k ents) @ p # entries (drop (Suc k) ents)"
    by (metis entries_simps(2,4))
  show "entries (ents[k := None]) = entries (take k ents) @ entries (drop (Suc k) ents)"
    using assms(1) by (simp add: upd_conv_take_nth_drop)
qed

lemma slot_ok_same:
  "same_from d (d + 128) rb rb' \<Longrightarrow> slot_ok rb' d e = slot_ok rb d e"
  by (auto simp: slot_ok_def same_ld64 [of d "d + 128" rb rb'] same_cstr [of d "d + 128" rb rb' "d + 24"]
      split: option.splits)

lemma dir_search_eq:
  assumes "dir_ok rb R ents" "cstr fne 104 0 nm" "k \<le> 28"
    and "\<forall>j < length ents. k \<le> j \<longrightarrow> (\<forall>b. ents ! j \<noteq> Some (nm, b))"
  shows "dir_search rb (512 + 128 * k) fne = Inr None"
  using assms(3,4)
proof (induction "28 - k" arbitrary: k)
  case 0
  then show ?case by (simp add: dir_search.simps [of rb])
next
  case (Suc x)
  then have k: "k < 28" by simp
  have rec: "dir_search rb (640 + 128 * k) fne = Inr None"
    using Suc.hyps(1) [of "Suc k"] Suc.hyps(2) Suc.prems k by (simp add: Suc_le_eq algebra_simps)
  show ?case
  proof (cases "k < length ents")
    case True
    then have so: "slot_ok rb (512 + 128 * k) (ents ! k)"
      using assms(1) by (simp add: dir_ok_def)
    show ?thesis
    proof (cases "ents ! k")
      case None
      with so k rec show ?thesis
        by (simp add: dir_search.simps [of rb "512 + 128 * k"] slot_ok_def)
    next
      case (Some p)
      obtain nm' b where p: "p = (nm', b)" by force
      with Suc.prems True Some have "nm' \<noteq> nm" by auto
      moreover have "cstr rb 4096 (512 + 128 * k + 24) nm'"
        using so Some p by (simp add: slot_ok_def)
      ultimately have "rfs_strcmp rb 4096 (512 + 128 * k + 24) fne 104 0 = Inr 0"
        using rfs_strcmp_cstr [OF _ assms(2)] by simp
      with so Some p k rec show ?thesis
        by (simp add: dir_search.simps [of rb "512 + 128 * k"] slot_ok_def)
    qed
  next
    case False
    then have "ld64 rb (512 + 128 * k + 8) = 0"
      using assms(1) k unfolding dir_ok_def by (metis not_less)
    with k rec show ?thesis
      by (simp add: dir_search.simps [of rb "512 + 128 * k"])
  qed
qed

lemma dir_search_found:
  assumes "dir_ok rb R ents" "cstr fne 104 0 nm" "t < length ents" "ents ! t = Some (nm, b)"
    and "\<forall>j < t. \<forall>b. ents ! j \<noteq> Some (nm, b)" "k \<le> t"
  shows "dir_search rb (512 + 128 * k) fne = Inr (Some (512 + 128 * t))"
  using assms(6)
proof (induction "t - k" arbitrary: k)
  case 0
  then have "k = t" by simp
  have so: "slot_ok rb (512 + 128 * t) (ents ! t)" and t: "t < 28"
    using assms(1,3) by (simp_all add: dir_ok_def)
  then have "rfs_strcmp rb 4096 (512 + 128 * t + 24) fne 104 0 = Inr 1"
    using rfs_strcmp_cstr [OF _ assms(2), of rb 4096 "512 + 128 * t + 24" nm] assms(4)
    by (simp add: slot_ok_def)
  with so t assms(4) \<open>k = t\<close> show ?case
    by (simp add: dir_search.simps [of rb "512 + 128 * t"] slot_ok_def)
next
  case (Suc x)
  then have k: "k < t" by simp
  have rec: "dir_search rb (640 + 128 * k) fne = Inr (Some (512 + 128 * t))"
    using Suc.hyps(1) [of "Suc k"] Suc.hyps(2) Suc.prems k by (simp add: Suc_le_eq algebra_simps)
  from k have so: "slot_ok rb (512 + 128 * k) (ents ! k)" and k28: "k < 28"
    using assms(1,3) by (simp_all add: dir_ok_def)
  show ?case
  proof (cases "ents ! k")
    case None
    with so k28 rec show ?thesis
      by (simp add: dir_search.simps [of rb "512 + 128 * k"] slot_ok_def)
  next
    case (Some p)
    obtain nm' b' where p: "p = (nm', b')" by force
    with assms(5) k Some have "nm' \<noteq> nm" by auto
    moreover have "cstr rb 4096 (512 + 128 * k + 24) nm'"
      using so Some p by (simp add: slot_ok_def)
    ultimately have "rfs_strcmp rb 4096 (512 + 128 * k + 24) fne 104 0 = Inr 0"
      using rfs_strcmp_cstr [OF _ assms(2)] by simp
    with so Some p k28 rec show ?thesis
      by (simp add: dir_search.simps [of rb "512 + 128 * k"] slot_ok_def)
  qed
qed

lemma dir_ok_word:
  assumes "dir_ok rb R ents"
  shows "unat (ld64 rb 96) = 512 + 128 * length ents" "unat (ld64 rb 72) = 512"
    "ld64 rb 8 = 1" "ld64 rb 24 = of_nat R"
proof -
  have "512 + 128 * length ents < 2 ^ 64"
    using assms by (simp add: dir_ok_def)
  then show "unat (ld64 rb 96) = 512 + 128 * length ents"
    using assms unfolding dir_ok_def by (metis u64_of_nat)
qed (use assms in \<open>simp_all add: dir_ok_def hdr_def\<close>)

lemma dir_empty_iff:
  assumes "dir_ok rb R ents"
  shows "dir_empty rb \<longleftrightarrow> ents = []"
proof -
  have "ld64 rb 96 = ld64 rb 72 \<longleftrightarrow> unat (ld64 rb 96) = unat (ld64 rb 72)"
    by (simp only: word_unat_eq_iff)
  also have "\<dots> \<longleftrightarrow> ents = []"
    using dir_ok_word [OF assms] by simp
  finally show ?thesis
    using assms by (simp add: dir_empty_def dir_ok_def hdr_def)
qed

lemma dir_find_none:
  assumes "dir_ok rb R ents" "cstr fne 104 0 nm" "nm \<notin> fst ` set (entries ents)"
  shows "dir_find rb fne = Inr None"
proof -
  have "\<forall>j < length ents. 0 \<le> j \<longrightarrow> (\<forall>b. ents ! j \<noteq> Some (nm, b))"
    using assms(3) by (auto simp: set_entries image_iff) (metis fst_conv nth_mem)
  from dir_search_eq [OF assms(1,2) _ this] dir_ok_word [OF assms(1)] show ?thesis
    by (simp add: dir_find_def)
qed

lemma dir_find_some:
  assumes "dir_ok rb R ents" "cstr fne 104 0 nm" "nm \<in> fst ` set (entries ents)"
  obtains t b where "dir_find rb fne = Inr (Some (512 + 128 * t))" "t < length ents"
    "ents ! t = Some (nm, b)"
proof -
  define P where "P t \<longleftrightarrow> t < length ents \<and> (\<exists>b. ents ! t = Some (nm, b))" for t
  from assms(3) obtain b0 where "Some (nm, b0) \<in> set ents"
    by (auto simp: set_entries)
  then obtain t0 where "t0 < length ents" "ents ! t0 = Some (nm, b0)"
    by (auto simp: in_set_conv_nth)
  then have "P t0"
    by (auto simp: P_def)
  define t where "t = (LEAST t. P t)"
  have Pt: "P t"
    unfolding t_def using \<open>P t0\<close> by (rule LeastI)
  have P: "\<And>j. j < t \<Longrightarrow> \<not> P j"
    unfolding t_def by (rule not_less_Least)
  have t: "t < length ents"
    using Pt by (simp add: P_def)
  obtain b where b: "ents ! t = Some (nm, b)"
    using Pt by (auto simp: P_def)
  have first: "\<forall>j < t. \<forall>b. ents ! j \<noteq> Some (nm, b)"
    using P t unfolding P_def by (meson order_less_trans)
  have "dir_find rb fne = Inr (Some (512 + 128 * t))"
    using dir_search_found [OF assms(1,2) t b first, of 0] dir_ok_word [OF assms(1)]
    by (simp add: dir_find_def)
  from this t b show thesis by (rule that)
qed

section \<open>New and deleted entries\<close>

definition new_entry :: "block \<Rightarrow> nat \<Rightarrow> u8 list \<Rightarrow> nat \<Rightarrow> block" where
  "new_entry rb w nm r =
     (let rb = st64 (st64 (st64 rb w 0) (w + 8) 2) (w + 16) (of_nat r);
          rb = put_str rb (w + 24) nm
      in st64 (st64 rb 64 (ld64 rb 64 + 128)) 96 (ld64 rb 96 + 128))"

lemma ld64_put_str: "off + 8 \<le> j \<or> j + length xs < off \<Longrightarrow> ld64 (put_str b j xs) off = ld64 b off"
  by (rule ld64_cong) (rule put_str_other, auto)

lemma new_entry_other:
  "i < w \<or> w + 128 \<le> i \<Longrightarrow> 104 \<le> i \<Longrightarrow> length nm \<le> 102 \<Longrightarrow> new_entry rb w nm r i = rb i"
  by (auto simp: new_entry_def Let_def st64_other put_str_other)

lemma ld64_new_entry:
  assumes "512 \<le> w" "length nm \<le> 102"
  shows "ld64 (new_entry rb w nm r) 96 = ld64 rb 96 + 128"
    "off + 8 \<le> 64 \<or> 72 \<le> off \<and> off + 8 \<le> 96 \<or> 104 \<le> off \<and> off + 8 \<le> w \<Longrightarrow>
       ld64 (new_entry rb w nm r) off = ld64 rb off"
    "ld64 (new_entry rb w nm r) (w + 8) = 2" "ld64 (new_entry rb w nm r) (w + 16) = of_nat r"
  using assms by (auto simp: new_entry_def Let_def ld64_put_str)

lemma cstr_new_entry:
  assumes "512 \<le> w" "w + 128 \<le> 4096" "length nm \<le> 102" "0 \<notin> set nm"
  shows "cstr (new_entry rb w nm r) 4096 (w + 24) nm"
proof -
  have "cstr (new_entry rb w nm r) 4096 (w + 24) nm =
      cstr (put_str (st64 (st64 (st64 rb w 0) (w + 8) 2) (w + 16) (of_nat r)) (w + 24) nm) 4096 (w + 24) nm"
    by (rule cstr_cong) (use assms in \<open>simp add: new_entry_def Let_def st64_other\<close>)
  then show ?thesis
    using assms by (simp add: cstr_put_str)
qed

lemma dir_ok_new_entry:
  assumes "dir_ok rb R ents" "length ents < 28" "nm_ok nm"
  shows "dir_ok (new_entry rb (512 + 128 * length ents) nm r) R (ents @ [Some (nm, r)])"
proof -
  let ?w = "512 + 128 * length ents" let ?rb = "new_entry rb ?w nm r"
  have nm: "length nm \<le> 102" "0 \<notin> set nm"
    using assms(3) by (simp_all add: nm_ok_def)
  have same: "same_from (512 + 128 * k) (512 + 128 * k + 128) rb ?rb" if "k \<noteq> length ents" for k
    unfolding same_from_def
  proof (intro allI impI)
    fix i assume i: "512 + 128 * k \<le> i \<and> i < 512 + 128 * k + 128"
    then have "i < ?w \<or> ?w + 128 \<le> i"
      using that by auto
    with i nm show "?rb i = rb i"
      by (intro new_entry_other) auto
  qed
  have "hdr ?rb 1 R"
    using assms(1) nm by (simp add: dir_ok_def hdr_def ld64_new_entry)
  moreover have "slot_ok ?rb (512 + 128 * k) ((ents @ [Some (nm, r)]) ! k)" if "k < Suc (length ents)" for k
  proof (cases "k = length ents")
    case True
    have "slot_ok ?rb ?w (Some (nm, r))"
      unfolding slot_ok_def option.case prod.case
      using assms(2) nm ld64_new_entry(3,4) [of ?w nm] cstr_new_entry [of ?w nm rb r] by auto
    with True show ?thesis by simp
  next
    case False
    then have "slot_ok ?rb (512 + 128 * k) (ents ! k) = slot_ok rb (512 + 128 * k) (ents ! k)"
      by (intro slot_ok_same same)
    with False that assms(1) show ?thesis
      by (simp add: nth_append dir_ok_def)
  qed
  moreover have "ld64 ?rb (512 + 128 * k + 8) = 0" if "k < 28" "Suc (length ents) \<le> k" for k
  proof -
    have "ld64 rb (512 + 128 * k + 8) = 0"
      using assms(1) that by (simp add: dir_ok_def)
    then show ?thesis
      using same_ld64 [OF same, of k "512 + 128 * k + 8"] that by simp
  qed
  moreover have "ld64 ?rb 96 = of_nat (512 + 128 * Suc (length ents))"
    using assms(1) nm by (simp add: ld64_new_entry dir_ok_def)
  ultimately show ?thesis
    using assms(2) by (simp add: dir_ok_def)
qed

definition dead_entry :: "block \<Rightarrow> nat \<Rightarrow> block" where
  "dead_entry rb d = st64 (rfsdir_t_init d rb) (d + 8) 5"

lemma clear_name_other: "i < d + 24 \<or> d + 24 + m \<le> i \<Longrightarrow> clear_name d m b i = b i"
  by (induction m) auto

lemma dead_entry_other: "i < d \<or> d + 128 \<le> i \<Longrightarrow> dead_entry rb d i = rb i"
  by (auto simp: dead_entry_def rfsdir_t_init_def Let_def st64_other clear_name_other)

lemma dir_ok_dead_entry:
  assumes "dir_ok rb R ents" "t < length ents"
  shows "dir_ok (dead_entry rb (512 + 128 * t)) R (ents[t := None])"
proof -
  let ?w = "512 + 128 * t" let ?rb = "dead_entry rb ?w"
  have same: "same_from (512 + 128 * k) (512 + 128 * k + 128) rb ?rb" if "k \<noteq> t" for k
    unfolding same_from_def
  proof (intro allI impI)
    fix i assume "512 + 128 * k \<le> i \<and> i < 512 + 128 * k + 128"
    then have "i < ?w \<or> ?w + 128 \<le> i"
      using that by auto
    then show "?rb i = rb i"
      by (rule dead_entry_other)
  qed
  have low: "ld64 ?rb off = ld64 rb off" if "off + 8 \<le> 512" for off
    by (rule ld64_cong) (use that in \<open>simp add: dead_entry_other\<close>)
  have "slot_ok ?rb (512 + 128 * k) (ents[t := None] ! k)" if "k < length ents" for k
  proof (cases "k = t")
    case True
    with assms(2) show ?thesis
      by (simp add: slot_ok_def dead_entry_def)
  next
    case False
    then have "slot_ok ?rb (512 + 128 * k) (ents ! k) = slot_ok rb (512 + 128 * k) (ents ! k)"
      by (intro slot_ok_same same)
    with False that assms(1) show ?thesis
      by (simp add: dir_ok_def)
  qed
  moreover have "ld64 ?rb (512 + 128 * k + 8) = 0" if "k < 28" "length ents \<le> k" for k
  proof -
    have "ld64 rb (512 + 128 * k + 8) = 0"
      using assms(1) that by (simp add: dir_ok_def)
    then show ?thesis
      using same_ld64 [OF same, of k "512 + 128 * k + 8"] that assms(2) by simp
  qed
  ultimately show ?thesis
    using assms(1) by (simp add: dir_ok_def hdr_def low)
qed

section \<open>The invariant of the file system\<close>

definition fil_ok :: "block \<Rightarrow> nat \<Rightarrow> bool" where
  "fil_ok blk b \<longleftrightarrow> hdr blk 2 b \<and> ld64 blk 96 = 512 + ld64 blk 64 \<and> unat (ld64 blk 64) < 3584"

definition file_ok :: "nat \<Rightarrow> nat \<Rightarrow> rfs \<Rightarrow> u8 list \<times> nat \<Rightarrow> bool" where
  "file_ok n R s e \<longleftrightarrow> nm_ok (fst e) \<and> 2 \<le> snd e \<and> snd e < n \<and> snd e \<noteq> R \<and>
     rde_mem s 1 (snd e) \<noteq> 0 \<and> fil_ok (rde_mem s (snd e)) (snd e)"

text \<open>
  A device of \<open>n\<close> blocks with the root directory in block \<open>R\<close>: the directory block holds the slots
  \<open>ents\<close>, no two files share a name or a block, the blocks in use are marked in the bitmap, and so are
  the numbers past the device.
\<close>

definition fs_inv :: "nat \<Rightarrow> nat \<Rightarrow> rfs \<Rightarrow> slots \<Rightarrow> bool" where
  "fs_inv n R s ents \<longleftrightarrow> sb_ok n R s \<and> dir_ok (rde_mem s R) R ents \<and>
     distinct (map fst (entries ents)) \<and> distinct (map snd (entries ents)) \<and>
     list_all (file_ok n R s) (entries ents) \<and>
     rde_mem s 1 R \<noteq> 0 \<and> (\<forall>b. n \<le> b \<and> b < 4096 \<longrightarrow> rde_mem s 1 b \<noteq> 0)"

text \<open>The abstract file system: what each name holds.\<close>

definition file_data :: "block \<Rightarrow> u8 list" where
  "file_data blk = map (\<lambda>i. blk (512 + i)) [0..<unat (ld64 blk 64)]"

definition fs_files :: "rfs \<Rightarrow> slots \<Rightarrow> u8 list \<Rightarrow> u8 list option" where
  "fs_files s ents = map_of (map (\<lambda>(nm, b). (nm, file_data (rde_mem s b))) (entries ents))"

text \<open>The blocks the bitmap has as used, past the superblock and the bitmap.\<close>

definition used :: "nat \<Rightarrow> rfs \<Rightarrow> nat set" where
  "used n s = {b. 2 \<le> b \<and> b < n \<and> rde_mem s 1 b \<noteq> 0}"

lemma used_cong [simp]:
  "used n (s\<lparr>krl_live := l\<rparr>) = used n s"
  by (simp add: used_def)

end
