(* ===== verification/RfsOps.thy ===== *)
theory RfsOps
  imports RfsInv
begin

text \<open>
  What each operation of the RAM file system does to a state with the invariant, when memory is granted:
  its exact result, the invariant of the new state, the new abstract file map and the blocks in use.
\<close>

declare One_nat_def [simp del]

lemma sb_ok_cong [simp]:
  "sb_ok n R (s\<lparr>krl_live := l\<rparr>) = sb_ok n R s"
  "m 0 = rde_mem s 0 \<Longrightarrow> sb_ok n R (s\<lparr>rde_mem := m\<rparr>) = sb_ok n R s"
  by (simp_all add: sb_ok_def)

lemma fs_inv_live [simp]: "fs_inv n R (s\<lparr>krl_live := l\<rparr>) ents = fs_inv n R s ents"
  by (simp add: fs_inv_def file_ok_def [abs_def])

lemma fs_files_live [simp]: "fs_files (s\<lparr>krl_live := l\<rparr>) ents = fs_files s ents"
  by (simp add: fs_files_def)

lemma sb_okD:
  "sb_ok n R s \<Longrightarrow> dev_ok n s" "sb_ok n R s \<Longrightarrow> krl_grants s = []"
  "sb_ok n R s \<Longrightarrow> ld64 (rde_mem s 0) 64 = 1" "sb_ok n R s \<Longrightarrow> 2 \<le> R" "sb_ok n R s \<Longrightarrow> R < n"
  "sb_ok n R s \<Longrightarrow> n \<le> 4096"
  by (simp_all add: sb_ok_def dev_ok_def)

lemma fs_invD:
  assumes "fs_inv n R s ents"
  shows "sb_ok n R s" "dir_ok (rde_mem s R) R ents" "distinct (map fst (entries ents))"
    "distinct (map snd (entries ents))" "rde_mem s 1 R \<noteq> 0"
    "n \<le> b \<Longrightarrow> b < 4096 \<Longrightarrow> rde_mem s 1 b \<noteq> 0"
    "e \<in> set (entries ents) \<Longrightarrow> file_ok n R s e"
  using assms by (auto simp: fs_inv_def list_all_iff)

lemma fs_invI:
  assumes "sb_ok n R s" "dir_ok (rde_mem s R) R ents" "distinct (map fst (entries ents))"
    "distinct (map snd (entries ents))" "rde_mem s 1 R \<noteq> 0"
    "\<And>b. n \<le> b \<Longrightarrow> b < 4096 \<Longrightarrow> rde_mem s 1 b \<noteq> 0"
    "\<And>e. e \<in> set (entries ents) \<Longrightarrow> file_ok n R s e"
  shows "fs_inv n R s ents"
  using assms by (simp add: fs_inv_def list_all_iff)

lemma dom_fs_files: "fs_files s ents nm = None \<longleftrightarrow> nm \<notin> fst ` set (entries ents)"
  by (auto simp: fs_files_def map_of_eq_None_iff image_iff)

lemma fs_files_eq:
  assumes "distinct (map fst (entries ents))" "(nm, b) \<in> set (entries ents)"
  shows "fs_files s ents nm = Some (file_data (rde_mem s b))"
proof -
  have m: "map fst (map (\<lambda>(nm, b). (nm, file_data (rde_mem s b))) (entries ents)) = map fst (entries ents)"
    by (simp add: case_prod_beta' o_def)
  have "(nm, file_data (rde_mem s b)) \<in> set (map (\<lambda>(nm, b). (nm, file_data (rde_mem s b))) (entries ents))"
    using assms(2) by force
  then show ?thesis
    unfolding fs_files_def by (rule map_of_is_SomeI [rotated]) (simp only: m assms(1))
qed

section \<open>Looking a name up\<close>

lemma rfs_chkfileisindev_ok:
  assumes inv: "fs_inv n R s ents" and nm: "cstr fne 104 0 nm" "nm_ok nm"
  shows "rfs_chkfileisindev s fne = Inr (if fs_files s ents nm = None then 0 else 1, s)"
proof -
  have gr: "get_rootdirfile_blk s = Inr (Some (rde_mem s R), bump s)"
    by (rule get_rootdirfile_blk_ok [OF fs_invD(1) [OF inv]])
  note d = fs_invD(2) [OF inv] and sb = fs_invD(1) [OF inv]
  have rel: "del_rootdirfile_blk (bump s) (rde_mem s R) = Inr s"
    using sb_okD [OF sb] dir_ok_word(4) [OF d]
    by (simp add: del_rootdirfile_blk_ok [of n] rfs_collapse)
  have len: "rfs_strlen fne 104 0 = Inr (int (length nm))" "nm \<noteq> []" "length nm \<le> 102"
    using rfs_strlen_cstr [OF nm(1)] nm(2) by (auto simp: nm_ok_def)
  have t: "ld64 (rde_mem s R) 8 = 1"
    by (rule dir_ok_word [OF d])
  show ?thesis
  proof (cases "fs_files s ents nm = None")
    case True
    then have "dir_find (rde_mem s R) fne = Inr None"
      using dir_find_none [OF d nm(1)] by (simp add: dom_fs_files)
    with True len t rel show ?thesis
      by (simp add: rfs_chkfileisindev_def gr)
  next
    case False
    then have "nm \<in> fst ` set (entries ents)"
      by (simp add: dom_fs_files)
    from dir_find_some [OF d nm(1) this] obtain k b
      where k: "dir_find (rde_mem s R) fne = Inr (Some (512 + 128 * k))" "k < length ents"
        "ents ! k = Some (nm, b)" .
    then have "\<not> dir_empty (rde_mem s R)"
      using dir_empty_iff [OF d] by auto
    with False len t rel k(1) show ?thesis
      by (simp add: rfs_chkfileisindev_def gr)
  qed
qed

section \<open>Creating a file\<close>

text \<open>The first free block, as the bitmap has it.\<close>

definition first_free :: "nat \<Rightarrow> rfs \<Rightarrow> nat \<Rightarrow> bool" where
  "first_free n s r \<longleftrightarrow> 2 \<le> r \<and> r < n \<and> rde_mem s 1 r = 0 \<and> (\<forall>j. 2 \<le> j \<and> j < r \<longrightarrow> rde_mem s 1 j \<noteq> 0)"

lemma first_free_ex:
  assumes "2 \<le> b" "b < n" "rde_mem s 1 b = 0"
  obtains r where "first_free n s r"
proof -
  define r where "r = (LEAST r. 2 \<le> r \<and> rde_mem s 1 r = 0)"
  have "2 \<le> r \<and> rde_mem s 1 r = 0"
    unfolding r_def by (rule LeastI [of _ b]) (use assms in simp)
  moreover have "r \<le> b"
    unfolding r_def by (rule Least_le) (use assms in simp)
  moreover have "\<forall>j. 2 \<le> j \<and> j < r \<longrightarrow> rde_mem s 1 j \<noteq> 0"
    unfolding r_def using not_less_Least by blast
  ultimately have "first_free n s r"
    using assms(2) by (simp add: first_free_def)
  then show thesis by (rule that)
qed

lemma rfs_new_blk_some:
  assumes "sb_ok n R s" "first_free n s r"
  shows "rfs_new_blk s = Inr (of_nat r, s\<lparr>rde_mem := (rde_mem s)(1 := (rde_mem s 1)(r := 1))\<rparr>)"
proof -
  have "new_blk_loop (rde_mem s 1) 2 = ((rde_mem s 1)(r := 1), r)"
    using assms(2) sb_okD(6) [OF assms(1)] by (intro new_blk_loop_found) (simp_all add: first_free_def)
  then show ?thesis
    by (rule rfs_new_blk_ok [OF sb_okD(1-3) [OF assms(1)]])
qed

lemma rfs_new_blk_none:
  assumes "fs_inv n R s ents" "used n s = {2..<n}"
  shows "rfs_new_blk s = Inr (0, s)"
proof -
  have "rde_mem s 1 j \<noteq> 0" if "2 \<le> j" "j < 4096" for j
  proof (cases "n \<le> j")
    case True
    with that assms(1) show ?thesis by (simp add: fs_invD(6))
  next
    case False
    with that have "j \<in> {2..<n}" by simp
    then show ?thesis
      unfolding assms(2) [symmetric] by (simp add: used_def)
  qed
  then have "new_blk_loop (rde_mem s 1) 2 = (rde_mem s 1, 0)"
    by (intro new_blk_loop_none) simp
  from rfs_new_blk_ok [OF sb_okD(1-3) [OF fs_invD(1) [OF assms(1)]] this] show ?thesis
    by (simp add: rfs_collapse)
qed

text \<open>The state after a file was created.\<close>

definition created :: "nat \<Rightarrow> rfs \<Rightarrow> slots \<Rightarrow> u8 list \<Rightarrow> nat \<Rightarrow> rfs" where
  "created R s ents nm r = s\<lparr>rde_mem := (rde_mem s)
     (1 := (rde_mem s 1)(r := 1), r := blank_file r 2,
      R := new_entry (rde_mem s R) (512 + 128 * length ents) nm r)\<rparr>"

lemma of_nat_blk: "r < 4096 \<Longrightarrow> unat (of_nat r :: u64) = r" "0 < r \<Longrightarrow> r < 4096 \<Longrightarrow> (of_nat r :: u64) \<noteq> 0"
proof -
  show "r < 4096 \<Longrightarrow> unat (of_nat r :: u64) = r" by simp
  then show "0 < r \<Longrightarrow> r < 4096 \<Longrightarrow> (of_nat r :: u64) \<noteq> 0"
    by (metis less_numeral_extra(3) unat_0)
qed

lemma blank_file_fold:
  "st64 (st64 (st64 (st64 (st64 (st64 (fimgrhd_t_init (hal_memset 0)) 8 ty) 24 (of_nat b)) 88 (of_nat b))
     96 0x200) 104 (of_nat b)) 112 1 = blank_file b ty"
  by (simp add: blank_file_def Let_def)

lemma new_entry_fold:
  fixes rb w nm r
  defines [simp]: "x \<equiv> put_str (st64 (st64 (st64 rb w 0) (w + 8) 2) (w + 16) (of_nat r)) (w + 24) nm"
  assumes "512 \<le> w"
  shows "st64 (st64 x 64 (ld64 x 64 + 128)) 96 (ld64 x 96 + 128) = new_entry rb w nm r"
  using assms by (simp add: new_entry_def Let_def x_def ld64_put_str)

lemma rfs_new_dirfileblk_ok:
  assumes inv: "fs_inv n R s ents" and nm: "cstr fne 104 0 nm" "nm_ok nm"
    and len: "length ents < 28" and r: "first_free n s r"
  shows "rfs_new_dirfileblk s fne 2 = Inr (DFCOKSTUS, created R s ents nm r)"
proof -
  note d = fs_invD(2) [OF inv] and sb = fs_invD(1) [OF inv]
  note b = sb_okD [OF sb]
  have rR: "r \<noteq> R" "r < 4096" "2 \<le> r" "r < n"
    using r b fs_invD(5) [OF inv] by (auto simp: first_free_def)
  define w where "w = 512 + 128 * length ents"
  have w: "unat (ld64 (rde_mem s R) 96) = w" "512 \<le> w" "w \<le> 3968"
    using dir_ok_word(1) [OF d] len by (simp_all add: w_def)
  have cp: "rfs_strcpy fne 104 0 fmp 4096 (w + 24) = Inr (put_str fmp (w + 24) nm)" for fmp
    using nm w by (intro rfs_strcpy_cstr) (simp_all add: nm_ok_def)
  have R24: "ld64 (new_entry (rde_mem s R) w nm r) 24 = of_nat R"
    using nm w dir_ok_word(4) [OF d] by (simp add: ld64_new_entry nm_ok_def)
  define s1 where "s1 = s\<lparr>rde_mem := (rde_mem s)(1 := (rde_mem s 1)(r := 1)), krl_live := Suc (krl_live s)\<rparr>"
  define s2 where "s2 = (bump s1)\<lparr>rde_mem := (rde_mem s1)(r := blank_file r 2)\<rparr>"
  have nb: "rfs_new_blk (bump s) = Inr (of_nat r, s1)"
    using rfs_new_blk_some [of n R "bump s" r] sb r by (simp add: first_free_def s1_def)
  have gr: "get_rootdirfile_blk s1 = Inr (Some (rde_mem s R), bump s1)"
    using get_rootdirfile_blk_ok [of n R s1] sb b(4) by (simp add: s1_def)
  have wr: "write_rfsdevblk (bump s1) (blank_file r 2) (of_nat r) = Inr (DFCOKSTUS, s2)"
    using b rR by (simp add: write_blk [of n] of_nat_blk s1_def s2_def)
  have dl: "del_rootdirfile_blk s2 (new_entry (rde_mem s R) w nm r) = Inr (bump (created R s ents nm r))"
    using b R24 by (subst del_rootdirfile_blk_ok [of n _ "Suc (krl_live s)" _ R])
      (simp_all add: created_def s2_def s1_def w_def)
  have fin: "del_buf (bump (created R s ents nm r)) = Inr (created R s ents nm r)"
    by simp
  have "\<not> 4096 \<le> w" "\<not> 4096 < w + 24" "(of_nat r :: u64) \<noteq> 0"
    using w rR by (simp_all add: of_nat_blk)
  then show ?thesis
    unfolding rfs_new_dirfileblk_def
    using b(2) w(2)
    by (simp add: nb gr w(1) cp Let_def new_entry_fold blank_file_fold wr dl)
qed

lemma created_simps [simp]:
  assumes "fs_inv n R s ents" "first_free n s r"
  shows "rde_mem (created R s ents nm r) 0 = rde_mem s 0"
    "rde_mem (created R s ents nm r) 1 = (rde_mem s 1)(r := 1)"
    "rde_mem (created R s ents nm r) r = blank_file r 2"
    "rde_mem (created R s ents nm r) R = new_entry (rde_mem s R) (512 + 128 * length ents) nm r"
    "2 \<le> b \<Longrightarrow> b \<noteq> r \<Longrightarrow> b \<noteq> R \<Longrightarrow> rde_mem (created R s ents nm r) b = rde_mem s b"
proof -
  have "r \<noteq> R" "2 \<le> r" "2 \<le> R"
    using assms fs_invD(5) [OF assms(1)] sb_okD [OF fs_invD(1) [OF assms(1)]]
    by (auto simp: first_free_def)
  then show "rde_mem (created R s ents nm r) 0 = rde_mem s 0"
    "rde_mem (created R s ents nm r) 1 = (rde_mem s 1)(r := 1)"
    "rde_mem (created R s ents nm r) r = blank_file r 2"
    "rde_mem (created R s ents nm r) R = new_entry (rde_mem s R) (512 + 128 * length ents) nm r"
    "2 \<le> b \<Longrightarrow> b \<noteq> r \<Longrightarrow> b \<noteq> R \<Longrightarrow> rde_mem (created R s ents nm r) b = rde_mem s b"
    by (simp_all add: created_def)
qed

lemma fil_ok_blank: "fil_ok (blank_file r 2) r"
  by (simp add: fil_ok_def hdr_blank_file blank_file_fields)

lemma free_not_entry:
  assumes "fs_inv n R s ents" "rde_mem s 1 r = 0" "e \<in> set (entries ents)"
  shows "snd e \<noteq> r"
  using fs_invD(7) [OF assms(1,3)] assms(2) by (auto simp: file_ok_def)

lemma created_inv:
  assumes inv: "fs_inv n R s ents" and nm: "nm_ok nm" and new: "fs_files s ents nm = None"
    and len: "length ents < 28" and r: "first_free n s r"
  shows "fs_inv n R (created R s ents nm r) (ents @ [Some (nm, r)])"
proof -
  let ?s = "created R s ents nm r"
  note c [simp] = created_simps [OF inv r]
  have r2: "2 \<le> r" "r < n" "rde_mem s 1 r = 0" "r \<noteq> R"
    using r fs_invD(5) [OF inv] by (auto simp: first_free_def)
  note fresh = free_not_entry [OF inv r2(3)]
  show ?thesis
  proof (rule fs_invI)
    show "sb_ok n R ?s"
      using fs_invD(1) [OF inv] r2 sb_okD(4) [OF fs_invD(1) [OF inv]] by (simp add: created_def)
    show "dir_ok (rde_mem ?s R) R (ents @ [Some (nm, r)])"
      using dir_ok_new_entry [OF fs_invD(2) [OF inv] len nm] by simp
    show "distinct (map fst (entries (ents @ [Some (nm, r)])))"
      using fs_invD(3) [OF inv] new by (simp add: dom_fs_files)
    show "distinct (map snd (entries (ents @ [Some (nm, r)])))"
      using fs_invD(4) [OF inv] fresh by auto
    show "rde_mem ?s 1 R \<noteq> 0"
      using fs_invD(5) [OF inv] by simp
    show "rde_mem ?s 1 b \<noteq> 0" if "n \<le> b" "b < 4096" for b
      using fs_invD(6) [OF inv that] by simp
    show "file_ok n R ?s e" if "e \<in> set (entries (ents @ [Some (nm, r)]))" for e
    proof (cases "e = (nm, r)")
      case True
      with nm r2 show ?thesis
        by (simp add: file_ok_def fil_ok_blank)
    next
      case False
      with that have "e \<in> set (entries ents)" by simp
      with fs_invD(7) [OF inv this] fresh [OF this] show ?thesis
        by (auto simp: file_ok_def)
    qed
  qed
qed

lemma map_of_blocks:
  assumes "\<And>nm b. (nm, b) \<in> set es \<Longrightarrow> f b = g b"
  shows "map_of (map (\<lambda>(nm, b). (nm, f b)) es) = map_of (map (\<lambda>(nm, b). (nm, g b)) es)"
  by (rule arg_cong [where f = map_of]) (use assms in auto)

lemma created_files:
  assumes inv: "fs_inv n R s ents" and r: "first_free n s r" and new: "fs_files s ents nm = None"
  shows "fs_files (created R s ents nm r) (ents @ [Some (nm, r)]) = (fs_files s ents)(nm \<mapsto> [])"
proof -
  let ?s = "created R s ents nm r"
  note c [simp] = created_simps [OF inv r]
  have "rde_mem s 1 r = 0"
    using r by (simp add: first_free_def)
  note fresh = free_not_entry [OF inv this]
  have old: "fs_files ?s ents = fs_files s ents"
    unfolding fs_files_def
  proof (rule map_of_blocks)
    fix nm' b assume "(nm', b) \<in> set (entries ents)"
    with fresh [OF this] fs_invD(7) [OF inv this] show "file_data (rde_mem ?s b) = file_data (rde_mem s b)"
      by (simp add: file_ok_def)
  qed
  have "file_data (rde_mem ?s r) = []"
    by (simp add: file_data_def blank_file_fields)
  moreover have "fs_files ?s (ents @ [Some (nm, r)]) = fs_files ?s ents ++ [nm \<mapsto> file_data (rde_mem ?s r)]" 
    if "nm \<notin> fst ` set (entries ents)"
  proof -
    let ?m = "map (\<lambda>(nm, b). (nm, file_data (rde_mem ?s b)))"
    have "fs_files ?s (ents @ [Some (nm, r)]) = map_of [(nm, file_data (rde_mem ?s r))] ++ fs_files ?s ents"
      by (simp add: fs_files_def)
    also have "\<dots> = fs_files ?s ents ++ map_of [(nm, file_data (rde_mem ?s r))]"
      by (rule map_add_comm) (use that dom_fs_files [of ?s ents nm] in \<open>auto simp: dom_def\<close>)
    finally show ?thesis by simp
  qed
  ultimately show ?thesis
    using new old by (simp add: dom_fs_files)
qed

lemma created_used:
  assumes "fs_inv n R s ents" "first_free n s r"
  shows "used n (created R s ents nm r) = insert r (used n s)"
  using created_simps(2) [OF assms] assms(2) by (auto simp: used_def first_free_def)

lemma created_live [simp]: "krl_live (created R s ents nm r) = krl_live s"
  by (simp add: created_def)

lemma rfs_new_file_ok:
  assumes inv: "fs_inv n R s ents" and p: "path_to nm p" "nm_ok nm"
  shows "fs_files s ents nm = None \<Longrightarrow> length ents < 28 \<Longrightarrow> first_free n s r \<Longrightarrow>
      rfs_new_file s p = Inr (DFCOKSTUS, created R s ents nm r)"
    and "fs_files s ents nm \<noteq> None \<Longrightarrow> rfs_new_file s p = Inr (DFCERRSTUS, s)"
proof -
  from rfs_ret_fname_ok [OF p] obtain fne
    where f: "rfs_ret_fname (hal_memset 0) p = Inr (0, fne)" "cstr fne 104 0 nm" by blast
  note chk = rfs_chkfileisindev_ok [OF inv f(2) p(2)]
  show "rfs_new_file s p = Inr (DFCOKSTUS, created R s ents nm r)"
    if "fs_files s ents nm = None" "length ents < 28" "first_free n s r"
    using f(1) chk that rfs_new_dirfileblk_ok [OF inv f(2) p(2) that(2,3)]
    by (simp add: rfs_new_file_def)
  show "rfs_new_file s p = Inr (DFCERRSTUS, s)" if "fs_files s ents nm \<noteq> None"
    using f(1) chk that by (simp add: rfs_new_file_def)
qed

lemma new_file_no_blk:
  assumes inv: "fs_inv n R s ents" and p: "path_to nm p" "nm_ok nm" and full: "used n s = {2..<n}"
  shows "rfs_new_file s p = Inr (DFCERRSTUS, s)"
proof (cases "fs_files s ents nm = None")
  case True
  from rfs_ret_fname_ok [OF p] obtain fne
    where f: "rfs_ret_fname (hal_memset 0) p = Inr (0, fne)" "cstr fne 104 0 nm" by blast
  have "rfs_new_blk (bump s) = Inr (0, bump s)"
    by (rule rfs_new_blk_none) (use inv full in simp_all)
  with f(1) rfs_chkfileisindev_ok [OF inv f(2) p(2)] True sb_okD(2) [OF fs_invD(1) [OF inv]] show ?thesis
    by (simp add: rfs_new_file_def rfs_new_dirfileblk_def)
qed (rule rfs_new_file_ok [OF inv p])

text \<open>When the directory has no free slot the block taken for the file stays marked in the bitmap.\<close>

lemma new_file_dir_full:
  assumes inv: "fs_inv n R s ents" and p: "path_to nm p" "nm_ok nm" and new: "fs_files s ents nm = None"
    and len: "length ents = 28" and r: "first_free n s r"
  shows "rfs_new_file s p = Inr (DFCERRSTUS, s\<lparr>rde_mem := (rde_mem s)(1 := (rde_mem s 1)(r := 1))\<rparr>)"
proof -
  from rfs_ret_fname_ok [OF p] obtain fne
    where f: "rfs_ret_fname (hal_memset 0) p = Inr (0, fne)" "cstr fne 104 0 nm" by blast
  note d = fs_invD(2) [OF inv] and sb = fs_invD(1) [OF inv]
  note b = sb_okD [OF sb]
  define s1 where "s1 = s\<lparr>rde_mem := (rde_mem s)(1 := (rde_mem s 1)(r := 1)), krl_live := Suc (krl_live s)\<rparr>"
  have nb: "rfs_new_blk (bump s) = Inr (of_nat r, s1)"
    using rfs_new_blk_some [of n R "bump s" r] sb r by (simp add: first_free_def s1_def)
  have gr: "get_rootdirfile_blk s1 = Inr (Some (rde_mem s R), bump s1)"
    using get_rootdirfile_blk_ok [of n R s1] sb b(4) by (simp add: s1_def)
  have rel: "del_rootdirfile_blk (bump s1) (rde_mem s R) = Inr s1"
    using b dir_ok_word(4) [OF d]
    by (subst del_rootdirfile_blk_ok [of n _ "Suc (krl_live s)" _ R]) (simp_all add: s1_def rfs_collapse fun_upd_idem)
  have "unat (ld64 (rde_mem s R) 96) = 4096"
    using dir_ok_word(1) [OF d] len by simp
  moreover have "(of_nat r :: u64) \<noteq> 0"
    using r b(6) by (intro of_nat_blk) (simp_all add: first_free_def)
  ultimately show ?thesis
    using f(1) rfs_chkfileisindev_ok [OF inv f(2) p(2)] new b(2)
    by (simp add: rfs_new_file_def rfs_new_dirfileblk_def nb gr rel) (simp add: s1_def)
qed

section \<open>Deleting a file\<close>

definition deleted :: "nat \<Rightarrow> rfs \<Rightarrow> nat \<Rightarrow> nat \<Rightarrow> rfs" where
  "deleted R s t b = s\<lparr>rde_mem := (rde_mem s)
     (1 := (rde_mem s 1)(b := 0), R := dead_entry (rde_mem s R) (512 + 128 * t))\<rparr>"

lemma deleted_simps [simp]:
  assumes "sb_ok n R s"
  shows "rde_mem (deleted R s t b) 0 = rde_mem s 0"
    "rde_mem (deleted R s t b) 1 = (rde_mem s 1)(b := 0)"
    "rde_mem (deleted R s t b) R = dead_entry (rde_mem s R) (512 + 128 * t)"
    "2 \<le> k \<Longrightarrow> k \<noteq> R \<Longrightarrow> rde_mem (deleted R s t b) k = rde_mem s k"
  using sb_okD(4) [OF assms] by (simp_all add: deleted_def)

lemma deleted_live [simp]: "krl_live (deleted R s t b) = krl_live s"
  by (simp add: deleted_def)

lemma dead_entry_fold: "st64 (rfsdir_t_init d rb) (d + 8) 5 = dead_entry rb d"
  by (simp add: dead_entry_def)

lemma del_dirfileblk_core_ok:
  assumes inv: "fs_inv n R s ents" and f: "dir_find (rde_mem s R) fne = Inr (Some (512 + 128 * t))"
    and t: "t < length ents" "ents ! t = Some (nm, b)"
  shows "del_dirfileblk_core s fne = Inr (0, deleted R s t b)"
proof -
  note d = fs_invD(2) [OF inv] and sb = fs_invD(1) [OF inv]
  note bb = sb_okD [OF sb]
  have e: "(nm, b) \<in> set (entries ents)"
    using t by (auto simp: set_entries in_set_conv_nth)
  have b: "2 \<le> b" "b < n" "b \<noteq> R"
    using fs_invD(7) [OF inv e] by (simp_all add: file_ok_def)
  define w where "w = 512 + 128 * t"
  have w: "w + 128 \<le> 4096"
    using d t(1) by (simp add: dir_ok_def w_def)
  have "slot_ok (rde_mem s R) w (ents ! t)"
    using d t(1) unfolding dir_ok_def w_def by blast
  then have bk: "ld64 (rde_mem s R) (w + 16) = of_nat b"
    using t(2) by (simp add: slot_ok_def)
  have gr: "get_rootdirfile_blk s = Inr (Some (rde_mem s R), bump s)"
    by (rule get_rootdirfile_blk_ok [OF sb])
  define s1 where "s1 = (bump s)\<lparr>rde_mem := (rde_mem s)(1 := (rde_mem s 1)(b := 0))\<rparr>"
  have db: "rfs_del_blk (bump s) (of_nat b) = Inr s1"
    using bb b by (subst rfs_del_blk_ok [of n]) (simp_all add: of_nat_blk s1_def)
  have d24: "ld64 (dead_entry (rde_mem s R) w) 24 = of_nat R"
  proof -
    have "ld64 (dead_entry (rde_mem s R) w) 24 = ld64 (rde_mem s R) 24"
      by (rule ld64_cong) (simp add: dead_entry_other w_def)
    with dir_ok_word(4) [OF d] show ?thesis by simp
  qed
  have dr: "del_rootdirfile_blk s1 (dead_entry (rde_mem s R) w) = Inr (deleted R s t b)"
    using bb d24 by (subst del_rootdirfile_blk_ok [of n _ "krl_live s" _ R])
      (simp_all add: s1_def deleted_def w_def)
  have "\<not> dir_empty (rde_mem s R)" "ld64 (rde_mem s R) 8 = 1"
    using dir_empty_iff [OF d] t(1) dir_ok_word(3) [OF d] by auto
  with w show ?thesis
    by (simp add: del_dirfileblk_core_def gr f [folded w_def] bk db dead_entry_fold dr)
qed

lemma deleted_inv:
  assumes inv: "fs_inv n R s ents" and t: "t < length ents" "ents ! t = Some (nm, b)"
  shows "fs_inv n R (deleted R s t b) (ents[t := None])"
    and "fs_files (deleted R s t b) (ents[t := None]) = (fs_files s ents)(nm := None)"
    and "used n (deleted R s t b) = used n s - {b}"
proof -
  let ?s = "deleted R s t b"
  note sb = fs_invD(1) [OF inv]
  note bb = sb_okD [OF sb]
  note c [simp] = deleted_simps [OF sb]
  obtain xs ys where es: "entries ents = xs @ (nm, b) # ys" "entries (ents[t := None]) = xs @ ys"
    using entries_del [OF t] by auto
  have b: "2 \<le> b" "b < n" "b \<noteq> R"
    using fs_invD(7) [OF inv, of "(nm, b)"] es by (simp_all add: file_ok_def)
  have other: "snd e \<noteq> b" "fst e \<noteq> nm" "file_ok n R s e" if "e \<in> set (xs @ ys)" for e
    using that es fs_invD(3,4) [OF inv] fs_invD(7) [OF inv, of e] by auto
  show "fs_inv n R ?s (ents[t := None])"
  proof (rule fs_invI)
    show "sb_ok n R ?s"
      using sb bb(4) by (simp add: deleted_def)
    show "dir_ok (rde_mem ?s R) R (ents[t := None])"
      using dir_ok_dead_entry [OF fs_invD(2) [OF inv] t(1)] by simp
    show "distinct (map fst (entries (ents[t := None])))" "distinct (map snd (entries (ents[t := None])))"
      using fs_invD(3,4) [OF inv] es by auto
    show "rde_mem ?s 1 R \<noteq> 0"
      using fs_invD(5) [OF inv] b by simp
    show "rde_mem ?s 1 k \<noteq> 0" if "n \<le> k" "k < 4096" for k
      using fs_invD(6) [OF inv that] b that by simp
    show "file_ok n R ?s e" if "e \<in> set (entries (ents[t := None]))" for e
      using other [of e] that es by (auto simp: file_ok_def)
  qed
  have "fs_files ?s (ents[t := None]) =
      map_of (map (\<lambda>(nm, b). (nm, file_data (rde_mem s b))) (xs @ ys))"
    unfolding fs_files_def es(2)
  proof (rule map_of_blocks)
    fix nm' b' assume "(nm', b') \<in> set (xs @ ys)"
    from other(3) [OF this] show "file_data (rde_mem ?s b') = file_data (rde_mem s b')"
      by (simp add: file_ok_def)
  qed
  also have "\<dots> = (fs_files s ents)(nm := None)"
  proof -
    have "nm \<notin> fst ` set xs" "nm \<notin> fst ` set ys"
      using other(2) by fastforce+
    then have "map_of (map (\<lambda>(nm, b). (nm, file_data (rde_mem s b))) xs) nm = None"
      "map_of (map (\<lambda>(nm, b). (nm, file_data (rde_mem s b))) ys) nm = None"
      by (auto simp: map_of_eq_None_iff image_iff)
    then show ?thesis
      by (auto simp: fs_files_def es(1) map_add_def fun_eq_iff split: option.splits)
  qed
  finally show "fs_files ?s (ents[t := None]) = (fs_files s ents)(nm := None)" .
  show "used n ?s = used n s - {b}"
    by (auto simp: used_def)
qed

lemma rfs_del_file_ok:
  assumes inv: "fs_inv n R s ents" and p: "path_to nm p" "nm_ok nm"
  shows "fs_files s ents nm = None \<Longrightarrow> rfs_del_file s p 0 = Inr (DFCERRSTUS, s)"
    and "fs_files s ents nm \<noteq> None \<Longrightarrow> \<exists>t b. t < length ents \<and> ents ! t = Some (nm, b) \<and>
      rfs_del_file s p 0 = Inr (DFCOKSTUS, deleted R s t b)"
proof -
  note d = fs_invD(2) [OF inv] and sb = fs_invD(1) [OF inv]
  note bb = sb_okD [OF sb]
  from rfs_ret_fname_ok [OF p] obtain fne
    where f: "rfs_ret_fname (hal_memset 0) p = Inr (0, fne)" "cstr fne 104 0 nm" by blast
  show "rfs_del_file s p 0 = Inr (DFCERRSTUS, s)" if "fs_files s ents nm = None"
  proof -
    have "del_rootdirfile_blk (bump s) (rde_mem s R) = Inr s"
      using bb dir_ok_word(4) [OF d] by (simp add: del_rootdirfile_blk_ok [of n] rfs_collapse)
    moreover have "dir_find (rde_mem s R) fne = Inr None"
      using dir_find_none [OF d f(2)] that by (simp add: dom_fs_files)
    ultimately show ?thesis
      using f(1) dir_ok_word(3) [OF d]
      by (simp add: rfs_del_file_def rfs_del_dirfileblk_def del_dirfileblk_core_def
        get_rootdirfile_blk_ok [OF sb])
  qed
  show "\<exists>t b. t < length ents \<and> ents ! t = Some (nm, b) \<and>
      rfs_del_file s p 0 = Inr (DFCOKSTUS, deleted R s t b)" if "fs_files s ents nm \<noteq> None"
  proof -
    have "nm \<in> fst ` set (entries ents)"
      using that by (simp add: dom_fs_files)
    from dir_find_some [OF d f(2) this] obtain t b
      where t: "dir_find (rde_mem s R) fne = Inr (Some (512 + 128 * t))" "t < length ents"
        "ents ! t = Some (nm, b)" .
    with f(1) del_dirfileblk_core_ok [OF inv t]
    have "rfs_del_file s p 0 = Inr (DFCOKSTUS, deleted R s t b)"
      by (simp add: rfs_del_file_def rfs_del_dirfileblk_def)
    with t show ?thesis by blast
  qed
qed

section \<open>Open, write, read, close\<close>

lemma rfs_openfileblk_ok:
  assumes inv: "fs_inv n R s ents" and p: "path_to nm p" "nm_ok nm"
  shows "fs_files s ents nm = None \<Longrightarrow> rfs_openfileblk s p = Inr (None, s)"
    and "fs_files s ents nm \<noteq> None \<Longrightarrow> \<exists>b. (nm, b) \<in> set (entries ents) \<and>
      rfs_openfileblk s p = Inr (Some (rde_mem s b), bump s)"
proof -
  note d = fs_invD(2) [OF inv] and sb = fs_invD(1) [OF inv]
  note bb = sb_okD [OF sb]
  from rfs_ret_fname_ok [OF p] obtain fne
    where f: "rfs_ret_fname (hal_memset 0) p = Inr (0, fne)" "cstr fne 104 0 nm" by blast
  have rel: "del_rootdirfile_blk (s\<lparr>krl_live := Suc l\<rparr>) (rde_mem s R) = Inr (s\<lparr>krl_live := l\<rparr>)" for l
    using bb dir_ok_word(4) [OF d]
    by (subst del_rootdirfile_blk_ok [of n _ l _ R]) (simp_all add: rfs_collapse)
  show "rfs_openfileblk s p = Inr (None, s)" if "fs_files s ents nm = None"
  proof -
    have "dir_find (rde_mem s R) fne = Inr None"
      using dir_find_none [OF d f(2)] that by (simp add: dom_fs_files)
    then show ?thesis
      using f(1) dir_ok_word(3) [OF d] rel [of "krl_live s"]
      by (simp add: rfs_openfileblk_def get_rootdirfile_blk_ok [OF sb] rfs_collapse)
  qed
  show "\<exists>b. (nm, b) \<in> set (entries ents) \<and> rfs_openfileblk s p = Inr (Some (rde_mem s b), bump s)"
    if "fs_files s ents nm \<noteq> None"
  proof -
    have "nm \<in> fst ` set (entries ents)"
      using that by (simp add: dom_fs_files)
    from dir_find_some [OF d f(2) this] obtain t b
      where t: "dir_find (rde_mem s R) fne = Inr (Some (512 + 128 * t))" "t < length ents"
        "ents ! t = Some (nm, b)" .
    then have e: "(nm, b) \<in> set (entries ents)"
      by (auto simp: set_entries in_set_conv_nth)
    from fs_invD(7) [OF inv e] have b: "2 \<le> b" "b < n" "fil_ok (rde_mem s b) b"
      by (simp_all add: file_ok_def)
    define w where "w = 512 + 128 * t"
    have "slot_ok (rde_mem s R) w (ents ! t)"
      using d t(2) unfolding dir_ok_def w_def by blast
    then have bk: "ld64 (rde_mem s R) (w + 16) = of_nat b"
      using t(3) by (simp add: slot_ok_def)
    have "w + 24 \<le> 4096"
      using d t(2) by (simp add: dir_ok_def w_def)
    moreover have "\<not> dir_empty (rde_mem s R)"
      using dir_empty_iff [OF d] t(2) by auto
    moreover have "read_rfsdevblk (s\<lparr>krl_live := l\<rparr>) (of_nat b) = Inr (Some (rde_mem s b))" for l
      using bb b by (simp add: read_blk [of n] of_nat_blk)
    ultimately have "rfs_openfileblk s p = Inr (Some (rde_mem s b), bump s)"
      using f(1) dir_ok_word(3) [OF d] rel [of "Suc (krl_live s)"] b(3) bb(2)
      by (simp add: rfs_openfileblk_def get_rootdirfile_blk_ok [OF sb] t(1) [folded w_def] bk
        fil_ok_def hdr_def)
    with e show ?thesis by blast
  qed
qed

text \<open>The buffer after \<open>len\<close> bytes of \<open>buf\<close> were appended to the file in it.\<close>

definition appended :: "block \<Rightarrow> block \<Rightarrow> u64 \<Rightarrow> block" where
  "appended fmp buf len =
     (let off = unat (ld64 fmp 96);
          f = (\<lambda>k. if off \<le> k \<and> k < off + unat len then buf (k - off) else fmp k)
      in st64 (st64 f 64 (ld64 fmp 64 + len)) 96 (ld64 fmp 96 + len))"

lemma fil_ok_off:
  assumes "fil_ok fmp b"
  shows "unat (ld64 fmp 96) = 512 + unat (ld64 fmp 64)"
  using assms by (simp add: fil_ok_def unat_word_ariths)

lemma appended_low:
  assumes "fil_ok fmp b"
  shows "ld64 (appended fmp buf len) 64 = ld64 fmp 64 + len"
    "ld64 (appended fmp buf len) 96 = ld64 fmp 96 + len"
    "off + 8 \<le> 64 \<or> 72 \<le> off \<and> off + 8 \<le> 96 \<or> 104 \<le> off \<and> off + 8 \<le> 512 \<Longrightarrow>
       ld64 (appended fmp buf len) off = ld64 fmp off"
    "512 \<le> i \<Longrightarrow> appended fmp buf len i =
       (if 512 + unat (ld64 fmp 64) \<le> i \<and> i < 512 + unat (ld64 fmp 64) + unat len
        then buf (i - (512 + unat (ld64 fmp 64))) else fmp i)"
proof -
  let ?f = "\<lambda>k. if unat (ld64 fmp 96) \<le> k \<and> k < unat (ld64 fmp 96) + unat len
    then buf (k - unat (ld64 fmp 96)) else fmp k"
  have f: "ld64 ?f off = ld64 fmp off" if "off + 8 \<le> 512" for off
    by (rule ld64_cong) (use that fil_ok_off [OF assms] in auto)
  show "ld64 (appended fmp buf len) 64 = ld64 fmp 64 + len"
    "ld64 (appended fmp buf len) 96 = ld64 fmp 96 + len"
    by (simp_all add: appended_def Let_def)
  show "off + 8 \<le> 64 \<or> 72 \<le> off \<and> off + 8 \<le> 96 \<or> 104 \<le> off \<and> off + 8 \<le> 512 \<Longrightarrow>
       ld64 (appended fmp buf len) off = ld64 fmp off"
    using f [of off] by (auto simp: appended_def Let_def)
  show "512 \<le> i \<Longrightarrow> appended fmp buf len i =
       (if 512 + unat (ld64 fmp 64) \<le> i \<and> i < 512 + unat (ld64 fmp 64) + unat len
        then buf (i - (512 + unat (ld64 fmp 64))) else fmp i)"
    by (simp add: appended_def Let_def st64_other fil_ok_off [OF assms])
qed

lemma add_small:
  assumes "unat (a :: u64) + unat b < 3584"
  shows "unat (a + b) = unat a + unat b"
  using assms by (simp add: unat_word_ariths)

lemma appended_ok:
  assumes "fil_ok fmp b" "unat (ld64 fmp 64) + unat len < 3584"
  shows "fil_ok (appended fmp buf len) b"
    and "file_data (appended fmp buf len) = file_data fmp @ map buf [0..<unat len]"
proof -
  note a = appended_low [OF assms(1)]
  have sz: "unat (ld64 (appended fmp buf len) 64) = unat (ld64 fmp 64) + unat len"
    using add_small [OF assms(2)] by (simp add: a)
  with assms show "fil_ok (appended fmp buf len) b"
    by (simp add: fil_ok_def hdr_def a add.assoc)
  show "file_data (appended fmp buf len) = file_data fmp @ map buf [0..<unat len]"
    unfolding file_data_def sz
    by (rule nth_equalityI) (auto simp: nth_append a(4))
qed

lemma rfs_writefileblk_ok:
  assumes dev: "dev_ok n s" and f: "fil_ok fmp b" "b < n" "n \<le> 4096"
    and len: "unat (ld64 fmp 64) + unat len < 3584"
  shows "rfs_writefileblk s fmp buf len =
    Inr (DFCOKSTUS, appended fmp buf len, s\<lparr>rde_mem := (rde_mem s)(b := appended fmp buf len)\<rparr>)"
proof -
  let ?off = "unat (ld64 fmp 96)"
  let ?f = "\<lambda>k. if ?off \<le> k \<and> k < ?off + unat len then buf (k - ?off) else fmp k"
  note o = fil_ok_off [OF f(1)]
  have sum: "unat (ld64 fmp 96 + len) = 512 + unat (ld64 fmp 64) + unat len"
    using len o by (simp add: unat_word_ariths)
  have "\<not> of_nat 4096 \<le> ld64 fmp 96 + len"
    unfolding word_le_nat_alt sum using len by simp
  moreover have "one_block fmp"
    using f(1) by (simp add: one_block_def fil_ok_def hdr_def)
  moreover have cp: "copy_bytes buf 0 fmp ?off (unat len) = Inr ?f"
    using len o by (simp add: copy_bytes_def cong: if_cong)
  moreover have ld: "ld64 ?f off = ld64 fmp off" if "off + 8 \<le> 512" for off
    by (rule ld64_cong) (use that o in auto)
  have app: "st64 (st64 ?f 64 (ld64 fmp 64 + len)) 96 (ld64 fmp 96 + len) = appended fmp buf len"
    by (simp add: appended_def Let_def)
  have b88: "ld64 (appended fmp buf len) 88 = of_nat b"
    using f(1) by (simp add: appended_low [OF f(1)] fil_ok_def hdr_def)
  have wr: "write_rfsdevblk s (appended fmp buf len) (of_nat b) =
      Inr (DFCOKSTUS, s\<lparr>rde_mem := (rde_mem s)(b := appended fmp buf len)\<rparr>)"
    using dev f(2,3) by (simp add: write_blk [of n] of_nat_blk)
  have b88': "ld64 fmp 88 = of_nat b"
    using f(1) by (simp add: fil_ok_def hdr_def)
  ultimately show ?thesis
    by (simp add: rfs_writefileblk_def cp ld app Let_def wr b88')
qed

lemma rfs_writefileblk_full:
  assumes "fil_ok fmp b" "3584 \<le> unat (ld64 fmp 64) + unat len" "unat len < 2 ^ 63"
  shows "rfs_writefileblk s fmp buf len = Inr (DFCERRSTUS, fmp, s)"
proof -
  have "unat (ld64 fmp 96 + len) = 512 + unat (ld64 fmp 64) + unat len"
    using assms fil_ok_off [OF assms(1)] by (simp add: unat_word_ariths fil_ok_def)
  then have "of_nat 4096 \<le> ld64 fmp 96 + len"
    unfolding word_le_nat_alt using assms(2) by simp
  then show ?thesis
    by (simp add: rfs_writefileblk_def)
qed

text \<open>Past that bound the sum of offset and length wraps around and the copy leaves the buffer.\<close>

lemma rfs_writefileblk_wrap:
  assumes "fil_ok fmp b" "2 ^ 64 \<le> unat (ld64 fmp 96) + unat len"
  shows "rfs_writefileblk s fmp buf len = Inl Fault"
proof -
  note o = fil_ok_off [OF assms(1)]
  have sz: "unat (ld64 fmp 64) < 3584"
    using assms(1) by (simp add: fil_ok_def)
  have "unat (ld64 fmp 96 + len) = unat (ld64 fmp 96) + unat len - 2 ^ 64"
    using assms(2) unsigned_less [of len, where 'a = nat] sz o
    by (simp add: unat_word_ariths mod_if)
  then have "\<not> of_nat 4096 \<le> ld64 fmp 96 + len"
    unfolding word_le_nat_alt using unsigned_less [of len, where 'a = nat] sz o by simp
  moreover have "one_block fmp"
    using assms(1) by (simp add: one_block_def fil_ok_def hdr_def)
  moreover have "4096 < unat len"
    using assms(2) sz o by simp
  ultimately show ?thesis
    by (simp add: rfs_writefileblk_def copy_bytes_def)
qed

lemma rfs_readfileblk_ok:
  assumes "fil_ok fmp b" "unat len \<le> 3584"
  shows "rfs_readfileblk fmp buf len =
    Inr (DFCOKSTUS, \<lambda>k. if k < unat len then fmp (512 + k) else buf k)"
proof -
  have h: "ld64 fmp 72 = 512" "one_block fmp"
    using assms(1) by (simp_all add: one_block_def fil_ok_def hdr_def)
  have "\<not> (3584 :: u64) < len"
    using assms(2) by (simp add: word_less_nat_alt)
  with h assms(2) show ?thesis
    by (simp add: rfs_readfileblk_def copy_bytes_def cong: if_cong)
qed

lemma rfs_readfileblk_long:
  assumes "fil_ok fmp b" "3584 < unat len"
  shows "rfs_readfileblk fmp buf len = Inr (DFCERRSTUS, buf)"
proof -
  have "ld64 fmp 72 = 512" "(3584 :: u64) < len"
    using assms by (simp_all add: fil_ok_def hdr_def word_less_nat_alt)
  then show ?thesis
    by (simp add: rfs_readfileblk_def)
qed

lemma rfs_closefileblk_ok:
  assumes "dev_ok n s" "fil_ok fmp b" "b < n" "n \<le> 4096" "krl_live s = Suc l"
  shows "rfs_closefileblk s fmp = Inr (DFCOKSTUS, s\<lparr>rde_mem := (rde_mem s)(b := fmp), krl_live := l\<rparr>)"
proof -
  have "ld64 fmp 24 = of_nat b"
    using assms(2) by (simp add: fil_ok_def hdr_def)
  with assms show ?thesis
    by (simp add: rfs_closefileblk_def write_blk [of n] of_nat_blk)
qed

text \<open>Replacing the block of one file by another version of it.\<close>

lemma file_block_update:
  assumes inv: "fs_inv n R s ents" and e: "(nm, b) \<in> set (entries ents)" and f: "fil_ok blk b"
  shows "fs_inv n R (s\<lparr>rde_mem := (rde_mem s)(b := blk)\<rparr>) ents"
    and "fs_files (s\<lparr>rde_mem := (rde_mem s)(b := blk)\<rparr>) ents = (fs_files s ents)(nm \<mapsto> file_data blk)"
    and "used n (s\<lparr>rde_mem := (rde_mem s)(b := blk)\<rparr>) = used n s"
proof -
  let ?s = "s\<lparr>rde_mem := (rde_mem s)(b := blk)\<rparr>"
  have b: "2 \<le> b" "b \<noteq> R" "file_ok n R s (nm, b)"
    using fs_invD(7) [OF inv e] by (simp_all add: file_ok_def)
  then have m: "rde_mem ?s 0 = rde_mem s 0" "rde_mem ?s 1 = rde_mem s 1" "rde_mem ?s R = rde_mem s R"
    "rde_mem ?s b = blk"
    by auto
  show "fs_inv n R ?s ents"
  proof (rule fs_invI)
    show "sb_ok n R ?s"
      using fs_invD(1) [OF inv] b by (simp add: fun_upd_other)
    show "file_ok n R ?s x" if "x \<in> set (entries ents)" for x
      using fs_invD(7) [OF inv that] f m by (auto simp: file_ok_def)
  qed (use fs_invD(2-6) [OF inv] m in simp_all)
  have "fs_files ?s ents x = ((fs_files s ents)(nm \<mapsto> file_data blk)) x" for x
  proof (cases "x \<in> fst ` set (entries ents)")
    case False
    then have "fs_files ?s ents x = None" "fs_files s ents x = None"
      by (simp_all add: dom_fs_files)
    moreover have "x \<noteq> nm"
      using False e by force
    ultimately show ?thesis by simp
  next
    case True
    then obtain c where c: "(x, c) \<in> set (entries ents)" by force
    note v = fs_files_eq [OF fs_invD(3) [OF inv] c]
    have "c = b \<longleftrightarrow> x = nm"
      using c e fs_invD(3,4) [OF inv] by (metis eq_key_imp_eq_value distinct_map fst_conv inj_onD snd_conv)
    then show ?thesis
      using v [of s] v [of ?s] m(4) by (cases "x = nm") auto
  qed
  then show "fs_files ?s ents = (fs_files s ents)(nm \<mapsto> file_data blk)" by blast
  show "used n ?s = used n s"
    using m by (simp add: used_def)
qed

section \<open>Formatting\<close>

text \<open>A device that was not formatted yet: only its memory is known.\<close>

definition sb_block :: "rfs \<Rightarrow> block" where
  "sb_block s = st64 (rfssublk_t_init (hal_memset 0)) 80 (ret_rfsdevmaxblknr s)"

lemma clear_name_low: "off + 8 \<le> d + 24 \<Longrightarrow> ld64 (clear_name d m b) off = ld64 b off"
  by (rule ld64_cong) (simp add: clear_name_other)

lemma sb_block_fields: "ld64 (sb_block s) 64 = 1" "ld64 (sb_block s) 80 = ret_rfsdevmaxblknr s"
  by (simp_all add: sb_block_def rfssublk_t_init_def Let_def rfsdir_t_init_def clear_name_low)

lemma maxblk:
  assumes "dev_ok n s" shows "unat (ret_rfsdevmaxblknr s) = n"
  using assms by (simp add: ret_rfsdevmaxblknr_def dev_ok_def unat_div)

definition bm_block :: "nat \<Rightarrow> block" where
  "bm_block n = (\<lambda>k. if 2 \<le> k \<and> k < n then 0 else 1)"

definition root_sb :: "rfs \<Rightarrow> nat \<Rightarrow> block" where
  "root_sb s r = st64 (st64 ((sb_block s)(112 := 47)) 96 1) 104 (of_nat r)"

lemma root_sb_fields: "ld64 (root_sb s r) 64 = 1" "ld64 (root_sb s r) 104 = of_nat r"
  by (simp_all add: root_sb_def ld64_upd_other sb_block_fields)

definition formatted :: "nat \<Rightarrow> rfs \<Rightarrow> rfs" where
  "formatted n s = s\<lparr>rde_mem := (rde_mem s)(0 := root_sb s 2, 1 := (bm_block n)(2 := 1), 2 := blank_file 2 1)\<rparr>"

lemma create_superblk_ok:
  assumes "dev_ok n s" "krl_grants s = []"
  shows "create_superblk s = Inr (True, s\<lparr>rde_mem := (rde_mem s)(0 := sb_block s)\<rparr>)"
proof -
  have "ret_rfsdevmaxblknr (bump s) = ret_rfsdevmaxblknr s"
    by (simp add: ret_rfsdevmaxblknr_def)
  then have "st64 (rfssublk_t_init (hal_memset 0)) 80 (ret_rfsdevmaxblknr (bump s)) = sb_block s"
    by (simp add: sb_block_def)
  with assms show ?thesis
    using dev_bounds [OF assms(1)]
    by (simp add: create_superblk_def Let_def write_blk [of n])
qed

lemma create_bitmap_ok:
  assumes dev: "dev_ok n s" "krl_grants s = []" and sb: "rde_mem s 0 = sb_block s0"
    and mx: "unat (ret_rfsdevmaxblknr s0) = n"
  shows "create_bitmap s = Inr (True, s\<lparr>rde_mem := (rde_mem s)(1 := bm_block n)\<rparr>)"
proof -
  have n: "n \<le> 4096" "1 < n"
    using dev_bounds [OF dev(1)] by auto
  have "\<not> of_nat 4096 < ret_rfsdevmaxblknr s0"
    unfolding word_less_nat_alt mx using n by simp
  moreover have "clear_bits (hal_memset 1) 2 (ret_rfsdevmaxblknr s0) = bm_block n"
    by (simp add: clear_bits_eq mx bm_block_def hal_memset_def)
  moreover have "((rde_mem s)(1 := bm_block n))(0 := sb_block s0) = (rde_mem s)(1 := bm_block n)"
    using sb by (auto simp: fun_eq_iff)
  ultimately show ?thesis
    using dev n sb
    by (simp add: create_bitmap_def get_superblk_ok [of n] Let_def sb_block_fields write_blk [of n]
      del_superblk_ok [of n])
qed

lemma create_rootdir_ok:
  assumes dev: "dev_ok n s" "krl_grants s = []" and sb: "rde_mem s 0 = sb_block s0"
    and bm: "rde_mem s 1 = bm_block n"
  shows "create_rootdir s = Inr (True, s\<lparr>rde_mem := (rde_mem s)
    (1 := (bm_block n)(2 := 1), 2 := blank_file 2 1, 0 := root_sb s0 2)\<rparr>)"
proof -
  have n: "n \<le> 4096" "2 < n"
    using dev_bounds [OF dev(1)] by auto
  have "new_blk_loop (bm_block n) 2 = ((bm_block n)(2 := 1), 2)"
    by (rule new_blk_loop_found) (use n in \<open>simp_all add: bm_block_def\<close>)
  then have nb: "rfs_new_blk (s\<lparr>krl_live := Suc (Suc (krl_live s))\<rparr>) =
      Inr (2, s\<lparr>rde_mem := (rde_mem s)(1 := (bm_block n)(2 := 1)), krl_live := Suc (Suc (krl_live s))\<rparr>)"
    using rfs_new_blk_ok [of n "s\<lparr>krl_live := Suc (Suc (krl_live s))\<rparr>" "(bm_block n)(2 := 1)" 2] dev sb bm
    by (simp add: sb_block_fields)
  have bf: "st64 (st64 (st64 (st64 (st64 (st64 (fimgrhd_t_init (hal_memset 0)) 8 1) 24 2) 88 2)
     96 0x200) 104 2) 112 1 = blank_file 2 1"
    using blank_file_fold [of 1 2] by simp
  have rs: "st64 (st64 ((sb_block s0)(112 := 47)) 96 1) 104 2 = root_sb s0 2"
    by (simp add: root_sb_def)
  show ?thesis
    using dev n sb
    by (simp add: create_rootdir_def get_superblk_ok [of n] Let_def nb bf rs write_blk [of n]
      del_superblk_ok [of n])
qed

lemma rfs_fmat_ok:
  assumes dev: "dev_ok n s" "krl_grants s = []"
  shows "rfs_fmat s = Inr (formatted n s)"
proof -
  define s1 where "s1 = s\<lparr>rde_mem := (rde_mem s)(0 := sb_block s)\<rparr>"
  define s2 where "s2 = s1\<lparr>rde_mem := (rde_mem s1)(1 := bm_block n)\<rparr>"
  have "create_superblk s = Inr (True, s1)"
    using create_superblk_ok [OF dev] by (simp add: s1_def)
  moreover have "create_bitmap s1 = Inr (True, s2)"
    unfolding s2_def by (rule create_bitmap_ok [of n _ s]) (use dev maxblk [OF dev(1)] in \<open>simp_all add: s1_def\<close>)
  moreover have "create_rootdir s2 = Inr (True, s2\<lparr>rde_mem := (rde_mem s2)
      (1 := (bm_block n)(2 := 1), 2 := blank_file 2 1, 0 := root_sb s 2)\<rparr>)"
    by (rule create_rootdir_ok) (use dev in \<open>simp_all add: s1_def s2_def\<close>)
  moreover have "s2\<lparr>rde_mem := (rde_mem s2)
      (1 := (bm_block n)(2 := 1), 2 := blank_file 2 1, 0 := root_sb s 2)\<rparr> = formatted n s"
    by (auto simp: s1_def s2_def formatted_def fun_eq_iff)
  ultimately show ?thesis
    by (simp add: rfs_fmat_def)
qed

lemma formatted_inv:
  assumes "dev_ok n s" "krl_grants s = []"
  shows "fs_inv n 2 (formatted n s) []" "fs_files (formatted n s) [] = Map.empty"
    "used n (formatted n s) = {2}"
proof -
  have n: "n \<le> 4096" "2 < n"
    using dev_bounds [OF assms(1)] by auto
  have z: "ld64 (blank_file 2 1) off = 0" if "120 \<le> off" for off
    using that by (simp add: ld64_def blank_file_zero)
  have d: "dir_ok (blank_file 2 1) 2 []"
    by (simp add: dir_ok_def hdr_blank_file blank_file_fields z)
  have bm: "rde_mem (formatted n s) 1 b \<noteq> 0 \<longleftrightarrow> b < 3 \<or> n \<le> b" for b
    using n by (auto simp: formatted_def bm_block_def)
  show "fs_inv n 2 (formatted n s) []"
  proof (rule fs_invI)
    show "sb_ok n 2 (formatted n s)"
      using assms n by (simp add: sb_ok_def formatted_def root_sb_fields)
    show "dir_ok (rde_mem (formatted n s) 2) 2 []"
      using d by (simp add: formatted_def)
  qed (use bm in auto)
  show "used n (formatted n s) = {2}"
    using n by (intro set_eqI) (simp add: used_def bm, arith)
  show "fs_files (formatted n s) [] = Map.empty"
    by (simp add: fs_files_def)
qed

end
