(* ===== verification/RfsSessions.thy ===== *)
theory RfsSessions
  imports RfsOps
begin

text \<open>
  Sessions of calls to the entry points of the RAM file system driver (create; delete; open, write,
  close; open, read, close) and the map from names to contents they act on: \<open>fs_rep\<close>. The interface
  \<open>file_store\<close> states what a client may rely on; it is proved once that every sequence of commands then
  follows the abstract file store, and the driver is an interpretation of it.
\<close>

section \<open>Sessions of driver calls\<close>

text \<open>
  What a user of the driver does with a file: each function is one or more I/O packets sent to the entry
  points \<open>rfs_open\<close>, \<open>rfs_write\<close>, \<open>rfs_read\<close>, \<open>rfs_close\<close> and \<open>rfs_ioctrl\<close>.
\<close>

definition packet :: "path \<Rightarrow> objnode" where
  "packet p = \<lparr>on_acsflgs = 0, on_len = 0, on_ioctrd = 0, on_buf = None, on_bufsz = 0,
     on_fname = p, on_finode = NoNode\<rparr>"

definition create_file :: "rfs \<Rightarrow> path \<Rightarrow> (int \<times> rfs) run" where
  "create_file s p = andthen (rfs_open s ((packet p)\<lparr>on_acsflgs := FSDEV_OPENFLG_NEWFILE\<rparr>))
     (\<lambda>(st, obp, s). Inr (st, s))"

definition delete_file :: "rfs \<Rightarrow> path \<Rightarrow> (int \<times> rfs) run" where
  "delete_file s p = andthen (rfs_ioctrl s ((packet p)\<lparr>on_ioctrd := FSDEV_IOCTRCD_DELFILE\<rparr>))
     (\<lambda>(st, obp, s). Inr (st, s))"

definition append_file :: "rfs \<Rightarrow> path \<Rightarrow> block \<Rightarrow> u64 \<Rightarrow> (int \<times> rfs) run" where
  "append_file s p buf len = andthen (rfs_open s ((packet p)\<lparr>on_acsflgs := FSDEV_OPENFLG_OPEFILE\<rparr>))
     (\<lambda>(st, obp, s). if st \<noteq> DFCOKSTUS then Inr (st, s)
       else andthen (rfs_write s (obp\<lparr>on_buf := Some buf, on_bufsz := of_nat FSYS_ALCBLKSZ, on_len := len\<rparr>))
         (\<lambda>(st, obp, s). andthen (rfs_close s obp) (\<lambda>(_, obp, s). Inr (st, s))))"

definition fetch_file :: "rfs \<Rightarrow> path \<Rightarrow> u64 \<Rightarrow> (int \<times> block \<times> rfs) run" where
  "fetch_file s p len = andthen (rfs_open s ((packet p)\<lparr>on_acsflgs := FSDEV_OPENFLG_OPEFILE\<rparr>))
     (\<lambda>(st, obp, s). if st \<noteq> DFCOKSTUS then Inr (st, hal_memset 0, s)
       else andthen (rfs_read s (obp\<lparr>on_buf := Some (hal_memset 0), on_bufsz := of_nat FSYS_ALCBLKSZ, on_len := len\<rparr>))
         (\<lambda>(st, obp, s). case on_buf obp of None \<Rightarrow> Inl Fault
            | Some buf \<Rightarrow> andthen (rfs_close s obp) (\<lambda>(_, obp, s). Inr (st, buf, s))))"

text \<open>
  \<open>s\<close> is a device of \<open>n\<close> blocks that holds the files \<open>m\<close>, with \<open>l\<close> buffers in the driver's hands.
\<close>

definition fs_rep :: "nat \<Rightarrow> nat \<Rightarrow> rfs \<Rightarrow> (u8 list \<Rightarrow> u8 list option) \<Rightarrow> bool" where
  "fs_rep n l s m \<longleftrightarrow> krl_live s = l \<and> (\<exists>R ents. fs_inv n R s ents \<and> fs_files s ents = m)"

lemma fs_repI: "fs_inv n R s ents \<Longrightarrow> fs_files s ents = m \<Longrightarrow> krl_live s = l \<Longrightarrow> fs_rep n l s m"
  by (auto simp: fs_rep_def)

lemma fs_repE:
  assumes "fs_rep n l s m"
  obtains R ents where "fs_inv n R s ents" "m = fs_files s ents" "krl_live s = l"
  using assms by (auto simp: fs_rep_def)

lemma leak_inv:
  assumes inv: "fs_inv n R s ents" and r: "first_free n s r"
  shows "fs_inv n R (s\<lparr>rde_mem := (rde_mem s)(1 := (rde_mem s 1)(r := 1))\<rparr>) ents"
    and "fs_files (s\<lparr>rde_mem := (rde_mem s)(1 := (rde_mem s 1)(r := 1))\<rparr>) ents = fs_files s ents"
    and "used n (s\<lparr>rde_mem := (rde_mem s)(1 := (rde_mem s 1)(r := 1))\<rparr>) = insert r (used n s)"
proof -
  let ?s = "s\<lparr>rde_mem := (rde_mem s)(1 := (rde_mem s 1)(r := 1))\<rparr>"
  note b = sb_okD [OF fs_invD(1) [OF inv]]
  have m: "rde_mem ?s b = rde_mem s b" if "2 \<le> b" for b
    using that by simp
  show "fs_inv n R ?s ents"
  proof (rule fs_invI)
    show "sb_ok n R ?s"
      using fs_invD(1) [OF inv] by simp
    show "dir_ok (rde_mem ?s R) R ents"
      using fs_invD(2) [OF inv] m [OF b(4)] by simp
    show "rde_mem ?s 1 k \<noteq> 0" if "n \<le> k" "k < 4096" for k
      using fs_invD(6) [OF inv that] by simp
    show "file_ok n R ?s e" if "e \<in> set (entries ents)" for e
      using fs_invD(7) [OF inv that] by (simp add: file_ok_def)
  qed (use fs_invD(3-5) [OF inv] in simp_all)
  show "fs_files ?s ents = fs_files s ents"
    unfolding fs_files_def
  proof (rule map_of_blocks)
    fix nm b assume "(nm, b) \<in> set (entries ents)"
    from fs_invD(7) [OF inv this] show "file_data (rde_mem ?s b) = file_data (rde_mem s b)"
      by (simp add: file_ok_def)
  qed
  show "used n ?s = insert r (used n s)"
    using r by (auto simp: used_def first_free_def)
qed

lemma create_file_eq: "create_file s p = rfs_new_file s p"
  by (cases "rfs_new_file s p") (auto simp: create_file_def rfs_open_def packet_def)

lemma delete_file_eq: "delete_file s p = rfs_del_file s p 0"
  by (cases "rfs_del_file s p 0") (auto simp: delete_file_def rfs_ioctrl_def packet_def)

text \<open>The three ways the creation of a file can go.\<close>

lemma new_file_cases:
  assumes inv: "fs_inv n R s ents" and p: "path_to nm p" "nm_ok nm"
  obtains (new) r where "fs_files s ents nm = None" "length ents < 28" "first_free n s r"
      "rfs_new_file s p = Inr (DFCOKSTUS, created R s ents nm r)"
  | (same) "rfs_new_file s p = Inr (DFCERRSTUS, s)"
  | (leak) r where "first_free n s r"
      "rfs_new_file s p = Inr (DFCERRSTUS, s\<lparr>rde_mem := (rde_mem s)(1 := (rde_mem s 1)(r := 1))\<rparr>)"
proof (cases "fs_files s ents nm = None \<and> used n s \<noteq> {2..<n}")
  case False
  then have "rfs_new_file s p = Inr (DFCERRSTUS, s)"
    using rfs_new_file_ok(2) [OF inv p] new_file_no_blk [OF inv p] by blast
  then show thesis by (rule same)
next
  case True
  then obtain b where "2 \<le> b" "b < n" "rde_mem s 1 b = 0"
    by (auto simp: used_def)
  from first_free_ex [OF this] obtain r where r: "first_free n s r" .
  have "length ents \<le> 28"
    using fs_invD(2) [OF inv] by (simp add: dir_ok_def)
  then consider "length ents < 28" | "length ents = 28" by linarith
  then show thesis
    using rfs_new_file_ok(1) [OF inv p] new_file_dir_full [OF inv p] True r new leak by cases blast+
qed

lemma create_file_rep:
  assumes rep: "fs_rep n l s m" and p: "path_to nm p" "nm_ok nm"
  shows "\<exists>st s'. create_file s p = Inr (st, s') \<and>
    (if st = DFCOKSTUS then m nm = None \<and> fs_rep n l s' (m(nm \<mapsto> [])) else st = DFCERRSTUS \<and> fs_rep n l s' m)"
proof -
  from rep obtain R ents where inv: "fs_inv n R s ents" and m: "m = fs_files s ents" and l: "krl_live s = l"
    by (rule fs_repE)
  from inv p show ?thesis
  proof (cases rule: new_file_cases)
    case (new r)
    have "fs_rep n l (created R s ents nm r) (m(nm \<mapsto> []))"
      by (rule fs_repI [OF created_inv [OF inv p(2) new(1-3)]]) (use new m l created_files [OF inv new(3)] in simp_all)
    with new m show ?thesis by (simp add: create_file_eq)
  next
    case same
    with rep show ?thesis by (simp add: create_file_eq)
  next
    case (leak r)
    have "fs_rep n l (s\<lparr>rde_mem := (rde_mem s)(1 := (rde_mem s 1)(r := 1))\<rparr>) m"
      by (rule fs_repI [OF leak_inv(1) [OF inv leak(1)]]) (use l m leak_inv(2) [OF inv leak(1)] in simp_all)
    with leak show ?thesis by (simp add: create_file_eq)
  qed
qed

lemma delete_file_rep:
  assumes rep: "fs_rep n l s m" and p: "path_to nm p" "nm_ok nm"
  shows "\<exists>s'. delete_file s p = Inr (if m nm = None then DFCERRSTUS else DFCOKSTUS, s') \<and>
    fs_rep n l s' (m(nm := None))"
proof -
  from rep obtain R ents where inv: "fs_inv n R s ents" and m: "m = fs_files s ents" and l: "krl_live s = l"
    by (rule fs_repE)
  show ?thesis
  proof (cases "m nm = None")
    case True
    then have "m(nm := None) = m" by auto
    with True rep rfs_del_file_ok(1) [OF inv p] m show ?thesis
      by (simp add: delete_file_eq)
  next
    case False
    then obtain t b where t: "t < length ents" "ents ! t = Some (nm, b)"
      and del: "rfs_del_file s p 0 = Inr (DFCOKSTUS, deleted R s t b)"
      using rfs_del_file_ok(2) [OF inv p] m by blast
    have "fs_rep n l (deleted R s t b) (m(nm := None))"
      by (rule fs_repI [OF deleted_inv(1) [OF inv t]]) (use m l deleted_inv(2) [OF inv t] in simp_all)
    with False del show ?thesis
      by (simp add: delete_file_eq)
  qed
qed

text \<open>Opening and closing again leaves the device as it was but for the block written back.\<close>

lemma open_session:
  assumes rep: "fs_rep n l s m" and p: "path_to nm p" "nm_ok nm" and d: "m nm = Some d"
  obtains R ents b where "fs_inv n R s ents" "m = fs_files s ents" "krl_live s = l"
    "(nm, b) \<in> set (entries ents)" "fil_ok (rde_mem s b) b" "b < n" "n \<le> 4096" "dev_ok n s"
    "file_data (rde_mem s b) = d"
    "rfs_open s ((packet p)\<lparr>on_acsflgs := FSDEV_OPENFLG_OPEFILE\<rparr>) =
       Inr (DFCOKSTUS, (packet p)\<lparr>on_acsflgs := FSDEV_OPENFLG_OPEFILE, on_finode := Node (rde_mem s b)\<rparr>, bump s)"
proof -
  from rep obtain R ents where inv: "fs_inv n R s ents" and m: "m = fs_files s ents" and l: "krl_live s = l"
    by (rule fs_repE)
  obtain b where b: "(nm, b) \<in> set (entries ents)" and op: "rfs_openfileblk s p = Inr (Some (rde_mem s b), bump s)"
    using rfs_openfileblk_ok(2) [OF inv p] d m by auto
  note f = fs_invD(7) [OF inv b] and sb = sb_okD [OF fs_invD(1) [OF inv]]
  have "p \<noteq> None"
    using p(1) by (auto simp: path_to_def)
  with op have "rfs_open s ((packet p)\<lparr>on_acsflgs := FSDEV_OPENFLG_OPEFILE\<rparr>) =
      Inr (DFCOKSTUS, (packet p)\<lparr>on_acsflgs := FSDEV_OPENFLG_OPEFILE, on_finode := Node (rde_mem s b)\<rparr>, bump s)"
    by (simp add: rfs_open_def rfs_open_file_def packet_def)
  moreover have "file_data (rde_mem s b) = d"
    using fs_files_eq [OF fs_invD(3) [OF inv] b] d m by simp
  ultimately show thesis
    using that [OF inv m l b] f sb by (simp add: file_ok_def)
qed

lemma open_missing:
  assumes rep: "fs_rep n l s m" and p: "path_to nm p" "nm_ok nm" and d: "m nm = None"
  shows "rfs_open s ((packet p)\<lparr>on_acsflgs := FSDEV_OPENFLG_OPEFILE\<rparr>) =
       Inr (DFCERRSTUS, (packet p)\<lparr>on_acsflgs := FSDEV_OPENFLG_OPEFILE\<rparr>, s)"
proof -
  from rep obtain R ents where inv: "fs_inv n R s ents" and m: "m = fs_files s ents" and l: "krl_live s = l"
    by (rule fs_repE)
  have "p \<noteq> None"
    using p(1) by (auto simp: path_to_def)
  with rfs_openfileblk_ok(1) [OF inv p] d m show ?thesis
    by (simp add: rfs_open_def rfs_open_file_def packet_def)
qed

lemma length_file_data: "length (file_data blk) = unat (ld64 blk 64)"
  by (simp add: file_data_def)

lemma append_file_rep:
  assumes rep: "fs_rep n l s m" and p: "path_to nm p" "nm_ok nm" and d: "m nm = Some d"
  shows "length d + unat len < 3584 \<Longrightarrow> \<exists>s'. append_file s p buf len = Inr (DFCOKSTUS, s') \<and>
      fs_rep n l s' (m(nm \<mapsto> d @ map buf [0..<unat len]))"
    and "3584 \<le> length d + unat len \<Longrightarrow> unat len < 2 ^ 63 \<Longrightarrow> append_file s p buf len = Inr (DFCERRSTUS, s)"
proof -
  from open_session [OF rep p d] obtain R ents b where
    inv: "fs_inv n R s ents" and m: "m = fs_files s ents" and l: "krl_live s = l" and
    e: "(nm, b) \<in> set (entries ents)" and f: "fil_ok (rde_mem s b) b" "b < n" "n \<le> 4096" and dev: "dev_ok n s" and
    fd: "file_data (rde_mem s b) = d" and
    op: "rfs_open s ((packet p)\<lparr>on_acsflgs := FSDEV_OPENFLG_OPEFILE\<rparr>) =
       Inr (DFCOKSTUS, (packet p)\<lparr>on_acsflgs := FSDEV_OPENFLG_OPEFILE, on_finode := Node (rde_mem s b)\<rparr>, bump s)" .
  have sz: "unat (ld64 (rde_mem s b) 64) = length d"
    using fd length_file_data by metis
  let ?a = "appended (rde_mem s b) buf len"
  let ?s = "s\<lparr>rde_mem := (rde_mem s)(b := ?a)\<rparr>"
  show "\<exists>s'. append_file s p buf len = Inr (DFCOKSTUS, s') \<and> fs_rep n l s' (m(nm \<mapsto> d @ map buf [0..<unat len]))"
    if len: "length d + unat len < 3584"
  proof -
    note ap = appended_ok [OF f(1), of len buf, unfolded sz, OF len]
    have wr: "rfs_writefileblk (bump s) (rde_mem s b) buf len = Inr (DFCOKSTUS, ?a, bump ?s)"
      using rfs_writefileblk_ok [of n "bump s" "rde_mem s b" b len buf] dev f len sz by simp
    have cl: "rfs_closefileblk (bump ?s) ?a = Inr (DFCOKSTUS, ?s)"
      using rfs_closefileblk_ok [of n "bump ?s" ?a b "krl_live s"] dev f ap(1) by (simp add: rfs_collapse)
    have "append_file s p buf len = Inr (DFCOKSTUS, ?s)"
      using op wr cl by (simp add: append_file_def rfs_write_def rfs_write_file_def rfs_close_def
        rfs_close_file_def packet_def)
    moreover have "fs_rep n l ?s (m(nm \<mapsto> d @ map buf [0..<unat len]))"
      by (rule fs_repI [OF file_block_update(1) [OF inv e ap(1)]])
        (use l m ap(2) fd file_block_update(2) [OF inv e ap(1)] in simp_all)
    ultimately show ?thesis by blast
  qed
  show "append_file s p buf len = Inr (DFCERRSTUS, s)" if "3584 \<le> length d + unat len" "unat len < 2 ^ 63"
  proof -
    have wr: "rfs_writefileblk (bump s) (rde_mem s b) buf len = Inr (DFCERRSTUS, rde_mem s b, bump s)"
      by (rule rfs_writefileblk_full [OF f(1)]) (use that sz in simp_all)
    have cl: "rfs_closefileblk (bump s) (rde_mem s b) = Inr (DFCOKSTUS, s)"
      using rfs_closefileblk_ok [of n "bump s" "rde_mem s b" b "krl_live s"] dev f by (simp add: rfs_collapse)
    show ?thesis
      using op wr cl by (simp add: append_file_def rfs_write_def rfs_write_file_def rfs_close_def
        rfs_close_file_def packet_def)
  qed
qed

lemma fetch_file_rep:
  assumes rep: "fs_rep n l s m" and p: "path_to nm p" "nm_ok nm" and d: "m nm = Some d"
    and len: "unat len \<le> 3584"
  shows "\<exists>buf. fetch_file s p len = Inr (DFCOKSTUS, buf, s) \<and>
      (\<forall>k < unat len. k < length d \<longrightarrow> buf k = d ! k)"
proof -
  from open_session [OF rep p d] obtain R ents b where
    f: "fil_ok (rde_mem s b) b" "b < n" "n \<le> 4096" and dev: "dev_ok n s" and
    fd: "file_data (rde_mem s b) = d" and
    op: "rfs_open s ((packet p)\<lparr>on_acsflgs := FSDEV_OPENFLG_OPEFILE\<rparr>) =
       Inr (DFCOKSTUS, (packet p)\<lparr>on_acsflgs := FSDEV_OPENFLG_OPEFILE, on_finode := Node (rde_mem s b)\<rparr>, bump s)" .
  let ?buf = "\<lambda>k. if k < unat len then rde_mem s b (512 + k) else hal_memset 0 k"
  have rd: "rfs_readfileblk (rde_mem s b) (hal_memset 0) len = Inr (DFCOKSTUS, ?buf)"
    by (rule rfs_readfileblk_ok [OF f(1) len])
  have cl: "rfs_closefileblk (bump s) (rde_mem s b) = Inr (DFCOKSTUS, s)"
    using rfs_closefileblk_ok [of n "bump s" "rde_mem s b" b "krl_live s"] dev f by (simp add: rfs_collapse)
  have "fetch_file s p len = Inr (DFCOKSTUS, ?buf, s)"
    using op rd cl by (simp add: fetch_file_def rfs_read_def rfs_read_file_def rfs_close_def
      rfs_close_file_def packet_def)
  moreover have "\<forall>k < unat len. k < length d \<longrightarrow> ?buf k = d ! k"
    using fd by (auto simp: file_data_def)
  ultimately show ?thesis by blast
qed

section \<open>The abstract file store\<close>

type_synonym files = "u8 list \<Rightarrow> u8 list option"

datatype fs_cmd = Create "u8 list" | Delete "u8 list" | Append "u8 list" "u8 list"

primrec cmd_name :: "fs_cmd \<Rightarrow> u8 list" where
  "cmd_name (Create nm) = nm"
| "cmd_name (Delete nm) = nm"
| "cmd_name (Append nm xs) = nm"

primrec cmd_ok :: "fs_cmd \<Rightarrow> bool" where
  "cmd_ok (Create nm) = nm_ok nm"
| "cmd_ok (Delete nm) = nm_ok nm"
| "cmd_ok (Append nm xs) = (nm_ok nm \<and> length xs \<le> 4096)"

text \<open>One command of the abstract store, with the status it reports.\<close>

inductive abs_step :: "files \<Rightarrow> fs_cmd \<Rightarrow> int \<Rightarrow> files \<Rightarrow> bool" where
  created: "m nm = None \<Longrightarrow> abs_step m (Create nm) DFCOKSTUS (m(nm \<mapsto> []))"
| refused: "abs_step m (Create nm) DFCERRSTUS m"
| deleted: "m nm = Some d \<Longrightarrow> abs_step m (Delete nm) DFCOKSTUS (m(nm := None))"
| not_there: "m nm = None \<Longrightarrow> abs_step m (Delete nm) DFCERRSTUS m"
| appended: "m nm = Some d \<Longrightarrow> length d + length xs < 3584 \<Longrightarrow>
    abs_step m (Append nm xs) DFCOKSTUS (m(nm \<mapsto> d @ xs))"
| too_long: "m nm = Some d \<Longrightarrow> 3584 \<le> length d + length xs \<Longrightarrow> abs_step m (Append nm xs) DFCERRSTUS m"
| no_file: "m nm = None \<Longrightarrow> abs_step m (Append nm xs) DFCERRSTUS m"

inductive abs_run :: "files \<Rightarrow> fs_cmd list \<Rightarrow> int list \<Rightarrow> files \<Rightarrow> bool" where
  done_run: "abs_run m [] [] m"
| then_run: "abs_step m c st m' \<Longrightarrow> abs_run m' cs sts m'' \<Longrightarrow> abs_run m (c # cs) (st # sts) m''"

inductive_cases abs_run_ConsE: "abs_run m (c # cs) sts m'"

inductive_simps abs_run_Nil: "abs_run m [] sts m'"

lemma abs_step_other: "abs_step m c st m' \<Longrightarrow> nm \<noteq> cmd_name c \<Longrightarrow> m' nm = m nm"
  by (induction rule: abs_step.induct) auto

lemma abs_run_other: "abs_run m cs sts m' \<Longrightarrow> nm \<notin> cmd_name ` set cs \<Longrightarrow> m' nm = m nm"
  by (induction rule: abs_run.induct) (auto simp: abs_step_other)

section \<open>The interface of a file store\<close>

primrec do_cmd ::
  "('s \<Rightarrow> u8 list \<Rightarrow> (int \<times> 's) run) \<Rightarrow> ('s \<Rightarrow> u8 list \<Rightarrow> (int \<times> 's) run) \<Rightarrow>
   ('s \<Rightarrow> u8 list \<Rightarrow> u8 list \<Rightarrow> (int \<times> 's) run) \<Rightarrow> fs_cmd \<Rightarrow> 's \<Rightarrow> (int \<times> 's) run" where
  "do_cmd cr dl ap (Create nm) s = cr s nm"
| "do_cmd cr dl ap (Delete nm) s = dl s nm"
| "do_cmd cr dl ap (Append nm xs) s = ap s nm xs"

primrec do_all :: "(fs_cmd \<Rightarrow> 's \<Rightarrow> (int \<times> 's) run) \<Rightarrow> fs_cmd list \<Rightarrow> 's \<Rightarrow> (int list \<times> 's) run" where
  "do_all f [] s = Inr ([], s)"
| "do_all f (c # cs) s = andthen (f c s) (\<lambda>(st, s). andthen (do_all f cs s) (\<lambda>(sts, s). Inr (st # sts, s)))"

locale file_store =
  fixes rep :: "'s \<Rightarrow> files \<Rightarrow> bool"
    and cr :: "'s \<Rightarrow> u8 list \<Rightarrow> (int \<times> 's) run"
    and dl :: "'s \<Rightarrow> u8 list \<Rightarrow> (int \<times> 's) run"
    and ap :: "'s \<Rightarrow> u8 list \<Rightarrow> u8 list \<Rightarrow> (int \<times> 's) run"
    and get :: "'s \<Rightarrow> u8 list \<Rightarrow> nat \<Rightarrow> (int \<times> u8 list \<times> 's) run"
  assumes cr_law: "rep s m \<Longrightarrow> nm_ok nm \<Longrightarrow> \<exists>st s'. cr s nm = Inr (st, s') \<and>
      (if st = DFCOKSTUS then m nm = None \<and> rep s' (m(nm \<mapsto> [])) else st = DFCERRSTUS \<and> rep s' m)"
    and dl_law: "rep s m \<Longrightarrow> nm_ok nm \<Longrightarrow>
      \<exists>s'. dl s nm = Inr (if m nm = None then DFCERRSTUS else DFCOKSTUS, s') \<and> rep s' (m(nm := None))"
    and ap_law: "rep s m \<Longrightarrow> nm_ok nm \<Longrightarrow> m nm = Some d \<Longrightarrow> length d + length xs < 3584 \<Longrightarrow>
      \<exists>s'. ap s nm xs = Inr (DFCOKSTUS, s') \<and> rep s' (m(nm \<mapsto> d @ xs))"
    and ap_long: "rep s m \<Longrightarrow> nm_ok nm \<Longrightarrow> m nm = Some d \<Longrightarrow> 3584 \<le> length d + length xs \<Longrightarrow>
      length xs \<le> 4096 \<Longrightarrow> ap s nm xs = Inr (DFCERRSTUS, s)"
    and ap_none: "rep s m \<Longrightarrow> nm_ok nm \<Longrightarrow> m nm = None \<Longrightarrow> ap s nm xs = Inr (DFCERRSTUS, s)"
    and get_law: "rep s m \<Longrightarrow> nm_ok nm \<Longrightarrow> m nm = Some d \<Longrightarrow> k \<le> length d \<Longrightarrow> k < 3584 \<Longrightarrow>
      get s nm k = Inr (DFCOKSTUS, take k d, s)"
begin

lemma cmd_refines:
  assumes rep: "rep s m" and c: "cmd_ok c"
  shows "\<exists>st s' m'. do_cmd cr dl ap c s = Inr (st, s') \<and> abs_step m c st m' \<and> rep s' m'"
proof (cases c)
  case (Create nm)
  with c have "nm_ok nm" by simp
  from cr_law [OF rep this] obtain st s' where r: "cr s nm = Inr (st, s')"
    "if st = DFCOKSTUS then m nm = None \<and> rep s' (m(nm \<mapsto> [])) else st = DFCERRSTUS \<and> rep s' m" by blast
  then show ?thesis
  proof (cases "st = DFCOKSTUS")
    case True
    with r Create show ?thesis
      by (intro exI [of _ st] exI [of _ s'] exI [of _ "m(nm \<mapsto> [])"]) (simp add: abs_step.created)
  next
    case False
    with r Create show ?thesis
      by (intro exI [of _ st] exI [of _ s'] exI [of _ m]) (simp add: abs_step.refused)
  qed
next
  case (Delete nm)
  with c have "nm_ok nm" by simp
  from dl_law [OF rep this] obtain s' where
    r: "dl s nm = Inr (if m nm = None then DFCERRSTUS else DFCOKSTUS, s')" "rep s' (m(nm := None))" by blast
  show ?thesis
  proof (cases "m nm")
    case None
    then have "m(nm := None) = m" by auto
    with r None Delete show ?thesis
      by (intro exI [of _ DFCERRSTUS] exI [of _ s'] exI [of _ m]) (simp add: abs_step.not_there)
  next
    case (Some d)
    with r Delete show ?thesis
      by (intro exI [of _ DFCOKSTUS] exI [of _ s'] exI [of _ "m(nm := None)"])
        (simp add: abs_step.deleted)
  qed
next
  case (Append nm xs)
  with c have nm: "nm_ok nm" and len: "length xs \<le> 4096" by simp_all
  show ?thesis
  proof (cases "m nm")
    case None
    with ap_none [OF rep nm None, of xs] rep Append show ?thesis
      by (intro exI [of _ DFCERRSTUS] exI [of _ s] exI [of _ m]) (simp add: abs_step.no_file)
  next
    case (Some d)
    show ?thesis
    proof (cases "length d + length xs < 3584")
      case True
      from ap_law [OF rep nm Some True] obtain s' where
        "ap s nm xs = Inr (DFCOKSTUS, s')" "rep s' (m(nm \<mapsto> d @ xs))" by blast
      with Append abs_step.appended [of m nm d xs] Some True show ?thesis
        by (intro exI [of _ DFCOKSTUS] exI [of _ s'] exI [of _ "m(nm \<mapsto> d @ xs)"]) simp
    next
      case False
      then have "3584 \<le> length d + length xs" by simp
      with ap_long [OF rep nm Some this len] rep Append abs_step.too_long [of m nm d xs] Some show ?thesis
        by (intro exI [of _ DFCERRSTUS] exI [of _ s] exI [of _ m]) simp
    qed
  qed
qed

lemma run_refines:
  "rep s m \<Longrightarrow> list_all cmd_ok cs \<Longrightarrow>
   \<exists>sts s' m'. do_all (do_cmd cr dl ap) cs s = Inr (sts, s') \<and> abs_run m cs sts m' \<and> rep s' m'"
proof (induction cs arbitrary: s m)
  case Nil
  then show ?case by (auto simp: abs_run_Nil)
next
  case (Cons c cs)
  then obtain st s1 m1 where
    1: "do_cmd cr dl ap c s = Inr (st, s1)" "abs_step m c st m1" "rep s1 m1"
    using cmd_refines [of s m c] by auto
  have "list_all cmd_ok cs"
    using Cons.prems(2) by simp
  from Cons.IH [OF 1(3) this] obtain sts s2 m2 where
    2: "do_all (do_cmd cr dl ap) cs s1 = Inr (sts, s2)" "abs_run m1 cs sts m2" "rep s2 m2" by blast
  from this 1 have "do_all (do_cmd cr dl ap) (c # cs) s = Inr (st # sts, s2)" "abs_run m (c # cs) (st # sts) m2"
    by (auto intro: then_run)
  with 2(3) show ?case by blast
qed

lemma isolation:
  assumes "rep s m" "list_all cmd_ok cs" "nm_ok nm" "nm \<notin> cmd_name ` set cs" "m nm = Some d" "length d < 3584"
  shows "\<exists>sts s'. do_all (do_cmd cr dl ap) cs s = Inr (sts, s') \<and> get s' nm (length d) = Inr (DFCOKSTUS, d, s')"
proof -
  from run_refines [OF assms(1,2)] obtain sts s' m' where
    r: "do_all (do_cmd cr dl ap) cs s = Inr (sts, s')" "abs_run m cs sts m'" "rep s' m'" by blast
  then have "m' nm = Some d"
    using abs_run_other [OF r(2) assms(4)] assms(5) by simp
  from get_law [OF r(3) assms(3) this le_refl assms(6)] r(1) show ?thesis by simp
qed

end

section \<open>The driver is a file store\<close>

definition name_path :: "u8 list \<Rightarrow> path" where
  "name_path nm = Some (put_str (hal_memset 0) 0 (47 # nm), length nm + 2)"

lemma path_to_name_path: "nm_ok nm \<Longrightarrow> path_to nm (name_path nm)"
  by (auto simp: path_to_def name_path_def nm_ok_def intro!: cstr_put_str)

definition bytes_of :: "u8 list \<Rightarrow> block" where
  "bytes_of xs = (\<lambda>i. if i < length xs then xs ! i else 0)"

lemma map_bytes_of: "map (bytes_of xs) [0..<length xs] = xs"
  by (rule nth_equalityI) (simp_all add: bytes_of_def)

definition rfs_get :: "rfs \<Rightarrow> u8 list \<Rightarrow> nat \<Rightarrow> (int \<times> u8 list \<times> rfs) run" where
  "rfs_get s nm k = andthen (fetch_file s (name_path nm) (of_nat k))
     (\<lambda>(st, buf, s). Inr (st, map buf [0..<k], s))"

definition rfs_cmd :: "fs_cmd \<Rightarrow> rfs \<Rightarrow> (int \<times> rfs) run" where
  "rfs_cmd = do_cmd (\<lambda>s nm. create_file s (name_path nm)) (\<lambda>s nm. delete_file s (name_path nm))
     (\<lambda>s nm xs. append_file s (name_path nm) (bytes_of xs) (of_nat (length xs)))"

interpretation store: file_store "fs_rep n l" "\<lambda>s nm. create_file s (name_path nm)"
  "\<lambda>s nm. delete_file s (name_path nm)"
  "\<lambda>s nm xs. append_file s (name_path nm) (bytes_of xs) (of_nat (length xs))" rfs_get
proof
  fix s m nm d and xs :: "u8 list" and k
  assume rep: "fs_rep n l s m" and nm: "nm_ok nm"
  note p = path_to_name_path [OF nm]
  show "\<exists>st s'. create_file s (name_path nm) = Inr (st, s') \<and>
      (if st = DFCOKSTUS then m nm = None \<and> fs_rep n l s' (m(nm \<mapsto> [])) else st = DFCERRSTUS \<and> fs_rep n l s' m)"
    by (rule create_file_rep [OF rep p nm])
  show "\<exists>s'. delete_file s (name_path nm) = Inr (if m nm = None then DFCERRSTUS else DFCOKSTUS, s') \<and>
      fs_rep n l s' (m(nm := None))"
    by (rule delete_file_rep [OF rep p nm])
  have len: "unat (of_nat (length xs) :: u64) = length xs" if "length xs \<le> 4096"
    using that by simp
  show "\<exists>s'. append_file s (name_path nm) (bytes_of xs) (of_nat (length xs)) = Inr (DFCOKSTUS, s') \<and>
      fs_rep n l s' (m(nm \<mapsto> d @ xs))" if "m nm = Some d" "length d + length xs < 3584"
    using append_file_rep(1) [OF rep p nm that(1), of "of_nat (length xs)" "bytes_of xs"] that(2) len
    by (simp add: map_bytes_of)
  show "append_file s (name_path nm) (bytes_of xs) (of_nat (length xs)) = Inr (DFCERRSTUS, s)"
    if "m nm = Some d" "3584 \<le> length d + length xs" "length xs \<le> 4096"
    using append_file_rep(2) [OF rep p nm that(1), of "of_nat (length xs)" "bytes_of xs"] that(2,3) len
    by simp
  show "append_file s (name_path nm) (bytes_of xs) (of_nat (length xs)) = Inr (DFCERRSTUS, s)" if "m nm = None"
    using open_missing [OF rep p nm that] by (simp add: append_file_def)
  show "rfs_get s nm k = Inr (DFCOKSTUS, take k d, s)" if "m nm = Some d" "k \<le> length d" "k < 3584"
  proof -
    have k: "unat (of_nat k :: u64) = k"
      using that(3) by simp
    from fetch_file_rep [OF rep p nm that(1), of "of_nat k"] that k obtain buf where
      "fetch_file s (name_path nm) (of_nat k) = Inr (DFCOKSTUS, buf, s)" "\<forall>i < k. i < length d \<longrightarrow> buf i = d ! i"
      by auto
    moreover from this that(2) have "map buf [0..<k] = take k d"
      by (intro nth_equalityI) auto
    ultimately show ?thesis
      by (simp add: rfs_get_def)
  qed
qed

end
