(* ===== verification/RfsDemo.thy ===== *)
theory RfsDemo
  imports RfsSessions
begin

text \<open>
  Concrete devices for the witnesses: an empty formatted one, one with a file, one with a full directory.
\<close>

section \<open>A concrete device\<close>

text \<open>The 4 MB of memory \<open>rfs_entry\<close> gives the device, with arbitrary contents.\<close>

definition disk :: rfs where
  "disk = \<lparr>rde_mstart = 0x100000, rde_msize = FSMM_BLK, rde_mem = \<lambda>_ _. 7, krl_grants = [], krl_live = 0\<rparr>"

lemma disk_ok: "dev_ok 1024 disk" "krl_grants disk = []" "krl_live disk = 0"
  by (simp_all add: disk_def dev_ok_def FSMM_BLK_def)

definition empty_fs :: rfs where
  "empty_fs = formatted 1024 disk"

lemma empty_fs_ok: "fs_inv 1024 2 empty_fs []" "fs_rep 1024 0 empty_fs Map.empty" "used 1024 empty_fs = {2}"
  "krl_live empty_fs = 0"
proof -
  show i: "fs_inv 1024 2 empty_fs []" and "used 1024 empty_fs = {2}"
    unfolding empty_fs_def by (rule formatted_inv [OF disk_ok(1,2)])+
  show l: "krl_live empty_fs = 0"
    by (simp add: empty_fs_def formatted_def disk_ok)
  show "fs_rep 1024 0 empty_fs Map.empty"
    by (rule fs_repI [OF i _ l]) (simp add: fs_files_def)
qed

definition nmA :: "u8 list" where "nmA = [97]"
definition nmB :: "u8 list" where "nmB = [98, 46, 99]"

lemma nm_AB [simp]: "nm_ok nmA" "nm_ok nmB" "nmA \<noteq> nmB" "nmB \<noteq> nmA"
  by (simp_all add: nm_ok_def nmA_def nmB_def)

lemma path_AB [simp]: "path_to nmA (name_path nmA)" "path_to nmB (name_path nmB)"
  by (simp_all add: path_to_name_path)

text \<open>A device with file \<open>a\<close> in it.\<close>

lemma first_free_empty: "first_free 1024 empty_fs 3"
proof -
  have "3 \<notin> used 1024 empty_fs" "2 \<in> used 1024 empty_fs"
    using empty_fs_ok(3) by simp_all
  then show ?thesis
    by (auto simp: first_free_def used_def le_Suc_eq less_Suc_eq numeral_3_eq_3 numeral_2_eq_2)
qed

definition one_file :: rfs where
  "one_file = created 2 empty_fs [] nmA 3"

lemma one_file_ok: "fs_inv 1024 2 one_file [Some (nmA, 3)]" "fs_files one_file [Some (nmA, 3)] = [nmA \<mapsto> []]"
  "fs_rep 1024 0 one_file [nmA \<mapsto> []]"
proof -
  have n: "fs_files empty_fs [] nmA = None"
    by (simp add: fs_files_def)
  show i: "fs_inv 1024 2 one_file [Some (nmA, 3)]"
    using created_inv [OF empty_fs_ok(1) nm_AB(1) n _ first_free_empty] by (simp add: one_file_def)
  show f: "fs_files one_file [Some (nmA, 3)] = [nmA \<mapsto> []]"
    using created_files [OF empty_fs_ok(1) first_free_empty n] by (simp add: one_file_def fs_files_def)
  show "fs_rep 1024 0 one_file [nmA \<mapsto> []]"
    by (rule fs_repI [OF i f]) (simp add: one_file_def empty_fs_ok)
qed

text \<open>A device whose directory is full, by creating 28 files.\<close>

definition nmk :: "nat \<Rightarrow> u8 list" where "nmk k = replicate (Suc k) 97"

lemma nmk_ok: "k < 100 \<Longrightarrow> nm_ok (nmk k)"
  by (simp add: nm_ok_def nmk_def)

lemma nmk_inj: "nmk i = nmk j \<longleftrightarrow> i = j"
  by (simp add: nmk_def replicate_eq_replicate)

lemma fill_dir:
  "k \<le> 28 \<Longrightarrow> \<exists>s ents. fs_inv 1024 2 s ents \<and> length ents = k \<and>
     fst ` set (entries ents) = nmk ` {..<k} \<and> used 1024 s = {2..<3 + k} \<and> krl_live s = 0"
proof (induction k)
  case 0
  have "used 1024 empty_fs = {2..<3 + 0}"
    unfolding empty_fs_ok(3) by auto
  with empty_fs_ok(1,4) show ?case
    by (intro exI [of _ empty_fs] exI [of _ "[]"] conjI) simp_all
next
  case (Suc k)
  then obtain s ents where s: "fs_inv 1024 2 s ents" "length ents = k" "fst ` set (entries ents) = nmk ` {..<k}"
    "used 1024 s = {2..<3 + k}" "krl_live s = 0" by auto
  have free: "first_free 1024 s (3 + k)"
  proof -
    have "3 + k \<notin> used 1024 s" "\<And>j. 2 \<le> j \<Longrightarrow> j < 3 + k \<Longrightarrow> j \<in> used 1024 s"
      using s(4) by auto
    with Suc.prems show ?thesis
      by (auto simp: first_free_def used_def)
  qed
  have new: "fs_files s ents (nmk k) = None"
    by (simp add: dom_fs_files s(3)) (auto simp: nmk_inj)
  have nm: "nm_ok (nmk k)" and k: "length ents < 28"
    using Suc.prems s(2) by (simp_all add: nmk_ok)
  have "fst ` set (entries (ents @ [Some (nmk k, 3 + k)])) = nmk ` {..<Suc k}"
    using s(3) by (simp add: lessThan_Suc)
  moreover have "used 1024 (created 2 s ents (nmk k) (3 + k)) = {2..<3 + Suc k}"
    using created_used [OF s(1) free] s(4) by auto
  ultimately show ?case
    using created_inv [OF s(1) nm new k free] s(2,5)
    by (intro exI [of _ "created 2 s ents (nmk k) (3 + k)"] exI [of _ "ents @ [Some (nmk k, 3 + k)]"]) simp
qed

end
