(* ===== verification/RfsRefuse.thy ===== *)
theory RfsRefuse
  imports RfsSessions
begin

text \<open>
  What the RAM file system does when the kernel memory service refuses it a buffer. Reading, writing and closing a file that is
  open ask for none. Opening a file asks for four, and gives back all it has when one is refused: the disk stays as it was.
  Creations and deletions can lose a buffer or stop the machine (\<open>refused_delete_panics\<close>).
\<close>

section \<open>The disk, whatever the memory service answers\<close>

text \<open>The answers to the next requests for buffers are \<open>g\<close>.\<close>

abbreviation lend :: "bool list \<Rightarrow> rfs \<Rightarrow> rfs" where
  "lend g s \<equiv> s\<lparr>krl_grants := g\<rparr>"

definition fs_disk :: "nat \<Rightarrow> nat \<Rightarrow> rfs \<Rightarrow> (u8 list \<Rightarrow> u8 list option) \<Rightarrow> bool" where
  "fs_disk n l s m \<longleftrightarrow> fs_rep n l (lend [] s) m"

lemma fs_inv_granted: "fs_inv n R s ents \<Longrightarrow> krl_grants s = []"
  using fs_invD(1) sb_okD(2) by blast

lemma lend_granted: "krl_grants s = [] \<Longrightarrow> lend [] s = s"
  by (metis rfs.surjective rfs.update_convs(4))

lemma fs_rep_disk: "fs_rep n l s m \<longleftrightarrow> fs_disk n l s m \<and> krl_grants s = []"
  unfolding fs_disk_def using fs_inv_granted lend_granted unfolding fs_rep_def by metis

lemma fs_disk_lend [simp]: "fs_disk n l (lend g s) m = fs_disk n l s m"
  by (simp add: fs_disk_def)

section \<open>Operations that ask for no buffer\<close>

lemma dev_lend [simp]:
  "ret_rfsdevblk (lend g s) b = ret_rfsdevblk s b" "dev_has (lend g s) p = dev_has s p" "dev_idx (lend g s) p = dev_idx s p"
  "read_rfsdevblk (lend g s) b = read_rfsdevblk s b"
  by (simp_all add: ret_rfsdevblk_def dev_has_def dev_idx_def read_rfsdevblk_def Let_def)

lemma write_lend: "write_rfsdevblk (lend g s) x b = andthen (write_rfsdevblk s x b) (\<lambda>(st, s). Inr (st, lend g s))"
  by (simp add: write_rfsdevblk_def split: option.split)

lemma del_buf_lend: "del_buf (lend g s) = andthen (del_buf s) (\<lambda>s. Inr (lend g s))"
  by (simp add: del_buf_def split: nat.split)

lemma andthen_assoc: "andthen (andthen m f) h = andthen m (\<lambda>x. andthen (f x) h)"
  by (cases m) simp_all

lemma close_lend: "rfs_close (lend g s) pk = andthen (rfs_close s pk) (\<lambda>(st, pk, s). Inr (st, pk, lend g s))"
proof -
  have c: "rfs_closefileblk (lend g s) b = andthen (rfs_closefileblk s b) (\<lambda>(st, s). Inr (st, lend g s))" for b
  proof (cases "write_rfsdevblk s b (ld64 b fmd_sfblk)")
    case (Inr y)
    then show ?thesis
      by (cases y; cases "del_buf (snd y)") (simp_all add: rfs_closefileblk_def write_lend del_buf_lend)
  qed (simp add: rfs_closefileblk_def write_lend)
  show ?thesis
  proof (cases "on_finode pk")
    case (Node b)
    then show ?thesis
      by (cases "rfs_closefileblk s b") (auto simp: rfs_close_def rfs_close_file_def c)
  qed (simp_all add: rfs_close_def rfs_close_file_def)
qed

lemma read_lend: "rfs_read (lend g s) pk = andthen (rfs_read s pk) (\<lambda>(st, pk, s). Inr (st, pk, lend g s))"
proof (cases "on_finode pk")
  case (Node b)
  then show ?thesis
    by (cases "on_buf pk"; cases "rfs_readfileblk b (the (on_buf pk)) (on_len pk)") (auto simp: rfs_read_def rfs_read_file_def)
qed (cases "on_buf pk"; simp add: rfs_read_def rfs_read_file_def)+

lemma write_file_lend: "rfs_write (lend g s) pk = andthen (rfs_write s pk) (\<lambda>(st, pk, s). Inr (st, pk, lend g s))"
proof -
  have w: "rfs_writefileblk (lend g s) fmp buf len =
      andthen (rfs_writefileblk s fmp buf len) (\<lambda>(st, fmp, s). Inr (st, fmp, lend g s))" for fmp buf len
    by (simp add: rfs_writefileblk_def write_lend Let_def andthen_assoc case_prod_beta)
  show ?thesis
  proof (cases "on_finode pk")
    case (Node b)
    then show ?thesis
      by (cases "on_buf pk"; cases "rfs_writefileblk s b (the (on_buf pk)) (on_len pk)")
        (auto simp: rfs_write_def rfs_write_file_def w)
  qed (cases "on_buf pk"; simp add: rfs_write_def rfs_write_file_def)+
qed

section \<open>Opening a file\<close>

text \<open>What is left of the answers after the first refusal.\<close>

definition after_refusal :: "bool list \<Rightarrow> bool list" where
  "after_refusal g = tl (dropWhile id g)"

lemma after_refusal_simps [simp]: "after_refusal (False # g) = g" "after_refusal (True # g) = after_refusal g"
  by (simp_all add: after_refusal_def)

lemma new_buf_lend:
  "new_buf (lend g s) = (if False \<in> set (take 1 g) then (False, lend (drop 1 g) s) else (True, bump (lend (drop 1 g) s)))"
  by (cases g) (auto simp: new_buf_def One_nat_def split: bool.split)

lemma rootdirfile_lend:
  assumes sb: "sb_ok n R s"
  shows "get_rootdirfile_blk (lend g s) = Inr
    (if False \<in> set (take 3 g) then (None, lend (after_refusal g) s) else (Some (rde_mem s R), bump (lend (drop 3 g) s)))"
proof -
  note b = sb_okD [OF sb]
  have R: "unat (of_nat R :: u64) = R" "ld64 (rde_mem s 0) 104 = of_nat R"
    using sb by (simp_all add: sb_ok_def dev_ok_def)
  have z: "0 < n" using b(4,5) by simp
  have s0: "s\<lparr>krl_grants := h, krl_live := l, rde_mem := rde_mem s\<rparr> = s\<lparr>krl_grants := h, krl_live := l\<rparr>" for h l
    by simp
  obtain x y w g' where g: "g = [] \<or> g = [x] \<or> g = [x, y] \<or> g = x # y # w # g'"
    by (metis list.exhaust)
  note eval = get_rootdirfile_blk_def get_rootdir_def get_superblk_def new_buf_def read_blk [of n] del_superblk_ok [of n] del_rootdir_def
    rfs_collapse ld64_shift
  from g show ?thesis
    using b R z
    by (elim disjE; cases x; cases y; cases w)
      (simp_all add: eval after_refusal_def numeral_3_eq_3)
qed


lemma openfileblk_lend:
  assumes inv: "fs_inv n R s ents" and p: "path_to nm p" "nm_ok nm"
  shows "fs_files s ents nm = None \<Longrightarrow> \<exists>g'. rfs_openfileblk (lend g s) p = Inr (None, lend g' s)"
    and "fs_files s ents nm \<noteq> None \<Longrightarrow> False \<in> set (take 4 g) \<Longrightarrow>
      rfs_openfileblk (lend g s) p = Inr (None, lend (after_refusal g) s)"
    and "fs_files s ents nm \<noteq> None \<Longrightarrow> False \<notin> set (take 4 g) \<Longrightarrow> \<exists>b. (nm, b) \<in> set (entries ents) \<and>
      rfs_openfileblk (lend g s) p = Inr (Some (rde_mem s b), bump (lend (drop 4 g) s))"
proof -
  note d = fs_invD(2) [OF inv] and sb = fs_invD(1) [OF inv]
  note bb = sb_okD [OF sb]
  from rfs_ret_fname_ok [OF p] obtain fne
    where f: "rfs_ret_fname (hal_memset 0) p = Inr (0, fne)" "cstr fne 104 0 nm" by blast
  have rel: "del_rootdirfile_blk (s\<lparr>krl_grants := h, krl_live := Suc l\<rparr>) (rde_mem s R) = Inr (s\<lparr>krl_grants := h, krl_live := l\<rparr>)" for h l
    using bb dir_ok_word(4) [OF d]
    by (subst del_rootdirfile_blk_ok [of n _ l _ R]) (simp_all add: rfs_collapse)
  show "\<exists>g'. rfs_openfileblk (lend g s) p = Inr (None, lend g' s)" if "fs_files s ents nm = None"
  proof (cases "False \<in> set (take 3 g)")
    case True
    with f(1) show ?thesis by (auto simp: rfs_openfileblk_def rootdirfile_lend [OF sb])
  next
    case False
    have "dir_find (rde_mem s R) fne = Inr None"
      using dir_find_none [OF d f(2)] that by (simp add: dom_fs_files)
    with False f(1) dir_ok_word(3) [OF d] rel [of "krl_live s" "drop 3 g"] show ?thesis
      by (intro exI [of _ "drop 3 g"]) (simp add: rfs_openfileblk_def rootdirfile_lend [OF sb] rfs_collapse)
  qed
  have some: "rfs_openfileblk (lend g s) p = Inr (None, lend (after_refusal g) s)" if "False \<in> set (take 3 g)"
    using that f(1) by (simp add: rfs_openfileblk_def rootdirfile_lend [OF sb])
  have four: "set (take 4 g) = (if length g < 4 then set (take 3 g) else insert (g ! 3) (set (take 3 g)))"
  proof (cases "length g < 4")
    case False
    then have "take 4 g = take 3 g @ [g ! 3]"
      using take_Suc_conv_app_nth [of 3 g] by (simp add: numeral_eq_Suc)
    with False show ?thesis by simp
  qed simp
  have look: "\<exists>b. (nm, b) \<in> set (entries ents) \<and> rfs_openfileblk (lend g s) p =
      (case new_buf (bump (lend (drop 3 g) s)) of (False, s') \<Rightarrow> andthen (del_rootdirfile_blk s' (rde_mem s R)) (\<lambda>s. Inr (None, s))
       | (True, s') \<Rightarrow> andthen (del_rootdirfile_blk s' (rde_mem s R)) (\<lambda>s'. Inr (Some (rde_mem s b), s')))"
    if no: "fs_files s ents nm \<noteq> None" "False \<notin> set (take 3 g)"
  proof -
    have "nm \<in> fst ` set (entries ents)"
      using no(1) by (simp add: dom_fs_files)
    from dir_find_some [OF d f(2) this] obtain t b
      where t: "dir_find (rde_mem s R) fne = Inr (Some (512 + 128 * t))" "t < length ents"
        "ents ! t = Some (nm, b)" .
    then have e: "(nm, b) \<in> set (entries ents)"
      by (auto simp: set_entries in_set_conv_nth)
    from fs_invD(7) [OF inv e] have b: "2 \<le> b" "b < n" "fil_ok (rde_mem s b) b"
      by (simp_all add: file_ok_def)
    define w where "w = 512 + 128 * t"
    have "slot_ok (rde_mem s R) w (ents ! t)"
      using d t(2) unfolding dir_ok_def w_def by blast
    then have bk: "ld64 (rde_mem s R) (w + 16) = of_nat b"
      using t(3) by (simp add: slot_ok_def)
    have "w + 24 \<le> 4096"
      using d t(2) by (simp add: dir_ok_def w_def)
    moreover have "\<not> dir_empty (rde_mem s R)"
      using dir_empty_iff [OF d] t(2) by auto
    moreover have "read_rfsdevblk (s\<lparr>krl_grants := h, krl_live := l\<rparr>) (of_nat b) = Inr (Some (rde_mem s b))" for h l
      using bb b by (simp add: read_blk [of n] of_nat_blk)
    ultimately show ?thesis
      using no(2) f(1) dir_ok_word(3) [OF d] b(3) e
      by (intro exI [of _ b]) (cases "drop 3 g"; auto simp: rfs_openfileblk_def rootdirfile_lend [OF sb] t(1) [folded w_def] bk
        fil_ok_def hdr_def new_buf_def split: bool.split)
  qed
  show "rfs_openfileblk (lend g s) p = Inr (None, lend (after_refusal g) s)"
    if no: "fs_files s ents nm \<noteq> None" "False \<in> set (take 4 g)"
  proof (cases "False \<in> set (take 3 g)")
    case False
    with no(2) four have l: "\<not> length g < 4" "\<not> g ! 3" by (auto split: if_splits)
    then obtain x y w g' where g: "g = x # y # w # False # g'"
      by (cases g rule: list.exhaust; cases "tl g"; cases "tl (tl g)"; cases "tl (tl (tl g))") (auto simp: numeral_3_eq_3)
    have c: "lend h (s\<lparr>krl_live := l\<rparr>) = s\<lparr>krl_grants := h, krl_live := l\<rparr>" for h l
      by simp
    from look [OF no(1) False] rel [of "krl_live s" g'] False show ?thesis
      by (auto simp: g new_buf_def numeral_3_eq_3 rfs_collapse c)
  qed (rule some)
  show "\<exists>b. (nm, b) \<in> set (entries ents) \<and> rfs_openfileblk (lend g s) p = Inr (Some (rde_mem s b), bump (lend (drop 4 g) s))"
    if no: "fs_files s ents nm \<noteq> None" "False \<notin> set (take 4 g)"
  proof -
    have f3: "False \<notin> set (take 3 g)" using no(2) four by (auto split: if_splits)
    have "new_buf (bump (lend (drop 3 g) s)) = (True, s\<lparr>krl_grants := drop 4 g, krl_live := Suc (Suc (krl_live s))\<rparr>)"
    proof (cases "length g < 4")
      case True
      then show ?thesis by (simp add: new_buf_def)
    next
      case False
      then have "drop 3 g = g ! 3 # drop 4 g" "g ! 3"
        using no(2) four Cons_nth_drop_Suc [of 3 g] by (auto simp: numeral_eq_Suc)
      then show ?thesis by (simp add: new_buf_def)
    qed
    with look [OF no(1) f3] rel [of "Suc (krl_live s)" "drop 4 g"] show ?thesis by auto
  qed
qed

text \<open>
  Opening, by packet: as with all buffers granted, or an error and the disk as it was. A file that is not there is never
  opened.
\<close>

lemma open_lend:
  assumes inv: "fs_inv n R s ents" and p: "path_to nm (on_fname pk)" "nm_ok nm" and pk: "on_acsflgs pk = FSDEV_OPENFLG_OPEFILE"
  shows "(\<exists>g'. rfs_open (lend g s) pk = Inr (DFCERRSTUS, pk, lend g' s)) \<or>
    (fs_files s ents nm \<noteq> None \<and> rfs_open (lend g s) pk = andthen (rfs_open s pk) (\<lambda>(st, pk, s). Inr (st, pk, lend (drop 4 g) s)))"
    and "fs_files s ents nm = None \<or> False \<in> set (take 4 g) \<Longrightarrow> \<exists>g'. rfs_open (lend g s) pk = Inr (DFCERRSTUS, pk, lend g' s)"
proof -
  have pn: "on_fname pk \<noteq> None" using p(1) by (auto simp: path_to_def)
  note o = rfs_open_def rfs_open_file_def
  show err: "\<exists>g'. rfs_open (lend g s) pk = Inr (DFCERRSTUS, pk, lend g' s)"
    if "fs_files s ents nm = None \<or> False \<in> set (take 4 g)"
    using that openfileblk_lend(1,2) [OF inv p, of g] pn pk by (cases "fs_files s ents nm = None") (auto simp: o)
  show "(\<exists>g'. rfs_open (lend g s) pk = Inr (DFCERRSTUS, pk, lend g' s)) \<or>
    (fs_files s ents nm \<noteq> None \<and> rfs_open (lend g s) pk = andthen (rfs_open s pk) (\<lambda>(st, pk, s). Inr (st, pk, lend (drop 4 g) s)))"
  proof (cases "fs_files s ents nm = None \<or> False \<in> set (take 4 g)")
    case False
    then have f: "fs_files s ents nm \<noteq> None" "False \<notin> set (take 4 g)" by simp_all
    from openfileblk_lend(3) [OF inv p f] obtain b where b: "(nm, b) \<in> set (entries ents)"
      "rfs_openfileblk (lend g s) (on_fname pk) = Inr (Some (rde_mem s b), bump (lend (drop 4 g) s))" by blast
    from rfs_openfileblk_ok(2) [OF inv p f(1)] obtain b' where b': "(nm, b') \<in> set (entries ents)"
      "rfs_openfileblk s (on_fname pk) = Inr (Some (rde_mem s b'), bump s)" by blast
    have "b' = b" using fs_invD(3) [OF inv] b(1) b'(1) by (metis eq_key_imp_eq_value)
    with b(2) b'(2) pn pk f(1) show ?thesis by (auto simp: o)
  qed (use err in blast)
qed

text \<open>A session on a file: an error with the disk as it was, or the session as with all buffers granted.\<close>

lemma append_lend:
  assumes inv: "fs_inv n R s ents" and p: "path_to nm p" "nm_ok nm"
  shows "(\<exists>g'. append_file (lend g s) p buf len = Inr (DFCERRSTUS, lend g' s)) \<or>
    (fs_files s ents nm \<noteq> None \<and> append_file (lend g s) p buf len = andthen (append_file s p buf len) (\<lambda>(st, s). Inr (st, lend (drop 4 g) s)))"
proof -
  let ?pk = "(packet p)\<lparr>on_acsflgs := FSDEV_OPENFLG_OPEFILE\<rparr>"
  have pk: "path_to nm (on_fname ?pk)" "on_acsflgs ?pk = FSDEV_OPENFLG_OPEFILE" using p(1) by (simp_all add: packet_def)
  from open_lend(1) [OF inv pk(1) p(2) pk(2), of g] show ?thesis
  proof (elim disjE exE conjE)
    fix g' assume "rfs_open (lend g s) ?pk = Inr (DFCERRSTUS, ?pk, lend g' s)"
    then show ?thesis by (intro disjI1 exI [of _ g']) (simp add: append_file_def)
  next
    assume f: "fs_files s ents nm \<noteq> None"
      and o: "rfs_open (lend g s) ?pk = andthen (rfs_open s ?pk) (\<lambda>(st, pk, s). Inr (st, pk, lend (drop 4 g) s))"
    have "append_file (lend g s) p buf len = andthen (append_file s p buf len) (\<lambda>(st, s). Inr (st, lend (drop 4 g) s))"
    proof (cases "rfs_open s ?pk")
      case (Inr y)
      then show ?thesis
        using o by (cases y) (simp add: append_file_def write_file_lend close_lend andthen_assoc case_prod_beta)
    qed (use o in \<open>simp add: append_file_def\<close>)
    with f show ?thesis by blast
  qed
qed

lemma append_refused:
  assumes disk: "fs_disk n l s m" and nm: "nm_ok nm" and len: "length xs \<le> 4096"
  shows "\<exists>st s'. append_file s (name_path nm) (bytes_of xs) (of_nat (length xs)) = Inr (st, s') \<and>
    (st = DFCERRSTUS \<and> fs_disk n l s' m \<or> st = DFCOKSTUS \<and> (\<exists>d. m nm = Some d \<and> fs_disk n l s' (m(nm \<mapsto> d @ xs))))"
proof -
  let ?s = "lend [] s" and ?ap = "\<lambda>s. append_file s (name_path nm) (bytes_of xs) (of_nat (length xs))"
  have s: "s = lend (krl_grants s) ?s" by simp
  have rep: "fs_rep n l ?s m" using disk by (simp add: fs_disk_def)
  then obtain R ents where inv: "fs_inv n R ?s ents" "m = fs_files ?s ents" by (rule fs_repE)
  from append_lend [OF inv(1) path_to_name_path [OF nm] nm, of "krl_grants s" "bytes_of xs" "of_nat (length xs)"]
  show ?thesis
  proof (elim disjE exE conjE)
    fix g' assume "?ap (lend (krl_grants s) ?s) = Inr (DFCERRSTUS, lend g' ?s)"
    then have "?ap s = Inr (DFCERRSTUS, lend g' s)" by simp
    with disk show ?thesis by (intro exI [of _ DFCERRSTUS] exI [of _ "lend g' s"]) simp
  next
    assume "fs_files ?s ents nm \<noteq> None"
      and a: "?ap (lend (krl_grants s) ?s) = andthen (?ap ?s) (\<lambda>(st, s'). Inr (st, lend (drop 4 (krl_grants s)) s'))"
    then obtain d where d: "m nm = Some d" using inv(2) by auto
    show ?thesis
    proof (cases "length d + length xs < 3584")
      case True
      from store.ap_law [OF rep nm d True] obtain s' where "?ap ?s = Inr (DFCOKSTUS, s')" "fs_rep n l s' (m(nm \<mapsto> d @ xs))" by blast
      with a d show ?thesis
        by (intro exI [of _ DFCOKSTUS] exI [of _ "lend (drop 4 (krl_grants s)) s'"]) (simp add: fs_rep_disk)
    next
      case False
      with store.ap_long [OF rep nm d _ len] have "?ap ?s = Inr (DFCERRSTUS, ?s)" by simp
      with a disk show ?thesis
        by (intro exI [of _ DFCERRSTUS] exI [of _ "lend (drop 4 (krl_grants s)) s"]) simp
    qed
  qed
qed

text \<open>A deletion whose fourth buffer is refused, that for the superblock on the way to the bitmap.\<close>

lemma refused_delete_panics:
  assumes inv: "fs_inv n R s ents" and p: "path_to nm p" "nm_ok nm" and f: "fs_files s ents nm \<noteq> None"
  shows "rfs_del_file (lend (True # True # True # False # g) s) p 0 = Inl (Panic ''rfs del blk err1'')"
proof -
  note d = fs_invD(2) [OF inv] and sb = fs_invD(1) [OF inv]
  from rfs_ret_fname_ok [OF p] obtain fne
    where fn: "rfs_ret_fname (hal_memset 0) p = Inr (0, fne)" "cstr fne 104 0 nm" by blast
  have "nm \<in> fst ` set (entries ents)"
    using f by (simp add: dom_fs_files)
  from dir_find_some [OF d fn(2) this] obtain t b
    where t: "dir_find (rde_mem s R) fne = Inr (Some (512 + 128 * t))" "t < length ents"
      "ents ! t = Some (nm, b)" .
  then have e: "(nm, b) \<in> set (entries ents)"
    by (auto simp: set_entries in_set_conv_nth)
  from fs_invD(7) [OF inv e] have b: "b < n" by (simp add: file_ok_def)
  have "slot_ok (rde_mem s R) (512 + 128 * t) (ents ! t)"
    using d t(2) unfolding dir_ok_def by blast
  then have bk: "ld64 (rde_mem s R) (512 + 128 * t + 16) = of_nat b"
    using t(3) by (simp add: slot_ok_def)
  have "unat (of_nat b :: u64) < 4096"
    using b sb_okD(6) [OF sb] by simp
  then have nb: "\<not> (4096 :: u64) < of_nat b"
    by (simp add: word_less_nat_alt)
  have "\<not> dir_empty (rde_mem s R)"
    using dir_empty_iff [OF d] t(2) by auto
  with t(1) bk nb fn(1) dir_ok_word(3) [OF d] show ?thesis
    by (simp add: rfs_del_file_def rfs_del_dirfileblk_def del_dirfileblk_core_def rootdirfile_lend [OF sb] numeral_3_eq_3
        rfs_del_blk_def get_bitmapblk_def get_superblk_def new_buf_def add.assoc)
qed

end
