(* ===== verification/RfsProps.thy ===== *)
theory RfsProps
  imports RfsDemo RfsRefuse
begin

text \<open>
  The properties of the RAM file system, each with a witness on a concrete device.
\<close>

text \<open>Formatting a device of 3 to 4096 blocks succeeds and leaves an empty file system: the invariant
  holds, no name has a file, exactly the block of the root directory is in use, and every buffer the
  driver took is returned.\<close>

theorem format_empty:
  assumes "dev_ok n s" "krl_grants s = []"
  shows "\<exists>s'. rfs_fmat s = Inr s' \<and> fs_inv n 2 s' [] \<and> fs_files s' [] = Map.empty \<and> used n s' = {2} \<and>
    krl_live s' = krl_live s"
  using formatted_inv [OF assms] by (simp add: rfs_fmat_ok [OF assms]) (simp add: formatted_def)

theorem format_empty_witness:
  "\<exists>s'. rfs_fmat disk = Inr s' \<and> fs_inv 1024 2 s' [] \<and> fs_files s' [] = Map.empty \<and> used 1024 s' = {2} \<and>
    krl_live s' = krl_live disk"
  by (rule format_empty [OF disk_ok(1,2)])

text \<open>C10: creating a file under a new name, with a free slot in the directory and a free block, succeeds:
  the name maps to the empty file, every other file is as before, exactly the first free block becomes used,
  the invariant, which holds only while the memory service grants every buffer (\<open>fs_inv_granted\<close>), is kept and no buffer is
  lost.\<close>

theorem new_file_creates:
  assumes "fs_inv n R s ents" "path_to nm p" "nm_ok nm" "fs_files s ents nm = None"
    and "length ents < 28" "first_free n s r"
  shows "\<exists>s'. rfs_new_file s p = Inr (DFCOKSTUS, s') \<and> fs_inv n R s' (ents @ [Some (nm, r)]) \<and>
    fs_files s' (ents @ [Some (nm, r)]) = (fs_files s ents)(nm \<mapsto> []) \<and>
    used n s' = insert r (used n s) \<and> krl_live s' = krl_live s"
  using rfs_new_file_ok(1) [OF assms(1-6)] created_inv [OF assms(1,3-6)]
    created_files [OF assms(1,6,4)] created_used [OF assms(1,6)]
  by auto

theorem new_file_creates_witness:
  "\<exists>s'. rfs_new_file empty_fs (name_path nmA) = Inr (DFCOKSTUS, s') \<and> fs_inv 1024 2 s' ([] @ [Some (nmA, 3)]) \<and>
    fs_files s' ([] @ [Some (nmA, 3)]) = (fs_files empty_fs [])(nmA \<mapsto> []) \<and>
    used 1024 s' = insert 3 (used 1024 empty_fs) \<and> krl_live s' = krl_live empty_fs"
  by (rule new_file_creates [OF empty_fs_ok(1) path_AB(1) nm_AB(1) _ _ first_free_empty])
    (simp_all add: fs_files_def)

text \<open>C11: deleting an existing file succeeds: the name is gone, every other file is as before, one used block
  becomes free, the invariant, which holds only while the memory service grants every buffer, is kept and no buffer is lost.\<close>

theorem del_file_frees:
  assumes "fs_inv n R s ents" "path_to nm p" "nm_ok nm" "fs_files s ents nm \<noteq> None"
  shows "\<exists>s' ents' b. rfs_del_file s p 0 = Inr (DFCOKSTUS, s') \<and> fs_inv n R s' ents' \<and>
    fs_files s' ents' = (fs_files s ents)(nm := None) \<and> b \<in> used n s \<and> used n s' = used n s - {b} \<and>
    krl_live s' = krl_live s"
proof -
  from rfs_del_file_ok(2) [OF assms] obtain t b where t: "t < length ents" "ents ! t = Some (nm, b)"
    and del: "rfs_del_file s p 0 = Inr (DFCOKSTUS, deleted R s t b)" by blast
  then have "(nm, b) \<in> set (entries ents)"
    by (auto simp: set_entries in_set_conv_nth)
  then have "b \<in> used n s"
    using fs_invD(7) [OF assms(1)] by (auto simp: used_def file_ok_def)
  with del deleted_inv [OF assms(1) t] show ?thesis
    by (metis deleted_live)
qed

theorem del_file_frees_witness:
  "\<exists>s' ents' b. rfs_del_file one_file (name_path nmA) 0 = Inr (DFCOKSTUS, s') \<and> fs_inv 1024 2 s' ents' \<and>
    fs_files s' ents' = (fs_files one_file [Some (nmA, 3)])(nmA := None) \<and> b \<in> used 1024 one_file \<and>
    used 1024 s' = used 1024 one_file - {b} \<and> krl_live s' = krl_live one_file"
  by (rule del_file_frees [OF one_file_ok(1) path_AB(1) nm_AB(1)]) (simp add: one_file_ok(2))

text \<open>C9: what was appended to a file in one session (open, write, close) is what a later session (open, read,
  close) returns, after what the file held before, as long as every buffer is granted (\<open>fs_rep_disk\<close>).\<close>

theorem append_then_get:
  assumes "fs_rep n l s m" "nm_ok nm" "m nm = Some d" "length d + length xs < 3584"
  shows "\<exists>s'. append_file s (name_path nm) (bytes_of xs) (of_nat (length xs)) = Inr (DFCOKSTUS, s') \<and>
    rfs_get s' nm (length d + length xs) = Inr (DFCOKSTUS, d @ xs, s') \<and> fs_rep n l s' (m(nm \<mapsto> d @ xs))"
proof -
  from store.ap_law [OF assms] obtain s' where
    s': "append_file s (name_path nm) (bytes_of xs) (of_nat (length xs)) = Inr (DFCOKSTUS, s')"
    "fs_rep n l s' (m(nm \<mapsto> d @ xs))" by blast
  with store.get_law [OF s'(2) assms(2), of "d @ xs" "length d + length xs"] assms(4) show ?thesis
    by simp
qed

theorem append_then_get_witness:
  "\<exists>s'. append_file one_file (name_path nmA) (bytes_of [1, 2, 3]) (of_nat (length [1, 2, 3 :: u8])) = Inr (DFCOKSTUS, s') \<and>
    rfs_get s' nmA (length ([] :: u8 list) + length [1, 2, 3 :: u8]) = Inr (DFCOKSTUS, [] @ [1, 2, 3], s') \<and>
    fs_rep 1024 0 s' ([nmA \<mapsto> []](nmA \<mapsto> [] @ [1, 2, 3]))"
  by (rule append_then_get [OF one_file_ok(3) nm_AB(1)]) simp_all

text \<open>C8: refinement. As long as the kernel memory service refuses no buffer, every sequence of create, delete and append
  commands sent to the driver ends without a panic or a wild access, with statuses and a final state that the abstract file
  store (a map from names to contents) allows for the same sequence, and with no buffer lost.\<close>

theorem driver_refines_store:
  assumes "fs_disk n l s m" "krl_grants s = []" "list_all cmd_ok cs"
  shows "\<exists>sts s' m'. do_all rfs_cmd cs s = Inr (sts, s') \<and> abs_run m cs sts m' \<and> fs_disk n l s' m' \<and> krl_grants s' = []"
proof -
  have "fs_rep n l s m" using assms(1,2) by (simp add: fs_rep_disk)
  from store.run_refines [OF this assms(3)] show ?thesis
    unfolding rfs_cmd_def by (auto simp: fs_rep_disk)
qed

theorem driver_refines_store_witness:
  "\<exists>sts s' m'. do_all rfs_cmd [Create nmA, Append nmA [1, 2], Create nmB, Delete nmA] empty_fs = Inr (sts, s') \<and>
    abs_run Map.empty [Create nmA, Append nmA [1, 2], Create nmB, Delete nmA] sts m' \<and> fs_disk 1024 0 s' m' \<and> krl_grants s' = []"
  by (rule driver_refines_store) (use empty_fs_ok(2) in \<open>simp_all add: fs_rep_disk\<close>)

text \<open>What a refused buffer does. Appending reports an error and leaves every file as it was, or does its work, whatever the
  answers of the memory service.\<close>

theorem append_under_refusals:
  assumes "fs_disk n l s m" "nm_ok nm" "length xs \<le> 4096"
  shows "\<exists>st s'. append_file s (name_path nm) (bytes_of xs) (of_nat (length xs)) = Inr (st, s') \<and>
    (st = DFCERRSTUS \<and> fs_disk n l s' m \<or> st = DFCOKSTUS \<and> (\<exists>d. m nm = Some d \<and> fs_disk n l s' (m(nm \<mapsto> d @ xs))))"
  by (rule append_refused [OF assms])

theorem append_under_refusals_witness:
  "\<exists>st s'. append_file (lend [True, False] one_file) (name_path nmA) (bytes_of [1]) (of_nat (length [1 :: u8])) = Inr (st, s') \<and>
    (st = DFCERRSTUS \<and> fs_disk 1024 0 s' [nmA \<mapsto> []] \<or>
     st = DFCOKSTUS \<and> (\<exists>d. [nmA \<mapsto> []] nmA = Some d \<and> fs_disk 1024 0 s' ([nmA \<mapsto> []](nmA \<mapsto> d @ [1]))))"
  by (rule append_under_refusals) (use one_file_ok(3) in \<open>simp_all add: fs_rep_disk\<close>)

text \<open>Deleting a file that exists stops the machine when the fourth buffer of the request, the one for the superblock on the way
  to the bitmap, is refused.\<close>

theorem delete_refused_panics:
  assumes "fs_inv n R s ents" "path_to nm p" "nm_ok nm" "fs_files s ents nm \<noteq> None"
  shows "rfs_del_file (lend (True # True # True # False # g) s) p 0 = Inl (Panic ''rfs del blk err1'')"
  by (rule refused_delete_panics [OF assms])

theorem delete_refused_panics_witness:
  "rfs_del_file (lend [True, True, True, False] one_file) (name_path nmA) 0 = Inl (Panic ''rfs del blk err1'')"
  by (rule delete_refused_panics [OF one_file_ok(1) path_AB(1) nm_AB(1)]) (simp add: one_file_ok(2))

text \<open>A file is not touched by commands on other names: after any sequence of them it reads back
  unchanged.\<close>

theorem other_files_untouched:
  assumes "fs_rep n l s m" "list_all cmd_ok cs" "nm_ok nm" "nm \<notin> cmd_name ` set cs" "m nm = Some d"
    and "length d < 3584"
  shows "\<exists>sts s'. do_all rfs_cmd cs s = Inr (sts, s') \<and> rfs_get s' nm (length d) = Inr (DFCOKSTUS, d, s')"
  unfolding rfs_cmd_def by (rule store.isolation [OF assms])

theorem other_files_untouched_witness:
  "\<exists>sts s'. do_all rfs_cmd [Create nmB, Append nmB [7]] one_file = Inr (sts, s') \<and>
    rfs_get s' nmA (length ([] :: u8 list)) = Inr (DFCOKSTUS, [], s')"
  by (rule other_files_untouched [OF one_file_ok(3) _ nm_AB(1)]) simp_all

text \<open>The path check accepts exactly a slash followed by a name of 1 to 102 characters without a slash, and
  the name is then copied whole, terminator included, into the caller's 104 bytes.\<close>

theorem path_check_exact:
  assumes "cstr m n 0 (c # nm)" "nm \<noteq> []"
  shows "(rfs_chkfilepath m n = Inr 0 \<longleftrightarrow> c = 47 \<and> nm_ok nm) \<and>
    (c = 47 \<and> nm_ok nm \<longrightarrow> (\<exists>fne. rfs_ret_fname buf (Some (m, n)) = Inr (0, fne) \<and> cstr fne 104 0 nm))"
proof
  have "0 \<notin> set nm" "1 \<le> length nm"
    using assms by (cases nm; simp add: cstr_def)+
  then have "nm_ok nm \<longleftrightarrow> 47 \<notin> set (take 104 nm) \<and> length nm < 103"
    by (cases "length nm < 103") (auto simp: nm_ok_def)
  then show "rfs_chkfilepath m n = Inr 0 \<longleftrightarrow> c = 47 \<and> nm_ok nm"
    using rfs_chkfilepath_eq [OF assms] by auto
  show "c = 47 \<and> nm_ok nm \<longrightarrow> (\<exists>fne. rfs_ret_fname buf (Some (m, n)) = Inr (0, fne) \<and> cstr fne 104 0 nm)"
    using assms(1) by (auto intro!: rfs_ret_fname_ok simp: path_to_def)
qed

theorem path_check_exact_witness:
  "rfs_chkfilepath (put_str (hal_memset 0) 0 (47 # nmB)) 5 = Inr 0 \<and>
    (\<exists>fne. rfs_ret_fname (hal_memset 0) (Some (put_str (hal_memset 0) 0 (47 # nmB), 5)) = Inr (0, fne) \<and>
       cstr fne 104 0 nmB)"
  using path_check_exact [of "put_str (hal_memset 0) 0 (47 # nmB)" 5 47 nmB "hal_memset 0"]
  by (simp add: cstr_put_str nmB_def nm_ok_def)

text \<open>C13: the path \<open>/\<close> alone is not rejected where it ends: the check skips the terminator and reads the byte
  after it. Where the string's memory ends there that is a wild read; where a zero byte follows, the path is
  accepted although the name is empty.\<close>

theorem path_slash_overread:
  assumes "m 0 = 47" "m 1 = 0"
  shows "rfs_chkfilepath m 2 = Inl Fault \<and> (m 2 = 0 \<longrightarrow> rfs_chkfilepath m 3 = Inr 0)"
  using assms by (simp add: rfs_chkfilepath_def chkfilepath_loop.simps)

theorem path_slash_overread_witness:
  "rfs_chkfilepath (put_str (hal_memset 0) 0 [47]) 2 = Inl Fault \<and>
    rfs_chkfilepath (put_str (hal_memset 0) 0 [47]) 3 = Inr 0"
  using path_slash_overread [of "put_str (hal_memset 0) 0 [47]"]
  by (simp add: put_str_def hal_memset_def)

text \<open>C14: creating a file when all 28 slots of the directory are taken reports the error, changes no file and
  loses no buffer, but leaves the block it had taken marked as used.\<close>

theorem full_dir_leaks_block:
  assumes "fs_inv n R s ents" "path_to nm p" "nm_ok nm" "fs_files s ents nm = None"
    and "length ents = 28" "first_free n s r"
  shows "\<exists>s'. rfs_new_file s p = Inr (DFCERRSTUS, s') \<and> fs_inv n R s' ents \<and>
    fs_files s' ents = fs_files s ents \<and> used n s' = insert r (used n s) \<and> r \<notin> used n s \<and> krl_live s' = krl_live s"
  using new_file_dir_full [OF assms] leak_inv [OF assms(1,6)] assms(6)
  by (auto simp: used_def first_free_def)

theorem full_dir_leaks_block_witness:
  "\<exists>s ents s'. rfs_new_file s (name_path (nmk 50)) = Inr (DFCERRSTUS, s') \<and> fs_inv 1024 2 s' ents \<and>
    fs_files s' ents = fs_files s ents \<and> used 1024 s' = insert 31 (used 1024 s) \<and> 31 \<notin> used 1024 s \<and>
    krl_live s' = krl_live s"
proof -
  obtain s ents where s: "fs_inv 1024 2 s ents" "length ents = 28" "fst ` set (entries ents) = nmk ` {..<28}"
    "used 1024 s = {2..<31}"
    using fill_dir [of 28] by auto
  have new: "fs_files s ents (nmk 50) = None"
    by (simp add: dom_fs_files s(3)) (auto simp: nmk_inj)
  have "31 \<notin> used 1024 s" "\<And>j. 2 \<le> j \<Longrightarrow> j < 31 \<Longrightarrow> j \<in> used 1024 s"
    unfolding s(4) by simp_all
  then have "first_free 1024 s 31"
    by (auto simp: first_free_def used_def)
  from full_dir_leaks_block [OF s(1) path_to_name_path [OF nmk_ok] nmk_ok new s(2) this]
  show ?thesis by auto
qed



text \<open>When the second buffer of a bitmap access is refused, the block allocation reports that there is no
  block and one buffer, the copy of the superblock, is never returned.\<close>

theorem bitmap_buffer_lost:
  assumes "dev_ok n s" "krl_grants s = True # False # gs"
  shows "rfs_new_blk s = Inr (0, s\<lparr>krl_grants := gs, krl_live := Suc (krl_live s)\<rparr>)"
  using assms dev_bounds [OF assms(1)]
  by (simp add: rfs_new_blk_def get_bitmapblk_def get_superblk_def new_buf_def read_blk [of n])

theorem bitmap_buffer_lost_witness:
  "rfs_new_blk (disk\<lparr>krl_grants := [True, False]\<rparr>) =
     Inr (0, disk\<lparr>krl_grants := [], krl_live := Suc (krl_live disk)\<rparr>)"
  using bitmap_buffer_lost [of 1024 "disk\<lparr>krl_grants := [True, False]\<rparr>" "[]"] disk_ok(1) by simp

end
