(* ===== verification/Sched.thy ===== *)
theory Sched
  imports CPrelude
begin

text \<open>
  Threads, the scheduler and the waiting lists: \<open>kernel/krlsched.c\<close>, \<open>kernel/krlwaitlist.c\<close>,
  \<open>kernel/krlsem.c\<close>, \<open>kernel/krlthread.c\<close> and their headers, for the one processor the kernel is built for
  (\<open>CPUCORE_MAX\<close> is 1). The spin locks disable interrupts around what each function does to the shared state;
  a step of the model is one such function. A switch is the change of \<open>sda_currtd\<close>.
\<close>

section \<open>Constants\<close>

definition TDSTUS_RUN :: u64 where "TDSTUS_RUN = 0"
definition TDSTUS_WAIT :: u64 where "TDSTUS_WAIT = 4"
definition TDSTUS_NEW :: u64 where "TDSTUS_NEW = 5"
definition TDSTUS_EXIT :: u64 where "TDSTUS_EXIT = 12"
definition TDFLAG_FREE :: u64 where "TDFLAG_FREE = 1"
definition TDRUN_TICK :: u64 where "TDRUN_TICK = 20"
definition PRITY_MAX :: nat where [simp]: "PRITY_MAX = 64"
definition PRITY_MIN :: u64 where "PRITY_MIN = 0"
definition PRILG_SYS :: u64 where "PRILG_SYS = 0"
definition PRILG_USR :: u64 where "PRILG_USR = 5"
definition THREAD_NAME_MAX :: nat where [simp]: "THREAD_NAME_MAX = 64"
definition KERNTHREAD_FLG :: u64 where "KERNTHREAD_FLG = 0"
definition USERTHREAD_FLG :: u64 where "USERTHREAD_FLG = 3"
definition DAFT_TDUSRSTKSZ :: u64 where "DAFT_TDUSRSTKSZ = 0x8000"
definition DAFT_TDKRLSTKSZ :: u64 where "DAFT_TDKRLSTKSZ = 0x8000"
definition TD_HAND_MAX :: nat where [simp]: "TD_HAND_MAX = 8"
definition K_CS_IDX :: u64 where "K_CS_IDX = 0x08"
definition K_DS_IDX :: u64 where "K_DS_IDX = 0x10"
definition U_CS_IDX :: u64 where "U_CS_IDX = 0x1b"
definition U_DS_IDX :: u64 where "U_DS_IDX = 0x23"
definition UMOD_EFLAGS :: u64 where "UMOD_EFLAGS = 0x1202"
definition KMOD_EFLAGS :: u64 where "KMOD_EFLAGS = 0x202"
definition NO_HAND :: int where "NO_HAND = - 1"
definition NOTS_SCHED_FLGS :: u64 where "NOTS_SCHED_FLGS = 0"
definition NEED_SCHED_FLGS :: u64 where "NEED_SCHED_FLGS = 1"
definition NEED_START_CPUILDE_SCHED_FLGS :: u64 where "NEED_START_CPUILDE_SCHED_FLGS = 2"
definition PMPT_FLGS :: u64 where "PMPT_FLGS = 0"
definition CPUCORE_MAX :: u64 where "CPUCORE_MAX = 1"

lemmas status_defs = TDSTUS_RUN_def TDSTUS_WAIT_def TDSTUS_NEW_def TDSTUS_EXIT_def

lemma status_distinct [simp]:
  "TDSTUS_RUN \<noteq> TDSTUS_WAIT" "TDSTUS_WAIT \<noteq> TDSTUS_RUN" "TDSTUS_NEW \<noteq> TDSTUS_WAIT" "TDSTUS_WAIT \<noteq> TDSTUS_NEW"
  "TDSTUS_EXIT \<noteq> TDSTUS_RUN" "TDSTUS_EXIT \<noteq> TDSTUS_NEW" "TDSTUS_EXIT \<noteq> TDSTUS_WAIT" "TDSTUS_RUN \<noteq> TDSTUS_EXIT"
  "TDSTUS_NEW \<noteq> TDSTUS_EXIT" "TDSTUS_WAIT \<noteq> TDSTUS_EXIT" "TDSTUS_RUN \<noteq> TDSTUS_NEW" "TDSTUS_NEW \<noteq> TDSTUS_RUN"
  by (simp_all add: status_defs)

section \<open>Data\<close>

text \<open>A \<open>thread_t*\<close> is the address of the thread, \<open>None\<close> is \<open>NULL\<close>; address spaces are numbered, 0 is
  \<open>initmmadrsdsc\<close>; an \<open>objnode_t*\<close> in the handle table is its address.\<close>

type_synonym tid = u64

record thd_context =
  ctx_nextrip :: u64
  ctx_nextrsp :: u64
  ctx_nexttss :: u64

record thread =
  td_flgs :: u64
  td_stus :: u64
  td_cpuid :: u64
  td_id :: u64
  td_tick :: u64
  td_sumtick :: u64
  td_privilege :: u64
  td_priority :: u64
  td_runmode :: u64
  td_krlstktop :: u64
  td_krlstkstart :: u64
  td_usrstktop :: u64
  td_usrstkstart :: u64
  td_mmdsc :: nat
  td_appfilenm :: "u8 list option"
  td_appfilenmlen :: u64
  td_context :: thd_context
  td_handtbl :: "u64 option list"
  td_name :: "u8 list"

text \<open>The register frame \<open>intstkregs_t\<close> on a kernel stack, 24 words of 8 bytes.\<close>

record intstkregs =
  r_gs :: u64
  r_fs :: u64
  r_es :: u64
  r_ds :: u64
  r_r15 :: u64
  r_r14 :: u64
  r_r13 :: u64
  r_r12 :: u64
  r_r11 :: u64
  r_r10 :: u64
  r_r9 :: u64
  r_r8 :: u64
  r_rdi :: u64
  r_rsi :: u64
  r_rbp :: u64
  r_rdx :: u64
  r_rcx :: u64
  r_rbx :: u64
  r_rax :: u64
  r_rip_old :: u64
  r_cs_old :: u64
  r_rflgs :: u64
  r_rsp_old :: u64
  r_ss_old :: u64

definition zero_frame :: intstkregs where
  "zero_frame = \<lparr>r_gs = 0, r_fs = 0, r_es = 0, r_ds = 0, r_r15 = 0, r_r14 = 0, r_r13 = 0, r_r12 = 0,
     r_r11 = 0, r_r10 = 0, r_r9 = 0, r_r8 = 0, r_rdi = 0, r_rsi = 0, r_rbp = 0, r_rdx = 0, r_rcx = 0,
     r_rbx = 0, r_rax = 0, r_rip_old = 0, r_cs_old = 0, r_rflgs = 0, r_rsp_old = 0, r_ss_old = 0\<rparr>"

record thrdlst =
  tdl_lsth :: "tid list"
  tdl_curruntd :: "tid option"
  tdl_nr :: u64

record kwlst =
  wl_tdnr :: u64
  wl_list :: "tid list"

record sem =
  sem_flg :: u64
  sem_count :: int
  sem_waitlst :: kwlst

text \<open>
  The state of the one processor's scheduler (\<open>schdata_t\<close> and the totals of \<open>schedclass_t\<close>), the threads, the
  semaphores, the register frames on the kernel stacks, and what the context switch sets: the kernel stack
  in the TSS and the address space loaded.
\<close>

record kst =
  scls_cpunr :: u64
  scls_threadnr :: u64
  scls_threadid_inc :: u64
  sda_cpuid :: u64
  sda_schdflgs :: u64
  sda_premptidx :: u64
  sda_threadnr :: u64
  sda_prityidx :: u64
  sda_cpuidle :: "tid option"
  sda_currtd :: "tid option"
  sda_thdlst :: "thrdlst list"
  sda_exitlist :: "tid list"
  threads :: "tid \<Rightarrow> thread option"
  sems :: "sem list"
  kframes :: "u64 \<Rightarrow> intstkregs option"
  tss_rsp0 :: u64
  cur_mm :: nat

section \<open>Initial values\<close>

definition hal_retn_cpuid :: u64 where "hal_retn_cpuid = 0"

definition context_t_init :: thd_context where
  "context_t_init = \<lparr>ctx_nextrip = 0, ctx_nextrsp = 0, ctx_nexttss = hal_retn_cpuid\<rparr>"

definition krlretn_thread_id :: "tid \<Rightarrow> u64" where
  "krlretn_thread_id tdp = tdp"

definition thread_t_init :: "tid \<Rightarrow> thread" where
  "thread_t_init initp = \<lparr>td_flgs = TDFLAG_FREE, td_stus = TDSTUS_NEW, td_cpuid = hal_retn_cpuid,
     td_id = krlretn_thread_id initp, td_tick = 0, td_sumtick = 0, td_privilege = PRILG_USR,
     td_priority = PRITY_MIN, td_runmode = 0, td_krlstktop = 0, td_krlstkstart = 0, td_usrstktop = 0,
     td_usrstkstart = 0, td_mmdsc = 0, td_appfilenm = None, td_appfilenmlen = 0,
     td_context = context_t_init, td_handtbl = replicate TD_HAND_MAX None, td_name = []\<rparr>"

definition thrdlst_t_init :: thrdlst where
  "thrdlst_t_init = \<lparr>tdl_lsth = [], tdl_curruntd = None, tdl_nr = 0\<rparr>"

definition kwlst_t_init :: kwlst where
  "kwlst_t_init = \<lparr>wl_tdnr = 0, wl_list = []\<rparr>"

definition krlsem_t_init :: sem where
  "krlsem_t_init = \<lparr>sem_flg = 0, sem_count = 0, sem_waitlst = kwlst_t_init\<rparr>"

definition schdata_t_init :: "kst \<Rightarrow> kst" where
  "schdata_t_init s = s\<lparr>sda_cpuid := hal_retn_cpuid, sda_schdflgs := NOTS_SCHED_FLGS, sda_premptidx := 0,
     sda_threadnr := 0, sda_prityidx := 0, sda_cpuidle := None, sda_currtd := None,
     sda_thdlst := replicate PRITY_MAX thrdlst_t_init, sda_exitlist := []\<rparr>"

definition schedclass_t_init :: "kst \<Rightarrow> kst" where
  "schedclass_t_init s = schdata_t_init (s\<lparr>scls_cpunr := CPUCORE_MAX, scls_threadnr := 0, scls_threadid_inc := 0\<rparr>)"

definition init_krlsched :: "kst \<Rightarrow> kst" where
  "init_krlsched s = schedclass_t_init s"

section \<open>Lists of threads\<close>

text \<open>
  A thread has one link, \<open>td_list\<close>, so it is on at most one list: a ready list, the list of exited threads or
  the waiting list of a semaphore. \<open>list_del\<close> takes it off its list and does nothing to a thread
  that is on none (it leaves the link pointing at itself); adding a thread that is on a list already would
  corrupt that list and is a fault.
\<close>

datatype listid = Ready nat | Exited | Waiting nat

definition get_list :: "listid \<Rightarrow> kst \<Rightarrow> tid list" where
  "get_list l s = (case l of Ready p \<Rightarrow> tdl_lsth (sda_thdlst s ! p) | Exited \<Rightarrow> sda_exitlist s
     | Waiting w \<Rightarrow> wl_list (sem_waitlst (sems s ! w)))"

definition set_list :: "listid \<Rightarrow> tid list \<Rightarrow> kst \<Rightarrow> kst" where
  "set_list l xs s = (case l of
       Ready p \<Rightarrow> s\<lparr>sda_thdlst := (sda_thdlst s)[p := (sda_thdlst s ! p)\<lparr>tdl_lsth := xs\<rparr>]\<rparr>
     | Exited \<Rightarrow> s\<lparr>sda_exitlist := xs\<rparr>
     | Waiting w \<Rightarrow> s\<lparr>sems := (sems s)[w := (sems s ! w)
         \<lparr>sem_waitlst := (sem_waitlst (sems s ! w))\<lparr>wl_list := xs\<rparr>\<rparr>]\<rparr>)"

definition linked :: "tid \<Rightarrow> kst \<Rightarrow> bool" where
  "linked t s \<longleftrightarrow> list_ex (\<lambda>l. t \<in> set (tdl_lsth l)) (sda_thdlst s) \<or> t \<in> set (sda_exitlist s) \<or>
     list_ex (\<lambda>m. t \<in> set (wl_list (sem_waitlst m))) (sems s)"

definition td_list_add :: "tid \<Rightarrow> listid \<Rightarrow> kst \<Rightarrow> kst run" where
  "td_list_add t l s = (if linked t s then Inl Fault else Inr (set_list l (t # get_list l s) s))"

definition td_list_add_tail :: "tid \<Rightarrow> listid \<Rightarrow> kst \<Rightarrow> kst run" where
  "td_list_add_tail t l s = (if linked t s then Inl Fault else Inr (set_list l (get_list l s @ [t]) s))"

definition td_list_del :: "tid \<Rightarrow> kst \<Rightarrow> kst" where
  "td_list_del t s = s
    \<lparr>sda_thdlst := map (\<lambda>l. l\<lparr>tdl_lsth := remove1 t (tdl_lsth l)\<rparr>) (sda_thdlst s),
     sda_exitlist := remove1 t (sda_exitlist s),
     sems := map (\<lambda>m. m\<lparr>sem_waitlst := (sem_waitlst m)\<lparr>wl_list := remove1 t (wl_list (sem_waitlst m))\<rparr>\<rparr>) (sems s)\<rparr>"

text \<open>Access through a thread pointer, and to the ready list of a priority.\<close>

definition td :: "kst \<Rightarrow> tid \<Rightarrow> thread run" where
  "td s t = (case threads s t of None \<Rightarrow> Inl Fault | Some h \<Rightarrow> Inr h)"

definition upd_td :: "tid \<Rightarrow> (thread \<Rightarrow> thread) \<Rightarrow> kst \<Rightarrow> kst" where
  "upd_td t f s = s\<lparr>threads := (threads s)(t := map_option f (threads s t))\<rparr>"

definition upd_lst :: "nat \<Rightarrow> (thrdlst \<Rightarrow> thrdlst) \<Rightarrow> kst \<Rightarrow> kst" where
  "upd_lst p f s = s\<lparr>sda_thdlst := (sda_thdlst s)[p := f (sda_thdlst s ! p)]\<rparr>"

definition upd_wl :: "nat \<Rightarrow> (kwlst \<Rightarrow> kwlst) \<Rightarrow> kst \<Rightarrow> kst" where
  "upd_wl w f s = s\<lparr>sems := (sems s)[w := (sems s ! w)\<lparr>sem_waitlst := f (sem_waitlst (sems s ! w))\<rparr>]\<rparr>"

section \<open>Waiting lists\<close>

text \<open>A \<open>kwlst_t*\<close> is \<open>None\<close> or the number of the semaphore the waiting list is part of.\<close>

definition krlwlst_add_thread :: "nat \<Rightarrow> tid \<Rightarrow> kst \<Rightarrow> kst run" where
  "krlwlst_add_thread w tdp s = andthen (td_list_add tdp (Waiting w) s) (\<lambda>s.
     Inr (upd_wl w (\<lambda>l. l\<lparr>wl_tdnr := wl_tdnr l + 1\<rparr>) s))"

definition krlwlst_del_thread :: "nat \<Rightarrow> kst \<Rightarrow> tid option \<times> kst" where
  "krlwlst_del_thread w s = (case get_list (Waiting w) s of
       [] \<Rightarrow> (None, s)
     | tdp # _ \<Rightarrow>
         if wl_tdnr (sem_waitlst (sems s ! w)) < 1 then (None, s)
         else (Some tdp, upd_wl w (\<lambda>l. l\<lparr>wl_tdnr := wl_tdnr l - 1\<rparr>) (td_list_del tdp s)))"

section \<open>The scheduler\<close>

definition krlsched_retn_currthread :: "kst \<Rightarrow> tid run" where
  "krlsched_retn_currthread s = (case sda_currtd s of
       None \<Rightarrow> Inl (Panic ''schdap->sda_currtd NULL'') | Some t \<Rightarrow> Inr t)"

definition krlsched_retn_schedflgs :: "kst \<Rightarrow> u64" where
  "krlsched_retn_schedflgs s = sda_schdflgs s"

definition krlsched_wait :: "nat option \<Rightarrow> kst \<Rightarrow> kst run" where
  "krlsched_wait wlst s =
     andthen (krlsched_retn_currthread s) (\<lambda>tdp.
     andthen (td s tdp) (\<lambda>h.
       let pity = unat (td_priority h) in
       case wlst of
         None \<Rightarrow> Inl (Panic ''krlsched_wait err'')
       | Some w \<Rightarrow>
           if length (sems s) \<le> w then Inl Fault
           else if PRITY_MAX \<le> pity then Inl (Panic ''krlsched_wait err'')
           else if tdl_nr (sda_thdlst s ! pity) < 1 then Inl (Panic ''krlsched_wait err'')
           else
             let s = upd_td tdp (\<lambda>h. h\<lparr>td_stus := TDSTUS_WAIT\<rparr>) s;
                 s = td_list_del tdp s;
                 s = upd_lst pity (\<lambda>l. if tdl_curruntd l = Some tdp then l\<lparr>tdl_curruntd := None\<rparr> else l) s;
                 s = upd_lst pity (\<lambda>l. l\<lparr>tdl_nr := tdl_nr l - 1\<rparr>) s
             in krlwlst_add_thread w tdp s))"

definition krlsched_up :: "nat option \<Rightarrow> kst \<Rightarrow> kst run" where
  "krlsched_up wlst s = (case wlst of
       None \<Rightarrow> Inl (Panic ''krlsched_up err'')
     | Some w \<Rightarrow> if length (sems s) \<le> w then Inl Fault else (case krlwlst_del_thread w s of
           (None, s) \<Rightarrow> Inl (Panic ''krlsched_up err'')
         | (Some tdp, s) \<Rightarrow> andthen (td s tdp) (\<lambda>h.
             let pity = unat (td_priority h) in
             if PRITY_MAX \<le> pity then Inl (Panic ''krlsched_up err'')
             else andthen (td_list_add_tail tdp (Ready pity) (upd_td tdp (\<lambda>h. h\<lparr>td_stus := TDSTUS_RUN\<rparr>) s)) (\<lambda>s.
               Inr (upd_lst pity (\<lambda>l. l\<lparr>tdl_nr := tdl_nr l + 1\<rparr>) s)))))"

definition krlsched_retn_idlethread :: "kst \<Rightarrow> tid run" where
  "krlsched_retn_idlethread s = (case sda_cpuidle s of
       None \<Rightarrow> Inl (Panic ''schdap->sda_cpuidle NULL'') | Some t \<Rightarrow> Inr t)"

definition krlsched_set_schedflgs :: "kst \<Rightarrow> kst" where
  "krlsched_set_schedflgs s = s\<lparr>sda_schdflgs := NEED_SCHED_FLGS\<rparr>"

definition krlsched_set_schedflgs_ex :: "u64 \<Rightarrow> kst \<Rightarrow> kst" where
  "krlsched_set_schedflgs_ex flags s = s\<lparr>sda_schdflgs := flags\<rparr>"

text \<open>The inner loop of \<open>krlsched_select_thread\<close>: the first thread of the list that can run.\<close>

fun first_runnable :: "kst \<Rightarrow> tid list \<Rightarrow> tid option run" where
  "first_runnable s [] = Inr None"
| "first_runnable s (t # ts) = andthen (td s t) (\<lambda>h.
     if td_stus h = TDSTUS_RUN \<or> td_stus h = TDSTUS_NEW then Inr (Some t) else first_runnable s ts)"

text \<open>The outer loop, from priority \<open>pity\<close> on.\<close>

function select_loop :: "nat \<Rightarrow> kst \<Rightarrow> (tid \<times> kst) run" where
  "select_loop pity s =
     (if pity < PRITY_MAX then
        andthen (first_runnable s (tdl_lsth (sda_thdlst s ! pity))) (\<lambda>r. case r of
            Some tdtmp \<Rightarrow>
              let s = td_list_del tdtmp s in
              andthen (case tdl_curruntd (sda_thdlst s ! pity) of
                  None \<Rightarrow> Inr s
                | Some cur \<Rightarrow> td_list_add_tail cur (Ready pity) s) (\<lambda>s.
              Inr (tdtmp, upd_lst pity (\<lambda>l. l\<lparr>tdl_curruntd := Some tdtmp\<rparr>) s))
          | None \<Rightarrow> (case tdl_curruntd (sda_thdlst s ! pity) of
                Some cur \<Rightarrow> Inr (cur, s)
              | None \<Rightarrow> select_loop (Suc pity) s))
      else
        andthen (krlsched_retn_idlethread s) (\<lambda>idle. Inr (idle, s\<lparr>sda_prityidx := PRITY_MIN\<rparr>)))"
  by auto
termination by (relation "measure (\<lambda>(pity, s). PRITY_MAX - pity)") auto

declare select_loop.simps [simp del]

definition krlsched_select_thread :: "kst \<Rightarrow> (tid \<times> kst) run" where
  "krlsched_select_thread s = select_loop 0 s"

text \<open>
  The switch to \<open>next\<close>: \<open>save_to_new_context\<close> saves the registers on the old stack and takes those of \<open>next\<close>,
  which is what \<open>sda_currtd\<close> becomes; a new thread starts from the frame on its stack.
\<close>

definition to_new_context :: "tid \<Rightarrow> kst \<Rightarrow> kst run" where
  "to_new_context nxt s = andthen (td s nxt) (\<lambda>h.
     let s = s\<lparr>sda_currtd := Some nxt, tss_rsp0 := td_krlstktop h, cur_mm := td_mmdsc h\<rparr>;
         s = upd_td nxt (\<lambda>h. h\<lparr>td_context := (td_context h)\<lparr>ctx_nexttss := hal_retn_cpuid\<rparr>\<rparr>) s
     in Inr (if td_stus h = TDSTUS_NEW then upd_td nxt (\<lambda>h. h\<lparr>td_stus := TDSTUS_RUN\<rparr>) s else s))"

definition krlschedul :: "kst \<Rightarrow> kst run" where
  "krlschedul s =
     (if krlsched_retn_schedflgs s = NEED_START_CPUILDE_SCHED_FLGS
      then let s = krlsched_set_schedflgs_ex NOTS_SCHED_FLGS s in
        andthen (krlsched_retn_idlethread s) (\<lambda>idle. Inr s)
      else
        andthen (krlsched_retn_currthread s) (\<lambda>prev.
        andthen (krlsched_select_thread s) (\<lambda>(nxt, s). to_new_context nxt s)))"

definition krlsched_chkneed_pmptsched :: "kst \<Rightarrow> kst run" where
  "krlsched_chkneed_pmptsched s =
     (let need = (sda_schdflgs s = NEED_SCHED_FLGS \<and> sda_premptidx s = PMPT_FLGS);
          s = (if need then s\<lparr>sda_schdflgs := NOTS_SCHED_FLGS\<rparr> else s);
          schd = (need \<or> sda_schdflgs s = NEED_START_CPUILDE_SCHED_FLGS)
      in if schd then krlschedul s else Inr s)"

definition krlschdclass_del_thread_addexit :: "tid \<Rightarrow> kst \<Rightarrow> kst run" where
  "krlschdclass_del_thread_addexit thdp s = andthen (td s thdp) (\<lambda>h.
     let pity = unat (td_priority h) in
     if PRITY_MAX \<le> pity then Inl Fault
     else
       let s = upd_lst pity (\<lambda>l. l\<lparr>tdl_nr := tdl_nr l - 1\<rparr>) s;
           s = s\<lparr>sda_threadnr := sda_threadnr s - 1\<rparr>;
           s = upd_lst pity (\<lambda>l. if tdl_curruntd l = Some thdp then l\<lparr>tdl_curruntd := None\<rparr> else l) s;
           s = td_list_del thdp s;
           s = upd_td thdp (\<lambda>h. h\<lparr>td_stus := TDSTUS_EXIT\<rparr>) s
       in td_list_add thdp Exited s)"

definition krlsched_exit :: "kst \<Rightarrow> kst run" where
  "krlsched_exit s =
     andthen (krlsched_retn_currthread s) (\<lambda>tdp.
     andthen (krlsched_retn_idlethread s) (\<lambda>idle.
     if tdp = idle then Inl (Panic ''krlsched_exit'')
     else andthen (td s tdp) (\<lambda>h.
       let pity = unat (td_priority h) in
       if PRITY_MAX \<le> pity then Inl (Panic ''krlsched_wait err'')
       else if tdl_nr (sda_thdlst s ! pity) < 1 then Inl (Panic ''krlsched_wait err'')
       else krlschdclass_del_thread_addexit tdp s)))"

definition krlschdclass_add_thread :: "tid \<Rightarrow> kst \<Rightarrow> kst run" where
  "krlschdclass_add_thread thdp s = andthen (td s thdp) (\<lambda>h.
     let pity = unat (td_priority h) in
     if PRITY_MAX \<le> pity then Inl Fault
     else andthen (td_list_add thdp (Ready pity) s) (\<lambda>s.
       Inr ((upd_lst pity (\<lambda>l. l\<lparr>tdl_nr := tdl_nr l + 1\<rparr>) s)
         \<lparr>sda_threadnr := sda_threadnr s + 1, scls_threadnr := scls_threadnr s + 1\<rparr>)))"

definition krlsve_core_exit_thread :: "kst \<Rightarrow> kst run" where
  "krlsve_core_exit_thread s = andthen (krlsched_exit s) krlschedul"

section \<open>Waiting lists, the interface\<close>

definition krlwlst_wait :: "nat option \<Rightarrow> kst \<Rightarrow> kst run" where
  "krlwlst_wait wlst s = krlsched_wait wlst s"

definition krlwlst_up :: "nat \<Rightarrow> kst \<Rightarrow> kst run" where
  "krlwlst_up w s = (if get_list (Waiting w) s = [] then Inr s else krlsched_up (Some w) s)"

text \<open>Each wake-up takes a thread off the waiting list, so the loop of \<open>krlwlst_allup\<close> ends.\<close>

lemma get_wl_upd [simp]:
  "get_list (Waiting w) (upd_td t f s) = get_list (Waiting w) s"
  "get_list (Waiting w) (upd_lst p g s) = get_list (Waiting w) s"
  "get_list (Waiting w) (set_list (Ready p) xs s) = get_list (Waiting w) s"
  by (simp_all add: get_list_def upd_td_def upd_lst_def set_list_def)

lemma krlsched_up_less:
  assumes "krlsched_up (Some w) s = Inr s'"
  shows "length (get_list (Waiting w) s') < length (get_list (Waiting w) s)"
proof -
  have w: "w < length (sems s)"
    using assms by (auto simp: krlsched_up_def split: if_splits)
  obtain t ts where l: "get_list (Waiting w) s = t # ts"
    using assms w by (cases "get_list (Waiting w) s") (auto simp: krlsched_up_def krlwlst_del_thread_def)
  define s1 where "s1 = upd_wl w (\<lambda>l. l\<lparr>wl_tdnr := wl_tdnr l - 1\<rparr>) (td_list_del t s)"
  have d: "krlwlst_del_thread w s = (Some t, s1)"
    using assms w l by (auto simp: krlsched_up_def krlwlst_del_thread_def s1_def split: if_splits)
  have s1: "get_list (Waiting w) s1 = ts"
    using w l by (simp add: s1_def get_list_def upd_wl_def td_list_del_def)
  have "get_list (Waiting w) s' = get_list (Waiting w) s1"
    using assms w d by (auto simp: krlsched_up_def Let_def td_list_add_tail_def andthen_eq_Inr td_def
        split: if_splits option.splits)
  with s1 l show ?thesis by simp
qed

function krlwlst_allup :: "nat \<Rightarrow> kst \<Rightarrow> kst run" where
  "krlwlst_allup w s =
     (if get_list (Waiting w) s = [] then Inr s
      else case krlsched_up (Some w) s of Inl e \<Rightarrow> Inl e | Inr s' \<Rightarrow> krlwlst_allup w s')"
  by auto
termination
  by (relation "measure (\<lambda>(w, s). length (get_list (Waiting w) s))") (auto dest: krlsched_up_less)

declare krlwlst_allup.simps [simp del]

section \<open>Semaphores\<close>

definition set_count :: "nat \<Rightarrow> int \<Rightarrow> kst \<Rightarrow> kst" where
  "set_count w c s = s\<lparr>sems := (sems s)[w := (sems s ! w)\<lparr>sem_count := c\<rparr>]\<rparr>"

definition krlsem_set_sem :: "nat \<Rightarrow> u64 \<Rightarrow> int \<Rightarrow> kst \<Rightarrow> kst" where
  "krlsem_set_sem w flg conut s = s\<lparr>sems := (sems s)[w := (sems s ! w)\<lparr>sem_flg := flg, sem_count := conut\<rparr>]\<rparr>"

text \<open>
  One pass of \<open>krlsem_down\<close> from \<open>start_step\<close>: \<open>True\<close> when the calling thread has its unit. With \<open>False\<close> it
  is on the waiting list, another thread runs, and the next time it runs it makes the next pass.
\<close>

definition krlsem_down :: "nat \<Rightarrow> kst \<Rightarrow> (bool \<times> kst) run" where
  "krlsem_down w s =
     (if length (sems s) \<le> w then Inl Fault
      else if sem_count (sems s ! w) < 1
      then andthen (krlwlst_wait (Some w) s) (\<lambda>s. andthen (krlschedul s) (\<lambda>s. Inr (False, s)))
      else Inr (True, set_count w (sem_count (sems s ! w) - 1) s))"

text \<open>The count is a \<open>long\<close>: going past its largest value is undefined behaviour.\<close>

definition krlsem_up :: "nat \<Rightarrow> kst \<Rightarrow> kst run" where
  "krlsem_up w s =
     (if length (sems s) \<le> w then Inl Fault
      else if sem_count (sems s ! w) = 2 ^ 63 - 1 then Inl Fault
      else
        let s = set_count w (sem_count (sems s ! w) + 1) s in
        if sem_count (sems s ! w) < 1 then Inl (Panic ''sem up err'')
        else andthen (krlwlst_allup w s) (\<lambda>s. Inr (krlsched_set_schedflgs s)))"

section \<open>Threads\<close>

definition krlthd_inc_tick :: "tid \<Rightarrow> kst \<Rightarrow> kst run" where
  "krlthd_inc_tick thdp s = andthen (td s thdp) (\<lambda>h.
     let tick = td_tick h + 1;
         s = upd_td thdp (\<lambda>h. h\<lparr>td_tick := tick, td_sumtick := td_sumtick h + 1\<rparr>) s
     in if TDRUN_TICK < tick
        then Inr (krlsched_set_schedflgs (upd_td thdp (\<lambda>h. h\<lparr>td_tick := 0\<rparr>) s))
        else Inr s)"

definition krlthread_sumtick :: "tid option \<Rightarrow> kst \<Rightarrow> u64 run" where
  "krlthread_sumtick thdp s = (case thdp of None \<Rightarrow> Inr 0
     | Some t \<Rightarrow> andthen (td s t) (\<lambda>h. Inr (td_sumtick h)))"

definition krlthd_curr_sumtick :: "kst \<Rightarrow> u64 run" where
  "krlthd_curr_sumtick s = andthen (krlsched_retn_currthread s) (\<lambda>t. krlthread_sumtick (Some t) s)"

text \<open>The loop over the handle table: the first free handle, from \<open>hand\<close> on.\<close>

function free_hand :: "u64 option list \<Rightarrow> nat \<Rightarrow> int" where
  "free_hand tbl hand =
     (if hand < TD_HAND_MAX then if tbl ! hand = None then int hand else free_hand tbl (hand + 1) else NO_HAND)"
  by auto
termination by (relation "measure (\<lambda>(tbl, hand). TD_HAND_MAX - hand)") auto

declare free_hand.simps [simp del]

definition krlthd_retn_nullhand :: "thread \<Rightarrow> int" where
  "krlthd_retn_nullhand thdp = free_hand (td_handtbl thdp) 0"

definition krlthd_add_objnode :: "thread \<Rightarrow> u64 option \<Rightarrow> int \<times> thread" where
  "krlthd_add_objnode thdp ondp =
     (let rethd = free_hand (td_handtbl thdp) 0 in
      if rethd = NO_HAND then (NO_HAND, thdp)
      else (rethd, thdp\<lparr>td_handtbl := (td_handtbl thdp)[nat rethd := ondp]\<rparr>))"

definition krlthd_del_objnode :: "thread \<Rightarrow> int \<Rightarrow> int \<times> thread" where
  "krlthd_del_objnode thdp hand =
     (if int TD_HAND_MAX \<le> hand \<or> hand \<le> NO_HAND then (NO_HAND, thdp)
      else if td_handtbl thdp ! nat hand = None then (NO_HAND, thdp)
      else (hand, thdp\<lparr>td_handtbl := (td_handtbl thdp)[nat hand := None]\<rparr>))"

definition krlthd_retn_objnode :: "thread \<Rightarrow> int \<Rightarrow> u64 option" where
  "krlthd_retn_objnode thdp hand =
     (if int TD_HAND_MAX \<le> hand \<or> hand \<le> NO_HAND then None
      else if td_handtbl thdp ! nat hand = None then None
      else td_handtbl thdp ! nat hand)"

unbundle bit_operations_syntax

definition krlthread_kernstack_init :: "tid \<Rightarrow> u64 \<Rightarrow> u64 \<Rightarrow> kst \<Rightarrow> kst run" where
  "krlthread_kernstack_init thdp runadr cpuflags s = andthen (td s thdp) (\<lambda>h.
     let ktop = td_krlstktop h AND NOT 0xf;
         utop = td_usrstktop h AND NOT 0xf;
         arp = ktop - 192;
         fr = zero_frame\<lparr>r_rip_old := runadr, r_cs_old := K_CS_IDX, r_rflgs := cpuflags, r_rsp_old := ktop,
           r_ss_old := 0, r_ds := K_DS_IDX, r_es := K_DS_IDX, r_fs := K_DS_IDX, r_gs := K_DS_IDX\<rparr>;
         s = s\<lparr>kframes := (kframes s)(arp \<mapsto> fr)\<rparr>
     in Inr (upd_td thdp (\<lambda>h. h\<lparr>td_krlstktop := ktop, td_usrstktop := utop,
          td_context := (td_context h)\<lparr>ctx_nextrip := runadr, ctx_nextrsp := arp\<rparr>\<rparr>) s))"

definition krlthread_userstack_init :: "tid \<Rightarrow> u64 \<Rightarrow> u64 \<Rightarrow> kst \<Rightarrow> kst run" where
  "krlthread_userstack_init thdp runadr cpuflags s = andthen (td s thdp) (\<lambda>h.
     let ktop = td_krlstktop h AND NOT 0xf;
         utop = td_usrstktop h AND NOT 0xf;
         arp = ktop - 192;
         fr = zero_frame\<lparr>r_rip_old := runadr, r_cs_old := U_CS_IDX, r_rflgs := cpuflags, r_rsp_old := utop,
           r_ss_old := U_DS_IDX, r_ds := U_DS_IDX, r_es := U_DS_IDX, r_fs := U_DS_IDX, r_gs := U_DS_IDX\<rparr>;
         s = s\<lparr>kframes := (kframes s)(arp \<mapsto> fr)\<rparr>
     in Inr (upd_td thdp (\<lambda>h. h\<lparr>td_krlstktop := ktop, td_usrstktop := utop,
          td_context := (td_context h)\<lparr>ctx_nextrip := runadr, ctx_nextrsp := arp\<rparr>\<rparr>) s))"

text \<open>
  \<open>thread_name\<close>: strings are the lists of their characters; \<open>adr\<close> is what \<open>krlnew\<close> answers when the name
  does not fit the thread's own 64 bytes.
\<close>

definition unknown_thread_name :: "u8 list" where
  "unknown_thread_name = [117, 110, 107, 111, 119, 110, 32, 116, 104, 114, 101, 97, 100]"

definition thread_name :: "thread \<Rightarrow> u8 list option \<Rightarrow> bool \<Rightarrow> thread \<times> bool" where
  "thread_name thread name adr = (case name of
       None \<Rightarrow> (thread\<lparr>td_name := unknown_thread_name, td_appfilenm := Some unknown_thread_name,
         td_appfilenmlen := of_nat THREAD_NAME_MAX\<rparr>, True)
     | Some nm \<Rightarrow>
         if length nm < THREAD_NAME_MAX - 1
         then (thread\<lparr>td_name := nm, td_appfilenm := Some nm, td_appfilenmlen := of_nat THREAD_NAME_MAX\<rparr>, True)
         else if \<not> adr then (thread, False)
         else (thread\<lparr>td_appfilenm := Some nm, td_appfilenmlen := of_nat (length nm) + 1\<rparr>, True))"

text \<open>
  What the kernel memory service answers during the creation of a thread (0 is \<open>NULL\<close>), and, for a user
  thread, the address space: \<open>None\<close> when there is none, else its number and its stack area, if it has one.
\<close>

record alloc_ans =
  ans_stack :: u64
  ans_dsc :: u64
  ans_name :: bool
  ans_mm :: "(nat \<times> (u64 \<times> u64) option) option"

definition krlnew_thread_dsc :: "u64 \<Rightarrow> kst \<Rightarrow> tid option \<times> kst" where
  "krlnew_thread_dsc adr s =
     (if adr = 0 then (None, s) else (Some adr, s\<lparr>threads := (threads s)(adr \<mapsto> thread_t_init adr)\<rparr>))"

definition krlnew_kern_thread_core ::
  "alloc_ans \<Rightarrow> u8 list option \<Rightarrow> u64 \<Rightarrow> u64 \<Rightarrow> u64 \<Rightarrow> u64 \<Rightarrow> kst \<Rightarrow> (tid option \<times> kst) run" where
  "krlnew_kern_thread_core a name filerun prilg prity krlstksz s =
     (if ans_stack a = 0 then Inr (None, s)
      else case krlnew_thread_dsc (ans_dsc a) s of
          (None, s) \<Rightarrow> Inr (None, s)
        | (Some t, s) \<Rightarrow>
            let s = upd_td t (\<lambda>h. fst (thread_name h name (ans_name a))) s;
                s = upd_td t (\<lambda>h. h\<lparr>td_privilege := prilg, td_priority := prity,
                  td_krlstktop := ans_stack a + (krlstksz - 1), td_krlstkstart := ans_stack a\<rparr>) s
            in andthen (krlthread_kernstack_init t filerun KMOD_EFLAGS s) (\<lambda>s.
               andthen (krlschdclass_add_thread t s) (\<lambda>s. Inr (Some t, s))))"

definition USER_VIRTUAL_ADDRESS_END :: u64 where "USER_VIRTUAL_ADDRESS_END = 0x00007fffffffffff"

definition krlnew_user_thread_core ::
  "alloc_ans \<Rightarrow> u8 list option \<Rightarrow> u64 \<Rightarrow> u64 \<Rightarrow> u64 \<Rightarrow> u64 \<Rightarrow> u64 \<Rightarrow> kst \<Rightarrow> (tid option \<times> kst) run" where
  "krlnew_user_thread_core a name filerun prilg prity usrstksz krlstksz s = (case ans_mm a of
       None \<Rightarrow> Inr (None, s)
     | Some (mm, None) \<Rightarrow> Inr (None, s)
     | Some (mm, Some (usrstkadr, usrstktop)) \<Rightarrow>
         if usrstktop \<noteq> USER_VIRTUAL_ADDRESS_END then Inr (None, s)
         else if usrstktop - usrstkadr < usrstksz then Inr (None, s)
         else if ans_stack a = 0 then Inr (None, s)
         else case krlnew_thread_dsc (ans_dsc a) s of
             (None, s) \<Rightarrow> Inr (None, s)
           | (Some t, s) \<Rightarrow>
               let s = upd_td t (\<lambda>h. fst (thread_name h name (ans_name a))) s;
                   s = upd_td t (\<lambda>h. h\<lparr>td_mmdsc := mm, td_privilege := prilg, td_priority := prity,
                     td_krlstktop := ans_stack a + (krlstksz - 1), td_krlstkstart := ans_stack a,
                     td_usrstktop := usrstktop, td_usrstkstart := usrstkadr\<rparr>) s
               in andthen (krlthread_userstack_init t filerun UMOD_EFLAGS s) (\<lambda>s.
                  andthen (krlschdclass_add_thread t s) (\<lambda>s. Inr (Some t, s))))"

definition krlnew_thread ::
  "alloc_ans \<Rightarrow> u8 list option \<Rightarrow> u64 \<Rightarrow> u64 \<Rightarrow> u64 \<Rightarrow> u64 \<Rightarrow> u64 \<Rightarrow> u64 \<Rightarrow> kst \<Rightarrow> (tid option \<times> kst) run" where
  "krlnew_thread a name filerun flg prilg prity usrstksz krlstksz s =
     (if filerun = 0 \<or> DAFT_TDUSRSTKSZ < usrstksz \<or> DAFT_TDKRLSTKSZ < krlstksz then Inr (None, s)
      else if prilg \<noteq> PRILG_USR \<and> prilg \<noteq> PRILG_SYS \<or> of_nat PRITY_MAX \<le> prity then Inr (None, s)
      else
        let tustksz = (if usrstksz < DAFT_TDUSRSTKSZ then DAFT_TDUSRSTKSZ else usrstksz);
            tkstksz = (if krlstksz < DAFT_TDKRLSTKSZ then DAFT_TDKRLSTKSZ else krlstksz)
        in if flg = KERNTHREAD_FLG then krlnew_kern_thread_core a name filerun prilg prity tkstksz s
           else if flg = USERTHREAD_FLG then krlnew_user_thread_core a name filerun prilg prity tustksz tkstksz s
           else Inr (None, s))"

text \<open>The idle thread (\<open>krlcpuidle.c\<close>); \<open>main\<close> is the address of \<open>krlcpuidle_main\<close>.\<close>

definition cpuidle_name :: "u8 list" where
  "cpuidle_name = [99, 112, 117, 105, 100, 108, 101, 45, 116, 104, 114, 101, 97, 100]"

definition new_cpuidle_thread :: "alloc_ans \<Rightarrow> u64 \<Rightarrow> kst \<Rightarrow> (tid option \<times> kst) run" where
  "new_cpuidle_thread a main s =
     (if ans_stack a = 0 then Inr (None, s)
      else case krlnew_thread_dsc (ans_dsc a) s of
          (None, s) \<Rightarrow> Inr (None, s)
        | (Some t, s) \<Rightarrow>
            let s = upd_td t (\<lambda>h. fst (thread_name h (Some cpuidle_name) True)) s;
                s = upd_td t (\<lambda>h. h\<lparr>td_privilege := PRILG_SYS, td_priority := PRITY_MIN,
                  td_krlstktop := ans_stack a + (DAFT_TDKRLSTKSZ - 1), td_krlstkstart := ans_stack a\<rparr>) s
            in andthen (krlthread_kernstack_init t main KMOD_EFLAGS s) (\<lambda>s.
               Inr (Some t, s\<lparr>sda_cpuidle := Some t, sda_currtd := Some t\<rparr>)))"

definition new_cpuidle :: "alloc_ans \<Rightarrow> u64 \<Rightarrow> kst \<Rightarrow> kst run" where
  "new_cpuidle a main s = andthen (new_cpuidle_thread a main s) (\<lambda>(thp, s). case thp of
       None \<Rightarrow> Inl (Panic ''newcpuilde err'') | Some _ \<Rightarrow> Inr s)"

definition krlcpuidle_start :: "kst \<Rightarrow> kst run" where
  "krlcpuidle_start s = (case sda_cpuidle s of
       None \<Rightarrow> Inl Fault
     | Some tdp \<Rightarrow> andthen (td s tdp) (\<lambda>h.
         let s = s\<lparr>tss_rsp0 := td_krlstktop h\<rparr>;
             s = upd_td tdp (\<lambda>h. h\<lparr>td_context := (td_context h)\<lparr>ctx_nexttss := hal_retn_cpuid\<rparr>, td_stus := TDSTUS_RUN\<rparr>) s
         in Inr s))"

end
