(* ===== verification/SchedInv.thy ===== *)
theory SchedInv
  imports Sched
begin

text \<open>
  The invariant of the scheduler and, for each operation, what it returns and that it keeps the invariant.
\<close>

section \<open>The invariant of the scheduler\<close>

text \<open>The threads that are ready at a priority: the one that ran last, if it is not blocked, and the list.\<close>

definition rdy :: "thrdlst \<Rightarrow> tid list" where
  "rdy l = (case tdl_curruntd l of None \<Rightarrow> [] | Some t \<Rightarrow> [t]) @ tdl_lsth l"

abbreviation ready_at :: "kst \<Rightarrow> nat \<Rightarrow> tid list" where
  "ready_at s p \<equiv> rdy (sda_thdlst s ! p)"

abbreviation waiters :: "kst \<Rightarrow> nat \<Rightarrow> tid list" where
  "waiters s w \<equiv> wl_list (sem_waitlst (sems s ! w))"

abbreviation count_of :: "kst \<Rightarrow> nat \<Rightarrow> int" where
  "count_of s w \<equiv> sem_count (sems s ! w)"

text \<open>Thread \<open>t\<close> exists, has one of the statuses \<open>S\<close> and a priority in \<open>P\<close>.\<close>

definition thr :: "kst \<Rightarrow> tid \<Rightarrow> u64 set \<Rightarrow> nat set \<Rightarrow> bool" where
  "thr s t S P \<longleftrightarrow> (\<exists>h. threads s t = Some h \<and> td_stus h \<in> S \<and> unat (td_priority h) \<in> P)"

definition ready_ok :: "kst \<Rightarrow> nat \<Rightarrow> bool" where
  "ready_ok s p \<longleftrightarrow> distinct (ready_at s p) \<and> tdl_nr (sda_thdlst s ! p) = of_nat (length (ready_at s p)) \<and>
     (\<forall>t \<in> set (ready_at s p). thr s t {TDSTUS_RUN, TDSTUS_NEW} {p})"

definition wait_ok :: "kst \<Rightarrow> nat \<Rightarrow> bool" where
  "wait_ok s w \<longleftrightarrow> distinct (waiters s w) \<and> wl_tdnr (sem_waitlst (sems s ! w)) = of_nat (length (waiters s w)) \<and>
     (\<forall>t \<in> set (waiters s w). thr s t {TDSTUS_WAIT} {..<64})"

definition lost_wakeup :: "kst \<Rightarrow> nat \<Rightarrow> bool" where
  "lost_wakeup s w \<longleftrightarrow> waiters s w \<noteq> [] \<and> 1 \<le> count_of s w"

definition idle_ok :: "kst \<Rightarrow> bool" where
  "idle_ok s \<longleftrightarrow> (\<exists>i. sda_cpuidle s = Some i \<and> threads s i \<noteq> None \<and>
     (\<forall>p < 64. i \<notin> set (ready_at s p)) \<and> (\<forall>w < length (sems s). i \<notin> set (waiters s w)) \<and>
     i \<notin> set (sda_exitlist s))"

definition lists_ok :: "kst \<Rightarrow> bool" where
  "lists_ok s \<longleftrightarrow> length (sda_thdlst s) = 64 \<and> (\<forall>p < 64. ready_ok s p) \<and> (\<forall>w < length (sems s). wait_ok s w) \<and>
     (\<forall>w < length (sems s). \<forall>v < length (sems s). w \<noteq> v \<longrightarrow> set (waiters s w) \<inter> set (waiters s v) = {}) \<and>
     distinct (sda_exitlist s) \<and> (\<forall>t \<in> set (sda_exitlist s). thr s t {TDSTUS_EXIT} UNIV) \<and> idle_ok s"

definition sems_ok :: "kst \<Rightarrow> bool" where
  "sems_ok s \<longleftrightarrow> (\<forall>w < length (sems s). 0 \<le> count_of s w \<and> \<not> lost_wakeup s w)"

definition running_ok :: "kst \<Rightarrow> bool" where
  "running_ok s \<longleftrightarrow> (\<exists>c. sda_currtd s = Some c \<and>
     (sda_cpuidle s = Some c \<or> (\<exists>p < 64. tdl_curruntd (sda_thdlst s ! p) = Some c)))"

text \<open>
  Every thread is on exactly one list or is the running one of its priority; the lists hold threads of the status
  and priority they are for and each once; every counter is the length of its list; no semaphore count is
  negative, and nobody waits for a semaphore that has a unit.
\<close>

definition sched_inv :: "kst \<Rightarrow> bool" where
  "sched_inv s \<longleftrightarrow> lists_ok s \<and> sems_ok s \<and> running_ok s \<and> sda_schdflgs s \<noteq> NEED_START_CPUILDE_SCHED_FLGS"

section \<open>Consequences\<close>

lemma thr_disj:
  "thr s t S P \<Longrightarrow> thr s t S' P' \<Longrightarrow> S \<inter> S' \<noteq> {} \<and> P \<inter> P' \<noteq> {}"
  by (auto simp: thr_def)

lemma lists_okD:
  assumes "lists_ok s"
  shows "length (sda_thdlst s) = 64" "p < 64 \<Longrightarrow> ready_ok s p" "w < length (sems s) \<Longrightarrow> wait_ok s w"
    "w < length (sems s) \<Longrightarrow> v < length (sems s) \<Longrightarrow> w \<noteq> v \<Longrightarrow> set (waiters s w) \<inter> set (waiters s v) = {}"
    "distinct (sda_exitlist s)" "t \<in> set (sda_exitlist s) \<Longrightarrow> thr s t {TDSTUS_EXIT} UNIV" "idle_ok s"
  using assms by (auto simp: lists_ok_def)

lemma set_rdy: "set (tdl_lsth l) \<subseteq> set (rdy l)" "tdl_curruntd l = Some t \<Longrightarrow> t \<in> set (rdy l)"
  by (auto simp: rdy_def)

text \<open>A thread that is ready at \<open>p\<close> is nowhere else.\<close>

lemma ready_only:
  assumes "lists_ok s" "p < 64" "t \<in> set (ready_at s p)"
  shows "q < 64 \<Longrightarrow> q \<noteq> p \<Longrightarrow> t \<notin> set (ready_at s q)" "w < length (sems s) \<Longrightarrow> t \<notin> set (waiters s w)"
    "t \<notin> set (sda_exitlist s)"
proof -
  have t: "thr s t {TDSTUS_RUN, TDSTUS_NEW} {p}"
    using lists_okD(2) [OF assms(1,2)] assms(3) by (simp add: ready_ok_def)
  show "t \<notin> set (ready_at s q)" if "q < 64" "q \<noteq> p"
    using lists_okD(2) [OF assms(1) that(1)] thr_disj [OF t, of "{TDSTUS_RUN, TDSTUS_NEW}" "{q}"] that(2)
    by (auto simp: ready_ok_def)
  show "t \<notin> set (waiters s w)" if "w < length (sems s)"
    using lists_okD(3) [OF assms(1) that] thr_disj [OF t, of "{TDSTUS_WAIT}" "{..<64}"]
    by (auto simp: wait_ok_def)
  show "t \<notin> set (sda_exitlist s)"
    using lists_okD(6) [OF assms(1)] thr_disj [OF t, of "{TDSTUS_EXIT}" UNIV] by auto
qed

lemma wait_only:
  assumes "lists_ok s" "w < length (sems s)" "t \<in> set (waiters s w)"
  shows "q < 64 \<Longrightarrow> t \<notin> set (ready_at s q)" "v < length (sems s) \<Longrightarrow> v \<noteq> w \<Longrightarrow> t \<notin> set (waiters s v)"
    "t \<notin> set (sda_exitlist s)"
proof -
  have t: "thr s t {TDSTUS_WAIT} {..<64}"
    using lists_okD(3) [OF assms(1,2)] assms(3) by (simp add: wait_ok_def)
  show "t \<notin> set (ready_at s q)" if "q < 64"
    using ready_only(2) [OF assms(1) that _ assms(2)] assms(3) by blast
  show "t \<notin> set (waiters s v)" if "v < length (sems s)" "v \<noteq> w"
    using lists_okD(4) [OF assms(1,2) that(1)] assms(3) that(2) by auto
  show "t \<notin> set (sda_exitlist s)"
    using lists_okD(6) [OF assms(1)] thr_disj [OF t, of "{TDSTUS_EXIT}" UNIV] by auto
qed

lemma length_tids:
  assumes "distinct xs" "(i :: tid) \<notin> set xs"
  shows "length xs < 2 ^ 64"
proof -
  have "card (insert i (set xs)) \<le> card (UNIV :: u64 set)"
    by (rule card_mono) auto
  then show ?thesis
    using assms by (simp add: distinct_card card_word)
qed

lemma ready_len:
  assumes "lists_ok s" "p < 64"
  shows "length (ready_at s p) < 2 ^ 64"
proof -
  obtain i where "i \<notin> set (ready_at s p)"
    using lists_okD(7) [OF assms(1)] assms(2) by (auto simp: idle_ok_def)
  with lists_okD(2) [OF assms] show ?thesis
    by (intro length_tids [of _ i]) (simp_all add: ready_ok_def)
qed

lemma wait_len:
  assumes "lists_ok s" "w < length (sems s)"
  shows "length (waiters s w) < 2 ^ 64"
proof -
  obtain i where "i \<notin> set (waiters s w)"
    using lists_okD(7) [OF assms(1)] assms(2) by (auto simp: idle_ok_def)
  with lists_okD(3) [OF assms] show ?thesis
    by (intro length_tids [of _ i]) (simp_all add: wait_ok_def)
qed

section \<open>Taking a thread off its list\<close>

lemma td_list_del_none:
  assumes "\<not> linked t s"
  shows "td_list_del t s = s"
proof -
  have "map (\<lambda>l. l\<lparr>tdl_lsth := remove1 t (tdl_lsth l)\<rparr>) (sda_thdlst s) = sda_thdlst s"
    "map (\<lambda>m. m\<lparr>sem_waitlst := (sem_waitlst m)\<lparr>wl_list := remove1 t (wl_list (sem_waitlst m))\<rparr>\<rparr>) (sems s) = sems s"
    by (rule map_idI; use assms in \<open>auto simp: linked_def list_ex_iff remove1_idem\<close>)+
  moreover have "remove1 t (sda_exitlist s) = sda_exitlist s"
    using assms by (simp add: linked_def remove1_idem)
  ultimately show ?thesis
    by (simp add: td_list_del_def)
qed

lemma td_list_del_ready:
  assumes "p < length (sda_thdlst s)" "\<And>q. q < length (sda_thdlst s) \<Longrightarrow> q \<noteq> p \<Longrightarrow> t \<notin> set (tdl_lsth (sda_thdlst s ! q))"
    and "\<And>w. w < length (sems s) \<Longrightarrow> t \<notin> set (waiters s w)" "t \<notin> set (sda_exitlist s)"
  shows "td_list_del t s = upd_lst p (\<lambda>l. l\<lparr>tdl_lsth := remove1 t (tdl_lsth l)\<rparr>) s"
proof -
  have "map (\<lambda>m. m\<lparr>sem_waitlst := (sem_waitlst m)\<lparr>wl_list := remove1 t (wl_list (sem_waitlst m))\<rparr>\<rparr>) (sems s) = sems s"
    by (rule map_idI) (use assms(3) in \<open>auto simp: in_set_conv_nth remove1_idem\<close>)
  moreover have "map (\<lambda>l. l\<lparr>tdl_lsth := remove1 t (tdl_lsth l)\<rparr>) (sda_thdlst s) =
      (sda_thdlst s)[p := (sda_thdlst s ! p)\<lparr>tdl_lsth := remove1 t (tdl_lsth (sda_thdlst s ! p))\<rparr>]"
  proof (rule nth_equalityI)
    fix i assume "i < length (map (\<lambda>l. l\<lparr>tdl_lsth := remove1 t (tdl_lsth l)\<rparr>) (sda_thdlst s))"
    then show "map (\<lambda>l. l\<lparr>tdl_lsth := remove1 t (tdl_lsth l)\<rparr>) (sda_thdlst s) ! i =
      (sda_thdlst s)[p := (sda_thdlst s ! p)\<lparr>tdl_lsth := remove1 t (tdl_lsth (sda_thdlst s ! p))\<rparr>] ! i"
      using assms(2) [of i] by (cases "i = p") (simp_all add: remove1_idem)
  qed simp
  ultimately show ?thesis
    using assms(4) by (simp add: td_list_del_def upd_lst_def remove1_idem)
qed

lemma td_list_del_wait:
  assumes "w < length (sems s)" "\<And>q. q < length (sda_thdlst s) \<Longrightarrow> t \<notin> set (tdl_lsth (sda_thdlst s ! q))"
    and "\<And>v. v < length (sems s) \<Longrightarrow> v \<noteq> w \<Longrightarrow> t \<notin> set (waiters s v)" "t \<notin> set (sda_exitlist s)"
  shows "td_list_del t s = upd_wl w (\<lambda>l. l\<lparr>wl_list := remove1 t (wl_list l)\<rparr>) s"
proof -
  have "map (\<lambda>m. m\<lparr>sem_waitlst := (sem_waitlst m)\<lparr>wl_list := remove1 t (wl_list (sem_waitlst m))\<rparr>\<rparr>) (sems s) =
      (sems s)[w := (sems s ! w)\<lparr>sem_waitlst := (sem_waitlst (sems s ! w))\<lparr>wl_list := remove1 t (waiters s w)\<rparr>\<rparr>]"
  proof (rule nth_equalityI)
    fix i assume "i < length (map (\<lambda>m. m\<lparr>sem_waitlst := (sem_waitlst m)\<lparr>wl_list := remove1 t (wl_list (sem_waitlst m))\<rparr>\<rparr>) (sems s))"
    then show "map (\<lambda>m. m\<lparr>sem_waitlst := (sem_waitlst m)\<lparr>wl_list := remove1 t (wl_list (sem_waitlst m))\<rparr>\<rparr>) (sems s) ! i =
      (sems s)[w := (sems s ! w)\<lparr>sem_waitlst := (sem_waitlst (sems s ! w))\<lparr>wl_list := remove1 t (waiters s w)\<rparr>\<rparr>] ! i"
      using assms(3) [of i] by (cases "i = w") (simp_all add: remove1_idem)
  qed simp
  moreover have "map (\<lambda>l. l\<lparr>tdl_lsth := remove1 t (tdl_lsth l)\<rparr>) (sda_thdlst s) = sda_thdlst s"
    by (rule map_idI) (use assms(2) in \<open>auto simp: in_set_conv_nth remove1_idem\<close>)
  ultimately show ?thesis
    using assms(4) by (simp add: td_list_del_def upd_wl_def remove1_idem)
qed

lemma not_linkedI:
  assumes "\<And>q. q < length (sda_thdlst s) \<Longrightarrow> t \<notin> set (tdl_lsth (sda_thdlst s ! q))"
    and "\<And>v. v < length (sems s) \<Longrightarrow> t \<notin> set (waiters s v)" "t \<notin> set (sda_exitlist s)"
  shows "\<not> linked t s"
  unfolding linked_def list_ex_iff using assms by (metis in_set_conv_nth)

section \<open>Fields after an update\<close>

lemma upd_fields [simp]:
  "sda_thdlst (upd_td t f s) = sda_thdlst s" "sems (upd_td t f s) = sems s"
  "sda_exitlist (upd_td t f s) = sda_exitlist s" "sda_cpuidle (upd_td t f s) = sda_cpuidle s"
  "sda_currtd (upd_td t f s) = sda_currtd s" "sda_schdflgs (upd_td t f s) = sda_schdflgs s"
  "threads (upd_td t f s) = (threads s)(t := map_option f (threads s t))"
  "sems (upd_lst p g s) = sems s" "sda_exitlist (upd_lst p g s) = sda_exitlist s"
  "sda_cpuidle (upd_lst p g s) = sda_cpuidle s" "sda_currtd (upd_lst p g s) = sda_currtd s"
  "sda_schdflgs (upd_lst p g s) = sda_schdflgs s" "threads (upd_lst p g s) = threads s"
  "length (sda_thdlst (upd_lst p g s)) = length (sda_thdlst s)"
  "sda_thdlst (upd_wl w k s) = sda_thdlst s" "sda_exitlist (upd_wl w k s) = sda_exitlist s"
  "sda_cpuidle (upd_wl w k s) = sda_cpuidle s" "sda_currtd (upd_wl w k s) = sda_currtd s"
  "sda_schdflgs (upd_wl w k s) = sda_schdflgs s" "threads (upd_wl w k s) = threads s"
  "length (sems (upd_wl w k s)) = length (sems s)"
  "sda_premptidx (upd_td t f s) = sda_premptidx s" "sda_premptidx (upd_lst p g s) = sda_premptidx s"
  "sda_premptidx (upd_wl w k s) = sda_premptidx s"
  by (simp_all add: upd_td_def upd_lst_def upd_wl_def)

lemma nth_upd_lst: "p < length (sda_thdlst s) \<Longrightarrow>
    sda_thdlst (upd_lst p g s) ! q = (if q = p then g (sda_thdlst s ! p) else sda_thdlst s ! q)"
  by (simp add: upd_lst_def nth_list_update)

lemma nth_upd_wl: "w < length (sems s) \<Longrightarrow>
    sems (upd_wl w k s) ! v = (if v = w then (sems s ! w)\<lparr>sem_waitlst := k (sem_waitlst (sems s ! w))\<rparr> else sems s ! v)"
  by (simp add: upd_wl_def nth_list_update)

lemma thr_upd_td:
  "thr (upd_td t f s) u S P \<longleftrightarrow> (if u = t then \<exists>h. threads s t = Some h \<and> td_stus (f h) \<in> S \<and> unat (td_priority (f h)) \<in> P
     else thr s u S P)"
  by (auto simp: thr_def)

lemma thr_upd [simp]:
  "thr (upd_lst p g s) u S P = thr s u S P" "thr (upd_wl w k s) u S P = thr s u S P"
  by (simp_all add: thr_def)

lemma thr_cong [simp]:
  "thr (s\<lparr>sda_currtd := c\<rparr>) u S P = thr s u S P" "thr (s\<lparr>sda_exitlist := x\<rparr>) u S P = thr s u S P"
  "thr (s\<lparr>sda_threadnr := n\<rparr>) u S P = thr s u S P" "thr (s\<lparr>sda_schdflgs := n\<rparr>) u S P = thr s u S P"
  "thr (s\<lparr>tss_rsp0 := n\<rparr>) u S P = thr s u S P" "thr (s\<lparr>cur_mm := m\<rparr>) u S P = thr s u S P"
  "thr (s\<lparr>scls_threadnr := n\<rparr>) u S P = thr s u S P" "thr (s\<lparr>sda_prityidx := n\<rparr>) u S P = thr s u S P"
  "thr (s\<lparr>sems := y\<rparr>) u S P = thr s u S P"
  by (simp_all add: thr_def)

lemma upd_lst_twice: "p < length (sda_thdlst s) \<Longrightarrow> upd_lst p f (upd_lst p g s) = upd_lst p (\<lambda>l. f (g l)) s"
  by (simp add: upd_lst_def)

lemma upd_wl_twice: "w < length (sems s) \<Longrightarrow> upd_wl w f (upd_wl w g s) = upd_wl w (\<lambda>l. f (g l)) s"
  by (simp add: upd_wl_def)

lemma set_list_upd:
  "set_list (Waiting w) xs s = upd_wl w (\<lambda>l. l\<lparr>wl_list := xs\<rparr>) s"
  "set_list (Ready p) xs s = upd_lst p (\<lambda>l. l\<lparr>tdl_lsth := xs\<rparr>) s"
  by (simp_all add: set_list_def upd_wl_def upd_lst_def)

lemma get_list_simps:
  "get_list (Waiting w) s = waiters s w" "get_list (Ready p) s = tdl_lsth (sda_thdlst s ! p)"
  "get_list Exited s = sda_exitlist s"
  by (simp_all add: get_list_def)

lemma linked_upd [simp]: "linked t (upd_td u f s) = linked t s"
  by (simp add: linked_def)

lemma rdy_simps:
  "tdl_curruntd l = None \<Longrightarrow> rdy l = tdl_lsth l" "tdl_curruntd l = Some t \<Longrightarrow> rdy l = t # tdl_lsth l"
  by (simp_all add: rdy_def)

lemma lsth_nin: "t \<notin> set (rdy l) \<Longrightarrow> t \<notin> set (tdl_lsth l)"
  using set_rdy(1) by blast

text \<open>The thread a priority ran last is on no list.\<close>

lemma curr_not_linked:
  assumes ok: "lists_ok s" and p: "p < 64" "tdl_curruntd (sda_thdlst s ! p) = Some t"
  shows "\<not> linked t s"
proof (rule not_linkedI)
  have t: "t \<in> set (ready_at s p)"
    using p by (simp add: rdy_simps)
  note o = ready_only [OF ok p(1) t]
  show "t \<notin> set (tdl_lsth (sda_thdlst s ! q))" if "q < length (sda_thdlst s)" for q
  proof (cases "q = p")
    case True
    with lists_okD(2) [OF ok p(1)] p(2) show ?thesis
      by (simp add: ready_ok_def rdy_simps)
  next
    case False
    with o(1) that lists_okD(1) [OF ok] show ?thesis
      by (metis lsth_nin)
  qed
qed (use ready_only(2,3) [OF ok p(1)] p in \<open>simp_all add: rdy_simps\<close>)

section \<open>Blocking\<close>

definition waited :: "tid \<Rightarrow> nat \<Rightarrow> nat \<Rightarrow> kst \<Rightarrow> kst" where
  "waited t p w s = upd_wl w (\<lambda>l. l\<lparr>wl_list := t # wl_list l, wl_tdnr := wl_tdnr l + 1\<rparr>)
     (upd_lst p (\<lambda>l. l\<lparr>tdl_curruntd := None, tdl_nr := tdl_nr l - 1\<rparr>)
     (upd_td t (\<lambda>h. h\<lparr>td_stus := TDSTUS_WAIT\<rparr>) s))"

lemma krlsched_wait_ok:
  assumes ok: "lists_ok s" and c: "sda_currtd s = Some t"
    and p: "p < 64" "tdl_curruntd (sda_thdlst s ! p) = Some t" and w: "w < length (sems s)"
  shows "krlsched_wait (Some w) s = Inr (waited t p w s)"
proof -
  note nl = curr_not_linked [OF ok p]
  note r = lists_okD(2) [OF ok p(1)] and len = lists_okD(1) [OF ok]
  have "t \<in> set (ready_at s p)"
    using p by (simp add: rdy_simps)
  with r obtain h where h: "threads s t = Some h" "unat (td_priority h) = p"
    by (auto simp: ready_ok_def thr_def)
  have "0 < length (ready_at s p)"
    using p by (simp add: rdy_simps)
  then have nr: "\<not> tdl_nr (sda_thdlst s ! p) < 1"
    using r cnt_less_1 [OF ready_len [OF ok p(1)]] by (simp add: ready_ok_def)
  define s1 where "s1 = upd_td t (\<lambda>h. h\<lparr>td_stus := TDSTUS_WAIT\<rparr>) s"
  have s1: "td_list_del t s1 = s1"
    by (rule td_list_del_none) (use nl in \<open>simp add: s1_def\<close>)
  define s2 where "s2 = upd_lst p (\<lambda>l. l\<lparr>tdl_curruntd := None, tdl_nr := tdl_nr l - 1\<rparr>) s1"
  have s2: "upd_lst p (\<lambda>l. l\<lparr>tdl_nr := tdl_nr l - 1\<rparr>)
      (upd_lst p (\<lambda>l. if tdl_curruntd l = Some t then l\<lparr>tdl_curruntd := None\<rparr> else l) s1) = s2"
    using p len by (simp add: s2_def upd_lst_def s1_def)
  have nl2: "\<not> linked t s2"
  proof (rule not_linkedI)
    show "t \<notin> set (tdl_lsth (sda_thdlst s2 ! q))" if "q < length (sda_thdlst s2)" for q
      using nl that p(1) len by (auto simp: s2_def s1_def nth_upd_lst linked_def list_ex_iff)
  qed (use nl in \<open>auto simp: s2_def s1_def linked_def list_ex_iff\<close>)
  have "krlwlst_add_thread w t s2 = Inr (waited t p w s)"
    using nl2 w by (simp add: krlwlst_add_thread_def td_list_add_def set_list_upd get_list_simps
        upd_wl_def waited_def s2_def s1_def)
  then show ?thesis
    using c h w p(1) nr s1 s2
    by (simp add: krlsched_wait_def krlsched_retn_currthread_def td_def Let_def s1_def [symmetric])
qed

lemma distinct_ready_tl:
  "ready_ok s p \<Longrightarrow> tdl_curruntd (sda_thdlst s ! p) = Some t \<Longrightarrow>
   t \<notin> set (tdl_lsth (sda_thdlst s ! p)) \<and> distinct (tdl_lsth (sda_thdlst s ! p))"
  by (simp add: ready_ok_def rdy_simps)

lemma waited_lists:
  assumes ok: "lists_ok s" and p: "p < 64" "tdl_curruntd (sda_thdlst s ! p) = Some t" and w: "w < length (sems s)"
  shows "lists_ok (waited t p w s)"
proof -
  let ?s = "waited t p w s"
  note len = lists_okD(1) [OF ok]
  have tr: "t \<in> set (ready_at s p)"
    using p by (simp add: rdy_simps)
  note only = ready_only [OF ok p(1) tr]
  have L: "sda_thdlst ?s ! q = (if q = p then (sda_thdlst s ! p)\<lparr>tdl_curruntd := None, tdl_nr := tdl_nr (sda_thdlst s ! p) - 1\<rparr>
      else sda_thdlst s ! q)" for q
    using p len by (simp add: waited_def nth_upd_lst)
  have W: "waiters ?s v = (if v = w then t # waiters s w else waiters s v)"
    "wl_tdnr (sem_waitlst (sems ?s ! v)) = (if v = w then wl_tdnr (sem_waitlst (sems s ! w)) + 1
       else wl_tdnr (sem_waitlst (sems s ! v)))" for v
    using w by (simp_all add: waited_def nth_upd_wl)
  have R: "ready_at ?s q = (if q = p then tdl_lsth (sda_thdlst s ! p) else ready_at s q)" for q
    by (simp add: L rdy_simps)
  have T: "thr ?s u S P = (if u = t then \<exists>h. threads s t = Some h \<and> TDSTUS_WAIT \<in> S \<and> unat (td_priority h) \<in> P else thr s u S P)"
    for u S P
    by (auto simp: waited_def thr_upd_td)
  obtain h where h: "threads s t = Some h" "unat (td_priority h) = p"
    using lists_okD(2) [OF ok p(1)] tr by (auto simp: ready_ok_def thr_def)
  have ready: "ready_ok ?s q" if q: "q < 64" for q
  proof (cases "q = p")
    case True
    with lists_okD(2) [OF ok p(1)] p(2) show ?thesis
      by (auto simp: ready_ok_def R L T rdy_simps)
  next
    case False
    with lists_okD(2) [OF ok q] only(1) [OF q] show ?thesis
      by (auto simp: ready_ok_def R L T)
  qed
  have wait: "wait_ok ?s v" if v: "v < length (sems s)" for v
    using lists_okD(3) [OF ok v] only(2) [OF v] h p(1) by (auto simp: wait_ok_def W T)
  have disj: "set (waiters ?s v) \<inter> set (waiters ?s u) = {}"
    if "v < length (sems s)" "u < length (sems s)" "v \<noteq> u" for v u
    using lists_okD(4) [OF ok that] only(2) that by (auto simp: W)
  have ex: "sda_exitlist ?s = sda_exitlist s" "sda_cpuidle ?s = sda_cpuidle s" "length (sems ?s) = length (sems s)"
    "length (sda_thdlst ?s) = length (sda_thdlst s)"
    by (simp_all add: waited_def)
  have exit: "thr ?s u {TDSTUS_EXIT} UNIV" if "u \<in> set (sda_exitlist s)" for u
    using lists_okD(6) [OF ok that] only(3) that by (auto simp: T)
  from lists_okD(7) [OF ok] obtain i where i: "sda_cpuidle s = Some i" "threads s i \<noteq> None"
    "\<And>q. q < 64 \<Longrightarrow> i \<notin> set (ready_at s q)" "\<And>v. v < length (sems s) \<Longrightarrow> i \<notin> set (waiters s v)"
    "i \<notin> set (sda_exitlist s)"
    by (auto simp: idle_ok_def)
  then have "i \<noteq> t" "i \<notin> set (tdl_lsth (sda_thdlst s ! p))"
    using tr p(1) set_rdy(1) by blast+
  moreover from this(1) have "threads ?s i = threads s i"
    by (simp add: waited_def)
  ultimately have "idle_ok ?s"
    using i by (auto simp: idle_ok_def ex R W)
  then show ?thesis
    using ready wait disj exit lists_okD(1,5) [OF ok] by (simp add: lists_ok_def ex)
qed

section \<open>Waking up\<close>

definition woken :: "tid \<Rightarrow> nat \<Rightarrow> nat \<Rightarrow> kst \<Rightarrow> kst" where
  "woken t p w s = upd_lst p (\<lambda>l. l\<lparr>tdl_lsth := tdl_lsth l @ [t], tdl_nr := tdl_nr l + 1\<rparr>)
     (upd_td t (\<lambda>h. h\<lparr>td_stus := TDSTUS_RUN\<rparr>)
     (upd_wl w (\<lambda>l. l\<lparr>wl_list := tl (wl_list l), wl_tdnr := wl_tdnr l - 1\<rparr>) s))"

text \<open>The priority a thread has, as an index of the ready lists.\<close>

definition prio :: "kst \<Rightarrow> tid \<Rightarrow> nat" where
  "prio s t = (case threads s t of None \<Rightarrow> 0 | Some h \<Rightarrow> unat (td_priority h))"

lemma waiter_thread:
  assumes "lists_ok s" "w < length (sems s)" "t \<in> set (waiters s w)"
  obtains h where "threads s t = Some h" "td_stus h = TDSTUS_WAIT" "unat (td_priority h) = prio s t" "prio s t < 64"
  using lists_okD(3) [OF assms(1,2)] assms(3) by (auto simp: wait_ok_def thr_def prio_def)

lemma krlsched_up_ok:
  assumes ok: "lists_ok s" and w: "w < length (sems s)" "waiters s w = t # ts"
  shows "krlsched_up (Some w) s = Inr (woken t (prio s t) w s)"
proof -
  have t: "t \<in> set (waiters s w)"
    using w(2) by simp
  from waiter_thread [OF ok w(1) t] obtain h where h: "threads s t = Some h" "unat (td_priority h) = prio s t"
    "prio s t < 64" .
  note only = wait_only [OF ok w(1) t] and len = lists_okD(1) [OF ok]
  have nr: "\<not> wl_tdnr (sem_waitlst (sems s ! w)) < 1"
    using lists_okD(3) [OF ok w(1)] cnt_less_1 [OF wait_len [OF ok w(1)]] w(2)
    by (simp add: wait_ok_def del: One_nat_def)
  have nin: "t \<notin> set (tdl_lsth (sda_thdlst s ! q))" if "q < length (sda_thdlst s)" for q
    using only(1) that len lsth_nin by metis
  have dl: "td_list_del t s = upd_wl w (\<lambda>l. l\<lparr>wl_list := remove1 t (wl_list l)\<rparr>) s"
    by (rule td_list_del_wait [OF w(1) nin only(2,3)]) auto
  define s1 where "s1 = upd_wl w (\<lambda>l. l\<lparr>wl_list := tl (wl_list l), wl_tdnr := wl_tdnr l - 1\<rparr>) s"
  have s1: "upd_wl w (\<lambda>l. l\<lparr>wl_tdnr := wl_tdnr l - 1\<rparr>) (td_list_del t s) = s1"
    using w by (simp add: s1_def dl upd_wl_def)
  have d: "krlwlst_del_thread w s = (Some t, s1)"
    using w nr s1 by (simp add: krlwlst_del_thread_def get_list_simps)
  define s2 where "s2 = upd_td t (\<lambda>h. h\<lparr>td_stus := TDSTUS_RUN\<rparr>) s1"
  have "distinct (waiters s w)"
    using lists_okD(3) [OF ok w(1)] by (simp add: wait_ok_def)
  then have nl: "\<not> linked t s2"
    unfolding s2_def linked_upd
  proof (intro not_linkedI)
    show "t \<notin> set (waiters s1 v)" if "v < length (sems s1)" for v
      using \<open>distinct (waiters s w)\<close> only(2) [of v] w that by (cases "v = w") (simp_all add: s1_def nth_upd_wl)
  qed (use nin only(3) in \<open>simp_all add: s1_def\<close>)
  have "td_list_add_tail t (Ready (prio s t)) s2 = Inr (upd_lst (prio s t) (\<lambda>l. l\<lparr>tdl_lsth := tdl_lsth l @ [t]\<rparr>) s2)"
    using nl by (simp add: td_list_add_tail_def set_list_upd get_list_simps upd_lst_def)
  moreover have "upd_lst (prio s t) (\<lambda>l. l\<lparr>tdl_nr := tdl_nr l + 1\<rparr>)
      (upd_lst (prio s t) (\<lambda>l. l\<lparr>tdl_lsth := tdl_lsth l @ [t]\<rparr>) s2) = woken t (prio s t) w s"
    using h(3) len by (simp add: upd_lst_twice s2_def s1_def woken_def)
  moreover have "threads s1 t = Some h"
    using h(1) by (simp add: s1_def)
  ultimately show ?thesis
    using w d h by (simp add: krlsched_up_def td_def Let_def s2_def [symmetric])
qed

lemma woken_fields:
  assumes "p < length (sda_thdlst s)" "w < length (sems s)"
  shows "sda_thdlst (woken t p w s) ! q = (if q = p then (sda_thdlst s ! p)\<lparr>tdl_lsth := tdl_lsth (sda_thdlst s ! p) @ [t],
      tdl_nr := tdl_nr (sda_thdlst s ! p) + 1\<rparr> else sda_thdlst s ! q)"
    and "waiters (woken t p w s) v = (if v = w then tl (waiters s w) else waiters s v)"
    and "wl_tdnr (sem_waitlst (sems (woken t p w s) ! v)) = (if v = w then wl_tdnr (sem_waitlst (sems s ! w)) - 1
       else wl_tdnr (sem_waitlst (sems s ! v)))"
    and "count_of (woken t p w s) v = count_of s v"
    and "ready_at (woken t p w s) q = (if q = p then ready_at s p @ [t] else ready_at s q)"
    and "sda_exitlist (woken t p w s) = sda_exitlist s" "sda_cpuidle (woken t p w s) = sda_cpuidle s"
    "length (sems (woken t p w s)) = length (sems s)" "length (sda_thdlst (woken t p w s)) = length (sda_thdlst s)"
    "sda_currtd (woken t p w s) = sda_currtd s" "sda_schdflgs (woken t p w s) = sda_schdflgs s"
    "sda_premptidx (woken t p w s) = sda_premptidx s"
  using assms by (simp_all add: woken_def nth_upd_lst nth_upd_wl rdy_def)

lemma rdy_append: "rdy (l\<lparr>tdl_lsth := tdl_lsth l @ [t], tdl_nr := n\<rparr>) = rdy l @ [t]"
  by (simp add: rdy_def)

lemma woken_lists:
  assumes ok: "lists_ok s" and w: "w < length (sems s)" "waiters s w = t # ts"
  shows "lists_ok (woken t (prio s t) w s)"
proof -
  let ?p = "prio s t" let ?s = "woken t ?p w s"
  have t: "t \<in> set (waiters s w)"
    using w(2) by simp
  from waiter_thread [OF ok w(1) t] obtain h where h: "threads s t = Some h" "unat (td_priority h) = ?p"
    "?p < 64" .
  note only = wait_only [OF ok w(1) t] and len = lists_okD(1) [OF ok]
  have p: "?p < length (sda_thdlst s)"
    using h(3) len by simp
  note F = woken_fields [OF p w(1), of t]
  have T: "thr ?s u S P = (if u = t then TDSTUS_RUN \<in> S \<and> ?p \<in> P else thr s u S P)" for u S P
    using h by (auto simp: woken_def thr_upd_td)
  have wo: "distinct (t # ts)" "wl_tdnr (sem_waitlst (sems s ! w)) = of_nat (Suc (length ts))"
    "\<forall>u \<in> set ts. thr s u {TDSTUS_WAIT} {..<64}"
    using lists_okD(3) [OF ok w(1)] w(2) by (simp_all add: wait_ok_def)
  have ready: "ready_ok ?s q" if q: "q < 64" for q
  proof (cases "q = ?p")
    case True
    with lists_okD(2) [OF ok q] only(1) [OF q] show ?thesis
      by (auto simp: ready_ok_def F T rdy_append)
  next
    case False
    with lists_okD(2) [OF ok q] only(1) [OF q] show ?thesis
      by (auto simp: ready_ok_def F T)
  qed
  have wait: "wait_ok ?s v" if v: "v < length (sems s)" for v
  proof (cases "v = w")
    case True
    with wo w(2) show ?thesis
      by (auto simp: wait_ok_def F T)
  next
    case False
    with lists_okD(3) [OF ok v] only(2) [OF v False] show ?thesis
      by (auto simp: wait_ok_def F T)
  qed
  have disj: "set (waiters ?s v) \<inter> set (waiters ?s u) = {}"
    if "v < length (sems s)" "u < length (sems s)" "v \<noteq> u" for v u
    using lists_okD(4) [OF ok that] w(2) by (auto simp: F)
  have exit: "thr ?s u {TDSTUS_EXIT} UNIV" if "u \<in> set (sda_exitlist s)" for u
    using lists_okD(6) [OF ok that] only(3) that by (auto simp: T)
  from lists_okD(7) [OF ok] obtain i where i: "sda_cpuidle s = Some i" "threads s i \<noteq> None"
    "\<And>q. q < 64 \<Longrightarrow> i \<notin> set (ready_at s q)" "\<And>v. v < length (sems s) \<Longrightarrow> i \<notin> set (waiters s v)"
    "i \<notin> set (sda_exitlist s)"
    by (auto simp: idle_ok_def)
  have "i \<noteq> t"
    using i(4) [OF w(1)] t by auto
  then have "threads ?s i = threads s i"
    by (simp add: woken_def)
  moreover have "i \<notin> set ts"
    using i(4) [OF w(1)] w(2) by simp
  ultimately have "idle_ok ?s"
    using i \<open>i \<noteq> t\<close> w(2) by (auto simp: idle_ok_def F rdy_append)
  then show ?thesis
    using ready wait disj exit lists_okD(1,5) [OF ok] by (simp add: lists_ok_def F)
qed

text \<open>Waking all waiters: each goes to the end of the ready list of its priority, in the order of the list.\<close>

fun wake_all :: "nat \<Rightarrow> tid list \<Rightarrow> kst \<Rightarrow> kst" where
  "wake_all w [] s = s"
| "wake_all w (t # ts) s = wake_all w ts (woken t (prio s t) w s)"

lemma krlwlst_allup_ok:
  "lists_ok s \<Longrightarrow> w < length (sems s) \<Longrightarrow> waiters s w = ts \<Longrightarrow>
   krlwlst_allup w s = Inr (wake_all w ts s) \<and> lists_ok (wake_all w ts s) \<and> waiters (wake_all w ts s) w = []"
proof (induction ts arbitrary: s)
  case Nil
  then show ?case
    by (simp add: krlwlst_allup.simps [of w] get_list_simps)
next
  case (Cons t ts)
  let ?s = "woken t (prio s t) w s"
  note up = krlsched_up_ok [OF Cons.prems] and lo = woken_lists [OF Cons.prems]
  from waiter_thread [OF Cons.prems(1,2)] have "prio s t < 64"
    using Cons.prems(3) by (metis list.set_intros(1))
  then have p: "prio s t < length (sda_thdlst s)"
    using lists_okD(1) [OF Cons.prems(1)] by simp
  have "waiters ?s w = ts" "w < length (sems ?s)"
    using woken_fields(2,8) [OF p Cons.prems(2), of t] Cons.prems by simp_all
  from Cons.IH [OF lo this(2,1)] up Cons.prems(3) show ?case
    by (simp add: krlwlst_allup.simps [of w s] get_list_simps)
qed

section \<open>Choosing the next thread\<close>

text \<open>The choice at priority \<open>p\<close>, where a thread is ready: the head of the list, and the thread that ran last goes
  to its end; that one again when the list is empty.\<close>

definition chosen :: "thrdlst \<Rightarrow> tid" where
  "chosen l = (case tdl_lsth l of [] \<Rightarrow> the (tdl_curruntd l) | t # _ \<Rightarrow> t)"

definition turn :: "thrdlst \<Rightarrow> thrdlst" where
  "turn l = (case tdl_lsth l of [] \<Rightarrow> l
     | t # ts \<Rightarrow> l\<lparr>tdl_lsth := ts @ (case tdl_curruntd l of None \<Rightarrow> [] | Some c \<Rightarrow> [c]), tdl_curruntd := Some t\<rparr>)"

lemma rdy_turn:
  "rdy (turn l) = (if tdl_curruntd l = None \<or> tdl_lsth l = [] then rdy l else rotate1 (rdy l))"
  by (auto simp: turn_def rdy_def split: list.splits option.splits)

lemma turn_facts:
  "set (rdy (turn l)) = set (rdy l)" "distinct (rdy (turn l)) = distinct (rdy l)"
  "length (rdy (turn l)) = length (rdy l)" "tdl_nr (turn l) = tdl_nr l"
  "rdy l \<noteq> [] \<Longrightarrow> tdl_curruntd (turn l) = Some (chosen l)" "rdy l \<noteq> [] \<Longrightarrow> chosen l \<in> set (rdy l)"
proof -
  show "set (rdy (turn l)) = set (rdy l)" "distinct (rdy (turn l)) = distinct (rdy l)"
    "length (rdy (turn l)) = length (rdy l)"
    by (simp_all add: rdy_turn)
qed (auto simp: turn_def chosen_def rdy_def split: list.splits option.splits)

lemma first_runnable_hd:
  "thr s t {TDSTUS_RUN, TDSTUS_NEW} P \<Longrightarrow> first_runnable s (t # ts) = Inr (Some t)"
  by (auto simp: thr_def td_def)

lemma linked_upd_lst:
  assumes "p < length (sda_thdlst s)" "\<not> linked t s" "t \<notin> set (tdl_lsth (f (sda_thdlst s ! p)))"
  shows "\<not> linked t (upd_lst p f s)"
proof (rule not_linkedI)
  show "t \<notin> set (tdl_lsth (sda_thdlst (upd_lst p f s) ! q))" if "q < length (sda_thdlst (upd_lst p f s))" for q
    using assms that by (auto simp: nth_upd_lst linked_def list_ex_iff)
qed (use assms(2) in \<open>auto simp: linked_def list_ex_iff\<close>)

lemma select_at:
  assumes ok: "lists_ok s" and p: "p < 64" "ready_at s p \<noteq> []"
  shows "select_loop p s = Inr (chosen (sda_thdlst s ! p), upd_lst p turn s)"
proof (cases "tdl_lsth (sda_thdlst s ! p)")
  case Nil
  with p obtain c where c: "tdl_curruntd (sda_thdlst s ! p) = Some c"
    by (auto simp: rdy_def split: option.splits)
  have "upd_lst p turn s = s"
    by (simp add: upd_lst_def turn_def Nil)
  with Nil c p(1) show ?thesis
    by (simp add: select_loop.simps [of p] chosen_def)
next
  case (Cons t ts)
  note r = lists_okD(2) [OF ok p(1)] and len = lists_okD(1) [OF ok]
  have t: "t \<in> set (ready_at s p)"
    using Cons by (simp add: rdy_def)
  note only = ready_only [OF ok p(1) t]
  have d: "distinct (ready_at s p)"
    using r by (simp add: ready_ok_def)
  have fr: "first_runnable s (t # ts) = Inr (Some t)"
    using r t by (intro first_runnable_hd [of _ _ "{p}"]) (simp add: ready_ok_def)
  have "t \<notin> set (tdl_lsth (sda_thdlst s ! q))" if "q < length (sda_thdlst s)" "q \<noteq> p" for q
    using only(1) [of q] that len lsth_nin by auto
  then have dl: "td_list_del t s = upd_lst p (\<lambda>l. l\<lparr>tdl_lsth := ts\<rparr>) s"
    using p(1) len Cons only(2,3) by (subst td_list_del_ready [of p]) (auto simp: upd_lst_def)
  show ?thesis
  proof (cases "tdl_curruntd (sda_thdlst s ! p)")
    case None
    then show ?thesis
      using p(1) len Cons fr dl by (simp add: select_loop.simps [of p] chosen_def turn_def upd_lst_def)
  next
    case (Some c)
    have "\<not> linked c (upd_lst p (\<lambda>l. l\<lparr>tdl_lsth := ts\<rparr>) s)"
      using curr_not_linked [OF ok p(1) Some] p(1) len d Cons Some
      by (intro linked_upd_lst) (auto simp: rdy_def)
    then show ?thesis
      using p(1) len Cons fr dl Some
      by (simp add: select_loop.simps [of p] chosen_def turn_def nth_upd_lst td_list_add_tail_def
          get_list_simps set_list_upd) (simp add: upd_lst_def turn_def)
  qed
qed

lemma select_skip:
  assumes "lists_ok s" "p < 64" "ready_at s p = []"
  shows "select_loop p s = select_loop (Suc p) s"
  using assms(2,3) by (auto simp: select_loop.simps [of p] rdy_def split: option.splits)

definition top_prio :: "kst \<Rightarrow> nat option" where
  "top_prio s = find (\<lambda>p. ready_at s p \<noteq> []) [0..<64]"

lemma top_prio_Some:
  "top_prio s = Some p \<longleftrightarrow> p < 64 \<and> ready_at s p \<noteq> [] \<and> (\<forall>q < p. ready_at s q = [])"
  unfolding top_prio_def find_Some_iff by auto

lemma top_prio_None: "top_prio s = None \<longleftrightarrow> (\<forall>p < 64. ready_at s p = [])"
  by (auto simp: top_prio_def find_None_iff)

lemma select_from:
  assumes ok: "lists_ok s" and "k \<le> p" "\<forall>q. k \<le> q \<and> q < p \<longrightarrow> ready_at s q = []" "p \<le> 64"
  shows "select_loop k s = select_loop p s"
  using assms(2-4)
proof (induction "p - k" arbitrary: k)
  case (Suc d)
  then have "select_loop (Suc k) s = select_loop p s"
    by simp
  with select_skip [OF ok, of k] Suc show ?case
    by simp
qed simp

lemma krlsched_select_thread_ok:
  assumes ok: "lists_ok s"
  shows "top_prio s = Some p \<Longrightarrow> krlsched_select_thread s = Inr (chosen (sda_thdlst s ! p), upd_lst p turn s)"
    and "top_prio s = None \<Longrightarrow> krlsched_select_thread s = Inr (the (sda_cpuidle s), s\<lparr>sda_prityidx := PRITY_MIN\<rparr>)"
proof -
  show "krlsched_select_thread s = Inr (chosen (sda_thdlst s ! p), upd_lst p turn s)" if "top_prio s = Some p"
  proof -
    have p: "p < 64" "ready_at s p \<noteq> []" "\<forall>q < p. ready_at s q = []"
      using that by (simp_all add: top_prio_Some)
    then have "select_loop 0 s = select_loop p s"
      by (intro select_from [OF ok]) auto
    with select_at [OF ok p(1,2)] show ?thesis
      by (simp add: krlsched_select_thread_def)
  qed
  show "krlsched_select_thread s = Inr (the (sda_cpuidle s), s\<lparr>sda_prityidx := PRITY_MIN\<rparr>)" if "top_prio s = None"
  proof -
    have "select_loop 0 s = select_loop 64 s"
      using that by (intro select_from [OF ok]) (simp_all add: top_prio_None)
    with lists_okD(7) [OF ok] show ?thesis
      by (auto simp: krlsched_select_thread_def select_loop.simps [of 64] krlsched_retn_idlethread_def idle_ok_def)
  qed
qed

lemma lists_ok_turn:
  assumes ok: "lists_ok s" and p: "p < 64"
  shows "lists_ok (upd_lst p turn s)"
proof -
  have "ready_at (upd_lst p turn s) q = (if q = p then rdy (turn (sda_thdlst s ! p)) else ready_at s q)" for q
    using p lists_okD(1) [OF ok] by (simp add: nth_upd_lst)
  then have "set (ready_at (upd_lst p turn s) q) = set (ready_at s q)"
    "distinct (ready_at (upd_lst p turn s) q) = distinct (ready_at s q)"
    "length (ready_at (upd_lst p turn s) q) = length (ready_at s q)" for q
    by (auto simp: turn_facts)
  moreover have "tdl_nr (sda_thdlst (upd_lst p turn s) ! q) = tdl_nr (sda_thdlst s ! q)" for q
    using p lists_okD(1) [OF ok] by (simp add: nth_upd_lst turn_facts)
  ultimately show ?thesis
    using ok by (simp add: lists_ok_def ready_ok_def wait_ok_def idle_ok_def)
qed

text \<open>A status change between running and new, and fields the invariant does not read.\<close>

lemma lists_ok_thr:
  assumes "lists_ok s" "sda_thdlst s' = sda_thdlst s" "sems s' = sems s" "sda_exitlist s' = sda_exitlist s"
    "sda_cpuidle s' = sda_cpuidle s" "\<And>t. threads s t \<noteq> None \<Longrightarrow> threads s' t \<noteq> None"
    "\<And>t p. thr s t {TDSTUS_RUN, TDSTUS_NEW} {p} \<Longrightarrow> thr s' t {TDSTUS_RUN, TDSTUS_NEW} {p}"
    "\<And>t. thr s t {TDSTUS_WAIT} {..<64} \<Longrightarrow> thr s' t {TDSTUS_WAIT} {..<64}"
    "\<And>t. thr s t {TDSTUS_EXIT} UNIV \<Longrightarrow> thr s' t {TDSTUS_EXIT} UNIV"
  shows "lists_ok s'"
proof -
  from lists_okD(7) [OF assms(1)] obtain i where "sda_cpuidle s = Some i" "threads s i \<noteq> None"
    "\<forall>p < 64. i \<notin> set (ready_at s p)" "\<forall>w < length (sems s). i \<notin> set (waiters s w)" "i \<notin> set (sda_exitlist s)"
    unfolding idle_ok_def by blast
  then have "idle_ok s'"
    using assms(2-6) unfolding idle_ok_def by simp
  with assms show ?thesis
    unfolding lists_ok_def ready_ok_def wait_ok_def by simp
qed

definition switched :: "tid \<Rightarrow> kst \<Rightarrow> kst" where
  "switched t s = (case threads s t of None \<Rightarrow> s | Some h \<Rightarrow>
     upd_td t (\<lambda>h. h\<lparr>td_context := (td_context h)\<lparr>ctx_nexttss := hal_retn_cpuid\<rparr>,
         td_stus := if td_stus h = TDSTUS_NEW then TDSTUS_RUN else td_stus h\<rparr>)
       (s\<lparr>sda_currtd := Some t, tss_rsp0 := td_krlstktop h, cur_mm := td_mmdsc h\<rparr>))"

lemma to_new_context_ok:
  "threads s t \<noteq> None \<Longrightarrow> to_new_context t s = Inr (switched t s)"
  by (auto simp: to_new_context_def td_def switched_def upd_td_def Let_def)

lemma switched_fields [simp]:
  "sda_thdlst (switched t s) = sda_thdlst s" "sems (switched t s) = sems s" "sda_exitlist (switched t s) = sda_exitlist s"
  "sda_cpuidle (switched t s) = sda_cpuidle s" "sda_schdflgs (switched t s) = sda_schdflgs s"
  "threads s t \<noteq> None \<Longrightarrow> sda_currtd (switched t s) = Some t"
  by (auto simp: switched_def split: option.splits)

lemma thr_switched:
  "thr (switched t s) u S P \<longleftrightarrow> (if u = t then \<exists>h. threads s t = Some h \<and>
     (if td_stus h = TDSTUS_NEW then TDSTUS_RUN else td_stus h) \<in> S \<and> unat (td_priority h) \<in> P else thr s u S P)"
  by (cases "threads s t") (auto simp: switched_def thr_def)

lemma lists_ok_switched: "lists_ok s \<Longrightarrow> lists_ok (switched t s)"
  by (rule lists_ok_thr [of s])
    (auto simp: thr_switched thr_def, auto simp: switched_def split: option.splits)

text \<open>What \<open>krlschedul\<close> does: the state after it and the thread that runs.\<close>

definition scheduled :: "kst \<Rightarrow> kst" where
  "scheduled s = (case top_prio s of
       Some p \<Rightarrow> switched (chosen (sda_thdlst s ! p)) (upd_lst p turn s)
     | None \<Rightarrow> switched (the (sda_cpuidle s)) (s\<lparr>sda_prityidx := PRITY_MIN\<rparr>))"

lemma lists_ok_prityidx [simp]: "lists_ok (s\<lparr>sda_prityidx := n\<rparr>) = lists_ok s"
  by (simp add: lists_ok_def ready_ok_def wait_ok_def idle_ok_def)

lemma chosen_exists:
  assumes ok: "lists_ok s" and p: "p < 64" "ready_at s p \<noteq> []"
  shows "threads s (chosen (sda_thdlst s ! p)) \<noteq> None"
  using lists_okD(2) [OF ok p(1)] turn_facts(6) [OF p(2)] by (auto simp: ready_ok_def thr_def)

lemma krlschedul_ok:
  assumes ok: "lists_ok s" and c: "sda_currtd s \<noteq> None" "sda_schdflgs s \<noteq> NEED_START_CPUILDE_SCHED_FLGS"
  shows "krlschedul s = Inr (scheduled s) \<and> lists_ok (scheduled s) \<and> running_ok (scheduled s)"
proof (cases "top_prio s")
  case None
  from lists_okD(7) [OF ok] obtain i where i: "sda_cpuidle s = Some i" "threads s i \<noteq> None"
    by (auto simp: idle_ok_def)
  let ?s = "s\<lparr>sda_prityidx := PRITY_MIN\<rparr>"
  have "to_new_context i ?s = Inr (switched i ?s)"
    using i(2) by (intro to_new_context_ok) simp
  moreover have "running_ok (switched i ?s)"
    using i by (auto simp: running_ok_def)
  ultimately show ?thesis
    using c i None krlsched_select_thread_ok(2) [OF ok None] lists_ok_switched [of ?s] ok
    by (auto simp: krlschedul_def krlsched_retn_schedflgs_def krlsched_retn_currthread_def scheduled_def)
next
  case (Some p)
  then have p: "p < 64" "ready_at s p \<noteq> []"
    by (simp_all add: top_prio_Some)
  let ?t = "chosen (sda_thdlst s ! p)" let ?s = "upd_lst p turn s"
  have t: "threads ?s ?t \<noteq> None"
    using chosen_exists [OF ok p] by simp
  have "tdl_curruntd (sda_thdlst ?s ! p) = Some ?t"
    using p lists_okD(1) [OF ok] by (simp add: nth_upd_lst turn_facts)
  then have "running_ok (switched ?t ?s)"
    using t p(1) by (auto simp: running_ok_def)
  then show ?thesis
    using c Some krlsched_select_thread_ok(1) [OF ok Some] to_new_context_ok [OF t]
      lists_ok_switched [OF lists_ok_turn [OF ok p(1)]]
    by (auto simp: krlschedul_def krlsched_retn_schedflgs_def krlsched_retn_currthread_def scheduled_def)
qed

lemma scheduled_fields [simp]:
  "sems (scheduled s) = sems s" "sda_schdflgs (scheduled s) = sda_schdflgs s"
  by (simp_all add: scheduled_def split: option.splits)

section \<open>Semaphores\<close>

lemma sched_invD:
  assumes "sched_inv s"
  shows "lists_ok s" "sems_ok s" "running_ok s" "sda_schdflgs s \<noteq> NEED_START_CPUILDE_SCHED_FLGS" "sda_currtd s \<noteq> None"
  using assms by (auto simp: sched_inv_def running_ok_def)

lemma sems_okD:
  "sems_ok s \<Longrightarrow> w < length (sems s) \<Longrightarrow> 0 \<le> count_of s w"
  "sems_ok s \<Longrightarrow> w < length (sems s) \<Longrightarrow> 1 \<le> count_of s w \<Longrightarrow> waiters s w = []"
  by (auto simp: sems_ok_def lost_wakeup_def)

lemma set_count_fields:
  assumes "w < length (sems s)"
  shows "count_of (set_count w c s) v = (if v = w then c else count_of s v)"
    "sem_waitlst (sems (set_count w c s) ! v) = sem_waitlst (sems s ! v)"
  using assms by (simp_all add: set_count_def nth_list_update)

lemma set_count_same [simp]:
  "sda_thdlst (set_count w c s) = sda_thdlst s" "sda_exitlist (set_count w c s) = sda_exitlist s"
  "sda_cpuidle (set_count w c s) = sda_cpuidle s" "sda_currtd (set_count w c s) = sda_currtd s"
  "sda_schdflgs (set_count w c s) = sda_schdflgs s" "threads (set_count w c s) = threads s"
  "length (sems (set_count w c s)) = length (sems s)" "thr (set_count w c s) u S P = thr s u S P"
  by (simp_all add: set_count_def thr_def)

lemma set_count_lists:
  assumes "lists_ok s" "w < length (sems s)"
  shows "lists_ok (set_count w c s)"
  using assms by (simp add: lists_ok_def ready_ok_def wait_ok_def idle_ok_def set_count_fields)

definition not_idle :: "kst \<Rightarrow> bool" where
  "not_idle s \<longleftrightarrow> sda_currtd s \<noteq> sda_cpuidle s"

lemma running_at:
  assumes "running_ok s" "not_idle s"
  obtains t p where "sda_currtd s = Some t" "p < 64" "tdl_curruntd (sda_thdlst s ! p) = Some t"
  using assms by (auto simp: running_ok_def not_idle_def)

lemma waited_fields:
  assumes "w < length (sems s)"
  shows "count_of (waited t p w s) v = count_of s v"
    "waiters (waited t p w s) v = (if v = w then t # waiters s w else waiters s v)"
    "sda_currtd (waited t p w s) = sda_currtd s" "sda_schdflgs (waited t p w s) = sda_schdflgs s"
    "length (sems (waited t p w s)) = length (sems s)"
  using assms by (simp_all add: waited_def nth_upd_wl)

lemma krlsem_down_take:
  assumes inv: "sched_inv s" and w: "w < length (sems s)" and c: "1 \<le> count_of s w"
  shows "krlsem_down w s = Inr (True, set_count w (count_of s w - 1) s) \<and> sched_inv (set_count w (count_of s w - 1) s)"
proof -
  note i = sched_invD [OF inv]
  have "sems_ok (set_count w (count_of s w - 1) s)"
    using i(2) c by (auto simp: sems_ok_def lost_wakeup_def set_count_fields [OF w])
  moreover have "running_ok (set_count w (count_of s w - 1) s)"
    using i(3) by (simp add: running_ok_def)
  ultimately show ?thesis
    using i set_count_lists [OF i(1) w] w c by (simp add: krlsem_down_def sched_inv_def)
qed

lemma krlsem_down_block:
  assumes inv: "sched_inv s" and w: "w < length (sems s)" and c: "count_of s w < 1" and ni: "not_idle s"
  shows "\<exists>t p. sda_currtd s = Some t \<and> krlsem_down w s = Inr (False, scheduled (waited t p w s)) \<and>
    sched_inv (scheduled (waited t p w s))"
proof -
  note i = sched_invD [OF inv]
  from running_at [OF i(3) ni] obtain t p where t: "sda_currtd s = Some t" "p < 64"
    "tdl_curruntd (sda_thdlst s ! p) = Some t" .
  let ?s = "waited t p w s"
  have lo: "lists_ok ?s"
    by (rule waited_lists [OF i(1) t(2,3) w])
  note F = waited_fields [OF w, of t p]
  have sch: "krlschedul ?s = Inr (scheduled ?s) \<and> lists_ok (scheduled ?s) \<and> running_ok (scheduled ?s)"
    by (rule krlschedul_ok [OF lo]) (use t i(4) in \<open>simp_all add: F\<close>)
  have "sems_ok (scheduled ?s)"
    using i(2) c by (auto simp: sems_ok_def lost_wakeup_def F)
  then have "sched_inv (scheduled ?s)"
    using sch i(4) by (simp add: sched_inv_def F)
  moreover have "krlsem_down w s = Inr (False, scheduled ?s)"
    using w c sch krlsched_wait_ok [OF i(1) t w] by (simp add: krlsem_down_def krlwlst_wait_def)
  ultimately show ?thesis
    using t(1) by blast
qed

lemma wake_all_fields:
  "lists_ok s \<Longrightarrow> w < length (sems s) \<Longrightarrow> waiters s w = ts \<Longrightarrow>
   count_of (wake_all w ts s) v = count_of s v \<and> (v \<noteq> w \<longrightarrow> waiters (wake_all w ts s) v = waiters s v) \<and>
   length (sems (wake_all w ts s)) = length (sems s) \<and> sda_currtd (wake_all w ts s) = sda_currtd s \<and>
   sda_cpuidle (wake_all w ts s) = sda_cpuidle s \<and> sda_schdflgs (wake_all w ts s) = sda_schdflgs s \<and>
   tdl_curruntd (sda_thdlst (wake_all w ts s) ! q) = tdl_curruntd (sda_thdlst s ! q)"
proof (induction ts arbitrary: s)
  case (Cons t ts)
  let ?s = "woken t (prio s t) w s"
  from waiter_thread [OF Cons.prems(1,2)] have "prio s t < 64"
    using Cons.prems(3) by (metis list.set_intros(1))
  then have p: "prio s t < length (sda_thdlst s)"
    using lists_okD(1) [OF Cons.prems(1)] by simp
  note F = woken_fields [OF p Cons.prems(2), of t]
  have "waiters ?s w = ts" "w < length (sems ?s)"
    using F(2,8) Cons.prems by simp_all
  from Cons.IH [OF woken_lists [OF Cons.prems] this(2,1)] show ?case
    by (simp add: F)
qed simp

definition upped :: "nat \<Rightarrow> kst \<Rightarrow> kst" where
  "upped w s = krlsched_set_schedflgs (wake_all w (waiters s w) (set_count w (count_of s w + 1) s))"

lemma flags_distinct [simp]: "NEED_SCHED_FLGS \<noteq> NEED_START_CPUILDE_SCHED_FLGS"
  "NOTS_SCHED_FLGS \<noteq> NEED_START_CPUILDE_SCHED_FLGS" "NOTS_SCHED_FLGS \<noteq> NEED_SCHED_FLGS"
  by (simp_all add: NEED_SCHED_FLGS_def NEED_START_CPUILDE_SCHED_FLGS_def NOTS_SCHED_FLGS_def)

lemma flag_same [simp]:
  "lists_ok (s\<lparr>sda_schdflgs := f\<rparr>) = lists_ok s" "running_ok (s\<lparr>sda_schdflgs := f\<rparr>) = running_ok s"
  "sems_ok (s\<lparr>sda_schdflgs := f\<rparr>) = sems_ok s"
  by (simp_all add: lists_ok_def ready_ok_def wait_ok_def idle_ok_def running_ok_def sems_ok_def lost_wakeup_def)

lemma krlsem_up_ok:
  assumes inv: "sched_inv s" and w: "w < length (sems s)" and c: "count_of s w < 2 ^ 63 - 1"
  shows "krlsem_up w s = Inr (upped w s) \<and> sched_inv (upped w s) \<and> waiters (upped w s) w = [] \<and>
    count_of (upped w s) w = count_of s w + 1"
proof -
  note i = sched_invD [OF inv]
  let ?s1 = "set_count w (count_of s w + 1) s" let ?ts = "waiters s w"
  have lo: "lists_ok ?s1" and w1: "w < length (sems ?s1)" and wt: "waiters ?s1 w = ?ts"
    using set_count_lists [OF i(1) w] w by (simp_all add: set_count_fields)
  note al = krlwlst_allup_ok [OF lo w1 wt] and F = wake_all_fields [OF lo w1 wt]
  have c0: "0 \<le> count_of s w"
    by (rule sems_okD(1) [OF i(2) w])
  have "sems_ok (wake_all w ?ts ?s1)"
    unfolding sems_ok_def
  proof (intro allI impI)
    fix v assume "v < length (sems (wake_all w ?ts ?s1))"
    then have v: "v < length (sems s)"
      using F [of v 0] by simp
    show "0 \<le> count_of (wake_all w ?ts ?s1) v \<and> \<not> lost_wakeup (wake_all w ?ts ?s1) v"
      using i(2) v c0 al F [of v 0] by (cases "v = w") (auto simp: sems_ok_def lost_wakeup_def set_count_fields [OF w])
  qed
  moreover have "running_ok (wake_all w ?ts ?s1)"
    using i(3) F by (simp add: running_ok_def)
  moreover have "krlsem_up w s = Inr (upped w s)"
    using w c c0 al by (simp add: krlsem_up_def upped_def Let_def set_count_fields)
  ultimately show ?thesis
    using al F [of w 0] by (simp add: sched_inv_def upped_def krlsched_set_schedflgs_def set_count_fields [OF w])
qed

section \<open>The clock and preemption\<close>

lemma inv_td_ticks:
  assumes "sched_inv s"
  shows "sched_inv (upd_td t (\<lambda>h. h\<lparr>td_tick := a h, td_sumtick := b h\<rparr>) s)"
proof -
  note i = sched_invD [OF assms]
  let ?s = "upd_td t (\<lambda>h. h\<lparr>td_tick := a h, td_sumtick := b h\<rparr>) s"
  have "thr ?s u S P = thr s u S P" for u S P
    by (auto simp: thr_def)
  then have "lists_ok ?s"
    using i(1) by (intro lists_ok_thr [OF i(1)]) auto
  then show ?thesis
    using i by (simp add: sched_inv_def sems_ok_def running_ok_def lost_wakeup_def)
qed

lemma krlthd_inc_tick_ok:
  assumes inv: "sched_inv s" and t: "threads s t \<noteq> None"
  shows "\<exists>s'. krlthd_inc_tick t s = Inr s' \<and> sched_inv s' \<and> sda_currtd s' = sda_currtd s \<and> sems s' = sems s"
proof -
  obtain h where h: "threads s t = Some h"
    using t by blast
  let ?tick = "td_tick h + 1"
  let ?s = "upd_td t (\<lambda>h. h\<lparr>td_tick := ?tick, td_sumtick := td_sumtick h + 1\<rparr>) s"
  have i: "sched_inv ?s"
    by (rule inv_td_ticks [OF inv])
  show ?thesis
  proof (cases "TDRUN_TICK < ?tick")
    case True
    have "upd_td t (\<lambda>h. h\<lparr>td_tick := 0\<rparr>) ?s = upd_td t (\<lambda>h. h\<lparr>td_tick := 0, td_sumtick := td_sumtick h\<rparr>) ?s"
      by (simp add: upd_td_def)
    then have "sched_inv (upd_td t (\<lambda>h. h\<lparr>td_tick := 0\<rparr>) ?s)"
      using inv_td_ticks [OF i, where t = t and a = "\<lambda>_. 0" and b = td_sumtick] by simp
    then have "sched_inv (krlsched_set_schedflgs (upd_td t (\<lambda>h. h\<lparr>td_tick := 0\<rparr>) ?s))"
      by (simp add: sched_inv_def krlsched_set_schedflgs_def)
    with True h show ?thesis
      by (simp add: krlthd_inc_tick_def td_def Let_def) (simp add: krlsched_set_schedflgs_def)
  next
    case False
    with h i show ?thesis
      by (simp add: krlthd_inc_tick_def td_def Let_def)
  qed
qed

lemma scheduled_inv:
  assumes "sched_inv s"
  shows "krlschedul s = Inr (scheduled s)" "sched_inv (scheduled s)"
proof -
  note i = sched_invD [OF assms]
  note k = krlschedul_ok [OF i(1,5,4)]
  then show "krlschedul s = Inr (scheduled s)" by blast
  show "sched_inv (scheduled s)"
    using k i(2,4) by (simp add: sched_inv_def sems_ok_def lost_wakeup_def)
qed

lemma krlsched_chkneed_pmptsched_ok:
  assumes inv: "sched_inv s"
  shows "\<exists>s'. krlsched_chkneed_pmptsched s = Inr s' \<and> sched_inv s' \<and> sems s' = sems s"
proof (cases "sda_schdflgs s = NEED_SCHED_FLGS \<and> sda_premptidx s = PMPT_FLGS")
  case True
  have "sched_inv (s\<lparr>sda_schdflgs := NOTS_SCHED_FLGS\<rparr>)"
    using inv by (simp add: sched_inv_def)
  from scheduled_inv [OF this] True show ?thesis
    by (simp add: krlsched_chkneed_pmptsched_def Let_def)
next
  case False
  with inv show ?thesis
    by (auto simp: krlsched_chkneed_pmptsched_def Let_def sched_inv_def)
qed

section \<open>Exit\<close>

definition exited :: "tid \<Rightarrow> nat \<Rightarrow> kst \<Rightarrow> kst" where
  "exited t p s = (upd_td t (\<lambda>h. h\<lparr>td_stus := TDSTUS_EXIT\<rparr>)
     (upd_lst p (\<lambda>l. l\<lparr>tdl_nr := tdl_nr l - 1, tdl_curruntd := None\<rparr>)
       (s\<lparr>sda_threadnr := sda_threadnr s - 1\<rparr>)))\<lparr>sda_exitlist := t # sda_exitlist s\<rparr>"

lemma krlsched_exit_ok:
  assumes ok: "lists_ok s" and c: "sda_currtd s = Some t" "sda_cpuidle s \<noteq> Some t"
    and p: "p < 64" "tdl_curruntd (sda_thdlst s ! p) = Some t"
  shows "krlsched_exit s = Inr (exited t p s)"
proof -
  note nl = curr_not_linked [OF ok p]
  note r = lists_okD(2) [OF ok p(1)] and len = lists_okD(1) [OF ok]
  have "t \<in> set (ready_at s p)"
    using p by (simp add: rdy_simps)
  with r obtain h where h: "threads s t = Some h" "unat (td_priority h) = p"
    by (auto simp: ready_ok_def thr_def)
  have "0 < length (ready_at s p)"
    using p by (simp add: rdy_simps)
  then have nr: "\<not> tdl_nr (sda_thdlst s ! p) < 1"
    using r cnt_less_1 [OF ready_len [OF ok p(1)]] by (simp add: ready_ok_def)
  obtain i where i: "sda_cpuidle s = Some i" "i \<noteq> t"
    using lists_okD(7) [OF ok] c(2) by (auto simp: idle_ok_def)
  define s1 where "s1 = upd_lst p (\<lambda>l. l\<lparr>tdl_nr := tdl_nr l - 1, tdl_curruntd := None\<rparr>)
     (s\<lparr>sda_threadnr := sda_threadnr s - 1\<rparr>)"
  have s1: "upd_lst p (\<lambda>l. if tdl_curruntd l = Some t then l\<lparr>tdl_curruntd := None\<rparr> else l)
      ((upd_lst p (\<lambda>l. l\<lparr>tdl_nr := tdl_nr l - 1\<rparr>) s)\<lparr>sda_threadnr := sda_threadnr s - 1\<rparr>) = s1"
    using p len by (simp add: s1_def upd_lst_def)
  have nl1: "\<not> linked t s1"
  proof -
    have "\<not> linked t (s\<lparr>sda_threadnr := sda_threadnr s - 1\<rparr>)"
      using nl by (simp add: linked_def)
    then show ?thesis
      unfolding s1_def using distinct_ready_tl [OF r p(2)] p(1) len by (intro linked_upd_lst) simp_all
  qed
  have thr: "sda_threadnr (upd_lst p (\<lambda>l. l\<lparr>tdl_nr := tdl_nr l - 1\<rparr>) s) = sda_threadnr s"
    by (simp add: upd_lst_def)
  have "krlschdclass_del_thread_addexit t s = Inr (exited t p s)"
    using h p(1) nl1 s1 td_list_del_none [OF nl1]
    by (simp add: krlschdclass_del_thread_addexit_def td_def Let_def thr td_list_add_def set_list_def get_list_def)
      (simp add: s1_def exited_def upd_td_def upd_lst_def)
  with c h p(1) nr i show ?thesis
    by (simp add: krlsched_exit_def krlsched_retn_currthread_def krlsched_retn_idlethread_def td_def Let_def)
qed

lemma exited_lists:
  assumes ok: "lists_ok s" and p: "p < 64" "tdl_curruntd (sda_thdlst s ! p) = Some t"
  shows "lists_ok (exited t p s)"
proof -
  let ?s = "exited t p s"
  note len = lists_okD(1) [OF ok]
  have tr: "t \<in> set (ready_at s p)"
    using p by (simp add: rdy_simps)
  note only = ready_only [OF ok p(1) tr]
  have L: "sda_thdlst ?s ! q = (if q = p then (sda_thdlst s ! p)\<lparr>tdl_nr := tdl_nr (sda_thdlst s ! p) - 1, tdl_curruntd := None\<rparr>
      else sda_thdlst s ! q)" for q
    using p len by (simp add: exited_def nth_upd_lst)
  have R: "ready_at ?s q = (if q = p then tdl_lsth (sda_thdlst s ! p) else ready_at s q)" for q
    by (simp add: L rdy_simps)
  have T: "thr ?s u S P = (if u = t then \<exists>h. threads s t = Some h \<and> TDSTUS_EXIT \<in> S \<and> unat (td_priority h) \<in> P else thr s u S P)"
    for u S P
    by (auto simp: exited_def thr_upd_td)
  have ex: "sda_exitlist ?s = t # sda_exitlist s" "sda_cpuidle ?s = sda_cpuidle s" "sems ?s = sems s"
    "length (sda_thdlst ?s) = length (sda_thdlst s)"
    by (simp_all add: exited_def)
  obtain h where h: "threads s t = Some h" "unat (td_priority h) = p"
    using lists_okD(2) [OF ok p(1)] tr by (auto simp: ready_ok_def thr_def)
  have ready: "ready_ok ?s q" if q: "q < 64" for q
  proof (cases "q = p")
    case True
    with lists_okD(2) [OF ok p(1)] p(2) show ?thesis
      by (auto simp: ready_ok_def R L T rdy_simps)
  next
    case False
    with lists_okD(2) [OF ok q] only(1) [OF q] show ?thesis
      by (auto simp: ready_ok_def R L T)
  qed
  have wait: "wait_ok ?s v" if v: "v < length (sems s)" for v
    using lists_okD(3) [OF ok v] only(2) [OF v] by (auto simp: wait_ok_def T ex)
  have exit: "thr ?s u {TDSTUS_EXIT} UNIV" if "u \<in> set (sda_exitlist ?s)" for u
    using lists_okD(6) [OF ok, of u] only(3) that h by (auto simp: T ex)
  from lists_okD(7) [OF ok] obtain i where i: "sda_cpuidle s = Some i" "threads s i \<noteq> None"
    "\<And>q. q < 64 \<Longrightarrow> i \<notin> set (ready_at s q)" "\<And>v. v < length (sems s) \<Longrightarrow> i \<notin> set (waiters s v)"
    "i \<notin> set (sda_exitlist s)"
    by (auto simp: idle_ok_def)
  then have "i \<noteq> t" "i \<notin> set (tdl_lsth (sda_thdlst s ! p))"
    using tr p(1) set_rdy(1) by blast+
  moreover from this(1) have "threads ?s i = threads s i"
    by (simp add: exited_def)
  ultimately have "idle_ok ?s"
    using i by (auto simp: idle_ok_def ex R)
  then show ?thesis
    using ready wait exit lists_okD(1,4,5) [OF ok] only(3) by (simp add: lists_ok_def ex)
qed

lemma krlsve_core_exit_thread_ok:
  assumes inv: "sched_inv s" and ni: "not_idle s"
  shows "\<exists>t p. sda_currtd s = Some t \<and> krlsve_core_exit_thread s = Inr (scheduled (exited t p s)) \<and>
    sched_inv (scheduled (exited t p s))"
proof -
  note i = sched_invD [OF inv]
  from running_at [OF i(3) ni] obtain t p where t: "sda_currtd s = Some t" "p < 64"
    "tdl_curruntd (sda_thdlst s ! p) = Some t" .
  let ?s = "exited t p s"
  have e: "krlsched_exit s = Inr ?s"
    by (rule krlsched_exit_ok [OF i(1) t(1) _ t(2,3)]) (use t(1) ni in \<open>simp add: not_idle_def\<close>)
  have f: "sda_currtd ?s = sda_currtd s" "sda_schdflgs ?s = sda_schdflgs s" "sems ?s = sems s"
    by (simp_all add: exited_def)
  have sch: "krlschedul ?s = Inr (scheduled ?s) \<and> lists_ok (scheduled ?s) \<and> running_ok (scheduled ?s)"
    by (rule krlschedul_ok [OF exited_lists [OF i(1) t(2,3)]]) (use i(4,5) in \<open>simp_all add: f\<close>)
  moreover have "sems_ok (scheduled ?s)"
    using i(2) by (simp add: sems_ok_def lost_wakeup_def f)
  ultimately have "sched_inv (scheduled ?s)"
    using i(4) by (simp add: sched_inv_def f)
  then show ?thesis
    using e sch t(1) by (auto simp: krlsve_core_exit_thread_def)
qed

section \<open>New threads\<close>

text \<open>The address of a new thread is not that of an existing one.\<close>

definition fresh :: "tid \<Rightarrow> kst \<Rightarrow> bool" where
  "fresh t s \<longleftrightarrow> threads s t = None"

lemma fresh_nowhere:
  assumes ok: "lists_ok s" and t: "fresh t s"
  shows "p < 64 \<Longrightarrow> t \<notin> set (ready_at s p)" "w < length (sems s) \<Longrightarrow> t \<notin> set (waiters s w)"
    "t \<notin> set (sda_exitlist s)" "sda_cpuidle s \<noteq> Some t" "\<not> linked t s"
proof -
  have n: "\<not> thr s t S P" for S P
    using t by (simp add: thr_def fresh_def)
  show r: "p < 64 \<Longrightarrow> t \<notin> set (ready_at s p)" for p
    using lists_okD(2) [OF ok] n by (auto simp: ready_ok_def)
  show w: "w < length (sems s) \<Longrightarrow> t \<notin> set (waiters s w)" for w
    using lists_okD(3) [OF ok] n by (auto simp: wait_ok_def)
  show e: "t \<notin> set (sda_exitlist s)"
    using lists_okD(6) [OF ok] n by auto
  show "sda_cpuidle s \<noteq> Some t"
    using lists_okD(7) [OF ok] t by (auto simp: idle_ok_def fresh_def)
  show "\<not> linked t s"
    by (rule not_linkedI) (use w e r lists_okD(1) [OF ok] lsth_nin in \<open>auto; metis\<close>)+
qed

text \<open>The scheduler's state after the thread \<open>t\<close>, described by \<open>h\<close>, was made and added.\<close>

definition added :: "tid \<Rightarrow> thread \<Rightarrow> kst \<Rightarrow> kst" where
  "added t h s = (upd_lst (unat (td_priority h)) (\<lambda>l. l\<lparr>tdl_lsth := t # tdl_lsth l, tdl_nr := tdl_nr l + 1\<rparr>)
     (s\<lparr>threads := (threads s)(t \<mapsto> h)\<rparr>))
     \<lparr>sda_threadnr := sda_threadnr s + 1, scls_threadnr := scls_threadnr s + 1\<rparr>"

lemma krlschdclass_add_thread_ok:
  assumes "lists_ok s" "fresh t s" "unat (td_priority h) < 64"
  shows "krlschdclass_add_thread t (s\<lparr>threads := (threads s)(t \<mapsto> h)\<rparr>) = Inr (added t h s)"
proof -
  have "\<not> linked t (s\<lparr>threads := (threads s)(t \<mapsto> h)\<rparr>)"
    using fresh_nowhere(5) [OF assms(1,2)] by (simp add: linked_def)
  then show ?thesis
    using assms(3) lists_okD(1) [OF assms(1)]
    by (simp add: krlschdclass_add_thread_def td_def Let_def td_list_add_def set_list_def get_list_def)
      (simp add: added_def upd_lst_def)
qed

lemma rdy_cons: "set (rdy (l\<lparr>tdl_lsth := t # tdl_lsth l, tdl_nr := n\<rparr>)) = insert t (set (rdy l))"
  "length (rdy (l\<lparr>tdl_lsth := t # tdl_lsth l, tdl_nr := n\<rparr>)) = Suc (length (rdy l))"
  "t \<notin> set (rdy l) \<Longrightarrow> distinct (rdy (l\<lparr>tdl_lsth := t # tdl_lsth l, tdl_nr := n\<rparr>)) = distinct (rdy l)"
  by (auto simp: rdy_def split: option.splits)

lemma added_inv:
  assumes inv: "sched_inv s" and t: "fresh t s" and h: "unat (td_priority h) < 64" "td_stus h = TDSTUS_NEW"
  shows "sched_inv (added t h s)"
proof -
  note i = sched_invD [OF inv]
  note ok = i(1)
  let ?s = "added t h s" let ?p = "unat (td_priority h)"
  note fn = fresh_nowhere [OF ok t] and len = lists_okD(1) [OF ok]
  have L: "sda_thdlst ?s ! q = (if q = ?p then (sda_thdlst s ! ?p)\<lparr>tdl_lsth := t # tdl_lsth (sda_thdlst s ! ?p),
      tdl_nr := tdl_nr (sda_thdlst s ! ?p) + 1\<rparr> else sda_thdlst s ! q)" for q
    using h len by (simp add: added_def nth_upd_lst)
  have T: "thr ?s u S P = (if u = t then TDSTUS_NEW \<in> S \<and> ?p \<in> P else thr s u S P)" for u S P
    using h by (auto simp: added_def thr_def)
  have ex: "sda_exitlist ?s = sda_exitlist s" "sda_cpuidle ?s = sda_cpuidle s" "sems ?s = sems s"
    "length (sda_thdlst ?s) = length (sda_thdlst s)" "sda_schdflgs ?s = sda_schdflgs s" "sda_currtd ?s = sda_currtd s"
    by (simp_all add: added_def)
  have ready: "ready_ok ?s q" if q: "q < 64" for q
    using lists_okD(2) [OF ok q] fn(1) [OF q] by (auto simp: ready_ok_def L T rdy_cons)
  have wait: "wait_ok ?s v" if v: "v < length (sems s)" for v
    using lists_okD(3) [OF ok v] fn(2) [OF v] by (auto simp: wait_ok_def T ex)
  have exit: "thr ?s u {TDSTUS_EXIT} UNIV" if "u \<in> set (sda_exitlist ?s)" for u
    using lists_okD(6) [OF ok, of u] fn(3) that by (auto simp: T ex)
  from lists_okD(7) [OF ok] obtain j where j: "sda_cpuidle s = Some j" "threads s j \<noteq> None"
    "\<And>q. q < 64 \<Longrightarrow> j \<notin> set (ready_at s q)" "\<And>v. v < length (sems s) \<Longrightarrow> j \<notin> set (waiters s v)"
    "j \<notin> set (sda_exitlist s)"
    by (auto simp: idle_ok_def)
  moreover have "j \<noteq> t"
    using fn(4) j(1) by auto
  moreover from this have "threads ?s j = threads s j"
    by (simp add: added_def)
  ultimately have "idle_ok ?s"
    by (auto simp: idle_ok_def ex L rdy_cons)
  then have "lists_ok ?s"
    using ready wait exit lists_okD(1,4,5) [OF ok] by (simp add: lists_ok_def ex)
  moreover have "running_ok ?s"
  proof -
    have "tdl_curruntd (sda_thdlst ?s ! q) = tdl_curruntd (sda_thdlst s ! q)" for q
      by (simp add: L)
    then show ?thesis
      using i(3) by (simp add: running_ok_def ex)
  qed
  ultimately show ?thesis
    using i by (simp add: sched_inv_def ex sems_ok_def lost_wakeup_def)
qed

section \<open>Making a thread\<close>

unbundle bit_operations_syntax

lemma unat_and_not_15:
  fixes x :: u64
  shows "unat (x AND NOT 0xf) = unat x - unat x mod 16"
proof -
  have "(0xf :: u64) = mask 4"
    by (simp add: mask_eq_exp_minus_1)
  then have "x AND 0xf = take_bit 4 x"
    by (simp add: take_bit_eq_mask)
  then have "unat (x AND 0xf) = unat x mod 16"
    by (simp add: unsigned_take_bit_eq take_bit_eq_mod unat_mod)
  moreover have "x AND NOT 0xf = x - (x AND 0xf)"
    by (rule and_not_minus)
  moreover have "x AND 0xf \<le> x"
    using calculation(1) by (simp add: word_le_nat_alt)
  ultimately show ?thesis
    by (simp add: unat_sub)
qed

text \<open>Where the kernel stack and its first frame lie, for a stack of \<open>0x8000\<close> bytes.\<close>

lemma kstack_frame:
  assumes "unat (stk :: u64) + 0x8000 < 2 ^ 64"
  defines "ktop \<equiv> (stk + (0x8000 - 1)) AND NOT 0xf"
  shows "16 dvd unat ktop" "16 dvd unat (ktop - 192)" "unat stk \<le> unat (ktop - 192)"
    "unat (ktop - 192) + 192 = unat ktop" "unat ktop < unat stk + 0x8000"
proof -
  let ?x = "unat stk + 0x7fff"
  have x: "unat (stk + (0x8000 - 1)) = ?x"
    using assms(1) by (simp add: unat_word_ariths)
  have k: "unat ktop = ?x - ?x mod 16"
    unfolding ktop_def unat_and_not_15 x ..
  then have ge: "unat stk + 0x7ff0 \<le> unat ktop"
    by simp
  then have "unat (192 :: u64) \<le> unat ktop"
    by simp
  then have s: "unat (ktop - 192) = unat ktop - 192"
    by (simp add: unat_sub word_le_nat_alt)
  show "16 dvd unat ktop"
    unfolding k by (rule dvd_minus_mod)
  then show "16 dvd unat (ktop - 192)"
    unfolding s by (rule dvd_diff_nat) simp
  show "unat stk \<le> unat (ktop - 192)" "unat (ktop - 192) + 192 = unat ktop"
    using ge s by simp_all
  show "unat ktop < unat stk + 0x8000"
    unfolding k by simp
qed

lemma kframes_same [simp]:
  "sched_inv (s\<lparr>kframes := k\<rparr>) = sched_inv s" "fresh t (s\<lparr>kframes := k\<rparr>) = fresh t s"
  "lists_ok (s\<lparr>kframes := k\<rparr>) = lists_ok s"
  by (simp_all add: sched_inv_def lists_ok_def ready_ok_def wait_ok_def idle_ok_def running_ok_def sems_ok_def
      lost_wakeup_def thr_def fresh_def)

text \<open>The descriptor of a new kernel thread and the frame it starts from.\<close>

definition kern_thread :: "alloc_ans \<Rightarrow> u8 list option \<Rightarrow> u64 \<Rightarrow> u64 \<Rightarrow> u64 \<Rightarrow> thread" where
  "kern_thread a name filerun prilg prity =
     (let h = fst (thread_name (thread_t_init (ans_dsc a)) name (ans_name a));
          ktop = (ans_stack a + (0x8000 - 1)) AND NOT 0xf
      in h\<lparr>td_privilege := prilg, td_priority := prity, td_krlstkstart := ans_stack a, td_krlstktop := ktop,
           td_usrstktop := td_usrstktop h AND NOT 0xf,
           td_context := (td_context h)\<lparr>ctx_nextrip := filerun, ctx_nextrsp := ktop - 192\<rparr>\<rparr>)"

definition kern_frame :: "u64 \<Rightarrow> u64 \<Rightarrow> intstkregs" where
  "kern_frame filerun ktop = zero_frame\<lparr>r_rip_old := filerun, r_cs_old := K_CS_IDX, r_rflgs := KMOD_EFLAGS,
     r_rsp_old := ktop, r_ss_old := 0, r_ds := K_DS_IDX, r_es := K_DS_IDX, r_fs := K_DS_IDX, r_gs := K_DS_IDX\<rparr>"

lemma upd_td_new: "threads s t = Some h \<Longrightarrow> upd_td t f s = s\<lparr>threads := (threads s)(t \<mapsto> f h)\<rparr>"
  by (simp add: upd_td_def)

lemma thread_name_keeps:
  "td_stus (fst (thread_name h name b)) = td_stus h" "td_priority (fst (thread_name h name b)) = td_priority h"
  "td_krlstktop (fst (thread_name h name b)) = td_krlstktop h"
  "td_usrstktop (fst (thread_name h name b)) = td_usrstktop h"
  "td_context (fst (thread_name h name b)) = td_context h" "td_handtbl (fst (thread_name h name b)) = td_handtbl h"
  by (auto simp: thread_name_def split: option.splits)

lemma krlnew_kern_thread_core_ok:
  assumes inv: "sched_inv s" and a: "ans_stack a \<noteq> 0" "ans_dsc a \<noteq> 0" "fresh (ans_dsc a) s"
    and p: "unat prity < 64"
  defines "ktop \<equiv> (ans_stack a + (0x8000 - 1)) AND NOT 0xf"
  shows "krlnew_kern_thread_core a name filerun prilg prity 0x8000 s =
    Inr (Some (ans_dsc a), added (ans_dsc a) (kern_thread a name filerun prilg prity)
      (s\<lparr>kframes := (kframes s)(ktop - 192 \<mapsto> kern_frame filerun ktop)\<rparr>))"
proof -
  let ?t = "ans_dsc a" let ?h = "kern_thread a name filerun prilg prity"
  let ?s = "s\<lparr>kframes := (kframes s)(ktop - 192 \<mapsto> kern_frame filerun ktop)\<rparr>"
  let ?h1 = "(fst (thread_name (thread_t_init ?t) name (ans_name a)))
    \<lparr>td_privilege := prilg, td_priority := prity, td_krlstktop := ans_stack a + (0x8000 - 1), td_krlstkstart := ans_stack a\<rparr>"
  have add: "krlschdclass_add_thread ?t (?s\<lparr>threads := (threads ?s)(?t \<mapsto> ?h)\<rparr>) = Inr (added ?t ?h ?s)"
  proof (rule krlschdclass_add_thread_ok)
    show "unat (td_priority ?h) < 64"
      using p by (simp add: kern_thread_def Let_def)
  qed (use sched_invD(1) [OF inv] a(3) in simp_all)
  have ks: "krlthread_kernstack_init ?t filerun KMOD_EFLAGS (s\<lparr>threads := (threads s)(?t \<mapsto> ?h1)\<rparr>) =
      Inr (?s\<lparr>threads := (threads ?s)(?t \<mapsto> ?h)\<rparr>)"
    by (simp add: krlthread_kernstack_init_def td_def Let_def upd_td_def kern_thread_def kern_frame_def ktop_def
        thread_name_keeps)
  show ?thesis
    using a(1,2) ks add
    by (simp add: krlnew_kern_thread_core_def krlnew_thread_dsc_def upd_td_new Let_def)
qed

lemma kern_thread_fields:
  "td_stus (kern_thread a name filerun prilg prity) = TDSTUS_NEW"
  "td_priority (kern_thread a name filerun prilg prity) = prity"
  "ctx_nextrsp (td_context (kern_thread a name filerun prilg prity)) = ((ans_stack a + (0x8000 - 1)) AND NOT 0xf) - 192"
  "ctx_nextrip (td_context (kern_thread a name filerun prilg prity)) = filerun"
  "td_mmdsc (kern_thread a name filerun prilg prity) = td_mmdsc (fst (thread_name (thread_t_init (ans_dsc a)) name (ans_name a)))"
  "td_handtbl (kern_thread a name filerun prilg prity) = replicate 8 None"
  by (simp_all add: kern_thread_def Let_def thread_name_keeps thread_t_init_def)

text \<open>The same for a user thread, whose frame goes to its own stack and privilege level.\<close>

definition user_thread :: "alloc_ans \<Rightarrow> nat \<Rightarrow> u64 \<Rightarrow> u64 \<Rightarrow> u8 list option \<Rightarrow> u64 \<Rightarrow> u64 \<Rightarrow> u64 \<Rightarrow> thread" where
  "user_thread a mm ustart utop name filerun prilg prity =
     (let h = fst (thread_name (thread_t_init (ans_dsc a)) name (ans_name a));
          ktop = (ans_stack a + (0x8000 - 1)) AND NOT 0xf
      in h\<lparr>td_mmdsc := mm, td_privilege := prilg, td_priority := prity, td_krlstkstart := ans_stack a,
           td_usrstkstart := ustart, td_krlstktop := ktop, td_usrstktop := utop AND NOT 0xf,
           td_context := (td_context h)\<lparr>ctx_nextrip := filerun, ctx_nextrsp := ktop - 192\<rparr>\<rparr>)"

definition user_frame :: "u64 \<Rightarrow> u64 \<Rightarrow> intstkregs" where
  "user_frame filerun utop = zero_frame\<lparr>r_rip_old := filerun, r_cs_old := U_CS_IDX, r_rflgs := UMOD_EFLAGS,
     r_rsp_old := utop, r_ss_old := U_DS_IDX, r_ds := U_DS_IDX, r_es := U_DS_IDX, r_fs := U_DS_IDX, r_gs := U_DS_IDX\<rparr>"

lemma krlnew_user_thread_core_ok:
  assumes inv: "sched_inv s" and a: "ans_stack a \<noteq> 0" "ans_dsc a \<noteq> 0" "fresh (ans_dsc a) s"
    and mm: "ans_mm a = Some (mm, Some (ustart, USER_VIRTUAL_ADDRESS_END))"
      "usz \<le> USER_VIRTUAL_ADDRESS_END - ustart"
    and p: "unat prity < 64"
  defines "ktop \<equiv> (ans_stack a + (0x8000 - 1)) AND NOT 0xf"
  shows "krlnew_user_thread_core a name filerun prilg prity usz 0x8000 s =
    Inr (Some (ans_dsc a), added (ans_dsc a) (user_thread a mm ustart USER_VIRTUAL_ADDRESS_END name filerun prilg prity)
      (s\<lparr>kframes := (kframes s)(ktop - 192 \<mapsto> user_frame filerun (USER_VIRTUAL_ADDRESS_END AND NOT 0xf))\<rparr>))"
proof -
  let ?t = "ans_dsc a" let ?u = USER_VIRTUAL_ADDRESS_END
  let ?h = "user_thread a mm ustart ?u name filerun prilg prity"
  let ?s = "s\<lparr>kframes := (kframes s)(ktop - 192 \<mapsto> user_frame filerun (?u AND NOT 0xf))\<rparr>"
  let ?h1 = "(fst (thread_name (thread_t_init ?t) name (ans_name a)))
    \<lparr>td_mmdsc := mm, td_privilege := prilg, td_priority := prity, td_krlstktop := ans_stack a + (0x8000 - 1),
     td_krlstkstart := ans_stack a, td_usrstktop := ?u, td_usrstkstart := ustart\<rparr>"
  have add: "krlschdclass_add_thread ?t (?s\<lparr>threads := (threads ?s)(?t \<mapsto> ?h)\<rparr>) = Inr (added ?t ?h ?s)"
  proof (rule krlschdclass_add_thread_ok)
    show "unat (td_priority ?h) < 64"
      using p by (simp add: user_thread_def Let_def)
  qed (use sched_invD(1) [OF inv] a(3) in simp_all)
  have ks: "krlthread_userstack_init ?t filerun UMOD_EFLAGS (s\<lparr>threads := (threads s)(?t \<mapsto> ?h1)\<rparr>) =
      Inr (?s\<lparr>threads := (threads ?s)(?t \<mapsto> ?h)\<rparr>)"
    by (simp add: krlthread_userstack_init_def td_def Let_def upd_td_def user_thread_def user_frame_def ktop_def
        thread_name_keeps)
  show ?thesis
    using a(1,2) mm ks add
    by (simp add: krlnew_user_thread_core_def krlnew_thread_dsc_def upd_td_new Let_def not_less [symmetric])
qed

lemma user_thread_fields:
  "td_stus (user_thread a mm us ut name filerun prilg prity) = TDSTUS_NEW"
  "td_priority (user_thread a mm us ut name filerun prilg prity) = prity"
  "td_handtbl (user_thread a mm us ut name filerun prilg prity) = replicate 8 None"
  by (simp_all add: user_thread_def Let_def thread_name_keeps thread_t_init_def)

lemma of_nat_64_le: "\<not> (64 :: u64) \<le> p \<longleftrightarrow> unat p < 64"
  by (simp add: word_le_nat_alt not_le)

text \<open>Whatever the allocator answers, \<open>krlnew_thread\<close> returns, keeps the invariant, and on failure changes
  nothing the scheduler sees.\<close>

lemma stksz_max: "\<not> DAFT_TDKRLSTKSZ < (k :: u64) \<Longrightarrow> (if k < DAFT_TDKRLSTKSZ then DAFT_TDKRLSTKSZ else k) = 0x8000"
  by (auto simp: DAFT_TDKRLSTKSZ_def)

lemma krlnew_thread_inv:
  assumes inv: "sched_inv s" and a: "fresh (ans_dsc a) s"
  shows "\<exists>r s'. krlnew_thread a name filerun flg prilg prity usz ksz s = Inr (r, s') \<and> sched_inv s' \<and>
    (r = None \<longrightarrow> s' = s) \<and> (\<forall>t. r = Some t \<longrightarrow> t = ans_dsc a \<and> (\<exists>h. td_handtbl h = replicate 8 None \<and> threads s' = (threads s)(t \<mapsto> h))) \<and>
    sems s' = sems s \<and> sda_exitlist s' = sda_exitlist s"
proof (cases "filerun = 0 \<or> DAFT_TDUSRSTKSZ < usz \<or> DAFT_TDKRLSTKSZ < ksz \<or>
    prilg \<noteq> PRILG_USR \<and> prilg \<noteq> PRILG_SYS \<or> of_nat PRITY_MAX \<le> prity")
  case True
  with inv show ?thesis
    by (auto simp: krlnew_thread_def)
next
  case False
  then have p: "unat prity < 64" and k: "\<not> DAFT_TDKRLSTKSZ < ksz"
    using of_nat_64_le by auto
  define tu where "tu = (if usz < DAFT_TDUSRSTKSZ then DAFT_TDUSRSTKSZ else usz)"
  have eq: "krlnew_thread a name filerun flg prilg prity usz ksz s =
      (if flg = KERNTHREAD_FLG then krlnew_kern_thread_core a name filerun prilg prity 0x8000 s
       else if flg = USERTHREAD_FLG then krlnew_user_thread_core a name filerun prilg prity tu 0x8000 s
       else Inr (None, s))"
    using False by (auto simp: krlnew_thread_def Let_def stksz_max [OF k] tu_def)
  have new: "sched_inv (added (ans_dsc a) h (s\<lparr>kframes := f\<rparr>))"
    if "td_stus h = TDSTUS_NEW" "td_priority h = prity" for h f
    by (rule added_inv) (use inv a p that in simp_all)
  have kern: "\<exists>r s'. krlnew_kern_thread_core a name filerun prilg prity 0x8000 s = Inr (r, s') \<and> sched_inv s' \<and>
    (r = None \<longrightarrow> s' = s) \<and> (\<forall>t. r = Some t \<longrightarrow> t = ans_dsc a \<and> (\<exists>h. td_handtbl h = replicate 8 None \<and> threads s' = (threads s)(t \<mapsto> h))) \<and>
    sems s' = sems s \<and> sda_exitlist s' = sda_exitlist s"
  proof (cases "ans_stack a = 0 \<or> ans_dsc a = 0")
    case True
    with inv show ?thesis
      by (auto simp: krlnew_kern_thread_core_def krlnew_thread_dsc_def)
  next
    case False
    let ?h = "kern_thread a name filerun prilg prity"
    have "td_handtbl ?h = replicate 8 None" by (rule kern_thread_fields(6))
    with False krlnew_kern_thread_core_ok [OF inv _ _ a p] new kern_thread_fields(1,2) show ?thesis
      by (simp add: added_def) (rule exI [of _ ?h], simp)
  qed
  have user: "\<exists>r s'. krlnew_user_thread_core a name filerun prilg prity tu 0x8000 s = Inr (r, s') \<and> sched_inv s' \<and>
    (r = None \<longrightarrow> s' = s) \<and> (\<forall>t. r = Some t \<longrightarrow> t = ans_dsc a \<and> (\<exists>h. td_handtbl h = replicate 8 None \<and> threads s' = (threads s)(t \<mapsto> h))) \<and>
    sems s' = sems s \<and> sda_exitlist s' = sda_exitlist s"
  proof (cases "\<exists>mm ustart. ans_mm a = Some (mm, Some (ustart, USER_VIRTUAL_ADDRESS_END)) \<and>
      tu \<le> USER_VIRTUAL_ADDRESS_END - ustart \<and> ans_stack a \<noteq> 0 \<and> ans_dsc a \<noteq> 0")
    case True
    then obtain mm ustart where m: "ans_mm a = Some (mm, Some (ustart, USER_VIRTUAL_ADDRESS_END))"
      "tu \<le> USER_VIRTUAL_ADDRESS_END - ustart" "ans_stack a \<noteq> 0" "ans_dsc a \<noteq> 0" by blast
    let ?h = "user_thread a mm ustart USER_VIRTUAL_ADDRESS_END name filerun prilg prity"
    have "td_handtbl ?h = replicate 8 None" by (rule user_thread_fields(3))
    with krlnew_user_thread_core_ok [OF inv m(3,4) a m(1,2) p] new user_thread_fields(1,2) show ?thesis
      by (simp add: added_def) (rule exI [of _ ?h], simp)
  next
    case False
    then have "krlnew_user_thread_core a name filerun prilg prity tu 0x8000 s = Inr (None, s)"
      by (auto simp: krlnew_user_thread_core_def krlnew_thread_dsc_def not_less split: option.splits)
    with inv show ?thesis by simp
  qed
  show ?thesis
    unfolding eq using kern user inv by simp
qed

end
