(* ===== verification/SchedSystem.thy ===== *)
theory SchedSystem
  imports SchedInv
begin

text \<open>
  The scheduler, the semaphores and the threads as one machine: the events that can happen next, their runs,
  that every enabled event returns and keeps the invariant, and that ready threads take turns.
\<close>

section \<open>The system as a state machine\<close>

text \<open>
  What can happen next: the running thread gives up the processor, the clock ticks, it makes a pass of
  \<open>krlsem_down\<close> or calls \<open>krlsem_up\<close>, it exits, or a thread is made.
\<close>

datatype sys_event = Yield | Tick | Down nat | Up nat | Exit
  | Spawn alloc_ans "u8 list option" u64 u64 u64 u64 u64 u64

fun sys_do :: "sys_event \<Rightarrow> kst \<Rightarrow> (bool \<times> kst) run" where
  "sys_do Yield s = andthen (krlschedul s) (\<lambda>s. Inr (True, s))"
| "sys_do Tick s = andthen (krlsched_retn_currthread s) (\<lambda>t. andthen (krlthd_inc_tick t s) (\<lambda>s.
     andthen (krlsched_chkneed_pmptsched s) (\<lambda>s. Inr (True, s))))"
| "sys_do (Down w) s = krlsem_down w s"
| "sys_do (Up w) s = andthen (krlsem_up w s) (\<lambda>s. Inr (True, s))"
| "sys_do Exit s = andthen (krlsve_core_exit_thread s) (\<lambda>s. Inr (True, s))"
| "sys_do (Spawn a name filerun flg prilg prity usz ksz) s =
     andthen (krlnew_thread a name filerun flg prilg prity usz ksz s) (\<lambda>(r, s). Inr (r \<noteq> None, s))"

text \<open>
  The idle thread only yields (\<open>krlcpuidle_main\<close>); the count of a semaphore does not overflow its \<open>long\<close>; the
  allocator hands out memory that is not in use.
\<close>

fun enabled :: "sys_event \<Rightarrow> kst \<Rightarrow> bool" where
  "enabled Yield s = True"
| "enabled Tick s = True"
| "enabled (Down w) s = (w < length (sems s) \<and> not_idle s)"
| "enabled (Up w) s = (w < length (sems s) \<and> count_of s w < 2 ^ 63 - 1)"
| "enabled Exit s = not_idle s"
| "enabled (Spawn a name filerun flg prilg prity usz ksz) s = fresh (ans_dsc a) s"

inductive sys_run :: "kst \<Rightarrow> (sys_event \<times> bool) list \<Rightarrow> kst \<Rightarrow> bool" where
  stop: "sys_run s [] s"
| step: "enabled e s \<Longrightarrow> sys_do e s = Inr (r, s') \<Longrightarrow> sys_run s' tr s'' \<Longrightarrow> sys_run s ((e, r) # tr) s''"

inductive_cases sys_run_ConsE: "sys_run s ((e, r) # tr) s''"

inductive_simps sys_run_Nil: "sys_run s [] s'"

lemma curr_thread:
  assumes "sched_inv s" "sda_currtd s = Some t"
  shows "threads s t \<noteq> None"
proof -
  note i = sched_invD [OF assms(1)]
  from i(3) assms(2) consider "sda_cpuidle s = Some t" | p where "p < 64" "tdl_curruntd (sda_thdlst s ! p) = Some t"
    by (auto simp: running_ok_def)
  then show ?thesis
  proof cases
    case 1
    with lists_okD(7) [OF i(1)] show ?thesis by (auto simp: idle_ok_def)
  next
    case 2
    with lists_okD(2) [OF i(1) 2(1)] show ?thesis by (auto simp: ready_ok_def rdy_simps thr_def)
  qed
qed

section \<open>Each step returns and keeps the invariant\<close>

text \<open>The units of semaphore \<open>w\<close> a step puts into it.\<close>

definition delta :: "nat \<Rightarrow> sys_event \<times> bool \<Rightarrow> int" where
  "delta w x = (if fst x = Up w then 1 else if x = (Down w, True) then - 1 else 0)"

lemma delta_simps [simp]:
  "delta w (Yield, r) = 0" "delta w (Tick, r) = 0" "delta w (Exit, r) = 0"
  "delta w (Spawn a name filerun flg prilg prity usz ksz, r) = 0"
  "delta w (Up v, r) = (if v = w then 1 else 0)" "delta w (Down v, r) = (if v = w \<and> r then - 1 else 0)"
  by (auto simp: delta_def)

definition good_step :: "sys_event \<Rightarrow> bool \<Rightarrow> kst \<Rightarrow> kst \<Rightarrow> bool" where
  "good_step e r s s' \<longleftrightarrow> sched_inv s' \<and> length (sems s') = length (sems s) \<and>
     (\<forall>w < length (sems s). count_of s' w = count_of s w + delta w (e, r))"

lemma good_stepI:
  "sched_inv s' \<Longrightarrow> sems s' = sems s \<Longrightarrow> (\<And>w. delta w (e, r) = 0) \<Longrightarrow> good_step e r s s'"
  by (simp add: good_step_def)

lemma tick_ok:
  assumes inv: "sched_inv s"
  shows "\<exists>s'. sys_do Tick s = Inr (True, s') \<and> good_step Tick True s s'"
proof -
  obtain t where t: "sda_currtd s = Some t"
    using sched_invD(5) [OF inv] by blast
  from krlthd_inc_tick_ok [OF inv curr_thread [OF inv t]] obtain s1 where
    s1: "krlthd_inc_tick t s = Inr s1" "sched_inv s1" "sems s1 = sems s" by blast
  from krlsched_chkneed_pmptsched_ok [OF s1(2)] obtain s2 where
    "krlsched_chkneed_pmptsched s1 = Inr s2" "sched_inv s2" "sems s2 = sems s1" by blast
  with s1 t show ?thesis
    by (simp add: krlsched_retn_currthread_def good_stepI)
qed

lemma down_ok:
  assumes inv: "sched_inv s" and e: "w < length (sems s)" "not_idle s"
  shows "\<exists>r s'. krlsem_down w s = Inr (r, s') \<and> good_step (Down w) r s s'"
proof (cases "1 \<le> count_of s w")
  case True
  from krlsem_down_take [OF inv e(1) this] show ?thesis
    by (intro exI [of _ True] exI [of _ "set_count w (count_of s w - 1) s"])
      (auto simp: good_step_def set_count_fields [OF e(1)])
next
  case False
  then have "count_of s w < 1" by simp
  from krlsem_down_block [OF inv e(1) this e(2)] show ?thesis
    by (auto simp: good_step_def waited_fields [OF e(1)])
qed

lemma up_ok:
  assumes inv: "sched_inv s" and w: "w < length (sems s)" and c: "count_of s w < 2 ^ 63 - 1"
  shows "\<exists>s'. krlsem_up w s = Inr s' \<and> good_step (Up w) True s s'"
proof -
  let ?s1 = "set_count w (count_of s w + 1) s"
  have "lists_ok ?s1" "w < length (sems ?s1)" "waiters ?s1 w = waiters s w"
    using set_count_lists [OF sched_invD(1) [OF inv] w] w by (simp_all add: set_count_fields)
  note F = wake_all_fields [OF this]
  have "count_of (upped w s) v = count_of s v + delta v (Up w, True)" for v
  proof -
    have "count_of (upped w s) v = count_of ?s1 v"
      using F [of v 0, THEN conjunct1] by (simp add: upped_def krlsched_set_schedflgs_def)
    then show ?thesis
      by (simp only: set_count_fields [OF w] delta_simps) simp
  qed
  moreover have "length (sems (upped w s)) = length (sems s)"
    using F [of w 0] by (simp add: upped_def krlsched_set_schedflgs_def)
  ultimately show ?thesis
    using krlsem_up_ok [OF inv w c] unfolding good_step_def by blast
qed

lemma sys_do_ok:
  assumes inv: "sched_inv s" and e: "enabled e s"
  shows "\<exists>r s'. sys_do e s = Inr (r, s') \<and> good_step e r s s'"
proof (cases e)
  case Yield
  then show ?thesis
    using scheduled_inv [OF inv] good_stepI [of "scheduled s" s Yield True]
    by (intro exI [of _ True] exI [of _ "scheduled s"]) simp
next
  case Tick
  then show ?thesis
    using tick_ok [OF inv] by blast
next
  case (Down w)
  then show ?thesis
    using down_ok [OF inv] e by auto
next
  case (Up w)
  with up_ok [OF inv, of w] e obtain s' where "krlsem_up w s = Inr s'" "good_step (Up w) True s s'"
    by auto
  with Up show ?thesis by (intro exI [of _ True] exI [of _ s']) simp
next
  case Exit
  then have "not_idle s"
    using e by simp
  from krlsve_core_exit_thread_ok [OF inv this] obtain t p where
    r: "krlsve_core_exit_thread s = Inr (scheduled (exited t p s))" "sched_inv (scheduled (exited t p s))" by blast
  have "good_step Exit True s (scheduled (exited t p s))"
    by (rule good_stepI [OF r(2)]) (simp_all add: exited_def)
  with r(1) Exit show ?thesis
    by (intro exI [of _ True] exI [of _ "scheduled (exited t p s)"]) simp
next
  case (Spawn a name filerun flg prilg prity usz ksz)
  then have "fresh (ans_dsc a) s"
    using e by simp
  from krlnew_thread_inv [OF inv this] obtain r s' where
    "krlnew_thread a name filerun flg prilg prity usz ksz s = Inr (r, s')" "sched_inv s'" "sems s' = sems s" by blast
  with Spawn good_stepI [of s' s e "r \<noteq> None"] show ?thesis by simp
qed

lemma sys_run_good:
  "sys_run s tr s' \<Longrightarrow> sched_inv s \<Longrightarrow> sched_inv s' \<and> length (sems s') = length (sems s) \<and>
   (\<forall>w < length (sems s). count_of s' w = count_of s w + sum_list (map (delta w) tr))"
proof (induction rule: sys_run.induct)
  case (step e s r s' tr s'')
  then have "good_step e r s s'"
    using sys_do_ok [OF step.prems step.hyps(1)] by auto
  with step show ?case
    by (auto simp: good_step_def)
qed simp

text \<open>How often a unit of the semaphore was taken and given back.\<close>

definition got :: "nat \<Rightarrow> (sys_event \<times> bool) list \<Rightarrow> nat" where
  "got w tr = length (filter (\<lambda>x. x = (Down w, True)) tr)"

definition released :: "nat \<Rightarrow> (sys_event \<times> bool) list \<Rightarrow> nat" where
  "released w tr = length (filter (\<lambda>x. fst x = Up w) tr)"

lemma sum_delta: "sum_list (map (delta w) tr) = int (released w tr) - int (got w tr)"
  by (induction tr) (auto simp: delta_def released_def got_def)

section \<open>Turns\<close>

text \<open>At the highest priority with a ready thread, the threads run in turn.\<close>

lemma ready_scheduled:
  assumes inv: "sched_inv s" and p: "top_prio s = Some p"
  shows "sda_currtd (scheduled s) = Some (chosen (sda_thdlst s ! p))"
    "sda_thdlst (scheduled s) ! p = turn (sda_thdlst s ! p)"
    "top_prio (scheduled s) = Some p"
proof -
  note ok = sched_invD(1) [OF inv]
  have p': "p < 64" "ready_at s p \<noteq> []" "\<forall>q < p. ready_at s q = []"
    using p by (simp_all add: top_prio_Some)
  have L: "sda_thdlst (scheduled s) ! q = (if q = p then turn (sda_thdlst s ! p) else sda_thdlst s ! q)" for q
    using p p'(1) lists_okD(1) [OF ok] by (simp add: scheduled_def nth_upd_lst)
  then show "sda_thdlst (scheduled s) ! p = turn (sda_thdlst s ! p)"
    by simp
  show "sda_currtd (scheduled s) = Some (chosen (sda_thdlst s ! p))"
    using p chosen_exists [OF ok p'(1,2)] by (simp add: scheduled_def)
  have "rdy (turn (sda_thdlst s ! p)) \<noteq> []"
    using p'(2) turn_facts(3) [of "sda_thdlst s ! p"] by (metis length_0_conv)
  then show "top_prio (scheduled s) = Some p"
    using p' by (simp add: top_prio_Some L)
qed

lemma turn_Some:
  assumes "tdl_curruntd l = Some c"
  shows "rdy (turn l) = rotate1 (rdy l)" "tdl_curruntd (turn l) = Some (hd (rdy (turn l)))"
proof -
  show "rdy (turn l) = rotate1 (rdy l)"
    using assms by (cases "tdl_lsth l") (simp_all add: turn_def rdy_def)
  show "tdl_curruntd (turn l) = Some (hd (rdy (turn l)))"
    using assms by (cases "tdl_lsth l") (auto simp: turn_def rdy_def)
qed

lemma chosen_hd: "rdy l \<noteq> [] \<Longrightarrow> chosen l = hd (rdy (turn l))"
  by (auto simp: chosen_def turn_def rdy_def split: list.splits option.splits)

text \<open>What such a schedule promises, whatever the state: each step runs the thread at the head of the list it rotates.\<close>

locale round_robin =
  fixes step :: "'s \<Rightarrow> 's" and ready :: "'s \<Rightarrow> 't list" and running :: "'s \<Rightarrow> 't option" and good :: "'s \<Rightarrow> bool"
  assumes good_step: "good s \<Longrightarrow> good (step s)"
    and rotates: "good s \<Longrightarrow> ready (step s) = rotate1 (ready s)"
    and runs_head: "good s \<Longrightarrow> running (step s) = Some (hd (ready (step s)))"
begin

lemma turns: "good s \<Longrightarrow> good ((step ^^ i) s) \<and> ready ((step ^^ i) s) = rotate i (ready s)"
  by (induction i) (simp_all add: good_step rotates)

lemma runs_nth:
  assumes "good s" "0 < i" "ready s \<noteq> []"
  shows "running ((step ^^ i) s) = Some (ready s ! (i mod length (ready s)))"
proof -
  obtain j where i: "i = Suc j"
    using assms(2) by (cases i) auto
  have "running ((step ^^ i) s) = Some (hd (ready ((step ^^ i) s)))"
    using runs_head [of "(step ^^ j) s"] turns [OF assms(1), of j] i by simp
  then show ?thesis
    using turns [OF assms(1), of i] hd_rotate_conv_nth [OF assms(3), of i] by simp
qed

text \<open>Every thread of the list runs within as many steps as the list is long.\<close>

lemma everyone:
  assumes "good s" "t \<in> set (ready s)"
  shows "\<exists>i. 1 \<le> i \<and> i \<le> length (ready s) \<and> running ((step ^^ i) s) = Some t"
proof -
  let ?L = "ready s"
  obtain j where j: "j < length ?L" "?L ! j = t"
    using assms(2) by (auto simp: in_set_conv_nth)
  define i where "i = (if j = 0 then length ?L else j)"
  have i: "1 \<le> i" "i \<le> length ?L" "i mod length ?L = j" "?L \<noteq> []"
    using j(1) by (auto simp: i_def)
  with runs_nth [OF assms(1), of i] j show ?thesis
    by (intro exI [of _ i]) simp
qed

end

text \<open>The scheduler keeps it at the highest priority with a ready thread, once that priority has run a thread.\<close>

interpretation turns: round_robin scheduled "\<lambda>s. ready_at s p" sda_currtd
  "\<lambda>s. sched_inv s \<and> top_prio s = Some p \<and> tdl_curruntd (sda_thdlst s ! p) \<noteq> None" for p
proof (unfold_locales, goal_cases)
  case (1 s)
  then obtain c where "tdl_curruntd (sda_thdlst s ! p) = Some c" by blast
  with 1 ready_scheduled [of s p] scheduled_inv(2) [of s] turn_Some(2) show ?case
    by simp
next
  case (2 s)
  then obtain c where "tdl_curruntd (sda_thdlst s ! p) = Some c" by blast
  with 2 ready_scheduled [of s p] turn_Some(1) show ?case
    by simp
next
  case (3 s)
  then have "ready_at s p \<noteq> []"
    by (simp add: top_prio_Some)
  with 3 ready_scheduled [of s p] chosen_hd show ?case
    by simp
qed

lemma everyone_runs:
  assumes inv: "sched_inv s" and p: "top_prio s = Some p" and t: "t \<in> set (ready_at s p)"
  shows "\<exists>i. 1 \<le> i \<and> i \<le> length (ready_at s p) \<and> sda_currtd ((scheduled ^^ i) s) = Some t"
proof (cases "tdl_curruntd (sda_thdlst s ! p)")
  case (Some c)
  with turns.everyone [of s p t] assms show ?thesis by simp
next
  case None
  let ?L = "ready_at s p"
  obtain j where j: "j < length ?L" "?L ! j = t"
    using t by (auto simp: in_set_conv_nth)
  note r = ready_scheduled [OF inv p]
  have same: "ready_at (scheduled s) p = ?L"
    using None by (simp add: rdy_turn r(2))
  have ne: "?L \<noteq> []"
    using j by auto
  have curr: "tdl_curruntd (sda_thdlst (scheduled s) ! p) \<noteq> None"
    using r(2) turn_facts(5) [OF ne] by simp
  show ?thesis
  proof (cases "j = 0")
    case True
    then have "sda_currtd (scheduled s) = Some t"
      using r(1,2) chosen_hd [OF ne] same j ne by (simp add: hd_conv_nth)
    then show ?thesis
      using ne by (intro exI [of _ 1]) (simp add: Suc_le_eq)
  next
    case False
    with turns.runs_nth [of "scheduled s" p j] scheduled_inv(2) [OF inv] r(3) curr same j ne show ?thesis
      by (intro exI [of _ "Suc j"]) (simp add: funpow_swap1)
  qed
qed

section \<open>The start\<close>

text \<open>
  What \<open>init_krl\<close> does to the scheduler: the tables, the idle thread, which becomes the running one. No semaphore
  has a waiter yet.
\<close>

definition boot :: "alloc_ans \<Rightarrow> u64 \<Rightarrow> kst \<Rightarrow> kst run" where
  "boot a main s = andthen (new_cpuidle a main (init_krlsched s)) krlcpuidle_start"

definition sems_free :: "kst \<Rightarrow> bool" where
  "sems_free s \<longleftrightarrow> list_all (\<lambda>m. 0 \<le> sem_count m \<and> sem_waitlst m = kwlst_t_init) (sems s)"

definition idle_thread :: "alloc_ans \<Rightarrow> u64 \<Rightarrow> thread" where
  "idle_thread a main =
     (let ktop = (ans_stack a + (DAFT_TDKRLSTKSZ - 1)) AND NOT 0xf
      in (thread_t_init (ans_dsc a))\<lparr>td_stus := TDSTUS_RUN, td_privilege := PRILG_SYS, td_priority := PRITY_MIN,
           td_krlstktop := ktop, td_krlstkstart := ans_stack a, td_usrstktop := 0 AND NOT 0xf,
           td_appfilenm := Some cpuidle_name, td_appfilenmlen := of_nat THREAD_NAME_MAX, td_name := cpuidle_name,
           td_context := context_t_init\<lparr>ctx_nextrip := main, ctx_nextrsp := ktop - 192\<rparr>\<rparr>)"

lemma boot_lists:
  assumes "length (sda_thdlst s) = 64" "\<And>p. p < 64 \<Longrightarrow> sda_thdlst s ! p = thrdlst_t_init" "sems_free s"
    and "sda_exitlist s = []" "sda_cpuidle s = Some i" "threads s i \<noteq> None"
  shows "lists_ok s"
proof -
  have w: "sem_waitlst (sems s ! w) = kwlst_t_init" if "w < length (sems s)" for w
    using assms(3) that by (simp add: sems_free_def list_all_length)
  have r: "ready_at s p = []" if "p < 64" for p
    using assms(2) [OF that] by (simp add: rdy_def thrdlst_t_init_def)
  have "ready_ok s p" if "p < 64" for p
    using assms(2) [OF that] r [OF that] by (simp add: ready_ok_def thrdlst_t_init_def)
  moreover have "wait_ok s v" if "v < length (sems s)" for v
    using w [OF that] by (simp add: wait_ok_def kwlst_t_init_def)
  moreover have "idle_ok s"
    using assms(5,6) r w by (simp add: idle_ok_def assms(4) kwlst_t_init_def)
  ultimately show ?thesis
    using assms(1,4) w by (simp add: lists_ok_def kwlst_t_init_def)
qed

lemma boot_ok:
  assumes "ans_stack a \<noteq> 0" "ans_dsc a \<noteq> 0" "sems_free s"
  shows "\<exists>s'. boot a main s = Inr s' \<and> sched_inv s' \<and> sems s' = sems s \<and> sda_currtd s' = Some (ans_dsc a) \<and>
    sda_cpuidle s' = Some (ans_dsc a) \<and> sda_exitlist s' = [] \<and> threads s' = (threads s)(ans_dsc a \<mapsto> idle_thread a main)"
proof -
  obtain s' where s': "boot a main s = Inr s'" "sems s' = sems s" "sda_currtd s' = Some (ans_dsc a)"
    "sda_cpuidle s' = Some (ans_dsc a)" "sda_exitlist s' = []" "sda_schdflgs s' = NOTS_SCHED_FLGS"
    "sda_thdlst s' = replicate 64 thrdlst_t_init" "threads s' = (threads s)(ans_dsc a \<mapsto> idle_thread a main)"
    using assms(1,2)
    by (simp add: boot_def new_cpuidle_def new_cpuidle_thread_def krlnew_thread_dsc_def init_krlsched_def
        schedclass_t_init_def schdata_t_init_def Let_def krlthread_kernstack_init_def td_def upd_td_def
        krlcpuidle_start_def thread_name_def thread_t_init_def idle_thread_def context_t_init_def cpuidle_name_def)
  have sf: "sems_free s'"
    using assms(3) s'(2) by (simp add: sems_free_def)
  have "lists_ok s'"
    by (rule boot_lists [OF _ _ sf s'(5,4)]) (simp_all add: s')
  moreover have "sems_ok s'"
    using sf by (auto simp: sems_ok_def sems_free_def list_all_length lost_wakeup_def kwlst_t_init_def)
  moreover have "running_ok s'"
    using s'(3,4) by (simp add: running_ok_def)
  ultimately show ?thesis
    using s' by (simp add: sched_inv_def)
qed

section \<open>Exited threads\<close>

lemma exitlist_waited [simp]: "sda_exitlist (waited t p w s) = sda_exitlist s"
  by (simp add: waited_def)

lemma exitlist_set_count [simp]: "sda_exitlist (set_count w c s) = sda_exitlist s"
  by (simp add: set_count_def)

lemma exitlist_scheduled [simp]: "sda_exitlist (scheduled s) = sda_exitlist s"
  by (simp add: scheduled_def split: option.splits)

lemma exitlist_wake_all [simp]: "sda_exitlist (wake_all w ts s) = sda_exitlist s"
  by (induction ts arbitrary: s) (simp_all add: woken_def)

lemma exitlist_upped [simp]: "sda_exitlist (upped w s) = sda_exitlist s"
  by (simp add: upped_def krlsched_set_schedflgs_def)

lemma exitlist_tick:
  assumes "krlthd_inc_tick t s = Inr s'"
  shows "sda_exitlist s' = sda_exitlist s"
  using assms by (auto simp: krlthd_inc_tick_def andthen_eq_Inr Let_def krlsched_set_schedflgs_def split: if_splits)

lemma exitlist_pmpt:
  assumes "sched_inv s" "krlsched_chkneed_pmptsched s = Inr s'"
  shows "sda_exitlist s' = sda_exitlist s"
proof (cases "sda_schdflgs s = NEED_SCHED_FLGS \<and> sda_premptidx s = PMPT_FLGS")
  case True
  have "sched_inv (s\<lparr>sda_schdflgs := NOTS_SCHED_FLGS\<rparr>)"
    using assms(1) by (simp add: sched_inv_def)
  from scheduled_inv(1) [OF this] True assms(2) show ?thesis
    by (auto simp: krlsched_chkneed_pmptsched_def Let_def)
next
  case False
  with assms show ?thesis
    by (auto simp: krlsched_chkneed_pmptsched_def Let_def sched_inv_def)
qed


lemma sys_do_exitlist:
  assumes inv: "sched_inv s" and e: "enabled e s" and r: "sys_do e s = Inr (r, s')"
  shows "set (sda_exitlist s) \<subseteq> set (sda_exitlist s')"
proof (cases e)
  case Yield
  with r scheduled_inv(1) [OF inv] have "s' = scheduled s" by simp
  then show ?thesis by simp
next
  case Tick
  obtain t where t: "sda_currtd s = Some t"
    using sched_invD(5) [OF inv] by blast
  from krlthd_inc_tick_ok [OF inv curr_thread [OF inv t]] obtain s1 where
    s1: "krlthd_inc_tick t s = Inr s1" "sched_inv s1" by blast
  with r Tick t have "krlsched_chkneed_pmptsched s1 = Inr s'"
    by (auto simp: krlsched_retn_currthread_def andthen_eq_Inr)
  with exitlist_tick [OF s1(1)] exitlist_pmpt [OF s1(2)] show ?thesis by simp
next
  case (Down w)
  then have w: "w < length (sems s)" "not_idle s"
    using e by simp_all
  show ?thesis
  proof (cases "1 \<le> count_of s w")
    case True
    with krlsem_down_take [OF inv w(1), THEN conjunct1] r Down show ?thesis by fastforce
  next
    case False
    then have "count_of s w < 1" by simp
    from krlsem_down_block [OF inv w(1) this w(2)] obtain t p where
      "krlsem_down w s = Inr (False, scheduled (waited t p w s))" by blast
    with r Down have "s' = scheduled (waited t p w s)" by simp
    then show ?thesis by simp
  qed
next
  case (Up w)
  with e have "krlsem_up w s = Inr (upped w s)"
    by (intro krlsem_up_ok [OF inv, THEN conjunct1]) simp_all
  with r Up have "s' = upped w s" by simp
  then show ?thesis by simp
next
  case Exit
  then have "not_idle s"
    using e by simp
  from krlsve_core_exit_thread_ok [OF inv this] obtain t p where
    "krlsve_core_exit_thread s = Inr (scheduled (exited t p s))" by blast
  with r Exit have "s' = scheduled (exited t p s)" by simp
  then show ?thesis by (simp add: exited_def subset_insertI)
next
  case (Spawn a name filerun flg prilg prity usz ksz)
  then have "fresh (ans_dsc a) s"
    using e by simp
  from krlnew_thread_inv [OF inv this] obtain q x where
    "krlnew_thread a name filerun flg prilg prity usz ksz s = Inr (q, x)" "sda_exitlist x = sda_exitlist s" by blast
  with r Spawn show ?thesis by simp
qed

lemma sys_do_inv:
  "sched_inv s \<Longrightarrow> enabled e s \<Longrightarrow> sys_do e s = Inr (r, s') \<Longrightarrow> sched_inv s'"
  using sys_do_ok [of s e] by (auto simp: good_step_def)

lemma sys_run_exitlist:
  "sys_run s tr s' \<Longrightarrow> sched_inv s \<Longrightarrow> set (sda_exitlist s) \<subseteq> set (sda_exitlist s')"
proof (induction rule: sys_run.induct)
  case (step e s r s' tr s'')
  with sys_do_exitlist sys_do_inv show ?case by blast
qed simp

lemma curr_not_exited:
  assumes "sched_inv s" "t \<in> set (sda_exitlist s)"
  shows "sda_currtd s \<noteq> Some t"
proof
  assume c: "sda_currtd s = Some t"
  note i = sched_invD [OF assms(1)]
  from i(3) c consider "sda_cpuidle s = Some t" | p where "p < 64" "tdl_curruntd (sda_thdlst s ! p) = Some t"
    by (auto simp: running_ok_def)
  then show False
  proof cases
    case 1
    with lists_okD(7) [OF i(1)] assms(2) show ?thesis by (auto simp: idle_ok_def)
  next
    case 2
    with ready_only(3) [OF i(1) 2(1), of t] assms(2) show ?thesis by (simp add: rdy_simps)
  qed
qed

section \<open>The order in which the waiters come back\<close>

lemma wake_all_ready:
  "lists_ok s \<Longrightarrow> w < length (sems s) \<Longrightarrow> waiters s w = ts \<Longrightarrow>
   ready_at (wake_all w ts s) q = ready_at s q @ filter (\<lambda>t. prio s t = q) ts \<and>
   (\<forall>t \<in> set ts. thr (wake_all w ts s) t {TDSTUS_RUN} UNIV)"
proof (induction ts arbitrary: s)
  case (Cons t ts)
  let ?s = "woken t (prio s t) w s"
  from waiter_thread [OF Cons.prems(1,2)] Cons.prems(3) obtain h where
    h: "threads s t = Some h" "prio s t < 64" by (metis list.set_intros(1))
  then have p: "prio s t < length (sda_thdlst s)"
    using lists_okD(1) [OF Cons.prems(1)] by simp
  note F = woken_fields [OF p Cons.prems(2), of t]
  have t: "waiters ?s w = ts" "w < length (sems ?s)"
    using F(2,8) Cons.prems by simp_all
  have pr: "prio ?s u = prio s u" for u
    using h by (simp add: prio_def woken_def)
  have d: "t \<notin> set ts"
    using lists_okD(3) [OF Cons.prems(1,2)] Cons.prems(3) by (simp add: wait_ok_def)
  have "thr ?s t {TDSTUS_RUN} UNIV"
    using h(1) by (simp add: woken_def thr_def)
  moreover have "threads (wake_all w us x) t = threads x t" if "t \<notin> set us" for us x
    using that by (induction us arbitrary: x) (simp_all add: woken_def)
  ultimately have "thr (wake_all w ts ?s) t {TDSTUS_RUN} UNIV"
    using d by (simp add: thr_def)
  with Cons.IH [OF woken_lists [OF Cons.prems] t(2,1)] show ?case
    by (simp add: F(5) pr)
qed simp

section \<open>The time slice\<close>

text \<open>\<open>n\<close> ticks of the running thread's clock.\<close>

fun ticks :: "nat \<Rightarrow> tid \<Rightarrow> kst \<Rightarrow> kst run" where
  "ticks 0 t s = Inr s"
| "ticks (Suc n) t s = andthen (ticks n t s) (krlthd_inc_tick t)"

lemma inc_tick_cases:
  assumes "threads s t = Some h"
  shows "unat (td_tick h) < 20 \<Longrightarrow> krlthd_inc_tick t s =
      Inr (upd_td t (\<lambda>h. h\<lparr>td_tick := td_tick h + 1, td_sumtick := td_sumtick h + 1\<rparr>) s)"
    and "td_tick h = 20 \<Longrightarrow> krlthd_inc_tick t s =
      Inr (krlsched_set_schedflgs (upd_td t (\<lambda>h. h\<lparr>td_sumtick := td_sumtick h + 1, td_tick := 0\<rparr>) s))"
proof -
  assume l: "unat (td_tick h) < 20"
  then have "unat (td_tick h + 1) = unat (td_tick h) + 1"
    by (simp add: unat_word_ariths)
  with l have "\<not> TDRUN_TICK < td_tick h + 1"
    by (simp add: word_less_nat_alt TDRUN_TICK_def)
  with assms show "krlthd_inc_tick t s =
      Inr (upd_td t (\<lambda>h. h\<lparr>td_tick := td_tick h + 1, td_sumtick := td_sumtick h + 1\<rparr>) s)"
    by (simp add: krlthd_inc_tick_def td_def Let_def upd_td_def)
next
  assume "td_tick h = 20"
  with assms show "krlthd_inc_tick t s =
      Inr (krlsched_set_schedflgs (upd_td t (\<lambda>h. h\<lparr>td_sumtick := td_sumtick h + 1, td_tick := 0\<rparr>) s))"
    by (simp add: krlthd_inc_tick_def td_def Let_def upd_td_def TDRUN_TICK_def)
qed

lemma ticks_below:
  assumes "threads s t = Some h" "td_tick h = 0"
  shows "n \<le> 20 \<Longrightarrow> ticks n t s =
    Inr (upd_td t (\<lambda>h. h\<lparr>td_tick := of_nat n, td_sumtick := td_sumtick h + of_nat n\<rparr>) s)"
proof (induction n)
  case 0
  have "h\<lparr>td_tick := 0, td_sumtick := td_sumtick h\<rparr> = h"
    using assms(2) by simp
  with assms(1) show ?case
    by (simp add: upd_td_def fun_upd_idem)
next
  case (Suc n)
  let ?s = "upd_td t (\<lambda>h. h\<lparr>td_tick := of_nat n, td_sumtick := td_sumtick h + of_nat n\<rparr>) s"
  have "threads ?s t = Some (h\<lparr>td_tick := of_nat n, td_sumtick := td_sumtick h + of_nat n\<rparr>)"
    using assms(1) by simp
  then have "krlthd_inc_tick t ?s =
      Inr (upd_td t (\<lambda>h. h\<lparr>td_tick := td_tick h + 1, td_sumtick := td_sumtick h + 1\<rparr>) ?s)"
    by (rule inc_tick_cases(1)) (use Suc.prems in \<open>simp add: unsigned_of_nat take_bit_eq_mod\<close>)
  with Suc assms(1) show ?case
    by (simp add: upd_td_def add.assoc add.commute [of 1])
qed

lemma ticks_21:
  assumes "threads s t = Some h" "td_tick h = 0"
  shows "ticks 21 t s = Inr (krlsched_set_schedflgs
    (upd_td t (\<lambda>h. h\<lparr>td_sumtick := td_sumtick h + 21, td_tick := 0\<rparr>) s))"
proof -
  let ?s = "upd_td t (\<lambda>h. h\<lparr>td_tick := of_nat 20, td_sumtick := td_sumtick h + of_nat 20\<rparr>) s"
  have "threads ?s t = Some (h\<lparr>td_tick := of_nat 20, td_sumtick := td_sumtick h + of_nat 20\<rparr>)"
    using assms(1) by simp
  from inc_tick_cases(2) [OF this] have
    "krlthd_inc_tick t ?s = Inr (krlsched_set_schedflgs (upd_td t (\<lambda>h. h\<lparr>td_sumtick := td_sumtick h + 21, td_tick := 0\<rparr>) s))"
    using assms(1) by (simp add: upd_td_def add.commute)
  moreover have "ticks 21 t s = andthen (ticks 20 t s) (krlthd_inc_tick t)"
    using ticks.simps(2) [of 20 t s] by (simp only: Suc_numeral semiring_norm)
  ultimately show ?thesis
    using ticks_below [OF assms, of 20] by simp
qed

section \<open>Making threads that fit\<close>

lemma krlnew_thread_kern:
  assumes "sched_inv s" "filerun \<noteq> 0" "usz \<le> DAFT_TDUSRSTKSZ" "ksz \<le> DAFT_TDKRLSTKSZ"
    and "prilg = PRILG_USR \<or> prilg = PRILG_SYS" "unat prity < 64"
    and "ans_stack a \<noteq> 0" "ans_dsc a \<noteq> 0" "fresh (ans_dsc a) s"
  defines "ktop \<equiv> (ans_stack a + (0x8000 - 1)) AND NOT 0xf"
  shows "krlnew_thread a name filerun KERNTHREAD_FLG prilg prity usz ksz s =
    Inr (Some (ans_dsc a), added (ans_dsc a) (kern_thread a name filerun prilg prity)
      (s\<lparr>kframes := (kframes s)(ktop - 192 \<mapsto> kern_frame filerun ktop)\<rparr>))"
proof -
  have k: "(if ksz < DAFT_TDKRLSTKSZ then DAFT_TDKRLSTKSZ else ksz) = 0x8000"
    using assms(4) by (intro stksz_max) simp
  have "\<not> (64 :: u64) \<le> prity"
    using assms(6) of_nat_64_le by blast
  then show ?thesis
    using assms(2-5) krlnew_kern_thread_core_ok [OF assms(1,7,8,9,6)] k
    by (auto simp: krlnew_thread_def Let_def ktop_def)
qed

lemma krlnew_thread_user:
  assumes "sched_inv s" "filerun \<noteq> 0" "usz \<le> DAFT_TDUSRSTKSZ" "ksz \<le> DAFT_TDKRLSTKSZ"
    and "prilg = PRILG_USR \<or> prilg = PRILG_SYS" "unat prity < 64"
    and "ans_stack a \<noteq> 0" "ans_dsc a \<noteq> 0" "fresh (ans_dsc a) s"
    and mm: "ans_mm a = Some (mm, Some (ustart, USER_VIRTUAL_ADDRESS_END))" "0x8000 \<le> USER_VIRTUAL_ADDRESS_END - ustart"
  defines "ktop \<equiv> (ans_stack a + (0x8000 - 1)) AND NOT 0xf"
  shows "krlnew_thread a name filerun USERTHREAD_FLG prilg prity usz ksz s =
    Inr (Some (ans_dsc a), added (ans_dsc a) (user_thread a mm ustart USER_VIRTUAL_ADDRESS_END name filerun prilg prity)
      (s\<lparr>kframes := (kframes s)(ktop - 192 \<mapsto> user_frame filerun (USER_VIRTUAL_ADDRESS_END AND NOT 0xf))\<rparr>))"
proof -
  have k: "(if ksz < DAFT_TDKRLSTKSZ then DAFT_TDKRLSTKSZ else ksz) = 0x8000"
    using assms(4) by (intro stksz_max) simp
  have u: "(if usz < DAFT_TDUSRSTKSZ then DAFT_TDUSRSTKSZ else usz) = 0x8000"
    using assms(3) by (auto simp: DAFT_TDUSRSTKSZ_def)
  have "\<not> (64 :: u64) \<le> prity"
    using assms(6) of_nat_64_le by blast
  then show ?thesis
    using assms(2-5) krlnew_user_thread_core_ok [OF assms(1,7,8,9) mm assms(6), of name filerun prilg] k u
    by (auto simp: krlnew_thread_def Let_def ktop_def KERNTHREAD_FLG_def USERTHREAD_FLG_def)
qed

end
