(* ===== verification/SchedDemo.thy ===== *)
theory SchedDemo
  imports SchedSystem
begin

text \<open>
  A concrete system for the witnesses: booted, with two kernel threads and two semaphores.
\<close>

declare One_nat_def [simp del]

section \<open>A system with two threads and one semaphore\<close>

definition blank :: kst where
  "blank = \<lparr>scls_cpunr = 0, scls_threadnr = 0, scls_threadid_inc = 0, sda_cpuid = 0, sda_schdflgs = 0, sda_premptidx = 0,
     sda_threadnr = 0, sda_prityidx = 0, sda_cpuidle = None, sda_currtd = None, sda_thdlst = [], sda_exitlist = [],
     threads = Map.empty, sems = [krlsem_t_init, krlsem_t_init], kframes = Map.empty, tss_rsp0 = 0, cur_mm = 0\<rparr>"

definition raw :: kst where "raw = krlsem_set_sem 0 0 1 blank"

definition ans :: "u64 \<Rightarrow> alloc_ans" where
  "ans n = \<lparr>ans_stack = 0x100000 * n, ans_dsc = 0x1000 * n, ans_name = True,
     ans_mm = Some (1, Some (USER_VIRTUAL_ADDRESS_END - 0x7fffff, USER_VIRTUAL_ADDRESS_END))\<rparr>"

unbundle bit_operations_syntax

definition ev_kern :: "u64 \<Rightarrow> u64 \<Rightarrow> sys_event" where
  "ev_kern n p = Spawn (ans n) (Some [65]) 0x400000 KERNTHREAD_FLG PRILG_SYS p 0x8000 0x8000"

definition booted :: kst where
  "booted = (case boot (ans 1) 0x5000 raw of Inr s \<Rightarrow> s | Inl _ \<Rightarrow> blank)"

lemma ans_ok: "ans_stack (ans 1) \<noteq> 0" "ans_dsc (ans 1) \<noteq> 0" "sems_free raw"
  by (simp_all add: ans_def sems_free_def raw_def krlsem_set_sem_def blank_def krlsem_t_init_def)

lemma booted_ok: "boot (ans 1) 0x5000 raw = Inr booted" "sched_inv booted" "sems booted = sems raw"
  "sda_currtd booted = Some 0x1000"
  using boot_ok [OF ans_ok, of "0x5000"] by (auto simp: booted_def ans_def)


lemma booted_fields: "sda_thdlst booted = replicate 64 thrdlst_t_init" "sda_cpuidle booted = Some 0x1000"
  "threads booted = [0x1000 \<mapsto> idle_thread (ans 1) 0x5000]"
  "sems booted = [krlsem_t_init\<lparr>sem_count := 1\<rparr>, krlsem_t_init]" "sda_exitlist booted = []"
  "sda_schdflgs booted = NOTS_SCHED_FLGS"
proof -
  have f: "sda_cpuidle booted = Some (ans_dsc (ans 1))" "sda_exitlist booted = []"
    "threads booted = (threads raw)(ans_dsc (ans 1) \<mapsto> idle_thread (ans 1) 0x5000)"
    using boot_ok [OF ans_ok, of "0x5000"] booted_ok(1) by auto
  then show "sda_cpuidle booted = Some 0x1000" "sda_exitlist booted = []"
    "threads booted = [0x1000 \<mapsto> idle_thread (ans 1) 0x5000]"
    by (simp_all add: ans_def raw_def krlsem_set_sem_def blank_def)
  show "sems booted = [krlsem_t_init\<lparr>sem_count := 1\<rparr>, krlsem_t_init]"
    by (simp add: booted_ok(3) raw_def krlsem_set_sem_def blank_def krlsem_t_init_def)
  show "sda_thdlst booted = replicate 64 thrdlst_t_init" "sda_schdflgs booted = NOTS_SCHED_FLGS"
    by (simp_all add: booted_def boot_def new_cpuidle_def new_cpuidle_thread_def krlnew_thread_dsc_def init_krlsched_def
        schedclass_t_init_def schdata_t_init_def Let_def krlthread_kernstack_init_def td_def upd_td_def
        krlcpuidle_start_def thread_name_def thread_t_init_def context_t_init_def ans_def)
qed

section \<open>Two threads of priority 0, the second one running\<close>

definition spawned :: "u64 \<Rightarrow> kst \<Rightarrow> kst" where
  "spawned n s = (let ktop = (0x100000 * n + (0x8000 - 1)) AND NOT 0xf
     in added (0x1000 * n) (kern_thread (ans n) (Some [65]) 0x400000 PRILG_SYS 0)
       (s\<lparr>kframes := (kframes s)(ktop - 192 \<mapsto> kern_frame 0x400000 ktop)\<rparr>))"

lemma spawned_fields:
  assumes "length (sda_thdlst s) = 64"
  shows "sda_thdlst (spawned n s) = (sda_thdlst s)[0 := (sda_thdlst s ! 0)\<lparr>tdl_lsth := (0x1000 * n) # tdl_lsth (sda_thdlst s ! 0),
      tdl_nr := tdl_nr (sda_thdlst s ! 0) + 1\<rparr>]"
    "sems (spawned n s) = sems s" "sda_currtd (spawned n s) = sda_currtd s" "sda_cpuidle (spawned n s) = sda_cpuidle s"
    "threads (spawned n s) = (threads s)(0x1000 * n \<mapsto> kern_thread (ans n) (Some [65]) 0x400000 PRILG_SYS 0)"
    "sda_exitlist (spawned n s) = sda_exitlist s"
  by (simp_all add: spawned_def added_def Let_def kern_thread_fields upd_lst_def)

lemma spawn_step:
  assumes "sched_inv s" "0x1000 * n \<noteq> 0" "0x100000 * n \<noteq> 0" "fresh (0x1000 * n) s"
  shows "sys_do (ev_kern n 0) s = Inr (True, spawned n s)" "enabled (ev_kern n 0) s" "sched_inv (spawned n s)"
proof -
  have "krlnew_thread (ans n) (Some [65]) 0x400000 KERNTHREAD_FLG PRILG_SYS 0 0x8000 0x8000 s =
      Inr (Some (0x1000 * n), spawned n s)"
    using assms by (subst krlnew_thread_kern)
      (simp_all add: ans_def spawned_def Let_def DAFT_TDUSRSTKSZ_def DAFT_TDKRLSTKSZ_def)
  then show d: "sys_do (ev_kern n 0) s = Inr (True, spawned n s)"
    by (simp add: ev_kern_def)
  show e: "enabled (ev_kern n 0) s"
    using assms(4) by (simp add: ev_kern_def ans_def)
  show "sched_inv (spawned n s)"
    by (rule sys_do_inv [OF assms(1) e d])
qed

definition demo :: kst where
  "demo = scheduled (spawned 3 (spawned 2 booted))"

lemma demo_steps: "sched_inv (spawned 2 booted)" "sched_inv (spawned 3 (spawned 2 booted))" "sched_inv demo"
  "sys_run booted [(ev_kern 2 0, True), (ev_kern 3 0, True), (Yield, True)] demo"
proof -
  have f: "fresh 0x2000 booted" "fresh 0x3000 (spawned 2 booted)"
    by (simp_all add: fresh_def booted_fields spawned_fields)
  have s2: "sys_do (ev_kern 2 0) booted = Inr (True, spawned 2 booted)" "enabled (ev_kern 2 0) booted"
    "sched_inv (spawned 2 booted)"
    using spawn_step [OF booted_ok(2), of 2] f(1) by simp_all
  have s3: "sys_do (ev_kern 3 0) (spawned 2 booted) = Inr (True, spawned 3 (spawned 2 booted))"
    "enabled (ev_kern 3 0) (spawned 2 booted)" "sched_inv (spawned 3 (spawned 2 booted))"
    using spawn_step [OF s2(3), of 3] f(2) by simp_all
  show "sched_inv (spawned 2 booted)" "sched_inv (spawned 3 (spawned 2 booted))"
    by (rule s2 s3)+
  note y = scheduled_inv [OF s3(3)]
  then show "sched_inv demo" by (simp add: demo_def)
  show "sys_run booted [(ev_kern 2 0, True), (ev_kern 3 0, True), (Yield, True)] demo"
    by (rule sys_run.step [OF s2(2,1)], rule sys_run.step [OF s3(2,1)], rule sys_run.step)
      (simp_all add: y demo_def sys_run_Nil)
qed

lemma demo_fields:
  "sda_currtd demo = Some 0x3000" "ready_at demo 0 = [0x3000, 0x2000]" "top_prio demo = Some 0"
  "count_of demo 0 = 1" "count_of demo 1 = 0" "length (sems demo) = 2" "waiters demo 1 = []" "not_idle demo"
  "sda_cpuidle demo = Some 0x1000" "fresh 0x4000 demo"
proof -
  let ?s = "spawned 3 (spawned 2 booted)"
  have l: "sda_thdlst ?s ! 0 = \<lparr>tdl_lsth = [0x3000, 0x2000], tdl_curruntd = None, tdl_nr = 2\<rparr>"
    by (simp add: spawned_fields booted_fields thrdlst_t_init_def)
  then have p: "top_prio ?s = Some 0"
    by (simp add: top_prio_Some rdy_def)
  note r = ready_scheduled [OF demo_steps(2) p]
  show "sda_currtd demo = Some 0x3000" "ready_at demo 0 = [0x3000, 0x2000]" "top_prio demo = Some 0"
    using r l by (simp_all add: demo_def chosen_def turn_def rdy_def)
  then show "not_idle demo" "sda_cpuidle demo = Some 0x1000"
    by (simp_all add: not_idle_def demo_def scheduled_def p spawned_fields booted_fields)
  show "count_of demo 0 = 1" "count_of demo 1 = 0" "length (sems demo) = 2" "waiters demo 1 = []"
    by (simp_all add: demo_def spawned_fields booted_fields krlsem_t_init_def kwlst_t_init_def del: One_nat_def)
  show "fresh 0x4000 demo"
    by (simp add: fresh_def demo_def scheduled_def p switched_def l chosen_def spawned_fields booted_fields)
qed

text \<open>The running one waits for the second semaphore.\<close>

definition demo_wait :: kst where
  "demo_wait = scheduled (waited 0x3000 0 1 demo)"

lemma demo_wait_ok: "krlsem_down 1 demo = Inr (False, demo_wait)" "sched_inv demo_wait" "waiters demo_wait 1 = [0x3000]"
   "length (sems demo_wait) = 2" "count_of demo_wait 1 = 0"
proof -
  obtain p where p: "sda_currtd demo = Some 0x3000" "p < 64" "tdl_curruntd (sda_thdlst demo ! p) = Some 0x3000"
    using running_at [OF sched_invD(3) [OF demo_steps(3)] demo_fields(8)] demo_fields(1) by auto
  have "0x3000 \<in> set (ready_at demo p)" "0x3000 \<in> set (ready_at demo 0)"
    using p(3) demo_fields(2) by (simp_all add: rdy_simps)
  with ready_only(1) [OF sched_invD(1) [OF demo_steps(3)] p(2), of "0x3000" 0] have "p = 0"
    by auto
  then have w: "krlsched_wait (Some 1) demo = Inr (waited 0x3000 0 1 demo)"
    using p demo_fields(6) by (intro krlsched_wait_ok [OF sched_invD(1) [OF demo_steps(3)]]) simp_all
  from krlsem_down_block [OF demo_steps(3) _ _ demo_fields(8), of 1] obtain t q where
    d: "krlsem_down 1 demo = Inr (False, scheduled (waited t q 1 demo))" "sched_inv (scheduled (waited t q 1 demo))"
    using demo_fields(5,6) by auto
  moreover have "krlsem_down 1 demo = andthen (krlschedul (waited 0x3000 0 1 demo)) (\<lambda>s. Inr (False, s))"
    using w by (simp add: krlsem_down_def krlwlst_wait_def demo_fields(5,6))
  moreover have "krlschedul (waited 0x3000 0 1 demo) = Inr demo_wait"
  proof -
    have "lists_ok (waited 0x3000 0 1 demo)"
      using p \<open>p = 0\<close> demo_fields(6) by (intro waited_lists [OF sched_invD(1) [OF demo_steps(3)]]) simp_all
    then show ?thesis
      using sched_invD(4,5) [OF demo_steps(3)] demo_fields(6)
      by (simp add: demo_wait_def krlschedul_ok waited_fields)
  qed
  ultimately show "krlsem_down 1 demo = Inr (False, demo_wait)" "sched_inv demo_wait"
    by simp_all
  show "waiters demo_wait 1 = [0x3000]" "length (sems demo_wait) = 2" "count_of demo_wait 1 = 0"
    using demo_fields(5,6,7) by (simp_all add: demo_wait_def waited_fields)
qed

end
