(* ===== verification/SchedProps.thy ===== *)
theory SchedProps
  imports SchedDemo
begin

text \<open>
  What the scheduler, the semaphores and the threads guarantee, each with an instance on the system of SchedDemo.
\<close>

unbundle bit_operations_syntax

section \<open>The machine\<close>

text \<open>C15: from the start of the kernel on, whatever the running threads, the clock and the creation of threads do, in
  any order, the scheduler keeps its invariant, and whatever can happen next returns: no panic is reached, no thread is
  linked twice and no list is corrupted.
\<close>

theorem sched_never_panics:
  assumes "ans_stack a \<noteq> 0" "ans_dsc a \<noteq> 0" "sems_free s"
  shows "\<exists>s0. boot a main s = Inr s0 \<and> (\<forall>tr s1. sys_run s0 tr s1 \<longrightarrow> sched_inv s1 \<and>
    (\<forall>e. enabled e s1 \<longrightarrow> (\<exists>r s2. sys_do e s1 = Inr (r, s2))))"
proof -
  from boot_ok [OF assms] obtain s0 where s0: "boot a main s = Inr s0" "sched_inv s0" by blast
  have "sched_inv s1" if "sys_run s0 tr s1" for tr s1
    using sys_run_good [OF that s0(2)] by blast
  with s0(1) sys_do_ok show ?thesis by blast
qed

lemma sched_never_panics_witness:
  "boot (ans 1) 0x5000 raw = Inr booted \<and> sys_run booted [(ev_kern 2 0, True), (ev_kern 3 0, True), (Yield, True)] demo \<and>
   sched_inv demo"
  using sched_never_panics [OF ans_ok, of "0x5000"] booted_ok(1) demo_steps(4) by auto

text \<open>C16: a semaphore lends out no unit it does not have: along any run, what was taken is at most what it had and got
  back; its count is exactly the difference; and a thread waits for it only while it has no unit.
\<close>

theorem semaphore_units:
  assumes "sched_inv s" "sys_run s tr s'" "w < length (sems s)"
  shows "int (got w tr) \<le> count_of s w + int (released w tr) \<and>
    count_of s' w = count_of s w + int (released w tr) - int (got w tr) \<and>
    (waiters s' w = [] \<or> count_of s' w = 0)"
proof -
  from sys_run_good [OF assms(2,1)] assms(3) have r: "sched_inv s'" "w < length (sems s')"
    "count_of s' w = count_of s w + int (released w tr) - int (got w tr)"
    by (simp_all add: sum_delta)
  have "0 \<le> count_of s' w" "1 \<le> count_of s' w \<Longrightarrow> waiters s' w = []"
    using sems_okD [OF sched_invD(2) [OF r(1)] r(2)] by simp_all
  with r(3) show ?thesis by linarith
qed

lemma semaphore_units_witness:
  "sys_run demo [(Down 0, True), (Up 0, True)] (upped 0 (set_count 0 0 demo)) \<and>
   count_of (upped 0 (set_count 0 0 demo)) 0 = 1"
proof -
  have d: "krlsem_down 0 demo = Inr (True, set_count 0 0 demo)" "sched_inv (set_count 0 0 demo)"
    using krlsem_down_take [OF demo_steps(3), of 0] demo_fields(4,6) by simp_all
  have c: "count_of (set_count 0 0 demo) 0 = 0"
    using demo_fields(6) by (simp add: set_count_fields)
  have l: "0 < length (sems demo)" "0 < length (sems (set_count 0 0 demo))"
    by (simp_all only: set_count_same demo_fields(6))
  have "krlsem_up 0 (set_count 0 0 demo) = Inr (upped 0 (set_count 0 0 demo))"
    by (rule krlsem_up_ok [OF d(2) l(2), THEN conjunct1]) (simp add: c)
  then have x: "sys_do (Up 0) (set_count 0 0 demo) = Inr (True, upped 0 (set_count 0 0 demo))"
    "enabled (Up 0) (set_count 0 0 demo)" "sys_do (Down 0) demo = Inr (True, set_count 0 0 demo)" "enabled (Down 0) demo"
    using d(1) c l demo_fields(8) by simp_all
  have r: "sys_run demo [(Down 0, True), (Up 0, True)] (upped 0 (set_count 0 0 demo))"
    by (rule sys_run.step [OF x(4,3) sys_run.step [OF x(2,1) sys_run.stop]])
  with semaphore_units [OF demo_steps(3) r, of 0] show ?thesis
    by (simp add: demo_fields got_def released_def)
qed

section \<open>Semaphores\<close>

text \<open>C17: \<open>krlsem_up\<close> gives the unit back and wakes every waiter: each is runnable again and joins the end of the ready
  list of its own priority, in the order of the waiting list, which is empty then; and rescheduling is requested.
\<close>

theorem up_wakes_all_waiters:
  assumes "sched_inv s" "w < length (sems s)" "count_of s w < 2 ^ 63 - 1"
  shows "\<exists>s'. krlsem_up w s = Inr s' \<and> sched_inv s' \<and> count_of s' w = count_of s w + 1 \<and> waiters s' w = [] \<and>
    (\<forall>q. ready_at s' q = ready_at s q @ filter (\<lambda>t. prio s t = q) (waiters s w)) \<and>
    (\<forall>t \<in> set (waiters s w). thr s' t {TDSTUS_RUN} UNIV) \<and> sda_schdflgs s' = NEED_SCHED_FLGS"
proof -
  let ?s1 = "set_count w (count_of s w + 1) s"
  have "lists_ok ?s1" "w < length (sems ?s1)" "waiters ?s1 w = waiters s w"
    using set_count_lists [OF sched_invD(1) [OF assms(1)] assms(2)] assms(2) by (simp_all add: set_count_fields)
  note wk = wake_all_ready [OF this]
  have u: "sda_thdlst (upped w s) = sda_thdlst (wake_all w (waiters s w) ?s1)"
    "thr (upped w s) t S P = thr (wake_all w (waiters s w) ?s1) t S P" "sda_schdflgs (upped w s) = NEED_SCHED_FLGS"
    for t S P
    by (simp_all add: upped_def krlsched_set_schedflgs_def)
  have p: "prio ?s1 = prio s"
    by (simp add: prio_def fun_eq_iff)
  have "ready_at (upped w s) q = ready_at s q @ filter (\<lambda>t. prio s t = q) (waiters s w)" for q
    using wk [of q] by (simp add: u p)
  moreover have "\<forall>t \<in> set (waiters s w). thr (upped w s) t {TDSTUS_RUN} UNIV"
    using wk [of 0] by (simp add: u)
  ultimately show ?thesis
    using krlsem_up_ok [OF assms] u(3) by blast
qed

lemma up_wakes_all_waiters_witness:
  "waiters demo_wait 1 = [0x3000] \<and> (\<exists>s'. krlsem_up 1 demo_wait = Inr s' \<and> waiters s' 1 = [] \<and>
     thr s' 0x3000 {TDSTUS_RUN} UNIV)"
proof -
  from up_wakes_all_waiters [OF demo_wait_ok(2), of 1] demo_wait_ok(3-5) show ?thesis
    by auto
qed

text \<open>with no unit left, \<open>krlsem_down\<close> puts the running thread to sleep: it is first on the waiting list, no longer
  ready at any priority, and another thread, or the idle one, runs.
\<close>

theorem down_blocks:
  assumes "sched_inv s" "w < length (sems s)" "count_of s w < 1" "not_idle s"
  shows "\<exists>t s'. sda_currtd s = Some t \<and> krlsem_down w s = Inr (False, s') \<and> sched_inv s' \<and>
    waiters s' w = t # waiters s w \<and> thr s' t {TDSTUS_WAIT} UNIV \<and> (\<forall>p < 64. t \<notin> set (ready_at s' p)) \<and>
    sda_currtd s' \<noteq> Some t"
proof -
  from krlsem_down_block [OF assms] obtain t p where d: "sda_currtd s = Some t"
    "krlsem_down w s = Inr (False, scheduled (waited t p w s))" "sched_inv (scheduled (waited t p w s))" by blast
  let ?s = "scheduled (waited t p w s)"
  note i = sched_invD [OF d(3)]
  have w: "waiters ?s w = t # waiters s w" "w < length (sems ?s)"
    using assms(2) by (simp_all add: waited_fields)
  then have m: "t \<in> set (waiters ?s w)" by simp
  have tw: "thr ?s t {TDSTUS_WAIT} UNIV"
    using lists_okD(3) [OF i(1) w(2)] m by (auto simp: wait_ok_def thr_def)
  have nr: "t \<notin> set (ready_at ?s q)" if "q < 64" for q
    by (rule wait_only(1) [OF i(1) w(2) m that])
  have "sda_currtd ?s \<noteq> Some t"
  proof
    assume c: "sda_currtd ?s = Some t"
    with i(3) have "sda_cpuidle ?s = Some t \<or> (\<exists>q < 64. tdl_curruntd (sda_thdlst ?s ! q) = Some t)"
      by (auto simp: running_ok_def)
    with nr set_rdy(2) have "sda_cpuidle ?s = Some t" by blast
    with lists_okD(7) [OF i(1)] m w(2) show False
      unfolding idle_ok_def by auto
  qed
  with d w(1) tw nr show ?thesis by blast
qed

lemma down_blocks_witness:
  "count_of demo 1 = 0 \<and> (\<exists>s'. krlsem_down 1 demo = Inr (False, s') \<and> waiters s' 1 = [0x3000] \<and> sda_currtd s' \<noteq> Some 0x3000)"
  using down_blocks [OF demo_steps(3), of 1] demo_fields by auto


section \<open>Which thread runs\<close>

text \<open>C18: \<open>krlschedul\<close> always gives the processor to a ready thread of the highest priority that has one (0 is the
  highest), and to the idle thread only when nobody is ready; the chosen one is then running.
\<close>

theorem strict_priority:
  assumes "sched_inv s"
  shows "\<exists>t s'. krlschedul s = Inr s' \<and> sched_inv s' \<and> sda_currtd s' = Some t \<and>
    (case top_prio s of
       None \<Rightarrow> sda_cpuidle s = Some t \<and> (\<forall>p < 64. ready_at s p = [])
     | Some p \<Rightarrow> t \<in> set (ready_at s p) \<and> (\<forall>q < p. ready_at s q = []) \<and> thr s' t {TDSTUS_RUN} {p} \<and>
         set (ready_at s' p) = set (ready_at s p))"
proof (cases "top_prio s")
  case None
  obtain i where i: "sda_cpuidle s = Some i" "threads s i \<noteq> None"
    using lists_okD(7) [OF sched_invD(1) [OF assms]] by (auto simp: idle_ok_def)
  then have "sda_currtd (scheduled s) = Some i"
    using None by (simp add: scheduled_def)
  then show ?thesis
    using scheduled_inv [OF assms] i(1) None [unfolded top_prio_None] by (simp add: None)
next
  case (Some p)
  let ?l = "sda_thdlst s ! p" let ?t = "chosen ?l"
  note r = ready_scheduled [OF assms Some] and ok = sched_invD(1) [OF assms]
  have p: "p < 64" "rdy ?l \<noteq> []" "\<forall>q < p. ready_at s q = []"
    using Some by (simp_all add: top_prio_Some)
  have m: "?t \<in> set (rdy ?l)"
    by (rule turn_facts(6) [OF p(2)])
  then have "thr s ?t {TDSTUS_RUN, TDSTUS_NEW} {p}"
    using lists_okD(2) [OF ok p(1)] by (simp add: ready_ok_def)
  then have "thr (scheduled s) ?t {TDSTUS_RUN} {p}"
    by (simp add: scheduled_def Some thr_switched) (auto simp: thr_def)
  then show ?thesis
    using scheduled_inv [OF assms] Some p(3) r(1,2) m turn_facts(1) by auto
qed

lemma strict_priority_witness:
  "top_prio demo = Some 0 \<and> (\<exists>t s'. krlschedul demo = Inr s' \<and> sda_currtd s' = Some t \<and> t \<in> {0x3000, 0x2000})"
  using strict_priority [OF demo_steps(3)] by (auto simp: demo_fields)

text \<open>C19: no thread of the highest priority starves: if the scheduler is called again and again, each of them gets the
  processor within as many calls as there are ready threads of that priority.
\<close>

theorem no_starvation:
  assumes "sched_inv s" "top_prio s = Some p" "t \<in> set (ready_at s p)"
  shows "\<exists>i tr s'. 1 \<le> i \<and> i \<le> length (ready_at s p) \<and> tr = replicate i (Yield, True) \<and> sys_run s tr s' \<and>
    sda_currtd s' = Some t"
proof -
  have run: "sys_run x (replicate i (Yield, True)) ((scheduled ^^ i) x)" if "sched_inv x" for i x
    using that
  proof (induction i arbitrary: x)
    case (Suc i)
    have "sys_run (scheduled x) (replicate i (Yield, True)) ((scheduled ^^ i) (scheduled x))"
      by (rule Suc.IH) (rule scheduled_inv(2) [OF Suc.prems])
    then show ?case
      using scheduled_inv(1) [OF Suc.prems] by (auto intro: sys_run.step simp: funpow_swap1)
  qed (simp add: sys_run_Nil)
  from everyone_runs [OF assms] run [OF assms(1)] show ?thesis by blast
qed

lemma no_starvation_witness:
  "ready_at demo 0 = [0x3000, 0x2000] \<and>
   (\<exists>i s'. i \<le> 2 \<and> sys_run demo (replicate i (Yield, True)) s' \<and> sda_currtd s' = Some 0x2000)"
proof -
  obtain i s' where i: "i \<le> length (ready_at demo 0)" "sys_run demo (replicate i (Yield, True)) s'"
    "sda_currtd s' = Some 0x2000"
    using no_starvation [OF demo_steps(3), of 0 "0x2000"] by (auto simp: demo_fields(2,3))
  from i(1) have "i \<le> 2"
    by (simp add: demo_fields)
  with i(2,3) demo_fields(2) show ?thesis by blast
qed

text \<open>C20: a thread that has exited never runs again, whatever happens later.
\<close>

theorem exited_never_runs:
  assumes "sched_inv s" "not_idle s" "krlsve_core_exit_thread s = Inr s1" "sda_currtd s = Some t" "sys_run s1 tr s2"
  shows "t \<in> set (sda_exitlist s2) \<and> thr s2 t {TDSTUS_EXIT} UNIV \<and> sda_currtd s2 \<noteq> Some t"
proof -
  from krlsve_core_exit_thread_ok [OF assms(1,2)] assms(3,4) obtain p where
    e: "s1 = scheduled (exited t p s)" "sched_inv s1" by auto
  have "t \<in> set (sda_exitlist s1)"
    by (simp add: e(1)) (simp add: exited_def)
  with sys_run_exitlist [OF assms(5) e(2)] have m: "t \<in> set (sda_exitlist s2)" by blast
  from sys_run_good [OF assms(5) e(2)] have i: "sched_inv s2" by blast
  with curr_not_exited [OF i m] lists_okD(6) [OF sched_invD(1) [OF i] m] m show ?thesis by blast
qed

lemma exited_never_runs_witness:
  "sda_currtd demo = Some 0x3000 \<and> (\<exists>s1. krlsve_core_exit_thread demo = Inr s1 \<and> sda_currtd s1 \<noteq> Some 0x3000)"
proof -
  from krlsve_core_exit_thread_ok [OF demo_steps(3) demo_fields(8)] obtain s1 where
    e: "krlsve_core_exit_thread demo = Inr s1" by blast
  from exited_never_runs [OF demo_steps(3) demo_fields(8) e demo_fields(1) sys_run.stop] e demo_fields(1)
  show ?thesis by blast
qed

text \<open>The time slice: a thread that starts with a fresh slice is asked to give way exactly at its 21st tick, not
  before, and its slice starts afresh then; the total is kept.
\<close>

theorem time_slice:
  assumes "threads s t = Some h" "td_tick h = 0" "n \<le> 21" "sda_schdflgs s = NOTS_SCHED_FLGS"
  shows "\<exists>s' h'. ticks n t s = Inr s' \<and> threads s' t = Some h' \<and> td_sumtick h' = td_sumtick h + of_nat n \<and>
    (sda_schdflgs s' = NEED_SCHED_FLGS \<longleftrightarrow> n = 21) \<and> td_tick h' = (if n = 21 then 0 else of_nat n)"
proof (cases "n = 21")
  case True
  with assms ticks_21 [OF assms(1,2)] show ?thesis
    by (simp add: krlsched_set_schedflgs_def)
next
  case False
  with assms ticks_below [OF assms(1,2), of n] show ?thesis
    by simp
qed


lemma time_slice_witness:
  "\<exists>s'. ticks 21 0x1000 booted = Inr s' \<and> sda_schdflgs s' = NEED_SCHED_FLGS"
proof -
  have h: "threads booted 0x1000 = Some (idle_thread (ans 1) 0x5000)" "td_tick (idle_thread (ans 1) 0x5000) = 0"
    by (simp_all add: booted_fields idle_thread_def thread_t_init_def Let_def)
  from time_slice [OF h _ booted_fields(6), of 21] show ?thesis by auto
qed

section \<open>Making threads\<close>

text \<open>a new kernel thread starts at its function: its first frame lies inside its own stack, aligned to 16 bytes and
  right below the top, holds the entry address and kernel segments, and is what its context points at; the thread is
  first on the ready list of its priority, marked new.
\<close>

theorem kernel_thread_starts:
  assumes "sched_inv s" "filerun \<noteq> 0" "usz \<le> DAFT_TDUSRSTKSZ" "ksz \<le> DAFT_TDKRLSTKSZ"
    and "prilg = PRILG_USR \<or> prilg = PRILG_SYS" "unat prity < 64"
    and "ans_stack a \<noteq> 0" "ans_dsc a \<noteq> 0" "fresh (ans_dsc a) s" "unat (ans_stack a) + 0x8000 < 2 ^ 64"
  shows "\<exists>s' h fr. krlnew_thread a name filerun KERNTHREAD_FLG prilg prity usz ksz s = Inr (Some (ans_dsc a), s') \<and>
    sched_inv s' \<and> threads s' (ans_dsc a) = Some h \<and> td_stus h = TDSTUS_NEW \<and>
    tdl_lsth (sda_thdlst s' ! unat prity) = ans_dsc a # tdl_lsth (sda_thdlst s ! unat prity) \<and>
    kframes s' (ctx_nextrsp (td_context h)) = Some fr \<and> ctx_nextrip (td_context h) = filerun \<and>
    r_rip_old fr = filerun \<and> r_cs_old fr AND 3 = 0 \<and> r_rsp_old fr = td_krlstktop h \<and>
    16 dvd unat (ctx_nextrsp (td_context h)) \<and> unat (ctx_nextrsp (td_context h)) + 192 = unat (td_krlstktop h) \<and>
    unat (ans_stack a) \<le> unat (ctx_nextrsp (td_context h)) \<and> unat (td_krlstktop h) < unat (ans_stack a) + 0x8000"
proof -
  let ?ktop = "(ans_stack a + (0x8000 - 1)) AND NOT 0xf" let ?h = "kern_thread a name filerun prilg prity"
  let ?s = "added (ans_dsc a) ?h (s\<lparr>kframes := (kframes s)(?ktop - 192 \<mapsto> kern_frame filerun ?ktop)\<rparr>)"
  note k = kstack_frame [OF assms(10)]
  have h: "td_krlstktop ?h = ?ktop"
    by (simp add: kern_thread_def Let_def)
  have "sched_inv ?s"
    by (rule added_inv) (use assms(1,6,9) in \<open>simp_all add: kern_thread_fields\<close>)
  moreover have "tdl_lsth (sda_thdlst ?s ! unat prity) = ans_dsc a # tdl_lsth (sda_thdlst s ! unat prity)"
    using assms(6) lists_okD(1) [OF sched_invD(1) [OF assms(1)]] by (simp add: added_def nth_upd_lst kern_thread_fields)
  moreover have "threads ?s (ans_dsc a) = Some ?h" "kframes ?s (?ktop - 192) = Some (kern_frame filerun ?ktop)"
    by (simp_all add: added_def upd_lst_def)
  moreover have "r_rip_old (kern_frame filerun x) = filerun" "r_cs_old (kern_frame filerun x) AND 3 = 0"
    "r_rsp_old (kern_frame filerun x) = x" for x
    by (simp_all add: kern_frame_def K_CS_IDX_def)
  ultimately show ?thesis
    unfolding krlnew_thread_kern [OF assms(1-9)] using k
    by (intro exI [of _ ?s] exI [of _ ?h] exI [of _ "kern_frame filerun ?ktop"]) (simp only: kern_thread_fields h simp_thms)
qed

lemma kernel_thread_starts_witness:
  "\<exists>s' h. krlnew_thread (ans 4) None 0x400000 KERNTHREAD_FLG PRILG_SYS 0 0x8000 0x8000 demo = Inr (Some 0x4000, s') \<and>
     threads s' 0x4000 = Some h \<and> ctx_nextrip (td_context h) = 0x400000"
  using kernel_thread_starts [OF demo_steps(3), of "0x400000" "0x8000" "0x8000" PRILG_SYS 0 "ans 4" None] demo_fields(10)
  by (auto simp: ans_def DAFT_TDUSRSTKSZ_def DAFT_TDKRLSTKSZ_def)

text \<open>A new user thread enters user mode: the frame has the segments of privilege level 3, interrupts enabled, the
  entry address and the aligned top of its own user stack.
\<close>

theorem user_thread_starts:
  assumes "sched_inv s" "filerun \<noteq> 0" "usz \<le> DAFT_TDUSRSTKSZ" "ksz \<le> DAFT_TDKRLSTKSZ"
    and "prilg = PRILG_USR \<or> prilg = PRILG_SYS" "unat prity < 64"
    and "ans_stack a \<noteq> 0" "ans_dsc a \<noteq> 0" "fresh (ans_dsc a) s"
    and "ans_mm a = Some (mm, Some (ustart, USER_VIRTUAL_ADDRESS_END))" "0x8000 \<le> USER_VIRTUAL_ADDRESS_END - ustart"
  shows "\<exists>s' h fr. krlnew_thread a name filerun USERTHREAD_FLG prilg prity usz ksz s = Inr (Some (ans_dsc a), s') \<and>
    sched_inv s' \<and> threads s' (ans_dsc a) = Some h \<and> td_mmdsc h = mm \<and>
    kframes s' (ctx_nextrsp (td_context h)) = Some fr \<and> r_rip_old fr = filerun \<and>
    r_cs_old fr AND 3 = 3 \<and> r_ss_old fr AND 3 = 3 \<and> r_rflgs fr AND 0x200 = 0x200 \<and>
    r_rsp_old fr = 0x7ffffffffff0 \<and> td_usrstktop h = r_rsp_old fr"
proof -
  let ?ktop = "(ans_stack a + (0x8000 - 1)) AND NOT 0xf" let ?u = USER_VIRTUAL_ADDRESS_END
  let ?h = "user_thread a mm ustart ?u name filerun prilg prity" let ?fr = "user_frame filerun (?u AND NOT 0xf)"
  let ?s = "added (ans_dsc a) ?h (s\<lparr>kframes := (kframes s)(?ktop - 192 \<mapsto> ?fr)\<rparr>)"
  have u: "?u AND NOT 0xf = 0x7ffffffffff0"
    by (simp add: USER_VIRTUAL_ADDRESS_END_def)
  have h: "td_mmdsc ?h = mm" "td_usrstktop ?h = ?u AND NOT 0xf" "ctx_nextrsp (td_context ?h) = ?ktop - 192"
    by (simp_all add: user_thread_def Let_def)
  have "sched_inv ?s"
    by (rule added_inv) (use assms(1,6,9) in \<open>simp_all add: user_thread_fields\<close>)
  moreover have "threads ?s (ans_dsc a) = Some ?h" "kframes ?s (?ktop - 192) = Some ?fr"
    by (simp_all add: added_def upd_lst_def)
  moreover have "r_rip_old (user_frame filerun x) = filerun" "r_cs_old (user_frame filerun x) AND 3 = 3"
    "r_ss_old (user_frame filerun x) AND 3 = 3" "r_rflgs (user_frame filerun x) AND 0x200 = 0x200"
    "r_rsp_old (user_frame filerun x) = x" for x
    by (simp_all add: user_frame_def UMOD_EFLAGS_def U_CS_IDX_def U_DS_IDX_def)
  ultimately show ?thesis
    unfolding krlnew_thread_user [OF assms] using u
    by (intro exI [of _ ?s] exI [of _ ?h] exI [of _ ?fr]) (simp only: h simp_thms)
qed

lemma user_thread_starts_witness:
  "\<exists>s' h. krlnew_thread (ans 4) None 0x400000 USERTHREAD_FLG PRILG_USR 0 0x8000 0x8000 demo = Inr (Some 0x4000, s') \<and>
     threads s' 0x4000 = Some h \<and> td_usrstktop h = 0x7ffffffffff0"
  using user_thread_starts [OF demo_steps(3), of "0x400000" "0x8000" "0x8000" PRILG_USR 0 "ans 4" 1 _ None] demo_fields(10)
  by (auto simp: ans_def DAFT_TDUSRSTKSZ_def DAFT_TDKRLSTKSZ_def USER_VIRTUAL_ADDRESS_END_def)


text \<open>\<open>krlnew_thread\<close> refuses, before it touches anything, a thread without a function, with a stack above the
  default size, of an unknown privilege or flag, or with a priority that has no ready list; and when memory or an address
  space is missing it answers \<open>NULL\<close> and the scheduler's state is what it was.
\<close>

theorem krlnew_thread_rejects:
  assumes "sched_inv s" "fresh (ans_dsc a) s"
  shows "\<exists>r s'. krlnew_thread a name filerun flg prilg prity usz ksz s = Inr (r, s') \<and> sched_inv s' \<and>
    (filerun = 0 \<or> DAFT_TDUSRSTKSZ < usz \<or> DAFT_TDKRLSTKSZ < ksz \<or> prilg \<noteq> PRILG_USR \<and> prilg \<noteq> PRILG_SYS \<or>
     64 \<le> unat prity \<or> flg \<noteq> KERNTHREAD_FLG \<and> flg \<noteq> USERTHREAD_FLG \<or> ans_stack a = 0 \<or> ans_dsc a = 0 \<longrightarrow> r = None) \<and>
    (r = None \<longrightarrow> s' = s)"
proof -
  obtain r s' where r: "krlnew_thread a name filerun flg prilg prity usz ksz s = Inr (r, s')" "sched_inv s'"
    "r = None \<longrightarrow> s' = s"
    using krlnew_thread_inv [OF assms] by blast
  have pr: "(64 :: u64) \<le> prity \<longleftrightarrow> 64 \<le> unat prity"
    using of_nat_64_le [of prity] by auto
  have "r = None" if "filerun = 0 \<or> DAFT_TDUSRSTKSZ < usz \<or> DAFT_TDKRLSTKSZ < ksz \<or> prilg \<noteq> PRILG_USR \<and> prilg \<noteq> PRILG_SYS \<or>
     64 \<le> unat prity \<or> flg \<noteq> KERNTHREAD_FLG \<and> flg \<noteq> USERTHREAD_FLG"
  proof -
    from that have "krlnew_thread a name filerun flg prilg prity usz ksz s = Inr (None, s)"
      unfolding krlnew_thread_def pr [symmetric] Let_def by auto
    with r(1) show ?thesis by simp
  qed
  moreover have "r = None" if "ans_stack a = 0 \<or> ans_dsc a = 0"
    using r(1) that
    by (auto simp: krlnew_thread_def Let_def krlnew_kern_thread_core_def krlnew_user_thread_core_def
        krlnew_thread_dsc_def split: if_splits option.splits prod.splits)
  ultimately show ?thesis
    using r by blast
qed

lemma krlnew_thread_rejects_witness:
  "krlnew_thread (ans 4) None 0x400000 KERNTHREAD_FLG PRILG_SYS 64 0x8000 0x8000 demo = Inr (None, demo)"
  using krlnew_thread_rejects [OF demo_steps(3), of "ans 4" None "0x400000" KERNTHREAD_FLG PRILG_SYS 64 "0x8000" "0x8000"]
    demo_fields(10) by (auto simp: ans_def)

text \<open>a thread that is made and exits leaves the number of threads that the system reports
  (\<open>scls_threadnr\<close>) one too high for ever: only the processor's own count goes down again.
\<close>

theorem exit_keeps_total:
  assumes "sched_inv s" "not_idle s"
  shows "\<exists>s'. krlsched_exit s = Inr s' \<and> sda_threadnr s' = sda_threadnr s - 1 \<and> scls_threadnr s' = scls_threadnr s"
proof -
  note i = sched_invD [OF assms(1)]
  from running_at [OF i(3) assms(2)] obtain t p where t: "sda_currtd s = Some t" "p < 64"
    "tdl_curruntd (sda_thdlst s ! p) = Some t" .
  have "krlsched_exit s = Inr (exited t p s)"
    by (rule krlsched_exit_ok [OF i(1) t(1) _ t(2,3)]) (use t(1) assms(2) in \<open>simp add: not_idle_def\<close>)
  then show ?thesis
    by (simp add: exited_def upd_td_def upd_lst_def)
qed

lemma exit_keeps_total_witness:
  "scls_threadnr demo = 2 \<and> (\<exists>s'. krlsched_exit demo = Inr s' \<and> scls_threadnr s' = 2 \<and> sda_threadnr s' = 1)"
proof -
  have "scls_threadnr booted = 0" "sda_threadnr booted = 0"
    by (simp_all add: booted_def boot_def new_cpuidle_def new_cpuidle_thread_def krlnew_thread_dsc_def init_krlsched_def
        schedclass_t_init_def schdata_t_init_def Let_def krlthread_kernstack_init_def td_def upd_td_def
        krlcpuidle_start_def thread_name_def thread_t_init_def context_t_init_def ans_def)
  moreover have "scls_threadnr (scheduled s) = scls_threadnr s" "sda_threadnr (scheduled s) = sda_threadnr s" for s
    by (simp_all add: scheduled_def switched_def upd_td_def upd_lst_def split: option.splits)
  ultimately have "scls_threadnr demo = 2" "sda_threadnr demo = 2"
    by (simp_all add: demo_def spawned_def added_def Let_def)
  with exit_keeps_total [OF demo_steps(3) demo_fields(8)] show ?thesis by auto
qed

section \<open>Handles\<close>

lemma free_hand_spec:
  assumes "k \<le> 8"
  shows "(free_hand T k = NO_HAND \<and> (\<forall>j. k \<le> j \<and> j < 8 \<longrightarrow> T ! j \<noteq> None)) \<or>
      (\<exists>n. free_hand T k = int n \<and> k \<le> n \<and> n < 8 \<and> T ! n = None \<and> (\<forall>j. k \<le> j \<and> j < n \<longrightarrow> T ! j \<noteq> None))"
  using assms
proof (induction "8 - k" arbitrary: k)
  case 0
  then show ?case by (auto simp: free_hand.simps [of _ 8])
next
  case (Suc d)
  show ?case
  proof (cases "T ! k = None")
    case True
    with Suc show ?thesis
      by (auto simp: free_hand.simps [of _ k])
  next
    case False
    then have later: "Suc k \<le> j" if "k \<le> j" "T ! j = None" for j
      using that by (cases "j = k") auto
    have "free_hand T k = free_hand T (Suc k)"
      using False Suc.hyps(2) by (auto simp: free_hand.simps [of _ k] Suc_eq_plus1)
    moreover have "d = 8 - Suc k" "Suc k \<le> 8"
      using Suc.hyps(2) by simp_all
    ultimately show ?thesis
      using Suc.hyps(1) [of "Suc k"] later by (metis Suc_leD)
  qed
qed

text \<open>C21: \<open>krlthd_add_objnode\<close> gives out the lowest free handle of the thread, under which \<open>krlthd_retn_objnode\<close>
  finds the object and no other handle changes; after \<open>krlthd_del_objnode\<close> the table is what it was; with no free
  handle it answers \<open>NO_HAND\<close> and changes nothing. A handle outside the table is refused.
\<close>

theorem handles_roundtrip:
  assumes "length (td_handtbl h) = TD_HAND_MAX"
  shows "case krlthd_add_objnode h (Some ob) of (hand, h') \<Rightarrow>
    (None \<in> set (td_handtbl h) \<longrightarrow> 0 \<le> hand \<and> hand < 8 \<and> krlthd_retn_objnode h hand = None \<and>
       (\<forall>k. 0 \<le> k \<and> k < hand \<longrightarrow> krlthd_retn_objnode h k \<noteq> None) \<and>
       krlthd_retn_objnode h' hand = Some ob \<and> (\<forall>k. k \<noteq> hand \<longrightarrow> krlthd_retn_objnode h' k = krlthd_retn_objnode h k) \<and>
       krlthd_del_objnode h' hand = (hand, h)) \<and>
    (None \<notin> set (td_handtbl h) \<longrightarrow> hand = NO_HAND \<and> h' = h)"
proof -
  let ?T = "td_handtbl h"
  have len: "length ?T = 8"
    using assms by simp
  have ret: "krlthd_retn_objnode x k = (if 0 \<le> k \<and> k < 8 then td_handtbl x ! nat k else None)" for x k
    by (auto simp: krlthd_retn_objnode_def NO_HAND_def)
  show ?thesis
  proof (cases "None \<in> set ?T")
    case True
    then obtain j where "j < 8" "?T ! j = None"
      by (auto simp: in_set_conv_nth len)
    with free_hand_spec [of 0 ?T] obtain n where n: "free_hand ?T 0 = int n" "n < 8" "?T ! n = None" "\<forall>j < n. ?T ! j \<noteq> None"
      by auto
    let ?h = "h\<lparr>td_handtbl := ?T[n := Some ob]\<rparr>"
    have a: "krlthd_add_objnode h (Some ob) = (int n, ?h)"
      using n(1) by (simp add: krlthd_add_objnode_def NO_HAND_def Let_def)
    have "?T[n := None] = ?T"
      using n(3) by (metis list_update_id)
    then have d: "krlthd_del_objnode ?h (int n) = (int n, h)"
      using n(2) len by (simp add: krlthd_del_objnode_def NO_HAND_def)
    have "krlthd_retn_objnode ?h k = krlthd_retn_objnode h k" if "k \<noteq> int n" for k
      using that by (auto simp: ret)
    moreover have "krlthd_retn_objnode h k \<noteq> None" if "0 \<le> k" "k < int n" for k
      using that n(2,4) by (simp add: ret)
    ultimately show ?thesis
      using True a d n(2,3) len by (simp add: ret)
  next
    case False
    then have "?T ! j \<noteq> None" if "j < 8" for j
      using that len by (metis nth_mem)
    with free_hand_spec [of 0 ?T] have "free_hand ?T 0 = NO_HAND" by blast
    with False show ?thesis
      by (simp add: krlthd_add_objnode_def)
  qed
qed

lemma handles_roundtrip_witness:
  "krlthd_add_objnode (thread_t_init 1) (Some 7) = (0, (thread_t_init 1)\<lparr>td_handtbl := (replicate 8 None)[0 := Some 7]\<rparr>) \<and>
   krlthd_del_objnode ((thread_t_init 1)\<lparr>td_handtbl := (replicate 8 None)[0 := Some 7]\<rparr>) 0 = (0, thread_t_init 1)"
proof -
  have l: "length (td_handtbl (thread_t_init 1)) = TD_HAND_MAX" "None \<in> set (td_handtbl (thread_t_init 1))"
    by (simp_all add: thread_t_init_def)
  have "krlthd_add_objnode (thread_t_init 1) (Some 7) = (0, (thread_t_init 1)\<lparr>td_handtbl := (replicate 8 None)[0 := Some 7]\<rparr>)"
    by (simp add: krlthd_add_objnode_def thread_t_init_def free_hand.simps [of _ 0] NO_HAND_def)
  with handles_roundtrip [OF l(1), of 7] l(2) show ?thesis
    by auto
qed

end
