(* ===== verification/Console.thy ===== *)
theory Console
  imports RfsBlk
begin

text \<open>
  Printing, \<open>hal/x86/halprint.c\<close>: the text \<open>kprint\<close> composes in its buffer of 512 bytes, which it hands to the
  video layer. A write past the buffer is a fault. The lemmas say what strings and numbers print as.
\<close>

section \<open>Text in a buffer of 512 bytes\<close>

definition PRINT_BUF :: nat where [simp]: "PRINT_BUF = 512"

definition put_char :: "u8 list \<Rightarrow> u8 \<Rightarrow> u8 list run" where
  "put_char out c = (if length out < PRINT_BUF then Inr (out @ [c]) else Inl Fault)"

primrec put_chars :: "u8 list \<Rightarrow> u8 list \<Rightarrow> u8 list run" where
  "put_chars out [] = Inr out"
| "put_chars out (c # cs) = andthen (put_char out c) (\<lambda>out. put_chars out cs)"

text \<open>\<open>strcopyk\<close>: the string is in a memory of \<open>n\<close> bytes; reading past it is a fault.\<close>

function strcopyk :: "u8 list \<Rightarrow> block \<Rightarrow> nat \<Rightarrow> nat \<Rightarrow> u8 list run" where
  "strcopyk out str n i =
     (if n \<le> i then Inl Fault
      else if str i = 0 then Inr out
      else case put_char out (str i) of Inl e \<Rightarrow> Inl e | Inr out \<Rightarrow> strcopyk out str n (Suc i))"
  by auto
termination by (relation "measure (\<lambda>(out, str, n, i). n - i)") auto

declare strcopyk.simps [simp del]

section \<open>Numbers\<close>

definition hexdigits :: "u8 list" where
  "hexdigits = [48, 49, 50, 51, 52, 53, 54, 55, 56, 57, 97, 98, 99, 100, 101, 102]"

text \<open>
  The loop of \<open>numberk\<close> fills \<open>strbuf[36]\<close> from the end; \<open>cs\<close> is what it holds before its terminator. Going below
  \<open>strbuf\<close>, a base of 0 and a digit the table does not have are undefined behaviour.
\<close>

function numberk_loop :: "u64 \<Rightarrow> u64 \<Rightarrow> u8 list \<Rightarrow> u8 list run" where
  "numberk_loop n base cs =
     (if 35 \<le> length cs \<or> base = 0 \<or> 16 \<le> unat (n mod base) then Inl Fault
      else
        let cs = hexdigits ! unat (n mod base) # cs
        in if n div base = 0 then Inr cs else numberk_loop (n div base) base cs)"
  by auto
termination by (relation "measure (\<lambda>(n, base, cs). 35 - length cs)") auto

declare numberk_loop.simps [simp del]

definition numberk :: "u8 list \<Rightarrow> u64 \<Rightarrow> u64 \<Rightarrow> u8 list run" where
  "numberk out n base = andthen (if n = 0 then Inr [48] else numberk_loop n base []) (\<lambda>p. put_chars out p)"

section \<open>Formats\<close>

text \<open>An argument of \<open>kprint\<close>: a number or a pointer to a string in a memory of some size.\<close>

datatype parg = Num u64 | Str block nat

fun vsprintfk :: "u8 list \<Rightarrow> u8 list \<Rightarrow> parg list \<Rightarrow> u8 list run" where
  "vsprintfk out [] args = andthen (put_char out 0) (\<lambda>_. Inr out)"
| "vsprintfk out (c # fmt) args =
     (if c \<noteq> 37 then andthen (put_char out c) (\<lambda>out. vsprintfk out fmt args)
      else case fmt of
          [] \<Rightarrow> vsprintfk out [] args
        | d # fmt' \<Rightarrow>
            if d = 120 \<or> d = 100 then
              (case args of Num n # args \<Rightarrow>
                  andthen (numberk out n (if d = 120 then 16 else 10)) (\<lambda>out. vsprintfk out fmt' args)
                | _ \<Rightarrow> Inl Fault)
            else if d = 115 then
              (case args of Str s n # args \<Rightarrow>
                  andthen (strcopyk out s n 0) (\<lambda>out. vsprintfk out fmt' args)
                | _ \<Rightarrow> Inl Fault)
            else vsprintfk out (d # fmt') args)"

text \<open>The text \<open>kprint\<close> and \<open>printfk\<close> hand to \<open>gstr_write\<close>.\<close>

definition kprint :: "u8 list \<Rightarrow> parg list \<Rightarrow> u8 list run" where
  "kprint fmt args = vsprintfk [] fmt args"

section \<open>What is printed\<close>

lemma put_chars_eq:
  "put_chars out cs = (if length out + length cs \<le> 512 then Inr (out @ cs) else Inl Fault)" if "length out \<le> 512"
  using that by (induction cs arbitrary: out) (auto simp: put_char_def)

lemma strcopyk_cstr:
  assumes "cstr str n i xs" "length out \<le> 512"
  shows "strcopyk out str n i = (if length out + length xs \<le> 512 then Inr (out @ xs) else Inl Fault)"
  using assms
proof (induction xs arbitrary: i out)
  case Nil
  then show ?case by (simp add: cstr_Nil strcopyk.simps [of out str n i])
next
  case (Cons x xs)
  then show ?case
    by (auto simp: cstr_Cons strcopyk.simps [of out str n i] put_char_def)
qed

text \<open>\<open>printf("%s")\<close> prints a string that leaves room for its terminator and overruns the buffer otherwise.\<close>

lemma print_string:
  assumes "cstr str n 0 xs"
  shows "kprint [37, 115] [Str str n] = (if length xs < 512 then Inr xs else Inl Fault)"
  using strcopyk_cstr [OF assms, of "[]"] by (auto simp: kprint_def put_char_def)

text \<open>The number a digit string stands for.\<close>

definition digit_of :: "u8 \<Rightarrow> nat" where
  "digit_of c = (if c < 58 then unat c - 48 else unat c - 87)"

definition value_of :: "nat \<Rightarrow> u8 list \<Rightarrow> nat" where
  "value_of b cs = foldl (\<lambda>v c. v * b + digit_of c) 0 cs"

lemma digit_of_hexdigits: "k < 16 \<Longrightarrow> digit_of (hexdigits ! k) = k"
proof -
  have "list_all (\<lambda>k. digit_of (hexdigits ! k) = k) [0..<16]"
    by (simp add: upt_rec [of _ 16] hexdigits_def digit_of_def)
  then show "digit_of (hexdigits ! k) = k" if "k < 16"
    using that by (simp add: list_all_iff)
qed

lemma numberk_loop_ok:
  assumes "4 \<le> unat base" "unat base \<le> 16" "unat n < 4 ^ k" "0 < k" "length cs + k \<le> 35"
  shows "\<exists>ds. numberk_loop n base cs = Inr (ds @ cs) \<and> value_of (unat base) ds = unat n \<and> ds \<noteq> [] \<and> length ds \<le> k \<and>
    set ds \<subseteq> set hexdigits \<and> (n \<noteq> 0 \<longrightarrow> hd ds \<noteq> 48)"
  using assms(3-5)
proof (induction k arbitrary: n cs)
  case (Suc k)
  have b: "base \<noteq> 0" using assms(1) by auto
  have m: "unat (n mod base) < 16"
    using assms by (simp add: unat_mod) (metis less_le_trans mod_less_divisor not_numeral_le_zero not_gr_zero)
  have dv: "unat (n div base) = unat n div unat base" by (simp add: unat_div)
  let ?c = "hexdigits ! unat (n mod base)"
  have c: "?c \<in> set hexdigits" using m by (intro nth_mem) (simp add: hexdigits_def)
  have dc: "digit_of ?c = unat n mod unat base"
    using digit_of_hexdigits [OF m] by (simp add: unat_mod)
  show ?case
  proof (cases "n div base = 0")
    case True
    then have z: "unat n div unat base = 0" using dv by simp
    then have lt: "unat n < unat base" using assms(1) by (simp add: div_eq_0_iff)
    have "numberk_loop n base cs = Inr ([?c] @ cs)"
      using True b m Suc.prems by (subst numberk_loop.simps) (simp add: Let_def)
    moreover have "n \<noteq> 0 \<longrightarrow> ?c \<noteq> 48"
    proof
      assume "n \<noteq> 0"
      then have "digit_of ?c \<noteq> 0" using dc lt by (simp add: unat_eq_zero)
      then show "?c \<noteq> 48" by (auto simp: digit_of_def)
    qed
    ultimately show ?thesis
      using c dc lt Suc.prems by (intro exI [of _ "[?c]"]) (simp add: value_of_def)
  next
    case False
    then have pos: "0 < unat n div unat base" using dv by (metis neq0_conv unat_eq_zero)
    have k: "0 < k"
    proof (rule ccontr)
      assume "\<not> 0 < k"
      with Suc.prems(1) have "unat n < 4" by simp
      with pos assms(1) show False by simp
    qed
    have "unat n div unat base \<le> unat n div 4"
      using assms(1) by (rule div_le_mono2 [rotated]) simp
    also have "\<dots> < 4 ^ k" using Suc.prems(1) by (simp add: less_mult_imp_div_less mult.commute)
    finally have lt: "unat (n div base) < 4 ^ k" using dv by simp
    from Suc.IH [OF lt k, of "?c # cs"] Suc.prems(3) obtain ds where
      ds: "numberk_loop (n div base) base (?c # cs) = Inr (ds @ ?c # cs)" "value_of (unat base) ds = unat (n div base)"
      "ds \<noteq> []" "length ds \<le> k" "set ds \<subseteq> set hexdigits" "hd ds \<noteq> 48"
      using False by auto
    have "numberk_loop n base cs = Inr ((ds @ [?c]) @ cs)"
      using False b m Suc.prems ds(1) by (subst numberk_loop.simps) (simp add: Let_def)
    moreover have "value_of (unat base) (ds @ [?c]) = unat n"
      using ds(2) dc dv by (simp add: value_of_def)
    ultimately show ?thesis
      using ds c by (intro exI [of _ "ds @ [?c]"]) simp
  qed
qed simp

lemma numberk_ok:
  assumes "4 \<le> unat base" "unat base \<le> 16"
  shows "\<exists>ds. value_of (unat base) ds = unat n \<and> ds \<noteq> [] \<and> length ds \<le> 32 \<and> set ds \<subseteq> set hexdigits \<and>
    (hd ds = 48 \<longrightarrow> ds = [48]) \<and> (\<forall>out. length out + length ds \<le> 512 \<longrightarrow> numberk out n base = Inr (out @ ds))"
proof (cases "n = 0")
  case True
  then show ?thesis
    by (intro exI [of _ "[48]"]) (simp add: numberk_def put_chars_eq value_of_def digit_of_def hexdigits_def put_char_def)
next
  case False
  have "unat n < 4 ^ 32" using unsigned_less [of n] by simp
  from numberk_loop_ok [OF assms this, of "[]"] False obtain ds where
    ds: "numberk_loop n base [] = Inr ds" "value_of (unat base) ds = unat n" "ds \<noteq> []" "length ds \<le> 32"
    "set ds \<subseteq> set hexdigits" "hd ds \<noteq> 48" by auto
  then show ?thesis
    using False by (intro exI [of _ ds]) (simp add: numberk_def put_chars_eq)
qed

end
