(* ===== verification/Dev.thy ===== *)
theory Dev
  imports Console Rfs Sched
begin

text \<open>
  Devices: the device table and the requests waiting at devices (\<open>kernel/krldevice.c\<close>), the object nodes
  (\<open>kernel/krlobjnode.c\<close>), the interrupt descriptors (\<open>hal/x86/halintupt.c\<close>, \<open>kernel/krlintupt.c\<close>, the masks of
  \<open>i8259.c\<close>) and the clock (\<open>kernel/krltime.c\<close>). A pointer is an address, \<open>None\<close> or 0 when it is \<open>NULL\<close>; an
  access through one that points at nothing of its kind is a fault. The locks disable interrupts around what a
  function does to the shared state and are not modelled; nor is what the boot prints.
\<close>

section \<open>Constants\<close>

definition SYSSTUS_ERR :: int where "SYSSTUS_ERR = - 1"
definition SYSSTUS_OK :: int where "SYSSTUS_OK = 0"
definition UART_DEVICE :: u64 where [simp]: "UART_DEVICE = 15"
definition FILESYS_DEVICE :: u64 where [simp]: "FILESYS_DEVICE = 30"
definition SYSTICK_DEVICE :: u64 where [simp]: "SYSTICK_DEVICE = 31"
definition DEVICE_MAX :: nat where [simp]: "DEVICE_MAX = 34"
definition IOIF_CODE_OPEN :: nat where [simp]: "IOIF_CODE_OPEN = 0"
definition IOIF_CODE_CLOSE :: nat where [simp]: "IOIF_CODE_CLOSE = 1"
definition IOIF_CODE_READ :: nat where [simp]: "IOIF_CODE_READ = 2"
definition IOIF_CODE_WRITE :: nat where [simp]: "IOIF_CODE_WRITE = 3"
definition IOIF_CODE_IOCTRL :: nat where [simp]: "IOIF_CODE_IOCTRL = 5"
definition IOIF_CODE_MAX :: nat where [simp]: "IOIF_CODE_MAX = 12"
definition DEVFLG_SHARE :: u64 where [simp]: "DEVFLG_SHARE = 2"
definition DEVSTS_NORML :: u64 where [simp]: "DEVSTS_NORML = 1"
definition DIDFIL_IDN :: u64 where [simp]: "DIDFIL_IDN = 1"
definition OBJN_TY_DEV :: u64 where [simp]: "OBJN_TY_DEV = 1"
definition OBJN_TY_FIL :: u64 where [simp]: "OBJN_TY_FIL = 2"
definition FILE_TY_MASK :: u64 where [simp]: "FILE_TY_MASK = 0xf"
definition FILE_TY_FILE :: u64 where [simp]: "FILE_TY_FILE = 0"
definition FILE_TY_DEV :: u64 where [simp]: "FILE_TY_DEV = 1"
definition RWO_FLG_MASK :: u64 where [simp]: "RWO_FLG_MASK = 0xff"
definition RWO_FLG_BITS :: nat where [simp]: "RWO_FLG_BITS = 4"
definition NF_FLG :: u64 where [simp]: "NF_FLG = 4"
definition IDTMAX :: nat where [simp]: "IDTMAX = 256"

section \<open>Devices and drivers\<close>

record devid =
  dev_mtype :: u64
  dev_stype :: u64
  dev_nr :: u64

text \<open>The functions the dispatch tables of the drivers point at.\<close>

datatype drivcallfun = Drv_defalt_func
  | Systick_open | Systick_close | Systick_read | Systick_write | Systick_lseek | Systick_ioctrl
  | Systick_dev_start | Systick_dev_stop | Systick_set_powerstus | Systick_enum_dev | Systick_flush | Systick_shutdown
  | Rfs_open | Rfs_close | Rfs_read | Rfs_write | Rfs_lseek | Rfs_ioctrl
  | Rfs_dev_start | Rfs_dev_stop | Rfs_set_powerstus | Rfs_enum_dev | Rfs_flush | Rfs_shutdown
  | Uart_open | Uart_close | Uart_read | Uart_write | Uart_lseek | Uart_ioctrl
  | Uart_dev_start | Uart_dev_stop | Uart_set_powerstus | Uart_enum_dev | Uart_flush | Uart_shutdown

datatype intflthandle = Systick_handle | Uart_handle

datatype drventyexit = Systick_entry | Rfs_entry | Uart_entry

record kboard =
  kb_flg :: u64
  kb_stus :: u64
  kb_sem :: nat
  kb_btail :: u64
  kb_buff :: "16 word list"

text \<open>What \<open>dev_extdata\<close> points at: nothing, the memory of the RAM file system, the keyboard.\<close>

datatype devext = NoExt | RfsExt rfs | KbExt kboard

record device =
  dev_count :: u64
  dev_sem :: sem
  dev_stus :: u64
  dev_flgs :: u64
  dev_id :: devid
  dev_intlnenr :: u64
  dev_intserlst :: "u64 list"
  dev_rqlist :: "u64 list"
  dev_rqlnr :: u64
  dev_waitints :: sem
  dev_drv :: "u64 option"
  dev_extdata :: devext
  dev_name :: "string option"

record driver =
  drv_stuts :: u64
  drv_flg :: u64
  drv_id :: u64
  drv_count :: u64
  drv_sem :: sem
  drv_dipfun :: "drivcallfun list"
  drv_alldevlist :: "u64 list"
  drv_name :: "string option"

record devtlst =
  dtl_type :: u64
  dtl_nr :: u64
  dtl_list :: "u64 list"

record devtable =
  devt_devlist :: "u64 list"
  devt_drvlist :: "u64 list"
  devt_devnr :: u64
  devt_drvnr :: u64
  devt_devclsl :: "devtlst list"

record intserdsc =
  s_flg :: u32
  s_intfltp :: nat
  s_indx :: u64
  s_device :: u64
  s_handle :: intflthandle

record intfltdsc =
  i_flg :: u32
  i_stus :: u32
  i_prity :: u64
  i_irqnr :: u64
  i_deep :: u64
  i_indx :: u64
  i_serlist :: "u64 list"
  i_sernr :: u64

record ktime =
  kt_year :: u64
  kt_mon :: u64
  kt_day :: u64
  kt_date :: u64
  kt_hour :: u64
  kt_min :: u64
  kt_sec :: u64

text \<open>
  \<open>objnode_t\<close>: the I/O packet the driver of the RAM file system sees, and the fields the kernel adds. A pointer
  of the program (\<open>on_bufp\<close>, \<open>on_fnamep\<close>) is kept as its address; the values \<open>on_buf\<close> and
  \<open>on_fname\<close> of the packet are what it points at when the driver is called. \<open>on_complesem\<close> is the
  number of the semaphore inside the node, \<open>on_inlist\<close> the device whose request list the node is on.
\<close>

record kobj = objnode +
  on_inlist :: "u64 option"
  on_complesem :: nat
  on_flgs :: u64
  on_stus :: u64
  on_opercode :: int
  on_objtype :: u64
  on_objadr :: "u64 option"
  on_acsstus :: u64
  on_currops :: u64
  on_bufp :: u64
  on_bufcurops :: u64
  on_count :: u64
  on_fnamep :: u64

text \<open>
  The state: the scheduler's; the device table and the blocks of kernel memory its pointers lead to; the interrupt
  descriptors; the clock; what the hardware answers (the CMOS clock, the keyboard port) and holds (the
  masks of the interrupt controller); the memory of the program behind the pointers it passes; the text handed to the
  screen. \<open>krl_ans\<close> is the kernel memory service: what its next call answers (0 is \<open>NULL\<close>) when the
  given addresses are in use, and \<open>krl_junk\<close> what fresh memory holds. \<open>buf_ans\<close> is what the same service answers to the next
  requests of the RAM disk for a buffer (True a buffer, False \<open>NULL\<close>; after the last it gives one): the driver returns its
  buffers before it returns or hangs them into the object, so their addresses are nobody's key.
\<close>

record dst =
  sk :: kst
  osdevtable :: devtable
  devices :: "u64 \<rightharpoonup> device"
  drivers :: "u64 \<rightharpoonup> driver"
  objnodes :: "u64 \<rightharpoonup> kobj"
  serdscs :: "u64 \<rightharpoonup> intserdsc"
  machintflt :: "intfltdsc list"
  kbd_dowup_stat :: u8
  osktime :: ktime
  intm_mask :: u8
  ints_mask :: u8
  cmos :: "nat \<Rightarrow> u8"
  kb_port :: u8
  umem :: "u64 \<Rightarrow> path"
  screen :: "u8 list list"
  krl_ans :: "nat \<Rightarrow> u64 set \<Rightarrow> u64"
  krl_calls :: nat
  krl_other :: "u64 set"
  buf_ans :: "bool list"
  krl_junk :: "nat \<Rightarrow> block"

section \<open>Access through pointers\<close>

definition at :: "('b \<rightharpoonup> 'a) \<Rightarrow> 'b \<Rightarrow> 'a run" where
  "at m p = (case m p of None \<Rightarrow> Inl Fault | Some x \<Rightarrow> Inr x)"

definition upd_dev :: "u64 \<Rightarrow> (device \<Rightarrow> device) \<Rightarrow> dst \<Rightarrow> dst" where
  "upd_dev p f s = s\<lparr>devices := (devices s)(p := map_option f (devices s p))\<rparr>"

definition upd_drv :: "u64 \<Rightarrow> (driver \<Rightarrow> driver) \<Rightarrow> dst \<Rightarrow> dst" where
  "upd_drv p f s = s\<lparr>drivers := (drivers s)(p := map_option f (drivers s p))\<rparr>"

definition upd_obj :: "u64 \<Rightarrow> (kobj \<Rightarrow> kobj) \<Rightarrow> dst \<Rightarrow> dst" where
  "upd_obj p f s = s\<lparr>objnodes := (objnodes s)(p := map_option f (objnodes s p))\<rparr>"

definition upd_table :: "(devtable \<Rightarrow> devtable) \<Rightarrow> dst \<Rightarrow> dst" where
  "upd_table f s = s\<lparr>osdevtable := f (osdevtable s)\<rparr>"

definition upd_cls :: "nat \<Rightarrow> (devtlst \<Rightarrow> devtlst) \<Rightarrow> dst \<Rightarrow> dst" where
  "upd_cls t f = upd_table (\<lambda>d. d\<lparr>devt_devclsl := (devt_devclsl d)[t := f (devt_devclsl d ! t)]\<rparr>)"

abbreviation cls :: "dst \<Rightarrow> nat \<Rightarrow> devtlst" where
  "cls s t \<equiv> devt_devclsl (osdevtable s) ! t"

text \<open>An operation of the scheduler inside the whole state.\<close>

definition with_sk :: "(kst \<Rightarrow> kst run) \<Rightarrow> dst \<Rightarrow> dst run" where
  "with_sk f s = andthen (f (sk s)) (\<lambda>k. Inr (s\<lparr>sk := k\<rparr>))"

definition in_use :: "dst \<Rightarrow> u64 set" where
  "in_use s = dom (devices s) \<union> dom (drivers s) \<union> dom (objnodes s) \<union> dom (serdscs s) \<union> krl_other s"

definition krlnew :: "dst \<Rightarrow> u64 \<times> dst" where
  "krlnew s = (krl_ans s (krl_calls s) (in_use s), s\<lparr>krl_calls := Suc (krl_calls s)\<rparr>)"

text \<open>A semaphore inside an object just made: the next number.\<close>

definition new_sem :: "dst \<Rightarrow> nat \<times> dst" where
  "new_sem s = (length (sems (sk s)), s\<lparr>sk := (sk s)\<lparr>sems := sems (sk s) @ [krlsem_t_init]\<rparr>\<rparr>)"

definition print :: "u8 list \<Rightarrow> parg list \<Rightarrow> dst \<Rightarrow> dst run" where
  "print fmt args s = andthen (kprint fmt args) (\<lambda>t. Inr (s\<lparr>screen := screen s @ [t]\<rparr>))"

section \<open>Initial values\<close>

definition devtlst_t_init :: "u64 \<Rightarrow> devtlst" where
  "devtlst_t_init dtype = \<lparr>dtl_type = dtype, dtl_nr = 0, dtl_list = []\<rparr>"

definition devtable_t_init :: devtable where
  "devtable_t_init = \<lparr>devt_devlist = [], devt_drvlist = [], devt_devnr = 0, devt_drvnr = 0,
     devt_devclsl = map (\<lambda>t. devtlst_t_init (of_nat t)) [0..<DEVICE_MAX]\<rparr>"

definition devid_t_init :: "u64 \<Rightarrow> u64 \<Rightarrow> u64 \<Rightarrow> devid" where
  "devid_t_init mty sty nr = \<lparr>dev_mtype = mty, dev_stype = sty, dev_nr = nr\<rparr>"

definition device_t_init :: device where
  "device_t_init = \<lparr>dev_count = 0, dev_sem = krlsem_t_init, dev_stus = 0, dev_flgs = 0,
     dev_id = devid_t_init 0 0 0, dev_intlnenr = 0, dev_intserlst = [], dev_rqlist = [], dev_rqlnr = 0,
     dev_waitints = krlsem_t_init, dev_drv = None, dev_extdata = NoExt, dev_name = None\<rparr>"

definition krlretn_driverid :: "u64 \<Rightarrow> u64" where
  "krlretn_driverid dverp = dverp"

definition driver_t_init :: "u64 \<Rightarrow> driver" where
  "driver_t_init initp = \<lparr>drv_stuts = 0, drv_flg = 0, drv_id = krlretn_driverid initp, drv_count = 0,
     drv_sem = krlsem_t_init, drv_dipfun = replicate IOIF_CODE_MAX Drv_defalt_func, drv_alldevlist = [],
     drv_name = None\<rparr>"

definition objnode_t_init :: "nat \<Rightarrow> kobj" where
  "objnode_t_init semnr = \<lparr>on_acsflgs = 0, on_len = 0, on_ioctrd = 0, on_buf = None, on_bufsz = 0,
     on_fname = None, on_finode = NoNode, on_inlist = None, on_complesem = semnr, on_flgs = 0, on_stus = 0,
     on_opercode = - 1, on_objtype = 0, on_objadr = None, on_acsstus = 0, on_currops = 0, on_bufp = 0,
     on_bufcurops = 0, on_count = 0, on_fnamep = 0\<rparr>"

definition ktime_t_init :: ktime where
  "ktime_t_init = \<lparr>kt_year = 0, kt_mon = 0, kt_day = 0, kt_date = 0, kt_hour = 0, kt_min = 0, kt_sec = 0\<rparr>"

definition intfltdsc_t_init :: "u32 \<Rightarrow> u32 \<Rightarrow> u64 \<Rightarrow> u64 \<Rightarrow> intfltdsc" where
  "intfltdsc_t_init flg sts prity irq = \<lparr>i_flg = flg, i_stus = sts, i_prity = prity, i_irqnr = irq, i_deep = 0,
     i_indx = 0, i_serlist = [], i_sernr = 0\<rparr>"

definition intserdsc_t_init :: "u32 \<Rightarrow> nat \<Rightarrow> u64 \<Rightarrow> intflthandle \<Rightarrow> intserdsc" where
  "intserdsc_t_init flg intfltp dev handle = \<lparr>s_flg = flg, s_intfltp = intfltp, s_indx = 0, s_device = dev,
     s_handle = handle\<rparr>"

definition init_intfltdsc :: "dst \<Rightarrow> dst" where
  "init_intfltdsc s = s\<lparr>machintflt := map (\<lambda>i. intfltdsc_t_init 0 0 (of_nat i) (of_nat i)) [0..<IDTMAX]\<rparr>"

definition init_ktime :: "dst \<Rightarrow> dst" where
  "init_ktime s = s\<lparr>osktime := ktime_t_init\<rparr>"

definition init_krldevice :: "dst \<Rightarrow> dst" where
  "init_krldevice s = s\<lparr>osdevtable := devtable_t_init\<rparr>"

section \<open>Making and deleting descriptors\<close>

definition new_driver_dsc :: "dst \<Rightarrow> u64 option \<times> dst" where
  "new_driver_dsc s = (case krlnew s of (dp, s) \<Rightarrow>
     if dp = 0 then (None, s) else (Some dp, s\<lparr>drivers := (drivers s)(dp \<mapsto> driver_t_init dp)\<rparr>))"

definition del_driver_dsc :: "u64 \<Rightarrow> dst \<Rightarrow> int \<times> dst" where
  "del_driver_dsc drvp s =
     (if drivers s drvp = None then (DFCERRSTUS, s) else (DFCOKSTUS, s\<lparr>drivers := (drivers s)(drvp := None)\<rparr>))"

definition new_device_dsc :: "dst \<Rightarrow> u64 option \<times> dst" where
  "new_device_dsc s = (case krlnew s of (dp, s) \<Rightarrow>
     if dp = 0 then (None, s) else (Some dp, s\<lparr>devices := (devices s)(dp \<mapsto> device_t_init)\<rparr>))"

definition del_device_dsc :: "u64 \<Rightarrow> dst \<Rightarrow> int \<times> dst" where
  "del_device_dsc devp s =
     (if devices s devp = None then (DFCERRSTUS, s) else (DFCOKSTUS, s\<lparr>devices := (devices s)(devp := None)\<rparr>))"

definition krlnew_objnode :: "dst \<Rightarrow> u64 option \<times> dst" where
  "krlnew_objnode s = (case krlnew s of (ondp, s) \<Rightarrow>
     if ondp = 0 then (None, s)
     else case new_sem s of (w, s) \<Rightarrow> (Some ondp, s\<lparr>objnodes := (objnodes s)(ondp \<mapsto> objnode_t_init w)\<rparr>))"

definition krldel_objnode :: "u64 \<Rightarrow> dst \<Rightarrow> dst run" where
  "krldel_objnode onodep s =
     (if objnodes s onodep = None then Inl (Panic ''krldel_objnode err'')
      else Inr (s\<lparr>objnodes := (objnodes s)(onodep := None)\<rparr>))"

section \<open>The device table\<close>

definition krlcmp_devid :: "devid \<Rightarrow> devid \<Rightarrow> bool" where
  "krlcmp_devid sdidp cdidp =
     (if dev_mtype sdidp \<noteq> dev_mtype cdidp then False
      else if dev_stype sdidp \<noteq> dev_stype cdidp then False
      else if dev_nr sdidp \<noteq> dev_nr cdidp then False else True)"

primrec max_devnr :: "dst \<Rightarrow> u64 list \<Rightarrow> u64 \<Rightarrow> u64 run" where
  "max_devnr s [] devidnr = Inr devidnr"
| "max_devnr s (p # ps) devidnr = andthen (at (devices s) p) (\<lambda>findevp.
     max_devnr s ps (if devidnr < dev_nr (dev_id findevp) then dev_nr (dev_id findevp) else devidnr))"

definition krlnew_devid :: "devid \<Rightarrow> dst \<Rightarrow> (int \<times> devid) run" where
  "krlnew_devid devid s =
     (let devmty = unat (dev_mtype devid) in
      if DEVICE_MAX \<le> devmty then Inr (DFCERRSTUS, devid)
      else if dev_mtype devid \<noteq> dtl_type (cls s devmty) then Inr (DFCERRSTUS, devid)
      else if dtl_list (cls s devmty) = [] then Inr (DFCOKSTUS, devid\<lparr>dev_nr := 0\<rparr>)
      else andthen (max_devnr s (dtl_list (cls s devmty)) 0) (\<lambda>devidnr.
        Inr (DFCOKSTUS, devid\<lparr>dev_nr := devidnr\<rparr>)))"

definition krldriver_add_system :: "u64 \<Rightarrow> dst \<Rightarrow> (int \<times> dst) run" where
  "krldriver_add_system drvp s =
     (if drivers s drvp = None \<or> drvp \<in> set (devt_drvlist (osdevtable s)) then Inl Fault
      else Inr (DFCOKSTUS, upd_table (\<lambda>d. d\<lparr>devt_drvlist := drvp # devt_drvlist d, devt_drvnr := devt_drvnr d + 1\<rparr>) s))"

text \<open>The loops that look for a device with the same identifier.\<close>

primrec find_devid :: "dst \<Rightarrow> devid \<Rightarrow> u64 list \<Rightarrow> u64 option run" where
  "find_devid s didp [] = Inr None"
| "find_devid s didp (p # ps) = andthen (at (devices s) p) (\<lambda>findevp.
     if krlcmp_devid didp (dev_id findevp) then Inr (Some p) else find_devid s didp ps)"

text \<open>A device that has a driver is on that driver's list already; linking it again would corrupt the list.\<close>

definition krldev_add_driver :: "u64 option \<Rightarrow> u64 option \<Rightarrow> dst \<Rightarrow> (int \<times> dst) run" where
  "krldev_add_driver devp drvp s = (case (devp, drvp) of
       (Some dp, Some rp) \<Rightarrow>
         andthen (at (devices s) dp) (\<lambda>d. andthen (at (drivers s) rp) (\<lambda>r.
         andthen (find_devid s (dev_id d) (drv_alldevlist r)) (\<lambda>f.
         if f \<noteq> None then Inr (DFCERRSTUS, s)
         else if dev_drv d \<noteq> None then Inl Fault
         else Inr (DFCOKSTUS, upd_dev dp (\<lambda>d. d\<lparr>dev_drv := Some rp\<rparr>)
                (upd_drv rp (\<lambda>r. r\<lparr>drv_alldevlist := dp # drv_alldevlist r\<rparr>) s)))))
     | _ \<Rightarrow> Inr (DFCERRSTUS, s))"

text \<open>The identifier is read before the pointer is compared with \<open>NULL\<close>.\<close>

definition krlnew_device :: "u64 option \<Rightarrow> dst \<Rightarrow> (int \<times> dst) run" where
  "krlnew_device devp s = (case devp of None \<Rightarrow> Inl Fault | Some dp \<Rightarrow>
     andthen (at (devices s) dp) (\<lambda>d.
     let devmty = unat (dev_mtype (dev_id d)) in
     if dev_drv d = None then Inr (DFCERRSTUS, s)
     else if DEVICE_MAX \<le> devmty then Inr (DFCERRSTUS, s)
     else if dev_mtype (dev_id d) \<noteq> dtl_type (cls s devmty) then Inr (DFCERRSTUS, s)
     else andthen (find_devid s (dev_id d) (dtl_list (cls s devmty))) (\<lambda>f.
       if f \<noteq> None then Inr (DFCERRSTUS, s)
       else if dp \<in> set (devt_devlist (osdevtable s)) then Inl Fault
       else Inr (DFCOKSTUS,
         upd_table (\<lambda>t. t\<lparr>devt_devlist := dp # devt_devlist t, devt_devnr := devt_devnr t + 1\<rparr>)
           (upd_cls devmty (\<lambda>l. l\<lparr>dtl_list := dp # dtl_list l, dtl_nr := dtl_nr l + 1\<rparr>) s)))))"

definition krlonidfl_retn_device :: "devid option \<Rightarrow> u64 \<Rightarrow> dst \<Rightarrow> u64 option run" where
  "krlonidfl_retn_device dfname flgs s = (case dfname of None \<Rightarrow> Inr None | Some didp \<Rightarrow>
     (let devmty = unat (dev_mtype didp) in
      if flgs \<noteq> DIDFIL_IDN then Inr None
      else if DEVICE_MAX \<le> devmty then Inr None
      else if dev_mtype didp \<noteq> dtl_type (cls s devmty) then Inr None
      else find_devid s didp (dtl_list (cls s devmty))))"

definition krldev_inc_devcount :: "u64 \<Rightarrow> dst \<Rightarrow> (int \<times> dst) run" where
  "krldev_inc_devcount devp s = andthen (at (devices s) devp) (\<lambda>d.
     if - 1 \<le> dev_count d then Inr (DFCERRSTUS, s)
     else Inr (DFCOKSTUS, upd_dev devp (\<lambda>d. d\<lparr>dev_count := dev_count d + 1\<rparr>) s))"

definition krldev_dec_devcount :: "u64 \<Rightarrow> dst \<Rightarrow> (int \<times> dst) run" where
  "krldev_dec_devcount devp s = andthen (at (devices s) devp) (\<lambda>d.
     if dev_count d < 1 then Inr (DFCERRSTUS, s)
     else Inr (DFCOKSTUS, upd_dev devp (\<lambda>d. d\<lparr>dev_count := dev_count d - 1\<rparr>) s))"

section \<open>Requests waiting at a device\<close>

definition krldev_add_request :: "u64 \<Rightarrow> u64 \<Rightarrow> dst \<Rightarrow> (int \<times> dst) run" where
  "krldev_add_request devp request s = andthen (at (devices s) devp) (\<lambda>d. andthen (at (objnodes s) request) (\<lambda>np.
     if on_inlist np \<noteq> None then Inl Fault
     else Inr (DFCOKSTUS, upd_obj request (\<lambda>np. np\<lparr>on_inlist := Some devp\<rparr>)
       (upd_dev devp (\<lambda>d. d\<lparr>dev_rqlist := dev_rqlist d @ [request], dev_rqlnr := dev_rqlnr d + 1\<rparr>) s))))"

text \<open>\<open>list_del\<close> takes the node off the list it is on, whatever device is named.\<close>

definition krldev_complete_request :: "u64 option \<Rightarrow> u64 option \<Rightarrow> dst \<Rightarrow> (int \<times> dst) run" where
  "krldev_complete_request devp request s = (case (devp, request) of
       (Some dp, Some rq) \<Rightarrow>
         andthen (at (devices s) dp) (\<lambda>d. andthen (at (objnodes s) rq) (\<lambda>np.
         if dev_rqlnr d < 1 then Inl (Panic ''krldev_complete_request err devp->dev_rqlnr<1'')
         else
           let s = (case on_inlist np of None \<Rightarrow> s
                 | Some q \<Rightarrow> upd_dev q (\<lambda>d. d\<lparr>dev_rqlist := remove1 rq (dev_rqlist d)\<rparr>) s);
               s = upd_obj rq (\<lambda>np. np\<lparr>on_inlist := None\<rparr>) s;
               s = upd_dev dp (\<lambda>d. d\<lparr>dev_rqlnr := dev_rqlnr d - 1\<rparr>) s
           in andthen (with_sk (krlsem_up (on_complesem np)) s) (\<lambda>s. Inr (DFCOKSTUS, s))))
     | _ \<Rightarrow> Inr (DFCERRSTUS, s))"

primrec find_request :: "dst \<Rightarrow> u64 \<Rightarrow> u64 list \<Rightarrow> u64 option run" where
  "find_request s iocode [] = Inr None"
| "find_request s iocode (p # ps) = andthen (at (objnodes s) p) (\<lambda>np.
     if on_opercode np = sint iocode then Inr (Some p) else find_request s iocode ps)"

definition krldev_retn_request :: "u64 \<Rightarrow> u64 \<Rightarrow> dst \<Rightarrow> (int \<times> u64 option) run" where
  "krldev_retn_request devp iocode s =
     (if of_nat IOIF_CODE_MAX \<le> iocode then Inr (DFCERRSTUS, None)
      else andthen (at (devices s) devp) (\<lambda>d. andthen (find_request s iocode (dev_rqlist d)) (\<lambda>np.
        Inr (if np = None then DFCERRSTUS else DFCOKSTUS, np))))"

text \<open>One pass of the wait: \<open>None\<close> when the caller sleeps and makes the next pass when it runs again.\<close>

definition krldev_wait_request :: "u64 option \<Rightarrow> u64 option \<Rightarrow> dst \<Rightarrow> (int option \<times> dst) run" where
  "krldev_wait_request devp request s = (case (devp, request) of
       (Some dp, Some rq) \<Rightarrow> andthen (at (objnodes s) rq) (\<lambda>np.
         andthen (krlsem_down (on_complesem np) (sk s)) (\<lambda>(got, k).
           Inr (if got then Some DFCOKSTUS else None, s\<lparr>sk := k\<rparr>)))
     | _ \<Rightarrow> Inr (Some DFCERRSTUS, s))"

text \<open>
  The parameters of a request: buffer pointer, \<open>on_currops\<close>, \<open>on_len\<close>, \<open>on_ioctrd\<close>, \<open>on_bufcurops\<close> and
  \<open>on_bufsz\<close>; a caller that passes \<open>NULL\<close> for one ignores it.
\<close>

definition krldev_retn_rqueparm :: "u64 option \<Rightarrow> dst \<Rightarrow> (u64 \<times> u64 \<times> u64 \<times> u64 \<times> u64 \<times> u64) option run" where
  "krldev_retn_rqueparm request s = (case request of None \<Rightarrow> Inr None
     | Some p \<Rightarrow> andthen (at (objnodes s) p) (\<lambda>ondep.
         Inr (Some (on_bufp ondep, on_currops ondep, on_len ondep, on_ioctrd ondep, on_bufcurops ondep, on_bufsz ondep))))"

section \<open>Interrupts\<close>

text \<open>The number of the descriptor; the bound lets the one past the end through.\<close>

definition hal_retn_intfltdsc :: "u64 \<Rightarrow> nat option" where
  "hal_retn_intfltdsc irqnr = (if IDTMAX < unat irqnr then None else Some (unat irqnr))"

definition upd_intflt :: "nat \<Rightarrow> (intfltdsc \<Rightarrow> intfltdsc) \<Rightarrow> dst \<Rightarrow> dst run" where
  "upd_intflt i f s =
     (if length (machintflt s) \<le> i then Inl Fault
      else Inr (s\<lparr>machintflt := (machintflt s)[i := f (machintflt s ! i)]\<rparr>))"

definition hal_add_ihandle :: "nat option \<Rightarrow> u64 option \<Rightarrow> dst \<Rightarrow> (bool \<times> dst) run" where
  "hal_add_ihandle intdscp serdscp s = (case (intdscp, serdscp) of
       (Some i, Some p) \<Rightarrow> andthen (upd_intflt i (\<lambda>d. d\<lparr>i_serlist := p # i_serlist d, i_sernr := i_sernr d + 1\<rparr>) s)
         (\<lambda>s. Inr (True, s))
     | _ \<Rightarrow> Inr (False, s))"

definition krladd_irqhandle :: "u64 option \<Rightarrow> intflthandle option \<Rightarrow> u64 \<Rightarrow> dst \<Rightarrow> (u64 option \<times> dst) run" where
  "krladd_irqhandle device handle phyiline s = (case (device, handle) of
       (Some dv, Some hdl) \<Rightarrow> (case hal_retn_intfltdsc phyiline of
           None \<Rightarrow> Inr (None, s)
         | Some intp \<Rightarrow> (case krlnew s of (serdscp, s) \<Rightarrow>
             if serdscp = 0 then Inr (None, s)
             else
               let s = s\<lparr>serdscs := (serdscs s)(serdscp \<mapsto> intserdsc_t_init 0 intp dv hdl)\<rparr>
               in andthen (hal_add_ihandle (Some intp) (Some serdscp) s) (\<lambda>(ok, s).
                 if ok then Inr (Some serdscp, s)
                 else Inr (None, s\<lparr>serdscs := (serdscs s)(serdscp := None)\<rparr>))))
     | _ \<Rightarrow> Inr (None, s))"

definition krlnew_devhandle :: "u64 \<Rightarrow> intflthandle \<Rightarrow> u64 \<Rightarrow> dst \<Rightarrow> (int \<times> dst) run" where
  "krlnew_devhandle devp handle phyiline s = andthen (krladd_irqhandle (Some devp) (Some handle) phyiline s)
     (\<lambda>(sdp, s). case sdp of
         None \<Rightarrow> Inr (DFCERRSTUS, s)
       | Some p \<Rightarrow> andthen (at (devices s) devp) (\<lambda>_. Inr (DFCOKSTUS,
           upd_dev devp (\<lambda>d. d\<lparr>dev_intserlst := p # dev_intserlst d, dev_intlnenr := dev_intlnenr d + 1\<rparr>) s)))"

text \<open>
  The masks of the two interrupt controllers. \<open>(u8_t)(~(1 << line))\<close> keeps the low eight bits.
\<close>

definition i8259_enabled_line :: "u32 \<Rightarrow> dst \<Rightarrow> dst" where
  "i8259_enabled_line line s =
     (if line < 8 then s\<lparr>intm_mask := and (intm_mask s) (not (push_bit (unat line) 1))\<rparr>
      else s\<lparr>intm_mask := and (intm_mask s) (not (push_bit 2 1)),
             ints_mask := and (ints_mask s) (not (push_bit (unat (line - 8)) 1))\<rparr>)"

definition i8259_disable_line :: "u32 \<Rightarrow> dst \<Rightarrow> dst" where
  "i8259_disable_line line s =
     (if line < 8 then s\<lparr>intm_mask := or (intm_mask s) (push_bit (unat line) 1)\<rparr>
      else s\<lparr>intm_mask := or (intm_mask s) (push_bit 2 1),
             ints_mask := or (ints_mask s) (push_bit (unat (line - 8)) 1)\<rparr>)"

definition hal_enable_intline :: "u64 \<Rightarrow> dst \<Rightarrow> int \<times> dst" where
  "hal_enable_intline ifdnr s =
     (if ifdnr < 20 \<or> 36 < ifdnr then (DFCERRSTUS, s)
      else (DFCOKSTUS, i8259_enabled_line (ucast (ifdnr - 20)) s))"

definition hal_disable_intline :: "u64 \<Rightarrow> dst \<Rightarrow> int \<times> dst" where
  "hal_disable_intline ifdnr s =
     (if ifdnr < 20 \<or> 36 < ifdnr then (DFCERRSTUS, s)
      else (DFCOKSTUS, i8259_disable_line (ucast (ifdnr - 20)) s))"

definition krlenable_intline :: "u64 \<Rightarrow> dst \<Rightarrow> int \<times> dst" where
  "krlenable_intline ifdnr s = hal_enable_intline ifdnr s"

definition krldisable_intline :: "u64 \<Rightarrow> dst \<Rightarrow> int \<times> dst" where
  "krldisable_intline ifdnr s = hal_disable_intline ifdnr s"

section \<open>Time\<close>

definition bcd_to_bin :: "u32 \<Rightarrow> u32" where
  "bcd_to_bin val = and val 0xf + drop_bit 4 val * 10"

definition CMOS_READ :: "dst \<Rightarrow> nat \<Rightarrow> u64" where
  "CMOS_READ s adr = ucast (bcd_to_bin (ucast (cmos s adr)))"

definition krlupdate_times_from_cmos :: "dst \<Rightarrow> dst" where
  "krlupdate_times_from_cmos s = s\<lparr>osktime := (osktime s)\<lparr>kt_sec := CMOS_READ s 0, kt_min := CMOS_READ s 2,
     kt_hour := CMOS_READ s 4, kt_day := CMOS_READ s 7, kt_mon := CMOS_READ s 8, kt_year := CMOS_READ s 9\<rparr>\<rparr>"

definition krlupdate_times :: "u64 \<Rightarrow> u64 \<Rightarrow> u64 \<Rightarrow> u64 \<Rightarrow> u64 \<Rightarrow> u64 \<Rightarrow> u64 \<Rightarrow> dst \<Rightarrow> dst" where
  "krlupdate_times year mon day date hour mins sec s = s\<lparr>osktime := \<lparr>kt_year = year, kt_mon = mon, kt_day = day,
     kt_date = date, kt_hour = hour, kt_min = mins, kt_sec = sec\<rparr>\<rparr>"

text \<open>The structure of seven words the program gets, at offset 0 of its memory.\<close>

definition krlsve_time :: "u64 \<Rightarrow> dst \<Rightarrow> (int \<times> dst) run" where
  "krlsve_time time s =
     (if time = 0 then Inr (SYSSTUS_ERR, s)
      else andthen (at (umem s) time) (\<lambda>(b, n).
        if n < 56 then Inl Fault
        else
          let t = osktime s;
              b = st64 b 0 (kt_year t); b = st64 b 8 (kt_mon t); b = st64 b 16 (kt_day t);
              b = st64 b 24 (kt_date t); b = st64 b 32 (kt_hour t); b = st64 b 40 (kt_min t);
              b = st64 b 48 (kt_sec t)
          in Inr (SYSSTUS_OK, s\<lparr>umem := (umem s)(time \<mapsto> (b, n))\<rparr>)))"

end
