(* ===== verification/Drivers.thy ===== *)
theory Drivers
  imports Dev
begin

text \<open>
  The three drivers: the timer (\<open>drivers/drvtick.c\<close>), the keyboard (\<open>drivers/drvuart.c\<close>) and the RAM file
  system (\<open>drivers/drvrfs.c\<close>, whose operations are those of the theory Rfs), how they are started, how the
  kernel calls them and how an interrupt reaches them.
\<close>

section \<open>The timer driver\<close>

definition systick_open :: "u64 \<Rightarrow> dst \<Rightarrow> (int \<times> dst) run" where
  "systick_open devp s = andthen (krldev_inc_devcount devp s) (\<lambda>(_, s). Inr (DFCOKSTUS, s))"

definition systick_close :: "u64 \<Rightarrow> dst \<Rightarrow> (int \<times> dst) run" where
  "systick_close devp s = andthen (krldev_dec_devcount devp s) (\<lambda>(_, s). Inr (DFCOKSTUS, s))"

definition systick_read :: int where "systick_read = DFCERRSTUS"
definition systick_write :: int where "systick_write = DFCERRSTUS"
definition systick_lseek :: int where "systick_lseek = DFCERRSTUS"
definition systick_ioctrl :: int where "systick_ioctrl = DFCERRSTUS"
definition systick_dev_start :: int where "systick_dev_start = DFCERRSTUS"
definition systick_dev_stop :: int where "systick_dev_stop = DFCERRSTUS"
definition systick_set_powerstus :: int where "systick_set_powerstus = DFCERRSTUS"
definition systick_enum_dev :: int where "systick_enum_dev = DFCERRSTUS"
definition systick_flush :: int where "systick_flush = DFCERRSTUS"
definition systick_shutdown :: int where "systick_shutdown = DFCERRSTUS"

definition systick_handle :: "dst \<Rightarrow> (int \<times> dst) run" where
  "systick_handle s = andthen (krlsched_retn_currthread (sk s)) (\<lambda>t.
     andthen (with_sk (krlthd_inc_tick t) s) (\<lambda>s. Inr (DFCOKSTUS, krlupdate_times_from_cmos s)))"

definition systick_tab :: "drivcallfun list" where
  "systick_tab = [Systick_open, Systick_close, Systick_read, Systick_write,
     Systick_lseek, Systick_ioctrl, Systick_dev_start, Systick_dev_stop, Systick_set_powerstus, Systick_enum_dev,
     Systick_flush, Systick_shutdown]"

definition systick_set_driver :: "driver \<Rightarrow> driver" where
  "systick_set_driver drvp = drvp\<lparr>drv_dipfun := systick_tab, drv_name := Some ''systick0drv''\<rparr>"

definition systick_set_device :: "device \<Rightarrow> device" where
  "systick_set_device devp = devp\<lparr>dev_flgs := DEVFLG_SHARE, dev_stus := DEVSTS_NORML,
     dev_id := \<lparr>dev_mtype = SYSTICK_DEVICE, dev_stype = 0, dev_nr = 0\<rparr>, dev_name := Some ''systick0''\<rparr>"

text \<open>Adding the device to its driver and to the table; both entry functions give the device back on an error.\<close>

definition add_device :: "u64 \<Rightarrow> u64 \<Rightarrow> dst \<Rightarrow> (int \<times> dst) run" where
  "add_device devp drvp s = andthen (krldev_add_driver (Some devp) (Some drvp) s) (\<lambda>(st, s).
     if st = DFCERRSTUS then Inr (DFCERRSTUS, snd (del_device_dsc devp s))
     else andthen (krlnew_device (Some devp) s) (\<lambda>(st, s).
       if st = DFCERRSTUS then Inr (DFCERRSTUS, snd (del_device_dsc devp s)) else Inr (DFCOKSTUS, s)))"

definition systick_entry :: "u64 option \<Rightarrow> dst \<Rightarrow> (int \<times> dst) run" where
  "systick_entry drvp s = (case drvp of None \<Rightarrow> Inr (DFCERRSTUS, s) | Some rp \<Rightarrow>
     (case new_device_dsc s of
         (None, s) \<Rightarrow> Inr (DFCERRSTUS, s)
       | (Some devp, s) \<Rightarrow>
           andthen (add_device devp rp (upd_dev devp systick_set_device (upd_drv rp systick_set_driver s))) (\<lambda>(st, s).
           if st = DFCERRSTUS then Inr (DFCERRSTUS, s)
           else andthen (krlnew_devhandle devp Systick_handle 0x20 s) (\<lambda>(st, s).
             if st = DFCERRSTUS then Inr (DFCERRSTUS, s) else Inr (krlenable_intline 20 s)))))"

definition systick_exit :: int where "systick_exit = DFCERRSTUS"

section \<open>The keyboard driver\<close>

text \<open>
  The table \<open>keymap\<close>: per scan code the code of the key alone, with shift and after the prefix E0; the
  values from 0x100 on are the codes of \<open>drvuart_t.h\<close> for the keys that are not characters.
\<close>

definition keymap :: "16 word list" where
  "keymap =
    [0, 0, 0,  0x101, 0x101, 0,  49, 33, 0,  50, 64, 0,  51, 35, 0,  52, 36, 0,
     53, 37, 0,  54, 94, 0,  55, 38, 0,  56, 42, 0,  57, 40, 0,  48, 41, 0,
     45, 95, 0,  61, 43, 0,  0x104, 0x104, 0,  0x102, 0x102, 0,  113, 81, 0,  119, 87, 0,
     101, 69, 0,  114, 82, 0,  116, 84, 0,  121, 89, 0,  117, 85, 0,  105, 73, 0,
     111, 79, 0,  112, 80, 0,  91, 123, 0,  93, 125, 0,  0x103, 0x103, 0x130,  0x10A, 0x10A, 0x10B,
     97, 65, 0,  115, 83, 0,  100, 68, 0,  102, 70, 0,  103, 71, 0,  104, 72, 0,
     106, 74, 0,  107, 75, 0,  108, 76, 0,  59, 58, 0,  39, 34, 0,  96, 126, 0,
     0x108, 0x108, 0,  92, 124, 0,  122, 90, 0,  120, 88, 0,  99, 67, 0,  118, 86, 0,
     98, 66, 0,  110, 78, 0,  109, 77, 0,  44, 60, 0,  46, 62, 0,  47, 63, 0x12C,
     0x109, 0x109, 0,  42, 42, 0,  0x10C, 0x10C, 0x10D,  32, 32, 0,  0x10E, 0x10E, 0,  0x111, 0x111, 0,
     0x112, 0x112, 0,  0x113, 0x113, 0,  0x114, 0x114, 0,  0x115, 0x115, 0,  0x116, 0x116, 0,  0x117, 0x117, 0,
     0x118, 0x118, 0,  0x119, 0x119, 0,  0x11A, 0x11A, 0,  0x10F, 0x10F, 0,  0x110, 0x110, 0,  0x139, 55, 0x121,
     0x13A, 56, 0x125,  0x13B, 57, 0x123,  0x12E, 45, 0,  0x136, 52, 0x127,  0x137, 53, 0,  0x138, 54, 0x128,
     0x12F, 43, 0,  0x133, 49, 0x122,  0x134, 50, 0x126,  0x135, 51, 0x124,  0x132, 48, 0x11F,  0x131, 46, 0x120,
     0, 0, 0,  0, 0, 0,  0, 0, 0,  0x11B, 0x11B, 0,  0x11C, 0x11C, 0,  0, 0, 0,
     0, 0, 0,  0, 0, 0x105,  0, 0, 0x106,  0, 0, 0x107,  0, 0, 0,  0, 0, 0,
     0, 0, 0,  0, 0, 0,  0, 0, 0,  0, 0, 0,  0, 0, 0,  0, 0, 0,
     0, 0, 0,  0, 0, 0,  0, 0, 0,  0, 0, 0,  0, 0, 0,  0, 0, 0,
     0, 0, 0,  0, 0, 0,  0, 0, 0,  0, 0, 0,  0, 0, 0,  0, 0, 0,
     0, 0, 0,  0, 0, 0,  0, 0, 0,  0, 0, 0,  0, 0, 0,  0, 0, 0,
     0, 0, 0,  0, 0, 0,  0, 0, 0,  0, 0, 0,  0, 0, 0,  0, 0, 0,
     0, 0, 0,  0, 0, 0]"

definition kbd_map_code :: "16 word \<Rightarrow> 16 word \<Rightarrow> 16 word" where
  "kbd_map_code scan cols = keymap ! unat (scan * cols)"

text \<open>\<open>hal_memset\<close> clears the size of one element; the rest of the buffer holds what the memory held.\<close>

definition kboard_t_init :: "nat \<Rightarrow> block \<Rightarrow> kboard" where
  "kboard_t_init semnr junk = \<lparr>kb_flg = 0, kb_stus = 0, kb_sem = semnr, kb_btail = 0,
     kb_buff = 0 # map (\<lambda>i. of_nat (unat (junk (2 * i)) + 256 * unat (junk (2 * i + 1)))) [1..<64]\<rparr>"

definition init_kboard :: "u64 \<Rightarrow> dst \<Rightarrow> dst" where
  "init_kboard dev s = (case krlnew s of (ext, s) \<Rightarrow>
     if ext = 0 then s
     else case new_sem s of (w, s) \<Rightarrow>
       let s = s\<lparr>krl_other := insert ext (krl_other s), sk := krlsem_set_sem w 0 0 (sk s)\<rparr>
       in upd_dev dev (\<lambda>d. d\<lparr>dev_extdata := KbExt (kboard_t_init w (krl_junk s 0))\<rparr>) s)"

definition kbd_write_scan :: "kboard \<Rightarrow> u8 \<Rightarrow> kboard \<times> u8" where
  "kbd_write_scan ikbd scan =
     (if and scan 0x80 = 0 then (ikbd\<lparr>kb_buff := (kb_buff ikbd)[0 := ucast scan, 1 := 0, 2 := kbd_map_code (ucast scan) 3]\<rparr>, 1)
      else (ikbd\<lparr>kb_buff := (kb_buff ikbd)[0 := 0, 1 := ucast scan, 2 := kbd_map_code (ucast (and scan 0x7f)) 3]\<rparr>, 2))"

definition uart_handle :: "u64 \<Rightarrow> dst \<Rightarrow> (int \<times> dst) run" where
  "uart_handle devp s = andthen (at (devices s) devp) (\<lambda>idev. case dev_extdata idev of
       NoExt \<Rightarrow> Inr (DFCERRSTUS, s)
     | RfsExt r \<Rightarrow> Inl Fault
     | KbExt ikbd \<Rightarrow> (case kbd_write_scan ikbd (kb_port s) of (ikbd, stat) \<Rightarrow>
         andthen (with_sk (krlsem_up (kb_sem ikbd))
             (upd_dev devp (\<lambda>d. d\<lparr>dev_extdata := KbExt ikbd\<rparr>) (s\<lparr>kbd_dowup_stat := stat\<rparr>)))
           (\<lambda>s. Inr (DFCOKSTUS, s))))"

definition uart_open :: "u64 \<Rightarrow> dst \<Rightarrow> (int \<times> dst) run" where
  "uart_open devp s = krldev_inc_devcount devp s"

definition uart_close :: "u64 \<Rightarrow> dst \<Rightarrow> (int \<times> dst) run" where
  "uart_close devp s = krldev_dec_devcount devp s"

text \<open>The buffer behind a pointer of the program, which the kernel takes to be 4096 bytes.\<close>

definition ubuf :: "dst \<Rightarrow> u64 \<Rightarrow> block option run" where
  "ubuf s p = (if p = 0 then Inr None
     else andthen (at (umem s) p) (\<lambda>(b, n). if n < FSYS_ALCBLKSZ then Inl Fault else Inr (Some b)))"

definition put_ubuf :: "u64 \<Rightarrow> block option \<Rightarrow> dst \<Rightarrow> dst" where
  "put_ubuf p b s = (case (b, umem s p) of (Some b, Some (_, n)) \<Rightarrow> s\<lparr>umem := (umem s)(p \<mapsto> (b, n))\<rparr> | _ \<Rightarrow> s)"

definition kb_bytes :: "kboard \<Rightarrow> block" where
  "kb_bytes kbd i = (if even i then ucast (kb_buff kbd ! (i div 2)) else ucast (drop_bit 8 (kb_buff kbd ! (i div 2))))"

text \<open>One pass: the caller sleeps (\<open>None\<close>) until a key comes, then copies what the last key left, at most 6 bytes.\<close>

definition uart_read :: "u64 \<Rightarrow> u64 option \<Rightarrow> dst \<Rightarrow> (int option \<times> dst) run" where
  "uart_read devp iopack s = andthen (at (devices s) devp) (\<lambda>d. andthen (krldev_retn_rqueparm iopack s) (\<lambda>pm.
     case pm of None \<Rightarrow> Inr (Some DFCERRSTUS, s)
     | Some (retbuf, _, len, _, _, _) \<Rightarrow> (case dev_extdata d of
         KbExt kbd \<Rightarrow> andthen (krlsem_down (kb_sem kbd) (sk s)) (\<lambda>(got, k).
           let s = s\<lparr>sk := k\<rparr> in
           if \<not> got then Inr (None, s)
           else andthen (ubuf s retbuf) (\<lambda>b. case b of None \<Rightarrow> Inl Fault
             | Some b \<Rightarrow>
                 let sz = (if 6 < len then 6 else len)
                 in Inr (Some DFCOKSTUS,
                   put_ubuf retbuf (Some (\<lambda>i. if i < unat sz then kb_bytes kbd i else b i)) s)))
       | _ \<Rightarrow> Inl Fault)))"

definition uart_write :: "u64 \<Rightarrow> u64 option \<Rightarrow> dst \<Rightarrow> (int \<times> dst) run" where
  "uart_write devp iopack s = andthen (krldev_retn_rqueparm iopack s) (\<lambda>pm.
     case pm of None \<Rightarrow> Inr (DFCERRSTUS, s)
     | Some (retbuf, _, len, _, _, _) \<Rightarrow> andthen (ubuf s retbuf) (\<lambda>b. case b of None \<Rightarrow> Inl Fault
         | Some p \<Rightarrow> andthen (print [37, 115] [Str p FSYS_ALCBLKSZ] s) (\<lambda>s. Inr (DFCOKSTUS, s))))"

definition uart_lseek :: int where "uart_lseek = DFCERRSTUS"
definition uart_ioctrl :: int where "uart_ioctrl = DFCERRSTUS"
definition uart_dev_start :: int where "uart_dev_start = DFCERRSTUS"
definition uart_dev_stop :: int where "uart_dev_stop = DFCERRSTUS"
definition uart_set_powerstus :: int where "uart_set_powerstus = DFCERRSTUS"
definition uart_enum_dev :: int where "uart_enum_dev = DFCERRSTUS"
definition uart_flush :: int where "uart_flush = DFCERRSTUS"
definition uart_shutdown :: int where "uart_shutdown = DFCERRSTUS"

definition uart_tab :: "drivcallfun list" where
  "uart_tab = [Uart_open, Uart_close, Uart_read, Uart_write,
     Uart_lseek, Uart_ioctrl, Uart_dev_start, Uart_dev_stop, Uart_set_powerstus, Uart_enum_dev,
     Uart_flush, Uart_shutdown]"

definition uart_set_driver :: "driver \<Rightarrow> driver" where
  "uart_set_driver drvp = drvp\<lparr>drv_dipfun := uart_tab, drv_name := Some ''uartdrv''\<rparr>"

definition uart0_set_device :: "device \<Rightarrow> device" where
  "uart0_set_device devp = devp\<lparr>dev_flgs := DEVFLG_SHARE, dev_stus := DEVSTS_NORML,
     dev_id := \<lparr>dev_mtype = UART_DEVICE, dev_stype = 0, dev_nr = 0\<rparr>, dev_name := Some ''uart0''\<rparr>"

definition uart_entry :: "u64 option \<Rightarrow> dst \<Rightarrow> (int \<times> dst) run" where
  "uart_entry drvp s = (case drvp of None \<Rightarrow> Inr (DFCERRSTUS, s) | Some rp \<Rightarrow>
     (case new_device_dsc s of
         (None, s) \<Rightarrow> Inr (DFCERRSTUS, s)
       | (Some devp, s) \<Rightarrow>
           andthen (add_device devp rp (upd_dev devp uart0_set_device (upd_drv rp uart_set_driver s))) (\<lambda>(st, s).
           if st = DFCERRSTUS then Inr (DFCERRSTUS, s)
           else andthen (krlnew_devhandle devp Uart_handle 0x21 s) (\<lambda>(st, s).
             if st = DFCERRSTUS then Inr (DFCERRSTUS, s)
             else Inr (krlenable_intline 21 (init_kboard devp s))))))"

definition uart_exit :: int where "uart_exit = DFCERRSTUS"

section \<open>The driver of the RAM file system\<close>

definition rfs_tab :: "drivcallfun list" where
  "rfs_tab = [Rfs_open, Rfs_close, Rfs_read, Rfs_write,
     Rfs_lseek, Rfs_ioctrl, Rfs_dev_start, Rfs_dev_stop, Rfs_set_powerstus, Rfs_enum_dev,
     Rfs_flush, Rfs_shutdown]"

definition rfs_set_driver :: "driver \<Rightarrow> driver" where
  "rfs_set_driver drvp = drvp\<lparr>drv_dipfun := rfs_tab, drv_name := Some ''rfsdrv''\<rparr>"

definition rfs_set_device :: "device \<Rightarrow> device" where
  "rfs_set_device devp = devp\<lparr>dev_flgs := DEVFLG_SHARE, dev_stus := DEVSTS_NORML,
     dev_id := \<lparr>dev_mtype = FILESYS_DEVICE, dev_stype = 0, dev_nr = 0\<rparr>, dev_name := Some ''rfs''\<rparr>"

text \<open>
  The driver at work: it asks the kernel memory service for its buffers. Between its calls the answers stand in the state of
  the system.
\<close>

definition rfs_of :: "dst \<Rightarrow> u64 \<Rightarrow> rfs run" where
  "rfs_of s devp = andthen (at (devices s) devp) (\<lambda>d. case dev_extdata d of RfsExt r \<Rightarrow> Inr (r\<lparr>krl_grants := buf_ans s\<rparr>) | _ \<Rightarrow> Inl Fault)"

definition set_rfs :: "u64 \<Rightarrow> rfs \<Rightarrow> dst \<Rightarrow> dst" where
  "set_rfs devp r s = upd_dev devp (\<lambda>d. d\<lparr>dev_extdata := RfsExt (r\<lparr>krl_grants := []\<rparr>)\<rparr>) (s\<lparr>buf_ans := krl_grants r\<rparr>)"

text \<open>
  The packet with what the pointers of the program lead to now. The driver looks at the buffer when it reads
  or writes; memory that is not there is memory of no bytes.
\<close>

definition ustr :: "dst \<Rightarrow> u64 \<Rightarrow> path" where
  "ustr s p = (if p = 0 then None else Some (case umem s p of None \<Rightarrow> (hal_memset 0, 0) | Some m \<Rightarrow> m))"

definition packet_of :: "dst \<Rightarrow> kobj \<Rightarrow> objnode run" where
  "packet_of s ob =
     andthen (if on_opercode ob = int IOIF_CODE_READ \<or> on_opercode ob = int IOIF_CODE_WRITE then ubuf s (on_bufp ob)
              else Inr None) (\<lambda>b.
       Inr \<lparr>on_acsflgs = on_acsflgs ob, on_len = on_len ob, on_ioctrd = on_ioctrd ob, on_buf = b,
         on_bufsz = on_bufsz ob, on_fname = ustr s (on_fnamep ob), on_finode = on_finode ob\<rparr>)"

definition call_rfs :: "(rfs \<Rightarrow> objnode \<Rightarrow> (int \<times> objnode \<times> rfs) run) \<Rightarrow> u64 \<Rightarrow> u64 option \<Rightarrow> dst \<Rightarrow> (int \<times> dst) run" where
  "call_rfs f devp iopack s = (case iopack of None \<Rightarrow> Inl Fault | Some p \<Rightarrow>
     andthen (at (objnodes s) p) (\<lambda>ob. andthen (packet_of s ob) (\<lambda>obp. andthen (rfs_of s devp) (\<lambda>r.
     andthen (f r obp) (\<lambda>(st, obp, r).
       Inr (st, put_ubuf (on_bufp ob) (on_buf obp)
         (upd_obj p (\<lambda>ob. ob\<lparr>on_finode := on_finode obp\<rparr>) (set_rfs devp r s))))))))"

text \<open>The self-tests of \<open>rfs_entry\<close>: reads of superblock, bitmap and root directory, and one file written, read
  back, checked and deleted. What they print is left out; the buffer and the packet of the last one are never freed.\<close>

definition test_rfs_superblk :: "rfs \<Rightarrow> rfs run" where
  "test_rfs_superblk r = andthen (get_superblk r) (\<lambda>(sb, r). case sb of None \<Rightarrow> Inl Fault
     | Some sbp \<Rightarrow> del_superblk r sbp)"

definition test_rfs_bitmap :: "rfs \<Rightarrow> rfs run" where
  "test_rfs_bitmap r = (case new_buf r of
       (False, r) \<Rightarrow> Inl (Panic ''chkbitmap err'')
     | (True, r) \<Rightarrow> andthen (read_rfsdevblk r 1) (\<lambda>b. case b of
         None \<Rightarrow> Inl (Panic ''chkbitmap err1'')
       | Some bmp \<Rightarrow> del_buf r))"

definition test_rfs_rootdir :: "rfs \<Rightarrow> rfs run" where
  "test_rfs_rootdir r = andthen (get_rootdir r) (\<lambda>(d, r). case new_buf r of
       (False, r) \<Rightarrow> Inl (Panic ''testdir err'')
     | (True, r) \<Rightarrow> (case d of None \<Rightarrow> Inl Fault | Some dr \<Rightarrow>
         andthen (read_rfsdevblk r (ld64 dr rdr_blknr)) (\<lambda>b. case b of
           None \<Rightarrow> Inl (Panic ''testdir1 err1'')
         | Some fmp \<Rightarrow> andthen (del_buf r) (\<lambda>r. del_rootdir r))))"

text \<open>\<open>"/testfile"\<close>, in a memory of 10 bytes.\<close>

definition testfile :: path where
  "testfile = Some ((\<lambda>i. if i < 9 then [47, 116, 101, 115, 116, 102, 105, 108, 101] ! i else 0), 10)"

definition expect :: "(int \<times> objnode \<times> rfs) run \<Rightarrow> string \<Rightarrow> (objnode \<times> rfs) run" where
  "expect m msg = andthen m (\<lambda>(st, obp, r). if st = DFCERRSTUS then Inl (Panic msg) else Inr (obp, r))"

definition test_fsys_rfs :: "rfs \<Rightarrow> rfs run" where
  "test_fsys_rfs r =
     (let rwbuf = hal_memset 0xff;
          ondp = \<lparr>on_acsflgs = FSDEV_OPENFLG_NEWFILE, on_len = 512, on_ioctrd = FSDEV_IOCTRCD_DELFILE,
            on_buf = Some rwbuf, on_bufsz = of_nat FSYS_ALCBLKSZ, on_fname = testfile, on_finode = NoNode\<rparr>
      in andthen (expect (rfs_open r ondp) ''new'') (\<lambda>(ondp, r).
         andthen (expect (rfs_open r (ondp\<lparr>on_acsflgs := FSDEV_OPENFLG_OPEFILE\<rparr>)) ''open'') (\<lambda>(ondp, r).
         andthen (expect (rfs_write r ondp) ''write'') (\<lambda>(ondp, r).
         andthen (expect (rfs_read r (ondp\<lparr>on_buf := Some (hal_memset 0)\<rparr>)) ''read'') (\<lambda>(ondp, r).
         andthen (expect (rfs_close r ondp) ''close'') (\<lambda>(ondp, r).
         case on_buf ondp of None \<Rightarrow> Inl Fault
         | Some cb \<Rightarrow>
             if list_ex (\<lambda>i. cb i \<noteq> 0xff) [0..<512] then Inl (Panic ''check'')
             else andthen (expect (rfs_ioctrl r ondp) ''delete'') (\<lambda>(ondp, r).
               andthen (rfs_open r (ondp\<lparr>on_acsflgs := FSDEV_OPENFLG_OPEFILE\<rparr>)) (\<lambda>(st, ondp, r). Inr r))))))))"

definition test_fsys :: "u64 \<Rightarrow> dst \<Rightarrow> dst run" where
  "test_fsys devp s = andthen (rfs_of s devp) (\<lambda>r. case new_buf r of
       (False, r) \<Rightarrow> Inl (Panic ''rwbuf is NULL'')
     | (True, r) \<Rightarrow> (case krlnew_objnode s of
           (None, s) \<Rightarrow> Inl (Panic ''ondp is NULL'')
         | (Some ondp, s) \<Rightarrow> andthen (test_fsys_rfs r) (\<lambda>r. Inr (set_rfs devp r s))))"

definition with_rfs :: "(rfs \<Rightarrow> rfs run) \<Rightarrow> u64 \<Rightarrow> dst \<Rightarrow> dst run" where
  "with_rfs f devp s = andthen (rfs_of s devp) (\<lambda>r. andthen (f r) (\<lambda>r. Inr (set_rfs devp r s)))"

text \<open>Both blocks are asked for before either answer is looked at, so one is lost when the other is refused.\<close>

definition new_rfs_memory :: "u64 \<Rightarrow> u64 \<Rightarrow> dst \<Rightarrow> int \<times> dst" where
  "new_rfs_memory devp blksz s =
     (case krlnew s of (blkp, s) \<Rightarrow>
      let s = (if blkp = 0 then s else s\<lparr>krl_other := insert blkp (krl_other s)\<rparr>) in
      case krlnew s of (rfsexp, s) \<Rightarrow>
      let s = (if rfsexp = 0 then s else s\<lparr>krl_other := insert rfsexp (krl_other s)\<rparr>) in
      case new_rfsdevext_mmblk blkp rfsexp blksz (krl_junk s) (buf_ans s) of
        None \<Rightarrow> (DFCERRSTUS, s)
      | Some r \<Rightarrow> (DFCOKSTUS, set_rfs devp r s))"

definition rfs_entry :: "u64 option \<Rightarrow> dst \<Rightarrow> (int \<times> dst) run" where
  "rfs_entry drvp s = (case drvp of None \<Rightarrow> Inr (DFCERRSTUS, s) | Some rp \<Rightarrow>
     (case new_device_dsc s of
         (None, s) \<Rightarrow> Inr (DFCERRSTUS, s)
       | (Some devp, s) \<Rightarrow>
         (case new_rfs_memory devp FSMM_BLK (upd_dev devp rfs_set_device (upd_drv rp rfs_set_driver s)) of (st, s) \<Rightarrow>
           if st = DFCERRSTUS then Inr (DFCERRSTUS, snd (del_device_dsc devp s))
           else andthen (add_device devp rp s) (\<lambda>(st, s).
             if st = DFCERRSTUS then Inr (DFCERRSTUS, s)
             else andthen (with_rfs init_rfs devp s) (\<lambda>s. andthen (with_rfs test_rfs_superblk devp s) (\<lambda>s.
               andthen (with_rfs test_rfs_bitmap devp s) (\<lambda>s. andthen (with_rfs test_rfs_rootdir devp s) (\<lambda>s.
               andthen (test_fsys devp s) (\<lambda>s. Inr (DFCOKSTUS, s))))))))))"

definition rfs_exit :: int where "rfs_exit = DFCERRSTUS"

section \<open>Starting the drivers\<close>

definition call_entry :: "drventyexit \<Rightarrow> u64 option \<Rightarrow> dst \<Rightarrow> (int \<times> dst) run" where
  "call_entry e = (case e of Systick_entry \<Rightarrow> systick_entry | Rfs_entry \<Rightarrow> rfs_entry | Uart_entry \<Rightarrow> uart_entry)"

definition krlrun_driverentry :: "drventyexit \<Rightarrow> dst \<Rightarrow> (int \<times> dst) run" where
  "krlrun_driverentry drventry s = (case new_driver_dsc s of
       (None, s) \<Rightarrow> Inr (DFCERRSTUS, s)
     | (Some drvp, s) \<Rightarrow> andthen (call_entry drventry (Some drvp) s) (\<lambda>(st, s).
         if st = DFCERRSTUS then Inr (DFCERRSTUS, s)
         else andthen (krldriver_add_system drvp s) (\<lambda>(st, s).
           if st = DFCERRSTUS then Inr (DFCERRSTUS, s) else Inr (DFCOKSTUS, s))))"

definition osdrvetytabl :: "drventyexit list" where
  "osdrvetytabl = [Systick_entry, Rfs_entry, Uart_entry]"

primrec start_drivers :: "drventyexit list \<Rightarrow> dst \<Rightarrow> dst run" where
  "start_drivers [] s = Inr s"
| "start_drivers (e # es) s = andthen (krlrun_driverentry e s) (\<lambda>(st, s).
     if st = DFCERRSTUS then Inl (Panic ''init driver err'') else start_drivers es s)"

definition init_krldriver :: "dst \<Rightarrow> dst run" where
  "init_krldriver s = start_drivers osdrvetytabl s"

section \<open>Calling a driver\<close>

definition drv_defalt_func :: int where "drv_defalt_func = DFCERRSTUS"

text \<open>A function that answers at once; one that only reports a status.\<close>

definition answers :: "(int \<times> dst) run \<Rightarrow> (int option \<times> dst) run" where
  "answers m = andthen m (\<lambda>(st, s). Inr (Some st, s))"

definition reports :: "int \<Rightarrow> dst \<Rightarrow> (int option \<times> dst) run" where
  "reports st s = Inr (Some st, s)"

primrec call_dipfun :: "drivcallfun \<Rightarrow> u64 \<Rightarrow> u64 option \<Rightarrow> dst \<Rightarrow> (int option \<times> dst) run" where
  "call_dipfun Drv_defalt_func devp io s = reports drv_defalt_func s"
| "call_dipfun Systick_open devp io s = answers (systick_open devp s)"
| "call_dipfun Systick_close devp io s = answers (systick_close devp s)"
| "call_dipfun Systick_read devp io s = reports systick_read s"
| "call_dipfun Systick_write devp io s = reports systick_write s"
| "call_dipfun Systick_lseek devp io s = reports systick_lseek s"
| "call_dipfun Systick_ioctrl devp io s = reports systick_ioctrl s"
| "call_dipfun Systick_dev_start devp io s = reports systick_dev_start s"
| "call_dipfun Systick_dev_stop devp io s = reports systick_dev_stop s"
| "call_dipfun Systick_set_powerstus devp io s = reports systick_set_powerstus s"
| "call_dipfun Systick_enum_dev devp io s = reports systick_enum_dev s"
| "call_dipfun Systick_flush devp io s = reports systick_flush s"
| "call_dipfun Systick_shutdown devp io s = reports systick_shutdown s"
| "call_dipfun Rfs_open devp io s = answers (call_rfs rfs_open devp io s)"
| "call_dipfun Rfs_close devp io s = answers (call_rfs rfs_close devp io s)"
| "call_dipfun Rfs_read devp io s = answers (call_rfs rfs_read devp io s)"
| "call_dipfun Rfs_write devp io s = answers (call_rfs rfs_write devp io s)"
| "call_dipfun Rfs_lseek devp io s = reports rfs_lseek s"
| "call_dipfun Rfs_ioctrl devp io s = answers (call_rfs rfs_ioctrl devp io s)"
| "call_dipfun Rfs_dev_start devp io s = reports rfs_dev_start s"
| "call_dipfun Rfs_dev_stop devp io s = reports rfs_dev_stop s"
| "call_dipfun Rfs_set_powerstus devp io s = reports rfs_set_powerstus s"
| "call_dipfun Rfs_enum_dev devp io s = reports rfs_enum_dev s"
| "call_dipfun Rfs_flush devp io s = reports rfs_flush s"
| "call_dipfun Rfs_shutdown devp io s = reports rfs_shutdown s"
| "call_dipfun Uart_open devp io s = answers (uart_open devp s)"
| "call_dipfun Uart_close devp io s = answers (uart_close devp s)"
| "call_dipfun Uart_read devp io s = uart_read devp io s"
| "call_dipfun Uart_write devp io s = answers (uart_write devp io s)"
| "call_dipfun Uart_lseek devp io s = reports uart_lseek s"
| "call_dipfun Uart_ioctrl devp io s = reports uart_ioctrl s"
| "call_dipfun Uart_dev_start devp io s = reports uart_dev_start s"
| "call_dipfun Uart_dev_stop devp io s = reports uart_dev_stop s"
| "call_dipfun Uart_set_powerstus devp io s = reports uart_set_powerstus s"
| "call_dipfun Uart_enum_dev devp io s = reports uart_enum_dev s"
| "call_dipfun Uart_flush devp io s = reports uart_flush s"
| "call_dipfun Uart_shutdown devp io s = reports uart_shutdown s"

definition krldev_call_driver :: "u64 option \<Rightarrow> nat \<Rightarrow> u64 option \<Rightarrow> dst \<Rightarrow> (int option \<times> dst) run" where
  "krldev_call_driver devp iocode p2 s = (case devp of None \<Rightarrow> reports DFCERRSTUS s
     | Some dp \<Rightarrow>
         if IOIF_CODE_MAX \<le> iocode then reports DFCERRSTUS s
         else andthen (at (devices s) dp) (\<lambda>d. case dev_drv d of None \<Rightarrow> reports DFCERRSTUS s
           | Some rp \<Rightarrow> andthen (at (drivers s) rp) (\<lambda>r. call_dipfun (drv_dipfun r ! iocode) dp p2 s)))"

definition krldev_io :: "u64 \<Rightarrow> dst \<Rightarrow> (int option \<times> dst) run" where
  "krldev_io nodep s = andthen (at (objnodes s) nodep) (\<lambda>ob.
     if (on_objtype ob \<noteq> OBJN_TY_DEV \<and> on_objtype ob \<noteq> OBJN_TY_FIL) \<or> on_objadr ob = None then reports DFCERRSTUS s
     else if on_opercode ob < 0 \<or> int IOIF_CODE_MAX \<le> on_opercode ob then reports DFCERRSTUS s
     else krldev_call_driver (on_objadr ob) (nat (on_opercode ob)) (Some nodep) s)"

section \<open>Handling an interrupt\<close>

definition call_handle :: "intserdsc \<Rightarrow> dst \<Rightarrow> (int \<times> dst) run" where
  "call_handle d = (case s_handle d of Systick_handle \<Rightarrow> systick_handle | Uart_handle \<Rightarrow> uart_handle (s_device d))"

primrec run_handles :: "u64 list \<Rightarrow> dst \<Rightarrow> dst run" where
  "run_handles [] s = Inr s"
| "run_handles (p # ps) s = andthen (at (serdscs s) p) (\<lambda>d. andthen (call_handle d s) (\<lambda>(_, s). run_handles ps s))"

definition hal_run_intflthandle :: "u64 \<Rightarrow> dst \<Rightarrow> dst run" where
  "hal_run_intflthandle ifdnr s = (case hal_retn_intfltdsc ifdnr of
       None \<Rightarrow> Inl (Panic ''hal_run_intfdsc err'')
     | Some i \<Rightarrow> if length (machintflt s) \<le> i then Inl Fault else run_handles (i_serlist (machintflt s ! i)) s)"

definition hal_do_hwint :: "u64 \<Rightarrow> u64 \<Rightarrow> dst \<Rightarrow> dst run" where
  "hal_do_hwint intnumb krnlsframp s =
     (if IDTMAX < unat intnumb \<or> krnlsframp = 0 then Inl (Panic ''hal_do_hwint fail'')
      else case hal_retn_intfltdsc intnumb of
          None \<Rightarrow> Inl (Panic ''hal_do_hwint ifdscp NULL'')
        | Some i \<Rightarrow>
            andthen (upd_intflt i (\<lambda>d. d\<lparr>i_indx := i_indx d + 1, i_deep := i_deep d + 1\<rparr>) s) (\<lambda>s.
            andthen (hal_run_intflthandle intnumb s) (\<lambda>s. upd_intflt i (\<lambda>d. d\<lparr>i_deep := i_deep d - 1\<rparr>) s)))"

definition hal_hwint_allocator :: "u64 \<Rightarrow> u64 \<Rightarrow> dst \<Rightarrow> dst run" where
  "hal_hwint_allocator intnumb krnlsframp s =
     andthen (hal_do_hwint intnumb krnlsframp s) (with_sk krlsched_chkneed_pmptsched)"

end
