(* ===== verification/Services.thy ===== *)
theory Services
  imports Drivers
begin

text \<open>
  The services of the kernel: \<open>kernel/krlservice.c\<close> with the table of \<open>krlglobal.c\<close>, the file services
  (\<open>krlsveopen.c\<close>, \<open>krlsveclose.c\<close>, \<open>krlsveread.c\<close>, \<open>krlsvewrite.c\<close>, \<open>krlsveioctrl.c\<close>, \<open>krlsvelseek.c\<close>), the thread
  services (\<open>krlsvethread.c\<close>) and the time service. The memory services are in the theory Vma.
\<close>

section \<open>Handles\<close>

text \<open>The handle table of a thread: operations of \<open>krlthread.c\<close> on the thread at an address.\<close>

definition add_hand :: "tid \<Rightarrow> u64 \<Rightarrow> dst \<Rightarrow> (int \<times> dst) run" where
  "add_hand tdp ondp s = andthen (td (sk s) tdp) (\<lambda>h. case krlthd_add_objnode h (Some ondp) of (rethd, h) \<Rightarrow>
     Inr (rethd, s\<lparr>sk := upd_td tdp (\<lambda>_. h) (sk s)\<rparr>))"

definition del_hand :: "tid \<Rightarrow> int \<Rightarrow> dst \<Rightarrow> (int \<times> dst) run" where
  "del_hand tdp hand s = andthen (td (sk s) tdp) (\<lambda>h. case krlthd_del_objnode h hand of (rethd, h) \<Rightarrow>
     Inr (rethd, s\<lparr>sk := upd_td tdp (\<lambda>_. h) (sk s)\<rparr>))"

definition retn_hand :: "tid \<Rightarrow> int \<Rightarrow> dst \<Rightarrow> u64 option run" where
  "retn_hand tdp hand s = andthen (td (sk s) tdp) (\<lambda>h. Inr (krlthd_retn_objnode h hand))"

text \<open>The answer of a service: \<open>None\<close> when the thread sleeps and makes the call again when it runs.\<close>

type_synonym answer = "(int option \<times> dst) run"

definition then_if_back :: "answer \<Rightarrow> (int \<Rightarrow> dst \<Rightarrow> answer) \<Rightarrow> answer" where
  "then_if_back m f = andthen m (\<lambda>(st, s). case st of None \<Rightarrow> Inr (None, s) | Some v \<Rightarrow> f v s)"

text \<open>\<open>krlsve_open_device\<close>, \<open>_close_\<close>, \<open>_read_\<close>, \<open>_write_\<close> and \<open>_ioctrl_device\<close> have the same body.\<close>

definition krlsve_device :: "u64 \<Rightarrow> dst \<Rightarrow> answer" where
  "krlsve_device ondep s = andthen (at (objnodes s) ondep) (\<lambda>ob.
     if on_objadr ob = None then reports SYSSTUS_ERR s
     else then_if_back (krldev_io ondep s) (\<lambda>st s. reports (if st = DFCERRSTUS then SYSSTUS_ERR else SYSSTUS_OK) s))"

definition krlsve_open_device :: "u64 \<Rightarrow> dst \<Rightarrow> answer" where "krlsve_open_device = krlsve_device"
definition krlsve_close_device :: "u64 \<Rightarrow> dst \<Rightarrow> answer" where "krlsve_close_device = krlsve_device"
definition krlsve_read_device :: "u64 \<Rightarrow> dst \<Rightarrow> answer" where "krlsve_read_device = krlsve_device"
definition krlsve_write_device :: "u64 \<Rightarrow> dst \<Rightarrow> answer" where "krlsve_write_device = krlsve_device"
definition krlsve_ioctrl_device :: "u64 \<Rightarrow> dst \<Rightarrow> answer" where "krlsve_ioctrl_device = krlsve_device"

section \<open>Open\<close>

text \<open>The three words of a device identifier in the memory of the program.\<close>

definition devid_at :: "dst \<Rightarrow> u64 \<Rightarrow> devid run" where
  "devid_at s file = andthen (at (umem s) file) (\<lambda>(b, n).
     if n < 24 then Inl Fault else Inr \<lparr>dev_mtype = ld64 b 0, dev_stype = ld64 b 8, dev_nr = ld64 b 16\<rparr>)"

text \<open>\<open>"call open ok had%x \n\r"\<close>\<close>

definition open_msg :: "u8 list" where
  "open_msg = map of_char ''call open ok had%x '' @ [10, 13]"

text \<open>\<open>res_step\<close>: the handle, if there is one, and the object are given back.\<close>

definition res_step :: "tid \<Rightarrow> u64 \<Rightarrow> int \<Rightarrow> dst \<Rightarrow> answer" where
  "res_step tdp ondp rethd s = andthen (print open_msg [Num (of_int rethd)] s) (\<lambda>s.
     andthen (if rethd = NO_HAND then Inr s
              else andthen (del_hand tdp rethd s) (\<lambda>(h, s).
                if h = NO_HAND then Inl (Panic ''open api td del objnode err'') else Inr s)) (\<lambda>s.
     andthen (krldel_objnode ondp s) (\<lambda>s. reports NO_HAND s)))"

definition open_dev_step :: "tid \<Rightarrow> devid \<Rightarrow> dst \<Rightarrow> answer" where
  "open_dev_step tdp devid s = andthen (krlonidfl_retn_device (Some devid) DIDFIL_IDN s) (\<lambda>devp.
     if devp = None then reports NO_HAND s
     else case krlnew_objnode s of
         (None, s) \<Rightarrow> reports NO_HAND s
       | (Some ondp, s) \<Rightarrow>
           let s = upd_obj ondp (\<lambda>ob. ob\<lparr>on_opercode := int IOIF_CODE_OPEN, on_objtype := OBJN_TY_DEV, on_objadr := devp\<rparr>) s
           in andthen (add_hand tdp ondp s) (\<lambda>(rethd, s).
             if rethd = NO_HAND then res_step tdp ondp rethd s
             else then_if_back (krlsve_open_device ondp s) (\<lambda>st s.
               if st = SYSSTUS_ERR then res_step tdp ondp rethd s else reports rethd s)))"

definition open_fil_step :: "tid \<Rightarrow> u64 \<Rightarrow> u64 \<Rightarrow> dst \<Rightarrow> answer" where
  "open_fil_step tdp file flgs s =
     andthen (krlonidfl_retn_device (Some \<lparr>dev_mtype = FILESYS_DEVICE, dev_stype = 0, dev_nr = 0\<rparr>) DIDFIL_IDN s) (\<lambda>devp.
     if devp = None then reports NO_HAND s
     else case krlnew_objnode s of
         (None, s) \<Rightarrow> reports NO_HAND s
       | (Some ondp, s) \<Rightarrow>
           let s = upd_obj ondp (\<lambda>ob. ob\<lparr>on_opercode := int IOIF_CODE_OPEN, on_objtype := OBJN_TY_FIL, on_objadr := devp\<rparr>) s
           in if and (drop_bit RWO_FLG_BITS flgs) RWO_FLG_MASK = NF_FLG
              then then_if_back (krlsve_open_device ondp
                  (upd_obj ondp (\<lambda>ob. ob\<lparr>on_acsflgs := FSDEV_OPENFLG_NEWFILE, on_fnamep := file\<rparr>) s)) (\<lambda>st s.
                if st = SYSSTUS_ERR then res_step tdp ondp NO_HAND s
                else andthen (krldel_objnode ondp s) (\<lambda>s. reports 0 s))
              else andthen (add_hand tdp ondp
                  (upd_obj ondp (\<lambda>ob. ob\<lparr>on_acsflgs := FSDEV_OPENFLG_OPEFILE, on_fnamep := file\<rparr>) s)) (\<lambda>(rethd, s).
                if rethd = NO_HAND then res_step tdp ondp rethd s
                else then_if_back (krlsve_open_device ondp s) (\<lambda>st s.
                  if st = SYSSTUS_ERR then Inl (Panic ''open sve die^^^^^^'') else reports rethd s)))"

definition krlsve_core_open :: "u64 \<Rightarrow> u64 \<Rightarrow> u64 \<Rightarrow> dst \<Rightarrow> answer" where
  "krlsve_core_open file flgs stus s = andthen (krlsched_retn_currthread (sk s)) (\<lambda>tdp.
     if and flgs FILE_TY_MASK = FILE_TY_DEV then andthen (devid_at s file) (\<lambda>devid. open_dev_step tdp devid s)
     else if and flgs FILE_TY_MASK = FILE_TY_FILE then open_fil_step tdp file flgs s
     else reports NO_HAND s)"

definition krlsve_open :: "u64 \<Rightarrow> u64 \<Rightarrow> u64 \<Rightarrow> dst \<Rightarrow> answer" where
  "krlsve_open file flgs stus s = (if file = 0 then reports SYSSTUS_ERR s else krlsve_core_open file flgs stus s)"

section \<open>Close, read, write, control, seek\<close>

definition krlsve_core_close :: "int \<Rightarrow> dst \<Rightarrow> answer" where
  "krlsve_core_close fhand s = andthen (krlsched_retn_currthread (sk s)) (\<lambda>tdp.
     andthen (retn_hand tdp fhand s) (\<lambda>ondp. case ondp of
       None \<Rightarrow> reports SYSSTUS_ERR s
     | Some p \<Rightarrow> andthen (at (objnodes s) p) (\<lambda>ob.
         if on_objtype ob = OBJN_TY_DEV \<or> on_objtype ob = OBJN_TY_FIL
         then then_if_back (krlsve_close_device p (upd_obj p (\<lambda>ob. ob\<lparr>on_opercode := int IOIF_CODE_CLOSE\<rparr>) s)) (\<lambda>st s.
           if st = SYSSTUS_ERR then reports SYSSTUS_ERR s
           else andthen (del_hand tdp fhand s) (\<lambda>(h, s).
             if h = NO_HAND then Inl (Panic ''close api td del objnode err'')
             else andthen (krldel_objnode p s) (\<lambda>s. reports SYSSTUS_OK s)))
         else reports SYSSTUS_ERR s)))"

definition krlsve_close :: "int \<Rightarrow> dst \<Rightarrow> answer" where
  "krlsve_close fhand s = (if fhand < 0 \<or> int TD_HAND_MAX \<le> fhand then reports SYSSTUS_ERR s else krlsve_core_close fhand s)"

text \<open>What \<open>krlsve_core_read\<close>, \<open>_write\<close> and \<open>_ioctrl\<close> do with the object of a handle: set its fields and call.\<close>

definition on_hand :: "int \<Rightarrow> (kobj \<Rightarrow> kobj) \<Rightarrow> (u64 \<Rightarrow> dst \<Rightarrow> answer) \<Rightarrow> dst \<Rightarrow> answer" where
  "on_hand fhand f call s = andthen (krlsched_retn_currthread (sk s)) (\<lambda>currtd.
     andthen (retn_hand currtd fhand s) (\<lambda>onp. case onp of
       None \<Rightarrow> reports SYSSTUS_ERR s
     | Some p \<Rightarrow> andthen (at (objnodes s) p) (\<lambda>ob.
         if on_objtype ob = OBJN_TY_DEV \<or> on_objtype ob = OBJN_TY_FIL then call p (upd_obj p f s)
         else reports SYSSTUS_ERR s)))"

definition krlsve_core_read :: "int \<Rightarrow> u64 \<Rightarrow> u64 \<Rightarrow> u64 \<Rightarrow> dst \<Rightarrow> answer" where
  "krlsve_core_read fhand buf len flgs = on_hand fhand
     (\<lambda>ob. ob\<lparr>on_opercode := int IOIF_CODE_READ, on_bufp := buf, on_len := len, on_bufsz := 0x1000, on_acsflgs := flgs\<rparr>)
     krlsve_read_device"

definition krlsve_read :: "int \<Rightarrow> u64 \<Rightarrow> u64 \<Rightarrow> u64 \<Rightarrow> dst \<Rightarrow> answer" where
  "krlsve_read fhand buf len flgs s =
     (if fhand = NO_HAND \<or> buf = 0 \<or> len < 1 then reports SYSSTUS_ERR s else krlsve_core_read fhand buf len flgs s)"

definition krlsve_core_write :: "int \<Rightarrow> u64 \<Rightarrow> u64 \<Rightarrow> u64 \<Rightarrow> dst \<Rightarrow> answer" where
  "krlsve_core_write fhand buf len flgs = on_hand fhand
     (\<lambda>ob. ob\<lparr>on_opercode := int IOIF_CODE_WRITE, on_bufp := buf, on_len := len, on_bufsz := 0x1000, on_acsflgs := flgs\<rparr>)
     krlsve_write_device"

definition krlsve_write :: "int \<Rightarrow> u64 \<Rightarrow> u64 \<Rightarrow> u64 \<Rightarrow> dst \<Rightarrow> answer" where
  "krlsve_write fhand buf len flgs s =
     (if fhand \<le> NO_HAND \<or> int TD_HAND_MAX \<le> fhand \<or> buf = 0 \<or> len = 0 then reports SYSSTUS_ERR s
      else krlsve_core_write fhand buf len flgs s)"

definition krlsve_core_ioctrl :: "int \<Rightarrow> u64 \<Rightarrow> u64 \<Rightarrow> u64 \<Rightarrow> dst \<Rightarrow> answer" where
  "krlsve_core_ioctrl fhand buf iocode flgs = on_hand fhand
     (\<lambda>ob. ob\<lparr>on_opercode := int IOIF_CODE_IOCTRL, on_bufp := buf, on_ioctrd := iocode, on_acsflgs := flgs\<rparr>)
     krlsve_ioctrl_device"

definition krlsve_ioctrl :: "int \<Rightarrow> u64 \<Rightarrow> u64 \<Rightarrow> u64 \<Rightarrow> dst \<Rightarrow> answer" where
  "krlsve_ioctrl fhand buf iocode flgs s =
     (if fhand = NO_HAND then reports SYSSTUS_ERR s else krlsve_core_ioctrl fhand buf iocode flgs s)"

definition krlsve_lseek :: "int \<Rightarrow> u64 \<Rightarrow> u64 \<Rightarrow> int" where "krlsve_lseek fhand lofset flgs = SYSSTUS_ERR"
definition krlsve_core_lseek :: "int \<Rightarrow> u64 \<Rightarrow> u64 \<Rightarrow> int" where "krlsve_core_lseek fhand lofset flgs = SYSSTUS_ERR"

section \<open>Threads\<close>

definition krlsve_thread_tick :: "u64 \<Rightarrow> dst \<Rightarrow> (u64 \<times> dst) run" where
  "krlsve_thread_tick idn s = andthen (krlthd_curr_sumtick (sk s)) (\<lambda>n. Inr (n, s))"

definition krlsve_exit_thread :: "dst \<Rightarrow> (int \<times> dst) run" where
  "krlsve_exit_thread s = andthen (with_sk krlsve_core_exit_thread s) (\<lambda>s. Inr (SYSSTUS_OK, s))"

definition krlsve_retn_threadhand :: "u64 \<Rightarrow> dst \<Rightarrow> (int \<times> dst) run" where
  "krlsve_retn_threadhand tname s =
     (if tname = 0 then andthen (krlsched_retn_currthread (sk s)) (\<lambda>tdp. andthen (td (sk s) tdp) (\<lambda>h. Inr (sint (td_id h), s)))
      else Inr (SYSSTUS_ERR, s))"

definition krlsve_retn_threadstats :: int where "krlsve_retn_threadstats = SYSSTUS_ERR"
definition krlsve_set_threadstats :: int where "krlsve_set_threadstats = SYSSTUS_ERR"

section \<open>The service table\<close>

text \<open>The parameters of a service in the frame of the caller (\<open>stkparame_t\<close>).\<close>

record stkparame =
  parmv1 :: u64
  parmv2 :: u64
  parmv3 :: u64
  parmv4 :: u64
  parmv5 :: u64

datatype syscall = Krlsvetabl_mallocblk | Krlsvetabl_mfreeblk | Krlsvetabl_exel_thread | Krlsvetabl_exit_thread
  | Krlsvetabl_retn_threadhand | Krlsvetabl_retn_threadstats | Krlsvetabl_set_threadstats | Krlsvetabl_open
  | Krlsvetabl_close | Krlsvetabl_read | Krlsvetabl_write | Krlsvetabl_ioctrl | Krlsvetabl_lseek | Krlsvetabl_time
  | Krlsvetabl_tick

definition osservicetab :: "syscall option list" where
  "osservicetab = [None, Some Krlsvetabl_mallocblk, Some Krlsvetabl_mfreeblk, Some Krlsvetabl_exel_thread,
     Some Krlsvetabl_exit_thread, Some Krlsvetabl_retn_threadhand, Some Krlsvetabl_retn_threadstats,
     Some Krlsvetabl_set_threadstats, Some Krlsvetabl_open, Some Krlsvetabl_close, Some Krlsvetabl_read,
     Some Krlsvetabl_write, Some Krlsvetabl_ioctrl, Some Krlsvetabl_lseek, Some Krlsvetabl_time, Some Krlsvetabl_tick]"

definition krlsvetabl_exit_thread :: "u64 \<Rightarrow> stkparame \<Rightarrow> dst \<Rightarrow> answer" where
  "krlsvetabl_exit_thread inr stkparv s = (if inr \<noteq> 4 then reports SYSSTUS_ERR s else answers (krlsve_exit_thread s))"

definition krlsvetabl_retn_threadhand :: "u64 \<Rightarrow> stkparame \<Rightarrow> dst \<Rightarrow> answer" where
  "krlsvetabl_retn_threadhand inr stkparv s =
     (if inr \<noteq> 5 then reports SYSSTUS_ERR s else answers (krlsve_retn_threadhand (parmv1 stkparv) s))"

definition krlsvetabl_retn_threadstats :: "u64 \<Rightarrow> stkparame \<Rightarrow> dst \<Rightarrow> answer" where
  "krlsvetabl_retn_threadstats inr stkparv s =
     (if inr \<noteq> 6 then reports SYSSTUS_ERR s else reports krlsve_retn_threadstats s)"

definition krlsvetabl_set_threadstats :: "u64 \<Rightarrow> stkparame \<Rightarrow> dst \<Rightarrow> answer" where
  "krlsvetabl_set_threadstats inr stkparv s =
     (if inr \<noteq> 7 then reports SYSSTUS_ERR s else reports krlsve_set_threadstats s)"

definition krlsvetabl_open :: "u64 \<Rightarrow> stkparame \<Rightarrow> dst \<Rightarrow> answer" where
  "krlsvetabl_open inr stkparv s = (if inr \<noteq> 8 then reports SYSSTUS_ERR s
     else krlsve_open (parmv1 stkparv) (parmv2 stkparv) (parmv3 stkparv) s)"

definition krlsvetabl_close :: "u64 \<Rightarrow> stkparame \<Rightarrow> dst \<Rightarrow> answer" where
  "krlsvetabl_close inr stkparv s = (if inr \<noteq> 9 then reports SYSSTUS_ERR s else krlsve_close (sint (parmv1 stkparv)) s)"

definition krlsvetabl_read :: "u64 \<Rightarrow> stkparame \<Rightarrow> dst \<Rightarrow> answer" where
  "krlsvetabl_read inr stkparv s = (if inr \<noteq> 0xa then reports SYSSTUS_ERR s
     else krlsve_read (sint (parmv1 stkparv)) (parmv2 stkparv) (parmv3 stkparv) (parmv4 stkparv) s)"

definition krlsvetabl_write :: "u64 \<Rightarrow> stkparame \<Rightarrow> dst \<Rightarrow> answer" where
  "krlsvetabl_write inr stkparv s = (if inr \<noteq> 0xb then reports SYSSTUS_ERR s
     else krlsve_write (sint (parmv1 stkparv)) (parmv2 stkparv) (parmv3 stkparv) (parmv4 stkparv) s)"

definition krlsvetabl_ioctrl :: "u64 \<Rightarrow> stkparame \<Rightarrow> dst \<Rightarrow> answer" where
  "krlsvetabl_ioctrl inr stkparv s = (if inr \<noteq> 0xc then reports SYSSTUS_ERR s
     else krlsve_ioctrl (sint (parmv1 stkparv)) (parmv2 stkparv) (parmv3 stkparv) (parmv4 stkparv) s)"

definition krlsvetabl_lseek :: "u64 \<Rightarrow> stkparame \<Rightarrow> dst \<Rightarrow> answer" where
  "krlsvetabl_lseek inr stkparv s = (if inr \<noteq> 0xd then reports SYSSTUS_ERR s
     else reports (krlsve_lseek (sint (parmv1 stkparv)) (parmv2 stkparv) (parmv3 stkparv)) s)"

definition krlsvetabl_time :: "u64 \<Rightarrow> stkparame \<Rightarrow> dst \<Rightarrow> answer" where
  "krlsvetabl_time inr stkparv s = (if inr \<noteq> 0xe then reports SYSSTUS_ERR s else answers (krlsve_time (parmv1 stkparv) s))"

definition krlsvetabl_tick :: "u64 \<Rightarrow> stkparame \<Rightarrow> dst \<Rightarrow> answer" where
  "krlsvetabl_tick inr stkparv s = (if inr \<noteq> 0xf then reports SYSSTUS_ERR s
     else andthen (krlsve_thread_tick (parmv1 stkparv) s) (\<lambda>(n, s). reports (sint n) s))"

text \<open>The services of memory and of starting a program act on parts of the kernel that are not in this state: \<open>oth\<close>.\<close>

definition call_service :: "(syscall \<Rightarrow> u64 \<Rightarrow> stkparame \<Rightarrow> dst \<Rightarrow> answer) \<Rightarrow> syscall \<Rightarrow> u64 \<Rightarrow> stkparame \<Rightarrow> dst \<Rightarrow> answer" where
  "call_service oth f = (case f of
       Krlsvetabl_exit_thread \<Rightarrow> krlsvetabl_exit_thread
     | Krlsvetabl_retn_threadhand \<Rightarrow> krlsvetabl_retn_threadhand
     | Krlsvetabl_retn_threadstats \<Rightarrow> krlsvetabl_retn_threadstats
     | Krlsvetabl_set_threadstats \<Rightarrow> krlsvetabl_set_threadstats
     | Krlsvetabl_open \<Rightarrow> krlsvetabl_open
     | Krlsvetabl_close \<Rightarrow> krlsvetabl_close
     | Krlsvetabl_read \<Rightarrow> krlsvetabl_read
     | Krlsvetabl_write \<Rightarrow> krlsvetabl_write
     | Krlsvetabl_ioctrl \<Rightarrow> krlsvetabl_ioctrl
     | Krlsvetabl_lseek \<Rightarrow> krlsvetabl_lseek
     | Krlsvetabl_time \<Rightarrow> krlsvetabl_time
     | Krlsvetabl_tick \<Rightarrow> krlsvetabl_tick
     | _ \<Rightarrow> oth f)"

definition krlservice :: "(syscall \<Rightarrow> u64 \<Rightarrow> stkparame \<Rightarrow> dst \<Rightarrow> answer) \<Rightarrow> u64 \<Rightarrow> stkparame \<Rightarrow> dst \<Rightarrow> answer" where
  "krlservice oth inr sframe s =
     (if 16 \<le> inr then reports SYSSTUS_ERR s
      else case osservicetab ! unat inr of
          None \<Rightarrow> reports SYSSTUS_ERR s
        | Some f \<Rightarrow> call_service oth f inr sframe s)"

definition hal_syscl_allocator :: "(syscall \<Rightarrow> u64 \<Rightarrow> stkparame \<Rightarrow> dst \<Rightarrow> answer) \<Rightarrow> u64 \<Rightarrow> stkparame \<Rightarrow> dst \<Rightarrow> answer" where
  "hal_syscl_allocator oth inr krnlsframp s = krlservice oth inr krnlsframp s"

end
