(* ===== verification/DevSched.thy ===== *)
theory DevSched
  imports Services SchedSystem RfsSessions
begin

text \<open>
  What the operations of the scheduler leave alone: the handle tables of the threads; and what of the state
  outside the scheduler may change without harm to its invariant.
\<close>

section \<open>The handle tables under the operations of the scheduler\<close>

definition htab :: "kst \<Rightarrow> tid \<Rightarrow> u64 option list option" where
  "htab k t = map_option td_handtbl (threads k t)"

lemma htab_simps [simp]:
  "(\<And>h. td_handtbl (f h) = td_handtbl h) \<Longrightarrow> htab (upd_td t f k) = htab k"
  "htab (upd_lst p g k) = htab k" "htab (upd_wl w v k) = htab k" "htab (set_count w c k) = htab k"
  "htab (k\<lparr>sda_schdflgs := x\<rparr>) = htab k" "htab (k\<lparr>sda_prityidx := y\<rparr>) = htab k" "htab (k\<lparr>sems := z\<rparr>) = htab k"
  "htab (k\<lparr>sda_currtd := u\<rparr>) = htab k" "htab (k\<lparr>tss_rsp0 := q\<rparr>) = htab k" "htab (k\<lparr>cur_mm := m\<rparr>) = htab k"
  "htab (k\<lparr>sda_exitlist := e\<rparr>) = htab k" "htab (k\<lparr>sda_threadnr := e'\<rparr>) = htab k"
  by (auto simp: htab_def fun_eq_iff option.map_comp o_def upd_td_def upd_lst_def upd_wl_def set_count_def)

lemma htab_switched [simp]: "htab (switched t k) = htab k"
  by (auto simp: switched_def split: option.splits)

lemma htab_scheduled [simp]: "htab (scheduled k) = htab k"
  by (auto simp: scheduled_def split: option.splits)

lemma htab_waited [simp]: "htab (waited t p w k) = htab k"
  by (simp add: waited_def)

lemma htab_exited [simp]: "htab (exited t p k) = htab k"
  by (simp add: exited_def)

lemma htab_wake_all [simp]: "htab (wake_all w ts k) = htab k"
  by (induction ts arbitrary: k) (simp_all add: woken_def)

lemma htab_upped [simp]: "htab (upped w k) = htab k"
  by (simp add: upped_def krlsched_set_schedflgs_def)

lemma htab_inc_tick: "krlthd_inc_tick t k = Inr k' \<Longrightarrow> htab k' = htab k"
  by (auto simp: krlthd_inc_tick_def td_def andthen_eq_Inr Let_def krlsched_set_schedflgs_def split: if_splits option.splits)

lemma htab_chkneed:
  assumes "sched_inv k" "krlsched_chkneed_pmptsched k = Inr k'"
  shows "htab k' = htab k"
proof -
  have n: "sda_schdflgs k \<noteq> NEED_START_CPUILDE_SCHED_FLGS" using assms(1) by (simp add: sched_inv_def)
  show ?thesis
  proof (cases "sda_schdflgs k = NEED_SCHED_FLGS \<and> sda_premptidx k = PMPT_FLGS")
    case True
    have "sched_inv (k\<lparr>sda_schdflgs := NOTS_SCHED_FLGS\<rparr>)" using assms(1) by (simp add: sched_inv_def)
    from scheduled_inv [OF this] True assms(2) show ?thesis
      by (auto simp: krlsched_chkneed_pmptsched_def Let_def)
  next
    case False
    with n assms(2) show ?thesis by (auto simp: krlsched_chkneed_pmptsched_def Let_def)
  qed
qed

text \<open>A semaphore more, and a change of a handle table, leave the scheduler's invariant alone.\<close>

lemma sched_inv_new_sem:
  assumes "sched_inv k"
  shows "sched_inv (k\<lparr>sems := sems k @ [krlsem_t_init]\<rparr>)"
proof -
  let ?k = "k\<lparr>sems := sems k @ [krlsem_t_init]\<rparr>"
  note i = sched_invD [OF assms]
  have new: "waiters ?k w = (if w < length (sems k) then waiters k w else [])"
    "count_of ?k w = (if w < length (sems k) then count_of k w else 0)"
    "wl_tdnr (sem_waitlst (sems ?k ! w)) = (if w < length (sems k) then wl_tdnr (sem_waitlst (sems k ! w)) else 0)"
    if "w < length (sems ?k)" for w
    using that by (auto simp: nth_append krlsem_t_init_def kwlst_t_init_def less_Suc_eq)
  have "lists_ok ?k"
    unfolding lists_ok_def
  proof (intro conjI allI impI)
    show "idle_ok ?k"
      using lists_okD(7) [OF i(1)] new(1) unfolding idle_ok_def by (metis (no_types, lifting) empty_iff empty_set
        kst.select_convs(9,11,12,13) kst.surjective kst.update_convs(14))
    show "set (waiters ?k w) \<inter> set (waiters ?k v) = {}"
      if "w < length (sems ?k)" "v < length (sems ?k)" "w \<noteq> v" for w v
    proof (cases "w < length (sems k) \<and> v < length (sems k)")
      case True
      with lists_okD(4) [OF i(1), of w v] new(1) [OF that(1)] new(1) [OF that(2)] that(3) show ?thesis by simp
    next
      case False
      with new(1) [OF that(1)] new(1) [OF that(2)] show ?thesis by auto
    qed
  qed (use lists_okD [OF i(1)] new in \<open>auto simp: ready_ok_def wait_ok_def\<close>)
  moreover have "sems_ok ?k"
    using i(2) new unfolding sems_ok_def lost_wakeup_def by simp
  moreover have "running_ok ?k"
    using i(3) by (simp add: running_ok_def)
  ultimately show ?thesis
    using i(4) by (simp add: sched_inv_def)
qed

lemma sched_inv_htab:
  assumes "sched_inv k" "\<And>h. td_stus (f h) = td_stus h" "\<And>h. td_priority (f h) = td_priority h"
  shows "sched_inv (upd_td t f k)"
proof -
  note i = sched_invD [OF assms(1)]
  have "thr (upd_td t f k) u S P = thr k u S P" for u S P
    using assms(2,3) by (auto simp: thr_def)
  then have "lists_ok (upd_td t f k)"
    by (intro lists_ok_thr [OF i(1)]) auto
  then show ?thesis
    using i by (simp add: sched_inv_def sems_ok_def running_ok_def lost_wakeup_def)
qed

end
