(* ===== verification/DevTable.thy ===== *)
theory DevTable
  imports DevSched
begin

text \<open>
  The device table: its invariant, what a look-up finds, and that entering a device whose identifier is new keeps the
  invariant.
\<close>

section \<open>The invariant of the device table\<close>

definition cls_ok :: "dst \<Rightarrow> nat \<Rightarrow> bool" where
  "cls_ok s t \<longleftrightarrow> dtl_type (cls s t) = of_nat t \<and> dtl_nr (cls s t) = of_nat (length (dtl_list (cls s t))) \<and>
     distinct (dtl_list (cls s t)) \<and>
     (\<forall>p \<in> set (dtl_list (cls s t)). \<exists>d. devices s p = Some d \<and> unat (dev_mtype (dev_id d)) = t \<and> dev_drv d \<noteq> None) \<and>
     inj_on (\<lambda>p. map_option dev_id (devices s p)) (set (dtl_list (cls s t)))"

abbreviation devlist :: "dst \<Rightarrow> u64 list" where
  "devlist s \<equiv> devt_devlist (osdevtable s)"

text \<open>
  Each class lists devices of its type that exist and have a driver, no two with the same identifier; the list of all
  devices is the classes together; every counter is the length of its list.
\<close>

definition tbl_inv :: "dst \<Rightarrow> bool" where
  "tbl_inv s \<longleftrightarrow> length (devt_devclsl (osdevtable s)) = 34 \<and> (\<forall>t < 34. cls_ok s t) \<and> distinct (devlist s) \<and>
     set (devlist s) = (\<Union>t < 34. set (dtl_list (cls s t))) \<and> devt_devnr (osdevtable s) = of_nat (length (devlist s)) \<and>
     distinct (devt_drvlist (osdevtable s)) \<and>
     devt_drvnr (osdevtable s) = of_nat (length (devt_drvlist (osdevtable s)))"

lemma tbl_invD:
  assumes "tbl_inv s"
  shows "length (devt_devclsl (osdevtable s)) = 34" "t < 34 \<Longrightarrow> cls_ok s t" "distinct (devlist s)"
    "set (devlist s) = (\<Union>t < 34. set (dtl_list (cls s t)))" "devt_devnr (osdevtable s) = of_nat (length (devlist s))"
    "distinct (devt_drvlist (osdevtable s))"
    "devt_drvnr (osdevtable s) = of_nat (length (devt_drvlist (osdevtable s)))"
  using assms by (auto simp: tbl_inv_def)

lemma in_devlist:
  assumes "tbl_inv s" "p \<in> set (devlist s)"
  obtains d t where "devices s p = Some d" "t < 34" "unat (dev_mtype (dev_id d)) = t" "p \<in> set (dtl_list (cls s t))"
    "dev_drv d \<noteq> None"
proof -
  from assms(2) obtain t where t: "t < 34" "p \<in> set (dtl_list (cls s t))"
    unfolding tbl_invD(4) [OF assms(1)] by blast
  with tbl_invD(2) [OF assms(1) t(1)] obtain d where "devices s p = Some d" "unat (dev_mtype (dev_id d)) = t" "dev_drv d \<noteq> None"
    unfolding cls_ok_def by blast
  with t show thesis by (intro that)
qed

text \<open>What the invariant reads of the state.\<close>

lemma tbl_inv_cong:
  assumes "osdevtable s' = osdevtable s"
    and "\<And>p. p \<in> set (devlist s) \<Longrightarrow> map_option (\<lambda>d. (dev_id d, dev_drv d)) (devices s' p) =
      map_option (\<lambda>d. (dev_id d, dev_drv d)) (devices s p)"
    and "tbl_inv s"
  shows "tbl_inv s'"
proof -
  have same: "map_option dev_id (devices s' p) = map_option dev_id (devices s p) \<and>
      ((\<exists>d. devices s' p = Some d \<and> unat (dev_mtype (dev_id d)) = t \<and> dev_drv d \<noteq> None) \<longleftrightarrow>
       (\<exists>d. devices s p = Some d \<and> unat (dev_mtype (dev_id d)) = t \<and> dev_drv d \<noteq> None))"
    if "p \<in> set (devlist s)" for p t
    using assms(2) [OF that] by (cases "devices s p"; cases "devices s' p") auto
  have "cls_ok s' t" if t: "t < 34" for t
  proof -
    have sub: "set (dtl_list (cls s t)) \<subseteq> set (devlist s)"
      using t tbl_invD(4) [OF assms(3)] by blast
    have "inj_on (\<lambda>p. map_option dev_id (devices s' p)) (set (dtl_list (cls s t))) \<longleftrightarrow>
        inj_on (\<lambda>p. map_option dev_id (devices s p)) (set (dtl_list (cls s t)))"
      by (rule inj_on_cong) (use sub same in blast)
    with tbl_invD(2) [OF assms(3) t] show ?thesis
      unfolding cls_ok_def assms(1) using sub same by blast
  qed
  with assms(3) show ?thesis
    by (simp add: tbl_inv_def assms(1))
qed

section \<open>Looking a device up\<close>

lemma krlcmp_devid_iff: "krlcmp_devid a b \<longleftrightarrow> a = b"
  by (cases a, cases b) (simp add: krlcmp_devid_def)

lemma find_devid_ok:
  assumes "\<forall>p \<in> set ps. devices s p \<noteq> None"
  shows "find_devid s i ps = Inr (find (\<lambda>p. map_option dev_id (devices s p) = Some i) ps)"
  using assms
proof (induction ps)
  case (Cons p ps)
  then obtain d where "devices s p = Some d" by auto
  with Cons show ?case by (auto simp: at_def krlcmp_devid_iff)
qed simp

text \<open>The device with an identifier, if the table has one.\<close>

definition device_named :: "dst \<Rightarrow> devid \<Rightarrow> u64 \<Rightarrow> bool" where
  "device_named s i p \<longleftrightarrow> p \<in> set (devlist s) \<and> map_option dev_id (devices s p) = Some i"

lemma device_named_cls:
  assumes "tbl_inv s"
  shows "device_named s i p \<longleftrightarrow> unat (dev_mtype i) < 34 \<and> p \<in> set (dtl_list (cls s (unat (dev_mtype i)))) \<and>
    map_option dev_id (devices s p) = Some i"
proof
  assume n: "device_named s i p"
  then have "p \<in> set (devlist s)" by (simp add: device_named_def)
  with assms show "unat (dev_mtype i) < 34 \<and> p \<in> set (dtl_list (cls s (unat (dev_mtype i)))) \<and>
    map_option dev_id (devices s p) = Some i"
    using n by (elim in_devlist) (auto simp: device_named_def)
qed (use tbl_invD(4) [OF assms] in \<open>auto simp: device_named_def\<close>)

lemma device_named_unique:
  assumes "tbl_inv s" "device_named s i p" "device_named s i q"
  shows "p = q"
  using assms(2,3) tbl_invD(2) [OF assms(1), of "unat (dev_mtype i)"]
  unfolding device_named_cls [OF assms(1)] cls_ok_def by (metis (no_types, lifting) inj_onD)

lemma cls_live: "cls_ok s t \<Longrightarrow> \<forall>p \<in> set (dtl_list (cls s t)). devices s p \<noteq> None"
  by (auto simp: cls_ok_def)

lemma cls_type:
  assumes "tbl_inv s" "unat m < 34"
  shows "dtl_type (cls s (unat m)) = m"
proof -
  have "dtl_type (cls s (unat m)) = of_nat (unat m)"
    using tbl_invD(2) [OF assms] unfolding cls_ok_def by blast
  then show ?thesis by (simp only: of_nat_unat ucast_id)
qed

lemma retn_device_ok:
  assumes "tbl_inv s"
  shows "\<exists>f. krlonidfl_retn_device (Some i) DIDFIL_IDN s = Inr f \<and>
    (case f of None \<Rightarrow> \<forall>p. \<not> device_named s i p | Some p \<Rightarrow> device_named s i p)"
proof (cases "unat (dev_mtype i) < 34")
  case False
  then show ?thesis
    using device_named_cls [OF assms] by (intro exI [of _ None]) (simp add: krlonidfl_retn_device_def Let_def)
next
  case True
  let ?l = "dtl_list (cls s (unat (dev_mtype i)))"
  define P where "P = (\<lambda>p. map_option dev_id (devices s p) = Some i)"
  have r: "krlonidfl_retn_device (Some i) DIDFIL_IDN s = Inr (find P ?l)"
    using True cls_type [OF assms True] find_devid_ok [OF cls_live [OF tbl_invD(2) [OF assms True]]]
    by (simp add: krlonidfl_retn_device_def Let_def P_def)
  have n: "device_named s i p \<longleftrightarrow> p \<in> set ?l \<and> P p" for p
    using True device_named_cls [OF assms] by (simp add: P_def)
  show ?thesis
    using r n by (cases "find P ?l") (auto simp: find_None_iff find_Some_iff)
qed

lemma retn_device_found:
  assumes "tbl_inv s" "device_named s i p"
  shows "krlonidfl_retn_device (Some i) DIDFIL_IDN s = Inr (Some p)"
proof -
  from retn_device_ok [OF assms(1), of i] obtain f where
    f: "krlonidfl_retn_device (Some i) DIDFIL_IDN s = Inr f"
    "case f of None \<Rightarrow> \<forall>p. \<not> device_named s i p | Some p \<Rightarrow> device_named s i p" by blast
  with assms device_named_unique show ?thesis by (cases f) auto
qed

section \<open>Entering a device\<close>

definition entered :: "u64 \<Rightarrow> nat \<Rightarrow> dst \<Rightarrow> dst" where
  "entered p t s = upd_table (\<lambda>d. d\<lparr>devt_devlist := p # devt_devlist d, devt_devnr := devt_devnr d + 1\<rparr>)
     (upd_cls t (\<lambda>l. l\<lparr>dtl_list := p # dtl_list l, dtl_nr := dtl_nr l + 1\<rparr>) s)"

lemma entered_fields [simp]:
  "devices (entered p t s) = devices s" "devlist (entered p t s) = p # devlist s" "sk (entered p t s) = sk s"
  "drivers (entered p t s) = drivers s" "objnodes (entered p t s) = objnodes s"
  "devt_drvlist (osdevtable (entered p t s)) = devt_drvlist (osdevtable s)"
  by (simp_all add: entered_def upd_table_def upd_cls_def)

lemma cls_entered:
  "length (devt_devclsl (osdevtable s)) = 34 \<Longrightarrow> t < 34 \<Longrightarrow> cls (entered p t s) u =
    (if u = t then (cls s t)\<lparr>dtl_list := p # dtl_list (cls s t), dtl_nr := dtl_nr (cls s t) + 1\<rparr> else cls s u)"
  by (simp add: entered_def upd_table_def upd_cls_def)

lemma krlnew_device_ok:
  assumes inv: "tbl_inv s" and d: "devices s p = Some d" "dev_drv d \<noteq> None"
    and t: "unat (dev_mtype (dev_id d)) < 34"
  shows "\<exists>q. device_named s (dev_id d) q \<Longrightarrow> krlnew_device (Some p) s = Inr (DFCERRSTUS, s)"
    and "\<forall>q. \<not> device_named s (dev_id d) q \<Longrightarrow>
      krlnew_device (Some p) s = Inr (DFCOKSTUS, entered p (unat (dev_mtype (dev_id d))) s) \<and>
      tbl_inv (entered p (unat (dev_mtype (dev_id d))) s)"
proof -
  let ?t = "unat (dev_mtype (dev_id d))" let ?l = "dtl_list (cls s ?t)"
  let ?P = "\<lambda>p. map_option dev_id (devices s p) = Some (dev_id d)"
  note f = find_devid_ok [OF cls_live [OF tbl_invD(2) [OF inv t]], of "dev_id d"]
  note ty = cls_type [OF inv t]
  note n = device_named_cls [OF inv, of "dev_id d"]
  show "krlnew_device (Some p) s = Inr (DFCERRSTUS, s)" if "\<exists>q. device_named s (dev_id d) q"
  proof -
    have "find ?P ?l \<noteq> None" using that n by (auto simp: find_None_iff)
    with d t ty f show ?thesis by (simp add: krlnew_device_def at_def Let_def)
  qed
  assume none: "\<forall>q. \<not> device_named s (dev_id d) q"
  have fn: "find ?P ?l = None" using none n t by (auto simp: find_None_iff)
  have no: "Some (dev_id d) \<notin> (\<lambda>p. map_option dev_id (devices s p)) ` (set ?l - {p})"
  proof
    assume "Some (dev_id d) \<in> (\<lambda>p. map_option dev_id (devices s p)) ` (set ?l - {p})"
    then obtain q where "q \<in> set ?l" "map_option dev_id (devices s q) = Some (dev_id d)" by force
    then have "device_named s (dev_id d) q" unfolding n using t by blast
    with none show False by blast
  qed
  have nin: "p \<notin> set (devlist s)" using none d(1) by (auto simp: device_named_def)
  have "krlnew_device (Some p) s = Inr (DFCOKSTUS, entered p ?t s)"
    using d t ty f fn nin by (simp add: krlnew_device_def at_def Let_def entered_def)
  moreover have "tbl_inv (entered p ?t s)"
    unfolding tbl_inv_def
  proof (intro conjI allI impI)
    note len = tbl_invD(1) [OF inv]
    note c = cls_entered [OF len t, of p]
    show "length (devt_devclsl (osdevtable (entered p ?t s))) = 34"
      using len by (simp add: entered_def upd_table_def upd_cls_def)
    show "set (devlist (entered p ?t s)) = (\<Union>u < 34. set (dtl_list (cls (entered p ?t s) u)))"
    proof -
      have "(\<Union>u < 34. set (dtl_list (cls (entered p ?t s) u))) = insert p (\<Union>u < 34. set (dtl_list (cls s u)))"
        using t unfolding c by (auto split: if_splits)
      then show ?thesis using tbl_invD(4) [OF inv] by simp
    qed
    show "cls_ok (entered p ?t s) u" if u: "u < 34" for u
    proof (cases "u = ?t")
      case False
      with c tbl_invD(2) [OF inv u] show ?thesis by (simp add: cls_ok_def)
    next
      case True
      have "p \<notin> set ?l" using nin tbl_invD(4) [OF inv] t by auto
      moreover have "inj_on (\<lambda>p. map_option dev_id (devices s p)) (insert p (set ?l))"
        using tbl_invD(2) [OF inv t] no d(1) by (simp add: cls_ok_def)
      ultimately show ?thesis
        using True c tbl_invD(2) [OF inv t] d by (simp add: cls_ok_def)
    qed
  qed (use nin tbl_invD [OF inv] in \<open>simp_all add: entered_def upd_table_def upd_cls_def\<close>)
  ultimately show "krlnew_device (Some p) s = Inr (DFCOKSTUS, entered p ?t s) \<and> tbl_inv (entered p ?t s)" by blast
qed

lemma device_named_entered:
  "devices s p = Some d \<Longrightarrow> dev_id d = i \<Longrightarrow> device_named (entered p t s) j q \<longleftrightarrow> device_named s j q \<or> (q = p \<and> j = i)"
  by (auto simp: device_named_def)

text \<open>\<open>krlnew_devid\<close> gives the largest number in use.\<close>

lemma max_devnr_ok:
  assumes "\<forall>p \<in> set ps. devices s p \<noteq> None"
  shows "\<exists>m. max_devnr s ps k = Inr m \<and> k \<le> m \<and> (m = k \<or> (\<exists>p \<in> set ps. \<exists>d. devices s p = Some d \<and> dev_nr (dev_id d) = m)) \<and>
    (\<forall>p \<in> set ps. \<forall>d. devices s p = Some d \<longrightarrow> dev_nr (dev_id d) \<le> m)"
  using assms
proof (induction ps arbitrary: k)
  case (Cons p ps)
  then obtain d where d: "devices s p = Some d" by auto
  let ?k = "if k < dev_nr (dev_id d) then dev_nr (dev_id d) else k"
  have "\<forall>p \<in> set ps. devices s p \<noteq> None" using Cons.prems by simp
  from Cons.IH [OF this, of ?k] obtain m where m: "max_devnr s ps ?k = Inr m" "?k \<le> m"
    "m = ?k \<or> (\<exists>p \<in> set ps. \<exists>d. devices s p = Some d \<and> dev_nr (dev_id d) = m)"
    "\<forall>p \<in> set ps. \<forall>d. devices s p = Some d \<longrightarrow> dev_nr (dev_id d) \<le> m" by blast
  have "k \<le> ?k" "dev_nr (dev_id d) \<le> ?k" by auto
  then have "k \<le> m" "dev_nr (dev_id d) \<le> m" using m(2) by (meson order_trans)+
  with m d show ?case
    by (intro exI [of _ m]) (auto simp: at_def split: if_splits)
qed simp

lemma krlnew_devid_ok:
  assumes inv: "tbl_inv s" and t: "unat (dev_mtype i) < 34" and l: "dtl_list (cls s (unat (dev_mtype i))) \<noteq> []"
  obtains m p d where "krlnew_devid i s = Inr (DFCOKSTUS, i\<lparr>dev_nr := m\<rparr>)" "p \<in> set (dtl_list (cls s (unat (dev_mtype i))))"
    "devices s p = Some d" "dev_nr (dev_id d) = m"
    "\<And>q e. q \<in> set (dtl_list (cls s (unat (dev_mtype i)))) \<Longrightarrow> devices s q = Some e \<Longrightarrow> dev_nr (dev_id e) \<le> m"
proof -
  let ?l = "dtl_list (cls s (unat (dev_mtype i)))"
  note live = cls_live [OF tbl_invD(2) [OF inv t]]
  from max_devnr_ok [OF live, of 0] obtain m where m: "max_devnr s ?l 0 = Inr m"
    "m = 0 \<or> (\<exists>p \<in> set ?l. \<exists>d. devices s p = Some d \<and> dev_nr (dev_id d) = m)"
    "\<forall>p \<in> set ?l. \<forall>d. devices s p = Some d \<longrightarrow> dev_nr (dev_id d) \<le> m" by blast
  have r: "krlnew_devid i s = Inr (DFCOKSTUS, i\<lparr>dev_nr := m\<rparr>)"
    using t l m(1) cls_type [OF inv t] by (simp add: krlnew_devid_def Let_def)
  have "\<exists>p \<in> set ?l. \<exists>d. devices s p = Some d \<and> dev_nr (dev_id d) = m"
  proof (cases "m = 0")
    case True
    from l live obtain p d where "p \<in> set ?l" "devices s p = Some d" by (metis hd_in_set option.exhaust)
    with True m(3) show ?thesis by (metis word_le_0_iff)
  qed (use m(2) in blast)
  then obtain p d where "p \<in> set ?l" "devices s p = Some d" "dev_nr (dev_id d) = m" by blast
  with r m(3) show thesis by (intro that) blast+
qed

end
