(* ===== verification/DevCalls.thy ===== *)
theory DevCalls
  imports DevTable RfsRefuse
begin

text \<open>
  Calls of the drivers: what each operation of the file system driver does on any packet, the contract of a driver as the
  locale \<open>device_driver\<close>, and the proof that the three drivers keep it.
\<close>


section \<open>Operations of the file system driver on any packet\<close>

lemma block_put:
  assumes inv: "fs_inv n R r ents" and b: "fil_ok blk b" "2 \<le> b" "b < n" "b \<noteq> R"
  shows "fs_inv n R (r\<lparr>rde_mem := (rde_mem r)(b := blk)\<rparr>) ents"
proof (cases "b \<in> snd ` set (entries ents)")
  case True
  with file_block_update(1) [OF inv _ b(1)] show ?thesis by fastforce
next
  case False
  let ?r = "r\<lparr>rde_mem := (rde_mem r)(b := blk)\<rparr>"
  show ?thesis
  proof (rule fs_invI)
    show "sb_ok n R ?r" using fs_invD(1) [OF inv] b by simp
    show "file_ok n R ?r e" if "e \<in> set (entries ents)" for e
    proof -
      have "snd e \<noteq> b" using False that by force
      with fs_invD(7) [OF inv that] b show ?thesis by (simp add: file_ok_def)
    qed
  qed (use fs_invD(2-6) [OF inv] b in simp_all)
qed

text \<open>What \<open>on_finode\<close> of an open file points at: a block of the device that holds a file.\<close>

definition file_node :: "nat \<Rightarrow> nat \<Rightarrow> fnode \<Rightarrow> bool" where
  "file_node n R f \<longleftrightarrow> (\<exists>blk b. f = Node blk \<and> fil_ok blk b \<and> 2 \<le> b \<and> b < n \<and> b \<noteq> R)"

definition fs_of :: "nat \<Rightarrow> nat \<Rightarrow> nat \<Rightarrow> rfs \<Rightarrow> bool" where
  "fs_of n R c r \<longleftrightarrow> krl_live r = c \<and> (\<exists>ents. fs_inv n R r ents)"

definition named :: "path \<Rightarrow> bool" where
  "named p \<longleftrightarrow> (\<exists>nm. path_to nm p \<and> nm_ok nm)"

text \<open>The packets the driver answers without running out of a memory.\<close>

definition fair_packet :: "nat \<Rightarrow> objnode \<Rightarrow> bool" where
  "fair_packet code pk \<longleftrightarrow> (code = 0 \<and> on_acsflgs pk \<in> {1, 2} \<longrightarrow> named (on_fname pk)) \<and> (code = 5 \<and> on_ioctrd pk = 5 \<longrightarrow> named (on_fname pk)) \<and>
     (code = 3 \<longrightarrow> unat (on_len pk) < 2 ^ 63)"

definition rfs_fun :: "nat \<Rightarrow> rfs \<Rightarrow> objnode \<Rightarrow> (int \<times> objnode \<times> rfs) run" where
  "rfs_fun code = (if code = 0 then rfs_open else if code = 1 then rfs_close else if code = 2 then rfs_read
     else if code = 3 then rfs_write else rfs_ioctrl)"

text \<open>The calls that ask for buffers, and what the others do whatever the answers would be.\<close>

definition takes_buffers :: "nat \<Rightarrow> objnode \<Rightarrow> bool" where
  "takes_buffers code pk \<longleftrightarrow> code = 0 \<and> on_acsflgs pk \<in> {1, 2} \<or> code = 5 \<and> on_ioctrd pk = 5"

lemma rfs_fun_lend:
  assumes "code \<in> {0, 1, 2, 3, 5}" "\<not> takes_buffers code pk"
  shows "rfs_fun code (lend g r) pk = andthen (rfs_fun code r pk) (\<lambda>(st, pk, r). Inr (st, pk, lend g r))"
  using assms close_lend read_lend write_file_lend
  by (auto simp: rfs_fun_def takes_buffers_def rfs_open_def rfs_ioctrl_def)

lemma rfs_fun_lent:
  assumes code: "code \<in> {0, 1, 2, 3, 5}" and t: "takes_buffers code pk \<longrightarrow> g = []" and r: "krl_grants r = []" "krl_grants r' = []"
    and f: "rfs_fun code r pk = Inr (st, pk', r')"
  shows "rfs_fun code (lend g r) pk = Inr (st, pk', lend g r')"
proof (cases "takes_buffers code pk")
  case False
  with rfs_fun_lend [OF code] f show ?thesis by simp
next
  case True
  from True t have "g = []" by simp
  with lend_granted [OF r(1)] lend_granted [OF r(2)] f show ?thesis by simp
qed

text \<open>How many files more are open after the call.\<close>

definition files_after :: "nat \<Rightarrow> int option \<Rightarrow> u64 \<Rightarrow> nat \<Rightarrow> nat" where
  "files_after code st acs c = (if code = 0 \<and> st = Some DFCOKSTUS \<and> acs = 2 then Suc c
     else if code = 1 \<and> st = Some DFCOKSTUS then c - 1 else c)"

definition node_after :: "nat \<Rightarrow> nat \<Rightarrow> nat \<Rightarrow> int \<Rightarrow> objnode \<Rightarrow> fnode \<Rightarrow> bool" where
  "node_after n R code st pk f \<longleftrightarrow>
     (if code = 0 then if st = DFCOKSTUS \<and> on_acsflgs pk = 2 then file_node n R f else f = on_finode pk
      else if code = 1 then True else file_node n R f)"

lemma rfs_open_any:
  assumes fs: "fs_of n R c r" and nm: "on_acsflgs pk \<in> {1, 2} \<Longrightarrow> named (on_fname pk)"
  shows "\<exists>st f r'. rfs_open r pk = Inr (st, pk\<lparr>on_finode := f\<rparr>, r') \<and> st \<in> {DFCOKSTUS, DFCERRSTUS} \<and>
    fs_of n R (files_after 0 (Some st) (on_acsflgs pk) c) r' \<and> node_after n R 0 st pk f"
proof -
  from fs obtain ents where inv: "fs_inv n R r ents" and l: "krl_live r = c" by (auto simp: fs_of_def)
  consider "on_acsflgs pk = 2" | "on_acsflgs pk = 1" | "on_acsflgs pk \<noteq> 2" "on_acsflgs pk \<noteq> 1" by blast
  then show ?thesis
  proof cases
    case 1
    with nm obtain nm where p: "path_to nm (on_fname pk)" "nm_ok nm" by (auto simp: named_def)
    then have pn: "on_fname pk \<noteq> None" by (auto simp: path_to_def)
    show ?thesis
    proof (cases "fs_files r ents nm = None")
      case True
      with rfs_openfileblk_ok(1) [OF inv p] pn 1 have "rfs_open r pk = Inr (DFCERRSTUS, pk, r)"
        by (simp add: rfs_open_def rfs_open_file_def)
      with fs show ?thesis
        by (intro exI [of _ DFCERRSTUS] exI [of _ "on_finode pk"] exI [of _ r]) (simp add: files_after_def node_after_def)
    next
      case False
      with rfs_openfileblk_ok(2) [OF inv p] obtain b where b: "(nm, b) \<in> set (entries ents)"
        "rfs_openfileblk r (on_fname pk) = Inr (Some (rde_mem r b), bump r)" by blast
      from fs_invD(7) [OF inv b(1)] have "file_node n R (Node (rde_mem r b))"
        by (auto simp: file_node_def file_ok_def)
      with b(2) pn 1 inv l show ?thesis
        by (intro exI [of _ DFCOKSTUS] exI [of _ "Node (rde_mem r b)"] exI [of _ "bump r"])
          (auto simp: rfs_open_def rfs_open_file_def files_after_def node_after_def fs_of_def)
    qed
  next
    case 2
    with nm obtain nm where p: "path_to nm (on_fname pk)" "nm_ok nm" by (auto simp: named_def)
    have go: "\<exists>st f r'. rfs_open r pk = Inr (st, pk\<lparr>on_finode := f\<rparr>, r') \<and> st \<in> {DFCOKSTUS, DFCERRSTUS} \<and>
      fs_of n R (files_after 0 (Some st) (on_acsflgs pk) c) r' \<and> node_after n R 0 st pk f"
      if "rfs_new_file r (on_fname pk) = Inr (st, r')" "st \<in> {DFCOKSTUS, DFCERRSTUS}" "fs_of n R c r'" for st r'
      using that 2 by (intro exI [of _ st] exI [of _ "on_finode pk"] exI [of _ r'])
        (simp add: rfs_open_def files_after_def node_after_def)
    from inv p show ?thesis
    proof (cases rule: new_file_cases)
      case (new k)
      then show ?thesis
        using created_inv [OF inv p(2) new(1-3)] l by (intro go) (auto simp: fs_of_def)
    next
      case same
      then show ?thesis using fs by (intro go) auto
    next
      case (leak k)
      then show ?thesis
        using leak_inv(1) [OF inv leak(1)] l by (intro go) (auto simp: fs_of_def)
    qed
  next
    case 3
    with fs show ?thesis
      by (intro exI [of _ DFCERRSTUS] exI [of _ "on_finode pk"] exI [of _ r])
        (simp add: rfs_open_def files_after_def node_after_def)
  qed
qed

lemma rfs_close_any:
  assumes fs: "fs_of n R (Suc c) r" and nd: "file_node n R (on_finode pk)"
  shows "\<exists>r'. rfs_close r pk = Inr (DFCOKSTUS, pk\<lparr>on_finode := Freed\<rparr>, r') \<and> fs_of n R c r'"
proof -
  from fs obtain ents where inv: "fs_inv n R r ents" and l: "krl_live r = Suc c" by (auto simp: fs_of_def)
  from nd obtain blk b where b: "on_finode pk = Node blk" "fil_ok blk b" "2 \<le> b" "b < n" "b \<noteq> R"
    by (auto simp: file_node_def)
  note sb = sb_okD [OF fs_invD(1) [OF inv]]
  let ?r = "r\<lparr>rde_mem := (rde_mem r)(b := blk)\<rparr>"
  have "fs_inv n R ?r ents" by (rule block_put [OF inv b(2-5)])
  then have "fs_of n R c (?r\<lparr>krl_live := c\<rparr>)" by (auto simp: fs_of_def)
  moreover have "rfs_closefileblk r blk = Inr (DFCOKSTUS, ?r\<lparr>krl_live := c\<rparr>)"
    using rfs_closefileblk_ok [OF sb(1) b(2,4) sb(6) l] by simp
  ultimately show ?thesis
    using b(1) by (simp add: rfs_close_def rfs_close_file_def)
qed

lemma rfs_read_any:
  assumes nd: "file_node n R (on_finode pk)"
  shows "\<exists>st b. rfs_read r pk = Inr (st, pk\<lparr>on_buf := b\<rparr>, r) \<and> st \<in> {DFCOKSTUS, DFCERRSTUS}"
proof -
  from nd obtain blk b where b: "on_finode pk = Node blk" "fil_ok blk b" by (auto simp: file_node_def)
  show ?thesis
  proof (cases "on_buf pk")
    case None
    with b(1) show ?thesis by (intro exI [of _ DFCERRSTUS] exI [of _ None]) (simp add: rfs_read_def rfs_read_file_def)
  next
    case (Some buf)
    show ?thesis
    proof (cases "on_bufsz pk = 4096")
      case False
      with b(1) Some show ?thesis
        by (intro exI [of _ DFCERRSTUS] exI [of _ "Some buf"]) (simp add: rfs_read_def rfs_read_file_def)
    next
      case True
      have "\<exists>st b'. rfs_readfileblk blk buf (on_len pk) = Inr (st, b') \<and> st \<in> {DFCOKSTUS, DFCERRSTUS}"
        using rfs_readfileblk_ok [OF b(2), of "on_len pk" buf] rfs_readfileblk_long [OF b(2), of "on_len pk" buf]
        by (cases "unat (on_len pk) \<le> 3584") (simp_all add: not_le)
      then obtain st b' where "rfs_readfileblk blk buf (on_len pk) = Inr (st, b')" "st \<in> {DFCOKSTUS, DFCERRSTUS}" by blast
      with b(1) Some True show ?thesis
        by (intro exI [of _ st] exI [of _ "Some b'"]) (simp add: rfs_read_def rfs_read_file_def)
    qed
  qed
qed

lemma rfs_write_any:
  assumes fs: "fs_of n R c r" and nd: "file_node n R (on_finode pk)" and len: "unat (on_len pk) < 2 ^ 63"
  shows "\<exists>st f r'. rfs_write r pk = Inr (st, pk\<lparr>on_finode := f\<rparr>, r') \<and> st \<in> {DFCOKSTUS, DFCERRSTUS} \<and>
    fs_of n R c r' \<and> file_node n R f"
proof -
  from fs obtain ents where inv: "fs_inv n R r ents" and l: "krl_live r = c" by (auto simp: fs_of_def)
  from nd obtain blk b where b: "on_finode pk = Node blk" "fil_ok blk b" "2 \<le> b" "b < n" "b \<noteq> R"
    by (auto simp: file_node_def)
  note sb = sb_okD [OF fs_invD(1) [OF inv]]
  show ?thesis
  proof (cases "on_buf pk = None \<or> on_bufsz pk \<noteq> 4096")
    case True
    with b(1) fs nd show ?thesis
      by (intro exI [of _ DFCERRSTUS] exI [of _ "on_finode pk"] exI [of _ r]) (auto simp: rfs_write_def rfs_write_file_def split: option.splits)
  next
    case False
    then obtain buf where buf: "on_buf pk = Some buf" "on_bufsz pk = 4096" by auto
    show ?thesis
    proof (cases "unat (ld64 blk 64) + unat (on_len pk) < 3584")
      case True
      let ?a = "appended blk buf (on_len pk)"
      note ap = appended_ok(1) [OF b(2) True, of buf]
      have "fs_of n R c (r\<lparr>rde_mem := (rde_mem r)(b := ?a)\<rparr>)"
        using block_put [OF inv ap b(3-5)] l by (auto simp: fs_of_def)
      moreover have "file_node n R (Node ?a)" using ap b by (auto simp: file_node_def)
      ultimately show ?thesis
        using rfs_writefileblk_ok [OF sb(1) b(2,4) sb(6) True, of buf] b(1) buf
        by (intro exI [of _ DFCOKSTUS] exI [of _ "Node ?a"] exI [of _ "r\<lparr>rde_mem := (rde_mem r)(b := ?a)\<rparr>"])
          (simp add: rfs_write_def rfs_write_file_def)
    next
      case False
      with rfs_writefileblk_full [OF b(2) _ len, of r buf] b(1) buf fs nd show ?thesis
        by (intro exI [of _ DFCERRSTUS] exI [of _ "on_finode pk"] exI [of _ r])
          (simp add: rfs_write_def rfs_write_file_def not_less)
    qed
  qed
qed

lemma rfs_ioctrl_any:
  assumes fs: "fs_of n R c r" and nm: "on_ioctrd pk = 5 \<longrightarrow> named (on_fname pk)"
  shows "\<exists>st r'. rfs_ioctrl r pk = Inr (st, pk, r') \<and> st \<in> {DFCOKSTUS, DFCERRSTUS} \<and> fs_of n R c r'"
proof (cases "on_ioctrd pk = 5")
  case False
  with fs show ?thesis by (intro exI [of _ DFCERRSTUS] exI [of _ r]) (simp add: rfs_ioctrl_def)
next
  case True
  from fs obtain ents where inv: "fs_inv n R r ents" and l: "krl_live r = c" by (auto simp: fs_of_def)
  from nm True obtain nm where p: "path_to nm (on_fname pk)" "nm_ok nm" by (auto simp: named_def)
  show ?thesis
  proof (cases "fs_files r ents nm = None")
    case True
    with rfs_del_file_ok(1) [OF inv p] fs \<open>on_ioctrd pk = 5\<close> show ?thesis
      by (intro exI [of _ DFCERRSTUS] exI [of _ r]) (simp add: rfs_ioctrl_def)
  next
    case False
    with rfs_del_file_ok(2) [OF inv p] obtain t b where t: "t < length ents" "ents ! t = Some (nm, b)"
      "rfs_del_file r (on_fname pk) 0 = Inr (DFCOKSTUS, deleted R r t b)" by blast
    with deleted_inv(1) [OF inv t(1,2)] l \<open>on_ioctrd pk = 5\<close> show ?thesis
      by (intro exI [of _ DFCOKSTUS] exI [of _ "deleted R r t b"]) (auto simp: rfs_ioctrl_def fs_of_def)
  qed
qed

section \<open>What the kernel relies on when it calls a driver\<close>

text \<open>
  The effect of a call for the object \<open>a\<close> on the device \<open>p\<close>: the device keeps its identifier and driver, the object
  changes in \<open>on_finode\<close>, the caller may have been put to sleep, its memory and the screen written; nothing else.
\<close>

definition effect :: "u64 \<Rightarrow> u64 \<Rightarrow> device \<Rightarrow> fnode \<Rightarrow> dst \<Rightarrow> dst \<Rightarrow> bool" where
  "effect p a d' f s s' \<longleftrightarrow> (\<exists>d ob. devices s p = Some d \<and> objnodes s a = Some ob \<and>
     s' = s\<lparr>sk := sk s', devices := (devices s)(p \<mapsto> d'), objnodes := (objnodes s)(a \<mapsto> ob\<lparr>on_finode := f\<rparr>),
       umem := umem s', screen := screen s'\<rparr> \<and> dev_id d' = dev_id d \<and> dev_drv d' = dev_drv d) \<and>
     sched_inv (sk s') \<and> length (sems (sk s')) = length (sems (sk s)) \<and> htab (sk s') = htab (sk s)"

definition fileops :: "nat set" where
  "fileops = {0, 1, 2, 3, 5}"

text \<open>
  The contract of a driver with the dispatch table \<open>tab\<close>. \<open>ext\<close> is what it keeps of its device's data, given the number
  of semaphores and of files open on it; \<open>node\<close> what it keeps of an open object; \<open>fair\<close> are the requests it is made for.
\<close>

locale device_driver =
  fixes tab :: "drivcallfun list"
    and ext :: "nat \<Rightarrow> nat \<Rightarrow> devext \<Rightarrow> bool"
    and node :: "fnode \<Rightarrow> bool"
    and fair :: "nat \<Rightarrow> dst \<Rightarrow> kobj \<Rightarrow> bool"
  assumes tab_len: "length tab = 12"
    and serves: "sched_inv (sk s) \<Longrightarrow> devices s p = Some d \<Longrightarrow> objnodes s a = Some ob \<Longrightarrow>
      ext (length (sems (sk s))) c (dev_extdata d) \<Longrightarrow> code \<in> fileops \<Longrightarrow> on_opercode ob = int code \<Longrightarrow>
      (code \<noteq> 0 \<longrightarrow> node (on_finode ob) \<and> 0 < c) \<Longrightarrow> fair code s ob \<Longrightarrow>
      \<exists>st s' d' f. call_dipfun (tab ! code) p (Some a) s = Inr (st, s') \<and> effect p a d' f s s' \<and>
        st \<in> {Some DFCOKSTUS, Some DFCERRSTUS, None} \<and> (st = None \<longrightarrow> code = 2) \<and>
        ext (length (sems (sk s))) (files_after code st (on_acsflgs ob) c) (dev_extdata d') \<and>
        (code \<noteq> 0 \<and> \<not> (code = 1 \<and> st = Some DFCOKSTUS) \<longrightarrow> node f) \<and>
        (code = 0 \<and> st = Some DFCOKSTUS \<and> on_acsflgs ob = 2 \<longrightarrow> node f)"
begin

text \<open>A request through an object of the kernel, by \<open>krldev_io\<close> and the service above it.\<close>

lemma device_io:
  assumes inv: "sched_inv (sk s)" and d: "devices s p = Some d" "dev_drv d = Some rp" "drivers s rp = Some r" "drv_dipfun r = tab"
    and ob: "objnodes s a = Some ob" "on_objtype ob \<in> {OBJN_TY_DEV, OBJN_TY_FIL}" "on_objadr ob = Some p"
    and e: "ext (length (sems (sk s))) c (dev_extdata d)" and code: "code \<in> fileops" "on_opercode ob = int code"
    and nd: "code \<noteq> 0 \<longrightarrow> node (on_finode ob) \<and> 0 < c" and fair: "fair code s ob"
  shows "\<exists>st s' d' f. krlsve_device a s = Inr (map_option (\<lambda>v. if v = DFCERRSTUS then SYSSTUS_ERR else SYSSTUS_OK) st, s') \<and>
        effect p a d' f s s' \<and> st \<in> {Some DFCOKSTUS, Some DFCERRSTUS, None} \<and> (st = None \<longrightarrow> code = 2) \<and>
        ext (length (sems (sk s))) (files_after code st (on_acsflgs ob) c) (dev_extdata d') \<and>
        (code \<noteq> 0 \<and> \<not> (code = 1 \<and> st = Some DFCOKSTUS) \<longrightarrow> node f) \<and>
        (code = 0 \<and> st = Some DFCOKSTUS \<and> on_acsflgs ob = 2 \<longrightarrow> node f)"
proof -
  from serves [OF inv d(1) ob(1) e code nd fair] obtain st s' d' f where
    c: "call_dipfun (tab ! code) p (Some a) s = Inr (st, s')" and rest: "effect p a d' f s s'"
      "st \<in> {Some DFCOKSTUS, Some DFCERRSTUS, None}" "st = None \<longrightarrow> code = 2"
      "ext (length (sems (sk s))) (files_after code st (on_acsflgs ob) c) (dev_extdata d')"
      "code \<noteq> 0 \<and> \<not> (code = 1 \<and> st = Some DFCOKSTUS) \<longrightarrow> node f"
      "code = 0 \<and> st = Some DFCOKSTUS \<and> on_acsflgs ob = 2 \<longrightarrow> node f" by blast
  have "code < 12" using code(1) by (auto simp: fileops_def)
  then have "krldev_io a s = Inr (st, s')"
    using c d ob code(2) by (auto simp: krldev_io_def krldev_call_driver_def at_def)
  then have "krlsve_device a s = Inr (map_option (\<lambda>v. if v = DFCERRSTUS then SYSSTUS_ERR else SYSSTUS_OK) st, s')"
    using ob by (cases st) (simp_all add: krlsve_device_def at_def then_if_back_def reports_def)
  with rest show ?thesis by blast
qed

end

section \<open>The three drivers keep the contract\<close>

lemma effect_same:
  assumes "devices s p = Some d" "objnodes s a = Some ob" "sched_inv (sk s)"
  shows "effect p a d (on_finode ob) s s"
  using assms by (auto simp: effect_def fun_upd_idem)

lemma effect_dev:
  assumes "devices s p = Some d" "objnodes s a = Some ob" "sched_inv (sk s)" "dev_id (g d) = dev_id d" "dev_drv (g d) = dev_drv d"
  shows "effect p a (g d) (on_finode ob) s (upd_dev p g s)"
  using assms by (auto simp: effect_def upd_dev_def fun_upd_idem)

lemma inc_effect:
  assumes "devices s p = Some d" "objnodes s a = Some ob" "sched_inv (sk s)"
  shows "\<exists>st d' s'. krldev_inc_devcount p s = Inr (st, s') \<and> st \<in> {DFCOKSTUS, DFCERRSTUS} \<and> effect p a d' (on_finode ob) s s' \<and>
    dev_extdata d' = dev_extdata d"
proof (cases "- 1 \<le> dev_count d")
  case True
  with assms effect_same [OF assms] show ?thesis
    by (intro exI [of _ DFCERRSTUS] exI [of _ d] exI [of _ s]) (simp add: krldev_inc_devcount_def at_def)
next
  case False
  with assms(1) effect_dev [OF assms, of "\<lambda>d. d\<lparr>dev_count := dev_count d + 1\<rparr>"] show ?thesis
    by (intro exI [of _ DFCOKSTUS] exI [of _ "d\<lparr>dev_count := dev_count d + 1\<rparr>"] exI [of _ "upd_dev p (\<lambda>d. d\<lparr>dev_count := dev_count d + 1\<rparr>) s"])
      (simp add: krldev_inc_devcount_def at_def)
qed

lemma dec_effect:
  assumes "devices s p = Some d" "objnodes s a = Some ob" "sched_inv (sk s)"
  shows "\<exists>st d' s'. krldev_dec_devcount p s = Inr (st, s') \<and> st \<in> {DFCOKSTUS, DFCERRSTUS} \<and> effect p a d' (on_finode ob) s s' \<and>
    dev_extdata d' = dev_extdata d"
proof (cases "dev_count d < 1")
  case True
  with assms effect_same [OF assms] show ?thesis
    by (intro exI [of _ DFCERRSTUS] exI [of _ d] exI [of _ s]) (simp add: krldev_dec_devcount_def at_def)
next
  case False
  with assms(1) effect_dev [OF assms, of "\<lambda>d. d\<lparr>dev_count := dev_count d - 1\<rparr>"] show ?thesis
    by (intro exI [of _ DFCOKSTUS] exI [of _ "d\<lparr>dev_count := dev_count d - 1\<rparr>"] exI [of _ "upd_dev p (\<lambda>d. d\<lparr>dev_count := dev_count d - 1\<rparr>) s"])
      (simp add: krldev_dec_devcount_def at_def)
qed

interpretation systick: device_driver systick_tab "\<lambda>w c e. e = NoExt" "\<lambda>f. True" "\<lambda>code s ob. True"
proof
  show "length systick_tab = 12" by (simp add: systick_tab_def)
  fix s :: dst and p a :: u64 and d :: device and ob :: kobj and c code :: nat
  assume inv: "sched_inv (sk s)" and d: "devices s p = Some d" and ob: "objnodes s a = Some ob" and code: "code \<in> fileops" and e: "dev_extdata d = NoExt"
  from inc_effect [OF d ob inv] obtain st1 d1 s1 where i: "krldev_inc_devcount p s = Inr (st1, s1)" "effect p a d1 (on_finode ob) s s1"
    "dev_extdata d1 = NoExt" using e by auto
  from dec_effect [OF d ob inv] obtain st2 d2 s2 where j: "krldev_dec_devcount p s = Inr (st2, s2)" "effect p a d2 (on_finode ob) s s2"
    "dev_extdata d2 = NoExt" using e by auto
  note same = effect_same [OF d ob inv]
  have "call_dipfun (systick_tab ! code) p (Some a) s =
    (if code = 0 then Inr (Some DFCOKSTUS, s1) else if code = 1 then Inr (Some DFCOKSTUS, s2) else Inr (Some DFCERRSTUS, s))"
    using code i(1) j(1) by (auto simp: fileops_def systick_tab_def answers_def reports_def systick_open_def systick_close_def
      systick_read_def systick_write_def systick_ioctrl_def)
  then show "\<exists>st s' d' f. call_dipfun (systick_tab ! code) p (Some a) s = Inr (st, s') \<and> effect p a d' f s s' \<and>
        st \<in> {Some DFCOKSTUS, Some DFCERRSTUS, None} \<and> (st = None \<longrightarrow> code = 2) \<and> dev_extdata d' = NoExt \<and>
        (code \<noteq> 0 \<and> \<not> (code = 1 \<and> st = Some DFCOKSTUS) \<longrightarrow> True) \<and>
        (code = 0 \<and> st = Some DFCOKSTUS \<and> on_acsflgs ob = 2 \<longrightarrow> True)"
    using i(2,3) j(2,3) same e by (cases "code = 0"; cases "code = 1") auto
qed

text \<open>A change of the scheduler alone.\<close>

lemma effect_sk:
  assumes "devices s p = Some d" "objnodes s a = Some ob" "sched_inv k" "length (sems k) = length (sems (sk s))" "htab k = htab (sk s)"
  shows "effect p a d (on_finode ob) s (s\<lparr>sk := k\<rparr>)"
  using assms by (auto simp: effect_def fun_upd_idem)

lemma effect_eq:
  assumes "effect p a d' f s s'"
  obtains d ob where "devices s p = Some d" "objnodes s a = Some ob" "dev_id d' = dev_id d" "dev_drv d' = dev_drv d"
    "s' = s\<lparr>sk := sk s', devices := (devices s)(p \<mapsto> d'), objnodes := (objnodes s)(a \<mapsto> ob\<lparr>on_finode := f\<rparr>),
       umem := umem s', screen := screen s'\<rparr>"
  using assms unfolding effect_def by blast

lemma effect_umem_screen:
  assumes "effect p a d' f s s'"
  shows "effect p a d' f s (s'\<lparr>screen := x\<rparr>)" "effect p a d' f s (s'\<lparr>umem := m\<rparr>)"
proof -
  from assms obtain d ob where d: "devices s p = Some d" "objnodes s a = Some ob" "dev_id d' = dev_id d" "dev_drv d' = dev_drv d"
    and e: "s' = s\<lparr>sk := sk s', devices := (devices s)(p \<mapsto> d'), objnodes := (objnodes s)(a \<mapsto> ob\<lparr>on_finode := f\<rparr>),
       umem := umem s', screen := screen s'\<rparr>" by (rule effect_eq)
  have s: "sched_inv (sk s')" "length (sems (sk s')) = length (sems (sk s))" "htab (sk s') = htab (sk s)"
    using assms by (simp_all add: effect_def)
  have 1: "s'\<lparr>screen := x\<rparr> = s\<lparr>sk := sk s', devices := (devices s)(p \<mapsto> d'), objnodes := (objnodes s)(a \<mapsto> ob\<lparr>on_finode := f\<rparr>),
       umem := umem s', screen := x\<rparr>" by (subst e) simp
  have 2: "s'\<lparr>umem := m\<rparr> = s\<lparr>sk := sk s', devices := (devices s)(p \<mapsto> d'), objnodes := (objnodes s)(a \<mapsto> ob\<lparr>on_finode := f\<rparr>),
       umem := m, screen := screen s'\<rparr>" by (subst e) simp
  show "effect p a d' f s (s'\<lparr>screen := x\<rparr>)" unfolding effect_def 1 using d s by simp
  show "effect p a d' f s (s'\<lparr>umem := m\<rparr>)" unfolding effect_def 2 using d s by simp
qed

lemma effect_put_ubuf:
  assumes "effect p a d' f s s'"
  shows "effect p a d' f s (put_ubuf q b s')"
  using assms effect_umem_screen(2) [OF assms] by (simp add: put_ubuf_def split: option.split prod.split)

text \<open>
  The keyboard: a read must come from a thread that can wait, with a buffer of a page; a write must pass a string that fits
  the print buffer.
\<close>

definition uart_fair :: "nat \<Rightarrow> dst \<Rightarrow> kobj \<Rightarrow> bool" where
  "uart_fair code s ob \<longleftrightarrow> (code = 2 \<longrightarrow> not_idle (sk s) \<and> (\<exists>b. ubuf s (on_bufp ob) = Inr (Some b))) \<and>
     (code = 3 \<longrightarrow> (\<exists>b xs. ubuf s (on_bufp ob) = Inr (Some b) \<and> cstr b 4096 0 xs \<and> length xs < 512))"

definition kb_ext :: "nat \<Rightarrow> devext \<Rightarrow> bool" where
  "kb_ext w e \<longleftrightarrow> (\<exists>k. e = KbExt k \<and> kb_sem k < w)"

lemma ubuf_sk [simp]: "ubuf (s\<lparr>sk := k\<rparr>) p = ubuf s p"
  by (simp add: ubuf_def)

lemma krlsem_down_effect:
  assumes "sched_inv k" "w < length (sems k)" "not_idle k"
  shows "\<exists>got k'. krlsem_down w k = Inr (got, k') \<and> sched_inv k' \<and> length (sems k') = length (sems k) \<and> htab k' = htab k"
proof (cases "1 \<le> count_of k w")
  case True
  from krlsem_down_take [OF assms(1,2) True] show ?thesis by fastforce
next
  case False
  then have "count_of k w < 1" by simp
  from krlsem_down_block [OF assms(1,2) this assms(3)] show ?thesis
    using waited_fields(5) [OF assms(2)] by fastforce
qed

lemma uart_read_ok:
  assumes inv: "sched_inv (sk s)" and d: "devices s p = Some d" and ob: "objnodes s a = Some ob"
    and e: "kb_ext (length (sems (sk s))) (dev_extdata d)" and fair: "uart_fair 2 s ob"
  shows "\<exists>st s'. uart_read p (Some a) s = Inr (st, s') \<and> effect p a d (on_finode ob) s s' \<and> st \<in> {Some DFCOKSTUS, None}"
proof -
  from e obtain k where k: "dev_extdata d = KbExt k" "kb_sem k < length (sems (sk s))" by (auto simp: kb_ext_def)
  from fair obtain b where b: "ubuf s (on_bufp ob) = Inr (Some b)" and ni: "not_idle (sk s)" by (auto simp: uart_fair_def)
  from krlsem_down_effect [OF inv k(2) ni] obtain got k' where g: "krlsem_down (kb_sem k) (sk s) = Inr (got, k')"
    "sched_inv k'" "length (sems k') = length (sems (sk s))" "htab k' = htab (sk s)" by blast
  note eff = effect_sk [OF d ob g(2-4)]
  show ?thesis
  proof (cases got)
    case False
    with d ob k(1) g(1) eff show ?thesis
      by (simp add: uart_read_def at_def krldev_retn_rqueparm_def Let_def)
  next
    case True
    with d ob k(1) g(1) b effect_put_ubuf [OF eff] show ?thesis
      by (simp add: uart_read_def at_def krldev_retn_rqueparm_def Let_def)
  qed
qed

lemma uart_write_ok:
  assumes inv: "sched_inv (sk s)" and d: "devices s p = Some d" and ob: "objnodes s a = Some ob" and fair: "uart_fair 3 s ob"
  shows "\<exists>s'. uart_write p (Some a) s = Inr (DFCOKSTUS, s') \<and> effect p a d (on_finode ob) s s'"
proof -
  from fair obtain b xs where b: "ubuf s (on_bufp ob) = Inr (Some b)" "cstr b 4096 0 xs" "length xs < 512"
    by (auto simp: uart_fair_def)
  with print_string [OF b(2)] ob effect_umem_screen(1) [OF effect_same [OF d ob inv]] show ?thesis
    by (simp add: uart_write_def krldev_retn_rqueparm_def at_def print_def)
qed

interpretation uart: device_driver uart_tab "\<lambda>w c e. kb_ext w e" "\<lambda>f. True" uart_fair
proof
  show "length uart_tab = 12" by (simp add: uart_tab_def)
  fix s :: dst and p a :: u64 and d :: device and ob :: kobj and c code :: nat
  assume inv: "sched_inv (sk s)" and d: "devices s p = Some d" and ob: "objnodes s a = Some ob" and code: "code \<in> fileops"
    and e: "kb_ext (length (sems (sk s))) (dev_extdata d)" and fair: "uart_fair code s ob"
  note call = uart_tab_def answers_def reports_def uart_open_def uart_close_def uart_ioctrl_def
  have go: "\<exists>st s' d' f. call_dipfun (uart_tab ! code) p (Some a) s = Inr (st, s') \<and> effect p a d' f s s' \<and>
        st \<in> {Some DFCOKSTUS, Some DFCERRSTUS, None} \<and> (st = None \<longrightarrow> code = 2) \<and> kb_ext (length (sems (sk s))) (dev_extdata d') \<and>
        (code \<noteq> 0 \<and> \<not> (code = 1 \<and> st = Some DFCOKSTUS) \<longrightarrow> True) \<and>
        (code = 0 \<and> st = Some DFCOKSTUS \<and> on_acsflgs ob = 2 \<longrightarrow> True)"
    if "call_dipfun (uart_tab ! code) p (Some a) s = Inr (st, s')" "effect p a d' (on_finode ob) s s'"
      "st \<in> {Some DFCOKSTUS, Some DFCERRSTUS, None}" "st = None \<longrightarrow> code = 2" "dev_extdata d' = dev_extdata d" for st s' d'
    using that e by (intro exI [of _ st] exI [of _ s'] exI [of _ d'] exI [of _ "on_finode ob"]) simp
  from code consider "code = 0" | "code = 1" | "code = 2" | "code = 3" | "code = 5" by (auto simp: fileops_def)
  then show "\<exists>st s' d' f. call_dipfun (uart_tab ! code) p (Some a) s = Inr (st, s') \<and> effect p a d' f s s' \<and>
        st \<in> {Some DFCOKSTUS, Some DFCERRSTUS, None} \<and> (st = None \<longrightarrow> code = 2) \<and> kb_ext (length (sems (sk s))) (dev_extdata d') \<and>
        (code \<noteq> 0 \<and> \<not> (code = 1 \<and> st = Some DFCOKSTUS) \<longrightarrow> True) \<and>
        (code = 0 \<and> st = Some DFCOKSTUS \<and> on_acsflgs ob = 2 \<longrightarrow> True)"
  proof cases
    case 1
    from inc_effect [OF d ob inv] obtain st d' s' where "krldev_inc_devcount p s = Inr (st, s')" "st \<in> {DFCOKSTUS, DFCERRSTUS}"
      "effect p a d' (on_finode ob) s s'" "dev_extdata d' = dev_extdata d" by blast
    with 1 show ?thesis by (intro go [of "Some st" s' d']) (auto simp: call)
  next
    case 2
    from dec_effect [OF d ob inv] obtain st d' s' where "krldev_dec_devcount p s = Inr (st, s')" "st \<in> {DFCOKSTUS, DFCERRSTUS}"
      "effect p a d' (on_finode ob) s s'" "dev_extdata d' = dev_extdata d" by blast
    with 2 show ?thesis by (intro go [of "Some st" s' d']) (auto simp: call)
  next
    case 3
    with fair have f: "uart_fair 2 s ob" by simp
    from uart_read_ok [OF inv d ob e f] obtain st s' where "uart_read p (Some a) s = Inr (st, s')" "effect p a d (on_finode ob) s s'"
      "st \<in> {Some DFCOKSTUS, None}" by blast
    with 3 show ?thesis by (intro go [of st s' d]) (auto simp: call)
  next
    case 4
    with fair have f: "uart_fair 3 s ob" by simp
    from uart_write_ok [OF inv d ob f] obtain s' where "uart_write p (Some a) s = Inr (DFCOKSTUS, s')" "effect p a d (on_finode ob) s s'"
      by blast
    with 4 show ?thesis by (intro go [of "Some DFCOKSTUS" s' d]) (auto simp: call)
  next
    case 5
    with effect_same [OF d ob inv] show ?thesis by (intro go [of "Some DFCERRSTUS" s d]) (simp_all add: call)
  qed
qed

text \<open>
  The file system: a path the program passes must be a short name of the one directory, its buffer a page, and the kernel
  memory service must not refuse a buffer to a call that asks for some.
\<close>

definition rfs_fair :: "nat \<Rightarrow> dst \<Rightarrow> kobj \<Rightarrow> bool" where
  "rfs_fair code s ob \<longleftrightarrow> (\<exists>pk. packet_of s ob = Inr pk \<and> fair_packet code pk \<and> (takes_buffers code pk \<longrightarrow> buf_ans s = []))"

definition rfs_ext :: "nat \<Rightarrow> nat \<Rightarrow> nat \<Rightarrow> nat \<Rightarrow> nat \<Rightarrow> devext \<Rightarrow> bool" where
  "rfs_ext n R l w c e \<longleftrightarrow> (\<exists>r. e = RfsExt r \<and> fs_of n R (c + l) r)"

lemma call_rfs_effect:
  assumes inv: "sched_inv (sk s)" and d: "devices s p = Some d" "dev_extdata d = RfsExt r" and ob: "objnodes s a = Some ob"
    and pk: "packet_of s ob = Inr pk" "f (lend (buf_ans s) r) pk = Inr (st, pk', lend (buf_ans s) r')" and r': "krl_grants r' = []"
  shows "\<exists>s'. call_rfs f p (Some a) s = Inr (st, s') \<and> effect p a (d\<lparr>dev_extdata := RfsExt r'\<rparr>) (on_finode pk') s s'"
proof -
  let ?s = "upd_obj a (\<lambda>ob. ob\<lparr>on_finode := on_finode pk'\<rparr>) (set_rfs p (lend (buf_ans s) r') s)"
  have "lend [] r' = r'"
    using r' by (metis rfs.surjective rfs.update_convs(4))
  then have "effect p a (d\<lparr>dev_extdata := RfsExt r'\<rparr>) (on_finode pk') s ?s"
    using inv d ob by (simp add: effect_def upd_obj_def set_rfs_def upd_dev_def)
  from effect_put_ubuf [OF this, of "on_bufp ob" "on_buf pk'"] d ob pk show ?thesis
    by (simp add: call_rfs_def at_def rfs_of_def)
qed

interpretation rfs: device_driver rfs_tab "rfs_ext n R l" "file_node n R" rfs_fair
proof
  show "length rfs_tab = 12" by (simp add: rfs_tab_def)
  fix s :: dst and p a :: u64 and d :: device and ob :: kobj and c code :: nat
  assume inv: "sched_inv (sk s)" and d: "devices s p = Some d" and ob: "objnodes s a = Some ob" and code: "code \<in> fileops"
    and oc: "on_opercode ob = int code" and e: "rfs_ext n R l (length (sems (sk s))) c (dev_extdata d)"
    and nd: "code \<noteq> 0 \<longrightarrow> file_node n R (on_finode ob) \<and> 0 < c" and fair: "rfs_fair code s ob"
  from e obtain r where r: "dev_extdata d = RfsExt r" "fs_of n R (c + l) r" by (auto simp: rfs_ext_def)
  from fair obtain pk where pk: "packet_of s ob = Inr pk" "fair_packet code pk" "takes_buffers code pk \<longrightarrow> buf_ans s = []"
    by (auto simp: rfs_fair_def)
  then have same: "on_acsflgs pk = on_acsflgs ob" "on_finode pk = on_finode ob"
    by (auto simp: packet_of_def andthen_eq_Inr)
  have go: "\<exists>st s' d' f. call_dipfun (rfs_tab ! code) p (Some a) s = Inr (st, s') \<and> effect p a d' f s s' \<and>
        st \<in> {Some DFCOKSTUS, Some DFCERRSTUS, None} \<and> (st = None \<longrightarrow> code = 2) \<and>
        rfs_ext n R l (length (sems (sk s))) (files_after code st (on_acsflgs ob) c) (dev_extdata d') \<and>
        (code \<noteq> 0 \<and> \<not> (code = 1 \<and> st = Some DFCOKSTUS) \<longrightarrow> file_node n R f) \<and>
        (code = 0 \<and> st = Some DFCOKSTUS \<and> on_acsflgs ob = 2 \<longrightarrow> file_node n R f)"
    if c: "call_dipfun (rfs_tab ! code) p (Some a) s = answers (call_rfs (rfs_fun code) p (Some a) s)"
      and x: "rfs_fun code r pk = Inr (st, pk', r')" "st \<in> {DFCOKSTUS, DFCERRSTUS}"
      "fs_of n R (files_after code (Some st) (on_acsflgs ob) c + l) r'"
      "code \<noteq> 0 \<and> \<not> (code = 1 \<and> st = DFCOKSTUS) \<longrightarrow> file_node n R (on_finode pk')"
      "code = 0 \<and> st = DFCOKSTUS \<and> on_acsflgs ob = 2 \<longrightarrow> file_node n R (on_finode pk')" for st pk' r'
  proof -
    have g: "krl_grants r = []" "krl_grants r' = []"
      using r(2) x(3) fs_inv_granted by (auto simp: fs_of_def)
    have co: "code \<in> {0, 1, 2, 3, 5}" using code by (simp add: fileops_def)
    from call_rfs_effect [OF inv d r(1) ob pk(1), of "rfs_fun code", OF rfs_fun_lent [OF co pk(3) g x(1)] g(2)] obtain s' where
      s': "call_rfs (rfs_fun code) p (Some a) s = Inr (st, s')" "effect p a (d\<lparr>dev_extdata := RfsExt r'\<rparr>) (on_finode pk') s s'" by blast
    with c x(2-5) show ?thesis
      by (intro exI [of _ "Some st"] exI [of _ s'] exI [of _ "d\<lparr>dev_extdata := RfsExt r'\<rparr>"] exI [of _ "on_finode pk'"])
        (auto simp: answers_def rfs_ext_def)
  qed
  from code consider "code = 0" | "code = 1" | "code = 2" | "code = 3" | "code = 5" by (auto simp: fileops_def)
  then show "\<exists>st s' d' f. call_dipfun (rfs_tab ! code) p (Some a) s = Inr (st, s') \<and> effect p a d' f s s' \<and>
        st \<in> {Some DFCOKSTUS, Some DFCERRSTUS, None} \<and> (st = None \<longrightarrow> code = 2) \<and>
        rfs_ext n R l (length (sems (sk s))) (files_after code st (on_acsflgs ob) c) (dev_extdata d') \<and>
        (code \<noteq> 0 \<and> \<not> (code = 1 \<and> st = Some DFCOKSTUS) \<longrightarrow> file_node n R f) \<and>
        (code = 0 \<and> st = Some DFCOKSTUS \<and> on_acsflgs ob = 2 \<longrightarrow> file_node n R f)"
  proof cases
    case 1
    with pk(2) have "on_acsflgs pk \<in> {1, 2} \<Longrightarrow> named (on_fname pk)" by (simp add: fair_packet_def)
    from rfs_open_any [OF r(2) this] obtain st f r' where o: "rfs_open r pk = Inr (st, pk\<lparr>on_finode := f\<rparr>, r')"
      "st \<in> {DFCOKSTUS, DFCERRSTUS}" "fs_of n R (files_after 0 (Some st) (on_acsflgs pk) (c + l)) r'" "node_after n R 0 st pk f" by blast
    have "files_after 0 (Some st) (on_acsflgs pk) (c + l) = files_after 0 (Some st) (on_acsflgs ob) c + l"
      using same by (simp add: files_after_def)
    with 1 o same show ?thesis
      by (intro go [of st "pk\<lparr>on_finode := f\<rparr>" r']) (auto simp: rfs_fun_def rfs_tab_def node_after_def)
  next
    case 2
    with nd have c: "file_node n R (on_finode pk)" "0 < c" using same by simp_all
    then have "fs_of n R (Suc (c - 1 + l)) r" using r(2) by simp
    from rfs_close_any [OF this c(1)] obtain r' where "rfs_close r pk = Inr (DFCOKSTUS, pk\<lparr>on_finode := Freed\<rparr>, r')"
      "fs_of n R (c - 1 + l) r'" by blast
    with 2 c(2) show ?thesis
      by (intro go [of DFCOKSTUS "pk\<lparr>on_finode := Freed\<rparr>" r']) (simp_all add: rfs_fun_def rfs_tab_def files_after_def)
  next
    case 3
    with nd have c: "file_node n R (on_finode pk)" using same by simp
    from rfs_read_any [OF c, of r] obtain st b where "rfs_read r pk = Inr (st, pk\<lparr>on_buf := b\<rparr>, r)" "st \<in> {DFCOKSTUS, DFCERRSTUS}" by blast
    with 3 c r(2) show ?thesis
      by (intro go [of st "pk\<lparr>on_buf := b\<rparr>" r]) (simp_all add: rfs_fun_def rfs_tab_def files_after_def)
  next
    case 4
    with nd have c: "file_node n R (on_finode pk)" using same by simp
    from 4 pk(2) have "unat (on_len pk) < 2 ^ 63" by (simp add: fair_packet_def)
    from rfs_write_any [OF r(2) c this] obtain st f r' where "rfs_write r pk = Inr (st, pk\<lparr>on_finode := f\<rparr>, r')"
      "st \<in> {DFCOKSTUS, DFCERRSTUS}" "fs_of n R (c + l) r'" "file_node n R f" by blast
    with 4 show ?thesis
      by (intro go [of st "pk\<lparr>on_finode := f\<rparr>" r']) (simp_all add: rfs_fun_def rfs_tab_def files_after_def)
  next
    case 5
    with nd have c: "file_node n R (on_finode pk)" using same by simp
    from 5 pk(2) have "on_ioctrd pk = 5 \<longrightarrow> named (on_fname pk)" by (simp add: fair_packet_def)
    from rfs_ioctrl_any [OF r(2) this] obtain st r' where "rfs_ioctrl r pk = Inr (st, pk, r')"
      "st \<in> {DFCOKSTUS, DFCERRSTUS}" "fs_of n R (c + l) r'" by blast
    with 5 c show ?thesis
      by (intro go [of st pk r']) (simp_all add: rfs_fun_def rfs_tab_def files_after_def)
  qed
qed

end
