(* ===== verification/DevInv.thy ===== *)
theory DevInv
  imports DevCalls
begin

text \<open>
  The invariant between services: the handle tables and the objects behind them, what is behind each device, the
  descriptors of the interrupts; and a call of a driver through an object, by the contract the three drivers keep.
\<close>

section \<open>Handles and the objects behind them\<close>

definition hand_at :: "(tid \<Rightarrow> u64 option list option) \<Rightarrow> tid \<Rightarrow> nat \<Rightarrow> u64 option" where
  "hand_at H t i = (case H t of None \<Rightarrow> None | Some h \<Rightarrow> if i < length h then h ! i else None)"

definition opened :: "(tid \<Rightarrow> u64 option list option) \<Rightarrow> u64 set" where
  "opened H = {a. \<exists>t i. hand_at H t i = Some a}"

text \<open>
  Every table has eight places; no object is behind two handles; the objects that exist are those behind handles, and
  those lost, \<open>E\<close>.
\<close>

definition hands_inv :: "u64 set \<Rightarrow> (tid \<Rightarrow> u64 option list option) \<Rightarrow> (u64 \<rightharpoonup> kobj) \<Rightarrow> bool" where
  "hands_inv E H m \<longleftrightarrow> (\<forall>t h. H t = Some h \<longrightarrow> length h = 8) \<and>
     (\<forall>t i u j a. hand_at H t i = Some a \<and> hand_at H u j = Some a \<longrightarrow> t = u \<and> i = j) \<and>
     opened H \<inter> E = {} \<and> dom m = opened H \<union> E \<and> finite (opened H)"

lemma hands_invD:
  assumes "hands_inv E H m"
  shows "H t = Some h \<Longrightarrow> length h = 8" "hand_at H t i = Some a \<Longrightarrow> hand_at H u j = Some a \<Longrightarrow> t = u \<and> i = j"
    "opened H \<inter> E = {}" "dom m = opened H \<union> E" "finite (opened H)"
proof -
  show "hand_at H t i = Some a \<Longrightarrow> hand_at H u j = Some a \<Longrightarrow> t = u \<and> i = j"
    using assms unfolding hands_inv_def by blast
qed (use assms in \<open>auto simp: hands_inv_def\<close>)

lemma hand_at_upd:
  "H t = Some h \<Longrightarrow> i < length h \<Longrightarrow> hand_at (H(t \<mapsto> h[i := v])) u j = (if u = t \<and> j = i then v else hand_at H u j)"
  by (auto simp: hand_at_def)

lemma hands_add:
  assumes inv: "hands_inv E H m" and h: "H t = Some h" "i < 8" "h ! i = None" and a: "m a = None"
  shows "hands_inv E (H(t \<mapsto> h[i := Some a])) (m(a \<mapsto> ob))" "opened (H(t \<mapsto> h[i := Some a])) = insert a (opened H)"
proof -
  note i = hands_invD [OF inv]
  have len: "i < length h" using i(1) [OF h(1)] h(2) by simp
  note at = hand_at_upd [where H = H and t = t and h = h and i = i, OF h(1) len]
  have none: "hand_at H t i = None" using h len by (simp add: hand_at_def)
  have "a \<notin> dom m" using a by (simp add: domIff)
  then have new: "a \<notin> opened H" "a \<notin> E" using i(4) by simp_all
  show o: "opened (H(t \<mapsto> h[i := Some a])) = insert a (opened H)"
  proof (rule set_eqI)
    fix b
    have "b \<in> opened (H(t \<mapsto> h[i := Some a])) \<longleftrightarrow> b = a \<or> (\<exists>u j. hand_at H u j = Some b)"
      unfolding opened_def mem_Collect_eq at using none by (metis option.inject option.distinct(1))
    then show "b \<in> opened (H(t \<mapsto> h[i := Some a])) \<longleftrightarrow> b \<in> insert a (opened H)"
      by (simp add: opened_def)
  qed
  have "u = v \<and> j = k" if "hand_at (H(t \<mapsto> h[i := Some a])) u j = Some b" "hand_at (H(t \<mapsto> h[i := Some a])) v k = Some b" for u j v k b
    using that new(1) i(2) [of u j b v k] unfolding at opened_def by (metis (mono_tags, lifting) mem_Collect_eq option.inject)
  moreover have "length g = 8" if "(H(t \<mapsto> h[i := Some a])) u = Some g" for u g
    using that i(1) h(1) by (auto split: if_splits)
  ultimately show "hands_inv E (H(t \<mapsto> h[i := Some a])) (m(a \<mapsto> ob))"
    unfolding hands_inv_def o using i(3-5) new by auto
qed

lemma hands_del:
  assumes inv: "hands_inv E H m" and h: "H t = Some h" "i < 8" "h ! i = Some a"
  shows "hands_inv E (H(t \<mapsto> h[i := None])) (m(a := None))" "opened (H(t \<mapsto> h[i := None])) = opened H - {a}"
proof -
  note i = hands_invD [OF inv]
  have len: "i < length h" using i(1) [OF h(1)] h(2) by simp
  note at = hand_at_upd [where H = H and t = t and h = h and i = i, OF h(1) len]
  have here: "hand_at H t i = Some a" using h len by (simp add: hand_at_def)
  show o: "opened (H(t \<mapsto> h[i := None])) = opened H - {a}"
  proof (rule set_eqI)
    fix b
    have other: "b \<noteq> a" if "hand_at H u j = Some b" "u \<noteq> t \<or> j \<noteq> i" for u j
      using that i(2) [OF here] by blast
    have "b \<in> opened (H(t \<mapsto> h[i := None])) \<longleftrightarrow> (\<exists>u j. \<not> (u = t \<and> j = i) \<and> hand_at H u j = Some b)"
      unfolding opened_def mem_Collect_eq at by (metis option.distinct(1))
    also have "\<dots> \<longleftrightarrow> b \<in> opened H - {a}"
    proof
      show "b \<in> opened H - {a}" if "\<exists>u j. \<not> (u = t \<and> j = i) \<and> hand_at H u j = Some b"
        using that other unfolding opened_def by blast
      show "\<exists>u j. \<not> (u = t \<and> j = i) \<and> hand_at H u j = Some b" if "b \<in> opened H - {a}"
      proof -
        from that obtain u j where u: "hand_at H u j = Some b" "b \<noteq> a" unfolding opened_def by blast
        then have "\<not> (u = t \<and> j = i)" using here by auto
        with u show ?thesis by blast
      qed
    qed
    finally show "b \<in> opened (H(t \<mapsto> h[i := None])) \<longleftrightarrow> b \<in> opened H - {a}" .
  qed
  have "u = v \<and> j = k" if "hand_at (H(t \<mapsto> h[i := None])) u j = Some b" "hand_at (H(t \<mapsto> h[i := None])) v k = Some b" for u j v k b
    using that i(2) [of u j b v k] unfolding at by (metis option.distinct(1))
  moreover have "length g = 8" if "(H(t \<mapsto> h[i := None])) u = Some g" for u g
    using that i(1) h(1) by (auto split: if_splits)
  moreover have "a \<notin> E" using here i(3) by (auto simp: opened_def)
  ultimately show "hands_inv E (H(t \<mapsto> h[i := None])) (m(a := None))"
    unfolding hands_inv_def o using i(3-5) by auto
qed

lemma hands_upd: "hands_inv E H m \<Longrightarrow> m a \<noteq> None \<Longrightarrow> hands_inv E H (m(a \<mapsto> ob))"
  by (auto simp: hands_inv_def)

section \<open>Devices, objects and interrupts\<close>

definition rfs_id :: devid where
  "rfs_id = \<lparr>dev_mtype = FILESYS_DEVICE, dev_stype = 0, dev_nr = 0\<rparr>"

text \<open>
  What is behind a device: the one called \<open>rfs_id\<close> is the file system, with \<open>c\<close> files open and \<open>l\<close> buffers lost; any
  other is a timer or a keyboard.
\<close>

definition device_ok :: "nat \<Rightarrow> nat \<Rightarrow> nat \<Rightarrow> nat \<Rightarrow> nat \<Rightarrow> (u64 \<rightharpoonup> driver) \<Rightarrow> device \<Rightarrow> bool" where
  "device_ok n R l c w m d \<longleftrightarrow> (\<exists>rp r. dev_drv d = Some rp \<and> m rp = Some r \<and>
     (if dev_id d = rfs_id then drv_dipfun r = rfs_tab \<and> rfs_ext n R l w c (dev_extdata d)
      else drv_dipfun r = systick_tab \<and> dev_extdata d = NoExt \<or> drv_dipfun r = uart_tab \<and> kb_ext w (dev_extdata d)))"

definition devs_inv :: "nat \<Rightarrow> nat \<Rightarrow> nat \<Rightarrow> nat \<Rightarrow> dst \<Rightarrow> bool" where
  "devs_inv n R l c s \<longleftrightarrow> (\<forall>p \<in> set (devlist s). \<exists>d. devices s p = Some d \<and>
     device_ok n R l c (length (sems (sk s))) (drivers s) d)"

definition dev_ids :: "dst \<Rightarrow> u64 \<Rightarrow> devid option" where
  "dev_ids s p = (if p \<in> set (devlist s) then map_option dev_id (devices s p) else None)"

definition obj_inv :: "nat \<Rightarrow> nat \<Rightarrow> (u64 \<Rightarrow> devid option) \<Rightarrow> kobj \<Rightarrow> bool" where
  "obj_inv n R ids ob \<longleftrightarrow> (\<exists>p i. on_objadr ob = Some p \<and> ids p = Some i \<and>
     (if i = rfs_id then on_objtype ob = OBJN_TY_FIL \<and> file_node n R (on_finode ob) else on_objtype ob = OBJN_TY_DEV))"

text \<open>The descriptors of the interrupts lead to handlers of the two devices that have one.\<close>

definition irq_inv :: "dst \<Rightarrow> bool" where
  "irq_inv s \<longleftrightarrow> length (machintflt s) = 256 \<and> (\<forall>d \<in> set (machintflt s). \<forall>p \<in> set (i_serlist d).
     \<exists>sd. serdscs s p = Some sd \<and> (s_handle sd = Uart_handle \<longrightarrow> (\<exists>i. dev_ids s (s_device sd) = Some i \<and> i \<noteq> rfs_id)))"

definition base_inv :: "nat \<Rightarrow> nat \<Rightarrow> nat \<Rightarrow> nat \<Rightarrow> dst \<Rightarrow> bool" where
  "base_inv n R l c s \<longleftrightarrow> sched_inv (sk s) \<and> tbl_inv s \<and> devs_inv n R l c s \<and> irq_inv s \<and> (\<forall>k L. krl_ans s k L = 0 \<or> krl_ans s k L \<notin> L)"

definition open_files :: "dst \<Rightarrow> u64 set" where
  "open_files s = {a \<in> opened (htab (sk s)). \<exists>ob. objnodes s a = Some ob \<and> on_objtype ob = OBJN_TY_FIL}"

text \<open>The invariant between services; \<open>E\<close> and \<open>l\<close> are the objects and buffers nobody will give back.\<close>

definition svc_inv :: "nat \<Rightarrow> nat \<Rightarrow> nat \<Rightarrow> u64 set \<Rightarrow> dst \<Rightarrow> bool" where
  "svc_inv n R l E s \<longleftrightarrow> base_inv n R l (card (open_files s)) s \<and> hands_inv E (htab (sk s)) (objnodes s) \<and>
     (\<forall>a \<in> opened (htab (sk s)). \<forall>ob. objnodes s a = Some ob \<longrightarrow> obj_inv n R (dev_ids s) ob)"

lemma base_invD:
  assumes "base_inv n R l c s"
  shows "sched_inv (sk s)" "tbl_inv s" "devs_inv n R l c s" "irq_inv s" "krl_ans s k L = 0 \<or> krl_ans s k L \<notin> L"
  using assms by (simp_all add: base_inv_def)

lemma svc_invD:
  assumes "svc_inv n R l E s"
  shows "base_inv n R l (card (open_files s)) s" "hands_inv E (htab (sk s)) (objnodes s)"
    "a \<in> opened (htab (sk s)) \<Longrightarrow> objnodes s a = Some ob \<Longrightarrow> obj_inv n R (dev_ids s) ob"
  using assms by (simp_all add: svc_inv_def)

text \<open>What the parts read of the state.\<close>

lemma dev_ids_cong:
  "osdevtable s' = osdevtable s \<Longrightarrow> (\<And>p. p \<in> set (devlist s) \<Longrightarrow> map_option dev_id (devices s' p) = map_option dev_id (devices s p)) \<Longrightarrow>
   dev_ids s' = dev_ids s"
  by (auto simp: dev_ids_def fun_eq_iff)

lemma irq_inv_cong:
  "machintflt s' = machintflt s \<Longrightarrow> serdscs s' = serdscs s \<Longrightarrow> dev_ids s' = dev_ids s \<Longrightarrow> irq_inv s' = irq_inv s"
  by (simp add: irq_inv_def)

lemma base_inv_cong:
  assumes base: "base_inv n R l c s" and sk: "sched_inv (sk s')" "length (sems (sk s)) \<le> length (sems (sk s'))"
    and same: "osdevtable s' = osdevtable s" "devices s' = devices s" "drivers s' = drivers s" "machintflt s' = machintflt s"
      "serdscs s' = serdscs s" "krl_ans s' = krl_ans s"
  shows "base_inv n R l c s'" "dev_ids s' = dev_ids s"
proof -
  show ids: "dev_ids s' = dev_ids s" by (rule dev_ids_cong) (simp_all add: same)
  note b = base_invD [OF base]
  have "tbl_inv s'" by (rule tbl_inv_cong [OF same(1) _ b(2)]) (simp add: same)
  moreover have "kb_ext (length (sems (sk s))) e \<Longrightarrow> kb_ext (length (sems (sk s'))) e" for e
    using sk(2) by (auto simp: kb_ext_def)
  then have "device_ok n R l c (length (sems (sk s))) m d \<Longrightarrow> device_ok n R l c (length (sems (sk s'))) m d" for m d
    unfolding device_ok_def rfs_ext_def by (elim exE conjE) (auto split: if_splits)
  then have "devs_inv n R l c s'"
    using b(3) unfolding devs_inv_def same by blast
  moreover have "irq_inv s'"
    using irq_inv_cong [OF same(4,5) ids] b(4) by simp
  ultimately show "base_inv n R l c s'"
    using b(5) sk(1) by (simp add: base_inv_def same)
qed


section \<open>A call of a driver\<close>

lemma effect_fields:
  assumes "effect p a d' f s s'"
  shows "osdevtable s' = osdevtable s" "devices s' = (devices s)(p \<mapsto> d')" "drivers s' = drivers s" "machintflt s' = machintflt s"
    "serdscs s' = serdscs s" "krl_ans s' = krl_ans s" "objnodes s a = Some ob \<Longrightarrow> objnodes s' = (objnodes s)(a \<mapsto> ob\<lparr>on_finode := f\<rparr>)"
    "devices s p = Some d \<Longrightarrow> dev_id d' = dev_id d \<and> dev_drv d' = dev_drv d"
    "sched_inv (sk s')" "length (sems (sk s')) = length (sems (sk s))" "htab (sk s') = htab (sk s)"
proof -
  from assms obtain d0 ob0 where d: "devices s p = Some d0" "objnodes s a = Some ob0" "dev_id d' = dev_id d0" "dev_drv d' = dev_drv d0"
    and e: "s' = s\<lparr>sk := sk s', devices := (devices s)(p \<mapsto> d'), objnodes := (objnodes s)(a \<mapsto> ob0\<lparr>on_finode := f\<rparr>),
       umem := umem s', screen := screen s'\<rparr>" by (rule effect_eq)
  show "osdevtable s' = osdevtable s" "devices s' = (devices s)(p \<mapsto> d')" "drivers s' = drivers s" "machintflt s' = machintflt s"
    "serdscs s' = serdscs s" "krl_ans s' = krl_ans s" by (subst e, simp)+
  show "objnodes s' = (objnodes s)(a \<mapsto> ob\<lparr>on_finode := f\<rparr>)" if "objnodes s a = Some ob"
    using that d(2) by (subst e) simp
  show "dev_id d' = dev_id d \<and> dev_drv d' = dev_drv d" if "devices s p = Some d" using that d by simp
qed (use assms in \<open>simp_all add: effect_def\<close>)

lemma effect_base:
  assumes base: "base_inv n R l c s" and p: "p \<in> set (devlist s)" "devices s p = Some d" and eff: "effect p a d' f s s'"
    and ok: "device_ok n R l c' (length (sems (sk s))) (drivers s) d'" and c: "dev_id d \<noteq> rfs_id \<Longrightarrow> c' = c"
  shows "base_inv n R l c' s'" "dev_ids s' = dev_ids s"
proof -
  note b = base_invD [OF base] and e = effect_fields [OF eff]
  note same = e(8) [OF p(2)]
  show ids: "dev_ids s' = dev_ids s"
    by (rule dev_ids_cong [OF e(1)]) (simp add: e(2) p(2) same)
  have "tbl_inv s'"
    by (rule tbl_inv_cong [OF e(1) _ b(2)]) (simp add: e(2) p(2) same)
  moreover have "irq_inv s'"
    using irq_inv_cong [OF e(4,5) ids] b(4) by simp
  moreover have "devs_inv n R l c' s'"
    unfolding devs_inv_def
  proof
    fix q assume q': "q \<in> set (devlist s')"
    then have q: "q \<in> set (devlist s)" by (simp add: e(1))
    show "\<exists>d. devices s' q = Some d \<and> device_ok n R l c' (length (sems (sk s'))) (drivers s') d"
    proof (cases "q = p")
      case True
      with ok show ?thesis by (simp add: e)
    next
      case False
      from b(3) q obtain g where g: "devices s q = Some g" "device_ok n R l c (length (sems (sk s))) (drivers s) g"
        unfolding devs_inv_def by blast
      have "device_ok n R l c' (length (sems (sk s))) (drivers s) g"
      proof (cases "dev_id d = rfs_id")
        case True
        have "dev_id g \<noteq> rfs_id"
        proof
          assume "dev_id g = rfs_id"
          then have "device_named s rfs_id q" "device_named s rfs_id p"
            using True q p g(1) by (simp_all add: device_named_def)
          with device_named_unique [OF b(2)] False show False by blast
        qed
        with g(2) show ?thesis by (simp add: device_ok_def)
      next
        case False
        with c g(2) show ?thesis by simp
      qed
      with g(1) False show ?thesis by (simp add: e)
    qed
  qed
  ultimately show "base_inv n R l c' s'"
    using b(5) e(9) by (simp add: base_inv_def e(6))
qed

text \<open>A request is fair if the driver of its device can serve it.\<close>

definition fair_at :: "nat \<Rightarrow> dst \<Rightarrow> devid \<Rightarrow> kobj \<Rightarrow> bool" where
  "fair_at code s i ob \<longleftrightarrow> (if i = rfs_id then rfs_fair code s ob else uart_fair code s ob)"

lemma device_call:
  assumes base: "base_inv n R l c s" and ob: "objnodes s a = Some ob" "on_objtype ob \<in> {OBJN_TY_DEV, OBJN_TY_FIL}" "on_objadr ob = Some p"
    and i: "dev_ids s p = Some i" and code: "code \<in> fileops" "on_opercode ob = int code"
    and nd: "i = rfs_id \<Longrightarrow> code \<noteq> 0 \<Longrightarrow> file_node n R (on_finode ob) \<and> 0 < c" and fair: "fair_at code s i ob"
  obtains st s' d' f c' where
    "krlsve_device a s = Inr (map_option (\<lambda>v. if v = DFCERRSTUS then SYSSTUS_ERR else SYSSTUS_OK) st, s')"
    "effect p a d' f s s'" "base_inv n R l c' s'" "dev_ids s' = dev_ids s"
    "st \<in> {Some DFCOKSTUS, Some DFCERRSTUS, None}" "st = None \<longrightarrow> code = 2"
    "c' = (if i = rfs_id then files_after code st (on_acsflgs ob) c else c)"
    "i = rfs_id \<and> code \<noteq> 0 \<and> \<not> (code = 1 \<and> st = Some DFCOKSTUS) \<longrightarrow> file_node n R f"
    "i = rfs_id \<and> code = 0 \<and> st = Some DFCOKSTUS \<and> on_acsflgs ob = 2 \<longrightarrow> file_node n R f"
proof -
  note b = base_invD [OF base]
  from i have p: "p \<in> set (devlist s)" by (simp add: dev_ids_def split: if_splits)
  with b(3) obtain d where d: "devices s p = Some d" "device_ok n R l c (length (sems (sk s))) (drivers s) d"
    unfolding devs_inv_def by blast
  with i p have id: "dev_id d = i" by (simp add: dev_ids_def)
  from d(2) obtain rp r where r: "dev_drv d = Some rp" "drivers s rp = Some r"
    "if dev_id d = rfs_id then drv_dipfun r = rfs_tab \<and> rfs_ext n R l (length (sems (sk s))) c (dev_extdata d)
      else drv_dipfun r = systick_tab \<and> dev_extdata d = NoExt \<or> drv_dipfun r = uart_tab \<and> kb_ext (length (sems (sk s))) (dev_extdata d)"
    unfolding device_ok_def by blast
  note result = that
  have go: thesis
    if call: "krlsve_device a s = Inr (map_option (\<lambda>v. if v = DFCERRSTUS then SYSSTUS_ERR else SYSSTUS_OK) st, s')"
      "effect p a d' f s s'" "st \<in> {Some DFCOKSTUS, Some DFCERRSTUS, None}" "st = None \<longrightarrow> code = 2"
      and ok: "device_ok n R l (if i = rfs_id then files_after code st (on_acsflgs ob) c else c) (length (sems (sk s))) (drivers s) d'"
      and nd: "i = rfs_id \<Longrightarrow> code \<noteq> 0 \<and> \<not> (code = 1 \<and> st = Some DFCOKSTUS) \<longrightarrow> file_node n R f"
        "i = rfs_id \<Longrightarrow> code = 0 \<and> st = Some DFCOKSTUS \<and> on_acsflgs ob = 2 \<longrightarrow> file_node n R f" for st s' d' f
  proof -
    from effect_base [OF base p d(1) call(2) ok] id show thesis
      using call nd by (intro result [of st s' d' f]) auto
  qed
  consider "i = rfs_id" | "i \<noteq> rfs_id" "drv_dipfun r = systick_tab" "dev_extdata d = NoExt"
    | "i \<noteq> rfs_id" "drv_dipfun r = uart_tab" "kb_ext (length (sems (sk s))) (dev_extdata d)"
    using r(3) id by (auto split: if_splits)
  then show thesis
  proof cases
    case 1
    have tab: "drv_dipfun r = rfs_tab" and e: "rfs_ext n R l (length (sems (sk s))) c (dev_extdata d)" using r(3) id 1 by simp_all
    have f: "rfs_fair code s ob" using fair 1 by (simp add: fair_at_def)
    have nd': "code \<noteq> 0 \<longrightarrow> file_node n R (on_finode ob) \<and> 0 < c" using nd 1 by blast
    from rfs.device_io [OF b(1) d(1) r(1,2) tab ob e code nd' f] obtain st s' d' f where
      x: "krlsve_device a s = Inr (map_option (\<lambda>v. if v = DFCERRSTUS then SYSSTUS_ERR else SYSSTUS_OK) st, s')"
      "effect p a d' f s s'" "st \<in> {Some DFCOKSTUS, Some DFCERRSTUS, None}" "st = None \<longrightarrow> code = 2"
      "rfs_ext n R l (length (sems (sk s))) (files_after code st (on_acsflgs ob) c) (dev_extdata d')"
      "code \<noteq> 0 \<and> \<not> (code = 1 \<and> st = Some DFCOKSTUS) \<longrightarrow> file_node n R f"
      "code = 0 \<and> st = Some DFCOKSTUS \<and> on_acsflgs ob = 2 \<longrightarrow> file_node n R f" by (elim exE conjE) (rule that)
    have "device_ok n R l (files_after code st (on_acsflgs ob) c) (length (sems (sk s))) (drivers s) d'"
      using effect_fields(8) [OF x(2) d(1)] r(1,2) tab x(5) id 1 by (simp add: device_ok_def)
    with 1 x show thesis by (intro go [OF x(1-4)]) simp_all
  next
    case 2
    from systick.device_io [where c = 1, OF b(1) d(1) r(1,2) 2(2) ob 2(3) code] obtain st s' d' f where
      x: "krlsve_device a s = Inr (map_option (\<lambda>v. if v = DFCERRSTUS then SYSSTUS_ERR else SYSSTUS_OK) st, s')"
      "effect p a d' f s s'" "st \<in> {Some DFCOKSTUS, Some DFCERRSTUS, None}" "st = None \<longrightarrow> code = 2" "dev_extdata d' = NoExt"
      by auto
    have "device_ok n R l c (length (sems (sk s))) (drivers s) d'"
      using effect_fields(8) [OF x(2) d(1)] r(1,2) 2 x(5) id by (simp add: device_ok_def)
    with 2 x show thesis by (intro go [OF x(1-4)]) simp_all
  next
    case 3
    have f: "uart_fair code s ob" using fair 3 by (simp add: fair_at_def)
    from uart.device_io [where c = 1, OF b(1) d(1) r(1,2) 3(2) ob 3(3) code _ f] obtain st s' d' f where
      x: "krlsve_device a s = Inr (map_option (\<lambda>v. if v = DFCERRSTUS then SYSSTUS_ERR else SYSSTUS_OK) st, s')"
      "effect p a d' f s s'" "st \<in> {Some DFCOKSTUS, Some DFCERRSTUS, None}" "st = None \<longrightarrow> code = 2"
      "kb_ext (length (sems (sk s))) (dev_extdata d')"
      by auto
    have "device_ok n R l c (length (sems (sk s))) (drivers s) d'"
      using effect_fields(8) [OF x(2) d(1)] r(1,2) 3 x(5) id by (simp add: device_ok_def)
    with 3 x show thesis by (intro go [OF x(1-4)]) simp_all
  qed
qed

end
