(* ===== verification/DevServe.thy ===== *)
theory DevServe
  imports DevInv
begin

text \<open>
  Changes of the invariant: an object put behind a handle, changed, taken off it; new objects and handles.
\<close>

section \<open>The state around one object\<close>

text \<open>
  What a service may have done to the state when it returns: the parts of the invariant that are not about handles hold,
  with \<open>c\<close> files open, and the devices are called what they were.
\<close>

definition follows :: "nat \<Rightarrow> nat \<Rightarrow> nat \<Rightarrow> nat \<Rightarrow> dst \<Rightarrow> dst \<Rightarrow> bool" where
  "follows n R l c s s' \<longleftrightarrow> base_inv n R l c s' \<and> dev_ids s' = dev_ids s"

lemma svc_same:
  assumes "svc_inv n R l E s" "follows n R l (card (open_files s)) s s'" "htab (sk s') = htab (sk s)" "objnodes s' = objnodes s"
  shows "svc_inv n R l E s'"
  using assms by (simp add: svc_inv_def follows_def open_files_def)

lemma finite_open_files: "svc_inv n R l E s \<Longrightarrow> finite (open_files s)"
  using hands_invD(5) [OF svc_invD(2)] by (simp add: open_files_def)

lemma svc_opened:
  assumes inv: "svc_inv n R l E s" and h: "htab (sk s) t = Some h" "i < 8" "h ! i = None" and a: "objnodes s a = None"
    and s': "htab (sk s') = (htab (sk s))(t \<mapsto> h[i := Some a])" "objnodes s' = (objnodes s)(a \<mapsto> ob)" "obj_inv n R (dev_ids s) ob"
    and f: "follows n R l (card (open_files s) + (if on_objtype ob = OBJN_TY_FIL then 1 else 0)) s s'"
  shows "svc_inv n R l E s'"
proof -
  note v = svc_invD [OF inv]
  note ha = hands_add(1) [where H = "htab (sk s)" and m = "objnodes s" and ob = ob, OF v(2) h a] hands_add(2) [where H = "htab (sk s)" and m = "objnodes s", OF v(2) h a]
  have new: "a \<notin> open_files s" using a by (simp add: open_files_def)
  have "open_files s' = (if on_objtype ob = OBJN_TY_FIL then insert a (open_files s) else open_files s)"
    using a unfolding open_files_def s' ha(2) by auto
  then have "card (open_files s') = card (open_files s) + (if on_objtype ob = OBJN_TY_FIL then 1 else 0)"
    using finite_open_files [OF inv] new by simp
  moreover have "obj_inv n R (dev_ids s') o'" if "b \<in> opened (htab (sk s'))" "objnodes s' b = Some o'" for b o'
    using that s'(3) v(3) [of b o'] f unfolding s'(1,2) ha(2) follows_def by (auto split: if_splits)
  ultimately show ?thesis
    using f ha(1) unfolding svc_inv_def follows_def s'(1,2) by simp
qed

lemma svc_changed:
  assumes inv: "svc_inv n R l E s" and a: "objnodes s a = Some ob" "on_objtype ob' = on_objtype ob"
    and s': "htab (sk s') = htab (sk s)" "objnodes s' = (objnodes s)(a \<mapsto> ob')" "obj_inv n R (dev_ids s) ob'"
    and f: "follows n R l (card (open_files s)) s s'"
  shows "svc_inv n R l E s'"
proof -
  note v = svc_invD [OF inv]
  have "open_files s' = open_files s"
    using a unfolding open_files_def s' by auto
  moreover have "obj_inv n R (dev_ids s') o'" if "b \<in> opened (htab (sk s'))" "objnodes s' b = Some o'" for b o'
    using that s'(3) v(3) [of b o'] f unfolding s'(1,2) follows_def by (auto split: if_splits)
  moreover have "hands_inv E (htab (sk s')) (objnodes s')"
    unfolding s'(1,2) by (rule hands_upd [OF v(2)]) (simp add: a(1))
  ultimately show ?thesis
    using f unfolding svc_inv_def follows_def by simp
qed

lemma svc_closed:
  assumes inv: "svc_inv n R l E s" and h: "htab (sk s) t = Some h" "i < 8" "h ! i = Some a" and a: "objnodes s a = Some ob"
    and s': "htab (sk s') = (htab (sk s))(t \<mapsto> h[i := None])" "objnodes s' = (objnodes s)(a := None)"
    and f: "follows n R l (card (open_files s) - (if on_objtype ob = OBJN_TY_FIL then 1 else 0)) s s'"
  shows "svc_inv n R l E s'"
proof -
  note v = svc_invD [OF inv]
  note hd' = hands_del [where H = "htab (sk s)" and m = "objnodes s", OF v(2) h]
  have len: "length h = 8" by (rule hands_invD(1) [OF v(2) h(1)])
  then have "hand_at (htab (sk s)) t i = Some a" using h by (simp add: hand_at_def)
  then have at: "a \<in> opened (htab (sk s))" unfolding opened_def by blast
  have "open_files s' = open_files s - {a}"
    unfolding open_files_def s' hd'(2) by auto
  moreover have "a \<in> open_files s \<longleftrightarrow> on_objtype ob = OBJN_TY_FIL"
    using a at by (simp add: open_files_def)
  ultimately have "card (open_files s') = card (open_files s) - (if on_objtype ob = OBJN_TY_FIL then 1 else 0)"
    using finite_open_files [OF inv] by (auto simp: card_Diff_singleton_if)
  moreover have "obj_inv n R (dev_ids s') o'" if "b \<in> opened (htab (sk s'))" "objnodes s' b = Some o'" for b o'
    using that v(3) [of b o'] f unfolding s'(1,2) hd'(2) follows_def by (auto split: if_splits)
  ultimately show ?thesis
    using f hd'(1) unfolding svc_inv_def follows_def s'(1,2) by simp
qed

section \<open>Handles and new objects\<close>

lemma the_caller:
  assumes inv: "svc_inv n R l E s" and ni: "not_idle (sk s)"
  obtains t h where "krlsched_retn_currthread (sk s) = Inr t" "threads (sk s) t = Some h" "length (td_handtbl h) = 8"
    "htab (sk s) t = Some (td_handtbl h)"
proof -
  have sch: "sched_inv (sk s)" by (rule base_invD(1) [OF svc_invD(1) [OF inv]])
  from running_at [OF sched_invD(3) [OF sch] ni] obtain t where t: "sda_currtd (sk s) = Some t" by metis
  from curr_thread [OF sch t] obtain h where h: "threads (sk s) t = Some h" by blast
  then have H: "htab (sk s) t = Some (td_handtbl h)" by (simp add: htab_def)
  show thesis
    by (rule that [of t h]) (use t h H hands_invD(1) [OF svc_invD(2) [OF inv] H] in \<open>simp_all add: krlsched_retn_currthread_def\<close>)
qed

lemma free_hand_cases:
  "free_hand tbl k = NO_HAND \<and> (\<forall>i. k \<le> i \<and> i < 8 \<longrightarrow> tbl ! i \<noteq> None) \<or>
   (\<exists>i. k \<le> i \<and> i < 8 \<and> free_hand tbl k = int i \<and> tbl ! i = None)"
proof (induction tbl k rule: free_hand.induct)
  case (1 tbl hand)
  show ?case
  proof (cases "hand < 8 \<and> tbl ! hand \<noteq> None")
    case True
    have e: "free_hand tbl hand = free_hand tbl (hand + 1)" using True by (subst free_hand.simps) auto
    have split: "hand \<le> i \<longleftrightarrow> i = hand \<or> hand + 1 \<le> i" for i by auto
    from 1 True show ?thesis unfolding e split by auto
  next
    case False
    then have e: "free_hand tbl hand = (if hand < 8 then int hand else NO_HAND)" by (subst free_hand.simps) auto
    from False show ?thesis unfolding e by auto
  qed
qed

lemma htab_set_hand [simp]:
  "htab (upd_td t (\<lambda>_. h\<lparr>td_handtbl := v\<rparr>) k) = (if threads k t = None then htab k else (htab k)(t \<mapsto> v))"
  by (auto simp: htab_def upd_td_def fun_eq_iff)

definition set_hands :: "tid \<Rightarrow> u64 option list \<Rightarrow> dst \<Rightarrow> dst" where
  "set_hands t v s = s\<lparr>sk := upd_td t (\<lambda>h. h\<lparr>td_handtbl := v\<rparr>) (sk s)\<rparr>"

lemma upd_td_const: "threads k t = Some h \<Longrightarrow> upd_td t (\<lambda>_. f h) k = upd_td t f k"
  by (simp add: upd_td_def)

lemma upd_td_same: "threads k t = Some h \<Longrightarrow> upd_td t (\<lambda>_. h) k = k"
  by (simp add: upd_td_def fun_upd_idem)

lemma add_hand_ok:
  assumes "threads (sk s) t = Some h"
  shows "add_hand t a s = Inr (NO_HAND, s) \<and> (\<forall>i < 8. td_handtbl h ! i \<noteq> None) \<or>
    (\<exists>i < 8. td_handtbl h ! i = None \<and> add_hand t a s = Inr (int i, set_hands t ((td_handtbl h)[i := Some a]) s))"
  using free_hand_cases [of "td_handtbl h" 0] assms
  by (auto simp: add_hand_def td_def krlthd_add_objnode_def Let_def NO_HAND_def set_hands_def upd_td_same
      upd_td_const [where f = "\<lambda>h. h\<lparr>td_handtbl := v\<rparr>" for v])

lemma del_hand_ok:
  assumes "threads (sk s) t = Some h" "i < 8" "td_handtbl h ! i = Some a"
  shows "del_hand t (int i) s = Inr (int i, set_hands t ((td_handtbl h)[i := None]) s)"
  using assms by (simp add: del_hand_def td_def krlthd_del_objnode_def NO_HAND_def set_hands_def
      upd_td_const [where f = "\<lambda>h. h\<lparr>td_handtbl := v\<rparr>" for v])

lemma retn_hand_ok:
  assumes "threads (sk s) t = Some h"
  shows "\<exists>p. retn_hand t f s = Inr p \<and> (p \<noteq> None \<longrightarrow> 0 \<le> f \<and> nat f < 8 \<and> td_handtbl h ! nat f = p)"
  using assms by (auto simp: retn_hand_def td_def krlthd_retn_objnode_def NO_HAND_def)

lemma set_hands_fields [simp]:
  "osdevtable (set_hands t v s) = osdevtable s" "devices (set_hands t v s) = devices s" "drivers (set_hands t v s) = drivers s"
  "machintflt (set_hands t v s) = machintflt s" "serdscs (set_hands t v s) = serdscs s" "krl_ans (set_hands t v s) = krl_ans s"
  "objnodes (set_hands t v s) = objnodes s" "umem (set_hands t v s) = umem s" "buf_ans (set_hands t v s) = buf_ans s" "length (sems (sk (set_hands t v s))) = length (sems (sk s))"
  "screen (set_hands t v s) = screen s" "not_idle (sk (set_hands t v s)) = not_idle (sk s)"
  by (simp_all add: set_hands_def upd_td_def not_idle_def)

lemma htab_set_hands: "threads (sk s) t = Some h \<Longrightarrow> htab (sk (set_hands t v s)) = (htab (sk s))(t \<mapsto> v)"
  by (auto simp: set_hands_def htab_def upd_td_def)

lemma threads_set_hands: "threads (sk s) t = Some h \<Longrightarrow> threads (sk (set_hands t v s)) t = Some (h\<lparr>td_handtbl := v\<rparr>)"
  by (simp add: set_hands_def upd_td_def)

lemma follows_refl: "base_inv n R l c s \<Longrightarrow> follows n R l c s s"
  by (simp add: follows_def)

lemma follows_trans: "follows n R l c s s' \<Longrightarrow> follows n R l c' s' s'' \<Longrightarrow> follows n R l c' s s''"
  by (simp add: follows_def)

lemma follows_cong:
  assumes "follows n R l c s s'" "sched_inv (sk s'')" "length (sems (sk s')) \<le> length (sems (sk s''))"
    "osdevtable s'' = osdevtable s'" "devices s'' = devices s'" "drivers s'' = drivers s'" "machintflt s'' = machintflt s'"
    "serdscs s'' = serdscs s'" "krl_ans s'' = krl_ans s'"
  shows "follows n R l c s s''"
  using assms(1) base_inv_cong [OF _ assms(2-), of n R l c] by (simp add: follows_def)

lemma follows_set_hands: "follows n R l c s s' \<Longrightarrow> follows n R l c s (set_hands t v s')"
proof -
  assume f: "follows n R l c s s'"
  then have "sched_inv (sk s')" by (simp add: follows_def base_inv_def)
  then have "sched_inv (upd_td t (\<lambda>h. h\<lparr>td_handtbl := v\<rparr>) (sk s'))" by (rule sched_inv_htab) simp_all
  then show ?thesis by (intro follows_cong [OF f]) (simp_all, simp add: set_hands_def)
qed

lemma follows_upd_obj [simp]: "follows n R l c s (upd_obj a f s') = follows n R l c s s'"
proof
  show "follows n R l c s (upd_obj a f s')" if "follows n R l c s s'"
    by (rule follows_cong [OF that]) (use that in \<open>simp_all add: upd_obj_def follows_def base_inv_def\<close>)
  show "follows n R l c s s'" if "follows n R l c s (upd_obj a f s')"
    by (rule follows_cong [OF that]) (use that in \<open>simp_all add: upd_obj_def follows_def base_inv_def\<close>)
qed

lemma new_obj_cases:
  assumes base: "base_inv n R l c s"
  obtains (refused) s' where "krlnew_objnode s = (None, s')" "follows n R l c s s'" "objnodes s' = objnodes s" "sk s' = sk s" "umem s' = umem s"
  | (made) a w s' where "krlnew_objnode s = (Some a, s')" "follows n R l c s s'" "objnodes s a = None"
      "objnodes s' = (objnodes s)(a \<mapsto> objnode_t_init w)" "threads (sk s') = threads (sk s)" "umem s' = umem s" "devices s' = devices s"
      "osdevtable s' = osdevtable s" "buf_ans s' = buf_ans s"
proof -
  let ?a = "krl_ans s (krl_calls s) (in_use s)"
  have fol: "follows n R l c s (s\<lparr>krl_calls := k\<rparr>)" for k
    by (rule follows_cong [OF follows_refl [OF base]]) (use base in \<open>simp_all add: base_inv_def\<close>)
  show thesis
  proof (cases "?a = 0")
    case True
    then show thesis using fol by (intro refused [of "s\<lparr>krl_calls := Suc (krl_calls s)\<rparr>"]) (simp_all add: krlnew_objnode_def krlnew_def)
  next
    case False
    then have "?a \<notin> in_use s" using base_invD(5) [OF base] by blast
    then have fresh: "objnodes s ?a = None" by (auto simp: in_use_def domIff)
    let ?s = "s\<lparr>krl_calls := Suc (krl_calls s), sk := (sk s)\<lparr>sems := sems (sk s) @ [krlsem_t_init]\<rparr>,
      objnodes := (objnodes s)(?a \<mapsto> objnode_t_init (length (sems (sk s))))\<rparr>"
    have "follows n R l c s ?s"
      by (rule follows_cong [OF follows_refl [OF base]]) (use base sched_inv_new_sem in \<open>simp_all add: base_inv_def\<close>)
    with False fresh show thesis
      by (intro made [of ?a ?s "length (sems (sk s))"]) (simp_all add: krlnew_objnode_def krlnew_def new_sem_def)
  qed
qed

end
