(* ===== verification/DevReq.thy ===== *)
theory DevReq
  imports DevServe
begin

text \<open>
  Read, write, control and close through a handle.
\<close>

section \<open>Requests through a handle\<close>

text \<open>The object behind a handle of the running thread, and the name of its device.\<close>

definition behind :: "dst \<Rightarrow> int \<Rightarrow> kobj \<Rightarrow> devid \<Rightarrow> bool" where
  "behind s f ob i \<longleftrightarrow> (\<exists>t h a p. sda_currtd (sk s) = Some t \<and> htab (sk s) t = Some h \<and> 0 \<le> f \<and> nat f < 8 \<and>
     h ! nat f = Some a \<and> objnodes s a = Some ob \<and> on_objadr ob = Some p \<and> dev_ids s p = Some i)"

lemma fair_at_cong: "umem s' = umem s \<Longrightarrow> not_idle (sk s') = not_idle (sk s) \<Longrightarrow> buf_ans s' = buf_ans s \<Longrightarrow>
    fair_at code s' i ob = fair_at code s i ob"
  by (simp add: fair_at_def rfs_fair_def packet_of_def ubuf_def ustr_def uart_fair_def)

lemma hand_obj:
  assumes inv: "svc_inv n R l E s" and t: "krlsched_retn_currthread (sk s) = Inr t" "htab (sk s) t = Some h" "0 \<le> f" "nat f < 8"
    "h ! nat f = Some a"
  obtains ob p i where "objnodes s a = Some ob" "on_objadr ob = Some p" "dev_ids s p = Some i" "behind s f ob i"
    "if i = rfs_id then on_objtype ob = OBJN_TY_FIL \<and> file_node n R (on_finode ob) else on_objtype ob = OBJN_TY_DEV"
    "i = rfs_id \<longrightarrow> 0 < card (open_files s)"
proof -
  note v = svc_invD [OF inv]
  have "length h = 8" by (rule hands_invD(1) [OF v(2) t(2)])
  then have "hand_at (htab (sk s)) t (nat f) = Some a" using t by (simp add: hand_at_def)
  then have a: "a \<in> opened (htab (sk s))" by (auto simp: opened_def)
  then have "a \<in> dom (objnodes s)" using hands_invD(4) [OF v(2)] by simp
  then obtain ob where ob: "objnodes s a = Some ob" by blast
  from v(3) [OF a ob] obtain p i where p: "on_objadr ob = Some p" "dev_ids s p = Some i"
    "if i = rfs_id then on_objtype ob = OBJN_TY_FIL \<and> file_node n R (on_finode ob) else on_objtype ob = OBJN_TY_DEV"
    by (auto simp: obj_inv_def)
  have "sda_currtd (sk s) = Some t" using t(1) by (simp add: krlsched_retn_currthread_def split: option.splits)
  then have "behind s f ob i" using t ob p unfolding behind_def by blast
  moreover have "0 < card (open_files s)" if "i = rfs_id"
  proof -
    have "a \<in> open_files s" using that p(3) a ob by (simp add: open_files_def)
    with finite_open_files [OF inv] show ?thesis by (auto simp: card_gt_0_iff)
  qed
  ultimately show thesis using ob p by (intro that) auto
qed

lemma follows_obj_call:
  assumes inv: "svc_inv n R l E s" and ob: "objnodes s a = Some ob" "on_objadr ob = Some p" "dev_ids s p = Some i"
      "if i = rfs_id then on_objtype ob = OBJN_TY_FIL \<and> file_node n R (on_finode ob) else on_objtype ob = OBJN_TY_DEV"
      "i = rfs_id \<longrightarrow> 0 < card (open_files s)"
    and g: "on_objtype (g ob) = on_objtype ob" "on_objadr (g ob) = on_objadr ob" "on_finode (g ob) = on_finode ob"
      "on_opercode (g ob) = int code" "code \<in> {1, 2, 3, 5}"
    and fair: "fair_at code s i (g ob)"
  obtains st s' f where "krlsve_device a (upd_obj a g s) = Inr (map_option (\<lambda>v. if v = DFCERRSTUS then SYSSTUS_ERR else SYSSTUS_OK) st, s')"
    "st \<in> {Some DFCOKSTUS, Some DFCERRSTUS, None}" "st = None \<longrightarrow> code = 2"
    "objnodes s' = (objnodes s)(a \<mapsto> (g ob)\<lparr>on_finode := f\<rparr>)" "htab (sk s') = htab (sk s)"
    "follows n R l (card (open_files s) - (if i = rfs_id \<and> code = 1 \<and> st = Some DFCOKSTUS then 1 else 0)) s s'"
    "\<not> (code = 1 \<and> st = Some DFCOKSTUS) \<longrightarrow> svc_inv n R l E s'"
proof -
  let ?s = "upd_obj a g s" let ?c = "card (open_files s)"
  have fol: "follows n R l ?c s ?s" using follows_refl [OF svc_invD(1) [OF inv]] by simp
  then have base: "base_inv n R l ?c ?s" and ids: "dev_ids ?s = dev_ids s" by (simp_all add: follows_def)
  have o1: "objnodes ?s a = Some (g ob)" using ob(1) by (simp add: upd_obj_def)
  have o2: "on_objtype (g ob) \<in> {OBJN_TY_DEV, OBJN_TY_FIL}" "on_objadr (g ob) = Some p" using ob g by (simp_all split: if_splits)
  have fa: "fair_at code ?s i (g ob)" using fair_at_cong [of ?s s] fair by (simp add: upd_obj_def)
  have code: "code \<in> fileops" using g(5) by (auto simp: fileops_def)
  have i': "dev_ids ?s p = Some i" using ids ob(3) by simp
  have nd: "file_node n R (on_finode (g ob)) \<and> 0 < ?c" if "i = rfs_id" "code \<noteq> 0" using that ob(4,5) g(3) by simp
  from device_call [OF base o1 o2 i' code g(4) nd fa] obtain st s' d' f c' where
    r: "krlsve_device a ?s = Inr (map_option (\<lambda>v. if v = DFCERRSTUS then SYSSTUS_ERR else SYSSTUS_OK) st, s')"
    "effect p a d' f ?s s'" "base_inv n R l c' s'" "dev_ids s' = dev_ids ?s"
    "st \<in> {Some DFCOKSTUS, Some DFCERRSTUS, None}" "st = None \<longrightarrow> code = 2"
    "c' = (if i = rfs_id then files_after code st (on_acsflgs (g ob)) ?c else ?c)"
    "i = rfs_id \<and> code \<noteq> 0 \<and> \<not> (code = 1 \<and> st = Some DFCOKSTUS) \<longrightarrow> file_node n R f"
    "i = rfs_id \<and> code = 0 \<and> st = Some DFCOKSTUS \<and> on_acsflgs (g ob) = 2 \<longrightarrow> file_node n R f" by blast
  note e = effect_fields [OF r(2)]
  have objs: "objnodes s' = (objnodes s)(a \<mapsto> (g ob)\<lparr>on_finode := f\<rparr>)"
    using e(7) [OF o1] ob(1) by (simp add: upd_obj_def)
  have H: "htab (sk s') = htab (sk s)" using e(11) by (simp add: upd_obj_def)
  have c': "c' = ?c - (if i = rfs_id \<and> code = 1 \<and> st = Some DFCOKSTUS then 1 else 0)"
    using r(7) g(5) by (auto simp: files_after_def)
  have fo: "follows n R l (?c - (if i = rfs_id \<and> code = 1 \<and> st = Some DFCOKSTUS then 1 else 0)) s s'"
    using r(3,4) ids c' by (simp add: follows_def)
  have "svc_inv n R l E s'" if no: "\<not> (code = 1 \<and> st = Some DFCOKSTUS)"
  proof (rule svc_changed [OF inv ob(1) _ H objs])
    have "code \<noteq> 0" using g(5) by auto
    with r(8) no have "i = rfs_id \<Longrightarrow> file_node n R f" by blast
    with ob(2-4) g(1,2) show "obj_inv n R (dev_ids s) ((g ob)\<lparr>on_finode := f\<rparr>)"
      by (auto simp: obj_inv_def split: if_splits)
    show "follows n R l ?c s s'" using fo no by (simp split: if_splits)
  qed (simp add: g(1))
  with r(1,5,6) objs H fo show thesis by (intro that [of st s' f]) auto
qed

lemma request_ok:
  assumes inv: "svc_inv n R l E s" and ni: "not_idle (sk s)"
    and g: "\<And>ob. on_objtype (g ob) = on_objtype ob" "\<And>ob. on_objadr (g ob) = on_objadr ob" "\<And>ob. on_finode (g ob) = on_finode ob"
      "\<And>ob. on_opercode (g ob) = int code" "code \<in> {2, 3, 5}"
    and fair: "\<And>ob i. behind s f ob i \<Longrightarrow> fair_at code s i (g ob)"
  shows "\<exists>v s'. on_hand f g krlsve_device s = Inr (v, s') \<and> svc_inv n R l E s' \<and> htab (sk s') = htab (sk s) \<and>
    dom (objnodes s') = dom (objnodes s)"
proof -
  from the_caller [OF inv ni] obtain t h where t: "krlsched_retn_currthread (sk s) = Inr t" "threads (sk s) t = Some h"
    "htab (sk s) t = Some (td_handtbl h)" by metis
  from retn_hand_ok [OF t(2), of f] obtain p where p: "retn_hand t f s = Inr p"
    "p \<noteq> None \<longrightarrow> 0 \<le> f \<and> nat f < 8 \<and> td_handtbl h ! nat f = p" by blast
  show ?thesis
  proof (cases p)
    case None
    with t p inv show ?thesis
      by (intro exI [of _ "Some SYSSTUS_ERR"] exI [of _ s]) (simp add: on_hand_def reports_def)
  next
    case (Some a)
    with p(2) have f: "0 \<le> f" "nat f < 8" "td_handtbl h ! nat f = Some a" by simp_all
    from hand_obj [OF inv t(1,3) f] obtain ob q i where ob: "objnodes s a = Some ob" "on_objadr ob = Some q" "dev_ids s q = Some i"
      "behind s f ob i"
      "if i = rfs_id then on_objtype ob = OBJN_TY_FIL \<and> file_node n R (on_finode ob) else on_objtype ob = OBJN_TY_DEV"
      "i = rfs_id \<longrightarrow> 0 < card (open_files s)" by metis
    have ty: "on_objtype ob = OBJN_TY_DEV \<or> on_objtype ob = OBJN_TY_FIL" using ob(5) by (auto split: if_splits)
    have code: "code \<in> {1, 2, 3, 5}" "code \<noteq> 1" using g(5) by auto
    from follows_obj_call [where g = g and code = code, OF inv ob(1-3,5,6) g(1-4) code(1) fair [OF ob(4)]] obtain st s' f' where
      r: "krlsve_device a (upd_obj a g s) = Inr (map_option (\<lambda>v. if v = DFCERRSTUS then SYSSTUS_ERR else SYSSTUS_OK) st, s')"
      "objnodes s' = (objnodes s)(a \<mapsto> (g ob)\<lparr>on_finode := f'\<rparr>)" "htab (sk s') = htab (sk s)"
      "\<not> (code = 1 \<and> st = Some DFCOKSTUS) \<longrightarrow> svc_inv n R l E s'" by metis
    have "on_hand f g krlsve_device s = Inr (map_option (\<lambda>v. if v = DFCERRSTUS then SYSSTUS_ERR else SYSSTUS_OK) st, s')"
      using t p Some ob(1) ty r(1) by (simp add: on_hand_def at_def)
    moreover have "dom (objnodes s') = dom (objnodes s)" using r(2) ob(1) by auto
    ultimately show ?thesis using r(3,4) code(2) by blast
  qed
qed

section \<open>Close\<close>

lemma close_ok:
  assumes inv: "svc_inv n R l E s" and ni: "not_idle (sk s)"
  shows "\<exists>v s'. krlsve_close f s = Inr (Some v, s') \<and> svc_inv n R l E s' \<and> v \<in> {SYSSTUS_OK, SYSSTUS_ERR} \<and>
    (\<forall>t h. sda_currtd (sk s) = Some t \<and> htab (sk s) t = Some h \<longrightarrow>
      htab (sk s') = (if v = SYSSTUS_OK then (htab (sk s))(t \<mapsto> h[nat f := None]) else htab (sk s)) \<and>
      dom (objnodes s') = (if v = SYSSTUS_OK then dom (objnodes s) - {the (h ! nat f)} else dom (objnodes s)))"
proof -
  from the_caller [OF inv ni] obtain t h where t: "krlsched_retn_currthread (sk s) = Inr t" "threads (sk s) t = Some h"
    "htab (sk s) t = Some (td_handtbl h)" by metis
  have cur: "sda_currtd (sk s) = Some t" using t(1) by (simp add: krlsched_retn_currthread_def split: option.splits)
  from retn_hand_ok [OF t(2), of f] obtain p where p: "retn_hand t f s = Inr p"
    "p \<noteq> None \<longrightarrow> 0 \<le> f \<and> nat f < 8 \<and> td_handtbl h ! nat f = p" by blast
  have ok: "SYSSTUS_ERR \<noteq> SYSSTUS_OK" by (simp add: SYSSTUS_ERR_def SYSSTUS_OK_def)
  show ?thesis
  proof (cases "f < 0 \<or> 8 \<le> f \<or> p = None")
    case True
    have "krlsve_close f s = Inr (Some SYSSTUS_ERR, s)"
      using True t p by (auto simp: krlsve_close_def krlsve_core_close_def reports_def)
    then show ?thesis using inv ok cur t(3) by (intro exI [of _ SYSSTUS_ERR] exI [of _ s]) simp
  next
    case False
    then obtain a where a: "p = Some a" by blast
    with p(2) have f: "0 \<le> f" "nat f < 8" "td_handtbl h ! nat f = Some a" by simp_all
    from hand_obj [OF inv t(1,3) f] obtain ob q i where ob: "objnodes s a = Some ob" "on_objadr ob = Some q" "dev_ids s q = Some i"
      "behind s f ob i"
      "if i = rfs_id then on_objtype ob = OBJN_TY_FIL \<and> file_node n R (on_finode ob) else on_objtype ob = OBJN_TY_DEV"
      "i = rfs_id \<longrightarrow> 0 < card (open_files s)" by metis
    have ty: "on_objtype ob = OBJN_TY_DEV \<or> on_objtype ob = OBJN_TY_FIL" using ob(5) by (auto split: if_splits)
    let ?g = "\<lambda>ob. ob\<lparr>on_opercode := 1\<rparr>"
    have fair: "fair_at 1 s i (?g ob)"
      by (simp add: fair_at_def rfs_fair_def packet_of_def fair_packet_def takes_buffers_def uart_fair_def)
    from follows_obj_call [where g = ?g and code = 1, OF inv ob(1-3,5,6) _ _ _ _ _ fair] obtain st s1 f' where
      r: "krlsve_device a (upd_obj a ?g s) = Inr (map_option (\<lambda>v. if v = DFCERRSTUS then SYSSTUS_ERR else SYSSTUS_OK) st, s1)"
      "st \<in> {Some DFCOKSTUS, Some DFCERRSTUS, None}" "st = None \<longrightarrow> (1 :: nat) = 2"
      "objnodes s1 = (objnodes s)(a \<mapsto> (?g ob)\<lparr>on_finode := f'\<rparr>)" "htab (sk s1) = htab (sk s)"
      "follows n R l (card (open_files s) - (if i = rfs_id \<and> (1 :: nat) = 1 \<and> st = Some DFCOKSTUS then 1 else 0)) s s1"
      "\<not> ((1 :: nat) = 1 \<and> st = Some DFCOKSTUS) \<longrightarrow> svc_inv n R l E s1" by simp blast
    have H1: "htab (sk s1) t = Some (td_handtbl h)" using r(5) t(3) by simp
    then obtain h1 where h1: "threads (sk s1) t = Some h1" "td_handtbl h1 = td_handtbl h" by (auto simp: htab_def)
    show ?thesis
    proof (cases "st = Some DFCOKSTUS")
      case True
      let ?s = "set_hands t ((td_handtbl h)[nat f := None]) s1"
      let ?s2 = "?s\<lparr>objnodes := (objnodes s)(a := None)\<rparr>"
      have d: "del_hand t f s1 = Inr (f, ?s)"
        using del_hand_ok [OF h1(1) f(2)] f h1(2) by simp
      have o: "objnodes ?s a = Some ((?g ob)\<lparr>on_finode := f'\<rparr>)" using r(4) by simp
      have k: "krldel_objnode a ?s = Inr ?s2" using o r(4) by (simp add: krldel_objnode_def)
      have "krlsve_close f s = Inr (Some SYSSTUS_OK, ?s2)"
        using False t p a ob(1) ty r(1) True d k f ok
        by (simp add: krlsve_close_def krlsve_core_close_def at_def then_if_back_def reports_def krlsve_close_device_def NO_HAND_def)
      moreover have H2: "htab (sk ?s2) = (htab (sk s))(t \<mapsto> (td_handtbl h)[nat f := None])"
        using htab_set_hands [OF h1(1)] r(5) by simp
      have fo: "follows n R l (card (open_files s) - (if on_objtype ob = OBJN_TY_FIL then 1 else 0)) s s1"
        using r(6) True ob(5) by (auto split: if_splits)
      have "follows n R l (card (open_files s) - (if on_objtype ob = OBJN_TY_FIL then 1 else 0)) s ?s2"
        by (rule follows_cong [OF follows_set_hands [OF fo]])
          (use follows_set_hands [OF fo] in \<open>simp_all add: follows_def base_inv_def\<close>)
      then have "svc_inv n R l E ?s2"
        by (intro svc_closed [OF inv t(3) f(2,3) ob(1) H2]) simp_all
      moreover have "dom (objnodes ?s2) = dom (objnodes s) - {a}" by simp
      ultimately show ?thesis
        using H2 cur t(3) f(3) by (intro exI [of _ SYSSTUS_OK] exI [of _ ?s2]) simp
    next
      case False
      with r(2,3) have st: "st = Some DFCERRSTUS" by auto
      then have "krlsve_close f s = Inr (Some SYSSTUS_ERR, s1)"
        using \<open>\<not> (f < 0 \<or> 8 \<le> f \<or> p = None)\<close> t p a ob(1) ty r(1)
        by (simp add: krlsve_close_def krlsve_core_close_def at_def then_if_back_def reports_def krlsve_close_device_def)
      moreover have "dom (objnodes s1) = dom (objnodes s)" using r(4) ob(1) by auto
      ultimately show ?thesis
        using r(5,7) st ok by (intro exI [of _ SYSSTUS_ERR] exI [of _ s1]) simp
    qed
  qed
qed

end
