(* ===== verification/DevOpen.thy ===== *)
theory DevOpen
  imports DevReq
begin

text \<open>
  Open: devices, new files and existing ones, and what is given back when it fails.
\<close>

section \<open>What open prints\<close>

lemma vsprintfk_plain:
  "37 \<notin> set cs \<Longrightarrow> length out + length cs \<le> 512 \<Longrightarrow> vsprintfk out (cs @ fmt) args = vsprintfk (out @ cs) fmt args"
  by (induction cs arbitrary: out) (auto simp: put_char_def)

lemma open_print: "\<exists>x. print open_msg [Num m] s = Inr (s\<lparr>screen := screen s @ [x]\<rparr>)"
proof -
  let ?pre = "map of_char ''call open ok had'' :: u8 list" let ?post = "[32, 10, 13] :: u8 list"
  have msg: "open_msg = ?pre @ [37, 120] @ ?post" by (simp add: open_msg_def)
  have pre: "37 \<notin> set ?pre" "length ?pre = 16" by simp_all
  from numberk_ok [of 16 m] obtain ds where ds: "length ds \<le> 32"
    "\<forall>out. length out + length ds \<le> 512 \<longrightarrow> numberk out m 16 = Inr (out @ ds)" by auto
  have "kprint open_msg [Num m] = vsprintfk ?pre ([37, 120] @ ?post) [Num m]"
    unfolding kprint_def msg using vsprintfk_plain [OF pre(1), of "[]" "[37, 120] @ ?post" "[Num m]"] by (simp only: append_Nil) simp
  also have "\<dots> = vsprintfk (?pre @ ds) ?post []"
    using ds by simp
  also have "\<dots> = Inr (?pre @ ds @ ?post)"
    using vsprintfk_plain [of ?post "?pre @ ds" "[]" "[]"] ds(1) by (simp add: put_char_def)
  finally show ?thesis by (auto simp: print_def)
qed

section \<open>The call of the driver\<close>

lemma open_call:
  assumes fol: "follows n R l c s s2" and ob: "objnodes s2 a = Some ob" "on_objtype ob \<in> {OBJN_TY_DEV, OBJN_TY_FIL}" "on_objadr ob = Some p"
      "on_opercode ob = 0" and i: "dev_ids s p = Some i" and fair: "fair_at 0 s2 i ob"
  obtains v s3 f where "krlsve_device a s2 = Inr (Some v, s3)" "v \<in> {SYSSTUS_OK, SYSSTUS_ERR}"
    "objnodes s3 = (objnodes s2)(a \<mapsto> ob\<lparr>on_finode := f\<rparr>)" "htab (sk s3) = htab (sk s2)"
    "follows n R l (c + (if i = rfs_id \<and> on_acsflgs ob = 2 \<and> v = SYSSTUS_OK then 1 else 0)) s s3"
    "i = rfs_id \<and> on_acsflgs ob = 2 \<and> v = SYSSTUS_OK \<longrightarrow> file_node n R f"
proof -
  have base: "base_inv n R l c s2" and ids: "dev_ids s2 p = Some i" and ids': "dev_ids s2 = dev_ids s" using fol i by (simp_all add: follows_def)
  from device_call [where code = 0, OF base ob(1-3) ids _ _ _ fair] ob(4) obtain st s' d' f c' where
    r: "krlsve_device a s2 = Inr (map_option (\<lambda>v. if v = DFCERRSTUS then SYSSTUS_ERR else SYSSTUS_OK) st, s')"
    "effect p a d' f s2 s'" "base_inv n R l c' s'" "dev_ids s' = dev_ids s2"
    "st \<in> {Some DFCOKSTUS, Some DFCERRSTUS, None}" "st = None \<longrightarrow> (0 :: nat) = 2"
    "c' = (if i = rfs_id then files_after 0 st (on_acsflgs ob) c else c)"
    "i = rfs_id \<and> (0 :: nat) = 0 \<and> st = Some DFCOKSTUS \<and> on_acsflgs ob = 2 \<longrightarrow> file_node n R f"
    by (simp add: fileops_def) blast
  note e = effect_fields [OF r(2)]
  have ok: "SYSSTUS_ERR \<noteq> SYSSTUS_OK" by (simp add: SYSSTUS_ERR_def SYSSTUS_OK_def)
  from r(5,6) obtain v where v: "st = Some v" "v \<in> {DFCOKSTUS, DFCERRSTUS}" by auto
  have "c' = c + (if i = rfs_id \<and> on_acsflgs ob = 2 \<and> v = DFCOKSTUS then 1 else 0)"
    using r(7) v by (auto simp: files_after_def)
  then have "follows n R l (c + (if i = rfs_id \<and> on_acsflgs ob = 2 \<and> v = DFCOKSTUS then 1 else 0)) s s'"
    using r(3,4) ids' by (simp add: follows_def)
  with r(1,8) v ok e(7) [OF ob(1)] e(11) show thesis
    by (intro that [of "if v = DFCERRSTUS then SYSSTUS_ERR else SYSSTUS_OK" s' f]) auto
qed

lemma open_status:
  assumes fol: "follows n R l c s s2" and ob: "objnodes s2 a = Some ob" "on_objtype ob \<in> {OBJN_TY_DEV, OBJN_TY_FIL}" "on_objadr ob = Some p"
      "on_opercode ob = 0" and i: "dev_ids s p = Some rfs_id" and d: "devices s2 p = Some d" "dev_extdata d = RfsExt r"
    and pk: "packet_of s2 ob = Inr pk" "rfs_open (lend (buf_ans s2) r) pk = Inr (st, pk', r')"
  shows "\<exists>s'. krlsve_device a s2 = Inr (Some (if st = DFCERRSTUS then SYSSTUS_ERR else SYSSTUS_OK), s')"
proof -
  have base: "base_inv n R l c s2" and ids: "dev_ids s2 p = Some rfs_id" using fol i by (simp_all add: follows_def)
  then have p: "p \<in> set (devlist s2)" and id: "dev_id d = rfs_id" using d(1) by (simp_all add: dev_ids_def split: if_splits)
  from base_invD(3) [OF base] p d(1) have "device_ok n R l c (length (sems (sk s2))) (drivers s2) d"
    unfolding devs_inv_def by force
  with id obtain rp r0 where r0: "dev_drv d = Some rp" "drivers s2 rp = Some r0" "drv_dipfun r0 = rfs_tab"
    unfolding device_ok_def by auto
  have "rfs_tab ! 0 = Rfs_open" by (simp add: rfs_tab_def)
  with d r0 ob pk show ?thesis
    by (auto simp: krlsve_device_def krldev_io_def krldev_call_driver_def at_def then_if_back_def answers_def reports_def
        call_rfs_def rfs_of_def)
qed


section \<open>Giving back what could not be opened\<close>

definition unopened :: "dst \<Rightarrow> dst \<Rightarrow> bool" where
  "unopened s s' \<longleftrightarrow> htab (sk s') = htab (sk s) \<and> objnodes s' = objnodes s"

lemma follows_screen: "follows n R l c s s' \<Longrightarrow> follows n R l c s (s'\<lparr>screen := x\<rparr>)"
  using follows_cong [where s'' = "s'\<lparr>screen := x\<rparr>"] by (simp add: follows_def base_inv_def)

lemma follows_objs: "follows n R l c s s' \<Longrightarrow> follows n R l c s (s'\<lparr>objnodes := x\<rparr>)"
  using follows_cong [where s'' = "s'\<lparr>objnodes := x\<rparr>"] by (simp add: follows_def base_inv_def)

lemma svc_unopened:
  "svc_inv n R l E s \<Longrightarrow> follows n R l (card (open_files s)) s s' \<Longrightarrow> unopened s s' \<Longrightarrow> svc_inv n R l E s'"
  by (simp add: unopened_def svc_same)

lemma res_step_none:
  assumes inv: "svc_inv n R l E s" and fol: "follows n R l (card (open_files s)) s s1" and a: "objnodes s a = None"
    and s1: "objnodes s1 = (objnodes s)(a \<mapsto> ob)" "htab (sk s1) = htab (sk s)"
  shows "\<exists>s'. res_step t a NO_HAND s1 = Inr (Some NO_HAND, s') \<and> svc_inv n R l E s' \<and> unopened s s'"
proof -
  from open_print [of "of_int NO_HAND" s1] obtain x where x: "print open_msg [Num (of_int NO_HAND)] s1 = Inr (s1\<lparr>screen := screen s1 @ [x]\<rparr>)"
    by blast
  let ?s = "s1\<lparr>screen := screen s1 @ [x]\<rparr>" let ?s2 = "?s\<lparr>objnodes := objnodes s\<rparr>"
  have gone: "(objnodes s1)(a := None) = objnodes s" using a s1(1) by auto
  have "res_step t a NO_HAND s1 = Inr (Some NO_HAND, ?s2)"
    using x s1(1) gone by (simp add: res_step_def krldel_objnode_def reports_def)
  moreover have "unopened s ?s2" using s1(2) by (simp add: unopened_def)
  moreover from svc_unopened [OF inv _ this] have "svc_inv n R l E ?s2"
    using follows_objs [OF follows_screen [OF fol]] by blast
  ultimately show ?thesis by blast
qed

lemma res_step_hand:
  assumes inv: "svc_inv n R l E s" and fol: "follows n R l (card (open_files s)) s s1" and a: "objnodes s a = None"
    and s1: "objnodes s1 = (objnodes s)(a \<mapsto> ob)" "htab (sk s) t = Some h" "j < 8" "h ! j = None"
      "htab (sk s1) = (htab (sk s))(t \<mapsto> h[j := Some a])"
  shows "\<exists>s'. res_step t a (int j) s1 = Inr (Some NO_HAND, s') \<and> svc_inv n R l E s' \<and> unopened s s'"
proof -
  from open_print [of "of_int (int j)" s1] obtain x where x: "print open_msg [Num (of_int (int j))] s1 = Inr (s1\<lparr>screen := screen s1 @ [x]\<rparr>)"
    by blast
  let ?s = "s1\<lparr>screen := screen s1 @ [x]\<rparr>"
  have len: "length h = 8" by (rule hands_invD(1) [OF svc_invD(2) [OF inv] s1(2)])
  have "htab (sk ?s) t = Some (h[j := Some a])" using s1(5) by simp
  then obtain g where g: "threads (sk ?s) t = Some g" "td_handtbl g = h[j := Some a]" by (auto simp: htab_def)
  have here: "td_handtbl g ! j = Some a" using g(2) s1(3) len by simp
  have old: "(h[j := Some a])[j := None] = h" using s1(3,4) len by (metis list_update_id list_update_overwrite)
  let ?s2 = "set_hands t h ?s" let ?s3 = "?s2\<lparr>objnodes := objnodes s\<rparr>"
  have d: "del_hand t (int j) ?s = Inr (int j, ?s2)"
    using del_hand_ok [OF g(1) s1(3) here] g(2) old by simp
  have gone: "(objnodes s1)(a := None) = objnodes s" using a s1(1) by auto
  have "objnodes ?s2 a \<noteq> None" using s1(1) by simp
  then have "res_step t a (int j) s1 = Inr (Some NO_HAND, ?s3)"
    using x d gone by (simp add: res_step_def krldel_objnode_def reports_def NO_HAND_def)
  moreover have "unopened s ?s3"
    using htab_set_hands [OF g(1), of h] s1(2,5) by (simp add: unopened_def fun_upd_idem)
  moreover from svc_unopened [OF inv _ this] have "svc_inv n R l E ?s3"
    using follows_objs [OF follows_set_hands [OF follows_screen [OF fol]]] by blast
  ultimately show ?thesis by blast
qed

section \<open>An object on a handle\<close>

text \<open>A new object on the device called \<open>i\<close> is behind the first place \<open>v\<close> that was free in the table of \<open>t\<close>.\<close>

definition opened_on :: "tid \<Rightarrow> devid \<Rightarrow> int \<Rightarrow> dst \<Rightarrow> dst \<Rightarrow> bool" where
  "opened_on t i v s s' \<longleftrightarrow> (\<exists>h j a ob p. v = int j \<and> j < 8 \<and> htab (sk s) t = Some h \<and> h ! j = None \<and>
     htab (sk s') = (htab (sk s))(t \<mapsto> h[j := Some a]) \<and> objnodes s a = None \<and> objnodes s' = (objnodes s)(a \<mapsto> ob) \<and>
     on_objadr ob = Some p \<and> dev_ids s p = Some i)"

lemma open_hand:
  assumes inv: "svc_inv n R l E s" and t: "threads (sk s) t = Some h" "htab (sk s) t = Some (td_handtbl h)"
    and fol: "follows n R l (card (open_files s)) s s1" and a: "objnodes s a = None" "objnodes s1 = (objnodes s)(a \<mapsto> ob)"
      "threads (sk s1) = threads (sk s)"
    and ob: "on_objtype ob \<in> {OBJN_TY_DEV, OBJN_TY_FIL}" "on_objadr ob = Some p" "on_opercode ob = 0" "dev_ids s p = Some i"
    and fair: "\<forall>s2. umem s2 = umem s1 \<and> buf_ans s2 = buf_ans s1 \<longrightarrow> fair_at 0 s2 i ob"
  obtains (full) "add_hand t a s1 = Inr (NO_HAND, s1)" "\<forall>j < 8. td_handtbl h ! j \<noteq> None"
    "\<exists>s'. res_step t a NO_HAND s1 = Inr (Some NO_HAND, s') \<and> svc_inv n R l E s' \<and> unopened s s'"
  | (there) j v s2 s3 where "j < 8" "td_handtbl h ! j = None" "add_hand t a s1 = Inr (int j, s2)"
      "s2 = set_hands t ((td_handtbl h)[j := Some a]) s1" "krlsve_device a s2 = Inr (Some v, s3)" "v \<in> {SYSSTUS_OK, SYSSTUS_ERR}"
      "v = SYSSTUS_OK \<and> (if i = rfs_id then on_objtype ob = OBJN_TY_FIL \<and> on_acsflgs ob = 2 else on_objtype ob = OBJN_TY_DEV) \<longrightarrow>
        svc_inv n R l E s3 \<and> opened_on t i (int j) s s3"
      "v = SYSSTUS_ERR \<longrightarrow> (\<exists>s'. res_step t a (int j) s3 = Inr (Some NO_HAND, s') \<and> svc_inv n R l E s' \<and> unopened s s')"
proof -
  let ?c = "card (open_files s)"
  have t1: "threads (sk s1) t = Some h" using a(3) t(1) by simp
  have H1: "htab (sk s1) = htab (sk s)" using a(3) by (simp add: htab_def fun_eq_iff)
  show thesis
  proof (cases "\<exists>j < 8. td_handtbl h ! j = None \<and> add_hand t a s1 = Inr (int j, set_hands t ((td_handtbl h)[j := Some a]) s1)")
    case False
    with add_hand_ok [OF t1, of a] have "add_hand t a s1 = Inr (NO_HAND, s1)" "\<forall>j < 8. td_handtbl h ! j \<noteq> None" by auto
    with res_step_none [OF inv fol a(1,2) H1] show thesis by (intro full) auto
  next
    case True
    then obtain j where j: "j < 8" "td_handtbl h ! j = None"
      "add_hand t a s1 = Inr (int j, set_hands t ((td_handtbl h)[j := Some a]) s1)" by blast
    let ?s2 = "set_hands t ((td_handtbl h)[j := Some a]) s1"
    have o2: "objnodes ?s2 a = Some ob" using a(2) by simp
    have f2: "fair_at 0 ?s2 i ob" using fair by simp
    from open_call [OF follows_set_hands [OF fol] o2 ob(1-4) f2] obtain v s3 f where
      r: "krlsve_device a ?s2 = Inr (Some v, s3)" "v \<in> {SYSSTUS_OK, SYSSTUS_ERR}"
      "objnodes s3 = (objnodes ?s2)(a \<mapsto> ob\<lparr>on_finode := f\<rparr>)" "htab (sk s3) = htab (sk ?s2)"
      "follows n R l (?c + (if i = rfs_id \<and> on_acsflgs ob = 2 \<and> v = SYSSTUS_OK then 1 else 0)) s s3"
      "i = rfs_id \<and> on_acsflgs ob = 2 \<and> v = SYSSTUS_OK \<longrightarrow> file_node n R f" .
    have ok: "SYSSTUS_ERR \<noteq> SYSSTUS_OK" by (simp add: SYSSTUS_ERR_def SYSSTUS_OK_def)
    have o3: "objnodes s3 = (objnodes s)(a \<mapsto> ob\<lparr>on_finode := f\<rparr>)" using r(3) a(2) by simp
    have H3: "htab (sk s3) = (htab (sk s))(t \<mapsto> (td_handtbl h)[j := Some a])"
      using r(4) htab_set_hands [OF t1] H1 by simp
    show thesis
    proof (rule there [OF j(1,2,3) refl r(1,2)])
      show "v = SYSSTUS_OK \<and> (if i = rfs_id then on_objtype ob = OBJN_TY_FIL \<and> on_acsflgs ob = 2 else on_objtype ob = OBJN_TY_DEV) \<longrightarrow>
        svc_inv n R l E s3 \<and> opened_on t i (int j) s s3"
      proof
        assume k: "v = SYSSTUS_OK \<and> (if i = rfs_id then on_objtype ob = OBJN_TY_FIL \<and> on_acsflgs ob = 2 else on_objtype ob = OBJN_TY_DEV)"
        then have oi: "obj_inv n R (dev_ids s) (ob\<lparr>on_finode := f\<rparr>)"
          using ob(2,4) r(6) by (auto simp: obj_inv_def split: if_splits)
        have "follows n R l (?c + (if on_objtype (ob\<lparr>on_finode := f\<rparr>) = OBJN_TY_FIL then 1 else 0)) s s3"
          using r(5) k by (auto split: if_splits)
        from svc_opened [OF inv t(2) j(1,2) a(1) H3 o3 oi this] have "svc_inv n R l E s3" .
        moreover have "opened_on t i (int j) s s3"
          unfolding opened_on_def using j t(2) H3 a(1) o3 ob(2,4)
          by (intro exI [of _ "td_handtbl h"] exI [of _ j] exI [of _ a] exI [of _ "ob\<lparr>on_finode := f\<rparr>"] exI [of _ p]) simp
        ultimately show "svc_inv n R l E s3 \<and> opened_on t i (int j) s s3" by blast
      qed
      show "v = SYSSTUS_ERR \<longrightarrow> (\<exists>s'. res_step t a (int j) s3 = Inr (Some NO_HAND, s') \<and> svc_inv n R l E s' \<and> unopened s s')"
      proof
        assume "v = SYSSTUS_ERR"
        then have "follows n R l ?c s s3" using r(5) ok by simp
        from res_step_hand [OF inv this a(1) o3 t(2) j(1,2) H3] show
          "\<exists>s'. res_step t a (int j) s3 = Inr (Some NO_HAND, s') \<and> svc_inv n R l E s' \<and> unopened s s'" .
      qed
    qed
  qed
qed


section \<open>Opening a device\<close>

lemma device_named_ids: "device_named s i p \<longleftrightarrow> dev_ids s p = Some i"
  by (auto simp: device_named_def dev_ids_def)

lemma find_device:
  assumes "base_inv n R l c s"
  obtains "krlonidfl_retn_device (Some i) DIDFIL_IDN s = Inr None" "\<forall>p. dev_ids s p \<noteq> Some i"
  | p where "krlonidfl_retn_device (Some i) DIDFIL_IDN s = Inr (Some p)" "dev_ids s p = Some i"
proof -
  from retn_device_ok [OF base_invD(2) [OF assms], of i] obtain f where
    f: "krlonidfl_retn_device (Some i) DIDFIL_IDN s = Inr f"
    "case f of None \<Rightarrow> \<forall>p. \<not> device_named s i p | Some p \<Rightarrow> device_named s i p" by blast
  then show thesis using that by (cases f) (simp_all add: device_named_ids)
qed

lemma rfs_device:
  assumes "base_inv n R l c s" "dev_ids s p = Some rfs_id"
  obtains d r where "devices s p = Some d" "dev_extdata d = RfsExt r" "fs_of n R (c + l) r"
proof -
  from assms(2) have p: "p \<in> set (devlist s)" by (simp add: dev_ids_def split: if_splits)
  with base_invD(3) [OF assms(1)] obtain d where d: "devices s p = Some d" "device_ok n R l c (length (sems (sk s))) (drivers s) d"
    unfolding devs_inv_def by blast
  with assms(2) p have "dev_id d = rfs_id" by (simp add: dev_ids_def)
  with d that show thesis by (auto simp: device_ok_def rfs_ext_def)
qed

lemma packet_open:
  "on_opercode ob = 0 \<Longrightarrow> packet_of s ob = Inr \<lparr>on_acsflgs = on_acsflgs ob, on_len = on_len ob, on_ioctrd = on_ioctrd ob, on_buf = None,
     on_bufsz = on_bufsz ob, on_fname = ustr s (on_fnamep ob), on_finode = on_finode ob\<rparr>"
  by (simp add: packet_of_def)

text \<open>The answer when the file system is opened as a device, which no flag asks it for.\<close>

lemma open_rfs_as_device:
  assumes fol: "follows n R l c s s2" and ob: "objnodes s2 a = Some ob" "on_objtype ob \<in> {OBJN_TY_DEV, OBJN_TY_FIL}" "on_objadr ob = Some p"
      "on_opercode ob = 0" "on_acsflgs ob = 0" and i: "dev_ids s p = Some rfs_id"
  shows "\<exists>s'. krlsve_device a s2 = Inr (Some SYSSTUS_ERR, s')"
proof -
  have base: "base_inv n R l c s2" and ids: "dev_ids s2 p = Some rfs_id" using fol i by (simp_all add: follows_def)
  from rfs_device [OF base ids] obtain d r where d: "devices s2 p = Some d" "dev_extdata d = RfsExt r" .
  have "rfs_open x pk = Inr (DFCERRSTUS, pk, x)" if "on_acsflgs pk = 0" for pk x
    using that by (simp add: rfs_open_def)
  with open_status [OF fol ob(1-4) i d packet_open [OF ob(4)]] ob(5) show ?thesis by force
qed

lemma open_dev_ok:
  assumes inv: "svc_inv n R l E s" and t: "threads (sk s) t = Some h" "htab (sk s) t = Some (td_handtbl h)"
  shows "\<exists>v s'. open_dev_step t i s = Inr (Some v, s') \<and> svc_inv n R l E s' \<and>
    (v = NO_HAND \<and> unopened s s' \<or> i \<noteq> rfs_id \<and> opened_on t i v s s')"
proof -
  note base = svc_invD(1) [OF inv]
  have ok: "SYSSTUS_ERR \<noteq> SYSSTUS_OK" by (simp add: SYSSTUS_ERR_def SYSSTUS_OK_def)
  from find_device [OF base, of i] show ?thesis
  proof cases
    case 1
    with inv show ?thesis
      by (intro exI [of _ NO_HAND] exI [of _ s]) (simp add: open_dev_step_def reports_def unopened_def)
  next
    case (2 p)
    from base show ?thesis
    proof (cases rule: new_obj_cases)
      case (refused s1)
      then have "unopened s s1" by (simp add: unopened_def)
      with svc_unopened [OF inv refused(2)] refused(1) 2 show ?thesis
        by (intro exI [of _ NO_HAND] exI [of _ s1]) (simp add: open_dev_step_def reports_def)
    next
      case (made a w s1)
      let ?g = "\<lambda>ob. ob\<lparr>on_opercode := 0, on_objtype := OBJN_TY_DEV, on_objadr := Some p\<rparr>"
      let ?s1 = "upd_obj a ?g s1" let ?ob = "?g (objnode_t_init w)"
      have fol: "follows n R l (card (open_files s)) s ?s1" using made(2) by simp
      have o1: "objnodes ?s1 = (objnodes s)(a \<mapsto> ?ob)" "threads (sk ?s1) = threads (sk s)" using made by (simp_all add: upd_obj_def)
      have ob: "on_objtype ?ob \<in> {OBJN_TY_DEV, OBJN_TY_FIL}" "on_objadr ?ob = Some p" "on_opercode ?ob = 0" "dev_ids s p = Some i"
        using 2 by simp_all
      have fair: "\<forall>s2. umem s2 = umem ?s1 \<and> buf_ans s2 = buf_ans ?s1 \<longrightarrow> fair_at 0 s2 i ?ob"
        by (simp add: fair_at_def rfs_fair_def packet_open fair_packet_def takes_buffers_def objnode_t_init_def uart_fair_def)
      have step: "open_dev_step t i s = andthen (add_hand t a ?s1) (\<lambda>(rethd, s).
             if rethd = NO_HAND then res_step t a rethd s
             else then_if_back (krlsve_device a s) (\<lambda>st s.
               if st = SYSSTUS_ERR then res_step t a rethd s else reports rethd s))"
        unfolding open_dev_step_def krlsve_open_device_def using 2 made(1) by (simp add: Let_def)
      from inv t fol made(3) o1 ob fair show ?thesis
      proof (cases rule: open_hand)
        case full
        then show ?thesis unfolding step by auto
      next
        case (there j v s2 s3)
        have nh: "int j \<noteq> NO_HAND" by (simp add: NO_HAND_def)
        show ?thesis
        proof (cases "v = SYSSTUS_ERR")
          case True
          with there(8) nh there(3,5) show ?thesis
            unfolding step by (auto simp: then_if_back_def)
        next
          case False
          have "i \<noteq> rfs_id"
          proof
            assume i: "i = rfs_id"
            have "follows n R l (card (open_files s)) s s2" "objnodes s2 a = Some ?ob"
              using follows_set_hands [OF fol] o1(1) there(4) by simp_all
            from open_rfs_as_device [OF this ob(1-3)] i ob(4) there(5) False show False
              by (simp add: objnode_t_init_def)
          qed
          with False there(3,5,6,7) nh show ?thesis
            unfolding step by (intro exI [of _ "int j"] exI [of _ s3]) (auto simp: then_if_back_def reports_def)
        qed
      qed
    qed
  qed
qed


section \<open>Opening a file\<close>

text \<open>The files of the file system, as the map from names to contents the theory RfsSessions relates the driver to.\<close>

definition files_are :: "nat \<Rightarrow> nat \<Rightarrow> dst \<Rightarrow> files \<Rightarrow> bool" where
  "files_are n R s m \<longleftrightarrow> (\<exists>p d r ents. dev_ids s p = Some rfs_id \<and> devices s p = Some d \<and> dev_extdata d = RfsExt r \<and>
     fs_inv n R r ents \<and> fs_files r ents = m)"

lemma dev_ids_unique: "tbl_inv s \<Longrightarrow> dev_ids s p = Some i \<Longrightarrow> dev_ids s q = Some i \<Longrightarrow> p = q"
  using device_named_unique unfolding device_named_ids by blast

lemma rfs_open_existing:
  assumes inv: "fs_inv n R r ents" and pk: "path_to nm (on_fname pk)" "nm_ok nm" "on_acsflgs pk = 2"
  shows "\<exists>pk' r'. rfs_open r pk = Inr (if fs_files r ents nm = None then DFCERRSTUS else DFCOKSTUS, pk', r')"
proof -
  have pn: "on_fname pk \<noteq> None" using pk(1) by (auto simp: path_to_def)
  show ?thesis
  proof (cases "fs_files r ents nm = None")
    case True
    with rfs_openfileblk_ok(1) [OF inv pk(1,2)] pn pk(3) show ?thesis by (simp add: rfs_open_def rfs_open_file_def)
  next
    case False
    with rfs_openfileblk_ok(2) [OF inv pk(1,2)] pn pk(3) show ?thesis by (auto simp: rfs_open_def rfs_open_file_def)
  qed
qed

abbreviation open_file_obj :: "nat \<Rightarrow> u64 \<Rightarrow> u64 \<Rightarrow> u64 \<Rightarrow> kobj" where
  "open_file_obj w p acs fp \<equiv> (objnode_t_init w)\<lparr>on_opercode := 0, on_objtype := OBJN_TY_FIL, on_objadr := Some p,
     on_acsflgs := acs, on_fnamep := fp\<rparr>"

lemma open_fil_eq:
  fixes fp :: u64
  assumes "krlonidfl_retn_device (Some rfs_id) DIDFIL_IDN s = Inr (Some p)" "krlnew_objnode s = (Some a, s1)"
  defines "obj \<equiv> \<lambda>acs ob. ob\<lparr>on_opercode := 0, on_objtype := OBJN_TY_FIL, on_objadr := Some p, on_acsflgs := acs, on_fnamep := fp\<rparr>"
  shows "and (drop_bit RWO_FLG_BITS flgs) RWO_FLG_MASK = NF_FLG \<Longrightarrow> open_fil_step t fp flgs s =
      then_if_back (krlsve_device a (upd_obj a (obj 1) s1)) (\<lambda>st s.
        if st = SYSSTUS_ERR then res_step t a NO_HAND s else andthen (krldel_objnode a s) (\<lambda>s. reports 0 s))"
    "and (drop_bit RWO_FLG_BITS flgs) RWO_FLG_MASK \<noteq> NF_FLG \<Longrightarrow> open_fil_step t fp flgs s =
      andthen (add_hand t a (upd_obj a (obj 2) s1)) (\<lambda>(rethd, s).
        if rethd = NO_HAND then res_step t a rethd s
        else then_if_back (krlsve_device a s) (\<lambda>st s.
          if st = SYSSTUS_ERR then Inl (Panic ''open sve die^^^^^^'') else reports rethd s))"
proof -
  have two: "upd_obj a f (upd_obj a g s1) = upd_obj a (\<lambda>ob. f (g ob)) s1" for f g
    by (simp add: upd_obj_def option.map_comp o_def)
  show "and (drop_bit RWO_FLG_BITS flgs) RWO_FLG_MASK = NF_FLG \<Longrightarrow> open_fil_step t fp flgs s =
      then_if_back (krlsve_device a (upd_obj a (obj 1) s1)) (\<lambda>st s.
        if st = SYSSTUS_ERR then res_step t a NO_HAND s else andthen (krldel_objnode a s) (\<lambda>s. reports 0 s))"
    unfolding open_fil_step_def krlsve_open_device_def obj_def using assms(1,2) by (simp add: Let_def two rfs_id_def)
  show "and (drop_bit RWO_FLG_BITS flgs) RWO_FLG_MASK \<noteq> NF_FLG \<Longrightarrow> open_fil_step t fp flgs s =
      andthen (add_hand t a (upd_obj a (obj 2) s1)) (\<lambda>(rethd, s).
        if rethd = NO_HAND then res_step t a rethd s
        else then_if_back (krlsve_device a s) (\<lambda>st s.
          if st = SYSSTUS_ERR then Inl (Panic ''open sve die^^^^^^'') else reports rethd s))"
    unfolding open_fil_step_def krlsve_open_device_def obj_def using assms(1,2) by (simp add: Let_def two rfs_id_def)
qed

lemma named_ustr: "path_to nm (ustr s fp) \<Longrightarrow> fp \<noteq> 0"
  by (auto simp: ustr_def path_to_def)

text \<open>
  A new file is made whether or not one of its name is there, as long as no buffer is refused; no handle is used, and the
  answer is 0.
\<close>

lemma create_fil_ok:
  assumes inv: "svc_inv n R l E s" and fl: "and (drop_bit RWO_FLG_BITS flgs) RWO_FLG_MASK = NF_FLG" and nm: "named (ustr s fp)"
    and buf: "buf_ans s = []"
  shows "\<exists>v s'. open_fil_step t fp flgs s = Inr (Some v, s') \<and> svc_inv n R l E s' \<and> v \<in> {0, NO_HAND} \<and> unopened s s'"
proof -
  note base = svc_invD(1) [OF inv]
  have ok: "SYSSTUS_ERR \<noteq> SYSSTUS_OK" by (simp add: SYSSTUS_ERR_def SYSSTUS_OK_def)
  from find_device [OF base, of rfs_id] show ?thesis
  proof cases
    case 1
    with inv show ?thesis
      by (intro exI [of _ NO_HAND] exI [of _ s]) (simp add: open_fil_step_def reports_def unopened_def rfs_id_def)
  next
    case (2 p)
    from base show ?thesis
    proof (cases rule: new_obj_cases)
      case (refused s1)
      then have "unopened s s1" by (simp add: unopened_def)
      with svc_unopened [OF inv refused(2)] refused(1) 2 show ?thesis
        by (intro exI [of _ NO_HAND] exI [of _ s1]) (simp add: open_fil_step_def reports_def rfs_id_def)
    next
      case (made a w s1)
      note step = open_fil_eq(1) [OF 2(1) made(1) fl, where t = t and fp = fp]
      let ?ob = "open_file_obj w p 1 fp"
      let ?s1 = "upd_obj a (\<lambda>ob. ob\<lparr>on_opercode := 0, on_objtype := OBJN_TY_FIL, on_objadr := Some p, on_acsflgs := 1, on_fnamep := fp\<rparr>) s1"
      have fol: "follows n R l (card (open_files s)) s ?s1" using made(2) by simp
      have o1: "objnodes ?s1 = (objnodes s)(a \<mapsto> ?ob)" and H1: "htab (sk ?s1) = htab (sk s)"
        using made(4,5) by (simp_all add: upd_obj_def htab_def fun_eq_iff)
      have o2: "objnodes ?s1 a = Some ?ob" using o1 by simp
      have "ustr ?s1 fp = ustr s fp" using made(6) by (simp add: upd_obj_def ustr_def)
      then have fair: "fair_at 0 ?s1 rfs_id ?ob"
        using nm buf made(9) by (simp add: fair_at_def rfs_fair_def packet_open fair_packet_def upd_obj_def)
      from open_call [OF fol o2 _ _ _ 2(2) fair] obtain v s3 f where
        r: "krlsve_device a ?s1 = Inr (Some v, s3)" "v \<in> {SYSSTUS_OK, SYSSTUS_ERR}" "objnodes s3 = (objnodes ?s1)(a \<mapsto> ?ob\<lparr>on_finode := f\<rparr>)"
        "htab (sk s3) = htab (sk ?s1)" "follows n R l (card (open_files s)) s s3" by auto
      have o3: "objnodes s3 = (objnodes s)(a \<mapsto> ?ob\<lparr>on_finode := f\<rparr>)" and H3: "htab (sk s3) = htab (sk s)" using r(3,4) o1 H1 by simp_all
      show ?thesis
      proof (cases "v = SYSSTUS_ERR")
        case True
        from res_step_none [OF inv r(5) made(3) o3 H3, of t] True r(1) show ?thesis
          unfolding step by (auto simp: then_if_back_def)
      next
        case False
        let ?s = "s3\<lparr>objnodes := objnodes s\<rparr>"
        have "(objnodes s3)(a := None) = objnodes s" using made(3) o3 by auto
        then have d: "krldel_objnode a s3 = Inr ?s" using o3 by (simp add: krldel_objnode_def)
        have u: "unopened s ?s" using H3 by (simp add: unopened_def)
        from svc_unopened [OF inv follows_objs [OF r(5)] u] u d False r(1) show ?thesis
          unfolding step by (auto simp: then_if_back_def reports_def)
      qed
    qed
  qed
qed

text \<open>An existing file is opened, as long as no buffer is refused.\<close>

lemma open_fil_ok:
  assumes inv: "svc_inv n R l E s" and t: "threads (sk s) t = Some h" "htab (sk s) t = Some (td_handtbl h)"
    and fl: "and (drop_bit RWO_FLG_BITS flgs) RWO_FLG_MASK \<noteq> NF_FLG"
    and files: "files_are n R s m" and nm: "path_to nm (ustr s fp)" "nm_ok nm" "m nm \<noteq> None" and buf: "buf_ans s = []"
  shows "\<exists>v s'. open_fil_step t fp flgs s = Inr (Some v, s') \<and> svc_inv n R l E s' \<and>
      (v = NO_HAND \<and> unopened s s' \<or> opened_on t rfs_id v s s')"
proof -
  note base = svc_invD(1) [OF inv]
  have ok: "SYSSTUS_ERR \<noteq> SYSSTUS_OK" by (simp add: SYSSTUS_ERR_def SYSSTUS_OK_def)
  from files obtain p d r ents where f: "dev_ids s p = Some rfs_id" "devices s p = Some d" "dev_extdata d = RfsExt r"
    "fs_inv n R r ents" "fs_files r ents = m" unfolding files_are_def by blast
  from find_device [OF base, of rfs_id] f(1) dev_ids_unique [OF base_invD(2) [OF base] f(1)] have
    dev: "krlonidfl_retn_device (Some rfs_id) DIDFIL_IDN s = Inr (Some p)" by (metis)
  from base show ?thesis
  proof (cases rule: new_obj_cases)
    case (refused s1)
    then have "unopened s s1" by (simp add: unopened_def)
    with svc_unopened [OF inv refused(2)] refused(1) dev show ?thesis
      by (simp add: open_fil_step_def reports_def rfs_id_def)
  next
    case (made a w s1)
    note step = open_fil_eq(2) [OF dev made(1) fl, where t = t and fp = fp]
    let ?ob = "open_file_obj w p 2 fp"
    let ?s1 = "upd_obj a (\<lambda>ob. ob\<lparr>on_opercode := 0, on_objtype := OBJN_TY_FIL, on_objadr := Some p, on_acsflgs := 2, on_fnamep := fp\<rparr>) s1"
    have fol: "follows n R l (card (open_files s)) s ?s1" using made(2) by simp
    have o1: "objnodes ?s1 = (objnodes s)(a \<mapsto> ?ob)" "threads (sk ?s1) = threads (sk s)" using made by (simp_all add: upd_obj_def)
    have ob: "on_objtype ?ob \<in> {OBJN_TY_DEV, OBJN_TY_FIL}" "on_objadr ?ob = Some p" "on_opercode ?ob = 0" by simp_all
    have us: "ustr s2 fp = ustr s fp" if "umem s2 = umem ?s1" for s2
      using that made(6) by (simp add: upd_obj_def ustr_def)
    have b1: "buf_ans ?s1 = []" using buf made(9) by (simp add: upd_obj_def)
    have "named (ustr s fp)" using nm by (auto simp: named_def)
    then have fair: "\<forall>s2. umem s2 = umem ?s1 \<and> buf_ans s2 = buf_ans ?s1 \<longrightarrow> fair_at 0 s2 rfs_id ?ob"
      using us b1 by (simp add: fair_at_def rfs_fair_def packet_open fair_packet_def)
    from inv t fol made(3) o1 ob f(1) fair show ?thesis
    proof (cases rule: open_hand)
      case full
      then show ?thesis using made(1) unfolding step by auto
    next
      case (there j v s2 s3)
      have nh: "int j \<noteq> NO_HAND" by (simp add: NO_HAND_def)
      have s2: "follows n R l (card (open_files s)) s s2" "objnodes s2 a = Some ?ob" "devices s2 p = Some d"
        using follows_set_hands [OF fol] o1(1) there(4) f(2) made(7) by (simp_all add: upd_obj_def)
      have u2: "ustr s2 fp = ustr s fp" by (rule us) (simp add: there(4))
      obtain pk where pk: "packet_of s2 ?ob = Inr pk" "on_fname pk = ustr s fp" "on_acsflgs pk = 2"
        using packet_open [of ?ob s2] u2 by simp
      have "\<exists>pk' r'. rfs_open r pk = Inr (DFCOKSTUS, pk', r')"
        using rfs_open_existing [OF f(4), where pk = pk and nm = nm] nm pk(2,3) f(5) by simp
      then obtain pk' r' where op: "rfs_open r pk = Inr (DFCOKSTUS, pk', r')" by blast
      have "buf_ans s2 = krl_grants r" using b1 there(4) fs_inv_granted [OF f(4)] by simp
      then have "lend (buf_ans s2) r = r" by simp
      with open_status [OF s2(1,2) ob f(1) s2(3) f(3) pk(1)] op there(5) have "v = SYSSTUS_OK" by auto
      with ok nh there(3,5,7) made(1) show ?thesis
        unfolding step by (auto simp: then_if_back_def reports_def)
    qed
  qed
qed

text \<open>
  The service stops the machine when there is no file of that name, and also when there is one and any of the four buffers
  that opening it takes is refused.
\<close>

lemma open_fil_panics:
  assumes inv: "svc_inv n R l E s" and t: "threads (sk s) t = Some h"
    and fl: "and (drop_bit RWO_FLG_BITS flgs) RWO_FLG_MASK \<noteq> NF_FLG"
    and files: "files_are n R s m" and nm: "path_to nm (ustr s fp)" "nm_ok nm" "m nm = None \<or> False \<in> set (take 4 (buf_ans s))"
    and free: "\<exists>j < 8. td_handtbl h ! j = None" "krl_ans s (krl_calls s) (in_use s) \<noteq> 0"
  shows "open_fil_step t fp flgs s = Inl (Panic ''open sve die^^^^^^'')"
proof -
  note base = svc_invD(1) [OF inv]
  from files obtain p d r ents where f: "dev_ids s p = Some rfs_id" "devices s p = Some d" "dev_extdata d = RfsExt r"
    "fs_inv n R r ents" "fs_files r ents = m" unfolding files_are_def by blast
  from find_device [OF base, of rfs_id] f(1) dev_ids_unique [OF base_invD(2) [OF base] f(1)] have
    dev: "krlonidfl_retn_device (Some rfs_id) DIDFIL_IDN s = Inr (Some p)" by (metis)
  from base show ?thesis
  proof (cases rule: new_obj_cases)
    case (refused s1)
    with free(2) show ?thesis by (simp add: krlnew_objnode_def krlnew_def new_sem_def)
  next
    case (made a w s1)
    note step = open_fil_eq(2) [OF dev made(1) fl, where t = t and fp = fp]
    let ?ob = "open_file_obj w p 2 fp"
    let ?s1 = "upd_obj a (\<lambda>ob. ob\<lparr>on_opercode := 0, on_objtype := OBJN_TY_FIL, on_objadr := Some p, on_acsflgs := 2, on_fnamep := fp\<rparr>) s1"
    have fol: "follows n R l (card (open_files s)) s ?s1" using made(2) by simp
    have t1: "threads (sk ?s1) t = Some h" using t made(5) by (simp add: upd_obj_def)
    from add_hand_ok [OF t1, of a] free(1) obtain j where
      j: "add_hand t a ?s1 = Inr (int j, set_hands t ((td_handtbl h)[j := Some a]) ?s1)" by auto
    let ?s2 = "set_hands t ((td_handtbl h)[j := Some a]) ?s1"
    have ob: "objnodes ?s2 a = Some ?ob" "on_objtype ?ob \<in> {OBJN_TY_DEV, OBJN_TY_FIL}" "on_objadr ?ob = Some p" "on_opercode ?ob = 0"
      "devices ?s2 p = Some d" and b: "buf_ans ?s2 = buf_ans s" and u: "ustr ?s2 fp = ustr s fp"
      using f(2) made(4,6,7,9) by (simp_all add: upd_obj_def ustr_def)
    obtain pk where pk: "packet_of ?s2 ?ob = Inr pk" "on_fname pk = ustr s fp" "on_acsflgs pk = FSDEV_OPENFLG_OPEFILE"
      using packet_open [of ?ob ?s2] u by (simp add: FSDEV_OPENFLG_OPEFILE_def)
    have p: "path_to nm (on_fname pk)" using nm(1) pk(2) by simp
    have "fs_files r ents nm = None \<or> False \<in> set (take 4 (buf_ans ?s2))" using nm(3) f(5) b by simp
    from open_lend(2) [OF f(4) p nm(2) pk(3) this] obtain g' where "rfs_open (lend (buf_ans ?s2) r) pk = Inr (DFCERRSTUS, pk, lend g' r)"
      by blast
    from open_status [OF follows_set_hands [OF fol] ob(1-4) f(1) ob(5) f(3) pk(1) this] j show ?thesis
      unfolding step by (auto simp: then_if_back_def NO_HAND_def)
  qed
qed

end
