(* ===== verification/DevSystem.thy ===== *)
theory DevSystem
  imports DevOpen
begin

text \<open>
  The services as a program calls them, the interrupts, and the runs of both: each step returns and keeps the
  invariant.
\<close>

section \<open>Services a program may ask for\<close>

definition page_at :: "dst \<Rightarrow> u64 \<Rightarrow> bool" where
  "page_at s p \<longleftrightarrow> p = 0 \<or> (\<exists>b. ubuf s p = Inr (Some b))"

text \<open>
  What the kernel does not check: that a pointer is null or leads to what the service needs, a page or a device identifier;
  that the path is one short name, of a file that exists when it is to be opened; that a string for the screen fits the
  print buffer; that a length is not negative as a signed number; that the kernel memory service refuses the file system no
  buffer while a file is created, opened or deleted. The services of memory and of programs (1, 2, 3) are not in this state,
  and the idle thread asks for nothing.
\<close>

definition fair_open :: "nat \<Rightarrow> nat \<Rightarrow> dst \<Rightarrow> u64 \<Rightarrow> u64 \<Rightarrow> bool" where
  "fair_open n R s fp flgs \<longleftrightarrow> fp = 0 \<or>
     (if and flgs FILE_TY_MASK = FILE_TY_DEV then \<exists>i. devid_at s fp = Inr i
      else if and flgs FILE_TY_MASK = FILE_TY_FILE then buf_ans s = [] \<and>
        (if and (drop_bit RWO_FLG_BITS flgs) RWO_FLG_MASK = NF_FLG then named (ustr s fp)
        else \<exists>m nm. files_are n R s m \<and> path_to nm (ustr s fp) \<and> nm_ok nm \<and> m nm \<noteq> None)
      else True)"

definition fair_service :: "nat \<Rightarrow> nat \<Rightarrow> u64 \<Rightarrow> stkparame \<Rightarrow> dst \<Rightarrow> bool" where
  "fair_service n R nr p s \<longleftrightarrow> not_idle (sk s) \<and> nr \<notin> {1, 2, 3} \<and>
     (nr = 8 \<longrightarrow> fair_open n R s (parmv1 p) (parmv2 p)) \<and>
     (nr = 10 \<longrightarrow> page_at s (parmv2 p)) \<and>
     (nr = 11 \<longrightarrow> page_at s (parmv2 p) \<and> unat (parmv3 p) < 2 ^ 63 \<and>
       (\<forall>ob i. behind s (sint (parmv1 p)) ob i \<and> i \<noteq> rfs_id \<longrightarrow>
         (\<exists>b xs. ubuf s (parmv2 p) = Inr (Some b) \<and> cstr b 4096 0 xs \<and> length xs < 512))) \<and>
     (nr = 12 \<longrightarrow> (\<forall>ob i. behind s (sint (parmv1 p)) ob i \<and> i = rfs_id \<and> parmv3 p = 5 \<longrightarrow>
       named (ustr s (on_fnamep ob)) \<and> buf_ans s = [])) \<and>
     (nr = 14 \<longrightarrow> parmv1 p = 0 \<or> (\<exists>b m. umem s (parmv1 p) = Some (b, m) \<and> 56 \<le> m))"

text \<open>The result of a service that keeps the invariant.\<close>

definition serves :: "nat \<Rightarrow> nat \<Rightarrow> nat \<Rightarrow> u64 set \<Rightarrow> answer \<Rightarrow> bool" where
  "serves n R l E m \<longleftrightarrow> (\<exists>v s'. m = Inr (v, s') \<and> svc_inv n R l E s')"

lemma servesI: "m = Inr (v, s') \<Longrightarrow> svc_inv n R l E s' \<Longrightarrow> serves n R l E m"
  by (auto simp: serves_def)

lemma serves_reports [simp]: "serves n R l E (reports v s) = svc_inv n R l E s"
  by (simp add: serves_def reports_def)

lemma open_serves:
  assumes inv: "svc_inv n R l E s" and ni: "not_idle (sk s)" and fair: "fair_open n R s fp flgs"
  shows "serves n R l E (krlsve_open fp flgs st s)"
proof (cases "fp = 0")
  case True
  with inv show ?thesis by (simp add: krlsve_open_def)
next
  case False
  from the_caller [OF inv ni] obtain t h where t: "krlsched_retn_currthread (sk s) = Inr t" "threads (sk s) t = Some h"
    "htab (sk s) t = Some (td_handtbl h)" by metis
  consider "and flgs FILE_TY_MASK = FILE_TY_DEV"
    | "and flgs FILE_TY_MASK = FILE_TY_FILE" "and (drop_bit RWO_FLG_BITS flgs) RWO_FLG_MASK = NF_FLG"
    | "and flgs FILE_TY_MASK = FILE_TY_FILE" "and (drop_bit RWO_FLG_BITS flgs) RWO_FLG_MASK \<noteq> NF_FLG"
    | "and flgs FILE_TY_MASK \<noteq> FILE_TY_DEV" "and flgs FILE_TY_MASK \<noteq> FILE_TY_FILE" by blast
  then show ?thesis
  proof cases
    case 1
    with False fair obtain i where i: "devid_at s fp = Inr i" by (auto simp: fair_open_def)
    from open_dev_ok [OF inv t(2,3), of i] 1 i t(1) False show ?thesis
      by (auto simp: krlsve_open_def krlsve_core_open_def intro: servesI)
  next
    case 2
    with False fair have "named (ustr s fp)" "buf_ans s = []" by (simp_all add: fair_open_def)
    from create_fil_ok [OF inv 2(2) this, of t] 2 t(1) False show ?thesis
      by (auto simp: krlsve_open_def krlsve_core_open_def intro: servesI)
  next
    case 3
    with False fair obtain m nm where m: "files_are n R s m" "path_to nm (ustr s fp)" "nm_ok nm" "m nm \<noteq> None" "buf_ans s = []"
      unfolding fair_open_def by auto
    from open_fil_ok [OF inv t(2,3) 3(2) m] 3 t(1) False show ?thesis
      by (auto simp: krlsve_open_def krlsve_core_open_def intro: servesI)
  next
    case 4
    with False t(1) inv show ?thesis by (simp add: krlsve_open_def krlsve_core_open_def)
  qed
qed

lemma close_serves:
  assumes "svc_inv n R l E s" "not_idle (sk s)"
  shows "serves n R l E (krlsve_close f s)"
  using close_ok [OF assms, of f] by (auto intro: servesI)

lemma read_serves:
  assumes inv: "svc_inv n R l E s" and ni: "not_idle (sk s)" and buf: "page_at s buf"
  shows "serves n R l E (krlsve_read f buf len flgs s)"
proof (cases "f = NO_HAND \<or> buf = 0 \<or> len < 1")
  case True
  with inv show ?thesis by (auto simp: krlsve_read_def)
next
  case False
  with buf obtain b where b: "ubuf s buf = Inr (Some b)" by (auto simp: page_at_def)
  let ?g = "\<lambda>ob. ob\<lparr>on_opercode := int IOIF_CODE_READ, on_bufp := buf, on_len := len, on_bufsz := 0x1000, on_acsflgs := flgs\<rparr>"
  have "fair_at 2 s i (?g ob)" for ob i
    using b ni by (simp add: fair_at_def rfs_fair_def packet_of_def fair_packet_def takes_buffers_def uart_fair_def)
  from request_ok [where g = ?g and code = 2 and f = f, OF inv ni _ _ _ _ _ this] False show ?thesis
    by (auto simp: krlsve_read_def krlsve_core_read_def krlsve_read_device_def intro: servesI)
qed

lemma write_serves:
  assumes inv: "svc_inv n R l E s" and ni: "not_idle (sk s)" and buf: "page_at s buf" and len: "unat len < 2 ^ 63"
    and str: "\<And>ob i. behind s f ob i \<Longrightarrow> i \<noteq> rfs_id \<Longrightarrow> \<exists>b xs. ubuf s buf = Inr (Some b) \<and> cstr b 4096 0 xs \<and> length xs < 512"
  shows "serves n R l E (krlsve_write f buf len flgs s)"
proof (cases "f \<le> NO_HAND \<or> int TD_HAND_MAX \<le> f \<or> buf = 0 \<or> len = 0")
  case True
  then have "krlsve_write f buf len flgs s = reports SYSSTUS_ERR s" by (simp only: krlsve_write_def if_True)
  with inv show ?thesis by simp
next
  case False
  with buf obtain b where b: "ubuf s buf = Inr (Some b)" by (auto simp: page_at_def)
  let ?g = "\<lambda>ob. ob\<lparr>on_opercode := int IOIF_CODE_WRITE, on_bufp := buf, on_len := len, on_bufsz := 0x1000, on_acsflgs := flgs\<rparr>"
  have fair: "fair_at 3 s i (?g ob)" if "behind s f ob i" for ob i
    using b len str [OF that] by (simp add: fair_at_def rfs_fair_def packet_of_def fair_packet_def takes_buffers_def uart_fair_def)
  from request_ok [where g = ?g and code = 3 and f = f, OF inv ni _ _ _ _ _ fair] obtain v s' where
    "on_hand f ?g krlsve_device s = Inr (v, s')" "svc_inv n R l E s'" by auto
  moreover have "krlsve_write f buf len flgs s = on_hand f ?g krlsve_device s"
    using False by (simp only: krlsve_write_def krlsve_core_write_def krlsve_write_device_def if_False)
  ultimately show ?thesis by (auto intro: servesI)
qed

lemma ioctrl_serves:
  assumes inv: "svc_inv n R l E s" and ni: "not_idle (sk s)"
    and nm: "\<And>ob i. behind s f ob i \<Longrightarrow> i = rfs_id \<Longrightarrow> iocode = 5 \<Longrightarrow> named (ustr s (on_fnamep ob)) \<and> buf_ans s = []"
  shows "serves n R l E (krlsve_ioctrl f buf iocode flgs s)"
proof (cases "f = NO_HAND")
  case True
  with inv show ?thesis by (simp add: krlsve_ioctrl_def)
next
  case False
  let ?g = "\<lambda>ob. ob\<lparr>on_opercode := int IOIF_CODE_IOCTRL, on_bufp := buf, on_ioctrd := iocode, on_acsflgs := flgs\<rparr>"
  have fair: "fair_at 5 s i (?g ob)" if "behind s f ob i" for ob i
    using nm [OF that] by (simp add: fair_at_def rfs_fair_def packet_of_def fair_packet_def takes_buffers_def uart_fair_def)
  from request_ok [where g = ?g and code = 5 and f = f, OF inv ni _ _ _ _ _ fair] obtain v s' where
    "on_hand f ?g krlsve_device s = Inr (v, s')" "svc_inv n R l E s'" by auto
  moreover have "krlsve_ioctrl f buf iocode flgs s = on_hand f ?g krlsve_device s"
    using False by (simp only: krlsve_ioctrl_def krlsve_core_ioctrl_def krlsve_ioctrl_device_def if_False)
  ultimately show ?thesis by (auto intro: servesI)
qed

lemma svc_follows:
  assumes inv: "svc_inv n R l E s" and "sched_inv (sk s')" "length (sems (sk s)) \<le> length (sems (sk s'))" "htab (sk s') = htab (sk s)"
    "osdevtable s' = osdevtable s" "devices s' = devices s" "drivers s' = drivers s" "machintflt s' = machintflt s"
    "serdscs s' = serdscs s" "krl_ans s' = krl_ans s" "objnodes s' = objnodes s"
  shows "svc_inv n R l E s'"
  by (rule svc_same [OF inv follows_cong [OF follows_refl [OF svc_invD(1) [OF inv]]]]) (use assms in simp_all)

lemma exit_serves:
  assumes inv: "svc_inv n R l E s" and ni: "not_idle (sk s)"
  shows "serves n R l E (answers (krlsve_exit_thread s))"
proof -
  have sch: "sched_inv (sk s)" by (rule base_invD(1) [OF svc_invD(1) [OF inv]])
  from krlsve_core_exit_thread_ok [OF sch ni] obtain t p where
    e: "krlsve_core_exit_thread (sk s) = Inr (scheduled (exited t p (sk s)))" "sched_inv (scheduled (exited t p (sk s)))" by blast
  have "svc_inv n R l E (s\<lparr>sk := scheduled (exited t p (sk s))\<rparr>)"
    by (rule svc_follows [OF inv]) (simp_all add: e(2), simp add: exited_def)
  with e(1) show ?thesis
    by (intro servesI) (simp_all add: krlsve_exit_thread_def with_sk_def answers_def)
qed

lemma time_serves:
  assumes inv: "svc_inv n R l E s" and p: "p = 0 \<or> (\<exists>b m. umem s p = Some (b, m) \<and> 56 \<le> m)"
  shows "serves n R l E (answers (krlsve_time p s))"
proof (cases "p = 0")
  case True
  with inv show ?thesis by (intro servesI) (simp_all add: krlsve_time_def answers_def)
next
  case False
  with p obtain b m where b: "umem s p = Some (b, m)" "\<not> m < 56" by auto
  have "svc_inv n R l E (s\<lparr>umem := x\<rparr>)" for x
    by (rule svc_follows [OF inv]) (use base_invD(1) [OF svc_invD(1) [OF inv]] in simp_all)
  with False b show ?thesis by (auto simp: krlsve_time_def answers_def at_def Let_def intro: servesI)
qed

lemma service_serves:
  assumes inv: "svc_inv n R l E s" and fair: "fair_service n R nr p s"
  shows "serves n R l E (hal_syscl_allocator oth nr p s)"
proof (cases "16 \<le> nr \<or> nr = 0")
  case True
  with inv show ?thesis by (auto simp: hal_syscl_allocator_def krlservice_def osservicetab_def)
next
  case False
  have ni: "not_idle (sk s)" using fair by (simp add: fair_service_def)
  from the_caller [OF inv ni] obtain t h where t: "krlsched_retn_currthread (sk s) = Inr t" "threads (sk s) t = Some h" by metis
  from False have "unat nr < 16" by (simp add: word_le_nat_alt)
  then have "unat nr \<in> {0..<16}" by simp
  then have "nr \<in> of_nat ` {0..<16}" by (metis image_eqI of_nat_unat ucast_id)
  with False fair have nr: "nr = 4 \<or> nr = 5 \<or> nr = 6 \<or> nr = 7 \<or> nr = 8 \<or> nr = 9 \<or> nr = 10 \<or> nr = 11 \<or> nr = 12 \<or> nr = 13 \<or> nr = 14 \<or> nr = 15"
    by (auto simp: fair_service_def atLeastLessThan_nat_numeral)
  have call: "hal_syscl_allocator oth nr p s = call_service oth (the (osservicetab ! unat nr)) nr p s"
    using nr unfolding hal_syscl_allocator_def krlservice_def osservicetab_def by auto
  have td: "td (sk s) t = Inr h" using t(2) by (simp add: td_def)
  note tab = osservicetab_def call_service_def
  from nr show ?thesis
  proof (elim disjE)
    assume "nr = 4" then show ?thesis unfolding call using exit_serves [OF inv ni] by (simp add: tab krlsvetabl_exit_thread_def)
  next
    assume "nr = 5" then show ?thesis unfolding call using inv t td
      by (simp add: tab krlsvetabl_retn_threadhand_def krlsve_retn_threadhand_def answers_def serves_def)
  next
    assume "nr = 6" then show ?thesis unfolding call using inv by (simp add: tab krlsvetabl_retn_threadstats_def)
  next
    assume "nr = 7" then show ?thesis unfolding call using inv by (simp add: tab krlsvetabl_set_threadstats_def)
  next
    assume k: "nr = 8" then show ?thesis unfolding call using open_serves [OF inv ni] fair
      by (simp add: tab krlsvetabl_open_def fair_service_def)
  next
    assume k: "nr = 9" then show ?thesis unfolding call using close_serves [OF inv ni]
      by (simp add: tab krlsvetabl_close_def)
  next
    assume k: "nr = 10" then show ?thesis unfolding call using read_serves [OF inv ni] fair
      by (simp add: tab krlsvetabl_read_def fair_service_def)
  next
    assume k: "nr = 11"
    then have f: "page_at s (parmv2 p)" "unat (parmv3 p) < 2 ^ 63"
      "\<And>ob i. behind s (sint (parmv1 p)) ob i \<Longrightarrow> i \<noteq> rfs_id \<Longrightarrow>
        \<exists>b xs. ubuf s (parmv2 p) = Inr (Some b) \<and> cstr b 4096 0 xs \<and> length xs < 512"
      using fair unfolding fair_service_def by blast+
    from write_serves [OF inv ni f] k show ?thesis unfolding call
      by (simp add: tab krlsvetabl_write_def)
  next
    assume k: "nr = 12" then show ?thesis unfolding call using ioctrl_serves [OF inv ni] fair
      by (simp add: tab krlsvetabl_ioctrl_def fair_service_def)
  next
    assume k: "nr = 13" then show ?thesis unfolding call using inv by (simp add: tab krlsvetabl_lseek_def)
  next
    assume k: "nr = 14" then show ?thesis unfolding call using time_serves [OF inv] fair
      by (simp add: tab krlsvetabl_time_def fair_service_def)
  next
    assume k: "nr = 15" then show ?thesis unfolding call using inv t td
      by (simp add: tab krlsvetabl_tick_def krlsve_thread_tick_def krlthd_curr_sumtick_def krlthread_sumtick_def)
  qed
qed


section \<open>Interrupts\<close>

text \<open>No count of a semaphore is within \<open>m\<close> of the end of its range.\<close>

definition sems_room :: "nat \<Rightarrow> kst \<Rightarrow> bool" where
  "sems_room m k \<longleftrightarrow> (\<forall>w < length (sems k). count_of k w + int m < 2 ^ 63)"

lemma base_irq: "base_inv n R l c s \<Longrightarrow> base_inv n R l c (s\<lparr>osktime := k\<rparr>)"
  using base_inv_cong(1) [where s' = "s\<lparr>osktime := k\<rparr>"] by (simp add: base_inv_def)

lemma svc_time: "svc_inv n R l E s \<Longrightarrow> svc_inv n R l E (s\<lparr>osktime := k\<rparr>)"
  by (rule svc_follows) (simp_all add: base_invD(1) [OF svc_invD(1)])

lemma svc_sk:
  assumes "svc_inv n R l E s" "sched_inv k" "length (sems k) = length (sems (sk s))" "htab k = htab (sk s)"
  shows "svc_inv n R l E (s\<lparr>sk := k\<rparr>)"
  by (rule svc_follows [OF assms(1)]) (use assms in simp_all)

lemma systick_handle_ok:
  assumes inv: "svc_inv n R l E s"
  shows "\<exists>st s'. systick_handle s = Inr (st, s') \<and> svc_inv n R l E s' \<and> sems (sk s') = sems (sk s) \<and>
    machintflt s' = machintflt s \<and> serdscs s' = serdscs s \<and> dev_ids s' = dev_ids s"
proof -
  have sch: "sched_inv (sk s)" by (rule base_invD(1) [OF svc_invD(1) [OF inv]])
  then obtain t where t: "sda_currtd (sk s) = Some t" unfolding sched_inv_def running_ok_def by blast
  from krlthd_inc_tick_ok [OF sch curr_thread [OF sch t]] obtain k where
    k: "krlthd_inc_tick t (sk s) = Inr k" "sched_inv k" "sems k = sems (sk s)" by blast
  have "svc_inv n R l E (s\<lparr>sk := k\<rparr>)" by (rule svc_sk [OF inv k(2)]) (use k htab_inc_tick in simp_all)
  from svc_time [OF this] t k(1,3) show ?thesis
    by (simp add: systick_handle_def krlsched_retn_currthread_def with_sk_def krlupdate_times_from_cmos_def dev_ids_def fun_eq_iff)
qed

lemma uart_handle_ok:
  assumes inv: "svc_inv n R l E s" and i: "dev_ids s p = Some i" "i \<noteq> rfs_id" and room: "sems_room (Suc m) (sk s)"
  shows "\<exists>st s'. uart_handle p s = Inr (st, s') \<and> svc_inv n R l E s' \<and> sems_room m (sk s') \<and>
    machintflt s' = machintflt s \<and> serdscs s' = serdscs s \<and> dev_ids s' = dev_ids s"
proof -
  note base = svc_invD(1) [OF inv] and b = base_invD [OF svc_invD(1) [OF inv]]
  from i have p: "p \<in> set (devlist s)" by (simp add: dev_ids_def split: if_splits)
  with b(3) obtain d where d: "devices s p = Some d" "device_ok n R l (card (open_files s)) (length (sems (sk s))) (drivers s) d"
    unfolding devs_inv_def by blast
  with i p have id: "dev_id d = i" by (simp add: dev_ids_def)
  with d(2) i(2) obtain rp r where r: "dev_drv d = Some rp" "drivers s rp = Some r"
    "drv_dipfun r = systick_tab \<and> dev_extdata d = NoExt \<or> drv_dipfun r = uart_tab \<and> kb_ext (length (sems (sk s))) (dev_extdata d)"
    unfolding device_ok_def by auto
  show ?thesis
  proof (cases "dev_extdata d = NoExt")
    case True
    have "sems_room m (sk s)" using room by (auto simp: sems_room_def)
    with True d(1) inv show ?thesis by (auto simp: uart_handle_def at_def)
  next
    case False
    with r(3) obtain kb where kb: "drv_dipfun r = uart_tab" "dev_extdata d = KbExt kb" "kb_sem kb < length (sems (sk s))"
      by (auto simp: kb_ext_def)
    obtain kb' st where w: "kbd_write_scan kb (kb_port s) = (kb', st)" by (cases "kbd_write_scan kb (kb_port s)")
    then have sem: "kb_sem kb' = kb_sem kb" by (auto simp: kbd_write_scan_def split: if_splits)
    let ?d = "d\<lparr>dev_extdata := KbExt kb'\<rparr>"
    let ?s = "upd_dev p (\<lambda>d. d\<lparr>dev_extdata := KbExt kb'\<rparr>) (s\<lparr>kbd_dowup_stat := st\<rparr>)"
    from krlsem_up_ok [OF b(1) kb(3)] room kb(3) have
      up: "krlsem_up (kb_sem kb) (sk s) = Inr (upped (kb_sem kb) (sk s))" "sched_inv (upped (kb_sem kb) (sk s))"
      by (auto simp: sems_room_def)
    let ?k = "upped (kb_sem kb) (sk s)"
    let ?u = "set_count (kb_sem kb) (count_of (sk s) (kb_sem kb) + 1) (sk s)"
    note lo = set_count_lists [OF sched_invD(1) [OF b(1)] kb(3), of "count_of (sk s) (kb_sem kb) + 1"]
    have u: "kb_sem kb < length (sems ?u)" "waiters ?u (kb_sem kb) = waiters (sk s) (kb_sem kb)"
      using kb(3) by (simp_all add: set_count_fields)
    have len: "length (sems ?k) = length (sems (sk s))"
      and cnt: "count_of ?k v = count_of (sk s) v + (if v = kb_sem kb then 1 else 0)" for v
      using wake_all_fields [OF lo u, of v] kb(3) by (simp_all add: upped_def krlsched_set_schedflgs_def set_count_fields)
    have room': "sems_room m ?k"
      unfolding sems_room_def len
    proof (intro allI impI)
      fix w assume "w < length (sems (sk s))"
      with room have "count_of (sk s) w + int (Suc m) < 2 ^ 63" unfolding sems_room_def by blast
      then show "count_of ?k w + int m < 2 ^ 63" unfolding cnt by (cases "w = kb_sem kb") simp_all
    qed
    have h: "uart_handle p s = Inr (DFCOKSTUS, ?s\<lparr>sk := ?k\<rparr>)"
      using d(1) kb(2) w sem up(1) by (simp add: uart_handle_def at_def with_sk_def upd_dev_def)
    have "device_ok n R l (card (open_files s)) (length (sems (sk s))) (drivers s) ?d"
      using r kb id i(2) sem by (simp add: device_ok_def kb_ext_def)
    moreover have dev_ids: "dev_ids (?s\<lparr>sk := ?k\<rparr>) = dev_ids s"
      by (rule dev_ids_cong) (simp_all add: upd_dev_def d(1))
    moreover have "tbl_inv (?s\<lparr>sk := ?k\<rparr>)"
      by (rule tbl_inv_cong [OF _ _ b(2)]) (simp_all add: upd_dev_def d(1))
    moreover have "irq_inv (?s\<lparr>sk := ?k\<rparr>)"
      using irq_inv_cong [of "?s\<lparr>sk := ?k\<rparr>" s] dev_ids b(4) by (simp add: upd_dev_def)
    moreover have "devs_inv n R l (card (open_files s)) (?s\<lparr>sk := ?k\<rparr>)"
      using calculation(1) b(3) d(1) len unfolding devs_inv_def by (simp add: upd_dev_def)
    ultimately have "follows n R l (card (open_files s)) s (?s\<lparr>sk := ?k\<rparr>)"
      using up(2) b(5) by (simp add: follows_def base_inv_def upd_dev_def)
    from svc_same [OF inv this] h room' dev_ids show ?thesis by (simp add: upd_dev_def)
  qed
qed


lemma run_handles_ok:
  assumes "svc_inv n R l E s" "sems_room (length ps) (sk s)"
    "\<forall>p \<in> set ps. \<exists>sd. serdscs s p = Some sd \<and> (s_handle sd = Uart_handle \<longrightarrow> (\<exists>i. dev_ids s (s_device sd) = Some i \<and> i \<noteq> rfs_id))"
  shows "\<exists>s'. run_handles ps s = Inr s' \<and> svc_inv n R l E s' \<and> machintflt s' = machintflt s"
  using assms
proof (induction ps arbitrary: s)
  case (Cons p ps)
  from Cons.prems(3) obtain sd where sd: "serdscs s p = Some sd"
    "s_handle sd = Uart_handle \<longrightarrow> (\<exists>i. dev_ids s (s_device sd) = Some i \<and> i \<noteq> rfs_id)" by auto
  have "\<exists>st s1. call_handle sd s = Inr (st, s1) \<and> svc_inv n R l E s1 \<and> sems_room (length ps) (sk s1) \<and>
    machintflt s1 = machintflt s \<and> serdscs s1 = serdscs s \<and> dev_ids s1 = dev_ids s"
  proof (cases "s_handle sd")
    case Systick_handle
    have "sems_room (length ps) (sk s)" using Cons.prems(2) by (auto simp: sems_room_def)
    with Systick_handle systick_handle_ok [OF Cons.prems(1)] show ?thesis by (auto simp: call_handle_def sems_room_def)
  next
    case Uart_handle
    with sd(2) obtain i where "dev_ids s (s_device sd) = Some i" "i \<noteq> rfs_id" by blast
    from uart_handle_ok [OF Cons.prems(1) this, of "length ps"] Cons.prems(2) Uart_handle show ?thesis
      by (simp add: call_handle_def)
  qed
  then obtain st s1 where c: "call_handle sd s = Inr (st, s1)" and s1: "svc_inv n R l E s1" "sems_room (length ps) (sk s1)"
    "machintflt s1 = machintflt s" "serdscs s1 = serdscs s" "dev_ids s1 = dev_ids s" by blast
  from Cons.IH [OF s1(1,2)] Cons.prems(3) s1(3-5) c sd(1) show ?case
    by (auto simp: at_def)
qed simp

lemma svc_intflt:
  assumes inv: "svc_inv n R l E s" and i: "i < 256" and f: "\<And>d. i_serlist (f d) = i_serlist d"
  shows "\<exists>s'. upd_intflt i f s = Inr s' \<and> svc_inv n R l E s' \<and> sk s' = sk s \<and> serdscs s' = serdscs s \<and> dev_ids s' = dev_ids s \<and>
    length (machintflt s') = length (machintflt s) \<and> i_serlist (machintflt s' ! i) = i_serlist (machintflt s ! i)"
proof -
  note b = base_invD [OF svc_invD(1) [OF inv]]
  have len: "length (machintflt s) = 256" using b(4) by (simp add: irq_inv_def)
  let ?m = "(machintflt s)[i := f (machintflt s ! i)]" let ?s = "s\<lparr>machintflt := ?m\<rparr>"
  have ids: "dev_ids ?s = dev_ids s" by (rule dev_ids_cong) simp_all
  have sub: "\<exists>d' \<in> set (machintflt s). i_serlist d = i_serlist d'" if "d \<in> set ?m" for d
  proof -
    from that have "d \<in> insert (f (machintflt s ! i)) (set (machintflt s))" by (rule set_update_subset_insert [THEN subsetD])
    then show ?thesis using f len i by (metis insertE nth_mem)
  qed
  have "irq_inv ?s"
    unfolding irq_inv_def ids
  proof (intro conjI ballI)
    fix d p assume d: "d \<in> set (machintflt ?s)" "p \<in> set (i_serlist d)"
    from sub d(1) obtain d' where "d' \<in> set (machintflt s)" "i_serlist d = i_serlist d'" by auto
    with d(2) b(4) show "\<exists>sd. serdscs ?s p = Some sd \<and> (s_handle sd = Uart_handle \<longrightarrow> (\<exists>i. dev_ids s (s_device sd) = Some i \<and> i \<noteq> rfs_id))"
      unfolding irq_inv_def by simp
  qed (simp add: len)
  moreover have "tbl_inv ?s" by (rule tbl_inv_cong [OF _ _ b(2)]) simp_all
  moreover have "devs_inv n R l (card (open_files s)) ?s" using b(3) by (simp add: devs_inv_def)
  ultimately have "follows n R l (card (open_files s)) s ?s" using b(1,5) ids by (simp add: follows_def base_inv_def)
  from svc_same [OF inv this] have "svc_inv n R l E ?s" by simp
  with len i f ids show ?thesis by (intro exI [of _ ?s]) (simp add: upd_intflt_def)
qed

lemma interrupt_ok:
  assumes inv: "svc_inv n R l E s" and nr: "unat nr < 256" "fr \<noteq> 0"
    and room: "sems_room (length (i_serlist (machintflt s ! unat nr))) (sk s)"
  shows "\<exists>s'. hal_hwint_allocator nr fr s = Inr s' \<and> svc_inv n R l E s'"
proof -
  let ?f = "\<lambda>d. d\<lparr>i_indx := i_indx d + 1, i_deep := i_deep d + 1\<rparr>" and ?g = "\<lambda>d. d\<lparr>i_deep := i_deep d - 1\<rparr>"
  from svc_intflt [OF inv nr(1), of ?f] obtain s1 where s1: "upd_intflt (unat nr) ?f s = Inr s1" "svc_inv n R l E s1" "sk s1 = sk s"
    "serdscs s1 = serdscs s" "dev_ids s1 = dev_ids s" "length (machintflt s1) = length (machintflt s)"
    "i_serlist (machintflt s1 ! unat nr) = i_serlist (machintflt s ! unat nr)" by auto
  have i1: "irq_inv s1" by (rule base_invD(4) [OF svc_invD(1) [OF s1(2)]])
  then have len: "length (machintflt s1) = 256" by (simp add: irq_inv_def)
  then have "machintflt s1 ! unat nr \<in> set (machintflt s1)" using nr(1) by simp
  with i1 have "\<forall>p \<in> set (i_serlist (machintflt s1 ! unat nr)). \<exists>sd. serdscs s1 p = Some sd \<and>
    (s_handle sd = Uart_handle \<longrightarrow> (\<exists>i. dev_ids s1 (s_device sd) = Some i \<and> i \<noteq> rfs_id))" unfolding irq_inv_def by blast
  from run_handles_ok [OF s1(2) _ this] room s1(3,7) obtain s2 where
    s2: "run_handles (i_serlist (machintflt s1 ! unat nr)) s1 = Inr s2" "svc_inv n R l E s2" by auto
  from svc_intflt [OF s2(2) nr(1), of ?g] obtain s3 where s3: "upd_intflt (unat nr) ?g s2 = Inr s3" "svc_inv n R l E s3" by auto
  have r: "hal_retn_intfltdsc nr = Some (unat nr)" using nr(1) by (simp add: hal_retn_intfltdsc_def)
  have "hal_do_hwint nr fr s = Inr s3"
    using nr r s1(1) s2(1) s3(1) len by (simp add: hal_do_hwint_def hal_run_intflthandle_def)
  moreover have sch: "sched_inv (sk s3)" by (rule base_invD(1) [OF svc_invD(1) [OF s3(2)]])
  from krlsched_chkneed_pmptsched_ok [OF sch] obtain k where k: "krlsched_chkneed_pmptsched (sk s3) = Inr k" "sched_inv k"
    "sems k = sems (sk s3)" by blast
  moreover have "svc_inv n R l E (s3\<lparr>sk := k\<rparr>)"
    by (rule svc_sk [OF s3(2) k(2)]) (use k(3) htab_chkneed [OF sch k(1)] in simp_all)
  ultimately show ?thesis by (simp add: hal_hwint_allocator_def with_sk_def)
qed

section \<open>The system of programs, services and interrupts\<close>

datatype svc_event = Service u64 stkparame | Sched sys_event | Interrupt u64 u64 | Store "u64 \<Rightarrow> path" | Ports "nat \<Rightarrow> u8" u8
  | Memory "bool list"

text \<open>
  What can happen next: a service, asked for fairly; the scheduler's turn, by which another thread runs or a thread is
  made; an interrupt; the program writes to its memory; the clock and the keyboard answer something else; the memory service
  is going to answer the next requests of the file system otherwise, refusing some of them.
\<close>

inductive svc_step :: "nat \<Rightarrow> nat \<Rightarrow> (syscall \<Rightarrow> u64 \<Rightarrow> stkparame \<Rightarrow> dst \<Rightarrow> answer) \<Rightarrow> dst \<Rightarrow> svc_event \<Rightarrow> dst \<Rightarrow> bool"
  for n R oth where
  service: "fair_service n R nr p s \<Longrightarrow> hal_syscl_allocator oth nr p s = Inr (v, s') \<Longrightarrow> svc_step n R oth s (Service nr p) s'"
| sched: "e = Yield \<or> (\<exists>a name fr fl pl pr us ks. e = Spawn a name fr fl pl pr us ks) \<Longrightarrow> enabled e (sk s) \<Longrightarrow>
    sys_do e (sk s) = Inr (r, k) \<Longrightarrow> svc_step n R oth s (Sched e) (s\<lparr>sk := k\<rparr>)"
| interrupt: "unat nr < 256 \<Longrightarrow> fr \<noteq> 0 \<Longrightarrow> sems_room (length (i_serlist (machintflt s ! unat nr))) (sk s) \<Longrightarrow>
    hal_hwint_allocator nr fr s = Inr s' \<Longrightarrow> svc_step n R oth s (Interrupt nr fr) s'"
| store: "svc_step n R oth s (Store m) (s\<lparr>umem := m\<rparr>)"
| ports: "svc_step n R oth s (Ports c k) (s\<lparr>cmos := c, kb_port := k\<rparr>)"
| memory: "svc_step n R oth s (Memory gs) (s\<lparr>buf_ans := gs\<rparr>)"

inductive svc_run :: "nat \<Rightarrow> nat \<Rightarrow> (syscall \<Rightarrow> u64 \<Rightarrow> stkparame \<Rightarrow> dst \<Rightarrow> answer) \<Rightarrow> dst \<Rightarrow> svc_event list \<Rightarrow> dst \<Rightarrow> bool"
  for n R oth where
  rest: "svc_run n R oth s [] s"
| more: "svc_step n R oth s e s' \<Longrightarrow> svc_run n R oth s' es s'' \<Longrightarrow> svc_run n R oth s (e # es) s''"

lemma svc_spawned:
  assumes inv: "svc_inv n R l E s" and k: "sched_inv k" "sems k = sems (sk s)" "threads k = (threads (sk s))(t \<mapsto> h)"
    and h: "threads (sk s) t = None" "td_handtbl h = replicate 8 None"
  shows "svc_inv n R l E (s\<lparr>sk := k\<rparr>)"
proof -
  let ?s = "s\<lparr>sk := k\<rparr>"
  note v = svc_invD [OF inv]
  have H: "htab k = (htab (sk s))(t \<mapsto> replicate 8 None)" "htab (sk s) t = None"
    using h by (auto simp: htab_def k(3) fun_eq_iff)
  have at: "hand_at (htab k) = hand_at (htab (sk s))"
    using H(2) by (auto simp: hand_at_def H(1) fun_eq_iff)
  have o: "opened (htab k) = opened (htab (sk s))" by (simp add: opened_def at)
  have "hands_inv E (htab k) (objnodes s)"
    using v(2) unfolding hands_inv_def at o by (auto simp: H(1))
  moreover have "open_files ?s = open_files s" by (simp add: open_files_def o)
  moreover from base_inv_cong [where s' = ?s, OF v(1)] have "base_inv n R l (card (open_files s)) ?s" "dev_ids ?s = dev_ids s"
    using k by simp_all
  ultimately show ?thesis using v(3) by (simp add: svc_inv_def o)
qed

lemma svc_step_inv:
  assumes "svc_step n R oth s e s'" "svc_inv n R l E s"
  shows "svc_inv n R l E s'"
  using assms
proof cases
  case (service nr p v)
  with service_serves [OF assms(2) service(2), of oth] show ?thesis by (auto simp: serves_def)
next
  case (sched e r k)
  have sch: "sched_inv (sk s)" by (rule base_invD(1) [OF svc_invD(1) [OF assms(2)]])
  from sched(3) show ?thesis
  proof (elim disjE exE)
    assume "e = Yield"
    with sched(5) scheduled_inv [OF sch] have k: "k = scheduled (sk s)" "sched_inv k" by auto
    show ?thesis unfolding sched(2) by (rule svc_sk [OF assms(2) k(2)]) (simp_all add: k(1))
  next
    fix a name fr fl pl pr us ks
    assume e: "e = Spawn a name fr fl pl pr us ks"
    with sched(4) have f: "fresh (ans_dsc a) (sk s)" by simp
    from krlnew_thread_inv [OF sch f] obtain t where
      x: "krlnew_thread a name fr fl pl pr us ks (sk s) = Inr (t, k)" "sched_inv k" "t = None \<longrightarrow> k = sk s"
      "\<forall>u. t = Some u \<longrightarrow> u = ans_dsc a \<and> (\<exists>h. td_handtbl h = replicate 8 None \<and> threads k = (threads (sk s))(u \<mapsto> h))" "sems k = sems (sk s)"
      using sched(5) e by (simp add: andthen_eq_Inr) (metis Pair_inject sum.inject(2))
    show ?thesis
    proof (cases t)
      case None
      with x(3) assms(2) show ?thesis unfolding sched(2) by simp
    next
      case (Some u)
      with x(4) obtain h where "u = ans_dsc a" "td_handtbl h = replicate 8 None" "threads k = (threads (sk s))(u \<mapsto> h)" by blast
      with svc_spawned [OF assms(2) x(2,5), of u h] f show ?thesis unfolding sched(2) by (simp add: fresh_def)
    qed
  qed
next
  case (interrupt nr fr)
  with interrupt_ok [OF assms(2) interrupt(2-4)] show ?thesis by auto
next
  case (store m)
  show ?thesis unfolding store by (rule svc_follows [OF assms(2)]) (simp_all add: base_invD(1) [OF svc_invD(1) [OF assms(2)]])
next
  case (ports c k)
  show ?thesis unfolding ports by (rule svc_follows [OF assms(2)]) (simp_all add: base_invD(1) [OF svc_invD(1) [OF assms(2)]])
next
  case (memory gs)
  show ?thesis unfolding memory by (rule svc_follows [OF assms(2)]) (simp_all add: base_invD(1) [OF svc_invD(1) [OF assms(2)]])
qed

lemma svc_run_snoc: "svc_run n R oth s es s' \<Longrightarrow> svc_step n R oth s' e s'' \<Longrightarrow> svc_run n R oth s (es @ [e]) s''"
  by (induction rule: svc_run.induct) (auto intro: svc_run.intros)

lemma svc_run_inv: "svc_run n R oth s es s' \<Longrightarrow> svc_inv n R l E s \<Longrightarrow> svc_inv n R l E s'"
  by (induction rule: svc_run.induct) (auto intro: svc_step_inv)

end
