(* ===== verification/DevBoot.thy ===== *)
theory DevBoot
  imports DevSystem
begin

text \<open>
  The start of the kernel: \<open>init_intfltdsc\<close>, \<open>init_krldevice\<close> and \<open>init_krldriver\<close> make the tables and run the entries of the
  three drivers of the table, the RAM disk formats itself and passes its self-test, the first thread is made, and the state
  that results satisfies the invariant of \<open>DevInv\<close>.
\<close>

section \<open>The self-test of the file system passes\<close>

definition test_nm :: "u8 list" where
  "test_nm = [116, 101, 115, 116, 102, 105, 108, 101]"

lemma testfile_path: "path_to test_nm testfile" "nm_ok test_nm"
proof -
  have "cstr (\<lambda>i. if i < 9 then [47, 116, 101, 115, 116, 102, 105, 108, 101] ! i else 0) 10 0 (47 # test_nm)"
    by (simp add: test_nm_def cstr_Cons cstr_Nil)
  then show "path_to test_nm testfile" by (simp add: path_to_def testfile_def)
qed (simp add: nm_ok_def test_nm_def)

lemma self_test:
  assumes inv: "fs_inv n R r []" and free: "first_free n r k" and l: "krl_live r = l"
  shows "\<exists>r' ents. test_fsys_rfs r = Inr r' \<and> fs_inv n R r' ents \<and> fs_files r' ents = Map.empty \<and> krl_live r' = l"
proof -
  note p = testfile_path
  have none: "fs_files r [] test_nm = None" by (simp add: fs_files_def)
  let ?r1 = "created R r [] test_nm k" let ?e = "[Some (test_nm, k)]"
  have new: "rfs_new_file r testfile = Inr (DFCOKSTUS, ?r1)"
    by (rule rfs_new_file_ok(1) [OF inv p none _ free]) simp
  have i1: "fs_inv n R ?r1 ?e" using created_inv [OF inv p(2) none _ free] by simp
  have f1: "fs_files ?r1 ?e = [test_nm \<mapsto> []]" using created_files [OF inv free none] by (simp add: fs_files_def)
  have e: "(test_nm, k) \<in> set (entries ?e)" by simp
  from rfs_openfileblk_ok(2) [OF i1 p] f1 obtain b where
    "(test_nm, b) \<in> set (entries ?e)" "rfs_openfileblk ?r1 testfile = Inr (Some (rde_mem ?r1 b), bump ?r1)" by auto
  then have op: "rfs_openfileblk ?r1 testfile = Inr (Some (blank_file k 2), bump ?r1)"
    using created_simps(3) [OF inv free] by simp
  note sb = sb_okD [OF fs_invD(1) [OF i1]]
  have kn: "k < n" using free by (simp add: first_free_def)
  let ?a = "appended (blank_file k 2) (hal_memset 0xff) 512"
  let ?r2 = "?r1\<lparr>rde_mem := (rde_mem ?r1)(k := ?a)\<rparr>"
  have small: "unat (ld64 (blank_file k 2) 64) + unat (512 :: u64) < 3584" by (simp add: blank_file_fields)
  note ap = appended_ok [OF fil_ok_blank small, of "hal_memset 0xff"]
  have wr: "rfs_writefileblk (bump ?r1) (blank_file k 2) (hal_memset 0xff) 512 = Inr (DFCOKSTUS, ?a, bump ?r2)"
    using rfs_writefileblk_ok [OF _ fil_ok_blank kn sb(6) small, of "bump ?r1"] sb(1) by simp
  have rd: "rfs_readfileblk ?a (hal_memset 0) 512 = Inr (DFCOKSTUS, \<lambda>i. if i < 512 then 0xff else 0)"
  proof -
    have "?a (512 + i) = 0xff" if "i < 512" for i
      using that appended_low(4) [OF fil_ok_blank, of "512 + i" k "hal_memset 0xff" 512]
      by (simp add: blank_file_fields hal_memset_def)
    then show ?thesis
      using rfs_readfileblk_ok [OF ap(1), of 512 "hal_memset 0"] by (auto simp: hal_memset_def fun_eq_iff)
  qed
  note up = file_block_update [OF i1 e ap(1)]
  have cl: "rfs_closefileblk (bump ?r2) ?a = Inr (DFCOKSTUS, ?r2)"
    using rfs_closefileblk_ok [OF _ ap(1) kn sb(6), of "bump ?r2" "krl_live ?r2"] sb(1) by simp
  have "fs_files ?r2 ?e test_nm \<noteq> None" using up(2) by simp
  from rfs_del_file_ok(2) [OF up(1) p this] obtain t b where t: "t < length ?e" "?e ! t = Some (test_nm, b)"
    "rfs_del_file ?r2 testfile 0 = Inr (DFCOKSTUS, deleted R ?r2 t b)" by blast
  let ?r3 = "deleted R ?r2 t b"
  note d = deleted_inv [OF up(1) t(1,2)]
  have f3: "fs_files ?r3 (?e[t := None]) = Map.empty" using d(2) up(2) f1 by simp
  have "fs_files ?r3 (?e[t := None]) test_nm = None" by (simp only: f3)
  then have miss: "rfs_openfileblk ?r3 testfile = Inr (None, ?r3)"
    by (rule rfs_openfileblk_ok(1) [OF d(1) p])
  have tf: "testfile \<noteq> None" by (simp add: testfile_def)
  have chk: "\<not> list_ex (\<lambda>i. (if i < 512 then 0xff else (0 :: u8)) \<noteq> 0xff) [0..<512]" by (simp add: list_ex_iff)
  have "test_fsys_rfs r = Inr ?r3"
    using new op wr rd cl t(3) miss tf chk
    by (simp add: test_fsys_rfs_def Let_def expect_def rfs_open_def rfs_open_file_def rfs_write_def rfs_write_file_def
        rfs_read_def rfs_read_file_def rfs_close_def rfs_close_file_def rfs_ioctrl_def)
  moreover have "krl_live ?r3 = l" using l by simp
  ultimately show ?thesis using d(1) f3 by blast
qed

lemma sb_tests:
  assumes sb: "sb_ok n R r"
  shows "test_rfs_superblk r = Inr r" "test_rfs_bitmap r = Inr r" "test_rfs_rootdir r = Inr r"
proof -
  note b = sb_okD [OF sb] and g = sb
  show "test_rfs_superblk r = Inr r"
    using sb dev_bounds [OF b(1)] by (simp add: test_rfs_superblk_def get_superblk_def del_superblk_def sb_ok_def read_blk [of n] write_blk [of n])
  show "test_rfs_bitmap r = Inr r"
    using sb dev_bounds [OF b(1)] by (simp add: test_rfs_bitmap_def sb_ok_def read_blk [of n])
  show "test_rfs_rootdir r = Inr r"
    using sb dev_bounds [OF b(1)]
    by (simp add: test_rfs_rootdir_def get_rootdir_def del_rootdir_def get_superblk_def del_superblk_def sb_ok_def ld64_shift
        read_blk [of n] write_blk [of n] of_nat_blk)
qed


section \<open>A device enters the table\<close>

text \<open>
  The kernel memory service never gives a block that is in use; as long as fewer than 4096 are, it gives one, and it lies
  inside the address space. \<open>m\<close> more can be asked for. It refuses the file system no buffer.
\<close>

definition krl_ok :: "nat \<Rightarrow> dst \<Rightarrow> bool" where
  "krl_ok m s \<longleftrightarrow> card (in_use s) + m < 4096 \<and> (\<forall>k L. krl_ans s k L = 0 \<or> krl_ans s k L \<notin> L) \<and>
     (\<forall>k L. card L < 4096 \<longrightarrow> krl_ans s k L \<noteq> 0 \<and> unat (krl_ans s k L) + 0x400000 < 2 ^ 64) \<and> buf_ans s = []"

lemma krl_ok_same: "krl_ok m s \<Longrightarrow> krl_ans s' = krl_ans s \<Longrightarrow> buf_ans s' = buf_ans s \<Longrightarrow> in_use s' = in_use s \<Longrightarrow> krl_ok m s'"
  by (simp add: krl_ok_def)

lemma krl_ok_more: "krl_ok (Suc m) s \<Longrightarrow> krl_ans s' = krl_ans s \<Longrightarrow> buf_ans s' = buf_ans s \<Longrightarrow> in_use s' \<subseteq> insert a (in_use s) \<Longrightarrow> krl_ok m s'"
  using card_mono [of "insert a (in_use s)" "in_use s'"] card_insert_le_m1 [of "Suc (card (in_use s))" "in_use s" a]
  by (simp add: krl_ok_def)

lemma krlnew_ok:
  assumes "krl_ok m s"
  shows "\<exists>a. krlnew s = (a, s\<lparr>krl_calls := Suc (krl_calls s)\<rparr>) \<and> a \<noteq> 0 \<and> a \<notin> in_use s \<and> unat a + 0x400000 < 2 ^ 64"
proof -
  let ?a = "krl_ans s (krl_calls s) (in_use s)"
  have "card (in_use s) < 4096" using assms by (simp add: krl_ok_def)
  with assms have "?a \<noteq> 0" "unat ?a + 0x400000 < 2 ^ 64" unfolding krl_ok_def by blast+
  moreover have "?a = 0 \<or> ?a \<notin> in_use s" using assms unfolding krl_ok_def by blast
  ultimately show ?thesis by (simp add: krlnew_def)
qed

lemma dom_upd: "dom (m(p := map_option f (m p))) = dom m"
  by auto

lemma in_use_upd [simp]:
  "in_use (upd_dev p f s) = in_use s" "in_use (upd_drv p g s) = in_use s" "in_use (upd_table h s) = in_use s"
  "in_use (upd_cls t h' s) = in_use s" "in_use (entered p t s) = in_use s" "in_use (set_rfs p r s) = in_use s"
  "in_use (i8259_enabled_line k s) = in_use s"
  by (simp_all add: in_use_def upd_dev_def upd_drv_def upd_table_def upd_cls_def entered_def set_rfs_def i8259_enabled_line_def dom_upd
      del: fun_upd_apply dom_fun_upd)

text \<open>The invariant before there is a scheduler.\<close>

definition table_inv :: "nat \<Rightarrow> nat \<Rightarrow> nat \<Rightarrow> nat \<Rightarrow> dst \<Rightarrow> bool" where
  "table_inv n R l c s \<longleftrightarrow> tbl_inv s \<and> devs_inv n R l c s \<and> irq_inv s \<and> (\<forall>k L. krl_ans s k L = 0 \<or> krl_ans s k L \<notin> L)"

lemma table_invD:
  assumes "table_inv n R l c s"
  shows "tbl_inv s" "devs_inv n R l c s" "irq_inv s" "krl_ans s k L = 0 \<or> krl_ans s k L \<notin> L"
  using assms by (simp_all add: table_inv_def)

definition boot_inv :: "nat \<Rightarrow> nat \<Rightarrow> nat \<Rightarrow> nat \<Rightarrow> dst \<Rightarrow> bool" where
  "boot_inv m n R l s \<longleftrightarrow> table_inv n R l 0 s \<and> sems_free (sk s) \<and> krl_ok m s \<and> set (devt_drvlist (osdevtable s)) \<subseteq> dom (drivers s)"

lemma sems_free_new: "sems_free k \<Longrightarrow> sems_free (k\<lparr>sems := sems k @ [krlsem_t_init]\<rparr>)"
  by (simp add: sems_free_def krlsem_t_init_def)

lemma not_listed: "table_inv n R l c s \<Longrightarrow> devices s p = None \<Longrightarrow> p \<notin> set (devlist s)"
  using table_invD(2) [of n R l c s] by (auto simp: devs_inv_def)

lemma attach:
  assumes base: "table_inv n R l 0 s" and fresh: "devices s p = None" "drivers s rp = None"
    and s2: "osdevtable s2 = osdevtable s" "devices s2 = (devices s)(p \<mapsto> d)" "drivers s2 = (drivers s)(rp \<mapsto> r)"
    and d: "dev_drv d = None" "unat (dev_mtype (dev_id d)) < 34" "drv_alldevlist r = []" "\<forall>q. dev_ids s q \<noteq> Some (dev_id d)"
  obtains s3 where "add_device p rp s2 = Inr (DFCOKSTUS, s3)" "tbl_inv s3" "devices s3 = (devices s)(p \<mapsto> d\<lparr>dev_drv := Some rp\<rparr>)"
    "drivers s3 = (drivers s)(rp \<mapsto> r\<lparr>drv_alldevlist := [p]\<rparr>)" "dev_ids s3 = (dev_ids s)(p \<mapsto> dev_id d)"
    "devlist s3 = p # devlist s" "devt_drvlist (osdevtable s3) = devt_drvlist (osdevtable s)"
    "sk s3 = sk s2" "machintflt s3 = machintflt s2" "serdscs s3 = serdscs s2" "krl_ans s3 = krl_ans s2" "objnodes s3 = objnodes s2"
    "in_use s3 = in_use s2" "buf_ans s3 = buf_ans s2"
proof -
  define s3 where "s3 = entered p (unat (dev_mtype (dev_id d))) (upd_dev p (\<lambda>d. d\<lparr>dev_drv := Some rp\<rparr>)
    (upd_drv rp (\<lambda>r. r\<lparr>drv_alldevlist := [p]\<rparr>) s2))"
  have 1: "sk s3 = sk s2" "machintflt s3 = machintflt s2" "serdscs s3 = serdscs s2" "krl_ans s3 = krl_ans s2" "objnodes s3 = objnodes s2"
    "in_use s3 = in_use s2" "buf_ans s3 = buf_ans s2"
    by (simp_all add: s3_def) (simp_all add: entered_def upd_table_def upd_cls_def upd_dev_def upd_drv_def)
  note nl = not_listed [OF base fresh(1)]
  let ?s = "upd_dev p (\<lambda>d. d\<lparr>dev_drv := Some rp\<rparr>) (upd_drv rp (\<lambda>r. r\<lparr>drv_alldevlist := [p]\<rparr>) s2)"
  let ?d = "d\<lparr>dev_drv := Some rp\<rparr>"
  have a: "krldev_add_driver (Some p) (Some rp) s2 = Inr (DFCOKSTUS, ?s)"
    using s2 d by (simp add: krldev_add_driver_def at_def upd_drv_def)
  have dv: "devices ?s p = Some ?d" using s2 by (simp add: upd_dev_def upd_drv_def)
  have ids: "dev_ids ?s = dev_ids s"
  proof (rule dev_ids_cong)
    show "osdevtable ?s = osdevtable s" using s2(1) by (simp add: upd_dev_def upd_drv_def)
    show "map_option dev_id (devices ?s q) = map_option dev_id (devices s q)" if "q \<in> set (devlist s)" for q
      using that nl s2(2) by (auto simp: upd_dev_def upd_drv_def)
  qed
  have tbl: "tbl_inv ?s"
  proof (rule tbl_inv_cong [OF _ _ table_invD(1) [OF base]])
    show "osdevtable ?s = osdevtable s" using s2(1) by (simp add: upd_dev_def upd_drv_def)
    show "map_option (\<lambda>d. (dev_id d, dev_drv d)) (devices ?s q) = map_option (\<lambda>d. (dev_id d, dev_drv d)) (devices s q)"
      if "q \<in> set (devlist s)" for q
      using that nl s2(2) by (auto simp: upd_dev_def upd_drv_def)
  qed
  have none: "\<forall>q. \<not> device_named ?s (dev_id ?d) q" using d(4) by (simp add: device_named_ids ids)
  have k: "krlnew_device (Some p) ?s = Inr (DFCOKSTUS, s3) \<and> tbl_inv s3"
    using krlnew_device_ok(2) [OF tbl dv _ _ none] d(2) by (simp add: s3_def)
  then have 2: "add_device p rp s2 = Inr (DFCOKSTUS, s3)" "tbl_inv s3" using a by (simp_all add: add_device_def)
  have dv3: "devices s3 = (devices s)(p \<mapsto> d\<lparr>dev_drv := Some rp\<rparr>)"
    "drivers s3 = (drivers s)(rp \<mapsto> r\<lparr>drv_alldevlist := [p]\<rparr>)"
    using s2 by (simp_all add: s3_def upd_dev_def upd_drv_def)
  have dl: "devlist s3 = p # devlist s" "devt_drvlist (osdevtable s3) = devt_drvlist (osdevtable s)"
    using s2(1) by (simp_all add: s3_def upd_dev_def upd_drv_def)
  have "dev_ids s3 = (dev_ids s)(p \<mapsto> dev_id d)"
    using nl by (auto simp: dev_ids_def dl dv3 fun_eq_iff)
  with 1 2 dv3 dl show thesis by (intro that)
qed

lemma base_extend:
  assumes base: "table_inv n R l 0 s" and fresh: "devices s p = None" "drivers s rp = None"
    and sk: "length (sems (sk s)) \<le> length (sems (sk s'))" and tbl: "tbl_inv s'"
    and s': "devices s' = (devices s)(p \<mapsto> d)" "drivers s' = (drivers s)(rp \<mapsto> r)" "devlist s' = p # devlist s" "krl_ans s' = krl_ans s"
    and ok: "device_ok n R l' 0 (length (sems (sk s'))) (drivers s') d" and irq: "irq_inv s'"
    and l: "l' = l \<or> (\<forall>q. dev_ids s q \<noteq> Some rfs_id)"
  shows "table_inv n R l' 0 s'"
proof -
  note b = table_invD [OF base]
  have "\<exists>g. devices s' q = Some g \<and> device_ok n R l' 0 (length (sems (sk s'))) (drivers s') g" if q: "q \<in> set (devlist s')" for q
  proof (cases "q = p")
    case True
    with ok s'(1) show ?thesis by simp
  next
    case False
    with q s'(3) have q': "q \<in> set (devlist s)" by simp
    with b(2) obtain g where g: "devices s q = Some g" "device_ok n R l 0 (length (sems (sk s))) (drivers s) g"
      unfolding devs_inv_def by blast
    from g(2) obtain rp' r' where r': "dev_drv g = Some rp'" "drivers s rp' = Some r'"
      "if dev_id g = rfs_id then drv_dipfun r' = rfs_tab \<and> rfs_ext n R l (length (sems (sk s))) 0 (dev_extdata g)
      else drv_dipfun r' = systick_tab \<and> dev_extdata g = NoExt \<or> drv_dipfun r' = uart_tab \<and> kb_ext (length (sems (sk s))) (dev_extdata g)"
      unfolding device_ok_def by blast
    have "drivers s' rp' = Some r'" using r'(2) fresh(2) s'(2) by auto
    moreover have "dev_id g = rfs_id \<longrightarrow> l' = l"
    proof
      assume "dev_id g = rfs_id"
      then have "dev_ids s q = Some rfs_id" using q' g(1) by (simp add: dev_ids_def)
      with l show "l' = l" by blast
    qed
    moreover have "kb_ext (length (sems (sk s))) e \<Longrightarrow> kb_ext (length (sems (sk s'))) e" for e
      using sk by (auto simp: kb_ext_def)
    ultimately have "device_ok n R l' 0 (length (sems (sk s'))) (drivers s') g"
      using r' unfolding device_ok_def rfs_ext_def by (cases "dev_id g = rfs_id") auto
    with g(1) False s'(1) show ?thesis by simp
  qed
  then have "devs_inv n R l' 0 s'" unfolding devs_inv_def by blast
  with tbl irq b(4) s'(4) show ?thesis by (simp add: table_inv_def)
qed

lemma devhandle_ok:
  assumes i: "irq_inv s" and krl: "krl_ok (Suc m) s" and d: "devices s p = Some d" and dev: "dev_ids s p = Some i" "i \<noteq> rfs_id" and ln: "unat line < 256"
  shows "\<exists>d' s'. krlnew_devhandle p hdl line s = Inr (DFCOKSTUS, s') \<and> irq_inv s' \<and> devices s' = (devices s)(p \<mapsto> d') \<and>
    dev_id d' = dev_id d \<and> dev_drv d' = dev_drv d \<and> dev_extdata d' = dev_extdata d \<and> drivers s' = drivers s \<and>
    osdevtable s' = osdevtable s \<and> sk s' = sk s \<and> krl_ans s' = krl_ans s \<and> objnodes s' = objnodes s \<and> krl_ok m s'"
proof -
  let ?q = "krl_ans s (krl_calls s) (in_use s)"
  have q: "?q \<noteq> 0" "serdscs s ?q = None"
    using krlnew_ok [OF krl] by (auto simp: krlnew_def in_use_def domIff)
  have len: "length (machintflt s) = 256" using i by (simp add: irq_inv_def)
  have r: "hal_retn_intfltdsc line = Some (unat line)" using ln by (simp add: hal_retn_intfltdsc_def)
  let ?sd = "intserdsc_t_init 0 (unat line) p hdl"
  let ?f = "\<lambda>d. d\<lparr>i_serlist := ?q # i_serlist d, i_sernr := i_sernr d + 1\<rparr>"
  let ?g = "\<lambda>d. d\<lparr>dev_intserlst := ?q # dev_intserlst d, dev_intlnenr := dev_intlnenr d + 1\<rparr>"
  let ?s = "upd_dev p ?g (s\<lparr>krl_calls := Suc (krl_calls s), serdscs := (serdscs s)(?q \<mapsto> ?sd),
    machintflt := (machintflt s)[unat line := ?f (machintflt s ! unat line)]\<rparr>)"
  have call: "krlnew_devhandle p hdl line s = Inr (DFCOKSTUS, ?s)"
    using q(1) len ln r d
    by (simp add: krlnew_devhandle_def krladd_irqhandle_def krlnew_def hal_add_ihandle_def upd_intflt_def at_def Let_def)
  have ids: "dev_ids ?s = dev_ids s"
    by (rule dev_ids_cong) (simp_all add: upd_dev_def d)
  have "irq_inv ?s"
    unfolding irq_inv_def ids
  proof (intro conjI ballI)
    show "length (machintflt ?s) = 256" using len by (simp add: upd_dev_def)
    fix x a assume x: "x \<in> set (machintflt ?s)" "a \<in> set (i_serlist x)"
    then have "x \<in> insert (?f (machintflt s ! unat line)) (set (machintflt s))"
      using set_update_subset_insert [of "machintflt s" "unat line"] by (auto simp: upd_dev_def)
    with x(2) have a: "a = ?q \<or> (\<exists>y \<in> set (machintflt s). a \<in> set (i_serlist y))"
      using len ln by auto
    show "\<exists>sd. serdscs ?s a = Some sd \<and> (s_handle sd = Uart_handle \<longrightarrow> (\<exists>i. dev_ids s (s_device sd) = Some i \<and> i \<noteq> rfs_id))"
    proof (cases "a = ?q")
      case True
      with dev show ?thesis by (simp add: upd_dev_def intserdsc_t_init_def)
    next
      case False
      with a i show ?thesis unfolding irq_inv_def by (auto simp: upd_dev_def)
    qed
  qed
  moreover have "krl_ok m ?s"
    by (rule krl_ok_more [OF krl, of _ ?q]) (simp add: upd_dev_def, simp add: upd_dev_def, simp, auto simp: in_use_def)
  ultimately show ?thesis
    using call d by (intro exI [of _ "?g d"] exI [of _ ?s]) (simp add: upd_dev_def)
qed


section \<open>The three drivers start\<close>

definition systick_id :: devid where "systick_id = \<lparr>dev_mtype = SYSTICK_DEVICE, dev_stype = 0, dev_nr = 0\<rparr>"
definition uart_id :: devid where "uart_id = \<lparr>dev_mtype = UART_DEVICE, dev_stype = 0, dev_nr = 0\<rparr>"

lemma ids_distinct [simp]: "systick_id \<noteq> rfs_id" "uart_id \<noteq> rfs_id" "systick_id \<noteq> uart_id"
  "rfs_id \<noteq> systick_id" "rfs_id \<noteq> uart_id" "uart_id \<noteq> systick_id"
  by (simp_all add: systick_id_def uart_id_def rfs_id_def)

text \<open>What the start of a driver leaves: one more device, called \<open>i\<close>; handles and objects are as they were.\<close>

definition started :: "nat \<Rightarrow> nat \<Rightarrow> nat \<Rightarrow> nat \<Rightarrow> devid \<Rightarrow> u64 set \<Rightarrow> dst \<Rightarrow> dst \<Rightarrow> bool" where
  "started m n R l i A s s' \<longleftrightarrow> boot_inv m n R l s' \<and> (\<exists>p. dev_ids s p = None \<and> dev_ids s' = (dev_ids s)(p \<mapsto> i)) \<and>
     (\<forall>q d. devices s q = Some d \<longrightarrow> devices s' q = Some d) \<and> threads (sk s') = threads (sk s) \<and> dom (objnodes s') = dom (objnodes s) \<union> A \<and> A \<inter> dom (objnodes s) = {}"

lemma in_use_none: "a \<notin> in_use s \<Longrightarrow> devices s a = None \<and> drivers s a = None \<and> objnodes s a = None \<and> serdscs s a = None"
  by (auto simp: in_use_def domIff)

text \<open>The driver is entered in the list of the system.\<close>

lemma add_system:
  assumes base: "table_inv n R l 0 s" and rp: "drivers s rp \<noteq> None" "rp \<notin> set (devt_drvlist (osdevtable s))"
  obtains s' where "krldriver_add_system rp s = Inr (DFCOKSTUS, s')" "table_inv n R l 0 s'" "dev_ids s' = dev_ids s"
    "drivers s' = drivers s" "devt_drvlist (osdevtable s') = rp # devt_drvlist (osdevtable s)" "sk s' = sk s" "krl_ans s' = krl_ans s"
    "objnodes s' = objnodes s" "devices s' = devices s" "in_use s' = in_use s" "buf_ans s' = buf_ans s"
proof -
  let ?s = "upd_table (\<lambda>d. d\<lparr>devt_drvlist := rp # devt_drvlist d, devt_drvnr := devt_drvnr d + 1\<rparr>) s"
  note b = table_invD [OF base]
  have c: "krldriver_add_system rp s = Inr (DFCOKSTUS, ?s)" using rp by (simp add: krldriver_add_system_def)
  have ids: "dev_ids ?s = dev_ids s" by (simp add: dev_ids_def upd_table_def fun_eq_iff)
  have "tbl_inv ?s"
    using b(1) rp(2) unfolding tbl_inv_def cls_ok_def by (simp add: upd_table_def)
  moreover have "irq_inv ?s" using b(3) by (simp add: irq_inv_def ids) (simp add: upd_table_def)
  moreover have "devs_inv n R l 0 ?s" using b(2) by (simp add: devs_inv_def upd_table_def)
  ultimately have "table_inv n R l 0 ?s" using b(4) by (simp add: table_inv_def upd_table_def)
  from that [OF c this ids] show thesis using in_use_upd(3) [of "\<lambda>d. d\<lparr>devt_drvlist := rp # devt_drvlist d, devt_drvnr := devt_drvnr d + 1\<rparr>" s]
    by (simp add: upd_table_def)
qed

lemma irq_inv_more: "irq_inv s \<Longrightarrow> machintflt s' = machintflt s \<Longrightarrow> serdscs s' = serdscs s \<Longrightarrow>
  dev_ids s' = (dev_ids s)(p \<mapsto> i) \<Longrightarrow> dev_ids s p = None \<Longrightarrow> irq_inv s'"
  unfolding irq_inv_def by (auto simp: fun_upd_def) (metis option.distinct(1))+

lemma finish:
  assumes boot: "boot_inv k n R l s" and krl: "krl_ok m s'" and fresh: "devices s p = None" "drivers s rp = None"
    and sk: "sems_free (sk s')" "length (sems (sk s)) \<le> length (sems (sk s'))" "threads (sk s') = threads (sk s)" and tbl: "tbl_inv s'"
    and s': "devices s' = (devices s)(p \<mapsto> d)" "drivers s' = (drivers s)(rp \<mapsto> r)" "devlist s' = p # devlist s" "krl_ans s' = krl_ans s"
      "devt_drvlist (osdevtable s') = devt_drvlist (osdevtable s)" "dom (objnodes s') = dom (objnodes s) \<union> A" "A \<inter> dom (objnodes s) = {}"
    and ok: "device_ok n R l' 0 (length (sems (sk s'))) (drivers s') d" and irq: "irq_inv s'"
    and l: "l' = l \<or> (\<forall>q. dev_ids s q \<noteq> Some rfs_id)"
  shows "\<exists>s2. krldriver_add_system rp s' = Inr (DFCOKSTUS, s2) \<and> started m n R l' (dev_id d) A s s2"
proof -
  have base: "table_inv n R l 0 s" and dl: "set (devt_drvlist (osdevtable s)) \<subseteq> dom (drivers s)"
    using boot by (simp_all add: boot_inv_def)
  have base': "table_inv n R l' 0 s'" by (rule base_extend [OF base fresh sk(2) tbl s'(1-4) ok irq l])
  have "rp \<notin> set (devt_drvlist (osdevtable s))" using dl fresh(2) by (auto simp: dom_def)
  with s'(2,5) have rp: "drivers s' rp \<noteq> None" "rp \<notin> set (devt_drvlist (osdevtable s'))" by simp_all
  note nl = not_listed [OF base fresh(1)]
  have ids: "dev_ids s' = (dev_ids s)(p \<mapsto> dev_id d)" "dev_ids s p = None"
    using nl by (auto simp: dev_ids_def s'(1,3) fun_eq_iff)
  from add_system [OF base' rp] obtain s2 where s2: "krldriver_add_system rp s' = Inr (DFCOKSTUS, s2)" "table_inv n R l' 0 s2"
    "dev_ids s2 = dev_ids s'" "drivers s2 = drivers s'" "devt_drvlist (osdevtable s2) = rp # devt_drvlist (osdevtable s')"
    "sk s2 = sk s'" "krl_ans s2 = krl_ans s'" "objnodes s2 = objnodes s'" "devices s2 = devices s'" "in_use s2 = in_use s'" "buf_ans s2 = buf_ans s'" .
  have "krl_ok m s2" by (rule krl_ok_same [OF krl s2(7,11,10)])
  then have "boot_inv m n R l' s2"
    using s2 dl sk(1) s'(2,4,5) by (auto simp: boot_inv_def)
  moreover have "\<exists>p. dev_ids s p = None \<and> dev_ids s2 = (dev_ids s)(p \<mapsto> dev_id d)"
    using s2(3) ids by auto
  moreover have "\<forall>q d. devices s q = Some d \<longrightarrow> devices s2 q = Some d" using s2(9) s'(1) fresh(1) by auto
  ultimately show ?thesis
    using s2(1,6,8) sk(3) s'(6,7) by (auto simp: started_def)
qed

text \<open>Both descriptors are made and filled in.\<close>

definition blanked :: "u64 \<Rightarrow> u64 \<Rightarrow> (driver \<Rightarrow> driver) \<Rightarrow> (device \<Rightarrow> device) \<Rightarrow> dst \<Rightarrow> dst" where
  "blanked rp p f g s = s\<lparr>krl_calls := Suc (Suc (krl_calls s)), drivers := (drivers s)(rp \<mapsto> f (driver_t_init rp)),
     devices := (devices s)(p \<mapsto> g device_t_init)\<rparr>"

lemma blanks:
  assumes krl: "krl_ok (Suc (Suc m)) s"
  obtains rp p s1 s2 where "new_driver_dsc s = (Some rp, s1)" "new_device_dsc s1 = (Some p, s2)" "drivers s rp = None" "devices s p = None"
    "\<forall>f g. upd_dev p g (upd_drv rp f s2) = blanked rp p f g s" "\<forall>f g. krl_ok m (blanked rp p f g s)"
proof -
  from krlnew_ok [OF krl] obtain rp where rp: "krlnew s = (rp, s\<lparr>krl_calls := Suc (krl_calls s)\<rparr>)" "rp \<noteq> 0" "rp \<notin> in_use s" by blast
  let ?s1 = "s\<lparr>krl_calls := Suc (krl_calls s), drivers := (drivers s)(rp \<mapsto> driver_t_init rp)\<rparr>"
  have k1: "krl_ok (Suc m) ?s1" by (rule krl_ok_more [OF krl, of _ rp]) (auto simp: in_use_def)
  from krlnew_ok [OF this] obtain p where p: "krlnew ?s1 = (p, ?s1\<lparr>krl_calls := Suc (krl_calls ?s1)\<rparr>)" "p \<noteq> 0" "p \<notin> in_use ?s1" by blast
  let ?s2 = "?s1\<lparr>krl_calls := Suc (krl_calls ?s1), devices := (devices s)(p \<mapsto> device_t_init)\<rparr>"
  have 1: "new_driver_dsc s = (Some rp, ?s1)" using rp by (simp add: new_driver_dsc_def)
  have 2: "new_device_dsc ?s1 = (Some p, ?s2)" using p by (simp add: new_device_dsc_def)
  have 3: "drivers s rp = None" using in_use_none [OF rp(3)] by blast
  have 4: "devices s p = None" using in_use_none [OF p(3)] by simp
  have 5: "\<forall>f g. upd_dev p g (upd_drv rp f ?s2) = blanked rp p f g s"
    by (simp add: upd_dev_def upd_drv_def blanked_def)
  have "krl_ok m (blanked rp p f g s)" for f g
    by (rule krl_ok_more [OF k1, of _ p]) (auto simp: in_use_def blanked_def)
  then show thesis by (intro that [OF 1 2 3 4 5]) blast
qed

lemma krlrun_eq:
  "new_driver_dsc s = (Some rp, s1) \<Longrightarrow> call_entry e (Some rp) s1 = Inr (DFCOKSTUS, s2) \<Longrightarrow>
   krldriver_add_system rp s2 = Inr (DFCOKSTUS, s3) \<Longrightarrow> krlrun_driverentry e s = Inr (DFCOKSTUS, s3)"
  by (simp add: krlrun_driverentry_def)

lemma tbl_inv_same: "tbl_inv s \<Longrightarrow> osdevtable s' = osdevtable s \<Longrightarrow> devices s' = (devices s)(p \<mapsto> d') \<Longrightarrow> devices s p = Some d \<Longrightarrow>
  dev_id d' = dev_id d \<Longrightarrow> dev_drv d' = dev_drv d \<Longrightarrow> tbl_inv s'"
  by (rule tbl_inv_cong) auto

lemma enabled_fields [simp]:
  "osdevtable (i8259_enabled_line k s) = osdevtable s" "devices (i8259_enabled_line k s) = devices s"
  "drivers (i8259_enabled_line k s) = drivers s" "machintflt (i8259_enabled_line k s) = machintflt s"
  "serdscs (i8259_enabled_line k s) = serdscs s" "krl_ans (i8259_enabled_line k s) = krl_ans s"
  "buf_ans (i8259_enabled_line k s) = buf_ans s" "sk (i8259_enabled_line k s) = sk s" "objnodes (i8259_enabled_line k s) = objnodes s"
  "dev_ids (i8259_enabled_line k s) = dev_ids s" "irq_inv (i8259_enabled_line k s) = irq_inv s"
  by (simp_all add: i8259_enabled_line_def dev_ids_def irq_inv_def fun_eq_iff)

text \<open>A driver with an interrupt: descriptors made, device entered, handler registered.\<close>

lemma attach_irq:
  assumes boot: "boot_inv (Suc (Suc (Suc m))) n R l s" and none: "\<forall>q. dev_ids s q \<noteq> Some i" and i: "i \<noteq> rfs_id" "unat (dev_mtype i) < 34"
    and g: "dev_id (g device_t_init) = i" "dev_extdata (g device_t_init) = NoExt" "dev_drv (g device_t_init) = None"
    and f: "\<forall>rp. drv_dipfun (f (driver_t_init rp)) = tab \<and> drv_alldevlist (f (driver_t_init rp)) = []"
    and line: "unat line < 256"
  obtains rp p s1 s2 s3 s4 d4 r where "new_driver_dsc s = (Some rp, s1)" "new_device_dsc s1 = (Some p, s2)"
    "drivers s rp = None" "devices s p = None" "add_device p rp (upd_dev p g (upd_drv rp f s2)) = Inr (DFCOKSTUS, s3)"
    "krlnew_devhandle p hdl line s3 = Inr (DFCOKSTUS, s4)" "tbl_inv s4" "irq_inv s4" "krl_ok m s4" "devices s4 = (devices s)(p \<mapsto> d4)"
    "dev_id d4 = i" "dev_drv d4 = Some rp" "dev_extdata d4 = NoExt" "drivers s4 = (drivers s)(rp \<mapsto> r)" "drv_dipfun r = tab"
    "devlist s4 = p # devlist s" "devt_drvlist (osdevtable s4) = devt_drvlist (osdevtable s)" "sk s4 = sk s" "krl_ans s4 = krl_ans s"
    "objnodes s4 = objnodes s"
proof -
  have base: "table_inv n R l 0 s" and krl: "krl_ok (Suc (Suc (Suc m))) s" using boot by (simp_all add: boot_inv_def)
  note b = table_invD [OF base]
  obtain rp p s1 s2 where new: "new_driver_dsc s = (Some rp, s1)" "new_device_dsc s1 = (Some p, s2)" "drivers s rp = None" "devices s p = None"
    "\<forall>f g. upd_dev p g (upd_drv rp f s2) = blanked rp p f g s" "\<forall>f g. krl_ok (Suc m) (blanked rp p f g s)" using blanks [OF krl] by metis
  define d where "d = g device_t_init"
  define r where "r = f (driver_t_init rp)"
  define s2' where "s2' = blanked rp p f g s"
  have id: "dev_id d = i" "dev_extdata d = NoExt" "drv_dipfun r = tab" using f g by (simp_all add: d_def r_def)
  have dr: "dev_drv d = None" "unat (dev_mtype (dev_id d)) < 34" "drv_alldevlist r = []" "\<forall>q. dev_ids s q \<noteq> Some (dev_id d)"
    using none i f g by (simp_all add: d_def r_def)
  have bl: "osdevtable s2' = osdevtable s" "devices s2' = (devices s)(p \<mapsto> d)" "drivers s2' = (drivers s)(rp \<mapsto> r)"
    "sk s2' = sk s" "machintflt s2' = machintflt s" "serdscs s2' = serdscs s" "krl_ans s2' = krl_ans s" "objnodes s2' = objnodes s"
    by (simp_all add: s2'_def blanked_def d_def r_def)
  obtain s3 where at: "add_device p rp s2' = Inr (DFCOKSTUS, s3)" "tbl_inv s3" "devices s3 = (devices s)(p \<mapsto> d\<lparr>dev_drv := Some rp\<rparr>)"
    "drivers s3 = (drivers s)(rp \<mapsto> r\<lparr>drv_alldevlist := [p]\<rparr>)" "dev_ids s3 = (dev_ids s)(p \<mapsto> dev_id d)"
    "devlist s3 = p # devlist s" "devt_drvlist (osdevtable s3) = devt_drvlist (osdevtable s)"
    "sk s3 = sk s2'" "machintflt s3 = machintflt s2'" "serdscs s3 = serdscs s2'" "krl_ans s3 = krl_ans s2'" "objnodes s3 = objnodes s2'" "in_use s3 = in_use s2'"
    "buf_ans s3 = buf_ans s2'"
    by (rule attach [OF base new(4,3) bl(1-3) dr])
  have np: "dev_ids s p = None" using not_listed [OF base new(4)] by (simp add: dev_ids_def)
  have irq3: "irq_inv s3" by (rule irq_inv_more [OF b(3) _ _ at(5) np]) (simp_all add: at bl)
  have krl3: "krl_ok (Suc m) s3"
    by (rule krl_ok_same [of _ s2']) (use new(6) at(11,13,14) in \<open>simp_all add: s2'_def\<close>)
  have id3: "dev_ids s3 p = Some i" using at(5) id by simp
  have d3: "devices s3 p = Some (d\<lparr>dev_drv := Some rp\<rparr>)" using at(3) by simp
  from devhandle_ok [where line = line and hdl = hdl, OF irq3 krl3 d3 id3 i(1) line] obtain d4 s4 where
    h: "krlnew_devhandle p hdl line s3 = Inr (DFCOKSTUS, s4)" "irq_inv s4" "devices s4 = (devices s3)(p \<mapsto> d4)"
    "dev_id d4 = i" "dev_drv d4 = Some rp" "dev_extdata d4 = NoExt" "drivers s4 = drivers s3"
    "osdevtable s4 = osdevtable s3" "sk s4 = sk s3" "krl_ans s4 = krl_ans s3" "objnodes s4 = objnodes s3" "krl_ok m s4"
    using id by auto
  have s2: "upd_dev p g (upd_drv rp f s2) = s2'" using new(5) by (simp add: s2'_def)
  have d4: "devices s4 = (devices s)(p \<mapsto> d4)" using h(3) at(3) by simp
  have tbl: "tbl_inv s4"
    by (rule tbl_inv_same [OF at(2) h(8) _ d3, of d4]) (simp_all add: d4 at(3) h(4,5) id)
  note krl4 = h(12)
  have dl: "devlist s4 = p # devlist s" "devt_drvlist (osdevtable s4) = devt_drvlist (osdevtable s)" using h(8) at(6,7) by simp_all
  have r4: "drivers s4 = (drivers s)(rp \<mapsto> r\<lparr>drv_alldevlist := [p]\<rparr>)" "drv_dipfun (r\<lparr>drv_alldevlist := [p]\<rparr>) = tab"
    using h(7) at(4) id(3) by simp_all
  have rest: "sk s4 = sk s" "krl_ans s4 = krl_ans s" "objnodes s4 = objnodes s" using h(9-11) at(8,11,12) bl(4,7,8) by simp_all
  show thesis
    by (rule that [OF new(1-4) at(1) [folded s2] h(1) tbl h(2) krl4 d4 h(4-6) r4 dl rest])
qed

lemma start_systick:
  assumes boot: "boot_inv (Suc (Suc (Suc m))) n R l s" and none: "\<forall>q. dev_ids s q \<noteq> Some systick_id"
  shows "\<exists>s'. krlrun_driverentry Systick_entry s = Inr (DFCOKSTUS, s') \<and> started m n R l systick_id {} s s'"
proof -
  have g: "dev_id (systick_set_device device_t_init) = systick_id" "dev_extdata (systick_set_device device_t_init) = NoExt"
    "dev_drv (systick_set_device device_t_init) = None"
    by (simp_all add: systick_set_device_def systick_id_def device_t_init_def)
  have f: "\<forall>rp. drv_dipfun (systick_set_driver (driver_t_init rp)) = systick_tab \<and> drv_alldevlist (systick_set_driver (driver_t_init rp)) = []"
    by (simp add: systick_set_driver_def driver_t_init_def)
  obtain rp p s1 s2 s3 s4 d4 r where x: "new_driver_dsc s = (Some rp, s1)" "new_device_dsc s1 = (Some p, s2)"
    "drivers s rp = None" "devices s p = None" "add_device p rp (upd_dev p systick_set_device (upd_drv rp systick_set_driver s2)) = Inr (DFCOKSTUS, s3)"
    "krlnew_devhandle p Systick_handle 0x20 s3 = Inr (DFCOKSTUS, s4)" "tbl_inv s4" "irq_inv s4" "krl_ok m s4" "devices s4 = (devices s)(p \<mapsto> d4)"
    "dev_id d4 = systick_id" "dev_drv d4 = Some rp" "dev_extdata d4 = NoExt" "drivers s4 = (drivers s)(rp \<mapsto> r)" "drv_dipfun r = systick_tab"
    "devlist s4 = p # devlist s" "devt_drvlist (osdevtable s4) = devt_drvlist (osdevtable s)" "sk s4 = sk s" "krl_ans s4 = krl_ans s"
    "objnodes s4 = objnodes s"
    by (rule attach_irq [where g = systick_set_device and f = systick_set_driver and line = "0x20" and hdl = Systick_handle, OF boot none _ _ g f]) (simp_all add: systick_id_def rfs_id_def)
  define s5 where "s5 = i8259_enabled_line 0 s4"
  have e: "call_entry Systick_entry (Some rp) s1 = Inr (DFCOKSTUS, s5)"
    using x(2,5,6) by (simp add: call_entry_def systick_entry_def krlenable_intline_def hal_enable_intline_def s5_def)
  have f5: "devices s5 = (devices s)(p \<mapsto> d4)" "drivers s5 = (drivers s)(rp \<mapsto> r)" "devlist s5 = p # devlist s"
    "krl_ans s5 = krl_ans s" "devt_drvlist (osdevtable s5) = devt_drvlist (osdevtable s)" "sk s5 = sk s" "objnodes s5 = objnodes s" "irq_inv s5"
    using x by (simp_all add: s5_def)
  have tbl: "tbl_inv s5"
    by (rule tbl_inv_same [OF x(7), of _ p d4 d4]) (simp_all add: s5_def x(10))
  have ok: "device_ok n R l 0 (length (sems (sk s5))) (drivers s5) d4"
    using x(11-13,15) f5(2) by (simp add: device_ok_def)
  have krl5: "krl_ok m s5" by (rule krl_ok_same [OF x(9)]) (simp_all add: s5_def)
  have "\<exists>s6. krldriver_add_system rp s5 = Inr (DFCOKSTUS, s6) \<and> started m n R l (dev_id d4) {} s s6"
    by (rule finish [OF boot krl5 x(4,3) _ _ _ tbl f5(1-5) _ _ ok f5(8)])
      (use boot f5 in \<open>auto simp: boot_inv_def\<close>)
  with krlrun_eq [OF x(1) e] x(11) show ?thesis by auto
qed

lemma kboard_ok:
  assumes krl: "krl_ok (Suc m) s" and d: "devices s p = Some d"
  obtains kb s' where "init_kboard p s = s'" "kb_sem kb = length (sems (sk s))" "devices s' = (devices s)(p \<mapsto> d\<lparr>dev_extdata := KbExt kb\<rparr>)"
    "sk s' = (sk s)\<lparr>sems := sems (sk s) @ [krlsem_t_init]\<rparr>" "osdevtable s' = osdevtable s" "drivers s' = drivers s" "machintflt s' = machintflt s"
    "serdscs s' = serdscs s" "krl_ans s' = krl_ans s" "objnodes s' = objnodes s" "krl_ok m s'"
proof -
  from krlnew_ok [OF krl] obtain a where a: "krlnew s = (a, s\<lparr>krl_calls := Suc (krl_calls s)\<rparr>)" "a \<noteq> 0" by blast
  let ?w = "length (sems (sk s))" let ?kb = "kboard_t_init ?w (krl_junk s 0)"
  have sem: "(sems (sk s) @ [krlsem_t_init])[?w := krlsem_t_init\<lparr>sem_flg := 0, sem_count := 0\<rparr>] = sems (sk s) @ [krlsem_t_init]"
    by (simp add: krlsem_t_init_def)
  have "in_use (init_kboard p s) \<subseteq> insert a (in_use s)"
    using a by (auto simp: init_kboard_def new_sem_def Let_def in_use_def upd_dev_def split: if_splits)
  then have k: "krl_ok m (init_kboard p s)"
    using a by (intro krl_ok_more [OF krl]) (simp_all add: init_kboard_def new_sem_def Let_def upd_dev_def)
  show thesis
    by (rule that [of "init_kboard p s" ?kb])
      (use a d sem k in \<open>simp_all add: init_kboard_def new_sem_def krlsem_set_sem_def upd_dev_def Let_def kboard_t_init_def\<close>)
qed

lemma start_uart:
  assumes boot: "boot_inv (Suc (Suc (Suc (Suc m)))) n R l s" and none: "\<forall>q. dev_ids s q \<noteq> Some uart_id"
  shows "\<exists>s'. krlrun_driverentry Uart_entry s = Inr (DFCOKSTUS, s') \<and> started m n R l uart_id {} s s'"
proof -
  have g: "dev_id (uart0_set_device device_t_init) = uart_id" "dev_extdata (uart0_set_device device_t_init) = NoExt"
    "dev_drv (uart0_set_device device_t_init) = None"
    by (simp_all add: uart0_set_device_def uart_id_def device_t_init_def)
  have f: "\<forall>rp. drv_dipfun (uart_set_driver (driver_t_init rp)) = uart_tab \<and> drv_alldevlist (uart_set_driver (driver_t_init rp)) = []"
    by (simp add: uart_set_driver_def driver_t_init_def)
  obtain rp p s1 s2 s3 s4 d4 r where x: "new_driver_dsc s = (Some rp, s1)" "new_device_dsc s1 = (Some p, s2)"
    "drivers s rp = None" "devices s p = None" "add_device p rp (upd_dev p uart0_set_device (upd_drv rp uart_set_driver s2)) = Inr (DFCOKSTUS, s3)"
    "krlnew_devhandle p Uart_handle 0x21 s3 = Inr (DFCOKSTUS, s4)" "tbl_inv s4" "irq_inv s4" "krl_ok (Suc m) s4" "devices s4 = (devices s)(p \<mapsto> d4)"
    "dev_id d4 = uart_id" "dev_drv d4 = Some rp" "dev_extdata d4 = NoExt" "drivers s4 = (drivers s)(rp \<mapsto> r)" "drv_dipfun r = uart_tab"
    "devlist s4 = p # devlist s" "devt_drvlist (osdevtable s4) = devt_drvlist (osdevtable s)" "sk s4 = sk s" "krl_ans s4 = krl_ans s"
    "objnodes s4 = objnodes s"
    by (rule attach_irq [where g = uart0_set_device and f = uart_set_driver and line = "0x21" and hdl = Uart_handle, OF boot none _ _ g f]) (simp_all add: uart_id_def rfs_id_def)
  have dv4: "devices s4 p = Some d4" using x(10) by simp
  obtain kb k5 where k: "init_kboard p s4 = k5" "kb_sem kb = length (sems (sk s4))" "devices k5 = (devices s4)(p \<mapsto> d4\<lparr>dev_extdata := KbExt kb\<rparr>)"
    "sk k5 = (sk s4)\<lparr>sems := sems (sk s4) @ [krlsem_t_init]\<rparr>" "osdevtable k5 = osdevtable s4" "drivers k5 = drivers s4" "machintflt k5 = machintflt s4"
    "serdscs k5 = serdscs s4" "krl_ans k5 = krl_ans s4" "objnodes k5 = objnodes s4" "krl_ok m k5" by (rule kboard_ok [OF x(9) dv4])
  define s5 where "s5 = i8259_enabled_line 1 k5"
  define d5 where "d5 = d4\<lparr>dev_extdata := KbExt kb\<rparr>"
  have e: "call_entry Uart_entry (Some rp) s1 = Inr (DFCOKSTUS, s5)"
    using x(2,5,6) k(1) by (simp add: call_entry_def uart_entry_def krlenable_intline_def hal_enable_intline_def s5_def)
  have f5: "devices s5 = (devices s)(p \<mapsto> d5)" "drivers s5 = (drivers s)(rp \<mapsto> r)" "devlist s5 = p # devlist s"
    "krl_ans s5 = krl_ans s" "devt_drvlist (osdevtable s5) = devt_drvlist (osdevtable s)"
    "sk s5 = (sk s)\<lparr>sems := sems (sk s) @ [krlsem_t_init]\<rparr>" "objnodes s5 = objnodes s"
    using x k by (simp_all add: s5_def d5_def)
  have ids: "dev_ids k5 = dev_ids s4" by (rule dev_ids_cong) (simp_all add: k(3,5) dv4)
  have irq: "irq_inv s5" using irq_inv_cong [OF k(7,8) ids] x(8) by (simp add: s5_def)
  have tbl: "tbl_inv s5"
    by (rule tbl_inv_same [OF x(7), of _ p d5 d4]) (simp_all add: s5_def k(3,5) dv4 d5_def)
  have ok: "device_ok n R l 0 (length (sems (sk s5))) (drivers s5) d5"
    using x(11,12,15,18) f5(2,6) k(2) by (simp add: device_ok_def d5_def kb_ext_def)
  have krl5: "krl_ok m s5" by (rule krl_ok_same [OF k(11)]) (simp_all add: s5_def)
  have "\<exists>s6. krldriver_add_system rp s5 = Inr (DFCOKSTUS, s6) \<and> started m n R l (dev_id d5) {} s s6"
    by (rule finish [OF boot krl5 x(4,3) _ _ _ tbl f5(1-5) _ _ ok irq]) (use boot sems_free_new f5 in \<open>simp_all add: boot_inv_def\<close>)
  with krlrun_eq [OF x(1) e] x(11) show ?thesis by (auto simp: d5_def)
qed


lemma set_rfs_fields:
  assumes "devices s p = Some d" "krl_grants r = []"
  shows "devices (set_rfs p r s) = (devices s)(p \<mapsto> d\<lparr>dev_extdata := RfsExt r\<rparr>)" "osdevtable (set_rfs p r s) = osdevtable s"
    "drivers (set_rfs p r s) = drivers s" "machintflt (set_rfs p r s) = machintflt s" "serdscs (set_rfs p r s) = serdscs s"
    "krl_ans (set_rfs p r s) = krl_ans s" "sk (set_rfs p r s) = sk s" "objnodes (set_rfs p r s) = objnodes s"
    "buf_ans (set_rfs p r s) = []"
  using assms by (simp_all add: set_rfs_def upd_dev_def lend_granted)

lemma with_rfs_ok:
  "devices s p = Some d \<Longrightarrow> dev_extdata d = RfsExt r \<Longrightarrow> buf_ans s = [] \<Longrightarrow> krl_grants r = [] \<Longrightarrow> f r = Inr r' \<Longrightarrow>
   with_rfs f p s = Inr (set_rfs p r' s)"
  by (simp add: with_rfs_def rfs_of_def at_def lend_granted)

lemma set_rfs_same: "devices s p = Some d \<Longrightarrow> dev_extdata d = RfsExt r \<Longrightarrow> buf_ans s = [] \<Longrightarrow> krl_grants r = [] \<Longrightarrow> set_rfs p r s = s"
  by (simp add: set_rfs_def upd_dev_def fun_upd_idem lend_granted)

text \<open>The memory of the file system: any block of 4 MB, whatever it holds.\<close>

lemma rfs_memory:
  assumes krl: "krl_ok (Suc (Suc m)) s" and d: "devices s p = Some d"
  obtains r0 s' where "new_rfs_memory p FSMM_BLK s = (DFCOKSTUS, s')" "dev_ok 1024 r0" "krl_grants r0 = []" "krl_live r0 = 0"
    "devices s' = (devices s)(p \<mapsto> d\<lparr>dev_extdata := RfsExt r0\<rparr>)" "osdevtable s' = osdevtable s" "drivers s' = drivers s"
    "machintflt s' = machintflt s" "serdscs s' = serdscs s" "krl_ans s' = krl_ans s" "sk s' = sk s" "objnodes s' = objnodes s" "krl_ok m s'"
proof -
  from krlnew_ok [OF krl] obtain a where a: "krlnew s = (a, s\<lparr>krl_calls := Suc (krl_calls s)\<rparr>)" "a \<noteq> 0" "unat a + 0x400000 < 2 ^ 64" by blast
  let ?s = "s\<lparr>krl_calls := Suc (krl_calls s), krl_other := insert a (krl_other s)\<rparr>"
  have k1: "krl_ok (Suc m) ?s" by (rule krl_ok_more [OF krl, of _ a]) (auto simp: in_use_def)
  from krlnew_ok [OF this] obtain b where b: "krlnew ?s = (b, ?s\<lparr>krl_calls := Suc (krl_calls ?s)\<rparr>)" "b \<noteq> 0" by blast
  let ?s2 = "?s\<lparr>krl_calls := Suc (krl_calls ?s), krl_other := insert b (krl_other ?s)\<rparr>"
  let ?r = "\<lparr>rde_mstart = a, rde_msize = FSMM_BLK, rde_mem = krl_junk s, krl_grants = [], krl_live = 0\<rparr>"
  have g: "buf_ans s = []" using krl by (simp add: krl_ok_def)
  have c: "new_rfs_memory p FSMM_BLK s = (DFCOKSTUS, set_rfs p ?r ?s2)"
    using a b g by (simp add: new_rfs_memory_def new_rfsdevext_mmblk_def Let_def)
  have "dev_ok 1024 ?r" using a(3) by (simp add: dev_ok_def FSMM_BLK_def)
  moreover have "krl_ok m ?s2" by (rule krl_ok_more [OF k1, of _ b]) (auto simp: in_use_def)
  then have "krl_ok m (set_rfs p ?r ?s2)" by (rule krl_ok_same) (simp add: set_rfs_def upd_dev_def, simp add: set_rfs_def upd_dev_def g, simp)
  ultimately show thesis by (intro that [OF c]) (use d in \<open>simp_all add: set_rfs_fields\<close>)
qed

lemma start_rfs:
  assumes boot: "boot_inv (Suc (Suc (Suc (Suc (Suc m))))) 1024 2 1 s" and none: "\<forall>q. dev_ids s q \<noteq> Some rfs_id"
  shows "\<exists>s' a. krlrun_driverentry Rfs_entry s = Inr (DFCOKSTUS, s') \<and> started m 1024 2 1 rfs_id {a} s s' \<and> files_are 1024 2 s' Map.empty"
proof -
  have base: "table_inv 1024 2 1 0 s" and krl: "krl_ok (Suc (Suc (Suc (Suc (Suc m))))) s" using boot by (simp_all add: boot_inv_def)
  note b = table_invD [OF base]
  obtain rp p s1 s2 where new: "new_driver_dsc s = (Some rp, s1)" "new_device_dsc s1 = (Some p, s2)" "drivers s rp = None" "devices s p = None"
    "\<forall>f g. upd_dev p g (upd_drv rp f s2) = blanked rp p f g s" "\<forall>f g. krl_ok (Suc (Suc (Suc m))) (blanked rp p f g s)"
    using blanks [OF krl] by metis
  define s2' where "s2' = blanked rp p rfs_set_driver rfs_set_device s"
  define d where "d = rfs_set_device device_t_init"
  define r where "r = rfs_set_driver (driver_t_init rp)"
  have id: "dev_id d = rfs_id" "dev_drv d = None" "drv_dipfun r = rfs_tab" "drv_alldevlist r = []"
    by (simp_all add: d_def r_def rfs_set_device_def rfs_id_def device_t_init_def rfs_set_driver_def driver_t_init_def)
  have bl: "osdevtable s2' = osdevtable s" "devices s2' = (devices s)(p \<mapsto> d)" "drivers s2' = (drivers s)(rp \<mapsto> r)"
    "sk s2' = sk s" "machintflt s2' = machintflt s" "serdscs s2' = serdscs s" "krl_ans s2' = krl_ans s" "objnodes s2' = objnodes s"
    by (simp_all add: s2'_def blanked_def d_def r_def)
  have krl2: "krl_ok (Suc (Suc (Suc m))) s2'" using new(6) by (simp add: s2'_def)
  have d2: "devices s2' p = Some d" using bl(2) by simp
  obtain r0 s3 where m: "new_rfs_memory p FSMM_BLK s2' = (DFCOKSTUS, s3)" "dev_ok 1024 r0" "krl_grants r0 = []" "krl_live r0 = 0"
    "devices s3 = (devices s2')(p \<mapsto> d\<lparr>dev_extdata := RfsExt r0\<rparr>)" "osdevtable s3 = osdevtable s2'" "drivers s3 = drivers s2'"
    "machintflt s3 = machintflt s2'" "serdscs s3 = serdscs s2'" "krl_ans s3 = krl_ans s2'" "sk s3 = sk s2'" "objnodes s3 = objnodes s2'" "krl_ok (Suc m) s3"
    by (rule rfs_memory [OF krl2 d2])
  define d3 where "d3 = d\<lparr>dev_extdata := RfsExt r0\<rparr>"
  have a3: "osdevtable s3 = osdevtable s" "devices s3 = (devices s)(p \<mapsto> d3)" "drivers s3 = (drivers s)(rp \<mapsto> r)"
    using m bl by (simp_all add: d3_def)
  have dr: "dev_drv d3 = None" "unat (dev_mtype (dev_id d3)) < 34" "\<forall>q. dev_ids s q \<noteq> Some (dev_id d3)"
    using id none by (simp_all add: d3_def) (simp add: rfs_id_def)
  obtain s4 where at: "add_device p rp s3 = Inr (DFCOKSTUS, s4)" "tbl_inv s4" "devices s4 = (devices s)(p \<mapsto> d3\<lparr>dev_drv := Some rp\<rparr>)"
    "drivers s4 = (drivers s)(rp \<mapsto> r\<lparr>drv_alldevlist := [p]\<rparr>)" "dev_ids s4 = (dev_ids s)(p \<mapsto> dev_id d3)"
    "devlist s4 = p # devlist s" "devt_drvlist (osdevtable s4) = devt_drvlist (osdevtable s)"
    "sk s4 = sk s3" "machintflt s4 = machintflt s3" "serdscs s4 = serdscs s3" "krl_ans s4 = krl_ans s3" "objnodes s4 = objnodes s3" "in_use s4 = in_use s3"
    "buf_ans s4 = buf_ans s3"
    by (rule attach [OF base new(4,3) a3 dr(1,2) id(4) dr(3)])
  have f1: "init_rfs r0 = Inr (formatted 1024 r0)" using rfs_fmat_ok [OF m(2,3)] by (simp add: init_rfs_def)
  let ?r1 = "formatted 1024 r0"
  note fm = formatted_inv [OF m(2,3)]
  note sb = fs_invD(1) [OF fm(1)]
  have live: "krl_live ?r1 = 0" using m(4) by (simp add: formatted_def)
  define d4 where "d4 = d3\<lparr>dev_drv := Some rp\<rparr>"
  have e4: "devices s4 p = Some d4" "dev_extdata d4 = RfsExt r0" using at(3) by (simp_all add: d4_def d3_def)
  have gr: "krl_grants ?r1 = []" using sb by (simp add: sb_ok_def)
  have g4: "buf_ans s4 = []" using at(14) m(13) by (simp add: krl_ok_def)
  define s5 where "s5 = set_rfs p ?r1 s4"
  define d5 where "d5 = d4\<lparr>dev_extdata := RfsExt ?r1\<rparr>"
  have w1: "with_rfs init_rfs p s4 = Inr s5" using with_rfs_ok [where f = init_rfs, OF e4 g4 m(3) f1] by (simp add: s5_def)
  have e5: "devices s5 p = Some d5" "dev_extdata d5 = RfsExt ?r1"
    using set_rfs_fields(1) [OF e4(1) gr] by (simp_all add: s5_def d5_def)
  have g5: "buf_ans s5 = []" using set_rfs_fields(9) [OF e4(1) gr] by (simp add: s5_def)
  note same = set_rfs_same [OF e5 g5 gr]
  have w2: "with_rfs test_rfs_superblk p s5 = Inr s5" "with_rfs test_rfs_bitmap p s5 = Inr s5" "with_rfs test_rfs_rootdir p s5 = Inr s5"
    using with_rfs_ok [where f = test_rfs_superblk, OF e5 g5 gr sb_tests(1) [OF sb]] with_rfs_ok [where f = test_rfs_bitmap, OF e5 g5 gr sb_tests(2) [OF sb]]
      with_rfs_ok [where f = test_rfs_rootdir, OF e5 g5 gr sb_tests(3) [OF sb]] same by simp_all
  have krl5: "krl_ok (Suc m) s5" by (rule krl_ok_same [OF m(13)]) (simp_all add: s5_def set_rfs_fields [OF e4(1) gr] at g4 [unfolded at])
  from krlnew_ok [OF krl5] obtain a where a: "krlnew s5 = (a, s5\<lparr>krl_calls := Suc (krl_calls s5)\<rparr>)" "a \<noteq> 0" "a \<notin> in_use s5" by blast
  define s6 where "s6 = s5\<lparr>krl_calls := Suc (krl_calls s5), sk := (sk s5)\<lparr>sems := sems (sk s5) @ [krlsem_t_init]\<rparr>,
    objnodes := (objnodes s5)(a \<mapsto> objnode_t_init (length (sems (sk s5))))\<rparr>"
  have n6: "krlnew_objnode s5 = (Some a, s6)" using a(1,2) by (simp add: krlnew_objnode_def new_sem_def s6_def)
  have "\<exists>k. first_free 1024 (bump ?r1) k"
  proof -
    have "3 \<notin> used 1024 ?r1" using fm(3) by simp
    then have "rde_mem (bump ?r1) 1 3 = 0" by (simp add: used_def)
    from first_free_ex [OF _ _ this, of 1024] show ?thesis by auto
  qed
  then obtain k where k: "first_free 1024 (bump ?r1) k" by blast
  have fb: "fs_inv 1024 2 (bump ?r1) []" using fm(1) by simp
  from self_test [OF fb k] live obtain r2 ents where r2: "test_fsys_rfs (bump ?r1) = Inr r2" "fs_inv 1024 2 r2 ents" "fs_files r2 ents = Map.empty"
    "krl_live r2 = 1" by auto
  define s7 where "s7 = set_rfs p r2 s6"
  define d7 where "d7 = d5\<lparr>dev_extdata := RfsExt r2\<rparr>"
  have w3: "test_fsys p s5 = Inr s7"
    using e5 g5 gr n6 r2(1) by (simp add: test_fsys_def rfs_of_def at_def s7_def lend_granted)
  have e6: "devices s6 p = Some d5" using e5(1) by (simp add: s6_def)
  have s2eq: "upd_dev p rfs_set_device (upd_drv rp rfs_set_driver s2) = s2'" using new(5) by (simp add: s2'_def)
  have e: "call_entry Rfs_entry (Some rp) s1 = Inr (DFCOKSTUS, s7)"
    using new(2) s2eq m(1) at(1) w1 w2 w3 by (simp add: call_entry_def rfs_entry_def)
  have gr2: "krl_grants r2 = []" by (rule fs_inv_granted [OF r2(2)])
  note s5f = set_rfs_fields [OF e4(1) gr, folded s5_def] and s7f = set_rfs_fields [OF e6 gr2, folded s7_def]
  have f7: "devices s7 = (devices s)(p \<mapsto> d7)" "drivers s7 = (drivers s)(rp \<mapsto> r\<lparr>drv_alldevlist := [p]\<rparr>)" "devlist s7 = p # devlist s"
    "krl_ans s7 = krl_ans s" "devt_drvlist (osdevtable s7) = devt_drvlist (osdevtable s)"
    "sk s7 = (sk s)\<lparr>sems := sems (sk s) @ [krlsem_t_init]\<rparr>" "osdevtable s7 = osdevtable s4"
    "objnodes s7 = (objnodes s)(a \<mapsto> objnode_t_init (length (sems (sk s))))" "machintflt s7 = machintflt s4" "serdscs s7 = serdscs s4"
    using s5f s7f at m bl by (simp_all add: s6_def d7_def d5_def)
  have d7: "dev_id d7 = rfs_id" "dev_drv d7 = Some rp" "dev_extdata d7 = RfsExt r2" using id(1) by (simp_all add: d7_def d5_def d4_def d3_def)
  have np: "dev_ids s p = None" using not_listed [OF base new(4)] by (simp add: dev_ids_def)
  have irq4: "irq_inv s4" by (rule irq_inv_more [OF b(3) _ _ at(5) np]) (simp_all add: at m bl)
  have ids7: "dev_ids s7 = dev_ids s4"
    by (rule dev_ids_cong [OF f7(7)]) (simp add: f7(1) at(3) d7(1) d4_def d3_def id)
  have irq: "irq_inv s7" using irq_inv_cong [OF f7(9,10) ids7] irq4 by simp
  have tbl: "tbl_inv s7"
    by (rule tbl_inv_same [OF at(2) f7(7) _ e4(1), of d7]) (simp_all add: f7(1) at(3) d7 d4_def d3_def id)
  have ok: "device_ok 1024 2 1 0 (length (sems (sk s7))) (drivers s7) d7"
    using d7 f7(2) id(3) r2 by (auto simp: device_ok_def rfs_ext_def fs_of_def)
  have av: "objnodes s a = None" using in_use_none [OF a(3)] s5f(8) at(12) m(12) bl(8) by simp
  have g6: "buf_ans s6 = []" using g5 by (simp add: s6_def)
  have "krl_ok m s6" by (rule krl_ok_more [OF krl5, of _ a]) (auto simp: s6_def in_use_def)
  then have krl7: "krl_ok m s7" by (rule krl_ok_same) (simp_all add: s7f g6, simp add: s7_def)
  have "\<exists>s8. krldriver_add_system rp s7 = Inr (DFCOKSTUS, s8) \<and> started m 1024 2 1 (dev_id d7) {a} s s8"
  proof (rule finish [OF boot krl7 new(4,3) _ _ _ tbl f7(1-5) _ _ ok irq])
    show "dom (objnodes s7) = dom (objnodes s) \<union> {a}" by (simp add: f7(8))
  qed (use boot sems_free_new f7 av in \<open>simp_all add: boot_inv_def domIff\<close>)
  then obtain s8 where s8: "krldriver_add_system rp s7 = Inr (DFCOKSTUS, s8)" "started m 1024 2 1 rfs_id {a} s s8" using d7(1) by auto
  have s8e: "s8 = upd_table (\<lambda>d. d\<lparr>devt_drvlist := rp # devt_drvlist d, devt_drvnr := devt_drvnr d + 1\<rparr>) s7"
    using s8(1) by (simp add: krldriver_add_system_def split: if_splits)
  then have "devices s8 p = Some d7" "dev_ids s8 p = Some rfs_id"
    using f7(1) ids7 at(5) id(1) by (simp_all add: upd_table_def dev_ids_def d3_def d7(1) f7(3))
  with d7(3) r2(2,3) have "files_are 1024 2 s8 Map.empty" unfolding files_are_def by blast
  with krlrun_eq [OF new(1) e s8(1)] s8(2) show ?thesis by blast
qed


section \<open>The start of the kernel\<close>

text \<open>
  The kernel before its tables are set up: nothing made, no threads, a memory service that gives what is asked for, the
  buffers of the file system too; what the memory holds, the ports and the screen may be anything.
\<close>

definition power_on :: "dst \<Rightarrow> bool" where
  "power_on s \<longleftrightarrow> devices s = Map.empty \<and> drivers s = Map.empty \<and> objnodes s = Map.empty \<and> serdscs s = Map.empty \<and>
     threads (sk s) = Map.empty \<and> sems_free (sk s) \<and> krl_ok 12 s"

text \<open>The parts of \<open>init_hal\<close> and \<open>init_krl\<close> that make the tables, start the drivers and start the scheduler.\<close>

definition start_kernel :: "alloc_ans \<Rightarrow> u64 \<Rightarrow> dst \<Rightarrow> dst run" where
  "start_kernel a main s = andthen (init_krldriver (init_krldevice (init_intfltdsc s))) (with_sk (boot a main))"

lemma tables_empty:
  assumes "power_on s"
  shows "boot_inv 12 n R l (init_krldevice (init_intfltdsc s))" "dev_ids (init_krldevice (init_intfltdsc s)) = Map.empty"
proof -
  let ?s = "init_krldevice (init_intfltdsc s)"
  have cls: "cls ?s t = devtlst_t_init (of_nat t)" if "t < 34" for t
    using that by (simp add: init_krldevice_def init_intfltdsc_def devtable_t_init_def)
  have "tbl_inv ?s"
    unfolding tbl_inv_def cls_ok_def using cls
    by (simp add: devtlst_t_init_def) (simp add: init_krldevice_def devtable_t_init_def)
  moreover have "devs_inv n R l 0 ?s" by (simp add: devs_inv_def init_krldevice_def devtable_t_init_def)
  moreover have "irq_inv ?s"
    by (simp add: irq_inv_def init_krldevice_def init_intfltdsc_def intfltdsc_t_init_def)
  moreover have on: "devices s = Map.empty" "drivers s = Map.empty" "objnodes s = Map.empty" "serdscs s = Map.empty"
    "sems_free (sk s)" "krl_ok 12 s"
    using assms unfolding power_on_def by blast+
  have same: "krl_ans ?s = krl_ans s" "buf_ans ?s = buf_ans s" "in_use ?s = in_use s" "sk ?s = sk s"
    unfolding in_use_def init_krldevice_def init_intfltdsc_def by (simp_all add: on)
  moreover have "krl_ok 12 ?s" by (rule krl_ok_same [OF on(6) same(1-3)])
  moreover have "sems_free (sk ?s)" using on(5) same(4) by simp
  ultimately show "boot_inv 12 n R l ?s"
    by (simp add: boot_inv_def table_inv_def krl_ok_def) (simp add: init_krldevice_def devtable_t_init_def)
  show "dev_ids ?s = Map.empty" by (simp add: dev_ids_def init_krldevice_def devtable_t_init_def fun_eq_iff)
qed

lemma drivers_start:
  assumes "power_on s"
  shows "\<exists>s' a. init_krldriver (init_krldevice (init_intfltdsc s)) = Inr s' \<and> boot_inv 0 1024 2 1 s' \<and> files_are 1024 2 s' Map.empty \<and>
    ran (dev_ids s') = {systick_id, rfs_id, uart_id} \<and> threads (sk s') = Map.empty \<and> dom (objnodes s') = {a}"
proof -
  let ?s = "init_krldevice (init_intfltdsc s)"
  note e = tables_empty [OF assms]
  have z: "threads (sk ?s) = Map.empty" "objnodes ?s = Map.empty"
    using assms by (simp_all add: power_on_def init_krldevice_def init_intfltdsc_def)
  have n0: "\<forall>q. dev_ids ?s q \<noteq> Some systick_id" using e(2) by simp
  have c: "12 = Suc (Suc (Suc 9))" "9 = Suc (Suc (Suc (Suc (Suc 4))))" "4 = Suc (Suc (Suc (Suc 0)))" by simp_all
  have b0: "boot_inv (Suc (Suc (Suc 9))) 1024 2 1 ?s" unfolding c(1) [symmetric] by (rule e(1))
  from start_systick [OF b0 n0] obtain s1 where s1: "krlrun_driverentry Systick_entry ?s = Inr (DFCOKSTUS, s1)" "started 9 1024 2 1 systick_id {} ?s s1"
    by blast
  then obtain p1 where p1: "boot_inv 9 1024 2 1 s1" "dev_ids s1 = [p1 \<mapsto> systick_id]" "threads (sk s1) = Map.empty" "dom (objnodes s1) = {}"
    using e(2) z by (auto simp: started_def)
  then have n1: "\<forall>q. dev_ids s1 q \<noteq> Some rfs_id" by simp
  have b1: "boot_inv (Suc (Suc (Suc (Suc (Suc 4))))) 1024 2 1 s1" unfolding c(2) [symmetric] by (rule p1(1))
  from start_rfs [OF b1 n1] obtain s2 a where s2: "krlrun_driverentry Rfs_entry s1 = Inr (DFCOKSTUS, s2)" "started 4 1024 2 1 rfs_id {a} s1 s2"
    "files_are 1024 2 s2 Map.empty" by blast
  then obtain p2 where p2: "boot_inv 4 1024 2 1 s2" "dev_ids s2 = [p1 \<mapsto> systick_id, p2 \<mapsto> rfs_id]" "p2 \<noteq> p1" "threads (sk s2) = Map.empty"
    "dom (objnodes s2) = {a}"
    using p1 by (auto simp: started_def split: if_splits)
  then have n2: "\<forall>q. dev_ids s2 q \<noteq> Some uart_id" by simp
  have b2: "boot_inv (Suc (Suc (Suc (Suc 0)))) 1024 2 1 s2" unfolding c(3) [symmetric] by (rule p2(1))
  from start_uart [OF b2 n2] obtain s3 where s3: "krlrun_driverentry Uart_entry s2 = Inr (DFCOKSTUS, s3)" "started 0 1024 2 1 uart_id {} s2 s3"
    by blast
  then obtain p3 where p3: "boot_inv 0 1024 2 1 s3" "dev_ids s3 = (dev_ids s2)(p3 \<mapsto> uart_id)" "dev_ids s2 p3 = None"
    "threads (sk s3) = Map.empty" "dom (objnodes s3) = {a}"
    using p2(4,5) by (auto simp: started_def)
  have k: "init_krldriver ?s = Inr s3"
    using s1(1) s2(1) s3(1) by (simp add: init_krldriver_def osdrvetytabl_def)
  have r: "ran (dev_ids s3) = {systick_id, rfs_id, uart_id}"
    using p2(2,3) p3(2,3) by (auto simp: ran_def split: if_splits)
  have "files_are 1024 2 s3 Map.empty"
  proof -
    from s2(3) obtain p d r ents where f: "dev_ids s2 p = Some rfs_id" "devices s2 p = Some d" "dev_extdata d = RfsExt r"
      "fs_inv 1024 2 r ents" "fs_files r ents = Map.empty" unfolding files_are_def by blast
    moreover have "devices s3 p = Some d" using f(2) s3(2) by (simp add: started_def)
    moreover have "dev_ids s3 p = Some rfs_id" using f(1) p3(2,3) by auto
    ultimately show ?thesis unfolding files_are_def by blast
  qed
  with k p3(1,4,5) r show ?thesis by blast
qed

lemma start_kernel_ok:
  assumes on: "power_on s" and a: "ans_stack a \<noteq> 0" "ans_dsc a \<noteq> 0"
  shows "\<exists>s' x. start_kernel a main s = Inr s' \<and> svc_inv 1024 2 1 {x} s' \<and> files_are 1024 2 s' Map.empty \<and>
    ran (dev_ids s') = {systick_id, rfs_id, uart_id} \<and> sda_currtd (sk s') = Some (ans_dsc a) \<and>
    htab (sk s') = [ans_dsc a \<mapsto> replicate 8 None] \<and> krl_ok 0 s'"
proof -
  from drivers_start [OF on] obtain s1 x where s1: "init_krldriver (init_krldevice (init_intfltdsc s)) = Inr s1" "boot_inv 0 1024 2 1 s1"
    "files_are 1024 2 s1 Map.empty" "ran (dev_ids s1) = {systick_id, rfs_id, uart_id}" "threads (sk s1) = Map.empty" "dom (objnodes s1) = {x}"
    by blast
  have sf: "sems_free (sk s1)" and tb: "table_inv 1024 2 1 0 s1" using s1(2) by (simp_all add: boot_inv_def)
  from boot_ok [OF a sf] obtain k where k: "boot a main (sk s1) = Inr k" "sched_inv k" "sems k = sems (sk s1)" "sda_currtd k = Some (ans_dsc a)"
    "threads k = (threads (sk s1))(ans_dsc a \<mapsto> idle_thread a main)" by blast
  let ?s = "s1\<lparr>sk := k\<rparr>"
  have st: "start_kernel a main s = Inr ?s" using s1(1) k(1) by (simp add: start_kernel_def with_sk_def)
  have H: "htab k = [ans_dsc a \<mapsto> replicate 8 None]"
    by (auto simp: htab_def k(5) s1(5) fun_eq_iff idle_thread_def thread_t_init_def Let_def)
  have o: "opened (htab k) = {}" by (auto simp: opened_def H hand_at_def split: if_splits)
  have ids: "dev_ids ?s = dev_ids s1" by (rule dev_ids_cong) simp_all
  have "tbl_inv ?s" by (rule tbl_inv_cong [OF _ _ table_invD(1) [OF tb]]) simp_all
  moreover have "devs_inv 1024 2 1 0 ?s" using table_invD(2) [OF tb] by (simp add: devs_inv_def k(3))
  moreover have "irq_inv ?s" using irq_inv_cong [OF _ _ ids] table_invD(3) [OF tb] by simp
  ultimately have "base_inv 1024 2 1 0 ?s" using k(2) table_invD(4) [OF tb] by (simp add: base_inv_def)
  moreover have "hands_inv {x} (htab k) (objnodes s1)"
    unfolding hands_inv_def o using s1(6) by (auto simp: H hand_at_def split: if_splits)
  moreover have "open_files ?s = {}" by (simp add: open_files_def o)
  ultimately have "svc_inv 1024 2 1 {x} ?s" by (simp add: svc_inv_def o)
  moreover have "files_are 1024 2 ?s Map.empty" using s1(3) unfolding files_are_def ids by simp
  moreover have "krl_ok 0 s1" using s1(2) by (simp add: boot_inv_def)
  then have "krl_ok 0 ?s" by (rule krl_ok_same) (simp_all add: in_use_def)
  ultimately show ?thesis using st s1(4) k(4) ids H by (intro exI [of _ ?s] exI [of _ x]) simp
qed

end
