(* ===== verification/DevFile.thy ===== *)
theory DevFile
  imports DevBoot
begin

text \<open>
  A file or a device behind a handle: what the services open, write, read and close do to it exactly, through the handle
  table, the object, the driver table and the driver.
\<close>

section \<open>A request to the RAM disk\<close>

definition on_rfs :: "nat \<Rightarrow> nat \<Rightarrow> dst \<Rightarrow> u64 \<Rightarrow> rfs \<Rightarrow> slots \<Rightarrow> bool" where
  "on_rfs n R s p r ents \<longleftrightarrow> (\<exists>d rp rd. dev_ids s p = Some rfs_id \<and> devices s p = Some d \<and> dev_drv d = Some rp \<and>
     drivers s rp = Some rd \<and> drv_dipfun rd = rfs_tab \<and> dev_extdata d = RfsExt r \<and> fs_inv n R r ents)"

lemma on_rfs_inv: "on_rfs n R s p r ents \<Longrightarrow> fs_inv n R r ents"
  by (auto simp: on_rfs_def)

lemma on_rfs_cong:
  assumes "on_rfs n R s p r ents" "devices s' = devices s" "drivers s' = drivers s" "osdevtable s' = osdevtable s"
  shows "on_rfs n R s' p r ents"
proof -
  have "dev_ids s' = dev_ids s" by (rule dev_ids_cong) (simp_all add: assms)
  with assms show ?thesis by (simp add: on_rfs_def)
qed

lemma on_rfs_files: "on_rfs n R s p r ents \<Longrightarrow> files_are n R s (fs_files r ents)"
  unfolding on_rfs_def files_are_def by blast

lemma files_on_rfs:
  assumes base: "base_inv n R l c s" and files: "files_are n R s m"
  obtains p r ents where "on_rfs n R s p r ents" "fs_files r ents = m" "krlonidfl_retn_device (Some rfs_id) DIDFIL_IDN s = Inr (Some p)"
proof -
  from files obtain p d r ents where f: "dev_ids s p = Some rfs_id" "devices s p = Some d" "dev_extdata d = RfsExt r"
    "fs_inv n R r ents" "fs_files r ents = m" unfolding files_are_def by blast
  then have p: "p \<in> set (devlist s)" and id: "dev_id d = rfs_id" by (simp_all add: dev_ids_def split: if_splits)
  from base_invD(3) [OF base] p f(2) have "device_ok n R l c (length (sems (sk s))) (drivers s) d"
    unfolding devs_inv_def by force
  with id f have "on_rfs n R s p r ents" unfolding device_ok_def on_rfs_def by auto
  moreover have "krlonidfl_retn_device (Some rfs_id) DIDFIL_IDN s = Inr (Some p)"
    using find_device [OF base, of rfs_id] f(1) dev_ids_unique [OF base_invD(2) [OF base] f(1)] by metis
  ultimately show thesis using f(5) that by blast
qed

text \<open>The driver's answer, and the state with its block memory, the object and the buffer of the caller updated.\<close>

lemma rfs_request:
  assumes on: "on_rfs n R s p r ents" and ob: "objnodes s a = Some ob" "on_objtype ob = OBJN_TY_FIL" "on_objadr ob = Some p"
    and code: "code \<in> fileops" "on_opercode ob = int code"
    and pk: "packet_of s ob = Inr pk" "rfs_fun code r pk = Inr (st, pk', r')" and inv: "fs_inv n R r' ents'"
    and buf: "takes_buffers code pk \<longrightarrow> buf_ans s = []"
  shows "\<exists>s'. krlsve_device a s = Inr (Some (if st = DFCERRSTUS then SYSSTUS_ERR else SYSSTUS_OK), s') \<and> on_rfs n R s' p r' ents' \<and>
     objnodes s' = (objnodes s)(a \<mapsto> ob\<lparr>on_finode := on_finode pk'\<rparr>) \<and> sk s' = sk s \<and> umem s' = umem (put_ubuf (on_bufp ob) (on_buf pk') s)"
proof -
  from on obtain d rp rd where d: "dev_ids s p = Some rfs_id" "devices s p = Some d" "dev_drv d = Some rp"
     "drivers s rp = Some rd" "drv_dipfun rd = rfs_tab" "dev_extdata d = RfsExt r" unfolding on_rfs_def by blast
  have granted: "krl_grants r = []" "krl_grants r' = []" using fs_inv_granted [OF on_rfs_inv [OF on]] fs_inv_granted [OF inv] by simp_all
  have "code \<in> {0, 1, 2, 3, 5}" using code(1) by (simp add: fileops_def)
  from rfs_fun_lent [OF this buf granted pk(2)] have lent: "rfs_fun code (lend (buf_ans s) r) pk = Inr (st, pk', lend (buf_ans s) r')" .
  let ?s0 = "upd_obj a (\<lambda>ob. ob\<lparr>on_finode := on_finode pk'\<rparr>) (set_rfs p (lend (buf_ans s) r') s)"
  let ?s = "put_ubuf (on_bufp ob) (on_buf pk') ?s0"
  have c: "call_rfs (rfs_fun code) p (Some a) s = Inr (st, ?s)"
    using d ob pk(1) lent by (simp add: call_rfs_def at_def rfs_of_def)
  have "call_dipfun (rfs_tab ! code) p (Some a) s = answers (call_rfs (rfs_fun code) p (Some a) s)"
    using code(1) by (auto simp: fileops_def rfs_tab_def rfs_fun_def)
  moreover have "code < 12" using code(1) by (auto simp: fileops_def)
  ultimately have "krldev_io a s = Inr (Some st, ?s)"
    using c d ob code(2) by (simp add: krldev_io_def krldev_call_driver_def at_def answers_def OBJN_TY_FIL_def)
  then have k: "krlsve_device a s = Inr (Some (if st = DFCERRSTUS then SYSSTUS_ERR else SYSSTUS_OK), ?s)"
    using ob by (simp add: krlsve_device_def at_def then_if_back_def reports_def)
  have f: "osdevtable ?s = osdevtable s" "devices ?s = (devices s)(p \<mapsto> d\<lparr>dev_extdata := RfsExt r'\<rparr>)" "drivers ?s = drivers s"
    "objnodes ?s = (objnodes s)(a \<mapsto> ob\<lparr>on_finode := on_finode pk'\<rparr>)" "sk ?s = sk s"
    "umem ?s = umem (put_ubuf (on_bufp ob) (on_buf pk') s)"
    using d(2) lend_granted [OF granted(2)] ob(1)
    by (simp_all add: put_ubuf_def upd_obj_def set_rfs_def upd_dev_def split: option.split prod.split)
  have "dev_ids ?s p = Some rfs_id" using d(1,2) f(1,2) by (simp add: dev_ids_def split: if_splits)
  with f d inv have "on_rfs n R ?s p r' ents'" unfolding on_rfs_def by simp
  with k f show ?thesis by blast
qed


section \<open>A handle on a file\<close>

text \<open>The handle \<open>v\<close> of the running thread leads to an open object on the file \<open>nm\<close> of the files \<open>m\<close>.\<close>

definition file_obj :: "nat \<Rightarrow> nat \<Rightarrow> dst \<Rightarrow> u64 \<Rightarrow> files \<Rightarrow> u8 list \<Rightarrow> bool" where
  "file_obj n R s a m nm \<longleftrightarrow> (\<exists>ob p r ents b. objnodes s a = Some ob \<and> on_objtype ob = OBJN_TY_FIL \<and> on_objadr ob = Some p \<and>
     on_rfs n R s p r ents \<and> fs_files r ents = m \<and> (nm, b) \<in> set (entries ents) \<and> on_finode ob = Node (rde_mem r b) \<and> 0 < krl_live r)"

definition hand_on :: "dst \<Rightarrow> int \<Rightarrow> u64 \<Rightarrow> bool" where
  "hand_on s v a \<longleftrightarrow> 0 \<le> v \<and> v < 8 \<and> (\<exists>t h. krlsched_retn_currthread (sk s) = Inr t \<and> threads (sk s) t = Some h \<and>
     td_handtbl h ! nat v = Some a)"

definition file_hand :: "nat \<Rightarrow> nat \<Rightarrow> dst \<Rightarrow> int \<Rightarrow> files \<Rightarrow> u8 list \<Rightarrow> bool" where
  "file_hand n R s v m nm \<longleftrightarrow> (\<exists>a. hand_on s v a \<and> file_obj n R s a m nm)"

lemma retn_hand_on:
  assumes "hand_on s v a"
  obtains t h where "krlsched_retn_currthread (sk s) = Inr t" "threads (sk s) t = Some h" "td_handtbl h ! nat v = Some a"
    "retn_hand t v s = Inr (Some a)"
proof -
  from assms obtain t h where t: "krlsched_retn_currthread (sk s) = Inr t" "threads (sk s) t = Some h" "td_handtbl h ! nat v = Some a"
    and v: "0 \<le> v" "v < 8" unfolding hand_on_def by blast
  then have "retn_hand t v s = Inr (Some a)"
    by (simp add: retn_hand_def td_def krlthd_retn_objnode_def NO_HAND_def)
  with t that show thesis by blast
qed

lemma on_hand_eq:
  assumes h: "hand_on s v a" and ob: "objnodes s a = Some ob" "on_objtype ob = OBJN_TY_FIL"
  shows "on_hand v g call s = call a (upd_obj a g s)"
proof -
  from retn_hand_on [OF h] obtain t where t: "krlsched_retn_currthread (sk s) = Inr t" "retn_hand t v s = Inr (Some a)" by metis
  with ob show ?thesis by (simp add: on_hand_def at_def)
qed

text \<open>A request through the handle: the object's fields are set, the driver called; the handle stays.\<close>

lemma hand_request:
  assumes h: "hand_on s v a" and ob: "objnodes s a = Some ob" "on_objtype ob = OBJN_TY_FIL" "on_objadr ob = Some p"
    and on: "on_rfs n R s p r ents"
    and g: "on_objtype (g ob) = on_objtype ob" "on_objadr (g ob) = on_objadr ob" "code \<in> fileops" "on_opercode (g ob) = int code"
    and pk: "packet_of s (g ob) = Inr pk" "rfs_fun code r pk = Inr (st, pk', r')" and inv: "fs_inv n R r' ents'"
    and buf: "takes_buffers code pk \<longrightarrow> buf_ans s = []"
  obtains s' where "on_hand v g krlsve_device s = Inr (Some (if st = DFCERRSTUS then SYSSTUS_ERR else SYSSTUS_OK), s')"
    "krlsve_device a (upd_obj a g s) = Inr (Some (if st = DFCERRSTUS then SYSSTUS_ERR else SYSSTUS_OK), s')"
    "on_rfs n R s' p r' ents'" "objnodes s' = (objnodes s)(a \<mapsto> (g ob)\<lparr>on_finode := on_finode pk'\<rparr>)" "sk s' = sk s"
    "umem s' = umem (put_ubuf (on_bufp (g ob)) (on_buf pk') s)" "hand_on s' v a"
proof -
  let ?s = "upd_obj a g s"
  have o: "objnodes ?s = (objnodes s)(a \<mapsto> g ob)" "umem ?s = umem s" "sk ?s = sk s"
    using ob(1) by (simp_all add: upd_obj_def)
  have on': "on_rfs n R ?s p r ents" by (rule on_rfs_cong [OF on]) (simp_all add: upd_obj_def)
  have "ubuf ?s = ubuf s" "ustr ?s = ustr s" by (simp_all add: fun_eq_iff ubuf_def ustr_def o(2))
  then have "packet_of ?s (g ob) = packet_of s (g ob)" by (simp add: packet_of_def)
  with pk(1) have pk': "packet_of ?s (g ob) = Inr pk" by simp
  have put: "umem (put_ubuf q b ?s) = umem (put_ubuf q b s)" for q b
    using o(2) by (simp add: put_ubuf_def split: option.split prod.split)
  have go: "objnodes ?s a = Some (g ob)" "on_objtype (g ob) = OBJN_TY_FIL" "on_objadr (g ob) = Some p" using o(1) g ob by simp_all
  have buf': "takes_buffers code pk \<longrightarrow> buf_ans ?s = []" using buf by (simp add: upd_obj_def)
  from rfs_request [OF on' go g(3,4) pk' pk(2) inv buf'] obtain s' where
    s': "krlsve_device a ?s = Inr (Some (if st = DFCERRSTUS then SYSSTUS_ERR else SYSSTUS_OK), s')" "on_rfs n R s' p r' ents'"
     "objnodes s' = (objnodes ?s)(a \<mapsto> (g ob)\<lparr>on_finode := on_finode pk'\<rparr>)" "sk s' = sk s"
     "umem s' = umem (put_ubuf (on_bufp (g ob)) (on_buf pk') ?s)" using o by auto
  have "hand_on s' v a" using h s'(4) by (simp add: hand_on_def)
  moreover have "on_hand v g krlsve_device s = krlsve_device a ?s" by (rule on_hand_eq [OF h ob(1,2)])
  ultimately show thesis using s' o put by (intro that [of s']) simp_all
qed

lemma file_handE:
  assumes "file_hand n R s v m nm"
  obtains a ob p r ents b where "hand_on s v a" "objnodes s a = Some ob" "on_objtype ob = OBJN_TY_FIL" "on_objadr ob = Some p"
     "on_rfs n R s p r ents" "fs_files r ents = m" "(nm, b) \<in> set (entries ents)" "on_finode ob = Node (rde_mem r b)" "0 < krl_live r"
     "m nm = Some (file_data (rde_mem r b))" "fil_ok (rde_mem r b) b" "b < n" "n \<le> 4096" "dev_ok n r" "unat (ld64 (rde_mem r b) 64) = length (the (m nm))"
proof -
  from assms obtain a ob p r ents b where x: "hand_on s v a" "objnodes s a = Some ob" "on_objtype ob = OBJN_TY_FIL" "on_objadr ob = Some p"
     "on_rfs n R s p r ents" "fs_files r ents = m" "(nm, b) \<in> set (entries ents)" "on_finode ob = Node (rde_mem r b)" "0 < krl_live r"
    unfolding file_hand_def file_obj_def by blast
  note inv = on_rfs_inv [OF x(5)]
  have d: "m nm = Some (file_data (rde_mem r b))" using fs_files_eq [where s = r, OF fs_invD(3) [OF inv] x(7)] x(6) by simp
  note f = fs_invD(7) [OF inv x(7)] and sb = sb_okD [OF fs_invD(1) [OF inv]]
  show thesis using that [OF x d] f sb length_file_data [of "rde_mem r b"] d by (simp add: file_ok_def)
qed

lemma ubuf_cong: "umem s' = umem s \<Longrightarrow> ubuf s' = ubuf s"
  by (rule ext) (simp add: ubuf_def)

lemma ubuf_page: "ubuf s p = Inr (Some b) \<longleftrightarrow> p \<noteq> 0 \<and> (\<exists>k. umem s p = Some (b, k) \<and> 4096 \<le> k)"
  by (auto simp: ubuf_def at_def FSYS_ALCBLKSZ_def split: option.splits)

lemma put_ubuf_page:
  assumes "ubuf s p = Inr (Some b)"
  shows "umem (put_ubuf p (Some c) s) = (umem s)(p \<mapsto> (c, snd (the (umem s p))))"
  using assms by (auto simp: ubuf_page put_ubuf_def)

text \<open>A write by what the driver does with the block of the file.\<close>

lemma write_request:
  assumes x: "hand_on s v a" "objnodes s a = Some ob" "on_objtype ob = OBJN_TY_FIL" "on_objadr ob = Some p" "on_rfs n R s p r ents"
      "(nm, b) \<in> set (entries ents)" "on_finode ob = Node (rde_mem r b)" "0 < krl_live r"
    and c: "ubuf s q = Inr (Some c)" and len: "len \<noteq> 0"
    and w: "rfs_writefileblk r (rde_mem r b) c len = Inr (st, rde_mem r' b, r')" "fs_inv n R r' ents" "krl_live r' = krl_live r"
  obtains s' where "krlsve_write v q len fl s = Inr (Some (if st = DFCERRSTUS then SYSSTUS_ERR else SYSSTUS_OK), s')"
    "file_hand n R s' v (fs_files r' ents) nm" "umem s' = umem s" "sk s' = sk s"
proof -
  let ?g = "\<lambda>ob. ob\<lparr>on_opercode := int IOIF_CODE_WRITE, on_bufp := q, on_len := len, on_bufsz := 0x1000, on_acsflgs := fl\<rparr>"
  let ?ob = "(?g ob)\<lparr>on_finode := Node (rde_mem r' b)\<rparr>"
  let ?pk = "\<lparr>on_acsflgs = fl, on_len = len, on_ioctrd = on_ioctrd ob, on_buf = Some c, on_bufsz = 0x1000,
     on_fname = ustr s (on_fnamep ob), on_finode = Node (rde_mem r b)\<rparr>"
  have pk: "packet_of s (?g ob) = Inr ?pk" using c x(7) by (simp add: packet_of_def)
  have "rfs_fun 3 r ?pk = Inr (st, ?pk\<lparr>on_finode := Node (rde_mem r' b)\<rparr>, r')"
    using w(1) by (simp add: rfs_fun_def rfs_write_def rfs_write_file_def)
  from hand_request [where g = ?g and code = 3, OF x(1-5) _ _ _ _ pk this w(2)] obtain s' where
    s': "on_hand v ?g krlsve_device s = Inr (Some (if st = DFCERRSTUS then SYSSTUS_ERR else SYSSTUS_OK), s')" "on_rfs n R s' p r' ents"
      "objnodes s' = (objnodes s)(a \<mapsto> ?ob)" "sk s' = sk s" "umem s' = umem (put_ubuf q (Some c) s)" "hand_on s' v a"
    by (simp add: fileops_def takes_buffers_def) metis
  have "umem s' = umem s" using s'(5) c put_ubuf_page [OF c] by (auto simp: ubuf_page fun_upd_idem)
  moreover have "q \<noteq> 0" "0 \<le> v" "v < 8" using c x(1) by (auto simp: ubuf_page hand_on_def)
  then have "krlsve_write v q len fl s = on_hand v ?g krlsve_device s"
    using len by (simp add: krlsve_write_def krlsve_core_write_def krlsve_write_device_def NO_HAND_def)
  moreover have "objnodes s' a = Some ?ob \<and> on_objtype ?ob = OBJN_TY_FIL \<and> on_objadr ?ob = Some p \<and> on_finode ?ob = Node (rde_mem r' b) \<and> 0 < krl_live r'"
    using s'(3) x(3,4,8) w(3) by simp
  then have "file_obj n R s' a (fs_files r' ents) nm" unfolding file_obj_def using s'(2) x(6) by blast
  ultimately show thesis using that [of s'] s' unfolding file_hand_def by auto
qed

lemma write_hand:
  assumes fh: "file_hand n R s v m nm" and d: "m nm = Some d" and c: "ubuf s q = Inr (Some c)" and len: "len \<noteq> 0" "unat len < 2 ^ 63"
  obtains s' where "krlsve_write v q len fl s = Inr (Some (if length d + unat len < 3584 then SYSSTUS_OK else SYSSTUS_ERR), s')"
    "file_hand n R s' v (if length d + unat len < 3584 then m(nm \<mapsto> d @ map c [0..<unat len]) else m) nm" "umem s' = umem s" "sk s' = sk s"
proof -
  from fh obtain a ob p r ents b where x: "hand_on s v a" "objnodes s a = Some ob" "on_objtype ob = OBJN_TY_FIL" "on_objadr ob = Some p"
     "on_rfs n R s p r ents" "fs_files r ents = m" "(nm, b) \<in> set (entries ents)" "on_finode ob = Node (rde_mem r b)" "0 < krl_live r"
     "m nm = Some (file_data (rde_mem r b))" "fil_ok (rde_mem r b) b" "b < n" "n \<le> 4096" "dev_ok n r" "unat (ld64 (rde_mem r b) 64) = length (the (m nm))"
    by (rule file_handE)
  have sz: "unat (ld64 (rde_mem r b) 64) = length d" using x(15) d by simp
  show thesis
  proof (cases "length d + unat len < 3584")
    case True
    let ?r = "r\<lparr>rde_mem := (rde_mem r)(b := appended (rde_mem r b) c len)\<rparr>"
    note ap = appended_ok [OF x(11) True [folded sz], of c] and w = rfs_writefileblk_ok [OF x(14,11,12,13) True [folded sz], of c]
    note up = file_block_update(1,2) [OF on_rfs_inv [OF x(5)] x(7) ap(1)]
    from write_request [OF x(1-5,7-9) c len(1), where st = DFCOKSTUS and r' = ?r and fl = fl] w up(1) obtain s' where
      "krlsve_write v q len fl s = Inr (Some SYSSTUS_OK, s')" "file_hand n R s' v (fs_files ?r ents) nm" "umem s' = umem s" "sk s' = sk s"
      by auto
    moreover have "fs_files ?r ents = m(nm \<mapsto> d @ map c [0..<unat len])" using up(2) ap(2) x(6,10) d by simp
    ultimately show thesis using that [of s'] True by simp
  next
    case False
    with rfs_writefileblk_full [OF x(11) _ len(2), of r c] sz have w: "rfs_writefileblk r (rde_mem r b) c len = Inr (DFCERRSTUS, rde_mem r b, r)"
      by simp
    from write_request [OF x(1-5,7-9) c len(1) w on_rfs_inv [OF x(5)] refl, of fl] False x(6) that show thesis by auto
  qed
qed

text \<open>A read copies the file from its start into the page of the caller.\<close>

lemma read_hand:
  assumes fh: "file_hand n R s v m nm" and d: "m nm = Some d" and c: "ubuf s q = Inr (Some c)" and len: "len \<noteq> 0" "unat len \<le> 3584"
  obtains s' c' where "krlsve_read v q len fl s = Inr (Some SYSSTUS_OK, s')" "file_hand n R s' v m nm" "sk s' = sk s"
    "ubuf s' q = Inr (Some c')" "\<forall>k. (k < unat len \<and> k < length d \<longrightarrow> c' k = d ! k) \<and> (unat len \<le> k \<longrightarrow> c' k = c k)"
    "\<forall>z. z \<noteq> q \<longrightarrow> umem s' z = umem s z"
proof -
  from fh obtain a ob p r ents b where x: "hand_on s v a" "objnodes s a = Some ob" "on_objtype ob = OBJN_TY_FIL" "on_objadr ob = Some p"
     "on_rfs n R s p r ents" "fs_files r ents = m" "(nm, b) \<in> set (entries ents)" "on_finode ob = Node (rde_mem r b)" "0 < krl_live r"
     "m nm = Some (file_data (rde_mem r b))" "fil_ok (rde_mem r b) b" "b < n" "n \<le> 4096" "dev_ok n r" "unat (ld64 (rde_mem r b) 64) = length (the (m nm))"
    by (rule file_handE)
  let ?g = "\<lambda>ob. ob\<lparr>on_opercode := int IOIF_CODE_READ, on_bufp := q, on_len := len, on_bufsz := 0x1000, on_acsflgs := fl\<rparr>"
  let ?pk = "\<lparr>on_acsflgs = fl, on_len = len, on_ioctrd = on_ioctrd ob, on_buf = Some c, on_bufsz = 0x1000,
     on_fname = ustr s (on_fnamep ob), on_finode = Node (rde_mem r b)\<rparr>"
  define c' where "c' = (\<lambda>k. if k < unat len then rde_mem r b (512 + k) else c k)"
  have pk: "packet_of s (?g ob) = Inr ?pk" using c x(8) by (simp add: packet_of_def)
  have "rfs_fun 2 r ?pk = Inr (DFCOKSTUS, ?pk\<lparr>on_buf := Some c'\<rparr>, r)"
    using rfs_readfileblk_ok [OF x(11) len(2), of c] by (simp add: rfs_fun_def rfs_read_def rfs_read_file_def c'_def)
  from hand_request [where g = ?g and code = 2, OF x(1-5) _ _ _ _ pk this on_rfs_inv [OF x(5)]] obtain s' where
    s': "on_hand v ?g krlsve_device s = Inr (Some SYSSTUS_OK, s')" "on_rfs n R s' p r ents"
      "objnodes s' = (objnodes s)(a \<mapsto> (?g ob)\<lparr>on_finode := Node (rde_mem r b)\<rparr>)" "sk s' = sk s" "umem s' = umem (put_ubuf q (Some c') s)" "hand_on s' v a"
    by (simp add: fileops_def takes_buffers_def DFCOKSTUS_def DFCERRSTUS_def) metis
  have q: "q \<noteq> 0" "\<exists>k. umem s q = Some (c, k) \<and> 4096 \<le> k" "v \<noteq> NO_HAND" using c x(1) by (auto simp: ubuf_page hand_on_def NO_HAND_def)
  then have um: "ubuf s' q = Inr (Some c')" "\<forall>z. z \<noteq> q \<longrightarrow> umem s' z = umem s z"
    using s'(5) put_ubuf_page [OF c, of c'] by (auto simp: ubuf_page)
  have "\<not> len < 1" using len(1) by (auto simp: word_less_nat_alt unat_eq_0)
  then have "krlsve_read v q len fl s = on_hand v ?g krlsve_device s"
    using q by (simp add: krlsve_read_def krlsve_core_read_def krlsve_read_device_def)
  moreover let ?ob = "(?g ob)\<lparr>on_finode := Node (rde_mem r b)\<rparr>"
  have "objnodes s' a = Some ?ob \<and> on_objtype ?ob = OBJN_TY_FIL \<and> on_objadr ?ob = Some p \<and> on_finode ?ob = Node (rde_mem r b)"
    using s'(3) x(3,4) by simp
  then have "file_obj n R s' a m nm" unfolding file_obj_def using s'(2) x(6,7,9) by blast
  moreover have "\<forall>k. (k < unat len \<and> k < length d \<longrightarrow> c' k = d ! k) \<and> (unat len \<le> k \<longrightarrow> c' k = c k)"
    using x(10) d by (auto simp: c'_def file_data_def)
  ultimately show thesis using that [of s' c'] s' um unfolding file_hand_def by auto
qed

text \<open>Closing writes the block back, frees it, the handle and the object: the files are those the handle showed.\<close>

lemma close_hand:
  assumes fh: "file_hand n R s v m nm"
  obtains s' where "krlsve_close v s = Inr (Some SYSSTUS_OK, s')" "files_are n R s' m" "umem s' = umem s"
proof -
  from fh obtain a ob p r ents b where x: "hand_on s v a" "objnodes s a = Some ob" "on_objtype ob = OBJN_TY_FIL" "on_objadr ob = Some p"
     "on_rfs n R s p r ents" "fs_files r ents = m" "(nm, b) \<in> set (entries ents)" "on_finode ob = Node (rde_mem r b)" "0 < krl_live r"
     "m nm = Some (file_data (rde_mem r b))" "fil_ok (rde_mem r b) b" "b < n" "n \<le> 4096" "dev_ok n r" "unat (ld64 (rde_mem r b) 64) = length (the (m nm))"
    by (rule file_handE)
  from x(9) obtain l where l: "krl_live r = Suc l" by (cases "krl_live r") auto
  let ?g = "\<lambda>ob. ob\<lparr>on_opercode := int IOIF_CODE_CLOSE\<rparr>"
  let ?pk = "\<lparr>on_acsflgs = on_acsflgs ob, on_len = on_len ob, on_ioctrd = on_ioctrd ob, on_buf = None, on_bufsz = on_bufsz ob,
     on_fname = ustr s (on_fnamep ob), on_finode = Node (rde_mem r b)\<rparr>"
  have pk: "packet_of s (?g ob) = Inr ?pk" using x(8) by (simp add: packet_of_def)
  let ?r = "r\<lparr>krl_live := l\<rparr>"
  have "rfs_fun 1 r ?pk = Inr (DFCOKSTUS, ?pk\<lparr>on_finode := Freed\<rparr>, ?r)"
    using rfs_closefileblk_ok [OF x(14,11,12,13) l] by (simp add: rfs_fun_def rfs_close_def rfs_close_file_def)
  moreover have inv: "fs_inv n R ?r ents" using on_rfs_inv [OF x(5)] by simp
  ultimately obtain s1 where
    s1: "krlsve_device a (upd_obj a ?g s) = Inr (Some SYSSTUS_OK, s1)" "on_rfs n R s1 p ?r ents"
      "objnodes s1 = (objnodes s)(a \<mapsto> (?g ob)\<lparr>on_finode := Freed\<rparr>)" "sk s1 = sk s" "umem s1 = umem (put_ubuf (on_bufp ob) None s)"
    using hand_request [where g = ?g and code = 1, OF x(1-5) _ _ _ _ pk]
    by (simp add: fileops_def takes_buffers_def DFCOKSTUS_def DFCERRSTUS_def) metis
  from retn_hand_on [OF x(1)] obtain t h where t: "krlsched_retn_currthread (sk s) = Inr t" "threads (sk s) t = Some h"
    "td_handtbl h ! nat v = Some a" "retn_hand t v s = Inr (Some a)" by metis
  have v: "0 \<le> v" "v < 8" using x(1) by (simp_all add: hand_on_def)
  let ?s = "set_hands t ((td_handtbl h)[nat v := None]) s1"
  have d: "del_hand t v s1 = Inr (v, ?s)" using del_hand_ok [of s1 t h "nat v" a] t s1(4) v by simp
  have ok: "SYSSTUS_ERR \<noteq> SYSSTUS_OK" by (simp add: SYSSTUS_ERR_def SYSSTUS_OK_def)
  let ?s' = "?s\<lparr>objnodes := (objnodes ?s)(a := None)\<rparr>"
  have "krldel_objnode a ?s = Inr ?s'" using s1(3) by (simp add: krldel_objnode_def)
  with t v x(2,3) s1(1) d ok have "krlsve_close v s = Inr (Some SYSSTUS_OK, ?s')"
    by (simp add: krlsve_close_def krlsve_core_close_def at_def then_if_back_def reports_def krlsve_close_device_def NO_HAND_def)
  moreover have "on_rfs n R ?s' p ?r ents" by (rule on_rfs_cong [OF s1(2)]) simp_all
  then have "files_are n R ?s' m" using on_rfs_files x(6) by fastforce
  moreover have "umem ?s' = umem s" using s1(5) by (simp add: put_ubuf_def)
  ultimately show thesis by (rule that)
qed

section \<open>Opening\<close>

text \<open>The running thread has a free handle and the kernel gives memory for the object.\<close>

definition can_open :: "dst \<Rightarrow> bool" where
  "can_open s \<longleftrightarrow> krl_ans s (krl_calls s) (in_use s) \<noteq> 0 \<and>
     (\<forall>t h. krlsched_retn_currthread (sk s) = Inr t \<longrightarrow> threads (sk s) t = Some h \<longrightarrow> (\<exists>j < 8. td_handtbl h ! j = None))"

lemma open_existing:
  assumes inv: "svc_inv n R l E s" and ni: "not_idle (sk s)" and room: "can_open s" and files: "files_are n R s m"
    and nm: "path_to nm (ustr s fp)" "nm_ok nm" "m nm \<noteq> None"
    and fl: "fp \<noteq> 0" "and flgs FILE_TY_MASK = FILE_TY_FILE" "and (drop_bit RWO_FLG_BITS flgs) RWO_FLG_MASK \<noteq> NF_FLG"
    and granted: "buf_ans s = []"
  obtains v s' where "krlsve_open fp flgs st s = Inr (Some v, s')" "file_hand n R s' v m nm" "svc_inv n R l E s'" "umem s' = umem s"
    "not_idle (sk s')"
proof -
  note base = svc_invD(1) [OF inv]
  from the_caller [OF inv ni] obtain t h where t: "krlsched_retn_currthread (sk s) = Inr t" "threads (sk s) t = Some h"
    "htab (sk s) t = Some (td_handtbl h)" by metis
  from room t obtain j0 where j0: "j0 < 8" "td_handtbl h ! j0 = None" unfolding can_open_def by blast
  from files_on_rfs [OF base files] obtain p r ents where on: "on_rfs n R s p r ents" "fs_files r ents = m"
    "krlonidfl_retn_device (Some rfs_id) DIDFIL_IDN s = Inr (Some p)" .
  note fs = on_rfs_inv [OF on(1)]
  from base obtain a w s1 where made: "krlnew_objnode s = (Some a, s1)" "follows n R l (card (open_files s)) s s1"
    "objnodes s1 = (objnodes s)(a \<mapsto> objnode_t_init w)" "threads (sk s1) = threads (sk s)" "umem s1 = umem s" "devices s1 = devices s"
    "osdevtable s1 = osdevtable s" "buf_ans s1 = buf_ans s"
  proof (cases rule: new_obj_cases)
    case (refused s')
    with room show ?thesis by (auto simp: can_open_def krlnew_objnode_def krlnew_def new_sem_def)
  qed (use that in blast)
  have k: "drivers s1 = drivers s" "sda_currtd (sk s1) = sda_currtd (sk s)" "sda_cpuidle (sk s1) = sda_cpuidle (sk s)"
    using made(1) room by (auto simp: can_open_def krlnew_objnode_def krlnew_def new_sem_def)
  let ?f = "\<lambda>ob. ob\<lparr>on_opercode := 0, on_objtype := OBJN_TY_FIL, on_objadr := Some p, on_acsflgs := 2, on_fnamep := fp\<rparr>"
  let ?ob = "open_file_obj w p 2 fp" and ?s1 = "upd_obj a ?f s1"
  note step = open_fil_eq(2) [OF on(3) made(1) fl(3), where t = t and fp = fp]
  have t1: "threads (sk ?s1) t = Some h" using t(2) made(4) by (simp add: upd_obj_def)
  from add_hand_ok [OF t1, of a] j0 obtain j where j: "j < 8" "td_handtbl h ! j = None"
    "add_hand t a ?s1 = Inr (int j, set_hands t ((td_handtbl h)[j := Some a]) ?s1)" by auto
  let ?s2 = "set_hands t ((td_handtbl h)[j := Some a]) ?s1"
  have o2: "objnodes ?s2 a = Some ?ob" using made(3) by (simp add: upd_obj_def)
  have on2: "on_rfs n R ?s2 p r ents" by (rule on_rfs_cong [OF on(1)]) (simp_all add: upd_obj_def made k)
  have u2: "ustr ?s2 fp = ustr s fp" using made(5) by (simp add: ustr_def upd_obj_def)
  obtain b where b: "(nm, b) \<in> set (entries ents)" "rfs_openfileblk r (ustr s fp) = Inr (Some (rde_mem r b), bump r)"
    using rfs_openfileblk_ok(2) [OF fs nm(1,2)] nm(3) on(2) by blast
  have pn: "ustr s fp \<noteq> None" using nm(1) by (auto simp: path_to_def)
  let ?pk = "\<lparr>on_acsflgs = 2, on_len = on_len ?ob, on_ioctrd = on_ioctrd ?ob, on_buf = None, on_bufsz = on_bufsz ?ob,
     on_fname = ustr s fp, on_finode = on_finode ?ob\<rparr>"
  have pk: "packet_of ?s2 ?ob = Inr ?pk" using packet_open [of ?ob ?s2] u2 by simp
  have w: "rfs_fun 0 r ?pk = Inr (DFCOKSTUS, ?pk\<lparr>on_finode := Node (rde_mem r b)\<rparr>, bump r)"
    using b(2) pn by (simp add: rfs_fun_def rfs_open_def rfs_open_file_def)
  have fsb: "fs_inv n R (bump r) ents" using fs by simp
  have ty: "on_objtype ?ob = OBJN_TY_FIL" "on_objadr ?ob = Some p" "0 \<in> fileops" "on_opercode ?ob = int 0"
    by (simp_all add: fileops_def)
  have "buf_ans ?s2 = []" using made(8) granted by (simp add: upd_obj_def)
  then have bf: "takes_buffers 0 ?pk \<longrightarrow> buf_ans ?s2 = []" by blast
  have "DFCOKSTUS \<noteq> DFCERRSTUS" by (simp add: DFCOKSTUS_def DFCERRSTUS_def)
  then obtain s3 where s3: "krlsve_device a ?s2 = Inr (Some SYSSTUS_OK, s3)" "on_rfs n R s3 p (bump r) ents"
    "objnodes s3 = (objnodes ?s2)(a \<mapsto> ?ob\<lparr>on_finode := Node (rde_mem r b)\<rparr>)" "sk s3 = sk ?s2" "umem s3 = umem (put_ubuf (on_bufp ?ob) None ?s2)"
    using rfs_request [OF on2 o2 ty pk w fsb bf] by auto
  have ok: "SYSSTUS_ERR \<noteq> SYSSTUS_OK" by (simp add: SYSSTUS_ERR_def SYSSTUS_OK_def)
  have op: "open_fil_step t fp flgs s = Inr (Some (int j), s3)"
    unfolding step using j(3) s3(1) ok by (auto simp: then_if_back_def reports_def NO_HAND_def)
  have "FILE_TY_DEV \<noteq> FILE_TY_FILE" by simp
  with op fl(1,2) t(1) have res: "krlsve_open fp flgs st s = Inr (Some (int j), s3)"
    by (simp add: krlsve_open_def krlsve_core_open_def)
  from open_fil_ok [OF inv t(2,3) fl(3) files nm granted] op have inv3: "svc_inv n R l E s3" by auto
  let ?ob3 = "?ob\<lparr>on_finode := Node (rde_mem r b)\<rparr>"
  have fo: "file_obj n R s3 a (fs_files (bump r) ents) nm"
    unfolding file_obj_def using s3(2,3) b(1)
    by (intro exI [of _ ?ob3] exI [of _ p] exI [of _ "bump r"] exI [of _ ents] exI [of _ b]) simp
  have "length (td_handtbl h) = 8" using the_caller [OF inv ni] t by (metis option.inject sum.inject(2))
  then have "td_handtbl (h\<lparr>td_handtbl := (td_handtbl h)[j := Some a]\<rparr>) ! j = Some a" using j(1) by simp
  moreover have "krlsched_retn_currthread (sk s3) = Inr t"
    unfolding s3(4) using t(1) k(2) by (simp add: krlsched_retn_currthread_def set_hands_def upd_td_def upd_obj_def)
  ultimately have "hand_on s3 (int j) a"
    unfolding hand_on_def using j(1) threads_set_hands [OF t1] s3(4) by fastforce
  with fo have "file_hand n R s3 (int j) m nm" using on(2) unfolding file_hand_def by auto
  moreover have "umem s3 = umem s" using s3(5) made(5) by (simp add: put_ubuf_def upd_obj_def)
  moreover have "not_idle (sk s3)"
    unfolding s3(4) set_hands_fields using ni k(2,3) by (simp add: not_idle_def upd_obj_def)
  ultimately show thesis using that res inv3 by blast
qed

section \<open>A session\<close>

lemma hand_behind:
  assumes "file_hand n R s v m nm" "behind s v ob i"
  shows "i = rfs_id"
proof -
  from assms(1) obtain t h a o' p r ents where x: "sda_currtd (sk s) = Some t" "threads (sk s) t = Some h" "td_handtbl h ! nat v = Some a"
    "objnodes s a = Some o'" "on_objadr o' = Some p" "on_rfs n R s p r ents"
    unfolding file_hand_def file_obj_def hand_on_def krlsched_retn_currthread_def by (fastforce split: option.splits)
  then show ?thesis using assms(2) by (auto simp: behind_def htab_def on_rfs_def)
qed

text \<open>
  A program opens a file while no buffer is refused, appends to it, reads it back from the start, and closes it: the services report success, the page
  holds the old contents and what was appended, and the file system the new contents.
\<close>

lemma session_ok:
  assumes inv: "svc_inv n R l E s" and ni: "not_idle (sk s)" and room: "can_open s" and files: "files_are n R s m"
    and nm: "path_to nm (ustr s fp)" "nm_ok nm" "m nm = Some d"
    and fl: "fp \<noteq> 0" "and flgs FILE_TY_MASK = FILE_TY_FILE" "and (drop_bit RWO_FLG_BITS flgs) RWO_FLG_MASK \<noteq> NF_FLG"
    and buf: "ubuf s q = Inr (Some c)" "ubuf s q' = Inr (Some c2)" and len: "xs = map c [0..<unat len]" "xs \<noteq> []" "length d + length xs < 3584"
    and granted: "buf_ans s = []"
  shows "\<exists>v s1 s2 s3 s4 c'. krlsve_open fp flgs st s = Inr (Some v, s1) \<and> krlsve_write v q len 0 s1 = Inr (Some SYSSTUS_OK, s2) \<and>
    krlsve_read v q' (of_nat (length (d @ xs))) 0 s2 = Inr (Some SYSSTUS_OK, s3) \<and>
    ubuf s3 q' = Inr (Some c') \<and> map c' [0..<length (d @ xs)] = d @ xs \<and>
    krlsve_close v s3 = Inr (Some SYSSTUS_OK, s4) \<and> files_are n R s4 (m(nm \<mapsto> d @ xs)) \<and> svc_inv n R l E s4"
proof -
  have lx: "length xs = unat len" "len \<noteq> 0" using len(1,2) by auto
  have nn: "m nm \<noteq> None" using nm(3) by simp
  from open_existing [OF inv ni room files nm(1,2) nn fl granted, of st] obtain v s1 where
    o: "krlsve_open fp flgs st s = Inr (Some v, s1)" "file_hand n R s1 v m nm" "svc_inv n R l E s1" "umem s1 = umem s" "not_idle (sk s1)" .
  have u1: "ubuf s1 = ubuf s" by (rule ubuf_cong [OF o(4)])
  have l1: "unat len < 2 ^ 63" "length d + unat len < 3584" using len(3) lx by simp_all
  from write_hand [OF o(2) nm(3) _ lx(2) l1(1), of q c 0] buf(1) u1 l1(2) obtain s2 where
    w: "krlsve_write v q len 0 s1 = Inr (Some SYSSTUS_OK, s2)" "file_hand n R s2 v (m(nm \<mapsto> d @ xs)) nm" "umem s2 = umem s1" "sk s2 = sk s1"
    by (auto simp: len(1))
  have "serves n R l E (krlsve_write v q len 0 s1)"
    by (rule write_serves [OF o(3,5) _ l1(1)]) (use buf(1) u1 hand_behind [OF o(2)] in \<open>auto simp: page_at_def\<close>)
  with w(1) have inv2: "svc_inv n R l E s2" by (simp add: serves_def)
  have u2: "ubuf s2 = ubuf s" using ubuf_cong [OF w(3)] u1 by simp
  let ?k = "length (d @ xs)"
  have k: "unat (of_nat ?k :: u64) = ?k" using len(3) by (simp only: unat_of_nat take_bit_nat_eq_self_iff) simp
  have "unat (of_nat ?k :: u64) \<noteq> 0" unfolding k using len(2) by simp
  then have kz: "(of_nat ?k :: u64) \<noteq> 0" "unat (of_nat ?k :: u64) \<le> 3584" using k len(3) by (metis unat_0, simp only: k) simp
  have q2: "ubuf s2 q' = Inr (Some c2)" "(m(nm \<mapsto> d @ xs)) nm = Some (d @ xs)" using buf(2) u2 by simp_all
  from read_hand [OF w(2) q2(2,1) kz, of 0] obtain s3 c' where
    r: "krlsve_read v q' (of_nat ?k) 0 s2 = Inr (Some SYSSTUS_OK, s3)" "file_hand n R s3 v (m(nm \<mapsto> d @ xs)) nm" "sk s3 = sk s2"
    "ubuf s3 q' = Inr (Some c')" and c': "\<forall>i. (i < unat (of_nat ?k :: u64) \<and> i < ?k \<longrightarrow> c' i = (d @ xs) ! i) \<and> (unat (of_nat ?k :: u64) \<le> i \<longrightarrow> c' i = c2 i)"
    by metis
  have "serves n R l E (krlsve_read v q' (of_nat ?k) 0 s2)"
    by (rule read_serves [OF inv2]) (use buf(2) u2 w(4) o(5) in \<open>auto simp: page_at_def\<close>)
  with r(1) have inv3: "svc_inv n R l E s3" by (simp add: serves_def)
  from close_hand [OF r(2)] obtain s4 where c: "krlsve_close v s3 = Inr (Some SYSSTUS_OK, s4)" "files_are n R s4 (m(nm \<mapsto> d @ xs))" .
  have "not_idle (sk s3)" using r(3) w(4) o(5) by simp
  from close_serves [OF inv3 this, of v] c(1) have "svc_inv n R l E s4" by (simp add: serves_def)
  moreover have "map c' [0..<?k] = d @ xs" using c' unfolding k by (intro nth_equalityI) simp_all
  ultimately show ?thesis using o(1) w(1) r(1,4) c by blast
qed

section \<open>A device behind a handle\<close>

text \<open>The driver of a device other than the file system counts the handles on it.\<close>

lemma device_count:
  assumes base: "base_inv n R l c s" and ob: "objnodes s a = Some ob" "on_objtype ob = OBJN_TY_DEV" "on_objadr ob = Some p"
    and i: "dev_ids s p = Some i" "i \<noteq> rfs_id" and d: "devices s p = Some d"
  shows "on_opercode ob = 0 \<Longrightarrow> \<not> - 1 \<le> dev_count d \<Longrightarrow>
      krlsve_device a s = Inr (Some SYSSTUS_OK, upd_dev p (\<lambda>d. d\<lparr>dev_count := dev_count d + 1\<rparr>) s)"
    and "on_opercode ob = 1 \<Longrightarrow> \<not> dev_count d < 1 \<Longrightarrow>
      krlsve_device a s = Inr (Some SYSSTUS_OK, upd_dev p (\<lambda>d. d\<lparr>dev_count := dev_count d - 1\<rparr>) s)"
proof -
  from i(1) have p: "p \<in> set (devlist s)" and id: "dev_id d = i" using d by (simp_all add: dev_ids_def split: if_splits)
  from base_invD(3) [OF base] p d have "device_ok n R l c (length (sems (sk s))) (drivers s) d"
    unfolding devs_inv_def by force
  with id i(2) obtain rp r where r: "dev_drv d = Some rp" "drivers s rp = Some r" "drv_dipfun r = systick_tab \<or> drv_dipfun r = uart_tab"
    unfolding device_ok_def by auto
  have ne: "DFCOKSTUS \<noteq> DFCERRSTUS" by (simp add: DFCOKSTUS_def DFCERRSTUS_def)
  note call = krlsve_device_def krldev_io_def krldev_call_driver_def at_def answers_def then_if_back_def reports_def
  show "krlsve_device a s = Inr (Some SYSSTUS_OK, upd_dev p (\<lambda>d. d\<lparr>dev_count := dev_count d + 1\<rparr>) s)"
    if code: "on_opercode ob = 0" and k: "\<not> - 1 \<le> dev_count d"
  proof -
    have "call_dipfun (drv_dipfun r ! 0) p (Some a) s = Inr (Some DFCOKSTUS, upd_dev p (\<lambda>d. d\<lparr>dev_count := dev_count d + 1\<rparr>) s)"
      using r(3) d k by (auto simp: systick_tab_def uart_tab_def answers_def systick_open_def uart_open_def krldev_inc_devcount_def at_def)
    with ob d r(1,2) code ne show ?thesis by (simp add: call)
  qed
  show "krlsve_device a s = Inr (Some SYSSTUS_OK, upd_dev p (\<lambda>d. d\<lparr>dev_count := dev_count d - 1\<rparr>) s)"
    if code: "on_opercode ob = 1" and k: "\<not> dev_count d < 1"
  proof -
    have "call_dipfun (drv_dipfun r ! 1) p (Some a) s = Inr (Some DFCOKSTUS, upd_dev p (\<lambda>d. d\<lparr>dev_count := dev_count d - 1\<rparr>) s)"
      using r(3) d k by (auto simp: systick_tab_def uart_tab_def answers_def systick_close_def uart_close_def krldev_dec_devcount_def at_def)
    with ob d r(1,2) code ne show ?thesis by (simp add: call)
  qed
qed

text \<open>A later state in which the thread \<open>t\<close> runs and the handles and the devices behind the objects are as they were.\<close>

definition still_open :: "tid \<Rightarrow> dst \<Rightarrow> dst \<Rightarrow> bool" where
  "still_open t s1 s2 \<longleftrightarrow> not_idle (sk s2) \<and> sda_currtd (sk s2) = Some t \<and> htab (sk s2) = htab (sk s1) \<and>
     (\<forall>b. map_option on_objadr (objnodes s2 b) = map_option on_objadr (objnodes s1 b))"

text \<open>Opening a device that is not there gives no handle; opening one gives a new object on it behind a free handle.\<close>

lemma open_no_device:
  assumes inv: "svc_inv n R l E s" and none: "\<forall>p. dev_ids s p \<noteq> Some i"
  shows "open_dev_step t i s = Inr (Some NO_HAND, s)"
  using svc_invD(1) [OF inv]
proof (cases rule: find_device [where i = i])
  case 1
  then show ?thesis by (simp add: open_dev_step_def reports_def)
qed (use none in blast)

lemma open_device:
  assumes inv: "svc_inv n R l E s" and t: "threads (sk s) t = Some h" "htab (sk s) t = Some (td_handtbl h)"
    and free: "\<exists>j < 8. td_handtbl h ! j = None" "krl_ans s (krl_calls s) (in_use s) \<noteq> 0"
    and ni: "not_idle (sk s)" "sda_currtd (sk s) = Some t"
    and i: "dev_ids s p = Some i" "i \<noteq> rfs_id" and d: "devices s p = Some d" "\<not> - 1 \<le> dev_count d"
  obtains v s' where "open_dev_step t i s = Inr (Some v, s')" "svc_inv n R l E s'" "opened_on t i v s s'"
    "devices s' = (devices s)(p \<mapsto> d\<lparr>dev_count := dev_count d + 1\<rparr>)" "dev_ids s' = dev_ids s" "still_open t s' s'"
proof -
  note base = svc_invD(1) [OF inv]
  have ok: "SYSSTUS_OK \<noteq> SYSSTUS_ERR" by (simp add: SYSSTUS_ERR_def SYSSTUS_OK_def)
  from find_device [OF base, of i] i(1) dev_ids_unique [OF base_invD(2) [OF base] i(1)] have
    dev: "krlonidfl_retn_device (Some i) DIDFIL_IDN s = Inr (Some p)" by metis
  from base show thesis
  proof (cases rule: new_obj_cases)
    case (refused s1)
    with free(2) show thesis by (simp add: krlnew_objnode_def krlnew_def new_sem_def)
  next
    case (made a w s1)
    let ?g = "\<lambda>ob. ob\<lparr>on_opercode := 0, on_objtype := OBJN_TY_DEV, on_objadr := Some p\<rparr>"
    let ?s1 = "upd_obj a ?g s1" let ?ob = "?g (objnode_t_init w)"
    have fol: "follows n R l (card (open_files s)) s ?s1" using made(2) by simp
    have t1: "threads (sk ?s1) t = Some h" using t(1) made(5) by (simp add: upd_obj_def)
    from add_hand_ok [OF t1, of a] free(1) obtain j where
      j: "add_hand t a ?s1 = Inr (int j, set_hands t ((td_handtbl h)[j := Some a]) ?s1)" by auto
    let ?s2 = "set_hands t ((td_handtbl h)[j := Some a]) ?s1" and ?inc = "\<lambda>d. d\<lparr>dev_count := dev_count d + 1\<rparr>"
    have fol2: "follows n R l (card (open_files s)) s ?s2" by (rule follows_set_hands [OF fol])
    then have base2: "base_inv n R l (card (open_files s)) ?s2" and ids2: "dev_ids ?s2 = dev_ids s" by (simp_all add: follows_def)
    have ob: "objnodes ?s2 a = Some ?ob" "on_objtype ?ob = OBJN_TY_DEV" "on_objadr ?ob = Some p" "on_opercode ?ob = 0"
      "devices ?s2 = devices s" using made(4,7) by (simp_all add: upd_obj_def)
    have i2: "dev_ids ?s2 p = Some i" and d2: "devices ?s2 p = Some d" using i(1) ids2 d(1) ob(5) by simp_all
    have call: "krlsve_device a ?s2 = Inr (Some SYSSTUS_OK, upd_dev p ?inc ?s2)"
      by (rule device_count(1) [OF base2 ob(1-3) i2 i(2) d2 ob(4) d(2)])
    have open_eq: "open_dev_step t i s = Inr (Some (int j), upd_dev p ?inc ?s2)"
      using dev made(1) j call ok
      by (simp add: open_dev_step_def krlsve_open_device_def Let_def then_if_back_def reports_def NO_HAND_def)
    moreover have "int j \<noteq> NO_HAND" by (simp add: NO_HAND_def)
    ultimately have "svc_inv n R l E (upd_dev p ?inc ?s2)" "opened_on t i (int j) s (upd_dev p ?inc ?s2)"
      using open_dev_ok [OF inv t, of i] by auto
    moreover have dv: "devices (upd_dev p ?inc ?s2) = (devices s)(p \<mapsto> ?inc d)"
      using d(1) ob(5) by (simp add: upd_dev_def)
    moreover have "dev_ids (upd_dev p ?inc ?s2) = dev_ids ?s2"
      by (rule dev_ids_cong) (use d2 in \<open>auto simp: upd_dev_def\<close>)
    moreover have "sda_currtd (sk s1) = sda_currtd (sk s)" "sda_cpuidle (sk s1) = sda_cpuidle (sk s)"
      using made(1) by (auto simp: krlnew_objnode_def krlnew_def new_sem_def split: if_splits)
    then have "still_open t (upd_dev p ?inc ?s2) (upd_dev p ?inc ?s2)"
      using ni by (simp add: still_open_def not_idle_def upd_dev_def upd_obj_def set_hands_def upd_td_def)
    ultimately show thesis using that [OF open_eq] ids2 by simp
  qed
qed

text \<open>Closing the handle, then or later, gives back the handle and the object and takes it off the count of the device.\<close>

lemma close_device:
  assumes inv: "svc_inv n R l E s" and op: "opened_on t i v s s1" "svc_inv n R l E s1" and i: "dev_ids s p = Some i" "i \<noteq> rfs_id"
    and inv2: "svc_inv n R l E s2" and still: "still_open t s1 s2" and ids2: "dev_ids s2 = dev_ids s"
    and d: "devices s2 p = Some d" "\<not> dev_count d < 1"
  shows "\<exists>s3. krlsve_close v s2 = Inr (Some SYSSTUS_OK, s3) \<and> svc_inv n R l E s3 \<and> htab (sk s3) = htab (sk s) \<and>
    objnodes s3 = objnodes s2 |` dom (objnodes s) \<and> devices s3 = (devices s2)(p \<mapsto> d\<lparr>dev_count := dev_count d - 1\<rparr>)"
proof -
  have ok: "SYSSTUS_OK \<noteq> SYSSTUS_ERR" by (simp add: SYSSTUS_ERR_def SYSSTUS_OK_def)
  have s2: "svc_inv n R l E s2" "not_idle (sk s2)" "sda_currtd (sk s2) = Some t" "htab (sk s2) = htab (sk s1)"
      "\<forall>b. map_option on_objadr (objnodes s2 b) = map_option on_objadr (objnodes s1 b)"
    using inv2 still by (simp_all add: still_open_def)
  from op(1) obtain h j a ob1 q where o: "v = int j" "j < 8" "htab (sk s) t = Some h" "h ! j = None"
    "htab (sk s1) = (htab (sk s))(t \<mapsto> h[j := Some a])" "objnodes s a = None" "objnodes s1 = (objnodes s)(a \<mapsto> ob1)"
    "on_objadr ob1 = Some q" "dev_ids s q = Some i" unfolding opened_on_def by blast
  have q: "q = p" using dev_ids_unique [OF base_invD(2) [OF svc_invD(1) [OF inv]] o(9) i(1)] by simp
  have len: "length h = 8" by (rule hands_invD(1) [OF svc_invD(2) [OF inv] o(3)])
  let ?h = "h[j := Some a]"
  have H: "htab (sk s2) t = Some ?h" using s2(4) o(5) by simp
  have ret: "krlsched_retn_currthread (sk s2) = Inr t" using s2(3) by (simp add: krlsched_retn_currthread_def)
  have f: "0 \<le> v" "nat v < 8" "?h ! nat v = Some a" using o(1,2) len by simp_all
  have "map_option on_objadr (objnodes s2 a) = Some (Some q)" using s2(5) o(7,8) by simp
  then obtain ob where ob2: "objnodes s2 a = Some ob" "on_objadr ob = Some q" by blast
  have hi: "hand_at (htab (sk s2)) t (nat v) = Some a" using H f len by (simp add: hand_at_def)
  then have "a \<in> opened (htab (sk s2))" unfolding opened_def by blast
  from svc_invD(3) [OF s2(1) this ob2(1)] ob2(2) q ids2 i have ty: "on_objtype ob = OBJN_TY_DEV"
    by (auto simp: obj_inv_def split: if_splits)
  let ?c = "\<lambda>ob. ob\<lparr>on_opercode := 1\<rparr>" and ?dec = "\<lambda>d. d\<lparr>dev_count := dev_count d - 1\<rparr>"
  let ?s = "upd_obj a ?c s2"
  have fol: "follows n R l (card (open_files s2)) s2 ?s" using follows_refl [OF svc_invD(1) [OF s2(1)]] by simp
  then have base: "base_inv n R l (card (open_files s2)) ?s" and ids: "dev_ids ?s p = Some i"
    using ids2 i(1) by (simp_all add: follows_def)
  have x: "objnodes ?s a = Some (?c ob)" "on_objtype (?c ob) = OBJN_TY_DEV" "on_objadr (?c ob) = Some p" "on_opercode (?c ob) = 1"
    "devices ?s p = Some d" using ob2 ty q d(1) by (simp_all add: upd_obj_def)
  have call: "krlsve_device a ?s = Inr (Some SYSSTUS_OK, upd_dev p ?dec ?s)"
    by (rule device_count(2) [OF base x(1-3) ids i(2) x(5,4) d(2)])
  from H obtain k where k: "threads (sk s2) t = Some k" "td_handtbl k = ?h" by (auto simp: htab_def)
  have rh: "retn_hand t v s2 = Inr (Some a)"
    using k f by (simp add: retn_hand_def td_def krlthd_retn_objnode_def NO_HAND_def)
  let ?d = "upd_dev p ?dec ?s"
  have kd: "threads (sk ?d) t = Some k" using k(1) by (simp add: upd_dev_def upd_obj_def)
  have "td_handtbl k ! nat v = Some a" using k(2) f(3) by simp
  from del_hand_ok [OF kd f(2) this] f(1) have dh: "del_hand t v ?d = Inr (v, set_hands t ((td_handtbl k)[nat v := None]) ?d)" by simp
  let ?e = "set_hands t ((td_handtbl k)[nat v := None]) ?d"
  let ?s3 = "?e\<lparr>objnodes := (objnodes ?e)(a := None)\<rparr>"
  have "krldel_objnode a ?e = Inr ?s3" using x(1) by (simp add: krldel_objnode_def upd_dev_def)
  then have cl: "krlsve_close v s2 = Inr (Some SYSSTUS_OK, ?s3)"
    using ret rh f ob2 ty call dh ok o(1,2)
    by (simp add: krlsve_close_def krlsve_core_close_def at_def krlsve_close_device_def then_if_back_def reports_def NO_HAND_def)
  have same: "dom (objnodes s2) = insert a (dom (objnodes s))"
  proof -
    have "b \<in> dom (objnodes s2) \<longleftrightarrow> b \<in> dom (objnodes s1)" for b
      using s2(5) by (metis (no_types, lifting) domIff map_option_is_None)
    with o(7) show ?thesis by auto
  qed
  have "objnodes ?s3 = (objnodes s2)(a := None)" by (auto simp: upd_dev_def upd_obj_def)
  moreover have "(objnodes s2)(a := None) = objnodes s2 |` dom (objnodes s)"
  proof
    fix b
    have "b \<notin> dom (objnodes s) \<Longrightarrow> b \<noteq> a \<Longrightarrow> objnodes s2 b = None" using same by (metis domIff insertE)
    with o(6) show "((objnodes s2)(a := None)) b = (objnodes s2 |` dom (objnodes s)) b"
      by (cases "b \<in> dom (objnodes s)") (auto simp: restrict_map_def)
  qed
  ultimately have ob3: "objnodes ?s3 = objnodes s2 |` dom (objnodes s)" by simp
  have dv3: "devices ?s3 = (devices s2)(p \<mapsto> ?dec d)" using d(1) by (simp add: upd_dev_def upd_obj_def)
  have undo: "?h[nat v := None] = h" using o(1,4) by (metis list_update_id list_update_overwrite nat_int)
  from close_ok [OF s2(1,2), of v] cl ok s2(3) H undo have
    "svc_inv n R l E ?s3" "htab (sk ?s3) = (htab (sk s2))(t \<mapsto> h)" by auto
  moreover have "(htab (sk s2))(t \<mapsto> h) = htab (sk s)" using s2(4) o(3,5) by (simp add: fun_upd_idem)
  ultimately show ?thesis using cl ob3 dv3 by (intro exI [of _ ?s3]) simp
qed

end
