(* ===== verification/DevDemo.thy ===== *)
theory DevDemo
  imports DevFile RfsDemo SchedDemo
begin

text \<open>
  A concrete machine for the witnesses: switched on, started, with one program running, and with a file on its RAM disk.
\<close>

section \<open>The machine before the start\<close>

text \<open>A kernel memory service that gives the first of 4999 places that is not in use.\<close>

definition places :: "u64 list" where
  "places = map (\<lambda>j. 0x1000000 * of_nat j) [1..<5000]"

definition first_place :: "nat \<Rightarrow> u64 set \<Rightarrow> u64" where
  "first_place k L = (case find (\<lambda>a. a \<notin> L) places of None \<Rightarrow> 0 | Some a \<Rightarrow> a)"

definition bare :: dst where
  "bare = \<lparr>sk = raw, osdevtable = devtable_t_init, devices = Map.empty, drivers = Map.empty, objnodes = Map.empty, serdscs = Map.empty,
     machintflt = [], kbd_dowup_stat = 0,
     osktime = \<lparr>kt_year = 0, kt_mon = 0, kt_day = 0, kt_date = 0, kt_hour = 0, kt_min = 0, kt_sec = 0\<rparr>, intm_mask = 0xff, ints_mask = 0xff,
     cmos = (\<lambda>_. 0), kb_port = 0, umem = (\<lambda>_. None), screen = [], krl_ans = first_place, krl_calls = 0, krl_other = {}, buf_ans = [],
     krl_junk = (\<lambda>_ _. 0)\<rparr>"

lemma place:
  assumes "j < 5000"
  shows "unat (0x1000000 * of_nat j :: u64) = 0x1000000 * j"
proof -
  have "(0x1000000 * of_nat j :: u64) = of_nat (0x1000000 * j)" by simp
  moreover have "unat (of_nat (0x1000000 * j) :: u64) = 0x1000000 * j"
    by (simp only: unat_of_nat take_bit_nat_eq_self_iff) (use assms in simp)
  ultimately show ?thesis by simp
qed

lemma places_ok: "a \<in> set places \<Longrightarrow> a \<noteq> 0 \<and> unat a + 0x400000 < 2 ^ 64" "card (set places) = 4999"
proof -
  have d: "distinct places"
    unfolding places_def distinct_map inj_on_def using place by (auto) (metis mult_left_cancel zero_neq_numeral)
  show "card (set places) = 4999" by (simp only: distinct_card [OF d]) (simp add: places_def)
  show "a \<noteq> 0 \<and> unat a + 0x400000 < 2 ^ 64" if a: "a \<in> set places"
  proof -
    from a obtain j where j: "1 \<le> j" "j < 5000" "a = 0x1000000 * of_nat j" by (auto simp: places_def)
    with place [OF j(2)] have "unat a = 0x1000000 * j" by simp
    with j(1,2) show ?thesis by (auto simp: unat_eq_0 [symmetric])
  qed
qed

lemma first_place_ok:
  "first_place k L = 0 \<or> first_place k L \<notin> L"
  "card L < 4096 \<Longrightarrow> first_place k L \<noteq> 0 \<and> unat (first_place k L) + 0x400000 < 2 ^ 64"
proof -
  show "first_place k L = 0 \<or> first_place k L \<notin> L"
    by (auto simp: first_place_def find_Some_iff split: option.split)
  assume L: "card L < 4096"
  have "\<not> set places \<subseteq> L"
    using card_mono [of L "set places"] places_ok(2) L by auto
  then obtain a where "find (\<lambda>a. a \<notin> L) places = Some a" by (metis (mono_tags, lifting) find_None_iff option.exhaust subsetI)
  moreover from this have "a \<in> set places" by (auto simp: find_Some_iff)
  ultimately show "first_place k L \<noteq> 0 \<and> unat (first_place k L) + 0x400000 < 2 ^ 64"
    using places_ok(1) by (simp add: first_place_def)
qed

lemma bare_on: "power_on bare"
  using first_place_ok ans_ok(3)
  by (simp add: power_on_def bare_def krl_ok_def in_use_def) (simp add: raw_def blank_def krlsem_set_sem_def)


section \<open>A program\<close>

lemma spawn_runs:
  assumes inv: "sched_inv k" and f: "fresh 0x2000 k"
  shows "sched_inv (scheduled (spawned 2 k))" "not_idle (scheduled (spawned 2 k))" "sems (scheduled (spawned 2 k)) = sems k"
    "htab (scheduled (spawned 2 k)) = (htab k)(0x2000 \<mapsto> replicate 8 None)"
    "sys_do (ev_kern 2 0) k = Inr (True, spawned 2 k)" "sched_inv (spawned 2 k)"
proof -
  let ?s = "spawned 2 k"
  have l: "length (sda_thdlst k) = 64" by (rule lists_okD(1) [OF sched_invD(1) [OF inv]])
  have f': "fresh (0x1000 * 2) k" using f by simp
  note st = spawn_step [OF inv _ _ f'] and sf = spawned_fields [OF l, of 2]
  show do: "sys_do (ev_kern 2 0) k = Inr (True, ?s)" and i1: "sched_inv ?s" using st by simp_all
  note y = scheduled_inv [OF i1]
  show "sched_inv (scheduled ?s)" by (rule y)
  have p: "top_prio ?s = Some 0" using l by (simp add: top_prio_Some sf(1) rdy_def)
  note r = ready_scheduled [OF i1 p]
  have ok: "lists_ok ?s" by (rule sched_invD(1) [OF i1])
  have "chosen (sda_thdlst ?s ! 0) \<in> set (ready_at ?s 0)"
    using turn_facts(6) [of "sda_thdlst ?s ! 0"] p by (simp add: top_prio_Some)
  moreover obtain i where i: "sda_cpuidle ?s = Some i" "i \<notin> set (ready_at ?s 0)"
    using lists_okD(7) [OF ok] by (auto simp: idle_ok_def)
  moreover have "sda_cpuidle (scheduled ?s) = sda_cpuidle ?s" by (simp add: scheduled_def p)
  ultimately show "not_idle (scheduled ?s)" using r(1) by (auto simp: not_idle_def)
  show "sems (scheduled ?s) = sems k" using sf(2) by simp
  have "htab (scheduled ?s) = htab ?s" by simp
  moreover have "htab ?s = (htab k)(0x2000 \<mapsto> replicate 8 None)"
    using sf(5) by (auto simp: htab_def fun_eq_iff kern_thread_fields)
  ultimately show "htab (scheduled ?s) = (htab k)(0x2000 \<mapsto> replicate 8 None)" by simp
qed

text \<open>What the program's memory holds: two paths, the identifiers of the clock and of a device that is not there, two pages.\<close>

definition three_words :: "u64 \<Rightarrow> u64 \<Rightarrow> u64 \<Rightarrow> block" where
  "three_words a b c = st64 (st64 (st64 (hal_memset 0) 0 a) 8 b) 16 c"

definition program_mem :: "u64 \<Rightarrow> path" where
  "program_mem = [0x100 \<mapsto> the (name_path nmA), 0x200 \<mapsto> the (name_path nmB), 0x300 \<mapsto> (three_words SYSTICK_DEVICE 0 0, 24),
     0x4000 \<mapsto> (bytes_of [104, 105], 4096), 0x5000 \<mapsto> (hal_memset 0, 4096)]"


lemma program_mem_at:
  assumes "umem s = program_mem"
  shows "ustr s 0x100 = name_path nmA" "ustr s 0x200 = name_path nmB" "devid_at s 0x300 = Inr systick_id"
    "ubuf s 0x4000 = Inr (Some (bytes_of [104, 105]))" "ubuf s 0x5000 = Inr (Some (hal_memset 0))"
proof -
  show "ustr s 0x100 = name_path nmA" "ustr s 0x200 = name_path nmB"
    by (simp_all add: ustr_def assms program_mem_def name_path_def)
  show "devid_at s 0x300 = Inr systick_id"
    by (simp add: devid_at_def at_def assms program_mem_def three_words_def systick_id_def)
  show "ubuf s 0x4000 = Inr (Some (bytes_of [104, 105]))" "ubuf s 0x5000 = Inr (Some (hal_memset 0))"
    by (simp_all add: ubuf_page assms program_mem_def)
qed

definition program_run :: "svc_event list" where
  "program_run = [Sched (ev_kern 2 0), Sched Yield, Store program_mem]"

lemma program_runs:
  obtains s0 s x where "start_kernel (ans 1) 0x5000 bare = Inr s0" "svc_run 1024 2 oth s0 program_run s" "svc_inv 1024 2 1 {x} s"
    "not_idle (sk s)" "files_are 1024 2 s Map.empty" "umem s = program_mem" "can_open s" "open_files s = {}"
    "ran (dev_ids s) = {systick_id, rfs_id, uart_id}" "buf_ans s = []"
proof -
  from start_kernel_ok [OF bare_on ans_ok(1,2)] obtain s0 x where
    s0: "start_kernel (ans 1) 0x5000 bare = Inr s0" "svc_inv 1024 2 1 {x} s0" "files_are 1024 2 s0 Map.empty"
      "ran (dev_ids s0) = {systick_id, rfs_id, uart_id}" "htab (sk s0) = [ans_dsc (ans 1) \<mapsto> replicate 8 None]" "krl_ok 0 s0" by blast
  have H0: "htab (sk s0) = [0x1000 \<mapsto> replicate 8 None]" using s0(5) by (simp add: ans_def)
  have sch: "sched_inv (sk s0)" by (rule base_invD(1) [OF svc_invD(1) [OF s0(2)]])
  have "htab (sk s0) 0x2000 = None" using H0 by simp
  then have fr: "fresh 0x2000 (sk s0)" by (simp add: fresh_def htab_def)
  note sp = spawn_runs [OF sch fr]
  let ?k = "scheduled (spawned 2 (sk s0))"
  let ?s = "s0\<lparr>sk := ?k, umem := program_mem\<rparr>"
  have "svc_step 1024 2 oth s0 (Sched (ev_kern 2 0)) (s0\<lparr>sk := spawned 2 (sk s0)\<rparr>)"
    by (rule svc_step.sched [OF _ _ sp(5)]) (use fr in \<open>simp_all add: ev_kern_def ans_def\<close>)
  moreover have y: "sys_do Yield (sk (s0\<lparr>sk := spawned 2 (sk s0)\<rparr>)) = Inr (True, ?k)" using scheduled_inv(1) [OF sp(6)] by simp
  have "svc_step 1024 2 oth (s0\<lparr>sk := spawned 2 (sk s0)\<rparr>) (Sched Yield) (s0\<lparr>sk := ?k\<rparr>)"
    using svc_step.sched [OF _ _ y] by simp
  moreover have "svc_step 1024 2 oth (s0\<lparr>sk := ?k\<rparr>) (Store program_mem) ?s"
    using svc_step.store [of 1024 2 oth "s0\<lparr>sk := ?k\<rparr>" program_mem] by simp
  ultimately have run: "svc_run 1024 2 oth s0 program_run ?s" unfolding program_run_def by (meson svc_run.intros)
  have ids: "dev_ids ?s = dev_ids s0" by (rule dev_ids_cong) simp_all
  have H: "htab (sk ?s) = [0x1000 \<mapsto> replicate 8 None, 0x2000 \<mapsto> replicate 8 None]" using sp(4) H0 by simp
  have o: "opened (htab (sk ?s)) = {}" unfolding opened_def H by (auto simp: hand_at_def split: if_splits)
  have "krl_ok 0 ?s" by (rule krl_ok_same [OF s0(6)]) (simp_all add: in_use_def)
  then have ans: "krl_ans ?s k (in_use ?s) \<noteq> 0" and buf: "buf_ans ?s = []" for k unfolding krl_ok_def by (metis add.right_neutral)+
  have "can_open ?s" unfolding can_open_def
  proof (intro conjI allI impI)
    show "krl_ans ?s (krl_calls ?s) (in_use ?s) \<noteq> 0" by (rule ans)
    fix t h assume "threads (sk ?s) t = Some h"
    then have "htab (sk ?s) t = Some (td_handtbl h)" unfolding htab_def by (simp only: option.map)
    then have "td_handtbl h = replicate 8 None" unfolding H by (auto split: if_splits)
    then show "\<exists>j < 8. td_handtbl h ! j = None" by (intro exI [of _ 0]) simp
  qed
  moreover have "files_are 1024 2 ?s Map.empty" using s0(3) unfolding files_are_def ids by simp
  moreover have "open_files ?s = {}" unfolding open_files_def o by simp
  ultimately show thesis
    using that [OF s0(1) run svc_run_inv [OF run s0(2)]] sp(2) s0(4) ids buf by simp
qed

text \<open>The same with a file on the RAM disk.\<close>

lemma svc_dev:
  assumes inv: "svc_inv n R l E s" and d0: "devices s p = Some d0" and d1: "dev_id d1 = dev_id d0" "dev_drv d1 = dev_drv d0"
    and ok: "p \<in> set (devlist s) \<Longrightarrow> device_ok n R l (card (open_files s)) (length (sems (sk s))) (drivers s) d1"
    and s': "osdevtable s' = osdevtable s" "devices s' = (devices s)(p \<mapsto> d1)" "drivers s' = drivers s" "machintflt s' = machintflt s"
      "serdscs s' = serdscs s" "krl_ans s' = krl_ans s" "sk s' = sk s" "objnodes s' = objnodes s"
  shows "svc_inv n R l E s'" "dev_ids s' = dev_ids s"
proof -
  note v = svc_invD [OF inv]
  note b = base_invD [OF v(1)]
  show ids: "dev_ids s' = dev_ids s" by (rule dev_ids_cong [OF s'(1)]) (use d0 d1 in \<open>simp add: s'(2)\<close>)
  have "tbl_inv s'" by (rule tbl_inv_same [OF b(2) s'(1,2) d0 d1])
  moreover have "devs_inv n R l (card (open_files s)) s'"
    unfolding devs_inv_def s'
  proof (intro ballI)
    fix q assume q: "q \<in> set (devlist s)"
    with b(3) obtain e where e: "devices s q = Some e" "device_ok n R l (card (open_files s)) (length (sems (sk s))) (drivers s) e"
      unfolding devs_inv_def by blast
    then show "\<exists>d. ((devices s)(p \<mapsto> d1)) q = Some d \<and>
       device_ok n R l (card (open_files s)) (length (sems (sk s))) (drivers s) d"
      using ok q by (cases "q = p") simp_all
  qed
  moreover have "irq_inv s'" using irq_inv_cong [OF s'(4,5) ids] b(4) by simp
  ultimately have "base_inv n R l (card (open_files s)) s'" using b(1,5) s'(6,7) by (simp add: base_inv_def)
  moreover have "open_files s' = open_files s" by (simp add: open_files_def s')
  ultimately show "svc_inv n R l E s'" using v s' ids by (simp add: svc_inv_def)
qed

lemma svc_with_fs:
  assumes inv: "svc_inv n R l E s" and d: "dev_ids s p = Some rfs_id" and r: "fs_of n R (card (open_files s) + l) r"
  shows "svc_inv n R l E (set_rfs p r s)"
proof -
  note base = svc_invD(1) [OF inv]
  from rfs_device [OF base d] obtain d0 where d0: "devices s p = Some d0" by metis
  have p: "p \<in> set (devlist s)" "dev_id d0 = rfs_id" using d d0 by (simp_all add: dev_ids_def split: if_splits)
  with base_invD(3) [OF base] d0 have "device_ok n R l (card (open_files s)) (length (sems (sk s))) (drivers s) d0"
    unfolding devs_inv_def by force
  then have ok: "device_ok n R l (card (open_files s)) (length (sems (sk s))) (drivers s) (d0\<lparr>dev_extdata := RfsExt r\<rparr>)"
    using p(2) r by (auto simp: device_ok_def rfs_ext_def)
  have "krl_grants r = []" using r fs_inv_granted by (auto simp: fs_of_def)
  note f = set_rfs_fields [OF d0 this]
  show ?thesis by (rule svc_dev(1) [OF inv d0 _ _ ok f(2,1,3-8)]) simp_all
qed

text \<open>The number of handles on a device other than the file system is nobody's concern.\<close>

lemma svc_with_count:
  assumes inv: "svc_inv n R l E s" and d: "devices s p = Some d"
  shows "svc_inv n R l E (upd_dev p (\<lambda>d. d\<lparr>dev_count := k\<rparr>) s)" "dev_ids (upd_dev p (\<lambda>d. d\<lparr>dev_count := k\<rparr>) s) = dev_ids s"
proof -
  note base = svc_invD(1) [OF inv]
  have ok: "device_ok n R l (card (open_files s)) (length (sems (sk s))) (drivers s) (d\<lparr>dev_count := k\<rparr>)" if "p \<in> set (devlist s)"
  proof -
    from that base_invD(3) [OF base] d have "device_ok n R l (card (open_files s)) (length (sems (sk s))) (drivers s) d"
      unfolding devs_inv_def by force
    then show ?thesis by (cases "dev_id d = rfs_id") (auto simp: device_ok_def)
  qed
  show "svc_inv n R l E (upd_dev p (\<lambda>d. d\<lparr>dev_count := k\<rparr>) s)" "dev_ids (upd_dev p (\<lambda>d. d\<lparr>dev_count := k\<rparr>) s) = dev_ids s"
    by (rule svc_dev [OF inv d _ _ ok]; simp add: upd_dev_def d)+
qed

lemma program_with_file:
  obtains s x where "svc_inv 1024 2 1 {x} s" "not_idle (sk s)" "files_are 1024 2 s [nmA \<mapsto> []]" "umem s = program_mem" "can_open s"
    "buf_ans s = []"
proof -
  obtain s x where s: "svc_inv 1024 2 1 {x} s" "not_idle (sk s)" "files_are 1024 2 s Map.empty" "umem s = program_mem" "can_open s" "open_files s = {}"
    using program_runs [of _ thesis] by (metis program_runs)
  from files_on_rfs [OF svc_invD(1) [OF s(1)] s(3)] obtain p r0 ents where on: "on_rfs 1024 2 s p r0 ents" by metis
  then obtain d where d: "dev_ids s p = Some rfs_id" "devices s p = Some d" unfolding on_rfs_def by blast
  let ?r = "one_file\<lparr>krl_live := 1\<rparr>"
  let ?s = "set_rfs p ?r s"
  have fs: "fs_inv 1024 2 ?r [Some (nmA, 3)]" "fs_files ?r [Some (nmA, 3)] = [nmA \<mapsto> []]"
    using one_file_ok(1,2) by (simp_all add: fs_files_def)
  have r: "fs_of 1024 2 (card (open_files s) + 1) ?r" using fs(1) s(6) by (auto simp: fs_of_def)
  note f = set_rfs_fields [OF d(2) fs_inv_granted [OF fs(1)]]
  have ids: "dev_ids ?s = dev_ids s" by (rule dev_ids_cong [OF f(2)], unfold f(1)) (use d(2) in simp)
  have "files_are 1024 2 ?s [nmA \<mapsto> []]"
    unfolding files_are_def ids f(1) using d fs by (intro exI [of _ p]) auto
  moreover have "in_use ?s = in_use s" "krl_ans ?s = krl_ans s" "krl_calls ?s = krl_calls s" "sk ?s = sk s" "umem ?s = umem s"
    by (simp_all add: set_rfs_def upd_dev_def) (simp add: in_use_def d(2) insert_absorb domI)
  ultimately show thesis
    using that [OF svc_with_fs [OF s(1) d(1) r]] s f(9) by (simp add: can_open_def)
qed

end
