(* ===== verification/DevProps.thy ===== *)
theory DevProps
  imports DevDemo
begin

text \<open>The properties of the start of the kernel, the devices, the file services and the console.\<close>

text \<open>C36: from any state with empty tables and a memory service that gives what is asked for, the buffers of the RAM disk too,
  the start of the kernel returns: the device and interrupt tables are made, the entries of the three drivers run, the RAM disk
  is formatted and passes its self-test, the first thread is made. Exactly the clock, the RAM disk and the console are then in
  the device table, the file system is empty, no handle is open, and the invariant of the system holds.\<close>

theorem kernel_starts:
  assumes "power_on s" "ans_stack a \<noteq> 0" "ans_dsc a \<noteq> 0"
  shows "\<exists>s' x. start_kernel a main s = Inr s' \<and> svc_inv 1024 2 1 {x} s' \<and> files_are 1024 2 s' Map.empty \<and>
    ran (dev_ids s') = {systick_id, rfs_id, uart_id} \<and> sda_currtd (sk s') = Some (ans_dsc a) \<and>
    htab (sk s') = [ans_dsc a \<mapsto> replicate 8 None]"
proof -
  from start_kernel_ok [OF assms, of main] show ?thesis by blast
qed

theorem kernel_starts_witness:
  "\<exists>s' x. start_kernel (ans 1) 0x5000 bare = Inr s' \<and> svc_inv 1024 2 1 {x} s' \<and> files_are 1024 2 s' Map.empty \<and>
    ran (dev_ids s') = {systick_id, rfs_id, uart_id} \<and> sda_currtd (sk s') = Some (ans_dsc (ans 1)) \<and>
    htab (sk s') = [ans_dsc (ans 1) \<mapsto> replicate 8 None]"
  by (rule kernel_starts [OF bare_on ans_ok(1,2)])

text \<open>C34: from the start of the kernel on, whatever fair services, interrupts, threads, turns of the scheduler and stores of
  programs there were, and however the memory service answered the file system since, the handle tables, objects, devices, the
  file system and the scheduler agree (the invariant \<open>svc_inv\<close>), every service that is asked for fairly returns, and so does
  every interrupt: no panic, no access through a pointer that leads nowhere. Not fair, among what \<open>fair_service\<close> lists, is to
  create, open or delete a file while a buffer of the file system may be refused; reading, writing and closing files and all
  services on devices stay fair then.\<close>

theorem system_never_stuck:
  assumes "power_on s0" "ans_stack a \<noteq> 0" "ans_dsc a \<noteq> 0" "start_kernel a main s0 = Inr s1" "svc_run 1024 2 oth s1 es s"
  shows "(\<exists>x. svc_inv 1024 2 1 {x} s) \<and>
    (fair_service 1024 2 nr p s \<longrightarrow> (\<exists>v s'. hal_syscl_allocator oth nr p s = Inr (v, s'))) \<and>
    (unat irq < 256 \<and> fr \<noteq> 0 \<and> sems_room (length (i_serlist (machintflt s ! unat irq))) (sk s) \<longrightarrow>
      (\<exists>s'. hal_hwint_allocator irq fr s = Inr s'))"
proof -
  from start_kernel_ok [OF assms(1-3), of main] assms(4) obtain x where "svc_inv 1024 2 1 {x} s1" by auto
  note inv = svc_run_inv [OF assms(5) this]
  from service_serves [OF inv, of nr p oth] interrupt_ok [OF inv, of irq fr] inv show ?thesis
    unfolding serves_def by blast
qed

theorem system_never_stuck_witness:
  "\<exists>s1 s. start_kernel (ans 1) 0x5000 bare = Inr s1 \<and> svc_run 1024 2 (\<lambda>_ _ _. reports 0) s1 (program_run @ [Memory [False]]) s \<and>
    (\<exists>v s'. hal_syscl_allocator (\<lambda>_ _ _. reports 0) 8 \<lparr>parmv1 = 0x300, parmv2 = 1, parmv3 = 0, parmv4 = 0, parmv5 = 0\<rparr> s = Inr (v, s'))"
proof -
  let ?oth = "\<lambda>(_ :: syscall) (_ :: u64) (_ :: stkparame). reports 0" and ?p = "\<lparr>parmv1 = 0x300, parmv2 = 1, parmv3 = 0, parmv4 = 0, parmv5 = 0\<rparr>"
  obtain s1 s0 where s0: "start_kernel (ans 1) 0x5000 bare = Inr s1" "svc_run 1024 2 ?oth s1 program_run s0"
    "not_idle (sk s0)" "umem s0 = program_mem" by (rule program_runs)
  let ?s = "s0\<lparr>buf_ans := [False]\<rparr>"
  have run: "svc_run 1024 2 ?oth s1 (program_run @ [Memory [False]]) ?s"
    by (rule svc_run_snoc [OF s0(2) svc_step.memory])
  have "umem ?s = program_mem" using s0(4) by simp
  from program_mem_at(3) [OF this] have "fair_service 1024 2 8 ?p ?s"
    using s0(3) by (simp add: fair_service_def fair_open_def)
  with system_never_stuck [OF bare_on ans_ok(1,2) s0(1) run, of 8 ?p] s0(1) run show ?thesis by blast
qed

text \<open>C35: a program that opens an existing file, appends to it, reads it from the start and closes it is told of success each
  time, as long as the memory service refuses the file system no buffer; its page then holds the old contents followed by what
  it wrote, and the file on the RAM disk holds the same.\<close>

theorem file_session:
  assumes "svc_inv n R l E s" "not_idle (sk s)" "can_open s" "files_are n R s m" "path_to nm (ustr s fp)" "nm_ok nm" "m nm = Some d"
    and "fp \<noteq> 0" "and flgs FILE_TY_MASK = FILE_TY_FILE" "and (drop_bit RWO_FLG_BITS flgs) RWO_FLG_MASK \<noteq> NF_FLG"
    and "ubuf s q = Inr (Some c)" "ubuf s q' = Inr (Some c2)" "xs = map c [0..<unat len]" "xs \<noteq> []" "length d + length xs < 3584"
    and "buf_ans s = []"
  shows "\<exists>v s1 s2 s3 s4 c'. krlsve_open fp flgs st s = Inr (Some v, s1) \<and> krlsve_write v q len 0 s1 = Inr (Some SYSSTUS_OK, s2) \<and>
    krlsve_read v q' (of_nat (length (d @ xs))) 0 s2 = Inr (Some SYSSTUS_OK, s3) \<and>
    ubuf s3 q' = Inr (Some c') \<and> map c' [0..<length (d @ xs)] = d @ xs \<and>
    krlsve_close v s3 = Inr (Some SYSSTUS_OK, s4) \<and> files_are n R s4 (m(nm \<mapsto> d @ xs)) \<and> svc_inv n R l E s4"
  by (rule session_ok [OF assms])

theorem file_session_witness:
  "\<exists>s x v s1 s2 s3 s4 c'. krlsve_open 0x100 0 0 s = Inr (Some v, s1) \<and> krlsve_write v 0x4000 2 0 s1 = Inr (Some SYSSTUS_OK, s2) \<and>
    krlsve_read v 0x5000 (of_nat (length ([] @ [104, 105 :: u8]))) 0 s2 = Inr (Some SYSSTUS_OK, s3) \<and>
    ubuf s3 0x5000 = Inr (Some c') \<and> map c' [0..<length ([] @ [104, 105 :: u8])] = [] @ [104, 105] \<and>
    krlsve_close v s3 = Inr (Some SYSSTUS_OK, s4) \<and> files_are 1024 2 s4 ([nmA \<mapsto> []](nmA \<mapsto> [] @ [104, 105])) \<and> svc_inv 1024 2 1 {x} s4"
proof -
  obtain s x where s: "svc_inv 1024 2 1 {x} s" "not_idle (sk s)" "files_are 1024 2 s [nmA \<mapsto> []]" "umem s = program_mem" "can_open s"
    "buf_ans s = []" by (rule program_with_file)
  note m = program_mem_at [OF s(4)]
  have p: "path_to nmA (ustr s 0x100)" unfolding m(1) by simp
  have xs: "[104, 105] = map (bytes_of [104, 105]) [0..<unat (2 :: u64)]"
    by (simp add: bytes_of_def upt_rec)
  have f: "[nmA \<mapsto> []] nmA = Some []" "(0x100 :: u64) \<noteq> 0" "and 0 FILE_TY_MASK = FILE_TY_FILE"
    "and (drop_bit RWO_FLG_BITS 0) RWO_FLG_MASK \<noteq> NF_FLG" "[104, 105 :: u8] \<noteq> []" "length ([] :: u8 list) + length [104, 105 :: u8] < 3584"
    by simp_all
  from file_session [OF s(1,2,5,3) p nm_AB(1) f(1-4) m(4,5) xs f(5,6) s(6), of 0] show ?thesis by blast
qed

text \<open>C37: opening a device by its identifier gives no handle and changes nothing when there is no such device, and never a
  handle on the file system. When there is one, the caller has a free handle, the memory service gives memory for the object and the
  count of handles on the device is not at its maximum, it succeeds: a new object on that device is behind a free handle of the
  caller, and the device counts one handle more. In any other case it gives no handle and leaves handles and objects as they
  were, or succeeds. Closing the handle, then or later, as long as the handles and the devices behind the objects are those
  and the count of the device is not 0, reports success, takes exactly the handle and the object away, and one off the count.\<close>

theorem open_and_close:
  assumes "svc_inv n R l E s" "not_idle (sk s)" "devid_at s fp = Inr i" "fp \<noteq> 0" "and flgs FILE_TY_MASK = FILE_TY_DEV"
  shows "\<exists>t v s'. sda_currtd (sk s) = Some t \<and> krlsve_open fp flgs st s = Inr (Some v, s') \<and> svc_inv n R l E s' \<and>
    ((\<forall>p. dev_ids s p \<noteq> Some i) \<longrightarrow> v = NO_HAND \<and> s' = s) \<and>
    (dev_ids s p = Some i \<and> i \<noteq> rfs_id \<and> devices s p = Some d \<and> dev_count d < - 1 \<and> can_open s \<longrightarrow>
      opened_on t i v s s' \<and> still_open t s' s' \<and> dev_ids s' = dev_ids s \<and>
      devices s' = (devices s)(p \<mapsto> d\<lparr>dev_count := dev_count d + 1\<rparr>)) \<and>
    (v = NO_HAND \<and> unopened s s' \<or> i \<noteq> rfs_id \<and> opened_on t i v s s') \<and>
    (\<forall>s2 d2. opened_on t i v s s' \<and> dev_ids s p = Some i \<and> svc_inv n R l E s2 \<and> still_open t s' s2 \<and>
        dev_ids s2 = dev_ids s \<and> devices s2 p = Some d2 \<and> 1 \<le> dev_count d2 \<longrightarrow>
      (\<exists>s3. krlsve_close v s2 = Inr (Some SYSSTUS_OK, s3) \<and> svc_inv n R l E s3 \<and> htab (sk s3) = htab (sk s) \<and>
        objnodes s3 = objnodes s2 |` dom (objnodes s) \<and> devices s3 = (devices s2)(p \<mapsto> d2\<lparr>dev_count := dev_count d2 - 1\<rparr>)))"
proof -
  from the_caller [OF assms(1,2)] obtain t h where t: "krlsched_retn_currthread (sk s) = Inr t" "threads (sk s) t = Some h"
    "htab (sk s) t = Some (td_handtbl h)" by metis
  have cur: "sda_currtd (sk s) = Some t" using t(1) by (simp add: krlsched_retn_currthread_def split: option.splits)
  have op: "krlsve_open fp flgs st s = open_dev_step t i s"
    using assms(3-5) t(1) by (simp add: krlsve_open_def krlsve_core_open_def)
  from open_dev_ok [OF assms(1) t(2,3), of i] obtain v s' where
    v: "open_dev_step t i s = Inr (Some v, s')" "svc_inv n R l E s'" "v = NO_HAND \<and> unopened s s' \<or> i \<noteq> rfs_id \<and> opened_on t i v s s'" by auto
  have none: "(\<forall>p. dev_ids s p \<noteq> Some i) \<longrightarrow> v = NO_HAND \<and> s' = s"
    using open_no_device [OF assms(1), of i t] v(1) by auto
  have some: "dev_ids s p = Some i \<and> i \<noteq> rfs_id \<and> devices s p = Some d \<and> dev_count d < - 1 \<and> can_open s \<longrightarrow>
      opened_on t i v s s' \<and> still_open t s' s' \<and> dev_ids s' = dev_ids s \<and>
      devices s' = (devices s)(p \<mapsto> d\<lparr>dev_count := dev_count d + 1\<rparr>)"
  proof
    assume "dev_ids s p = Some i \<and> i \<noteq> rfs_id \<and> devices s p = Some d \<and> dev_count d < - 1 \<and> can_open s"
    with t have x: "\<exists>j < 8. td_handtbl h ! j = None" "krl_ans s (krl_calls s) (in_use s) \<noteq> 0" "dev_ids s p = Some i" "i \<noteq> rfs_id"
      "devices s p = Some d" "\<not> - 1 \<le> dev_count d" unfolding can_open_def not_le by blast+
    show "opened_on t i v s s' \<and> still_open t s' s' \<and> dev_ids s' = dev_ids s \<and>
      devices s' = (devices s)(p \<mapsto> d\<lparr>dev_count := dev_count d + 1\<rparr>)"
      by (rule open_device [OF assms(1) t(2,3) x(1,2) assms(2) cur x(3-6)]) (use v(1) in auto)
  qed
  have later: "\<exists>s3. krlsve_close v s2 = Inr (Some SYSSTUS_OK, s3) \<and> svc_inv n R l E s3 \<and> htab (sk s3) = htab (sk s) \<and>
        objnodes s3 = objnodes s2 |` dom (objnodes s) \<and> devices s3 = (devices s2)(p \<mapsto> d2\<lparr>dev_count := dev_count d2 - 1\<rparr>)"
    if "opened_on t i v s s' \<and> dev_ids s p = Some i \<and> svc_inv n R l E s2 \<and> still_open t s' s2 \<and>
        dev_ids s2 = dev_ids s \<and> devices s2 p = Some d2 \<and> 1 \<le> dev_count d2" for s2 d2
  proof -
    from that have x: "opened_on t i v s s'" "dev_ids s p = Some i" "svc_inv n R l E s2" "still_open t s' s2"
      "dev_ids s2 = dev_ids s" "devices s2 p = Some d2" "\<not> dev_count d2 < 1" by (auto simp: not_less)
    have "v \<noteq> NO_HAND" using x(1) by (auto simp: opened_on_def NO_HAND_def)
    with v(3) have "i \<noteq> rfs_id" by blast
    from close_device [OF assms(1) x(1) v(2) x(2) this x(3-7)] show ?thesis .
  qed
  show ?thesis
    unfolding op by (intro exI [of _ t] exI [of _ v] exI [of _ s'] conjI cur v none some, intro allI impI, rule later)
qed

text \<open>The program opens the clock and closes it again: the handle is made, the close succeeds, all is as it was.\<close>

theorem open_and_close_witness:
  "\<exists>s t v s' s3. umem s = program_mem \<and> krlsve_open 0x300 1 0 s = Inr (Some v, s') \<and> opened_on t systick_id v s s' \<and>
    krlsve_close v s' = Inr (Some SYSSTUS_OK, s3) \<and> htab (sk s3) = htab (sk s) \<and> objnodes s3 = objnodes s' |` dom (objnodes s) \<and>
    devices s3 = devices s"
proof -
  obtain s0 x where s0: "svc_inv 1024 2 1 {x} s0" "not_idle (sk s0)" "umem s0 = program_mem" "can_open s0"
    "ran (dev_ids s0) = {systick_id, rfs_id, uart_id}" by (rule program_runs)
  from s0(5) obtain p where p: "dev_ids s0 p = Some systick_id" unfolding ran_def by blast
  then obtain d0 where d0: "devices s0 p = Some d0" by (auto simp: dev_ids_def split: if_splits)
  define s where "s = upd_dev p (\<lambda>d. d\<lparr>dev_count := 0\<rparr>) s0"
  let ?d = "d0\<lparr>dev_count := 0\<rparr>"
  have s: "svc_inv 1024 2 1 {x} s" "dev_ids s p = Some systick_id"
    using svc_with_count [OF s0(1) d0, of 0] p by (simp_all add: s_def)
  have u: "umem s = program_mem" "not_idle (sk s)" "devices s p = Some ?d" "can_open s"
    using s0(2-4) d0 by (simp_all add: s_def upd_dev_def can_open_def in_use_def insert_absorb domI)
  have fl: "(0x300 :: u64) \<noteq> 0" "and 1 FILE_TY_MASK = FILE_TY_DEV" by simp_all
  have cnt: "dev_count ?d < - 1" by (simp add: word_gt_0)
  from open_and_close [OF s(1) u(2) program_mem_at(3) [OF u(1)] fl, of 0 p ?d] obtain t v s' where
    o: "krlsve_open 0x300 1 0 s = Inr (Some v, s')" "svc_inv 1024 2 1 {x} s'" "opened_on t systick_id v s s'" "still_open t s' s'"
      "dev_ids s' = dev_ids s" "devices s' = (devices s)(p \<mapsto> ?d\<lparr>dev_count := dev_count ?d + 1\<rparr>)"
    and later: "\<And>s2 d2. opened_on t systick_id v s s' \<Longrightarrow> svc_inv 1024 2 1 {x} s2 \<Longrightarrow> still_open t s' s2 \<Longrightarrow>
        dev_ids s2 = dev_ids s \<Longrightarrow> devices s2 p = Some d2 \<Longrightarrow> 1 \<le> dev_count d2 \<Longrightarrow>
      \<exists>s3. krlsve_close v s2 = Inr (Some SYSSTUS_OK, s3) \<and> svc_inv 1024 2 1 {x} s3 \<and> htab (sk s3) = htab (sk s) \<and>
        objnodes s3 = objnodes s2 |` dom (objnodes s) \<and> devices s3 = (devices s2)(p \<mapsto> d2\<lparr>dev_count := dev_count d2 - 1\<rparr>)"
    using s(2) u(3,4) cnt ids_distinct(1) by blast
  have d1: "devices s' p = Some (?d\<lparr>dev_count := 1\<rparr>)" using o(6) by simp
  from later [OF o(3,2,4,5) d1] obtain s3 where c: "krlsve_close v s' = Inr (Some SYSSTUS_OK, s3)" "htab (sk s3) = htab (sk s)"
    "objnodes s3 = objnodes s' |` dom (objnodes s)" "devices s3 = (devices s')(p \<mapsto> ?d)" by auto
  have "devices s3 = devices s" using c(4) o(6) u(3) by (simp add: fun_upd_idem)
  with u(1) o(1,3) c(1-3) show ?thesis by blast
qed

text \<open>C38: a program that opens a file that is not there stops the machine, and so does one that opens a file that is there when
  the memory service refuses any of the four buffers which opening takes.\<close>

theorem open_missing_file_panics:
  assumes "svc_inv n R l E s" "not_idle (sk s)" "can_open s" "files_are n R s m" "path_to nm (ustr s fp)" "nm_ok nm"
    and "m nm = None \<or> False \<in> set (take 4 (buf_ans s))"
    and "fp \<noteq> 0" "and flgs FILE_TY_MASK = FILE_TY_FILE" "and (drop_bit RWO_FLG_BITS flgs) RWO_FLG_MASK \<noteq> NF_FLG"
  shows "krlsve_open fp flgs st s = Inl (Panic ''open sve die^^^^^^'')"
proof -
  from the_caller [OF assms(1,2)] obtain t h where t: "krlsched_retn_currthread (sk s) = Inr t" "threads (sk s) t = Some h"
    "htab (sk s) t = Some (td_handtbl h)" by metis
  with assms(3) have "\<exists>j < 8. td_handtbl h ! j = None" "krl_ans s (krl_calls s) (in_use s) \<noteq> 0" unfolding can_open_def by blast+
  from open_fil_panics [OF assms(1) t(2) assms(10,4,5,6,7) this] t(1) assms(8,9) show ?thesis
    by (simp add: krlsve_open_def krlsve_core_open_def)
qed

theorem open_missing_file_panics_witness:
  "\<exists>s s'. umem s = program_mem \<and> krlsve_open 0x200 0 0 s = Inl (Panic ''open sve die^^^^^^'') \<and>
    files_are 1024 2 s' [nmA \<mapsto> []] \<and> umem s' = program_mem \<and> buf_ans s' = [True, False] \<and>
    krlsve_open 0x100 0 0 s' = Inl (Panic ''open sve die^^^^^^'')"
proof -
  obtain s x where s: "svc_inv 1024 2 1 {x} s" "not_idle (sk s)" "files_are 1024 2 s [nmA \<mapsto> []]" "umem s = program_mem" "can_open s"
    by (rule program_with_file)
  have p: "path_to nmB (ustr s 0x200)" unfolding program_mem_at(2) [OF s(4)] by simp
  from open_missing_file_panics [OF s(1,2,5,3) p nm_AB(2), of 0 0] have
    1: "krlsve_open 0x200 0 0 s = Inl (Panic ''open sve die^^^^^^'')" by simp
  let ?s = "s\<lparr>buf_ans := [True, False]\<rparr>"
  have "svc_inv 1024 2 1 {x} ?s" by (rule svc_follows [OF s(1)]) (simp_all add: base_invD(1) [OF svc_invD(1) [OF s(1)]])
  moreover have ids: "dev_ids ?s = dev_ids s" by (rule dev_ids_cong) simp_all
  have f: "files_are 1024 2 ?s [nmA \<mapsto> []]" using s(3) unfolding files_are_def ids by simp
  moreover have "can_open ?s" using s(5) by (simp add: can_open_def in_use_def)
  moreover have um: "umem ?s = program_mem" using s(4) by simp
  from program_mem_at(1) [OF this] have "path_to nmA (ustr ?s 0x100)" by simp
  ultimately have "krlsve_open 0x100 0 0 ?s = Inl (Panic ''open sve die^^^^^^'')"
    using s(2) by (intro open_missing_file_panics [where nm = nmA and m = "[nmA \<mapsto> []]"]) simp_all
  with 1 s(4) f um show ?thesis by (intro exI [of _ s] exI [of _ ?s]) simp
qed

text \<open>C39: what is written to the console appears on the screen exactly when it is shorter than the print buffer of 512 bytes;
  a longer string overruns the buffer on the kernel's stack.\<close>

theorem console_write:
  assumes "objnodes s a = Some ob" "ubuf s (on_bufp ob) = Inr (Some b)" "cstr b 4096 0 xs"
  shows "uart_write p (Some a) s = (if length xs < 512 then Inr (DFCOKSTUS, s\<lparr>screen := screen s @ [xs]\<rparr>) else Inl Fault)"
  using assms(1,2) print_string [OF assms(3)] by (simp add: uart_write_def krldev_retn_rqueparm_def at_def print_def)

text \<open>A packet of the program for the console, on a machine that has nothing else.\<close>

definition console_packet :: kobj where
  "console_packet = (objnode_t_init 0)\<lparr>on_opercode := 3, on_bufp := 0x4000\<rparr>"

theorem console_write_witness:
  "\<exists>s. uart_write 0 (Some 8) s = Inr (DFCOKSTUS, s\<lparr>screen := screen s @ [[104, 105]]\<rparr>)"
proof -
  let ?s = "bare\<lparr>objnodes := [8 \<mapsto> console_packet], umem := program_mem\<rparr>"
  have m: "umem ?s = program_mem" by simp
  have c: "cstr (bytes_of [104, 105]) 4096 0 [104, 105]" by (simp add: bytes_of_def cstr_Cons cstr_Nil)
  have b: "ubuf ?s (on_bufp console_packet) = Inr (Some (bytes_of [104, 105]))"
    using program_mem_at(4) [OF m] by (simp add: console_packet_def)
  have o: "objnodes ?s 8 = Some console_packet" by simp
  from console_write [OF o b c, of 0] show ?thesis by (intro exI [of _ ?s]) simp
qed

text \<open>C40: a number that is printed in any base from 4 to 16 has at most 32 digits, all of that alphabet, no leading zero, and
  the digits stand for the number; in a buffer with room for them they follow what was there.\<close>

theorem printed_number:
  assumes "4 \<le> unat base" "unat base \<le> 16"
  shows "\<exists>ds. value_of (unat base) ds = unat n \<and> ds \<noteq> [] \<and> length ds \<le> 32 \<and> set ds \<subseteq> set hexdigits \<and>
    (hd ds = 48 \<longrightarrow> ds = [48]) \<and> (\<forall>out. length out + length ds \<le> 512 \<longrightarrow> numberk out n base = Inr (out @ ds))"
  by (rule numberk_ok [OF assms])

theorem printed_number_witness:
  "\<exists>ds. value_of 16 ds = 255 \<and> ds \<noteq> [] \<and> length ds \<le> 32 \<and> numberk [] 255 16 = Inr ds"
proof -
  from printed_number [of 16 255] obtain ds where d: "value_of 16 ds = 255" "ds \<noteq> []" "length ds \<le> 32"
    "\<forall>out. length out + length ds \<le> 512 \<longrightarrow> numberk out 255 16 = Inr (out @ ds)" by auto
  from d(3) have "numberk [] 255 16 = Inr ds" using d(4) [rule_format, of "[]"] by simp
  with d show ?thesis by blast
qed

end
