(* ===== verification/Spec2Isabelle.thy ===== *)
theory Spec2Isabelle
  imports MemProps MmuProps VmaProps RfsProps SchedProps DevProps
begin

text \<open>
  Verification of the Cosmos kernel, the operating system this repository builds lesson by lesson; the version
  verified is the last one, \<open>os_in_action_45/lesson41.3(uefi)/Cosmos\<close>, and paths below are relative to it. Six
  parts of it are modelled, which are its own core logic.

  \<^bold>\<open>Conventions\<close> (CPrelude). A C integer is a word of its width and wraps where the C does. A function that can go
  wrong returns \<open>Inl\<close> of a \<open>stop\<close> or \<open>Inr\<close> of its result: \<open>Panic\<close> is a call of \<open>system_error\<close> or \<open>hal_sysdie\<close>,
  \<open>Fault\<close> an access the C does not define (a null or dangling pointer, an index outside its array, a corrupted
  list). Sequencing is \<open>andthen\<close>. The state is passed explicitly. A doubly linked list (\<open>list_h_t\<close>) is the list of
  what its nodes are embedded in. What the code takes from parts that are not modelled is an argument: the
  answers of the kernel memory service, the address spaces of new threads.

  \<^bold>\<open>The page allocator\<close> (\<open>hal/x86/memdivmer.c\<close>, with the data of \<open>memarea.c\<close> and \<open>msadsc.c\<close>): a buddy system over the
  descriptors of physical pages.
  MemTypes: the descriptors, the lists of free blocks, the areas. MemDivMer: every function of the allocator, one
  definition each; the loops over the 52 lists end because the distance to the end of the array shrinks, the
  merge of buddies because each round takes a block off a list. MemInv: the invariant, by which the lists describe
  disjoint blocks of free pages. MemSpec: the abstract content of an area, a set of blocks with best-fit splitting
  and merging. MemOrder: the order computation. MemAlloc, MemFree: each operation does on the state what its abstract
  counterpart does. MemSystem: the runs of requests and returns, which only perform the calls and note which blocks their answers
  hand out and take back; that these are free, apart and conserved is proved of them. MemProps: the properties, MemDemo the memory of
  their witnesses.

  \<^bold>\<open>The page tables\<close> (\<open>hal/x86/halmmu.c\<close>, \<open>halmmu.h\<close>): the four levels of tables of an address space, whose pages
  come from the page allocator. MemFrames: single pages of the kernel area taken and given back, the
  physical addresses of pages. Mmu: every function of \<open>halmmu.c\<close> but the dump, on a state of page allocator, memory
  contents, \<open>cr3\<close> and the descriptor of the address space. MmuTree: addresses, entries and the tables as a tree of
  depth four. MmuInv: the invariant \<open>mmu_ok\<close> (every table is a page of the right list and referenced once, the kernel
  half belongs to the kernel, the page allocator is sound and knows the tables as handed out). MmuOps: each operation
  against the walk a processor does (\<open>x86_translate\<close>). MmuSpace: the partial map from addresses to pages, the locale
  \<open>address_space\<close> with the contract of such a map and its interpretation on the page tables. MmuDemo, MmuProps: the machine
  of the witnesses and the properties. The recursion over four levels is written as four instances of one body, so no
  fuel is needed; a table for a translation can only fail to be had with fewer than three free kernel pages.

  \<^bold>\<open>The regions of user memory\<close> (\<open>kernel/krlvadrsmem.c\<close>, the services of \<open>krlsvemm.c\<close>, the page fault branch of
  \<open>hal/x86/halintupt.c\<close>): which user addresses are in use, and the pages that faults put behind them; the part stands on the page
  allocator and the page tables.
  Vma: regions, the boxes that hold their pages, and every operation: requests, returns, faults, the set-up of an address space.
  VmaRegions: regions in order and the search for a gap. VmaPages: the pages behind addresses, one page entered or removed, the
  loop over a range. VmaInv: the invariant \<open>vma_ok\<close>, by which regions, boxes and their counters, page tables and page allocator
  agree. VmaDel: ranges given back (a whole region, an end of one, a hole in one). VmaFault: page faults. VmaSystem: the first
  address space, the runs of requests, returns and faults from it, with any arguments, the kernel's own check, and the locale \<open>user_memory\<close> with the contract
  between the kernel and a program, interpreted on the two services. VmaDemo, VmaProps: the machine of the witnesses, the properties.
  The loop over a range has as fuel the pages of the range, which is enough whenever its end is a user address
  (\<open>unmap_loop_ok\<close>); running out of it is a \<open>Fault\<close>, and that the services return is a property. That a run keeps the
  regions sound has as hypotheses that sizes do not wrap around and that ranges given back start at a page, which the code does
  not check; what a size does that wraps is a property too. \<open>obj_ok\<close> states what \<open>kmsob_new\<close> promises: null or an address nobody has, and fewer than \<open>2 ^ 31\<close> descriptors, which
  the 16 GB mapped for the kernel could not hold.

  \<^bold>\<open>The RAM file system\<close> (\<open>drivers/drvrfs.c\<close>): one directory, files of one block, on a memory device.
  RfsBlk: blocks of 4096 bytes and the reads and writes of their fields. Rfs: the driver's functions over the
  device, from block access to the entry points; buffers come from the kernel, which may refuse one. RfsInv: what
  the blocks of a consistent device hold. RfsOps: creation, deletion and the file accesses on such a device.
  RfsSessions: whole sessions (open, transfer, close), the locale \<open>file_store\<close> that states the contract of a store of
  named files with what follows from it, and its interpretation on the driver. The invariant \<open>fs_inv\<close> and the relation \<open>fs_rep\<close> hold
  only while the kernel refuses no buffer (\<open>fs_inv_granted\<close>, \<open>fs_rep_disk\<close>). RfsRefuse: what the driver does when one is refused:
  opening fails and leaves the disk as it was, open files are read, written and closed as before; creations and deletions can lose
  a buffer, and a deletion can stop the machine. RfsProps: the properties, RfsDemo the
  devices of their witnesses.

  \<^bold>\<open>Threads and the scheduler\<close> (\<open>kernel/krlsched.c\<close>, \<open>krlwaitlist.c\<close>, \<open>krlsem.c\<close>, \<open>krlthread.c\<close>, \<open>krlcpuidle.c\<close>).
  Sched: threads, ready lists, waiting lists and semaphores and every operation on them; adding a thread that is on
  a list already is a \<open>Fault\<close>. SchedInv: the invariant, by which every thread is on exactly the list its status
  names and every counter is the length of its list, and what each operation does. SchedSystem: the events that can
  happen next (yield, tick, semaphore operations, exit, creation) as a step relation, its runs, and the locale
  \<open>round_robin\<close>, interpreted on the scheduler. SchedProps: the properties, SchedDemo the system of their witnesses.
  One step is one function: the spin locks disable interrupts around what each does to the shared state, and
  there is one processor.

  \<^bold>\<open>Devices, drivers and services\<close>: what the other parts meet in. A program calls a service (\<open>hal_syscl_allocator\<close>,
  \<open>krlservice.c\<close>, \<open>krlsveopen.c\<close> to \<open>krlsvelseek.c\<close>, \<open>krlsvethread.c\<close>, \<open>krltime.c\<close>); a handle of its thread leads to an object
  (\<open>krlobjnode.c\<close>), the object to a device of the table (\<open>krldevice.c\<close>), the device to its driver (\<open>drivers/drvtick.c\<close>,
  \<open>drvuart.c\<close>, \<open>drvrfs.c\<close>), whose functions are called through a table; interrupts reach the handlers of drivers
  through the descriptors of \<open>halintupt.c\<close>.
  Console: formatted output (\<open>halprint.c\<close>) into its buffer of 512 bytes. Dev: the state \<open>dst\<close> (scheduler, device table, objects,
  interrupt descriptors, clock, user memory) and the operations of devices, objects, interrupts and time. Drivers: the three
  drivers, how they are started and called. Services: the service table and every service but those of memory and of program
  files. DevSched: what these change in the scheduler. DevTable: the table of devices. DevCalls: what a driver does for any
  request it is made for, the locale \<open>device_driver\<close> with the contract between kernel and driver, interpreted on the three
  drivers. DevInv: the invariant \<open>svc_inv\<close>, by which handles, objects, devices, drivers, interrupt descriptors, the open files of the
  RAM disk and the scheduler agree. DevServe, DevReq, DevOpen: handles and requests, closing, opening. DevSystem: every service
  and interrupt returns and keeps the invariant, and the runs of both. DevBoot: the start of the kernel, from empty tables to the
  first thread. DevFile: a file or a device behind a handle, exactly. DevDemo, DevProps: the machine of the witnesses and the properties.
  A service that sleeps is one pass: it answers \<open>None\<close> and the thread calls again when it runs. The kernel memory service is the
  argument \<open>krl_ans\<close>, the answer to each call, which is null or a block nobody has; that it gives one while fewer than 4096 are in use
  is asked for the start only (\<open>power_on\<close>). What the same service answers to the buffer requests of the RAM disk is \<open>buf_ans\<close>: the next
  answers, grants after them; the event \<open>Memory\<close> of a run changes it to anything. The condition \<open>fair_service\<close> says what the kernel takes from a program unchecked:
  a pointer is null or leads to memory, a path is one short name, of a file that exists when it is opened, a string for the console is
  shorter than 512 bytes; and that no buffer is refused while a file is created, opened or deleted. What happens otherwise are properties and findings. Of an interrupt it is asked that the
  count of no semaphore is near the end of its range.

  \<^bold>\<open>Not modelled\<close>: the boot loaders and the hardware layer (ports, descriptor tables, interrupt entry, video), which
  are device access; the slab allocator \<open>kmsob.c\<close>, which is an argument; the initialisation of the page descriptors; the test harness
  inside \<open>krlvadrsmem.c\<close>; starting a program from a file of the boot image (\<open>krlthread_execvl\<close>); the network stack
  (\<open>drivers/net\<close>), which is third-party; the user programs; and the earlier lessons, which are previous versions of
  the same files.
\<close>

end
